(* ===== verification/Nmap_Prelude.thy ===== *)
theory Nmap_Prelude
  imports Main "HOL-Library.Word" "HOL-Library.Monad_Syntax" "HOL-Library.Multiset"
begin

text \<open>
  Shared vocabulary of the development.  It fixes the names of the machine integers, the
  convention for abnormal termination (a result of type \<open>'a option\<close>, where \<^const>\<open>None\<close>
  means that the C program aborts: a failed \<open>assert\<close>, \<open>fatal\<close>, \<open>bye\<close> or a read outside
  an object), the model of C strings, the functions of \<open>ctype.h\<close> in the C locale that the
  sources call, and generic lemmas on lists, options and words.
\<close>

section \<open>Machine integers\<close>

type_synonym u8 = "8 word"
type_synonym u16 = "16 word"
type_synonym u32 = "32 word"
type_synonym u64 = "64 word"

named_theorems ctype_simps \<open>unfolding rules for the ctype predicates\<close>
named_theorems cstr_simps \<open>rules on C string cursors\<close>

section \<open>Abnormal termination\<close>

text \<open>\<open>assert\<close> of C with assertions enabled: the program stops when the condition fails.\<close>

definition assert_that :: "bool \<Rightarrow> unit option" where
  "assert_that b = (if b then Some () else None)"

lemma assert_that_simps [simp]:
  "assert_that True = Some ()" "assert_that False = None"
  by (simp_all add: assert_that_def)

lemma assert_that_Some [simp]: "assert_that b = Some u \<longleftrightarrow> b"
  by (simp add: assert_that_def)

text \<open>Recursive calls below a bind may use what the bound value is.\<close>

declare Option.bind_cong [fundef_cong]

section \<open>C strings\<close>

text \<open>
  A \<open>const char *\<close> that points into a NUL-terminated string is modelled by the rest of the
  string from that position, without its terminator: the list is empty exactly when the
  pointer stands on the NUL.  Advancing the pointer drops the first character, and the
  difference of two pointers into the same string is the difference of the lengths.
\<close>

definition NUL :: char where
  "NUL = CHR 0x00"

fun deref :: "string \<Rightarrow> char" where
  "deref [] = NUL"
| "deref (c # _) = c"

definition cstr :: "string \<Rightarrow> bool" where
  "cstr s \<longleftrightarrow> NUL \<notin> set s"

text \<open>The C string held by a byte buffer: everything before the first NUL.\<close>

definition cstr_of :: "string \<Rightarrow> string" where
  "cstr_of bs = takeWhile (\<lambda>c. c \<noteq> NUL) bs"

text \<open>\<open>mkstr (p, q)\<close> copies the bytes from \<open>p\<close> up to \<open>q\<close>, a later position in the
  same string.\<close>

definition upto_ptr :: "string \<Rightarrow> string \<Rightarrow> string" where
  "upto_ptr p q = take (length p - length q) p"

lemma cstr_Nil [simp]: "cstr []"
  by (simp add: cstr_def)

lemma cstr_Cons [simp]: "cstr (c # s) \<longleftrightarrow> c \<noteq> NUL \<and> cstr s"
  by (auto simp: cstr_def)

lemma cstr_append [simp]: "cstr (s @ t) \<longleftrightarrow> cstr s \<and> cstr t"
  by (auto simp: cstr_def)

lemma cstr_take [simp]: "cstr s \<Longrightarrow> cstr (take n s)"
  by (auto simp: cstr_def dest: in_set_takeD)

lemma cstr_drop [simp]: "cstr s \<Longrightarrow> cstr (drop n s)"
  by (auto simp: cstr_def dest: in_set_dropD)

lemma cstr_dropWhile [simp]: "cstr s \<Longrightarrow> cstr (dropWhile P s)"
  by (auto simp: cstr_def dest: set_dropWhileD)

lemma cstr_takeWhile [simp]: "cstr s \<Longrightarrow> cstr (takeWhile P s)"
  by (auto simp: cstr_def dest: set_takeWhileD)

lemma cstr_cstr_of [simp]: "cstr (cstr_of bs)"
  by (auto simp: cstr_def cstr_of_def dest: set_takeWhileD)

lemma cstr_of_id: "cstr s \<Longrightarrow> cstr_of s = s"
  by (auto simp: cstr_def cstr_of_def takeWhile_eq_all_conv)

lemma deref_NUL: "cstr s \<Longrightarrow> deref s = NUL \<longleftrightarrow> s = []"
  by (cases s) auto

lemma upto_ptr_append [simp]: "upto_ptr (s @ t) t = s"
  by (simp add: upto_ptr_def)

lemma upto_ptr_self [simp]: "upto_ptr s s = []"
  by (simp add: upto_ptr_def)

lemma upto_ptr_dropWhile [simp]: "upto_ptr s (dropWhile P s) = takeWhile P s"
proof -
  have "upto_ptr (takeWhile P s @ dropWhile P s) (dropWhile P s) = takeWhile P s"
    by (rule upto_ptr_append)
  then show ?thesis by simp
qed

section \<open>Characters in the C locale\<close>

definition ordc :: "char \<Rightarrow> nat" where
  "ordc c = of_char c"

definition isdigit :: "char \<Rightarrow> bool" where
  "isdigit c \<longleftrightarrow> 48 \<le> ordc c \<and> ordc c \<le> 57"

definition isupper :: "char \<Rightarrow> bool" where
  "isupper c \<longleftrightarrow> 65 \<le> ordc c \<and> ordc c \<le> 90"

definition islower :: "char \<Rightarrow> bool" where
  "islower c \<longleftrightarrow> 97 \<le> ordc c \<and> ordc c \<le> 122"

definition isspace :: "char \<Rightarrow> bool" where
  "isspace c \<longleftrightarrow> ordc c = 32 \<or> (9 \<le> ordc c \<and> ordc c \<le> 13)"

definition iscntrl :: "char \<Rightarrow> bool" where
  "iscntrl c \<longleftrightarrow> ordc c \<le> 31 \<or> ordc c = 127"

definition isprint :: "char \<Rightarrow> bool" where
  "isprint c \<longleftrightarrow> 32 \<le> ordc c \<and> ordc c \<le> 126"

definition tolower :: "char \<Rightarrow> char" where
  "tolower c = (if isupper c then char_of (ordc c + 32) else c)"

lemmas ctype_defs = isdigit_def isupper_def islower_def isspace_def iscntrl_def
  isprint_def tolower_def ordc_def

declare ctype_defs [ctype_simps]

lemma ordc_less [simp]: "ordc c < 256"
  by (simp add: ordc_def)

lemma ordc_inject [simp]: "ordc c = ordc d \<longleftrightarrow> c = d"
  by (simp add: ordc_def)

lemma char_of_ordc [simp]: "char_of (ordc c) = c"
  by (simp add: ordc_def)

lemma ordc_char_of: "n < 256 \<Longrightarrow> ordc (char_of n) = n"
  by (simp add: ordc_def)

lemma ordc_tolower:
  "ordc (tolower c) = (if 65 \<le> ordc c \<and> ordc c \<le> 90 then ordc c + 32 else ordc c)"
  by (auto simp: tolower_def isupper_def ordc_char_of)

lemma tolower_tolower [simp]: "tolower (tolower c) = tolower c"
proof -
  have "ordc (tolower (tolower c)) = ordc (tolower c)"
    by (simp add: ordc_tolower)
  then show ?thesis by simp
qed

lemma ordc_NUL [simp]: "ordc NUL = 0"
  by (simp add: NUL_def ordc_def)

lemma ordc_eq_0 [simp]: "ordc c = 0 \<longleftrightarrow> c = NUL"
  using ordc_inject[of c NUL] by simp

lemma tolower_NUL [simp]: "tolower c = NUL \<longleftrightarrow> c = NUL"
proof -
  have "ordc (tolower c) = 0 \<longleftrightarrow> ordc c = 0" by (auto simp: ordc_tolower simp del: ordc_eq_0)
  then show ?thesis by simp
qed

section \<open>List lemmas\<close>

lemma mset_swap_hole:
  assumes "i < length xs" "j < length xs"
  shows "mset ((xs[i := xs ! j])[j := x]) = mset (xs[i := x])"
proof (cases "i = j")
  case False
  have "mset ((xs[i := x])[i := (xs[i := x]) ! j, j := (xs[i := x]) ! i]) = mset (xs[i := x])"
    using assms by (intro mset_swap) auto
  with False assms show ?thesis by (simp add: list_update_swap)
qed simp

lemma nth_takeWhile_False: "length (takeWhile P xs) < length xs \<Longrightarrow> \<not> P (xs ! length (takeWhile P xs))"
  by (simp add: nth_length_takeWhile)

lemma unat_less_u8: "unat (w :: u8) < 256"
  using unsigned_less[of w] by simp

lemma unat_less_u64: "unat (w :: u64) < 2 ^ 64"
  using unsigned_less[of w] by simp

section \<open>Conversions\<close>

text \<open>The conversion of a \<open>long\<close> to an \<open>int\<close> keeps the low 32 bits.\<close>

definition int_of_long :: "int \<Rightarrow> int" where
  "int_of_long v = signed_take_bit 31 v"

lemma int_of_long_id: "- (2 ^ 31) \<le> v \<Longrightarrow> v < 2 ^ 31 \<Longrightarrow> int_of_long v = v"
  unfolding int_of_long_def by (rule signed_take_bit_int_eq_self) simp_all

end
