(* ===== verification/Gh_Heap.thy ===== *)
theory Gh_Heap
  imports Nmap_Prelude
begin

text \<open>
  The intrusive binary heap of nsock, \<open>nsock/src/gh_heap.c\<close> and the inline functions of
  \<open>gh_heap.h\<close>.  A node is a reference of type \<open>'n\<close>; the \<open>index\<close> field every
  \<open>gh_hnode_t\<close> carries is the function \<open>node_index\<close> of the store, and \<open>slots\<close> is the
  allocated pointer array, whose uninitialised cells are \<^const>\<open>None\<close>.  Every \<open>assert\<close>
  of the source is a branch to \<^const>\<open>None\<close>.
\<close>

section \<open>Data\<close>

record 'n gh_heap =
  cmp_op :: "'n \<Rightarrow> 'n \<Rightarrow> bool"
  count :: nat
  highwm :: nat
  slots :: "'n option list"
  node_index :: "'n \<Rightarrow> nat"

definition GH_SLOTS :: nat where
  "GH_SLOTS = 128"

definition GH_HEAP_GUARD :: nat where
  "GH_HEAP_GUARD = 0x19890721"

definition gh_hnode_invalidate :: "'n gh_heap \<Rightarrow> 'n \<Rightarrow> 'n gh_heap" where
  "gh_hnode_invalidate h n = h\<lparr>node_index := (node_index h)(n := GH_HEAP_GUARD)\<rparr>"

definition gh_hnode_is_valid :: "'n gh_heap \<Rightarrow> 'n \<Rightarrow> bool" where
  "gh_hnode_is_valid h n \<longleftrightarrow> node_index h n \<noteq> GH_HEAP_GUARD"

section \<open>Operations\<close>

text \<open>\<open>hnode_ptr\<close> returns the address of a slot, here its position; \<open>slot_read\<close> is the
  dereference of that address.\<close>

definition hnode_ptr :: "'n gh_heap \<Rightarrow> nat \<Rightarrow> nat option" where
  "hnode_ptr h i = (if i \<le> count h then Some i else None)"

definition slot_read :: "'n gh_heap \<Rightarrow> nat \<Rightarrow> 'n option" where
  "slot_read h i = (if i < length (slots h) then slots h ! i else None)"

text \<open>The two stores \<open>n->index = i; *slot = n\<close> that place a node.\<close>

definition place :: "'n gh_heap \<Rightarrow> 'n \<Rightarrow> nat \<Rightarrow> 'n gh_heap" where
  "place h n i = h\<lparr>node_index := (node_index h)(n := i), slots := (slots h)[i := Some n]\<rparr>"

definition gh_heap_find :: "'n gh_heap \<Rightarrow> nat \<Rightarrow> 'n option option" where
  "gh_heap_find h i =
     (if i \<ge> count h then Some None
      else do { p \<leftarrow> hnode_ptr h i; n \<leftarrow> slot_read h p; Some (Some n) })"

function hnode_up_loop :: "'n gh_heap \<Rightarrow> 'n \<Rightarrow> nat \<Rightarrow> bool \<Rightarrow> ('n gh_heap \<times> nat \<times> bool) option" where
  "hnode_up_loop h hnode cur_idx action =
     (if cur_idx > 0 then do {
        let parent_idx = (cur_idx - 1) div 2;
        parent_ptr \<leftarrow> hnode_ptr h parent_idx;
        parent \<leftarrow> slot_read h parent_ptr;
        assert_that (node_index h parent = parent_idx);
        if cmp_op h parent hnode then Some (h, cur_idx, action)
        else hnode_up_loop (place h parent cur_idx) hnode parent_idx True
      } else Some (h, cur_idx, action))"
  by pat_completeness auto
termination
  by (relation "measure (\<lambda>(h, n, i, a). i)") auto

definition hnode_up :: "'n gh_heap \<Rightarrow> 'n \<Rightarrow> ('n gh_heap \<times> bool) option" where
  "hnode_up h hnode = do {
     cur_ptr \<leftarrow> hnode_ptr h (node_index h hnode);
     n \<leftarrow> slot_read h cur_ptr;
     assert_that (n = hnode);
     (h', cur_idx, action) \<leftarrow> hnode_up_loop h hnode (node_index h hnode) False;
     Some (place h' hnode cur_idx, action)
   }"

text \<open>The choice of the smaller child inside \<open>hnode_down\<close>.\<close>

definition down_child :: "'n gh_heap \<Rightarrow> nat \<Rightarrow> nat \<Rightarrow> (nat \<times> 'n) option" where
  "down_child h cnt ch1_idx = do {
     ch1_ptr \<leftarrow> hnode_ptr h ch1_idx;
     ch1 \<leftarrow> slot_read h ch1_ptr;
     let ch2_idx = ch1_idx + 1;
     if ch2_idx < cnt then do {
       ch2_ptr \<leftarrow> hnode_ptr h ch2_idx;
       ch2 \<leftarrow> slot_read h ch2_ptr;
       Some (if cmp_op h ch2 ch1 then (ch2_idx, ch2) else (ch1_idx, ch1))
     } else Some (ch1_idx, ch1)
   }"

lemma down_child_bounds:
  "down_child h cnt i = Some (ci, c) \<Longrightarrow> i < cnt \<Longrightarrow> i \<le> ci \<and> ci < cnt"
  by (auto simp: down_child_def Option.bind_eq_Some_conv split: if_splits)

function hnode_down_loop :: "'n gh_heap \<Rightarrow> 'n \<Rightarrow> nat \<Rightarrow> nat \<Rightarrow> bool \<Rightarrow> ('n gh_heap \<times> nat \<times> bool) option" where
  "hnode_down_loop h hnode cnt cur_idx action =
     (if cur_idx < cnt then
        let ch1_idx = 2 * cur_idx + 1 in
        if ch1_idx \<ge> cnt then Some (h, cur_idx, action)
        else do {
          (ci, c) \<leftarrow> down_child h cnt ch1_idx;
          assert_that (node_index h c = ci);
          if cmp_op h hnode c then Some (h, cur_idx, action)
          else hnode_down_loop (place h c cur_idx) hnode cnt ci True
        }
      else Some (h, cur_idx, action))"
  by pat_completeness auto
termination
  by (relation "measure (\<lambda>(h, n, cnt, i, a). cnt - i)")
    (auto dest!: down_child_bounds)

definition hnode_down :: "'n gh_heap \<Rightarrow> 'n \<Rightarrow> ('n gh_heap \<times> bool) option" where
  "hnode_down h hnode = do {
     cur_ptr \<leftarrow> hnode_ptr h (node_index h hnode);
     n \<leftarrow> slot_read h cur_ptr;
     assert_that (n = hnode);
     (h', cur_idx, action) \<leftarrow> hnode_down_loop h hnode (count h) (node_index h hnode) False;
     Some (place h' hnode cur_idx, action)
   }"

definition heap_grow :: "'n gh_heap \<Rightarrow> 'n gh_heap option" where
  "heap_grow h = do {
     assert_that (count h = highwm h);
     let newsize = count h + GH_SLOTS;
     Some (h\<lparr>slots := take newsize (slots h) @ replicate (newsize - length (slots h)) None,
             highwm := highwm h + GH_SLOTS\<rparr>)
   }"

text \<open>The store (the \<open>index\<close> fields of the nodes that exist) is an argument of the
  initialisation; a NULL comparison function is refused with -1.\<close>

definition gh_heap_init ::
  "('n \<Rightarrow> nat) \<Rightarrow> ('n \<Rightarrow> 'n \<Rightarrow> bool) option \<Rightarrow> (int \<times> 'n gh_heap option) option" where
  "gh_heap_init store cmp =
     (case cmp of None \<Rightarrow> Some (-1, None)
      | Some c \<Rightarrow> do {
          h \<leftarrow> heap_grow \<lparr>cmp_op = c, count = 0, highwm = 0, slots = [], node_index = store\<rparr>;
          Some (0, Some h) })"

definition gh_heap_push :: "'n gh_heap \<Rightarrow> 'n \<Rightarrow> 'n gh_heap option" where
  "gh_heap_push h hnode = do {
     let new_index = count h;
     assert_that (\<not> gh_hnode_is_valid h hnode);
     h1 \<leftarrow> (if new_index = highwm h then heap_grow h else Some h);
     new_ptr \<leftarrow> hnode_ptr h1 new_index;
     let h2 = (place h1 hnode new_ptr)\<lparr>count := count h1 + 1\<rparr>;
     (h3, _) \<leftarrow> hnode_up h2 hnode;
     Some h3
   }"

definition gh_heap_remove :: "'n gh_heap \<Rightarrow> 'n \<Rightarrow> 'n gh_heap option" where
  "gh_heap_remove h hnode = do {
     let cur_idx = node_index h hnode;
     assert_that (gh_hnode_is_valid h hnode);
     assert_that (cur_idx < count h);
     cur_ptr \<leftarrow> hnode_ptr h cur_idx;
     n \<leftarrow> slot_read h cur_ptr;
     assert_that (n = hnode);
     last_ptr \<leftarrow> hnode_ptr h (count h - 1);
     lst \<leftarrow> slot_read h last_ptr;
     let h1 = h\<lparr>count := count h - 1\<rparr>;
     if lst = hnode then Some h1
     else do {
       (h2, moved) \<leftarrow> hnode_up (place h1 lst cur_idx) lst;
       h3 \<leftarrow> (if \<not> moved then map_option fst (hnode_down h2 lst) else Some h2);
       Some (gh_hnode_invalidate h3 hnode)
     }
   }"

definition gh_heap_min :: "'n gh_heap \<Rightarrow> 'n option option" where
  "gh_heap_min h = (if count h = 0 then Some None else gh_heap_find h 0)"

definition gh_heap_pop :: "'n gh_heap \<Rightarrow> ('n option \<times> 'n gh_heap) option" where
  "gh_heap_pop h = do {
     r \<leftarrow> gh_heap_find h 0;
     case r of None \<Rightarrow> Some (None, h)
     | Some n \<Rightarrow> do { h' \<leftarrow> gh_heap_remove h n; Some (Some n, h') }
   }"

definition gh_heap_count :: "'n gh_heap \<Rightarrow> nat" where
  "gh_heap_count h = count h"

definition gh_heap_is_empty :: "'n gh_heap \<Rightarrow> bool" where
  "gh_heap_is_empty h \<longleftrightarrow> count h = 0"

declare hnode_up_loop.simps [simp del] hnode_down_loop.simps [simp del]

section \<open>Well-formed heaps\<close>

text \<open>\<open>par i\<close> is the parent position; \<open>node_at h i\<close> the node in slot \<open>i\<close>; \<open>elems h\<close> the
  nodes in the live part of the array.  A heap is well formed when the array is allocated up to
  \<open>highwm\<close> and every live slot holds a node that records the slot's own position.\<close>

abbreviation par :: "nat \<Rightarrow> nat" where
  "par i \<equiv> (i - 1) div 2"

definition node_at :: "'n gh_heap \<Rightarrow> nat \<Rightarrow> 'n" where
  "node_at h i = the (slots h ! i)"

definition elems :: "'n gh_heap \<Rightarrow> 'n list" where
  "elems h = map the (take (count h) (slots h))"

definition heap_wf :: "'n gh_heap \<Rightarrow> bool" where
  "heap_wf h \<longleftrightarrow> length (slots h) = highwm h \<and> count h \<le> highwm h \<and>
     (\<forall>i < count h. \<exists>n. slots h ! i = Some n \<and> node_index h n = i)"

text \<open>What the sifting loops leave alone.\<close>

definition same_shape :: "'n gh_heap \<Rightarrow> 'n gh_heap \<Rightarrow> bool" where
  "same_shape h h' \<longleftrightarrow> count h' = count h \<and> highwm h' = highwm h \<and>
     length (slots h') = length (slots h) \<and> cmp_op h' = cmp_op h"

lemma same_shape_refl [simp]: "same_shape h h"
  by (simp add: same_shape_def)

lemma same_shape_trans: "same_shape h h' \<Longrightarrow> same_shape h' h'' \<Longrightarrow> same_shape h h''"
  by (simp add: same_shape_def)

lemma place_sel [simp]:
  "count (place h n i) = count h" "highwm (place h n i) = highwm h"
  "cmp_op (place h n i) = cmp_op h" "slots (place h n i) = (slots h)[i := Some n]"
  "node_index (place h n i) = (node_index h)(n := i)" "same_shape h (place h n i)"
  by (simp_all add: place_def same_shape_def)

lemma node_at_place: "i < length (slots h) \<Longrightarrow>
  node_at (place h n i) j = (if j = i then n else node_at h j)"
  by (simp add: node_at_def)

lemma heap_wf_slot:
  "heap_wf h \<Longrightarrow> i < count h \<Longrightarrow> slots h ! i = Some (node_at h i) \<and> node_index h (node_at h i) = i"
  unfolding heap_wf_def node_at_def by force

lemma heap_wf_read [simp]:
  "heap_wf h \<Longrightarrow> i < count h \<Longrightarrow> slot_read h i = Some (node_at h i)"
  using heap_wf_slot[of h i] by (auto simp: slot_read_def heap_wf_def)

lemma hnode_ptr_le [simp]: "i \<le> count h \<Longrightarrow> hnode_ptr h i = Some i"
  by (simp add: hnode_ptr_def)

lemma elems_nth: "heap_wf h \<Longrightarrow> i < count h \<Longrightarrow> elems h ! i = node_at h i"
  by (simp add: elems_def node_at_def heap_wf_def)

lemma length_elems: "heap_wf h \<Longrightarrow> length (elems h) = count h"
  by (simp add: elems_def heap_wf_def)

lemma in_elems: "heap_wf h \<Longrightarrow> n \<in> set (elems h) \<longleftrightarrow> (\<exists>i < count h. node_at h i = n)"
  by (metis elems_nth in_set_conv_nth length_elems)

lemma elems_index: "heap_wf h \<Longrightarrow> n \<in> set (elems h) \<Longrightarrow> node_index h n < count h \<and> node_at h (node_index h n) = n"
  by (metis heap_wf_slot in_elems)

lemma distinct_elems: "heap_wf h \<Longrightarrow> distinct (elems h)"
  by (metis distinct_conv_nth elems_nth heap_wf_slot length_elems)

lemma node_at_inj: "heap_wf h \<Longrightarrow> i < count h \<Longrightarrow> j < count h \<Longrightarrow> node_at h i = node_at h j \<Longrightarrow> i = j"
  by (metis heap_wf_slot)

lemma elems_place:
  "i < count h \<Longrightarrow> count h \<le> length (slots h) \<Longrightarrow> elems (place h n i) = (elems h)[i := n]"
  by (simp add: elems_def take_update_swap map_update)

section \<open>Sifting up\<close>

text \<open>During a loop the node being moved is not stored: \<open>place h hnode cur\<close> is the heap with
  the node put back at the current position, and the loop invariants are stated of it.
  One iteration swaps the moving node with its parent there.\<close>

lemma place_step:
  assumes wf: "heap_wf (place h hn c)" and c: "c < count h" and p: "p < count h" "p \<noteq> c"
  defines "x \<equiv> node_at h p"
  shows "heap_wf (place (place h x c) hn p)"
    and "x \<noteq> hn"
    and "slots h ! p = Some x" and "node_index h x = p"
    and "mset (elems (place (place h x c) hn p)) = mset (elems (place h hn c))"
proof -
  have len: "count h \<le> length (slots h)" using wf by (simp add: heap_wf_def)
  have slot: "(slots h)[c := Some hn] ! i = Some (node_at (place h hn c) i) \<and>
      ((node_index h)(hn := c)) (node_at (place h hn c) i) = i" if "i < count h" for i
    using heap_wf_slot[OF wf, of i] that by simp
  have at: "node_at (place h hn c) i = (if i = c then hn else node_at h i)" for i
    using c len by (simp add: node_at_place)
  show neq: "x \<noteq> hn" using slot[of p] p by (auto simp: at x_def split: if_splits)
  show sp: "slots h ! p = Some x" using slot[of p] p by (simp add: at x_def)
  show ip: "node_index h x = p" using slot[of p] p neq by (simp add: at x_def)
  show "heap_wf (place (place h x c) hn p)"
    unfolding heap_wf_def
  proof (intro conjI allI impI)
    fix i assume i: "i < count (place (place h x c) hn p)"
    then show "\<exists>n. slots (place (place h x c) hn p) ! i = Some n \<and>
        node_index (place (place h x c) hn p) n = i"
      using slot[of i] slot[of c] p c len neq ip
      by (cases "i = p"; cases "i = c") (auto simp: at nth_list_update split: if_splits)
  qed (use wf len in \<open>auto simp: heap_wf_def\<close>)
  have "elems (place (place h x c) hn p) = (elems h)[c := elems h ! p, p := hn]"
  proof -
    have "elems h ! p = x" using p len sp by (simp add: elems_def)
    then show ?thesis using p c len by (simp add: elems_place)
  qed
  moreover have "length (elems h) = count h" using len by (simp add: elems_def)
  ultimately show "mset (elems (place (place h x c) hn p)) = mset (elems (place h hn c))"
    using p c len by (simp add: mset_swap_hole elems_place)
qed

lemma hnode_up_loop_spec:
  assumes "heap_wf (place h hn c)" "c < count h"
  shows "\<exists>h' c' act'. hnode_up_loop h hn c act = Some (h', c', act') \<and> heap_wf (place h' hn c') \<and>
     c' \<le> c \<and> same_shape h h' \<and> mset (elems (place h' hn c')) = mset (elems (place h hn c)) \<and>
     act' = (act \<or> c' \<noteq> c) \<and> (c' = c \<longrightarrow> h' = h) \<and>
     (0 < c' \<longrightarrow> cmp_op h (node_at h' (par c')) hn) \<and>
     (\<forall>x. x \<notin> set (elems (place h hn c)) \<longrightarrow> node_index h' x = node_index h x)"
  using assms
proof (induction h hn c act rule: hnode_up_loop.induct)
  case (1 h hn c act)
  show ?case
  proof (cases "c = 0")
    case True
    then show ?thesis using "1.prems" by (subst hnode_up_loop.simps) simp
  next
    case c0: False
    define x where "x = node_at h (par c)"
    have p: "par c < count h" "par c \<noteq> c" using c0 "1.prems"(2) by auto
    note st = place_step[OF "1.prems" p, folded x_def]
    have rd: "slot_read h (par c) = Some x"
      using st(3) p "1.prems"(1) by (auto simp: slot_read_def heap_wf_def)
    show ?thesis
    proof (cases "cmp_op h x hn")
      case True
      with c0 rd p st(4) "1.prems" show ?thesis
        by (subst hnode_up_loop.simps) (simp add: x_def)
    next
      case False
      have eq: "hnode_up_loop h hn c act = hnode_up_loop (place h x c) hn (par c) True"
        using c0 rd p st(4) False by (subst hnode_up_loop.simps) simp
      obtain h' c' act' where r: "hnode_up_loop (place h x c) hn (par c) True = Some (h', c', act')"
        "heap_wf (place h' hn c')" "c' \<le> par c" "same_shape (place h x c) h'"
        "mset (elems (place h' hn c')) = mset (elems (place (place h x c) hn (par c)))"
        "act' = (True \<or> c' \<noteq> par c)" "0 < c' \<longrightarrow> cmp_op h (node_at h' (par c')) hn"
        "\<And>y. y \<notin> set (elems (place (place h x c) hn (par c))) \<longrightarrow>
            node_index h' y = node_index (place h x c) y"
        using "1.IH"[OF _ refl _ _ _ False] c0 rd p st(1,4) by auto
      have ss: "same_shape h h'" by (rule same_shape_trans[OF _ r(4)]) simp
      have set_eq: "set (elems (place (place h x c) hn (par c))) = set (elems (place h hn c))"
        using st(5) by (metis set_mset_mset)
      have "x \<in> set (elems (place h hn c))"
        using in_elems[OF "1.prems"(1), of x] p "1.prems" c0
        by (auto simp: node_at_place x_def heap_wf_def intro!: exI[of _ "par c"])
      then have "node_index h' y = node_index h y" if "y \<notin> set (elems (place h hn c))" for y
        using r(8)[of y] that set_eq by auto
      with r st(5) c0 eq ss show ?thesis by (auto simp: le_less_trans)
    qed
  qed
qed

text \<open>The order is that of a key: \<open>cmp_op\<close> answers whether the first node's key is smaller.
  \<open>ordered_up\<close> and \<open>ordered_down\<close> are the heap order with one violation at \<open>c\<close>, towards
  the parent or towards the children.\<close>

definition by_key :: "('n \<Rightarrow> 'k::linorder) \<Rightarrow> 'n gh_heap \<Rightarrow> bool" where
  "by_key key h \<longleftrightarrow> cmp_op h = (\<lambda>a b. key a < key b)"

definition heap_ordered :: "('n \<Rightarrow> 'k::linorder) \<Rightarrow> 'n gh_heap \<Rightarrow> bool" where
  "heap_ordered key h \<longleftrightarrow>
     (\<forall>i < count h. 0 < i \<longrightarrow> key (node_at h (par i)) \<le> key (node_at h i))"

definition ordered_up :: "('n \<Rightarrow> 'k::linorder) \<Rightarrow> 'n gh_heap \<Rightarrow> nat \<Rightarrow> bool" where
  "ordered_up key h c \<longleftrightarrow>
     (\<forall>i < count h. 0 < i \<and> i \<noteq> c \<longrightarrow> key (node_at h (par i)) \<le> key (node_at h i)) \<and>
     (\<forall>i < count h. 0 < i \<and> par i = c \<and> 0 < c \<longrightarrow> key (node_at h (par c)) \<le> key (node_at h i))"

definition ordered_down :: "('n \<Rightarrow> 'k::linorder) \<Rightarrow> 'n gh_heap \<Rightarrow> nat \<Rightarrow> bool" where
  "ordered_down key h c \<longleftrightarrow>
     (\<forall>i < count h. 0 < i \<and> par i \<noteq> c \<longrightarrow> key (node_at h (par i)) \<le> key (node_at h i)) \<and>
     (\<forall>i < count h. 0 < i \<and> par i = c \<and> 0 < c \<longrightarrow> key (node_at h (par c)) \<le> key (node_at h i))"

lemma ordered_up_edge:
  "ordered_up key h c \<Longrightarrow> i < count h \<Longrightarrow> 0 < i \<Longrightarrow> i \<noteq> c \<Longrightarrow> key (node_at h (par i)) \<le> key (node_at h i)"
  by (simp add: ordered_up_def)

lemma ordered_up_skip:
  "ordered_up key h c \<Longrightarrow> i < count h \<Longrightarrow> 0 < i \<Longrightarrow> par i = c \<Longrightarrow> 0 < c \<Longrightarrow>
   key (node_at h (par c)) \<le> key (node_at h i)"
  unfolding ordered_up_def by blast

lemma par_less: "0 < i \<Longrightarrow> par i < i"
  by linarith

lemma ordered_up_step:
  assumes wf: "heap_wf (place h hn c)" and c: "c < count h" "0 < c"
    and ord: "ordered_up key (place h hn c) c"
    and le: "key hn \<le> key (node_at h (par c))"
  shows "ordered_up key (place (place h (node_at h (par c)) c) hn (par c)) (par c)"
proof -
  let ?x = "node_at h (par c)" and ?B = "place (place h (node_at h (par c)) c) hn (par c)"
  let ?a = "\<lambda>i. node_at (place h hn c) i"
  have len: "count h \<le> length (slots h)" using wf by (simp add: heap_wf_def)
  have pc: "par c < c" using c by auto
  have a: "?a i = (if i = c then hn else node_at h i)" for i
    using c len by (simp add: node_at_place)
  have b: "node_at ?B i = (if i = par c then hn else if i = c then ?x else node_at h i)" for i
    using c len pc by (simp add: node_at_place)
  note E = ordered_up_edge[OF ord] and S = ordered_up_skip[OF ord]
  have e: "key (node_at ?B (par i)) \<le> key (node_at ?B i)"
    if i: "i < count h" "0 < i" "i \<noteq> par c" for i
  proof -
    have pi: "par i < i" using i by auto
    show ?thesis
      using E[of i] S[of i] i pi pc c le unfolding a b by (force split: if_splits)
  qed
  have s: "key (node_at ?B (par (par c))) \<le> key (node_at ?B i)"
    if i: "i < count h" "0 < i" "par i = par c" "0 < par c" for i
  proof -
    have pi: "par (par c) < par c" by (rule par_less[OF i(4)])
    have "key (?a (par (par c))) \<le> key (?a (par c))" using E[of "par c"] i pc c by simp
    moreover have "i \<noteq> c \<Longrightarrow> key (?a (par c)) \<le> key (?a i)" using E[of i] i by simp
    ultimately show ?thesis using pi pc i unfolding a b by (auto split: if_splits)
  qed
  from e s show ?thesis unfolding ordered_up_def by simp
qed

lemma hnode_up_loop_ordered:
  assumes "heap_wf (place h hn c)" "c < count h" "by_key key h"
    "ordered_up key (place h hn c) c" "hnode_up_loop h hn c act = Some (h', c', act')"
  shows "heap_ordered key (place h' hn c')"
  using assms
proof (induction h hn c act rule: hnode_up_loop.induct)
  case (1 h hn c act)
  show ?case
  proof (cases "c = 0")
    case True
    with "1.prems" have "h' = h" "c' = 0" by (simp_all add: hnode_up_loop.simps)
    with "1.prems"(4) True show ?thesis by (simp add: heap_ordered_def ordered_up_def)
  next
    case c0: False
    define x where "x = node_at h (par c)"
    have p: "par c < count h" "par c \<noteq> c" using c0 "1.prems"(2) by auto
    note st = place_step[OF "1.prems"(1,2) p, folded x_def]
    have rd: "slot_read h (par c) = Some x"
      using st(3) p "1.prems"(1) by (auto simp: slot_read_def heap_wf_def)
    show ?thesis
    proof (cases "cmp_op h x hn")
      case True
      with c0 rd p st(4) "1.prems"(5) have "h' = h" "c' = c"
        by (simp_all add: hnode_up_loop.simps[of h])
      have "key (node_at (place h hn c) (par c)) \<le> key (node_at (place h hn c) c)"
        using True "1.prems"(1,2,3) p by (simp add: by_key_def node_at_place heap_wf_def x_def)
      with \<open>h' = h\<close> \<open>c' = c\<close> "1.prems"(4) show ?thesis
        unfolding heap_ordered_def ordered_up_def by blast
    next
      case False
      have "hnode_up_loop (place h x c) hn (par c) True = Some (h', c', act')"
        using c0 rd p st(4) False "1.prems"(5) by (simp add: hnode_up_loop.simps[of h])
      moreover have "ordered_up key (place (place h x c) hn (par c)) (par c)"
        unfolding x_def using "1.prems" c0 False
        by (intro ordered_up_step) (auto simp: by_key_def x_def)
      moreover have "by_key key (place h x c)" using "1.prems"(3) by (simp add: by_key_def)
      ultimately show ?thesis
        using "1.IH"[OF _ refl _ _ _ False] c0 rd p st(1,4) by auto
    qed
  qed
qed

section \<open>Sifting down\<close>

lemma down_child_spec:
  assumes wf: "heap_wf (place h hn c)" and c: "2 * c + 1 < count h"
  obtains ci where "down_child h (count h) (2 * c + 1) = Some (ci, node_at h ci)"
    "par ci = c" "c < ci" "ci < count h" "0 < ci"
    "\<And>key i. by_key key h \<Longrightarrow> i < count h \<Longrightarrow> 0 < i \<Longrightarrow> par i = c \<Longrightarrow>
       key (node_at h ci) \<le> key (node_at h i)"
proof -
  have rd: "slot_read h i = Some (node_at h i)" if "i < count h" "i \<noteq> c" for i
    using heap_wf_slot[OF wf, of i] wf that c
    by (auto simp: slot_read_def heap_wf_def node_at_place)
  have kids: "i = 2 * c + 1 \<or> i = 2 * c + 2" if "0 < i" "par i = c" for i
    using that by presburger
  define ci where "ci = (if 2 * c + 2 < count h \<and> cmp_op h (node_at h (2 * c + 2)) (node_at h (2 * c + 1))
    then 2 * c + 2 else 2 * c + 1)"
  show thesis
  proof (rule that[of ci])
    show "down_child h (count h) (2 * c + 1) = Some (ci, node_at h ci)"
      using c by (simp add: down_child_def rd ci_def)
    show "key (node_at h ci) \<le> key (node_at h i)"
      if "by_key key h" "i < count h" "0 < i" "par i = c" for key :: "'a \<Rightarrow> 'k::linorder" and i
    proof -
      have k: "cmp_op h = (\<lambda>a b. key a < key b)" using that(1) by (simp add: by_key_def)
      from kids[OF that(3,4)] show ?thesis
      proof
        assume "i = 2 * c + 1"
        then show ?thesis by (simp add: ci_def k less_imp_le)
      next
        assume "i = 2 * c + 2"
        then show ?thesis using that(2) by (simp add: ci_def k not_less)
      qed
    qed
  qed (use c in \<open>auto simp: ci_def\<close>)
qed

lemma hnode_down_loop_unfold:
  assumes wf: "heap_wf (place h hn c)" and c: "2 * c + 1 < count h"
    and dc: "down_child h (count h) (2 * c + 1) = Some (ci, x)" and ix: "node_index h x = ci"
  shows "hnode_down_loop h hn (count h) c act =
    (if cmp_op h hn x then Some (h, c, act) else hnode_down_loop (place h x c) hn (count h) ci True)"
  using c dc ix by (subst hnode_down_loop.simps) simp

lemma hnode_down_loop_stop:
  "count h \<le> 2 * c + 1 \<Longrightarrow> hnode_down_loop h hn (count h) c act = Some (h, c, act)"
  by (subst hnode_down_loop.simps) (simp add: Let_def)

lemma hnode_down_loop_spec:
  assumes "heap_wf (place h hn c)" "c < count h" "cnt = count h"
  shows "\<exists>h' c' act'. hnode_down_loop h hn cnt c act = Some (h', c', act') \<and> heap_wf (place h' hn c') \<and>
     c' < count h \<and> same_shape h h' \<and> mset (elems (place h' hn c')) = mset (elems (place h hn c)) \<and>
     (\<forall>x. x \<notin> set (elems (place h hn c)) \<longrightarrow> node_index h' x = node_index h x)"
  using assms
proof (induction h hn cnt c act rule: hnode_down_loop.induct)
  case (1 h hn cnt c act)
  show ?case
  proof (cases "2 * c + 1 < count h")
    case False
    then show ?thesis using "1.prems" hnode_down_loop_stop[of h c hn act] by simp
  next
    case True
    obtain ci where ci: "down_child h (count h) (2 * c + 1) = Some (ci, node_at h ci)"
      "par ci = c" "c < ci" "ci < count h"
      using down_child_spec[OF "1.prems"(1) True] by blast
    define x where "x = node_at h ci"
    note st = place_step[OF "1.prems"(1,2) ci(4), folded x_def]
    have ix: "node_index h x = ci" using st ci by simp
    show ?thesis
    proof (cases "cmp_op h hn x")
      case T: True
      then show ?thesis
        using hnode_down_loop_unfold[OF "1.prems"(1) True ci(1) ix[unfolded x_def]] "1.prems"
        by (simp add: x_def)
    next
      case F: False
      have eq: "hnode_down_loop h hn cnt c act = hnode_down_loop (place h x c) hn cnt ci True"
        using hnode_down_loop_unfold[OF "1.prems"(1) True ci(1) ix[unfolded x_def]] F "1.prems"(3)
        by (simp add: x_def)
      obtain h' c' act' where r: "hnode_down_loop (place h x c) hn cnt ci True = Some (h', c', act')"
        "heap_wf (place h' hn c')" "c' < count h" "same_shape (place h x c) h'"
        "mset (elems (place h' hn c')) = mset (elems (place (place h x c) hn ci))"
        "\<And>y. y \<notin> set (elems (place (place h x c) hn ci)) \<longrightarrow>
            node_index h' y = node_index (place h x c) y"
        using "1.IH"[OF "1.prems"(2)[folded "1.prems"(3)] refl _ ci(1)[folded "1.prems"(3) x_def] refl _ F]
          True st(1) ci ix "1.prems" by auto
      have ss: "same_shape h h'" by (rule same_shape_trans[OF _ r(4)]) simp
      have set_eq: "set (elems (place (place h x c) hn ci)) = set (elems (place h hn c))"
        using st(5) ci by (metis less_not_refl set_mset_mset)
      have "x \<in> set (elems (place h hn c))"
        using in_elems[OF "1.prems"(1), of x] ci "1.prems"
        by (auto simp: node_at_place x_def heap_wf_def intro!: exI[of _ ci])
      then have "node_index h' y = node_index h y" if "y \<notin> set (elems (place h hn c))" for y
        using r(6)[of y] that set_eq by auto
      with r st(5) ci eq ss show ?thesis by auto
    qed
  qed
qed

lemma ordered_down_edge:
  "ordered_down key h c \<Longrightarrow> i < count h \<Longrightarrow> 0 < i \<Longrightarrow> par i \<noteq> c \<Longrightarrow> key (node_at h (par i)) \<le> key (node_at h i)"
  by (simp add: ordered_down_def)

lemma ordered_down_skip:
  "ordered_down key h c \<Longrightarrow> i < count h \<Longrightarrow> 0 < i \<Longrightarrow> par i = c \<Longrightarrow> 0 < c \<Longrightarrow>
   key (node_at h (par c)) \<le> key (node_at h i)"
  unfolding ordered_down_def by blast

lemma ordered_down_done:
  "ordered_down key h c \<Longrightarrow> (\<And>i. i < count h \<Longrightarrow> 0 < i \<Longrightarrow> par i = c \<Longrightarrow> key (node_at h c) \<le> key (node_at h i)) \<Longrightarrow>
   heap_ordered key h"
  unfolding heap_ordered_def ordered_down_def by metis

lemma ordered_down_step:
  assumes wf: "heap_wf (place h hn c)" and c: "par ci = c" "c < ci" "ci < count h"
    and ord: "ordered_down key (place h hn c) c"
    and least: "\<And>i. i < count h \<Longrightarrow> 0 < i \<Longrightarrow> par i = c \<Longrightarrow> key (node_at h ci) \<le> key (node_at h i)"
    and le: "key (node_at h ci) \<le> key hn"
  shows "ordered_down key (place (place h (node_at h ci) c) hn ci) ci"
proof -
  let ?B = "place (place h (node_at h ci) c) hn ci" and ?a = "\<lambda>i. node_at (place h hn c) i"
  have len: "count h \<le> length (slots h)" using wf by (simp add: heap_wf_def)
  have a: "?a i = (if i = c then hn else node_at h i)" for i
    using c len by (simp add: node_at_place)
  have b: "node_at ?B i = (if i = ci then hn else if i = c then node_at h ci else node_at h i)" for i
    using c len by (simp add: node_at_place)
  note E = ordered_down_edge[OF ord] and S = ordered_down_skip[OF ord]
  have e: "key (node_at ?B (par i)) \<le> key (node_at ?B i)"
    if i: "i < count h" "0 < i" "par i \<noteq> ci" for i
  proof -
    consider "i = c" | "i = ci" | "i \<noteq> c" "i \<noteq> ci" "par i = c" | "i \<noteq> c" "i \<noteq> ci" "par i \<noteq> c"
      by blast
    then show ?thesis
    proof cases
      case 1
      then have "key (?a (par c)) \<le> key (?a ci)" using S[of ci] c i by simp
      moreover have "par c < c" using par_less 1 i by blast
      ultimately show ?thesis unfolding a b 1 using c i 1 by auto
    next
      case 2
      then show ?thesis using c le unfolding b by simp
    next
      case 3
      then show ?thesis using least[of i] i c unfolding b by simp
    next
      case 4
      then show ?thesis using E[of i] i unfolding a b by simp
    qed
  qed
  have s: "key (node_at ?B (par ci)) \<le> key (node_at ?B i)" if i: "i < count h" "0 < i" "par i = ci" for i
  proof -
    have "i \<noteq> ci" "i \<noteq> c" using par_less[OF i(2)] i c by auto
    moreover have "key (?a ci) \<le> key (?a i)" using E[of i] i c by simp
    ultimately show ?thesis using c i unfolding a b by simp
  qed
  from e s show ?thesis unfolding ordered_down_def by simp
qed

lemma hnode_down_loop_ordered:
  assumes "heap_wf (place h hn c)" "c < count h" "cnt = count h" "by_key key h"
    "ordered_down key (place h hn c) c" "hnode_down_loop h hn cnt c act = Some (h', c', act')"
  shows "heap_ordered key (place h' hn c')"
  using assms
proof (induction h hn cnt c act rule: hnode_down_loop.induct)
  case (1 h hn cnt c act)
  have at: "node_at (place h hn c) i = (if i = c then hn else node_at h i)" for i
    using "1.prems"(1,2) by (simp add: node_at_place heap_wf_def)
  show ?case
  proof (cases "2 * c + 1 < count h")
    case False
    with "1.prems" hnode_down_loop_stop[of h c hn act] have r: "h' = h" "c' = c" by simp_all
    have "\<not> (i < count h \<and> 0 < i \<and> par i = c)" for i using False by presburger
    then show ?thesis unfolding r by (intro ordered_down_done[OF "1.prems"(5)]) auto
  next
    case True
    obtain ci where ci: "down_child h (count h) (2 * c + 1) = Some (ci, node_at h ci)"
      "par ci = c" "c < ci" "ci < count h"
      and least: "\<And>i. i < count h \<Longrightarrow> 0 < i \<Longrightarrow> par i = c \<Longrightarrow> key (node_at h ci) \<le> key (node_at h i)"
      using down_child_spec[OF "1.prems"(1) True] "1.prems"(4) by metis
    define x where "x = node_at h ci"
    note st = place_step[OF "1.prems"(1,2) ci(4), folded x_def]
    have ix: "node_index h x = ci" using st ci by simp
    note un = hnode_down_loop_unfold[OF "1.prems"(1) True ci(1) ix[unfolded x_def], folded x_def]
    show ?thesis
    proof (cases "cmp_op h hn x")
      case T: True
      with un "1.prems" have r: "h' = h" "c' = c" by (auto simp: x_def)
      have hx: "key hn \<le> key x" using T "1.prems"(4) by (simp add: by_key_def)
      have "key (node_at (place h hn c) c) \<le> key (node_at (place h hn c) i)"
        if "i < count (place h hn c)" "0 < i" "par i = c" for i
        using least[of i] that par_less[of i] hx by (auto simp: at x_def)
      then show ?thesis unfolding r by (rule ordered_down_done[OF "1.prems"(5)])
    next
      case F: False
      have "hnode_down_loop (place h x c) hn cnt ci True = Some (h', c', act')"
        using un F "1.prems"(3,6) by (simp add: x_def)
      moreover have "ordered_down key (place (place h x c) hn ci) ci"
        unfolding x_def using "1.prems" ci F least
        by (intro ordered_down_step) (auto simp: by_key_def x_def)
      moreover have "by_key key (place h x c)" using "1.prems"(4) by (simp add: by_key_def)
      ultimately show ?thesis
        using "1.IH"[OF "1.prems"(2)[folded "1.prems"(3)] refl _ ci(1)[folded "1.prems"(3) x_def] refl _ F]
          True st(1) ci ix "1.prems"(3) by auto
    qed
  qed
qed

section \<open>The public operations\<close>

lemma place_self: "heap_wf h \<Longrightarrow> i < count h \<Longrightarrow> place h (node_at h i) i = h"
  using heap_wf_slot[of h i] by (auto simp: place_def list_update_same_conv heap_wf_def)

lemma hnode_up_spec:
  assumes wf: "heap_wf h" and i: "i < count h"
  shows "\<exists>h' moved. hnode_up h (node_at h i) = Some (h', moved) \<and> heap_wf h' \<and> same_shape h h' \<and>
     mset (elems h') = mset (elems h) \<and>
     (\<forall>x. x \<notin> set (elems h) \<longrightarrow> node_index h' x = node_index h x) \<and>
     (\<not> moved \<longrightarrow> h' = h \<and> (0 < i \<longrightarrow> cmp_op h (node_at h (par i)) (node_at h i))) \<and>
     (\<forall>key. by_key key h \<and> ordered_up key h i \<longrightarrow> heap_ordered key h')"
proof -
  let ?n = "node_at h i"
  have ix: "node_index h ?n = i" and rd: "slot_read h i = Some ?n"
    using heap_wf_slot[OF wf i] wf i by simp_all
  have ps: "place h ?n i = h" by (rule place_self[OF wf i])
  obtain h' c' act' where r: "hnode_up_loop h ?n i False = Some (h', c', act')"
    "heap_wf (place h' ?n c')" "c' \<le> i" "same_shape h h'"
    "mset (elems (place h' ?n c')) = mset (elems h)" "act' = (c' \<noteq> i)" "c' = i \<longrightarrow> h' = h"
    "0 < c' \<longrightarrow> cmp_op h (node_at h' (par c')) ?n"
    "\<forall>x. x \<notin> set (elems h) \<longrightarrow> node_index h' x = node_index h x"
    using hnode_up_loop_spec[of h ?n i False] ps wf i by auto
  have up: "hnode_up h ?n = Some (place h' ?n c', act')"
    using r(1) ix rd i by (simp add: hnode_up_def)
  have ord: "heap_ordered key (place h' ?n c')" if "by_key key h" "ordered_up key h i" for key
    using hnode_up_loop_ordered[of h ?n i key False h' c' act'] ps wf i that r(1) by simp
  have "?n \<in> set (elems h)" using in_elems[OF wf] i by auto
  then show ?thesis
    using up r ord ps by (auto intro: same_shape_trans[OF r(4)])
qed

lemma hnode_down_spec:
  assumes wf: "heap_wf h" and i: "i < count h"
  shows "\<exists>h' moved. hnode_down h (node_at h i) = Some (h', moved) \<and> heap_wf h' \<and> same_shape h h' \<and>
     mset (elems h') = mset (elems h) \<and>
     (\<forall>x. x \<notin> set (elems h) \<longrightarrow> node_index h' x = node_index h x) \<and>
     (\<forall>key. by_key key h \<and> ordered_down key h i \<longrightarrow> heap_ordered key h')"
proof -
  let ?n = "node_at h i"
  have ix: "node_index h ?n = i" and rd: "slot_read h i = Some ?n"
    using heap_wf_slot[OF wf i] wf i by simp_all
  have ps: "place h ?n i = h" by (rule place_self[OF wf i])
  obtain h' c' act' where r: "hnode_down_loop h ?n (count h) i False = Some (h', c', act')"
    "heap_wf (place h' ?n c')" "c' < count h" "same_shape h h'"
    "mset (elems (place h' ?n c')) = mset (elems h)"
    "\<forall>x. x \<notin> set (elems h) \<longrightarrow> node_index h' x = node_index h x"
    using hnode_down_loop_spec[of h ?n i "count h" False] ps wf i by auto
  have down: "hnode_down h ?n = Some (place h' ?n c', act')"
    using r(1) ix rd i by (simp add: hnode_down_def)
  have ord: "heap_ordered key (place h' ?n c')" if "by_key key h" "ordered_down key h i" for key
    using hnode_down_loop_ordered[of h ?n i "count h" key False h' c' act'] ps wf i that r(1) by simp
  have "?n \<in> set (elems h)" using in_elems[OF wf] i by auto
  then show ?thesis
    using down r ord by (auto intro: same_shape_trans[OF r(4)])
qed

text \<open>The invariant of a heap ordered by \<open>key\<close>.  The bound on \<open>count\<close> keeps every live index
  apart from the guard value.\<close>

definition gh_inv :: "('n \<Rightarrow> 'k::linorder) \<Rightarrow> 'n gh_heap \<Rightarrow> bool" where
  "gh_inv key h \<longleftrightarrow> heap_wf h \<and> by_key key h \<and> heap_ordered key h \<and> count h \<le> GH_HEAP_GUARD"

lemma gh_invD:
  "gh_inv key h \<Longrightarrow> heap_wf h" "gh_inv key h \<Longrightarrow> by_key key h"
  "gh_inv key h \<Longrightarrow> heap_ordered key h" "gh_inv key h \<Longrightarrow> count h \<le> GH_HEAP_GUARD"
  by (simp_all add: gh_inv_def)

lemma guarded_not_elem: "gh_inv key h \<Longrightarrow> \<not> gh_hnode_is_valid h n \<Longrightarrow> n \<notin> set (elems h)"
  using elems_index[of h n] by (auto simp: gh_inv_def gh_hnode_is_valid_def)

lemma heap_grow_spec:
  assumes "heap_wf h" "count h = highwm h"
  shows "\<exists>h'. heap_grow h = Some h' \<and> heap_wf h' \<and> count h' = count h \<and> count h < highwm h' \<and>
     elems h' = elems h \<and> node_index h' = node_index h \<and> cmp_op h' = cmp_op h \<and>
     (\<forall>i < count h. node_at h' i = node_at h i)"
  using assms unfolding heap_grow_def heap_wf_def elems_def node_at_def GH_SLOTS_def
  by (auto simp: nth_append)

lemma heap_ordered_cong:
  "count h' = count h \<Longrightarrow> (\<And>i. i < count h \<Longrightarrow> node_at h' i = node_at h i) \<Longrightarrow>
   heap_ordered key h' = heap_ordered key h"
  by (auto simp: heap_ordered_def)

lemma append_slot_wf:
  assumes wf: "heap_wf h" and n: "n \<notin> set (elems h)" and hw: "count h < highwm h"
  defines "h2 \<equiv> (place h n (count h))\<lparr>count := count h + 1\<rparr>"
  shows "heap_wf h2" "mset (elems h2) = add_mset n (mset (elems h))" "node_at h2 (count h) = n"
    "heap_ordered key h \<Longrightarrow> ordered_up key h2 (count h)"
proof -
  have len: "length (slots h) = highwm h" using wf by (simp add: heap_wf_def)
  have at: "node_at h2 i = (if i = count h then n else node_at h i)" for i
    using hw len by (simp add: h2_def node_at_def)
  show "node_at h2 (count h) = n" by (simp add: at)
  have ne: "node_at h i \<noteq> n" if "i < count h" for i using in_elems[OF wf, of n] n that by auto
  show "heap_wf h2"
    unfolding heap_wf_def
  proof (intro conjI allI impI)
    fix i assume "i < count h2"
    then consider "i < count h" | "i = count h" by (fastforce simp: h2_def)
    then have "slots h2 ! i = Some (node_at h2 i) \<and> node_index h2 (node_at h2 i) = i"
    proof cases
      case 1
      then show ?thesis
        using heap_wf_slot[OF wf 1] ne[OF 1] by (simp add: at) (simp add: h2_def)
    next
      case 2
      then show ?thesis using hw len by (simp add: at) (simp add: h2_def)
    qed
    then show "\<exists>m. slots h2 ! i = Some m \<and> node_index h2 m = i" by blast
  qed (use hw len in \<open>auto simp: h2_def\<close>)
  have "elems h2 = elems h @ [n]"
    using hw len by (simp add: h2_def elems_def take_Suc_conv_app_nth)
  then show "mset (elems h2) = add_mset n (mset (elems h))" by simp
  show "ordered_up key h2 (count h)" if "heap_ordered key h"
    using that par_less unfolding ordered_up_def heap_ordered_def at by (fastforce simp: h2_def)
qed

lemma gh_heap_push_spec:
  assumes inv: "gh_inv key h" and g: "\<not> gh_hnode_is_valid h n" and bound: "count h < GH_HEAP_GUARD"
  shows "\<exists>h'. gh_heap_push h n = Some h' \<and> gh_inv key h' \<and> count h' = count h + 1 \<and>
     mset (elems h') = add_mset n (mset (elems h)) \<and>
     (\<forall>x. x \<noteq> n \<and> x \<notin> set (elems h) \<longrightarrow> node_index h' x = node_index h x)"
proof -
  note wf = gh_invD(1)[OF inv] and ord = gh_invD(3)[OF inv] and bk = gh_invD(2)[OF inv]
  obtain h1 where h1: "(if count h = highwm h then heap_grow h else Some h) = Some h1"
    "heap_wf h1" "count h1 = count h" "count h < highwm h1" "elems h1 = elems h"
    "node_index h1 = node_index h" "cmp_op h1 = cmp_op h" "\<forall>i < count h. node_at h1 i = node_at h i"
  proof (cases "count h = highwm h")
    case True
    with heap_grow_spec[OF wf True] that show ?thesis by auto
  next
    case False
    with wf have "count h < highwm h" by (simp add: heap_wf_def)
    with False wf show ?thesis by (intro that[of h]) simp_all
  qed
  define h2 where "h2 = (place h1 n (count h))\<lparr>count := count h + 1\<rparr>"
  note ap = append_slot_wf[of h1 n, unfolded h1(3,5), folded h2_def]
  have n: "n \<notin> set (elems h)" by (rule guarded_not_elem[OF inv g])
  have wf2: "heap_wf h2" and el2: "mset (elems h2) = add_mset n (mset (elems h))"
    and at2: "node_at h2 (count h) = n" and o2: "ordered_up key h2 (count h)"
    using ap h1 n ord heap_ordered_cong[of h1 h key] by auto
  have c2: "count h2 = count h + 1" "cmp_op h2 = cmp_op h" by (simp_all add: h2_def h1)
  obtain h' mv where u: "hnode_up h2 n = Some (h', mv)" "heap_wf h'" "same_shape h2 h'"
    "mset (elems h') = mset (elems h2)"
    "\<And>x. x \<notin> set (elems h2) \<Longrightarrow> node_index h' x = node_index h2 x"
    "by_key key h2 \<Longrightarrow> ordered_up key h2 (count h) \<Longrightarrow> heap_ordered key h'"
    using hnode_up_spec[OF wf2, of "count h"] at2 c2 by auto
  have "gh_heap_push h n = Some h'"
    using g h1(1,3) u(1) by (simp add: gh_heap_push_def h2_def)
  moreover have bk2: "by_key key h2" using bk c2 by (simp add: by_key_def)
  moreover have "gh_inv key h'"
    using u(2,3) u(6)[OF bk2 o2] bk2 bound c2 by (simp add: gh_inv_def by_key_def same_shape_def)
  moreover have "set (elems h2) = insert n (set (elems h))"
    using el2 by (metis set_mset_add_mset_insert set_mset_mset)
  ultimately show ?thesis
    using u el2 c2 by (auto simp: same_shape_def h2_def h1)
qed

lemma replace_last_ordered:
  assumes ord: "heap_ordered key h" and c: "c < count h - 1"
    and at: "\<And>i. node_at h2 i = (if i = c then node_at h (count h - 1) else node_at h i)"
    and cnt: "count h2 = count h - 1"
  shows "0 < c \<Longrightarrow> key (node_at h2 c) \<le> key (node_at h2 (par c)) \<Longrightarrow> ordered_up key h2 c"
    and "(0 < c \<Longrightarrow> key (node_at h2 (par c)) \<le> key (node_at h2 c)) \<Longrightarrow> ordered_down key h2 c"
proof -
  have E: "key (node_at h (par i)) \<le> key (node_at h i)" if "i < count h" "0 < i" for i
    using ord that by (simp add: heap_ordered_def)
  have skip: "key (node_at h (par c)) \<le> key (node_at h i)" if "i < count h" "0 < i" "par i = c" "0 < c" for i
    using E[of i] E[of c] that c by fastforce
  have pl: "par i \<noteq> i" if "0 < i" for i using par_less[OF that] by simp
  show "ordered_up key h2 c" if 0: "0 < c" "key (node_at h2 c) \<le> key (node_at h2 (par c))"
    unfolding ordered_up_def cnt
  proof (intro conjI allI impI)
    fix i assume i: "i < count h - 1" "0 < i \<and> i \<noteq> c"
    show "key (node_at h2 (par i)) \<le> key (node_at h2 i)"
    proof (cases "par i = c")
      case True
      have "key (node_at h2 c) \<le> key (node_at h (par c))" using 0 pl[OF 0(1)] by (simp add: at)
      also have "\<dots> \<le> key (node_at h i)" using skip[of i] True i 0 by simp
      finally show ?thesis using True i by (simp add: at)
    next
      case False
      then show ?thesis using E[of i] i by (simp add: at)
    qed
  next
    fix i assume "i < count h - 1" "0 < i \<and> par i = c \<and> 0 < c"
    then show "key (node_at h2 (par c)) \<le> key (node_at h2 i)"
      using skip[of i] pl[of c] pl[of i] unfolding at by auto
  qed
  show "ordered_down key h2 c" if 0: "0 < c \<Longrightarrow> key (node_at h2 (par c)) \<le> key (node_at h2 c)"
    unfolding ordered_down_def cnt
  proof (intro conjI allI impI)
    fix i assume i: "i < count h - 1" "0 < i \<and> par i \<noteq> c"
    show "key (node_at h2 (par i)) \<le> key (node_at h2 i)"
      using E[of i] i 0 unfolding at by (cases "i = c") auto
  next
    fix i assume "i < count h - 1" "0 < i \<and> par i = c \<and> 0 < c"
    then show "key (node_at h2 (par c)) \<le> key (node_at h2 i)"
      using skip[of i] pl[of c] pl[of i] unfolding at by auto
  qed
qed

lemma replace_last_wf:
  assumes wf: "heap_wf h" and c: "c < count h - 1"
  defines "lst \<equiv> node_at h (count h - 1)"
  defines "h2 \<equiv> place (h\<lparr>count := count h - 1\<rparr>) lst c"
  shows "heap_wf h2" "mset (elems h2) = mset (elems h) - {#node_at h c#}"
    "node_at h2 c = lst" "count h2 = count h - 1" "cmp_op h2 = cmp_op h"
    "\<And>i. node_at h2 i = (if i = c then lst else node_at h i)"
proof -
  have len: "length (slots h) = highwm h" "count h \<le> highwm h" using wf by (simp_all add: heap_wf_def)
  show at: "node_at h2 i = (if i = c then lst else node_at h i)" for i
    using c len by (simp add: h2_def node_at_def)
  then show "node_at h2 c = lst" by simp
  show "count h2 = count h - 1" "cmp_op h2 = cmp_op h" by (simp_all add: h2_def)
  have ne: "node_at h i \<noteq> lst" if "i < count h - 1" for i
    using node_at_inj[OF wf, of i "count h - 1"] that by (auto simp: lst_def)
  show "heap_wf h2"
    unfolding heap_wf_def
  proof (intro conjI allI impI)
    fix i assume "i < count h2"
    then have i: "i < count h - 1" by (simp add: h2_def)
    have "slots h2 ! i = Some (node_at h2 i) \<and> node_index h2 (node_at h2 i) = i"
    proof (cases "i = c")
      case True
      then show ?thesis using c len unfolding at by (simp add: h2_def)
    next
      case False
      then show ?thesis using heap_wf_slot[OF wf, of i] i ne[OF i] unfolding at by (simp add: h2_def)
    qed
    then show "\<exists>m. slots h2 ! i = Some m \<and> node_index h2 m = i" by blast
  qed (use len in \<open>simp_all add: h2_def\<close>)
  let ?xs = "elems h"
  have l: "length ?xs = count h" by (rule length_elems[OF wf])
  then have ne: "?xs \<noteq> []" using c by auto
  have lx: "last ?xs = lst" using ne l c elems_nth[OF wf, of "count h - 1"] by (simp add: last_conv_nth lst_def)
  have "elems h2 = (butlast ?xs)[c := lst]"
    using c len by (simp add: h2_def elems_def take_update_swap map_update butlast_conv_take take_map)
  moreover have "mset ((butlast ?xs)[c := lst]) = add_mset lst (mset (butlast ?xs) - {#butlast ?xs ! c#})"
    using c l by (intro mset_update) simp
  moreover have "butlast ?xs ! c = node_at h c"
    using c l elems_nth[OF wf, of c] by (simp add: nth_butlast)
  moreover have "mset ?xs = add_mset lst (mset (butlast ?xs))"
    using append_butlast_last_id[OF ne] lx by (metis add_mset_add_single mset.simps(1,2) mset_append)
  moreover have "node_at h c \<in># mset (butlast ?xs)"
    using c l \<open>butlast ?xs ! c = node_at h c\<close> by (metis in_multiset_in_set length_butlast nth_mem)
  ultimately show "mset (elems h2) = mset (elems h) - {#node_at h c#}" by simp
qed

lemma gh_heap_remove_last:
  assumes wf: "heap_wf h" and i: "node_index h n = count h - 1" "n \<in> set (elems h)"
    and v: "gh_hnode_is_valid h n"
  shows "gh_heap_remove h n = Some (h\<lparr>count := count h - 1\<rparr>)"
proof -
  have "node_index h n < count h" "node_at h (node_index h n) = n" using elems_index[OF wf i(2)] by auto
  with i v wf show ?thesis by (simp add: gh_heap_remove_def)
qed

lemma shrink_wf:
  assumes wf: "heap_wf h" and c: "0 < count h"
  shows "heap_wf (h\<lparr>count := count h - 1\<rparr>)"
    "mset (elems (h\<lparr>count := count h - 1\<rparr>)) = mset (elems h) - {#node_at h (count h - 1)#}"
proof -
  show "heap_wf (h\<lparr>count := count h - 1\<rparr>)" using wf by (auto simp: heap_wf_def)
  have "elems (h\<lparr>count := count h - 1\<rparr>) = butlast (elems h)"
    using wf by (simp add: elems_def heap_wf_def butlast_conv_take take_map)
  moreover have "elems h \<noteq> []" using length_elems[OF wf] c by auto
  moreover have "last (elems h) = node_at h (count h - 1)"
    using length_elems[OF wf] c elems_nth[OF wf, of "count h - 1"] calculation(2) by (simp add: last_conv_nth)
  ultimately show "mset (elems (h\<lparr>count := count h - 1\<rparr>)) = mset (elems h) - {#node_at h (count h - 1)#}"
    by (metis add_mset_remove_trivial append_butlast_last_id mset.simps(1,2) mset_append union_mset_add_mset_right add_0_right)
qed

lemma gh_inv_invalidate:
  assumes "gh_inv key h" "n \<notin> set (elems h)"
  shows "gh_inv key (gh_hnode_invalidate h n)" "elems (gh_hnode_invalidate h n) = elems h"
proof -
  have at: "node_at (gh_hnode_invalidate h n) i = node_at h i" for i
    by (simp add: gh_hnode_invalidate_def node_at_def)
  have ne: "i < count h \<Longrightarrow> node_at h i \<noteq> n" for i
    using in_elems[OF gh_invD(1)[OF assms(1)], of n] assms(2) by blast
  have "heap_wf (gh_hnode_invalidate h n)"
    unfolding heap_wf_def
  proof (intro conjI allI impI)
    fix i assume "i < count (gh_hnode_invalidate h n)"
    then have i: "i < count h" by (simp add: gh_hnode_invalidate_def)
    show "\<exists>m. slots (gh_hnode_invalidate h n) ! i = Some m \<and> node_index (gh_hnode_invalidate h n) m = i"
      using heap_wf_slot[OF gh_invD(1)[OF assms(1)] i] ne[OF i]
      by (intro exI[of _ "node_at h i"]) (simp add: gh_hnode_invalidate_def)
  qed (use assms(1) in \<open>simp_all add: gh_hnode_invalidate_def gh_inv_def heap_wf_def\<close>)
  moreover have "heap_ordered key (gh_hnode_invalidate h n)"
    using gh_invD(3)[OF assms(1)] unfolding heap_ordered_def at by (simp add: gh_hnode_invalidate_def)
  ultimately show "gh_inv key (gh_hnode_invalidate h n)"
    using assms(1) by (simp add: gh_inv_def by_key_def gh_hnode_invalidate_def)
  show "elems (gh_hnode_invalidate h n) = elems h" by (simp add: gh_hnode_invalidate_def elems_def)
qed

text \<open>The repair step of a removal: the node moved into the hole is sifted up and, when it
  did not move, down.\<close>

lemma repair_spec:
  assumes wf: "heap_wf h2" and bk: "by_key key h2" and c: "c < count h2"
    and up: "0 < c \<Longrightarrow> key (node_at h2 c) \<le> key (node_at h2 (par c)) \<Longrightarrow> ordered_up key h2 c"
    and down: "(0 < c \<Longrightarrow> key (node_at h2 (par c)) \<le> key (node_at h2 c)) \<Longrightarrow> ordered_down key h2 c"
  shows "\<exists>h3 moved h4. hnode_up h2 (node_at h2 c) = Some (h3, moved) \<and>
    (if \<not> moved then map_option fst (hnode_down h3 (node_at h2 c)) else Some h3) = Some h4 \<and>
    heap_wf h4 \<and> same_shape h2 h4 \<and> mset (elems h4) = mset (elems h2) \<and> heap_ordered key h4 \<and>
    (\<forall>x. x \<notin> set (elems h2) \<longrightarrow> node_index h4 x = node_index h2 x)"
proof -
  obtain h3 mv where u: "hnode_up h2 (node_at h2 c) = Some (h3, mv)" "heap_wf h3" "same_shape h2 h3"
    "mset (elems h3) = mset (elems h2)" "\<And>x. x \<notin> set (elems h2) \<Longrightarrow> node_index h3 x = node_index h2 x"
    "\<not> mv \<Longrightarrow> h3 = h2" "\<not> mv \<Longrightarrow> 0 < c \<Longrightarrow> cmp_op h2 (node_at h2 (par c)) (node_at h2 c)"
    "by_key key h2 \<Longrightarrow> ordered_up key h2 c \<Longrightarrow> heap_ordered key h3"
    using hnode_up_spec[OF wf c] by blast
  show ?thesis
  proof (cases "0 < c \<and> key (node_at h2 c) \<le> key (node_at h2 (par c))")
    case True
    then have "mv" using u(7) bk by (metis by_key_def leD)
    with u bk up True show ?thesis by auto
  next
    case False
    then have d: "ordered_down key h2 c" by (intro down) auto
    obtain h4 m4 where w: "hnode_down h2 (node_at h2 c) = Some (h4, m4)" "heap_wf h4" "same_shape h2 h4"
      "mset (elems h4) = mset (elems h2)" "\<And>x. x \<notin> set (elems h2) \<Longrightarrow> node_index h4 x = node_index h2 x"
      "by_key key h2 \<Longrightarrow> ordered_down key h2 c \<Longrightarrow> heap_ordered key h4"
      using hnode_down_spec[OF wf c] by blast
    have "\<not> mv"
    proof (cases "c = 0")
      case True
      have "node_index h2 (node_at h2 c) = c" "slot_read h2 c = Some (node_at h2 c)"
        using heap_wf_slot[OF wf c] wf c by simp_all
      with True u(1) wf c show ?thesis by (simp add: hnode_up_def hnode_up_loop.simps)
    next
      case c0: False
      have ix: "node_index h2 (node_at h2 c) = c" "slot_read h2 c = Some (node_at h2 c)"
        and pc: "par c < count h2" using heap_wf_slot[OF wf c] wf c by auto
      have "node_index h2 (node_at h2 (par c)) = par c" using heap_wf_slot[OF wf pc] by simp
      moreover have "cmp_op h2 (node_at h2 (par c)) (node_at h2 c)"
        using False c0 bk by (simp add: by_key_def)
      ultimately show ?thesis using c0 u(1) wf c pc ix by (simp add: hnode_up_def hnode_up_loop.simps)
    qed
    with u w bk d show ?thesis by auto
  qed
qed

lemma gh_heap_remove_spec:
  assumes inv: "gh_inv key h" and n: "n \<in> set (elems h)"
  shows "\<exists>h'. gh_heap_remove h n = Some h' \<and> gh_inv key h' \<and>
     mset (elems h') = mset (elems h) - {#n#} \<and> count h' = count h - 1 \<and>
     (gh_hnode_is_valid h' n \<longleftrightarrow> node_index h n = count h - 1) \<and>
     (\<forall>x. x \<notin> set (elems h) \<longrightarrow> node_index h' x = node_index h x)"
proof -
  note wf = gh_invD(1)[OF inv] and bk = gh_invD(2)[OF inv] and ord = gh_invD(3)[OF inv]
  define c where "c = node_index h n"
  have c: "c < count h" "node_at h c = n" using elems_index[OF wf n] by (simp_all add: c_def)
  have v: "gh_hnode_is_valid h n" using c gh_invD(4)[OF inv] by (simp add: gh_hnode_is_valid_def c_def)
  show ?thesis
  proof (cases "c = count h - 1")
    case True
    have "gh_heap_remove h n = Some (h\<lparr>count := count h - 1\<rparr>)"
      using gh_heap_remove_last[OF wf _ n v] True by (simp add: c_def)
    moreover have "heap_ordered key (h\<lparr>count := count h - 1\<rparr>)"
      using ord by (auto simp: heap_ordered_def node_at_def)
    then have "gh_inv key (h\<lparr>count := count h - 1\<rparr>)"
      using shrink_wf(1)[OF wf] c inv by (auto simp: gh_inv_def by_key_def)
    ultimately show ?thesis
      using shrink_wf(2)[OF wf] c True v by (simp add: gh_hnode_is_valid_def c_def[symmetric])
  next
    case False
    with c have c1: "c < count h - 1" by simp
    define lst where "lst = node_at h (count h - 1)"
    define h2 where "h2 = place (h\<lparr>count := count h - 1\<rparr>) lst c"
    note rl = replace_last_wf[OF wf c1, folded lst_def, folded h2_def]
    have c2: "c < count h2" using c1 rl(4) by simp
    have bk2: "by_key key h2" using bk rl(5) by (simp add: by_key_def)
    obtain h3 mv h4 where r: "hnode_up h2 lst = Some (h3, mv)"
      "(if \<not> mv then map_option fst (hnode_down h3 lst) else Some h3) = Some h4"
      "heap_wf h4" "same_shape h2 h4" "mset (elems h4) = mset (elems h2)" "heap_ordered key h4"
      "\<And>x. x \<notin> set (elems h2) \<Longrightarrow> node_index h4 x = node_index h2 x"
      using repair_spec[OF rl(1) bk2 c2] replace_last_ordered[OF ord c1, of h2] rl(3,4,6)
      unfolding lst_def by (metis (no_types, lifting))
    have ln: "lst \<noteq> n" using node_at_inj[OF wf, of c "count h - 1"] c c1 by (auto simp: lst_def)
    have rd: "slot_read h c = Some n" "slot_read h (count h - 1) = Some lst"
      using wf c by (auto simp: lst_def)
    have rem: "gh_heap_remove h n = Some (gh_hnode_invalidate h4 n)"
      using v c rd ln r(1,2) by (simp add: gh_heap_remove_def c_def[symmetric] h2_def)
    have el4: "mset (elems h4) = mset (elems h) - {#n#}" using r(5) rl(2) c by simp
    have sub: "set (elems h4) \<subseteq> set (elems h)" using el4 by (metis in_diffD set_mset_mset subsetI)
    have n4: "n \<notin> set (elems h4)"
    proof -
      have "mset (elems h4) = mset (remove1 n (elems h))" using el4 by simp
      then have "set (elems h4) = set (remove1 n (elems h))" by (metis set_mset_mset)
      then show ?thesis using distinct_elems[OF wf] by simp
    qed
    have inv4: "gh_inv key h4"
      using r(3,4,6) bk2 gh_invD(4)[OF inv] rl(4) by (simp add: gh_inv_def by_key_def same_shape_def)
    have fr: "node_index (gh_hnode_invalidate h4 n) x = node_index h x" if "x \<notin> set (elems h)" for x
    proof -
      have "lst \<in> set (elems h)" using in_elems[OF wf, of lst] c1
        by (auto simp: lst_def intro!: exI[of _ "count h - 1"])
      with that n have "x \<noteq> n" "x \<noteq> lst" by auto
      moreover have "x \<notin> set (elems h2)" using that r(5) sub by (metis set_mset_mset subsetD)
      ultimately show ?thesis using r(7)[of x] by (simp add: gh_hnode_invalidate_def h2_def)
    qed
    show ?thesis
      using rem gh_inv_invalidate[OF inv4 n4] el4 fr False r(4) rl(4)
      by (simp add: gh_hnode_is_valid_def c_def[symmetric]) (simp add: gh_hnode_invalidate_def same_shape_def)
  qed
qed

section \<open>The queue interface\<close>

text \<open>What the event loop relies on: taking the first element of a non-empty queue yields an
  element with the least key and leaves the others.  \<open>pop_all\<close> is the loop that empties a queue
  (\<open>nsock_pool_delete\<close> runs it over the expirable events), with fuel for its iterations.\<close>

primrec pop_all :: "('q \<Rightarrow> ('n option \<times> 'q) option) \<Rightarrow> nat \<Rightarrow> 'q \<Rightarrow> ('n list \<times> 'q) option" where
  "pop_all pop 0 q = Some ([], q)"
| "pop_all pop (Suc k) q = do {
     (r, q') \<leftarrow> pop q;
     case r of None \<Rightarrow> Some ([], q')
     | Some n \<Rightarrow> do { (ns, q'') \<leftarrow> pop_all pop k q'; Some (n # ns, q'') } }"

locale keyed_queue =
  fixes inv :: "'q \<Rightarrow> bool" and elts :: "'q \<Rightarrow> 'n multiset" and key :: "'n \<Rightarrow> 'k::linorder"
    and pop :: "'q \<Rightarrow> ('n option \<times> 'q) option"
  assumes pop_empty: "inv q \<Longrightarrow> elts q = {#} \<Longrightarrow> pop q = Some (None, q)"
    and pop_least: "inv q \<Longrightarrow> elts q \<noteq> {#} \<Longrightarrow>
      \<exists>n q'. pop q = Some (Some n, q') \<and> inv q' \<and> n \<in># elts q \<and> elts q' = elts q - {#n#} \<and>
        (\<forall>m. m \<in># elts q \<longrightarrow> key n \<le> key m)"
begin

lemma pop_all_sorted:
  "inv q \<Longrightarrow> size (elts q) \<le> k \<Longrightarrow>
   \<exists>ns q'. pop_all pop k q = Some (ns, q') \<and> mset ns = elts q \<and> sorted (map key ns) \<and>
     inv q' \<and> elts q' = {#}"
proof (induction k arbitrary: q)
  case 0
  then show ?case by simp
next
  case (Suc k)
  show ?case
  proof (cases "elts q = {#}")
    case True
    then show ?thesis using pop_empty Suc.prems by simp
  next
    case False
    obtain n q' where p: "pop q = Some (Some n, q')" "inv q'" "n \<in># elts q"
      "elts q' = elts q - {#n#}" and least: "\<And>m. m \<in># elts q \<Longrightarrow> key n \<le> key m"
      using pop_least[OF Suc.prems(1) False] by blast
    have "size (elts q') \<le> k" using p Suc.prems(2) by (simp add: size_Diff_singleton)
    from Suc.IH[OF p(2) this] obtain ns q'' where r: "pop_all pop k q' = Some (ns, q'')"
      "mset ns = elts q'" "sorted (map key ns)" "inv q''" "elts q'' = {#}" by blast
    have "key n \<le> key m" if "m \<in> set ns" for m
      using that r(2) p(4) least by (metis in_diffD set_mset_mset)
    then show ?thesis using p r by simp
  qed
qed

end

lemma heap_root_least:
  assumes "heap_ordered key h" "i < count h"
  shows "key (node_at h 0) \<le> key (node_at h i)"
  using assms(2)
proof (induction i rule: less_induct)
  case (less i)
  show ?case
  proof (cases "i = 0")
    case False
    then have "par i < i" by auto
    with less have "key (node_at h 0) \<le> key (node_at h (par i))" by simp
    also have "\<dots> \<le> key (node_at h i)" using assms(1) less.prems False by (simp add: heap_ordered_def)
    finally show ?thesis .
  qed simp
qed

lemma gh_heap_find_root:
  "heap_wf h \<Longrightarrow> gh_heap_find h 0 = Some (if elems h = [] then None else Some (node_at h 0))"
  using length_elems[of h] by (cases "count h = 0") (auto simp: gh_heap_find_def)

lemma gh_heap_min_spec:
  assumes "gh_inv key h" "elems h \<noteq> []"
  shows "gh_heap_min h = Some (Some (node_at h 0)) \<and> node_at h 0 \<in> set (elems h) \<and>
    (\<forall>m \<in> set (elems h). key (node_at h 0) \<le> key m)"
proof -
  note wf = gh_invD(1)[OF assms(1)]
  have c: "0 < count h" using length_elems[OF wf] assms(2) by (metis length_greater_0_conv)
  then have "gh_heap_min h = Some (Some (node_at h 0))"
    using gh_heap_find_root[OF wf] assms(2) by (simp add: gh_heap_min_def)
  moreover have "node_at h 0 \<in> set (elems h)" using in_elems[OF wf] c by auto
  ultimately show ?thesis
    using heap_root_least[OF gh_invD(3)[OF assms(1)]] in_elems[OF wf] by auto
qed

interpretation gh: keyed_queue "gh_inv key" "\<lambda>h. mset (elems h)" key gh_heap_pop
  for key :: "'n \<Rightarrow> 'k::linorder"
proof
  fix h :: "'n gh_heap"
  assume inv: "gh_inv key h"
  note wf = gh_invD(1)[OF inv]
  { assume "mset (elems h) = {#}"
    then show "gh_heap_pop h = Some (None, h)"
      using gh_heap_find_root[OF wf] by (simp add: gh_heap_pop_def) }
  { assume "mset (elems h) \<noteq> {#}"
    then have ne: "elems h \<noteq> []" by simp
    define n where "n = node_at h 0"
    have m: "n \<in> set (elems h)" "\<And>m. m \<in> set (elems h) \<Longrightarrow> key n \<le> key m"
      using gh_heap_min_spec[OF inv ne] by (auto simp: n_def)
    obtain h' where "gh_heap_remove h n = Some h'" "gh_inv key h'" "mset (elems h') = mset (elems h) - {#n#}"
      using gh_heap_remove_spec[OF inv m(1)] by blast
    then show "\<exists>n q'. gh_heap_pop h = Some (Some n, q') \<and> gh_inv key q' \<and> n \<in># mset (elems h) \<and>
        mset (elems q') = mset (elems h) - {#n#} \<and> (\<forall>m. m \<in># mset (elems h) \<longrightarrow> key n \<le> key m)"
      using gh_heap_find_root[OF wf] ne m
      by (intro exI[of _ n] exI[of _ h']) (auto simp: gh_heap_pop_def n_def) }
qed

lemma gh_heap_init_inv:
  "\<exists>h. gh_heap_init store (Some (\<lambda>a b. key a < key b)) = Some (0, Some h) \<and> gh_inv key h \<and>
     elems h = [] \<and> node_index h = store"
  by (simp add: gh_heap_init_def heap_grow_def gh_inv_def heap_wf_def by_key_def heap_ordered_def
      elems_def GH_SLOTS_def)

section \<open>A sample heap\<close>

text \<open>Nodes are numbered and their number is their key; all are outside the heap at first.\<close>

definition sample_heap :: "nat list \<Rightarrow> nat gh_heap option" where
  "sample_heap ns = do {
     (_, r) \<leftarrow> gh_heap_init (\<lambda>_. GH_HEAP_GUARD) (Some (<));
     h \<leftarrow> r;
     foldl (\<lambda>acc n. do { h \<leftarrow> acc; gh_heap_push h n }) (Some h) ns }"

lemma sample_heap_inv:
  assumes "distinct ns" "length ns \<le> 100"
  shows "\<exists>h. sample_heap ns = Some h \<and> gh_inv (\<lambda>n. n) h \<and> mset (elems h) = mset ns \<and>
    (\<forall>x. x \<notin> set ns \<longrightarrow> \<not> gh_hnode_is_valid h x)"
  using assms
proof (induction ns rule: rev_induct)
  case Nil
  then show ?case
    using gh_heap_init_inv[of "\<lambda>_. GH_HEAP_GUARD" "\<lambda>n::nat. n"]
    by (auto simp: sample_heap_def gh_hnode_is_valid_def)
next
  case (snoc n ns)
  then obtain h where h: "sample_heap ns = Some h" "gh_inv (\<lambda>n. n) h" "mset (elems h) = mset ns"
    "\<And>x. x \<notin> set ns \<Longrightarrow> \<not> gh_hnode_is_valid h x" by auto
  have s: "set (elems h) = set ns" using h(3) by (metis set_mset_mset)
  have "count h = length ns"
    using length_elems[OF gh_invD(1)[OF h(2)]] h(3) by (metis size_mset)
  then have "count h < GH_HEAP_GUARD" using snoc.prems by (simp add: GH_HEAP_GUARD_def)
  with gh_heap_push_spec[OF h(2) h(4)[of n]] snoc.prems obtain h' where
    "gh_heap_push h n = Some h'" "gh_inv (\<lambda>n. n) h'" "mset (elems h') = add_mset n (mset (elems h))"
    "\<And>x. x \<notin> insert n (set (elems h)) \<Longrightarrow> node_index h' x = node_index h x" by auto
  moreover have "sample_heap (ns @ [n]) = do { h \<leftarrow> sample_heap ns; gh_heap_push h n }"
    by (simp add: sample_heap_def bind_assoc split: option.splits)
      (auto simp: gh_heap_init_def heap_grow_def)
  ultimately show ?case using h s by (auto simp: gh_hnode_is_valid_def)
qed

section \<open>Correctness of the heap\<close>

lemma gh_inv_elem_unique: "gh_inv key h \<Longrightarrow> n \<in> set (elems h) \<Longrightarrow> n \<notin># mset (elems h) - {#n#}"
proof -
  assume inv: "gh_inv key h" and n: "n \<in> set (elems h)"
  have "mset (elems h) - {#n#} = mset (remove1 n (elems h))" by simp
  then show ?thesis using distinct_elems[OF gh_invD(1)[OF inv]] by (metis set_mset_mset set_remove1_eq DiffE insertI1)
qed

text \<open>C17. Pushing a node that is outside the heap succeeds (no assertion fails), keeps the heap
  invariant (allocated array, back pointers, heap order), adds exactly that node and leaves the
  index of every other node outside the heap alone.\<close>

theorem gh_heap_push_correct:
  assumes "gh_inv key h" "\<not> gh_hnode_is_valid h n" "count h < GH_HEAP_GUARD"
  shows "\<exists>h'. gh_heap_push h n = Some h' \<and> gh_inv key h' \<and> count h' = count h + 1 \<and>
     mset (elems h') = add_mset n (mset (elems h)) \<and>
     (\<forall>x. x \<noteq> n \<and> x \<notin> set (elems h) \<longrightarrow> node_index h' x = node_index h x)"
  using gh_heap_push_spec[OF assms] .

theorem gh_heap_push_correct_witness:
  "\<exists>h h'. sample_heap [3, 1, 2] = Some h \<and> gh_heap_push h 0 = Some h' \<and> gh_inv (\<lambda>n. n) h' \<and>
     mset (elems h') = {#0, 1, 2, 3#}"
proof -
  obtain h where h: "sample_heap [3, 1, 2] = Some h" "gh_inv (\<lambda>n. n) h"
    "mset (elems h) = mset [3, 1, 2]" "\<not> gh_hnode_is_valid h 0"
    using sample_heap_inv[of "[3, 1, 2]"] by auto
  have "count h = 3" using length_elems[OF gh_invD(1)[OF h(2)]] h(3) by (metis length_Cons list.size(3) size_mset eval_nat_numeral(3) One_nat_def Suc_1)
  then show ?thesis
    using gh_heap_push_correct[OF h(2,4)] h(1,3) by (auto simp: GH_HEAP_GUARD_def)
qed

text \<open>C2. Removing any node of the heap succeeds, keeps the heap invariant and takes out exactly
  that node.  The removed node is marked invalid unless it sat in the last slot, where the
  function returns before it invalidates the node.\<close>

theorem gh_heap_remove_correct:
  assumes "gh_inv key h" "n \<in> set (elems h)"
  shows "\<exists>h'. gh_heap_remove h n = Some h' \<and> gh_inv key h' \<and>
     mset (elems h') = mset (elems h) - {#n#} \<and> n \<notin> set (elems h') \<and> count h' = count h - 1 \<and>
     (gh_hnode_is_valid h' n \<longleftrightarrow> node_index h n = count h - 1) \<and>
     (\<forall>x. x \<notin> set (elems h) \<longrightarrow> node_index h' x = node_index h x)"
  using gh_heap_remove_spec[OF assms] gh_inv_elem_unique[OF assms] by (metis set_mset_mset)

theorem gh_heap_remove_correct_witness:
  "\<exists>h h'. sample_heap [3, 1, 2] = Some h \<and> gh_heap_remove h 1 = Some h' \<and> gh_inv (\<lambda>n. n) h' \<and>
     mset (elems h') = {#2, 3#}"
proof -
  obtain h where h: "sample_heap [3, 1, 2] = Some h" "gh_inv (\<lambda>n. n) h"
    "mset (elems h) = mset [3, 1, 2]"
    using sample_heap_inv[of "[3, 1, 2]"] by auto
  have "1 \<in> set (elems h)" using h(3) by (metis set_mset_mset list.set_intros)
  from gh_heap_remove_correct[OF h(2) this] show ?thesis using h(1,3) by auto
qed

text \<open>C18. Draining a heap by popping until it is empty never aborts, ends with an empty heap
  and yields all its nodes in ascending order of their keys, so timed events are delivered in the
  order of their expiry.\<close>

theorem gh_heap_drain_sorted:
  assumes "gh_inv key h" "count h \<le> k"
  shows "\<exists>ns h'. pop_all gh_heap_pop k h = Some (ns, h') \<and> mset ns = mset (elems h) \<and>
    sorted (map key ns) \<and> gh_heap_is_empty h'"
proof -
  have "size (mset (elems h)) \<le> k" using assms length_elems[OF gh_invD(1)[OF assms(1)]] by simp
  from gh.pop_all_sorted[OF assms(1) this] obtain ns h' where
    "pop_all gh_heap_pop k h = Some (ns, h')" "mset ns = mset (elems h)" "sorted (map key ns)"
    "gh_inv key h'" "elems h' = []" by auto
  then show ?thesis
    using length_elems[OF gh_invD(1)] by (metis gh_heap_is_empty_def list.size(3))
qed

theorem gh_heap_drain_sorted_witness:
  "\<exists>h h'. sample_heap [3, 1, 2] = Some h \<and> pop_all gh_heap_pop 3 h = Some ([1, 2, 3], h') \<and>
     gh_heap_is_empty h'"
proof -
  obtain h where h: "sample_heap [3, 1, 2] = Some h" "gh_inv (\<lambda>n. n) h"
    "mset (elems h) = mset [3, 1, 2]"
    using sample_heap_inv[of "[3, 1, 2]"] by auto
  have "count h \<le> 3" using length_elems[OF gh_invD(1)[OF h(2)]] h(3)
    by (metis length_Cons list.size(3) size_mset eval_nat_numeral(3) One_nat_def Suc_1 order_refl)
  from gh_heap_drain_sorted[OF h(2) this] obtain ns h' where
    r: "pop_all gh_heap_pop 3 h = Some (ns, h')" "mset ns = mset [1, 2, 3]" "sorted ns" "gh_heap_is_empty h'"
    using h(3) by (auto simp: add_mset_commute)
  have "ns = sort [1, 2, 3]" using r(2,3) properties_for_sort by metis
  then show ?thesis using h(1) r by auto
qed

end
