(* ===== verification/Addrset_Trie.thy ===== *)
theory Addrset_Trie
  imports Nmap_Prelude
begin

unbundle bit_operations_syntax

text \<open>
  The radix tree of \<open>nbase/nbase_addrset.c\<close> that matches single addresses and CIDR
  prefixes.  An address (and a mask) is the array \<open>u32[4]\<close> of the source, here a list of four
  words, most significant first.  A \<open>struct trie_node *\<close> is \<open>TNull\<close>, the shared
  \<open>TRIE_NODE_TRUE\<close>, or a node; every node has one owner, so the tree is a datatype and an update
  through a pointer rebuilds the path to it.  The theory proves what a lookup answers after an
  insertion, in terms of the bits of the addresses.
\<close>

section \<open>Data\<close>

datatype trie = TNull | TTrue
  | TNode (addr: "u32 list") (tmask: "u32 list") (next_bit_one: trie) (next_bit_zero: trie)

datatype sockaddr = Sockaddr_in "u8 list" | Sockaddr_in6 "u8 list" | Sockaddr_other nat

section \<open>Operations on words\<close>

definition LogTable256 :: "int list" where
  "LogTable256 = [-1, 0, 1, 1, 2, 2, 2, 2, 3, 3, 3, 3, 3, 3, 3, 3] @ replicate 16 4 @
     replicate 32 5 @ replicate 64 6 @ replicate 128 7"

text \<open>The base two logarithm of a value that is not 0, by table lookup.\<close>

definition common_log :: "u32 \<Rightarrow> u8" where
  "common_log v =
     (let tt = drop_bit 16 v in
      if tt \<noteq> 0
      then let t = drop_bit 8 tt in
        if t \<noteq> 0 then 24 + word_of_int (LogTable256 ! unat t) else 16 + word_of_int (LogTable256 ! unat tt)
      else let t = drop_bit 8 v in
        if t \<noteq> 0 then 8 + word_of_int (LogTable256 ! unat t) else word_of_int (LogTable256 ! unat v))"

text \<open>The shift \<open>1 << (r + 1)\<close> is done in \<open>int\<close> by the source; for \<open>r = 30\<close> it leaves the
  range of \<open>int\<close>, and the model takes the two's complement result compilers produce.\<close>

definition common_mask :: "u32 \<Rightarrow> u32 \<Rightarrow> u32" where
  "common_mask a b =
     (let v = a XOR b in
      if v = 0 then 0xffffffff
      else let r = common_log v in
        if unat r + 1 \<ge> 32 then 0 else NOT (push_bit (unat r + 1) 1 - 1))"

definition next_bit_is_one :: "u32 \<Rightarrow> u32 \<Rightarrow> u32" where
  "next_bit_is_one msk value =
     (if msk = 0 then 0x80000000 AND value
      else if msk = 0xffffffff then 0
      else (drop_bit 1 msk AND NOT msk) AND value)"

fun addr_next_bit_is_one :: "u32 list \<Rightarrow> u32 list \<Rightarrow> u32" where
  "addr_next_bit_is_one (m # ms) (a # as) =
     (if m < 0xffffffff then next_bit_is_one m a else addr_next_bit_is_one ms as)"
| "addr_next_bit_is_one _ _ = 0"

definition mask_matches :: "u32 \<Rightarrow> u32 \<Rightarrow> u32 \<Rightarrow> bool" where
  "mask_matches msk a b \<longleftrightarrow> (msk AND (a XOR b)) = 0"

fun addr_matches :: "u32 list \<Rightarrow> u32 list \<Rightarrow> u32 list \<Rightarrow> bool" where
  "addr_matches (m # ms) (a # as) (b # bs) =
     (if m = 0 then True
      else if \<not> mask_matches m a b then False
      else addr_matches ms as bs)"
| "addr_matches _ _ _ = True"

section \<open>Operations on the tree\<close>

definition new_trie_node :: "u32 list \<Rightarrow> u32 list \<Rightarrow> trie" where
  "new_trie_node a m = TNode a m TTrue TTrue"

text \<open>The loop of \<open>trie_split\<close> that fills \<open>new_mask\<close>; the words after the first one that
  differs keep their initial value 0.\<close>

fun split_mask :: "u32 list \<Rightarrow> u32 list \<Rightarrow> u32 list" where
  "split_mask (a # as) (b # bs) =
     (let m = common_mask a b in
      if m < 0xffffffff then m # replicate (length as) 0 else m # split_mask as bs)"
| "split_mask _ _ = []"

fun trie_split :: "trie \<Rightarrow> u32 list \<Rightarrow> trie" where
  "trie_split (TNode a m one zero) b =
     (let new_mask = split_mask a b;
          new_node = TNode a m one zero
      in if addr_next_bit_is_one new_mask a \<noteq> 0 then TNode a new_mask new_node TNull
         else TNode a new_mask TNull new_node)"
| "trie_split t b = t"

text \<open>The loop of \<open>_trie_insert\<close> over the words of both masks: \<open>Some\<close> is the truncated mask,
  \<^const>\<open>None\<close> says that no word of the node's mask is greater.\<close>

fun truncate_mask :: "u32 list \<Rightarrow> u32 list \<Rightarrow> u32 list option" where
  "truncate_mask (t # ts) (m # ms) =
     (if t > m then Some (m # replicate (length ts) 0)
      else map_option ((#) t) (truncate_mask ts ms))"
| "truncate_mask _ _ = None"

text \<open>\<open>_trie_insert\<close>: \<open>insert_loop\<close> is one run of the loop from the node \<open>this\<close>, and returns
  the subtree as the loop leaves it.  A loop that does not end has no value.\<close>

partial_function (option) insert_loop :: "trie \<Rightarrow> u32 list \<Rightarrow> u32 list \<Rightarrow> trie option" where
  [code]: "insert_loop this ad msk =
     (case this of TNull \<Rightarrow> Some TNull | TTrue \<Rightarrow> Some TTrue
      | TNode a0 m0 one0 zero0 \<Rightarrow>
        if addr_matches m0 a0 ad \<and> (1 AND m0 ! 3) \<noteq> 0 then Some this
        else
          (case (if addr_matches m0 a0 ad then this else trie_split this ad) of
             TNull \<Rightarrow> Some TNull | TTrue \<Rightarrow> Some TTrue
           | TNode a m one zero \<Rightarrow>
             (case truncate_mask m msk of
                Some m' \<Rightarrow> Some (TNode a m' TTrue TTrue)
              | None \<Rightarrow>
                if addr_next_bit_is_one m ad \<noteq> 0 then
                  (if one = TNull then Some (TNode a m (new_trie_node ad msk) zero)
                   else do { one' \<leftarrow> insert_loop one ad msk; Some (TNode a m one' zero) })
                else
                  (if zero = TNull then Some (TNode a m one (new_trie_node ad msk))
                   else do { zero' \<leftarrow> insert_loop zero ad msk; Some (TNode a m one zero') }))))"

text \<open>Words in network byte order are their four bytes in memory.\<close>

definition ntohl :: "u8 list \<Rightarrow> u32" where
  "ntohl bs = push_bit 24 (ucast (bs ! 0)) OR push_bit 16 (ucast (bs ! 1)) OR
     push_bit 8 (ucast (bs ! 2)) OR ucast (bs ! 3)"

definition sockaddr_to_addr :: "sockaddr \<Rightarrow> u32 list option" where
  "sockaddr_to_addr sa =
     (case sa of
        Sockaddr_in s_addr \<Rightarrow> Some [0, 0, 0xffff, ntohl s_addr]
      | Sockaddr_in6 addr6 \<Rightarrow>
          Some (map (\<lambda>i. push_bit 24 (ucast (addr6 ! (i * 4))) + push_bit 16 (ucast (addr6 ! (i * 4 + 1))) +
                 push_bit 8 (ucast (addr6 ! (i * 4 + 2))) + ucast (addr6 ! (i * 4 + 3))) [0..<4])
      | Sockaddr_other _ \<Rightarrow> None)"

definition sockaddr_to_mask :: "sockaddr \<Rightarrow> int \<Rightarrow> u32 list option" where
  "sockaddr_to_mask sa bits0 =
     (let r = (if bits0 \<ge> 0 then
                 (case sa of Sockaddr_in _ \<Rightarrow> Some (bits0 + 96)
                  | Sockaddr_in6 _ \<Rightarrow> Some bits0
                  | Sockaddr_other _ \<Rightarrow> None)
               else Some 128)
      in case r of None \<Rightarrow> None
         | Some bits \<Rightarrow>
           let k = bits div 32 in
           Some (map (\<lambda>i. if int i < k then 0xffffffff else if int i > k then 0
                          else push_bit (31 - nat (bits mod 32)) 0xfffffffe) [0..<4]))"

text \<open>The root has no mask of its own.  An address of an unknown family leaves the tree alone.\<close>

definition trie_insert :: "trie \<Rightarrow> sockaddr \<Rightarrow> int \<Rightarrow> trie option" where
  "trie_insert this sa bits =
     (case sockaddr_to_addr sa of None \<Rightarrow> Some this
      | Some ad \<Rightarrow>
        (case sockaddr_to_mask sa bits of None \<Rightarrow> Some this
         | Some msk \<Rightarrow>
           (case this of
              TNode a m one zero \<Rightarrow>
                if 0x80000000 AND ad ! 0 \<noteq> 0 then
                  (if one = TNull then Some (TNode a m (new_trie_node ad msk) zero)
                   else do { one' \<leftarrow> insert_loop one ad msk; Some (TNode a m one' zero) })
                else
                  (if zero = TNull then Some (TNode a m one (new_trie_node ad msk))
                   else do { zero' \<leftarrow> insert_loop zero ad msk; Some (TNode a m one zero') })
            | _ \<Rightarrow> None)))"

fun match_loop :: "trie \<Rightarrow> u32 list \<Rightarrow> bool" where
  "match_loop TNull _ = False"
| "match_loop TTrue _ = True"
| "match_loop (TNode a m one zero) ad =
     (if \<not> addr_matches m a ad then False
      else if (1 AND m ! 3) \<noteq> 0 then True
      else if addr_next_bit_is_one m ad \<noteq> 0 then match_loop one ad
      else match_loop zero ad)"

fun trie_match :: "trie \<Rightarrow> sockaddr \<Rightarrow> bool" where
  "trie_match (TNode _ _ one zero) sa =
     (case sockaddr_to_addr sa of None \<Rightarrow> False
      | Some ad \<Rightarrow> if 0x80000000 AND ad ! 0 \<noteq> 0 then match_loop one ad else match_loop zero ad)"
| "trie_match _ _ = False"

text \<open>The root that \<open>addrset_new\<close> allocates, zero filled.\<close>

definition trie_root :: trie where
  "trie_root = TNode (replicate 4 0) (replicate 4 0) TNull TNull"

section \<open>Words: prefixes\<close>

text \<open>\<open>pmask j\<close> has the \<open>j\<close> most significant bits set; \<open>hbit w p\<close> is bit \<open>p\<close> counted from the
  most significant one.\<close>

definition pmask :: "nat \<Rightarrow> u32" where
  "pmask j = NOT (mask (32 - j))"

definition hbit :: "u32 \<Rightarrow> nat \<Rightarrow> bool" where
  "hbit w p \<longleftrightarrow> bit w (31 - p)"

lemma bit_pmask: "bit (pmask j) i \<longleftrightarrow> i < 32 \<and> 32 - j \<le> i"
  by (auto simp: pmask_def bit_simps)

lemma pmask_0 [simp]: "pmask 0 = 0"
  by (rule bit_word_eqI) (simp add: bit_pmask)

lemma pmask_ge [simp]: "32 \<le> j \<Longrightarrow> pmask j = 0xffffffff"
  by (simp add: pmask_def)

lemma pmask_eq_0: "pmask j = 0 \<longleftrightarrow> j = 0"
proof
  assume "pmask j = 0"
  then have "\<not> bit (pmask j) 31" by simp
  then show "j = 0" by (simp add: bit_pmask)
qed simp

lemma pmask_full: "pmask j = 0xffffffff \<longleftrightarrow> 32 \<le> j"
proof
  assume "pmask j = 0xffffffff"
  then have "bit (pmask j) 0" by simp
  then show "32 \<le> j" by (simp add: bit_pmask)
qed simp

lemma less_full: "(w::u32) < 0xffffffff \<longleftrightarrow> w \<noteq> 0xffffffff"
proof -
  have e: "(0xffffffff :: u32) = - 1" by simp
  show ?thesis unfolding e using word_order.not_eq_extremum[of w] by blast
qed

lemma pmask_less_full: "pmask j < 0xffffffff \<longleftrightarrow> j < 32"
  using pmask_full[of j] by (auto simp: less_full)

lemma mask_matches_pmask:
  "mask_matches (pmask j) a b \<longleftrightarrow> (\<forall>p < min j 32. hbit a p = hbit b p)"
proof
  assume m: "mask_matches (pmask j) a b"
  show "\<forall>p < min j 32. hbit a p = hbit b p"
  proof (intro allI impI)
    fix p assume p: "p < min j 32"
    from m have "\<not> bit (pmask j AND (a XOR b)) (31 - p)" by (simp add: mask_matches_def)
    with p show "hbit a p = hbit b p" by (auto simp: bit_simps bit_pmask hbit_def)
  qed
next
  assume h: "\<forall>p < min j 32. hbit a p = hbit b p"
  show "mask_matches (pmask j) a b"
    unfolding mask_matches_def
  proof (rule bit_word_eqI)
    fix i :: nat assume "i < LENGTH(32)"
    then have i: "i < 32" by simp
    show "bit (pmask j AND (a XOR b)) i = bit 0 i"
      using h[rule_format, of "31 - i"] i by (auto simp: bit_simps bit_pmask hbit_def; force)
  qed
qed

lemma bit_msb32: "bit (0x80000000 :: u32) i \<longleftrightarrow> i = 31"
proof -
  have e: "(0x80000000 :: u32) = 2 ^ 31" by simp
  show ?thesis unfolding e by (subst bit_exp_iff) auto
qed

lemma next_bit_pmask: "next_bit_is_one (pmask j) v \<noteq> 0 \<longleftrightarrow> j < 32 \<and> hbit v j"
proof (cases "j < 32")
  case False
  then show ?thesis by (simp add: next_bit_is_one_def)
next
  case j: True
  have b: "bit (next_bit_is_one (pmask j) v) i \<longleftrightarrow> i = 31 - j \<and> bit v i" for i
  proof (cases "j = 0")
    case True
    then have e: "next_bit_is_one (pmask j) v = 0x80000000 AND v" by (simp add: next_bit_is_one_def)
    show ?thesis unfolding e bit_and_iff bit_msb32 using True by auto
  next
    case False
    with j have "pmask j \<noteq> 0" "pmask j \<noteq> 0xffffffff" by (auto simp: pmask_eq_0 pmask_full simp del: pmask_ge)
    with False j show ?thesis by (auto simp: next_bit_is_one_def bit_simps bit_pmask)
  qed
  have "next_bit_is_one (pmask j) v \<noteq> 0 \<longleftrightarrow> (\<exists>i. bit (next_bit_is_one (pmask j) v) i)"
    using bit_eq_iff[of "next_bit_is_one (pmask j) v" 0] by auto
  then show ?thesis using j by (auto simp: b hbit_def)
qed

lemma pmask_Suc_less: "\<forall>j \<in> set [0..<32]. pmask j < pmask (Suc j)"
  by code_simp

lemma pmask_less:
  assumes "j < k" "j < 32"
  shows "pmask j < pmask k"
proof -
  have "pmask j < pmask (min k 32)" using \<open>j < k\<close>
  proof (induction "k - Suc j" arbitrary: k)
    case 0
    then have "k = Suc j" by simp
    then show ?case using pmask_Suc_less assms(2) by (simp add: min_def)
  next
    case (Suc n)
    show ?case
    proof (cases "32 < k")
      case True
      then have "min (k - 1) 32 = 32" "min k 32 = 32" by simp_all
      with Suc.hyps(1)[of "k - 1"] Suc.hyps(2) show ?thesis by auto
    next
      case False
      from Suc.hyps Suc.prems have "pmask j < pmask (min (k - 1) 32)" by simp
      also have "\<dots> < pmask k" using bspec[OF pmask_Suc_less, of "k - 1"] False Suc by (simp add: min_def)
      finally show ?thesis using False by (simp add: min_def)
    qed
  qed
  then show ?thesis by (cases "32 \<le> k") (auto simp: min_def)
qed

subsection \<open>The common prefix of two words\<close>

lemma LogTable256_log:
  "\<forall>t \<in> set [1..<256]. 0 \<le> LogTable256 ! t \<and> LogTable256 ! t \<le> 7 \<and>
     2 ^ nat (LogTable256 ! t) \<le> t \<and> t < 2 ^ Suc (nat (LogTable256 ! t))"
  by code_simp

text \<open>The position of the highest set bit, as computed by table lookup.\<close>

lemma log_step:
  fixes n :: nat
  assumes t: "n div 2 ^ s = t" "0 < t" "t < 256"
  shows "2 ^ (s + nat (LogTable256 ! t)) \<le> n \<and> n < 2 ^ (s + nat (LogTable256 ! t) + 1)"
proof -
  let ?l = "nat (LogTable256 ! t)"
  have l: "2 ^ ?l \<le> t" "t < 2 ^ Suc ?l" using LogTable256_log t by auto
  have "2 ^ s * 2 ^ ?l \<le> 2 ^ s * t" using l(1) by simp
  also have "\<dots> \<le> n" using t(1) by (metis div_times_less_eq_dividend mult.commute)
  finally have lo: "2 ^ s * 2 ^ ?l \<le> n" .
  have "n < 2 ^ s * (t + 1)" using t(1) dividend_less_div_times[of "2 ^ s" n] by (simp add: mult.commute)
  also have "\<dots> \<le> 2 ^ s * 2 ^ Suc ?l" using l(2) by (intro mult_le_mono2) simp
  finally show ?thesis using lo by (simp add: power_add mult.commute)
qed

lemma word_of_int_table:
  assumes "0 < t" "t < 256" "s \<le> 24"
  shows "unat (word_of_nat s + word_of_int (LogTable256 ! t) :: u8) = s + nat (LogTable256 ! t)"
proof -
  let ?l = "LogTable256 ! t"
  have l: "0 \<le> ?l" "?l \<le> 7" using LogTable256_log assms by auto
  then have "word_of_int ?l = (word_of_nat (nat ?l) :: u8)" by simp
  then have "word_of_nat s + word_of_int ?l = (word_of_nat (s + nat ?l) :: u8)" by simp
  moreover have "s + nat ?l < 256" using l assms by linarith
  ultimately show ?thesis by (simp only: unat_of_nat) (simp add: take_bit_nat_eq_self)
qed

lemma common_log_spec:
  assumes "v \<noteq> 0"
  shows "2 ^ unat (common_log v) \<le> unat v \<and> unat v < 2 ^ (unat (common_log v) + 1)"
proof -
  let ?n = "unat v"
  have n: "0 < ?n" "?n < 2 ^ 32" using assms unsigned_less[of v, where ?'a = nat] by (auto simp: unat_gt_0)
  have u: "unat (drop_bit k w) = unat w div 2 ^ k" for k and w :: u32
    by (simp only: unat_drop_bit_eq) (simp add: drop_bit_eq_div)
  have z: "drop_bit k w = 0 \<longleftrightarrow> unat w div 2 ^ k = 0" for k and w :: u32
    by (metis u unat_eq_zero)
  have dd: "?n div 65536 div 256 = ?n div 2 ^ 24" by (simp add: div_mult2_eq[symmetric])
  consider "0 < ?n div 2 ^ 24" | "?n div 2 ^ 24 = 0" "0 < ?n div 2 ^ 16"
    | "?n div 2 ^ 16 = 0" "0 < ?n div 2 ^ 8" | "?n div 2 ^ 8 = 0" by fastforce
  then show ?thesis
  proof cases
    case 1
    then have "0 < ?n div 2 ^ 16" by (simp add: div_greater_zero_iff)
    then have "common_log v = word_of_nat 24 + word_of_int (LogTable256 ! (?n div 2 ^ 24))"
      using 1 dd by (simp add: common_log_def z u)
    then show ?thesis using word_of_int_table[of "?n div 2 ^ 24" 24] log_step[of ?n 24] 1 n by simp
  next
    case 2
    then have "common_log v = word_of_nat 16 + word_of_int (LogTable256 ! (?n div 2 ^ 16))"
      using dd by (simp add: common_log_def z u)
    then show ?thesis using word_of_int_table[of "?n div 2 ^ 16" 16] log_step[of ?n 16] 2 n by simp
  next
    case 3
    then have "common_log v = word_of_nat 8 + word_of_int (LogTable256 ! (?n div 2 ^ 8))"
      by (simp add: common_log_def z u)
    then show ?thesis using word_of_int_table[of "?n div 2 ^ 8" 8] log_step[of ?n 8] 3 n by simp
  next
    case 4
    then have "?n div 2 ^ 16 = 0" by simp
    then have "common_log v = word_of_nat 0 + word_of_int (LogTable256 ! ?n)"
      using 4 by (simp add: common_log_def z u)
    then show ?thesis using word_of_int_table[of ?n 0] log_step[of ?n 0] 4 n by simp
  qed
qed

lemma top_bit:
  fixes n :: nat
  assumes "2 ^ r \<le> n" "n < 2 ^ (r + 1)"
  shows "bit n r" "r < i \<Longrightarrow> \<not> bit n i"
proof -
  have "n div 2 ^ r = 1" using assms by (intro div_nat_eqI) simp_all
  then show "bit n r" by (simp add: bit_iff_odd)
  assume "r < i"
  then have "(2::nat) ^ (r + 1) \<le> 2 ^ i" by (intro power_increasing) simp_all
  then show "\<not> bit n i" using assms(2) by (simp add: bit_iff_odd)
qed

lemma common_mask_pmask:
  assumes "a \<noteq> b"
  shows "\<exists>d < 32. common_mask a b = pmask d \<and> (\<forall>p < d. hbit a p = hbit b p) \<and> hbit a d \<noteq> hbit b d"
proof -
  define v where "v = a XOR b"
  define r where "r = unat (common_log v)"
  have x: "bit a i = bit b i \<longleftrightarrow> \<not> bit v i" for i by (auto simp: v_def bit_xor_iff)
  have v: "v \<noteq> 0" using assms x by (metis bit_0_eq bot_apply bot_bool_def bit_word_eqI)
  have top: "bit v r" "\<And>i. r < i \<Longrightarrow> \<not> bit v i"
    using top_bit[of r "unat v"] common_log_spec[OF v] by (auto simp: r_def bit_unsigned_iff)
  have r: "r < 32" using bit_imp_le_length[OF top(1)] by simp
  have cm: "common_mask a b = pmask (31 - r)"
  proof (cases "r = 31")
    case True
    then show ?thesis using v by (simp add: common_mask_def v_def[symmetric] r_def[symmetric])
  next
    case False
    with r have "32 - (31 - r) = r + 1" by simp
    then show ?thesis using v r False
      by (simp add: common_mask_def v_def[symmetric] r_def[symmetric] pmask_def mask_eq_exp_minus_1 push_bit_eq_mult)
  qed
  show ?thesis using cm r top by (intro exI[of _ "31 - r"]) (auto simp: hbit_def x)
qed

lemma common_mask_same: "common_mask a a = pmask 32"
  by (simp add: common_mask_def)

section \<open>Arrays of words: bits and prefixes\<close>

fun abit :: "u32 list \<Rightarrow> nat \<Rightarrow> bool" where
  "abit [] i = False"
| "abit (a # as) i = (if i < 32 then hbit a i else abit as (i - 32))"

primrec prefix_words :: "nat \<Rightarrow> nat \<Rightarrow> u32 list" where
  "prefix_words 0 k = []"
| "prefix_words (Suc n) k = pmask k # prefix_words n (k - 32)"

definition agree :: "nat \<Rightarrow> u32 list \<Rightarrow> u32 list \<Rightarrow> bool" where
  "agree k a b \<longleftrightarrow> (\<forall>i < k. abit a i = abit b i)"

lemma agree_0 [simp]: "agree 0 a b"
  by (simp add: agree_def)

lemma agree_mono: "agree k a b \<Longrightarrow> j \<le> k \<Longrightarrow> agree j a b"
  by (simp add: agree_def)

lemma agree_sym: "agree k a b \<Longrightarrow> agree k b a"
  by (simp add: agree_def)

lemma agree_trans: "agree k a b \<Longrightarrow> agree k b c \<Longrightarrow> agree k a c"
  by (simp add: agree_def)

lemma agree_refl [simp]: "agree k a a"
  by (simp add: agree_def)

lemma agree_Cons:
  "agree k (a # as) (b # bs) \<longleftrightarrow> (\<forall>p < min k 32. hbit a p = hbit b p) \<and> agree (k - 32) as bs"
proof -
  have "(\<forall>i < k. abit (a # as) i = abit (b # bs) i) \<longleftrightarrow>
      (\<forall>p < min k 32. hbit a p = hbit b p) \<and> (\<forall>i < k. 32 \<le> i \<longrightarrow> abit as (i - 32) = abit bs (i - 32))"
    by (auto simp: not_less)
  also have "(\<forall>i < k. 32 \<le> i \<longrightarrow> abit as (i - 32) = abit bs (i - 32)) \<longleftrightarrow> agree (k - 32) as bs"
  proof
    assume *: "\<forall>i < k. 32 \<le> i \<longrightarrow> abit as (i - 32) = abit bs (i - 32)"
    have "abit as i = abit bs i" if "i < k - 32" for i
      using *[rule_format, of "i + 32"] that by simp
    then show "agree (k - 32) as bs" by (simp add: agree_def)
  qed (auto simp: agree_def)
  finally show ?thesis by (simp add: agree_def)
qed

lemma hbit_ext: "(\<And>p. p < 32 \<Longrightarrow> hbit a p = hbit b p) \<Longrightarrow> a = b"
proof (rule bit_word_eqI)
  fix i assume *: "\<And>p. p < 32 \<Longrightarrow> hbit a p = hbit b p" and "i < LENGTH(32)"
  with *[of "31 - i"] show "bit a i = bit b i" by (simp add: hbit_def)
qed

lemma agree_all: "length as = n \<Longrightarrow> length bs = n \<Longrightarrow> agree (32 * n) as bs \<longleftrightarrow> as = bs"
proof (induction n arbitrary: as bs)
  case (Suc n)
  obtain a as' b bs' where e: "as = a # as'" "bs = b # bs'" using Suc.prems by (cases as; cases bs) auto
  have "(\<forall>p < 32. hbit a p = hbit b p) \<longleftrightarrow> a = b" using hbit_ext by auto
  then show ?case using Suc e by (simp add: agree_Cons)
qed simp

lemma prefix_words_0: "prefix_words n 0 = replicate n 0"
  by (induction n) simp_all

lemma prefix_words_min: "prefix_words n (min k (32 * n)) = prefix_words n k"
proof (induction n arbitrary: k)
  case (Suc n)
  have "min k (32 * Suc n) - 32 = min (k - 32) (32 * n)" by auto
  with Suc[of "k - 32"] show ?case by (cases "32 \<le> k") (auto simp: min_def)
qed simp

lemma length_prefix_words [simp]: "length (prefix_words n k) = n"
  by (induction n arbitrary: k) simp_all

lemma addr_matches_prefix:
  "length as = n \<Longrightarrow> length bs = n \<Longrightarrow> k \<le> 32 * n \<Longrightarrow> addr_matches (prefix_words n k) as bs \<longleftrightarrow> agree k as bs"
proof (induction n arbitrary: as bs k)
  case (Suc n)
  obtain a as' b bs' where e: "as = a # as'" "bs = b # bs'" using Suc.prems by (cases as; cases bs) auto
  with Suc show ?case by (simp add: agree_Cons mask_matches_pmask pmask_eq_0)
qed simp

lemma next_bit_prefix:
  "length as = n \<Longrightarrow> addr_next_bit_is_one (prefix_words n k) as \<noteq> 0 \<longleftrightarrow> k < 32 * n \<and> abit as k"
proof (induction n arbitrary: as k)
  case (Suc n)
  obtain a as' where e: "as = a # as'" using Suc.prems by (cases as) auto
  with Suc show ?case
    by (cases "k < 32") (auto simp: pmask_less_full next_bit_pmask)
qed simp

lemma split_mask_prefix:
  "length as = n \<Longrightarrow> length bs = n \<Longrightarrow> as \<noteq> bs \<Longrightarrow>
   \<exists>d < 32 * n. split_mask as bs = prefix_words n d \<and> agree d as bs \<and> abit as d \<noteq> abit bs d"
proof (induction n arbitrary: as bs)
  case (Suc n)
  obtain a as' b bs' where e: "as = a # as'" "bs = b # bs'" using Suc.prems by (cases as; cases bs) auto
  show ?case
  proof (cases "a = b")
    case True
    then have "as' \<noteq> bs'" using Suc.prems e by simp
    with Suc e obtain d where d: "d < 32 * n" "split_mask as' bs' = prefix_words n d" "agree d as' bs'"
      "abit as' d \<noteq> abit bs' d" by auto
    then show ?thesis using True e
      by (intro exI[of _ "d + 32"]) (auto simp: common_mask_same agree_Cons)
  next
    case False
    from common_mask_pmask[OF this] obtain d where d: "d < 32" "common_mask a b = pmask d"
      "\<forall>p < d. hbit a p = hbit b p" "hbit a d \<noteq> hbit b d" by blast
    then show ?thesis using e Suc.prems
      by (intro exI[of _ d]) (auto simp: agree_Cons pmask_less_full prefix_words_0)
  qed
qed simp

lemma truncate_mask_prefix:
  "k \<le> 32 * n \<Longrightarrow> truncate_mask (prefix_words n k) (prefix_words n j) =
   (if j < k then Some (prefix_words n j) else None)"
proof (induction n arbitrary: k j)
  case (Suc n)
  show ?case
  proof (cases "j < k")
    case True
    then show ?thesis
      using Suc.IH[of "k - 32" "j - 32"] Suc.prems pmask_less[OF True]
      by (cases "j < 32") (auto simp: prefix_words_0)
  next
    case False
    then have "\<not> pmask j < pmask k"
      using pmask_less[of k j] by (cases "k < 32") (auto simp: not_less le_less)
    then show ?thesis using Suc.IH[of "k - 32" "j - 32"] Suc.prems False by simp
  qed
qed simp

lemma last_bit_prefix: "(1 AND prefix_words 4 k ! 3) \<noteq> 0 \<longleftrightarrow> 128 \<le> k"
proof -
  have "(1 AND w) \<noteq> 0 \<longleftrightarrow> bit w 0" for w :: u32
    by (simp add: one_and_eq bit_0 odd_iff_mod_2_eq_one)
  moreover have "prefix_words 4 k ! 3 = pmask (k - 96)" by (simp add: numeral_eq_Suc)
  ultimately show ?thesis by (simp add: bit_pmask) linarith
qed

section \<open>The tree\<close>

text \<open>Well-formed trees: addresses have four words and every mask is a prefix mask.\<close>

fun trie_wf :: "trie \<Rightarrow> bool" where
  "trie_wf (TNode a m one zero) \<longleftrightarrow>
     length a = 4 \<and> (\<exists>k \<le> 128. m = prefix_words 4 k) \<and> trie_wf one \<and> trie_wf zero"
| "trie_wf _ \<longleftrightarrow> True"

lemma ex_prefix [simp]: "k \<le> 128 \<Longrightarrow> \<exists>k' \<le> 128. prefix_words 4 k = prefix_words 4 k'"
  by blast

text \<open>\<open>forks_at j b t\<close>: on some node of \<open>t\<close> whose address shares the first \<open>j < 128\<close> bits with
  \<open>b\<close>, the tree branches at bit \<open>j\<close> itself, or will do so when \<open>b\<close> is inserted, or the node is the
  single address \<open>b\<close>.  On such a tree the insertion of the prefix is incomplete.\<close>

fun forks_at :: "nat \<Rightarrow> u32 list \<Rightarrow> trie \<Rightarrow> bool" where
  "forks_at j b (TNode a m one zero) \<longleftrightarrow>
     j < 128 \<and> agree j a b \<and>
       (m = prefix_words 4 j \<and> \<not> (one = TTrue \<and> zero = TTrue) \<or>
        \<not> addr_matches m a b \<and> abit a j \<noteq> abit b j \<or>
        m = prefix_words 4 128 \<and> a = b) \<or>
     forks_at j b one \<or> forks_at j b zero"
| "forks_at j b _ \<longleftrightarrow> False"

lemma match_loop_node:
  "length a = 4 \<Longrightarrow> length x = 4 \<Longrightarrow> k \<le> 128 \<Longrightarrow>
   match_loop (TNode a (prefix_words 4 k) one zero) x \<longleftrightarrow>
     agree k a x \<and> (k = 128 \<or> match_loop (if abit x k then one else zero) x)"
  using addr_matches_prefix[of a 4 x k] next_bit_prefix[of x 4 k] last_bit_prefix[of k] by auto

lemma match_loop_new:
  "length a = 4 \<Longrightarrow> length x = 4 \<Longrightarrow> k \<le> 128 \<Longrightarrow>
   match_loop (new_trie_node a (prefix_words 4 k)) x \<longleftrightarrow> agree k a x"
  by (simp add: new_trie_node_def match_loop_node del: match_loop.simps(3))

declare match_loop.simps(3) [simp del]

lemma prefix_words_inj: "k \<le> 128 \<Longrightarrow> j \<le> 128 \<Longrightarrow> prefix_words 4 k = prefix_words 4 j \<longleftrightarrow> k = j"
  using truncate_mask_prefix[of k 4 j] truncate_mask_prefix[of j 4 k] truncate_mask_prefix[of k 4 k]
  by (cases k j rule: linorder_cases) auto

text \<open>The three ways one iteration of the insertion loop goes on a node.\<close>

lemma insert_loop_full:
  "length a = 4 \<Longrightarrow> length b = 4 \<Longrightarrow> agree 128 a b \<Longrightarrow>
   insert_loop (TNode a (prefix_words 4 128) one zero) b m = Some (TNode a (prefix_words 4 128) one zero)"
  using addr_matches_prefix[of a 4 b 128] last_bit_prefix[of 128]
  by (subst insert_loop.simps) simp

lemma insert_loop_match:
  assumes "length a = 4" "length b = 4" "agree k a b" "k < 128"
  shows "insert_loop (TNode a (prefix_words 4 k) one zero) b (prefix_words 4 j) =
    (if j < k then Some (TNode a (prefix_words 4 j) TTrue TTrue)
     else if abit b k then
       (if one = TNull then Some (TNode a (prefix_words 4 k) (new_trie_node b (prefix_words 4 j)) zero)
        else map_option (\<lambda>t. TNode a (prefix_words 4 k) t zero) (insert_loop one b (prefix_words 4 j)))
     else
       (if zero = TNull then Some (TNode a (prefix_words 4 k) one (new_trie_node b (prefix_words 4 j)))
        else map_option (\<lambda>t. TNode a (prefix_words 4 k) one t) (insert_loop zero b (prefix_words 4 j))))"
  using addr_matches_prefix[of a 4 b k] last_bit_prefix[of k] truncate_mask_prefix[of k 4 j]
    next_bit_prefix[of b 4 k] assms
  by (subst insert_loop.simps) (auto simp: map_conv_bind_option comp_def)

lemma insert_loop_split:
  fixes one zero :: trie
  assumes "length a = 4" "length b = 4" "\<not> agree k a b" "k \<le> 128"
  defines "old \<equiv> TNode a (prefix_words 4 k) one zero"
  obtains d where "d < k" "agree d a b" "abit a d \<noteq> abit b d"
    "insert_loop old b (prefix_words 4 j) =
       Some (if j < d then TNode a (prefix_words 4 j) TTrue TTrue
             else if abit b d then TNode a (prefix_words 4 d) (new_trie_node b (prefix_words 4 j)) old
             else TNode a (prefix_words 4 d) old (new_trie_node b (prefix_words 4 j)))"
proof -
  have nm: "\<not> addr_matches (prefix_words 4 k) a b" using addr_matches_prefix[of a 4 b k] assms by simp
  have "a \<noteq> b" using assms(3) by auto
  from split_mask_prefix[OF assms(1,2) this] obtain d where
    d: "d < 128" "split_mask a b = prefix_words 4 d" "agree d a b" "abit a d \<noteq> abit b d" by auto
  have "d < k" using d(3) assms(3) agree_mono by (metis not_le)
  moreover have "insert_loop old b (prefix_words 4 j) =
       Some (if j < d then TNode a (prefix_words 4 j) TTrue TTrue
             else if abit b d then TNode a (prefix_words 4 d) (new_trie_node b (prefix_words 4 j)) old
             else TNode a (prefix_words 4 d) old (new_trie_node b (prefix_words 4 j)))"
    using nm d next_bit_prefix[of a 4 d] next_bit_prefix[of b 4 d] truncate_mask_prefix[of d 4 j] assms(1,2)
    unfolding old_def by (subst insert_loop.simps) (simp add: Let_def)
  ultimately show thesis using that d by blast
qed

text \<open>What a run of the insertion loop does: it ends, keeps the tree well formed, never loses an
  address, adds only addresses of the prefix, and adds all of them when the tree does not fork at
  the prefix.\<close>

definition insert_ok :: "trie \<Rightarrow> nat \<Rightarrow> u32 list \<Rightarrow> trie \<Rightarrow> bool" where
  "insert_ok t j b t' \<longleftrightarrow> trie_wf t' \<and> t' \<noteq> TNull \<and>
     (\<forall>x. length x = 4 \<longrightarrow>
        (match_loop t x \<longrightarrow> match_loop t' x) \<and>
        (match_loop t' x \<longrightarrow> match_loop t x \<or> agree j b x) \<and>
        (\<not> forks_at j b t \<longrightarrow> agree j b x \<longrightarrow> match_loop t' x))"

lemma insert_okI:
  assumes "trie_wf t'" "t' \<noteq> TNull"
    "\<And>x. length x = 4 \<Longrightarrow> match_loop t x \<Longrightarrow> match_loop t' x"
    "\<And>x. length x = 4 \<Longrightarrow> match_loop t' x \<Longrightarrow> match_loop t x \<or> agree j b x"
    "\<And>x. length x = 4 \<Longrightarrow> \<not> forks_at j b t \<Longrightarrow> agree j b x \<Longrightarrow> match_loop t' x"
  shows "insert_ok t j b t'"
  using assms unfolding insert_ok_def by blast

lemma insert_ok_split:
  fixes one zero :: trie
  assumes "length a = 4" "length b = 4" "k \<le> 128" "j \<le> 128" "trie_wf one" "trie_wf zero"
    "d < k" "agree d a b" "abit a d \<noteq> abit b d"
  defines "old \<equiv> TNode a (prefix_words 4 k) one zero" and "new \<equiv> new_trie_node b (prefix_words 4 j)"
  shows "insert_ok old j b (if j < d then TNode a (prefix_words 4 j) TTrue TTrue
             else if abit b d then TNode a (prefix_words 4 d) new old
             else TNode a (prefix_words 4 d) old new)" (is "insert_ok old j b ?t'")
proof -
  have nk: "\<not> agree k a b" using assms(7,9) by (auto simp: agree_def)
  have old: "match_loop old x \<Longrightarrow> agree k a x" if "length x = 4" for x
    using that assms(1,3) by (simp add: old_def match_loop_node)
  have nw: "match_loop new x \<longleftrightarrow> agree j b x" if "length x = 4" for x
    using that assms(2,4) by (simp add: new_def match_loop_new)
  have t': "match_loop ?t' x \<longleftrightarrow> (if j < d then agree j a x
      else agree d a x \<and> (if abit x d = abit b d then agree j b x else match_loop old x))"
    if "length x = 4" for x
    using that nw[OF that] assms(1,3,4,7) by (simp add: match_loop_node)
  show ?thesis
  proof (rule insert_okI)
    show "trie_wf ?t'"
      using assms(1-7) by (auto simp: old_def new_def new_trie_node_def)
    show "?t' \<noteq> TNull" by simp
    fix x :: "u32 list" assume x: "length x = 4"
    note T = t'[OF x]
    show "match_loop ?t' x" if "match_loop old x"
    proof -
      have k: "agree k a x" by (rule old[OF x that])
      then have "abit x d = abit a d" using assms(7) by (simp add: agree_def)
      then show ?thesis unfolding T using that assms(7,9) agree_mono[OF k] by auto
    qed
    show "match_loop old x \<or> agree j b x" if "match_loop ?t' x"
    proof (cases "j < d")
      case True
      then have "agree j a x" using that T by simp
      moreover have "agree j b a" using agree_mono[OF assms(8)] True by (simp add: agree_sym)
      ultimately show ?thesis using agree_trans by blast
    qed (use that T in \<open>auto split: if_splits\<close>)
    show "match_loop ?t' x" if nf: "\<not> forks_at j b old" and ag: "agree j b x"
    proof (cases "j < d")
      case True
      then show ?thesis using T ag agree_trans agree_mono[OF assms(8), of j] by auto
    next
      case False
      have "\<not> addr_matches (prefix_words 4 k) a b"
        using addr_matches_prefix[of a 4 b k] nk assms by simp
      then have "j \<noteq> d" using nf assms(3,7,8,9) by (auto simp: old_def)
      then have "d < j" using False by simp
      then have "agree d a x" "abit x d = abit b d"
        using ag assms(8) by (auto simp: agree_def)
      then show ?thesis using T ag False by simp
    qed
  qed
qed

lemma insert_ok_child:
  assumes "length a = 4" "length b = 4" "k < 128" "k \<le> j" "j \<le> 128" "agree k a b" "trie_wf one" "trie_wf zero"
    and child: "insert_ok (if abit b k then one else zero) j b t'"
  shows "insert_ok (TNode a (prefix_words 4 k) one zero) j b
     (if abit b k then TNode a (prefix_words 4 k) t' zero else TNode a (prefix_words 4 k) one t')"
    (is "insert_ok ?old j b ?new")
proof -
  have old: "match_loop ?old x \<longleftrightarrow> agree k a x \<and> match_loop (if abit x k then one else zero) x"
    and new: "match_loop ?new x \<longleftrightarrow> agree k a x \<and>
      match_loop (if abit x k = abit b k then t' else if abit x k then one else zero) x"
    if "length x = 4" for x
    using that assms(1,3) by (auto simp: match_loop_node)
  show ?thesis
  proof (rule insert_okI)
    show "trie_wf ?new" using assms by (auto simp: insert_ok_def)
    show "?new \<noteq> TNull" by simp
    fix x :: "u32 list" assume x: "length x = 4"
    show "match_loop ?new x" if "match_loop ?old x"
      using that child x unfolding old[OF x] new[OF x] insert_ok_def by (auto split: if_splits)
    show "match_loop ?old x \<or> agree j b x" if "match_loop ?new x"
      using that child x unfolding old[OF x] new[OF x] insert_ok_def by (auto split: if_splits)
    show "match_loop ?new x" if nf: "\<not> forks_at j b ?old" and ag: "agree j b x"
    proof -
      have ax: "agree k a x" using assms(6) agree_mono[OF ag assms(4)] agree_trans by blast
      have nfc: "\<not> forks_at j b (if abit b k then one else zero)" using nf by (simp split: if_splits)
      show ?thesis
      proof (cases "k = j")
        case True
        with nf assms(3,6) have "one = TTrue" "zero = TTrue" by auto
        with child x show ?thesis unfolding new[OF x] insert_ok_def using ax by auto
      next
        case False
        then have "abit x k = abit b k" using ag assms(4) by (simp add: agree_def)
        with child x nfc ag show ?thesis unfolding new[OF x] insert_ok_def using ax by auto
      qed
    qed
  qed
qed

lemma insert_ok_trunc:
  assumes "length a = 4" "length b = 4" "k \<le> 128" "j < k" "agree k a b"
  shows "insert_ok (TNode a (prefix_words 4 k) one zero) j b (TNode a (prefix_words 4 j) TTrue TTrue)"
proof (rule insert_okI)
  have ab: "agree j a b" using agree_mono[OF assms(5)] assms(4) by simp
  show "trie_wf (TNode a (prefix_words 4 j) TTrue TTrue)" using assms by auto
  fix x :: "u32 list" assume x: "length x = 4"
  have m: "match_loop (TNode a (prefix_words 4 j) TTrue TTrue) x \<longleftrightarrow> agree j a x"
    using assms x by (simp add: match_loop_node)
  show "match_loop (TNode a (prefix_words 4 j) TTrue TTrue) x" if "match_loop (TNode a (prefix_words 4 k) one zero) x"
    using that assms x agree_mono[of k a x j] unfolding m by (simp add: match_loop_node)
  show "match_loop (TNode a (prefix_words 4 k) one zero) x \<or> agree j b x"
    if "match_loop (TNode a (prefix_words 4 j) TTrue TTrue) x"
    using that m agree_trans[OF agree_sym[OF ab]] by blast
  show "match_loop (TNode a (prefix_words 4 j) TTrue TTrue) x" if "agree j b x"
    using that m agree_trans[OF ab] by blast
qed simp

lemma insert_ok_new: "length b = 4 \<Longrightarrow> j \<le> 128 \<Longrightarrow> insert_ok TNull j b (new_trie_node b (prefix_words 4 j))"
  by (rule insert_okI) (auto simp: match_loop_new, auto simp: new_trie_node_def)

lemma insert_loop_spec:
  assumes "length b = 4" "j \<le> 128"
  shows "trie_wf t \<Longrightarrow> t \<noteq> TNull \<Longrightarrow> \<exists>t'. insert_loop t b (prefix_words 4 j) = Some t' \<and> insert_ok t j b t'"
proof (induction t)
  case TTrue
  then show ?case by (subst insert_loop.simps) (simp add: insert_ok_def)
next
  case (TNode a m one zero)
  then obtain k where k: "k \<le> 128" "m = prefix_words 4 k" and a: "length a = 4"
    and wf: "trie_wf one" "trie_wf zero" by auto
  show ?case
  proof (cases "agree k a b")
    case False
    then show ?thesis
      unfolding k(2) using insert_loop_split[OF a assms(1) False k(1), of one zero j]
        insert_ok_split[OF a assms(1) k(1) assms(2) wf] by metis
  next
    case ag: True
    consider "k = 128" | "k < 128" "j < k" | "k < 128" "k \<le> j" using k(1) by linarith
    then show ?thesis
    proof cases
      case 1
      then have e: "a = b" using agree_all[of a 4 b] a assms(1) ag by simp
      have "insert_ok (TNode a m one zero) j b (TNode a m one zero)"
        using TNode.prems(1) agree_all[of b 4] assms 1 k(2) e
        by (intro insert_okI) (auto simp: match_loop_node)
      then show ?thesis using insert_loop_full[OF a assms(1)] ag 1 k(2) by simp
    next
      case 2
      then show ?thesis
        using insert_loop_match[OF a assms(1) ag 2(1)] insert_ok_trunc[OF a assms(1) k(1) 2(2) ag] k(2) by simp
    next
      case 3
      define c where "c = (if abit b k then one else zero)"
      obtain t' where t': "(if c = TNull then Some (new_trie_node b (prefix_words 4 j))
          else insert_loop c b (prefix_words 4 j)) = Some t'" "insert_ok c j b t'"
        using TNode.IH wf insert_ok_new[OF assms] by (cases "c = TNull"; cases "abit b k") (auto simp: c_def)
      have "insert_loop (TNode a m one zero) b (prefix_words 4 j) =
        Some (if abit b k then TNode a m t' zero else TNode a m one t')"
        using insert_loop_match[OF a assms(1) ag 3(1), of one zero j] t'(1) 3 k(2)
        by (auto simp: c_def split: if_splits)
      moreover have "insert_ok (TNode a m one zero) j b (if abit b k then TNode a m t' zero else TNode a m one t')"
        unfolding k(2) using 3 ag a assms wf t'(2) by (intro insert_ok_child) (auto simp: c_def)
      ultimately show ?thesis by blast
    qed
  qed
qed simp

section \<open>Socket addresses\<close>

text \<open>The prefix length, out of 128, that a number of netmask bits means for an address.\<close>

fun prefix_len :: "sockaddr \<Rightarrow> int \<Rightarrow> nat" where
  "prefix_len (Sockaddr_in _) bits = (if bits < 0 then 128 else nat bits + 96)"
| "prefix_len _ bits = (if bits < 0 then 128 else nat bits)"

fun known_family :: "sockaddr \<Rightarrow> bool" where
  "known_family (Sockaddr_other _) = False"
| "known_family _ = True"

definition in_prefix :: "sockaddr \<Rightarrow> int \<Rightarrow> sockaddr \<Rightarrow> bool" where
  "in_prefix sa bits x \<longleftrightarrow>
     (case (sockaddr_to_addr sa, sockaddr_to_addr x) of
        (Some a, Some b) \<Rightarrow> agree (prefix_len sa bits) a b | _ \<Rightarrow> False)"

lemma sockaddr_to_addr_length: "sockaddr_to_addr sa = Some a \<Longrightarrow> length a = 4"
  by (auto simp: sockaddr_to_addr_def split: sockaddr.splits)

lemma sockaddr_to_addr_known: "known_family sa \<longleftrightarrow> (\<exists>a. sockaddr_to_addr sa = Some a)"
  by (cases sa) (auto simp: sockaddr_to_addr_def)

lemma push_bit_pmask: "\<forall>r \<in> set [0..<32]. push_bit (31 - r) (0xfffffffe :: u32) = pmask r"
  by code_simp

lemma mask_word:
  assumes "n \<le> 128" "i < 4"
  shows "(if int i < int n div 32 then 0xffffffff else if int i > int n div 32 then 0
          else push_bit (31 - nat (int n mod 32)) (0xfffffffe :: u32)) = pmask (n - 32 * i)"
proof -
  have d: "int n div 32 = int (n div 32)" "nat (int n mod 32) = n mod 32" by (simp_all add: nat_mod_distrib zdiv_int)
  consider "i < n div 32" | "n div 32 < i" | "i = n div 32" by linarith
  then show ?thesis
  proof cases
    case 1
    then have "32 \<le> n - 32 * i" by linarith
    with 1 show ?thesis unfolding d by simp
  next
    case 2
    then have "n - 32 * i = 0" by linarith
    with 2 show ?thesis unfolding d by simp
  next
    case 3
    then have "n - 32 * i = n mod 32" by (simp add: modulo_nat_def mult.commute)
    with 3 show ?thesis unfolding d using push_bit_pmask by simp
  qed
qed

lemma sockaddr_to_mask_prefix:
  assumes "known_family sa" "prefix_len sa bits \<le> 128"
  shows "sockaddr_to_mask sa bits = Some (prefix_words 4 (prefix_len sa bits))"
proof -
  let ?n = "prefix_len sa bits"
  have "sockaddr_to_mask sa bits = Some (map (\<lambda>i. if int i < int ?n div 32 then 0xffffffff
      else if int i > int ?n div 32 then 0 else push_bit (31 - nat (int ?n mod 32)) 0xfffffffe) [0..<4])"
    using assms(1) by (cases sa) (auto simp: sockaddr_to_mask_def Let_def)
  also have "\<dots> = Some (map (\<lambda>i. pmask (?n - 32 * i)) [0..<4])"
    using mask_word[OF assms(2)] by (simp del: upt_rec_numeral)
  also have "\<dots> = Some (prefix_words 4 ?n)" by (simp add: numeral_eq_Suc)
  finally show ?thesis .
qed

lemma first_bit: "length a = 4 \<Longrightarrow> (0x80000000 AND a ! 0) \<noteq> 0 \<longleftrightarrow> abit a 0"
proof -
  assume "length a = 4"
  then obtain w ws where a: "a = w # ws" by (cases a) auto
  show ?thesis using next_bit_pmask[of 0 w] by (simp add: a next_bit_is_one_def)
qed

fun root_wf :: "trie \<Rightarrow> bool" where
  "root_wf (TNode _ _ one zero) \<longleftrightarrow> trie_wf one \<and> trie_wf zero"
| "root_wf _ \<longleftrightarrow> False"

fun root_forks :: "trie \<Rightarrow> sockaddr \<Rightarrow> int \<Rightarrow> bool" where
  "root_forks (TNode _ _ one zero) sa bits \<longleftrightarrow>
     (case sockaddr_to_addr sa of None \<Rightarrow> False
      | Some a \<Rightarrow> prefix_len sa bits = 0 \<or>
          forks_at (prefix_len sa bits) a (if abit a 0 then one else zero))"
| "root_forks _ _ _ \<longleftrightarrow> False"

lemma root_wf_trie_root [simp]: "root_wf trie_root"
  by (simp add: trie_root_def)

lemma trie_match_root [simp]: "trie_match trie_root x = False"
  by (simp add: trie_root_def split: option.splits)

lemma trie_match_branch:
  "sockaddr_to_addr x = Some b \<Longrightarrow>
   trie_match (TNode a m one zero) x = match_loop (if abit b 0 then one else zero) b"
  using first_bit[OF sockaddr_to_addr_length] by simp

lemma trie_insert_branch:
  assumes "sockaddr_to_addr sa = Some b" "prefix_len sa bits \<le> 128"
  defines "new \<equiv> new_trie_node b (prefix_words 4 (prefix_len sa bits))"
    and "ins \<equiv> \<lambda>t. insert_loop t b (prefix_words 4 (prefix_len sa bits))"
  shows "trie_insert (TNode a m one zero) sa bits =
    (if abit b 0 then map_option (\<lambda>t. TNode a m t zero) (if one = TNull then Some new else ins one)
     else map_option (\<lambda>t. TNode a m one t) (if zero = TNull then Some new else ins zero))"
proof -
  have "known_family sa" using assms(1) by (auto simp: sockaddr_to_addr_known)
  from sockaddr_to_mask_prefix[OF this assms(2)] show ?thesis
    using assms(1) first_bit[OF sockaddr_to_addr_length[OF assms(1)]]
    by (auto simp: trie_insert_def new_def ins_def map_conv_bind_option comp_def)
qed

lemma trie_insert_spec:
  assumes wf: "root_wf t" and sa: "known_family sa" "prefix_len sa bits \<le> 128"
  shows "\<exists>t'. trie_insert t sa bits = Some t' \<and> root_wf t' \<and>
     (\<forall>x. trie_match t x \<longrightarrow> trie_match t' x) \<and>
     (\<forall>x. trie_match t' x \<longrightarrow> trie_match t x \<or> in_prefix sa bits x) \<and>
     (\<not> root_forks t sa bits \<longrightarrow> (\<forall>x. in_prefix sa bits x \<longrightarrow> trie_match t' x))"
proof -
  obtain a m one zero where t: "t = TNode a m one zero" "trie_wf one" "trie_wf zero"
    using wf by (cases t) auto
  obtain b where b: "sockaddr_to_addr sa = Some b" using sa(1) by (auto simp: sockaddr_to_addr_known)
  note lb = sockaddr_to_addr_length[OF b]
  define j where "j = prefix_len sa bits"
  define c where "c = (if abit b 0 then one else zero)"
  have cw: "trie_wf c" using t by (simp add: c_def)
  obtain c' where c': "(if c = TNull then Some (new_trie_node b (prefix_words 4 j)) else insert_loop c b (prefix_words 4 j)) = Some c'"
    "insert_ok c j b c'"
    using insert_ok_new[OF lb] insert_loop_spec[OF lb, of j c] cw sa(2)
    by (cases "c = TNull") (auto simp: j_def)
  define t' where "t' = (if abit b 0 then TNode a m c' zero else TNode a m one c')"
  have r: "trie_insert t sa bits = Some t'"
    using c'(1) unfolding t(1) trie_insert_branch[OF b sa(2)] j_def[symmetric]
    by (auto simp: c_def t'_def split: if_splits)
  have m: "trie_match t' x = match_loop (if abit y 0 = abit b 0 then c' else if abit y 0 then one else zero) y"
    "trie_match t x = match_loop (if abit y 0 then one else zero) y"
    if "sockaddr_to_addr x = Some y" for x y
    using that by (auto simp: t'_def t(1) trie_match_branch simp del: trie_match.simps)
  have none: "sockaddr_to_addr x = None \<Longrightarrow> \<not> trie_match u x" for x u
    by (cases u) simp_all
  have 1: "trie_match t' x" if "trie_match t x" for x
    using that none c'(2) sockaddr_to_addr_length
    by (cases "sockaddr_to_addr x") (auto simp: m insert_ok_def c_def split: if_splits)
  have 2: "trie_match t x \<or> in_prefix sa bits x" if "trie_match t' x" for x
  proof (cases "sockaddr_to_addr x")
    case (Some y)
    then show ?thesis using that c'(2) sockaddr_to_addr_length[OF Some] b
      by (auto simp: m insert_ok_def c_def in_prefix_def j_def split: if_splits)
  qed (use none that in blast)
  have 3: "trie_match t' x" if nf: "\<not> root_forks t sa bits" and ip: "in_prefix sa bits x" for x
  proof -
    obtain y where y: "sockaddr_to_addr x = Some y" "agree j b y"
      using ip b by (auto simp: in_prefix_def j_def split: option.splits)
    have "0 < j" "\<not> forks_at j b c" using nf b by (auto simp: t(1) j_def c_def)
    then have "abit y 0 = abit b 0" using y(2) by (simp add: agree_def)
    then show ?thesis using c'(2) y \<open>\<not> forks_at j b c\<close> sockaddr_to_addr_length[OF y(1)]
      by (simp add: m[OF y(1)] insert_ok_def)
  qed
  have "root_wf t'" using t c'(2) by (simp add: t'_def insert_ok_def)
  with r 1 2 3 show ?thesis by blast
qed

lemma forks_at_full: "\<not> forks_at 128 b t"
  by (induction t) auto

lemma host_insert:
  assumes "root_wf t" "known_family sa"
  shows "\<exists>t'. trie_insert t sa (-1) = Some t' \<and> root_wf t' \<and> trie_match t' sa \<and>
     (\<forall>x. trie_match t' x \<longleftrightarrow> trie_match t x \<or> sockaddr_to_addr x = sockaddr_to_addr sa)"
proof -
  have p: "prefix_len sa (-1) = 128" by (cases sa) simp_all
  have nf: "\<not> root_forks t sa (-1)"
    by (cases t) (simp_all add: p forks_at_full split: option.splits)
  obtain b where b: "sockaddr_to_addr sa = Some b" using assms(2) by (auto simp: sockaddr_to_addr_known)
  have i: "in_prefix sa (-1) x \<longleftrightarrow> sockaddr_to_addr x = sockaddr_to_addr sa" for x
    using agree_all[of b 4] sockaddr_to_addr_length b
    by (auto simp: in_prefix_def p split: option.splits)
  show ?thesis using trie_insert_spec[OF assms, of "-1"] nf i p by auto
qed

section \<open>Correctness of the tree\<close>

text \<open>Concrete addresses, and a tree filled by a sequence of insertions.\<close>

definition ipv4 :: "nat \<Rightarrow> nat \<Rightarrow> nat \<Rightarrow> nat \<Rightarrow> sockaddr" where
  "ipv4 a b c d = Sockaddr_in [word_of_nat a, word_of_nat b, word_of_nat c, word_of_nat d]"

definition insert_all :: "(sockaddr \<times> int) list \<Rightarrow> trie option" where
  "insert_all ps = foldl (\<lambda>acc (sa, bits). do { t \<leftarrow> acc; trie_insert t sa bits }) (Some trie_root) ps"

text \<open>C3. Inserting an address with a netmask into a well-formed tree ends, keeps the tree well
  formed, keeps every address that matched and adds no address outside the prefix; and when the
  tree does not fork at the prefix, exactly the addresses of the prefix are added, so the tree
  implements the union of address sets.\<close>

theorem trie_insert_union:
  assumes "root_wf t" "known_family sa" "prefix_len sa bits \<le> 128"
  shows "\<exists>t'. trie_insert t sa bits = Some t' \<and> root_wf t' \<and>
     (\<forall>x. trie_match t x \<longrightarrow> trie_match t' x) \<and>
     (\<forall>x. trie_match t' x \<longrightarrow> trie_match t x \<or> in_prefix sa bits x) \<and>
     (\<not> root_forks t sa bits \<longrightarrow>
        (\<forall>x. trie_match t' x \<longleftrightarrow> trie_match t x \<or> in_prefix sa bits x))"
  using trie_insert_spec[OF assms] by blast

theorem trie_insert_union_witness:
  "\<exists>t'. trie_insert trie_root (ipv4 192 168 1 0) 24 = Some t' \<and> trie_match t' (ipv4 192 168 1 77) \<and>
     \<not> trie_match t' (ipv4 192 168 2 77)"
proof -
  have "root_wf trie_root" "known_family (ipv4 192 168 1 0)" "prefix_len (ipv4 192 168 1 0) 24 \<le> 128"
    "\<not> root_forks trie_root (ipv4 192 168 1 0) 24"
    by (simp_all add: ipv4_def trie_root_def sockaddr_to_addr_def)
  moreover have "in_prefix (ipv4 192 168 1 0) 24 (ipv4 192 168 1 77)"
    "\<not> in_prefix (ipv4 192 168 1 0) 24 (ipv4 192 168 2 77)"
    by code_simp+
  ultimately show ?thesis using trie_insert_union[of trie_root "ipv4 192 168 1 0" 24] by auto
qed

text \<open>A single address (no netmask given) is always matched after its insertion, whatever
  the tree held before, and it is the only address that is added.\<close>

theorem trie_insert_host:
  assumes "root_wf t" "known_family sa"
  shows "\<exists>t'. trie_insert t sa (-1) = Some t' \<and> root_wf t' \<and> trie_match t' sa \<and>
     (\<forall>x. trie_match t' x \<longleftrightarrow> trie_match t x \<or> sockaddr_to_addr x = sockaddr_to_addr sa)"
  using host_insert[OF assms] .

theorem trie_insert_host_witness:
  "\<exists>t'. trie_insert trie_root (ipv4 10 0 0 1) (-1) = Some t' \<and> trie_match t' (ipv4 10 0 0 1) \<and>
     \<not> trie_match t' (ipv4 10 0 0 2)"
proof -
  have k: "known_family (ipv4 10 0 0 1)" by (simp add: ipv4_def)
  have n: "sockaddr_to_addr (ipv4 10 0 0 2) \<noteq> sockaddr_to_addr (ipv4 10 0 0 1)" by code_simp
  show ?thesis using trie_insert_host[OF root_wf_trie_root k] n by auto
qed

text \<open>The insertion of a prefix is incomplete when the tree forks at the length of the
  prefix: after 192.168.1.200, the prefix 192.168.1.0/24 matches the lower half of the network
  only; after 10.0.0.1, the prefix 10.0.0.1/8 is dropped as a duplicate; and the prefix ::/0 is
  entered on one side of the root only.\<close>

theorem trie_insert_incomplete:
  "map_option (\<lambda>t. (trie_match t (ipv4 192 168 1 100), trie_match t (ipv4 192 168 1 201)))
     (insert_all [(ipv4 192 168 1 200, -1), (ipv4 192 168 1 0, 24)]) = Some (True, False) \<and>
   map_option (\<lambda>t. trie_match t (ipv4 10 0 0 2))
     (insert_all [(ipv4 10 0 0 1, -1), (ipv4 10 0 0 1, 8)]) = Some False \<and>
   map_option (\<lambda>t. trie_match t (Sockaddr_in6 (0xfe # 0x80 # replicate 14 0)))
     (insert_all [(Sockaddr_in6 (replicate 16 0), 0)]) = Some False"
  by (intro conjI; code_simp)
end
