(* ===== verification/Decimal.thy ===== *)
theory Decimal
  imports Nmap_Prelude
begin

text \<open>
  Decimal numbers in C strings: the value of a run of digits, \<open>strtol\<close> in base 10 on a string
  that starts with a digit, the wrapper \<open>parse_long\<close> of \<open>nbase/nbase_misc.c\<close>, and the digits
  that \<open>printf\<close> writes for a number.  Printing and parsing are inverse to each other.
\<close>

section \<open>Reading\<close>

definition digit_val :: "char \<Rightarrow> nat" where
  "digit_val c = ordc c - 48"

definition digits_val :: "string \<Rightarrow> nat" where
  "digits_val ds = foldl (\<lambda>v c. 10 * v + digit_val c) 0 ds"

definition LONG_MAX :: int where
  "LONG_MAX = 2 ^ 63 - 1"

text \<open>The result is the value, the tail and whether \<open>errno\<close> was set to \<open>ERANGE\<close>.\<close>

definition strtol10 :: "string \<Rightarrow> int \<times> string \<times> bool" where
  "strtol10 s =
     (let v = int (digits_val (takeWhile isdigit s)) in
      if v > LONG_MAX then (LONG_MAX, dropWhile isdigit s, True) else (v, dropWhile isdigit s, False))"

definition parse_long :: "string \<Rightarrow> int \<times> string \<times> bool" where
  "parse_long s = (if \<not> isdigit (deref s) then (0, s, False) else strtol10 s)"

section \<open>Writing\<close>

definition digit_char :: "nat \<Rightarrow> char" where
  "digit_char d = char_of (d + 48)"

fun dec :: "nat \<Rightarrow> string" where
  "dec n = (if n < 10 then [digit_char n] else dec (n div 10) @ [digit_char (n mod 10)])"

declare dec.simps [simp del]

lemma ordc_digit_char [simp]: "d < 10 \<Longrightarrow> ordc (digit_char d) = d + 48"
  by (simp add: digit_char_def ordc_char_of)

lemma isdigit_digit_char [simp]: "d < 10 \<Longrightarrow> isdigit (digit_char d)"
  by (simp add: isdigit_def)

lemma digit_val_digit_char [simp]: "d < 10 \<Longrightarrow> digit_val (digit_char d) = d"
  by (simp add: digit_val_def)

lemma not_isdigit_NUL [simp]: "\<not> isdigit NUL"
  by (simp add: isdigit_def)

lemma digits_val_snoc [simp]: "digits_val (ds @ [c]) = 10 * digits_val ds + digit_val c"
  by (simp add: digits_val_def)

lemma digits_val_Nil [simp]: "digits_val [] = 0"
  by (simp add: digits_val_def)

lemma dec_digits: "c \<in> set (dec n) \<Longrightarrow> isdigit c"
  by (induction n rule: dec.induct) (subst (asm) (2) dec.simps, auto split: if_splits)

lemma dec_not_Nil [simp]: "dec n \<noteq> []"
  by (subst dec.simps) simp

lemma digits_val_dec [simp]: "digits_val (dec n) = n"
proof (induction n rule: dec.induct)
  case (1 n)
  then show ?case by (subst dec.simps) (auto simp: digits_val_def)
qed

lemma dec_append:
  assumes "\<not> isdigit (deref rest)"
  shows "takeWhile isdigit (dec n @ rest) = dec n" "dropWhile isdigit (dec n @ rest) = rest"
proof -
  have t: "takeWhile isdigit rest = []" "dropWhile isdigit rest = rest"
    using assms by (cases rest; simp)+
  have "\<forall>c \<in> set (dec n). isdigit c" using dec_digits by blast
  then show "takeWhile isdigit (dec n @ rest) = dec n" "dropWhile isdigit (dec n @ rest) = rest"
    using t by (simp_all add: takeWhile_append2 dropWhile_append2)
qed

lemma isdigit_hd_dec: "isdigit (deref (dec n @ rest))"
proof -
  obtain c cs where c: "dec n = c # cs" using dec_not_Nil by (cases "dec n") auto
  then have "isdigit c" using dec_digits[of c n] by simp
  with c show ?thesis by simp
qed

text \<open>\<open>parse_long\<close> reads back what \<open>dec\<close> writes, up to the first character that is no digit.\<close>

lemma parse_long_dec:
  assumes "\<not> isdigit (deref rest)" "int n \<le> LONG_MAX"
  shows "parse_long (dec n @ rest) = (int n, rest, False)"
  using assms isdigit_hd_dec[of n rest] by (simp add: parse_long_def strtol10_def dec_append)

lemma parse_long_none: "\<not> isdigit (deref s) \<Longrightarrow> parse_long s = (0, s, False)"
  by (simp add: parse_long_def)

lemma length_dropWhile_digit: "isdigit (deref s) \<Longrightarrow> length (dropWhile isdigit s) < length s"
  by (cases s) (auto simp: le_imp_less_Suc length_dropWhile_le)

lemma parse_long_tail: "parse_long s = (v, t, e) \<Longrightarrow> length t \<le> length s"
  by (auto simp: parse_long_def strtol10_def Let_def length_dropWhile_le split: if_splits)

lemma parse_long_progress:
  "parse_long s = (v, t, e) \<Longrightarrow> t \<noteq> s \<Longrightarrow> length t < length s"
  using length_dropWhile_digit[of s] by (auto simp: parse_long_def strtol10_def Let_def split: if_splits)

lemma parse_long_nonneg: "parse_long s = (v, t, e) \<Longrightarrow> 0 \<le> v"
  by (auto simp: parse_long_def strtol10_def Let_def LONG_MAX_def split: if_splits)

lemma parse_long_bound: "parse_long s = (v, t, e) \<Longrightarrow> v \<le> LONG_MAX"
  by (auto simp: parse_long_def strtol10_def Let_def LONG_MAX_def split: if_splits)

lemma dec_length: "n < 10 ^ k \<Longrightarrow> 0 < k \<Longrightarrow> length (dec n) \<le> k"
proof (induction k arbitrary: n)
  case (Suc k)
  show ?case
  proof (cases "n < 10")
    case True
    then show ?thesis by (subst dec.simps) simp
  next
    case False
    then have "n div 10 < 10 ^ k" "0 < k" using Suc.prems by (auto simp: less_mult_imp_div_less intro: Nat.gr0I)
    then show ?thesis using Suc.IH[of "n div 10"] by (subst dec.simps) simp
  qed
qed simp

end
