(* ===== verification/Addrset_Range.thy ===== *)
theory Addrset_Range
  imports Addrset_Trie Decimal
begin

text \<open>
  IPv4 range specifications of \<open>nbase/nbase_addrset.c\<close>: a bit vector of 256 bits for each octet,
  the parser of specifications such as \<open>10.0-5.*.1,3,200-\<close>, the expansion of the vectors by a
  netmask, and the test of an address.  Proved: the parser reads every specification of the
  documented grammar as the sets it denotes, the expansion is the closure under the masked bits,
  and so a specification with a netmask matches the addresses that share a prefix with one of its
  members.
\<close>

section \<open>Bit vectors\<close>

record addrset_elem =
  elem_bits :: "u64 list list"

definition BIT_SET :: "u64 list \<Rightarrow> nat \<Rightarrow> u64 list" where
  "BIT_SET v n = v[n div 64 := v ! (n div 64) OR push_bit (n mod 64) 1]"

definition BIT_IS_SET :: "u64 list \<Rightarrow> nat \<Rightarrow> bool" where
  "BIT_IS_SET v n \<longleftrightarrow> (v ! (n div 64) AND push_bit (n mod 64) 1) \<noteq> 0"

text \<open>The vector \<open>memset\<close> leaves, and the loop that sets a range of bits.\<close>

definition empty_elem :: addrset_elem where
  "empty_elem = \<lparr>elem_bits = replicate 4 (replicate 4 0)\<rparr>"

definition fill_range :: "u64 list \<Rightarrow> nat \<Rightarrow> nat \<Rightarrow> u64 list" where
  "fill_range v start end = foldl BIT_SET v [start..<end + 1]"

section \<open>Parsing\<close>

text \<open>One iteration of the inner loop of \<open>parse_ipv4_ranges\<close> reads one range; the result is the
  first and the last value and the position after it.\<close>

definition parse_range :: "string \<Rightarrow> (nat \<times> nat \<times> string) option" where
  "parse_range p =
     (let (start0, tail, err) = parse_long p in
      if tail = p \<and> deref p \<noteq> CHR ''-'' then None
      else
        let start = (if tail = p then 0 else start0) in
        if err \<or> start < 0 \<or> start > 255 then None
        else if deref tail = CHR ''-'' then
          (let p2 = tl tail; (end0, tail2, err2) = parse_long p2;
               end = (if tail2 = p2 then 255 else end0)
           in if err2 \<or> end < 0 \<or> end > 255 \<or> end < start then None
              else Some (nat start, nat end, tail2))
        else Some (nat start, nat start, tail))"

lemma parse_range_tail: "parse_range p = Some (s, e, t) \<Longrightarrow> length t \<le> length p"
proof -
  assume a: "parse_range p = Some (s, e, t)"
  obtain v1 t1 e1 where 1: "parse_long p = (v1, t1, e1)" by (metis prod_cases3)
  obtain v2 t2 e2 where 2: "parse_long (tl t1) = (v2, t2, e2)" by (metis prod_cases3)
  have "length t1 \<le> length p" "length t2 \<le> length t1"
    using parse_long_tail[OF 1] parse_long_tail[OF 2] by auto
  then show ?thesis using a 2 by (auto simp: parse_range_def 1 Let_def split: if_splits)
qed

function parse_octet :: "u64 list \<Rightarrow> string \<Rightarrow> (u64 list \<times> string) option" where
  "parse_octet v p =
     (case parse_range p of None \<Rightarrow> None
      | Some (start, end, q) \<Rightarrow>
        let v' = fill_range v start end in
        if deref q \<noteq> CHR '','' then Some (v', q) else parse_octet v' (tl q))"
  by pat_completeness auto
termination
proof (relation "measure (\<lambda>(v, p). length p)", goal_cases)
  case (2 v p x s y e q v')
  then have "length q \<le> length p" "q \<noteq> []" using parse_range_tail by (auto simp: NUL_def)
  then show ?case by (cases q) auto
qed simp

declare parse_octet.simps [simp del]

function parse_ranges_loop :: "nat \<Rightarrow> u64 list list \<Rightarrow> string \<Rightarrow> u64 list list option" where
  "parse_ranges_loop i bits p =
     (if deref p \<noteq> NUL \<and> i < 4 then
        (case (if deref p = CHR ''*'' then Some (fill_range (bits ! i) 0 255, tl p)
               else parse_octet (bits ! i) p) of
           None \<Rightarrow> None
         | Some (v, q) \<Rightarrow>
           let bits' = bits[i := v]; i' = i + 1 in
           if i' < 4 then (if deref q \<noteq> CHR ''.'' then None else parse_ranges_loop i' bits' (tl q))
           else parse_ranges_loop i' bits' q)
      else if deref p \<noteq> NUL \<or> i < 4 then None else Some bits)"
  by pat_completeness auto
termination
  by (relation "measure (\<lambda>(i, bits, p). 4 - i)") auto

declare parse_ranges_loop.simps [simp del]

definition parse_ipv4_ranges :: "addrset_elem \<Rightarrow> string \<Rightarrow> addrset_elem option" where
  "parse_ipv4_ranges elem spec =
     map_option (\<lambda>b. elem\<lparr>elem_bits := b\<rparr>) (parse_ranges_loop 0 (elem_bits elem) spec)"

section \<open>Netmasks\<close>

definition netmask_pair :: "nat \<Rightarrow> u64 list \<Rightarrow> nat \<Rightarrow> u64 list" where
  "netmask_pair chunk_size bits k =
     (if BIT_IS_SET bits k then BIT_SET bits (k + chunk_size)
      else if BIT_IS_SET bits (k + chunk_size) then BIT_SET bits k
      else bits)"

text \<open>The positions \<open>i + j\<close> that the two inner loops visit, in their order.\<close>

definition chunk_positions :: "nat \<Rightarrow> nat list" where
  "chunk_positions chunk_size =
     concat (map (\<lambda>q. map (\<lambda>j. q * (chunk_size * 2) + j) [0..<chunk_size]) [0..<128 div chunk_size])"

definition apply_ipv4_netmask_octet :: "u64 list \<Rightarrow> u8 \<Rightarrow> u64 list" where
  "apply_ipv4_netmask_octet bits msk =
     foldl (\<lambda>v chunk_size.
              if (unat msk AND chunk_size) \<noteq> 0 then v
              else foldl (netmask_pair chunk_size) v (chunk_positions chunk_size))
       bits [1, 2, 4, 8, 16, 32, 64, 128]"

definition htonl :: "u32 \<Rightarrow> u8 list" where
  "htonl w = [ucast (drop_bit 24 w), ucast (drop_bit 16 w), ucast (drop_bit 8 w), ucast w]"

definition apply_ipv4_netmask :: "addrset_elem \<Rightarrow> u8 list \<Rightarrow> addrset_elem" where
  "apply_ipv4_netmask elem msk_n =
     (let msk = ntohl msk_n; b = elem_bits elem in
      elem\<lparr>elem_bits :=
        [apply_ipv4_netmask_octet (b ! 0) (ucast (drop_bit 24 (msk AND 0xFF000000))),
         apply_ipv4_netmask_octet (b ! 1) (ucast (drop_bit 16 (msk AND 0x00FF0000))),
         apply_ipv4_netmask_octet (b ! 2) (ucast (drop_bit 8 (msk AND 0x0000FF00))),
         apply_ipv4_netmask_octet (b ! 3) (ucast (msk AND 0x000000FF))]\<rparr>)"

definition apply_ipv4_netmask_bits :: "addrset_elem \<Rightarrow> int \<Rightarrow> addrset_elem" where
  "apply_ipv4_netmask_bits elem bits0 =
     (if bits0 > 32 then elem
      else
        let bits = (if bits0 < 0 then 32 else bits0);
            msk = (if bits = 0 then htonl 0 else htonl (push_bit (nat (32 - bits)) 0xFFFFFFFF))
        in apply_ipv4_netmask elem msk)"

section \<open>Matching\<close>

definition in_addr_to_octets :: "u8 list \<Rightarrow> u8 list" where
  "in_addr_to_octets ia =
     (let hbo = ntohl ia in
      [ucast (drop_bit 24 (hbo AND push_bit 24 0xFF)), ucast (drop_bit 16 (hbo AND push_bit 16 0xFF)),
       ucast (drop_bit 8 (hbo AND push_bit 8 0xFF)), ucast (hbo AND 0xFF)])"

definition match_ipv4_bits :: "u64 list list \<Rightarrow> sockaddr \<Rightarrow> bool" where
  "match_ipv4_bits bits sa =
     (case sa of
        Sockaddr_in ia \<Rightarrow>
          let octets = in_addr_to_octets ia in
          BIT_IS_SET (bits ! 0) (unat (octets ! 0)) \<and> BIT_IS_SET (bits ! 1) (unat (octets ! 1)) \<and>
          BIT_IS_SET (bits ! 2) (unat (octets ! 2)) \<and> BIT_IS_SET (bits ! 3) (unat (octets ! 3))
      | _ \<Rightarrow> False)"

definition addrset_elem_match :: "addrset_elem \<Rightarrow> sockaddr \<Rightarrow> bool" where
  "addrset_elem_match elem sa = match_ipv4_bits (elem_bits elem) sa"

section \<open>Bit vectors as sets\<close>

definition octets_of :: "u64 list \<Rightarrow> nat set" where
  "octets_of v = {n. n < 256 \<and> BIT_IS_SET v n}"

lemma BIT_IS_SET_bit: "BIT_IS_SET v n \<longleftrightarrow> bit (v ! (n div 64)) (n mod 64)"
proof -
  have "(w AND push_bit k 1) \<noteq> 0 \<longleftrightarrow> bit w k" for w :: u64 and k
    by (simp add: and_exp_eq_0_iff_not_bit)
  then show ?thesis by (simp only: BIT_IS_SET_def)
qed

lemma length_BIT_SET [simp]: "length (BIT_SET v n) = length v"
  by (simp add: BIT_SET_def)

lemma BIT_IS_SET_BIT_SET:
  assumes "length v = 4" "n < 256" "m < 256"
  shows "BIT_IS_SET (BIT_SET v n) m \<longleftrightarrow> m = n \<or> BIT_IS_SET v m"
proof (cases "m div 64 = n div 64")
  case True
  then have e: "m = n \<longleftrightarrow> m mod 64 = n mod 64" by (metis div_mult_mod_eq)
  have "n div 64 < 4" using assms by auto
  then show ?thesis using assms True unfolding BIT_IS_SET_bit e
    by (auto simp: BIT_SET_def bit_or_iff bit_push_bit_iff bit_exp_iff)
next
  case False
  then show ?thesis by (auto simp: BIT_IS_SET_bit BIT_SET_def)
qed

lemma octets_BIT_SET: "length v = 4 \<Longrightarrow> n < 256 \<Longrightarrow> octets_of (BIT_SET v n) = insert n (octets_of v)"
  by (auto simp: octets_of_def BIT_IS_SET_BIT_SET)

lemma length_foldl_BIT_SET [simp]: "length (foldl BIT_SET v ns) = length v"
  by (induction ns arbitrary: v) simp_all

lemma octets_foldl:
  "length v = 4 \<Longrightarrow> (\<forall>n \<in> set ns. n < 256) \<Longrightarrow> octets_of (foldl BIT_SET v ns) = octets_of v \<union> set ns"
  by (induction ns arbitrary: v) (auto simp: octets_BIT_SET)

lemma length_fill_range [simp]: "length (fill_range v a b) = length v"
  by (simp add: fill_range_def)

lemma octets_fill_range:
  "length v = 4 \<Longrightarrow> b < 256 \<Longrightarrow> octets_of (fill_range v a b) = octets_of v \<union> {a..b}"
  unfolding fill_range_def by (subst octets_foldl) auto

lemma octets_empty: "octets_of (replicate 4 0) = {}"
proof -
  have "replicate 4 0 ! (n div 64) = (0::u64)" if "n < 256" for n
    using that by (intro nth_replicate) auto
  then show ?thesis by (auto simp: octets_of_def BIT_IS_SET_bit)
qed

section \<open>The expansion by a netmask\<close>

lemma netmask_pair_octets:
  assumes "length v = 4" "k + cs < 256"
  shows "length (netmask_pair cs v k) = 4"
    "octets_of (netmask_pair cs v k) =
       octets_of v \<union> (if k \<in> octets_of v \<or> k + cs \<in> octets_of v then {k, k + cs} else {})"
proof -
  have m: "BIT_IS_SET v n \<longleftrightarrow> n \<in> octets_of v" if "n < 256" for n using that by (simp add: octets_of_def)
  have k: "k < 256" using assms(2) by simp
  show "length (netmask_pair cs v k) = 4" using assms by (simp add: netmask_pair_def)
  show "octets_of (netmask_pair cs v k) =
       octets_of v \<union> (if k \<in> octets_of v \<or> k + cs \<in> octets_of v then {k, k + cs} else {})"
    unfolding netmask_pair_def m[OF k] m[OF assms(2)] using octets_BIT_SET[OF assms(1)] k assms(2) by auto
qed

lemma netmask_pairs_octets:
  assumes "length v = 4" "\<forall>k \<in> set ks. k + cs < 256"
    "\<forall>k \<in> set ks. \<forall>k' \<in> set ks. k \<noteq> k' + cs"
  shows "length (foldl (netmask_pair cs) v ks) = 4 \<and>
    octets_of (foldl (netmask_pair cs) v ks) =
      octets_of v \<union> {n. \<exists>k \<in> set ks. (n = k \<or> n = k + cs) \<and> (k \<in> octets_of v \<or> k + cs \<in> octets_of v)}"
  using assms
proof (induction ks arbitrary: v)
  case (Cons k ks)
  let ?v = "netmask_pair cs v k"
  have l: "length ?v = 4" and o: "octets_of ?v =
      octets_of v \<union> (if k \<in> octets_of v \<or> k + cs \<in> octets_of v then {k, k + cs} else {})"
    using netmask_pair_octets[of v k cs] Cons.prems by simp_all
  have same: "k' \<in> octets_of ?v \<or> k' + cs \<in> octets_of ?v \<longleftrightarrow> k' \<in> octets_of v \<or> k' + cs \<in> octets_of v"
    if "k' \<in> set ks" for k'
    using Cons.prems(3) that unfolding o by (auto split: if_splits)
  have "octets_of (foldl (netmask_pair cs) ?v ks) = octets_of ?v \<union>
      {n. \<exists>k \<in> set ks. (n = k \<or> n = k + cs) \<and> (k \<in> octets_of v \<or> k + cs \<in> octets_of v)}"
    using Cons.IH[OF l] Cons.prems same by simp
  then show ?case using Cons.IH[OF l] Cons.prems by (auto simp: o split: if_splits)
qed simp

text \<open>\<open>partner c n\<close> is \<open>n\<close> with bit \<open>c\<close> flipped.\<close>

definition partner :: "nat \<Rightarrow> nat \<Rightarrow> nat" where
  "partner c n = (if bit n c then n - 2 ^ c else n + 2 ^ c)"

lemma bit_mod: "bit (n::nat) c \<longleftrightarrow> 2 ^ c \<le> n mod 2 ^ Suc c"
proof -
  have "n mod 2 ^ Suc c = n mod 2 ^ c + 2 ^ c * (n div 2 ^ c mod 2)"
    by (metis add.commute mod_mult2_eq mult.commute power_Suc2)
  moreover have "n mod 2 ^ c < 2 ^ c" by simp
  ultimately show ?thesis by (cases "odd (n div 2 ^ c)") (auto simp: bit_iff_odd odd_iff_mod_2_eq_one dest: leD)
qed

lemma set_chunk_positions:
  assumes "c < 8"
  shows "set (chunk_positions (2 ^ c)) = {n. n < 256 \<and> \<not> bit n c}"
proof -
  define C :: nat where "C = 2 ^ c"
  define Q :: nat where "Q = 128 div C"
  have "C * 2 ^ (7 - c) = 128" unfolding C_def using assms by (simp flip: power_add)
  then have CQ: "C * Q = 128" unfolding Q_def C_def by (metis dvd_mult_div_cancel dvd_triv_left)
  have C: "0 < C" by (simp add: C_def)
  have "set (chunk_positions C) = {n. \<exists>q < Q. \<exists>j < C. n = q * (C * 2) + j}"
    by (auto simp: chunk_positions_def Q_def)
      (metis (no_types, lifting) add.commute add_less_cancel_left le_Suc_ex)
  also have "\<dots> = {n. n < 256 \<and> n mod (C * 2) < C}"
  proof (intro set_eqI iffI)
    fix n assume "n \<in> {n. \<exists>q < Q. \<exists>j < C. n = q * (C * 2) + j}"
    then obtain q j where q: "q < Q" "j < C" and n: "n = q * (C * 2) + j" by blast
    have "q * (C * 2) + j < Suc q * (C * 2)" using q by simp
    also have "\<dots> \<le> Q * (C * 2)" using q by (intro mult_le_mono1) simp
    also have "\<dots> = 256" using CQ by (simp add: mult.commute)
    finally show "n \<in> {n. n < 256 \<and> n mod (C * 2) < C}" using q n by simp
  next
    fix n assume "n \<in> {n. n < 256 \<and> n mod (C * 2) < C}"
    then have n: "n < 256" "n mod (C * 2) < C" by simp_all
    have e: "Q * (C * 2) = 256" using CQ by (simp add: mult.commute)
    have "n div (C * 2) < Q" using n(1) by (intro less_mult_imp_div_less) (simp only: e)
    then show "n \<in> {n. \<exists>q < Q. \<exists>j < C. n = q * (C * 2) + j}"
      using n(2) div_mult_mod_eq[of n "C * 2", symmetric] by blast
  qed
  finally show ?thesis unfolding C_def bit_mod by (simp only: power_Suc2 not_le)
qed

lemma bit_partner: "bit (partner c n) i \<longleftrightarrow> (if i = c then \<not> bit n i else bit n i)"
proof -
  have e: "m + 2 ^ c = (m OR 2 ^ c)" if "\<not> bit m c" for m :: nat
    using that by (intro disjunctive_add_eq_or) (simp add: and_exp_eq_0_iff_not_bit)
  show ?thesis
  proof (cases "bit n c")
    case False
    then show ?thesis by (auto simp: partner_def e bit_or_iff bit_exp_iff)
  next
    case True
    define m where "m = unset_bit c n"
    have m: "\<not> bit m c" "\<And>i. i \<noteq> c \<Longrightarrow> bit m i = bit n i" by (auto simp: m_def bit_unset_bit_iff)
    have "n = m + 2 ^ c"
      unfolding e[OF m(1)]
    proof (rule bit_eqI)
      fix i show "bit n i = bit (m OR 2 ^ c) i"
        using m True by (cases "i = c") (auto simp: bit_or_iff bit_exp_iff)
    qed
    then show ?thesis using True m by (auto simp: partner_def)
  qed
qed

lemma less_256_bits: "n < 256 \<longleftrightarrow> (\<forall>i. bit (n::nat) i \<longrightarrow> i < 8)"
proof -
  have "n < 2 ^ 8 \<longleftrightarrow> take_bit 8 n = n" by (simp add: take_bit_nat_eq_self_iff)
  also have "\<dots> \<longleftrightarrow> (\<forall>i. bit n i \<longrightarrow> i < 8)" by (auto simp: bit_eq_iff[of "take_bit 8 n"] bit_take_bit_iff)
  finally show ?thesis by simp
qed

lemma partner_less: "n < 256 \<Longrightarrow> c < 8 \<Longrightarrow> partner c n < 256"
  unfolding less_256_bits by (auto simp: bit_partner split: if_splits)

lemma partner_partner [simp]: "partner c (partner c n) = n"
  by (rule bit_eqI) (simp add: bit_partner)

lemma chunk_octets:
  assumes "length v = 4" "c < 8"
  shows "length (foldl (netmask_pair (2 ^ c)) v (chunk_positions (2 ^ c))) = 4 \<and>
    octets_of (foldl (netmask_pair (2 ^ c)) v (chunk_positions (2 ^ c))) =
      {n. n < 256 \<and> (n \<in> octets_of v \<or> partner c n \<in> octets_of v)}"
proof -
  let ?ks = "chunk_positions (2 ^ c)"
  have ks: "k \<in> set ?ks \<longleftrightarrow> k < 256 \<and> \<not> bit k c" for k using set_chunk_positions[OF assms(2)] by simp
  have up: "k + 2 ^ c = partner c k" if "k \<in> set ?ks" for k using that by (simp add: ks partner_def)
  have lt: "\<forall>k \<in> set ?ks. k + 2 ^ c < 256" using partner_less[OF _ assms(2)] up ks by auto
  have ne: "\<forall>k \<in> set ?ks. \<forall>k' \<in> set ?ks. k \<noteq> k' + 2 ^ c"
  proof (intro ballI)
    fix k k' assume k: "k \<in> set ?ks" "k' \<in> set ?ks"
    show "k \<noteq> k' + 2 ^ c" using k bit_partner[of c k' c] unfolding up[OF k(2)] by (auto simp: ks)
  qed
  have "(n \<in> octets_of v \<or> (\<exists>k \<in> set ?ks. (n = k \<or> n = k + 2 ^ c) \<and> (k \<in> octets_of v \<or> k + 2 ^ c \<in> octets_of v))) \<longleftrightarrow>
      n < 256 \<and> (n \<in> octets_of v \<or> partner c n \<in> octets_of v)" for n
  proof -
    have "(\<exists>k \<in> set ?ks. (n = k \<or> n = k + 2 ^ c) \<and> (k \<in> octets_of v \<or> k + 2 ^ c \<in> octets_of v)) \<longleftrightarrow>
        (\<exists>k \<in> set ?ks. (n = k \<or> n = partner c k) \<and> (k \<in> octets_of v \<or> partner c k \<in> octets_of v))"
      using up by auto
    also have "\<dots> \<longleftrightarrow> n < 256 \<and> (n \<in> octets_of v \<or> partner c n \<in> octets_of v)"
    proof (cases "bit n c")
      case True
      then have "\<not> bit (partner c n) c" by (simp add: bit_partner)
      then show ?thesis using True partner_less[OF _ assms(2)] unfolding Bex_def ks
        by (metis partner_partner)
    next
      case False
      then show ?thesis unfolding Bex_def ks by (auto simp: bit_partner intro: partner_less assms)
    qed
    finally show ?thesis by (auto simp: octets_of_def)
  qed
  then show ?thesis using netmask_pairs_octets[OF assms(1) lt ne] by auto
qed

lemma and_power_bit: "(m AND 2 ^ c) \<noteq> 0 \<longleftrightarrow> bit (m::nat) c"
  by (simp add: and_exp_eq_0_iff_not_bit)

text \<open>The expansion of one octet: the values that agree with a member on the bits of the mask.\<close>

lemma netmask_octet_loop:
  fixes m :: nat
  assumes "length v = 4" "c \<le> 8"
  defines "r \<equiv> foldl (\<lambda>v chunk_size. if (m AND chunk_size) \<noteq> 0 then v
      else foldl (netmask_pair chunk_size) v (chunk_positions chunk_size)) v (map (\<lambda>i. 2 ^ i) [0..<c])"
  shows "length r = 4 \<and> octets_of r =
    {n. n < 256 \<and> (\<exists>k \<in> octets_of v. \<forall>i < 8. c \<le> i \<or> bit m i \<longrightarrow> bit k i = bit n i)}"
  using assms(2) unfolding r_def
proof (induction c)
  case 0
  have "n = k" if "n < 256" "k \<in> octets_of v" "\<forall>i < 8. bit k i = bit n i" for n k
    using that by (intro bit_eqI) (auto simp: less_256_bits octets_of_def)
  then show ?case using assms(1) by (auto simp: octets_of_def)
next
  case (Suc c)
  let ?f = "\<lambda>v chunk_size. if (m AND chunk_size) \<noteq> 0 then v
      else foldl (netmask_pair chunk_size) v (chunk_positions chunk_size)"
  define u where "u = foldl ?f v (map (\<lambda>i. 2 ^ i) [0..<c])"
  have u: "length u = 4" "octets_of u =
    {n. n < 256 \<and> (\<exists>k \<in> octets_of v. \<forall>i < 8. c \<le> i \<or> bit m i \<longrightarrow> bit k i = bit n i)}"
    using Suc by (simp_all add: u_def)
  have st: "foldl ?f v (map (\<lambda>i. 2 ^ i) [0..<Suc c]) = ?f u (2 ^ c)" by (simp add: u_def)
  show ?case
  proof (cases "bit m c")
    case True
    have "(\<forall>i < 8. c \<le> i \<or> bit m i \<longrightarrow> P i) \<longleftrightarrow> (\<forall>i < 8. Suc c \<le> i \<or> bit m i \<longrightarrow> P i)" for P
      using True by (metis Suc_leD not_less_eq_eq le_antisym)
    moreover have "(m AND 2 ^ c) \<noteq> 0" using True and_power_bit by blast
    ultimately show ?thesis using u unfolding st by simp
  next
    case False
    have c: "c < 8" using Suc.prems by simp
    have o: "length (?f u (2 ^ c)) = 4" "octets_of (?f u (2 ^ c)) =
        {n. n < 256 \<and> (n \<in> octets_of u \<or> partner c n \<in> octets_of u)}"
      using chunk_octets[OF u(1) c] False and_power_bit[of m c] by auto
    have "(n \<in> octets_of u \<or> partner c n \<in> octets_of u) \<longleftrightarrow>
        (\<exists>k \<in> octets_of v. \<forall>i < 8. Suc c \<le> i \<or> bit m i \<longrightarrow> bit k i = bit n i)" if n: "n < 256" for n
    proof
      assume "n \<in> octets_of u \<or> partner c n \<in> octets_of u"
      then obtain n' where n': "n' \<in> octets_of u" "\<And>i. i \<noteq> c \<Longrightarrow> bit n' i = bit n i"
        by (auto simp: bit_partner)
      then obtain k where "k \<in> octets_of v" "\<And>i. i < 8 \<Longrightarrow> c \<le> i \<or> bit m i \<Longrightarrow> bit k i = bit n' i"
        by (auto simp: u(2))
      then show "\<exists>k \<in> octets_of v. \<forall>i < 8. Suc c \<le> i \<or> bit m i \<longrightarrow> bit k i = bit n i"
        using False n'(2) by (metis Suc_leD not_less_eq_eq order_refl)
    next
      assume "\<exists>k \<in> octets_of v. \<forall>i < 8. Suc c \<le> i \<or> bit m i \<longrightarrow> bit k i = bit n i"
      then obtain k where k: "k \<in> octets_of v" "\<And>i. i < 8 \<Longrightarrow> Suc c \<le> i \<or> bit m i \<Longrightarrow> bit k i = bit n i" by blast
      have "bit k i = bit (if bit k c = bit n c then n else partner c n) i" if "i < 8" "c \<le> i \<or> bit m i" for i
        using k(2)[OF that(1)] that(2) False by (cases "i = c") (auto simp: bit_partner)
      then show "n \<in> octets_of u \<or> partner c n \<in> octets_of u"
        unfolding u(2) using k(1) n partner_less[OF n c] by (smt (verit) mem_Collect_eq)
    qed
    then show ?thesis unfolding st using o by auto
  qed
qed

lemma apply_ipv4_netmask_octet_spec:
  assumes "length v = 4"
  shows "length (apply_ipv4_netmask_octet v m) = 4 \<and> octets_of (apply_ipv4_netmask_octet v m) =
    {n. n < 256 \<and> (\<exists>k \<in> octets_of v. \<forall>i < 8. bit m i \<longrightarrow> bit k i = bit n i)}"
proof -
  have e: "[1, 2, 4, 8, 16, 32, 64, 128] = map (\<lambda>i. (2::nat) ^ i) [0..<8]" by (simp add: upt_rec)
  show ?thesis unfolding apply_ipv4_netmask_octet_def e
    using netmask_octet_loop[OF assms, of 8 "unat m"] by (auto simp: bit_unsigned_iff)
qed

section \<open>Addresses and octets\<close>

lemma FF_mask: "(0xFF :: u32) = mask 8"
  by (simp add: mask_eq_exp_minus_1)

lemma bit_octet:
  assumes "k + 8 \<le> 32"
  shows "bit (ucast (drop_bit k (w AND push_bit k (0xFF :: u32))) :: u8) i \<longleftrightarrow> i < 8 \<and> bit w (k + i)"
  using assms unfolding FF_mask by (auto simp: bit_simps)

lemma bit_ntohl:
  assumes "length ia = 4" "t < 4" "i < 8"
  shows "bit (ntohl ia) (24 - 8 * t + i) = bit (ia ! t) i"
proof -
  have none: "\<not> bit (w::u8) j" if "8 \<le> j" for w j using that bit_imp_le_length[of w j] by auto
  have "bit (ntohl ia) (24 - 8 * t + i) = (bit (ia ! t) i)" if "t = 0 \<or> t = 1 \<or> t = 2 \<or> t = 3"
    using that assms(3) none by (elim disjE) (simp_all add: ntohl_def bit_simps)
  then show ?thesis using assms(2) by (auto simp: less_Suc_eq numeral_eq_Suc)
qed

lemma less_4_cases: "(\<forall>t < 4. P t) \<longleftrightarrow> P 0 \<and> P 1 \<and> P 2 \<and> P (3::nat)"
  by (auto simp: less_Suc_eq numeral_eq_Suc)

lemma list4_eqI: "length xs = 4 \<Longrightarrow> length ys = 4 \<Longrightarrow> (\<And>t. t < 4 \<Longrightarrow> xs ! t = ys ! t) \<Longrightarrow> xs = ys"
  by (intro nth_equalityI) auto

lemma in_addr_octet_nth:
  "t < 4 \<Longrightarrow> in_addr_to_octets ia ! t = ucast (drop_bit (24 - 8 * t) (ntohl ia AND push_bit (24 - 8 * t) 0xFF))"
  using less_4_cases[of "\<lambda>t. in_addr_to_octets ia ! t = ucast (drop_bit (24 - 8 * t) (ntohl ia AND push_bit (24 - 8 * t) 0xFF))"]
  by (simp add: in_addr_to_octets_def Let_def)

lemma in_addr_to_octets_id: "length ia = 4 \<Longrightarrow> in_addr_to_octets ia = ia"
proof (rule list4_eqI)
  assume l: "length ia = 4"
  fix t :: nat assume t: "t < 4"
  show "in_addr_to_octets ia ! t = ia ! t"
    unfolding in_addr_octet_nth[OF t]
    by (rule bit_word_eqI) (use bit_octet[of "24 - 8 * t" "ntohl ia"] bit_ntohl[OF l t] in simp)
qed (simp_all add: in_addr_to_octets_def Let_def)

lemma bit_htonl: "t < 4 \<Longrightarrow> i < 8 \<Longrightarrow> bit (htonl w ! t) i = bit w (24 - 8 * t + i)"
  using less_4_cases[of "\<lambda>t. \<forall>i < 8. bit (htonl w ! t) i = bit w (24 - 8 * t + i)"]
  by (simp add: htonl_def bit_simps)

lemma ntohl_htonl [simp]: "ntohl (htonl w) = w"
proof (rule bit_word_eqI)
  fix n :: nat assume "n < LENGTH(32)"
  then have n: "n < 32" by simp
  define t where "t = 3 - n div 8"
  have e: "n = 24 - 8 * t + n mod 8" "t < 4" using n unfolding t_def by presburger+
  have "bit (ntohl (htonl w)) (24 - 8 * t + n mod 8) = bit w (24 - 8 * t + n mod 8)"
    using bit_ntohl[of "htonl w" t "n mod 8"] bit_htonl[of t "n mod 8" w] e(2) by (simp add: htonl_def)
  then show "bit (ntohl (htonl w)) n = bit w n" using e(1) by simp
qed

text \<open>Well-formed elements, and the test of an address octet by octet.\<close>

definition elem_wf :: "addrset_elem \<Rightarrow> bool" where
  "elem_wf e \<longleftrightarrow> length (elem_bits e) = 4 \<and> (\<forall>v \<in> set (elem_bits e). length v = 4)"

lemma elem_wf_nth: "elem_wf e \<Longrightarrow> t < 4 \<Longrightarrow> length (elem_bits e ! t) = 4"
  by (simp add: elem_wf_def)

lemma octets_of_unat: "unat (w::u8) \<in> octets_of v \<longleftrightarrow> BIT_IS_SET v (unat w)"
  using unsigned_less[of w, where ?'a = nat] by (simp add: octets_of_def)

lemma addrset_elem_match_octets:
  "length ia = 4 \<Longrightarrow> addrset_elem_match e (Sockaddr_in ia) \<longleftrightarrow> (\<forall>t < 4. unat (ia ! t) \<in> octets_of (elem_bits e ! t))"
  by (simp add: addrset_elem_match_def match_ipv4_bits_def in_addr_to_octets_id octets_of_unat less_4_cases)

definition shares_prefix :: "nat \<Rightarrow> u8 list \<Rightarrow> u8 list \<Rightarrow> bool" where
  "shares_prefix b x y \<longleftrightarrow> (\<forall>t < 4. \<forall>i < 8. 8 * t + (7 - i) < b \<longrightarrow> bit (x ! t) i = bit (y ! t) i)"

definition mask_octet :: "int \<Rightarrow> nat \<Rightarrow> u8" where
  "mask_octet bits t = (let w = (if bits = 0 then 0 else push_bit (nat (32 - bits)) 0xFFFFFFFF) :: u32 in
     ucast (drop_bit (24 - 8 * t) (w AND push_bit (24 - 8 * t) 0xFF)))"

lemma bit_mask_octet:
  assumes "0 \<le> bits" "bits \<le> 32" "t < 4" "i < 8"
  shows "bit (mask_octet bits t) i \<longleftrightarrow> 8 * t + (7 - i) < nat bits"
proof -
  have f: "(0xFFFFFFFF :: u32) = - 1" by simp
  have "bit (if bits = 0 then 0 else push_bit (nat (32 - bits)) 0xFFFFFFFF :: u32) j \<longleftrightarrow>
      nat (32 - bits) \<le> j" if "j < 32" for j
    unfolding f using that assms(1) by (auto simp: bit_simps)
  then show ?thesis
    using assms bit_octet[of "24 - 8 * t" "if bits = 0 then 0 else push_bit (nat (32 - bits)) 0xFFFFFFFF" i]
    unfolding mask_octet_def Let_def by auto
qed

lemma apply_netmask_bits_nth:
  assumes "bits \<le> 32" "t < 4"
  shows "elem_bits (apply_ipv4_netmask_bits e bits) ! t =
    apply_ipv4_netmask_octet (elem_bits e ! t) (mask_octet (if bits < 0 then 32 else bits) t)"
proof -
  have m: "(0xFF000000::u32) = push_bit 24 0xFF" "(0x00FF0000::u32) = push_bit 16 0xFF"
    "(0x0000FF00::u32) = push_bit 8 0xFF" by simp_all
  have "\<forall>t < 4. elem_bits (apply_ipv4_netmask_bits e bits) ! t =
      apply_ipv4_netmask_octet (elem_bits e ! t) (mask_octet (if bits < 0 then 32 else bits) t)"
    unfolding less_4_cases using assms(1)
    by (simp add: apply_ipv4_netmask_bits_def apply_ipv4_netmask_def Let_def m mask_octet_def del: push_bit_numeral)
  with assms(2) show ?thesis by blast
qed

lemma netmask_octets:
  assumes "elem_wf e" "0 \<le> bits" "bits \<le> 32" "t < 4"
  shows "octets_of (elem_bits (apply_ipv4_netmask_bits e bits) ! t) =
    {n. n < 256 \<and> (\<exists>k \<in> octets_of (elem_bits e ! t). \<forall>i < 8. 8 * t + (7 - i) < nat bits \<longrightarrow> bit k i = bit n i)}"
  using apply_ipv4_netmask_octet_spec[OF elem_wf_nth[OF assms(1,4)], of "mask_octet bits t"]
    bit_mask_octet[OF assms(2-4)] assms(2) apply_netmask_bits_nth[OF assms(3,4), of e] by simp

lemma apply_netmask_bits_wf: "elem_wf e \<Longrightarrow> elem_wf (apply_ipv4_netmask_bits e bits)"
proof (cases "bits \<le> 32")
  case True
  assume wf: "elem_wf e"
  have l: "length (elem_bits (apply_ipv4_netmask_bits e bits)) = 4"
    using True by (simp add: apply_ipv4_netmask_bits_def apply_ipv4_netmask_def Let_def)
  have "length (elem_bits (apply_ipv4_netmask_bits e bits) ! t) = 4" if "t < 4" for t
    using apply_netmask_bits_nth[OF True that, of e] apply_ipv4_netmask_octet_spec[OF elem_wf_nth[OF wf that]] by simp
  then show ?thesis unfolding elem_wf_def using l by (auto simp: in_set_conv_nth)
qed (simp add: apply_ipv4_netmask_bits_def)

lemma bit_word_of_nat8: "i < 8 \<Longrightarrow> bit (word_of_nat k :: u8) i = bit k i"
  by (simp add: bit_simps)

text \<open>A specification with a netmask matches the addresses that share the first bits with an
  address that the specification denotes.\<close>

lemma netmask_bits_match:
  assumes wf: "elem_wf e" and b: "0 \<le> bits" "bits \<le> 32" and ia: "length ia = 4"
  shows "addrset_elem_match (apply_ipv4_netmask_bits e bits) (Sockaddr_in ia) \<longleftrightarrow>
    (\<exists>ib. length ib = 4 \<and> addrset_elem_match e (Sockaddr_in ib) \<and> shares_prefix (nat bits) ib ia)"
    (is "?l \<longleftrightarrow> ?r")
proof
  assume ?l
  then have "\<forall>t < 4. \<exists>k \<in> octets_of (elem_bits e ! t). \<forall>i < 8. 8 * t + (7 - i) < nat bits \<longrightarrow> bit k i = bit (ia ! t) i"
    unfolding addrset_elem_match_octets[OF ia] using netmask_octets[OF wf b] by (auto simp: bit_unsigned_iff)
  then obtain f where f: "\<And>t. t < 4 \<Longrightarrow> f t \<in> octets_of (elem_bits e ! t)"
    "\<And>t i. t < 4 \<Longrightarrow> i < 8 \<Longrightarrow> 8 * t + (7 - i) < nat bits \<Longrightarrow> bit (f t) i = bit (ia ! t) i" by metis
  define ib :: "u8 list" where "ib = map (\<lambda>t. word_of_nat (f t)) [0..<4]"
  have nth: "ib ! t = word_of_nat (f t)" and un: "unat (ib ! t) = f t" if "t < 4" for t
  proof -
    show "ib ! t = word_of_nat (f t)" using that by (simp add: ib_def del: upt_rec_numeral)
    moreover have "f t < 256" using f(1)[OF that] by (simp add: octets_of_def)
    ultimately show "unat (ib ! t) = f t" by (simp add: unat_of_nat take_bit_nat_eq_self)
  qed
  have l: "length ib = 4" by (simp add: ib_def)
  have "addrset_elem_match e (Sockaddr_in ib)" using addrset_elem_match_octets[OF l] un f(1) by simp
  moreover have "shares_prefix (nat bits) ib ia"
    unfolding shares_prefix_def using nth f(2) by (simp add: bit_word_of_nat8)
  ultimately show ?r using l by blast
next
  assume ?r
  then obtain ib where ib: "length ib = 4" "\<And>t. t < 4 \<Longrightarrow> unat (ib ! t) \<in> octets_of (elem_bits e ! t)"
    "shares_prefix (nat bits) ib ia" by (auto simp: addrset_elem_match_octets)
  show ?l
    unfolding addrset_elem_match_octets[OF ia]
  proof (intro allI impI)
    fix t :: nat assume t: "t < 4"
    have "unat (ia ! t) < 256" using unsigned_less[of "ia ! t", where ?'a = nat] by simp
    moreover have "\<forall>i < 8. 8 * t + (7 - i) < nat bits \<longrightarrow> bit (unat (ib ! t)) i = bit (unat (ia ! t)) i"
      using ib(3) t by (simp add: shares_prefix_def bit_unsigned_iff)
    ultimately show "unat (ia ! t) \<in> octets_of (elem_bits (apply_ipv4_netmask_bits e bits) ! t)"
      unfolding netmask_octets[OF wf b t] using ib(2)[OF t] by blast
  qed
qed

section \<open>The grammar of specifications\<close>

text \<open>The documented form of an octet, \<open>*\<close> or a list of \<open>#\<close>, \<open>#-#\<close>, \<open>-#\<close>, \<open>#-\<close> and \<open>-\<close>, as
  a datatype, its text and the set it denotes.\<close>

datatype range_spec = Single nat | Span "nat option" "nat option"
datatype octet_spec = Any | Ranges "range_spec list"

fun range_lo :: "range_spec \<Rightarrow> nat" where
  "range_lo (Single n) = n"
| "range_lo (Span lo hi) = (case lo of None \<Rightarrow> 0 | Some n \<Rightarrow> n)"

fun range_hi :: "range_spec \<Rightarrow> nat" where
  "range_hi (Single n) = n"
| "range_hi (Span lo hi) = (case hi of None \<Rightarrow> 255 | Some n \<Rightarrow> n)"

definition range_ok :: "range_spec \<Rightarrow> bool" where
  "range_ok r \<longleftrightarrow> range_lo r \<le> range_hi r \<and> range_hi r \<le> 255"

definition show_bound :: "nat option \<Rightarrow> string" where
  "show_bound b = (case b of None \<Rightarrow> [] | Some n \<Rightarrow> dec n)"

fun show_range :: "range_spec \<Rightarrow> string" where
  "show_range (Single n) = dec n"
| "show_range (Span lo hi) = show_bound lo @ CHR ''-'' # show_bound hi"

fun show_ranges :: "range_spec list \<Rightarrow> string" where
  "show_ranges [] = []"
| "show_ranges [r] = show_range r"
| "show_ranges (r # rs) = show_range r @ CHR '','' # show_ranges rs"

fun show_octet :: "octet_spec \<Rightarrow> string" where
  "show_octet Any = ''*''"
| "show_octet (Ranges rs) = show_ranges rs"

fun octet_ok :: "octet_spec \<Rightarrow> bool" where
  "octet_ok Any = True"
| "octet_ok (Ranges rs) = (rs \<noteq> [] \<and> (\<forall>r \<in> set rs. range_ok r))"

fun octet_denotes :: "octet_spec \<Rightarrow> nat set" where
  "octet_denotes Any = {0..255}"
| "octet_denotes (Ranges rs) = (\<Union>r \<in> set rs. {range_lo r..range_hi r})"

fun show_octets :: "octet_spec list \<Rightarrow> string" where
  "show_octets [] = []"
| "show_octets [b] = show_octet b"
| "show_octets (b # bs) = show_octet b @ CHR ''.'' # show_octets bs"

lemma not_digit_punct [simp]:
  "\<not> isdigit CHR ''-''" "\<not> isdigit CHR '',''" "\<not> isdigit CHR ''.''" "\<not> isdigit CHR ''*''"
  by (simp_all add: ctype_simps)

lemma NUL_punct: "NUL \<noteq> CHR ''-''" "NUL \<noteq> CHR '',''"
  by (simp_all add: NUL_def)

lemma parse_long_bound_text:
  assumes "\<not> isdigit (deref rest)" "\<forall>n. b = Some n \<longrightarrow> n \<le> 255"
  shows "parse_long (show_bound b @ rest) = (case b of None \<Rightarrow> 0 | Some n \<Rightarrow> int n, rest, False)"
  using assms parse_long_dec[OF assms(1)] parse_long_none[OF assms(1)]
  by (cases b) (auto simp: show_bound_def LONG_MAX_def)

lemma show_bound_progress: "rest = show_bound b @ rest \<longleftrightarrow> b = None"
  by (cases b) (auto simp: show_bound_def)

lemma parse_range_show:
  assumes ok: "range_ok r" and rest: "\<not> isdigit (deref rest)" "deref rest \<noteq> CHR ''-''"
  shows "parse_range (show_range r @ rest) = Some (range_lo r, range_hi r, rest)"
proof (cases r)
  case (Single n)
  then have n: "n \<le> 255" using ok by (simp add: range_ok_def)
  have "parse_long (dec n @ rest) = (int n, rest, False)"
    using parse_long_dec[OF rest(1)] n by (simp add: LONG_MAX_def)
  then show ?thesis using Single n rest by (simp add: parse_range_def)
next
  case (Span lo hi)
  have b: "\<forall>n. lo = Some n \<longrightarrow> n \<le> 255" "\<forall>n. hi = Some n \<longrightarrow> n \<le> 255"
    using ok Span by (auto simp: range_ok_def split: option.splits)
  have 1: "parse_long (show_bound lo @ CHR ''-'' # show_bound hi @ rest) =
      (case lo of None \<Rightarrow> 0 | Some n \<Rightarrow> int n, CHR ''-'' # show_bound hi @ rest, False)"
    using parse_long_bound_text[of "CHR ''-'' # show_bound hi @ rest" lo] b by simp
  have 2: "parse_long (show_bound hi @ rest) = (case hi of None \<Rightarrow> 0 | Some n \<Rightarrow> int n, rest, False)"
    by (rule parse_long_bound_text[OF rest(1) b(2)])
  show ?thesis
    using ok Span 1 2 show_bound_progress[of rest hi] show_bound_progress[of "CHR ''-'' # show_bound hi @ rest" lo]
    by (cases lo; cases hi) (auto simp: parse_range_def range_ok_def Let_def show_bound_def)
qed

lemma parse_octet_show:
  assumes "rs \<noteq> []" "\<forall>r \<in> set rs. range_ok r" "length v = 4"
    "\<not> isdigit (deref rest)" "deref rest \<noteq> CHR ''-''" "deref rest \<noteq> CHR '',''"
  shows "\<exists>v'. parse_octet v (show_ranges rs @ rest) = Some (v', rest) \<and> length v' = 4 \<and>
    octets_of v' = octets_of v \<union> octet_denotes (Ranges rs)"
  using assms
proof (induction rs arbitrary: v rule: show_ranges.induct)
  case (2 r)
  then have "parse_range (show_range r @ rest) = Some (range_lo r, range_hi r, rest)" by (intro parse_range_show) auto
  then show ?case using 2 by (subst parse_octet.simps) (auto simp: octets_fill_range range_ok_def)
next
  case (3 r r' rs)
  let ?v = "fill_range v (range_lo r) (range_hi r)"
  let ?rest = "CHR '','' # show_ranges (r' # rs) @ rest"
  have "parse_range (show_range r @ ?rest) = Some (range_lo r, range_hi r, ?rest)"
    using "3.prems" by (intro parse_range_show) auto
  then have "parse_octet v (show_ranges (r # r' # rs) @ rest) = parse_octet ?v (show_ranges (r' # rs) @ rest)"
    by (subst parse_octet.simps) simp
  moreover obtain v' where "parse_octet ?v (show_ranges (r' # rs) @ rest) = Some (v', rest)" "length v' = 4"
    "octets_of v' = octets_of ?v \<union> octet_denotes (Ranges (r' # rs))"
    using "3.IH"[of ?v] "3.prems" by auto
  ultimately show ?case using "3.prems" by (auto simp: octets_fill_range range_ok_def)
qed simp

lemma show_range_head: "\<exists>c s. show_range r = c # s \<and> (isdigit c \<or> c = CHR ''-'')"
proof (cases r)
  case (Single n)
  then show ?thesis using isdigit_hd_dec[of n "[]"] by (cases "dec n") auto
next
  case (Span lo hi)
  show ?thesis
  proof (cases lo)
    case (Some n)
    then show ?thesis using Span isdigit_hd_dec[of n "[]"] by (cases "dec n") (auto simp: show_bound_def)
  qed (simp add: Span show_bound_def)
qed

lemma show_octet_head:
  assumes "octet_ok b"
  shows "deref (show_octet b @ s) \<noteq> NUL" "deref (show_octet b @ s) = CHR ''*'' \<longleftrightarrow> b = Any"
proof -
  have "\<exists>c t. show_octet b = c # t \<and> c \<noteq> NUL \<and> (c = CHR ''*'' \<longleftrightarrow> b = Any)"
  proof (cases b)
    case (Ranges rs)
    then obtain r rs' where rs: "rs = r # rs'" using assms by (cases rs) auto
    obtain c t where "show_range r = c # t" "isdigit c \<or> c = CHR ''-''" using show_range_head by blast
    then show ?thesis using Ranges rs by (cases rs') (auto simp: ctype_simps NUL_def)
  qed (simp add: NUL_def)
  then show "deref (show_octet b @ s) \<noteq> NUL" "deref (show_octet b @ s) = CHR ''*'' \<longleftrightarrow> b = Any" by auto
qed

lemma parse_one_octet:
  assumes "octet_ok b" "length v = 4" "\<not> isdigit (deref rest)" "deref rest \<noteq> CHR ''-''" "deref rest \<noteq> CHR '',''"
  shows "\<exists>v'. (if deref (show_octet b @ rest) = CHR ''*'' then Some (fill_range v 0 255, tl (show_octet b @ rest))
      else parse_octet v (show_octet b @ rest)) = Some (v', rest) \<and> length v' = 4 \<and>
    octets_of v' = octets_of v \<union> octet_denotes b"
proof (cases b)
  case Any
  then show ?thesis using assms by (simp add: octets_fill_range)
next
  case (Ranges rs)
  then show ?thesis
    using parse_octet_show[of rs v rest] show_octet_head(2)[OF assms(1), of rest] assms by simp
qed

lemma parse_ranges_loop_step:
  "deref p \<noteq> NUL \<Longrightarrow> i < 4 \<Longrightarrow>
   (if deref p = CHR ''*'' then Some (fill_range (bits ! i) 0 255, tl p) else parse_octet (bits ! i) p) = Some (v, q) \<Longrightarrow>
   parse_ranges_loop i bits p =
     (if i + 1 < 4 then (if deref q \<noteq> CHR ''.'' then None else parse_ranges_loop (i + 1) (bits[i := v]) (tl q))
      else parse_ranges_loop (i + 1) (bits[i := v]) q)"
  by (subst parse_ranges_loop.simps) (simp only: option.case prod.case Let_def if_True simp_thms)

lemma parse_ranges_loop_show:
  assumes "bs \<noteq> []" "i + length bs = 4" "\<forall>b \<in> set bs. octet_ok b" "length bits = 4" "\<forall>v \<in> set bits. length v = 4"
  shows "\<exists>bits'. parse_ranges_loop i bits (show_octets bs) = Some bits' \<and> length bits' = 4 \<and>
    (\<forall>v \<in> set bits'. length v = 4) \<and> (\<forall>t < i. bits' ! t = bits ! t) \<and>
    (\<forall>t < 4. i \<le> t \<longrightarrow> octets_of (bits' ! t) = octets_of (bits ! t) \<union> octet_denotes (bs ! (t - i)))"
  using assms
proof (induction bs arbitrary: i bits rule: show_octets.induct)
  case (2 b)
  then have i: "i = 3" by simp
  obtain v' where v': "(if deref (show_octet b @ []) = CHR ''*'' then Some (fill_range (bits ! i) 0 255, tl (show_octet b @ []))
      else parse_octet (bits ! i) (show_octet b @ [])) = Some (v', [])" "length v' = 4"
    "octets_of v' = octets_of (bits ! i) \<union> octet_denotes b"
    using parse_one_octet[of b "bits ! i" "[]"] 2 i NUL_punct by auto
  have "parse_ranges_loop i bits (show_octets [b]) = Some (bits[i := v'])"
    using parse_ranges_loop_step[OF _ _ v'(1)] show_octet_head(1)[of b "[]"] 2 i
    by (simp add: parse_ranges_loop.simps[of 4])
  moreover have "octets_of (bits[i := v'] ! t) = octets_of (bits ! t) \<union> octet_denotes ([b] ! (t - i))"
    if "t < 4" "i \<le> t" for t
  proof -
    have "t = 3" "t = i" using that i by simp_all
    then show ?thesis using v'(3) "2.prems"(4) by simp
  qed
  moreover have "\<forall>v \<in> set (bits[i := v']). length v = 4"
    using v'(2) "2.prems"(5) by (auto dest!: set_update_subset_insert[THEN subsetD])
  ultimately show ?case using "2.prems"(4) by (intro exI[of _ "bits[i := v']"]) simp
next
  case (3 b b' bs)
  let ?rest = "CHR ''.'' # show_octets (b' # bs)"
  have i: "i < 3" using 3 by simp
  obtain v' where v': "(if deref (show_octet b @ ?rest) = CHR ''*'' then Some (fill_range (bits ! i) 0 255, tl (show_octet b @ ?rest))
      else parse_octet (bits ! i) (show_octet b @ ?rest)) = Some (v', ?rest)" "length v' = 4"
    "octets_of v' = octets_of (bits ! i) \<union> octet_denotes b"
    using parse_one_octet[of b "bits ! i" ?rest] 3 i by auto
  have st: "parse_ranges_loop i bits (show_octets (b # b' # bs)) =
      parse_ranges_loop (i + 1) (bits[i := v']) (show_octets (b' # bs))"
    using parse_ranges_loop_step[OF _ _ v'(1)] show_octet_head(1)[of b ?rest] 3 i by simp
  have w: "\<forall>v \<in> set (bits[i := v']). length v = 4"
    using "3.prems" v' by (auto dest!: set_update_subset_insert[THEN subsetD])
  obtain bits' where r: "parse_ranges_loop (i + 1) (bits[i := v']) (show_octets (b' # bs)) = Some bits'" "length bits' = 4"
    "\<forall>v \<in> set bits'. length v = 4" "\<forall>t < i + 1. bits' ! t = bits[i := v'] ! t"
    "\<forall>t < 4. i + 1 \<le> t \<longrightarrow> octets_of (bits' ! t) = octets_of (bits[i := v'] ! t) \<union> octet_denotes ((b' # bs) ! (t - (i + 1)))"
    using "3.IH"[of "i + 1" "bits[i := v']"] "3.prems" w by auto
  have "octets_of (bits' ! t) = octets_of (bits ! t) \<union> octet_denotes ((b # b' # bs) ! (t - i))" if "t < 4" "i \<le> t" for t
  proof (cases "t = i")
    case True
    then show ?thesis using r(4) v'(3) i "3.prems"(4) by simp
  next
    case False
    have "t - i = Suc (t - (i + 1))" using that False by simp
    then have "(b # b' # bs) ! (t - i) = (b' # bs) ! (t - (i + 1))" by (simp only: nth_Cons_Suc)
    moreover have "i + 1 \<le> t" "bits[i := v'] ! t = bits ! t" using that False by simp_all
    ultimately show ?thesis using r(5)[rule_format, of t] that(1) by metis
  qed
  moreover have "\<forall>t < i. bits' ! t = bits ! t" using r(4) by simp
  ultimately show ?case using st r(1,2,3) by auto
qed simp

lemma empty_elem_wf: "elem_wf empty_elem"
  by (simp add: elem_wf_def empty_elem_def)

lemma parse_ipv4_ranges_wf_show:
  assumes "length bs = 4" "\<forall>b \<in> set bs. octet_ok b"
  shows "\<exists>e. parse_ipv4_ranges empty_elem (show_octets bs) = Some e \<and> elem_wf e \<and>
    (\<forall>t < 4. octets_of (elem_bits e ! t) = octet_denotes (bs ! t))"
proof -
  have "bs \<noteq> []" "0 + length bs = 4" using assms by auto
  from parse_ranges_loop_show[OF this assms(2), of "replicate 4 (replicate 4 0)"] obtain b where
    b: "parse_ranges_loop 0 (replicate 4 (replicate 4 0)) (show_octets bs) = Some b" "length b = 4"
    "\<forall>v \<in> set b. length v = 4"
    "\<forall>t < 4. octets_of (b ! t) = octets_of (replicate 4 (replicate 4 0) ! t) \<union> octet_denotes (bs ! t)"
    by (auto simp del: replicate.simps)
  have "octets_of (replicate 4 (replicate 4 0) ! t) = {}" if "t < 4" for t
    using that octets_empty by (simp del: replicate.simps)
  with b show ?thesis
    by (intro exI[of _ "empty_elem\<lparr>elem_bits := b\<rparr>"])
      (simp add: parse_ipv4_ranges_def elem_wf_def, simp add: empty_elem_def)
qed

section \<open>Correctness of ranges\<close>

text \<open>The parser accepts every specification of the documented grammar and reads it as what
  it denotes: for each octet the bit vector holds exactly the values of its ranges, with \<open>*\<close>, lists,
  and ranges open on either side.\<close>

theorem parse_ipv4_ranges_grammar:
  assumes "length bs = 4" "\<forall>b \<in> set bs. octet_ok b"
  shows "\<exists>e. parse_ipv4_ranges empty_elem (show_octets bs) = Some e \<and> elem_wf e \<and>
    (\<forall>t < 4. octets_of (elem_bits e ! t) = octet_denotes (bs ! t))"
  using parse_ipv4_ranges_wf_show[OF assms] .

theorem parse_ipv4_ranges_grammar_witness:
  "\<exists>e. parse_ipv4_ranges empty_elem ''10.-3,7.*.200-'' = Some e \<and> octets_of (elem_bits e ! 0) = {10} \<and>
     octets_of (elem_bits e ! 1) = {0..3} \<union> {7} \<and> octets_of (elem_bits e ! 3) = {200..255}"
proof -
  let ?bs = "[Ranges [Single 10], Ranges [Span None (Some 3), Single 7], Any, Ranges [Span (Some 200) None]]"
  have "show_octets ?bs = ''10.-3,7.*.200-''" by code_simp
  moreover have "length ?bs = 4" "\<forall>b \<in> set ?bs. octet_ok b" by (simp_all add: range_ok_def)
  ultimately show ?thesis
    using parse_ipv4_ranges_grammar[of ?bs] by (auto simp: less_4_cases)
qed

text \<open>C19. After the expansion by a CIDR netmask of 0 to 32 bits a range specification matches an
  IPv4 address exactly when some address that it denotes has the same leading bits.\<close>

theorem apply_ipv4_netmask_bits_match:
  assumes "elem_wf e" "0 \<le> bits" "bits \<le> 32" "length ia = 4"
  shows "addrset_elem_match (apply_ipv4_netmask_bits e bits) (Sockaddr_in ia) \<longleftrightarrow>
    (\<exists>ib. length ib = 4 \<and> addrset_elem_match e (Sockaddr_in ib) \<and> shares_prefix (nat bits) ib ia)"
  using netmask_bits_match[OF assms] .

theorem apply_ipv4_netmask_bits_match_witness:
  "\<exists>e. parse_ipv4_ranges empty_elem ''10.0.0.1-3'' = Some e \<and>
     addrset_elem_match (apply_ipv4_netmask_bits e 24) (Sockaddr_in [10, 0, 0, 77])"
proof -
  let ?bs = "[Ranges [Single 10], Ranges [Single 0], Ranges [Single 0], Ranges [Span (Some 1) (Some 3)]]"
  have t: "show_octets ?bs = ''10.0.0.1-3''" by code_simp
  have ok: "length ?bs = 4" "\<forall>b \<in> set ?bs. octet_ok b" by (simp_all add: range_ok_def)
  obtain e where e: "parse_ipv4_ranges empty_elem ''10.0.0.1-3'' = Some e" "elem_wf e"
    "\<forall>t < 4. octets_of (elem_bits e ! t) = octet_denotes (?bs ! t)"
    using parse_ipv4_ranges_wf_show[OF ok] unfolding t by blast
  have "addrset_elem_match e (Sockaddr_in [10, 0, 0, 2])"
    using e(3) by (simp add: addrset_elem_match_octets less_4_cases)
  moreover have "shares_prefix (nat 24) [10, 0, 0, 2] [10, 0, 0, 77]"
    by (auto simp: shares_prefix_def less_4_cases)
  ultimately show ?thesis
    using apply_ipv4_netmask_bits_match[OF e(2), of 24 "[10, 0, 0, 77]"] e(1) by auto
qed
end
