(* ===== verification/Addrset.thy ===== *)
theory Addrset
  imports Addrset_Range
begin

text \<open>
  The address set of \<open>nbase/nbase_addrset.c\<close> as its clients see it: a tree of prefixes and a list
  of range elements, filled from host specifications and tested against socket addresses, and the
  access check of \<open>ncat/util.c\<close> over an allow set and a deny set.  The resolver
  (\<open>getaddrinfo\<close>) is the parameter \<open>gai\<close>: given a name, whether only numeric names are
  accepted, and the address family, it returns its error code and the list of addresses.
\<close>

section \<open>State and operations\<close>

record addrset =
  head :: "addrset_elem list"
  set_trie :: trie

type_synonym resolver = "string \<Rightarrow> bool \<Rightarrow> nat \<Rightarrow> int \<times> sockaddr list"

definition AF_UNSPEC :: nat where
  "AF_UNSPEC = 0"

definition addrset_new :: addrset where
  "addrset_new = \<lparr>head = [], set_trie = trie_root\<rparr>"

definition resolve_name :: "resolver \<Rightarrow> string \<Rightarrow> nat \<Rightarrow> bool \<Rightarrow> int \<times> sockaddr list" where
  "resolve_name gai name af use_dns =
     (let (rc, result) = gai name True AF_UNSPEC in
      if rc = 0 \<or> \<not> use_dns then (rc, result) else gai name False af)"

text \<open>The netmask after the first slash: \<open>Inl ()\<close> is the parse error.\<close>

definition spec_netmask :: "string \<Rightarrow> string \<times> (unit + int)" where
  "spec_netmask spec =
     (let name = takeWhile (\<lambda>c. c \<noteq> CHR ''/'') spec; rest = dropWhile (\<lambda>c. c \<noteq> CHR ''/'') spec in
      if rest = [] then (name, Inr (-1))
      else let netmask_s = tl rest; (bits, tail, err) = parse_long netmask_s in
        if err \<or> deref tail \<noteq> NUL \<or> tail = netmask_s then (name, Inl ()) else (name, Inr bits))"

fun illegal_netmask :: "sockaddr \<Rightarrow> int \<Rightarrow> bool" where
  "illegal_netmask (Sockaddr_in _) bits = (bits > 32)"
| "illegal_netmask (Sockaddr_in6 _) bits = (bits > 128)"
| "illegal_netmask (Sockaddr_other _) bits = False"

text \<open>The two loops over the resolved addresses.  The first one hands every address to
  \<open>trie_insert\<close>, the second one skips unknown families.\<close>

fun add_numeric_loop :: "trie \<Rightarrow> sockaddr list \<Rightarrow> int \<Rightarrow> (bool \<times> trie) option" where
  "add_numeric_loop t [] bits = Some (True, t)"
| "add_numeric_loop t (ad # addrs) bits =
     (if illegal_netmask ad bits then Some (False, t)
      else do { t' \<leftarrow> trie_insert t ad bits; add_numeric_loop t' addrs bits })"

fun add_resolved_loop :: "trie \<Rightarrow> sockaddr list \<Rightarrow> int \<Rightarrow> (bool \<times> trie) option" where
  "add_resolved_loop t [] bits = Some (True, t)"
| "add_resolved_loop t (ad # addrs) bits =
     (if illegal_netmask ad bits then Some (False, t)
      else if \<not> known_family ad then add_resolved_loop t addrs bits
      else do { t' \<leftarrow> trie_insert t ad bits; add_resolved_loop t' addrs bits })"

definition addrset_add_spec ::
  "resolver \<Rightarrow> addrset \<Rightarrow> string \<Rightarrow> nat \<Rightarrow> bool \<Rightarrow> (bool \<times> addrset) option" where
  "addrset_add_spec gai st spec af dns =
     (case spec_netmask spec of
        (name, Inl _) \<Rightarrow> Some (False, st)
      | (name, Inr netmask_bits) \<Rightarrow>
        let (rc, addrs) = resolve_name gai name af False in
        if rc = 0 \<and> addrs \<noteq> [] then
          map_option (\<lambda>(ok, t). (ok, st\<lparr>set_trie := t\<rparr>)) (add_numeric_loop (set_trie st) addrs netmask_bits)
        else
          (case parse_ipv4_ranges empty_elem name of
             Some elem \<Rightarrow>
               if netmask_bits > 32 then Some (False, st)
               else Some (True, st\<lparr>head := apply_ipv4_netmask_bits elem netmask_bits # head st\<rparr>)
           | None \<Rightarrow>
             let (rc2, addrs2) = resolve_name gai name af dns in
             if rc2 \<noteq> 0 then Some (False, st)
             else map_option (\<lambda>(ok, t). (ok, st\<lparr>set_trie := t\<rparr>))
                    (add_resolved_loop (set_trie st) addrs2 netmask_bits)))"

text \<open>\<open>addrset_add_file\<close> over the characters left in the file; the buffer has 1024 bytes, so a
  word of 1024 characters or more is refused.  The buffer becomes a C string.\<close>

function addrset_add_file ::
  "resolver \<Rightarrow> addrset \<Rightarrow> string \<Rightarrow> nat \<Rightarrow> bool \<Rightarrow> (bool \<times> addrset) option" where
  "addrset_add_file gai st fd af dns =
     (let s = dropWhile isspace fd in
      if s = [] then Some (True, st)
      else
        let w = takeWhile (\<lambda>c. \<not> isspace c) s; rest = dropWhile (\<lambda>c. \<not> isspace c) s in
        if length w > 1023 then Some (False, st)
        else do {
          (ok, st') \<leftarrow> addrset_add_spec gai st (cstr_of w) af dns;
          if ok then addrset_add_file gai st' (tl rest) af dns else Some (False, st') })"
  by pat_completeness auto
termination
proof (relation "measure (\<lambda>(gai, st, fd, af, dns). length fd)", goal_cases)
  case (2 gai st fd af dns s w rest r ok st')
  have "length rest \<le> length s" "length s \<le> length fd"
    using 2 by (simp_all add: length_dropWhile_le)
  moreover have "length s > 0" using 2 by simp
  ultimately show ?case by (cases rest) auto
qed simp

declare addrset_add_file.simps [simp del]

definition addrset_contains :: "addrset \<Rightarrow> sockaddr \<Rightarrow> bool" where
  "addrset_contains st sa \<longleftrightarrow>
     trie_match (set_trie st) sa \<or>
     (case sa of Sockaddr_in _ \<Rightarrow> (\<exists>elem \<in> set (head st). addrset_elem_match elem sa) | _ \<Rightarrow> False)"

section \<open>Invariant and effect of an addition\<close>

definition addrset_wf :: "addrset \<Rightarrow> bool" where
  "addrset_wf st \<longleftrightarrow> root_wf (set_trie st) \<and> (\<forall>e \<in> set (head st). elem_wf e)"

lemma addrset_new_wf [simp]: "addrset_wf addrset_new"
  by (simp add: addrset_wf_def addrset_new_def)

lemma addrset_new_empty [simp]: "\<not> addrset_contains addrset_new sa"
  by (cases sa) (simp_all add: addrset_contains_def addrset_new_def)

lemma legal_prefix_len: "known_family ad \<Longrightarrow> \<not> illegal_netmask ad bits \<Longrightarrow> prefix_len ad bits \<le> 128"
  by (cases ad) auto

lemma trie_insert_unknown: "\<not> known_family ad \<Longrightarrow> trie_insert t ad bits = Some t"
  by (cases ad) (simp_all add: trie_insert_def sockaddr_to_addr_def)

text \<open>Both loops grow the tree by prefixes of the given addresses only.\<close>

definition grows :: "trie \<Rightarrow> sockaddr list \<Rightarrow> int \<Rightarrow> trie \<Rightarrow> bool" where
  "grows t addrs bits t' \<longleftrightarrow> root_wf t' \<and> (\<forall>x. trie_match t x \<longrightarrow> trie_match t' x) \<and>
     (\<forall>x. trie_match t' x \<longrightarrow> trie_match t x \<or> (\<exists>ad \<in> set addrs. in_prefix ad bits x))"

lemma grows_step:
  assumes "root_wf t" "\<not> illegal_netmask ad bits"
  shows "\<exists>t'. trie_insert t ad bits = Some t' \<and> grows t [ad] bits t'"
proof (cases "known_family ad")
  case True
  from trie_insert_spec[OF assms(1) True legal_prefix_len[OF True assms(2)]] show ?thesis
    by (auto simp: grows_def)
qed (use assms in \<open>simp add: trie_insert_unknown grows_def\<close>)

lemma grows_trans: "grows t [ad] bits t' \<Longrightarrow> grows t' addrs bits t'' \<Longrightarrow> grows t (ad # addrs) bits t''"
  by (fastforce simp: grows_def)

lemma grows_skip: "grows t addrs bits t' \<Longrightarrow> grows t (ad # addrs) bits t'"
  by (auto simp: grows_def)

lemma add_numeric_loop_grows:
  "root_wf t \<Longrightarrow> \<exists>ok t'. add_numeric_loop t addrs bits = Some (ok, t') \<and> grows t addrs bits t'"
proof (induction addrs arbitrary: t)
  case (Cons ad addrs)
  show ?case
  proof (cases "illegal_netmask ad bits")
    case False
    then obtain t' where "trie_insert t ad bits = Some t'" "grows t [ad] bits t'"
      using grows_step Cons.prems by blast
    with Cons.IH[of t'] False show ?thesis using grows_trans by (fastforce simp: grows_def[of t "[ad]"])
  qed (use Cons.prems in \<open>auto simp: grows_def intro!: exI[of _ False]\<close>)
qed (auto simp: grows_def intro: exI[of _ True])

lemma add_resolved_loop_grows:
  "root_wf t \<Longrightarrow> \<exists>ok t'. add_resolved_loop t addrs bits = Some (ok, t') \<and> grows t addrs bits t'"
proof (induction addrs arbitrary: t)
  case (Cons ad addrs)
  show ?case
  proof (cases "illegal_netmask ad bits \<or> \<not> known_family ad")
    case False
    then obtain t' where "trie_insert t ad bits = Some t'" "grows t [ad] bits t'"
      using grows_step Cons.prems by blast
    with Cons.IH[of t'] False show ?thesis using grows_trans by (fastforce simp: grows_def[of t "[ad]"])
  next
    case True
    then show ?thesis
    proof (cases "illegal_netmask ad bits")
      case False
      with True have "add_resolved_loop t (ad # addrs) bits = add_resolved_loop t addrs bits" by simp
      then show ?thesis using Cons.IH[OF Cons.prems] grows_skip by metis
    qed (use Cons.prems in \<open>auto simp: grows_def intro!: exI[of _ False]\<close>)
  qed
qed (auto simp: grows_def intro: exI[of _ True])

text \<open>The addresses a specification stands for: prefixes of the resolved addresses, or the
  ranges it spells out.\<close>

definition spec_covers :: "resolver \<Rightarrow> string \<Rightarrow> nat \<Rightarrow> bool \<Rightarrow> sockaddr \<Rightarrow> bool" where
  "spec_covers gai spec af dns x \<longleftrightarrow>
     (case spec_netmask spec of
        (name, Inl _) \<Rightarrow> False
      | (name, Inr bits) \<Rightarrow>
        (\<exists>ad \<in> set (snd (resolve_name gai name af False)). in_prefix ad bits x) \<or>
        (\<exists>ad \<in> set (snd (resolve_name gai name af dns)). in_prefix ad bits x) \<or>
        (case (parse_ipv4_ranges empty_elem name, x) of
           (Some e, Sockaddr_in _) \<Rightarrow> addrset_elem_match (apply_ipv4_netmask_bits e bits) x
         | _ \<Rightarrow> False))"

definition addition_ok :: "addrset \<Rightarrow> (sockaddr \<Rightarrow> bool) \<Rightarrow> addrset \<Rightarrow> bool" where
  "addition_ok st cov st' \<longleftrightarrow> addrset_wf st' \<and>
     (\<forall>x. addrset_contains st x \<longrightarrow> addrset_contains st' x) \<and>
     (\<forall>x. addrset_contains st' x \<longrightarrow> addrset_contains st x \<or> cov x)"

lemma addition_ok_same: "addrset_wf st \<Longrightarrow> addition_ok st cov st"
  by (simp add: addition_ok_def)

lemma addition_ok_grows:
  assumes "addrset_wf st" "grows (set_trie st) addrs bits t'"
    "\<And>ad x. ad \<in> set addrs \<Longrightarrow> in_prefix ad bits x \<Longrightarrow> cov x"
  shows "addition_ok st cov (st\<lparr>set_trie := t'\<rparr>)"
  using assms by (auto simp: addition_ok_def addrset_wf_def grows_def addrset_contains_def split: sockaddr.splits)

lemma parse_range_bounds: "parse_range p = Some (s, e, t) \<Longrightarrow> e < 256"
  by (auto simp: parse_range_def Let_def split: if_splits prod.splits)

lemma parse_octet_length: "parse_octet v p = Some (v', q) \<Longrightarrow> length v' = length v"
proof (induction v p arbitrary: v' q rule: parse_octet.induct)
  case (1 v p)
  then show ?case
    by (subst (asm) (2) parse_octet.simps) (force split: option.splits if_splits simp: Let_def)
qed

lemma parse_ranges_loop_wf:
  "parse_ranges_loop i bits p = Some b \<Longrightarrow> length bits = 4 \<Longrightarrow> (\<forall>v \<in> set bits. length v = 4) \<Longrightarrow>
   length b = 4 \<and> (\<forall>v \<in> set b. length v = 4)"
proof (induction i bits p rule: parse_ranges_loop.induct)
  case (1 i bits p)
  show ?case
  proof (cases "deref p \<noteq> NUL \<and> i < 4")
    case False
    then show ?thesis using "1.prems" by (subst (asm) parse_ranges_loop.simps) (auto split: if_splits)
  next
    case True
    let ?r = "if deref p = CHR ''*'' then Some (fill_range (bits ! i) 0 255, tl p) else parse_octet (bits ! i) p"
    obtain v q where vq: "?r = Some (v, q)"
      using "1.prems"(1) True by (subst (asm) parse_ranges_loop.simps) (auto split: option.splits)
    have "length v = 4" using vq True "1.prems"(2,3) parse_octet_length by (fastforce split: if_splits)
    then have w: "length (bits[i := v]) = 4" "\<forall>v \<in> set (bits[i := v]). length v = 4"
      using "1.prems"(2,3) by (auto dest!: set_update_subset_insert[THEN subsetD])
    have st: "parse_ranges_loop i bits p =
     (if i + 1 < 4 then (if deref q \<noteq> CHR ''.'' then None else parse_ranges_loop (i + 1) (bits[i := v]) (tl q))
      else parse_ranges_loop (i + 1) (bits[i := v]) q)"
      using parse_ranges_loop_step[OF _ _ vq] True by blast
    show ?thesis
      using "1.IH"[OF True vq refl refl refl] "1.prems"(1) w unfolding st by (auto split: if_splits)
  qed
qed

lemma parse_ipv4_ranges_wf: "parse_ipv4_ranges empty_elem s = Some e \<Longrightarrow> elem_wf e"
  using parse_ranges_loop_wf[of 0 "replicate 4 (replicate 4 0)" s]
  by (auto simp: parse_ipv4_ranges_def empty_elem_def elem_wf_def simp del: replicate.simps)

lemma addrset_add_spec_ok:
  assumes wf: "addrset_wf st"
  shows "\<exists>ok st'. addrset_add_spec gai st spec af dns = Some (ok, st') \<and>
    addition_ok st (spec_covers gai spec af dns) st'"
proof -
  obtain name r where nr: "spec_netmask spec = (name, r)" by fastforce
  show ?thesis
  proof (cases r)
    case (Inl u)
    then show ?thesis using nr addition_ok_same[OF wf] by (auto simp: addrset_add_spec_def intro: exI[of _ False])
  next
    case (Inr bits)
    obtain rc addrs where r1: "resolve_name gai name af False = (rc, addrs)" by fastforce
    obtain rc2 addrs2 where r2: "resolve_name gai name af dns = (rc2, addrs2)" by fastforce
    have root: "root_wf (set_trie st)" using wf by (simp add: addrset_wf_def)
    have c1: "spec_covers gai spec af dns x" if "ad \<in> set addrs \<or> ad \<in> set addrs2" "in_prefix ad bits x" for ad x
      using that nr Inr r1 r2 by (auto simp: spec_covers_def)
    consider "rc = 0 \<and> addrs \<noteq> []" | e where "\<not> (rc = 0 \<and> addrs \<noteq> [])" "parse_ipv4_ranges empty_elem name = Some e"
      | "\<not> (rc = 0 \<and> addrs \<noteq> [])" "parse_ipv4_ranges empty_elem name = None" by blast
    then show ?thesis
    proof cases
      case 1
      obtain ok t' where l: "add_numeric_loop (set_trie st) addrs bits = Some (ok, t')" "grows (set_trie st) addrs bits t'"
        using add_numeric_loop_grows[OF root] by blast
      with 1 nr Inr r1 have "addrset_add_spec gai st spec af dns = Some (ok, st\<lparr>set_trie := t'\<rparr>)"
        by (simp add: addrset_add_spec_def)
      with addition_ok_grows[OF wf l(2)] c1 show ?thesis by blast
    next
      case 2
      have "elem_wf (apply_ipv4_netmask_bits e bits)"
        using parse_ipv4_ranges_wf[OF 2(2)] by (rule apply_netmask_bits_wf)
      then have "addition_ok st (spec_covers gai spec af dns) (st\<lparr>head := apply_ipv4_netmask_bits e bits # head st\<rparr>)"
        using wf 2 nr Inr by (auto simp: addition_ok_def addrset_wf_def addrset_contains_def spec_covers_def split: sockaddr.splits)
      then show ?thesis using 2 nr Inr r1 addition_ok_same[OF wf] by (auto simp: addrset_add_spec_def)
    next
      case 3
      obtain ok t' where l: "add_resolved_loop (set_trie st) addrs2 bits = Some (ok, t')" "grows (set_trie st) addrs2 bits t'"
        using add_resolved_loop_grows[OF root] by blast
      then have "addition_ok st (spec_covers gai spec af dns) (st\<lparr>set_trie := t'\<rparr>)"
        using addition_ok_grows[OF wf l(2)] c1 by blast
      then show ?thesis
        using 3 nr Inr r1 r2 l(1) addition_ok_same[OF wf] by (cases "rc2 = 0") (auto simp: addrset_add_spec_def)
    qed
  qed
qed

lemma addrset_add_file_ok:
  "addrset_wf st \<Longrightarrow> \<exists>ok st'. addrset_add_file gai st fd af dns = Some (ok, st') \<and> addrset_wf st' \<and>
     (\<forall>x. addrset_contains st x \<longrightarrow> addrset_contains st' x)"
proof (induction gai st fd af dns rule: addrset_add_file.induct)
  case (1 gai st fd af dns)
  define s where "s = dropWhile isspace fd"
  define w where "w = takeWhile (\<lambda>c. \<not> isspace c) s"
  define rest where "rest = dropWhile (\<lambda>c. \<not> isspace c) s"
  note un = addrset_add_file.simps[of gai st fd af dns, folded s_def, unfolded Let_def, folded w_def rest_def]
  obtain ok st' where a: "addrset_add_spec gai st (cstr_of w) af dns = Some (ok, st')"
    "addition_ok st (spec_covers gai (cstr_of w) af dns) st'"
    using addrset_add_spec_ok[OF "1.prems"] by blast
  show ?case
  proof (cases "s = [] \<or> length w > 1023 \<or> \<not> ok")
    case True
    then show ?thesis unfolding un using a "1.prems"
      by (auto simp: addition_ok_def intro: exI[of _ True] exI[of _ False])
  next
    case False
    then have "addrset_add_file gai st fd af dns = addrset_add_file gai st' (tl rest) af dns"
      using a(1) by (simp add: un)
    moreover obtain ok2 st2 where "addrset_add_file gai st' (tl rest) af dns = Some (ok2, st2)" "addrset_wf st2"
      "\<forall>x. addrset_contains st' x \<longrightarrow> addrset_contains st2 x"
      using "1.IH"[OF s_def _ w_def rest_def _ a(1) refl] False a(2) by (auto simp: addition_ok_def)
    ultimately show ?thesis using a(2) by (auto simp: addition_ok_def)
  qed
qed

section \<open>The interface of an address set\<close>

text \<open>What the option parser and the access check rely on.  \<open>add\<close> reports success and the new
  set; \<open>add_all\<close> is the loop over the entries of a host list, which stops at the first error
  (\<open>host_list_to_set\<close> in \<open>ncat/ncat_main.c\<close> exits there).\<close>

fun add_all :: "('s \<Rightarrow> 'p \<Rightarrow> (bool \<times> 's) option) \<Rightarrow> 's \<Rightarrow> 'p list \<Rightarrow> (bool \<times> 's) option" where
  "add_all add st [] = Some (True, st)"
| "add_all add st (p # ps) = do {
     (ok, st') \<leftarrow> add st p;
     if ok then add_all add st' ps else Some (False, st') }"

text \<open>\<open>allow_access\<close> of \<open>ncat/util.c\<close>; \<open>allow\<close> says that an allow list was given.\<close>

definition allow_access :: "('s \<Rightarrow> 'a \<Rightarrow> bool) \<Rightarrow> bool \<Rightarrow> 's \<Rightarrow> 's \<Rightarrow> 'a \<Rightarrow> bool" where
  "allow_access contains allow allowset denyset su =
     (if allow \<and> \<not> contains allowset su then False
      else if contains denyset su then False
      else True)"

locale address_set =
  fixes wf :: "'s \<Rightarrow> bool" and contains :: "'s \<Rightarrow> 'a \<Rightarrow> bool" and new :: 's
    and add :: "'s \<Rightarrow> 'p \<Rightarrow> (bool \<times> 's) option" and covers :: "'p \<Rightarrow> 'a \<Rightarrow> bool"
  assumes new_wf: "wf new" and new_empty: "\<not> contains new x"
    and add_total: "wf s \<Longrightarrow> \<exists>ok s'. add s p = Some (ok, s') \<and> wf s'"
    and add_keeps: "wf s \<Longrightarrow> add s p = Some (ok, s') \<Longrightarrow> contains s x \<Longrightarrow> contains s' x"
    and add_only: "wf s \<Longrightarrow> add s p = Some (ok, s') \<Longrightarrow> contains s' x \<Longrightarrow> contains s x \<or> covers p x"
begin

lemma add_all_total: "wf s \<Longrightarrow> \<exists>ok s'. add_all add s ps = Some (ok, s') \<and> wf s'"
proof (induction ps arbitrary: s)
  case (Cons p ps)
  obtain ok s' where "add s p = Some (ok, s')" "wf s'" using add_total[OF Cons.prems] by blast
  then show ?case using Cons.IH by (cases ok) auto
qed auto

lemma add_all_only:
  "wf s \<Longrightarrow> add_all add s ps = Some (ok, s') \<Longrightarrow> contains s' x \<Longrightarrow> contains s x \<or> (\<exists>p \<in> set ps. covers p x)"
proof (induction ps arbitrary: s)
  case (Cons p ps)
  obtain ok1 s1 where 1: "add s p = Some (ok1, s1)" "wf s1" using add_total[OF Cons.prems(1)] by blast
  show ?case
  proof (cases ok1)
    case True
    then have "contains s1 x \<or> (\<exists>p \<in> set ps. covers p x)" using Cons 1 by simp
    then show ?thesis using add_only[OF Cons.prems(1) 1(1)] by auto
  next
    case False
    then show ?thesis using Cons.prems 1 add_only[OF Cons.prems(1) 1(1)] by auto
  qed
qed simp

text \<open>With an allow list, access is granted only to addresses that some entry of the list covers;
  and no address is refused because of an empty deny list.\<close>

lemma access_needs_entry:
  assumes "add_all add new ps = Some (ok, s)" "allow_access contains True s d x"
  shows "\<exists>p \<in> set ps. covers p x"
proof -
  have "contains s x" using assms(2) by (auto simp: allow_access_def split: if_splits)
  then show ?thesis using add_all_only[OF new_wf assms(1)] new_empty by blast
qed

lemma access_denied_once_denied:
  assumes "wf d" "contains d x" "add_all add d ps = Some (ok, d')"
  shows "\<not> allow_access contains a s d' x"
proof -
  have "contains d' x" using assms
  proof (induction ps arbitrary: d)
    case (Cons p ps)
    obtain ok1 d1 where 1: "add d p = Some (ok1, d1)" "wf d1" using add_total[OF Cons.prems(1)] by blast
    then have "contains d1 x" using add_keeps[OF Cons.prems(1) 1(1) Cons.prems(2)] by simp
    then show ?case using Cons 1 by (cases ok1) auto
  qed simp
  then show ?thesis by (simp add: allow_access_def)
qed

end

interpretation nbase: address_set addrset_wf addrset_contains addrset_new
  "\<lambda>st spec. addrset_add_spec gai st spec af dns" "\<lambda>spec. spec_covers gai spec af dns"
  for gai af dns
proof
  fix st spec
  assume wf: "addrset_wf st"
  obtain ok' st1 where a: "addrset_add_spec gai st spec af dns = Some (ok', st1)"
    "addition_ok st (spec_covers gai spec af dns) st1" using addrset_add_spec_ok[OF wf] by blast
  show "\<exists>ok s'. addrset_add_spec gai st spec af dns = Some (ok, s') \<and> addrset_wf s'"
    using a by (auto simp: addition_ok_def)
  fix ok st' x
  assume e: "addrset_add_spec gai st spec af dns = Some (ok, st')"
  { assume "addrset_contains st x"
    then show "addrset_contains st' x" using a e by (simp add: addition_ok_def) }
  { assume "addrset_contains st' x"
    then show "addrset_contains st x \<or> spec_covers gai spec af dns x" using a e by (simp add: addition_ok_def) }
qed simp_all

section \<open>Correctness of the address set\<close>

text \<open>A resolver that knows two numeric names and nothing else.\<close>

definition sample_gai :: resolver where
  "sample_gai name numeric af =
     (if name = ''192.168.1.200'' then (0, [ipv4 192 168 1 200])
      else if name = ''192.168.1.0'' then (0, [ipv4 192 168 1 0])
      else (-2, []))"

lemma addrset_add_host_sample:
  "\<exists>st'. addrset_add_spec sample_gai addrset_new ''192.168.1.200'' 0 False = Some (True, st') \<and>
     addrset_contains st' (ipv4 192 168 1 200)"
proof -
  have n: "spec_netmask ''192.168.1.200'' = (''192.168.1.200'', Inr (-1))" by code_simp
  have "known_family (ipv4 192 168 1 200)" "\<not> illegal_netmask (ipv4 192 168 1 200) (-1)" by (simp_all add: ipv4_def)
  with host_insert[OF root_wf_trie_root] n show ?thesis
    by (fastforce simp: addrset_add_spec_def resolve_name_def sample_gai_def addrset_new_def addrset_contains_def)
qed

lemma incomplete_sample:
  "\<exists>t. insert_all [(ipv4 192 168 1 200, -1), (ipv4 192 168 1 0, 24)] = Some t \<and> \<not> trie_match t (ipv4 192 168 1 201)"
proof -
  have "map_option (\<lambda>t. trie_match t (ipv4 192 168 1 201))
      (insert_all [(ipv4 192 168 1 200, -1), (ipv4 192 168 1 0, 24)]) = Some False" by code_simp
  then show ?thesis by auto
qed

text \<open>Adding a host specification to a well-formed set ends and gives a well-formed set,
  whether it succeeds or fails, and whatever the resolver answers; no address of the set is lost,
  and every new address is covered by the specification: by the prefix of an address the name
  resolves to, or by the ranges it spells out.\<close>

theorem addrset_add_spec_sound:
  assumes "addrset_wf st"
  shows "\<exists>ok st'. addrset_add_spec gai st spec af dns = Some (ok, st') \<and> addrset_wf st' \<and>
    (\<forall>x. addrset_contains st x \<longrightarrow> addrset_contains st' x) \<and>
    (\<forall>x. addrset_contains st' x \<longrightarrow> addrset_contains st x \<or> spec_covers gai spec af dns x)"
  using addrset_add_spec_ok[OF assms] unfolding addition_ok_def .

theorem addrset_add_spec_sound_witness:
  "\<exists>ok st'. addrset_add_spec sample_gai addrset_new ''10.0-5.*.1/24'' 0 False = Some (ok, st') \<and> addrset_wf st'"
  using addrset_add_spec_sound[OF addrset_new_wf] by blast

text \<open>A specification that the resolver takes for one numeric address, without a netmask, is
  added: afterwards the set contains that address, and nothing else is new.\<close>

theorem addrset_add_host:
  assumes "addrset_wf st" "CHR ''/'' \<notin> set spec" "gai spec True AF_UNSPEC = (0, [sa])" "known_family sa"
  shows "\<exists>st'. addrset_add_spec gai st spec af dns = Some (True, st') \<and> addrset_wf st' \<and>
    addrset_contains st' sa \<and>
    (\<forall>x. addrset_contains st' x \<longrightarrow> addrset_contains st x \<or> sockaddr_to_addr x = sockaddr_to_addr sa)"
proof -
  have nm: "spec_netmask spec = (spec, Inr (-1))"
  proof -
    have "takeWhile (\<lambda>c. c \<noteq> CHR ''/'') spec = spec" "dropWhile (\<lambda>c. c \<noteq> CHR ''/'') spec = []"
      using assms(2) by (auto simp: takeWhile_eq_all_conv)
    then show ?thesis by (simp add: spec_netmask_def)
  qed
  have il: "\<not> illegal_netmask sa (-1)" by (cases sa) simp_all
  have "root_wf (set_trie st)" using assms(1) by (simp add: addrset_wf_def)
  from host_insert[OF this assms(4)] obtain t' where t': "trie_insert (set_trie st) sa (-1) = Some t'" "root_wf t'"
    "trie_match t' sa" "\<And>x. trie_match t' x \<longleftrightarrow> trie_match (set_trie st) x \<or> sockaddr_to_addr x = sockaddr_to_addr sa"
    by blast
  have "addrset_add_spec gai st spec af dns = Some (True, st\<lparr>set_trie := t'\<rparr>)"
    using nm il t'(1) assms(3) by (simp add: addrset_add_spec_def resolve_name_def)
  then show ?thesis using t' assms(1)
    by (auto simp: addrset_wf_def addrset_contains_def split: sockaddr.splits)
qed

theorem addrset_add_host_witness:
  "\<exists>st'. addrset_add_spec sample_gai addrset_new ''192.168.1.200'' 0 False = Some (True, st') \<and>
     addrset_contains st' (ipv4 192 168 1 200)"
proof -
  have "CHR ''/'' \<notin> set ''192.168.1.200''" "sample_gai ''192.168.1.200'' True AF_UNSPEC = (0, [ipv4 192 168 1 200])"
    "known_family (ipv4 192 168 1 200)" by (simp_all add: sample_gai_def ipv4_def)
  then show ?thesis
    using addrset_add_host[of addrset_new "''192.168.1.200''" sample_gai "ipv4 192 168 1 200" 0 False] by auto
qed

text \<open>C9. When an allow list is in force, the access check admits only an address that some entry
  of the list covers: the allow set starts empty and is filled by adding the entries in turn.\<close>

theorem allow_access_only_listed:
  assumes "add_all (\<lambda>st spec. addrset_add_spec gai st spec af dns) addrset_new specs = Some (ok, allowset)"
    "allow_access addrset_contains True allowset denyset sa"
  shows "\<exists>spec \<in> set specs. spec_covers gai spec af dns sa"
  using nbase.access_needs_entry[OF assms] .

theorem allow_access_only_listed_witness:
  "\<exists>st. add_all (\<lambda>st spec. addrset_add_spec sample_gai st spec 0 False) addrset_new [''192.168.1.200''] = Some (True, st) \<and>
     (\<exists>spec \<in> set [''192.168.1.200'']. spec_covers sample_gai spec 0 False (ipv4 192 168 1 200))"
proof -
  have "\<exists>st. add_all (\<lambda>st spec. addrset_add_spec sample_gai st spec 0 False) addrset_new [''192.168.1.200''] = Some (True, st) \<and>
      allow_access addrset_contains True st addrset_new (ipv4 192 168 1 200)"
    using addrset_add_host_sample by (auto simp: allow_access_def)
  then show ?thesis using allow_access_only_listed[of sample_gai 0 False] by blast
qed

text \<open>C20. The incomplete insertion reaches the access check.  For every resolver that reads the
  two dotted quads as what they spell, the deny list 192.168.1.200, 192.168.1.0/24 is accepted
  without an error, and yet 192.168.1.201 is admitted.\<close>

theorem deny_list_hole:
  assumes "gai ''192.168.1.200'' True AF_UNSPEC = (0, [ipv4 192 168 1 200])"
    "gai ''192.168.1.0'' True AF_UNSPEC = (0, [ipv4 192 168 1 0])"
  shows "\<exists>denyset. add_all (\<lambda>st spec. addrset_add_spec gai st spec af dns) addrset_new
      [''192.168.1.200'', ''192.168.1.0/24''] = Some (True, denyset) \<and>
    allow_access addrset_contains False addrset_new denyset (ipv4 192 168 1 201)"
proof -
  have n: "spec_netmask ''192.168.1.200'' = (''192.168.1.200'', Inr (-1))"
    "spec_netmask ''192.168.1.0/24'' = (''192.168.1.0'', Inr 24)" by code_simp+
  obtain t where t: "insert_all [(ipv4 192 168 1 200, -1), (ipv4 192 168 1 0, 24)] = Some t"
    "\<not> trie_match t (ipv4 192 168 1 201)"
    using incomplete_sample by blast
  obtain t1 where t1: "trie_insert trie_root (ipv4 192 168 1 200) (-1) = Some t1"
    "trie_insert t1 (ipv4 192 168 1 0) 24 = Some t"
    using t(1) by (auto simp: insert_all_def Option.bind_eq_Some_conv)
  have i: "\<not> illegal_netmask (ipv4 192 168 1 200) (-1)" "\<not> illegal_netmask (ipv4 192 168 1 0) 24" by (simp_all add: ipv4_def)
  have "add_all (\<lambda>st spec. addrset_add_spec gai st spec af dns) addrset_new [''192.168.1.200'', ''192.168.1.0/24'']
      = Some (True, \<lparr>head = [], set_trie = t\<rparr>)"
    using n t1 i assms by (simp add: addrset_add_spec_def resolve_name_def addrset_new_def)
  moreover have "\<not> addrset_contains \<lparr>head = [], set_trie = t\<rparr> (ipv4 192 168 1 201)"
    using t(2) by (simp add: addrset_contains_def ipv4_def)
  ultimately show ?thesis by (auto simp: allow_access_def)
qed

theorem deny_list_hole_witness:
  "\<exists>denyset. add_all (\<lambda>st spec. addrset_add_spec sample_gai st spec 0 False) addrset_new
      [''192.168.1.200'', ''192.168.1.0/24''] = Some (True, denyset) \<and>
    allow_access addrset_contains False addrset_new denyset (ipv4 192 168 1 201)"
  by (rule deny_list_hole) (simp_all add: sample_gai_def)
end
