(* ===== verification/Http_Lex.thy ===== *)
theory Http_Lex
  imports Decimal
begin

text \<open>
  The lexical layer of \<open>ncat/http.c\<close>: character classes, case-insensitive comparison, percent
  decoding, tokens, quoted strings and linear white space.  A \<open>const char *\<close> cursor is the rest of
  the string; an output parameter is a component of the result, and a \<open>NULL\<close> return value is
  \<^const>\<open>None\<close>.  Plain \<open>char\<close> is signed, as on the platforms the program is built for.
\<close>

section \<open>Character classes\<close>

definition hex_digit_value :: "char \<Rightarrow> int" where
  "hex_digit_value digit =
     (if digit = NUL then -1
      else let DIGITS = ''0123456789abcdef''; p = takeWhile (\<lambda>c. c \<noteq> tolower digit) DIGITS in
        if length p = length DIGITS then -1 else int (length p))"

definition is_alpha_char :: "char \<Rightarrow> bool" where
  "is_alpha_char c \<longleftrightarrow> c \<noteq> NUL \<and> c \<in> set ''abcdefghijklmnopqrstuvwxyzABCDEFGHIJKLMNOPQRSTUVWXYZ''"

definition is_digit_char :: "char \<Rightarrow> bool" where
  "is_digit_char c \<longleftrightarrow> c \<noteq> NUL \<and> c \<in> set ''0123456789''"

definition is_space_char :: "char \<Rightarrow> bool" where
  "is_space_char c \<longleftrightarrow> c = CHR '' '' \<or> c = CHR 0x09"

definition is_ctl_char :: "char \<Rightarrow> bool" where
  "is_ctl_char c \<longleftrightarrow> ordc c \<le> 31 \<or> ordc c = 127"

definition is_sep_char :: "char \<Rightarrow> bool" where
  "is_sep_char c \<longleftrightarrow> c \<noteq> NUL \<and> c \<in> set (''()<>@,;:'' @ [CHR 0x5C, CHR 0x22] @ ''/[]?={} '' @ [CHR 0x09])"

definition is_token_char :: "char \<Rightarrow> bool" where
  "is_token_char c \<longleftrightarrow> \<not> iscntrl c \<and> \<not> is_sep_char c"

definition LF :: char where
  "LF = CHR 0x0A"

definition CR :: char where
  "CR = CHR 0x0D"

definition QUOTE :: char where
  "QUOTE = CHR 0x22"

definition BACKSLASH :: char where
  "BACKSLASH = CHR 0x5C"

definition is_crlf :: "string \<Rightarrow> bool" where
  "is_crlf s \<longleftrightarrow> deref s = LF \<or> (deref s = CR \<and> deref (tl s) = LF)"

definition skip_crlf :: "string \<Rightarrow> string option" where
  "skip_crlf s =
     (if deref s = LF then Some (tl s)
      else if deref s = CR \<and> deref (tl s) = LF then Some (tl (tl s))
      else None)"

section \<open>Comparison\<close>

text \<open>The loop of \<open>str_cmp_i\<close> and the tests after it.\<close>

fun str_cmp_i :: "string \<Rightarrow> string \<Rightarrow> int" where
  "str_cmp_i (a # as) (b # bs) =
     (let ca = int (ordc (tolower a)); cb = int (ordc (tolower b)) in
      if ca \<noteq> cb then ca - cb else str_cmp_i as bs)"
| "str_cmp_i [] [] = 0"
| "str_cmp_i [] (b # bs) = -1"
| "str_cmp_i (a # as) [] = 1"

definition str_equal_i :: "string \<Rightarrow> string \<Rightarrow> bool" where
  "str_equal_i a b \<longleftrightarrow> str_cmp_i a b = 0"

definition lowercase :: "string \<Rightarrow> string" where
  "lowercase s = map tolower s"

section \<open>Percent decoding\<close>

text \<open>The decoded bytes, or \<^const>\<open>None\<close> for the result -1.  The first loop, which skips to the
  first percent sign, copies nothing: the characters before it stay where they are.\<close>

fun percent_decode_loop :: "string \<Rightarrow> string option" where
  "percent_decode_loop [] = Some []"
| "percent_decode_loop (c # s) =
     (if c = CHR ''%'' then
        let v = hex_digit_value (deref s) in
        if v = -1 then None
        else
          let w = hex_digit_value (deref (tl s)) in
          if w = -1 then None
          else map_option ((#) (char_of (nat (v * 16 + w)))) (percent_decode_loop (tl (tl s)))
      else map_option ((#) c) (percent_decode_loop s))"

definition percent_decode :: "string \<Rightarrow> string option" where
  "percent_decode s =
     (let q = dropWhile (\<lambda>c. c \<noteq> CHR ''%'') s in
      map_option (\<lambda>r. upto_ptr s q @ r) (percent_decode_loop q))"

section \<open>Tokens and quoted strings\<close>

lemma deref_dropWhile: "dropWhile P s \<noteq> [] \<Longrightarrow> \<not> P (deref (dropWhile P s))"
  using hd_dropWhile[of P s] by (cases "dropWhile P s") auto

definition read_token :: "string \<Rightarrow> (string \<times> string) option" where
  "read_token s0 =
     (let s = dropWhile (\<lambda>c. c = CHR '' '') s0; t = dropWhile is_token_char s in
      if s = t then None else Some (upto_ptr s t, t))"

text \<open>\<open>qs_loop\<close> is the outer loop of \<open>read_quoted_string\<close>; \<open>buf\<close> is \<^const>\<open>None\<close> while nothing has
  been appended, as the pointer is \<open>NULL\<close> then.\<close>

definition qs_plain :: "char \<Rightarrow> bool" where
  "qs_plain c \<longleftrightarrow> c \<noteq> QUOTE \<and> c \<noteq> BACKSLASH"

definition strbuf_add :: "string option \<Rightarrow> string \<Rightarrow> string option" where
  "strbuf_add buf s = Some ((case buf of None \<Rightarrow> [] | Some b \<Rightarrow> b) @ s)"

function qs_loop :: "string \<Rightarrow> string option \<Rightarrow> (string option \<times> string) option" where
  "qs_loop s buf =
     (if deref s = QUOTE then Some (buf, tl s)
      else
        let blk = takeWhile qs_plain s; t = dropWhile qs_plain s in
        if t = [] \<or> (\<exists>c \<in> set blk. is_ctl_char c) then None
        else
          let buf' = strbuf_add buf blk in
          if deref t = BACKSLASH then
            let t1 = tl t in
            if t1 = [] \<or> ordc (deref t1) \<ge> 128 then None
            else qs_loop (tl t1) (strbuf_add buf' [deref t1])
          else qs_loop t buf')"
  by pat_completeness auto
termination
proof (relation "measure (\<lambda>(s, buf). 2 * length s + (if deref s = QUOTE then 0 else 1))", goal_cases)
  case (2 s buf blk t buf' t1)
  have l: "length t \<le> length s" using 2 by (simp add: length_dropWhile_le)
  have "t \<noteq> []" "tl t \<noteq> []" using 2 by auto
  then have "length (tl (tl t)) + 2 \<le> length t" by (cases t; cases "tl t") auto
  with l show ?case using 2(6,7) by auto
next
  case (3 s buf blk t buf')
  have "length t \<le> length s" using 3 by (simp add: length_dropWhile_le)
  moreover have "deref t = QUOTE"
    using 3(4,6) deref_dropWhile[of qs_plain s] unfolding 3(3) by (auto simp: qs_plain_def)
  ultimately show ?case using 3 by simp
qed simp

declare qs_loop.simps [simp del]

definition read_quoted_string :: "string \<Rightarrow> (string option \<times> string) option" where
  "read_quoted_string s0 =
     (let s = dropWhile is_space_char s0 in
      if deref s \<noteq> QUOTE then None else qs_loop (tl s) None)"

definition read_token_or_quoted_string :: "string \<Rightarrow> (string option \<times> string) option" where
  "read_token_or_quoted_string s0 =
     (let s = dropWhile is_space_char s0 in
      if deref s = QUOTE then read_quoted_string s
      else map_option (\<lambda>(tok, t). (Some tok, t)) (read_token s))"

lemma read_token_shorter: "read_token s = Some (tok, t) \<Longrightarrow> length t < length s"
proof -
  assume a: "read_token s = Some (tok, t)"
  let ?u = "dropWhile (\<lambda>c. c = CHR '' '') s"
  have t: "t = dropWhile is_token_char ?u" "?u \<noteq> t" using a by (auto simp: read_token_def Let_def split: if_splits)
  have "length t \<noteq> length ?u"
    using t by (metis append_eq_append_conv append_self_conv2 length_append takeWhile_dropWhile_id add_0)
  moreover have "length t \<le> length ?u" unfolding t(1) by (rule length_dropWhile_le)
  moreover have "length ?u \<le> length s" by (rule length_dropWhile_le)
  ultimately show ?thesis by simp
qed

function read_token_list :: "string \<Rightarrow> string list \<Rightarrow> (string list \<times> string) option" where
  "read_token_list s tokens =
     (case read_token s of None \<Rightarrow> None
      | Some (token, t) \<Rightarrow>
        if deref t \<noteq> CHR '','' then Some (tokens @ [token], t)
        else read_token_list (tl t) (tokens @ [token]))"
  by pat_completeness auto
termination
  by (relation "measure (\<lambda>(s, ts). length s)") (auto dest!: read_token_shorter)

declare read_token_list.simps [simp del]

section \<open>Linear white space\<close>

function skip_lws :: "string \<Rightarrow> string" where
  "skip_lws s0 =
     (let s = dropWhile is_space_char s0 in
      if deref s = LF \<and> is_space_char (deref (tl s)) then skip_lws (tl s)
      else if deref s = CR \<and> deref (tl s) = LF \<and> is_space_char (deref (tl (tl s))) then skip_lws (tl (tl s))
      else s)"
  by pat_completeness auto
termination
proof (relation "measure length", goal_cases)
  case (2 s0 s)
  have "deref s = LF" "length s \<le> length s0" using 2 by (simp_all add: length_dropWhile_le)
  then show ?case by (cases s) (auto simp: LF_def NUL_def)
next
  case (3 s0 s)
  have "deref s = CR" "length s \<le> length s0" using 3 by (simp_all add: length_dropWhile_le)
  then show ?case by (cases s) (auto simp: CR_def NUL_def)
qed simp

declare skip_lws.simps [simp del]


section \<open>Facts about the lexical layer\<close>

lemma str_cmp_i_eq: "str_cmp_i a b = 0 \<longleftrightarrow> map tolower a = map tolower b"
  by (induction a b rule: str_cmp_i.induct) (auto simp: Let_def)

lemma str_equal_i_lowercase: "str_equal_i a b \<longleftrightarrow> lowercase a = lowercase b"
  by (simp add: str_equal_i_def str_cmp_i_eq lowercase_def)

lemma str_equal_i_refl [simp]: "str_equal_i a a"
  by (simp add: str_equal_i_lowercase)

lemma str_equal_i_sym: "str_equal_i a b \<Longrightarrow> str_equal_i b a"
  by (simp add: str_equal_i_lowercase)

lemma str_equal_i_trans: "str_equal_i a b \<Longrightarrow> str_equal_i b c \<Longrightarrow> str_equal_i a c"
  by (simp add: str_equal_i_lowercase)

lemma length_lowercase [simp]: "length (lowercase s) = length s"
  by (simp add: lowercase_def)

lemma lowercase_idem [simp]: "lowercase (lowercase s) = lowercase s"
  by (simp add: lowercase_def)

subsection \<open>Percent decoding\<close>

definition hexdigit :: "nat \<Rightarrow> char" where
  "hexdigit n = ''0123456789abcdef'' ! n"

definition percent_encode :: "(char \<Rightarrow> bool) \<Rightarrow> string \<Rightarrow> string" where
  "percent_encode keep s = concat (map (\<lambda>c. if keep c \<and> c \<noteq> CHR ''%'' then [c]
     else [CHR ''%'', hexdigit (ordc c div 16), hexdigit (ordc c mod 16)]) s)"

lemma hex_digit_value_hexdigit: "n < 16 \<Longrightarrow> hex_digit_value (hexdigit n) = int n"
proof -
  assume "n < 16"
  moreover have "\<forall>n \<in> set [0..<16]. hex_digit_value (hexdigit n) = int n" by code_simp
  ultimately show ?thesis by simp
qed

lemma hex_digit_value_range: "hex_digit_value c = -1 \<or> (0 \<le> hex_digit_value c \<and> hex_digit_value c < 16)"
proof -
  have "length (takeWhile (\<lambda>d. d \<noteq> tolower c) ''0123456789abcdef'') \<le> length ''0123456789abcdef''"
    by (rule length_takeWhile_le)
  then show ?thesis by (auto simp: hex_digit_value_def Let_def)
qed

lemma percent_decode_loop_skip:
  "percent_decode_loop (takeWhile (\<lambda>c. c \<noteq> CHR ''%'') s @ q) =
   map_option (\<lambda>r. takeWhile (\<lambda>c. c \<noteq> CHR ''%'') s @ r) (percent_decode_loop q)"
  by (induction s) (auto simp: option.map_comp comp_def option.map_ident)

lemma percent_decode_eq: "percent_decode s = percent_decode_loop s"
  using percent_decode_loop_skip[of s "dropWhile (\<lambda>c. c \<noteq> CHR ''%'') s"]
  by (simp add: percent_decode_def Let_def)

lemma percent_decode_encode_loop: "percent_decode_loop (percent_encode keep s) = Some s"
proof (induction s)
  case (Cons c s)
  have "int (ordc c div 16) * 16 + int (ordc c mod 16) = int (ordc c)" by (metis div_mult_mod_eq of_nat_add of_nat_mult of_nat_numeral)
  then have "char_of (nat (int (ordc c div 16) * 16 + int (ordc c mod 16))) = c" by simp
  moreover have "ordc c div 16 < 16" using ordc_less[of c] by (intro less_mult_imp_div_less) simp
  ultimately show ?case using Cons
    by (auto simp: percent_encode_def hex_digit_value_hexdigit Let_def)
qed (simp add: percent_encode_def)

lemma percent_decode_loop_length: "percent_decode_loop s = Some r \<Longrightarrow> length r \<le> length s"
proof (induction s arbitrary: r rule: percent_decode_loop.induct)
  case (2 c s)
  then show ?case
    by (auto simp: Let_def split: if_splits)
      (metis (no_types, lifting) diff_le_self le_SucI le_trans length_tl)
qed simp

subsection \<open>Quoted strings\<close>

definition quote_char :: "char \<Rightarrow> string" where
  "quote_char c = (if c = QUOTE \<or> c = BACKSLASH then [BACKSLASH, c] else [c])"

definition quote :: "string \<Rightarrow> string" where
  "quote s = QUOTE # concat (map quote_char s) @ [QUOTE]"

lemma lex_chars [simp]:
  "QUOTE \<noteq> BACKSLASH" "BACKSLASH \<noteq> QUOTE" "QUOTE \<noteq> NUL" "NUL \<noteq> QUOTE" "BACKSLASH \<noteq> NUL" "NUL \<noteq> BACKSLASH"
  "LF \<noteq> NUL" "NUL \<noteq> LF" "CR \<noteq> NUL" "NUL \<noteq> CR" "LF \<noteq> CR" "CR \<noteq> LF" "\<not> is_space_char QUOTE"
  "\<not> is_space_char LF" "\<not> is_space_char CR" "\<not> is_space_char NUL" "ordc QUOTE = 34" "ordc BACKSLASH = 92"
  by (simp_all add: QUOTE_def BACKSLASH_def NUL_def LF_def CR_def is_space_char_def ordc_def)

lemma strbuf_add_add [simp]: "strbuf_add (strbuf_add b s) t = strbuf_add b (s @ t)"
  by (simp add: strbuf_add_def)

lemma qs_loop_plain:
  assumes "qs_plain c" "\<not> is_ctl_char c"
  shows "qs_loop (c # s) buf = qs_loop s (strbuf_add buf [c])"
proof (cases "deref s = QUOTE")
  case True
  then obtain s' where s: "s = QUOTE # s'" by (cases s) auto
  then show ?thesis using assms
    by (subst qs_loop.simps) (auto simp: qs_plain_def Let_def)
next
  case False
  have "c \<noteq> QUOTE" using assms(1) by (simp add: qs_plain_def)
  then show ?thesis using assms False
    by (subst (1 2) qs_loop.simps) (simp add: Let_def)
qed

lemma qs_loop_escape:
  assumes "c \<noteq> NUL" "ordc c < 128"
  shows "qs_loop (BACKSLASH # c # s) buf = qs_loop s (strbuf_add buf [c])"
  using assms by (subst qs_loop.simps) (simp add: qs_plain_def Let_def)

lemma qs_loop_quote:
  assumes "\<forall>c \<in> set s. \<not> is_ctl_char c"
  shows "qs_loop (concat (map quote_char s) @ QUOTE # rest) buf =
    Some (if s = [] then buf else strbuf_add buf s, rest)"
  using assms
proof (induction s arbitrary: buf)
  case Nil
  then show ?case by (subst qs_loop.simps) simp
next
  case (Cons c s)
  have "qs_loop (quote_char c @ concat (map quote_char s) @ QUOTE # rest) buf =
      qs_loop (concat (map quote_char s) @ QUOTE # rest) (strbuf_add buf [c])"
  proof (cases "c = QUOTE \<or> c = BACKSLASH")
    case True
    then show ?thesis by (auto simp: quote_char_def qs_loop_escape)
  next
    case False
    then show ?thesis using Cons.prems by (simp add: quote_char_def qs_loop_plain qs_plain_def)
  qed
  then show ?case using Cons by simp
qed

lemma read_quoted_string_quote:
  assumes "\<forall>c \<in> set s. \<not> is_ctl_char c"
  shows "read_quoted_string (quote s @ rest) = Some (if s = [] then None else Some s, rest)"
  using qs_loop_quote[OF assms, of rest None]
  by (simp add: read_quoted_string_def quote_def Let_def strbuf_add_def)

subsection \<open>Tokens\<close>

lemma read_token_append:
  assumes "tok \<noteq> []" "\<forall>c \<in> set tok. is_token_char c" "\<not> is_token_char (deref rest)"
  shows "read_token (tok @ rest) = Some (tok, rest)"
proof -
  have sp: "\<not> is_token_char CHR '' ''" by (simp add: is_token_char_def is_sep_char_def NUL_def)
  obtain c t where c: "tok = c # t" using assms(1) by (cases tok) auto
  then have "c \<noteq> CHR '' ''" using assms(2) sp by auto
  then have 1: "dropWhile (\<lambda>c. c = CHR '' '') (tok @ rest) = tok @ rest" using c by simp
  have "dropWhile is_token_char rest = rest" using assms(3) by (cases rest) auto
  then have 2: "dropWhile is_token_char (tok @ rest) = rest" using assms(2) by (simp add: dropWhile_append2)
  show ?thesis unfolding read_token_def 1 2 Let_def using assms(1) by simp
qed

lemma not_token_NUL [simp]: "\<not> is_token_char NUL"
  by (simp add: is_token_char_def iscntrl_def)

lemma read_token_chars:
  assumes "read_token s = Some (tok, t)"
  shows "tok \<noteq> [] \<and> (\<forall>c \<in> set tok. is_token_char c) \<and> \<not> is_token_char (deref t)"
proof -
  let ?u = "dropWhile (\<lambda>c. c = CHR '' '') s"
  have t: "tok = takeWhile is_token_char ?u" "t = dropWhile is_token_char ?u" "?u \<noteq> t"
    using assms by (auto simp: read_token_def Let_def split: if_splits)
  have "tok \<noteq> []" using t by (metis append_Nil takeWhile_dropWhile_id)
  moreover have "\<not> is_token_char (deref t)"
    using deref_dropWhile[of is_token_char ?u] t(2) by (cases "t = []") auto
  ultimately show ?thesis using t(1) set_takeWhileD by metis
qed

subsection \<open>White space\<close>

lemma skip_lws_stop:
  assumes "\<not> is_space_char (deref s)"
    "deref s = LF \<Longrightarrow> \<not> is_space_char (deref (tl s))"
    "deref s = CR \<Longrightarrow> deref (tl s) = LF \<Longrightarrow> \<not> is_space_char (deref (tl (tl s)))"
  shows "skip_lws s = s"
proof -
  have "dropWhile is_space_char s = s" using assms(1) by (cases s) auto
  then show ?thesis using assms by (subst skip_lws.simps) (auto simp: Let_def)
qed

lemma skip_lws_space: "is_space_char c \<Longrightarrow> skip_lws (c # s) = skip_lws s"
  by (subst (1 2) skip_lws.simps) simp

lemma skip_lws_length: "length (skip_lws s) \<le> length s"
proof (induction s rule: skip_lws.induct)
  case (1 s0)
  let ?s = "dropWhile is_space_char s0"
  have "length ?s \<le> length s0" by (rule length_dropWhile_le)
  moreover have "length (tl ?s) \<le> length ?s" "length (tl (tl ?s)) \<le> length ?s" by simp_all
  ultimately show ?case using 1 by (subst skip_lws.simps) (force simp: Let_def)
qed

section \<open>Correctness of the lexical layer\<close>

text \<open>Percent decoding inverts percent encoding, whichever characters the encoder chooses to
  keep, and it never needs more room than its input, so that decoding in place is safe.\<close>

theorem percent_decode_roundtrip:
  "percent_decode (percent_encode keep s) = Some s \<and>
   (\<forall>t r. percent_decode t = Some r \<longrightarrow> length r \<le> length t)"
  by (simp add: percent_decode_eq percent_decode_encode_loop percent_decode_loop_length)

theorem percent_decode_roundtrip_witness:
  "percent_decode ''a%2fb'' = Some ''a/b'' \<and> length ''a/b'' \<le> length ''a%2fb''"
proof -
  have "percent_decode ''a%2fb'' = Some ''a/b''" by code_simp
  then show ?thesis using percent_decode_roundtrip by blast
qed

text \<open>Reading a quoted string gives back the string that was quoted, with quotation marks and
  backslashes escaped, and stops behind the closing quotation mark.  For the empty string the
  function succeeds and yields the null pointer, not an empty string.\<close>

theorem read_quoted_string_roundtrip:
  assumes "\<forall>c \<in> set s. \<not> is_ctl_char c"
  shows "read_quoted_string (quote s @ rest) = Some (if s = [] then None else Some s, rest)"
  using read_quoted_string_quote[OF assms] .

theorem read_quoted_string_roundtrip_witness:
  "read_quoted_string (quote ''re alm'' @ '', x'') = Some (Some ''re alm'', '', x'')"
proof -
  have "\<forall>c \<in> set ''re alm''. \<not> is_ctl_char c" by (simp add: is_ctl_char_def ordc_def)
  from read_quoted_string_roundtrip[OF this] show ?thesis by simp
qed
end
