(* ===== verification/Http_Header.thy ===== *)
theory Http_Header
  imports Http_Lex
begin

text \<open>
  Header fields of \<open>ncat/http.c\<close>: the linked list of \<open>struct http_header\<close> nodes with its lookup,
  update and removal, the removal of hop-by-hop fields, and the printer and the parser of a
  header.  The list is an Isabelle list of nodes, and a pointer to a node is the list from that node
  on.  The parser runs as a \<open>partial_function\<close>: it has no value when the loop does not end.
\<close>

section \<open>Data\<close>

record http_header =
  hname :: string
  hvalue :: string

text \<open>What the header pointer of the caller refers to when the parser returns: a list, or a list
  that has been freed.\<close>

datatype hdr_ptr = Hdr "http_header list" | Dangling

section \<open>Lookup and update\<close>

definition field_name_equal :: "string \<Rightarrow> string \<Rightarrow> bool" where
  "field_name_equal a b = str_equal_i a b"

fun header_get_loop :: "http_header list \<Rightarrow> string \<Rightarrow> nat \<Rightarrow> string option \<Rightarrow> string option" where
  "header_get_loop [] name cnt buf = buf"
| "header_get_loop (p # ps) name cnt buf =
     (if field_name_equal (hname p) name then
        header_get_loop ps name (cnt + 1)
          (strbuf_add (if cnt > 0 then strbuf_add buf '', '' else buf) (hvalue p))
      else header_get_loop ps name cnt buf)"

definition http_header_get :: "http_header list \<Rightarrow> string \<Rightarrow> string option" where
  "http_header_get header name = header_get_loop header name 0 None"

definition http_header_next :: "http_header list \<Rightarrow> http_header list option \<Rightarrow> string \<Rightarrow> http_header list" where
  "http_header_next header p name =
     dropWhile (\<lambda>n. \<not> field_name_equal (hname n) name) (case p of None \<Rightarrow> header | Some l \<Rightarrow> tl l)"

definition http_header_get_first :: "http_header list \<Rightarrow> string \<Rightarrow> string option" where
  "http_header_get_first header name =
     (case http_header_next header None name of [] \<Rightarrow> None | p # _ \<Rightarrow> Some (hvalue p))"

fun http_header_remove :: "http_header list \<Rightarrow> string \<Rightarrow> http_header list" where
  "http_header_remove [] name = []"
| "http_header_remove (p # ps) name =
     (if field_name_equal (hname p) name then http_header_remove ps name
      else p # http_header_remove ps name)"

definition http_header_set :: "http_header list \<Rightarrow> string \<Rightarrow> string \<Rightarrow> http_header list" where
  "http_header_set header name val =
     http_header_remove header name @ [\<lparr>hname = name, hvalue = val\<rparr>]"

definition HOP_BY_HOP_HEADERS :: "string list" where
  "HOP_BY_HOP_HEADERS = [''Connection'', ''Keep-Alive'', ''Proxy-Authenticate'', ''Proxy-Authorization'',
     ''TE'', ''Trailers'', ''Transfer-Encoding'', ''Upgrade'']"

definition http_header_remove_hop_by_hop :: "http_header list \<Rightarrow> nat \<times> http_header list" where
  "http_header_remove_hop_by_hop header =
     (case (case http_header_get header ''Connection'' of
              Some connection \<Rightarrow>
                (case read_token_list connection [] of
                   None \<Rightarrow> None
                 | Some (tokens, p) \<Rightarrow> if deref p \<noteq> NUL then None else Some tokens)
            | None \<Rightarrow> Some []) of
        None \<Rightarrow> (400, header)
      | Some connection_tokens \<Rightarrow>
          (0, foldl http_header_remove (foldl http_header_remove header HOP_BY_HOP_HEADERS) connection_tokens))"

section \<open>Printing and parsing\<close>

definition header_line :: "http_header \<Rightarrow> string" where
  "header_line p = hname p @ '': '' @ hvalue p @ [CR, LF]"

definition http_header_to_string :: "http_header list \<Rightarrow> string" where
  "http_header_to_string header = concat (map header_line header)"

text \<open>The scan for the end of a block of field content; \<^const>\<open>None\<close> for a control character.\<close>

fun scan_value :: "string \<Rightarrow> string option" where
  "scan_value [] = Some []"
| "scan_value (c # s) =
     (if is_space_char c \<or> is_crlf (c # s) then Some (c # s)
      else if iscntrl c then None
      else scan_value s)"

partial_function (option) header_value_loop :: "string \<Rightarrow> string \<Rightarrow> (unit + string \<times> string) option" where
  [code]: "header_value_loop p val =
     (case scan_value p of None \<Rightarrow> Some (Inl ())
      | Some q \<Rightarrow>
        let val' = val @ upto_ptr p q; p' = skip_lws q in
        if is_crlf p' then Some (Inr (val', p')) else header_value_loop p' (val' @ '' ''))"

partial_function (option) parse_header_loop :: "string \<Rightarrow> http_header list \<Rightarrow> (nat \<times> hdr_ptr) option" where
  [code]: "parse_header_loop p nodes =
     (if deref p \<noteq> NUL \<and> \<not> is_crlf p then
        let q = dropWhile is_token_char p in
        if deref q \<noteq> CHR '':'' then Some (400, if nodes = [] then Hdr [] else Dangling)
        else do {
          r \<leftarrow> header_value_loop (skip_lws (tl q)) [];
          case r of Inl _ \<Rightarrow> Some (400, Hdr nodes)
          | Inr (val, p') \<Rightarrow> do {
              p'' \<leftarrow> skip_crlf p';
              parse_header_loop p'' (nodes @ [\<lparr>hname = upto_ptr p q, hvalue = val\<rparr>]) } }
      else Some (0, Hdr nodes))"

definition http_parse_header :: "string \<Rightarrow> (nat \<times> hdr_ptr) option" where
  "http_parse_header header = parse_header_loop header []"

text \<open>\<open>http_header_free\<close>: freeing a list a second time is an error of the program.\<close>

fun http_header_free :: "hdr_ptr \<Rightarrow> unit option" where
  "http_header_free (Hdr _) = Some ()"
| "http_header_free Dangling = None"

section \<open>The field map\<close>

lemma field_name_equal_refl [simp]: "field_name_equal a a"
  by (simp add: field_name_equal_def)

lemma field_name_equal_cong:
  "field_name_equal a b \<Longrightarrow> field_name_equal c a = field_name_equal c b"
  by (auto simp: field_name_equal_def str_equal_i_lowercase)

lemma http_header_remove_filter:
  "http_header_remove hs name = filter (\<lambda>p. \<not> field_name_equal (hname p) name) hs"
  by (induction hs) auto

lemma foldl_remove:
  "foldl http_header_remove hs names =
   filter (\<lambda>p. \<forall>n \<in> set names. \<not> field_name_equal (hname p) n) hs"
  by (induction names arbitrary: hs) (auto simp: http_header_remove_filter conj_commute)

lemma get_first_filter:
  "http_header_get_first hs name = map_option hvalue (find (\<lambda>p. field_name_equal (hname p) name) hs)"
  by (induction hs) (auto simp: http_header_get_first_def http_header_next_def)

lemma header_get_loop_join:
  "header_get_loop hs name cnt buf =
   (let vs = map hvalue (filter (\<lambda>p. field_name_equal (hname p) name) hs) in
    if vs = [] then buf
    else if cnt > 0 then strbuf_add buf (concat (map (\<lambda>v. '', '' @ v) vs))
    else strbuf_add buf (hd vs @ concat (map (\<lambda>v. '', '' @ v) (tl vs))))"
proof (induction hs arbitrary: cnt buf)
  case (Cons p hs)
  then show ?case by (auto simp: Let_def neq_Nil_conv)
qed simp

text \<open>What clients of the header list rely on, as the laws of a map with case-insensitive keys.\<close>

locale field_map =
  fixes get :: "'h \<Rightarrow> 'k \<Rightarrow> 'v option" and put :: "'h \<Rightarrow> 'k \<Rightarrow> 'v \<Rightarrow> 'h" and remove :: "'h \<Rightarrow> 'k \<Rightarrow> 'h"
    and same_key :: "'k \<Rightarrow> 'k \<Rightarrow> bool"
  assumes get_put: "get (put h k v) k' = (if same_key k' k then Some v else get h k')"
    and get_remove: "get (remove h k) k' = (if same_key k' k then None else get h k')"
begin

lemma put_put_get: "get (put (put h k v) k w) k' = get (put h k w) k'"
  by (simp add: get_put)

lemma remove_all_get:
  "get (foldl remove h ks) k' = (if \<exists>k \<in> set ks. same_key k' k then None else get h k')"
  by (induction ks arbitrary: h) (auto simp: get_remove)

end

lemma find_remove: "find P (filter (\<lambda>x. \<not> Q x) xs) = find (\<lambda>x. P x \<and> \<not> Q x) xs"
  by (induction xs) auto

lemma find_append: "find P (xs @ ys) = (case find P xs of None \<Rightarrow> find P ys | Some x \<Rightarrow> Some x)"
  by (induction xs) auto

interpretation hdr: field_map http_header_get_first http_header_set http_header_remove field_name_equal
proof
  fix h :: "http_header list" and k v k'
  have eq: "field_name_equal a k' \<longleftrightarrow> field_name_equal a k" if "field_name_equal k' k" for a
    using that by (auto simp: field_name_equal_def str_equal_i_lowercase)
  have ne: "\<not> field_name_equal a k" if "\<not> field_name_equal k' k" "field_name_equal a k'" for a
    using that by (auto simp: field_name_equal_def str_equal_i_lowercase)
  have none: "find (\<lambda>p. field_name_equal (hname p) k' \<and> \<not> field_name_equal (hname p) k) h = None"
    if "field_name_equal k' k" using eq[OF that] by (induction h) auto
  have same: "find (\<lambda>p. field_name_equal (hname p) k' \<and> \<not> field_name_equal (hname p) k) h =
      find (\<lambda>p. field_name_equal (hname p) k') h" if "\<not> field_name_equal k' k"
    using ne[OF that] by (induction h) auto
  have kk: "field_name_equal k k' \<longleftrightarrow> field_name_equal k' k"
    by (auto simp: field_name_equal_def str_equal_i_lowercase)
  show "http_header_get_first (http_header_remove h k) k' =
      (if field_name_equal k' k then None else http_header_get_first h k')"
    using none same by (simp add: get_first_filter http_header_remove_filter find_remove)
  show "http_header_get_first (http_header_set h k v) k' =
      (if field_name_equal k' k then Some v else http_header_get_first h k')"
    using none same kk
    by (auto simp: get_first_filter http_header_set_def http_header_remove_filter find_append find_remove
        split: option.splits)
qed

section \<open>Parsing what was printed\<close>

text \<open>A field value in normal form is a list of words joined by single spaces.\<close>

fun join_words :: "string list \<Rightarrow> string" where
  "join_words [] = []"
| "join_words [w] = w"
| "join_words (w # ws) = w @ CHR '' '' # join_words ws"

definition word_ok :: "string \<Rightarrow> bool" where
  "word_ok w \<longleftrightarrow> w \<noteq> [] \<and> (\<forall>c \<in> set w. \<not> iscntrl c \<and> c \<noteq> CHR '' '')"

definition field_ok :: "http_header \<Rightarrow> bool" where
  "field_ok p \<longleftrightarrow> (\<forall>c \<in> set (hname p). is_token_char c) \<and> (\<exists>ws. (\<forall>w \<in> set ws. word_ok w) \<and> hvalue p = join_words ws)"

lemma iscntrl_chars [simp]: "iscntrl NUL" "iscntrl LF" "iscntrl CR" "iscntrl CHR 0x09"
  by (simp_all add: iscntrl_def NUL_def LF_def CR_def ordc_def)

lemma word_char:
  "\<not> iscntrl c \<Longrightarrow> c \<noteq> CHR '' '' \<Longrightarrow> c \<noteq> NUL \<and> c \<noteq> LF \<and> c \<noteq> CR \<and> \<not> is_space_char c"
proof -
  assume a: "\<not> iscntrl c" "c \<noteq> CHR '' ''"
  have "c \<noteq> NUL" "c \<noteq> LF" "c \<noteq> CR" "c \<noteq> CHR 0x09" using a(1) iscntrl_chars by blast+
  then show ?thesis using a(2) by (simp add: is_space_char_def)
qed

lemma is_crlf_simps [simp]:
  "is_crlf [] = False" "is_crlf (LF # s)" "is_crlf (CR # LF # s)"
  "c \<noteq> LF \<Longrightarrow> c \<noteq> CR \<Longrightarrow> is_crlf (c # s) = False"
  by (auto simp: is_crlf_def)

lemma space_not_crlf [simp]: "is_space_char CHR '' ''" "CHR '' '' \<noteq> LF" "CHR '' '' \<noteq> CR"
  by (simp_all add: is_space_char_def LF_def CR_def)

lemma scan_value_word:
  assumes "\<forall>c \<in> set w. \<not> iscntrl c \<and> c \<noteq> CHR '' ''" "scan_value rest = Some rest"
  shows "scan_value (w @ rest) = Some rest"
  using assms(1)
proof (induction w)
  case (Cons c w)
  then have "\<not> iscntrl c" "c \<noteq> LF" "c \<noteq> CR" "\<not> is_space_char c" using word_char[of c] by simp_all
  then show ?case using Cons by simp
qed (simp add: assms(2))

lemma scan_value_stop [simp]: "scan_value (CR # LF # s) = Some (CR # LF # s)" "scan_value (CHR '' '' # s) = Some (CHR '' '' # s)"
  by simp_all

lemma skip_lws_word: "word_ok w \<Longrightarrow> skip_lws (w @ s) = w @ s"
proof -
  assume "word_ok w"
  then obtain c t where w: "w = c # t" "\<not> iscntrl c" "c \<noteq> CHR '' ''" by (cases w) (auto simp: word_ok_def)
  then show ?thesis using word_char[of c] by (intro skip_lws_stop) simp_all
qed

lemma skip_lws_crlf: "\<not> is_space_char (deref s) \<Longrightarrow> skip_lws (CR # LF # s) = CR # LF # s"
  by (rule skip_lws_stop) auto

lemma join_words_head: "\<forall>w \<in> set ws. word_ok w \<Longrightarrow> ws \<noteq> [] \<Longrightarrow> skip_lws (join_words ws @ s) = join_words ws @ s"
proof -
  assume ok: "\<forall>w \<in> set ws. word_ok w" and "ws \<noteq> []"
  then obtain w t where "join_words ws = w @ t" "word_ok w" by (cases ws rule: join_words.cases) auto
  then show ?thesis using skip_lws_word[of w "t @ s"] by simp
qed

text \<open>The end of a value: either a line end that no continuation line follows, or the NUL.\<close>

lemma header_value_loop_words:
  assumes "\<forall>w \<in> set ws. word_ok w" "scan_value rest = Some rest" "\<not> is_space_char (deref rest)" "skip_lws rest = rest"
  shows "header_value_loop (join_words ws @ rest) val =
    (if is_crlf rest then Some (Inr (val @ join_words ws, rest))
     else header_value_loop rest (val @ join_words ws @ '' ''))"
  using assms(1)
proof (induction ws arbitrary: val rule: join_words.induct)
  case 1
  then show ?case using assms by (subst header_value_loop.simps) simp
next
  case (2 w)
  have "scan_value (w @ rest) = Some rest"
    using scan_value_word[OF _ assms(2), of w] 2 by (simp add: word_ok_def)
  then show ?case using assms by (subst header_value_loop.simps) (simp add: Let_def)
next
  case (3 w w' ws)
  let ?more = "join_words (w' # ws) @ rest"
  have "scan_value (w @ CHR '' '' # ?more) = Some (CHR '' '' # ?more)"
    by (rule scan_value_word) (use 3 in \<open>auto simp: word_ok_def\<close>)
  moreover have sk: "skip_lws (CHR '' '' # ?more) = ?more"
    using join_words_head[of "w' # ws" rest] 3 by (simp add: skip_lws_space)
  moreover have "\<not> is_crlf ?more"
  proof -
    obtain c t where "w' = c # t" "\<not> iscntrl c" "c \<noteq> CHR '' ''" using 3 by (cases w') (auto simp: word_ok_def)
    then show ?thesis using word_char[of c] by (cases ws) auto
  qed
  ultimately have "header_value_loop (join_words (w # w' # ws) @ rest) val =
      header_value_loop ?more (val @ w @ '' '')"
    by (subst header_value_loop.simps) (simp add: Let_def del: scan_value.simps)
  then show ?case using 3 by simp
qed

lemma token_char_props: "is_token_char c \<Longrightarrow> c \<noteq> NUL \<and> c \<noteq> LF \<and> c \<noteq> CR \<and> \<not> is_space_char c \<and> c \<noteq> CHR '':''"
proof -
  assume t: "is_token_char c"
  have "is_sep_char CHR '' ''" "is_sep_char CHR '':''" by (simp_all add: is_sep_char_def NUL_def)
  with t have "\<not> iscntrl c" "c \<noteq> CHR '' ''" "c \<noteq> CHR '':''" by (auto simp: is_token_char_def)
  then show ?thesis using word_char by blast
qed

lemma token_colon [simp]: "\<not> is_token_char CHR '':''"
  by (simp add: is_token_char_def is_sep_char_def NUL_def)

lemma parse_one_field:
  assumes p: "field_ok p" and rest: "\<not> is_space_char (deref rest)"
  shows "parse_header_loop (header_line p @ rest) nodes = parse_header_loop rest (nodes @ [p])"
proof -
  obtain ws where ws: "\<forall>w \<in> set ws. word_ok w" "hvalue p = join_words ws" using p by (auto simp: field_ok_def)
  have name: "\<forall>c \<in> set (hname p). is_token_char c" using p by (simp add: field_ok_def)
  let ?after = "CHR '' '' # join_words ws @ CR # LF # rest"
  have line: "header_line p @ rest = hname p @ CHR '':'' # ?after" by (simp add: header_line_def ws)
  have dw: "dropWhile is_token_char (hname p @ CHR '':'' # ?after) = CHR '':'' # ?after"
    using name by (simp add: dropWhile_append2)
  have start: "deref (hname p @ CHR '':'' # ?after) \<noteq> NUL" "\<not> is_crlf (hname p @ CHR '':'' # ?after)"
    using name token_char_props by (cases "hname p"; auto simp: is_crlf_def NUL_def LF_def CR_def)+
  have sk: "skip_lws ?after = join_words ws @ CR # LF # rest"
  proof (cases "ws = []")
    case True
    then show ?thesis using rest by (simp add: skip_lws_space skip_lws_crlf)
  next
    case False
    then show ?thesis using join_words_head[OF ws(1)] by (simp add: skip_lws_space)
  qed
  have v: "header_value_loop (join_words ws @ CR # LF # rest) [] = Some (Inr (join_words ws, CR # LF # rest))"
    using header_value_loop_words[OF ws(1), of "CR # LF # rest" "[]"] rest by (simp add: skip_lws_crlf)
  have node: "\<lparr>hname = hname p, hvalue = join_words ws\<rparr> = p" by (simp flip: ws(2))
  show ?thesis unfolding line
    by (subst parse_header_loop.simps) (simp add: start dw sk v node Let_def skip_crlf_def)
qed

lemma field_line_head: "field_ok p \<Longrightarrow> \<not> is_space_char (deref (header_line p @ s))"
  using token_char_props by (cases "hname p") (auto simp: field_ok_def header_line_def is_space_char_def)

lemma parse_header_fields:
  assumes "\<forall>p \<in> set hs. field_ok p" "\<not> is_space_char (deref rest)"
  shows "parse_header_loop (http_header_to_string hs @ rest) nodes = parse_header_loop rest (nodes @ hs)"
  using assms(1)
proof (induction hs arbitrary: nodes)
  case (Cons p hs)
  have "\<not> is_space_char (deref (http_header_to_string hs @ rest))"
    using Cons.prems field_line_head assms(2) by (cases hs) (auto simp: http_header_to_string_def)
  then show ?case using Cons parse_one_field[of p "http_header_to_string hs @ rest" nodes]
    by (simp add: http_header_to_string_def)
qed (simp add: http_header_to_string_def)

lemma http_parse_header_print:
  assumes "\<forall>p \<in> set hs. field_ok p"
  shows "http_parse_header (http_header_to_string hs @ [CR, LF]) = Some (0, Hdr hs)"
  using parse_header_fields[OF assms, of "[CR, LF]" "[]"]
  by (simp add: http_parse_header_def parse_header_loop.simps[of "[CR, LF]"])

section \<open>When the parser ends\<close>

lemma header_value_loop_NUL: "header_value_loop [] val = None"
proof -
  have "p \<noteq> []" if "header_value_loop p v = Some r" for p v r
  proof (rule header_value_loop.raw_induct[where P = "\<lambda>p v r. p \<noteq> []", OF _ that])
    fix f p v r
    assume "\<And>p v r. f p v = Some r \<Longrightarrow> p \<noteq> []"
      and "(case scan_value p of None \<Rightarrow> Some (Inl ())
        | Some q \<Rightarrow> let val' = v @ upto_ptr p q; p' = skip_lws q in
            if is_crlf p' then Some (Inr (val', p')) else f p' (val' @ '' '')) = Some r"
    then show "p \<noteq> []" by (cases p) (auto simp: Let_def skip_lws_stop split: if_splits)
  qed
  then show ?thesis by (cases "header_value_loop [] val") auto
qed

text \<open>A value that runs into the end of the string never ends.\<close>

lemma parse_header_hangs:
  assumes "\<forall>p \<in> set hs. field_ok p" "field_ok p"
  shows "http_parse_header (http_header_to_string hs @ hname p @ '': '' @ hvalue p) = None"
proof -
  obtain ws where ws: "\<forall>w \<in> set ws. word_ok w" "hvalue p = join_words ws" using assms(2) by (auto simp: field_ok_def)
  have name: "\<forall>c \<in> set (hname p). is_token_char c" using assms(2) by (simp add: field_ok_def)
  let ?after = "CHR '' '' # join_words ws" and ?line = "hname p @ '': '' @ hvalue p"
  have line: "?line = hname p @ CHR '':'' # ?after" by (simp add: ws)
  have dw: "dropWhile is_token_char (hname p @ CHR '':'' # ?after) = CHR '':'' # ?after"
    using name by (simp add: dropWhile_append2)
  have start: "deref (hname p @ CHR '':'' # ?after) \<noteq> NUL" "\<not> is_crlf (hname p @ CHR '':'' # ?after)"
    "\<not> is_space_char (deref ?line)"
    using name token_char_props by (cases "hname p"; auto simp: is_crlf_def NUL_def LF_def CR_def is_space_char_def)+
  have nil: "skip_lws [] = []" by (rule skip_lws_stop) auto
  have sk: "skip_lws ?after = join_words ws"
    using join_words_head[OF ws(1), of "[]"] nil by (cases "ws = []") (simp_all add: skip_lws_space)
  have v: "header_value_loop (join_words ws) [] = None"
    using header_value_loop_words[OF ws(1), of "[]" "[]"] header_value_loop_NUL nil by simp
  have "parse_header_loop ?line hs = None"
    unfolding line by (subst parse_header_loop.simps) (simp add: start dw sk v Let_def)
  then show ?thesis using parse_header_fields[OF assms(1) start(3), of "[]"] by (simp add: http_parse_header_def)
qed

definition ends_lf :: "string \<Rightarrow> bool" where
  "ends_lf s \<longleftrightarrow> s \<noteq> [] \<and> last s = LF"

lemma ends_lf_tl: "ends_lf s \<Longrightarrow> tl s \<noteq> [] \<Longrightarrow> ends_lf (tl s)"
  by (cases s) (auto simp: ends_lf_def split: if_splits)

lemma ends_lf_Cons: "ends_lf (c # s) \<Longrightarrow> c \<noteq> LF \<Longrightarrow> ends_lf s"
  by (auto simp: ends_lf_def split: if_splits)

lemma scan_value_ends:
  "ends_lf p \<Longrightarrow> scan_value p = Some q \<Longrightarrow>
   ends_lf q \<and> (is_space_char (deref q) \<or> is_crlf q) \<and> length q \<le> length p"
proof (induction p)
  case (Cons c p)
  show ?case
  proof (cases "is_space_char c \<or> is_crlf (c # p)")
    case False
    then have "c \<noteq> LF" by auto
    then have "ends_lf p" using Cons.prems(1) ends_lf_Cons by blast
    then show ?thesis using Cons False by (auto split: if_splits)
  qed (use Cons.prems in auto)
qed (simp add: ends_lf_def)

lemma dropWhile_ends: "ends_lf s \<Longrightarrow> \<not> P LF \<Longrightarrow> ends_lf (dropWhile P s)"
proof (induction s)
  case (Cons c s)
  then show ?case using ends_lf_Cons[of c s] by (cases "P c"; cases "c = LF") auto
qed simp

lemma skip_lws_ends: "ends_lf s \<Longrightarrow> ends_lf (skip_lws s)"
proof (induction s rule: skip_lws.induct)
  case (1 s0)
  let ?s = "dropWhile is_space_char s0"
  have e: "ends_lf ?s" using dropWhile_ends 1 by simp
  have n: "is_space_char (deref t) \<Longrightarrow> t \<noteq> []" for t by (cases t) auto
  have 2: "ends_lf (tl (tl ?s))" if "is_space_char (deref (tl (tl ?s)))"
  proof -
    have "tl (tl ?s) \<noteq> []" by (rule n[OF that])
    moreover then have "tl ?s \<noteq> []" by auto
    ultimately show ?thesis using e ends_lf_tl by blast
  qed
  show ?case using 1 e n ends_lf_tl 2
    by (subst skip_lws.simps) (auto simp: Let_def)
qed

lemma skip_lws_suffix: "\<exists>u. s = u @ skip_lws s"
proof (induction s rule: skip_lws.induct)
  case (1 s0)
  let ?s = "dropWhile is_space_char s0"
  have d: "s0 = takeWhile is_space_char s0 @ ?s" by simp
  consider "deref ?s = LF \<and> is_space_char (deref (tl ?s))"
    | "\<not> (deref ?s = LF \<and> is_space_char (deref (tl ?s)))" "deref ?s = CR \<and> deref (tl ?s) = LF \<and> is_space_char (deref (tl (tl ?s)))"
    | "skip_lws s0 = ?s" using skip_lws.simps[of s0] unfolding Let_def by (smt (verit))
  then show ?case
  proof cases
    case 1
    then obtain u where "tl ?s = u @ skip_lws (tl ?s)" using "1.IH"(1)[OF refl] by blast
    moreover have "?s = deref ?s # tl ?s" using 1 by (cases ?s) auto
    moreover have "skip_lws s0 = skip_lws (tl ?s)" using 1 by (subst skip_lws.simps) simp
    ultimately show ?thesis using d by (metis append_Cons append_assoc)
  next
    case 2
    then obtain u where "tl (tl ?s) = u @ skip_lws (tl (tl ?s))" using "1.IH"(2)[OF refl] by blast
    moreover have "?s = deref ?s # deref (tl ?s) # tl (tl ?s)" using 2 by (cases ?s; cases "tl ?s") auto
    moreover have "skip_lws s0 = skip_lws (tl (tl ?s))" using 2 by (subst skip_lws.simps) (auto simp: Let_def)
    ultimately show ?thesis using d by (metis append_Cons append_assoc)
  qed (use d in metis)
qed

lemma skip_lws_progress:
  assumes "is_space_char (deref q) \<or> is_crlf q" "\<not> is_crlf (skip_lws q)"
  shows "length (skip_lws q) < length q"
proof (cases "is_space_char (deref q)")
  case True
  then obtain c t where "q = c # t" "is_space_char c" by (cases q) auto
  then show ?thesis using skip_lws_space[of c t] skip_lws_length[of t] by simp
next
  case False
  then have "skip_lws q \<noteq> q" using assms by auto
  then show ?thesis using skip_lws_suffix[of q] by (metis append_eq_append_conv append_self_conv2 length_append
      less_add_same_cancel2 length_greater_0_conv)
qed

lemma header_value_loop_ends:
  "ends_lf p \<Longrightarrow> \<exists>r. header_value_loop p val = Some r \<and> (\<forall>v p'. r = Inr (v, p') \<longrightarrow> ends_lf p' \<and> is_crlf p' \<and> length p' \<le> length p)"
proof (induction "length p" arbitrary: p val rule: less_induct)
  case less
  show ?case
  proof (cases "scan_value p")
    case None
    then show ?thesis by (subst header_value_loop.simps) simp
  next
    case (Some q)
    note q = scan_value_ends[OF less.prems Some]
    let ?p = "skip_lws q"
    have e: "ends_lf ?p" using q skip_lws_ends by blast
    have l: "length ?p \<le> length p" using q skip_lws_length[of q] by simp
    show ?thesis
    proof (cases "is_crlf ?p")
      case True
      then show ?thesis using Some e l by (subst header_value_loop.simps) (simp add: Let_def)
    next
      case False
      then have lt: "length ?p < length p" using skip_lws_progress[of q] q by simp
      obtain r where r: "header_value_loop ?p ((val @ upto_ptr p q) @ '' '') = Some r"
        "\<forall>v p'. r = Inr (v, p') \<longrightarrow> ends_lf p' \<and> is_crlf p' \<and> length p' \<le> length ?p"
        using less.hyps[OF lt e, of "(val @ upto_ptr p q) @ '' ''"] by blast
      have "header_value_loop p val = header_value_loop ?p ((val @ upto_ptr p q) @ '' '')"
        using Some False by (subst header_value_loop.simps) (simp add: Let_def)
      then show ?thesis using r lt by (metis le_trans less_imp_le)
    qed
  qed
qed

lemma skip_crlf_ends:
  assumes "ends_lf p" "is_crlf p"
  shows "\<exists>p'. skip_crlf p = Some p' \<and> length p' < length p \<and> (p' = [] \<or> ends_lf p')"
proof -
  consider t where "p = LF # t" | t where "p = CR # LF # t"
    using assms(2) by (cases p; cases "tl p") (auto simp: is_crlf_def)
  then show ?thesis using assms(1) by cases (auto simp: skip_crlf_def ends_lf_def split: if_splits)
qed

lemma parse_header_loop_ends:
  "p = [] \<or> ends_lf p \<Longrightarrow> \<exists>r. parse_header_loop p nodes = Some r"
proof (induction "length p" arbitrary: p nodes rule: less_induct)
  case less
  let ?q = "dropWhile is_token_char p"
  show ?case
  proof (cases "deref p \<noteq> NUL \<and> \<not> is_crlf p \<and> deref ?q = CHR '':''")
    case False
    then show ?thesis by (subst parse_header_loop.simps) (auto simp: Let_def)
  next
    case True
    then have p: "ends_lf p" using less.prems by (cases p) auto
    have "\<not> is_token_char LF" using token_char_props by blast
    then have "ends_lf ?q" using dropWhile_ends[OF p] by blast
    moreover have "?q \<noteq> []" "tl ?q \<noteq> []"
      using True \<open>ends_lf ?q\<close> by (cases ?q; auto simp: NUL_def ends_lf_def LF_def)+
    ultimately have e: "ends_lf (skip_lws (tl ?q))" using ends_lf_tl skip_lws_ends by blast
    have l: "length (skip_lws (tl ?q)) < length p"
      using skip_lws_length[of "tl ?q"] length_dropWhile_le[of is_token_char p] \<open>?q \<noteq> []\<close> by (cases ?q) auto
    obtain r where r: "header_value_loop (skip_lws (tl ?q)) [] = Some r"
      "\<forall>v p'. r = Inr (v, p') \<longrightarrow> ends_lf p' \<and> is_crlf p' \<and> length p' \<le> length (skip_lws (tl ?q))"
      using header_value_loop_ends[OF e] by blast
    show ?thesis
    proof (cases r)
      case (Inl u)
      then show ?thesis using True r(1) by (subst parse_header_loop.simps) (simp add: Let_def)
    next
      case (Inr vp)
      obtain v p' where vp: "vp = (v, p')" by fastforce
      obtain p'' where p'': "skip_crlf p' = Some p''" "length p'' < length p'" "p'' = [] \<or> ends_lf p''"
        using skip_crlf_ends r(2) Inr vp by blast
      have "length p'' < length p" using p''(2) r(2) Inr vp l by fastforce
      from less.hyps[OF this p''(3)] show ?thesis
        using True r(1) Inr vp p''(1) by (subst parse_header_loop.simps) (simp add: Let_def)
    qed
  qed
qed

section \<open>Correctness of header handling\<close>

text \<open>C23. The parser reads back what the printer wrote: for fields with token names and values in
  normal form (words joined by single spaces), printing a header, ending it with an empty line and
  parsing it yields the same fields in the same order, with code 0.\<close>

theorem http_parse_header_roundtrip:
  assumes "\<forall>p \<in> set hs. field_ok p"
  shows "http_parse_header (http_header_to_string hs @ [CR, LF]) = Some (0, Hdr hs)"
  using http_parse_header_print[OF assms] .

definition sample_field :: http_header where
  "sample_field = \<lparr>hname = ''Via'', hvalue = ''1.0 fred''\<rparr>"

lemma sample_field_ok: "field_ok sample_field"
proof -
  have "\<forall>c \<in> set ''Via''. is_token_char c" by code_simp
  moreover have "\<forall>w \<in> set [''1.0'', ''fred'']. word_ok w" by code_simp
  moreover have "''1.0 fred'' = join_words [''1.0'', ''fred'']" by simp
  ultimately show ?thesis unfolding field_ok_def sample_field_def by (metis http_header.select_convs)
qed

theorem http_parse_header_roundtrip_witness:
  "http_parse_header (http_header_to_string [sample_field, sample_field] @ [CR, LF]) = Some (0, Hdr [sample_field, sample_field])"
  using http_parse_header_roundtrip[of "[sample_field, sample_field]"] sample_field_ok by simp

text \<open>C24. The parser returns on every header text whose last character is a line feed, with a
  result or an error code; this is what \<open>http_read_header\<close> delivers when no byte of it is NUL.\<close>

theorem http_parse_header_terminates:
  assumes "s \<noteq> []" "last s = LF"
  shows "\<exists>r. http_parse_header s = Some r"
  using parse_header_loop_ends[of s "[]"] assms by (simp add: http_parse_header_def ends_lf_def)

theorem http_parse_header_terminates_witness:
  "\<exists>r. http_parse_header (''A: b'' @ [LF]) = Some r"
  using http_parse_header_terminates[of "''A: b'' @ [LF]"] by simp

text \<open>The parser does not return on a header whose last value runs into the end of the
  string: the loop that copies the value appends spaces for ever.  A NUL byte in a header line ends
  the string that way.\<close>

theorem http_parse_header_diverges:
  assumes "\<forall>p \<in> set hs. field_ok p" "field_ok p"
  shows "http_parse_header (http_header_to_string hs @ hname p @ '': '' @ hvalue p) = None"
  using parse_header_hangs[OF assms] .

theorem http_parse_header_diverges_witness:
  "http_parse_header ''Via: 1.0 fred'' = None"
  using http_parse_header_diverges[of "[]" sample_field] sample_field_ok
  by (simp add: http_header_to_string_def sample_field_def)

text \<open>A malformed line behind a well-formed field makes the parser free the list of fields and
  return 400 with the pointer still referring to it, so that the caller's own
  \<open>http_header_free\<close> frees it a second time; the same malformed line alone leaves a null
  pointer.\<close>

theorem http_parse_header_double_free:
  assumes "hs \<noteq> []" "\<forall>p \<in> set hs. field_ok p" "is_token_char (deref bad)"
    "deref (dropWhile is_token_char bad) \<noteq> CHR '':''"
  shows "http_parse_header (http_header_to_string hs @ bad) = Some (400, Dangling) \<and>
    http_header_free Dangling = None \<and> http_parse_header bad = Some (400, Hdr [])"
proof -
  have b: "deref bad \<noteq> NUL" "\<not> is_crlf bad" "\<not> is_space_char (deref bad)"
    using token_char_props[OF assms(3)] by (auto simp: is_crlf_def)
  have "parse_header_loop bad nodes = Some (400, if nodes = [] then Hdr [] else Dangling)" for nodes
    using b assms(4) by (subst parse_header_loop.simps) (simp add: Let_def)
  then show ?thesis
    using parse_header_fields[OF assms(2) b(3), of "[]"] assms(1) by (simp add: http_parse_header_def)
qed

theorem http_parse_header_double_free_witness:
  "http_parse_header (http_header_to_string [sample_field] @ ''bad'' @ [CR, LF, CR, LF]) = Some (400, Dangling)"
proof -
  have "is_token_char (deref (''bad'' @ [CR, LF, CR, LF])) \<and>
      deref (dropWhile is_token_char (''bad'' @ [CR, LF, CR, LF])) \<noteq> CHR '':''" by code_simp
  moreover have "[sample_field] \<noteq> []" "\<forall>p \<in> set [sample_field]. field_ok p" using sample_field_ok by simp_all
  ultimately show ?thesis
    using http_parse_header_double_free[of "[sample_field]" "''bad'' @ [CR, LF, CR, LF]"] by blast
qed

text \<open>Setting a field and looking it up: the first value found under a name is the one that
  was set last under that name in any spelling of upper and lower case, removal of a name hides it in
  every spelling, and other names are not affected.\<close>

theorem http_header_set_get:
  "http_header_get_first (http_header_set h k v) k' =
     (if field_name_equal k' k then Some v else http_header_get_first h k') \<and>
   http_header_get_first (foldl http_header_remove h ks) k' =
     (if \<exists>k \<in> set ks. field_name_equal k' k then None else http_header_get_first h k')"
  using hdr.get_put[of h k v k'] hdr.remove_all_get[of h ks k'] by blast

text \<open>When the removal of hop-by-hop fields succeeds, what remains is exactly the fields that
  are neither in the fixed list nor named by a Connection field, in their order; when the Connection
  fields do not form a token list, the answer is 400 and the fields are untouched.\<close>

theorem remove_hop_by_hop_spec:
  "(\<forall>c ts rest. http_header_get h ''Connection'' = Some c \<longrightarrow> read_token_list c [] = Some (ts, rest) \<longrightarrow> rest = [] \<longrightarrow>
      http_header_remove_hop_by_hop h =
        (0, filter (\<lambda>p. \<forall>n \<in> set (HOP_BY_HOP_HEADERS @ ts). \<not> field_name_equal (hname p) n) h)) \<and>
   (http_header_get h ''Connection'' = None \<longrightarrow>
      http_header_remove_hop_by_hop h = (0, filter (\<lambda>p. \<forall>n \<in> set HOP_BY_HOP_HEADERS. \<not> field_name_equal (hname p) n) h)) \<and>
   (\<forall>c. http_header_get h ''Connection'' = Some c \<longrightarrow> read_token_list c [] = None \<longrightarrow>
      http_header_remove_hop_by_hop h = (400, h))"
proof -
  have f: "filter P (filter Q h) = filter (\<lambda>p. Q p \<and> P p) h" for P Q by simp
  show ?thesis
    by (auto simp: http_header_remove_hop_by_hop_def foldl_remove f ball_Un NUL_def intro!: filter_cong)
qed

theorem remove_hop_by_hop_spec_witness:
  "http_header_remove_hop_by_hop [\<lparr>hname = ''te'', hvalue = ''x''\<rparr>, sample_field] = (0, [sample_field])"
proof -
  let ?h = "[\<lparr>hname = ''te'', hvalue = ''x''\<rparr>, sample_field]"
  have "http_header_get ?h ''Connection'' = None" by code_simp
  moreover have "filter (\<lambda>p. \<forall>n \<in> set HOP_BY_HOP_HEADERS. \<not> field_name_equal (hname p) n) ?h = [sample_field]" by code_simp
  ultimately show ?thesis using remove_hop_by_hop_spec[of ?h] by simp
qed
end
