(* ===== verification/Http_Uri.thy ===== *)
theory Http_Uri
  imports Http_Lex
begin

text \<open>
  The URI parser of \<open>ncat/http.c\<close>: \<open>uri_parse_authority\<close> and \<open>uri_parse\<close> fill a
  \<open>struct uri\<close>; a \<open>NULL\<close> result is \<^const>\<open>None\<close>.  Proved: the port of every accepted URI is in
  range, and the parser inverts the composition of a URI from its parts.
\<close>

section \<open>Data and operations\<close>

record uri =
  scheme :: "string option"
  host :: "string option"
  port :: int
  path :: "string option"

definition uri_init :: uri where
  "uri_init = \<lparr>scheme = None, host = None, port = -1, path = None\<rparr>"

definition scheme_default_port :: "string \<Rightarrow> int" where
  "scheme_default_port sch = (if str_equal_i sch ''http'' then 80 else -1)"

text \<open>\<open>strrchr\<close>: the position of the last occurrence, or the terminator when there is none, as the
  caller asks for.\<close>

definition strrchr_or_end :: "char \<Rightarrow> string \<Rightarrow> string" where
  "strrchr_or_end c s = (if c \<in> set s then c # rev (takeWhile (\<lambda>x. x \<noteq> c) (rev s)) else [])"

definition authority_host :: "string \<Rightarrow> (string \<times> string) option" where
  "authority_host authority =
     (if deref authority = CHR ''['' then
        let host_start = tl authority; host_end = dropWhile (\<lambda>c. c \<noteq> CHR '']'') host_start in
        if host_end = [] then None
        else let portsep = tl host_end in
          if \<not> (deref portsep = CHR '':'' \<or> deref portsep = NUL) then None
          else Some (upto_ptr host_start host_end, portsep)
      else let portsep = strrchr_or_end CHR '':'' authority in
        Some (upto_ptr authority portsep, portsep))"

definition authority_port :: "string \<Rightarrow> int option" where
  "authority_port portsep =
     (if deref portsep = CHR '':'' \<and> deref (tl portsep) \<noteq> NUL then
        let (n, tail, err) = parse_long (tl portsep) in
        if err \<or> deref tail \<noteq> NUL \<or> tail = tl portsep \<or> n < 1 \<or> n > 65535 then None else Some n
      else Some (-1))"

definition uri_parse_authority :: "uri \<Rightarrow> string \<Rightarrow> uri option" where
  "uri_parse_authority u authority =
     (if CHR ''@'' \<in> set authority then None
      else case authority_host authority of None \<Rightarrow> None
      | Some (h, portsep) \<Rightarrow>
        (case authority_port portsep of None \<Rightarrow> None
         | Some n \<Rightarrow>
           (case percent_decode h of None \<Rightarrow> None
            | Some d \<Rightarrow> Some (u\<lparr>port := n, host := Some (cstr_of d)\<rparr>))))"

definition is_scheme_char :: "char \<Rightarrow> bool" where
  "is_scheme_char c \<longleftrightarrow> is_alpha_char c \<or> is_digit_char c \<or> c = CHR ''+'' \<or> c = CHR ''-'' \<or> c = CHR ''.''"

definition authority_end :: "char \<Rightarrow> bool" where
  "authority_end c \<longleftrightarrow> c = CHR ''/'' \<or> c = CHR ''?'' \<or> c = CHR ''#'' \<or> c = NUL"

text \<open>The authority step of \<open>uri_parse\<close>, with the position after it.\<close>

definition uri_authority_step :: "uri \<Rightarrow> string \<Rightarrow> (uri \<times> string) option" where
  "uri_authority_step u p =
     (if deref p = CHR ''/'' \<and> deref (tl p) = CHR ''/'' then
        let p1 = tl (tl p); q1 = dropWhile (\<lambda>c. \<not> authority_end c) p1 in
        case uri_parse_authority u (upto_ptr p1 q1) of None \<Rightarrow> None | Some u' \<Rightarrow> Some (u', q1)
      else Some (u, p))"

definition uri_parse :: "string \<Rightarrow> uri option" where
  "uri_parse uri_s =
     (if \<not> is_alpha_char (deref uri_s) then None
      else
        let q = dropWhile is_scheme_char uri_s in
        if deref q \<noteq> CHR '':'' then None
        else
          let sch = lowercase (upto_ptr uri_s q) in
          case uri_authority_step (uri_init\<lparr>scheme := Some sch\<rparr>) (tl q) of None \<Rightarrow> None
             | Some (u, rest) \<Rightarrow>
               let u1 = (if port u = -1 then u\<lparr>port := scheme_default_port sch\<rparr> else u) in
               Some (u1\<lparr>path := Some rest\<rparr>))"

text \<open>On a failure \<open>uri_parse\<close> frees the members of the structure and leaves the pointers.  The scheme
  has been allocated by then when the failure is in the authority.\<close>

definition uri_parse_dangling :: "string \<Rightarrow> bool" where
  "uri_parse_dangling uri_s \<longleftrightarrow> is_alpha_char (deref uri_s) \<and> deref (dropWhile is_scheme_char uri_s) = CHR '':'' \<and>
     uri_parse uri_s = None"

section \<open>Ports are in range\<close>

definition port_ok :: "int \<Rightarrow> bool" where
  "port_ok n \<longleftrightarrow> n = -1 \<or> (1 \<le> n \<and> n \<le> 65535)"

lemma authority_port_ok: "authority_port s = Some n \<Longrightarrow> port_ok n"
  by (auto simp: authority_port_def port_ok_def Let_def split: if_splits prod.splits)

lemma uri_parse_authority_ok: "uri_parse_authority u s = Some u' \<Longrightarrow>
  port_ok (port u') \<and> host u' \<noteq> None \<and> scheme u' = scheme u \<and> path u' = path u"
  by (auto simp: uri_parse_authority_def dest: authority_port_ok split: if_splits option.splits prod.splits)

lemma uri_authority_step_ok:
  "uri_authority_step u p = Some (u', q) \<Longrightarrow> port_ok (port u) \<Longrightarrow> port_ok (port u') \<and> scheme u' = scheme u"
  by (auto simp: uri_authority_step_def Let_def dest: uri_parse_authority_ok split: if_splits option.splits)

lemma uri_parse_ok:
  assumes "uri_parse s = Some u"
  shows "port_ok (port u) \<and> path u \<noteq> None \<and> (\<exists>sch. scheme u = Some sch \<and> sch \<noteq> [] \<and> lowercase sch = sch)"
proof -
  define q where "q = dropWhile is_scheme_char s"
  define sch where "sch = lowercase (upto_ptr s q)"
  have a: "is_alpha_char (deref s)" "deref q = CHR '':''" using assms by (auto simp: uri_parse_def q_def Let_def split: if_splits)
  obtain c t where s: "s = c # t" using a(1) by (cases s) (auto simp: is_alpha_char_def)
  then have "takeWhile is_scheme_char s \<noteq> []" using a(1) by (simp add: is_scheme_char_def)
  then have sch: "sch \<noteq> []" "lowercase sch = sch" by (auto simp: sch_def q_def lowercase_def)
  have "port_ok (scheme_default_port sch)" by (simp add: scheme_default_port_def port_ok_def)
  moreover obtain u' rest where "uri_authority_step (uri_init\<lparr>scheme := Some sch\<rparr>) (tl q) = Some (u', rest)"
    and u: "u = (if port u' = -1 then u'\<lparr>port := scheme_default_port sch\<rparr> else u')\<lparr>path := Some rest\<rparr>"
    using assms a by (auto simp: uri_parse_def Let_def q_def[symmetric] sch_def[symmetric] split: option.splits)
  then have "port_ok (port u')" "scheme u' = Some sch"
    using uri_authority_step_ok by (fastforce simp: uri_init_def port_ok_def)+
  ultimately show ?thesis using sch by (simp add: u)
qed

section \<open>Composition and parsing\<close>

definition host_char :: "char \<Rightarrow> bool" where
  "host_char c \<longleftrightarrow> c \<noteq> CHR ''@'' \<and> c \<noteq> CHR '':'' \<and> c \<noteq> CHR ''['' \<and> c \<noteq> CHR ''%'' \<and> \<not> authority_end c"

lemma strrchr_or_end_last: "c \<notin> set t \<Longrightarrow> strrchr_or_end c (s @ c # t) = c # t"
proof -
  assume "c \<notin> set t"
  then have "takeWhile (\<lambda>x. x \<noteq> c) (rev t @ c # rev s) = rev t" by (subst takeWhile_append2) auto
  then show ?thesis by (simp add: strrchr_or_end_def)
qed

lemma percent_decode_plain: "CHR ''%'' \<notin> set s \<Longrightarrow> percent_decode s = Some s"
proof -
  assume "CHR ''%'' \<notin> set s"
  then have "percent_encode (\<lambda>_. True) s = s"
    by (induction s) (auto simp: percent_encode_def)
  then show ?thesis using percent_decode_encode_loop[of "\<lambda>_. True" s] by (simp add: percent_decode_eq)
qed

lemma dec_no_char: "\<not> isdigit c \<Longrightarrow> c \<notin> set (dec n)"
  using dec_digits by blast

lemma upto_ptr_append_Cons [simp]: "upto_ptr (s @ c # t) (c # t) = s"
  by (rule upto_ptr_append)

lemma host_chars:
  assumes "\<forall>c \<in> set h. host_char c"
  shows "CHR ''@'' \<notin> set h" "CHR '':'' \<notin> set h" "CHR ''%'' \<notin> set h" "cstr_of h = h" "deref h \<noteq> CHR ''[''"
proof -
  show "CHR ''@'' \<notin> set h" "CHR '':'' \<notin> set h" "CHR ''%'' \<notin> set h" using assms by (auto simp: host_char_def)
  have "NUL \<notin> set h" using assms by (auto simp: host_char_def authority_end_def)
  then show "cstr_of h = h" by (intro cstr_of_id) (simp add: cstr_def)
  show "deref h \<noteq> CHR ''[''" using assms by (cases h) (auto simp: host_char_def NUL_def)
qed

lemma authority_compose_host:
  assumes "\<forall>c \<in> set h. host_char c"
  shows "uri_parse_authority u h = Some (u\<lparr>port := -1, host := Some h\<rparr>)"
proof -
  note h = host_chars[OF assms]
  have "authority_host h = Some (h, [])"
    using h by (simp add: authority_host_def strrchr_or_end_def upto_ptr_def)
  moreover have "authority_port [] = Some (-1)" by (simp add: authority_port_def NUL_def)
  ultimately show ?thesis using h by (simp add: uri_parse_authority_def percent_decode_plain)
qed

lemma authority_compose_port:
  assumes "h \<noteq> []" "\<forall>c \<in> set h. host_char c" "1 \<le> n" "n \<le> 65535"
  shows "uri_parse_authority u (h @ CHR '':'' # dec n) = Some (u\<lparr>port := int n, host := Some h\<rparr>)"
proof -
  note h = host_chars[OF assms(2)]
  have no: "CHR ''@'' \<notin> set (dec n)" "CHR '':'' \<notin> set (dec n)"
    by (rule dec_no_char, simp add: ctype_simps)+
  obtain d ds where d: "dec n = d # ds" using dec_not_Nil by (cases "dec n") auto
  have dn: "d \<noteq> NUL" using dec_digits[of d n] d by auto
  have pl: "parse_long (dec n) = (int n, [], False)"
    using parse_long_dec[of "[]" n] assms(4) by (simp add: LONG_MAX_def)
  have "deref (h @ CHR '':'' # dec n) \<noteq> CHR ''[''" using h(5) assms(1) by (cases h) auto
  then have "authority_host (h @ CHR '':'' # dec n) = Some (h, CHR '':'' # dec n)"
    using strrchr_or_end_last[OF no(2), of h] by (simp add: authority_host_def)
  moreover have "authority_port (CHR '':'' # dec n) = Some (int n)"
    using pl assms(3,4) d dn by (simp add: authority_port_def)
  ultimately show ?thesis using h no by (simp add: uri_parse_authority_def percent_decode_plain)
qed

definition uri_text :: "string \<Rightarrow> string \<Rightarrow> nat option \<Rightarrow> string \<Rightarrow> string" where
  "uri_text sch h n rest = sch @ ''://'' @ h @ (case n of None \<Rightarrow> [] | Some k \<Rightarrow> CHR '':'' # dec k) @ rest"

lemma uri_parse_compose:
  assumes sch: "sch \<noteq> []" "is_alpha_char (hd sch)" "\<forall>c \<in> set sch. is_scheme_char c"
    and h: "h \<noteq> []" "\<forall>c \<in> set h. host_char c" and n: "\<forall>k. n = Some k \<longrightarrow> 1 \<le> k \<and> k \<le> 65535"
    and rest: "authority_end (deref rest)"
  shows "uri_parse (uri_text sch h n rest) =
    Some \<lparr>scheme = Some (lowercase sch), host = Some h,
      port = (case n of Some k \<Rightarrow> int k | None \<Rightarrow> scheme_default_port (lowercase sch)), path = Some rest\<rparr>"
proof -
  define au where "au = h @ (case n of None \<Rightarrow> [] | Some k \<Rightarrow> CHR '':'' # dec k)"
  have t: "uri_text sch h n rest = sch @ CHR '':'' # CHR ''/'' # CHR ''/'' # au @ rest"
    by (simp add: uri_text_def au_def)
  have colon: "\<not> is_scheme_char CHR '':''"
    by (simp add: is_scheme_char_def is_alpha_char_def is_digit_char_def)
  have dw: "dropWhile is_scheme_char (uri_text sch h n rest) = CHR '':'' # CHR ''/'' # CHR ''/'' # au @ rest"
    unfolding t using sch(3) colon by (simp add: dropWhile_append2)
  have au: "\<forall>c \<in> set au. \<not> authority_end c"
  proof
    fix c assume "c \<in> set au"
    then consider "c \<in> set h" | "c = CHR '':''" | k where "c \<in> set (dec k)"
      by (auto simp: au_def split: option.splits)
    then show "\<not> authority_end c"
    proof cases
      case 3
      then have "isdigit c" by (rule dec_digits)
      then show ?thesis by (auto simp: authority_end_def ctype_simps NUL_def)
    qed (use h(2) in \<open>auto simp: host_char_def authority_end_def NUL_def\<close>)
  qed
  have "takeWhile (\<lambda>c. \<not> authority_end c) rest = []" using rest by (cases rest) auto
  then have tw: "takeWhile (\<lambda>c. \<not> authority_end c) (au @ rest) = au" using au by (simp add: takeWhile_append2)
  have dw2: "dropWhile (\<lambda>c. \<not> authority_end c) (au @ rest) = rest"
    using au rest by (cases rest) (auto simp: dropWhile_append2)
  have pa: "uri_parse_authority u au =
      Some (u\<lparr>port := (case n of Some k \<Rightarrow> int k | None \<Rightarrow> -1), host := Some h\<rparr>)" for u
    using authority_compose_port[OF h] authority_compose_host[OF h(2)] n by (auto simp: au_def split: option.splits)
  have "is_alpha_char (deref (uri_text sch h n rest))" unfolding t using sch(1,2) by (cases sch) auto
  moreover have "upto_ptr (uri_text sch h n rest) (CHR '':'' # CHR ''/'' # CHR ''/'' # au @ rest) = sch"
    unfolding t by simp
  moreover have "uri_authority_step u (CHR ''/'' # CHR ''/'' # au @ rest) =
      Some (u\<lparr>port := (case n of Some k \<Rightarrow> int k | None \<Rightarrow> -1), host := Some h\<rparr>, rest)" for u
  proof -
    have "upto_ptr (au @ rest) rest = au" by simp
    then show ?thesis unfolding uri_authority_step_def Let_def using dw2 tw pa[of u] by simp
  qed
  ultimately show ?thesis
    unfolding uri_parse_def dw Let_def using n by (cases n) (simp_all add: uri_init_def)
qed

section \<open>Correctness of the URI parser\<close>

text \<open>Every URI that is accepted has a lower case scheme that is not empty, a path, and a port
  that is either absent (-1) or between 1 and 65535.\<close>

theorem uri_parse_in_range:
  assumes "uri_parse s = Some u"
  shows "(port u = -1 \<or> 1 \<le> port u \<and> port u \<le> 65535) \<and> path u \<noteq> None \<and>
    (\<exists>sch. scheme u = Some sch \<and> sch \<noteq> [] \<and> lowercase sch = sch)"
  using uri_parse_ok[OF assms] by (simp add: port_ok_def)

theorem uri_parse_in_range_witness:
  "\<exists>u. uri_parse ''HTTP://x:8080/'' = Some u \<and> (port u = -1 \<or> 1 \<le> port u \<and> port u \<le> 65535)"
proof -
  have "uri_parse ''HTTP://x:8080/'' = Some \<lparr>scheme = Some ''http'', host = Some ''x'', port = 8080, path = Some ''/''\<rparr>"
    by code_simp
  from uri_parse_in_range[OF this] this show ?thesis by blast
qed

text \<open>The parser inverts composition: for a scheme, a host of unreserved characters, an
  optional port from 1 to 65535 and a rest that is empty or starts with one of \<open>/?#\<close>, the composed
  URI is read back as these parts, with the scheme in lower case and the default port of the
  scheme where no port is given.\<close>

theorem uri_parse_roundtrip:
  assumes "sch \<noteq> []" "is_alpha_char (hd sch)" "\<forall>c \<in> set sch. is_scheme_char c"
    "h \<noteq> []" "\<forall>c \<in> set h. host_char c" "\<forall>k. n = Some k \<longrightarrow> 1 \<le> k \<and> k \<le> 65535"
    "authority_end (deref rest)"
  shows "uri_parse (uri_text sch h n rest) =
    Some \<lparr>scheme = Some (lowercase sch), host = Some h,
      port = (case n of Some k \<Rightarrow> int k | None \<Rightarrow> scheme_default_port (lowercase sch)), path = Some rest\<rparr>"
  using uri_parse_compose[OF assms] .

theorem uri_parse_roundtrip_witness:
  "uri_parse (uri_text ''http'' ''scanme.org'' None ''/a?b'') =
     Some \<lparr>scheme = Some ''http'', host = Some ''scanme.org'', port = 80, path = Some ''/a?b''\<rparr>"
proof -
  have e: "lowercase ''http'' = ''http'' \<and> scheme_default_port ''http'' = 80 \<and> authority_end (deref ''/a?b'') \<and>
      is_alpha_char (hd ''http'') \<and> (\<forall>c \<in> set ''http''. is_scheme_char c) \<and> (\<forall>c \<in> set ''scanme.org''. host_char c)"
    by code_simp
  then show ?thesis using uri_parse_roundtrip[of "''http''" "''scanme.org''" None "''/a?b''"] by simp
qed

end
