(* ===== verification/Http_Socket.thy ===== *)
theory Http_Socket
  imports Http_Lex
begin

text \<open>
  The buffered socket reader of \<open>ncat/http.c\<close> and the functions that read a request line, a
  status line and a header through it.  The socket is the list of the results that successive
  calls of \<open>fdinfo_recv\<close> will give: a block of data, the end of the stream, an interrupted call or
  another error; behind the end of the list the stream has ended.  Proved: what is read depends on
  the bytes of the stream only, never on how the network cuts them into blocks.
\<close>

section \<open>State\<close>

datatype recv_result = Data string | Eof | Eintr | Err

text \<open>\<open>buffer\<close> is the filled part of the buffer, up to \<open>end\<close>; \<open>p\<close> is an offset into it; \<open>net\<close> stands
  for the descriptor.\<close>

record socket_buffer =
  buffer :: string
  buf_p :: nat
  net :: "recv_result list"

definition pending :: "socket_buffer \<Rightarrow> string" where
  "pending b = drop (buf_p b) (buffer b)"

definition advance :: "nat \<Rightarrow> socket_buffer \<Rightarrow> socket_buffer" where
  "advance k b = b\<lparr>buf_p := buf_p b + k\<rparr>"

lemma pending_advance [simp]: "pending (advance k b) = drop k (pending b)" "net (advance k b) = net b"
  by (simp_all add: pending_def advance_def add.commute)

lemma pending_new [simp]: "pending \<lparr>buffer = d, buf_p = 0, net = r\<rparr> = d"
  by (simp add: pending_def)

definition MAX_REQUEST_LINE_LENGTH :: nat where
  "MAX_REQUEST_LINE_LENGTH = 1024"

definition MAX_STATUS_LINE_LENGTH :: nat where
  "MAX_STATUS_LINE_LENGTH = 1024"

definition MAX_HEADER_LENGTH :: nat where
  "MAX_HEADER_LENGTH = 1024 * 10"

definition socket_buffer_init :: "recv_result list \<Rightarrow> socket_buffer" where
  "socket_buffer_init sd = \<lparr>buffer = [], buf_p = 0, net = sd\<rparr>"

section \<open>Reading\<close>

text \<open>The inner loop that repeats an interrupted call: the result of \<open>fdinfo_recv\<close>, the data, and
  what is left of the socket.\<close>

fun recv_retry :: "recv_result list \<Rightarrow> int \<times> string \<times> recv_result list" where
  "recv_retry [] = (0, [], [])"
| "recv_retry (Eintr # r) = recv_retry r"
| "recv_retry (Err # r) = (-1, [], r)"
| "recv_retry (Eof # r) = (0, [], r)"
| "recv_retry (Data d # r) = (int (length d), d, r)"

text \<open>Refill the buffer if necessary: \<open>Inl i\<close> is the result \<open>i \<le> 0\<close> that ends the caller.  \<open>p\<close> is
  reset before the call, \<open>end\<close> only after it has succeeded.\<close>

definition refill :: "socket_buffer \<Rightarrow> (int \<times> socket_buffer) + socket_buffer" where
  "refill buf =
     (if pending buf = [] then
        let (i, d, r) = recv_retry (net buf) in
        if i \<le> 0 then Inl (i, buf\<lparr>buf_p := 0, net := r\<rparr>) else Inr \<lparr>buffer = d, buf_p = 0, net = r\<rparr>
      else Inr buf)"

definition socket_buffer_read :: "socket_buffer \<Rightarrow> nat \<Rightarrow> int \<times> string \<times> socket_buffer" where
  "socket_buffer_read buf sz =
     (case refill buf of
        Inl (i, b) \<Rightarrow> (i, [], b)
      | Inr b \<Rightarrow>
        let i = min (length (pending b)) sz in
        (int i, take i (pending b), advance i b))"

lemma recv_retry_net: "recv_retry r = (i, d, r') \<Longrightarrow> r \<noteq> [] \<Longrightarrow> length r' < length r"
proof (induction r rule: recv_retry.induct)
  case (2 r)
  then show ?case by (cases r) auto
qed auto

lemma recv_retry_le: "recv_retry r = (i, d, r') \<Longrightarrow> length r' \<le> length r"
  by (induction r rule: recv_retry.induct) auto

lemma recv_retry_len: "recv_retry r = (i, d, r') \<Longrightarrow> i \<le> int (length d)"
  by (induction r rule: recv_retry.induct) auto

definition buf_size :: "socket_buffer \<Rightarrow> nat" where
  "buf_size b = 2 * length (net b) + (if pending b = [] then 0 else 1)"

lemma refill_size: "refill buf = Inr b \<Longrightarrow> pending b \<noteq> [] \<and> buf_size (advance (length (pending b)) b) < buf_size buf"
proof -
  assume r: "refill buf = Inr b"
  show ?thesis
  proof (cases "pending buf = []")
    case True
    obtain i d n where e: "recv_retry (net buf) = (i, d, n)" by (metis prod_cases3)
    have b: "0 < i" "b = \<lparr>buffer = d, buf_p = 0, net = n\<rparr>" using r True e by (auto simp: refill_def split: if_splits)
    have i: "i \<le> int (length d)" using recv_retry_len[OF e] .
    have "net buf \<noteq> []" using e b by (cases "net buf") auto
    then show ?thesis using recv_retry_net[OF e] b i True by (auto simp: buf_size_def pending_def)
  next
    case False
    then show ?thesis using r by (auto simp: refill_def buf_size_def)
  qed
qed

text \<open>The loop of \<open>socket_buffer_readline\<close>.  \<open>line\<close> is what has been copied so far, so \<open>*n\<close> is its
  length; the result is the line (or \<open>NULL\<close>), the final value of \<open>*n\<close> and the buffer.\<close>

function readline_loop ::
  "socket_buffer \<Rightarrow> string \<Rightarrow> nat \<Rightarrow> string option \<times> nat \<times> socket_buffer" where
  "readline_loop buf line maxlen =
     (case refill buf of
        Inl (i, b) \<Rightarrow> (None, length line, b)
      | Inr b \<Rightarrow>
        let rest = dropWhile (\<lambda>c. c \<noteq> LF) (pending b); found = (rest \<noteq> []);
            cnt = (if found then length (pending b) - length rest + 1 else length (pending b))
        in if length line + cnt \<ge> maxlen then (None, length line + cnt, b)
           else
             let line' = line @ take cnt (pending b); b' = advance cnt b in
             if found then (Some line', length line', b') else readline_loop b' line' maxlen)"
  by pat_completeness auto
termination
  by (relation "measure (\<lambda>(b, l, m). buf_size b)") (auto dest!: refill_size)

declare readline_loop.simps [simp del]

definition socket_buffer_readline :: "socket_buffer \<Rightarrow> nat \<Rightarrow> string option \<times> nat \<times> socket_buffer" where
  "socket_buffer_readline buf maxlen = readline_loop buf [] maxlen"

function readcount_loop :: "socket_buffer \<Rightarrow> string \<Rightarrow> nat \<Rightarrow> int \<times> string \<times> socket_buffer" where
  "readcount_loop buf out sz =
     (if length out < sz then
        (case refill buf of
           Inl (i, b) \<Rightarrow> (-1, out, b)
         | Inr b \<Rightarrow>
           let i = length (pending b) in
           if i < sz - length out then readcount_loop (advance i b) (out @ pending b) sz
           else
             let k = sz - length out in
             readcount_loop (advance k b) (out @ take k (pending b)) sz)
      else (int (length out), out, buf))"
  by pat_completeness auto
termination
proof (relation "measure (\<lambda>(b, out, sz). sz - length out)", goal_cases)
  case (2 buf out sz b i)
  then show ?case using refill_size[of buf b] by (cases "pending b") auto
next
  case (3 buf out sz b i k)
  then show ?case by auto
qed simp

declare readcount_loop.simps [simp del]

definition socket_buffer_readcount :: "socket_buffer \<Rightarrow> nat \<Rightarrow> int \<times> string \<times> socket_buffer" where
  "socket_buffer_readcount buf sz = readcount_loop buf [] sz"

definition socket_buffer_remainder :: "socket_buffer \<Rightarrow> string" where
  "socket_buffer_remainder buf = pending buf"

text \<open>\<open>http_read_header\<close>: the code and the header text.  A line is at least one character long, so
  the loop ends at the length limit at the latest.\<close>

lemma readline_stop: "refill buf = Inl (i, b) \<Longrightarrow> readline_loop buf line maxlen = (None, length line, b)"
  by (subst readline_loop.simps) simp

lemma readline_found:
  assumes "refill buf = Inr b" "pending b = u @ LF # t" "LF \<notin> set u"
  shows "readline_loop buf line maxlen =
    (if maxlen \<le> length line + length u + 1 then (None, length line + length u + 1, b)
     else (Some (line @ u @ [LF]), length line + length u + 1, advance (length u + 1) b))"
proof -
  have "dropWhile (\<lambda>c. c \<noteq> LF) (u @ LF # t) = LF # t" using assms(3) by (subst dropWhile_append2) auto
  then show ?thesis using assms(1,2) by (subst readline_loop.simps) (simp add: Let_def)
qed

lemma readline_more:
  assumes "refill buf = Inr b" "LF \<notin> set (pending b)"
  shows "readline_loop buf line maxlen =
    (if maxlen \<le> length line + length (pending b) then (None, length line + length (pending b), b)
     else readline_loop (advance (length (pending b)) b) (line @ pending b) maxlen)"
proof -
  have "dropWhile (\<lambda>c. c \<noteq> LF) (pending b) = []" using assms(2) by (auto simp: dropWhile_eq_Nil_conv)
  then show ?thesis using assms(1) by (subst readline_loop.simps) (simp add: Let_def)
qed

text \<open>Induction over the blocks that a line is spread over.\<close>

lemma readline_cases:
  assumes "\<And>buf line i b. refill buf = Inl (i, b) \<Longrightarrow> P buf line"
    and "\<And>buf line b u t. refill buf = Inr b \<Longrightarrow> pending b = u @ LF # t \<Longrightarrow> LF \<notin> set u \<Longrightarrow> P buf line"
    and "\<And>buf line b. refill buf = Inr b \<Longrightarrow> LF \<notin> set (pending b) \<Longrightarrow> P (advance (length (pending b)) b) (line @ pending b) \<Longrightarrow> P buf line"
  shows "P buf line"
proof (induction "buf_size buf" arbitrary: buf line rule: less_induct)
  case less
  show ?case
  proof (cases "refill buf")
    case (Inl ib)
    then show ?thesis using assms(1) by (cases ib) auto
  next
    case (Inr b)
    show ?thesis
    proof (cases "LF \<in> set (pending b)")
      case True
      then show ?thesis using assms(2)[OF Inr] split_list_first by metis
    next
      case False
      then show ?thesis using assms(3)[OF Inr] less refill_size[OF Inr] by blast
    qed
  qed
qed

lemma readline_loop_prefix:
  "readline_loop buf line maxlen = (Some l, n, b) \<Longrightarrow> length line < length l \<and> n = length l \<and> n < maxlen"
proof (induction buf line rule: readline_cases)
  case (3 buf line b0)
  then have "pending b0 \<noteq> []" using refill_size by blast
  with 3 show ?case by (auto simp: readline_more split: if_splits)
qed (auto simp: readline_stop readline_found split: if_splits)

function read_header_loop :: "socket_buffer \<Rightarrow> string \<Rightarrow> nat \<times> string \<times> socket_buffer" where
  "read_header_loop buf header =
     (case socket_buffer_readline buf MAX_HEADER_LENGTH of
        (None, cnt, b) \<Rightarrow> (if length header \<ge> MAX_HEADER_LENGTH then 413 else 400, [], b)
      | (Some line, cnt, b) \<Rightarrow>
        if length header + cnt \<ge> MAX_HEADER_LENGTH then (413, [], b)
        else
          let header' = header @ line in
          if is_crlf (cstr_of line) then (0, header', b) else read_header_loop b header')"
  by pat_completeness auto
termination
proof (relation "measure (\<lambda>(b, h). MAX_HEADER_LENGTH - length h)", goal_cases)
  case (2 buf header x y l n b h)
  then have "readline_loop buf [] MAX_HEADER_LENGTH = (Some l, n, b)" by (simp add: socket_buffer_readline_def)
  from readline_loop_prefix[OF this] show ?case using 2 by (cases l) auto
qed simp

declare read_header_loop.simps [simp del]

definition http_read_header :: "socket_buffer \<Rightarrow> nat \<times> string \<times> socket_buffer" where
  "http_read_header buf = read_header_loop buf []"

definition http_read_status_line :: "socket_buffer \<Rightarrow> nat \<times> string option \<times> socket_buffer" where
  "http_read_status_line buf =
     (case socket_buffer_readline buf MAX_STATUS_LINE_LENGTH of
        (None, n, b) \<Rightarrow> (if n \<ge> MAX_STATUS_LINE_LENGTH then 413 else 400, None, b)
      | (Some line, n, b) \<Rightarrow> (0, Some line, b))"

text \<open>The loop of \<open>http_read_request_line\<close> over empty lines ends because every line takes bytes
  from the stream.\<close>

fun data_len :: "recv_result \<Rightarrow> nat" where
  "data_len (Data d) = length d"
| "data_len _ = 0"

definition avail :: "socket_buffer \<Rightarrow> nat" where
  "avail b = length (pending b) + sum_list (map data_len (net b))"

lemma recv_retry_avail:
  "recv_retry r = (i, d, r') \<Longrightarrow> 0 < i \<Longrightarrow> length d + sum_list (map data_len r') = sum_list (map data_len r)"
  by (induction r rule: recv_retry.induct) auto

lemma refill_avail: "refill buf = Inr b \<Longrightarrow> avail b = avail buf"
  by (auto simp: refill_def avail_def dest: recv_retry_avail split: if_splits prod.splits)

lemma readline_loop_avail:
  "readline_loop buf line maxlen = (Some l, n, b) \<Longrightarrow> avail b + length l = avail buf + length line"
proof (induction buf line rule: readline_cases)
  case (2 buf line b0 u t)
  then show ?case using refill_avail[OF 2(1)] by (auto simp: readline_found avail_def split: if_splits)
next
  case (3 buf line b0)
  then show ?case using refill_avail[OF 3(1)] by (auto simp: readline_more avail_def split: if_splits)
qed (simp add: readline_stop)

function http_read_request_line :: "socket_buffer \<Rightarrow> nat \<times> string option \<times> socket_buffer" where
  "http_read_request_line buf =
     (case socket_buffer_readline buf MAX_REQUEST_LINE_LENGTH of
        (None, n, b) \<Rightarrow> (if n \<ge> MAX_REQUEST_LINE_LENGTH then 413 else 400, None, b)
      | (Some line, n, b) \<Rightarrow>
        if is_crlf (cstr_of line) then http_read_request_line b else (0, Some line, b))"
  by pat_completeness auto
termination
proof (relation "measure avail", goal_cases)
  case (2 buf x y l n b)
  then have "readline_loop buf [] MAX_REQUEST_LINE_LENGTH = (Some l, n, b)" by (simp add: socket_buffer_readline_def)
  from readline_loop_prefix[OF this] readline_loop_avail[OF this] show ?case by (cases l) auto
qed simp

declare http_read_request_line.simps [simp del]

section \<open>The stream\<close>

text \<open>The bytes that can still be read: the data up to the first block that ends the stream.\<close>

fun net_stream :: "recv_result list \<Rightarrow> string" where
  "net_stream [] = []"
| "net_stream (Eintr # r) = net_stream r"
| "net_stream (Err # r) = []"
| "net_stream (Eof # r) = []"
| "net_stream (Data d # r) = (if d = [] then [] else d @ net_stream r)"

definition stream :: "socket_buffer \<Rightarrow> string" where
  "stream b = pending b @ net_stream (net b)"

lemma recv_retry_stream:
  "recv_retry r = (i, d, r') \<Longrightarrow> if 0 < i then net_stream r = d @ net_stream r' \<and> d \<noteq> [] else net_stream r = []"
  by (induction r rule: recv_retry.induct) auto

lemma refill_stream:
  "case refill buf of Inl (i, b) \<Rightarrow> i \<le> 0 \<and> stream buf = [] | Inr b \<Rightarrow> stream b = stream buf \<and> pending b \<noteq> []"
proof (cases "pending buf = []")
  case True
  obtain i d n where e: "recv_retry (net buf) = (i, d, n)" by (metis prod_cases3)
  then show ?thesis using recv_retry_stream[OF e] True by (auto simp: refill_def stream_def split: if_splits)
qed (simp add: refill_def)

text \<open>The three outcomes of reading a line, by the first line of the stream.\<close>

definition first_line :: "string \<Rightarrow> string" where
  "first_line s = takeWhile (\<lambda>c. c \<noteq> LF) s @ (if LF \<in> set s then [LF] else [])"

lemma first_line_found: "LF \<notin> set u \<Longrightarrow> first_line (u @ LF # t) = u @ [LF]"
  by (induction u) (auto simp: first_line_def)

lemma first_line_more: "LF \<notin> set u \<Longrightarrow> first_line (u @ s) = u @ first_line s"
  by (induction u) (auto simp: first_line_def)

lemma readline_loop_spec:
  "length line < maxlen \<Longrightarrow> \<exists>r n b. readline_loop buf line maxlen = (r, n, b) \<and>
    (if LF \<in> set (stream buf) \<and> length line + length (first_line (stream buf)) < maxlen
     then r = Some (line @ first_line (stream buf)) \<and> n = length (line @ first_line (stream buf)) \<and>
       stream buf = first_line (stream buf) @ stream b
     else r = None \<and> (maxlen \<le> n \<longleftrightarrow> maxlen \<le> length line + length (first_line (stream buf))))"
proof (induction buf line rule: readline_cases)
  case (1 buf line i b)
  then have "stream buf = []" using refill_stream[of buf] by simp
  then show ?case using 1 by (simp add: readline_stop first_line_def)
next
  case (2 buf line b0 u t)
  then have st: "stream buf = u @ LF # t @ net_stream (net b0)"
    using refill_stream[of buf] by (simp add: stream_def)
  then have "first_line (stream buf) = u @ [LF]" using 2 by (simp add: first_line_found)
  then show ?case using 2 st by (auto simp: readline_found stream_def)
next
  case (3 buf line b0)
  let ?b = "advance (length (pending b0)) b0"
  have st: "stream buf = pending b0 @ stream ?b" using refill_stream[of buf] 3(1) by (simp add: stream_def)
  then have fl: "first_line (stream buf) = pending b0 @ first_line (stream ?b)" using 3(2) by (simp add: first_line_more)
  show ?case
  proof (cases "maxlen \<le> length line + length (pending b0)")
    case True
    then show ?thesis using fl readline_more[OF 3(1,2), of line maxlen] by simp
  next
    case False
    let ?l = "line @ pending b0"
    obtain r n b where r: "readline_loop ?b ?l maxlen = (r, n, b)"
      "if LF \<in> set (stream ?b) \<and> length ?l + length (first_line (stream ?b)) < maxlen
       then r = Some (?l @ first_line (stream ?b)) \<and> n = length (?l @ first_line (stream ?b)) \<and>
         stream ?b = first_line (stream ?b) @ stream b
       else r = None \<and> (maxlen \<le> n \<longleftrightarrow> maxlen \<le> length ?l + length (first_line (stream ?b)))"
      using 3(3) False by auto
    have "LF \<in> set (stream buf) \<longleftrightarrow> LF \<in> set (stream ?b)" using st 3(2) by auto
    moreover have "stream buf = first_line (stream buf) @ stream b \<longleftrightarrow> stream ?b = first_line (stream ?b) @ stream b"
      unfolding fl by (subst st) simp
    moreover have "readline_loop buf line maxlen = (r, n, b)"
      using r(1) False readline_more[OF 3(1,2), of line maxlen] by simp
    ultimately show ?thesis using r(2) fl
      by (intro exI[of _ r] exI[of _ n] exI[of _ b]) (simp only: append_assoc length_append add.assoc)
  qed
qed

lemma readcount_loop_spec:
  assumes "length out \<le> sz"
  shows "\<exists>i o' b. readcount_loop buf out sz = (i, o', b) \<and>
    (if sz \<le> length out + length (stream buf)
     then i = int sz \<and> o' = out @ take (sz - length out) (stream buf) \<and> stream b = drop (sz - length out) (stream buf)
     else i = -1 \<and> o' = out @ stream buf)"
  using assms
proof (induction buf out sz rule: readcount_loop.induct)
  case (1 buf out sz)
  note rs = refill_stream[of buf]
  show ?case
  proof (cases "length out < sz")
    case False
    then show ?thesis using "1.prems" by (subst readcount_loop.simps) simp
  next
    case lt: True
    show ?thesis
    proof (cases "refill buf")
      case (Inl ib)
      then show ?thesis using rs lt by (subst readcount_loop.simps) (auto split: prod.splits)
    next
      case (Inr b)
      then have st: "stream buf = pending b @ net_stream (net b)" using rs by (simp add: stream_def)
      show ?thesis
      proof (cases "length (pending b) < sz - length out")
        case True
        have "readcount_loop buf out sz = readcount_loop (advance (length (pending b)) b) (out @ pending b) sz"
          using lt Inr True by (subst readcount_loop.simps) simp
        moreover have sb: "stream (advance (length (pending b)) b) = net_stream (net b)" by (simp add: stream_def)
        moreover have "length (out @ pending b) \<le> sz" using True by simp
        then obtain i o' b' where "readcount_loop (advance (length (pending b)) b) (out @ pending b) sz = (i, o', b')"
          "if sz \<le> length (out @ pending b) + length (stream (advance (length (pending b)) b))
           then i = int sz \<and> o' = (out @ pending b) @ take (sz - length (out @ pending b)) (stream (advance (length (pending b)) b)) \<and>
             stream b' = drop (sz - length (out @ pending b)) (stream (advance (length (pending b)) b))
           else i = -1 \<and> o' = (out @ pending b) @ stream (advance (length (pending b)) b)"
          using "1.IH"(1)[OF lt Inr refl True] by blast
        ultimately show ?thesis using True st by (auto simp: add.assoc)
      next
        case False
        let ?k = "sz - length out"
        have "readcount_loop buf out sz = (int sz, out @ take ?k (pending b), advance ?k b)"
          using lt Inr False by (subst readcount_loop.simps) (simp add: readcount_loop.simps Let_def)
        then show ?thesis using False st lt by (simp add: stream_def)
      qed
    qed
  qed
qed

section \<open>A header is read to its blank line\<close>

text \<open>The lines of a header: every line but the last is not blank.\<close>

definition line_ok :: "string \<Rightarrow> bool" where
  "line_ok l \<longleftrightarrow> (\<exists>u. l = u @ [LF] \<and> LF \<notin> set u)"

definition blank_line :: "string \<Rightarrow> bool" where
  "blank_line l \<longleftrightarrow> is_crlf (cstr_of l)"

lemma readline_line:
  assumes "stream buf = l @ rest" "line_ok l" "length l < maxlen"
  shows "\<exists>b. socket_buffer_readline buf maxlen = (Some l, length l, b) \<and> stream b = rest"
proof -
  obtain u where u: "l = u @ [LF]" "LF \<notin> set u" using assms(2) by (auto simp: line_ok_def)
  then have fl: "first_line (stream buf) = l" "LF \<in> set (stream buf)"
    using assms(1) first_line_found[of u rest] by simp_all
  obtain r n b where "readline_loop buf [] maxlen = (r, n, b)"
    "r = Some l" "n = length l" "stream buf = l @ stream b"
    using readline_loop_spec[of "[]" maxlen buf] assms(3) fl by auto
  then show ?thesis using assms(1) by (auto simp: socket_buffer_readline_def)
qed

lemma readline_overlong:
  assumes "0 < maxlen" "maxlen \<le> length (first_line (stream buf))"
  shows "\<exists>n b. socket_buffer_readline buf maxlen = (None, n, b) \<and> maxlen \<le> n"
  using readline_loop_spec[of "[]" maxlen buf] assms by (auto simp: socket_buffer_readline_def)

lemma readline_incomplete:
  assumes "LF \<notin> set (stream buf)" "length (stream buf) < maxlen"
  shows "\<exists>n b. socket_buffer_readline buf maxlen = (None, n, b) \<and> n < maxlen"
proof -
  have "first_line (stream buf) = stream buf" using first_line_more[OF assms(1), of "[]"] by (simp add: first_line_def)
  then show ?thesis using readline_loop_spec[of "[]" maxlen buf] assms by (auto simp: socket_buffer_readline_def)
qed

lemma read_header_loop_lines:
  assumes "stream buf = concat ls @ l @ rest" "\<forall>k \<in> set (ls @ [l]). line_ok k" "\<forall>k \<in> set ls. \<not> blank_line k" "blank_line l"
    "length header + length (concat ls @ l) < MAX_HEADER_LENGTH"
  shows "\<exists>b. read_header_loop buf header = (0, header @ concat ls @ l, b) \<and> stream b = rest"
  using assms
proof (induction ls arbitrary: buf header)
  case Nil
  obtain b where "socket_buffer_readline buf MAX_HEADER_LENGTH = (Some l, length l, b)" "stream b = rest"
    using readline_line[of buf l rest MAX_HEADER_LENGTH] Nil by auto
  then show ?case using Nil by (subst read_header_loop.simps) (simp add: blank_line_def)
next
  case (Cons k ls)
  obtain b where b: "socket_buffer_readline buf MAX_HEADER_LENGTH = (Some k, length k, b)" "stream b = concat ls @ l @ rest"
    using readline_line[of buf k "concat ls @ l @ rest" MAX_HEADER_LENGTH] Cons.prems by auto
  have "read_header_loop buf header = read_header_loop b (header @ k)"
    using b Cons.prems by (subst read_header_loop.simps) (simp add: blank_line_def)
  then show ?case using Cons.IH[OF b(2), of "header @ k"] Cons.prems by simp
qed

lemma read_header_loop_overlong:
  assumes "stream buf = concat ls @ rest" "\<forall>k \<in> set ls. line_ok k \<and> \<not> blank_line k"
    "length header + length (concat ls) < MAX_HEADER_LENGTH" "MAX_HEADER_LENGTH \<le> length (first_line rest)"
  shows "\<exists>b. read_header_loop buf header = (400, [], b)"
  using assms
proof (induction ls arbitrary: buf header)
  case Nil
  obtain n b where "socket_buffer_readline buf MAX_HEADER_LENGTH = (None, n, b)"
    using readline_overlong[of MAX_HEADER_LENGTH buf] Nil by (auto simp: MAX_HEADER_LENGTH_def)
  then show ?case using Nil by (subst read_header_loop.simps) simp
next
  case (Cons k ls)
  obtain b where b: "socket_buffer_readline buf MAX_HEADER_LENGTH = (Some k, length k, b)" "stream b = concat ls @ rest"
    using readline_line[of buf k "concat ls @ rest" MAX_HEADER_LENGTH] Cons.prems by auto
  have "read_header_loop buf header = read_header_loop b (header @ k)"
    using b Cons.prems by (subst read_header_loop.simps) (simp add: blank_line_def)
  then show ?case using Cons.IH[OF b(2), of "header @ k"] Cons.prems by simp
qed

section \<open>Properties\<close>

text \<open>C22. Reading a line depends on the bytes of the stream only, however the network cuts them into
  blocks and whatever calls are interrupted: the first line is returned when it is complete and
  shorter than the limit, and exactly its bytes are consumed; otherwise nothing is returned, and the
  count tells an overlong line (count at or over the limit) from an end of the stream (below).\<close>

theorem socket_buffer_readline_stream:
  assumes "0 < maxlen"
  shows "\<exists>r n b. socket_buffer_readline buf maxlen = (r, n, b) \<and>
    (if LF \<in> set (stream buf) \<and> length (first_line (stream buf)) < maxlen
     then r = Some (first_line (stream buf)) \<and> n = length (first_line (stream buf)) \<and>
       stream buf = first_line (stream buf) @ stream b
     else r = None \<and> (maxlen \<le> n \<longleftrightarrow> maxlen \<le> length (first_line (stream buf))))"
  using readline_loop_spec[of "[]" maxlen buf] assms
  by (simp only: socket_buffer_readline_def list.size add_0 append_Nil)

theorem socket_buffer_readline_stream_witness:
  "\<exists>b. socket_buffer_readline (socket_buffer_init [Data ''GE'', Eintr, Data (''T'' @ [LF] @ ''x'')]) 1024
     = (Some (''GET'' @ [LF]), 4, b) \<and> stream b = ''x''"
proof -
  let ?s = "socket_buffer_init [Data ''GE'', Eintr, Data (''T'' @ [LF] @ ''x'')]"
  have "stream ?s = ''GET'' @ LF # ''x''" by (simp add: socket_buffer_init_def stream_def)
  moreover have "first_line (''GET'' @ LF # ''x'') = ''GET'' @ [LF]" by (rule first_line_found) (simp add: LF_def)
  ultimately show ?thesis using socket_buffer_readline_stream[of 1024 ?s] by auto
qed

text \<open>A counted read returns exactly the next bytes of the stream and leaves the rest when there
  are enough, and otherwise fails after having delivered all there were.\<close>

theorem socket_buffer_readcount_stream:
  "\<exists>i out b. socket_buffer_readcount buf sz = (i, out, b) \<and>
    (if sz \<le> length (stream buf) then i = int sz \<and> out = take sz (stream buf) \<and> stream b = drop sz (stream buf)
     else i = -1 \<and> out = stream buf)"
  using readcount_loop_spec[of "[]" sz buf]
  by (simp only: socket_buffer_readcount_def list.size add_0 append_Nil diff_zero zero_le)

text \<open>A header is read up to and including its first blank line and no further, when it is
  shorter than the limit: the text is the concatenation of its lines, and the stream continues
  behind it.\<close>

theorem http_read_header_lines:
  assumes "stream buf = concat ls @ l @ rest" "\<forall>k \<in> set (ls @ [l]). line_ok k" "\<forall>k \<in> set ls. \<not> blank_line k"
    "blank_line l" "length (concat ls @ l) < MAX_HEADER_LENGTH"
  shows "\<exists>b. http_read_header buf = (0, concat ls @ l, b) \<and> stream b = rest"
  using read_header_loop_lines[of buf ls l rest "[]"] assms by (simp add: http_read_header_def)

theorem http_read_header_lines_witness:
  "\<exists>b. http_read_header (socket_buffer_init [Data (''A:'' @ [LF]), Data [CR], Data (LF # ''body'')])
     = (0, ''A:'' @ [LF, CR, LF], b) \<and> stream b = ''body''"
proof -
  let ?b = "socket_buffer_init [Data (''A:'' @ [LF]), Data [CR], Data (LF # ''body'')]"
  have "stream ?b = concat [''A:'' @ [LF]] @ [CR, LF] @ ''body''" by (simp add: stream_def socket_buffer_init_def)
  moreover have "line_ok (''A:'' @ [LF])" "line_ok ([CR] @ [LF])"
    by (auto simp: line_ok_def LF_def CR_def intro!: exI[of _ "''A:''"] exI[of _ "[CR]"])
  moreover have "\<not> blank_line (''A:'' @ [LF])" "blank_line [CR, LF]" by code_simp+
  ultimately show ?thesis
    using http_read_header_lines[of ?b "[''A:'' @ [LF]]" "[CR, LF]" "''body''"] by (simp add: MAX_HEADER_LENGTH_def)
qed

text \<open>A header line that alone reaches the limit is answered with 400 and not with the 413 that
  the code has for it: the test reads the length of the lines already stored, which is always below
  the limit, and not the length of the line that was refused.\<close>

theorem http_read_header_overlong_400:
  assumes "stream buf = concat ls @ rest" "\<forall>k \<in> set ls. line_ok k \<and> \<not> blank_line k"
    "length (concat ls) < MAX_HEADER_LENGTH" "MAX_HEADER_LENGTH \<le> length (first_line rest)"
  shows "\<exists>b. http_read_header buf = (400, [], b)"
  using read_header_loop_overlong[of buf ls rest "[]"] assms by (simp add: http_read_header_def)

theorem http_read_header_overlong_400_witness:
  "\<exists>b. http_read_header (socket_buffer_init [Data (replicate 10240 CHR ''a'')]) = (400, [], b)"
proof -
  let ?d = "replicate 10240 CHR ''a''"
  have "LF \<notin> set ?d" by (simp add: LF_def)
  then have "length (first_line ?d) = 10240" using first_line_more[of ?d "[]"] by (simp add: first_line_def)
  moreover have "stream (socket_buffer_init [Data ?d]) = concat [] @ ?d"
    by (simp add: socket_buffer_init_def stream_def)
  ultimately show ?thesis
    using http_read_header_overlong_400[of "socket_buffer_init [Data ?d]" "[]" ?d]
    by (simp add: MAX_HEADER_LENGTH_def)
qed

text \<open>After a failed read the old contents of the buffer are delivered again: the read pointer
  is reset before the call and the end pointer is not, so the read behind the end of the stream
  returns the bytes of the last block a second time.\<close>

theorem socket_buffer_read_stale:
  assumes "d \<noteq> []"
  shows "\<exists>b1 b2 b3. socket_buffer_read (socket_buffer_init [Data d]) (length d) = (int (length d), d, b1) \<and>
    socket_buffer_read b1 (length d) = (0, [], b2) \<and> socket_buffer_read b2 (length d) = (int (length d), d, b3)"
  using assms
  by (simp add: socket_buffer_read_def refill_def socket_buffer_init_def Let_def advance_def pending_def)

theorem socket_buffer_read_stale_witness:
  "\<exists>b1 b2 b3. socket_buffer_read (socket_buffer_init [Data ''ab'']) 2 = (2, ''ab'', b1) \<and>
    socket_buffer_read b1 2 = (0, [], b2) \<and> socket_buffer_read b2 2 = (2, ''ab'', b3)"
  using socket_buffer_read_stale[of "''ab''"] by (simp add: numeral_2_eq_2)

end
