(* ===== verification/Http_Message.thy ===== *)
theory Http_Message
  imports Http_Header Http_Uri Http_Socket
begin

text \<open>
  Requests and responses of \<open>ncat/http.c\<close>: the records, their printers, and the parsers of the
  request line, the status line and the header fields that fill them.  A line is the byte buffer
  that was read, with the NUL behind it; a result \<^const>\<open>None\<close> is a run that leaves the buffer,
  dereferences a null pointer or a freed list, or does not end.  Proved: a response that is printed and
  received over any sequence of blocks is read back, and a request line is read back.
\<close>

section \<open>Data\<close>

datatype http_version = HTTP_09 | HTTP_10 | HTTP_11 | HTTP_UNKNOWN

record http_request =
  req_method :: "string option"
  req_uri :: uri
  req_version :: http_version
  req_header :: hdr_ptr
  req_content_length_set :: bool
  req_content_length :: u64
  req_bytes_transferred :: u64

record http_response =
  resp_version :: http_version
  resp_code :: int
  resp_phrase :: "string option"
  resp_header :: hdr_ptr
  resp_content_length_set :: bool
  resp_content_length :: u64
  resp_bytes_transferred :: u64

definition http_request_init :: http_request where
  "http_request_init = \<lparr>req_method = None, req_uri = uri_init, req_version = HTTP_UNKNOWN, req_header = Hdr [],
     req_content_length_set = False, req_content_length = 0, req_bytes_transferred = 0\<rparr>"

definition http_response_init :: http_response where
  "http_response_init = \<lparr>resp_version = HTTP_UNKNOWN, resp_code = 0, resp_phrase = None, resp_header = Hdr [],
     resp_content_length_set = False, resp_content_length = 0, resp_bytes_transferred = 0\<rparr>"

text \<open>Freeing fails when the header list was already freed.\<close>

definition http_request_free :: "http_request \<Rightarrow> unit option" where
  "http_request_free request = http_header_free (req_header request)"

definition http_response_free :: "http_response \<Rightarrow> unit option" where
  "http_response_free response = http_header_free (resp_header response)"

section \<open>Printing\<close>

text \<open>\<open>%d\<close>.\<close>

definition sdec :: "int \<Rightarrow> string" where
  "sdec i = (if i < 0 then CHR ''-'' # dec (nat (- i)) else dec (nat i))"

fun hdr_list :: "hdr_ptr \<Rightarrow> http_header list option" where
  "hdr_list (Hdr hs) = Some hs"
| "hdr_list Dangling = None"

definition http_request_to_string :: "http_request \<Rightarrow> string option" where
  "http_request_to_string request = do {
     p \<leftarrow> path (req_uri request);
     let p' = (if p = [] then ''/'' else p);
     m \<leftarrow> req_method request;
     if req_version request = HTTP_09 then Some (m @ '' '' @ p' @ [CR, LF])
     else do {
       let version = (if req_version request = HTTP_10 then '' HTTP/1.0'' else '' HTTP/1.1'');
       hs \<leftarrow> hdr_list (req_header request);
       Some (m @ '' '' @ p' @ version @ [CR, LF] @ http_header_to_string hs @ [CR, LF]) } }"

definition http_response_to_string :: "http_response \<Rightarrow> string option" where
  "http_response_to_string response =
     (if resp_version response = HTTP_09 then Some []
      else do {
        let version = (if resp_version response = HTTP_10 then ''HTTP/1.0'' else ''HTTP/1.1'');
        hs \<leftarrow> hdr_list (resp_header response);
        phrase \<leftarrow> resp_phrase response;
        Some (version @ '' '' @ sdec (resp_code response) @ '' '' @ phrase @ [CR, LF] @
          http_header_to_string hs @ [CR, LF]) })"

section \<open>Parsing\<close>

text \<open>\<open>*content_length_set\<close>, \<open>*content_length\<close> and the code.\<close>

definition http_header_get_content_length :: "http_header list \<Rightarrow> nat \<times> bool \<times> u64" where
  "http_header_get_content_length header =
     (case http_header_get_first header ''Content-Length'' of
        None \<Rightarrow> (0, False, 0)
      | Some s \<Rightarrow>
        let (v, tail, err) = parse_long s in
        (if err \<or> deref tail \<noteq> NUL \<or> tail = s then 400 else 0, True, word_of_int v))"

definition http_request_parse_header :: "http_request \<Rightarrow> string \<Rightarrow> (nat \<times> http_request) option" where
  "http_request_parse_header request header = do {
     (code, h) \<leftarrow> http_parse_header header;
     let request = request\<lparr>req_header := h\<rparr>;
     if code \<noteq> 0 then Some (code, request)
     else do {
       hs \<leftarrow> hdr_list h;
       let (code, set, len) = http_header_get_content_length hs;
       Some (code, request\<lparr>req_content_length_set := set, req_content_length := len\<rparr>) } }"

definition http_response_parse_header :: "http_response \<Rightarrow> string \<Rightarrow> (nat \<times> http_response) option" where
  "http_response_parse_header response header = do {
     (code, h) \<leftarrow> http_parse_header header;
     let response = response\<lparr>resp_header := h\<rparr>;
     if code \<noteq> 0 then Some (code, response)
     else do {
       hs \<leftarrow> hdr_list h;
       let (code, set, len) = http_header_get_content_length hs;
       Some (code, response\<lparr>resp_content_length_set := set, resp_content_length := len\<rparr>) } }"

text \<open>The position behind the version (the start on an error) and \<open>*version\<close>.\<close>

definition parse_http_version :: "string \<Rightarrow> string \<times> http_version" where
  "parse_http_version s =
     (let PREFIX = ''HTTP/'' in
      if take (length PREFIX) s \<noteq> PREFIX then (s, HTTP_UNKNOWN)
      else
        let p = drop (length PREFIX) s; (major, q, err) = parse_long p in
        if err \<or> q = p then (s, HTTP_UNKNOWN)
        else if deref q \<noteq> CHR ''.'' then (s, HTTP_UNKNOWN)
        else
          let p = tl q; (minor, q, err) = parse_long p in
          if err \<or> q = p then (s, HTTP_UNKNOWN)
          else (q, if major = 1 \<and> minor = 0 then HTTP_10
                   else if major = 1 \<and> minor = 1 then HTTP_11 else HTTP_UNKNOWN))"

definition is_blank :: "char \<Rightarrow> bool" where
  "is_blank c \<longleftrightarrow> c = CHR '' ''"

text \<open>\<open>badreq\<close> frees the request, which has no header yet; only the code is left.  When \<open>uri_parse\<close> has
  failed behind the scheme, the scheme is freed a second time there.\<close>

definition http_parse_request_line :: "string \<Rightarrow> (nat + http_request) option" where
  "http_parse_request_line line =
     (let request = http_request_init; p = dropWhile is_blank line; q = dropWhile is_token_char p in
      if p = q then Some (Inl 400)
      else
        let method = upto_ptr p q; request = request\<lparr>req_method := Some method\<rparr>;
            p = dropWhile is_blank q; q = dropWhile (\<lambda>c. c \<noteq> NUL \<and> c \<noteq> CHR '' '') p in
        if p = q then Some (Inl 400)
        else
          let uri_s = upto_ptr p q in
          case (if method = ''CONNECT'' then uri_parse_authority uri_init uri_s else uri_parse uri_s) of
            None \<Rightarrow> (if method \<noteq> ''CONNECT'' \<and> uri_parse_dangling uri_s then None else Some (Inl 400))
          | Some u \<Rightarrow>
            let request = request\<lparr>req_uri := u\<rparr>; p = dropWhile is_blank q in
            if deref p = NUL then Some (Inr (request\<lparr>req_version := HTTP_09\<rparr>))
            else
              let (q, version) = parse_http_version p in
              if p = q then Some (Inl 400) else Some (Inr (request\<lparr>req_version := version\<rparr>)))"

text \<open>The scan for the end of the reason phrase has no test for the end of the string.\<close>

fun find_crlf :: "string \<Rightarrow> string option" where
  "find_crlf [] = None"
| "find_crlf (c # s) = (if is_crlf (c # s) then Some (c # s) else find_crlf s)"

definition http_parse_status_line :: "string \<Rightarrow> (int \<times> http_response) option" where
  "http_parse_status_line line =
     (let response = http_response_init; (p, version) = parse_http_version line;
          response = response\<lparr>resp_version := version\<rparr> in
      if p = line then Some (-1, response)
      else
        let p = dropWhile is_blank p; (code, q, err) = parse_long p;
            response = response\<lparr>resp_code := int_of_long code\<rparr> in
        if err \<or> q = p then Some (-1, response)
        else do {
          let p = dropWhile is_blank q;
          q \<leftarrow> find_crlf p;
          e \<leftarrow> skip_crlf q;
          if deref e \<noteq> NUL then Some (-1, response)
          else Some (0, response\<lparr>resp_phrase := Some (upto_ptr p q)\<rparr>) })"

definition http_parse_status_line_code :: "string \<Rightarrow> int option" where
  "http_parse_status_line_code line = do {
     (r, resp) \<leftarrow> http_parse_status_line line;
     if r \<noteq> 0 then Some (-1)
     else do { http_response_free resp; Some (resp_code resp) } }"

section \<open>Version and status line\<close>

definition version_text :: "nat \<Rightarrow> nat \<Rightarrow> string" where
  "version_text major minor = ''HTTP/'' @ dec major @ ''.'' @ dec minor"

lemma parse_http_version_text:
  assumes "\<not> isdigit (deref rest)" "int major \<le> LONG_MAX" "int minor \<le> LONG_MAX"
  shows "parse_http_version (version_text major minor @ rest) =
    (rest, if major = 1 \<and> minor = 0 then HTTP_10 else if major = 1 \<and> minor = 1 then HTTP_11 else HTTP_UNKNOWN)"
proof -
  have dot: "\<not> isdigit CHR ''.''" by (simp add: ctype_simps)
  have a: "parse_long (dec major @ ''.'' @ dec minor @ rest) = (int major, ''.'' @ dec minor @ rest, False)"
    by (rule parse_long_dec) (use assms dot in simp_all)
  have b: "parse_long (dec minor @ rest) = (int minor, rest, False)"
    by (rule parse_long_dec) (use assms in simp_all)
  have n: "''.'' @ dec minor @ rest \<noteq> dec major @ ''.'' @ dec minor @ rest" "rest \<noteq> dec minor @ rest"
    by (simp_all)
  show ?thesis using a b n assms
    by (simp add: parse_http_version_def version_text_def Let_def)
qed

lemma find_crlf_phrase:
  assumes "CR \<notin> set u" "LF \<notin> set u"
  shows "find_crlf (u @ CR # LF # t) = Some (CR # LF # t)"
  using assms by (induction u) auto

definition phrase_ok :: "string \<Rightarrow> bool" where
  "phrase_ok u \<longleftrightarrow> CR \<notin> set u \<and> LF \<notin> set u \<and> NUL \<notin> set u \<and> deref u \<noteq> CHR '' ''"

definition status_line :: "nat \<Rightarrow> nat \<Rightarrow> string \<Rightarrow> string" where
  "status_line minor code phrase = version_text 1 minor @ '' '' @ dec code @ '' '' @ phrase @ [CR, LF]"

lemma is_blank_space [simp]: "is_blank CHR '' ''"
  by (simp add: is_blank_def)

lemma dropWhile_blank [simp]: "dropWhile is_blank (CHR '' '' # s) = dropWhile is_blank s"
  by simp

lemma dropWhile_blank_stop: "deref s \<noteq> CHR '' '' \<Longrightarrow> dropWhile is_blank s = s"
  by (cases s) (auto simp: is_blank_def)

lemma deref_dec: "\<not> P (deref (dec n @ s))" if "\<And>c. isdigit c \<Longrightarrow> \<not> P c"
  using that isdigit_hd_dec by blast

lemma http_parse_status_line_print:
  assumes "phrase_ok phrase" "minor \<le> 1"
    and c: "int code < 2 ^ 31"
  shows "http_parse_status_line (status_line minor code phrase) =
    Some (0, http_response_init\<lparr>resp_version := (if minor = 0 then HTTP_10 else HTTP_11), resp_code := int code,
      resp_phrase := Some phrase\<rparr>)"
proof -
  let ?tail = "phrase @ [CR, LF]"
  have blank: "\<not> isdigit CHR '' ''" by (simp add: ctype_simps)
  have v: "parse_http_version (status_line minor code phrase) =
      ('' '' @ dec code @ '' '' @ ?tail, if minor = 0 then HTTP_10 else HTTP_11)"
    unfolding status_line_def using assms(2) blank
    by (subst parse_http_version_text) (auto simp: LONG_MAX_def)
  have ne: "'' '' @ dec code @ '' '' @ ?tail \<noteq> status_line minor code phrase"
    by (simp add: status_line_def version_text_def)
  have d: "dropWhile is_blank (dec code @ '' '' @ ?tail) = dec code @ '' '' @ ?tail"
    by (rule dropWhile_blank_stop) (rule deref_dec, auto simp: ctype_simps)
  have l: "parse_long (dec code @ '' '' @ ?tail) = (int code, '' '' @ ?tail, False)"
    by (rule parse_long_dec) (use c blank in \<open>simp_all add: LONG_MAX_def\<close>)
  have t: "dropWhile is_blank ?tail = ?tail"
    by (rule dropWhile_blank_stop) (use assms(1) in \<open>cases phrase; auto simp: phrase_ok_def CR_def\<close>)
  have f: "find_crlf ?tail = Some [CR, LF]" using find_crlf_phrase[of phrase "[]"] assms(1) by (simp add: phrase_ok_def)
  have "skip_crlf [CR, LF] = Some []" by (simp add: skip_crlf_def)
  then show ?thesis using v ne d l t f c
    by (simp add: http_parse_status_line_def Let_def int_of_long_id)
qed


section \<open>Messages on the wire\<close>

lemma join_words_chars: "\<forall>w \<in> set ws. word_ok w \<Longrightarrow> c \<in> set (join_words ws) \<Longrightarrow> c = CHR '' '' \<or> \<not> iscntrl c"
  by (induction ws rule: join_words.induct) (auto simp: word_ok_def)

lemma field_chars:
  assumes "field_ok p" "c \<in> set (hname p) \<union> set (hvalue p)"
  shows "c \<noteq> LF \<and> c \<noteq> CR \<and> c \<noteq> NUL"
proof -
  obtain ws where ws: "\<forall>w \<in> set ws. word_ok w" "hvalue p = join_words ws" using assms(1) by (auto simp: field_ok_def)
  consider "c \<in> set (hname p)" | "c = CHR '' ''" | "\<not> iscntrl c"
    using assms(2) ws join_words_chars[of ws c] by auto
  then show ?thesis
  proof cases
    case 1
    then show ?thesis using assms(1) token_char_props[of c] by (auto simp: field_ok_def)
  next
    case 3
    then show ?thesis using iscntrl_chars by blast
  qed (simp add: LF_def CR_def NUL_def)
qed

lemma header_line_shape: "field_ok p \<Longrightarrow> line_ok (header_line p) \<and> \<not> blank_line (header_line p) \<and> cstr (header_line p)"
proof -
  assume f: "field_ok p"
  have c: "LF \<notin> set (hname p)" "LF \<notin> set (hvalue p)" "NUL \<notin> set (hname p)" "NUL \<notin> set (hvalue p)"
    using field_chars[OF f] by blast+
  have n: "c \<noteq> LF \<and> c \<noteq> CR" if "c \<in> set (hname p)" for c using field_chars[OF f, of c] that by simp
  have "header_line p = (hname p @ '': '' @ hvalue p @ [CR]) @ [LF]" by (simp add: header_line_def)
  moreover have "LF \<notin> set (hname p @ '': '' @ hvalue p @ [CR])" using c by (simp add: LF_def CR_def)
  ultimately have l: "line_ok (header_line p)" unfolding line_ok_def by blast
  have z: "cstr (header_line p)" using c by (simp add: header_line_def cstr_def NUL_def CR_def LF_def)
  have "\<not> is_crlf (header_line p)"
    using n by (cases "hname p") (auto simp: header_line_def is_crlf_def LF_def CR_def)
  then show ?thesis using l z by (simp add: blank_line_def cstr_of_id)
qed

lemma read_printed_header:
  assumes "\<forall>p \<in> set hs. field_ok p" "stream buf = http_header_to_string hs @ [CR, LF] @ rest"
    "length (http_header_to_string hs) + 2 < MAX_HEADER_LENGTH"
  shows "\<exists>b. http_read_header buf = (0, http_header_to_string hs @ [CR, LF], b) \<and> stream b = rest"
proof -
  have "line_ok ([CR] @ [LF])" unfolding line_ok_def by (intro exI[of _ "[CR]"]) simp
  moreover have "blank_line [CR, LF]" by (simp add: blank_line_def cstr_of_def)
  ultimately show ?thesis
    using read_header_loop_lines[of buf "map header_line hs" "[CR, LF]" rest "[]"] assms header_line_shape
    by (simp add: http_read_header_def http_header_to_string_def)
qed

lemma printed_header_cstr: "\<forall>p \<in> set hs. field_ok p \<Longrightarrow> cstr (http_header_to_string hs @ [CR, LF])"
proof -
  assume "\<forall>p \<in> set hs. field_ok p"
  then have "cstr (http_header_to_string hs)"
    using header_line_shape by (induction hs) (auto simp: http_header_to_string_def)
  then show ?thesis by simp
qed

definition response_ok :: "http_response \<Rightarrow> bool" where
  "response_ok r \<longleftrightarrow> resp_version r \<in> {HTTP_10, HTTP_11} \<and> 0 \<le> resp_code r \<and> resp_code r < 2 ^ 31 \<and>
     (\<exists>ph. resp_phrase r = Some ph \<and> phrase_ok ph) \<and>
     (\<exists>hs. resp_header r = Hdr hs \<and> (\<forall>p \<in> set hs. field_ok p) \<and>
        http_header_get_content_length hs = (0, resp_content_length_set r, resp_content_length r)) \<and>
     resp_bytes_transferred r = 0"

lemma status_line_shape:
  assumes "phrase_ok ph"
  shows "line_ok (status_line minor code ph)"
proof -
  have "LF \<notin> set (dec k)" for k using dec_digits[of LF k] by (auto simp: ctype_simps LF_def)
  then show ?thesis using assms unfolding line_ok_def status_line_def
    by (intro exI[of _ "version_text 1 minor @ '' '' @ dec code @ '' '' @ ph @ [CR]"])
      (auto simp: version_text_def phrase_ok_def LF_def CR_def)
qed

lemma version_text_10: "version_text 1 0 = ''HTTP/1.0''" "version_text 1 1 = ''HTTP/1.1''"
  by code_simp+

text \<open>C21. A response that is printed by \<open>http_response_to_string\<close> and received over any sequence of
  blocks is read back as the same response by the functions that the proxy and the client use (read
  and parse the status line, read and parse the header), and the body is what is left of the
  stream.\<close>

theorem http_response_received:
  assumes "response_ok r" "http_response_to_string r = Some s" "stream buf = s @ body"
    "length (first_line s) < MAX_STATUS_LINE_LENGTH" "length s < MAX_HEADER_LENGTH"
  shows "\<exists>line b1 r1 header b2. http_read_status_line buf = (0, Some line, b1) \<and>
    http_parse_status_line line = Some (0, r1) \<and> http_read_header b1 = (0, header, b2) \<and>
    http_response_parse_header r1 (cstr_of header) = Some (0, r) \<and> stream b2 = body"
proof -
  obtain ph hs where r: "resp_phrase r = Some ph" "phrase_ok ph" "resp_header r = Hdr hs" "\<forall>p \<in> set hs. field_ok p"
    and cl: "http_header_get_content_length hs = (0, resp_content_length_set r, resp_content_length r)"
    using assms(1) by (auto simp: response_ok_def)
  define minor :: nat where "minor = (if resp_version r = HTTP_10 then 0 else 1)"
  define code where "code = nat (resp_code r)"
  have c: "int code = resp_code r" "int code < 2 ^ 31" using assms(1) by (simp_all add: response_ok_def code_def)
  have v: "resp_version r = (if minor = 0 then HTTP_10 else HTTP_11)" "minor \<le> 1"
    using assms(1) by (auto simp: response_ok_def minor_def)
  let ?h = "http_header_to_string hs @ [CR, LF]"
  have "sdec (resp_code r) = dec code" using assms(1) by (simp add: sdec_def response_ok_def code_def)
  moreover have "(if resp_version r = HTTP_10 then ''HTTP/1.0'' else ''HTTP/1.1'') = version_text 1 minor"
    using version_text_10 by (simp add: minor_def)
  moreover have "resp_version r \<noteq> HTTP_09" using v(1) by simp
  ultimately have s: "s = status_line minor code ph @ ?h"
    using assms(2) r(1,3) unfolding http_response_to_string_def status_line_def Let_def by simp
  have fl: "first_line s = status_line minor code ph"
    using status_line_shape[OF r(2), of minor code] first_line_found[of _ ?h] unfolding s line_ok_def by fastforce
  obtain b1 where b1: "socket_buffer_readline buf MAX_STATUS_LINE_LENGTH =
      (Some (status_line minor code ph), length (status_line minor code ph), b1)" "stream b1 = ?h @ body"
    using readline_line[of buf "status_line minor code ph" "?h @ body" MAX_STATUS_LINE_LENGTH] status_line_shape[OF r(2)] s assms(3,4) fl by auto
  obtain b2 where b2: "http_read_header b1 = (0, ?h, b2)" "stream b2 = body"
    using read_printed_header[OF r(4), of b1 body] b1(2) s assms(5) by auto
  have "resp_bytes_transferred r = 0" using assms(1) by (simp add: response_ok_def)
  then have "http_response_init\<lparr>resp_version := (if minor = 0 then HTTP_10 else HTTP_11), resp_code := int code,
      resp_phrase := Some ph, resp_header := Hdr hs, resp_content_length_set := resp_content_length_set r,
      resp_content_length := resp_content_length r\<rparr> = r"
    using r c v by (simp add: http_response_init_def)
  moreover have "cstr_of ?h = ?h" using printed_header_cstr[OF r(4)] by (rule cstr_of_id)
  ultimately show ?thesis
    using b1 b2 http_parse_status_line_print[OF r(2) v(2) c(2)] http_parse_header_print[OF r(4)] cl
    by (simp add: http_read_status_line_def http_response_parse_header_def)
qed

definition sample_response :: http_response where
  "sample_response = \<lparr>resp_version = HTTP_10, resp_code = 200, resp_phrase = Some ''OK'', resp_header = Hdr [sample_field],
     resp_content_length_set = False, resp_content_length = 0, resp_bytes_transferred = 0\<rparr>"

theorem http_response_received_witness:
  "\<exists>line b1 r1 header b2. http_read_status_line (socket_buffer_init [Data ''HT'', Data (''TP/1.0 200 OK'' @ [CR, LF] @
      ''Via: 1.0 fred'' @ [CR, LF, CR, LF] @ ''body'')]) = (0, Some line, b1) \<and>
    http_parse_status_line line = Some (0, r1) \<and> http_read_header b1 = (0, header, b2) \<and>
    http_response_parse_header r1 (cstr_of header) = Some (0, sample_response) \<and> stream b2 = ''body''"
proof -
  let ?s = "''HTTP/1.0 200 OK'' @ [CR, LF] @ ''Via: 1.0 fred'' @ [CR, LF, CR, LF]"
  have "phrase_ok ''OK''" by code_simp
  moreover have "http_header_get_content_length [sample_field] = (0, False, 0)" by code_simp
  ultimately have "response_ok sample_response"
    using sample_field_ok by (simp add: response_ok_def sample_response_def)
  moreover have "http_response_to_string sample_response = Some ?s" by code_simp
  moreover have "length (first_line ?s) < MAX_STATUS_LINE_LENGTH" "length ?s < MAX_HEADER_LENGTH" by code_simp+
  ultimately show ?thesis
    using http_response_received[of sample_response ?s
        "socket_buffer_init [Data ''HT'', Data (''TP/1.0 200 OK'' @ [CR, LF] @ ''Via: 1.0 fred'' @ [CR, LF, CR, LF] @ ''body'')]" "''body''"]
    by (simp add: stream_def socket_buffer_init_def)
qed


section \<open>Request lines\<close>

definition request_line :: "string \<Rightarrow> string \<Rightarrow> nat \<Rightarrow> string" where
  "request_line m target minor = m @ '' '' @ target @ '' '' @ version_text 1 minor @ [CR, LF]"

lemma token_run:
  assumes "\<forall>c \<in> set m. is_token_char c"
  shows "dropWhile is_token_char (m @ CHR '' '' # t) = CHR '' '' # t" "m \<noteq> [] \<Longrightarrow> deref (m @ s) \<noteq> CHR '' ''"
proof -
  have "\<not> is_token_char CHR '' ''" using token_char_props[of "CHR '' ''"] by auto
  then show "dropWhile is_token_char (m @ CHR '' '' # t) = CHR '' '' # t" using assms by (simp add: dropWhile_append2)
  show "m \<noteq> [] \<Longrightarrow> deref (m @ s) \<noteq> CHR '' ''" using assms \<open>\<not> is_token_char CHR '' ''\<close> by (cases m) auto
qed

lemma http_parse_request_line_parts:
  assumes m: "m \<noteq> []" "\<forall>c \<in> set m. is_token_char c"
    and t: "target \<noteq> []" "\<forall>c \<in> set target. c \<noteq> NUL \<and> c \<noteq> CHR '' ''"
    and u: "(if m = ''CONNECT'' then uri_parse_authority uri_init target else uri_parse target) = Some u"
    and v: "minor \<le> 1"
  shows "http_parse_request_line (request_line m target minor) =
    Some (Inr (http_request_init\<lparr>req_method := Some m, req_uri := u, req_version := (if minor = 0 then HTTP_10 else HTTP_11)\<rparr>))"
proof -
  define V where "V = version_text 1 minor @ [CR, LF]"
  have line: "request_line m target minor = m @ CHR '' '' # target @ CHR '' '' # V" by (simp add: request_line_def V_def)
  have a: "dropWhile is_blank (m @ CHR '' '' # target @ CHR '' '' # V) = m @ CHR '' '' # target @ CHR '' '' # V"
    by (rule dropWhile_blank_stop) (use token_run(2)[OF m(2,1)] in simp)
  have b: "dropWhile is_blank (target @ CHR '' '' # V) = target @ CHR '' '' # V"
    by (rule dropWhile_blank_stop) (use t in \<open>cases target; auto\<close>)
  have c: "dropWhile (\<lambda>c. c \<noteq> NUL \<and> c \<noteq> CHR '' '') (target @ CHR '' '' # V) = CHR '' '' # V"
    using t(2) by (subst dropWhile_append2) auto
  have d: "dropWhile is_blank V = V" "deref V \<noteq> NUL"
    by (rule dropWhile_blank_stop, simp_all add: V_def version_text_def NUL_def)
  have "parse_http_version V = ([CR, LF], if minor = 0 then HTTP_10 else HTTP_11)"
    unfolding V_def using v by (subst parse_http_version_text) (auto simp: LONG_MAX_def ctype_simps CR_def)
  moreover have "V \<noteq> [CR, LF]" by (simp add: V_def version_text_def CR_def)
  ultimately show ?thesis
    unfolding http_parse_request_line_def line Let_def a token_run(1)[OF m(2)] dropWhile_blank b c d(1)
      upto_ptr_append_Cons u
    using d(2) m(1) t(1) by simp
qed

lemma http_parse_request_line_fails:
  assumes m: "m \<noteq> []" "\<forall>c \<in> set m. is_token_char c"
    and t: "target \<noteq> []" "\<forall>c \<in> set target. c \<noteq> NUL \<and> c \<noteq> CHR '' ''"
    and u: "(if m = ''CONNECT'' then uri_parse_authority uri_init target else uri_parse target) = None"
  shows "http_parse_request_line (request_line m target minor) =
    (if m \<noteq> ''CONNECT'' \<and> uri_parse_dangling target then None else Some (Inl 400))"
proof -
  define V where "V = version_text 1 minor @ [CR, LF]"
  have line: "request_line m target minor = m @ CHR '' '' # target @ CHR '' '' # V" by (simp add: request_line_def V_def)
  have a: "dropWhile is_blank (m @ CHR '' '' # target @ CHR '' '' # V) = m @ CHR '' '' # target @ CHR '' '' # V"
    by (rule dropWhile_blank_stop) (use token_run(2)[OF m(2,1)] in simp)
  have b: "dropWhile is_blank (target @ CHR '' '' # V) = target @ CHR '' '' # V"
    by (rule dropWhile_blank_stop) (use t in \<open>cases target; auto\<close>)
  have c: "dropWhile (\<lambda>c. c \<noteq> NUL \<and> c \<noteq> CHR '' '') (target @ CHR '' '' # V) = CHR '' '' # V"
    using t(2) by (subst dropWhile_append2) auto
  show ?thesis
    unfolding http_parse_request_line_def line Let_def a token_run(1)[OF m(2)] dropWhile_blank b c
      upto_ptr_append_Cons u
    using m(1) t(1) by simp
qed

text \<open>A request line is read back: a method, a target without blanks that the URI parser
  accepts (an absolute URI, or an authority for CONNECT), and the version 1.0 or 1.1 are the method,
  the parsed URI and the version of the request.\<close>

theorem http_parse_request_line_roundtrip:
  assumes "m \<noteq> []" "\<forall>c \<in> set m. is_token_char c" "target \<noteq> []" "\<forall>c \<in> set target. c \<noteq> NUL \<and> c \<noteq> CHR '' ''"
    "(if m = ''CONNECT'' then uri_parse_authority uri_init target else uri_parse target) = Some u" "minor \<le> 1"
  shows "http_parse_request_line (request_line m target minor) =
    Some (Inr (http_request_init\<lparr>req_method := Some m, req_uri := u, req_version := (if minor = 0 then HTTP_10 else HTTP_11)\<rparr>))"
  using http_parse_request_line_parts[OF assms] .

theorem http_parse_request_line_roundtrip_witness:
  "\<exists>u. uri_parse_authority uri_init ''h:443'' = Some u \<and>
    http_parse_request_line (request_line ''CONNECT'' ''h:443'' 1) =
      Some (Inr (http_request_init\<lparr>req_method := Some ''CONNECT'', req_uri := u, req_version := HTTP_11\<rparr>))"
proof -
  have u: "uri_parse_authority uri_init ''h:443'' = Some (uri_init\<lparr>port := 443, host := Some ''h''\<rparr>)" by code_simp
  have "(\<forall>c \<in> set ''CONNECT''. is_token_char c) \<and> (\<forall>c \<in> set ''h:443''. c \<noteq> NUL \<and> c \<noteq> CHR '' '')" by code_simp
  then show ?thesis
    using http_parse_request_line_roundtrip[of "''CONNECT''" "''h:443''" "uri_init\<lparr>port := 443, host := Some ''h''\<rparr>" 1] u
    by simp
qed

text \<open>A status code is cut to 32 bits: a status line whose code is 200 plus a multiple of
  \<open>2 ^ 32\<close>, up to the largest \<open>long\<close>, is reported as code 200.\<close>

theorem http_parse_status_line_code_wraps:
  assumes "int k * 2 ^ 32 + 200 \<le> LONG_MAX"
  shows "http_parse_status_line_code (status_line 0 (k * 2 ^ 32 + 200) ''OK'') = Some 200"
proof -
  let ?c = "k * 2 ^ 32 + 200"
  let ?tail = "''OK'' @ [CR, LF]"
  have blank: "\<not> isdigit CHR '' ''" by (simp add: ctype_simps)
  have v: "parse_http_version (status_line 0 ?c ''OK'') = ('' '' @ dec ?c @ '' '' @ ?tail, HTTP_10)"
    unfolding status_line_def using blank by (subst parse_http_version_text) (auto simp: LONG_MAX_def)
  have ne: "'' '' @ dec ?c @ '' '' @ ?tail \<noteq> status_line 0 ?c ''OK''"
    by (simp add: status_line_def version_text_def)
  have d: "dropWhile is_blank (dec ?c @ '' '' @ ?tail) = dec ?c @ '' '' @ ?tail"
    by (rule dropWhile_blank_stop) (rule deref_dec, auto simp: ctype_simps)
  have l: "parse_long (dec ?c @ '' '' @ ?tail) = (int ?c, '' '' @ ?tail, False)"
    by (rule parse_long_dec) (use assms blank in simp_all)
  have w: "int_of_long (int ?c) = 200"
    by (simp add: int_of_long_def signed_take_bit_eq_take_bit_shift take_bit_eq_mod mod_add_eq algebra_simps)
  have "find_crlf ?tail = Some [CR, LF]" "skip_crlf [CR, LF] = Some []" "dropWhile is_blank ?tail = ?tail" by code_simp+
  then show ?thesis using v ne d l w
    by (simp add: http_parse_status_line_code_def http_parse_status_line_def Let_def
        http_response_free_def http_response_init_def)
qed

theorem http_parse_status_line_code_wraps_witness:
  "http_parse_status_line_code (status_line 0 4294967496 ''OK'') = Some 200"
  using http_parse_status_line_code_wraps[of 1] by (simp add: LONG_MAX_def)

text \<open>In a request line without a version (HTTP/0.9), as it is read with its line end, the line end
  becomes part of the path.\<close>

theorem http_parse_request_line_09:
  "http_parse_request_line (''GET http://h/'' @ [CR, LF]) =
    Some (Inr (http_request_init\<lparr>req_method := Some ''GET'', req_version := HTTP_09,
      req_uri := \<lparr>scheme = Some ''http'', host = Some ''h'', port = 80, path = Some (''/'' @ [CR, LF])\<rparr>\<rparr>))"
  by code_simp

text \<open>A request whose URI has a scheme but an authority that is refused makes the parser free the
  scheme twice: \<open>uri_parse\<close> frees the members of the URI when it fails and \<open>badreq\<close> frees them again.  A URI
  without a scheme, or a bad authority of CONNECT, is answered with 400.\<close>

theorem http_parse_request_line_double_free:
  assumes "m \<noteq> []" "\<forall>c \<in> set m. is_token_char c" "m \<noteq> ''CONNECT''" "target \<noteq> []" "\<forall>c \<in> set target. c \<noteq> NUL \<and> c \<noteq> CHR '' ''"
    "is_alpha_char (deref target)" "deref (dropWhile is_scheme_char target) = CHR '':''" "uri_parse target = None"
  shows "http_parse_request_line (request_line m target minor) = None"
  using http_parse_request_line_fails[OF assms(1,2,4,5), of minor] assms by (simp add: uri_parse_dangling_def)

theorem http_parse_request_line_double_free_witness:
  "http_parse_request_line (request_line ''GET'' ''http://h:0/'' 0) = None"
proof -
  have "(\<forall>c \<in> set ''GET''. is_token_char c) \<and> (\<forall>c \<in> set ''http://h:0/''. c \<noteq> NUL \<and> c \<noteq> CHR '' '') \<and>
      is_alpha_char (deref ''http://h:0/'') \<and> deref (dropWhile is_scheme_char ''http://h:0/'') = CHR '':'' \<and> uri_parse ''http://h:0/'' = None"
    by code_simp
  then show ?thesis using http_parse_request_line_double_free[of "''GET''" "''http://h:0/''" 0] by simp
qed

end
