(* ===== verification/Http_Auth.thy ===== *)
theory Http_Auth
  imports Http_Message
begin

text \<open>
  Authentication fields of \<open>ncat/http.c\<close>: the parsers of a challenge (\<open>Proxy-Authenticate\<close>) and of
  credentials (\<open>Proxy-Authorization\<close>), and the choice of the best of several.  The result of a parser
  is \<^const>\<open>None\<close> when it follows a null pointer, \<open>Some None\<close> when it returns \<open>NULL\<close> (the \<open>bail\<close>
  label), and otherwise the structure and the position behind what was read.
\<close>

section \<open>Data\<close>

datatype http_auth_scheme = AUTH_UNKNOWN | AUTH_BASIC | AUTH_DIGEST

datatype http_digest_algorithm = ALGORITHM_MD5 | ALGORITHM_UNKNOWN

datatype http_digest_qop = QOP_NONE | QOP_AUTH | QOP_AUTH_INT

record http_challenge =
  ch_scheme :: http_auth_scheme
  ch_realm :: "string option"
  ch_nonce :: "string option"
  ch_opaque :: "string option"
  ch_algorithm :: http_digest_algorithm
  ch_qop :: u8

record digest_credentials =
  dc_username :: "string option"
  dc_realm :: "string option"
  dc_nonce :: "string option"
  dc_uri :: "string option"
  dc_response :: "string option"
  dc_algorithm :: http_digest_algorithm
  dc_qop :: http_digest_qop
  dc_nc :: "string option"
  dc_cnonce :: "string option"

text \<open>The scheme and the union that goes with it.\<close>

datatype http_credentials = Cred_unknown | Cred_basic "string option" | Cred_digest digest_credentials

fun cred_scheme :: "http_credentials \<Rightarrow> http_auth_scheme" where
  "cred_scheme Cred_unknown = AUTH_UNKNOWN"
| "cred_scheme (Cred_basic _) = AUTH_BASIC"
| "cred_scheme (Cred_digest _) = AUTH_DIGEST"

definition qop_bit :: "http_digest_qop \<Rightarrow> u8" where
  "qop_bit q = (case q of QOP_NONE \<Rightarrow> 0 | QOP_AUTH \<Rightarrow> 1 | QOP_AUTH_INT \<Rightarrow> 2)"

definition http_challenge_init :: http_challenge where
  "http_challenge_init = \<lparr>ch_scheme = AUTH_UNKNOWN, ch_realm = None, ch_nonce = None, ch_opaque = None,
     ch_algorithm = ALGORITHM_MD5, ch_qop = 0\<rparr>"

definition http_credentials_init_basic :: http_credentials where
  "http_credentials_init_basic = Cred_basic None"

definition digest_init :: digest_credentials where
  "digest_init = \<lparr>dc_username = None, dc_realm = None, dc_nonce = None, dc_uri = None, dc_response = None,
     dc_algorithm = ALGORITHM_MD5, dc_qop = QOP_NONE, dc_nc = None, dc_cnonce = None\<rparr>"

definition http_credentials_init_digest :: http_credentials where
  "http_credentials_init_digest = Cred_digest digest_init"

section \<open>Parameters\<close>

unbundle bit_operations_syntax

definition qop_flags :: "u8 \<Rightarrow> string list \<Rightarrow> u8" where
  "qop_flags q tokens = foldl (\<lambda>q t.
     if str_equal_i t ''auth'' then q OR qop_bit QOP_AUTH
     else if str_equal_i t ''auth-int'' then q OR qop_bit QOP_AUTH_INT else q) q tokens"

text \<open>A member that may be given once only: \<open>Some None\<close> if it is set already.\<close>

definition set_once :: "string option \<Rightarrow> string option \<Rightarrow> (string \<Rightarrow> 'a) \<Rightarrow> 'a option option" where
  "set_once old val upd = (if old \<noteq> None then Some None else do { v \<leftarrow> val; Some (Some (upd v)) })"

definition challenge_param :: "http_challenge \<Rightarrow> string \<Rightarrow> string option \<Rightarrow> http_challenge option option" where
  "challenge_param ch name val =
     (if str_equal_i name ''realm'' then do { v \<leftarrow> val; Some (Some (ch\<lparr>ch_realm := Some v\<rparr>)) }
      else if ch_scheme ch = AUTH_DIGEST then
        if str_equal_i name ''nonce'' then set_once (ch_nonce ch) val (\<lambda>v. ch\<lparr>ch_nonce := Some v\<rparr>)
        else if str_equal_i name ''opaque'' then set_once (ch_opaque ch) val (\<lambda>v. ch\<lparr>ch_opaque := Some v\<rparr>)
        else if str_equal_i name ''algorithm'' then do {
          v \<leftarrow> val;
          Some (Some (ch\<lparr>ch_algorithm := (if str_equal_i v ''MD5'' then ALGORITHM_MD5 else ALGORITHM_UNKNOWN)\<rparr>)) }
        else if str_equal_i name ''qop'' then do {
          v \<leftarrow> val;
          case read_token_list v [] of None \<Rightarrow> Some None
          | Some (tokens, tmp) \<Rightarrow>
              if deref tmp \<noteq> NUL then Some None
              else Some (Some (ch\<lparr>ch_qop := qop_flags (ch_qop ch) tokens\<rparr>)) }
        else Some (Some ch)
      else Some (Some ch))"

definition credentials_param :: "digest_credentials \<Rightarrow> string \<Rightarrow> string option \<Rightarrow> digest_credentials option option" where
  "credentials_param dc name val =
     (if str_equal_i name ''username'' then set_once (dc_username dc) val (\<lambda>v. dc\<lparr>dc_username := Some v\<rparr>)
      else if str_equal_i name ''realm'' then set_once (dc_realm dc) val (\<lambda>v. dc\<lparr>dc_realm := Some v\<rparr>)
      else if str_equal_i name ''nonce'' then set_once (dc_nonce dc) val (\<lambda>v. dc\<lparr>dc_nonce := Some v\<rparr>)
      else if str_equal_i name ''uri'' then set_once (dc_uri dc) val (\<lambda>v. dc\<lparr>dc_uri := Some v\<rparr>)
      else if str_equal_i name ''response'' then set_once (dc_response dc) val (\<lambda>v. dc\<lparr>dc_response := Some v\<rparr>)
      else if str_equal_i name ''algorithm'' then do {
        v \<leftarrow> val;
        Some (Some (dc\<lparr>dc_algorithm := (if str_equal_i v ''MD5'' then ALGORITHM_MD5 else ALGORITHM_MD5)\<rparr>)) }
      else if str_equal_i name ''qop'' then do {
        v \<leftarrow> val;
        Some (Some (dc\<lparr>dc_qop := (if str_equal_i v ''auth'' then QOP_AUTH
          else if str_equal_i v ''auth-int'' then QOP_AUTH_INT else QOP_NONE)\<rparr>)) }
      else if str_equal_i name ''cnonce'' then set_once (dc_cnonce dc) val (\<lambda>v. dc\<lparr>dc_cnonce := Some v\<rparr>)
      else if str_equal_i name ''nc'' then set_once (dc_nc dc) val (\<lambda>v. dc\<lparr>dc_nc := Some v\<rparr>)
      else Some (Some dc))"

abbreviation skip_space :: "string \<Rightarrow> string" where
  "skip_space s \<equiv> dropWhile is_space_char s"

text \<open>The end of a parameter: \<open>None\<close> when nothing follows a comma.\<close>

definition next_param :: "string \<Rightarrow> string option" where
  "next_param p0 =
     (let p = skip_space p0 in
      if deref p = CHR '','' then let p = skip_space (tl p) in if deref p = NUL then None else Some p
      else Some p)"

section \<open>Challenges\<close>

lemma qs_loop_le: "qs_loop u b = Some (w, r) \<Longrightarrow> length r \<le> length u"
proof (induction u b arbitrary: w r rule: qs_loop.induct)
  case (1 s buf)
  let ?t = "dropWhile qs_plain s"
  have dl: "length ?t \<le> length s" by (rule length_dropWhile_le)
  show ?case
  proof (cases "deref s = QUOTE")
    case True
    then show ?thesis using "1.prems" by (subst (asm) qs_loop.simps) auto
  next
    case False
    have ok: "\<not> (?t = [] \<or> (\<exists>c \<in> set (takeWhile qs_plain s). is_ctl_char c))"
      using "1.prems" False by (subst (asm) qs_loop.simps) (auto simp: Let_def split: if_splits)
    show ?thesis
    proof (cases "deref ?t = BACKSLASH")
      case True
      then have "length r \<le> length (tl (tl ?t))"
        using "1.prems" False ok "1.IH"(1)[OF False refl refl ok refl True refl]
        by (subst (asm) qs_loop.simps) (auto simp: Let_def split: if_splits)
      then show ?thesis using dl by simp
    next
      case nb: False
      then have "length r \<le> length ?t"
        using "1.prems" False ok "1.IH"(2)[OF False refl refl ok refl nb]
        by (subst (asm) qs_loop.simps) (auto simp: Let_def split: if_splits)
      then show ?thesis using dl by simp
    qed
  qed
qed

lemma read_token_or_quoted_string_le:
  assumes "read_token_or_quoted_string s = Some (v, t)"
  shows "length t \<le> length s"
proof -
  let ?s = "skip_space s"
  have l: "length (skip_space u) \<le> length u" for u by (rule length_dropWhile_le)
  consider "read_quoted_string ?s = Some (v, t)" | tok where "read_token ?s = Some (tok, t)"
    using assms by (auto simp: read_token_or_quoted_string_def Let_def split: if_splits)
  then show ?thesis
  proof cases
    case 1
    then have "qs_loop (tl (skip_space ?s)) None = Some (v, t)"
      by (auto simp: read_quoted_string_def Let_def split: if_splits)
    then have "length t \<le> length (tl (skip_space ?s))" by (rule qs_loop_le)
    then show ?thesis using l[of ?s] l[of s] by simp
  next
    case 2
    then show ?thesis using read_token_shorter[of ?s tok t] l[of s] by simp
  qed
qed

lemma next_param_le: "next_param p = Some q \<Longrightarrow> length q \<le> length p"
proof -
  assume a: "next_param p = Some q"
  have l: "length (skip_space u) \<le> length u" for u by (rule length_dropWhile_le)
  show ?thesis using a l[of p] l[of "tl (skip_space p)"] by (auto simp: next_param_def Let_def split: if_splits)
qed

text \<open>One parameter: \<open>None\<close> for \<open>bail\<close>, \<open>Inl ()\<close> for a token that no equals sign follows, otherwise the
  name, the value and the position behind the value.\<close>

definition read_param :: "string \<Rightarrow> (unit + string \<times> string option \<times> string) option" where
  "read_param s =
     (case read_token s of None \<Rightarrow> None
      | Some (name, p) \<Rightarrow>
        let p = skip_space p in
        if deref p \<noteq> CHR ''='' then Some (Inl ())
        else case read_token_or_quoted_string (skip_space (tl p)) of None \<Rightarrow> None
          | Some (val, p) \<Rightarrow> Some (Inr (name, val, p)))"

lemma read_param_shorter: "read_param s = Some (Inr (n, v, p)) \<Longrightarrow> length p < length s"
proof -
  assume a: "read_param s = Some (Inr (n, v, p))"
  obtain p0 where p0: "read_token s = Some (n, p0)"
    "read_token_or_quoted_string (skip_space (tl (skip_space p0))) = Some (v, p)"
    using a by (auto simp: read_param_def Let_def split: option.splits if_splits)
  have l: "length (skip_space u) \<le> length u" for u by (rule length_dropWhile_le)
  show ?thesis using read_token_shorter[OF p0(1)] read_token_or_quoted_string_le[OF p0(2)]
      l[of p0] l[of "tl (skip_space p0)"] by simp
qed

function challenge_loop :: "string \<Rightarrow> http_challenge \<Rightarrow> (http_challenge \<times> string) option option" where
  "challenge_loop s ch =
     (if deref s = NUL then Some (Some (ch, s))
      else case read_param s of None \<Rightarrow> Some None
      | Some (Inl _) \<Rightarrow> Some (Some (ch, s))
      | Some (Inr (name, val, p)) \<Rightarrow>
        (case challenge_param ch name val of None \<Rightarrow> None
         | Some None \<Rightarrow> Some None
         | Some (Some ch') \<Rightarrow>
           (case next_param p of None \<Rightarrow> Some None | Some s' \<Rightarrow> challenge_loop s' ch')))"
  by pat_completeness auto
termination
  by (relation "measure (\<lambda>(s, ch). length s)") (auto dest!: read_param_shorter next_param_le)

declare challenge_loop.simps [simp del]

definition scheme_of :: "string \<Rightarrow> http_auth_scheme" where
  "scheme_of s = (if str_equal_i s ''Basic'' then AUTH_BASIC
     else if str_equal_i s ''Digest'' then AUTH_DIGEST else AUTH_UNKNOWN)"

definition http_read_challenge :: "string \<Rightarrow> (http_challenge \<times> string) option option" where
  "http_read_challenge s =
     (case read_token s of None \<Rightarrow> Some None
      | Some (sch, p) \<Rightarrow>
        let ch = http_challenge_init\<lparr>ch_scheme := scheme_of sch\<rparr>; s = skip_space p in
        if deref s = CHR '','' then
          let s = skip_space (tl s) in if deref s = NUL then Some None else Some (Some (ch, s))
        else challenge_loop s ch)"

section \<open>Credentials\<close>

function credentials_loop :: "string \<Rightarrow> digest_credentials \<Rightarrow> (digest_credentials \<times> string) option option" where
  "credentials_loop s dc =
     (if deref s = NUL then Some (Some (dc, s))
      else case read_param s of None \<Rightarrow> Some None
      | Some (Inl _) \<Rightarrow> Some None
      | Some (Inr (name, val, p)) \<Rightarrow>
        (case credentials_param dc name val of None \<Rightarrow> None
         | Some None \<Rightarrow> Some None
         | Some (Some dc') \<Rightarrow>
           (case next_param p of None \<Rightarrow> Some None | Some s' \<Rightarrow> credentials_loop s' dc')))"
  by pat_completeness auto
termination
  by (relation "measure (\<lambda>(s, ch). length s)") (auto dest!: read_param_shorter next_param_le)

declare credentials_loop.simps [simp del]

definition is_base64_char :: "char \<Rightarrow> bool" where
  "is_base64_char c \<longleftrightarrow> is_alpha_char c \<or> is_digit_char c \<or> c = CHR ''+'' \<or> c = CHR ''/'' \<or> c = CHR ''=''"

definition http_read_credentials :: "string \<Rightarrow> (http_credentials \<times> string) option option" where
  "http_read_credentials s =
     (case read_token s of None \<Rightarrow> Some None
      | Some (sch, p) \<Rightarrow>
        let s = skip_space p in
        (case scheme_of sch of
           AUTH_BASIC \<Rightarrow>
             let p = dropWhile is_base64_char s in Some (Some (Cred_basic (Some (upto_ptr s p)), skip_space p))
         | AUTH_DIGEST \<Rightarrow> map_option (map_option (\<lambda>(dc, t). (Cred_digest dc, t))) (credentials_loop s digest_init)
         | AUTH_UNKNOWN \<Rightarrow> Some None))"

section \<open>The best of several\<close>

text \<open>With \<open>HAVE_HTTP_DIGEST\<close>.\<close>

definition auth_scheme_is_better :: "http_auth_scheme \<Rightarrow> http_auth_scheme \<Rightarrow> bool" where
  "auth_scheme_is_better a b =
     (if b = AUTH_DIGEST then False
      else if b = AUTH_BASIC then a = AUTH_DIGEST
      else a = AUTH_BASIC \<or> a = AUTH_DIGEST)"

lemma challenge_loop_cases:
  assumes "challenge_loop s ch = Some (Some (ch', t))"
  shows "t = s \<or> (\<exists>n v p ch1 s'. read_param s = Some (Inr (n, v, p)) \<and> challenge_param ch n v = Some (Some ch1) \<and>
    next_param p = Some s' \<and> challenge_loop s' ch1 = Some (Some (ch', t)) \<and> deref s \<noteq> NUL)"
proof (cases "deref s = NUL")
  case False
  then obtain x where x: "read_param s = Some x" using assms by (subst (asm) challenge_loop.simps) (auto split: option.splits)
  show ?thesis
  proof (cases x)
    case (Inl u)
    then show ?thesis using assms False x by (subst (asm) challenge_loop.simps) simp
  next
    case (Inr y)
    then show ?thesis using assms False x
      by (subst (asm) challenge_loop.simps) (cases y, simp split: option.splits)
  qed
qed (use assms in \<open>subst (asm) challenge_loop.simps, simp\<close>)

lemma challenge_loop_le: "challenge_loop s ch = Some (Some (ch', t)) \<Longrightarrow> length t \<le> length s"
proof (induction "length s" arbitrary: s ch rule: less_induct)
  case less
  from challenge_loop_cases[OF less.prems] show ?case
  proof (elim disjE exE conjE)
    fix n v p ch1 s'
    assume a: "read_param s = Some (Inr (n, v, p))" "next_param p = Some s'" "challenge_loop s' ch1 = Some (Some (ch', t))"
    have l: "length s' < length s" using read_param_shorter[OF a(1)] next_param_le[OF a(2)] by simp
    show ?thesis using less.hyps[OF l a(3)] l by simp
  qed simp
qed

lemma credentials_loop_cases:
  assumes "credentials_loop s dc = Some (Some (dc', t))"
  shows "t = s \<or> (\<exists>n v p dc1 s'. read_param s = Some (Inr (n, v, p)) \<and> credentials_param dc n v = Some (Some dc1) \<and>
    next_param p = Some s' \<and> credentials_loop s' dc1 = Some (Some (dc', t)) \<and> deref s \<noteq> NUL)"
proof (cases "deref s = NUL")
  case False
  then obtain x where x: "read_param s = Some x" using assms by (subst (asm) credentials_loop.simps) (auto split: option.splits)
  show ?thesis
  proof (cases x)
    case (Inl u)
    then show ?thesis using assms False x by (subst (asm) credentials_loop.simps) simp
  next
    case (Inr y)
    then show ?thesis using assms False x
      by (subst (asm) credentials_loop.simps) (cases y, simp split: option.splits)
  qed
qed (use assms in \<open>subst (asm) credentials_loop.simps, simp\<close>)

lemma credentials_loop_le: "credentials_loop s dc = Some (Some (dc', t)) \<Longrightarrow> length t \<le> length s"
proof (induction "length s" arbitrary: s dc rule: less_induct)
  case less
  from credentials_loop_cases[OF less.prems] show ?case
  proof (elim disjE exE conjE)
    fix n v p dc1 s'
    assume a: "read_param s = Some (Inr (n, v, p))" "next_param p = Some s'" "credentials_loop s' dc1 = Some (Some (dc', t))"
    have l: "length s' < length s" using read_param_shorter[OF a(1)] next_param_le[OF a(2)] by simp
    show ?thesis using less.hyps[OF l a(3)] l by simp
  qed simp
qed

lemma http_read_challenge_shorter: "http_read_challenge s = Some (Some (ch, t)) \<Longrightarrow> length t < length s"
proof -
  assume a: "http_read_challenge s = Some (Some (ch, t))"
  obtain sch p where p: "read_token s = Some (sch, p)" using a by (auto simp: http_read_challenge_def split: option.splits)
  have l: "length (skip_space u) \<le> length u" for u by (rule length_dropWhile_le)
  have "length t \<le> length (skip_space p)"
    using a p l[of "tl (skip_space p)"]
    by (auto simp: http_read_challenge_def Let_def dest!: challenge_loop_le split: if_splits)
  then show ?thesis using read_token_shorter[OF p] l[of p] by simp
qed

lemma http_read_credentials_shorter: "http_read_credentials s = Some (Some (cr, t)) \<Longrightarrow> length t < length s"
proof -
  assume a: "http_read_credentials s = Some (Some (cr, t))"
  obtain sch p where p: "read_token s = Some (sch, p)" using a by (auto simp: http_read_credentials_def split: option.splits)
  have l: "length (skip_space u) \<le> length u" for u by (rule length_dropWhile_le)
  have l2: "length (dropWhile is_base64_char u) \<le> length u" for u by (rule length_dropWhile_le)
  have "length t \<le> length (skip_space p)"
    using a p l[of "dropWhile is_base64_char (skip_space p)"] l2[of "skip_space p"]
    by (auto simp: http_read_credentials_def Let_def dest!: credentials_loop_le split: http_auth_scheme.splits)
  then show ?thesis using read_token_shorter[OF p] l[of p] by simp
qed

text \<open>The inner loops over the values of one field, and the outer loops over the fields.\<close>

function challenges_loop :: "string \<Rightarrow> http_challenge \<Rightarrow> http_challenge option option" where
  "challenges_loop tmp ch =
     (if deref tmp = NUL then Some (Some ch)
      else case http_read_challenge tmp of None \<Rightarrow> None
      | Some None \<Rightarrow> Some None
      | Some (Some (info, tmp')) \<Rightarrow>
          challenges_loop tmp' (if auth_scheme_is_better (ch_scheme info) (ch_scheme ch) then info else ch))"
  by pat_completeness auto
termination
  by (relation "measure (\<lambda>(s, ch). length s)") (auto dest!: http_read_challenge_shorter)

function credentials_values_loop :: "string \<Rightarrow> http_credentials \<Rightarrow> http_credentials option option" where
  "credentials_values_loop tmp cr =
     (if deref tmp = NUL then Some (Some cr)
      else case http_read_credentials tmp of None \<Rightarrow> None
      | Some None \<Rightarrow> Some None
      | Some (Some (info, tmp')) \<Rightarrow>
          credentials_values_loop tmp' (if auth_scheme_is_better (cred_scheme info) (cred_scheme cr) then info else cr))"
  by pat_completeness auto
termination
  by (relation "measure (\<lambda>(s, ch). length s)") (auto dest!: http_read_credentials_shorter)

declare challenges_loop.simps [simp del] credentials_values_loop.simps [simp del]

lemma http_header_next_shorter: "http_header_next h p name = x # r \<Longrightarrow> length (http_header_next h (Some (x # r)) name) < length (x # r)"
  using length_dropWhile_le[of "\<lambda>n. \<not> field_name_equal (hname n) name" r]
  by (simp add: http_header_next_def le_imp_less_Suc)

function proxy_challenge_loop :: "http_header list \<Rightarrow> http_header list \<Rightarrow> http_challenge \<Rightarrow> http_challenge option option" where
  "proxy_challenge_loop header [] ch = Some (Some ch)"
| "proxy_challenge_loop header (p # ps) ch =
     (case challenges_loop (hvalue p) ch of None \<Rightarrow> None | Some None \<Rightarrow> Some None
      | Some (Some ch') \<Rightarrow>
          proxy_challenge_loop header (http_header_next header (Some (p # ps)) ''Proxy-Authenticate'') ch')"
  by pat_completeness auto
termination
  by (relation "measure (\<lambda>(h, p, ch). length p)")
    (auto simp: http_header_next_def le_imp_less_Suc length_dropWhile_le)

definition http_header_get_proxy_challenge :: "http_header list \<Rightarrow> http_challenge option option" where
  "http_header_get_proxy_challenge header =
     proxy_challenge_loop header (http_header_next header None ''Proxy-Authenticate'') http_challenge_init"

function proxy_credentials_loop :: "http_header list \<Rightarrow> http_header list \<Rightarrow> http_credentials \<Rightarrow> http_credentials option option" where
  "proxy_credentials_loop header [] cr = Some (Some cr)"
| "proxy_credentials_loop header (p # ps) cr =
     (case credentials_values_loop (hvalue p) cr of None \<Rightarrow> None | Some None \<Rightarrow> Some None
      | Some (Some cr') \<Rightarrow>
          proxy_credentials_loop header (http_header_next header (Some (p # ps)) ''Proxy-Authorization'') cr')"
  by pat_completeness auto
termination
  by (relation "measure (\<lambda>(h, p, ch). length p)")
    (auto simp: http_header_next_def le_imp_less_Suc length_dropWhile_le)

definition http_header_get_proxy_credentials :: "http_header list \<Rightarrow> http_credentials option option" where
  "http_header_get_proxy_credentials header =
     proxy_credentials_loop header (http_header_next header None ''Proxy-Authorization'') Cred_unknown"


section \<open>Reading printed parameters\<close>

lemma skip_space_stop: "\<not> is_space_char (deref s) \<Longrightarrow> skip_space s = s"
  by (cases s) auto

lemma eq_chars [simp]: "\<not> is_token_char CHR ''=''" "\<not> is_space_char CHR ''=''" "\<not> is_space_char CHR '',''"
    "\<not> is_token_char CHR '',''" "\<not> is_token_char CHR '' ''"
  by code_simp+

lemma read_param_text:
  assumes "n \<noteq> []" "\<forall>c \<in> set n. is_token_char c" "\<not> is_space_char (deref q)" "read_token_or_quoted_string q = Some (v, p)"
  shows "read_param (n @ CHR ''='' # q) = Some (Inr (n, v, p))"
  using assms read_token_append[of n "CHR ''='' # q"] by (simp add: read_param_def skip_space_stop)

lemma next_param_comma:
  assumes "\<not> is_space_char (deref tail)" "deref tail \<noteq> NUL"
  shows "next_param ('', '' @ tail) = Some tail"
  using assms by (simp add: next_param_def skip_space_stop Let_def)

lemma next_param_end: "next_param [] = Some []"
  by (simp add: next_param_def NUL_def)

lemma challenge_loop_end: "challenge_loop [] ch = Some (Some (ch, []))"
  by (subst challenge_loop.simps) simp

lemma credentials_loop_end: "credentials_loop [] dc = Some (Some (dc, []))"
  by (subst credentials_loop.simps) simp

text \<open>\<open>param n q v\<close>: a parameter with the name \<open>n\<close> and the text \<open>q\<close> of the value \<open>v\<close>.\<close>

definition param_ok :: "string \<Rightarrow> string \<Rightarrow> string \<Rightarrow> bool" where
  "param_ok n q v \<longleftrightarrow> n \<noteq> [] \<and> (\<forall>c \<in> set n. is_token_char c) \<and> \<not> is_space_char (deref (q @ ''x'')) \<and>
     (\<forall>rest. \<not> is_token_char (deref rest) \<longrightarrow> read_token_or_quoted_string (q @ rest) = Some (Some v, rest))"

lemma param_okD:
  assumes "param_ok n q v"
  shows "n \<noteq> []" "\<forall>c \<in> set n. is_token_char c" "q \<noteq> []" "\<not> is_space_char (deref (q @ s))"
    "\<not> is_token_char (deref rest) \<Longrightarrow> read_token_or_quoted_string (q @ rest) = Some (Some v, rest)"
proof -
  show "n \<noteq> []" "\<forall>c \<in> set n. is_token_char c"
    "\<not> is_token_char (deref rest) \<Longrightarrow> read_token_or_quoted_string (q @ rest) = Some (Some v, rest)"
    using assms by (auto simp: param_ok_def)
  have "read_token_or_quoted_string [] = None" by code_simp
  moreover have "\<not> is_token_char (deref [])" by code_simp
  ultimately show q: "q \<noteq> []" using assms by (auto simp: param_ok_def)
  show "\<not> is_space_char (deref (q @ s))" using assms q by (cases q) (auto simp: param_ok_def)
qed

lemma param_head: "param_ok n q v \<Longrightarrow> deref (n @ s) \<noteq> NUL \<and> \<not> is_space_char (deref (n @ s))"
  using param_okD(1,2) token_char_props by (cases n) auto

lemma challenge_loop_param:
  assumes "param_ok n q v" "challenge_param ch n (Some v) = Some (Some ch')"
    "tail \<noteq> [] \<Longrightarrow> \<not> is_space_char (deref tail) \<and> deref tail \<noteq> NUL"
  shows "challenge_loop (n @ CHR ''='' # q @ (if tail = [] then [] else '', '' @ tail)) ch = challenge_loop tail ch'"
proof -
  let ?r = "if tail = [] then [] else '', '' @ tail"
  have "read_param (n @ CHR ''='' # q @ ?r) = Some (Inr (n, Some v, ?r))"
    using param_okD[OF assms(1)] by (intro read_param_text) auto
  moreover have "next_param ?r = Some tail" using assms(3) next_param_comma next_param_end by auto
  ultimately show ?thesis using assms(2) param_head[OF assms(1)] by (subst challenge_loop.simps) simp
qed

lemma credentials_loop_param:
  assumes "param_ok n q v" "credentials_param dc n (Some v) = Some (Some dc')"
    "tail \<noteq> [] \<Longrightarrow> \<not> is_space_char (deref tail) \<and> deref tail \<noteq> NUL"
  shows "credentials_loop (n @ CHR ''='' # q @ (if tail = [] then [] else '', '' @ tail)) dc = credentials_loop tail dc'"
proof -
  let ?r = "if tail = [] then [] else '', '' @ tail"
  have "read_param (n @ CHR ''='' # q @ ?r) = Some (Inr (n, Some v, ?r))"
    using param_okD[OF assms(1)] by (intro read_param_text) auto
  moreover have "next_param ?r = Some tail" using assms(3) next_param_comma next_param_end by auto
  ultimately show ?thesis using assms(2) param_head[OF assms(1)] by (subst credentials_loop.simps) simp
qed

text \<open>A list of parameters, printed with a comma and a blank between them.\<close>

fun params_text :: "(string \<times> string \<times> string) list \<Rightarrow> string" where
  "params_text [] = []"
| "params_text ((n, q, v) # ps) = n @ CHR ''='' # q @ (if params_text ps = [] then [] else '', '' @ params_text ps)"

fun param_fold :: "('a \<Rightarrow> string \<Rightarrow> string option \<Rightarrow> 'a option option) \<Rightarrow> 'a \<Rightarrow> (string \<times> string \<times> string) list \<Rightarrow> 'a option" where
  "param_fold f a [] = Some a"
| "param_fold f a ((n, q, v) # ps) = (case f a n (Some v) of Some (Some a') \<Rightarrow> param_fold f a' ps | _ \<Rightarrow> None)"

lemma params_text_head:
  "\<forall>(n, q, v) \<in> set ps. param_ok n q v \<Longrightarrow> params_text ps \<noteq> [] \<Longrightarrow>
   \<not> is_space_char (deref (params_text ps)) \<and> deref (params_text ps) \<noteq> NUL"
  by (cases ps) (auto dest: param_head)

lemma challenge_loop_params:
  assumes "\<forall>(n, q, v) \<in> set ps. param_ok n q v" "param_fold challenge_param ch ps = Some ch'"
  shows "challenge_loop (params_text ps) ch = Some (Some (ch', []))"
  using assms
proof (induction ps arbitrary: ch)
  case (Cons x ps)
  obtain n q v where x: "x = (n, q, v)" by (metis prod_cases3)
  obtain ch1 where c: "challenge_param ch n (Some v) = Some (Some ch1)" "param_fold challenge_param ch1 ps = Some ch'"
    using Cons.prems(2) by (auto simp: x split: option.splits)
  show ?case using challenge_loop_param[of n q v ch ch1 "params_text ps"] c Cons params_text_head[of ps]
    by (auto simp: x)
qed (simp add: challenge_loop_end)

lemma credentials_loop_params:
  assumes "\<forall>(n, q, v) \<in> set ps. param_ok n q v" "param_fold credentials_param dc ps = Some dc'"
  shows "credentials_loop (params_text ps) dc = Some (Some (dc', []))"
  using assms
proof (induction ps arbitrary: dc)
  case (Cons x ps)
  obtain n q v where x: "x = (n, q, v)" by (metis prod_cases3)
  obtain dc1 where c: "credentials_param dc n (Some v) = Some (Some dc1)" "param_fold credentials_param dc1 ps = Some dc'"
    using Cons.prems(2) by (auto simp: x split: option.splits)
  show ?case using credentials_loop_param[of n q v dc dc1 "params_text ps"] c Cons params_text_head[of ps]
    by (auto simp: x)
qed (simp add: credentials_loop_end)

section \<open>The best challenge\<close>

fun rank :: "http_auth_scheme \<Rightarrow> nat" where
  "rank AUTH_UNKNOWN = 0"
| "rank AUTH_BASIC = 1"
| "rank AUTH_DIGEST = 2"

lemma auth_scheme_is_better_rank: "auth_scheme_is_better a b \<longleftrightarrow> rank b < rank a"
  by (cases a; cases b) (auto simp: auth_scheme_is_better_def)

text \<open>The challenges that a field value offers.\<close>

inductive offered :: "string \<Rightarrow> http_challenge \<Rightarrow> bool" where
  here: "deref s \<noteq> NUL \<Longrightarrow> http_read_challenge s = Some (Some (c, t)) \<Longrightarrow> offered s c"
| later: "deref s \<noteq> NUL \<Longrightarrow> http_read_challenge s = Some (Some (c, t)) \<Longrightarrow> offered t c' \<Longrightarrow> offered s c'"

inductive_simps offered_iff: "offered s c"

lemma challenges_loop_best:
  "challenges_loop tmp ch = Some (Some ch') \<Longrightarrow>
   (\<forall>c. c = ch \<or> offered tmp c \<longrightarrow> rank (ch_scheme c) \<le> rank (ch_scheme ch')) \<and> (ch' = ch \<or> offered tmp ch')"
proof (induction tmp ch rule: challenges_loop.induct)
  case (1 tmp ch)
  show ?case
  proof (cases "deref tmp = NUL")
    case True
    moreover have "\<not> offered tmp c" for c using True offered_iff[of tmp c] by simp
    ultimately show ?thesis using "1.prems" by (subst (asm) challenges_loop.simps) simp
  next
    case False
    then obtain info t where r: "http_read_challenge tmp = Some (Some (info, t))"
      using "1.prems" by (subst (asm) challenges_loop.simps) (auto split: option.splits)
    define ch1 where "ch1 = (if auth_scheme_is_better (ch_scheme info) (ch_scheme ch) then info else ch)"
    have c1: "rank (ch_scheme ch) \<le> rank (ch_scheme ch1)" "rank (ch_scheme info) \<le> rank (ch_scheme ch1)"
      by (auto simp: ch1_def auth_scheme_is_better_rank)
    have "challenges_loop t ch1 = Some (Some ch')"
      using "1.prems" False r unfolding ch1_def by (subst (asm) challenges_loop.simps) simp
    then have ih: "\<forall>c. c = ch1 \<or> offered t c \<longrightarrow> rank (ch_scheme c) \<le> rank (ch_scheme ch')" "ch' = ch1 \<or> offered t ch'"
      using "1.IH"[OF False r refl refl] unfolding ch1_def by blast+
    have off: "offered tmp c \<longleftrightarrow> c = info \<or> offered t c" for c
      using False r offered_iff[of tmp c] by auto
    show ?thesis using ih c1 unfolding off by (auto simp: ch1_def split: if_splits intro: order_trans)
  qed
qed

lemma proxy_challenge_loop_best:
  assumes "proxy_challenge_loop header (dropWhile (\<lambda>n. \<not> field_name_equal (hname n) ''Proxy-Authenticate'') l) ch = Some (Some ch')"
  shows "rank (ch_scheme ch) \<le> rank (ch_scheme ch') \<and>
    (\<forall>p c. p \<in> set l \<longrightarrow> field_name_equal (hname p) ''Proxy-Authenticate'' \<longrightarrow> offered (hvalue p) c \<longrightarrow>
      rank (ch_scheme c) \<le> rank (ch_scheme ch')) \<and>
    (ch' = ch \<or> (\<exists>p \<in> set l. field_name_equal (hname p) ''Proxy-Authenticate'' \<and> offered (hvalue p) ch'))"
  using assms
proof (induction l arbitrary: ch)
  case (Cons x l)
  show ?case
  proof (cases "field_name_equal (hname x) ''Proxy-Authenticate''")
    case True
    obtain ch1 where c: "challenges_loop (hvalue x) ch = Some (Some ch1)"
      "proxy_challenge_loop header (dropWhile (\<lambda>n. \<not> field_name_equal (hname n) ''Proxy-Authenticate'') l) ch1 = Some (Some ch')"
      using Cons.prems True by (auto simp: http_header_next_def split: option.splits)
    note a = challenges_loop_best[OF c(1)] and b = Cons.IH[OF c(2)]
    show ?thesis using a b True by (auto intro: order_trans)
  next
    case False
    then show ?thesis using Cons by auto
  qed
qed simp

text \<open>The challenge chosen from a header is one that a \<open>Proxy-Authenticate\<close> field offers (or none
  was offered), and no field offers one with a better scheme: Digest is preferred to Basic and Basic
  to an unknown scheme.\<close>

theorem proxy_challenge_best:
  assumes "http_header_get_proxy_challenge header = Some (Some ch)"
  shows "(\<forall>p c. p \<in> set header \<longrightarrow> field_name_equal (hname p) ''Proxy-Authenticate'' \<longrightarrow> offered (hvalue p) c \<longrightarrow>
      rank (ch_scheme c) \<le> rank (ch_scheme ch)) \<and>
    (ch = http_challenge_init \<or>
      (\<exists>p \<in> set header. field_name_equal (hname p) ''Proxy-Authenticate'' \<and> offered (hvalue p) ch))"
  using proxy_challenge_loop_best[of header header http_challenge_init ch] assms
  by (simp add: http_header_get_proxy_challenge_def http_header_next_def)

definition two_schemes :: "http_header list" where
  "two_schemes = [\<lparr>hname = ''Proxy-Authenticate'', hvalue = ''Digest nonce=a, Basic realm=b''\<rparr>]"

theorem proxy_challenge_best_witness:
  "\<exists>ch. http_header_get_proxy_challenge two_schemes = Some (Some ch) \<and> ch_scheme ch = AUTH_DIGEST \<and>
    (\<forall>c. offered ''Digest nonce=a, Basic realm=b'' c \<longrightarrow> rank (ch_scheme c) \<le> rank (ch_scheme ch))"
proof -
  let ?ch = "http_challenge_init\<lparr>ch_scheme := AUTH_DIGEST, ch_nonce := Some ''a''\<rparr>"
  have "http_header_get_proxy_challenge two_schemes = Some (Some ?ch)" by code_simp
  then show ?thesis using proxy_challenge_best[of two_schemes ?ch] by (simp add: two_schemes_def)
qed

text \<open>Credentials whose value is the empty quoted string make the parser follow a null pointer,
  for every member it stores: the string reader returns \<open>NULL\<close> for an empty string.\<close>

theorem empty_quoted_value_faults:
  "list_all (\<lambda>name. http_header_get_proxy_credentials
       [\<lparr>hname = ''Proxy-Authorization'', hvalue = ''Digest '' @ name @ ''='' @ [QUOTE, QUOTE]\<rparr>] = None)
     [''username'', ''realm'', ''nonce'', ''uri'', ''response'', ''algorithm'', ''qop'', ''cnonce'', ''nc'']"
  by code_simp

end
