(* ===== verification/Http_Digest.thy ===== *)
theory Http_Digest
  imports Http_Auth
begin

text \<open>
  Digest authentication of \<open>ncat/http_digest.c\<close>.  MD5 is a parameter \<open>md5\<close> that maps the bytes of all
  updates, one after the other, to the digest; the random bytes, the secret of the server and the time
  of day are arguments.  A function that calls \<open>bye\<close> because the secret was not initialised has the
  result \<^const>\<open>None\<close>.  Proved: the server accepts the answer that the client computes from the server's
  challenge, through both printers and both parsers, and accepts exactly the answers of RFC 2617 to
  nonces made with its own secret.
\<close>

section \<open>Printing\<close>

definition needs_escape :: "char \<Rightarrow> bool" where
  "needs_escape c \<longleftrightarrow> ordc c \<le> 31 \<or> ordc c = 127 \<or> c = BACKSLASH"

function quoted_loop :: "string \<Rightarrow> string" where
  "quoted_loop s =
     (let t = dropWhile (\<lambda>c. \<not> needs_escape c) s in
      upto_ptr s t @ (if t = [] then [] else BACKSLASH # hd t # quoted_loop (tl t)))"
  by pat_completeness auto
termination
proof (relation "measure length", goal_cases)
  case (2 s t)
  have "length t \<le> length s" unfolding 2(1) by (rule length_dropWhile_le)
  moreover have "length (tl t) < length t" using 2(2) by (cases t) simp_all
  ultimately show ?case by simp
qed simp

declare quoted_loop.simps [simp del]

definition append_quoted_string :: "string \<Rightarrow> string" where
  "append_quoted_string s = QUOTE # quoted_loop s @ [QUOTE]"

definition enhex :: "u8 list \<Rightarrow> string" where
  "enhex src = concat (map (\<lambda>b. [hexdigit (unat b div 16), hexdigit (unat b mod 16)]) src)"

section \<open>Nonces\<close>

record timeval =
  tv_sec :: u64
  tv_usec :: u64

text \<open>\<open>%06lu\<close>.\<close>

definition dec6 :: "nat \<Rightarrow> string" where
  "dec6 n = replicate (6 - length (dec n)) CHR ''0'' @ dec n"

text \<open>\<open>Snprintf\<close> keeps at most 31 characters in the buffer of 32.\<close>

definition time_buf :: "timeval \<Rightarrow> string" where
  "time_buf tv = take 31 (dec (unat (tv_sec tv)) @ ''.'' @ dec6 (unat (tv_usec tv)))"

definition make_nonce :: "(string \<Rightarrow> u8 list) \<Rightarrow> string option \<Rightarrow> timeval \<Rightarrow> string option" where
  "make_nonce md5 secret tv = do {
     s \<leftarrow> secret;
     Some (time_buf tv @ ''-'' @ enhex (md5 (s @ '':'' @ time_buf tv))) }"

definition http_digest_init_secret :: "string option \<Rightarrow> int \<times> string option" where
  "http_digest_init_secret rand = (case rand of None \<Rightarrow> (-1, None) | Some s \<Rightarrow> (0, Some s))"

definition make_response :: "(string \<Rightarrow> u8 list) \<Rightarrow> string \<Rightarrow> string \<Rightarrow> string \<Rightarrow> string \<Rightarrow> string \<Rightarrow> string \<Rightarrow>
    http_digest_qop \<Rightarrow> string \<Rightarrow> string \<Rightarrow> string" where
  "make_response md5 username realm password method uri nonce qop nc cnonce =
     (let HA1_hex = enhex (md5 (username @ '':'' @ realm @ '':'' @ password));
          HA2_hex = enhex (md5 (method @ '':'' @ uri)) in
      enhex (md5 (HA1_hex @ '':'' @ nonce @
        (if qop = QOP_AUTH then '':'' @ nc @ '':'' @ cnonce @ '':'' @ ''auth'' else []) @
        '':'' @ HA2_hex)))"

text \<open>\<open>%lu\<close> of \<open>sscanf\<close>: white space, a sign, digits; a value out of range is the largest one, and a
  minus sign negates modulo \<open>2 ^ 64\<close>.\<close>

definition ULONG_MAX :: nat where
  "ULONG_MAX = 2 ^ 64 - 1"

definition scan_lu :: "string \<Rightarrow> (u64 \<times> string) option" where
  "scan_lu s0 =
     (let s = dropWhile isspace s0; neg = (deref s = CHR ''-'');
          d = (if neg \<or> deref s = CHR ''+'' then tl s else s) in
      if \<not> isdigit (deref d) then None
      else
        let v = digits_val (takeWhile isdigit d); rest = dropWhile isdigit d in
        Some (if v > ULONG_MAX then word_of_nat ULONG_MAX else if neg then - word_of_nat v else word_of_nat v, rest))"

definition http_digest_nonce_time :: "string \<Rightarrow> timeval option" where
  "http_digest_nonce_time nonce =
     (case scan_lu nonce of None \<Rightarrow> None
      | Some (sec, p) \<Rightarrow>
        if deref p \<noteq> CHR ''.'' then None
        else (case scan_lu (tl p) of None \<Rightarrow> None | Some (usec, _) \<Rightarrow> Some \<lparr>tv_sec = sec, tv_usec = usec\<rparr>))"

section \<open>The two sides\<close>

text \<open>The outer \<open>option\<close> is \<open>bye\<close>; \<open>now\<close> is \<^const>\<open>None\<close> when \<open>gettimeofday\<close> fails.\<close>

definition http_digest_proxy_authenticate ::
  "(string \<Rightarrow> u8 list) \<Rightarrow> string option \<Rightarrow> timeval option \<Rightarrow> string \<Rightarrow> bool \<Rightarrow> string option option" where
  "http_digest_proxy_authenticate md5 secret now realm stale =
     (case now of None \<Rightarrow> Some None
      | Some tv \<Rightarrow> do {
          nonce \<leftarrow> make_nonce md5 secret tv;
          Some (Some (''Digest realm='' @ append_quoted_string realm @ '', nonce='' @ append_quoted_string nonce @
            '', qop='' @ [QUOTE] @ ''auth'' @ [QUOTE] @ (if stale then '', stale=true'' else []))) })"

unbundle bit_operations_syntax

definition nc_buf :: string where
  "nc_buf = ''00000001''"

definition http_digest_proxy_authorization ::
  "(string \<Rightarrow> u8 list) \<Rightarrow> u8 list option \<Rightarrow> http_challenge \<Rightarrow> string \<Rightarrow> string \<Rightarrow> string \<Rightarrow> string \<Rightarrow> string option" where
  "http_digest_proxy_authorization md5 rand ch username password method uri =
     (case (ch_realm ch, ch_nonce ch) of
        (Some realm, Some nonce) \<Rightarrow>
          if ch_scheme ch \<noteq> AUTH_DIGEST \<or> ch_algorithm ch \<noteq> ALGORITHM_MD5 then None
          else
            let auth = (ch_qop ch AND qop_bit QOP_AUTH \<noteq> 0) in
            if auth \<and> rand = None then None
            else
              let cnonce = (case rand of Some r \<Rightarrow> enhex r | None \<Rightarrow> []); qop = (if auth then QOP_AUTH else QOP_NONE);
                  response = make_response md5 username realm password method uri nonce qop nc_buf cnonce in
              Some ('' Digest'' @ '' username='' @ append_quoted_string username @
                '', realm='' @ append_quoted_string realm @ '', nonce='' @ append_quoted_string nonce @
                '', uri='' @ append_quoted_string uri @
                (if qop = QOP_AUTH then '', qop=auth'' @ '', cnonce='' @ append_quoted_string cnonce @ '', nc='' @ nc_buf else []) @
                '', response='' @ append_quoted_string response @
                (case ch_opaque ch of None \<Rightarrow> [] | Some opaque \<Rightarrow> '', opaque='' @ append_quoted_string opaque) @
                [CR, LF])
      | _ \<Rightarrow> None)"

text \<open>\<^const>\<open>None\<close> is \<open>bye\<close>.\<close>

definition http_digest_check_credentials ::
  "(string \<Rightarrow> u8 list) \<Rightarrow> string option \<Rightarrow> string \<Rightarrow> string \<Rightarrow> string \<Rightarrow> string \<Rightarrow> http_credentials \<Rightarrow> bool option" where
  "http_digest_check_credentials md5 secret username realm password method credentials =
     (case credentials of
        Cred_digest dc \<Rightarrow>
          (case (dc_username dc, dc_realm dc, dc_nonce dc, dc_uri dc, dc_response dc) of
             (Some d_username, Some d_realm, Some d_nonce, Some d_uri, Some d_response) \<Rightarrow>
               if dc_qop dc \<noteq> QOP_NONE \<and> dc_qop dc \<noteq> QOP_AUTH then Some False
               else if dc_qop dc = QOP_AUTH \<and> (dc_nc dc = None \<or> dc_cnonce dc = None) then Some False
               else if username \<noteq> d_username then Some False
               else if realm \<noteq> d_realm then Some False
               else (case http_digest_nonce_time d_nonce of
                   None \<Rightarrow> Some False
                 | Some tv \<Rightarrow> do {
                     nonce \<leftarrow> make_nonce md5 secret tv;
                     if nonce \<noteq> d_nonce then Some False
                     else Some (make_response md5 d_username realm password method d_uri d_nonce (dc_qop dc)
                       (case dc_nc dc of Some x \<Rightarrow> x | None \<Rightarrow> []) (case dc_cnonce dc of Some x \<Rightarrow> x | None \<Rightarrow> []) = d_response) })
           | _ \<Rightarrow> Some False)
      | _ \<Rightarrow> Some False)"

section \<open>Quoted strings\<close>

lemma quoted_loop_simps [simp]:
  "quoted_loop [] = []"
  "quoted_loop (c # s) = (if needs_escape c then BACKSLASH # c # quoted_loop s else c # quoted_loop s)"
proof -
  show "quoted_loop [] = []" by (simp add: quoted_loop.simps)
  have "quoted_loop (c # s) = c # quoted_loop s" if "\<not> needs_escape c"
    using that by (simp add: quoted_loop.simps[of "c # s"] quoted_loop.simps[of s] Let_def upto_ptr_def Suc_diff_le length_dropWhile_le)
  then show "quoted_loop (c # s) = (if needs_escape c then BACKSLASH # c # quoted_loop s else c # quoted_loop s)"
    by (auto simp: quoted_loop.simps[of "c # s"])
qed

definition quotable :: "string \<Rightarrow> bool" where
  "quotable s \<longleftrightarrow> s \<noteq> [] \<and> (\<forall>c \<in> set s. c \<noteq> QUOTE \<and> c \<noteq> NUL)"

lemma qs_loop_quoted:
  assumes "\<forall>c \<in> set s. c \<noteq> QUOTE \<and> c \<noteq> NUL"
  shows "qs_loop (quoted_loop s @ QUOTE # rest) buf = Some (if s = [] then buf else strbuf_add buf s, rest)"
  using assms
proof (induction s arbitrary: buf)
  case Nil
  then show ?case by (subst qs_loop.simps) simp
next
  case (Cons c s)
  have "qs_loop (quoted_loop (c # s) @ QUOTE # rest) buf = qs_loop (quoted_loop s @ QUOTE # rest) (strbuf_add buf [c])"
  proof (cases "needs_escape c")
    case True
    then have "ordc c < 128" by (auto simp: needs_escape_def)
    then show ?thesis using True Cons.prems by (simp add: qs_loop_escape)
  next
    case False
    then have "qs_plain c" "\<not> is_ctl_char c" using Cons.prems by (auto simp: needs_escape_def qs_plain_def is_ctl_char_def)
    then show ?thesis using False by (simp add: qs_loop_plain)
  qed
  then show ?case using Cons by simp
qed

lemma param_ok_quoted:
  assumes "quotable s" "n \<noteq> []" "\<forall>c \<in> set n. is_token_char c"
  shows "param_ok n (append_quoted_string s) s"
  using assms qs_loop_quoted[of s _ None]
  by (auto simp: param_ok_def append_quoted_string_def read_token_or_quoted_string_def read_quoted_string_def quotable_def strbuf_add_def)

lemma param_ok_token:
  assumes "s \<noteq> []" "\<forall>c \<in> set s. is_token_char c" "n \<noteq> []" "\<forall>c \<in> set n. is_token_char c"
  shows "param_ok n s s"
proof -
  obtain c t where s: "s = c # t" using assms(1) by (cases s) auto
  have "\<not> is_space_char c" "c \<noteq> QUOTE"
    using assms(2) token_char_props[of c] s by (auto simp: is_token_char_def is_sep_char_def QUOTE_def NUL_def)
  then show ?thesis using assms read_token_append[of s]
    by (auto simp: param_ok_def s read_token_or_quoted_string_def)
qed


section \<open>The time in a nonce\<close>

lemma not_space_digit: "isdigit c \<Longrightarrow> \<not> isspace c \<and> c \<noteq> CHR ''-'' \<and> c \<noteq> CHR ''+''"
  by (auto simp: isdigit_def isspace_def ordc_def)

lemma scan_lu_digits:
  assumes "ds \<noteq> []" "\<forall>c \<in> set ds. isdigit c" "\<not> isdigit (deref rest)" "digits_val ds \<le> ULONG_MAX"
  shows "scan_lu (ds @ rest) = Some (word_of_nat (digits_val ds), rest)"
proof -
  obtain c t where c: "ds = c # t" using assms(1) by (cases ds) auto
  have "\<not> isspace c" "c \<noteq> CHR ''-''" "c \<noteq> CHR ''+''" "isdigit c" using not_space_digit[of c] assms(2) c by auto
  moreover have "takeWhile isdigit (ds @ rest) = ds" "dropWhile isdigit (ds @ rest) = rest"
    using assms(2,3) by (cases rest; simp add: takeWhile_append2 dropWhile_append2)+
  ultimately show ?thesis using assms(4) by (simp add: scan_lu_def c Let_def)
qed

lemma dec6_props: "\<forall>c \<in> set (dec6 n). isdigit c" "digits_val (dec6 n) = n" "dec6 n \<noteq> []"
proof -
  have z: "isdigit CHR ''0''" "digit_val CHR ''0'' = 0" by (simp_all add: isdigit_def digit_val_def ordc_def)
  show "\<forall>c \<in> set (dec6 n). isdigit c" using dec_digits z by (auto simp: dec6_def)
  show "dec6 n \<noteq> []" by (simp add: dec6_def)
  have "foldl (\<lambda>v c. 10 * v + digit_val c) 0 (replicate k CHR ''0'') = 0" for k
    by (induction k) (simp_all add: z)
  then show "digits_val (dec6 n) = n"
    using digits_val_dec[of n] by (simp add: dec6_def digits_val_def)
qed

lemma time_buf_full:
  assumes "unat (tv_usec tv) < 10 ^ 6"
  shows "time_buf tv = dec (unat (tv_sec tv)) @ ''.'' @ dec6 (unat (tv_usec tv))"
proof -
  have s: "unat (tv_sec tv) < 10 ^ 20" using unat_less_u64[of "tv_sec tv"] by simp
  have "length (dec (unat (tv_sec tv))) \<le> 20" "length (dec (unat (tv_usec tv))) \<le> 6"
    using dec_length[OF s] dec_length[OF assms] by simp_all
  then show ?thesis by (simp add: time_buf_def dec6_def)
qed

lemma nonce_time_nonce:
  assumes "unat (tv_usec tv) < 10 ^ 6" "make_nonce md5 secret tv = Some nonce"
  shows "http_digest_nonce_time nonce = Some tv"
proof -
  obtain h where n: "nonce = dec (unat (tv_sec tv)) @ CHR ''.'' # dec6 (unat (tv_usec tv)) @ CHR ''-'' # h"
    using assms time_buf_full[OF assms(1)] by (auto simp: make_nonce_def bind_eq_Some_conv)
  have nd: "\<not> isdigit CHR ''.''" "\<not> isdigit CHR ''-''" by (simp_all add: isdigit_def ordc_def)
  have u: "unat w \<le> ULONG_MAX" for w :: u64 using unat_less_u64[of w] by (simp add: ULONG_MAX_def)
  have "scan_lu nonce = Some (tv_sec tv, CHR ''.'' # dec6 (unat (tv_usec tv)) @ CHR ''-'' # h)"
    unfolding n using scan_lu_digits[of "dec (unat (tv_sec tv))" "CHR ''.'' # dec6 (unat (tv_usec tv)) @ CHR ''-'' # h"]
      dec_digits nd u[of "tv_sec tv"] by simp
  moreover have "scan_lu (dec6 (unat (tv_usec tv)) @ CHR ''-'' # h) = Some (tv_usec tv, CHR ''-'' # h)"
    using scan_lu_digits[of "dec6 (unat (tv_usec tv))" "CHR ''-'' # h"] dec6_props nd u[of "tv_usec tv"] by simp
  ultimately show ?thesis by (simp add: http_digest_nonce_time_def)
qed

lemma hexdigit_char: "n < 16 \<Longrightarrow> is_token_char (hexdigit n) \<and> hexdigit n \<noteq> QUOTE \<and> hexdigit n \<noteq> NUL"
proof -
  have "\<forall>n \<in> set [0..<16]. is_token_char (hexdigit n) \<and> hexdigit n \<noteq> QUOTE \<and> hexdigit n \<noteq> NUL" by code_simp
  then show "n < 16 \<Longrightarrow> ?thesis" by simp
qed

lemma enhex_chars: "c \<in> set (enhex bs) \<Longrightarrow> c \<noteq> QUOTE \<and> c \<noteq> NUL"
proof -
  assume "c \<in> set (enhex bs)"
  then obtain b :: u8 where "c = hexdigit (unat b div 16) \<or> c = hexdigit (unat b mod 16)" by (auto simp: enhex_def)
  moreover have "unat b div 16 < 16" using unat_less_u8[of b] by simp
  ultimately show ?thesis using hexdigit_char[of "unat b div 16"] hexdigit_char[of "unat b mod 16"] by auto
qed

lemma length_enhex [simp]: "length (enhex bs) = 2 * length bs"
  by (induction bs) (simp_all add: enhex_def)

lemma quotable_enhex: "bs \<noteq> [] \<Longrightarrow> quotable (enhex bs)"
  using enhex_chars length_enhex[of bs] by (auto simp: quotable_def simp del: length_enhex)

lemma quotable_nonce:
  assumes "unat (tv_usec tv) < 10 ^ 6" "make_nonce md5 secret tv = Some nonce"
  shows "quotable nonce"
proof -
  have d: "isdigit c \<Longrightarrow> c \<noteq> QUOTE \<and> c \<noteq> NUL" for c by (auto simp: isdigit_def QUOTE_def NUL_def ordc_def)
  have a: "c \<in> set (dec n) \<Longrightarrow> c \<noteq> QUOTE \<and> c \<noteq> NUL" "c \<in> set (dec6 n) \<Longrightarrow> c \<noteq> QUOTE \<and> c \<noteq> NUL" for c n
    using dec_digits d dec6_props(1) by blast+
  have b: "CHR ''.'' \<noteq> QUOTE" "CHR ''.'' \<noteq> NUL" "CHR ''-'' \<noteq> QUOTE" "CHR ''-'' \<noteq> NUL" by (simp_all add: QUOTE_def NUL_def)
  show ?thesis
    using assms(2) b
    by (auto simp: make_nonce_def bind_eq_Some_conv time_buf_full[OF assms(1)] quotable_def dest: a enhex_chars)
qed

section \<open>Challenge and answer\<close>

lemma param_names:
  "str_equal_i ''realm'' ''realm''" "\<not> str_equal_i ''nonce'' ''realm''" "\<not> str_equal_i ''qop'' ''realm''"
  "\<not> str_equal_i ''stale'' ''realm''" "\<not> str_equal_i ''qop'' ''nonce''" "\<not> str_equal_i ''qop'' ''opaque''"
  "\<not> str_equal_i ''qop'' ''algorithm''" "\<not> str_equal_i ''stale'' ''nonce''" "\<not> str_equal_i ''stale'' ''opaque''"
  "\<not> str_equal_i ''stale'' ''algorithm''" "\<not> str_equal_i ''stale'' ''qop''"
  "\<not> str_equal_i ''realm'' ''username''" "\<not> str_equal_i ''nonce'' ''username''" "\<not> str_equal_i ''uri'' ''username''"
  "\<not> str_equal_i ''uri'' ''realm''" "\<not> str_equal_i ''uri'' ''nonce''" "\<not> str_equal_i ''qop'' ''username''"
  "\<not> str_equal_i ''qop'' ''uri''" "\<not> str_equal_i ''qop'' ''response''"
  "\<not> str_equal_i ''cnonce'' ''username''" "\<not> str_equal_i ''cnonce'' ''realm''" "\<not> str_equal_i ''cnonce'' ''nonce''"
  "\<not> str_equal_i ''cnonce'' ''uri''" "\<not> str_equal_i ''cnonce'' ''response''" "\<not> str_equal_i ''cnonce'' ''algorithm''"
  "\<not> str_equal_i ''cnonce'' ''qop''" "\<not> str_equal_i ''nc'' ''username''" "\<not> str_equal_i ''nc'' ''realm''"
  "\<not> str_equal_i ''nc'' ''nonce''" "\<not> str_equal_i ''nc'' ''uri''" "\<not> str_equal_i ''nc'' ''response''"
  "\<not> str_equal_i ''nc'' ''algorithm''" "\<not> str_equal_i ''nc'' ''qop''" "\<not> str_equal_i ''nc'' ''cnonce''"
  "\<not> str_equal_i ''response'' ''username''" "\<not> str_equal_i ''response'' ''realm''" "\<not> str_equal_i ''response'' ''nonce''"
  "\<not> str_equal_i ''response'' ''uri''"
  by code_simp+

lemma token_names:
  "\<forall>n \<in> set [''realm'', ''nonce'', ''qop'', ''stale'', ''username'', ''uri'', ''cnonce'', ''nc'', ''response'', ''auth'', ''true'', nc_buf, ''Digest''].
     n \<noteq> [] \<and> (\<forall>c \<in> set n. is_token_char c)"
  by code_simp

lemma quotable_auth: "quotable ''auth''" "append_quoted_string ''auth'' = QUOTE # ''auth'' @ [QUOTE]"
  by code_simp+

definition digest_challenge :: "string \<Rightarrow> string \<Rightarrow> http_challenge" where
  "digest_challenge realm nonce = \<lparr>ch_scheme = AUTH_DIGEST, ch_realm = Some realm, ch_nonce = Some nonce,
     ch_opaque = None, ch_algorithm = ALGORITHM_MD5, ch_qop = 1\<rparr>"

lemma read_authenticate:
  assumes r: "quotable realm" and n: "unat (tv_usec tv) < 10 ^ 6" "make_nonce md5 secret tv = Some nonce"
    and t: "http_digest_proxy_authenticate md5 secret (Some tv) realm stale = Some (Some tx)"
  shows "http_read_challenge tx = Some (Some (digest_challenge realm nonce, []))"
proof -
  define ps where "ps = [(''realm'', append_quoted_string realm, realm), (''nonce'', append_quoted_string nonce, nonce),
    (''qop'', append_quoted_string ''auth'', ''auth'')] @ (if stale then [(''stale'', ''true'', ''true'')] else [])"
  have tx: "tx = ''Digest'' @ CHR '' '' # params_text ps"
    using t n by (auto simp: http_digest_proxy_authenticate_def ps_def quotable_auth)
  have ok: "\<forall>(n, q, v) \<in> set ps. param_ok n q v"
    using param_ok_quoted[OF r, of "''realm''"] param_ok_quoted[OF quotable_nonce[OF n], of "''nonce''"]
      param_ok_quoted[OF quotable_auth(1), of "''qop''"] param_ok_token[of "''true''" "''stale''"] token_names
    by (auto simp: ps_def)
  have q: "read_token_list ''auth'' [] = Some ([''auth''], [])" "qop_flags 0 [''auth''] = 1" by code_simp+
  let ?ch = "http_challenge_init\<lparr>ch_scheme := AUTH_DIGEST\<rparr>"
  have "param_fold challenge_param ?ch ps = Some (digest_challenge realm nonce)"
    by (simp add: ps_def challenge_param_def param_names set_once_def http_challenge_init_def digest_challenge_def q)
  then have c: "challenge_loop (params_text ps) ?ch = Some (Some (digest_challenge realm nonce, []))"
    using challenge_loop_params[OF ok] by blast
  have h: "skip_space (params_text ps) = params_text ps" "deref (params_text ps) = CHR ''r''"
    by (simp_all add: ps_def is_space_char_def)
  have "read_token tx = Some (''Digest'', CHR '' '' # params_text ps)"
    unfolding tx by (rule read_token_append) (use token_names in auto)
  moreover have "scheme_of ''Digest'' = AUTH_DIGEST" by code_simp
  ultimately show ?thesis using c h by (simp add: http_read_challenge_def Let_def)
qed

definition digest_answer :: "string \<Rightarrow> string \<Rightarrow> string \<Rightarrow> string \<Rightarrow> string \<Rightarrow> string \<Rightarrow> digest_credentials" where
  "digest_answer username realm nonce uri cnonce response =
     \<lparr>dc_username = Some username, dc_realm = Some realm, dc_nonce = Some nonce, dc_uri = Some uri,
      dc_response = Some response, dc_algorithm = ALGORITHM_MD5, dc_qop = QOP_AUTH, dc_nc = Some nc_buf, dc_cnonce = Some cnonce\<rparr>"

lemma read_authorization:
  assumes q: "quotable username" "quotable realm" "quotable nonce" "quotable uri" "quotable cnonce" "quotable response"
  defines "tx \<equiv> ''Digest username='' @ append_quoted_string username @ '', realm='' @ append_quoted_string realm @
    '', nonce='' @ append_quoted_string nonce @ '', uri='' @ append_quoted_string uri @ '', qop=auth'' @
    '', cnonce='' @ append_quoted_string cnonce @ '', nc='' @ nc_buf @ '', response='' @ append_quoted_string response"
  shows "http_read_credentials tx =
    Some (Some (Cred_digest (digest_answer username realm nonce uri cnonce response), []))"
proof -
  define ps where "ps = [(''username'', append_quoted_string username, username), (''realm'', append_quoted_string realm, realm),
    (''nonce'', append_quoted_string nonce, nonce), (''uri'', append_quoted_string uri, uri), (''qop'', ''auth'', ''auth''),
    (''cnonce'', append_quoted_string cnonce, cnonce), (''nc'', nc_buf, nc_buf), (''response'', append_quoted_string response, response)]"
  have tx: "tx = ''Digest'' @ CHR '' '' # params_text ps" by (simp add: tx_def ps_def)
  have ok: "\<forall>(n, q, v) \<in> set ps. param_ok n q v"
    using param_ok_quoted[OF q(1), of "''username''"] param_ok_quoted[OF q(2), of "''realm''"]
      param_ok_quoted[OF q(3), of "''nonce''"] param_ok_quoted[OF q(4), of "''uri''"]
      param_ok_quoted[OF q(5), of "''cnonce''"] param_ok_quoted[OF q(6), of "''response''"]
      param_ok_token[of "''auth''" "''qop''"] param_ok_token[of nc_buf "''nc''"] token_names
    by (simp add: ps_def)
  have "str_equal_i ''auth'' ''auth''" by simp
  then have "param_fold credentials_param digest_init ps = Some (digest_answer username realm nonce uri cnonce response)"
    by (simp add: ps_def credentials_param_def param_names set_once_def digest_init_def digest_answer_def)
  then have c: "credentials_loop (params_text ps) digest_init =
      Some (Some (digest_answer username realm nonce uri cnonce response, []))"
    using credentials_loop_params[OF ok] by blast
  have h: "skip_space (params_text ps) = params_text ps" by (simp add: ps_def is_space_char_def)
  have "read_token tx = Some (''Digest'', CHR '' '' # params_text ps)"
    unfolding tx by (rule read_token_append) (use token_names in auto)
  moreover have "scheme_of ''Digest'' = AUTH_DIGEST" by code_simp
  ultimately show ?thesis using c h by (simp add: http_read_credentials_def Let_def)
qed

text \<open>C26. Digest authentication works end to end: the client reads the challenge that the server
  prints, its answer (the tx after the blank that follows the field name, without the line end) is
  read by the server as digest credentials, and the server accepts them when both use the same user
  name, password, method and URI.  User name, realm and URI are not empty and have no double quote; MD5 and
  the secret are arbitrary.\<close>

theorem digest_auth_accepted:
  assumes "\<forall>s. length (md5 s) = 16" "unat (tv_usec tv) < 10 ^ 6" "quotable username" "quotable realm" "quotable uri"
    "rand \<noteq> []"
  shows "\<exists>challenge ch answer dc.
    http_digest_proxy_authenticate md5 (Some secret) (Some tv) realm stale = Some (Some challenge) \<and>
    http_read_challenge challenge = Some (Some (ch, [])) \<and>
    http_digest_proxy_authorization md5 (Some rand) ch username password method uri = Some ('' '' @ answer @ [CR, LF]) \<and>
    http_read_credentials answer = Some (Some (Cred_digest dc, [])) \<and>
    http_digest_check_credentials md5 (Some secret) username realm password method (Cred_digest dc) = Some True"
proof -
  obtain nonce where n: "make_nonce md5 (Some secret) tv = Some nonce" by (simp add: make_nonce_def)
  obtain challenge where c: "http_digest_proxy_authenticate md5 (Some secret) (Some tv) realm stale = Some (Some challenge)"
    using n by (simp add: http_digest_proxy_authenticate_def)
  let ?ch = "digest_challenge realm nonce"
  define response where "response = make_response md5 username realm password method uri nonce QOP_AUTH nc_buf (enhex rand)"
  have "md5 s \<noteq> []" for s using assms(1)[rule_format, of s] by auto
  then have qr: "quotable response" by (simp add: response_def make_response_def Let_def quotable_enhex)
  define answer where "answer = ''Digest username='' @ append_quoted_string username @ '', realm='' @ append_quoted_string realm @
    '', nonce='' @ append_quoted_string nonce @ '', uri='' @ append_quoted_string uri @ '', qop=auth'' @
    '', cnonce='' @ append_quoted_string (enhex rand) @ '', nc='' @ nc_buf @ '', response='' @ append_quoted_string response"
  have qb: "(1 AND qop_bit QOP_AUTH \<noteq> 0)" by code_simp
  have a: "http_digest_proxy_authorization md5 (Some rand) ?ch username password method uri = Some ('' '' @ answer @ [CR, LF])"
    using qb by (simp add: http_digest_proxy_authorization_def digest_challenge_def answer_def response_def Let_def)
  note qn = quotable_nonce[OF assms(2) n]
  have r: "http_read_credentials answer = Some (Some (Cred_digest (digest_answer username realm nonce uri (enhex rand) response), []))"
    unfolding answer_def by (rule read_authorization) (use assms qn qr quotable_enhex in auto)
  have "http_digest_check_credentials md5 (Some secret) username realm password method
      (Cred_digest (digest_answer username realm nonce uri (enhex rand) response)) = Some True"
    using n nonce_time_nonce[OF assms(2) n]
    by (simp add: http_digest_check_credentials_def digest_answer_def response_def)
  then show ?thesis using c read_authenticate[OF assms(4,2) n c] a r by blast
qed

theorem digest_auth_accepted_witness:
  "\<exists>challenge ch answer dc.
    http_digest_proxy_authenticate (\<lambda>s. replicate 16 0) (Some ''secret'') (Some \<lparr>tv_sec = 7, tv_usec = 42\<rparr>) ''Ncat'' False = Some (Some challenge) \<and>
    http_read_challenge challenge = Some (Some (ch, [])) \<and>
    http_digest_proxy_authorization (\<lambda>s. replicate 16 0) (Some [1, 2]) ch ''me'' ''pw'' ''CONNECT'' ''h:80'' = Some ('' '' @ answer @ [CR, LF]) \<and>
    http_read_credentials answer = Some (Some (Cred_digest dc, [])) \<and>
    http_digest_check_credentials (\<lambda>s. replicate 16 0) (Some ''secret'') ''me'' ''Ncat'' ''pw'' ''CONNECT'' (Cred_digest dc) = Some True"
proof -
  have "quotable ''me''" "quotable ''Ncat''" "quotable ''h:80''" by code_simp+
  then show ?thesis
    using digest_auth_accepted[of "\<lambda>s. replicate 16 0" "\<lparr>tv_sec = 7, tv_usec = 42\<rparr>" "''me''" "''Ncat''" "''h:80''" "[1, 2]" "''secret''" False "''pw''" "''CONNECT''"]
    by simp
qed

section \<open>Exactly the right answers are accepted\<close>

text \<open>The answer of RFC 2617 to a nonce that carries the time \<open>tv\<close>, said without the functions of the code.  The nonce is the time with the hash of
  the secret and the time, and the time is cut off at 31 characters.\<close>

definition hash_text :: "(string \<Rightarrow> u8 list) \<Rightarrow> string \<Rightarrow> string" where
  "hash_text md5 x = concat (map (\<lambda>b. [''0123456789abcdef'' ! (unat b div 16), ''0123456789abcdef'' ! (unat b mod 16)]) (md5 x))"

definition timed_nonce :: "(string \<Rightarrow> u8 list) \<Rightarrow> string \<Rightarrow> timeval \<Rightarrow> string" where
  "timed_nonce md5 secret tv =
     (let t = take 31 (dec (unat (tv_sec tv)) @ ''.'' @ replicate (6 - length (dec (unat (tv_usec tv)))) CHR ''0'' @ dec (unat (tv_usec tv)))
      in t @ ''-'' @ hash_text md5 (secret @ '':'' @ t))"

definition right_answer :: "(string \<Rightarrow> u8 list) \<Rightarrow> string \<Rightarrow> timeval \<Rightarrow> string \<Rightarrow> string \<Rightarrow> string \<Rightarrow> string \<Rightarrow> digest_credentials \<Rightarrow> bool" where
  "right_answer md5 secret tv username realm password method dc \<longleftrightarrow>
     (let nonce = timed_nonce md5 secret tv; a1 = hash_text md5 (username @ '':'' @ realm @ '':'' @ password) in
      dc_username dc = Some username \<and> dc_realm dc = Some realm \<and> dc_nonce dc = Some nonce \<and>
      (\<exists>uri. dc_uri dc = Some uri \<and>
        (let a2 = hash_text md5 (method @ '':'' @ uri) in
          (dc_qop dc = QOP_NONE \<and> dc_response dc = Some (hash_text md5 (a1 @ '':'' @ nonce @ '':'' @ a2))) \<or>
          (\<exists>nc cnonce. dc_qop dc = QOP_AUTH \<and> dc_nc dc = Some nc \<and> dc_cnonce dc = Some cnonce \<and>
            dc_response dc = Some (hash_text md5 (a1 @ '':'' @ nonce @ '':'' @ nc @ '':'' @ cnonce @ '':auth:'' @ a2))))))"

lemma enhex_hash_text: "enhex (md5 x) = hash_text md5 x"
  by (simp add: enhex_def hash_text_def hexdigit_def)

lemma make_nonce_timed: "make_nonce md5 (Some secret) tv = Some (timed_nonce md5 secret tv)"
  by (simp add: make_nonce_def timed_nonce_def time_buf_def dec6_def enhex_hash_text Let_def)

lemma make_response_text:
  "make_response md5 username realm password method uri nonce qop nc cnonce =
     (let a1 = hash_text md5 (username @ '':'' @ realm @ '':'' @ password); a2 = hash_text md5 (method @ '':'' @ uri) in
      hash_text md5 (if qop = QOP_AUTH then a1 @ '':'' @ nonce @ '':'' @ nc @ '':'' @ cnonce @ '':auth:'' @ a2 else a1 @ '':'' @ nonce @ '':'' @ a2))"
  by (simp add: make_response_def enhex_hash_text Let_def)

text \<open>C27. The server accepts exactly the right answers to its own nonces.  What it accepts carries the expected user name and realm, a nonce made of
  some time and the hash of the secret and that time, and as its response the hash that RFC 2617 prescribes of the user name, realm and password, of the
  nonce (with count and nonce of the client for \<open>qop=auth\<close>), and of the method and URI; and every such answer to a nonce of a time of the clock, with less
  than a million microseconds, is accepted.\<close>

theorem digest_check_exact:
  "(http_digest_check_credentials md5 (Some secret) username realm password method cr = Some True \<longrightarrow>
      (\<exists>dc tv. cr = Cred_digest dc \<and> right_answer md5 secret tv username realm password method dc)) \<and>
   (\<forall>dc tv. cr = Cred_digest dc \<and> right_answer md5 secret tv username realm password method dc \<and> unat (tv_usec tv) < 1000000 \<longrightarrow>
      http_digest_check_credentials md5 (Some secret) username realm password method cr = Some True)"
proof (intro conjI impI allI)
  assume a: "http_digest_check_credentials md5 (Some secret) username realm password method cr = Some True"
  obtain dc where cr: "cr = Cred_digest dc"
    using a by (auto simp: http_digest_check_credentials_def split: http_credentials.splits)
  obtain u r n i p where m: "dc_username dc = Some u" "dc_realm dc = Some r" "dc_nonce dc = Some n" "dc_uri dc = Some i" "dc_response dc = Some p"
    using a by (auto simp: http_digest_check_credentials_def cr split: option.splits)
  obtain tv where "http_digest_nonce_time n = Some tv"
    using a m by (auto simp: http_digest_check_credentials_def cr split: option.splits if_splits)
  then have "right_answer md5 secret tv username realm password method dc"
    using a m by (auto simp: http_digest_check_credentials_def cr make_nonce_timed make_response_text right_answer_def Let_def split: option.splits if_splits)
  then show "\<exists>dc tv. cr = Cred_digest dc \<and> right_answer md5 secret tv username realm password method dc" using cr by blast
next
  fix dc tv
  assume a: "cr = Cred_digest dc \<and> right_answer md5 secret tv username realm password method dc \<and> unat (tv_usec tv) < 1000000"
  then have "http_digest_nonce_time (timed_nonce md5 secret tv) = Some tv" using nonce_time_nonce[OF _ make_nonce_timed] by simp
  then show "http_digest_check_credentials md5 (Some secret) username realm password method cr = Some True"
    using a by (auto simp: http_digest_check_credentials_def make_nonce_timed make_response_text right_answer_def Let_def)
qed

theorem digest_check_exact_witness:
  "http_digest_check_credentials (\<lambda>s. [word_of_nat (length s)]) (Some ''s'') ''u'' ''Ncat'' ''p'' ''GET''
     (Cred_digest (digest_answer ''u'' ''Ncat'' ''7.000042-0a'' ''/'' ''c'' ''21'')) = Some True"
proof -
  let ?md5 = "\<lambda>s. [word_of_nat (length s)] :: u8 list"
  have "timed_nonce ?md5 ''s'' \<lparr>tv_sec = 7, tv_usec = 42\<rparr> = ''7.000042-0a''" by code_simp
  moreover have "right_answer ?md5 ''s'' \<lparr>tv_sec = 7, tv_usec = 42\<rparr> ''u'' ''Ncat'' ''p'' ''GET'' (digest_answer ''u'' ''Ncat'' ''7.000042-0a'' ''/'' ''c'' ''21'')"
    using calculation by (simp add: right_answer_def digest_answer_def hash_text_def Let_def nc_buf_def)
  ultimately show ?thesis
    using digest_check_exact[of ?md5 "''s''" "''u''" "''Ncat''" "''p''" "''GET''" "Cred_digest (digest_answer ''u'' ''Ncat'' ''7.000042-0a'' ''/'' ''c'' ''21'')"] by force
qed

end
