(* ===== verification/Base64.thy ===== *)
theory Base64
  imports Nmap_Prelude "HOL-Library.Word"
begin

text \<open>
  The base64 encoder of \<open>ncat/base64.c\<close>.  Proved: the output fits the buffer that is allocated for
  it, and a decoder written from RFC 3548 recovers the input, so that the encoder is injective.
\<close>

unbundle bit_operations_syntax

section \<open>Encoder\<close>

definition b64alpha :: string where
  "b64alpha = ''ABCDEFGHIJKLMNOPQRSTUVWXYZabcdefghijklmnopqrstuvwxyz0123456789+/''"

definition b64char :: "32 word \<Rightarrow> char" where
  "b64char i = b64alpha ! unat i"

definition promote :: "u8 \<Rightarrow> 32 word" where
  "promote b = ucast b"

text \<open>The data is the list of the remaining bytes; the result is what is written before the
  terminating NUL.\<close>

fun b64enc_internal :: "u8 list \<Rightarrow> string" where
  "b64enc_internal (d0 # d1 # d2 # ds) =
     [b64char (drop_bit 2 (promote d0) AND 0x3f),
      b64char ((push_bit 4 (promote d0) AND 0x30) OR (drop_bit 4 (promote d1) AND 0xf)),
      b64char ((push_bit 2 (promote d1) AND 0x3c) OR (drop_bit 6 (promote d2) AND 0x3)),
      b64char (promote d2 AND 0x3f)] @ b64enc_internal ds"
| "b64enc_internal [d0, d1] =
     [b64char (drop_bit 2 (promote d0) AND 0x3f),
      b64char ((push_bit 4 (promote d0) AND 0x30) OR (drop_bit 4 (promote d1) AND 0xf)),
      b64char (push_bit 2 (promote d1) AND 0x3c), CHR ''='']"
| "b64enc_internal [d0] =
     [b64char (drop_bit 2 (promote d0) AND 0x3f), b64char (push_bit 4 (promote d0) AND 0x30),
      CHR ''='', CHR ''='']"
| "b64enc_internal [] = []"

text \<open>\<open>b64enc\<close>: the size of the allocation and the string; \<^const>\<open>None\<close> when the string and its
  terminator do not fit.\<close>

definition b64_alloc :: "nat \<Rightarrow> nat" where
  "b64_alloc len = 4 * len div 3 + 4"

definition b64enc :: "u8 list \<Rightarrow> string option" where
  "b64enc data =
     (let s = b64enc_internal data in
      if length s + 1 \<le> b64_alloc (length data) then Some s else None)"

section \<open>Decoder\<close>

definition b64val :: "char \<Rightarrow> 32 word" where
  "b64val c = word_of_nat (length (takeWhile (\<lambda>x. x \<noteq> c) b64alpha))"

fun b64dec :: "string \<Rightarrow> u8 list" where
  "b64dec (a # b # c # d # r) =
     (let w = push_bit 18 (b64val a) OR push_bit 12 (b64val b) OR push_bit 6 (b64val c) OR b64val d in
      if c = CHR ''='' then [ucast (drop_bit 4 (push_bit 6 (b64val a) OR b64val b))]
      else if d = CHR ''='' then
        let v = push_bit 12 (b64val a) OR push_bit 6 (b64val b) OR b64val c in [ucast (drop_bit 10 v), ucast (drop_bit 2 v)]
      else [ucast (drop_bit 16 w), ucast (drop_bit 8 w), ucast w] @ b64dec r)"
| "b64dec _ = []"

section \<open>Correctness\<close>

lemma b64_table:
  "\<forall>i \<in> set [0..<64]. length (takeWhile (\<lambda>x. x \<noteq> b64alpha ! i) b64alpha) = i \<and> b64alpha ! i \<noteq> CHR ''=''"
  by code_simp

lemma b64val_char: "unat i < 64 \<Longrightarrow> b64val (b64char i) = i"
  using b64_table by (simp add: b64val_def b64char_def)

lemma b64char_pad: "unat i < 64 \<Longrightarrow> b64char i \<noteq> CHR ''=''"
  using b64_table by (simp add: b64char_def)

lemma less64: "take_bit 6 (w::32 word) = w \<Longrightarrow> unat w < 64"
proof -
  assume "take_bit 6 w = w"
  then have "unat w = take_bit 6 (unat w)" by (metis unsigned_take_bit_eq)
  also have "\<dots> < 2 ^ 6" by (rule take_bit_nat_less_exp)
  finally show ?thesis by simp
qed

lemma mask_bits:
  "bit (0x3f::int) n \<longleftrightarrow> n < 6" "bit (0x30::int) n \<longleftrightarrow> n = 4 \<or> n = 5"
  "bit (0xf::int) n \<longleftrightarrow> n < 4" "bit (0x3c::int) n \<longleftrightarrow> 2 \<le> n \<and> n < 6" "bit (3::int) n \<longleftrightarrow> n < 2"
proof -
  have e: "(0x3f::int) = mask 6" "(0x30::int) = push_bit 4 (mask 2)" "(0xf::int) = mask 4"
    "(0x3c::int) = push_bit 2 (mask 4)" "(3::int) = mask 2" by code_simp+
  show "bit (0x3f::int) n \<longleftrightarrow> n < 6" "bit (0x30::int) n \<longleftrightarrow> n = 4 \<or> n = 5"
    "bit (0xf::int) n \<longleftrightarrow> n < 4" "bit (0x3c::int) n \<longleftrightarrow> 2 \<le> n \<and> n < 6" "bit (3::int) n \<longleftrightarrow> n < 2"
    unfolding e by (auto simp: bit_simps)
qed

lemma sextets:
  "unat (drop_bit 2 (promote d) AND 0x3f) < 64"
  "unat ((push_bit 4 (promote d) AND 0x30) OR (drop_bit 4 (promote e) AND 0xf)) < 64"
  "unat ((push_bit 2 (promote d) AND 0x3c) OR (drop_bit 6 (promote e) AND 0x3)) < 64"
  "unat (promote d AND 0x3f) < 64" "unat (push_bit 2 (promote d) AND 0x3c) < 64" "unat (push_bit 4 (promote d) AND 0x30) < 64"
  by (rule less64, rule bit_eqI, auto simp: bit_simps mask_bits)+

lemma bit_promote: "bit (promote d) n \<longleftrightarrow> n < 8 \<and> bit d n"
  by (auto simp: promote_def bit_simps dest: bit_imp_le_length)

lemma byte_eqI: "(\<And>n. n < 8 \<Longrightarrow> bit (ucast (w::32 word) :: u8) n = bit d n) \<Longrightarrow> (ucast w :: u8) = d"
  by (rule bit_word_eqI) simp

definition sextets3 :: "u8 \<Rightarrow> u8 \<Rightarrow> u8 \<Rightarrow> 32 word" where
  "sextets3 d0 d1 d2 =
     push_bit 18 (drop_bit 2 (promote d0) AND 0x3f) OR
     push_bit 12 ((push_bit 4 (promote d0) AND 0x30) OR (drop_bit 4 (promote d1) AND 0xf)) OR
     push_bit 6 ((push_bit 2 (promote d1) AND 0x3c) OR (drop_bit 6 (promote d2) AND 0x3)) OR
     (promote d2 AND 0x3f)"

lemma below8: "n < 8 \<Longrightarrow> n = 0 \<or> n = 1 \<or> n = 2 \<or> n = 3 \<or> n = 4 \<or> n = 5 \<or> n = 6 \<or> n = (7::nat)"
  by auto

lemma bytes_of_sextets3:
  "ucast (drop_bit 16 (sextets3 d0 d1 d2)) = d0" "ucast (drop_bit 8 (sextets3 d0 d1 d2)) = d1" "ucast (sextets3 d0 d1 d2) = d2"
  unfolding sextets3_def by (rule byte_eqI, drule below8, elim disjE; simp add: bit_simps mask_bits bit_promote)+

lemma bytes_of_sextets2:
  fixes d0 d1 :: u8
  defines "v \<equiv> push_bit 12 (drop_bit 2 (promote d0) AND 0x3f) OR
     push_bit 6 ((push_bit 4 (promote d0) AND 0x30) OR (drop_bit 4 (promote d1) AND 0xf)) OR (push_bit 2 (promote d1) AND 0x3c)"
  shows "ucast (drop_bit 10 v) = d0" "ucast (drop_bit 2 v) = d1"
  unfolding v_def by (rule byte_eqI, drule below8, elim disjE; simp add: bit_simps mask_bits bit_promote)+

lemma bytes_of_sextets1:
  "ucast (drop_bit 4 (push_bit 6 (drop_bit 2 (promote d0) AND 0x3f) OR (push_bit 4 (promote d0) AND 0x30))) = d0"
  by (rule byte_eqI, drule below8, elim disjE; simp add: bit_simps mask_bits bit_promote)

lemma b64dec_enc: "b64dec (b64enc_internal d) = d"
proof (induction d rule: b64enc_internal.induct)
  case (1 d0 d1 d2 ds)
  then show ?case using bytes_of_sextets3[of d0 d1 d2]
    by (simp add: b64val_char b64char_pad sextets sextets3_def Let_def or.assoc)
next
  case (2 d0 d1)
  then show ?case using bytes_of_sextets2[of d0 d1] by (simp add: b64val_char b64char_pad sextets Let_def or.assoc)
next
  case (3 d0)
  then show ?case using bytes_of_sextets1[of d0] by (simp add: b64val_char b64char_pad sextets Let_def)
qed simp

lemma length_b64enc: "length (b64enc_internal d) = 4 * ((length d + 2) div 3)"
proof (induction d rule: b64enc_internal.induct)
  case (1 d0 d1 d2 ds)
  have "(n + 3 + 2) div 3 = (n + 2) div 3 + 1" for n :: nat by linarith
  then show ?case using 1 by simp
qed auto

lemma b64enc_fits: "b64enc d = Some (b64enc_internal d)"
proof -
  have "4 * ((n + 2) div 3) + 1 \<le> 4 * n div 3 + 4" for n :: nat by linarith
  then show ?thesis by (simp add: b64enc_def length_b64enc b64_alloc_def)
qed

lemma b64enc_inject: "b64enc d = b64enc e \<longleftrightarrow> d = e"
  by (metis b64dec_enc b64enc_fits option.inject)

lemma length_b64alpha: "length b64alpha = 64"
  by code_simp

lemma b64_chars: "c \<in> set (b64enc_internal d) \<Longrightarrow> c \<in> set b64alpha \<or> c = CHR ''=''"
proof -
  have "b64char i \<in> set b64alpha" if "unat i < 64" for i
    using that nth_mem[of "unat i" b64alpha] length_b64alpha by (simp add: b64char_def)
  then show "c \<in> set (b64enc_internal d) \<Longrightarrow> ?thesis"
    by (induction d rule: b64enc_internal.induct) (auto simp: sextets)
qed

text \<open>The base64 encoder never writes outside the buffer of \<open>4 * len / 3 + 4\<close> bytes, and decoding
  its output gives back the data, so two inputs have the same encoding only if they are equal.\<close>

theorem b64enc_roundtrip:
  "\<exists>s. b64enc d = Some s \<and> length s + 1 \<le> b64_alloc (length d) \<and> b64dec s = d"
  using b64enc_fits[of d] b64dec_enc[of d] by (auto simp: b64enc_def Let_def split: if_splits)

end
