(* ===== verification/Ncat_Proxy.thy ===== *)
theory Ncat_Proxy
  imports Http_Digest Base64
begin

text \<open>
  The HTTP proxy server of \<open>ncat/ncat_proxy.c\<close>, without TLS: the handler of one client connection with
  the authentication check, the CONNECT tunnel and the forwarding of GET, HEAD and POST.  The options,
  the resolver, the network and the clock are the environment; the state is the client's socket
  buffer with what was sent to the client and to the server and which addresses were connected to.
  \<^const>\<open>None\<close> is a crash of the handler: a double free, a null pointer, a failed assertion, \<open>bye\<close> or an
  endless loop.
\<close>

section \<open>Environment and state\<close>

text \<open>\<open>pe_resolve\<close> and \<open>pe_connect\<close> are \<open>getaddrinfo\<close> and \<open>connect\<close> (\<^const>\<open>None\<close> on failure; a connection
  delivers the results of \<open>recv\<close>).  The \<open>n\<close>th \<open>send\<close> fails (\<^const>\<open>None\<close>) or takes at most so many bytes.
  \<open>pe_rounds\<close> is what the rounds of the relay loop of CONNECT find readable.\<close>

record 'a proxy_env =
  pe_proxy_auth :: "string option"
  pe_md5 :: "string \<Rightarrow> u8 list"
  pe_secret :: "string option"
  pe_now :: timeval
  pe_resolve :: "string \<Rightarrow> int \<Rightarrow> 'a option"
  pe_portno :: int
  pe_is_local :: "'a \<Rightarrow> bool"
  pe_connect :: "'a \<Rightarrow> recv_result list option"
  pe_server_send :: "nat \<Rightarrow> nat option"
  pe_client_send :: "nat \<Rightarrow> nat option"
  pe_rounds :: "(recv_result list option \<times> recv_result list option) list"

record 'a proxy_state =
  ps_client :: socket_buffer
  ps_to_client :: string
  ps_client_sends :: nat
  ps_to_server :: string
  ps_server_sends :: nat
  ps_connects :: "'a list"

definition send_client :: "'a proxy_env \<Rightarrow> string \<Rightarrow> 'a proxy_state \<Rightarrow> int \<times> 'a proxy_state" where
  "send_client env s st =
     (let st' = st\<lparr>ps_client_sends := ps_client_sends st + 1\<rparr> in
      case pe_client_send env (ps_client_sends st) of
        None \<Rightarrow> (-1, st')
      | Some k \<Rightarrow> (int (length (take k s)), st'\<lparr>ps_to_client := ps_to_client st @ take k s\<rparr>))"

definition send_server :: "'a proxy_env \<Rightarrow> string \<Rightarrow> 'a proxy_state \<Rightarrow> int \<times> 'a proxy_state" where
  "send_server env s st =
     (let st' = st\<lparr>ps_server_sends := ps_server_sends st + 1\<rparr> in
      case pe_server_send env (ps_server_sends st) of
        None \<Rightarrow> (-1, st')
      | Some k \<Rightarrow> (int (length (take k s)), st'\<lparr>ps_to_server := ps_to_server st @ take k s\<rparr>))"

text \<open>\<open>resolve\<close> asserts that it is given a host name.\<close>

definition resolve :: "'a proxy_env \<Rightarrow> string option \<Rightarrow> int \<Rightarrow> 'a option option" where
  "resolve env hostname portno = do { h \<leftarrow> hostname; Some (pe_resolve env h portno) }"

definition BUFSIZ :: nat where
  "BUFSIZ = 8192"

section \<open>Answers\<close>

definition crlf :: string where
  "crlf = [CR, LF]"

definition http_code2str :: "nat \<Rightarrow> string" where
  "http_code2str code =
     (if code = 200 then ''HTTP/1.0 200 OK'' @ crlf @ crlf
      else if code = 400 then ''HTTP/1.0 400 Bad Request'' @ crlf @ crlf
      else if code = 403 then ''HTTP/1.0 403 Forbidden'' @ crlf @ crlf
      else if code = 405 then ''HTTP/1.0 405 Method Not Allowed'' @ crlf @ ''Allow: CONNECT, GET, HEAD, POST'' @ crlf @ crlf
      else if code = 413 then ''HTTP/1.0 413 Request Entity Too Large'' @ crlf @ crlf
      else if code = 501 then ''HTTP/1.0 501 Not Implemented'' @ crlf @ crlf
      else if code = 504 then ''HTTP/1.0 504 Gateway Timeout'' @ crlf @ crlf
      else ''HTTP/1.0 500 Internal Server Error'' @ crlf @ crlf)"

definition send_proxy_authenticate :: "'a proxy_env \<Rightarrow> bool \<Rightarrow> 'a proxy_state \<Rightarrow> 'a proxy_state option" where
  "send_proxy_authenticate env stale st = do {
     hdr \<leftarrow> http_digest_proxy_authenticate (pe_md5 env) (pe_secret env) (Some (pe_now env)) ''Ncat'' stale;
     h \<leftarrow> hdr;
     Some (snd (send_client env
       (''HTTP/1.0 407 Proxy Authentication Required'' @ crlf @
        ''Proxy-Authenticate: Basic realm='' @ [QUOTE] @ ''Ncat'' @ [QUOTE] @ crlf @
        ''Proxy-Authenticate: '' @ h @ crlf @ crlf) st)) }"

definition method_is_known :: "string \<Rightarrow> bool" where
  "method_is_known method \<longleftrightarrow> method = ''CONNECT'' \<or> method = ''GET'' \<or> method = ''HEAD'' \<or> method = ''POST''"

section \<open>Authentication\<close>

definition HTTP_DIGEST_NONCE_EXPIRY :: int where
  "HTTP_DIGEST_NONCE_EXPIRY = 10"

definition timeval_after :: "timeval \<Rightarrow> timeval \<Rightarrow> bool" where
  "timeval_after a b \<longleftrightarrow> sint (tv_sec a) > sint (tv_sec b) \<or>
     (tv_sec a = tv_sec b \<and> sint (tv_usec a) > sint (tv_usec b))"

definition timeval_sec_subtract :: "timeval \<Rightarrow> timeval \<Rightarrow> int" where
  "timeval_sec_subtract a b =
     sint (tv_sec a) - sint (tv_sec b) + (if sint (tv_usec a) < sint (tv_usec b) then -1 else 0)"

definition bytes_of :: "string \<Rightarrow> u8 list" where
  "bytes_of s = map (\<lambda>c. word_of_nat (ordc c)) s"

text \<open>The result and \<open>*stale\<close>.\<close>

definition check_auth :: "'a proxy_env \<Rightarrow> http_request \<Rightarrow> http_credentials \<Rightarrow> (bool \<times> bool) option" where
  "check_auth env request credentials =
     (case pe_proxy_auth env of None \<Rightarrow> Some (True, False)
      | Some proxy_auth \<Rightarrow>
        (case credentials of
           Cred_basic None \<Rightarrow> Some (False, False)
         | Cred_basic (Some basic) \<Rightarrow> do {
             expected \<leftarrow> b64enc (bytes_of proxy_auth);
             Some (expected = basic, False) }
         | Cred_digest dc \<Rightarrow>
             let username = takeWhile (\<lambda>c. c \<noteq> CHR '':'') proxy_auth;
                 password = dropWhile (\<lambda>c. c \<noteq> CHR '':'') proxy_auth in
             if password = [] then Some (False, False)
             else do {
               method \<leftarrow> req_method request;
               ret \<leftarrow> http_digest_check_credentials (pe_md5 env) (pe_secret env) username ''Ncat'' (tl password) method credentials;
               if \<not> ret then Some (False, False)
               else (case (case dc_nonce dc of None \<Rightarrow> None | Some nonce \<Rightarrow> http_digest_nonce_time nonce) of
                   None \<Rightarrow> Some (False, False)
                 | Some nonce_tv \<Rightarrow>
                     if timeval_after nonce_tv (pe_now env) then Some (False, False)
                     else if int_of_long (timeval_sec_subtract (pe_now env) nonce_tv) > HTTP_DIGEST_NONCE_EXPIRY
                     then Some (False, True)
                     else Some (True, False)) }
         | Cred_unknown \<Rightarrow> Some (False, False)))"

section \<open>CONNECT\<close>

fun relay_loop :: "'a proxy_env \<Rightarrow> (recv_result list option \<times> recv_result list option) list \<Rightarrow> 'a proxy_state \<Rightarrow> 'a proxy_state" where
  "relay_loop env [] st = st"
| "relay_loop env ((c, s) # rounds) st =
     (case (case c of None \<Rightarrow> Some st
            | Some rr \<Rightarrow>
              let (len, buf, _) = recv_retry rr in
              if len \<le> 0 then None
              else let (rc, st') = send_server env buf st in if rc = -1 then None else Some st') of
        None \<Rightarrow> st
      | Some st1 \<Rightarrow>
        (case (case s of None \<Rightarrow> Some st1
               | Some rr \<Rightarrow>
                 let (len, buf, _) = recv_retry rr in
                 if len \<le> 0 then None
                 else let (rc, st') = send_client env buf st1 in if rc = -1 then None else Some st') of
           None \<Rightarrow> st1
         | Some st2 \<Rightarrow> relay_loop env rounds st2))"

definition handle_connect :: "'a proxy_env \<Rightarrow> http_request \<Rightarrow> 'a proxy_state \<Rightarrow> (nat \<times> 'a proxy_state) option" where
  "handle_connect env request st =
     (if port (req_uri request) = -1 then Some (400, st)
      else do {
        rc \<leftarrow> resolve env (host (req_uri request)) (port (req_uri request));
        case rc of None \<Rightarrow> Some (504, st)
        | Some su \<Rightarrow>
          let st = st\<lparr>ps_connects := ps_connects st @ [su]\<rparr> in
          (case pe_connect env su of None \<Rightarrow> Some (504, st)
           | Some server \<Rightarrow>
             let (_, st) = send_client env (http_code2str 200) st;
                 (rc, st) = send_server env (socket_buffer_remainder (ps_client st)) st in
             if rc < 0 then Some (0, st) else Some (0, relay_loop env (pe_rounds env) st)) })"

section \<open>GET, HEAD and POST\<close>

text \<open>The loop that forwards the request body: the code that ends the transaction, or 0.\<close>

lemma socket_buffer_read_pos:
  assumes "socket_buffer_read b sz = (n, d, b')" "0 < n"
  shows "n = int (length d) \<and> length d \<le> sz \<and> d \<noteq> [] \<and> avail b' < avail b"
proof (cases "refill b")
  case (Inl ib)
  then show ?thesis using assms refill_stream[of b] by (auto simp: socket_buffer_read_def split: prod.splits)
next
  case (Inr b0)
  define i where "i = min (length (pending b0)) sz"
  have e: "b' = advance i b0" "n = int i" "d = take i (pending b0)" "0 < i" "i \<le> length (pending b0)" "i \<le> sz"
    using assms Inr by (auto simp: socket_buffer_read_def Let_def i_def)
  then show ?thesis using refill_avail[OF Inr] by (cases "pending b0") (auto simp: avail_def)
qed

function request_body_loop :: "'a proxy_env \<Rightarrow> nat \<Rightarrow> 'a proxy_state \<Rightarrow> nat \<times> 'a proxy_state" where
  "request_body_loop env remaining st =
     (if remaining > 0 then
        let (n, buf, b) = socket_buffer_read (ps_client st) (min BUFSIZ remaining); st1 = st\<lparr>ps_client := b\<rparr> in
        if n < 0 then (504, st1)
        else if n = 0 then (0, st1)
        else
          let (rc, st2) = send_server env buf st1 in
          if rc < 0 then (504, st2) else request_body_loop env (remaining - nat n) st2
      else (0, st))"
  by pat_completeness auto
termination
  by (relation "measure (\<lambda>(env, r, st). r)") auto

text \<open>The loop that forwards the response body; \<open>remaining\<close> is \<^const>\<open>None\<close> without a Content-Length.\<close>

function response_body_loop :: "'a proxy_env \<Rightarrow> socket_buffer \<Rightarrow> nat option \<Rightarrow> 'a proxy_state \<Rightarrow> 'a proxy_state" where
  "response_body_loop env server remaining st =
     (if remaining = Some 0 then st
      else
        let count = (case remaining of None \<Rightarrow> BUFSIZ | Some r \<Rightarrow> min r BUFSIZ);
            (n, buf, server') = socket_buffer_read server count in
        if n \<le> 0 then st
        else
          let (rc, st') = send_client env buf st in
          if rc < 0 then st' else response_body_loop env server' (map_option (\<lambda>r. r - nat n) remaining) st')"
  by pat_completeness auto
termination
  by (relation "measure (\<lambda>(env, b, r, st). avail b)") (simp, simp, metis not_le socket_buffer_read_pos)

declare request_body_loop.simps [simp del] response_body_loop.simps [simp del]

definition host_header :: "uri \<Rightarrow> string option" where
  "host_header u = do {
     h \<leftarrow> host u;
     Some (if port u = -1 \<or> port u = 80 then h else h @ '':'' @ sdec (port u)) }"

text \<open>The part of \<open>do_transaction\<close> up to the request that goes to the server: a code, or the request.\<close>

definition prepare_request :: "http_request \<Rightarrow> (nat + http_request) option" where
  "prepare_request request =
     (if req_method request = Some ''POST'' \<and> \<not> req_content_length_set request then Some (Inl 400)
      else do {
        let request = request\<lparr>req_version := HTTP_10\<rparr>;
        hs \<leftarrow> hdr_list (req_header request);
        let (code, hs') = http_header_remove_hop_by_hop hs;
        if code \<noteq> 0 then Some (Inl code)
        else do {
          buf \<leftarrow> host_header (req_uri request);
          if length buf \<ge> BUFSIZ then Some (Inl 501)
          else
            let hs1 = http_header_set hs' ''Host'' buf; hs2 = http_header_set hs1 ''Connection'' ''close'' in
            Some (Inr (request\<lparr>req_header := Hdr hs2\<rparr>)) } })"

text \<open>The part that reads the response of the server and forwards it.\<close>

definition forward_response :: "'a proxy_env \<Rightarrow> socket_buffer \<Rightarrow> 'a proxy_state \<Rightarrow> (nat \<times> 'a proxy_state) option" where
  "forward_response env server st =
     (case http_read_status_line server of
        (code, None, server) \<Rightarrow> Some (0, st)
      | (code, Some line, server) \<Rightarrow> do {
          (rc, response) \<leftarrow> http_parse_status_line line;
          if rc \<noteq> 0 then Some (0, st)
          else
            let (code, header, server) = http_read_header server in
            if code \<noteq> 0 then Some (0, st)
            else do {
              (code, response) \<leftarrow> http_response_parse_header response (cstr_of header);
              if code \<noteq> 0 then Some (0, st)
              else do {
                let response = response\<lparr>resp_version := HTTP_10\<rparr>;
                hs \<leftarrow> hdr_list (resp_header response);
                let (code, hs') = http_header_remove_hop_by_hop hs;
                if code \<noteq> 0 then Some (code, st)
                else do {
                  let response = response\<lparr>resp_header := Hdr (http_header_set hs' ''Connection'' ''close'')\<rparr>;
                  response_str \<leftarrow> http_response_to_string response;
                  let (n, st) = send_client env response_str st;
                  if n < 0 then Some (504, st)
                  else Some (0, response_body_loop env server
                    (if resp_content_length_set response then Some (unat (resp_content_length response)) else None) st) } } } })"

definition do_transaction :: "'a proxy_env \<Rightarrow> http_request \<Rightarrow> recv_result list \<Rightarrow> 'a proxy_state \<Rightarrow> (nat \<times> 'a proxy_state) option" where
  "do_transaction env request server st = do {
     r \<leftarrow> prepare_request request;
     case r of Inl code \<Rightarrow> Some (code, st)
     | Inr request \<Rightarrow> do {
         request_str \<leftarrow> http_request_to_string request;
         let (n, st) = send_server env request_str st;
         if n < 0 then Some (504, st)
         else
           let (code, st) = request_body_loop env (unat (req_content_length request - req_bytes_transferred request)) st in
           if code \<noteq> 0 then Some (code, st) else forward_response env (socket_buffer_init server) st } }"

definition handle_method :: "'a proxy_env \<Rightarrow> http_request \<Rightarrow> 'a proxy_state \<Rightarrow> (nat \<times> 'a proxy_state) option" where
  "handle_method env request st = do {
     sch \<leftarrow> scheme (req_uri request);
     if sch \<noteq> ''http'' then Some (400, st)
     else if port (req_uri request) = -1 then Some (400, st)
     else do {
       rc \<leftarrow> resolve env (host (req_uri request)) (port (req_uri request));
       case rc of None \<Rightarrow> Some (504, st)
       | Some su \<Rightarrow>
         if port (req_uri request) = pe_portno env \<and> pe_is_local env su then Some (403, st)
         else
           let st = st\<lparr>ps_connects := ps_connects st @ [su]\<rparr> in
           (case pe_connect env su of None \<Rightarrow> Some (504, st)
            | Some server \<Rightarrow> do_transaction env request server st) } }"

section \<open>The handler\<close>

definition answer :: "'a proxy_env \<Rightarrow> nat \<Rightarrow> 'a proxy_state \<Rightarrow> 'a proxy_state" where
  "answer env code st = snd (send_client env (http_code2str code) st)"

text \<open>The authentication step: \<open>Inl\<close> when the client was sent away.\<close>

definition authenticate :: "'a proxy_env \<Rightarrow> http_request \<Rightarrow> 'a proxy_state \<Rightarrow> ('a proxy_state + 'a proxy_state) option" where
  "authenticate env request st =
     (if pe_proxy_auth env = None then Some (Inr st)
      else do {
        hs \<leftarrow> hdr_list (req_header request);
        credentials \<leftarrow> http_header_get_proxy_credentials hs;
        case credentials of
          None \<Rightarrow> do { st \<leftarrow> send_proxy_authenticate env False st; Some (Inl st) }
        | Some cr \<Rightarrow> do {
            (ret, stale) \<leftarrow> check_auth env request cr;
            if \<not> ret then do { st \<leftarrow> send_proxy_authenticate env stale st; Some (Inl st) }
            else Some (Inr st) } })"

definition dispatch :: "'a proxy_env \<Rightarrow> http_request \<Rightarrow> 'a proxy_state \<Rightarrow> 'a proxy_state option" where
  "dispatch env request st = do {
     method \<leftarrow> req_method request;
     (code, st) \<leftarrow> (if method = ''CONNECT'' then handle_connect env request st
       else if method = ''GET'' \<or> method = ''HEAD'' \<or> method = ''POST'' then handle_method env request st
       else Some (500, st));
     http_request_free request;
     Some (if code \<noteq> 0 then answer env code st else st) }"

text \<open>The part of the handler behind the header.\<close>

definition after_header :: "'a proxy_env \<Rightarrow> http_request \<Rightarrow> string \<Rightarrow> 'a proxy_state \<Rightarrow> 'a proxy_state option" where
  "after_header env request0 header st = do {
     (code, request) \<leftarrow> http_request_parse_header request0 (cstr_of header);
     if code \<noteq> 0 then do {
       http_request_free request;
       Some (answer env code st) }
     else do {
       r \<leftarrow> authenticate env request st;
       case r of Inl st \<Rightarrow> do { http_request_free request; Some st }
       | Inr st \<Rightarrow> dispatch env request st } }"

definition http_server_handler :: "'a proxy_env \<Rightarrow> 'a proxy_state \<Rightarrow> 'a proxy_state option" where
  "http_server_handler env st =
     (case http_read_request_line (ps_client st) of
        (code, None, b) \<Rightarrow> Some (answer env code (st\<lparr>ps_client := b\<rparr>))
      | (code, Some buf, b) \<Rightarrow>
        let st = st\<lparr>ps_client := b\<rparr> in
        (case http_parse_request_line buf of
           None \<Rightarrow> None
         | Some (Inl code) \<Rightarrow> Some (answer env code st)
         | Some (Inr request) \<Rightarrow> do {
             method \<leftarrow> req_method request;
             if \<not> method_is_known method then do {
               http_request_free request;
               Some (answer env 405 st) }
             else
               let (code, header, b) = http_read_header (ps_client st); st = st\<lparr>ps_client := b\<rparr> in
               if code \<noteq> 0 then do {
                 http_request_free request;
                 Some (answer env code st) }
               else after_header env request header st }))"

definition proxy_start :: "recv_result list \<Rightarrow> 'a proxy_state" where
  "proxy_start sd = \<lparr>ps_client = socket_buffer_init sd, ps_to_client = [], ps_client_sends = 0, ps_to_server = [],
     ps_server_sends = 0, ps_connects = []\<rparr>"

section \<open>A request is read\<close>

lemma http_read_request_line_first:
  assumes "stream buf = l @ rest" "line_ok l" "\<not> blank_line l" "length l < MAX_REQUEST_LINE_LENGTH"
  shows "\<exists>b. http_read_request_line buf = (0, Some l, b) \<and> stream b = rest"
proof -
  obtain b where "socket_buffer_readline buf MAX_REQUEST_LINE_LENGTH = (Some l, length l, b)" "stream b = rest"
    using readline_line[OF assms(1,2,4)] by blast
  then show ?thesis using assms(3) by (subst http_read_request_line.simps) (simp add: blank_line_def)
qed

lemma http_server_handler_reads:
  assumes "stream (ps_client st) = rl @ concat ls @ l @ rest" "line_ok rl" "\<not> blank_line rl" "length rl < MAX_REQUEST_LINE_LENGTH"
    "\<forall>k \<in> set (ls @ [l]). line_ok k" "\<forall>k \<in> set ls. \<not> blank_line k" "blank_line l" "length (concat ls @ l) < MAX_HEADER_LENGTH"
    "http_parse_request_line rl = Some (Inr request0)" "req_method request0 = Some m" "method_is_known m"
  shows "\<exists>b. stream b = rest \<and> http_server_handler env st = after_header env request0 (concat ls @ l) (st\<lparr>ps_client := b\<rparr>)"
proof -
  obtain b1 where b1: "http_read_request_line (ps_client st) = (0, Some rl, b1)" "stream b1 = concat ls @ l @ rest"
    using http_read_request_line_first[OF assms(1-4)] by blast
  obtain b2 where b2: "http_read_header b1 = (0, concat ls @ l, b2)" "stream b2 = rest"
    using read_header_loop_lines[of b1 ls l rest "[]"] b1(2) assms(5-8) by (auto simp: http_read_header_def)
  show ?thesis using b1 b2 assms(9-11) by (intro exI[of _ b2]) (simp add: http_server_handler_def Let_def)
qed

lemma line_ok_iff: "line_ok l \<longleftrightarrow> l \<noteq> [] \<and> last l = LF \<and> LF \<notin> set (butlast l)"
proof
  assume "l \<noteq> [] \<and> last l = LF \<and> LF \<notin> set (butlast l)"
  then have "l = butlast l @ [LF]" by (metis append_butlast_last_id)
  then show "line_ok l" using \<open>l \<noteq> [] \<and> _\<close> unfolding line_ok_def by blast
qed (auto simp: line_ok_def)

section \<open>Authentication before forwarding\<close>

text \<open>What the credentials of an admitted client prove.\<close>

definition authorised :: "'a proxy_env \<Rightarrow> string \<Rightarrow> string \<Rightarrow> http_credentials \<Rightarrow> bool" where
  "authorised env userpass method cr \<longleftrightarrow>
     (\<exists>b. cr = Cred_basic (Some b) \<and> b64dec b = bytes_of userpass) \<or>
     (\<exists>dc username password nonce tv u nc cnonce. cr = Cred_digest dc \<and> userpass = username @ CHR '':'' # password \<and>
        CHR '':'' \<notin> set username \<and> dc_username dc = Some username \<and> dc_nonce dc = Some nonce \<and>
        make_nonce (pe_md5 env) (pe_secret env) tv = Some nonce \<and> \<not> timeval_after tv (pe_now env) \<and>
        int_of_long (timeval_sec_subtract (pe_now env) tv) \<le> HTTP_DIGEST_NONCE_EXPIRY \<and> dc_uri dc = Some u \<and>
        dc_response dc = Some (make_response (pe_md5 env) username ''Ncat'' password method u nonce (dc_qop dc) nc cnonce))"

lemma digest_check_parts:
  assumes "http_digest_check_credentials md5 secret username realm password method (Cred_digest dc) = Some True"
  shows "\<exists>nonce uri tv nc cnonce. dc_username dc = Some username \<and> dc_nonce dc = Some nonce \<and>
    make_nonce md5 secret tv = Some nonce \<and> http_digest_nonce_time nonce = Some tv \<and> dc_uri dc = Some uri \<and>
    dc_response dc = Some (make_response md5 username realm password method uri nonce (dc_qop dc) nc cnonce)"
proof -
  obtain u r n i p where m: "dc_username dc = Some u" "dc_realm dc = Some r" "dc_nonce dc = Some n" "dc_uri dc = Some i" "dc_response dc = Some p"
    using assms by (auto simp: http_digest_check_credentials_def split: option.splits)
  obtain tv where tv: "http_digest_nonce_time n = Some tv"
    using assms m by (auto simp: http_digest_check_credentials_def split: option.splits if_splits)
  show ?thesis
    using assms m tv
    by (auto simp: http_digest_check_credentials_def bind_eq_Some_conv split: option.splits if_splits)
qed

lemma check_auth_authorised:
  assumes "check_auth env request cr = Some (True, stale)" "pe_proxy_auth env = Some a" "req_method request = Some m"
  shows "authorised env a m cr"
proof (cases cr)
  case Cred_unknown
  then show ?thesis using assms by (simp add: check_auth_def)
next
  case (Cred_basic b)
  then obtain x where "b = Some x" "b64enc (bytes_of a) = Some x"
    using assms by (auto simp: check_auth_def bind_eq_Some_conv split: option.splits)
  then show ?thesis using b64dec_enc[of "bytes_of a"] Cred_basic by (simp add: authorised_def b64enc_fits)
next
  case (Cred_digest dc)
  let ?u = "takeWhile (\<lambda>c. c \<noteq> CHR '':'') a"
  define p where "p = dropWhile (\<lambda>c. c \<noteq> CHR '':'') a"
  have p: "p \<noteq> []" and chk: "http_digest_check_credentials (pe_md5 env) (pe_secret env) ?u ''Ncat'' (tl p) m (Cred_digest dc) = Some True"
    using assms by (auto simp: check_auth_def Cred_digest p_def Let_def bind_eq_Some_conv split: if_splits)
  obtain nonce uri tv nc cnonce where d: "dc_username dc = Some ?u" "dc_nonce dc = Some nonce"
    "make_nonce (pe_md5 env) (pe_secret env) tv = Some nonce" "http_digest_nonce_time nonce = Some tv" "dc_uri dc = Some uri"
    "dc_response dc = Some (make_response (pe_md5 env) ?u ''Ncat'' (tl p) m uri nonce (dc_qop dc) nc cnonce)"
    using digest_check_parts[OF chk] by blast
  have age: "\<not> timeval_after tv (pe_now env)" "int_of_long (timeval_sec_subtract (pe_now env) tv) \<le> HTTP_DIGEST_NONCE_EXPIRY"
    using assms p chk d by (auto simp: check_auth_def Cred_digest p_def Let_def split: if_splits)
  have "hd p = CHR '':''" using p hd_dropWhile[of "\<lambda>c. c \<noteq> CHR '':''" a] by (simp add: p_def)
  then have "p = CHR '':'' # tl p" using p by (cases p) simp_all
  then have "a = ?u @ CHR '':'' # tl p" by (metis p_def takeWhile_dropWhile_id)
  moreover have "CHR '':'' \<notin> set ?u" using set_takeWhileD by fastforce
  ultimately show ?thesis using d age Cred_digest unfolding authorised_def by blast
qed

definition outbound :: "'a proxy_state \<Rightarrow> 'a list \<times> string" where
  "outbound st = (ps_connects st, ps_to_server st)"

lemma outbound_send_client [simp]: "outbound (snd (send_client env s st)) = outbound st"
  by (auto simp: send_client_def outbound_def Let_def split: option.splits)

lemma outbound_answer [simp]: "outbound (answer env code st) = outbound st"
  by (simp add: answer_def)

lemma outbound_client [simp]: "outbound (st\<lparr>ps_client := b\<rparr>) = outbound st"
  by (simp add: outbound_def)

lemma outbound_send_proxy_authenticate: "send_proxy_authenticate env stale st = Some st' \<Longrightarrow> outbound st' = outbound st"
  by (auto simp: send_proxy_authenticate_def bind_eq_Some_conv)

lemma authenticate_outbound:
  assumes "authenticate env request st = Some r" "pe_proxy_auth env = Some a" "req_method request = Some m"
  shows "case r of Inl st' \<Rightarrow> outbound st' = outbound st
    | Inr st' \<Rightarrow> st' = st \<and> (\<exists>hs cr. req_header request = Hdr hs \<and> http_header_get_proxy_credentials hs = Some (Some cr) \<and> authorised env a m cr)"
proof -
  obtain hs where h: "req_header request = Hdr hs"
    using assms(1,2) by (cases "req_header request") (auto simp: authenticate_def)
  then obtain c where c: "http_header_get_proxy_credentials hs = Some c"
    using assms(1,2) by (auto simp: authenticate_def bind_eq_Some_conv)
  show ?thesis
  proof (cases c)
    case None
    then show ?thesis using assms(1,2) h c
      by (auto simp: authenticate_def bind_eq_Some_conv dest: outbound_send_proxy_authenticate)
  next
    case (Some cr)
    then obtain ret stale where k: "check_auth env request cr = Some (ret, stale)"
      using assms(1,2) h c by (auto simp: authenticate_def bind_eq_Some_conv)
    then show ?thesis using assms h c Some check_auth_authorised[of env request cr stale a m]
      by (cases ret) (auto simp: authenticate_def bind_eq_Some_conv dest: outbound_send_proxy_authenticate)
  qed
qed

text \<open>What the handler has read when it comes to the authentication.\<close>

definition request_read :: "'a proxy_state \<Rightarrow> http_request \<Rightarrow> bool" where
  "request_read st request \<longleftrightarrow> (\<exists>code line b request0 header b'.
     http_read_request_line (ps_client st) = (code, Some line, b) \<and> http_parse_request_line line = Some (Inr request0) \<and>
     http_read_header b = (0, header, b') \<and> http_request_parse_header request0 (cstr_of header) = Some (0, request))"

lemma request_parse_header_method:
  "http_request_parse_header r h = Some (c, r') \<Longrightarrow> req_method r' = req_method r \<and> req_uri r' = req_uri r"
  by (auto simp: http_request_parse_header_def Let_def bind_eq_Some_conv case_prod_beta split: if_splits)

lemma http_server_handler_outbound:
  assumes h: "http_server_handler env st = Some st'" and out: "outbound st' \<noteq> outbound st"
  shows "\<exists>request b st1. request_read st request \<and> req_method request \<noteq> None \<and>
    authenticate env request (st\<lparr>ps_client := b\<rparr>) = Some (Inr st1) \<and> dispatch env request st1 = Some st'"
proof -
  obtain code l b where rl: "http_read_request_line (ps_client st) = (code, l, b)" by (metis prod_cases3)
  then obtain line where l: "l = Some line" using h out by (cases l) (auto simp: http_server_handler_def)
  obtain request0 where p: "http_parse_request_line line = Some (Inr request0)"
    using h out rl l by (auto simp: http_server_handler_def Let_def split: option.splits sum.splits)
  obtain m where m: "req_method request0 = Some m" "method_is_known m"
    using h out rl l p by (auto simp: http_server_handler_def after_header_def Let_def bind_eq_Some_conv split: if_splits)
  obtain c header b' where rh: "http_read_header b = (c, header, b')" by (metis prod_cases3)
  then have c: "c = 0" using h out rl l p m by (auto simp: http_server_handler_def after_header_def Let_def bind_eq_Some_conv split: if_splits)
  obtain c1 request where ph: "http_request_parse_header request0 (cstr_of header) = Some (c1, request)"
    using h rl l p m rh c by (auto simp: http_server_handler_def after_header_def Let_def bind_eq_Some_conv)
  then have c1: "c1 = 0" using h out rl l p m rh c by (auto simp: http_server_handler_def after_header_def Let_def bind_eq_Some_conv split: if_splits)
  obtain r where r: "authenticate env request (st\<lparr>ps_client := b'\<rparr>) = Some r"
    using h rl l p m rh c ph c1 by (auto simp: http_server_handler_def after_header_def Let_def bind_eq_Some_conv)
  have mr: "req_method request = Some m" using request_parse_header_method[OF ph] m by simp
  have rest: "(case r of Inl st \<Rightarrow> do { http_request_free request; Some st } | Inr st \<Rightarrow> dispatch env request st) = Some st'"
    using h rl l p m rh c ph c1 r by (simp add: http_server_handler_def after_header_def Let_def)
  have rd: "request_read st request" unfolding request_read_def using rl l p rh c ph c1 by blast
  show ?thesis
  proof (cases r)
    case (Inr st1)
    then show ?thesis using rd mr r rest by auto
  next
    case (Inl st1)
    then have "st' = st1" using rest by (auto simp: bind_eq_Some_conv)
    moreover have "outbound st1 = outbound st"
    proof (cases "pe_proxy_auth env")
      case None
      then show ?thesis using r Inl by (simp add: authenticate_def)
    next
      case (Some a)
      then show ?thesis using authenticate_outbound[OF r Some mr] Inl by simp
    qed
    ultimately show ?thesis using out by simp
  qed
qed

text \<open>C25. With \<open>--proxy-auth\<close>, the proxy opens no connection and sends no byte to any server on behalf
  of a client unless the request it has read carries credentials that prove the configured user name
  and password: the exact base64 text, or a digest over the password with a nonce that the server
  issued at most ten seconds ago.\<close>

theorem proxy_forwards_only_authorised:
  assumes "http_server_handler env st = Some st'" "pe_proxy_auth env = Some a"
    "(ps_connects st', ps_to_server st') \<noteq> (ps_connects st, ps_to_server st)"
  shows "\<exists>request m hs cr. request_read st request \<and> req_method request = Some m \<and> req_header request = Hdr hs \<and>
    http_header_get_proxy_credentials hs = Some (Some cr) \<and> authorised env a m cr"
proof -
  obtain request b st1 where r: "request_read st request" "req_method request \<noteq> None"
    "authenticate env request (st\<lparr>ps_client := b\<rparr>) = Some (Inr st1)"
    using http_server_handler_outbound[OF assms(1)] assms(3) by (auto simp: outbound_def)
  then obtain m where m: "req_method request = Some m" by auto
  show ?thesis using authenticate_outbound[OF r(3) assms(2) m] r(1) m by auto
qed

definition sample_env :: "nat proxy_env" where
  "sample_env = \<lparr>pe_proxy_auth = Some ''a:b'', pe_md5 = (\<lambda>s. [0]), pe_secret = Some ''s'', pe_now = \<lparr>tv_sec = 7, tv_usec = 42\<rparr>,
     pe_resolve = (\<lambda>h p. Some 1), pe_portno = 3128, pe_is_local = (\<lambda>a. False), pe_connect = (\<lambda>a. None),
     pe_server_send = (\<lambda>n. Some 99), pe_client_send = (\<lambda>n. Some 99), pe_rounds = []\<rparr>"

definition sample_request0 :: http_request where
  "sample_request0 = http_request_init\<lparr>req_method := Some ''GET'', req_version := HTTP_10,
     req_uri := \<lparr>scheme = Some ''http'', host = Some ''h'', port = 80, path = Some ''/''\<rparr>\<rparr>"

definition sample_request :: string where
  "sample_request = ''GET http://h/ HTTP/1.0'' @ crlf @ ''Proxy-Authorization: Basic YTpi'' @ crlf @ crlf"


theorem proxy_forwards_only_authorised_witness:
  "\<exists>st'. http_server_handler sample_env (proxy_start [Data sample_request]) = Some st' \<and> ps_connects st' = [1] \<and>
    (\<exists>request m hs cr. request_read (proxy_start [Data sample_request] :: nat proxy_state) request \<and> req_method request = Some m \<and>
      req_header request = Hdr hs \<and> http_header_get_proxy_credentials hs = Some (Some cr) \<and> authorised sample_env ''a:b'' m cr)"
proof -
  let ?st = "proxy_start [Data sample_request] :: nat proxy_state"
  let ?rl = "''GET http://h/ HTTP/1.0'' @ crlf" and ?h = "''Proxy-Authorization: Basic YTpi'' @ crlf"
  have "stream (ps_client ?st) = ?rl @ concat [?h] @ crlf @ []" by code_simp
  moreover have "line_ok ?rl" "\<not> blank_line ?rl" "\<forall>k \<in> set ([?h] @ [crlf]). line_ok k" "\<forall>k \<in> set [?h]. \<not> blank_line k" "blank_line crlf"
    unfolding line_ok_iff by code_simp+
  moreover have "length ?rl < MAX_REQUEST_LINE_LENGTH" "length (concat [?h] @ crlf) < MAX_HEADER_LENGTH"
    by (simp_all add: crlf_def MAX_REQUEST_LINE_LENGTH_def MAX_HEADER_LENGTH_def)
  moreover have "http_parse_request_line ?rl = Some (Inr sample_request0)" by code_simp
  moreover have "req_method sample_request0 = Some ''GET''" "method_is_known ''GET''" by code_simp+
  ultimately obtain b where b: "http_server_handler sample_env ?st =
      after_header sample_env sample_request0 (concat [?h] @ crlf) (?st\<lparr>ps_client := b\<rparr>)"
    using http_server_handler_reads[of ?st ?rl "[?h]" crlf "[]" sample_request0 "''GET''" sample_env] by blast
  have "map_option ps_connects (after_header sample_env sample_request0 (concat [?h] @ crlf) (?st\<lparr>ps_client := b\<rparr>)) = Some [1]"
    by code_simp
  then obtain st' where h: "http_server_handler sample_env ?st = Some st'" "ps_connects st' = [1]" unfolding b[symmetric] by auto
  have "(ps_connects st', ps_to_server st') \<noteq> (ps_connects ?st, ps_to_server ?st)" using h(2) by (simp add: proxy_start_def)
  from proxy_forwards_only_authorised[OF h(1) _ this, of "''a:b''"] h show ?thesis by (simp add: sample_env_def)
qed

section \<open>What is forwarded\<close>

lemma remove_hop_by_hop_get:
  assumes "http_header_remove_hop_by_hop hs = (0, hs')" "n \<in> set HOP_BY_HOP_HEADERS" "field_name_equal k n"
  shows "http_header_get_first hs' k = None"
proof -
  have "\<exists>ts. hs' = foldl http_header_remove (foldl http_header_remove hs HOP_BY_HOP_HEADERS) ts"
    using assms(1) by (auto simp: http_header_remove_hop_by_hop_def split: option.splits intro: exI[of _ "[]"])
  then obtain ts where "hs' = foldl http_header_remove (foldl http_header_remove hs HOP_BY_HOP_HEADERS) ts" ..
  then show ?thesis using assms(2,3) by (auto simp: hdr.remove_all_get)
qed

lemma prepare_request_cases:
  assumes "prepare_request r = Some (Inr r')"
  shows "\<exists>hs hs0 buf. req_header r = Hdr hs \<and> http_header_remove_hop_by_hop hs = (0, hs0) \<and> host_header (req_uri r) = Some buf \<and>
    r' = r\<lparr>req_version := HTTP_10, req_header := Hdr (http_header_set (http_header_set hs0 ''Host'' buf) ''Connection'' ''close'')\<rparr>"
proof -
  obtain hs where h: "req_header r = Hdr hs"
    using assms by (cases "req_header r") (auto simp: prepare_request_def Let_def split: if_splits)
  obtain c hs0 where c: "http_header_remove_hop_by_hop hs = (c, hs0)" by (metis surj_pair)
  show ?thesis using assms h c
    by (auto simp: prepare_request_def Let_def bind_eq_Some_conv split: if_splits)
qed

text \<open>The request that GET, HEAD and POST forward has version 1.0, the method, the URI and the body
  length of the client's request, a Host field with the host of the URI (and its port unless it is 80),
  \<open>Connection: close\<close>, and none of the other hop-by-hop fields, in any spelling of their names: the
  proxy credentials of the client are not passed on.\<close>

theorem forwarded_request_fields:
  assumes "prepare_request r = Some (Inr r')"
  shows "req_version r' = HTTP_10 \<and> req_method r' = req_method r \<and> req_uri r' = req_uri r \<and>
    req_content_length r' = req_content_length r \<and>
    (\<exists>hs. req_header r' = Hdr hs \<and> http_header_get_first hs ''Host'' = host_header (req_uri r) \<and>
      http_header_get_first hs ''Connection'' = Some ''close'' \<and>
      (\<forall>n k. n \<in> set HOP_BY_HOP_HEADERS \<longrightarrow> n \<noteq> ''Connection'' \<longrightarrow> field_name_equal k n \<longrightarrow> http_header_get_first hs k = None))"
proof -
  obtain hs hs0 buf where h: "req_header r = Hdr hs" "http_header_remove_hop_by_hop hs = (0, hs0)" "host_header (req_uri r) = Some buf"
    "r' = r\<lparr>req_version := HTTP_10, req_header := Hdr (http_header_set (http_header_set hs0 ''Host'' buf) ''Connection'' ''close'')\<rparr>"
    using prepare_request_cases[OF assms] by blast
  let ?hs = "http_header_set (http_header_set hs0 ''Host'' buf) ''Connection'' ''close''"
  have names: "\<forall>n \<in> set HOP_BY_HOP_HEADERS. n \<noteq> ''Connection'' \<longrightarrow> \<not> field_name_equal n ''Host'' \<and> \<not> field_name_equal n ''Connection''"
    "\<not> field_name_equal ''Host'' ''Connection''" by code_simp+
  have "http_header_get_first ?hs k = None"
    if "n \<in> set HOP_BY_HOP_HEADERS" "n \<noteq> ''Connection''" "field_name_equal k n" for n k
  proof -
    have "\<not> field_name_equal k ''Host''" "\<not> field_name_equal k ''Connection''"
      using names(1) that by (auto simp: field_name_equal_def str_equal_i_lowercase)
    then show ?thesis using remove_hop_by_hop_get[OF h(2) that(1,3)] by (simp add: hdr.get_put)
  qed
  then show ?thesis using h names(2) by (simp add: hdr.get_put)
qed

theorem forwarded_request_fields_witness:
  "\<exists>r hs. prepare_request (http_request_init\<lparr>req_method := Some ''GET'',
       req_uri := \<lparr>scheme = Some ''http'', host = Some ''h'', port = 81, path = Some ''/''\<rparr>,
       req_header := Hdr [\<lparr>hname = ''proxy-authorization'', hvalue = ''x''\<rparr>]\<rparr>) = Some (Inr r) \<and>
     req_header r = Hdr hs \<and> http_header_get_first hs ''Host'' = Some ''h:81'' \<and> http_header_get_first hs ''proxy-authorization'' = None"
proof -
  let ?r = "http_request_init\<lparr>req_method := Some ''GET'', req_uri := \<lparr>scheme = Some ''http'', host = Some ''h'', port = 81, path = Some ''/''\<rparr>,
       req_header := Hdr [\<lparr>hname = ''proxy-authorization'', hvalue = ''x''\<rparr>]\<rparr>"
  have "prepare_request ?r = Some (Inr (?r\<lparr>req_version := HTTP_10, req_header := Hdr [\<lparr>hname = ''Host'', hvalue = ''h:81''\<rparr>,
      \<lparr>hname = ''Connection'', hvalue = ''close''\<rparr>]\<rparr>))" by code_simp
  from this forwarded_request_fields[OF this] obtain r hs where r: "prepare_request ?r = Some (Inr r)" "req_header r = Hdr hs"
    "http_header_get_first hs ''Host'' = host_header (req_uri ?r)"
    and none: "\<And>n k. n \<in> set HOP_BY_HOP_HEADERS \<Longrightarrow> n \<noteq> ''Connection'' \<Longrightarrow> field_name_equal k n \<Longrightarrow> http_header_get_first hs k = None"
    by blast
  have "host_header (req_uri ?r) = Some ''h:81''" by code_simp
  moreover have "''Proxy-Authorization'' \<in> set HOP_BY_HOP_HEADERS" "field_name_equal ''proxy-authorization'' ''Proxy-Authorization''" by code_simp+
  then have "http_header_get_first hs ''proxy-authorization'' = None" using none by fastforce
  ultimately show ?thesis using r by auto
qed

text \<open>Every answer of the proxy to an error is a complete response that the client side parses back
  to the code it stands for, with a header that parses; a code without a text is answered as 500.\<close>

theorem http_code2str_parses:
  "list_all (\<lambda>(code, shown).
      http_parse_status_line_code (first_line (http_code2str code)) = Some shown \<and>
      map_option fst (http_parse_header (drop (length (first_line (http_code2str code))) (http_code2str code))) = Some 0)
     [(200, 200), (400, 400), (403, 403), (405, 405), (413, 413), (501, 501), (504, 504), (500, 500), (411, 500)]"
  by code_simp

section \<open>Crashes\<close>

lemma crash_by_header:
  assumes "\<forall>k \<in> set ls. line_ok k \<and> \<not> blank_line k" "length (concat ls @ crlf) < MAX_HEADER_LENGTH"
    "http_request_parse_header sample_request0 (cstr_of (concat ls @ crlf)) = None \<or>
     (\<exists>r. http_request_parse_header sample_request0 (cstr_of (concat ls @ crlf)) = Some (400, r) \<and> req_header r = Dangling)"
  shows "http_server_handler env (proxy_start [Data (''GET http://h/ HTTP/1.0'' @ crlf @ concat ls @ crlf)]) = None"
proof -
  let ?rl = "''GET http://h/ HTTP/1.0'' @ crlf"
  let ?st = "proxy_start [Data (?rl @ concat ls @ crlf)]"
  have "line_ok ?rl" "\<not> blank_line ?rl" "line_ok crlf" "blank_line crlf" unfolding line_ok_iff by code_simp+
  moreover have "stream (ps_client ?st) = ?rl @ concat ls @ crlf @ []"
    by (simp add: proxy_start_def socket_buffer_init_def stream_def)
  moreover have "length ?rl < MAX_REQUEST_LINE_LENGTH" by (simp add: crlf_def MAX_REQUEST_LINE_LENGTH_def)
  moreover have "http_parse_request_line ?rl = Some (Inr sample_request0)" "req_method sample_request0 = Some ''GET''" "method_is_known ''GET''"
    by code_simp+
  ultimately obtain b where "http_server_handler env ?st = after_header env sample_request0 (concat ls @ crlf) (?st\<lparr>ps_client := b\<rparr>)"
    using http_server_handler_reads[of ?st ?rl ls crlf "[]" sample_request0 "''GET''" env] assms(1,2) by auto
  then show ?thesis using assms(3) by (auto simp: after_header_def http_request_free_def)
qed

lemma crash_no_host:
  "http_server_handler (sample_env\<lparr>pe_proxy_auth := None\<rparr>) (proxy_start [Data (''GET http:/h HTTP/1.0'' @ crlf @ crlf)]) = None"
proof -
  let ?rl = "''GET http:/h HTTP/1.0'' @ crlf" and ?env = "sample_env\<lparr>pe_proxy_auth := None\<rparr>"
  let ?st = "proxy_start [Data (?rl @ crlf)] :: nat proxy_state"
  let ?r = "http_request_init\<lparr>req_method := Some ''GET'', req_version := HTTP_10,
     req_uri := \<lparr>scheme = Some ''http'', host = None, port = 80, path = Some ''/h''\<rparr>\<rparr>"
  have "line_ok ?rl" "\<not> blank_line ?rl" "line_ok crlf" "blank_line crlf" unfolding line_ok_iff by code_simp+
  moreover have "stream (ps_client ?st) = ?rl @ concat [] @ crlf @ []"
    by (simp add: proxy_start_def socket_buffer_init_def stream_def)
  moreover have "length ?rl < MAX_REQUEST_LINE_LENGTH" "length (concat [] @ crlf) < MAX_HEADER_LENGTH"
    by (simp_all add: crlf_def MAX_REQUEST_LINE_LENGTH_def MAX_HEADER_LENGTH_def)
  moreover have "http_parse_request_line ?rl = Some (Inr ?r)" "req_method ?r = Some ''GET''" "method_is_known ''GET''" by code_simp+
  ultimately obtain b where b: "http_server_handler ?env ?st = after_header ?env ?r (concat [] @ crlf) (?st\<lparr>ps_client := b\<rparr>)"
    using http_server_handler_reads[of ?st ?rl "[]" crlf "[]" ?r "''GET''" ?env] by auto
  have "map_option ps_connects (after_header ?env ?r (concat [] @ crlf) (?st\<lparr>ps_client := b\<rparr>)) = None" by code_simp
  then show ?thesis using b by simp
qed

text \<open>C28. Before any authentication, a client can crash the handler: by a malformed header line behind a
  well-formed one (the header list is freed twice), by a NUL byte in a header line (the header parser
  does not end), and, where no authentication is asked for, by a URI without an authority (the
  assertion of \<open>resolve\<close> on the host name fails).\<close>

theorem proxy_handler_crashes:
  "http_server_handler env (proxy_start [Data (''GET http://h/ HTTP/1.0'' @ crlf @ concat [''A: b'' @ crlf, ''bad'' @ crlf] @ crlf)]) = None \<and>
   http_server_handler env (proxy_start [Data (''GET http://h/ HTTP/1.0'' @ crlf @ concat [''A: b'' @ [NUL] @ crlf] @ crlf)]) = None \<and>
   http_server_handler (sample_env\<lparr>pe_proxy_auth := None\<rparr>) (proxy_start [Data (''GET http:/h HTTP/1.0'' @ crlf @ crlf)]) = None"
proof (intro conjI)
  show "http_server_handler (sample_env\<lparr>pe_proxy_auth := None\<rparr>) (proxy_start [Data (''GET http:/h HTTP/1.0'' @ crlf @ crlf)]) = None"
    by (rule crash_no_host)
next
  have "map_option (\<lambda>(c, r). (c, req_header r)) (http_request_parse_header sample_request0 (cstr_of (concat [''A: b'' @ crlf, ''bad'' @ crlf] @ crlf))) = Some (400, Dangling)"
    by code_simp
  then show "http_server_handler env (proxy_start [Data (''GET http://h/ HTTP/1.0'' @ crlf @ concat [''A: b'' @ crlf, ''bad'' @ crlf] @ crlf)]) = None"
    by (intro crash_by_header) (auto simp: line_ok_iff blank_line_def crlf_def MAX_HEADER_LENGTH_def LF_def CR_def cstr_of_def NUL_def is_crlf_def)
next
  have field_A: "field_ok \<lparr>hname = ''A'', hvalue = ''b''\<rparr>"
  proof -
    have "is_token_char CHR ''A''" "word_ok ''b''" by code_simp+
    then show ?thesis unfolding field_ok_def by (auto intro!: exI[of _ "[''b'']"])
  qed
  then have "http_parse_header ''A: b'' = None"
    using parse_header_hangs[of "[]" "\<lparr>hname = ''A'', hvalue = ''b''\<rparr>"] field_A by (simp add: http_header_to_string_def)
  have "cstr_of (concat [''A: b'' @ [NUL] @ crlf] @ crlf) = ''A: b''" by code_simp
  then have "http_request_parse_header sample_request0 (cstr_of (concat [''A: b'' @ [NUL] @ crlf] @ crlf)) = None"
    by (simp add: http_request_parse_header_def \<open>http_parse_header ''A: b'' = None\<close>)
  then show "http_server_handler env (proxy_start [Data (''GET http://h/ HTTP/1.0'' @ crlf @ concat [''A: b'' @ [NUL] @ crlf] @ crlf)]) = None"
    by (intro crash_by_header) (auto simp: line_ok_iff blank_line_def crlf_def MAX_HEADER_LENGTH_def LF_def CR_def cstr_of_def NUL_def is_crlf_def)
qed

end
