(* ===== verification/Timing.thy ===== *)
theory Timing
  imports Nmap_Prelude Complex_Main
begin

text \<open>
  Timing of the scan engine: round-trip estimates, congestion windows, rate meters and the scan delay
  of \<open>timing.cc\<close>, with the setters of the time limits in \<open>NmapOps.cc\<close>.  Times are pairs of seconds and
  microseconds; the members of type \<open>int\<close> of \<open>struct timeout_info\<close> are converted to 32 bits where the code
  stores a \<open>long\<close> in them; quantities of type \<open>double\<close> are rational numbers, so rounding is not modelled.
  A failed assertion is \<^const>\<open>None\<close>.
\<close>

section \<open>Times\<close>

record tval =
  tsec :: int
  tusec :: int

definition TIMEVAL_SUBTRACT :: "tval \<Rightarrow> tval \<Rightarrow> int" where
  "TIMEVAL_SUBTRACT a b = (tsec a - tsec b) * 1000000 + tusec a - tusec b"

text \<open>Division in C truncates towards zero.\<close>

definition cdiv :: "int \<Rightarrow> int \<Rightarrow> int" where
  "cdiv a b = sgn a * sgn b * (\<bar>a\<bar> div \<bar>b\<bar>)"

definition cmod :: "int \<Rightarrow> int \<Rightarrow> int" where
  "cmod a b = a - b * cdiv a b"

definition TIMEVAL_MSEC_SUBTRACT :: "tval \<Rightarrow> tval \<Rightarrow> int" where
  "TIMEVAL_MSEC_SUBTRACT a b = (tsec a - tsec b) * 1000 + cdiv (tusec a - tusec b) 1000"

definition TIMEVAL_ADD :: "tval \<Rightarrow> int \<Rightarrow> tval" where
  "TIMEVAL_ADD b usecs =
     (let s = tsec b + cdiv usecs 1000000; u = tusec b + cmod usecs 1000000 in
      \<lparr>tsec = s + cdiv u 1000000, tusec = cmod u 1000000\<rparr>)"

definition TIMEVAL_MSEC_ADD :: "tval \<Rightarrow> int \<Rightarrow> tval" where
  "TIMEVAL_MSEC_ADD b msecs =
     (let s = tsec b + cdiv msecs 1000; u = tusec b + cmod msecs 1000 * 1000 in
      \<lparr>tsec = s + cdiv u 1000000, tusec = cmod u 1000000\<rparr>)"

definition TIMEVAL_AFTER :: "tval \<Rightarrow> tval \<Rightarrow> bool" where
  "TIMEVAL_AFTER a b \<longleftrightarrow> tsec a > tsec b \<or> (tsec a = tsec b \<and> tusec a > tusec b)"

definition usecs :: "tval \<Rightarrow> int" where
  "usecs t = tsec t * 1000000 + tusec t"

definition tval_ok :: "tval \<Rightarrow> bool" where
  "tval_ok t \<longleftrightarrow> 0 \<le> tusec t \<and> tusec t < 1000000"

lemma TIMEVAL_SUBTRACT_usecs: "TIMEVAL_SUBTRACT a b = usecs a - usecs b"
  by (simp add: TIMEVAL_SUBTRACT_def usecs_def algebra_simps)

lemma cdiv_nonneg: "0 \<le> a \<Longrightarrow> 0 < b \<Longrightarrow> cdiv a b = a div b"
  by (cases "a = 0") (auto simp: cdiv_def sgn_if)

lemma cmod_nonneg: "0 \<le> a \<Longrightarrow> 0 < b \<Longrightarrow> cmod a b = a mod b"
  by (simp add: cmod_def cdiv_nonneg minus_mult_div_eq_mod)

lemma TIMEVAL_ADD_usecs:
  assumes "tval_ok b" "0 \<le> n"
  shows "usecs (TIMEVAL_ADD b n) = usecs b + n \<and> tval_ok (TIMEVAL_ADD b n)"
proof -
  have u: "0 \<le> tusec b + n mod 1000000" using assms by (simp add: tval_ok_def)
  have "n = 1000000 * (n div 1000000) + n mod 1000000"
    "tusec b + n mod 1000000 = 1000000 * ((tusec b + n mod 1000000) div 1000000) + (tusec b + n mod 1000000) mod 1000000"
    by simp_all
  then show ?thesis using assms u
    by (simp add: TIMEVAL_ADD_def Let_def cdiv_nonneg cmod_nonneg usecs_def tval_ok_def)
qed

lemma TIMEVAL_AFTER_usecs: "tval_ok a \<Longrightarrow> tval_ok b \<Longrightarrow> TIMEVAL_AFTER a b \<longleftrightarrow> usecs a > usecs b"
  by (auto simp: TIMEVAL_AFTER_def usecs_def tval_ok_def)

section \<open>Options\<close>

record timing_ops =
  initial_rtt_timeout :: int
  min_rtt_timeout :: int
  max_rtt_timeout :: int
  scan_delay :: int
  min_parallelism :: int
  max_parallelism :: int
  timing_level :: int

definition setMaxRttTimeout :: "timing_ops \<Rightarrow> int \<Rightarrow> timing_ops option" where
  "setMaxRttTimeout o1 rtt =
     (if rtt \<le> 0 then None
      else
        let o2 = o1\<lparr>max_rtt_timeout := rtt\<rparr>;
            o3 = (if rtt < min_rtt_timeout o2 then o2\<lparr>min_rtt_timeout := rtt\<rparr> else o2) in
        Some (if rtt < initial_rtt_timeout o3 then o3\<lparr>initial_rtt_timeout := rtt\<rparr> else o3))"

definition setMinRttTimeout :: "timing_ops \<Rightarrow> int \<Rightarrow> timing_ops option" where
  "setMinRttTimeout o1 rtt =
     (if rtt < 0 then None
      else
        let o2 = o1\<lparr>min_rtt_timeout := rtt\<rparr>;
            o3 = (if rtt > max_rtt_timeout o2 then o2\<lparr>max_rtt_timeout := rtt\<rparr> else o2) in
        Some (if rtt > initial_rtt_timeout o3 then o3\<lparr>initial_rtt_timeout := rtt\<rparr> else o3))"

definition setInitialRttTimeout :: "timing_ops \<Rightarrow> int \<Rightarrow> timing_ops option" where
  "setInitialRttTimeout o1 rtt =
     (if rtt \<le> 0 then None
      else
        let o2 = o1\<lparr>initial_rtt_timeout := rtt\<rparr>;
            o3 = (if rtt > max_rtt_timeout o2 then o2\<lparr>max_rtt_timeout := rtt\<rparr> else o2) in
        Some (if rtt < min_rtt_timeout o3 then o3\<lparr>min_rtt_timeout := rtt\<rparr> else o3))"

section \<open>Round-trip times\<close>

record timeout_info =
  srtt :: int
  rttvar :: int
  timeout :: int

definition initialize_timeout_info :: "timing_ops \<Rightarrow> timeout_info" where
  "initialize_timeout_info ops = \<lparr>srtt = -1, rttvar = -1, timeout = int_of_long (initial_rtt_timeout ops * 1000)\<rparr>"

definition box :: "int \<Rightarrow> int \<Rightarrow> int \<Rightarrow> int option" where
  "box bmin bmax bnum =
     (if \<not> bmin \<le> bmax then None
      else Some (if bnum \<ge> bmax then bmax else if bnum \<le> bmin then bmin else bnum))"

text \<open>The common end of both branches: the cap on the variance and the limits of the timeout.\<close>

definition finish_timeouts :: "timing_ops \<Rightarrow> timeout_info \<Rightarrow> timeout_info option" where
  "finish_timeouts ops to =
     (let to1 = (if rttvar to > 2300000 then to\<lparr>rttvar := 2000000\<rparr> else to) in do {
        t \<leftarrow> box (min_rtt_timeout ops * 1000) (max_rtt_timeout ops * 1000) (timeout to1);
        Some (to1\<lparr>timeout :=
          (if scan_delay ops \<noteq> 0 then int_of_long (max (take_bit 32 t) (take_bit 32 (scan_delay ops * 1000))) else t)\<rparr>) })"

definition adjust_timeouts2 :: "timing_ops \<Rightarrow> tval \<Rightarrow> tval \<Rightarrow> timeout_info \<Rightarrow> timeout_info option" where
  "adjust_timeouts2 ops sent received to =
     (let d = TIMEVAL_SUBTRACT received sent; delta = (if d < 0 \<and> d > -50000 then 10000 else d) in
      if srtt to = -1 \<and> rttvar to = -1 then
        let s = int_of_long delta; v = max 5000 (min s 2000000) in
        finish_timeouts ops \<lparr>srtt = s, rttvar = v, timeout = int_of_long (s + 4 * v)\<rparr>
      else if delta \<ge> 8000000 \<or> delta < 0 then Some to
      else
        let rttdelta = delta - srtt to in
        if rttdelta > 1500000 \<and> rttdelta > 3 * srtt to + 2 * rttvar to then Some to
        else
          let s = int_of_long (srtt to + rttdelta div 8);
              v = int_of_long (rttvar to + (\<bar>rttdelta\<bar> - rttvar to) div 4) in
          finish_timeouts ops \<lparr>srtt = s, rttvar = v, timeout = int_of_long (s + 4 * v)\<rparr>)"

subsection \<open>Bounds\<close>

definition ops_ok :: "timing_ops \<Rightarrow> bool" where
  "ops_ok ops \<longleftrightarrow> 0 \<le> min_rtt_timeout ops \<and> min_rtt_timeout ops \<le> initial_rtt_timeout ops \<and>
     initial_rtt_timeout ops \<le> max_rtt_timeout ops \<and> max_rtt_timeout ops \<le> 2000000 \<and>
     0 \<le> scan_delay ops \<and> scan_delay ops \<le> 2000000"

definition rtt_ok :: "timeout_info \<Rightarrow> bool" where
  "rtt_ok to \<longleftrightarrow> (srtt to = -1 \<and> rttvar to = -1) \<or>
     (0 \<le> srtt to \<and> srtt to < 8000000 \<and> 0 \<le> rttvar to \<and> rttvar to \<le> 2300000)"

lemma box_in: "a \<le> b \<Longrightarrow> \<exists>y. box a b x = Some y \<and> a \<le> y \<and> y \<le> b"
  by (auto simp: box_def)

lemma finish_timeouts_ok:
  assumes "ops_ok ops" "0 \<le> srtt to" "srtt to < 8000000" "0 \<le> rttvar to"
  shows "\<exists>to'. finish_timeouts ops to = Some to' \<and> rtt_ok to' \<and> srtt to' = srtt to \<and>
    min_rtt_timeout ops * 1000 \<le> timeout to' \<and> scan_delay ops * 1000 \<le> timeout to' \<and>
    timeout to' \<le> max (max_rtt_timeout ops * 1000) (scan_delay ops * 1000)"
proof -
  let ?to1 = "if rttvar to > 2300000 then to\<lparr>rttvar := 2000000\<rparr> else to"
  obtain t where t: "box (min_rtt_timeout ops * 1000) (max_rtt_timeout ops * 1000) (timeout ?to1) = Some t"
    "min_rtt_timeout ops * 1000 \<le> t" "t \<le> max_rtt_timeout ops * 1000"
    using box_in[of "min_rtt_timeout ops * 1000" "max_rtt_timeout ops * 1000" "timeout ?to1"] assms(1)
    by (auto simp: ops_ok_def)
  have tb: "take_bit 32 x = x" if "0 \<le> x" "x \<le> 2000000000" for x :: int
    using that by (intro take_bit_int_eq_self) simp_all
  have m: "0 \<le> max t (scan_delay ops * 1000)" "max t (scan_delay ops * 1000) \<le> 2000000000" "0 \<le> t" "t \<le> 2000000000"
    "0 \<le> scan_delay ops * 1000" "scan_delay ops * 1000 \<le> 2000000000"
    using assms(1) t by (auto simp: ops_ok_def)
  have d: "int_of_long (max (take_bit 32 t) (take_bit 32 (scan_delay ops * 1000))) = max t (scan_delay ops * 1000)"
    using tb[OF m(3,4)] tb[OF m(5,6)] int_of_long_id[of "max t (scan_delay ops * 1000)"] m(1,2) by simp
  let ?T = "if scan_delay ops \<noteq> 0 then max t (scan_delay ops * 1000) else t"
  have "finish_timeouts ops to = Some (?to1\<lparr>timeout := ?T\<rparr>)" using t(1) d by (simp add: finish_timeouts_def Let_def)
  moreover have "rtt_ok (?to1\<lparr>timeout := ?T\<rparr>)" using assms by (simp add: rtt_ok_def)
  moreover have "min_rtt_timeout ops * 1000 \<le> ?T" "scan_delay ops * 1000 \<le> ?T"
    "?T \<le> max (max_rtt_timeout ops * 1000) (scan_delay ops * 1000)"
    using t assms(1) by (auto simp: ops_ok_def)
  ultimately show ?thesis by auto
qed

lemma smoothed_range:
  fixes s d :: int
  assumes "0 \<le> s" "s < B" "0 \<le> d" "d < B"
  shows "0 \<le> s + (d - s) div 8 \<and> s + (d - s) div 8 < B"
proof -
  have "d - s = 8 * ((d - s) div 8) + (d - s) mod 8" "0 \<le> (d - s) mod 8" "(d - s) mod 8 < 8" by simp_all
  then show ?thesis using assms by linarith
qed

lemma variance_range:
  fixes v a :: int
  assumes "0 \<le> v" "v \<le> 2300000" "0 \<le> a" "a < 8000000"
  shows "0 \<le> v + (a - v) div 4 \<and> v + (a - v) div 4 < 8000000"
proof -
  have "a - v = 4 * ((a - v) div 4) + (a - v) mod 4" "0 \<le> (a - v) mod 4" "(a - v) mod 4 < 4" by simp_all
  then show ?thesis using assms by linarith
qed

lemma adjust_update:
  assumes "rtt_ok to" "srtt to \<noteq> -1" "0 \<le> d" "d < 8000000" "\<not> (d - srtt to > 1500000 \<and> d - srtt to > 3 * srtt to + 2 * rttvar to)"
    "TIMEVAL_SUBTRACT received sent = d"
  shows "adjust_timeouts2 ops sent received to =
    finish_timeouts ops \<lparr>srtt = srtt to + (d - srtt to) div 8, rttvar = rttvar to + (\<bar>d - srtt to\<bar> - rttvar to) div 4,
      timeout = srtt to + (d - srtt to) div 8 + 4 * (rttvar to + (\<bar>d - srtt to\<bar> - rttvar to) div 4)\<rparr>"
proof -
  have r: "0 \<le> srtt to" "srtt to < 8000000" "0 \<le> rttvar to" "rttvar to \<le> 2300000" using assms(1,2) by (auto simp: rtt_ok_def)
  have a: "0 \<le> \<bar>d - srtt to\<bar>" "\<bar>d - srtt to\<bar> < 8000000" using r assms(3,4) by linarith+
  note s = smoothed_range[OF r(1,2) assms(3,4)] and v = variance_range[OF r(3,4) a]
  show ?thesis unfolding adjust_timeouts2_def Let_def assms(6)
    using assms(2,3,4,5) s v by (auto simp: int_of_long_id)
qed

text \<open>From the initial estimate or any later one, a sample of less than eight seconds (and not
  more than fifty milliseconds before the probe was sent) never fails an assertion, keeps the
  smoothed time in 0 to 8 seconds and the variance at most 2.3 seconds, and leaves a timeout within the
  limits of the user: at least the minimum and the scan delay, at most the maximum or the scan
  delay.  No 32-bit member overflows.\<close>

theorem adjust_timeouts2_bounds:
  assumes "ops_ok ops" "rtt_ok to" "-50000 < TIMEVAL_SUBTRACT received sent" "TIMEVAL_SUBTRACT received sent < 8000000"
  shows "\<exists>to'. adjust_timeouts2 ops sent received to = Some to' \<and> rtt_ok to' \<and>
    (to' = to \<or> min_rtt_timeout ops * 1000 \<le> timeout to' \<and> scan_delay ops * 1000 \<le> timeout to' \<and>
      timeout to' \<le> max (max_rtt_timeout ops * 1000) (scan_delay ops * 1000))"
proof -
  define d where "d = TIMEVAL_SUBTRACT received sent"
  define e where "e = (if d < 0 then 10000 else d)"
  have e: "0 \<le> e" "e < 8000000" using assms(3,4) by (simp_all add: e_def d_def)
  have del: "(if d < 0 \<and> d > -50000 then 10000 else d) = e" using assms(3) by (simp add: e_def d_def)
  show ?thesis
  proof (cases "srtt to = -1")
    case True
    then have "rttvar to = -1" using assms(2) by (simp add: rtt_ok_def)
    then have "adjust_timeouts2 ops sent received to =
        finish_timeouts ops \<lparr>srtt = e, rttvar = max 5000 (min e 2000000), timeout = int_of_long (e + 4 * max 5000 (min e 2000000))\<rparr>"
      using True e unfolding adjust_timeouts2_def Let_def d_def[symmetric] del by (simp add: int_of_long_id)
    then show ?thesis
      using finish_timeouts_ok[OF assms(1), of "\<lparr>srtt = e, rttvar = max 5000 (min e 2000000), timeout = int_of_long (e + 4 * max 5000 (min e 2000000))\<rparr>"] e
      by (auto simp: le_max_iff_disj)
  next
    case False
    then have r: "0 \<le> srtt to" "srtt to < 8000000" "0 \<le> rttvar to" "rttvar to \<le> 2300000" using assms(2) by (auto simp: rtt_ok_def)
    have a: "0 \<le> \<bar>e - srtt to\<bar>" "\<bar>e - srtt to\<bar> < 8000000" using r e by linarith+
    note s = smoothed_range[OF r(1,2) e] and v = variance_range[OF r(3,4) a]
    let ?n = "\<lparr>srtt = srtt to + (e - srtt to) div 8, rttvar = rttvar to + (\<bar>e - srtt to\<bar> - rttvar to) div 4,
      timeout = srtt to + (e - srtt to) div 8 + 4 * (rttvar to + (\<bar>e - srtt to\<bar> - rttvar to) div 4)\<rparr>"
    have "adjust_timeouts2 ops sent received to = Some to \<or> adjust_timeouts2 ops sent received to = finish_timeouts ops ?n"
      unfolding adjust_timeouts2_def Let_def d_def[symmetric] del using False e s v by (simp add: int_of_long_id)
    then show ?thesis using finish_timeouts_ok[OF assms(1), of ?n] s v assms(2) by auto
  qed
qed


theorem adjust_timeouts2_bounds_witness:
  "\<exists>to'. adjust_timeouts2 \<lparr>initial_rtt_timeout = 1000, min_rtt_timeout = 100, max_rtt_timeout = 10000, scan_delay = 0,
      min_parallelism = 0, max_parallelism = 0, timing_level = 3\<rparr> \<lparr>tsec = 5, tusec = 0\<rparr> \<lparr>tsec = 5, tusec = 30000\<rparr>
      \<lparr>srtt = -1, rttvar = -1, timeout = 1000000\<rparr> = Some to' \<and> rtt_ok to'"
proof -
  let ?ops = "\<lparr>initial_rtt_timeout = 1000, min_rtt_timeout = 100, max_rtt_timeout = 10000, scan_delay = 0,
      min_parallelism = 0, max_parallelism = 0, timing_level = 3\<rparr>"
  have "ops_ok ?ops" by (simp add: ops_ok_def)
  moreover have "rtt_ok \<lparr>srtt = -1, rttvar = -1, timeout = 1000000\<rparr>" by (simp add: rtt_ok_def)
  ultimately show ?thesis
    using adjust_timeouts2_bounds[of ?ops "\<lparr>srtt = -1, rttvar = -1, timeout = 1000000\<rparr>" "\<lparr>tsec = 5, tusec = 30000\<rparr>" "\<lparr>tsec = 5, tusec = 0\<rparr>"]
    by (auto simp: TIMEVAL_SUBTRACT_def)
qed

subsection \<open>Convergence\<close>

text \<open>The estimate after \<open>n\<close> samples of the same round-trip time \<open>d\<close>.\<close>

definition sample :: "timing_ops \<Rightarrow> int \<Rightarrow> timeout_info \<Rightarrow> timeout_info option" where
  "sample ops d to = adjust_timeouts2 ops \<lparr>tsec = 0, tusec = 0\<rparr> \<lparr>tsec = 0, tusec = d\<rparr> to"

fun samples :: "timing_ops \<Rightarrow> int \<Rightarrow> nat \<Rightarrow> timeout_info \<Rightarrow> timeout_info option" where
  "samples ops d 0 to = Some to"
| "samples ops d (Suc n) to = do { to' \<leftarrow> sample ops d to; samples ops d n to' }"

lemma smooth_step:
  fixes s d :: int
  defines "s' \<equiv> s + (d - s) div 8"
  shows "d < s \<Longrightarrow> d \<le> s' \<and> s' < s" "s \<le> d - 8 \<Longrightarrow> s < s' \<and> s' \<le> d" "d - 8 < s \<Longrightarrow> s \<le> d \<Longrightarrow> s' = s"
proof -
  have q: "d - s = 8 * ((d - s) div 8) + (d - s) mod 8" "0 \<le> (d - s) mod 8" "(d - s) mod 8 < 8" by simp_all
  show "d < s \<Longrightarrow> d \<le> s' \<and> s' < s" "s \<le> d - 8 \<Longrightarrow> s < s' \<and> s' \<le> d" "d - 8 < s \<Longrightarrow> s \<le> d \<Longrightarrow> s' = s"
    unfolding s'_def using q by linarith+
qed

lemma sample_step:
  assumes "ops_ok ops" "rtt_ok to" "srtt to \<noteq> -1" "0 \<le> d" "d < 8000000" "d - srtt to \<le> 1500000"
  shows "\<exists>to'. sample ops d to = Some to' \<and> rtt_ok to' \<and> srtt to' \<noteq> -1 \<and> srtt to' = srtt to + (d - srtt to) div 8"
proof -
  let ?n = "\<lparr>srtt = srtt to + (d - srtt to) div 8, rttvar = rttvar to + (\<bar>d - srtt to\<bar> - rttvar to) div 4,
    timeout = srtt to + (d - srtt to) div 8 + 4 * (rttvar to + (\<bar>d - srtt to\<bar> - rttvar to) div 4)\<rparr>"
  have r: "0 \<le> srtt to" "srtt to < 8000000" "0 \<le> rttvar to" "rttvar to \<le> 2300000" using assms(2,3) by (auto simp: rtt_ok_def)
  have a: "0 \<le> \<bar>d - srtt to\<bar>" "\<bar>d - srtt to\<bar> < 8000000" using r assms(4,5) by linarith+
  note s = smoothed_range[OF r(1,2) assms(4,5)] and v = variance_range[OF r(3,4) a]
  have "sample ops d to = finish_timeouts ops ?n" unfolding sample_def
    by (rule adjust_update[OF assms(2-5)]) (use assms(6) in \<open>simp_all add: TIMEVAL_SUBTRACT_def\<close>)
  then show ?thesis using finish_timeouts_ok[OF assms(1), of ?n] s v by auto
qed

lemma samples_keep:
  assumes "ops_ok ops" "0 \<le> d" "d < 8000000"
  shows "rtt_ok to \<Longrightarrow> srtt to \<noteq> -1 \<Longrightarrow> d - 8 < srtt to \<Longrightarrow> srtt to \<le> d \<Longrightarrow>
    \<exists>to'. samples ops d n to = Some to' \<and> srtt to' = srtt to \<and> rtt_ok to'"
proof (induction n arbitrary: to)
  case (Suc n)
  obtain to1 where t: "sample ops d to = Some to1" "rtt_ok to1" "srtt to1 \<noteq> -1" "srtt to1 = srtt to + (d - srtt to) div 8"
    using sample_step[OF assms(1) Suc.prems(1,2) assms(2,3)] Suc.prems by auto
  then have "srtt to1 = srtt to" using smooth_step(3)[of d "srtt to"] Suc.prems by simp
  then show ?case using Suc.IH[OF t(2,3)] t(1) Suc.prems by auto
qed simp

lemma samples_add: "samples ops d (m + n) to = samples ops d m to \<bind> samples ops d n"
  by (induction m arbitrary: to) (auto split: bind_splits)

lemma samples_reach:
  assumes "ops_ok ops" "0 \<le> d" "d < 8000000"
  shows "rtt_ok to \<Longrightarrow> srtt to \<noteq> -1 \<Longrightarrow> d - srtt to \<le> 1500000 \<Longrightarrow>
    \<exists>n to'. samples ops d n to = Some to' \<and> rtt_ok to' \<and> srtt to' \<noteq> -1 \<and> d - 8 < srtt to' \<and> srtt to' \<le> d"
proof (induction "nat \<bar>srtt to - d\<bar>" arbitrary: to rule: less_induct)
  case less
  show ?case
  proof (cases "d - 8 < srtt to \<and> srtt to \<le> d")
    case True
    then have "samples ops d 0 to = Some to \<and> rtt_ok to \<and> srtt to \<noteq> -1 \<and> d - 8 < srtt to \<and> srtt to \<le> d" using less.prems by simp
    then show ?thesis by blast
  next
    case False
    obtain to1 where t: "sample ops d to = Some to1" "rtt_ok to1" "srtt to1 \<noteq> -1" "srtt to1 = srtt to + (d - srtt to) div 8"
      using sample_step[OF assms(1) less.prems(1,2) assms(2,3) less.prems(3)] by blast
    have c: "nat \<bar>srtt to1 - d\<bar> < nat \<bar>srtt to - d\<bar>" "d - srtt to1 \<le> 1500000"
      using smooth_step(1,2)[of d "srtt to"] False t(4) less.prems(3) by linarith+
    obtain n to' where n: "samples ops d n to1 = Some to' \<and> rtt_ok to' \<and> srtt to' \<noteq> -1 \<and> d - 8 < srtt to' \<and> srtt to' \<le> d"
      using less.hyps[OF c(1) t(2,3) c(2)] by blast
    then have "samples ops d (Suc n) to = Some to'" using t(1) by simp
    then show ?thesis using n by blast
  qed
qed

text \<open>C29. The smoothed round-trip time converges: when all further samples are \<open>d\<close>, and \<open>d\<close> is not more
  than 1.5 seconds above the estimate (above that the samples are taken for bogus), the estimate is, from
  some sample on, always within eight microseconds below \<open>d\<close>.\<close>

theorem samples_converge:
  assumes "ops_ok ops" "rtt_ok to" "srtt to \<noteq> -1" "0 \<le> d" "d < 8000000" "d - srtt to \<le> 1500000"
  shows "\<exists>N. \<forall>n. \<exists>to'. samples ops d (N + n) to = Some to' \<and> d - 8 < srtt to' \<and> srtt to' \<le> d"
proof -
  obtain N to1 where N: "samples ops d N to = Some to1" "rtt_ok to1" "srtt to1 \<noteq> -1" "d - 8 < srtt to1" "srtt to1 \<le> d"
    using samples_reach[OF assms(1,4,5,2,3,6)] by blast
  have "\<exists>to'. samples ops d (N + n) to = Some to' \<and> d - 8 < srtt to' \<and> srtt to' \<le> d" for n
    using samples_keep[OF assms(1,4,5) N(2-5), of n] N by (auto simp: samples_add)
  then show ?thesis by blast
qed

theorem samples_converge_witness:
  "\<exists>N. \<forall>n. \<exists>to'. samples \<lparr>initial_rtt_timeout = 1000, min_rtt_timeout = 100, max_rtt_timeout = 10000, scan_delay = 0,
      min_parallelism = 0, max_parallelism = 0, timing_level = 3\<rparr> 40000 (N + n) \<lparr>srtt = 900000, rttvar = 5000, timeout = 1000000\<rparr> = Some to' \<and>
    39992 < srtt to' \<and> srtt to' \<le> 40000"
  using samples_converge[of "\<lparr>initial_rtt_timeout = 1000, min_rtt_timeout = 100, max_rtt_timeout = 10000, scan_delay = 0,
      min_parallelism = 0, max_parallelism = 0, timing_level = 3\<rparr>" "\<lparr>srtt = 900000, rttvar = 5000, timeout = 1000000\<rparr>" 40000]
  by (simp add: ops_ok_def rtt_ok_def)

text \<open>The first sample is not checked: a reply that seems to come a second before its probe makes the
  smoothed time negative, although every later sample of that kind is ignored.\<close>

lemma first_sample_negative:
  "\<exists>to'. adjust_timeouts2 \<lparr>initial_rtt_timeout = 1000, min_rtt_timeout = 100, max_rtt_timeout = 10000, scan_delay = 0,
      min_parallelism = 0, max_parallelism = 0, timing_level = 3\<rparr> \<lparr>tsec = 6, tusec = 0\<rparr> \<lparr>tsec = 5, tusec = 0\<rparr>
      \<lparr>srtt = -1, rttvar = -1, timeout = 1000000\<rparr> = Some to' \<and> srtt to' = -1000000"
  by (simp add: adjust_timeouts2_def finish_timeouts_def TIMEVAL_SUBTRACT_def box_def int_of_long_id Let_def)

lemma setRttTimeout_ordered:
  assumes "0 \<le> min_rtt_timeout ops" "min_rtt_timeout ops \<le> initial_rtt_timeout ops" "initial_rtt_timeout ops \<le> max_rtt_timeout ops"
    "setMaxRttTimeout ops r = Some ops' \<or> setMinRttTimeout ops r = Some ops' \<or> setInitialRttTimeout ops r = Some ops'"
  shows "0 \<le> min_rtt_timeout ops' \<and> min_rtt_timeout ops' \<le> initial_rtt_timeout ops' \<and> initial_rtt_timeout ops' \<le> max_rtt_timeout ops'"
  using assms by (auto simp: setMaxRttTimeout_def setMinRttTimeout_def setInitialRttTimeout_def Let_def split: if_splits)

end
