(* ===== verification/Congestion.thy ===== *)
theory Congestion
  imports Timing
begin

text \<open>
  Congestion control, rate meters, progress reports and the scan delay of \<open>timing.cc\<close>.  Quantities of
  type \<open>double\<close> are rational numbers.  Integers are unbounded where the code only counts packets or
  replies.  A failed assertion is \<^const>\<open>None\<close>.
\<close>

section \<open>Congestion windows\<close>

record scan_performance_vars =
  low_cwnd :: int
  host_initial_cwnd :: int
  group_initial_cwnd :: int
  max_cwnd :: int
  slow_incr :: int
  ca_incr :: int
  cc_scale_max :: int
  initial_ssthresh :: int
  group_drop_cwnd_divisor :: rat
  group_drop_ssthresh_divisor :: rat
  host_drop_ssthresh_divisor :: rat

definition scan_performance_vars_init :: "timing_ops \<Rightarrow> scan_performance_vars option" where
  "scan_performance_vars_init ops =
     (let low = (if min_parallelism ops \<noteq> 0 then min_parallelism ops else 1);
          high = max low (if max_parallelism ops \<noteq> 0 then max_parallelism ops else 300);
          divisor = (if timing_level ops \<le> 3 then 3 / 2 else if timing_level ops \<le> 4 then 4 / 3 else 5 / 4) in do {
        ini \<leftarrow> box low high 10;
        Some \<lparr>low_cwnd = low, host_initial_cwnd = ini, group_initial_cwnd = ini, max_cwnd = high, slow_incr = 1,
          ca_incr = (if timing_level ops < 4 then 1 else 2), cc_scale_max = 50, initial_ssthresh = 75,
          group_drop_cwnd_divisor = 2, group_drop_ssthresh_divisor = divisor, host_drop_ssthresh_divisor = divisor\<rparr> })"

record ultra_timing_vals =
  cwnd :: rat
  ssthresh :: int
  num_replies_expected :: int
  num_replies_received :: int
  num_updates :: int
  last_drop :: tval

datatype ultra_timing_type = TIMING_HOST | TIMING_GROUP

definition init_ultra_timing_vals :: "ultra_timing_type \<Rightarrow> scan_performance_vars \<Rightarrow> tval \<Rightarrow> ultra_timing_vals" where
  "init_ultra_timing_vals utt perf now =
     \<lparr>cwnd = of_int (if utt = TIMING_HOST then host_initial_cwnd perf else group_initial_cwnd perf),
      ssthresh = initial_ssthresh perf, num_replies_expected = 0, num_replies_received = 0, num_updates = 0, last_drop = now\<rparr>"

definition cc_scale :: "scan_performance_vars \<Rightarrow> ultra_timing_vals \<Rightarrow> rat option" where
  "cc_scale perf t =
     (if \<not> num_replies_received t > 0 then None
      else Some (min (of_int (num_replies_expected t) / of_int (num_replies_received t)) (of_int (cc_scale_max perf))))"

definition ack :: "scan_performance_vars \<Rightarrow> rat \<Rightarrow> ultra_timing_vals \<Rightarrow> ultra_timing_vals option" where
  "ack perf scale t =
     (let t1 = t\<lparr>num_replies_received := num_replies_received t + 1\<rparr> in do {
        s \<leftarrow> cc_scale perf t1;
        let c = (if cwnd t1 < of_int (ssthresh t1)
                 then min (cwnd t1 + of_int (slow_incr perf) * s * scale) (of_int (ssthresh t1))
                 else cwnd t1 + of_int (ca_incr perf) / cwnd t1 * s * scale);
        Some (t1\<lparr>cwnd := (if c > of_int (max_cwnd perf) then of_int (max_cwnd perf) else c)\<rparr>) })"

definition drop_host :: "nat \<Rightarrow> scan_performance_vars \<Rightarrow> tval \<Rightarrow> ultra_timing_vals \<Rightarrow> ultra_timing_vals" where
  "drop_host in_flight perf now t =
     t\<lparr>cwnd := of_int (low_cwnd perf), ssthresh := \<lfloor>max (of_nat in_flight / host_drop_ssthresh_divisor perf) 2\<rfloor>, last_drop := now\<rparr>"

definition drop_group :: "nat \<Rightarrow> scan_performance_vars \<Rightarrow> tval \<Rightarrow> ultra_timing_vals \<Rightarrow> ultra_timing_vals" where
  "drop_group in_flight perf now t =
     t\<lparr>cwnd := max (of_int (low_cwnd perf)) (cwnd t / group_drop_cwnd_divisor perf),
       ssthresh := \<lfloor>max (of_nat in_flight / group_drop_ssthresh_divisor perf) 2\<rfloor>, last_drop := now\<rparr>"

subsection \<open>Bounds\<close>

definition perf_ok :: "scan_performance_vars \<Rightarrow> bool" where
  "perf_ok p \<longleftrightarrow> 1 \<le> low_cwnd p \<and> low_cwnd p \<le> group_initial_cwnd p \<and> group_initial_cwnd p \<le> max_cwnd p \<and>
     low_cwnd p \<le> host_initial_cwnd p \<and> host_initial_cwnd p \<le> max_cwnd p \<and>
     0 \<le> slow_incr p \<and> 0 \<le> ca_incr p \<and> 1 \<le> cc_scale_max p \<and> 2 \<le> initial_ssthresh p \<and>
     1 \<le> group_drop_cwnd_divisor p \<and> 0 < group_drop_ssthresh_divisor p \<and> 0 < host_drop_ssthresh_divisor p"

definition cc_ok :: "scan_performance_vars \<Rightarrow> ultra_timing_vals \<Rightarrow> bool" where
  "cc_ok p t \<longleftrightarrow> of_int (low_cwnd p) \<le> cwnd t \<and> cwnd t \<le> of_int (max_cwnd p) \<and> 2 \<le> ssthresh t \<and>
     0 \<le> num_replies_received t \<and> num_replies_received t \<le> num_replies_expected t"

lemma scan_performance_vars_init_ok:
  assumes "0 \<le> min_parallelism ops" "0 \<le> max_parallelism ops"
  shows "\<exists>p. scan_performance_vars_init ops = Some p \<and> perf_ok p"
  using assms by (auto simp: scan_performance_vars_init_def box_def perf_ok_def Let_def)

lemma init_ultra_timing_vals_ok: "perf_ok p \<Longrightarrow> cc_ok p (init_ultra_timing_vals utt p now)"
  by (auto simp: perf_ok_def cc_ok_def init_ultra_timing_vals_def)

lemma two_le_floor_max: "2 \<le> \<lfloor>max x 2\<rfloor>" for x :: rat
  by (simp add: le_floor_iff)

lemma drop_host_ok: "perf_ok p \<Longrightarrow> cc_ok p t \<Longrightarrow> cc_ok p (drop_host n p now t)"
  by (auto simp: perf_ok_def cc_ok_def drop_host_def two_le_floor_max intro: order_trans)

lemma shrink_le:
  fixes c d :: rat
  assumes "0 \<le> c" "1 \<le> d"
  shows "c / d \<le> c"
  using mult_left_mono[OF assms(2,1)] assms(2) by (simp add: divide_le_eq)

lemma drop_group_ok:
  assumes "perf_ok p" "cc_ok p t"
  shows "cc_ok p (drop_group n p now t)"
proof -
  have "0 \<le> cwnd t" using assms by (auto simp: perf_ok_def cc_ok_def intro: order_trans[of 0 "of_int (low_cwnd p)"])
  then have "cwnd t / group_drop_cwnd_divisor p \<le> cwnd t" using assms(1) by (intro shrink_le) (auto simp: perf_ok_def)
  then show ?thesis using assms by (auto simp: cc_ok_def drop_group_def two_le_floor_max)
qed

lemma cc_scale_some:
  assumes "perf_ok p" "0 < num_replies_received t" "num_replies_received t \<le> num_replies_expected t"
  shows "\<exists>s. cc_scale p t = Some s \<and> 1 \<le> s \<and> s \<le> of_int (cc_scale_max p)"
  using assms by (auto simp: cc_scale_def perf_ok_def)

text \<open>A reply is counted as expected before it is acknowledged, hence the premise.\<close>

lemma ack_ok:
  assumes "perf_ok p" "cc_ok p t" "num_replies_received t < num_replies_expected t" "0 \<le> scale"
  shows "\<exists>t'. ack p scale t = Some t' \<and> cc_ok p t' \<and> cwnd t \<le> cwnd t' \<and> num_replies_expected t' = num_replies_expected t \<and>
    num_replies_received t' = num_replies_received t + 1 \<and> ssthresh t' = ssthresh t \<and> last_drop t' = last_drop t"
proof -
  let ?t1 = "t\<lparr>num_replies_received := num_replies_received t + 1\<rparr>"
  have "0 < num_replies_received ?t1" "num_replies_received ?t1 \<le> num_replies_expected ?t1" using assms(2,3) by (auto simp: cc_ok_def)
  from cc_scale_some[OF assms(1) this] obtain s where s: "cc_scale p ?t1 = Some s" "1 \<le> s" by blast
  have cw: "1 \<le> cwnd t" using assms(1,2) by (auto simp: perf_ok_def cc_ok_def intro: order_trans[of 1 "of_int (low_cwnd p)"])
  have i: "0 \<le> (of_int (slow_incr p) :: rat) * s * scale" "0 \<le> of_int (ca_incr p) / cwnd t * s * scale"
    using s assms(1,4) cw by (simp_all add: perf_ok_def)
  let ?c = "if cwnd t < of_int (ssthresh t) then min (cwnd t + of_int (slow_incr p) * s * scale) (of_int (ssthresh t))
     else cwnd t + of_int (ca_incr p) / cwnd t * s * scale"
  have c: "cwnd t \<le> ?c" using i by (auto simp: min_def)
  have "ack p scale t = Some (?t1\<lparr>cwnd := (if ?c > of_int (max_cwnd p) then of_int (max_cwnd p) else ?c)\<rparr>)"
    using s(1) by (simp add: ack_def Let_def)
  then show ?thesis using c assms(2,3) by (auto simp: cc_ok_def)
qed

lemma expected_ok: "cc_ok p t \<Longrightarrow> cc_ok p (t\<lparr>num_replies_expected := num_replies_expected t + 1, num_updates := num_updates t + 1\<rparr>)"
  by (simp add: cc_ok_def)

section \<open>Rate meters\<close>

record rate_meter =
  current_rate_history :: rat
  start_tv :: tval
  stop_tv :: tval
  last_update_tv :: tval
  total :: rat
  current_rate :: rat

definition tv_zero :: tval where
  "tv_zero = \<lparr>tsec = 0, tusec = 0\<rparr>"

definition tv_isSet :: "tval \<Rightarrow> bool" where
  "tv_isSet tv \<longleftrightarrow> tsec tv \<noteq> 0 \<or> tusec tv \<noteq> 0"

definition RateMeter_new :: "rat \<Rightarrow> rate_meter" where
  "RateMeter_new h = \<lparr>current_rate_history = h, start_tv = tv_zero, stop_tv = tv_zero, last_update_tv = tv_zero, total = 0, current_rate = 0\<rparr>"

definition RateMeter_start :: "tval \<Rightarrow> rate_meter \<Rightarrow> rate_meter option" where
  "RateMeter_start now m = (if tv_isSet (start_tv m) \<or> tv_isSet (stop_tv m) then None else Some (m\<lparr>start_tv := now\<rparr>))"

definition RateMeter_stop :: "tval \<Rightarrow> rate_meter \<Rightarrow> rate_meter option" where
  "RateMeter_stop now m = (if \<not> tv_isSet (start_tv m) \<or> tv_isSet (stop_tv m) then None else Some (m\<lparr>stop_tv := now\<rparr>))"

definition secs_between :: "tval \<Rightarrow> tval \<Rightarrow> rat" where
  "secs_between a b = of_int (TIMEVAL_SUBTRACT a b) / 1000000"

definition double_epsilon :: rat where
  "double_epsilon = 1 / 2 ^ 52"

definition RateMeter_update :: "rat \<Rightarrow> tval \<Rightarrow> rate_meter \<Rightarrow> rate_meter option" where
  "RateMeter_update amount now0 m0 =
     (if \<not> tv_isSet (start_tv m0) \<or> tv_isSet (stop_tv m0) then None
      else
        let m1 = m0\<lparr>total := total m0 + amount\<rparr>;
            m = (if \<not> tv_isSet (last_update_tv m1) then m1\<lparr>last_update_tv := start_tv m1\<rparr> else m1);
            diff0 = secs_between now0 (last_update_tv m) in
        if diff0 < - current_rate_history m then Some m
        else
          let now = (if diff0 < 0 then last_update_tv m else now0);
              diff = (if diff0 < 0 then 0 else diff0);
              tmp = TIMEVAL_ADD (start_tv m) \<lfloor>current_rate_history m * 1000000\<rfloor>;
              interval = (if TIMEVAL_AFTER now tmp then max (current_rate_history m) diff else secs_between now (start_tv m)) in
          if \<not> diff \<le> interval + double_epsilon then None
          else if interval = 0 then Some m
          else
            let count = (interval - diff) * current_rate m + amount in
            Some (m\<lparr>current_rate := count / interval, last_update_tv := now\<rparr>))"

definition RateMeter_elapsedTime :: "tval \<Rightarrow> rate_meter \<Rightarrow> rat option" where
  "RateMeter_elapsedTime now m =
     (if \<not> tv_isSet (start_tv m) then None
      else Some (secs_between (if tv_isSet (stop_tv m) then stop_tv m else now) (start_tv m)))"

definition RateMeter_getOverallRate :: "tval \<Rightarrow> rate_meter \<Rightarrow> rat option" where
  "RateMeter_getOverallRate now m = do {
     elapsed \<leftarrow> RateMeter_elapsedTime now m;
     Some (if elapsed \<le> 0 then 0 else total m / elapsed) }"

definition RateMeter_getCurrentRate :: "tval \<Rightarrow> bool \<Rightarrow> rate_meter \<Rightarrow> (rat \<times> rate_meter) option" where
  "RateMeter_getCurrentRate now upd m = do {
     m' \<leftarrow> (if upd then RateMeter_update 0 now m else Some m);
     Some (current_rate m', m') }"

record packet_rate_meter =
  packet_meter :: rate_meter
  byte_meter :: rate_meter

definition PacketRateMeter_new :: "rat \<Rightarrow> packet_rate_meter" where
  "PacketRateMeter_new h = \<lparr>packet_meter = RateMeter_new h, byte_meter = RateMeter_new h\<rparr>"

definition PacketRateMeter_start :: "tval \<Rightarrow> packet_rate_meter \<Rightarrow> packet_rate_meter option" where
  "PacketRateMeter_start now m = do {
     p \<leftarrow> RateMeter_start now (packet_meter m); b \<leftarrow> RateMeter_start now (byte_meter m);
     Some \<lparr>packet_meter = p, byte_meter = b\<rparr> }"

definition PacketRateMeter_stop :: "tval \<Rightarrow> packet_rate_meter \<Rightarrow> packet_rate_meter option" where
  "PacketRateMeter_stop now m = do {
     p \<leftarrow> RateMeter_stop now (packet_meter m); b \<leftarrow> RateMeter_stop now (byte_meter m);
     Some \<lparr>packet_meter = p, byte_meter = b\<rparr> }"

definition PacketRateMeter_update :: "nat \<Rightarrow> tval \<Rightarrow> packet_rate_meter \<Rightarrow> packet_rate_meter option" where
  "PacketRateMeter_update len now m = do {
     p \<leftarrow> RateMeter_update 1 now (packet_meter m); b \<leftarrow> RateMeter_update (of_nat len) now (byte_meter m);
     Some \<lparr>packet_meter = p, byte_meter = b\<rparr> }"

definition getNumPackets :: "packet_rate_meter \<Rightarrow> nat" where
  "getNumPackets m = nat \<lfloor>total (packet_meter m)\<rfloor>"

definition getNumBytes :: "packet_rate_meter \<Rightarrow> nat" where
  "getNumBytes m = nat \<lfloor>total (byte_meter m)\<rfloor>"

subsection \<open>A running meter\<close>

text \<open>The window of the meter: the history, or the time since the start when that is shorter.\<close>

definition meter_window :: "rate_meter \<Rightarrow> rat" where
  "meter_window m = (if tv_isSet (last_update_tv m) then min (current_rate_history m) (secs_between (last_update_tv m) (start_tv m)) else 0)"

definition meter_ok :: "rate_meter \<Rightarrow> bool" where
  "meter_ok m \<longleftrightarrow> 0 < current_rate_history m \<and> current_rate_history m * 1000000 \<in> \<int> \<and> tval_ok (start_tv m) \<and> 0 < usecs (start_tv m) \<and> \<not> tv_isSet (stop_tv m) \<and>
     (tv_isSet (last_update_tv m) \<longrightarrow> tval_ok (last_update_tv m) \<and> usecs (start_tv m) \<le> usecs (last_update_tv m)) \<and>
     0 \<le> current_rate m \<and> current_rate m * meter_window m \<le> total m \<and> (tv_isSet (last_update_tv m) \<or> current_rate m = 0)"

lemma secs_between_usecs: "secs_between a b = of_int (usecs a - usecs b) / 1000000"
  by (simp add: secs_between_def TIMEVAL_SUBTRACT_usecs)

lemma isSet_pos: "0 < usecs t \<Longrightarrow> tv_isSet t"
  by (auto simp: usecs_def tv_isSet_def)

text \<open>The first steps of an update, before the rate is computed.\<close>

lemma meter_reference:
  assumes "meter_ok m0" "0 \<le> amount"
  defines "m \<equiv> (if \<not> tv_isSet (last_update_tv m0) then m0\<lparr>total := total m0 + amount, last_update_tv := start_tv m0\<rparr>
       else m0\<lparr>total := total m0 + amount\<rparr>)"
  shows "meter_ok m" "tv_isSet (last_update_tv m)" "start_tv m = start_tv m0" "total m = total m0 + amount"
    "current_rate m * meter_window m \<le> total m0" "current_rate_history m = current_rate_history m0" "stop_tv m = stop_tv m0"
    "current_rate m = current_rate m0"
proof -
  have s: "tv_isSet (start_tv m0)" using assms(1) isSet_pos by (simp add: meter_ok_def)
  have w: "current_rate m * meter_window m \<le> total m0" using assms(1) s unfolding m_def by (auto simp: meter_ok_def meter_window_def)
  show "current_rate m * meter_window m \<le> total m0" by (fact w)
  have "total m = total m0 + amount" by (simp add: m_def)
  then have "current_rate m * meter_window m \<le> total m" using w assms(2) by linarith
  moreover show "tv_isSet (last_update_tv m)" using s by (simp add: m_def)
  ultimately show "meter_ok m" using assms(1) unfolding meter_ok_def by (auto simp: m_def)
qed (simp_all add: m_def)

lemma history_end:
  assumes "meter_ok m" "tval_ok now"
  shows "TIMEVAL_AFTER now (TIMEVAL_ADD (start_tv m) \<lfloor>current_rate_history m * 1000000\<rfloor>) \<longleftrightarrow>
     current_rate_history m < secs_between now (start_tv m)"
proof -
  obtain z where z: "current_rate_history m * 1000000 = of_int z" using assms(1) by (auto simp: meter_ok_def elim: Ints_cases)
  have "0 \<le> current_rate_history m * 1000000" using assms(1) by (simp add: meter_ok_def)
  then have "0 \<le> z" using z by simp
  then have u: "usecs (TIMEVAL_ADD (start_tv m) z) = usecs (start_tv m) + z" "tval_ok (TIMEVAL_ADD (start_tv m) z)"
    using TIMEVAL_ADD_usecs[of "start_tv m" z] assms(1) by (auto simp: meter_ok_def)
  have h: "current_rate_history m = of_int z / 1000000" using z by (simp add: field_simps)
  have "TIMEVAL_AFTER now (TIMEVAL_ADD (start_tv m) z) \<longleftrightarrow> usecs now > usecs (start_tv m) + z"
    using TIMEVAL_AFTER_usecs[OF assms(2) u(2)] u(1) by simp
  also have "\<dots> \<longleftrightarrow> (of_int z :: rat) < of_int (usecs now - usecs (start_tv m))" by (simp only: of_int_less_iff) linarith
  also have "\<dots> \<longleftrightarrow> current_rate_history m < secs_between now (start_tv m)" unfolding h secs_between_usecs by (simp only: divide_less_cancel) simp
  finally show ?thesis using z by simp
qed


lemma RateMeter_update_ok:
  assumes "meter_ok m0" "0 \<le> amount" "tval_ok now0"
  shows "\<exists>m'. RateMeter_update amount now0 m0 = Some m' \<and> meter_ok m' \<and> total m' = total m0 + amount"
proof -
  define m where "m = (if \<not> tv_isSet (last_update_tv m0) then m0\<lparr>total := total m0 + amount, last_update_tv := start_tv m0\<rparr>
       else m0\<lparr>total := total m0 + amount\<rparr>)"
  note m = meter_reference[OF assms(1,2), folded m_def]
  have set: "tv_isSet (start_tv m0)" "\<not> tv_isSet (stop_tv m0)" using assms(1) isSet_pos by (auto simp: meter_ok_def)
  have me: "(let m1 = m0\<lparr>total := total m0 + amount\<rparr> in if \<not> tv_isSet (last_update_tv m1) then m1\<lparr>last_update_tv := start_tv m1\<rparr> else m1) = m"
    by (simp add: m_def)
  define d0 where "d0 = secs_between now0 (last_update_tv m)"
  define now where "now = (if d0 < 0 then last_update_tv m else now0)"
  define d where "d = (if d0 < 0 then 0 else d0)"
  define L where "L = secs_between (last_update_tv m) (start_tv m)"
  define h where "h = current_rate_history m"
  have ok: "tval_ok now" using m(1,2) assms(3) by (auto simp: now_def meter_ok_def)
  have ln: "secs_between now (start_tv m) = L + d" "0 \<le> d"
    by (auto simp: now_def d_def d0_def L_def secs_between_usecs add_divide_distrib diff_divide_distrib)
  have L: "0 \<le> L" "0 < h" using m(1,2) by (auto simp: L_def h_def meter_ok_def secs_between_usecs)
  have w: "meter_window m = min h L" using m(2) by (simp add: meter_window_def h_def L_def)
  define I where "I = (if h < L + d then max h d else L + d)"
  have I: "d \<le> I" "I - d \<le> min h L" "min h (L + d) \<le> I" "0 \<le> I" using L ln(2) by (auto simp: I_def)
  have IE: "(if TIMEVAL_AFTER now (TIMEVAL_ADD (start_tv m) \<lfloor>h * 1000000\<rfloor>) then max h d else secs_between now (start_tv m)) = I"
    using history_end[OF m(1) ok] ln(1) by (simp add: I_def h_def)
  have e: "d \<le> I + double_epsilon" using I(1) by (simp add: double_epsilon_def add_increasing2)
  have upd: "RateMeter_update amount now0 m0 =
    (if d0 < - h then Some m else if I = 0 then Some m
     else Some (m\<lparr>current_rate := ((I - d) * current_rate m + amount) / I, last_update_tv := now\<rparr>))"
    unfolding RateMeter_update_def Let_def me[unfolded Let_def] d0_def[symmetric] now_def[symmetric] d_def[symmetric] h_def[symmetric] IE
    using set I(1) e by simp
  show ?thesis
  proof (cases "d0 < - h \<or> I = 0")
    case True
    then show ?thesis using upd m(1,4) by auto
  next
    case False
    then have Ip: "0 < I" using I(4) by simp
    have r: "0 \<le> current_rate m" using m(1) by (simp add: meter_ok_def)
    define m' where "m' = m\<lparr>current_rate := ((I - d) * current_rate m + amount) / I, last_update_tv := now\<rparr>"
    have u: "RateMeter_update amount now0 m0 = Some m'" using upd False by (simp add: m'_def)
    have c: "0 \<le> (I - d) * current_rate m + amount" using I(1) r assms(2) by simp
    have ns: "usecs (start_tv m) \<le> usecs now" using ln L by (simp add: secs_between_usecs)
    then have sn: "tv_isSet now" using m(1) by (intro isSet_pos) (simp add: meter_ok_def)
    have "meter_window m' = min h (L + d)" using sn ln(1) by (simp add: meter_window_def m'_def h_def)
    then have "current_rate m' * meter_window m' \<le> current_rate m' * I"
      using I(3) c Ip by (intro mult_left_mono) (simp_all add: m'_def)
    also have "\<dots> = (I - d) * current_rate m + amount" using Ip by (simp add: m'_def)
    also have "\<dots> \<le> meter_window m * current_rate m + amount" using I(2) r w by (simp add: mult_right_mono)
    also have "\<dots> \<le> total m0 + amount" using m(5) by (simp add: mult.commute)
    finally have "current_rate m' * meter_window m' \<le> total m'" using m(4) by (simp add: m'_def)
    then have "meter_ok m'" using m(1) ok ns sn c Ip by (auto simp: meter_ok_def m'_def)
    then show ?thesis using u m(4) by (auto simp: m'_def)
  qed
qed

lemma RateMeter_update_start:
  "RateMeter_update a now m = Some m' \<Longrightarrow> start_tv m' = start_tv m \<and> total m' = total m + a"
  by (auto simp: RateMeter_update_def Let_def split: if_splits)

fun meter_updates :: "(rat \<times> tval) list \<Rightarrow> rate_meter \<Rightarrow> rate_meter option" where
  "meter_updates [] m = Some m"
| "meter_updates ((a, t) # us) m = do { m' \<leftarrow> RateMeter_update a t m; meter_updates us m' }"

lemma meter_updates_ok:
  assumes "meter_ok m" "list_all (\<lambda>(a, t). 0 \<le> a \<and> tval_ok t) us"
  shows "\<exists>m'. meter_updates us m = Some m' \<and> meter_ok m' \<and> total m' = total m + sum_list (map fst us)"
  using assms
proof (induction us arbitrary: m)
  case (Cons u us)
  obtain a t where [simp]: "u = (a, t)" by force
  obtain m1 where m1: "RateMeter_update a t m = Some m1" "meter_ok m1" "total m1 = total m + a"
    using RateMeter_update_ok[of m a t] Cons.prems by auto
  then show ?case using Cons.IH[of m1] Cons.prems(2) by auto
qed simp

lemma RateMeter_start_ok:
  assumes "0 < h" "h * 1000000 \<in> \<int>" "tval_ok now" "0 < usecs now"
  shows "\<exists>m. RateMeter_start now (RateMeter_new h) = Some m \<and> meter_ok m \<and> total m = 0 \<and> start_tv m = now \<and> current_rate_history m = h"
  using assms by (simp add: RateMeter_start_def RateMeter_new_def tv_zero_def tv_isSet_def meter_ok_def meter_window_def)


text \<open>A rate meter that has been started never fails an assertion, whatever the times of its updates,
  also when they run backwards.  Its total is the sum of all amounts, and the current rate over
  the window of the meter never accounts for more than the total.\<close>

theorem rate_meter_sound:
  assumes "0 < h" "h * 1000000 \<in> \<int>" "tval_ok t0" "0 < usecs t0" "list_all (\<lambda>(a, t). 0 \<le> a \<and> tval_ok t) us"
  shows "\<exists>m m'. RateMeter_start t0 (RateMeter_new h) = Some m \<and> meter_updates us m = Some m' \<and>
    total m' = sum_list (map fst us) \<and> 0 \<le> current_rate m' \<and> current_rate m' * meter_window m' \<le> total m'"
proof -
  obtain m where m: "RateMeter_start t0 (RateMeter_new h) = Some m" "meter_ok m" "total m = 0"
    using RateMeter_start_ok[OF assms(1-4)] by blast
  then show ?thesis using meter_updates_ok[OF m(2) assms(5)] by (auto simp: meter_ok_def)
qed

theorem rate_meter_sound_witness:
  "\<exists>m m'. RateMeter_start \<lparr>tsec = 7, tusec = 0\<rparr> (RateMeter_new 5) = Some m \<and>
    meter_updates [(3, \<lparr>tsec = 8, tusec = 5\<rparr>), (1, \<lparr>tsec = 7, tusec = 9\<rparr>), (2, \<lparr>tsec = 30, tusec = 0\<rparr>)] m = Some m' \<and>
    total m' = 6 \<and> current_rate m' * meter_window m' \<le> 6"
proof -
  have "(5 :: rat) * 1000000 = of_int 5000000" by simp
  then have "(5 :: rat) * 1000000 \<in> \<int>" by (metis Ints_of_int)
  from rate_meter_sound[OF _ this, of "\<lparr>tsec = 7, tusec = 0\<rparr>" "[(3, \<lparr>tsec = 8, tusec = 5\<rparr>), (1, \<lparr>tsec = 7, tusec = 9\<rparr>), (2, \<lparr>tsec = 30, tusec = 0\<rparr>)]"]
  show ?thesis by (auto simp: tval_ok_def usecs_def)
qed

section \<open>Progress reports\<close>

record scan_progress_meter =
  begin_tv :: tval
  last_print_test :: tval
  last_print :: tval
  last_est :: tval

definition ScanProgressMeter_new :: "tval \<Rightarrow> scan_progress_meter" where
  "ScanProgressMeter_new now = \<lparr>begin_tv = now, last_print_test = now, last_print = tv_zero, last_est = tv_zero\<rparr>"

definition mayBePrinted :: "bool \<Rightarrow> tval \<Rightarrow> scan_progress_meter \<Rightarrow> bool" where
  "mayBePrinted verbose now m =
     (if \<not> verbose then False
      else if tsec (last_print m) = 0 then tsec now - tsec (begin_tv m) > 30
      else if tsec now - tsec (last_print_test m) < 3 then False
      else if tsec now - tsec (last_print m) < 30 then False
      else True)"

definition estimate_time_left :: "rat \<Rightarrow> tval \<Rightarrow> tval \<Rightarrow> rat" where
  "estimate_time_left perc_done bgn now =
     (let used = of_int (tsec now - tsec bgn); needed = used / perc_done in needed - used)"

text \<open>The conversion of a \<open>double\<close> to \<open>time_t\<close> truncates towards zero.\<close>

definition trunc_rat :: "rat \<Rightarrow> int" where
  "trunc_rat x = (if x < 0 then \<lceil>x\<rceil> else \<lfloor>x\<rfloor>)"

definition printStats :: "rat \<Rightarrow> tval \<Rightarrow> scan_progress_meter \<Rightarrow> bool \<times> scan_progress_meter" where
  "printStats perc_done now m0 =
     (let m = m0\<lparr>last_print := now\<rparr> in
      if perc_done < 1 / 100 then (True, m)
      else
        let time_left_s = estimate_time_left perc_done (begin_tv m) now + 1 / 2 in
        (True, m\<lparr>last_est := now\<lparr>tsec := tsec now + trunc_rat time_left_s\<rparr>\<rparr>))"

definition printStatsIfNecessary ::
  "bool \<Rightarrow> bool \<Rightarrow> rat \<Rightarrow> tval \<Rightarrow> scan_progress_meter \<Rightarrow> (bool \<times> scan_progress_meter) option" where
  "printStatsIfNecessary verbose debugging perc_done now m0 =
     (if \<not> mayBePrinted verbose now m0 then Some (False, m0)
      else
        let m = m0\<lparr>last_print_test := now\<rparr> in
        if perc_done \<le> 3 / 1000 then Some (False, m)
        else if \<not> perc_done \<le> 1 then None
        else
          let time_left_s = estimate_time_left perc_done (begin_tv m) now in
          if time_left_s < 30 then Some (False, m)
          else
            let printit = (if tsec (last_est m) = 0 then True
                  else if TIMEVAL_AFTER now (last_est m) then True
                  else
                    let prev_total = of_int (tsec (last_est m) - tsec (begin_tv m));
                        prev_left = of_int (tsec (last_est m) - tsec (last_print m));
                        change = \<bar>prev_left - time_left_s\<bar> in
                    debugging \<or> (change > 15 \<and> change > 5 / 100 * prev_total)) in
            Some (if printit then printStats perc_done now m else (False, m)))"

lemma printStatsIfNecessary_total: "perc \<le> 1 \<Longrightarrow> printStatsIfNecessary v d perc now m \<noteq> None"
  by (auto simp: printStatsIfNecessary_def Let_def)

lemma printStatsIfNecessary_prints:
  assumes "printStatsIfNecessary v d perc now m = Some (r, m')"
  shows "begin_tv m' = begin_tv m \<and> last_print m' = (if r then now else last_print m) \<and>
    (r \<longrightarrow> (if tsec (last_print m) = 0 then tsec now - tsec (begin_tv m) > 30 else tsec now - tsec (last_print m) \<ge> 30))"
  using assms by (auto simp: printStatsIfNecessary_def printStats_def mayBePrinted_def Let_def split: if_splits)

text \<open>The estimate of the second report is compared with the first one.  A sequence of requests:
  the requests that print are at least thirty seconds apart.\<close>

fun progress_reports :: "bool \<Rightarrow> bool \<Rightarrow> (rat \<times> tval) list \<Rightarrow> scan_progress_meter \<Rightarrow> tval list option" where
  "progress_reports v d [] m = Some []"
| "progress_reports v d ((perc, now) # rs) m = do {
     (r, m') \<leftarrow> printStatsIfNecessary v d perc now m;
     ps \<leftarrow> progress_reports v d rs m';
     Some (if r then now # ps else ps) }"

fun spaced :: "int \<Rightarrow> tval list \<Rightarrow> bool" where
  "spaced s (a # b # ts) \<longleftrightarrow> tsec a + s \<le> tsec b \<and> spaced s (b # ts)"
| "spaced s ts \<longleftrightarrow> True"

lemma progress_reports_spaced_aux:
  assumes "list_all (\<lambda>(p, t). p \<le> 1 \<and> 0 < tsec t) rs"
  shows "\<exists>ps. progress_reports v d rs m = Some ps \<and> (tsec (last_print m) \<noteq> 0 \<longrightarrow> spaced 30 (last_print m # ps)) \<and> spaced 30 ps"
  using assms
proof (induction rs arbitrary: m)
  case (Cons q rs)
  obtain p t where [simp]: "q = (p, t)" by force
  obtain r m' where r: "printStatsIfNecessary v d p t m = Some (r, m')"
    using printStatsIfNecessary_total[of p v d t m] Cons.prems by fastforce
  note pr = printStatsIfNecessary_prints[OF r]
  obtain ps where ps: "progress_reports v d rs m' = Some ps" "tsec (last_print m') \<noteq> 0 \<Longrightarrow> spaced 30 (last_print m' # ps)" "spaced 30 ps"
    using Cons.IH[of m'] Cons.prems by auto
  show ?case using r pr ps Cons.prems by (cases r) auto
qed simp

section \<open>The scan delay\<close>

record scan_delay_state =
  delay_init :: bool
  lastcall :: tval

text \<open>The function reads the clock, \<open>now\<close>, and reads it again after it has slept; the second reading is
  the value of \<open>clock\<close> at the number of microseconds asked for.  The result is the time recorded.\<close>

definition enforce_scan_delay ::
  "timing_ops \<Rightarrow> tval \<Rightarrow> (int \<Rightarrow> tval) \<Rightarrow> scan_delay_state \<Rightarrow> tval \<times> scan_delay_state" where
  "enforce_scan_delay ops now clock st =
     (if scan_delay ops = 0 then (now, st)
      else if \<not> delay_init st then (now, st\<lparr>delay_init := True, lastcall := now\<rparr>)
      else
        let time_diff = int_of_long (TIMEVAL_MSEC_SUBTRACT now (lastcall st)) in
        if time_diff < int_of_long (scan_delay ops)
        then let t = clock ((scan_delay ops - time_diff) * 1000) in (t, st\<lparr>lastcall := t\<rparr>)
        else (now, st\<lparr>lastcall := now\<rparr>))"

lemma cdiv_1000: "a - 999 \<le> 1000 * cdiv a 1000 \<and> 1000 * cdiv a 1000 \<le> a + 999"
proof (cases "0 \<le> a")
  case True
  moreover have "a div 1000 * 1000 + a mod 1000 = a" "0 \<le> a mod 1000" "a mod 1000 < 1000" by simp_all
  ultimately show ?thesis unfolding cdiv_nonneg[OF True, of 1000, simplified] by linarith
next
  case False
  then have "cdiv a 1000 = - ((-a) div 1000)" by (simp add: cdiv_def sgn_if)
  moreover have "(-a) div 1000 * 1000 + (-a) mod 1000 = -a" "0 \<le> (-a) mod 1000" "(-a) mod 1000 < 1000" by simp_all
  ultimately show ?thesis by linarith
qed

lemma msec_subtract_close:
  "\<bar>TIMEVAL_MSEC_SUBTRACT a b * 1000 - (usecs a - usecs b)\<bar> \<le> 999"
  using cdiv_1000[of "tusec a - tusec b"] by (simp add: TIMEVAL_MSEC_SUBTRACT_def usecs_def) linarith

text \<open>Two calls of the function are at least the scan delay apart, up to the truncation of the
  difference to milliseconds, provided that the sleep takes at least the time asked for.\<close>

lemma enforce_scan_delay_gap:
  assumes "0 < scan_delay ops" "scan_delay ops \<le> 2000000" "delay_init st" "\<And>u. usecs now + u \<le> usecs (clock u)"
    "\<bar>TIMEVAL_MSEC_SUBTRACT now (lastcall st)\<bar> < 2 ^ 31" "enforce_scan_delay ops now clock st = (t, st')"
  shows "delay_init st' \<and> lastcall st' = t \<and> usecs (lastcall st) + scan_delay ops * 1000 - 999 \<le> usecs t"
proof -
  have i: "int_of_long (TIMEVAL_MSEC_SUBTRACT now (lastcall st)) = TIMEVAL_MSEC_SUBTRACT now (lastcall st)"
    "int_of_long (scan_delay ops) = scan_delay ops" using assms(1,2,5) by (auto intro!: int_of_long_id)
  show ?thesis
    using assms(1,3,6) assms(4)[of "(scan_delay ops - TIMEVAL_MSEC_SUBTRACT now (lastcall st)) * 1000"]
      msec_subtract_close[of now "lastcall st"]
    by (auto simp: enforce_scan_delay_def i Let_def split: if_splits)
qed

end
