(* ===== verification/Portlist.thy ===== *)
theory Portlist
  imports Nmap_Prelude "HOL-Library.Multiset"
begin

text \<open>
  The table of ports of a target, \<open>portlist.cc\<close>: the static map of port numbers to indices, the table with its
  counts of states, the iteration over the ports, the states that are summarised in the output, and the
  results of version detection.  A failed assertion or a call of \<open>fatal\<close> is \<^const>\<open>None\<close>.  Log messages and script
  results are left out.
\<close>

section \<open>Protocols and states\<close>

datatype portlist_proto = PORTLIST_PROTO_TCP | PORTLIST_PROTO_UDP | PORTLIST_PROTO_SCTP | PORTLIST_PROTO_IP

abbreviation (input) "IPPROTO_IP \<equiv> 0 :: nat"
abbreviation (input) "IPPROTO_TCP \<equiv> 6 :: nat"
abbreviation (input) "IPPROTO_UDP \<equiv> 17 :: nat"
abbreviation (input) "IPPROTO_SCTP \<equiv> 132 :: nat"
abbreviation (input) "TCPANDUDPANDSCTP \<equiv> 256 :: nat"
abbreviation (input) "UDPANDSCTP \<equiv> 257 :: nat"

abbreviation (input) "PORT_UNKNOWN \<equiv> 0 :: nat"
abbreviation (input) "PORT_CLOSED \<equiv> 1 :: nat"
abbreviation (input) "PORT_OPEN \<equiv> 2 :: nat"
abbreviation (input) "PORT_FILTERED \<equiv> 3 :: nat"
abbreviation (input) "PORT_TESTING \<equiv> 4 :: nat"
abbreviation (input) "PORT_FRESH \<equiv> 5 :: nat"
abbreviation (input) "PORT_UNFILTERED \<equiv> 6 :: nat"
abbreviation (input) "PORT_OPENFILTERED \<equiv> 7 :: nat"
abbreviation (input) "PORT_CLOSEDFILTERED \<equiv> 8 :: nat"
abbreviation (input) "PORT_HIGHEST_STATE \<equiv> 9 :: nat"

definition INPROTO2PORTLISTPROTO :: "nat \<Rightarrow> portlist_proto" where
  "INPROTO2PORTLISTPROTO p =
     (if p = IPPROTO_TCP then PORTLIST_PROTO_TCP else if p = IPPROTO_UDP then PORTLIST_PROTO_UDP
      else if p = IPPROTO_SCTP then PORTLIST_PROTO_SCTP else PORTLIST_PROTO_IP)"

definition PORTLISTPROTO2INPROTO :: "portlist_proto \<Rightarrow> nat" where
  "PORTLISTPROTO2INPROTO p =
     (if p = PORTLIST_PROTO_TCP then IPPROTO_TCP else if p = PORTLIST_PROTO_UDP then IPPROTO_UDP
      else if p = PORTLIST_PROTO_SCTP then IPPROTO_SCTP else IPPROTO_IP)"

lemma inproto_portlistproto [simp]: "INPROTO2PORTLISTPROTO (PORTLISTPROTO2INPROTO p) = p"
  by (cases p) (simp_all add: INPROTO2PORTLISTPROTO_def PORTLISTPROTO2INPROTO_def)

definition statenum2str :: "nat \<Rightarrow> string" where
  "statenum2str state =
     (if state = PORT_OPEN then ''open'' else if state = PORT_FILTERED then ''filtered''
      else if state = PORT_UNFILTERED then ''unfiltered'' else if state = PORT_CLOSED then ''closed''
      else if state = PORT_OPENFILTERED then ''open|filtered'' else if state = PORT_CLOSEDFILTERED then ''closed|filtered''
      else ''unknown'')"

section \<open>The map of port numbers\<close>

record port_statics =
  port_map :: "portlist_proto \<Rightarrow> (nat \<Rightarrow> nat) option"
  port_map_rev :: "portlist_proto \<Rightarrow> nat list option"
  port_list_count :: "portlist_proto \<Rightarrow> nat"

definition statics0 :: port_statics where
  "statics0 = \<lparr>port_map = (\<lambda>_. None), port_map_rev = (\<lambda>_. None), port_list_count = (\<lambda>_. 0)\<rparr>"

fun fill_map :: "nat \<Rightarrow> nat list \<Rightarrow> (nat \<Rightarrow> nat) \<Rightarrow> nat \<Rightarrow> nat" where
  "fill_map i [] m = m"
| "fill_map i (p # ps) m = fill_map (Suc i) ps (m(p := i))"

definition initializePortMap :: "port_statics \<Rightarrow> nat \<Rightarrow> nat list \<Rightarrow> port_statics option" where
  "initializePortMap st protocol ports =
     (let proto = INPROTO2PORTLISTPROTO protocol in
      if port_map st proto \<noteq> None \<or> port_map_rev st proto \<noteq> None then None
      else if port_list_count st proto \<noteq> 0 then None
      else Some \<lparr>port_map = (port_map st)(proto := Some (fill_map 0 ports (\<lambda>_. 0))),
                 port_map_rev = (port_map_rev st)(proto := Some ports),
                 port_list_count = (port_list_count st)(proto := length ports)\<rparr>)"

definition freePortMap :: "port_statics \<Rightarrow> port_statics" where
  "freePortMap st = \<lparr>port_map = (\<lambda>_. None), port_map_rev = (\<lambda>_. None), port_list_count = (\<lambda>_. 0)\<rparr>"

text \<open>The maps of the protocols in use: the lists of ports have no duplicates, and the two maps are
  inverse to each other.\<close>

definition proto_map_ok :: "portlist_proto \<Rightarrow> (nat \<Rightarrow> nat) option \<Rightarrow> nat list option \<Rightarrow> nat \<Rightarrow> bool" where
  "proto_map_ok p mo ro n \<longleftrightarrow> (case (mo, ro) of
       (None, None) \<Rightarrow> n = 0
     | (Some m, Some r) \<Rightarrow> n = length r \<and> distinct r \<and> (\<forall>i < length r. m (r ! i) = i) \<and>
          (\<forall>q. q \<notin> set r \<longrightarrow> m q = 0) \<and> (p = PORTLIST_PROTO_IP \<longrightarrow> (\<forall>q \<in> set r. q < 256))
     | _ \<Rightarrow> False)"

definition statics_ok :: "port_statics \<Rightarrow> bool" where
  "statics_ok st \<longleftrightarrow> (\<forall>p. proto_map_ok p (port_map st p) (port_map_rev st p) (port_list_count st p))"

lemma fill_map_other: "q \<notin> set ps \<Longrightarrow> fill_map i ps m q = m q"
  by (induction i ps m rule: fill_map.induct) auto

lemma fill_map_nth: "distinct ps \<Longrightarrow> k < length ps \<Longrightarrow> fill_map i ps m (ps ! k) = i + k"
proof (induction ps arbitrary: i m k)
  case (Cons p ps)
  then show ?case by (cases k) (simp_all add: fill_map_other)
qed simp

lemma initializePortMap_ok:
  assumes "statics_ok st" "distinct ports" "initializePortMap st protocol ports = Some st'"
    "INPROTO2PORTLISTPROTO protocol = PORTLIST_PROTO_IP \<Longrightarrow> \<forall>q \<in> set ports. q < 256"
  shows "statics_ok st'"
proof -
  let ?p = "INPROTO2PORTLISTPROTO protocol"
  have st': "st' = \<lparr>port_map = (port_map st)(?p := Some (fill_map 0 ports (\<lambda>_. 0))), port_map_rev = (port_map_rev st)(?p := Some ports),
      port_list_count = (port_list_count st)(?p := length ports)\<rparr>"
    using assms(3) by (simp add: initializePortMap_def Let_def split: if_splits)
  have "proto_map_ok ?p (Some (fill_map 0 ports (\<lambda>_. 0))) (Some ports) (length ports)"
    using assms(2,4) by (auto simp: proto_map_ok_def fill_map_nth fill_map_other)
  then show ?thesis using assms(1) by (simp add: statics_ok_def st')
qed

section \<open>The table\<close>

datatype service_tunnel_type = SERVICE_TUNNEL_NONE | SERVICE_TUNNEL_SSL
datatype service_detection_type = SERVICE_DETECTION_TABLE | SERVICE_DETECTION_PROBED

record serviceDeductions =
  sd_name :: "string option"
  name_confidence :: nat
  product :: "string option"
  version :: "string option"
  extrainfo :: "string option"
  hostname :: "string option"
  ostype :: "string option"
  devicetype :: "string option"
  cpe :: "string list"
  service_tunnel :: service_tunnel_type
  service_fp :: "string option"
  dtype :: service_detection_type

text \<open>Reasons are named by their numbers in \<open>portreasons.h\<close>.\<close>

abbreviation (input) "ER_NORESPONSE \<equiv> 26 :: nat"

record port =
  portno :: nat
  proto_no :: nat
  pstate :: nat
  reason_id :: nat
  reason_ttl :: nat
  service :: "serviceDeductions option"

record portlist =
  state_counts_proto :: "portlist_proto \<Rightarrow> nat \<Rightarrow> int"
  port_list :: "portlist_proto \<Rightarrow> port option list option"
  default_port_state :: "portlist_proto \<Rightarrow> nat"

definition PortList_new :: "port_statics \<Rightarrow> portlist" where
  "PortList_new st =
     \<lparr>state_counts_proto = (\<lambda>p. (\<lambda>_. 0)(0 := int (port_list_count st p))),
      port_list = (\<lambda>p. if port_list_count st p > 0 then Some (replicate (port_list_count st p) None) else None),
      default_port_state = (\<lambda>_. 0)\<rparr>"

definition add_count :: "portlist_proto \<Rightarrow> nat \<Rightarrow> int \<Rightarrow> portlist \<Rightarrow> portlist" where
  "add_count p s k pl = pl\<lparr>state_counts_proto := (state_counts_proto pl)(p := (state_counts_proto pl p)(s := state_counts_proto pl p s + k))\<rparr>"

definition slots :: "portlist \<Rightarrow> portlist_proto \<Rightarrow> port option list" where
  "slots pl p = (case port_list pl p of None \<Rightarrow> [] | Some l \<Rightarrow> l)"

fun default_loop :: "portlist_proto \<Rightarrow> nat \<Rightarrow> port option list \<Rightarrow> portlist \<Rightarrow> portlist" where
  "default_loop p s [] pl = pl"
| "default_loop p s (None # l) pl = default_loop p s l (add_count p s 1 (add_count p (default_port_state pl p) (-1) pl))"
| "default_loop p s (Some _ # l) pl = default_loop p s l pl"

definition setDefaultPortState :: "nat \<Rightarrow> nat \<Rightarrow> portlist \<Rightarrow> portlist" where
  "setDefaultPortState protocol state pl =
     (let p = INPROTO2PORTLISTPROTO protocol; pl1 = default_loop p state (slots pl p) pl in
      pl1\<lparr>default_port_state := (default_port_state pl1)(p := state)\<rparr>)"

definition mapPort :: "port_statics \<Rightarrow> portlist \<Rightarrow> nat \<Rightarrow> nat \<Rightarrow> (nat \<times> portlist_proto) option" where
  "mapPort st pl no protocol =
     (let mp = INPROTO2PORTLISTPROTO protocol in
      if protocol = IPPROTO_IP \<and> \<not> no < 256 then None
      else case (port_map st mp, port_list pl mp) of
        (Some m, Some l) \<Rightarrow> (if m no < port_list_count st mp then Some (m no, mp) else None)
      | _ \<Rightarrow> None)"

definition lookupPort :: "port_statics \<Rightarrow> portlist \<Rightarrow> nat \<Rightarrow> nat \<Rightarrow> port option option" where
  "lookupPort st pl no protocol = do {
     (i, p) \<leftarrow> mapPort st pl no protocol;
     Some (slots pl p ! i) }"

definition set_slot :: "portlist_proto \<Rightarrow> nat \<Rightarrow> port option \<Rightarrow> portlist \<Rightarrow> portlist" where
  "set_slot p i e pl = pl\<lparr>port_list := (port_list pl)(p := Some ((slots pl p)[i := e]))\<rparr>"

text \<open>The port is returned with its place in the table.\<close>

definition createPort :: "port_statics \<Rightarrow> nat \<Rightarrow> nat \<Rightarrow> portlist \<Rightarrow> (nat \<times> portlist_proto \<times> port \<times> portlist) option" where
  "createPort st no protocol pl = do {
     (i, p) \<leftarrow> mapPort st pl no protocol;
     Some (case slots pl p ! i of
         Some q \<Rightarrow> (i, p, q, pl)
       | None \<Rightarrow>
           let q = \<lparr>portno = no, proto_no = protocol, pstate = default_port_state pl p, reason_id = ER_NORESPONSE, reason_ttl = 0, service = None\<rparr> in
           (i, p, q, set_slot p i (Some q) pl)) }"

definition setStateReason :: "port_statics \<Rightarrow> nat \<Rightarrow> nat \<Rightarrow> nat \<Rightarrow> nat \<Rightarrow> portlist \<Rightarrow> portlist option" where
  "setStateReason st no protocol reason ttl pl = do {
     (i, p, q, pl1) \<leftarrow> createPort st no protocol pl;
     Some (set_slot p i (Some (q\<lparr>reason_id := reason, reason_ttl := ttl\<rparr>)) pl1) }"

definition setPortState :: "port_statics \<Rightarrow> nat \<Rightarrow> nat \<Rightarrow> nat \<Rightarrow> portlist \<Rightarrow> portlist option" where
  "setPortState st no protocol state pl =
     (let pr = INPROTO2PORTLISTPROTO protocol in
      if \<not> state < PORT_HIGHEST_STATE then None
      else if state \<notin> {PORT_OPEN, PORT_CLOSED, PORT_FILTERED, PORT_UNFILTERED, PORT_OPENFILTERED, PORT_CLOSEDFILTERED} then None
      else if protocol = IPPROTO_IP \<and> \<not> no < 256 then None
      else do {
        old \<leftarrow> lookupPort st pl no protocol;
        let pl1 = add_count pr (case old of Some q \<Rightarrow> pstate q | None \<Rightarrow> default_port_state pl pr) (-1) pl;
        (i, p, q, pl2) \<leftarrow> createPort st no protocol pl1;
        let pl3 = add_count pr state 1 (set_slot p i (Some (q\<lparr>pstate := state\<rparr>)) pl2);
        if state = PORT_FILTERED \<or> state = PORT_OPENFILTERED then setStateReason st no protocol ER_NORESPONSE 0 pl3 else Some pl3 })"

definition getPortState :: "port_statics \<Rightarrow> portlist \<Rightarrow> nat \<Rightarrow> nat \<Rightarrow> nat option" where
  "getPortState st pl no protocol = do {
     e \<leftarrow> lookupPort st pl no protocol;
     Some (case e of None \<Rightarrow> default_port_state pl (INPROTO2PORTLISTPROTO protocol) | Some q \<Rightarrow> pstate q) }"

definition portIsDefault :: "port_statics \<Rightarrow> portlist \<Rightarrow> nat \<Rightarrow> nat \<Rightarrow> bool option" where
  "portIsDefault st pl no protocol = do { e \<leftarrow> lookupPort st pl no protocol; Some (e = None) }"

definition forgetPort :: "port_statics \<Rightarrow> nat \<Rightarrow> nat \<Rightarrow> portlist \<Rightarrow> (int \<times> portlist) option" where
  "forgetPort st no protocol pl = do {
     (i, p) \<leftarrow> mapPort st pl no protocol;
     Some (case slots pl p ! i of
         None \<Rightarrow> (-1, pl)
       | Some q \<Rightarrow> (0, set_slot p i None (add_count p (default_port_state pl p) 1 (add_count p (pstate q) (-1) pl)))) }"

definition getStateCounts_proto :: "portlist \<Rightarrow> nat \<Rightarrow> nat \<Rightarrow> int" where
  "getStateCounts_proto pl protocol state = state_counts_proto pl (INPROTO2PORTLISTPROTO protocol) state"

definition all_protos :: "portlist_proto list" where
  "all_protos = [PORTLIST_PROTO_TCP, PORTLIST_PROTO_UDP, PORTLIST_PROTO_SCTP, PORTLIST_PROTO_IP]"

definition getStateCounts :: "portlist \<Rightarrow> nat \<Rightarrow> int" where
  "getStateCounts pl state = sum_list (map (\<lambda>p. getStateCounts_proto pl (PORTLISTPROTO2INPROTO p) state) all_protos)"

definition numPorts :: "port_statics \<Rightarrow> nat" where
  "numPorts st = sum_list (map (port_list_count st) all_protos)"

definition hasOpenPorts :: "portlist \<Rightarrow> bool" where
  "hasOpenPorts pl \<longleftrightarrow> getStateCounts pl PORT_OPEN \<noteq> 0 \<or> getStateCounts pl PORT_OPENFILTERED \<noteq> 0 \<or> getStateCounts pl PORT_UNFILTERED \<noteq> 0"


subsection \<open>Results of version detection\<close>

datatype serviceprobestate = PROBESTATE_INITIAL | PROBESTATE_NULLPROBE | PROBESTATE_MATCHINGPROBES | PROBESTATE_NONMATCHINGPROBES
  | PROBESTATE_FINISHED_HARDMATCHED | PROBESTATE_FINISHED_SOFTMATCHED | PROBESTATE_FINISHED_NOMATCH
  | PROBESTATE_FINISHED_TCPWRAPPED | PROBESTATE_EXCLUDED | PROBESTATE_INCOMPLETE

definition serviceDeductions_new :: serviceDeductions where
  "serviceDeductions_new = \<lparr>sd_name = None, name_confidence = 0, product = None, version = None, extrainfo = None, hostname = None,
     ostype = None, devicetype = None, cpe = [], service_tunnel = SERVICE_TUNNEL_NONE, service_fp = None, dtype = SERVICE_DETECTION_TABLE\<rparr>"

definition replacenonprintable :: "string \<Rightarrow> nat \<Rightarrow> char \<Rightarrow> string" where
  "replacenonprintable str n replchar = map (\<lambda>c. if isprint c then c else replchar) (take n str) @ drop n str"

definition cstringSanityCheck :: "string option \<Rightarrow> nat \<Rightarrow> string option" where
  "cstringSanityCheck str len = (case str of None \<Rightarrow> None | Some t \<Rightarrow>
     (let slen = min (length t) len in Some (replacenonprintable (take slen t) slen (CHR ''.''))))"

record probe_results =
  pr_state :: serviceprobestate
  pr_sname :: "string option"
  pr_tunnel :: service_tunnel_type
  pr_product :: "string option"
  pr_version :: "string option"
  pr_extrainfo :: "string option"
  pr_hostname :: "string option"
  pr_ostype :: "string option"
  pr_devicetype :: "string option"
  pr_cpe :: "string option list"
  pr_fingerprint :: "string option"

text \<open>The file \<open>nmap-services\<close> is the function \<open>getserv\<close> of a port number and a protocol.  The optional vector of
  CPE names is a list.\<close>

definition service_results :: "(nat \<Rightarrow> nat \<Rightarrow> string option) \<Rightarrow> nat \<Rightarrow> nat \<Rightarrow> probe_results \<Rightarrow> serviceDeductions \<Rightarrow> serviceDeductions" where
  "service_results getserv no protocol r sd =
     (let (sname, conf, dt) =
        (if pr_state r = PROBESTATE_FINISHED_HARDMATCHED \<or> pr_state r = PROBESTATE_FINISHED_SOFTMATCHED
         then (pr_sname r, 10, SERVICE_DETECTION_PROBED)
         else if pr_state r = PROBESTATE_FINISHED_TCPWRAPPED
         then (case pr_sname r of None \<Rightarrow> Some ''tcpwrapped'' | Some n \<Rightarrow> Some n, 8, SERVICE_DETECTION_PROBED)
         else (case pr_sname r of None \<Rightarrow> getserv no protocol | Some n \<Rightarrow> Some n, 3, SERVICE_DETECTION_TABLE)) in
      sd\<lparr>sd_name := sname, name_confidence := conf, dtype := dt, service_tunnel := pr_tunnel r, service_fp := pr_fingerprint r,
         product := cstringSanityCheck (pr_product r) 80, version := cstringSanityCheck (pr_version r) 80,
         extrainfo := cstringSanityCheck (pr_extrainfo r) 256, hostname := cstringSanityCheck (pr_hostname r) 80,
         ostype := cstringSanityCheck (pr_ostype r) 32, devicetype := cstringSanityCheck (pr_devicetype r) 32,
         cpe := concat (map (\<lambda>c. case cstringSanityCheck c 80 of None \<Rightarrow> [] | Some t \<Rightarrow> [t]) (pr_cpe r))\<rparr>)"

definition setServiceProbeResults ::
  "port_statics \<Rightarrow> (nat \<Rightarrow> nat \<Rightarrow> string option) \<Rightarrow> nat \<Rightarrow> nat \<Rightarrow> probe_results \<Rightarrow> portlist \<Rightarrow> portlist option" where
  "setServiceProbeResults st getserv no protocol r pl = do {
     (i, p, q, pl1) \<leftarrow> createPort st no protocol pl;
     let sd = (case service q of None \<Rightarrow> serviceDeductions_new | Some d \<Rightarrow> d);
     Some (set_slot p i (Some (q\<lparr>service := Some (service_results getserv no protocol r sd)\<rparr>)) pl1) }"

definition getServiceDeductions ::
  "port_statics \<Rightarrow> (nat \<Rightarrow> nat \<Rightarrow> string option) \<Rightarrow> portlist \<Rightarrow> nat \<Rightarrow> nat \<Rightarrow> serviceDeductions option" where
  "getServiceDeductions st getserv pl no protocol = do {
     e \<leftarrow> lookupPort st pl no protocol;
     Some (case e of
         Some q \<Rightarrow> (case service q of
             Some d \<Rightarrow> d
           | None \<Rightarrow> serviceDeductions_new\<lparr>sd_name := getserv no protocol, name_confidence := 3\<rparr>)
       | None \<Rightarrow> serviceDeductions_new\<lparr>sd_name := getserv no protocol, name_confidence := 3\<rparr>) }"

definition isTCPwrapped :: "port_statics \<Rightarrow> bool \<Rightarrow> portlist \<Rightarrow> nat \<Rightarrow> bool option" where
  "isTCPwrapped st servicescan pl no = do {
     e \<leftarrow> lookupPort st pl no IPPROTO_TCP;
     Some (case e of None \<Rightarrow> False | Some q \<Rightarrow>
       if \<not> servicescan then False
       else case service q of None \<Rightarrow> False | Some d \<Rightarrow>
         (case sd_name d of None \<Rightarrow> False | Some n \<Rightarrow> n = ''tcpwrapped'')) }"

text \<open>The name for the normal output: the result of \<open>Snprintf\<close>, or the empty string when it does not fit.\<close>

definition getNmapServiceName :: "(nat \<Rightarrow> nat \<Rightarrow> string option) \<Rightarrow> bool \<Rightarrow> port \<Rightarrow> nat \<Rightarrow> string" where
  "getNmapServiceName getserv servicescan q buflen =
     (let prefix = (case service q of Some d \<Rightarrow> (if service_tunnel d = SERVICE_TUNNEL_SSL then ''ssl/'' else []) | None \<Rightarrow> []);
          table = getserv (portno q) (proto_no q);
          name = (case service q of Some d \<Rightarrow> (case sd_name d of Some n \<Rightarrow> Some n | None \<Rightarrow> table) | None \<Rightarrow> table);
          unsure = servicescan \<and> pstate q = PORT_OPEN \<and> (case service q of None \<Rightarrow> True | Some d \<Rightarrow> name_confidence d \<le> 5);
          out = (case name of
              Some n \<Rightarrow> (if n \<noteq> ''unknown'' then prefix @ n @ (if unsure then ''?'' else []) else prefix @ ''unknown'')
            | None \<Rightarrow> prefix @ ''unknown'') in
      if length out \<ge> buflen then [] else out)"

text \<open>The full version string.  \<open>strncat\<close> of at most \<open>k\<close> characters appends a prefix; the counter of the space that is left
  is at least seven wherever it is decreased, except for the last decrement, whose result is not used.\<close>

definition append_field :: "string option \<Rightarrow> string \<times> nat \<times> bool \<Rightarrow> string \<times> nat \<times> bool" where
  "append_field field = (\<lambda>(dst, spaceleft, needpad). case field of
       None \<Rightarrow> (dst, spaceleft, needpad)
     | Some f \<Rightarrow>
         if \<not> spaceleft \<ge> 8 then (dst, spaceleft, needpad)
         else
           let dst1 = (if needpad then dst @ take spaceleft '' '' else dst); left1 = (if needpad then spaceleft - 1 else spaceleft) in
           if left1 < length f then ((dst1 @ take (left1 - 3) f) @ take left1 ''...'', 0, True)
           else (dst1 @ take left1 f, left1 - length f, True))"

definition append_extrainfo :: "string option \<Rightarrow> string \<times> nat \<times> bool \<Rightarrow> string" where
  "append_extrainfo field = (\<lambda>(dst, spaceleft, needpad). case field of
       None \<Rightarrow> dst
     | Some f \<Rightarrow>
         if \<not> spaceleft \<ge> 8 then dst
         else
           let dst1 = (if needpad then dst @ take spaceleft '' '' else dst); left1 = (if needpad then spaceleft - 1 else spaceleft);
               dst2 = dst1 @ take left1 ''('' in
           if left1 - 2 < length f then ((dst2 @ take (left1 - 5) f) @ take (left1 - 2) ''...'') @ take 1 '')''
           else (dst2 @ take left1 f) @ take (left1 - (length f + 2)) '')'')"

definition populateFullVersionString :: "serviceDeductions \<Rightarrow> nat \<Rightarrow> string" where
  "populateFullVersionString sd n = append_extrainfo (extrainfo sd) (append_field (version sd) (append_field (product sd) ([], n - 1, False)))"

subsection \<open>The counts of states\<close>

definition effective :: "portlist \<Rightarrow> portlist_proto \<Rightarrow> port option \<Rightarrow> nat" where
  "effective pl p e = (case e of None \<Rightarrow> default_port_state pl p | Some q \<Rightarrow> pstate q)"

definition in_state :: "portlist \<Rightarrow> portlist_proto \<Rightarrow> nat \<Rightarrow> nat" where
  "in_state pl p s = length (filter (\<lambda>e. effective pl p e = s) (slots pl p))"

definition counts_ok :: "portlist \<Rightarrow> bool" where
  "counts_ok pl \<longleftrightarrow> (\<forall>p s. state_counts_proto pl p s = int (in_state pl p s))"

definition shape_ok :: "port_statics \<Rightarrow> portlist \<Rightarrow> bool" where
  "shape_ok st pl \<longleftrightarrow> (\<forall>p. (port_list pl p = None \<longleftrightarrow> port_list_count st p = 0) \<and> length (slots pl p) = port_list_count st p)"

definition entries_ok :: "port_statics \<Rightarrow> portlist \<Rightarrow> bool" where
  "entries_ok st pl \<longleftrightarrow> (\<forall>p i q. i < length (slots pl p) \<longrightarrow> slots pl p ! i = Some q \<longrightarrow>
     portno q = the (port_map_rev st p) ! i \<and> INPROTO2PORTLISTPROTO (proto_no q) = p)"

definition pl_ok :: "port_statics \<Rightarrow> portlist \<Rightarrow> bool" where
  "pl_ok st pl \<longleftrightarrow> statics_ok st \<and> shape_ok st pl \<and> entries_ok st pl \<and> counts_ok pl"

definition scanned :: "port_statics \<Rightarrow> nat \<Rightarrow> nat \<Rightarrow> bool" where
  "scanned st protocol no \<longleftrightarrow> (case port_map_rev st (INPROTO2PORTLISTPROTO protocol) of None \<Rightarrow> False | Some r \<Rightarrow> no \<in> set r)"

lemma length_filter_update:
  "i < length l \<Longrightarrow> int (length (filter P (l[i := e]))) = int (length (filter P l)) - (if P (l ! i) then 1 else 0) + (if P e then 1 else 0)"
proof (induction l arbitrary: i)
  case (Cons a l)
  show ?case
  proof (cases i)
    case (Suc k)
    then show ?thesis using Cons.IH[of k] Cons.prems by (simp split: if_splits)
  qed simp
qed simp

named_theorems table_simps

lemma slots_add_count [simp, table_simps]: "slots (add_count p s k pl) = slots pl" "port_list (add_count p s k pl) = port_list pl"
    "default_port_state (add_count p s k pl) = default_port_state pl"
  by (simp_all add: slots_def add_count_def fun_eq_iff)

lemma counts_add_count: "state_counts_proto (add_count p s k pl) p' s' = state_counts_proto pl p' s' + (if p' = p \<and> s' = s then k else 0)"
  by (simp add: add_count_def)

lemma slots_set_slot [simp, table_simps]:
  "slots (set_slot p i e pl) p' = (if p' = p then (slots pl p)[i := e] else slots pl p')"
  "state_counts_proto (set_slot p i e pl) = state_counts_proto pl" "default_port_state (set_slot p i e pl) = default_port_state pl"
  by (simp_all add: slots_def set_slot_def)

lemma effective_add_count [simp]: "effective (add_count p s k pl) = effective pl"
  by (simp add: effective_def fun_eq_iff cong: option.case_cong)

lemma effective_set_slot [simp]: "effective (set_slot p i e pl) = effective pl"
  by (simp add: effective_def fun_eq_iff cong: option.case_cong)

lemma set_slot_twice [simp]: "set_slot p i x (set_slot p i y pl) = set_slot p i x pl"
  by (simp add: set_slot_def slots_def)

lemma set_slot_add_count: "set_slot p i e (add_count p' s k pl) = add_count p' s k (set_slot p i e pl)"
  by (simp add: set_slot_def add_count_def slots_def)

lemma in_state_set_slot:
  assumes "i < length (slots pl p)"
  shows "int (in_state (set_slot p i e pl) p' s) = int (in_state pl p' s) -
    (if p' = p \<and> effective pl p (slots pl p ! i) = s then 1 else 0) + (if p' = p \<and> effective pl p e = s then 1 else 0)"
  using length_filter_update[OF assms, of "\<lambda>e. effective pl p e = s" e] by (auto simp: in_state_def)

lemma in_state_add_count [simp]: "in_state (add_count p s k pl) = in_state pl"
  by (simp add: in_state_def fun_eq_iff)

lemma shape_set_slot: "shape_ok st pl \<Longrightarrow> i < length (slots pl p) \<Longrightarrow> shape_ok st (set_slot p i e pl)"
  by (auto simp: shape_ok_def) (auto simp: set_slot_def)

lemma shape_add_count [simp]: "shape_ok st (add_count p s k pl) = shape_ok st pl"
  by (simp add: shape_ok_def)

lemma entries_add_count [simp]: "entries_ok st (add_count p s k pl) = entries_ok st pl"
  by (simp add: entries_ok_def)

lemma entries_set_slot:
  assumes "entries_ok st pl" "\<And>q. e = Some q \<Longrightarrow> portno q = the (port_map_rev st p) ! i \<and> INPROTO2PORTLISTPROTO (proto_no q) = p"
  shows "entries_ok st (set_slot p i e pl)"
  unfolding entries_ok_def
proof (intro allI impI)
  fix p' j q
  assume j: "j < length (slots (set_slot p i e pl) p')" and q: "slots (set_slot p i e pl) p' ! j = Some q"
  show "portno q = the (port_map_rev st p') ! j \<and> INPROTO2PORTLISTPROTO (proto_no q) = p'"
    using assms j q by (cases "p' = p \<and> i = j") (auto simp: entries_ok_def split: if_splits)
qed

lemma mapPort_scanned:
  assumes "pl_ok st pl" "scanned st protocol no"
  shows "\<exists>i. mapPort st pl no protocol = Some (i, INPROTO2PORTLISTPROTO protocol) \<and> i < length (slots pl (INPROTO2PORTLISTPROTO protocol)) \<and>
    the (port_map_rev st (INPROTO2PORTLISTPROTO protocol)) ! i = no"
proof -
  let ?p = "INPROTO2PORTLISTPROTO protocol"
  obtain r where r: "port_map_rev st ?p = Some r" "no \<in> set r" using assms(2) by (auto simp: scanned_def split: option.splits)
  have pm: "proto_map_ok ?p (port_map st ?p) (Some r) (port_list_count st ?p)" using assms(1) r(1) unfolding pl_ok_def statics_ok_def by metis
  then obtain m where m: "port_map st ?p = Some m" by (cases "port_map st ?p") (auto simp: proto_map_ok_def)
  from pm have w: "port_list_count st ?p = length r" "\<forall>i < length r. m (r ! i) = i" "?p = PORTLIST_PROTO_IP \<Longrightarrow> \<forall>q \<in> set r. q < 256"
    by (auto simp: proto_map_ok_def m split: option.splits)
  obtain i where i: "i < length r" "r ! i = no" using r(2) by (auto simp: in_set_conv_nth)
  have sh: "port_list pl ?p \<noteq> None" "length (slots pl ?p) = length r" using assms(1) w(1) i(1) by (auto simp: pl_ok_def shape_ok_def)
  have "protocol = 0 \<Longrightarrow> no < 256" using w(3) r(2) by (auto simp: INPROTO2PORTLISTPROTO_def)
  then have "mapPort st pl no protocol = Some (i, ?p)" using sh(1) m w(1,2) i by (auto simp: mapPort_def Let_def)
  then show ?thesis using i sh r by simp
qed

lemma mapPort_add_count [simp]: "mapPort st (add_count p s k pl) = mapPort st pl"
  by (auto simp: mapPort_def fun_eq_iff Let_def split: option.splits)

lemma mapPort_set_slot:
  assumes "shape_ok st pl" "i < length (slots pl p)"
  shows "mapPort st (set_slot p i e pl) = mapPort st pl"
proof -
  have "(port_list (set_slot p i e pl) p' = None) = (port_list pl p' = None)" for p'
    using assms shape_set_slot[OF assms] by (simp add: shape_ok_def)
  then show ?thesis by (simp add: mapPort_def fun_eq_iff Let_def option.case_eq_if)
qed

text \<open>What an update of the port with the state \<open>s\<close> at one place does to the counts.\<close>

lemma counts_move:
  assumes "counts_ok pl" "i < length (slots pl p)" "effective pl p (slots pl p ! i) = a" "effective pl p e = b"
  shows "counts_ok (add_count p b 1 (set_slot p i e (add_count p a (-1) pl)))"
  using assms by (auto simp: counts_ok_def counts_add_count in_state_set_slot)

lemma pl_ok_move:
  assumes "pl_ok st pl" "i < length (slots pl p)" "effective pl p (slots pl p ! i) = a" "effective pl p e = b"
    "\<And>q. e = Some q \<Longrightarrow> portno q = the (port_map_rev st p) ! i \<and> INPROTO2PORTLISTPROTO (proto_no q) = p"
  shows "pl_ok st (add_count p b 1 (set_slot p i e (add_count p a (-1) pl)))"
  using assms counts_move[of pl i p a e b] by (simp add: pl_ok_def shape_set_slot entries_set_slot)

lemma pl_ok_replace:
  assumes "pl_ok st pl" "i < length (slots pl p)" "effective pl p e = effective pl p (slots pl p ! i)"
    "\<And>q. e = Some q \<Longrightarrow> portno q = the (port_map_rev st p) ! i \<and> INPROTO2PORTLISTPROTO (proto_no q) = p"
  shows "pl_ok st (set_slot p i e pl)"
  using assms by (auto simp: pl_ok_def counts_ok_def in_state_set_slot shape_set_slot entries_set_slot)

lemma createPort_scanned:
  assumes "pl_ok st pl" "mapPort st pl no protocol = Some (i, p)" "i < length (slots pl p)"
    "p = INPROTO2PORTLISTPROTO protocol" "the (port_map_rev st p) ! i = no"
  shows "\<exists>q pl1. createPort st no protocol pl = Some (i, p, q, pl1) \<and> (\<forall>e. set_slot p i e pl1 = set_slot p i e pl) \<and>
    pstate q = effective pl p (slots pl p ! i) \<and> portno q = no \<and> INPROTO2PORTLISTPROTO (proto_no q) = p"
proof (cases "slots pl p ! i")
  case (Some q)
  then have "portno q = no \<and> INPROTO2PORTLISTPROTO (proto_no q) = p" using assms(1,3,5) by (auto simp: pl_ok_def entries_ok_def)
  then show ?thesis using assms(2) Some by (simp add: createPort_def effective_def)
qed (use assms in \<open>simp add: createPort_def effective_def Let_def\<close>)

lemma createPort_add_count:
  "createPort st no protocol (add_count p' s k pl) =
     map_option (\<lambda>(i, p, q, pl1). (i, p, q, add_count p' s k pl1)) (createPort st no protocol pl)"
  by (cases "mapPort st pl no protocol") (auto simp: createPort_def set_slot_add_count Let_def split: option.splits)

lemma setStateReason_scanned:
  assumes "pl_ok st pl" "mapPort st pl no protocol = Some (i, p)" "i < length (slots pl p)"
    "p = INPROTO2PORTLISTPROTO protocol" "the (port_map_rev st p) ! i = no"
  shows "\<exists>q. setStateReason st no protocol r t pl = Some (set_slot p i (Some q) pl) \<and> pstate q = effective pl p (slots pl p ! i) \<and>
    portno q = no \<and> INPROTO2PORTLISTPROTO (proto_no q) = p \<and> reason_id q = r"
  using createPort_scanned[OF assms] by (fastforce simp: setStateReason_def)

lemma setPortState_scanned:
  assumes "pl_ok st pl" "scanned st protocol no" "s \<in> {1, 2, 3, 6, 7, 8}" "p = INPROTO2PORTLISTPROTO protocol"
  shows "\<exists>i q. setPortState st no protocol s pl = Some (add_count p s 1 (set_slot p i (Some q) (add_count p (effective pl p (slots pl p ! i)) (-1) pl))) \<and>
    mapPort st pl no protocol = Some (i, p) \<and> i < length (slots pl p) \<and> the (port_map_rev st p) ! i = no \<and>
    pstate q = s \<and> portno q = no \<and> INPROTO2PORTLISTPROTO (proto_no q) = p"
proof -
  obtain i where i: "mapPort st pl no protocol = Some (i, p)" "i < length (slots pl p)" "the (port_map_rev st p) ! i = no"
    using mapPort_scanned[OF assms(1,2)] assms(4) by auto
  obtain q pl1 where c: "createPort st no protocol pl = Some (i, p, q, pl1)" "\<And>e. set_slot p i e pl1 = set_slot p i e pl"
    "portno q = no" "INPROTO2PORTLISTPROTO (proto_no q) = p" "pstate q = effective pl p (slots pl p ! i)"
    using createPort_scanned[OF assms(1) i(1,2) assms(4) i(3)] by blast
  define a where "a = effective pl p (slots pl p ! i)"
  define b where "b = add_count p s 1 (set_slot p i (Some (q\<lparr>pstate := s\<rparr>)) (add_count p a (-1) pl))"
  have ok: "pl_ok st b" unfolding b_def
    by (rule pl_ok_move[OF assms(1) i(2)]) (use c i(3) in \<open>simp_all add: a_def effective_def\<close>)
  have ip: "protocol = 0 \<Longrightarrow> no < 256" using i(1) by (auto simp: mapPort_def Let_def split: if_splits)
  have s: "\<not> \<not> s < 9" "\<not> s \<notin> {2, 1, 3, 6, 7, 8}" using assms(3) by auto
  have step: "setPortState st no protocol s pl =
    (if s = 3 \<or> s = 7 then setStateReason st no protocol 26 0 b else Some b)"
    using s ip i(1) c(1,2)
    by (auto simp: setPortState_def Let_def lookupPort_def a_def b_def assms(4)[symmetric] createPort_add_count set_slot_add_count effective_def)
  have l: "mapPort st b no protocol = Some (i, p)" "i < length (slots b p)" "slots b p ! i = Some (q\<lparr>pstate := s\<rparr>)"
    using i(1,2) assms(1) by (simp_all add: b_def mapPort_set_slot pl_ok_def)
  show ?thesis
  proof (cases "s = 3 \<or> s = 7")
    case True
    obtain q' where q': "setStateReason st no protocol 26 0 b = Some (set_slot p i (Some q') b)" "pstate q' = s" "portno q' = no"
      "INPROTO2PORTLISTPROTO (proto_no q') = p"
      using setStateReason_scanned[OF ok l(1,2) assms(4) i(3), of 26 0] l(3) by (auto simp: effective_def)
    have "set_slot p i (Some q') b = add_count p s 1 (set_slot p i (Some q') (add_count p a (-1) pl))"
      by (simp add: b_def set_slot_add_count)
    then show ?thesis using step True q' i by (auto simp: a_def)
  next
    case False
    then show ?thesis using step c i by (auto simp: b_def a_def)
  qed
qed


subsection \<open>Every operation keeps the table consistent\<close>

lemma PortList_new_ok: "statics_ok st \<Longrightarrow> pl_ok st (PortList_new st)"
  by (auto simp: pl_ok_def shape_ok_def entries_ok_def counts_ok_def in_state_def PortList_new_def slots_def effective_def filter_replicate)

lemma default_loop_fields [simp]:
  "port_list (default_loop p s l pl) = port_list pl" "default_port_state (default_loop p s l pl) = default_port_state pl"
  by (induction p s l pl rule: default_loop.induct) auto

lemma default_loop_counts:
  "state_counts_proto (default_loop p s l pl) p' s' = state_counts_proto pl p' s' +
     (if p' = p then int (length (filter (\<lambda>e. e = None) l)) * ((if s' = s then 1 else 0) - (if s' = default_port_state pl p then 1 else 0)) else 0)"
  by (induction p s l pl rule: default_loop.induct) (auto simp: counts_add_count algebra_simps)

lemma count_default:
  "int (length (filter (\<lambda>e. (case e of None \<Rightarrow> s | Some q \<Rightarrow> pstate q) = s') l)) =
   int (length (filter (\<lambda>e. (case e of None \<Rightarrow> d | Some q \<Rightarrow> pstate q) = s') l)) +
   int (length (filter (\<lambda>e. e = None) l)) * ((if s' = s then 1 else 0) - (if s' = d then 1 else 0))"
  by (induction l) (auto split: option.splits simp: algebra_simps)

lemma setDefaultPortState_ok:
  assumes "pl_ok st pl"
  shows "pl_ok st (setDefaultPortState protocol s pl)"
proof -
  let ?p = "INPROTO2PORTLISTPROTO protocol"
  let ?r = "setDefaultPortState protocol s pl"
  have f: "port_list ?r = port_list pl" "default_port_state ?r = (default_port_state pl)(?p := s)"
    "state_counts_proto ?r = state_counts_proto (default_loop ?p s (slots pl ?p) pl)"
    by (simp_all add: setDefaultPortState_def Let_def)
  have sl: "slots ?r = slots pl" by (simp add: slots_def f(1) fun_eq_iff)
  have "counts_ok ?r" unfolding counts_ok_def
  proof (intro allI)
    fix p' s'
    have "state_counts_proto pl p' s' = int (in_state pl p' s')" using assms by (simp add: pl_ok_def counts_ok_def)
    then show "state_counts_proto ?r p' s' = int (in_state ?r p' s')"
      using count_default[of s s' "slots pl ?p" "default_port_state pl ?p"]
      by (cases "p' = ?p") (simp_all add: f default_loop_counts in_state_def effective_def sl cong: option.case_cong)
  qed
  then show ?thesis using assms by (simp add: pl_ok_def shape_ok_def entries_ok_def sl f)
qed


lemma setPortState_ok:
  assumes "pl_ok st pl" "scanned st protocol no" "s \<in> {1, 2, 3, 6, 7, 8}"
  shows "\<exists>pl'. setPortState st no protocol s pl = Some pl' \<and> pl_ok st pl'"
proof -
  obtain i q where q: "setPortState st no protocol s pl = Some (add_count (INPROTO2PORTLISTPROTO protocol) s 1 (set_slot (INPROTO2PORTLISTPROTO protocol) i (Some q)
      (add_count (INPROTO2PORTLISTPROTO protocol) (effective pl (INPROTO2PORTLISTPROTO protocol) (slots pl (INPROTO2PORTLISTPROTO protocol) ! i)) (-1) pl)))"
    "i < length (slots pl (INPROTO2PORTLISTPROTO protocol))" "the (port_map_rev st (INPROTO2PORTLISTPROTO protocol)) ! i = no"
    "pstate q = s" "portno q = no" "INPROTO2PORTLISTPROTO (proto_no q) = INPROTO2PORTLISTPROTO protocol"
    using setPortState_scanned[OF assms refl] by blast
  have "pl_ok st (add_count (INPROTO2PORTLISTPROTO protocol) s 1 (set_slot (INPROTO2PORTLISTPROTO protocol) i (Some q)
      (add_count (INPROTO2PORTLISTPROTO protocol) (effective pl (INPROTO2PORTLISTPROTO protocol) (slots pl (INPROTO2PORTLISTPROTO protocol) ! i)) (-1) pl)))"
    by (rule pl_ok_move[OF assms(1) q(2)]) (use q in \<open>simp_all add: effective_def\<close>)
  then show ?thesis using q(1) by blast
qed

lemma setStateReason_ok:
  assumes "pl_ok st pl" "scanned st protocol no"
  shows "\<exists>pl'. setStateReason st no protocol r t pl = Some pl' \<and> pl_ok st pl'"
proof -
  let ?p = "INPROTO2PORTLISTPROTO protocol"
  obtain i where i: "mapPort st pl no protocol = Some (i, ?p)" "i < length (slots pl ?p)" "the (port_map_rev st ?p) ! i = no"
    using mapPort_scanned[OF assms] by auto
  obtain q where q: "setStateReason st no protocol r t pl = Some (set_slot ?p i (Some q) pl)" "pstate q = effective pl ?p (slots pl ?p ! i)"
      "portno q = no" "INPROTO2PORTLISTPROTO (proto_no q) = ?p"
    using setStateReason_scanned[OF assms(1) i(1,2) refl i(3)] by blast
  have "pl_ok st (set_slot ?p i (Some q) pl)"
    by (rule pl_ok_replace[OF assms(1) i(2)]) (use q i in \<open>simp_all add: effective_def[of pl ?p "Some q"]\<close>)
  then show ?thesis using q(1) by blast
qed

lemma forgetPort_ok:
  assumes "pl_ok st pl" "scanned st protocol no"
  shows "\<exists>r pl'. forgetPort st no protocol pl = Some (r, pl') \<and> pl_ok st pl'"
proof -
  let ?p = "INPROTO2PORTLISTPROTO protocol"
  obtain i where i: "mapPort st pl no protocol = Some (i, ?p)" "i < length (slots pl ?p)"
    using mapPort_scanned[OF assms] by auto
  show ?thesis
  proof (cases "slots pl ?p ! i")
    case (Some q)
    have "pl_ok st (add_count ?p (default_port_state pl ?p) 1 (set_slot ?p i None (add_count ?p (pstate q) (-1) pl)))"
      by (rule pl_ok_move[OF assms(1) i(2)]) (use Some in \<open>simp_all add: effective_def\<close>)
    then show ?thesis using i(1) Some by (simp add: forgetPort_def set_slot_add_count)
  qed (use i(1) assms(1) in \<open>simp add: forgetPort_def\<close>)
qed

lemma getPortState_eq:
  assumes "mapPort st pl no protocol = Some (i, p)"
  shows "getPortState st pl no protocol = Some (effective pl p (slots pl p ! i))"
  using assms by (auto simp: getPortState_def lookupPort_def effective_def mapPort_def Let_def split: option.splits if_splits)

lemma mapPort_inj:
  assumes "the (port_map_rev st p) ! i = a" "the (port_map_rev st p) ! j = b" "a \<noteq> b"
  shows "i \<noteq> j"
  using assms by auto

lemma getPortState_setPortState:
  assumes "pl_ok st pl" "scanned st pa a" "scanned st pb b" "s \<in> {1, 2, 3, 6, 7, 8}" "setPortState st a pa s pl = Some pl'"
  shows "getPortState st pl' b pb = (if a = b \<and> INPROTO2PORTLISTPROTO pa = INPROTO2PORTLISTPROTO pb then Some s else getPortState st pl b pb)"
proof -
  let ?p = "INPROTO2PORTLISTPROTO pa" and ?r = "INPROTO2PORTLISTPROTO pb"
  obtain i q where q: "pl' = add_count ?p s 1 (set_slot ?p i (Some q) (add_count ?p (effective pl ?p (slots pl ?p ! i)) (-1) pl))"
    "i < length (slots pl ?p)" "the (port_map_rev st ?p) ! i = a" "pstate q = s" "mapPort st pl a pa = Some (i, ?p)"
    using setPortState_scanned[OF assms(1,2,4) refl] assms(5) by auto
  obtain j where j: "mapPort st pl b pb = Some (j, ?r)" "j < length (slots pl ?r)" "the (port_map_rev st ?r) ! j = b"
    using mapPort_scanned[OF assms(1,3)] by auto
  have m: "mapPort st pl' b pb = Some (j, ?r)" using j(1) q(1,2) assms(1) by (simp add: mapPort_set_slot pl_ok_def)
  have same: "i = j" if "a = b" "?p = ?r"
  proof -
    have "distinct (the (port_map_rev st ?p)) \<and> length (slots pl ?p) = length (the (port_map_rev st ?p))"
      using assms(1,2) by (auto simp: pl_ok_def statics_ok_def proto_map_ok_def shape_ok_def scanned_def split: option.splits) (metis option.case_eq_if option.sel option.simps(4,5))+
    then show ?thesis using that q(2,3) j(2,3) by (metis nth_eq_iff_index_eq)
  qed
  have "getPortState st pl' b pb = Some (effective pl ?r (slots pl' ?r ! j))" using getPortState_eq[OF m] q(1) by simp
  moreover have "slots pl' ?r ! j = (if a = b \<and> ?p = ?r then Some q else slots pl ?r ! j)"
    using q(1,2) same mapPort_inj[OF q(3), of j b] j(3) by (cases "?p = ?r") (auto simp: nth_list_update)
  ultimately show ?thesis using getPortState_eq[OF j(1)] q(4) by (simp add: effective_def)
qed


lemma setServiceProbeResults_ok:
  assumes "pl_ok st pl" "scanned st protocol no"
  shows "\<exists>pl'. setServiceProbeResults st getserv no protocol r pl = Some pl' \<and> pl_ok st pl'"
proof -
  let ?p = "INPROTO2PORTLISTPROTO protocol"
  obtain i where i: "mapPort st pl no protocol = Some (i, ?p)" "i < length (slots pl ?p)" "the (port_map_rev st ?p) ! i = no"
    using mapPort_scanned[OF assms] by auto
  obtain q pl1 where q: "createPort st no protocol pl = Some (i, ?p, q, pl1)" "\<And>e. set_slot ?p i e pl1 = set_slot ?p i e pl"
      "pstate q = effective pl ?p (slots pl ?p ! i)" "portno q = no" "INPROTO2PORTLISTPROTO (proto_no q) = ?p"
    using createPort_scanned[OF assms(1) i(1,2) refl i(3)] by blast
  have "pl_ok st (set_slot ?p i (Some (q\<lparr>service := x\<rparr>)) pl)" for x
    by (rule pl_ok_replace[OF assms(1) i(2)]) (use q i in \<open>simp_all add: effective_def[of pl ?p "Some (q\<lparr>service := x\<rparr>)"]\<close>)
  then show ?thesis using q(1,2) by (simp add: setServiceProbeResults_def)
qed

datatype pl_op = Set_default nat nat | Set_state nat nat nat | Set_reason nat nat nat nat | Set_service nat nat probe_results | Forget nat nat

fun pl_exec :: "port_statics \<Rightarrow> (nat \<Rightarrow> nat \<Rightarrow> string option) \<Rightarrow> pl_op \<Rightarrow> portlist \<Rightarrow> portlist option" where
  "pl_exec st gs (Set_default pr s) pl = Some (setDefaultPortState pr s pl)"
| "pl_exec st gs (Set_state no pr s) pl = setPortState st no pr s pl"
| "pl_exec st gs (Set_reason no pr r t) pl = setStateReason st no pr r t pl"
| "pl_exec st gs (Set_service no pr r) pl = setServiceProbeResults st gs no pr r pl"
| "pl_exec st gs (Forget no pr) pl = map_option snd (forgetPort st no pr pl)"

fun pl_op_ok :: "port_statics \<Rightarrow> pl_op \<Rightarrow> bool" where
  "pl_op_ok st (Set_default pr s) \<longleftrightarrow> s < 9"
| "pl_op_ok st (Set_state no pr s) \<longleftrightarrow> scanned st pr no \<and> s \<in> {1, 2, 3, 6, 7, 8}"
| "pl_op_ok st (Set_reason no pr r t) \<longleftrightarrow> scanned st pr no"
| "pl_op_ok st (Set_service no pr r) \<longleftrightarrow> scanned st pr no"
| "pl_op_ok st (Forget no pr) \<longleftrightarrow> scanned st pr no"

fun pl_run :: "port_statics \<Rightarrow> (nat \<Rightarrow> nat \<Rightarrow> string option) \<Rightarrow> pl_op list \<Rightarrow> portlist \<Rightarrow> portlist option" where
  "pl_run st gs [] pl = Some pl"
| "pl_run st gs (x # xs) pl = do { pl' \<leftarrow> pl_exec st gs x pl; pl_run st gs xs pl' }"

lemma pl_exec_ok: "pl_ok st pl \<Longrightarrow> pl_op_ok st x \<Longrightarrow> \<exists>pl'. pl_exec st gs x pl = Some pl' \<and> pl_ok st pl'"
  using setDefaultPortState_ok setPortState_ok setStateReason_ok setServiceProbeResults_ok forgetPort_ok by (cases x) fastforce+

lemma pl_run_ok: "pl_ok st pl \<Longrightarrow> list_all (pl_op_ok st) xs \<Longrightarrow> \<exists>pl'. pl_run st gs xs pl = Some pl' \<and> pl_ok st pl'"
proof (induction xs arbitrary: pl)
  case (Cons x xs)
  then show ?case using pl_exec_ok[of st pl x gs] by fastforce
qed simp


lemma length_filter_map_eq: "map P xs = map Q ys \<Longrightarrow> length (filter P xs) = length (filter Q ys)"
proof (induction xs arbitrary: ys)
  case (Cons x xs)
  then show ?case by (cases ys) auto
qed simp

definition scan_list :: "port_statics \<Rightarrow> nat \<Rightarrow> nat list" where
  "scan_list st protocol = (case port_map_rev st (INPROTO2PORTLISTPROTO protocol) of None \<Rightarrow> [] | Some r \<Rightarrow> r)"

lemma scan_list_slots:
  assumes "pl_ok st pl"
  shows "length (slots pl (INPROTO2PORTLISTPROTO protocol)) = length (scan_list st protocol)" "distinct (scan_list st protocol)"
    "i < length (scan_list st protocol) \<Longrightarrow> the (port_map_rev st (INPROTO2PORTLISTPROTO protocol)) ! i = scan_list st protocol ! i"
proof -
  let ?p = "INPROTO2PORTLISTPROTO protocol"
  have "proto_map_ok ?p (port_map st ?p) (port_map_rev st ?p) (length (slots pl ?p))" using assms by (simp add: pl_ok_def statics_ok_def shape_ok_def)
  then show "length (slots pl ?p) = length (scan_list st protocol)" "distinct (scan_list st protocol)"
    "i < length (scan_list st protocol) \<Longrightarrow> the (port_map_rev st ?p) ! i = scan_list st protocol ! i"
    by (auto simp: proto_map_ok_def scan_list_def split: option.splits)
qed

lemma getPortState_nth:
  assumes "pl_ok st pl" "i < length (scan_list st protocol)"
  shows "getPortState st pl (scan_list st protocol ! i) protocol =
    Some (effective pl (INPROTO2PORTLISTPROTO protocol) (slots pl (INPROTO2PORTLISTPROTO protocol) ! i))"
proof -
  let ?p = "INPROTO2PORTLISTPROTO protocol" and ?r = "scan_list st protocol"
  note r = scan_list_slots[OF assms(1), where protocol = protocol]
  have "?r ! i \<in> set ?r" using assms(2) by simp
  then have "scanned st protocol (?r ! i)" by (auto simp: scanned_def scan_list_def split: option.splits)
  then obtain j where j: "mapPort st pl (?r ! i) protocol = Some (j, ?p)" "j < length ?r" "?r ! j = ?r ! i"
    using mapPort_scanned[OF assms(1), of protocol "?r ! i"] r(1) r(3) by fastforce
  then have "j = i" using r(2) assms(2) by (simp add: nth_eq_iff_index_eq)
  then show ?thesis using getPortState_eq[OF j(1)] by simp
qed

lemma ports_in_state:
  assumes "pl_ok st pl"
  shows "length (filter (\<lambda>no. getPortState st pl no protocol = Some s) (scan_list st protocol)) = in_state pl (INPROTO2PORTLISTPROTO protocol) s"
  unfolding in_state_def
  by (rule length_filter_map_eq, rule nth_equalityI) (use getPortState_nth[OF assms] scan_list_slots(1)[OF assms] in simp_all)

lemmas witness_simps = setDefaultPortState_def PortList_new_def add_count_def slots_def INPROTO2PORTLISTPROTO_def setPortState_def lookupPort_def
  mapPort_def createPort_def set_slot_def forgetPort_def getPortState_def setStateReason_def Let_def

subsection \<open>Every port is in one of the nine states\<close>

definition nine_states :: "portlist \<Rightarrow> bool" where
  "nine_states pl \<longleftrightarrow> (\<forall>p. default_port_state pl p < PORT_HIGHEST_STATE \<and> (\<forall>e \<in> set (slots pl p). effective pl p e < PORT_HIGHEST_STATE))"

lemma nine_states_add_count [simp]: "nine_states (add_count p s k pl) = nine_states pl"
  by (simp add: nine_states_def)

lemma nine_states_set_slot: "nine_states pl \<Longrightarrow> effective pl p e < 9 \<Longrightarrow> nine_states (set_slot p i e pl)"
  using set_update_subset_insert[of "slots pl p" i e] by (auto simp: nine_states_def)

lemma nine_states_effective: "nine_states pl \<Longrightarrow> i < length (slots pl p) \<Longrightarrow> effective pl p (slots pl p ! i) < 9"
  by (simp add: nine_states_def)

lemma pl_exec_nine:
  assumes "pl_ok st pl" "nine_states pl" "pl_op_ok st x" "pl_exec st gs x pl = Some pl'"
  shows "nine_states pl'"
proof (cases x)
  case (Set_default pr s)
  have "port_list pl' = port_list pl" using assms(4) by (auto simp: Set_default setDefaultPortState_def Let_def)
  then have "slots pl' = slots pl" by (simp add: slots_def fun_eq_iff)
  moreover have "default_port_state pl' = (default_port_state pl)(INPROTO2PORTLISTPROTO pr := s)" using assms(4) by (auto simp: Set_default setDefaultPortState_def Let_def)
  ultimately show ?thesis using assms(2,3) by (auto simp: nine_states_def effective_def Set_default split: option.splits)
next
  case (Set_state no pr s)
  then obtain i q where "pl' = add_count (INPROTO2PORTLISTPROTO pr) s 1 (set_slot (INPROTO2PORTLISTPROTO pr) i (Some q)
      (add_count (INPROTO2PORTLISTPROTO pr) (effective pl (INPROTO2PORTLISTPROTO pr) (slots pl (INPROTO2PORTLISTPROTO pr) ! i)) (-1) pl))" "pstate q = s"
    using setPortState_scanned[OF assms(1) _ _ refl, of pr no s] assms(3,4) by auto
  then show ?thesis using nine_states_set_slot[of _ _ "Some q"] assms(2,3) by (auto simp: Set_state effective_def[of _ _ "Some q"])
next
  case (Set_reason no pr r t)
  then obtain i where i: "mapPort st pl no pr = Some (i, INPROTO2PORTLISTPROTO pr)" "i < length (slots pl (INPROTO2PORTLISTPROTO pr))"
      "the (port_map_rev st (INPROTO2PORTLISTPROTO pr)) ! i = no"
    using mapPort_scanned[OF assms(1)] assms(3) by fastforce
  from setStateReason_scanned[OF assms(1) i(1,2) refl i(3), of r t] nine_states_effective[OF assms(2) i(2)] nine_states_set_slot[OF assms(2)]
  show ?thesis using assms(4) by (auto simp: Set_reason effective_def[of _ _ "Some _"])
next
  case (Set_service no pr r)
  then obtain i where i: "mapPort st pl no pr = Some (i, INPROTO2PORTLISTPROTO pr)" "i < length (slots pl (INPROTO2PORTLISTPROTO pr))"
      "the (port_map_rev st (INPROTO2PORTLISTPROTO pr)) ! i = no"
    using mapPort_scanned[OF assms(1)] assms(3) by fastforce
  from createPort_scanned[OF assms(1) i(1,2) refl i(3)] nine_states_effective[OF assms(2) i(2)] nine_states_set_slot[OF assms(2)]
  show ?thesis using assms(4) by (auto simp: Set_service setServiceProbeResults_def effective_def[of _ _ "Some _"])
next
  case (Forget no pr)
  have "nine_states (set_slot p i None pl)" for p i using nine_states_set_slot[OF assms(2), of p None] assms(2) by (simp add: nine_states_def effective_def[of pl p None])
  then show ?thesis using assms(2,4) by (auto simp: Forget forgetPort_def set_slot_add_count split: option.splits bind_splits)
qed

lemma pl_run_nine:
  assumes "pl_ok st pl" "nine_states pl" "list_all (pl_op_ok st) xs" "pl_run st gs xs pl = Some pl'"
  shows "nine_states pl'"
  using assms
proof (induction xs arbitrary: pl)
  case (Cons x xs)
  then obtain pl1 where "pl_exec st gs x pl = Some pl1" "pl_ok st pl1" "pl_run st gs xs pl1 = Some pl'" using pl_exec_ok[of st pl x gs] by fastforce
  then show ?case using Cons.IH[of pl1] pl_exec_nine[of st pl x gs pl1] Cons.prems by simp
qed simp

lemma PortList_new_nine: "nine_states (PortList_new st)"
  by (auto simp: nine_states_def PortList_new_def slots_def effective_def)

lemma sum_length_filter: "\<forall>x \<in> set l. f x < n \<Longrightarrow> (\<Sum>s < n. int (length (filter (\<lambda>x. f x = s) l))) = int (length l)"
  for f :: "'a \<Rightarrow> nat"
proof (induction l)
  case (Cons x l)
  have "(\<Sum>s < n. int (length (filter (\<lambda>y. f y = s) (x # l)))) = (\<Sum>s < n. (if s = f x then 1 else 0) + int (length (filter (\<lambda>y. f y = s) l)))"
    by (rule sum.cong) auto
  then show ?case using Cons by (simp add: sum.distrib)
qed simp

text \<open>C10. The counts of states are exact: after any sequence of operations on ports that are being scanned no assertion
  has failed and, for every protocol and state, the counter of the table is the number of ports that \<open>getPortState\<close> reports in
  that state; the counters of the nine states of a protocol sum to the number of its ports.\<close>

theorem portlist_counts_exact:
  assumes "statics_ok st" "list_all (pl_op_ok st) ops"
  shows "\<exists>pl. pl_run st getserv ops (PortList_new st) = Some pl \<and>
    (\<forall>protocol s. getStateCounts_proto pl protocol s =
       int (length (filter (\<lambda>no. getPortState st pl no protocol = Some s) (scan_list st protocol)))) \<and>
    (\<forall>protocol. (\<Sum>s < PORT_HIGHEST_STATE. getStateCounts_proto pl protocol s) = int (length (scan_list st protocol)))"
proof -
  obtain pl where pl: "pl_run st getserv ops (PortList_new st) = Some pl" "pl_ok st pl"
    using pl_run_ok[OF PortList_new_ok[OF assms(1)] assms(2)] by blast
  have count: "getStateCounts_proto pl protocol s = int (in_state pl (INPROTO2PORTLISTPROTO protocol) s)" for protocol s
    using pl(2) by (simp add: getStateCounts_proto_def pl_ok_def counts_ok_def)
  have "nine_states pl" using pl_run_nine[OF PortList_new_ok[OF assms(1)] PortList_new_nine assms(2) pl(1)] .
  then have "(\<Sum>s < 9. getStateCounts_proto pl protocol s) = int (length (scan_list st protocol))" for protocol
    using sum_length_filter[of "slots pl (INPROTO2PORTLISTPROTO protocol)" "effective pl (INPROTO2PORTLISTPROTO protocol)" 9]
      scan_list_slots(1)[OF pl(2), of protocol] by (simp add: nine_states_def count in_state_def)
  then show ?thesis using pl(1) ports_in_state[OF pl(2)] count by auto
qed

theorem portlist_counts_exact_witness:
  "\<exists>st pl. initializePortMap statics0 6 [22, 80, 443] = Some st \<and>
     pl_run st (\<lambda>_ _. None) [Set_default 6 3, Set_state 80 6 2, Set_state 22 6 1, Set_state 22 6 2, Forget 80 6] (PortList_new st) = Some pl \<and>
     getStateCounts_proto pl 6 2 = 1 \<and> getStateCounts_proto pl 6 3 = 2"
proof -
  let ?ops = "[Set_default 6 3, Set_state 80 6 2, Set_state 22 6 1, Set_state 22 6 2, Forget 80 6]"
  obtain st where st: "initializePortMap statics0 6 [22, 80, 443] = Some st"
    by (simp add: initializePortMap_def statics0_def Let_def)
  have "statics_ok st" by (rule initializePortMap_ok[OF _ _ st]) (auto simp: statics_ok_def proto_map_ok_def statics0_def INPROTO2PORTLISTPROTO_def)
  moreover have st': "st = \<lparr>port_map = (\<lambda>_. None)(PORTLIST_PROTO_TCP := Some (fill_map 0 [22, 80, 443] (\<lambda>_. 0))),
      port_map_rev = (\<lambda>_. None)(PORTLIST_PROTO_TCP := Some [22, 80, 443]), port_list_count = (\<lambda>_. 0)(PORTLIST_PROTO_TCP := 3)\<rparr>"
    using st by (auto simp: initializePortMap_def statics0_def Let_def INPROTO2PORTLISTPROTO_def numeral_3_eq_3)
  moreover have "list_all (pl_op_ok st) ?ops" by (simp add: scanned_def st' INPROTO2PORTLISTPROTO_def)
  ultimately obtain pl where pl: "pl_run st (\<lambda>_ _. None) ?ops (PortList_new st) = Some pl"
    "\<And>protocol s. getStateCounts_proto pl protocol s =
       int (length (filter (\<lambda>no. getPortState st pl no protocol = Some s) (scan_list st protocol)))"
    using portlist_counts_exact[of st ?ops "\<lambda>_ _. None"] by blast
  have "map (\<lambda>no. getPortState st pl no 6) [22, 80, 443] = [Some 2, Some 3, Some 3]"
    using pl(1) unfolding st' by (auto simp: witness_simps)
  then have g: "getPortState st pl 22 6 = Some 2" "getPortState st pl 80 6 = Some 3" "getPortState st pl 443 6 = Some 3" by simp_all
  then show ?thesis using st pl(1) pl(2)[of 6 2] pl(2)[of 6 3] g by (auto simp: scan_list_def st' INPROTO2PORTLISTPROTO_def)
qed


section \<open>Iteration over the ports\<close>

definition default_port :: "port_statics \<Rightarrow> portlist \<Rightarrow> portlist_proto \<Rightarrow> nat \<Rightarrow> port" where
  "default_port st pl p i = \<lparr>portno = the (port_map_rev st p) ! i, proto_no = PORTLISTPROTO2INPROTO p, pstate = default_port_state pl p,
     reason_id = ER_NORESPONSE, reason_ttl = 0, service = None\<rparr>"

fun next_loop :: "port_statics \<Rightarrow> portlist \<Rightarrow> portlist_proto \<Rightarrow> nat \<Rightarrow> nat \<Rightarrow> port option list \<Rightarrow> port option" where
  "next_loop st pl p s i [] = None"
| "next_loop st pl p s i (Some q # es) = (if s = 0 \<or> pstate q = s then Some q else next_loop st pl p s (Suc i) es)"
| "next_loop st pl p s i (None # es) = (if s = 0 \<or> default_port_state pl p = s then Some (default_port st pl p i) else next_loop st pl p s (Suc i) es)"

definition next_start :: "port_statics \<Rightarrow> port option \<Rightarrow> nat \<Rightarrow> (portlist_proto \<times> nat) option" where
  "next_start st cur allowed = (case cur of
       Some c \<Rightarrow> (let p = INPROTO2PORTLISTPROTO (proto_no c) in
         (case port_map st p of
            None \<Rightarrow> None
          | Some m \<Rightarrow> (if proto_no c = IPPROTO_IP \<and> \<not> portno c < 256 then None else Some (p, m (portno c) + 1))))
     | None \<Rightarrow> Some ((if allowed = TCPANDUDPANDSCTP then INPROTO2PORTLISTPROTO IPPROTO_TCP
                      else if allowed = UDPANDSCTP then INPROTO2PORTLISTPROTO IPPROTO_UDP
                      else INPROTO2PORTLISTPROTO allowed), 0))"

function nextPort :: "port_statics \<Rightarrow> portlist \<Rightarrow> port option \<Rightarrow> nat \<Rightarrow> nat \<Rightarrow> port option option" where
  "nextPort st pl cur allowed s = (case next_start st cur allowed of
       None \<Rightarrow> None
     | Some (p, i) \<Rightarrow>
         (case next_loop st pl p s i (drop i (slots pl p)) of
            Some q \<Rightarrow> Some (Some q)
          | None \<Rightarrow>
              if (cur = None \<and> allowed = TCPANDUDPANDSCTP) \<or> (cur \<noteq> None \<and> p = INPROTO2PORTLISTPROTO IPPROTO_TCP)
              then nextPort st pl None UDPANDSCTP s
              else if (cur = None \<and> allowed = UDPANDSCTP) \<or> (cur \<noteq> None \<and> p = INPROTO2PORTLISTPROTO IPPROTO_UDP)
              then nextPort st pl None IPPROTO_SCTP s
              else Some None))"
  by pat_completeness auto

termination
  by (relation "measure (\<lambda>(st, pl, cur, allowed, s). if cur \<noteq> None then 3 else if allowed = 256 then 2 else if allowed = 257 then 1 else 0)") auto

declare nextPort.simps [simp del]

text \<open>The way the function is used: the port that was returned is passed to the next call.\<close>

fun nextPorts :: "port_statics \<Rightarrow> portlist \<Rightarrow> nat \<Rightarrow> nat \<Rightarrow> nat \<Rightarrow> port option \<Rightarrow> port list option" where
  "nextPorts st pl allowed s 0 cur = None"
| "nextPorts st pl allowed s (Suc n) cur = do {
     r \<leftarrow> nextPort st pl cur allowed s;
     case r of None \<Rightarrow> Some [] | Some q \<Rightarrow> do { qs \<leftarrow> nextPorts st pl allowed s n (Some q); Some (q # qs) } }"

subsection \<open>Order and completeness\<close>

definition entry :: "port_statics \<Rightarrow> portlist \<Rightarrow> portlist_proto \<Rightarrow> nat \<Rightarrow> port" where
  "entry st pl p i = (case slots pl p ! i of Some q \<Rightarrow> q | None \<Rightarrow> default_port st pl p i)"

definition matching :: "port_statics \<Rightarrow> portlist \<Rightarrow> portlist_proto \<Rightarrow> nat \<Rightarrow> nat \<Rightarrow> port list" where
  "matching st pl p s i = map (entry st pl p) (filter (\<lambda>j. s = 0 \<or> effective pl p (slots pl p ! j) = s) [i..<length (slots pl p)])"

definition first :: "'b list \<Rightarrow> 'b option" where
  "first xs = (case xs of [] \<Rightarrow> None | x # _ \<Rightarrow> Some x)"

lemma first_simps [simp]: "first [] = None" "first (x # xs) = Some x" "(first xs = None) = (xs = [])"
  by (auto simp: first_def split: list.splits)

lemma matching_step:
  "i < length (slots pl p) \<Longrightarrow> matching st pl p s i =
     (if s = 0 \<or> effective pl p (slots pl p ! i) = s then [entry st pl p i] else []) @ matching st pl p s (Suc i)"
  by (simp add: matching_def upt_conv_Cons)

lemma matching_end: "length (slots pl p) \<le> i \<Longrightarrow> matching st pl p s i = []"
  by (simp add: matching_def)

lemma next_loop_first: "next_loop st pl p s i (drop i (slots pl p)) = first (matching st pl p s i)"
proof (induction "length (slots pl p) - i" arbitrary: i)
  case (Suc n)
  then have i: "i < length (slots pl p)" "n = length (slots pl p) - Suc i" by simp_all
  have d: "drop i (slots pl p) = (slots pl p ! i) # drop (Suc i) (slots pl p)" using i(1) by (simp add: Cons_nth_drop_Suc)
  show ?case unfolding d matching_step[OF i(1)] using Suc.hyps(1)[OF i(2)]
    by (cases "slots pl p ! i") (auto simp: effective_def entry_def)
qed (simp add: matching_end)

text \<open>The ports that are still to come when the iteration is at index \<open>i\<close> of a protocol.\<close>

definition remaining :: "port_statics \<Rightarrow> portlist \<Rightarrow> nat \<Rightarrow> portlist_proto \<Rightarrow> nat \<Rightarrow> port list" where
  "remaining st pl s p i = matching st pl p s i @
     (case p of PORTLIST_PROTO_TCP \<Rightarrow> matching st pl PORTLIST_PROTO_UDP s 0 @ matching st pl PORTLIST_PROTO_SCTP s 0
      | PORTLIST_PROTO_UDP \<Rightarrow> matching st pl PORTLIST_PROTO_SCTP s 0 | _ \<Rightarrow> [])"

lemma first_append: "first (xs @ ys) = (case first xs of None \<Rightarrow> first ys | Some x \<Rightarrow> Some x)"
  by (cases xs) auto

lemma nextPort_None:
  "nextPort st pl None 132 s = Some (first (remaining st pl s PORTLIST_PROTO_SCTP 0))"
  "nextPort st pl None 257 s = Some (first (remaining st pl s PORTLIST_PROTO_UDP 0))"
  "nextPort st pl None 256 s = Some (first (remaining st pl s PORTLIST_PROTO_TCP 0))"
proof -
  show 1: "nextPort st pl None 132 s = Some (first (remaining st pl s PORTLIST_PROTO_SCTP 0))"
    using next_loop_first[of st pl PORTLIST_PROTO_SCTP s 0]
    by (subst nextPort.simps) (auto simp: next_start_def INPROTO2PORTLISTPROTO_def remaining_def split: option.splits)
  show 2: "nextPort st pl None 257 s = Some (first (remaining st pl s PORTLIST_PROTO_UDP 0))"
    using next_loop_first[of st pl PORTLIST_PROTO_UDP s 0] 1
    by (subst nextPort.simps) (auto simp: next_start_def INPROTO2PORTLISTPROTO_def remaining_def first_append split: option.splits)
  show "nextPort st pl None 256 s = Some (first (remaining st pl s PORTLIST_PROTO_TCP 0))"
    using next_loop_first[of st pl PORTLIST_PROTO_TCP s 0] 2
    by (subst nextPort.simps) (auto simp: next_start_def INPROTO2PORTLISTPROTO_def remaining_def first_append split: option.splits)
qed

definition at_index :: "port_statics \<Rightarrow> portlist_proto \<Rightarrow> nat \<Rightarrow> port \<Rightarrow> bool" where
  "at_index st p i q \<longleftrightarrow> INPROTO2PORTLISTPROTO (proto_no q) = p \<and>
     (\<exists>m. port_map st p = Some m \<and> m (portno q) = i \<and> (p = PORTLIST_PROTO_IP \<longrightarrow> portno q < 256))"

lemma entry_at_index:
  assumes "pl_ok st pl" "i < length (slots pl p)"
  shows "at_index st p i (entry st pl p i) \<and> portno (entry st pl p i) = the (port_map_rev st p) ! i \<and> pstate (entry st pl p i) = effective pl p (slots pl p ! i)"
proof -
  have pm: "proto_map_ok p (port_map st p) (port_map_rev st p) (length (slots pl p))" using assms(1) by (simp add: pl_ok_def statics_ok_def shape_ok_def)
  then obtain m r where m: "port_map st p = Some m" "port_map_rev st p = Some r" "length (slots pl p) = length r" "\<forall>i < length r. m (r ! i) = i"
    "p = PORTLIST_PROTO_IP \<longrightarrow> (\<forall>q \<in> set r. q < 256)"
    using assms(2) by (auto simp: proto_map_ok_def split: option.splits)
  have "portno (entry st pl p i) = r ! i \<and> INPROTO2PORTLISTPROTO (proto_no (entry st pl p i)) = p"
    using assms m(2) by (auto simp: entry_def default_port_def pl_ok_def entries_ok_def split: option.splits)
  then show ?thesis using m assms(2) by (auto simp: at_index_def entry_def effective_def default_port_def split: option.splits)
qed

lemma nextPort_Some:
  assumes "at_index st p i q"
  shows "nextPort st pl (Some q) allowed s = Some (first (remaining st pl s p (Suc i)))"
proof -
  have "next_start st (Some q) allowed = Some (p, Suc i)"
    using assms by (cases "proto_no q = 0") (auto simp: at_index_def next_start_def INPROTO2PORTLISTPROTO_def split: if_splits)
  then show ?thesis using next_loop_first[of st pl p s "Suc i"] nextPort_None[of st pl s]
    by (subst nextPort.simps) (cases p, auto simp: INPROTO2PORTLISTPROTO_def remaining_def first_append split: option.splits)
qed

lemma matching_Cons:
  assumes "matching st pl p s i = q # qs"
  shows "\<exists>j < length (slots pl p). q = entry st pl p j \<and> qs = matching st pl p s (Suc j)"
  using assms
proof (induction "length (slots pl p) - i" arbitrary: i)
  case (Suc n)
  then have i: "i < length (slots pl p)" "n = length (slots pl p) - Suc i" by simp_all
  show ?case using Suc.hyps(1)[OF i(2)] Suc.prems i(1) unfolding matching_step[OF i(1)] by (auto split: if_splits)
qed (simp add: matching_end)

lemma remaining_Cons:
  assumes "remaining st pl s p i = q # qs"
  shows "\<exists>p' j. j < length (slots pl p') \<and> q = entry st pl p' j \<and> qs = remaining st pl s p' (Suc j)"
proof (cases "matching st pl p s i")
  case (Cons x xs)
  then show ?thesis using matching_Cons[OF Cons] assms by (auto simp: remaining_def)
next
  case Nil
  consider (udp) "p = PORTLIST_PROTO_TCP" "matching st pl PORTLIST_PROTO_UDP s 0 \<noteq> []"
    | (sctp) "matching st pl PORTLIST_PROTO_SCTP s 0 = q # qs"
    using assms Nil by (cases p; cases "matching st pl PORTLIST_PROTO_UDP s 0 = []") (auto simp: remaining_def)
  then show ?thesis
  proof cases
    case udp
    then obtain x xs where x: "matching st pl PORTLIST_PROTO_UDP s 0 = x # xs" by (cases "matching st pl PORTLIST_PROTO_UDP s 0") auto
    then show ?thesis using matching_Cons[OF x] assms Nil udp(1) by (auto simp: remaining_def intro!: exI[of _ PORTLIST_PROTO_UDP])
  next
    case sctp
    then show ?thesis using matching_Cons[OF sctp] by (auto simp: remaining_def intro!: exI[of _ PORTLIST_PROTO_SCTP])
  qed
qed

lemma nextPorts_remaining:
  assumes "pl_ok st pl" "nextPort st pl cur allowed s = Some (first (remaining st pl s p i))" "length (remaining st pl s p i) < n"
  shows "nextPorts st pl allowed s n cur = Some (remaining st pl s p i)"
  using assms(2,3)
proof (induction n arbitrary: cur p i)
  case (Suc n)
  show ?case
  proof (cases "remaining st pl s p i")
    case (Cons q qs)
    obtain p' j where j: "j < length (slots pl p')" "q = entry st pl p' j" "qs = remaining st pl s p' (Suc j)"
      using remaining_Cons[OF Cons] by blast
    have "nextPort st pl (Some q) allowed s = Some (first (remaining st pl s p' (Suc j)))"
      using nextPort_Some entry_at_index[OF assms(1) j(1)] j(2) by blast
    from Suc.IH[OF this] have "nextPorts st pl allowed s n (Some q) = Some qs" using j(3) Suc.prems(2) Cons by simp
    then show ?thesis using Suc.prems(1) Cons by simp
  qed (use Suc.prems(1) in simp)
qed simp


definition ports_with_state :: "port_statics \<Rightarrow> portlist \<Rightarrow> nat \<Rightarrow> nat \<Rightarrow> nat list" where
  "ports_with_state st pl protocol s = filter (\<lambda>no. s = 0 \<or> getPortState st pl no protocol = Some s) (scan_list st protocol)"

lemma matching_ports:
  assumes "pl_ok st pl"
  shows "map portno (matching st pl (INPROTO2PORTLISTPROTO protocol) s 0) = ports_with_state st pl protocol s"
proof -
  let ?p = "INPROTO2PORTLISTPROTO protocol" and ?r = "scan_list st protocol"
  note r = scan_list_slots[OF assms, where protocol = protocol]
  have "ports_with_state st pl protocol s = filter (\<lambda>no. s = 0 \<or> getPortState st pl no protocol = Some s) (map ((!) ?r) [0..<length ?r])"
    by (simp add: ports_with_state_def map_nth)
  also have "\<dots> = map ((!) ?r) (filter (\<lambda>i. s = 0 \<or> effective pl ?p (slots pl ?p ! i) = s) [0..<length ?r])"
    unfolding filter_map o_def by (rule arg_cong[of _ _ "map ((!) ?r)"], rule filter_cong) (use getPortState_nth[OF assms, of _ protocol] in auto)
  also have "\<dots> = map portno (matching st pl ?p s 0)"
    using entry_at_index[OF assms] r(1,3) by (auto simp: matching_def r(1))
  finally show ?thesis by simp
qed

text \<open>C30. The iteration over all ports is complete and in order: the calls of \<open>nextPort\<close> with \<open>TCPANDUDPANDSCTP\<close> return exactly the
  TCP ports in the wanted state, in the order of the scan list, then the UDP ports, then the SCTP ports, each once,
  and end.\<close>

theorem nextPort_enumerates:
  assumes "statics_ok st" "list_all (pl_op_ok st) ops" "pl_run st getserv ops (PortList_new st) = Some pl" "numPorts st < n"
  shows "\<exists>qs. nextPorts st pl 256 s n None = Some qs \<and>
    map portno qs = ports_with_state st pl 6 s @ ports_with_state st pl 17 s @ ports_with_state st pl 132 s"
proof -
  have ok: "pl_ok st pl" using pl_run_ok[OF PortList_new_ok[OF assms(1)] assms(2), of getserv] assms(3) by simp
  have len: "length (matching st pl p s 0) \<le> port_list_count st p" for p
    using ok length_filter_le[of "\<lambda>j. s = 0 \<or> effective pl p (slots pl p ! j) = s" "[0..<length (slots pl p)]"]
    by (simp add: matching_def pl_ok_def shape_ok_def)
  have "length (remaining st pl s PORTLIST_PROTO_TCP 0) < n"
    using len[of PORTLIST_PROTO_TCP] len[of PORTLIST_PROTO_UDP] len[of PORTLIST_PROTO_SCTP] assms(4) by (simp add: remaining_def numPorts_def all_protos_def)
  from nextPorts_remaining[OF ok nextPort_None(3) this] show ?thesis
    using matching_ports[OF ok, of 6 s] matching_ports[OF ok, of 17 s] matching_ports[OF ok, of 132 s]
    by (simp add: remaining_def INPROTO2PORTLISTPROTO_def)
qed

theorem nextPort_enumerates_witness:
  "\<exists>st st' pl qs. initializePortMap statics0 6 [22, 80] = Some st \<and> initializePortMap st 17 [53] = Some st' \<and>
     pl_run st' (\<lambda>_ _. None) [Set_state 80 6 2, Set_state 53 17 2] (PortList_new st') = Some pl \<and>
     nextPorts st' pl 256 2 4 None = Some qs \<and> map portno qs = [80, 53]"
proof -
  let ?ops = "[Set_state 80 6 2, Set_state 53 17 2]"
  obtain st where st: "initializePortMap statics0 6 [22, 80] = Some st" by (simp add: initializePortMap_def statics0_def Let_def)
  then have st1: "st = \<lparr>port_map = (\<lambda>_. None)(PORTLIST_PROTO_TCP := Some (fill_map 0 [22, 80] (\<lambda>_. 0))),
      port_map_rev = (\<lambda>_. None)(PORTLIST_PROTO_TCP := Some [22, 80]), port_list_count = (\<lambda>_. 0)(PORTLIST_PROTO_TCP := 2)\<rparr>"
    by (auto simp: initializePortMap_def statics0_def Let_def INPROTO2PORTLISTPROTO_def numeral_2_eq_2)
  obtain st' where st': "initializePortMap st 17 [53] = Some st'" by (simp add: initializePortMap_def st1 Let_def INPROTO2PORTLISTPROTO_def)
  have ok: "statics_ok st'"
    by (rule initializePortMap_ok[OF initializePortMap_ok[OF _ _ st] _ st']) (auto simp: statics_ok_def proto_map_ok_def statics0_def INPROTO2PORTLISTPROTO_def)
  have st2: "st' = \<lparr>port_map = (\<lambda>_. None)(PORTLIST_PROTO_TCP := Some (fill_map 0 [22, 80] (\<lambda>_. 0)), PORTLIST_PROTO_UDP := Some (fill_map 0 [53] (\<lambda>_. 0))),
      port_map_rev = (\<lambda>_. None)(PORTLIST_PROTO_TCP := Some [22, 80], PORTLIST_PROTO_UDP := Some [53]),
      port_list_count = (\<lambda>_. 0)(PORTLIST_PROTO_TCP := 2, PORTLIST_PROTO_UDP := 1)\<rparr>"
    using st' by (auto simp: initializePortMap_def st1 Let_def INPROTO2PORTLISTPROTO_def)
  have o: "list_all (pl_op_ok st') ?ops" by (simp add: scanned_def st2 INPROTO2PORTLISTPROTO_def)
  obtain pl where pl: "pl_run st' (\<lambda>_ _. None) ?ops (PortList_new st') = Some pl" using pl_run_ok[OF PortList_new_ok[OF ok] o] by blast
  have "numPorts st' < 4" by (simp add: numPorts_def all_protos_def st2)
  from nextPort_enumerates[OF ok o pl this, of 2] obtain qs where qs: "nextPorts st' pl 256 2 4 None = Some qs"
    "map portno qs = ports_with_state st' pl 6 2 @ ports_with_state st' pl 17 2 @ ports_with_state st' pl 132 2" by blast
  have "getPortState st' pl 22 6 = Some 0" "getPortState st' pl 80 6 = Some 2" "getPortState st' pl 53 17 = Some 2"
    using pl unfolding st2 by (auto simp: witness_simps)
  then have "map portno qs = [80, 53]" using qs(2) by (simp add: ports_with_state_def scan_list_def st2 INPROTO2PORTLISTPROTO_def)
  with st st' pl qs(1) show ?thesis by (intro exI conjI) assumption+
qed


text \<open>The restriction to one protocol holds for the first call only: after the last TCP port a call that asks for TCP ports
  returns a UDP port.\<close>

lemma nextPort_leaves_protocol:
  assumes "pl_ok st pl" "port_map_rev st PORTLIST_PROTO_TCP = Some [80]" "port_map_rev st PORTLIST_PROTO_UDP = Some [53]"
  shows "\<exists>q q'. nextPort st pl None 6 0 = Some (Some q) \<and> portno q = 80 \<and> nextPort st pl (Some q) 6 0 = Some (Some q') \<and> portno q' = 53"
proof -
  have l: "length (slots pl PORTLIST_PROTO_TCP) = 1" "length (slots pl PORTLIST_PROTO_UDP) = 1"
    using scan_list_slots(1)[OF assms(1), of 6] scan_list_slots(1)[OF assms(1), of 17] assms(2,3)
    by (simp_all add: scan_list_def INPROTO2PORTLISTPROTO_def)
  let ?q = "entry st pl PORTLIST_PROTO_TCP 0" and ?q' = "entry st pl PORTLIST_PROTO_UDP 0"
  have e: "at_index st PORTLIST_PROTO_TCP 0 ?q" "portno ?q = 80" "portno ?q' = 53"
    using entry_at_index[OF assms(1), of 0 PORTLIST_PROTO_TCP] entry_at_index[OF assms(1), of 0 PORTLIST_PROTO_UDP] l assms(2,3) by simp_all
  have m: "matching st pl PORTLIST_PROTO_TCP 0 0 = [?q]" "matching st pl PORTLIST_PROTO_UDP 0 0 = [?q']" "matching st pl PORTLIST_PROTO_TCP 0 1 = []"
    using l by (simp_all add: matching_def)
  have "nextPort st pl None 6 0 = Some (Some ?q)"
    using next_loop_first[of st pl PORTLIST_PROTO_TCP 0 0] m(1) by (subst nextPort.simps) (simp add: next_start_def INPROTO2PORTLISTPROTO_def)
  moreover have "nextPort st pl (Some ?q) 6 0 = Some (Some ?q')" using nextPort_Some[OF e(1), of pl 6 0] m by (simp add: remaining_def)
  ultimately show ?thesis using e by blast
qed

text \<open>A port that is not scanned has the index of the first scanned port, so its state is the state of that port.\<close>

lemma unscanned_port_aliases_first:
  assumes "pl_ok st pl" "port_map_rev st (INPROTO2PORTLISTPROTO protocol) = Some (a # r)" "b \<notin> set (a # r)" "b < 256"
  shows "getPortState st pl b protocol = getPortState st pl a protocol"
proof -
  let ?p = "INPROTO2PORTLISTPROTO protocol"
  have pm: "proto_map_ok ?p (port_map st ?p) (Some (a # r)) (port_list_count st ?p)" using assms(1,2) unfolding pl_ok_def statics_ok_def by metis
  then obtain m where m: "port_map st ?p = Some m" "m b = 0" "\<forall>i < length (a # r). m ((a # r) ! i) = i" "port_list_count st ?p = length (a # r)"
    using assms(3) by (auto simp: proto_map_ok_def split: option.splits)
  obtain l where l: "port_list pl ?p = Some l" using assms(1) m(4) by (cases "port_list pl ?p") (auto simp: pl_ok_def shape_ok_def)
  have "mapPort st pl b protocol = Some (0, ?p)" using m l assms(4) by (simp add: mapPort_def Let_def)
  moreover have "m a = 0" using m(3) by force
  then have "\<not> (protocol = 0 \<and> \<not> a < 256) \<Longrightarrow> mapPort st pl a protocol = Some (0, ?p)" using m(1,4) l by (simp add: mapPort_def Let_def)
  moreover have "?p = PORTLIST_PROTO_IP \<Longrightarrow> a < 256" using pm m(1) by (auto simp: proto_map_ok_def)
  moreover have "protocol = 0 \<Longrightarrow> ?p = PORTLIST_PROTO_IP" by (simp add: INPROTO2PORTLISTPROTO_def)
  ultimately have "mapPort st pl a protocol = mapPort st pl b protocol" "mapPort st pl b protocol = Some (0, ?p)" by (metis)+
  then show ?thesis using getPortState_eq[of st pl a protocol 0 ?p] getPortState_eq[of st pl b protocol 0 ?p] by simp
qed

section \<open>Ignored states\<close>

record output_ops =
  debugging :: nat
  verbose :: nat
  openOnly :: bool
  ipprotscan :: bool

definition isIgnoredState :: "output_ops \<Rightarrow> portlist \<Rightarrow> nat \<Rightarrow> bool" where
  "isIgnoredState ops pl state =
     (if debugging ops > 2 then False
      else if state = PORT_OPEN \<or> state = PORT_UNKNOWN \<or> state = PORT_TESTING \<or> state = PORT_FRESH then False
      else if state = PORT_OPENFILTERED \<and> (verbose ops > 2 \<or> debugging ops > 2) then False
      else if openOnly ops \<and> state \<noteq> PORT_OPENFILTERED \<and> state \<noteq> PORT_UNFILTERED \<and> getStateCounts pl state > 0 then True
      else
        let max_per_state = (if verbose ops > 0 \<or> debugging ops > 0
              then (if ipprotscan ops then 25 * ((verbose ops + 1) + 3 * debugging ops) else 25 * ((verbose ops + 1) + 20 * debugging ops))
              else 25) in
        getStateCounts pl state > int max_per_state)"

definition ignored_step :: "output_ops \<Rightarrow> portlist \<Rightarrow> nat \<Rightarrow> nat \<Rightarrow> nat \<Rightarrow> nat" where
  "ignored_step ops pl prevstate beststate state =
     (if \<not> isIgnoredState ops pl state then beststate
      else if state = prevstate then beststate
      else if prevstate \<noteq> PORT_UNKNOWN \<and> (getStateCounts pl state > getStateCounts pl prevstate \<or>
              (getStateCounts pl state = getStateCounts pl prevstate \<and> state \<le> prevstate)) then beststate
      else if beststate \<noteq> PORT_UNKNOWN \<and> getStateCounts pl beststate \<ge> getStateCounts pl state then beststate
      else state)"

definition nextIgnoredState :: "output_ops \<Rightarrow> portlist \<Rightarrow> nat \<Rightarrow> nat" where
  "nextIgnoredState ops pl prevstate = foldl (ignored_step ops pl prevstate) PORT_UNKNOWN [0..<PORT_HIGHEST_STATE]"

definition numIgnoredStates :: "output_ops \<Rightarrow> portlist \<Rightarrow> nat" where
  "numIgnoredStates ops pl = foldl (\<lambda>n s. if isIgnoredState ops pl s then n + 1 else n) 0 [0..<PORT_HIGHEST_STATE]"

definition numIgnoredPorts :: "output_ops \<Rightarrow> portlist \<Rightarrow> int" where
  "numIgnoredPorts ops pl = foldl (\<lambda>n s. if isIgnoredState ops pl s then n + getStateCounts pl s else n) 0 [0..<PORT_HIGHEST_STATE]"

fun ignoredStates :: "output_ops \<Rightarrow> portlist \<Rightarrow> nat \<Rightarrow> nat \<Rightarrow> nat list option" where
  "ignoredStates ops pl 0 prev = None"
| "ignoredStates ops pl (Suc n) prev =
     (let s = nextIgnoredState ops pl prev in if s = PORT_UNKNOWN then Some [] else map_option ((#) s) (ignoredStates ops pl n s))"

definition more_common :: "portlist \<Rightarrow> nat \<Rightarrow> nat \<Rightarrow> bool" where
  "more_common pl a b \<longleftrightarrow> getStateCounts pl a > getStateCounts pl b \<or> (getStateCounts pl a = getStateCounts pl b \<and> a < b)"

lemma more_common_trans: "more_common pl a b \<Longrightarrow> more_common pl b c \<Longrightarrow> more_common pl a c"
  by (auto simp: more_common_def)

lemma more_common_linear: "a = b \<or> more_common pl a b \<or> more_common pl b a"
  by (auto simp: more_common_def)

lemma more_common_irrefl: "\<not> more_common pl a a"
  by (simp add: more_common_def)

definition to_come :: "output_ops \<Rightarrow> portlist \<Rightarrow> nat \<Rightarrow> nat \<Rightarrow> nat set" where
  "to_come ops pl prev n = {s. s < n \<and> isIgnoredState ops pl s \<and> (prev = 0 \<or> more_common pl prev s)}"

lemma ignored_pos: "isIgnoredState ops pl s \<Longrightarrow> 0 < s"
  by (cases s) (auto simp: isIgnoredState_def split: if_splits)

lemma ignored_step_eq:
  "ignored_step ops pl prev b n =
    (if isIgnoredState ops pl n \<and> (prev = 0 \<or> more_common pl prev n) \<and> (b = 0 \<or> getStateCounts pl b < getStateCounts pl n) then n else b)"
proof (cases "isIgnoredState ops pl n")
  case True
  have e: "(n = prev \<or> prev \<noteq> 0 \<and> (getStateCounts pl prev < getStateCounts pl n \<or> getStateCounts pl n = getStateCounts pl prev \<and> n \<le> prev)) \<longleftrightarrow>
    \<not> (prev = 0 \<or> more_common pl prev n)"
    using ignored_pos[OF True] by (cases "prev = 0") (auto simp: more_common_def)
  show ?thesis
    by (cases "prev = 0 \<or> more_common pl prev n") (use e True in \<open>auto simp: ignored_step_def not_le\<close>)
qed (simp add: ignored_step_def)

lemma ignored_fold:
  "(let b = foldl (ignored_step ops pl prev) 0 [0..<n] in
    if to_come ops pl prev n = {} then b = 0 else b \<in> to_come ops pl prev n \<and> (\<forall>s \<in> to_come ops pl prev n. s = b \<or> more_common pl b s))"
proof (induction n)
  case (Suc n)
  define b where "b = foldl (ignored_step ops pl prev) 0 [0..<n]"
  have elig: "n \<in> to_come ops pl prev (Suc n) \<longleftrightarrow> isIgnoredState ops pl n \<and> (prev = 0 \<or> more_common pl prev n)" by (simp add: to_come_def)
  have sets: "to_come ops pl prev (Suc n) = to_come ops pl prev n \<union> (if isIgnoredState ops pl n \<and> (prev = 0 \<or> more_common pl prev n) then {n} else {})"
    by (auto simp: to_come_def less_Suc_eq)
  have IH: "if to_come ops pl prev n = {} then b = 0 else b \<in> to_come ops pl prev n \<and> (\<forall>s \<in> to_come ops pl prev n. s = b \<or> more_common pl b s)"
    using Suc by (simp add: b_def Let_def)
  have bpos: "b \<in> to_come ops pl prev n \<Longrightarrow> 0 < b \<and> b < n" by (auto simp: to_come_def intro: ignored_pos)
  have st: "ignored_step ops pl prev b n =
    (if isIgnoredState ops pl n \<and> (prev = 0 \<or> more_common pl prev n) \<and> (b = 0 \<or> getStateCounts pl b < getStateCounts pl n) then n else b)"
    by (rule ignored_step_eq)
  have "foldl (ignored_step ops pl prev) 0 [0..<Suc n] = ignored_step ops pl prev b n" by (simp add: b_def)
  moreover have "if to_come ops pl prev (Suc n) = {} then ignored_step ops pl prev b n = 0 else
      ignored_step ops pl prev b n \<in> to_come ops pl prev (Suc n) \<and> (\<forall>s \<in> to_come ops pl prev (Suc n). s = ignored_step ops pl prev b n \<or> more_common pl (ignored_step ops pl prev b n) s)"
  proof (cases "isIgnoredState ops pl n \<and> (prev = 0 \<or> more_common pl prev n)")
    case True
    show ?thesis
    proof (cases "to_come ops pl prev n = {}")
      case True
      then show ?thesis using IH st sets \<open>isIgnoredState ops pl n \<and> _\<close> by simp
    next
      case False
      then have b: "b \<in> to_come ops pl prev n" "0 < b" "b < n" "\<And>s. s \<in> to_come ops pl prev n \<Longrightarrow> s = b \<or> more_common pl b s"
        using IH bpos by auto
      show ?thesis
      proof (cases "getStateCounts pl b < getStateCounts pl n")
        case True
        then have "more_common pl n b" by (simp add: more_common_def)
        then have "s = n \<or> more_common pl n s" if "s \<in> to_come ops pl prev (Suc n)" for s
          using b(4)[of s] that more_common_trans[of pl n b s] by (auto simp: sets split: if_splits)
        then show ?thesis using st True \<open>isIgnoredState ops pl n \<and> _\<close> b(2) by (simp add: sets)
      next
        case False
        then have "more_common pl b n" using b(3) by (auto simp: more_common_def)
        then show ?thesis using st False \<open>isIgnoredState ops pl n \<and> _\<close> b by (auto simp: sets)
      qed
    qed
  next
    case False
    then have "ignored_step ops pl prev b n = b" "to_come ops pl prev (Suc n) = to_come ops pl prev n" using st sets by auto
    then show ?thesis using IH by (auto split: if_splits)
  qed
  ultimately show ?case by (simp only: Let_def)
qed (simp add: to_come_def)


lemma ignoredStates_from:
  assumes "card (to_come ops pl prev 9) < n"
  shows "\<exists>ss. ignoredStates ops pl n prev = Some ss \<and> sorted_wrt (more_common pl) ss \<and> set ss = to_come ops pl prev 9"
  using assms
proof (induction n arbitrary: prev)
  case (Suc n)
  define b where "b = nextIgnoredState ops pl prev"
  have fin: "finite (to_come ops pl prev 9)" by (simp add: to_come_def)
  note f = ignored_fold[of ops pl prev 9, folded nextIgnoredState_def b_def, unfolded Let_def]
  show ?case
  proof (cases "to_come ops pl prev 9 = {}")
    case True
    then show ?thesis using f by (simp add: b_def)
  next
    case False
    then have b: "b \<in> to_come ops pl prev 9" "\<And>s. s \<in> to_come ops pl prev 9 \<Longrightarrow> s = b \<or> more_common pl b s" using f by auto
    then have b0: "b \<noteq> 0" using ignored_pos by (fastforce simp: to_come_def)
    have rest: "to_come ops pl b 9 = to_come ops pl prev 9 - {b}"
      using b more_common_trans[of pl prev b] b0 more_common_irrefl[of pl b] by (auto simp: to_come_def)
    then have "card (to_come ops pl b 9) < n" using Suc.prems b(1) fin by (simp add: card_gt_0_iff) (metis Suc_less_eq Suc_pred card_gt_0_iff empty_iff)
    then obtain ss where ss: "ignoredStates ops pl n b = Some ss" "sorted_wrt (more_common pl) ss" "set ss = to_come ops pl b 9" using Suc.IH by blast
    have "\<forall>s \<in> set ss. more_common pl b s" using ss(3) rest b(2) by auto
    then show ?thesis using ss b0 rest b(1) by (auto simp: b_def[symmetric] Let_def)
  qed
qed simp

text \<open>The states that are summarised: starting from \<open>PORT_UNKNOWN\<close>, the calls of \<open>nextIgnoredState\<close> go through exactly the ignored
  states, from the most common to the least common one, ties by the number of the state, and end.\<close>

theorem nextIgnoredState_enumerates:
  "\<exists>ss. ignoredStates ops pl 10 0 = Some ss \<and> set ss = {s. s < 9 \<and> isIgnoredState ops pl s} \<and>
    sorted_wrt (\<lambda>a b. getStateCounts pl a > getStateCounts pl b \<or> getStateCounts pl a = getStateCounts pl b \<and> a < b) ss"
proof -
  have "card (to_come ops pl 0 9) \<le> card {..<9 :: nat}" by (intro card_mono) (auto simp: to_come_def)
  then have "card (to_come ops pl 0 9) < 10" by simp
  moreover have "more_common pl = (\<lambda>a b. getStateCounts pl a > getStateCounts pl b \<or> getStateCounts pl a = getStateCounts pl b \<and> a < b)"
    by (simp add: more_common_def fun_eq_iff)
  ultimately show ?thesis using ignoredStates_from[of ops pl 0 10] by (auto simp: to_come_def)
qed

section \<open>Popular ports\<close>

definition pop_ports :: "nat list" where
  "pop_ports = [80, 23, 443, 21, 22, 25, 3389, 110, 445, 139, 143, 53, 135, 3306, 8080, 1723, 111, 995, 993, 5900,
     1025, 587, 8888, 199, 1720, 113, 554, 256]"

definition cheat_step :: "nat list \<times> nat \<Rightarrow> nat \<Rightarrow> nat list \<times> nat" where
  "cheat_step = (\<lambda>(ports, early) i.
     if ports ! i \<in> set pop_ports
     then (if i \<noteq> early then ports[i := ports ! early, early := ports ! i] else ports, early + 1)
     else (ports, early))"

definition random_port_cheat :: "nat list \<Rightarrow> nat list" where
  "random_port_cheat ports = fst (foldl cheat_step (ports, 0) [0..<length ports])"

lemma cheat_invariant:
  assumes "n \<le> length ports" "foldl cheat_step (ports, 0) [0..<n] = (ps, e)"
  shows "mset ps = mset ports \<and> e \<le> n \<and> (\<forall>i < e. ps ! i \<in> set pop_ports) \<and> (\<forall>i. e \<le> i \<and> i < n \<longrightarrow> ps ! i \<notin> set pop_ports) \<and> drop n ps = drop n ports"
  using assms
proof (induction n arbitrary: ps e)
  case (Suc n)
  obtain ps0 e0 where f: "foldl cheat_step (ports, 0) [0..<n] = (ps0, e0)" by force
  note IH = Suc.IH[OF _ f]
  have n: "n < length ports" "n \<le> length ports" using Suc.prems(1) by simp_all
  have l: "length ps0 = length ports" using IH[OF n(2)] by (metis size_mset)
  have d: "drop (Suc n) ps0 = drop (Suc n) ports" using IH[OF n(2)] by (metis drop_drop plus_1_eq_Suc)
  have s: "(ps, e) = cheat_step (ps0, e0) n" using Suc.prems(2) f by simp
  show ?case
  proof (cases "ps0 ! n \<in> set pop_ports \<and> n \<noteq> e0")
    case True
    then have e: "e = e0 + 1" "ps = ps0[n := ps0 ! e0, e0 := ps0 ! n]" "e0 < n" using s IH[OF n(2)] by (auto simp: cheat_step_def)
    have "mset ps = mset ps0" using mset_swap[of n ps0 e0] e n l by (simp add: list_update_swap)
    moreover have "drop (Suc n) ps = drop (Suc n) ps0" using e(3) by (simp add: e(2))
    moreover have nth: "ps ! i = (if i = e0 then ps0 ! n else if i = n then ps0 ! e0 else ps0 ! i)" if "i \<le> n" for i
      using that e n l by (simp add: nth_list_update)
    have "ps ! i \<in> set pop_ports" if "i < e" for i
      using that nth[of i] IH[OF n(2)] e True by (cases "i = e0") auto
    moreover have "ps ! i \<notin> set pop_ports" if "e \<le> i" "i < Suc n" for i
      using that nth[of i] IH[OF n(2)] e by (cases "i = n") auto
    ultimately show ?thesis using IH[OF n(2)] e d by simp
  next
    case False
    then have "ps = ps0" "e = (if ps0 ! n \<in> set pop_ports then e0 + 1 else e0)" "ps0 ! n \<in> set pop_ports \<Longrightarrow> e0 = n"
      using s by (auto simp: cheat_step_def split: if_splits)
    then show ?thesis using IH[OF n(2)] d by (cases "ps0 ! n \<in> set pop_ports") (auto simp: less_Suc_eq)
  qed
qed simp

text \<open>Moving the popular ports to the front only permutes the list, and puts every popular port before all others.\<close>

lemma random_port_cheat_perm:
  "mset (random_port_cheat ports) = mset ports \<and>
   (\<exists>e \<le> length ports. (\<forall>i < e. random_port_cheat ports ! i \<in> set pop_ports) \<and>
      (\<forall>i. e \<le> i \<and> i < length ports \<longrightarrow> random_port_cheat ports ! i \<notin> set pop_ports))"
proof -
  obtain ps e where f: "foldl cheat_step (ports, 0) [0..<length ports] = (ps, e)" by force
  from cheat_invariant[OF order_refl this] show ?thesis by (auto simp: random_port_cheat_def f)
qed

section \<open>Version strings\<close>

lemma append_field_bound:
  assumes "append_field f (dst, left, pad) = (dst', left', pad')" "length dst + left = n"
  shows "length dst' + left' = n"
  using assms by (auto simp: append_field_def Let_def split: option.splits if_splits)

lemma append_extrainfo_bound: "length dst + left = n \<Longrightarrow> length (append_extrainfo f (dst, left, pad)) \<le> n"
  by (auto simp: append_extrainfo_def Let_def split: option.splits)

text \<open>The full version string, with its terminating zero, fits the buffer, whatever the fields are.\<close>

lemma populateFullVersionString_fits:
  assumes "0 < n"
  shows "length (populateFullVersionString sd n) + 1 \<le> n"
proof -
  obtain d1 l1 p1 where 1: "append_field (product sd) ([], n - 1, False) = (d1, l1, p1)" by (cases "append_field (product sd) ([], n - 1, False)") auto
  obtain d2 l2 p2 where 2: "append_field (version sd) (d1, l1, p1) = (d2, l2, p2)" by (cases "append_field (version sd) (d1, l1, p1)") auto
  have "length d2 + l2 = n - 1" using append_field_bound[OF 2 append_field_bound[OF 1]] by simp
  from append_extrainfo_bound[OF this, of "extrainfo sd" p2] show ?thesis using assms 1 2 by (simp add: populateFullVersionString_def)
qed

text \<open>The closing parenthesis is lost when the extra information fits exactly.\<close>

lemma populateFullVersionString_unclosed:
  "populateFullVersionString (serviceDeductions_new\<lparr>extrainfo := Some ''protocol''\<rparr>) 11 = ''(protocol'' \<and>
   populateFullVersionString (serviceDeductions_new\<lparr>extrainfo := Some ''protocol''\<rparr>) 12 = ''(protocol)''"
  by (simp add: populateFullVersionString_def append_field_def append_extrainfo_def serviceDeductions_new_def)

lemma cstringSanityCheck_printable:
  "cstringSanityCheck (Some t) n = Some u \<Longrightarrow> length u \<le> n \<and> list_all isprint u"
  by (auto simp: cstringSanityCheck_def replacenonprintable_def Let_def list_all_iff isprint_def ordc_def)

end
