(* ===== verification/Scan_Probe.thy ===== *)
theory Scan_Probe
  imports Congestion Portlist
begin

text \<open>
  The probes of \<open>ultra_scan\<close>, \<open>scan_engine.cc\<close>: the configuration of a scan, and the order in which the probes of one
  host are generated.  The members of \<open>HostScanStats\<close> that say which probes have been generated are grouped in a record.
\<close>

section \<open>The configuration of a scan\<close>

datatype stype = STYPE_UNKNOWN | HOST_DISCOVERY | ACK_SCAN | SYN_SCAN | FIN_SCAN | XMAS_SCAN | UDP_SCAN | CONNECT_SCAN | NULL_SCAN
  | WINDOW_SCAN | SCTP_INIT_SCAN | SCTP_COOKIE_ECHO_SCAN | MAIMON_SCAN | IPPROT_SCAN | PING_SCAN | PING_SCAN_ARP | IDLE_SCAN
  | BOUNCE_SCAN | SERVICE_SCAN | OS_SCAN | SCRIPT_PRE_SCAN | SCRIPT_SCAN | SCRIPT_POST_SCAN | TRACEROUTE | PING_SCAN_ND

record scan_lists =
  tcp_ports :: "nat list"
  udp_ports :: "nat list"
  sctp_ports :: "nat list"
  prots :: "nat list"
  syn_ping_ports :: "nat list"
  ack_ping_ports :: "nat list"
  udp_ping_ports :: "nat list"
  sctp_ping_ports :: "nat list"
  proto_ping_ports :: "nat list"

text \<open>The bits of \<open>o.pingtype\<close>.\<close>

record pingtype =
  PINGTYPE_ICMP_PING :: bool
  PINGTYPE_ICMP_MASK :: bool
  PINGTYPE_ICMP_TS :: bool
  PINGTYPE_TCP :: bool
  PINGTYPE_TCP_USE_ACK :: bool
  PINGTYPE_TCP_USE_SYN :: bool
  PINGTYPE_CONNECTTCP :: bool
  PINGTYPE_UDP :: bool
  PINGTYPE_PROTO :: bool
  PINGTYPE_SCTP_INIT :: bool

record scan_cfg =
  scantype :: stype
  plists :: scan_lists
  pingtype :: pingtype
  isr00t :: bool
  scanflags :: "nat option"
  perf :: scan_performance_vars
  max_retransmissions :: nat
  base_port :: nat
  magic_port :: "nat option"
  seqmask :: u32
  tops :: timing_ops
  min_packet_send_rate :: rat
  max_packet_send_rate :: rat
  nogcc :: bool
  defeat_rst_ratelimit :: bool
  defeat_icmp_ratelimit :: bool
  max_tcp_scan_delay :: nat
  max_udp_scan_delay :: nat
  max_sctp_scan_delay :: nat
  host_timeout :: nat
  discovery_ignore_rst :: bool
  pcap_recv_timeval_valid :: bool
  statics :: port_statics

text \<open>The flags that \<open>UltraScanInfo::Init\<close> computes from the type of the scan.\<close>

definition tcp_scan :: "scan_cfg \<Rightarrow> bool" where
  "tcp_scan c \<longleftrightarrow> scantype c \<in> {FIN_SCAN, XMAS_SCAN, MAIMON_SCAN, NULL_SCAN, ACK_SCAN, CONNECT_SCAN, SYN_SCAN, WINDOW_SCAN}"

definition udp_scan :: "scan_cfg \<Rightarrow> bool" where "udp_scan c \<longleftrightarrow> scantype c = UDP_SCAN"
definition sctp_scan :: "scan_cfg \<Rightarrow> bool" where "sctp_scan c \<longleftrightarrow> scantype c \<in> {SCTP_INIT_SCAN, SCTP_COOKIE_ECHO_SCAN}"
definition prot_scan :: "scan_cfg \<Rightarrow> bool" where "prot_scan c \<longleftrightarrow> scantype c = IPPROT_SCAN"
definition ping_scan :: "scan_cfg \<Rightarrow> bool" where "ping_scan c \<longleftrightarrow> scantype c \<in> {PING_SCAN, PING_SCAN_ARP, PING_SCAN_ND}"
definition ping_scan_arp :: "scan_cfg \<Rightarrow> bool" where "ping_scan_arp c \<longleftrightarrow> scantype c = PING_SCAN_ARP"
definition ping_scan_nd :: "scan_cfg \<Rightarrow> bool" where "ping_scan_nd c \<longleftrightarrow> scantype c = PING_SCAN_ND"

definition noresp_open_scan :: "scan_cfg \<Rightarrow> bool" where
  "noresp_open_scan c \<longleftrightarrow> scantype c \<in> {FIN_SCAN, XMAS_SCAN, MAIMON_SCAN, NULL_SCAN, UDP_SCAN, IPPROT_SCAN}"

definition rawicmpscan :: "scan_cfg \<Rightarrow> bool" where
  "rawicmpscan c \<longleftrightarrow> scantype c = PING_SCAN \<and> (PINGTYPE_ICMP_PING (pingtype c) \<or> PINGTYPE_ICMP_MASK (pingtype c) \<or> PINGTYPE_ICMP_TS (pingtype c))"
definition rawudpscan :: "scan_cfg \<Rightarrow> bool" where "rawudpscan c \<longleftrightarrow> scantype c = PING_SCAN \<and> PINGTYPE_UDP (pingtype c)"
definition rawsctpscan :: "scan_cfg \<Rightarrow> bool" where "rawsctpscan c \<longleftrightarrow> scantype c = PING_SCAN \<and> PINGTYPE_SCTP_INIT (pingtype c)"
definition rawtcpscan :: "scan_cfg \<Rightarrow> bool" where "rawtcpscan c \<longleftrightarrow> scantype c = PING_SCAN \<and> PINGTYPE_TCP (pingtype c) \<and> isr00t c"
definition rawprotoscan :: "scan_cfg \<Rightarrow> bool" where "rawprotoscan c \<longleftrightarrow> scantype c = PING_SCAN \<and> PINGTYPE_PROTO (pingtype c)"
definition connecttcpscan :: "scan_cfg \<Rightarrow> bool" where
  "connecttcpscan c \<longleftrightarrow> scantype c = PING_SCAN \<and> ((PINGTYPE_TCP (pingtype c) \<and> \<not> isr00t c) \<or> PINGTYPE_CONNECTTCP (pingtype c))"

definition ping_magnifier :: rat where "ping_magnifier = 3"
definition scan_pingtime :: "scan_cfg \<Rightarrow> int" where
  "scan_pingtime c = (if ping_scan_arp c \<or> ping_scan_nd c then 1000 * 1000 div 4 else 1250000)"

lemmas scan_kind_defs = tcp_scan_def udp_scan_def sctp_scan_def prot_scan_def ping_scan_def ping_scan_arp_def ping_scan_nd_def

definition ultra_scantype :: "scan_cfg \<Rightarrow> bool" where
  "ultra_scantype c \<longleftrightarrow> tcp_scan c \<or> udp_scan c \<or> sctp_scan c \<or> prot_scan c \<or> ping_scan c"

section \<open>Probes\<close>

datatype pspectype = PS_NONE | PS_TCP | PS_UDP | PS_PROTO | PS_ICMP | PS_ARP | PS_CONNECTTCP | PS_SCTP | PS_ICMPV6 | PS_ND

datatype probe_data = PD_none | PD_tcp (pd_dport: nat) (pd_flags: nat) | PD_udp (pd_dport: nat) | PD_sctp (pd_dport: nat) (pd_chunktype: nat)
  | PD_icmp (pd_type: nat) (pd_code: nat)

record probespec =
  ps_type :: pspectype
  ps_proto :: nat
  ps_pd :: probe_data

record probe_cursor =
  next_portidx :: nat
  sent_arp :: bool
  next_ackportpingidx :: nat
  next_synportpingidx :: nat
  next_udpportpingidx :: nat
  next_sctpportpingidx :: nat
  next_protoportpingidx :: nat
  sent_icmp_ping :: bool
  sent_icmp_mask :: bool
  sent_icmp_ts :: bool

definition cursor0 :: probe_cursor where
  "cursor0 = \<lparr>next_portidx = 0, sent_arp = False, next_ackportpingidx = 0, next_synportpingidx = 0, next_udpportpingidx = 0,
     next_sctpportpingidx = 0, next_protoportpingidx = 0, sent_icmp_ping = False, sent_icmp_mask = False, sent_icmp_ts = False\<rparr>"

abbreviation (input) "IPPROTO_ICMP \<equiv> 1 :: nat"
abbreviation (input) "IPPROTO_ICMPV6 \<equiv> 58 :: nat"
abbreviation (input) "TH_FIN \<equiv> 1 :: nat"
abbreviation (input) "TH_SYN \<equiv> 2 :: nat"
abbreviation (input) "TH_PUSH \<equiv> 8 :: nat"
abbreviation (input) "TH_ACK \<equiv> 16 :: nat"
abbreviation (input) "TH_URG \<equiv> 32 :: nat"

definition numProbesPerHost :: "scan_cfg \<Rightarrow> nat option" where
  "numProbesPerHost c = (let l = plists c; pt = pingtype c in
     if tcp_scan c then Some (length (tcp_ports l))
     else if udp_scan c then Some (length (udp_ports l))
     else if sctp_scan c then Some (length (sctp_ports l))
     else if prot_scan c then Some (length (prots l))
     else if ping_scan_arp c then Some 1
     else if ping_scan_nd c then Some 1
     else if ping_scan c then Some (
       (if rawtcpscan c then (if PINGTYPE_TCP_USE_ACK pt then length (ack_ping_ports l) else 0) + (if PINGTYPE_TCP_USE_SYN pt then length (syn_ping_ports l) else 0) else 0) +
       (if rawudpscan c then length (udp_ping_ports l) else 0) +
       (if rawsctpscan c then length (sctp_ping_ports l) else 0) +
       (if rawicmpscan c then (if PINGTYPE_ICMP_PING pt then 1 else 0) + (if PINGTYPE_ICMP_MASK pt then 1 else 0) + (if PINGTYPE_ICMP_TS pt then 1 else 0) else 0) +
       (if rawprotoscan c then length (proto_ping_ports l) else 0) +
       (if connecttcpscan c then length (syn_ping_ports l) else 0))
     else None)"

text \<open>Subtraction on natural numbers gives 0 where the code tests that the index is not past the end.\<close>

definition freshPortsLeft :: "scan_cfg \<Rightarrow> probe_cursor \<Rightarrow> nat option" where
  "freshPortsLeft c h = (let l = plists c; pt = pingtype c in
     if tcp_scan c then Some (length (tcp_ports l) - next_portidx h)
     else if udp_scan c then Some (length (udp_ports l) - next_portidx h)
     else if sctp_scan c then Some (length (sctp_ports l) - next_portidx h)
     else if prot_scan c then Some (length (prots l) - next_portidx h)
     else if ping_scan_arp c then Some (if sent_arp h then 0 else 1)
     else if ping_scan_nd c then Some (if sent_arp h then 0 else 1)
     else if ping_scan c then Some (
       (if rawtcpscan c then (if PINGTYPE_TCP_USE_ACK pt then length (ack_ping_ports l) - next_ackportpingidx h else 0) +
          (if PINGTYPE_TCP_USE_SYN pt then length (syn_ping_ports l) - next_synportpingidx h else 0) else 0) +
       (if rawudpscan c then length (udp_ping_ports l) - next_udpportpingidx h else 0) +
       (if rawsctpscan c then length (sctp_ping_ports l) - next_sctpportpingidx h else 0) +
       (if rawicmpscan c then (if PINGTYPE_ICMP_PING pt \<and> \<not> sent_icmp_ping h then 1 else 0) +
          (if PINGTYPE_ICMP_MASK pt \<and> \<not> sent_icmp_mask h then 1 else 0) + (if PINGTYPE_ICMP_TS pt \<and> \<not> sent_icmp_ts h then 1 else 0) else 0) +
       (if rawprotoscan c then length (proto_ping_ports l) - next_protoportpingidx h else 0) +
       (if connecttcpscan c then length (syn_ping_ports l) - next_synportpingidx h else 0))
     else None)"

text \<open>The flags of a TCP probe: given by the user or by the type of the scan.\<close>

definition tcp_flags :: "scan_cfg \<Rightarrow> nat option" where
  "tcp_flags c =
     (if scantype c = CONNECT_SCAN then Some TH_SYN
      else case scanflags c of Some f \<Rightarrow> Some f
      | None \<Rightarrow> (case scantype c of SYN_SCAN \<Rightarrow> Some TH_SYN | ACK_SCAN \<Rightarrow> Some TH_ACK | XMAS_SCAN \<Rightarrow> Some (TH_FIN + TH_URG + TH_PUSH)
          | NULL_SCAN \<Rightarrow> Some 0 | FIN_SCAN \<Rightarrow> Some TH_FIN | MAIMON_SCAN \<Rightarrow> Some (TH_FIN + TH_ACK) | WINDOW_SCAN \<Rightarrow> Some TH_ACK | _ \<Rightarrow> None))"

definition tcp_spec :: "pspectype \<Rightarrow> nat \<Rightarrow> nat \<Rightarrow> probespec" where
  "tcp_spec t port fl = \<lparr>ps_type = t, ps_proto = IPPROTO_TCP, ps_pd = PD_tcp port fl\<rparr>"
definition udp_spec :: "nat \<Rightarrow> probespec" where
  "udp_spec port = \<lparr>ps_type = PS_UDP, ps_proto = IPPROTO_UDP, ps_pd = PD_udp port\<rparr>"
definition sctp_spec :: "nat \<Rightarrow> nat \<Rightarrow> probespec" where
  "sctp_spec port chunk = \<lparr>ps_type = PS_SCTP, ps_proto = IPPROTO_SCTP, ps_pd = PD_sctp port chunk\<rparr>"
definition proto_spec :: "nat \<Rightarrow> probespec" where
  "proto_spec p = \<lparr>ps_type = PS_PROTO, ps_proto = p, ps_pd = PD_none\<rparr>"
definition icmp_spec :: "pspectype \<Rightarrow> nat \<Rightarrow> nat \<Rightarrow> probespec" where
  "icmp_spec t p ty = \<lparr>ps_type = t, ps_proto = p, ps_pd = PD_icmp ty 0\<rparr>"

text \<open>The probes of a ping scan, tried in the order of the code.  The result is the probe and the new state, or no probe, which fails
  the assertion at the end of the function.\<close>

definition next_ping_probe :: "scan_cfg \<Rightarrow> bool \<Rightarrow> probe_cursor \<Rightarrow> (probespec \<times> probe_cursor) option" where
  "next_ping_probe c af_inet6 h = (let l = plists c; pt = pingtype c in
     if rawicmpscan c \<and> af_inet6 \<and> PINGTYPE_ICMP_PING pt \<and> \<not> sent_icmp_ping h
       then Some (icmp_spec PS_ICMPV6 IPPROTO_ICMPV6 128, h\<lparr>sent_icmp_ping := True\<rparr>)
     else if rawicmpscan c \<and> PINGTYPE_ICMP_PING pt \<and> \<not> sent_icmp_ping h
       then Some (icmp_spec PS_ICMP IPPROTO_ICMP 8, h\<lparr>sent_icmp_ping := True\<rparr>)
     else if rawtcpscan c \<and> PINGTYPE_TCP_USE_SYN pt \<and> next_synportpingidx h < length (syn_ping_ports l)
       then Some (tcp_spec PS_TCP (syn_ping_ports l ! next_synportpingidx h) TH_SYN, h\<lparr>next_synportpingidx := next_synportpingidx h + 1\<rparr>)
     else if rawtcpscan c \<and> PINGTYPE_TCP_USE_ACK pt \<and> next_ackportpingidx h < length (ack_ping_ports l)
       then Some (tcp_spec PS_TCP (ack_ping_ports l ! next_ackportpingidx h) TH_ACK, h\<lparr>next_ackportpingidx := next_ackportpingidx h + 1\<rparr>)
     else if rawicmpscan c \<and> PINGTYPE_ICMP_TS pt \<and> \<not> sent_icmp_ts h
       then Some (icmp_spec PS_ICMP IPPROTO_ICMP 13, h\<lparr>sent_icmp_ts := True\<rparr>)
     else if rawudpscan c \<and> next_udpportpingidx h < length (udp_ping_ports l)
       then Some (udp_spec (udp_ping_ports l ! next_udpportpingidx h), h\<lparr>next_udpportpingidx := next_udpportpingidx h + 1\<rparr>)
     else if rawsctpscan c \<and> next_sctpportpingidx h < length (sctp_ping_ports l)
       then Some (sctp_spec (sctp_ping_ports l ! next_sctpportpingidx h) 1, h\<lparr>next_sctpportpingidx := next_sctpportpingidx h + 1\<rparr>)
     else if rawprotoscan c \<and> next_protoportpingidx h < length (proto_ping_ports l)
       then Some (proto_spec (proto_ping_ports l ! next_protoportpingidx h), h\<lparr>next_protoportpingidx := next_protoportpingidx h + 1\<rparr>)
     else if connecttcpscan c \<and> next_synportpingidx h < length (syn_ping_ports l)
       then Some (tcp_spec PS_CONNECTTCP (syn_ping_ports l ! next_synportpingidx h) TH_SYN, h\<lparr>next_synportpingidx := next_synportpingidx h + 1\<rparr>)
     else if rawicmpscan c \<and> PINGTYPE_ICMP_MASK pt \<and> \<not> sent_icmp_mask h
       then Some (icmp_spec PS_ICMP IPPROTO_ICMP 17, h\<lparr>sent_icmp_mask := True\<rparr>)
     else None)"

text \<open>The result is None for a failed assertion, and no probe, the value -1 of the code, is None inside.\<close>

definition get_next_target_probe :: "scan_cfg \<Rightarrow> bool \<Rightarrow> probe_cursor \<Rightarrow> (probespec \<times> probe_cursor) option option" where
  "get_next_target_probe c af_inet6 h = (let l = plists c; i = next_portidx h; h1 = h\<lparr>next_portidx := i + 1\<rparr> in
     if tcp_scan c then
       (if i \<ge> length (tcp_ports l) then Some None
        else case tcp_flags c of None \<Rightarrow> None
        | Some f \<Rightarrow> Some (Some (tcp_spec (if scantype c = CONNECT_SCAN then PS_CONNECTTCP else PS_TCP) (tcp_ports l ! i) f, h1)))
     else if udp_scan c then
       (if i \<ge> length (udp_ports l) then Some None else Some (Some (udp_spec (udp_ports l ! i), h1)))
     else if sctp_scan c then
       (if i \<ge> length (sctp_ports l) then Some None
        else if scantype c = SCTP_INIT_SCAN then Some (Some (sctp_spec (sctp_ports l ! i) 1, h1))
        else if scantype c = SCTP_COOKIE_ECHO_SCAN then Some (Some (sctp_spec (sctp_ports l ! i) 10, h1))
        else None)
     else if prot_scan c then
       (if i \<ge> length (prots l) then Some None else Some (Some (proto_spec (prots l ! i), h1)))
     else if ping_scan_arp c then
       (if sent_arp h then Some None else Some (Some (\<lparr>ps_type = PS_ARP, ps_proto = 0, ps_pd = PD_none\<rparr>, h\<lparr>sent_arp := True\<rparr>)))
     else if ping_scan_nd c then
       (if sent_arp h then Some None else Some (Some (\<lparr>ps_type = PS_ND, ps_proto = 0, ps_pd = PD_none\<rparr>, h\<lparr>sent_arp := True\<rparr>)))
     else if ping_scan c then map_option Some (next_ping_probe c af_inet6 h)
     else None)"


section \<open>Every probe is generated once\<close>

text \<open>SYN ping ports are counted twice when they are probed both with raw packets and with \<open>connect\<close>.\<close>

definition syn_twice :: "scan_cfg \<Rightarrow> bool" where
  "syn_twice c \<longleftrightarrow> rawtcpscan c \<and> PINGTYPE_TCP_USE_SYN (pingtype c) \<and> connecttcpscan c"

definition left :: "nat list \<Rightarrow> nat \<Rightarrow> nat" where
  "left l i = length l - i"

lemma left_Suc: "i < length l \<Longrightarrow> left l i = Suc (left l (Suc i))"
  by (simp add: left_def)

definition fresh_pings :: "scan_cfg \<Rightarrow> probe_cursor \<Rightarrow> nat" where
  "fresh_pings c h = (let l = plists c; pt = pingtype c in
     (if rawtcpscan c then (if PINGTYPE_TCP_USE_ACK pt then left (ack_ping_ports l) (next_ackportpingidx h) else 0) +
        (if PINGTYPE_TCP_USE_SYN pt then left (syn_ping_ports l) (next_synportpingidx h) else 0) else 0) +
     (if rawudpscan c then left (udp_ping_ports l) (next_udpportpingidx h) else 0) +
     (if rawsctpscan c then left (sctp_ping_ports l) (next_sctpportpingidx h) else 0) +
     (if rawicmpscan c then (if PINGTYPE_ICMP_PING pt \<and> \<not> sent_icmp_ping h then 1 else 0) +
        (if PINGTYPE_ICMP_MASK pt \<and> \<not> sent_icmp_mask h then 1 else 0) + (if PINGTYPE_ICMP_TS pt \<and> \<not> sent_icmp_ts h then 1 else 0) else 0) +
     (if rawprotoscan c then left (proto_ping_ports l) (next_protoportpingidx h) else 0) +
     (if connecttcpscan c then left (syn_ping_ports l) (next_synportpingidx h) else 0))"

lemma next_ping_probe_None: "next_ping_probe c af h = None \<longleftrightarrow> fresh_pings c h = 0"
  by (auto simp: next_ping_probe_def fresh_pings_def left_def Let_def)

lemma if_SomeE: "(if P then Some a else b) = Some x \<Longrightarrow> (P \<Longrightarrow> a = x \<Longrightarrow> R) \<Longrightarrow> (b = Some x \<Longrightarrow> R) \<Longrightarrow> R"
  by (auto split: if_splits)

lemma next_ping_probe_decreases:
  assumes "next_ping_probe c af h = Some (ps, h')"
  shows "fresh_pings c h' < fresh_pings c h \<and> (\<not> syn_twice c \<longrightarrow> fresh_pings c h = Suc (fresh_pings c h'))"
  using assms unfolding next_ping_probe_def Let_def
  by (elim if_SomeE; cases "connecttcpscan c"; cases "rawtcpscan c \<and> PINGTYPE_TCP_USE_SYN (pingtype c)";
      clarsimp simp: fresh_pings_def syn_twice_def left_Suc Let_def split del: if_split cong: if_cong)

lemma scan_kinds:
  assumes "ultra_scantype c"
  obtains (tcp) "tcp_scan c" "\<not> ping_scan c" "\<not> prot_scan c"
  | (udp) "\<not> tcp_scan c" "udp_scan c" "\<not> ping_scan c" "\<not> prot_scan c"
  | (sctp) "\<not> tcp_scan c" "\<not> udp_scan c" "sctp_scan c" "\<not> ping_scan c" "\<not> prot_scan c" "scantype c = SCTP_INIT_SCAN \<or> scantype c = SCTP_COOKIE_ECHO_SCAN"
  | (prot) "\<not> tcp_scan c" "\<not> udp_scan c" "\<not> sctp_scan c" "prot_scan c" "\<not> ping_scan c"
  | (arp) "\<not> tcp_scan c" "\<not> udp_scan c" "\<not> sctp_scan c" "\<not> prot_scan c" "ping_scan c" "ping_scan_arp c"
  | (nd) "\<not> tcp_scan c" "\<not> udp_scan c" "\<not> sctp_scan c" "\<not> prot_scan c" "ping_scan c" "\<not> ping_scan_arp c" "ping_scan_nd c"
  | (ping) "\<not> tcp_scan c" "\<not> udp_scan c" "\<not> sctp_scan c" "\<not> prot_scan c" "ping_scan c" "\<not> ping_scan_arp c" "\<not> ping_scan_nd c"
proof -
  consider "tcp_scan c" | "\<not> tcp_scan c" "udp_scan c" | "\<not> tcp_scan c" "\<not> udp_scan c" "sctp_scan c" | "\<not> tcp_scan c" "\<not> udp_scan c" "\<not> sctp_scan c" "prot_scan c"
    | "\<not> tcp_scan c" "\<not> udp_scan c" "\<not> sctp_scan c" "\<not> prot_scan c" "ping_scan c" using assms unfolding ultra_scantype_def by blast
  then show thesis
  proof cases
    case 1
    then have "\<not> ping_scan c" "\<not> prot_scan c" by (auto simp: scan_kind_defs)
    with 1 show ?thesis by (rule tcp)
  next
    case 2
    then have "\<not> ping_scan c" "\<not> prot_scan c" by (auto simp: scan_kind_defs)
    with 2 show ?thesis by (rule udp)
  next
    case 3
    then have "\<not> ping_scan c" "\<not> prot_scan c" "scantype c = SCTP_INIT_SCAN \<or> scantype c = SCTP_COOKIE_ECHO_SCAN" by (auto simp: scan_kind_defs)
    with 3 show ?thesis by (rule sctp)
  next
    case 4
    then have "\<not> ping_scan c" by (auto simp: scan_kind_defs)
    with 4 show ?thesis by (rule prot)
  next
    case 5
    consider "ping_scan_arp c" | "\<not> ping_scan_arp c" "ping_scan_nd c" | "\<not> ping_scan_arp c" "\<not> ping_scan_nd c" by blast
    then show ?thesis
    proof cases
      case 1
      with 5 show ?thesis by (rule arp)
    next
      case 2
      with 5 show ?thesis by (rule nd)
    next
      case 3
      with 5 show ?thesis by (rule ping)
    qed
  qed
qed

lemma arp_nd_ping: "\<not> ping_scan c \<Longrightarrow> \<not> ping_scan_arp c \<and> \<not> ping_scan_nd c"
  by (auto simp: scan_kind_defs)

lemma tcp_flags_total: "tcp_scan c \<Longrightarrow> tcp_flags c \<noteq> None"
  by (auto simp: tcp_scan_def tcp_flags_def split: option.splits)

text \<open>The port of a probe of a port scan, the protocol number in a protocol scan.\<close>

definition scan_port :: "scan_cfg \<Rightarrow> probespec \<Rightarrow> nat" where
  "scan_port c ps = (if prot_scan c then ps_proto ps else pd_dport (ps_pd ps))"

definition scan_ports :: "scan_cfg \<Rightarrow> nat list" where
  "scan_ports c = (let l = plists c in if tcp_scan c then tcp_ports l else if udp_scan c then udp_ports l else if sctp_scan c then sctp_ports l else prots l)"

lemma fresh_port_scan:
  assumes "ultra_scantype c" "\<not> ping_scan c"
  shows "freshPortsLeft c h = Some (length (scan_ports c) - next_portidx h)"
  using assms(1) by (cases rule: scan_kinds) (use assms(2) in \<open>simp_all add: freshPortsLeft_def scan_ports_def Let_def\<close>)

lemma fresh_ping_scan:
  assumes "\<not> tcp_scan c" "\<not> udp_scan c" "\<not> sctp_scan c" "\<not> prot_scan c" "ping_scan c"
  shows "freshPortsLeft c h = Some (if ping_scan_arp c \<or> ping_scan_nd c then (if sent_arp h then 0 else 1) else fresh_pings c h)"
  by (cases "ping_scan_arp c"; cases "ping_scan_nd c") (use assms in \<open>simp_all add: freshPortsLeft_def fresh_pings_def left_def Let_def split del: if_split cong: if_cong\<close>)

lemma get_next_port:
  assumes "ultra_scantype c" "\<not> ping_scan c" "next_portidx h < length (scan_ports c)"
  shows "\<exists>ps. get_next_target_probe c af h = Some (Some (ps, h\<lparr>next_portidx := next_portidx h + 1\<rparr>)) \<and> scan_port c ps = scan_ports c ! next_portidx h"
  using assms(1)
proof (cases rule: scan_kinds)
  case tcp
  then obtain f where "tcp_flags c = Some f" using tcp_flags_total by blast
  then show ?thesis using tcp assms(3) by (simp add: get_next_target_probe_def scan_ports_def scan_port_def tcp_spec_def Let_def)
qed (use assms(2,3) in \<open>auto simp: get_next_target_probe_def scan_ports_def scan_port_def udp_spec_def sctp_spec_def proto_spec_def Let_def\<close>)

text \<open>No assertion of the generator fails while there are fresh ports, and every probe makes their number smaller; by exactly one unless
  SYN ports are counted twice.\<close>

lemma get_next_target_probe_fresh:
  assumes "ultra_scantype c" "freshPortsLeft c h = Some (Suc n)"
  shows "\<exists>ps h' n'. get_next_target_probe c af h = Some (Some (ps, h')) \<and> freshPortsLeft c h' = Some n' \<and> n' \<le> n \<and> (\<not> syn_twice c \<longrightarrow> n' = n)"
proof (cases "ping_scan c")
  case False
  note f = fresh_port_scan[OF assms(1) False]
  then have i: "next_portidx h < length (scan_ports c)" using assms(2) by simp
  from get_next_port[OF assms(1) False i, of af] show ?thesis using f assms(2) by auto
next
  case True
  then have k: "\<not> tcp_scan c" "\<not> udp_scan c" "\<not> sctp_scan c" "\<not> prot_scan c" by (auto simp: scan_kind_defs)
  note f = fresh_ping_scan[OF k True]
  show ?thesis
  proof (cases "ping_scan_arp c \<or> ping_scan_nd c")
    case True
    then show ?thesis using k f assms(2) by (auto simp: get_next_target_probe_def Let_def split: if_splits)
  next
    case False
    then obtain ps h' where p: "next_ping_probe c af h = Some (ps, h')"
      using f[of h] assms(2) next_ping_probe_None[of c af h] by (cases "next_ping_probe c af h") auto
    have "get_next_target_probe c af h = Some (Some (ps, h'))" using True False k p by (simp add: get_next_target_probe_def Let_def)
    moreover have "fresh_pings c h = Suc n" using f[of h] False assms(2) by simp
    ultimately show ?thesis using next_ping_probe_decreases[OF p] f[of h'] False by auto
  qed
qed

fun gen_probes :: "scan_cfg \<Rightarrow> bool \<Rightarrow> nat \<Rightarrow> probe_cursor \<Rightarrow> (probespec list \<times> probe_cursor) option" where
  "gen_probes c af 0 h = Some ([], h)"
| "gen_probes c af (Suc n) h = do {
     r \<leftarrow> get_next_target_probe c af h;
     case r of None \<Rightarrow> None
     | Some (ps, h1) \<Rightarrow> do { (pss, h2) \<leftarrow> gen_probes c af n h1; Some (ps # pss, h2) } }"

lemma gen_probes_fresh:
  assumes "ultra_scantype c" "\<not> syn_twice c" "freshPortsLeft c h = Some n"
  shows "\<exists>pss h'. gen_probes c af n h = Some (pss, h') \<and> length pss = n \<and> freshPortsLeft c h' = Some 0"
  using assms(3)
proof (induction n arbitrary: h)
  case (Suc n)
  obtain ps h1 where p: "get_next_target_probe c af h = Some (Some (ps, h1))" "freshPortsLeft c h1 = Some n"
    using get_next_target_probe_fresh[OF assms(1) Suc.prems] assms(2) by blast
  then show ?case using Suc.IH[OF p(2)] by auto
qed simp

lemma gen_probes_ports:
  assumes "ultra_scantype c" "\<not> ping_scan c" "next_portidx h + n = length (scan_ports c)"
  shows "\<exists>pss h'. gen_probes c af n h = Some (pss, h') \<and> map (scan_port c) pss = drop (next_portidx h) (scan_ports c)"
  using assms(3)
proof (induction n arbitrary: h)
  case (Suc n)
  have i: "next_portidx h < length (scan_ports c)" using Suc.prems by simp
  obtain ps where p: "get_next_target_probe c af h = Some (Some (ps, h\<lparr>next_portidx := next_portidx h + 1\<rparr>))" "scan_port c ps = scan_ports c ! next_portidx h"
    using get_next_port[OF assms(1,2) i] by blast
  obtain pss h' where "gen_probes c af n (h\<lparr>next_portidx := next_portidx h + 1\<rparr>) = Some (pss, h')"
    "map (scan_port c) pss = drop (next_portidx h + 1) (scan_ports c)"
    using Suc.IH[of "h\<lparr>next_portidx := next_portidx h + 1\<rparr>"] Suc.prems by auto
  then show ?case using p i by (auto simp: Cons_nth_drop_Suc)
qed simp

lemma numProbesPerHost_fresh: "numProbesPerHost c = freshPortsLeft c cursor0"
  by (auto simp: numProbesPerHost_def freshPortsLeft_def cursor0_def Let_def)

text \<open>C31. The generator of probes is complete: for every type of scan it yields exactly \<open>numProbesPerHost\<close> probes without a failed
  assertion and then has no fresh port left; in a port scan the probes go through the list of ports in order, each port once.\<close>

theorem probes_complete:
  assumes "ultra_scantype c" "\<not> syn_twice c"
  shows "\<exists>n pss h. numProbesPerHost c = Some n \<and> gen_probes c af n cursor0 = Some (pss, h) \<and> length pss = n \<and> freshPortsLeft c h = Some 0 \<and>
    (ping_scan c \<or> map (scan_port c) pss = scan_ports c)"
proof -
  have "freshPortsLeft c cursor0 \<noteq> None"
  proof (cases "ping_scan c")
    case True
    then show ?thesis using fresh_ping_scan[of c cursor0] by (auto simp: scan_kind_defs)
  qed (use fresh_port_scan[OF assms(1), of cursor0] in simp)
  then obtain n where n: "numProbesPerHost c = Some n" "freshPortsLeft c cursor0 = Some n" using numProbesPerHost_fresh[of c] by auto
  obtain pss h where g: "gen_probes c af n cursor0 = Some (pss, h)" "length pss = n" "freshPortsLeft c h = Some 0"
    using gen_probes_fresh[OF assms n(2)] by blast
  have "map (scan_port c) pss = scan_ports c" if "\<not> ping_scan c"
  proof -
    have "n = length (scan_ports c)" using n(2) fresh_port_scan[OF assms(1) that, of cursor0] by (simp add: cursor0_def)
    then show ?thesis using gen_probes_ports[OF assms(1) that, of cursor0 n af] g(1) by (simp add: cursor0_def)
  qed
  then show ?thesis using n g by blast
qed


definition example_cfg :: scan_cfg where
  "example_cfg = \<lparr>scantype = SYN_SCAN,
     plists = \<lparr>tcp_ports = [80, 22], udp_ports = [], sctp_ports = [], prots = [], syn_ping_ports = [443], ack_ping_ports = [80],
       udp_ping_ports = [], sctp_ping_ports = [], proto_ping_ports = []\<rparr>,
     pingtype = \<lparr>PINGTYPE_ICMP_PING = True, PINGTYPE_ICMP_MASK = False, PINGTYPE_ICMP_TS = True, PINGTYPE_TCP = True,
       PINGTYPE_TCP_USE_ACK = True, PINGTYPE_TCP_USE_SYN = True, PINGTYPE_CONNECTTCP = False, PINGTYPE_UDP = False, PINGTYPE_PROTO = False,
       PINGTYPE_SCTP_INIT = False\<rparr>,
     isr00t = True, scanflags = None,
     perf = \<lparr>low_cwnd = 1, host_initial_cwnd = 10, group_initial_cwnd = 10, max_cwnd = 300, slow_incr = 1, ca_incr = 1, cc_scale_max = 50,
       initial_ssthresh = 75, group_drop_cwnd_divisor = 2, group_drop_ssthresh_divisor = 3 / 2, host_drop_ssthresh_divisor = 3 / 2\<rparr>,
     max_retransmissions = 10, base_port = 33000, magic_port = None, seqmask = 0,
     tops = \<lparr>initial_rtt_timeout = 1000, min_rtt_timeout = 100, max_rtt_timeout = 10000, scan_delay = 0, min_parallelism = 0, max_parallelism = 0, timing_level = 3\<rparr>,
     min_packet_send_rate = 0, max_packet_send_rate = 0, nogcc = False, defeat_rst_ratelimit = False, defeat_icmp_ratelimit = False,
     max_tcp_scan_delay = 1000, max_udp_scan_delay = 1000, max_sctp_scan_delay = 1000, host_timeout = 0, discovery_ignore_rst = False,
     pcap_recv_timeval_valid = True,
     statics = \<lparr>port_map = (\<lambda>_. None)(PORTLIST_PROTO_TCP := Some (fill_map 0 [22, 80] (\<lambda>_. 0))),
       port_map_rev = (\<lambda>_. None)(PORTLIST_PROTO_TCP := Some [22, 80]), port_list_count = (\<lambda>_. 0)(PORTLIST_PROTO_TCP := 2)\<rparr>\<rparr>"

theorem probes_complete_witness:
  "\<exists>pss h. gen_probes example_cfg False 2 cursor0 = Some (pss, h) \<and> map (scan_port example_cfg) pss = [80, 22] \<and>
   (\<exists>pss h. gen_probes (example_cfg\<lparr>scantype := PING_SCAN\<rparr>) False 4 cursor0 = Some (pss, h) \<and> length pss = 4)"
proof -
  have 1: "ultra_scantype example_cfg" "\<not> syn_twice example_cfg" "\<not> ping_scan example_cfg" "scan_ports example_cfg = [80, 22]"
    "numProbesPerHost example_cfg = Some 2"
    by (simp_all add: example_cfg_def ultra_scantype_def syn_twice_def scan_kind_defs rawtcpscan_def scan_ports_def numProbesPerHost_def)
  have 2: "ultra_scantype (example_cfg\<lparr>scantype := PING_SCAN\<rparr>)" "\<not> syn_twice (example_cfg\<lparr>scantype := PING_SCAN\<rparr>)"
    "numProbesPerHost (example_cfg\<lparr>scantype := PING_SCAN\<rparr>) = Some 4"
    by (simp_all add: example_cfg_def ultra_scantype_def syn_twice_def scan_kind_defs rawtcpscan_def connecttcpscan_def rawicmpscan_def
        rawudpscan_def rawsctpscan_def rawprotoscan_def numProbesPerHost_def)
  show ?thesis using probes_complete[OF 1(1,2), of False] probes_complete[OF 2(1,2), of False] 1(3,4,5) 2(3) by auto
qed

end
