(* ===== verification/Probe_Code.thy ===== *)
theory Probe_Code
  imports Scan_Probe
begin

text \<open>
  How a raw probe carries its try number and ping sequence number, \<open>scan_engine_raw.cc\<close>: in the source port, as an offset from
  \<open>base_port\<close>, or in the sequence number, mirrored and masked, when the user has fixed the source port.
\<close>

unbundle bit_operations_syntax

section \<open>The base port\<close>

text \<open>A difference that does not fit an \<open>int\<close> is undefined.\<close>

definition mod_offset :: "int \<Rightarrow> int \<Rightarrow> int \<Rightarrow> int option" where
  "mod_offset n lo hi =
     (if \<not> lo < hi \<or> n - lo < - (2 ^ 31) \<or> n - lo \<ge> 2 ^ 31 then None
      else let r = cmod (n - lo) (hi - lo) in Some ((if r < 0 then r + (hi - lo) else r) + lo))"

text \<open>The static variables \<open>initialized\<close> and \<open>base_port\<close> are None before the first scan; \<open>rnd\<close> is the random number as an \<open>int\<close>.\<close>

definition increment_base_port :: "int \<Rightarrow> int option \<Rightarrow> int option" where
  "increment_base_port rnd b = (case b of
       None \<Rightarrow> mod_offset rnd 33000 (65536 - 256)
     | Some p \<Rightarrow> mod_offset (p + 256) 33000 (65536 - 256))"

section \<open>The sequence number\<close>

definition seq32_encode :: "u32 \<Rightarrow> nat \<Rightarrow> nat \<Rightarrow> u32" where
  "seq32_encode msk trynum pingseq =
     (let nfo = ucast (word_of_nat (pingseq * 2 ^ 8 + trynum) :: u16) :: u32 in (push_bit 16 nfo + nfo) XOR msk)"

definition seq32_decode :: "u32 \<Rightarrow> u32 \<Rightarrow> (nat \<times> nat) option" where
  "seq32_decode msk s =
     (let q = s XOR msk in
      if drop_bit 16 q \<noteq> q AND 0xFFFF then None
      else Some (unat (q AND 0xFF), unat (drop_bit 8 (q AND 0xFF00))))"

section \<open>The source port\<close>

definition sport_encode :: "scan_cfg \<Rightarrow> nat \<Rightarrow> nat \<Rightarrow> nat option" where
  "sport_encode c trynum pingseq =
     (if \<not> (trynum = 0 \<or> pingseq = 0) then None
      else if pingseq > 0 then Some ((base_port c + max_retransmissions c + pingseq) mod 65536)
      else Some ((base_port c + trynum) mod 65536))"

text \<open>The difference is an \<open>unsigned int\<close>.\<close>

definition sport_decode :: "scan_cfg \<Rightarrow> nat \<Rightarrow> (nat \<times> nat) option" where
  "sport_decode c p =
     (let t = nat ((int p - int (base_port c)) mod 2 ^ 32) in
      if t > max_retransmissions c + 256 then None
      else if t > max_retransmissions c then Some (0, t - max_retransmissions c)
      else Some (t, 0))"

section \<open>Round trips\<close>

lemma cmod_abs: "0 < b \<Longrightarrow> \<bar>cmod a b\<bar> < b"
proof (cases "0 \<le> a")
  case True
  then show "0 < b \<Longrightarrow> ?thesis" by (simp add: cmod_nonneg)
next
  case False
  assume b: "0 < b"
  have "cmod a b = - ((- a) mod b)" using False b by (simp add: cmod_def cdiv_def minus_mult_div_eq_mod[symmetric])
  moreover have "0 \<le> - a mod b" "- a mod b < b" using b by simp_all
  ultimately show ?thesis by simp
qed

lemma mod_offset_range: "mod_offset n lo hi = Some r \<Longrightarrow> lo \<le> r \<and> r < hi"
  using cmod_abs[of "hi - lo" "n - lo"] by (auto simp: mod_offset_def Let_def abs_if split: if_splits)

lemma increment_base_port_range: "increment_base_port rnd b = Some p \<Longrightarrow> 33000 \<le> p \<and> p < 65280"
  using mod_offset_range[of _ 33000 65280 p] by (cases b) (simp_all add: increment_base_port_def)

lemma mirror_value:
  assumes "k < 2 ^ 16"
  shows "unat (push_bit 16 (ucast (word_of_nat k :: u16) :: u32) + ucast (word_of_nat k :: u16)) = k * 65537"
proof -
  have u: "ucast (word_of_nat k :: u16) = (word_of_nat k :: u32)"
    using assms by (intro word_unat_eq_iff[THEN iffD2]) (simp add: unsigned_ucast_eq take_bit_eq_mod unsigned_of_nat)
  show ?thesis unfolding u using assms by (simp add: push_bit_eq_mult unat_word_ariths take_bit_eq_mod unsigned_of_nat)
qed

lemma decode_value:
  assumes "unat q = k * 65537" "k < 2 ^ 16"
  shows "drop_bit 16 q = q AND (0xFFFF :: u32)" "unat (q AND 0xFF) = k mod 256" "unat (drop_bit 8 (q AND 0xFF00)) = k div 256"
proof -
  have "k * 65537 = k + k * 65536" by simp
  then have k: "k * 65537 div 65536 = k" "k * 65537 mod 65536 = k" using assms(2) by (simp_all only: div_mult_self1 mod_mult_self1) simp_all
  have "k * 65537 = k + (k * 256) * 256" by simp
  then have k': "k * 65537 mod 256 = k mod 256" by (simp only: mod_mult_self1)
  have "k * 65537 div 256 mod 256 = (k + (k * 256) * 256) div 256 mod 256" by (rule arg_cong[of _ _ "\<lambda>x. x div 256 mod 256"]) simp
  also have "\<dots> = (k div 256 + k * 256) mod 256" by (simp only: div_mult_self1 numeral_eq_iff zero_neq_numeral not_False_eq_True) simp
  finally have k'': "k * 65537 div 256 mod 256 = k div 256" using assms(2) by (simp add: mod_mult_self1)
  have m: "q AND 0xFFFF = take_bit 16 q" "q AND 0xFF = take_bit 8 q" using take_bit_eq_mask[of 16 q] take_bit_eq_mask[of 8 q] by (simp_all add: mask_eq_exp_minus_1)
  have d: "drop_bit 8 (q AND 0xFF00) = take_bit 8 (drop_bit 8 q)"
    using take_bit_eq_mask[of 8 "drop_bit 8 q"] by (simp add: drop_bit_and mask_eq_exp_minus_1)
  show "drop_bit 16 q = q AND (0xFFFF :: u32)" unfolding m
    by (rule word_unat_eq_iff[THEN iffD2]) (use assms k in \<open>simp add: drop_bit_eq_div take_bit_eq_mod unat_div unat_mod\<close>)
  show "unat (q AND 0xFF) = k mod 256" unfolding m using assms(1) k' by (simp add: take_bit_eq_mod unat_mod)
  show "unat (drop_bit 8 (q AND 0xFF00)) = k div 256" unfolding d using assms k''
    by (simp add: take_bit_eq_mod drop_bit_eq_div unat_mod unat_div)
qed

lemma seq32_decode_encode:
  assumes "trynum < 256" "pingseq < 256"
  shows "seq32_decode msk (seq32_encode msk trynum pingseq) = Some (trynum, pingseq)"
proof -
  let ?k = "pingseq * 2 ^ 8 + trynum"
  have k: "?k < 2 ^ 16" using assms by simp
  define q where "q = push_bit 16 (ucast (word_of_nat ?k :: u16) :: u32) + ucast (word_of_nat ?k :: u16)"
  have "(q XOR msk) XOR msk = q" by (simp add: xor.assoc)
  moreover have "seq32_encode msk trynum pingseq = q XOR msk" by (simp add: seq32_encode_def q_def Let_def)
  moreover note decode_value[OF mirror_value[OF k, folded q_def] k]
  ultimately show ?thesis using assms by (simp add: seq32_decode_def)
qed

text \<open>What is not mirrored is rejected, so a random number is accepted with a probability of \<open>2\<close> to the power of \<open>-16\<close>.\<close>

lemma seq32_decode_mirrored:
  "seq32_decode msk s \<noteq> None \<longleftrightarrow> (\<exists>k < 2 ^ 16. s XOR msk = word_of_nat (k * 65537))"
proof
  assume "seq32_decode msk s \<noteq> None"
  then have "drop_bit 16 (s XOR msk) = (s XOR msk) AND 0xFFFF" by (auto simp: seq32_decode_def Let_def split: if_splits)
  then have "drop_bit 16 (s XOR msk) = take_bit 16 (s XOR msk)" using take_bit_eq_mask[of 16 "s XOR msk"] by (simp add: mask_eq_exp_minus_1)
  then have "unat ((s XOR msk) div 2 ^ 16) = unat ((s XOR msk) mod 2 ^ 16)" by (simp add: drop_bit_eq_div take_bit_eq_mod)
  then have u: "unat (s XOR msk) div 2 ^ 16 = unat (s XOR msk) mod 2 ^ 16" by (simp add: unat_div unat_mod)
  let ?k = "unat (s XOR msk) mod 2 ^ 16"
  have "unat (s XOR msk) = ?k * 65537" using u div_mult_mod_eq[of "unat (s XOR msk)" "2 ^ 16"] by simp
  moreover have "s XOR msk = word_of_nat (unat (s XOR msk))" by simp
  ultimately have "s XOR msk = word_of_nat (?k * 65537)" by metis
  then show "\<exists>k < 2 ^ 16. s XOR msk = word_of_nat (k * 65537)" by (intro exI[of _ ?k]) simp
next
  assume "\<exists>k < 2 ^ 16. s XOR msk = word_of_nat (k * 65537)"
  then obtain k where k: "k < 2 ^ 16" "s XOR msk = word_of_nat (k * 65537)" by blast
  have "unat (s XOR msk) = k * 65537" unfolding k(2) unsigned_of_nat using k(1) by (simp add: take_bit_eq_mod)
  from decode_value(1)[OF this k(1)] show "seq32_decode msk s \<noteq> None" by (simp add: seq32_decode_def)
qed

text \<open>The source port gives back the numbers unless it has wrapped around.\<close>

lemma sport_decode_encode:
  assumes "base_port c < 65536" "trynum \<le> max_retransmissions c" "max_retransmissions c < 256" "pingseq < 256" "trynum = 0 \<or> pingseq = 0"
  shows "\<exists>p. sport_encode c trynum pingseq = Some p \<and> p < 65536 \<and>
    sport_decode c p = (if base_port c + (if pingseq > 0 then max_retransmissions c + pingseq else trynum) < 65536 then Some (trynum, pingseq) else None)"
proof -
  define x where "x = (if pingseq > 0 then max_retransmissions c + pingseq else trynum)"
  have x: "x \<le> max_retransmissions c + 255" "x < 511" using assms by (auto simp: x_def)
  have e: "sport_encode c trynum pingseq = Some ((base_port c + x) mod 65536)" using assms(5) by (auto simp: sport_encode_def x_def add.assoc)
  show ?thesis
  proof (cases "base_port c + x < 65536")
    case True
    then have "int ((base_port c + x) mod 65536) - int (base_port c) = int x" by simp
    then show ?thesis using e True x assms by (auto simp: sport_decode_def Let_def x_def split: if_splits)
  next
    case False
    then have "(base_port c + x) mod 65536 = base_port c + x - 65536" using assms(1) x(2) by (simp add: mod_if)
    then have "(int ((base_port c + x) mod 65536) - int (base_port c)) mod 2 ^ 32 = int x - 65536 + 2 ^ 32"
      using False x(2) by (simp add: zmod_trivial_iff of_nat_diff) (subst mod_add_self2[symmetric], simp)
    then show ?thesis using e False x assms(3) by (auto simp: sport_decode_def Let_def x_def)
  qed
qed

section \<open>Probes of a scan\<close>

text \<open>C32. With a base port as \<open>increment_base_port\<close> leaves it, the try number of every probe can be read back from its source port, and the
  numbers of every probe from its sequence number; the ping sequence number is lost exactly if the port wraps around.\<close>

theorem probe_numbers_roundtrip:
  assumes "increment_base_port rnd b = Some (int (base_port c))" "trynum \<le> max_retransmissions c" "max_retransmissions c < 256"
    "pingseq < 256" "trynum = 0 \<or> pingseq = 0"
  shows "seq32_decode msk (seq32_encode msk trynum pingseq) = Some (trynum, pingseq) \<and>
    (\<exists>p. sport_encode c trynum pingseq = Some p \<and>
      sport_decode c p = (if pingseq = 0 \<or> base_port c + max_retransmissions c + pingseq < 65536 then Some (trynum, pingseq) else None))"
proof -
  have b: "base_port c < 65280" using increment_base_port_range[OF assms(1)] by simp
  show ?thesis using seq32_decode_encode[of trynum pingseq msk] sport_decode_encode[of c trynum pingseq] b assms(2-5) by auto
qed

theorem probe_numbers_roundtrip_witness:
  "increment_base_port 65279 None = Some 65279 \<and>
   (\<exists>p. sport_encode (example_cfg\<lparr>base_port := 65279\<rparr>) 0 255 = Some p \<and> sport_decode (example_cfg\<lparr>base_port := 65279\<rparr>) p = None) \<and>
   (\<exists>p. sport_encode (example_cfg\<lparr>base_port := 65279\<rparr>) 10 0 = Some p \<and> sport_decode (example_cfg\<lparr>base_port := 65279\<rparr>) p = Some (10, 0)) \<and>
   seq32_decode 0xDEADBEEF (seq32_encode 0xDEADBEEF 10 0) = Some (10, 0)"
proof -
  let ?c = "example_cfg\<lparr>base_port := 65279\<rparr>"
  have i: "increment_base_port 65279 None = Some (int (base_port ?c))"
    by (simp add: increment_base_port_def mod_offset_def cmod_def cdiv_def)
  have m: "max_retransmissions ?c = 10" by (simp add: example_cfg_def)
  show ?thesis using i probe_numbers_roundtrip[OF i, of 0 255 0] probe_numbers_roundtrip[OF i, of 10 0 "0xDEADBEEF"] by (simp add: m)
qed

end
