(* ===== verification/Scan_Host.thy ===== *)
theory Scan_Host
  imports Probe_Code
begin

text \<open>
  One host of \<open>ultra_scan\<close> with the statistics of the group, \<open>scan_engine.cc\<close> and \<open>scan_engine_connect.cc\<close>: the outstanding probes
  and their counters, retransmission, the bench, the retry stack, congestion control and the decisions to send.  An
  operation takes the time \<open>USI->now\<close> and the pair of the host and the group.  A failed assertion, a call of \<open>fatal\<close> and
  an access to a probe that has been deleted are \<^const>\<open>None\<close>.  Packets are not modelled: a raw probe comes with the lengths of
  the packets that were sent for it, a connection with the result of \<open>connect\<close>.
\<close>

unbundle bit_operations_syntax

section \<open>State\<close>

datatype uptype = UP_UNSET | UP_IP | UP_CONNECT | UP_ARP | UP_ND

text \<open>What the code reads back from the packet of a raw probe; for a connect probe the accessors read other bytes of the union.\<close>

record wire =
  w_ipid :: nat
  w_sport :: nat
  w_seq :: u32
  w_icmpid :: nat
  w_vtag :: u32

record ultraprobe =
  up_type :: uptype
  mypspec :: probespec
  tryno :: nat
  pingseq :: nat
  timedout :: bool
  retransmitted :: bool
  sent :: tval
  prevSent :: tval
  sd :: int
  up_wire :: wire

definition isPing :: "ultraprobe \<Rightarrow> bool" where "isPing p \<longleftrightarrow> pingseq p > 0"

definition spec_dport :: "probespec \<Rightarrow> nat" where
  "spec_dport ps = (if ps_proto ps \<in> {IPPROTO_TCP, IPPROTO_UDP, IPPROTO_SCTP} then pd_dport (ps_pd ps) else 0)"

abbreviation (input) "HOST_UNKNOWN \<equiv> 0 :: nat"
abbreviation (input) "HOST_UP \<equiv> 1 :: nat"
abbreviation (input) "HOST_DOWN \<equiv> 2 :: nat"

record target =
  t_to :: timeout_info
  flags :: nat
  t_reason :: nat
  weird_responses :: nat
  pingprobe :: probespec
  pingprobe_state :: nat
  toclock_running :: bool
  toclock_start :: tval
  msecs_used :: int
  tports :: portlist
  af_inet6 :: bool

record send_delay_nfo =
  delayms :: nat
  goodRespSinceDelayChanged :: nat
  droppedRespSinceDelayChanged :: nat
  last_boost :: tval

record rate_limit_detection_nfo =
  max_tryno_sent :: nat
  rld_waiting :: bool
  rld_waittime :: tval

record hss =
  target :: target
  cur :: probe_cursor
  retry_capped_warned :: bool
  probes_outstanding :: "ultraprobe list"
  num_probes_active :: int
  num_probes_waiting_retransmit :: int
  probe_bench :: "probespec list"
  bench_tryno :: nat
  retry_stack :: "probespec list"
  retry_stack_tries :: "nat list"
  completiontime :: tval
  timing :: ultra_timing_vals
  lastrcvd :: tval
  lastping_sent :: tval
  lastping_sent_numprobes :: int
  lastprobe_sent :: tval
  max_successful_tryno :: nat
  tryno_mayincrease :: bool
  ports_finished :: int
  numprobes_sent :: int
  sdn :: send_delay_nfo
  rld :: rate_limit_detection_nfo
  nxtpseq :: nat

text \<open>The three descriptor sets of a connect scan are always equal and are kept as one list without duplicates.\<close>

record connect_scan_info =
  fds :: "int list"
  numSDs :: int
  maxValidSD :: int
  maxSocketsAllowed :: int

record gss =
  g_active :: int
  g_timing :: ultra_timing_vals
  g_to :: timeout_info
  numtargets :: int
  numprobes :: int
  probes_sent :: int
  g_lastrcvd :: tval
  g_lastping_sent :: tval
  g_lastping_sent_numprobes :: int
  send_no_earlier_than :: tval
  send_no_later_than :: tval
  last_wait :: tval
  probes_sent_at_last_wait :: int
  num_hosts_timedout :: int
  csi :: connect_scan_info
  send_rate_meter :: packet_rate_meter

type_synonym hg = "hss \<times> gss"

definition ps_none :: probespec where
  "ps_none = \<lparr>ps_type = PS_NONE, ps_proto = 0, ps_pd = PD_none\<rparr>"

definition pingprobe_is_appropriate :: "scan_cfg \<Rightarrow> probespec \<Rightarrow> bool" where
  "pingprobe_is_appropriate c p = (case ps_type p of
       PS_NONE \<Rightarrow> True
     | PS_CONNECTTCP \<Rightarrow> scantype c = CONNECT_SCAN \<or> (ping_scan c \<and> connecttcpscan c)
     | PS_TCP \<Rightarrow> (tcp_scan c \<and> scantype c \<noteq> CONNECT_SCAN) \<or> udp_scan c \<or> sctp_scan c \<or> (ping_scan c \<and> (rawtcpscan c \<or> rawudpscan c \<or> rawsctpscan c))
     | PS_UDP \<Rightarrow> (tcp_scan c \<and> scantype c \<noteq> CONNECT_SCAN) \<or> udp_scan c \<or> sctp_scan c \<or> (ping_scan c \<and> (rawtcpscan c \<or> rawudpscan c \<or> rawsctpscan c))
     | PS_SCTP \<Rightarrow> (tcp_scan c \<and> scantype c \<noteq> CONNECT_SCAN) \<or> udp_scan c \<or> sctp_scan c \<or> (ping_scan c \<and> (rawtcpscan c \<or> rawudpscan c \<or> rawsctpscan c))
     | PS_PROTO \<Rightarrow> prot_scan c \<or> (ping_scan c \<and> rawprotoscan c)
     | PS_ICMP \<Rightarrow> (ping_scan c \<and> \<not> ping_scan_arp c) \<or> (case ps_pd p of PD_icmp ty _ \<Rightarrow> ty = 3 | _ \<Rightarrow> False)
     | PS_ARP \<Rightarrow> ping_scan_arp c
     | PS_ND \<Rightarrow> ping_scan_nd c
     | PS_ICMPV6 \<Rightarrow> False)"

definition hss_new :: "scan_cfg \<Rightarrow> tval \<Rightarrow> target \<Rightarrow> hss" where
  "hss_new c now t =
     \<lparr>target = (if pingprobe_is_appropriate c (pingprobe t) then t else t\<lparr>pingprobe := ps_none, pingprobe_state := PORT_UNKNOWN\<rparr>),
      cur = cursor0, retry_capped_warned = False, probes_outstanding = [], num_probes_active = 0, num_probes_waiting_retransmit = 0,
      probe_bench = [], bench_tryno = 0, retry_stack = [], retry_stack_tries = [], completiontime = tv_zero,
      timing = init_ultra_timing_vals TIMING_HOST (perf c) now, lastrcvd = now, lastping_sent = now, lastping_sent_numprobes = 0,
      lastprobe_sent = now, max_successful_tryno = 0, tryno_mayincrease = True, ports_finished = 0, numprobes_sent = 0,
      sdn = \<lparr>delayms = nat (scan_delay (tops c)), goodRespSinceDelayChanged = 0, droppedRespSinceDelayChanged = 0, last_boost = now\<rparr>,
      rld = \<lparr>max_tryno_sent = 0, rld_waiting = False, rld_waittime = now\<rparr>, nxtpseq = 1\<rparr>"

section \<open>Timing\<close>

definition Target_timedOut :: "scan_cfg \<Rightarrow> tval \<Rightarrow> target \<Rightarrow> bool" where
  "Target_timedOut c now t =
     (if host_timeout c = 0 then False
      else (if toclock_running t then msecs_used t + TIMEVAL_MSEC_SUBTRACT now (toclock_start t) else msecs_used t) mod 2 ^ 64 > int (host_timeout c))"

definition startTimeOutClock :: "tval \<Rightarrow> target \<Rightarrow> target option" where
  "startTimeOutClock now t = (if toclock_running t then None else Some (t\<lparr>toclock_running := True, toclock_start := now\<rparr>))"

definition stopTimeOutClock :: "tval \<Rightarrow> target \<Rightarrow> target option" where
  "stopTimeOutClock now t =
     (if \<not> toclock_running t then None
      else Some (t\<lparr>toclock_running := False, msecs_used := msecs_used t + TIMEVAL_MSEC_SUBTRACT now (toclock_start t)\<rparr>))"

definition probeTimeout :: "hg \<Rightarrow> int" where
  "probeTimeout = (\<lambda>(h, g). if srtt (t_to (target h)) > 0 then timeout (t_to (target h)) else if srtt (g_to g) > 0 then timeout (g_to g) else timeout (t_to (target h)))"

definition probeExpireTime :: "ultraprobe \<Rightarrow> hg \<Rightarrow> int" where
  "probeExpireTime p hg = (if up_type p = UP_CONNECT then probeTimeout hg else min 10000000 (probeTimeout hg * 10))"

definition boostScanDelay :: "scan_cfg \<Rightarrow> tval \<Rightarrow> hss \<Rightarrow> hss" where
  "boostScanDelay c now h =
     (let maxAllowed = (if tcp_scan c then max_tcp_scan_delay c else if udp_scan c then max_udp_scan_delay c else max_sctp_scan_delay c);
          d = delayms (sdn h);
          d1 = (if d = 0 then (if udp_scan c then 50 else 5) else min (d * 2) (max d 1000)) in
      h\<lparr>sdn := \<lparr>delayms = min d1 maxAllowed, goodRespSinceDelayChanged = 0, droppedRespSinceDelayChanged = 0, last_boost = now\<rparr>\<rparr>)"

definition getTiming :: "scan_cfg \<Rightarrow> hg \<Rightarrow> ultra_timing_vals" where
  "getTiming c = (\<lambda>(h, g).
     if ps_type (pingprobe (target h)) \<noteq> PS_NONE \<or> numprobes_sent h < 80 then timing h
     else if num_updates (g_timing g) > 1 then g_timing g
     else (timing h)\<lparr>cwnd := of_int (host_initial_cwnd (perf c)), ssthresh := initial_ssthresh (perf c), num_updates := 0\<rparr>)"

definition ultrascan_adjust_timeouts :: "scan_cfg \<Rightarrow> ultraprobe \<Rightarrow> tval option \<Rightarrow> hg \<Rightarrow> hg option" where
  "ultrascan_adjust_timeouts c p rcvd = (\<lambda>(h, g). case rcvd of
       None \<Rightarrow> Some (h, g)
     | Some t \<Rightarrow> do {
         ht \<leftarrow> adjust_timeouts2 (tops c) (sent p) t (t_to (target h));
         gt \<leftarrow> adjust_timeouts2 (tops c) (sent p) t (g_to g);
         Some (h\<lparr>target := (target h)\<lparr>t_to := ht\<rparr>, lastrcvd := t\<rparr>, g\<lparr>g_to := gt, g_lastrcvd := t\<rparr>) })"

definition note_expected :: "ultra_timing_vals \<Rightarrow> ultra_timing_vals" where
  "note_expected t = t\<lparr>num_replies_expected := num_replies_expected t + 1, num_updates := num_updates t + 1\<rparr>"

definition note_response :: "ultraprobe \<Rightarrow> tval option \<Rightarrow> send_delay_nfo \<Rightarrow> send_delay_nfo" where
  "note_response p rcvd s =
     (if (isPing p \<and> rcvd = None \<and> TIMEVAL_AFTER (sent p) (last_boost s)) \<or> (tryno p > 0 \<and> rcvd \<noteq> None \<and> TIMEVAL_AFTER (prevSent p) (last_boost s))
      then s\<lparr>droppedRespSinceDelayChanged := droppedRespSinceDelayChanged s + 1\<rparr>
      else if rcvd \<noteq> None then s\<lparr>goodRespSinceDelayChanged := goodRespSinceDelayChanged s + 1\<rparr>
      else s)"

definition ultrascan_adjust_timing :: "scan_cfg \<Rightarrow> tval \<Rightarrow> ultraprobe \<Rightarrow> tval option \<Rightarrow> hg \<Rightarrow> hg option" where
  "ultrascan_adjust_timing c now p rcvd = (\<lambda>(h, g).
     let magnifier = (if isPing p then ping_magnifier else 1);
         gt = note_expected (g_timing g); ht = note_expected (timing h);
         dropped = (tryno p > 0 \<and> rcvd \<noteq> None) \<or> (isPing p \<and> rcvd = None);
         ht1 = (if dropped \<and> TIMEVAL_AFTER (sent p) (last_drop ht) then drop_host (nat (num_probes_active h)) (perf c) now ht else ht);
         gt1 = (if dropped \<and> TIMEVAL_AFTER (sent p) (last_drop gt) then drop_group (nat (g_active g)) (perf c) now gt else gt) in do {
       gt2 \<leftarrow> (if rcvd \<noteq> None then ack (perf c) magnifier gt1 else Some gt1);
       ht2 \<leftarrow> (if rcvd \<noteq> None then ack (perf c) magnifier ht1 else Some ht1);
       let s = note_response p rcvd (sdn h);
       let h1 = h\<lparr>timing := ht2, sdn := s\<rparr>;
       let good = goodRespSinceDelayChanged s; let bad = droppedRespSinceDelayChanged s;
       let threshold = (if timing_level (tops c) \<ge> 4 then 4 / 10 else 3 / 10 :: rat);
       Some (if bad > 10 \<and> of_nat bad / (of_nat bad + of_nat good) > threshold then boostScanDelay c now h1 else h1, g\<lparr>g_timing := gt2\<rparr>) })"

section \<open>Connect sockets\<close>

definition watchSD :: "int \<Rightarrow> connect_scan_info \<Rightarrow> (bool \<times> connect_scan_info) option" where
  "watchSD s i =
     (if \<not> s \<ge> 0 then None
      else if s \<notin> set (fds i) then Some (True, i\<lparr>fds := s # fds i, numSDs := numSDs i + 1, maxValidSD := (if s > maxValidSD i then s else maxValidSD i)\<rparr>)
      else Some (False, i))"

definition clearSD :: "int \<Rightarrow> connect_scan_info \<Rightarrow> (bool \<times> connect_scan_info) option" where
  "clearSD s i =
     (if \<not> s \<ge> 0 then None
      else if s \<in> set (fds i) then
        (if \<not> numSDs i > 0 then None
         else Some (True, i\<lparr>fds := remove1 s (fds i), numSDs := numSDs i - 1, maxValidSD := (if s = maxValidSD i then maxValidSD i - 1 else maxValidSD i)\<rparr>))
      else Some (False, i))"

definition clear_csi :: "int \<Rightarrow> hg \<Rightarrow> hg option" where
  "clear_csi s = (\<lambda>(h, g). do { (r, i) \<leftarrow> clearSD s (csi g); Some (h, g\<lparr>csi := i\<rparr>) })"

section \<open>Outstanding probes\<close>

definition dec_active :: "hg \<Rightarrow> hg option" where
  "dec_active = (\<lambda>(h, g).
     if \<not> num_probes_active h > 0 then None
     else if \<not> g_active g > 0 then None
     else Some (h\<lparr>num_probes_active := num_probes_active h - 1\<rparr>, g\<lparr>g_active := g_active g - 1\<rparr>))"

definition dec_waiting :: "hg \<Rightarrow> hg option" where
  "dec_waiting = (\<lambda>(h, g). if \<not> num_probes_waiting_retransmit h > 0 then None else Some (h\<lparr>num_probes_waiting_retransmit := num_probes_waiting_retransmit h - 1\<rparr>, g))"

definition remove_nth :: "nat \<Rightarrow> 'b list \<Rightarrow> 'b list" where
  "remove_nth k xs = take k xs @ drop (Suc k) xs"

definition destroyOutstandingProbe :: "nat \<Rightarrow> hg \<Rightarrow> hg option" where
  "destroyOutstandingProbe k hg =
     (if \<not> k < length (probes_outstanding (fst hg)) then None
      else let p = probes_outstanding (fst hg) ! k in do {
        hg1 \<leftarrow> (if \<not> timedout p then dec_active hg else Some hg);
        hg2 \<leftarrow> (if \<not> isPing p \<and> timedout p \<and> \<not> retransmitted p then dec_waiting hg1 else Some hg1);
        (h, g) \<leftarrow> (if up_type p = UP_CONNECT \<and> sd p > 0 then clear_csi (sd p) hg2 else Some hg2);
        Some (h\<lparr>probes_outstanding := remove_nth k (probes_outstanding h)\<rparr>, g) })"

primrec destroy_first :: "nat \<Rightarrow> hg \<Rightarrow> hg option" where
  "destroy_first 0 hg = Some hg"
| "destroy_first (Suc n) hg = do { hg1 \<leftarrow> destroyOutstandingProbe 0 hg; destroy_first n hg1 }"

definition destroyAllOutstandingProbes :: "hg \<Rightarrow> hg option" where
  "destroyAllOutstandingProbes hg = destroy_first (length (probes_outstanding (fst hg))) hg"

definition set_probe :: "nat \<Rightarrow> ultraprobe \<Rightarrow> hss \<Rightarrow> hss" where
  "set_probe k p h = h\<lparr>probes_outstanding := (probes_outstanding h)[k := p]\<rparr>"

definition markProbeTimedout :: "scan_cfg \<Rightarrow> tval \<Rightarrow> nat \<Rightarrow> hg \<Rightarrow> hg option" where
  "markProbeTimedout c now k hg =
     (if \<not> k < length (probes_outstanding (fst hg)) then None
      else let p = probes_outstanding (fst hg) ! k in
        if timedout p then None else if retransmitted p then None
        else do {
          hg1 \<leftarrow> dec_active (set_probe k (p\<lparr>timedout := True\<rparr>) (fst hg), snd hg);
          (h2, g2) \<leftarrow> ultrascan_adjust_timing c now (p\<lparr>timedout := True\<rparr>) None hg1;
          let h3 = (if \<not> isPing p then h2\<lparr>num_probes_waiting_retransmit := num_probes_waiting_retransmit h2 + 1\<rparr> else h2);
          if up_type p = UP_CONNECT \<and> sd p \<ge> 0
          then do { (h4, g4) \<leftarrow> clear_csi (sd p) (h3, g2); Some (set_probe k (p\<lparr>timedout := True, sd := -1\<rparr>) h4, g4) }
          else Some (h3, g2) })"

definition moveProbeToBench :: "nat \<Rightarrow> hg \<Rightarrow> hg option" where
  "moveProbeToBench k = (\<lambda>(h, g).
     if \<not> k < length (probes_outstanding h) then None
     else let p = probes_outstanding h ! k in
       if probe_bench h \<noteq> [] \<and> bench_tryno h \<noteq> tryno p then None
       else Some (h\<lparr>bench_tryno := tryno p, probe_bench := probe_bench h @ [mypspec p],
         probes_outstanding := remove_nth k (probes_outstanding h), num_probes_waiting_retransmit := num_probes_waiting_retransmit h - 1\<rparr>, g))"

definition retransmitBench :: "hss \<Rightarrow> hss option" where
  "retransmitBench h =
     (if probe_bench h = [] then Some h
      else let rs = retry_stack h @ probe_bench h; rt = retry_stack_tries h @ replicate (length (probe_bench h)) (bench_tryno h mod 256) in
        if length rs \<noteq> length rt then None
        else Some (h\<lparr>retry_stack := rs, retry_stack_tries := rt, probe_bench := [], bench_tryno := 0\<rparr>))"

definition ultrascan_host_pspec_update :: "nat \<Rightarrow> hss \<Rightarrow> hss option" where
  "ultrascan_host_pspec_update newstate h =
     (if flags (target h) \<noteq> HOST_UP
      then (if \<not> (newstate = HOST_UP \<or> newstate = HOST_DOWN) then None else Some (h\<lparr>target := (target h)\<lparr>flags := newstate\<rparr>\<rparr>))
      else Some h)"

primrec dismiss_n :: "scan_cfg \<Rightarrow> nat \<Rightarrow> hss \<Rightarrow> hss option" where
  "dismiss_n c 0 h = Some h"
| "dismiss_n c (Suc n) h = do {
     h1 \<leftarrow> (if ping_scan c then ultrascan_host_pspec_update HOST_DOWN h else Some h);
     dismiss_n c n (h1\<lparr>probe_bench := butlast (probe_bench h1)\<rparr>) }"

definition dismissBench :: "scan_cfg \<Rightarrow> hss \<Rightarrow> hss option" where
  "dismissBench c h =
     (if probe_bench h = [] then Some h
      else do { h1 \<leftarrow> dismiss_n c (length (probe_bench h)) h; Some (h1\<lparr>bench_tryno := 0\<rparr>) })"

text \<open>The limit of the try numbers; whether it has reached the cap; whether it may still grow.  The last flag is kept in the host.\<close>

definition max_tryno :: "scan_cfg \<Rightarrow> hss \<Rightarrow> nat" where
  "max_tryno c h = (let m = max 1 (max_successful_tryno h + 1) in if m > max_retransmissions c then max_retransmissions c else m)"

definition tryno_capped :: "scan_cfg \<Rightarrow> hss \<Rightarrow> bool" where
  "tryno_capped c h \<longleftrightarrow> max 1 (max_successful_tryno h + 1) > max_retransmissions c"

fun all_finished :: "nat \<Rightarrow> ultraprobe list \<Rightarrow> bool option" where
  "all_finished maxval [] = Some True"
| "all_finished maxval (p # ps) =
     (if \<not> timedout p then None
      else if \<not> retransmitted p \<and> \<not> isPing p \<and> tryno p < maxval then Some False
      else all_finished maxval ps)"

definition allowedTryno :: "scan_cfg \<Rightarrow> hss \<Rightarrow> (nat \<times> bool \<times> bool \<times> hss) option" where
  "allowedTryno c h = (let maxval = max_tryno c h; h1 = (if tryno_capped c h then h\<lparr>tryno_mayincrease := False\<rparr> else h) in do {
     fresh \<leftarrow> freshPortsLeft c (cur h1);
     h2 \<leftarrow> (if tryno_mayincrease h1 \<and> num_probes_active h1 = 0 \<and> fresh = 0
        then do { f \<leftarrow> all_finished maxval (probes_outstanding h1); Some (if f then h1\<lparr>tryno_mayincrease := False\<rparr> else h1) }
        else Some h1);
     Some (maxval, tryno_capped c h, tryno_mayincrease h2, h2) })"

definition completed :: "scan_cfg \<Rightarrow> hss \<Rightarrow> bool option" where
  "completed c h =
     (if num_probes_active h \<noteq> 0 \<or> num_probes_waiting_retransmit h \<noteq> 0 \<or> probe_bench h \<noteq> [] \<or> retry_stack h \<noteq> [] then Some False
      else if ping_scan c \<and> (flags (target h) \<noteq> 0 \<or> weird_responses (target h) \<noteq> 0) then Some True
      else map_option (\<lambda>n. n = 0) (freshPortsLeft c (cur h)))"

section \<open>Results\<close>

definition pingprobe_score :: "probespec \<Rightarrow> nat \<Rightarrow> nat" where
  "pingprobe_score p state = (case ps_type p of
       PS_TCP \<Rightarrow> (if state = PORT_FILTERED then 2
         else if pd_flags (ps_pd p) = TH_SYN \<and> (state = PORT_OPEN \<or> state = PORT_UNKNOWN) then 3
         else if pd_dport (ps_pd p) \<in> {25, 113, 135, 139, 445} then 5 else 6)
     | PS_SCTP \<Rightarrow> (if state = PORT_FILTERED then 2 else if state = PORT_OPEN \<or> state = PORT_UNKNOWN then 3 else 6)
     | PS_ICMP \<Rightarrow> (if pd_type (ps_pd p) \<in> {8, 17, 13} then 5 else 2)
     | PS_ARP \<Rightarrow> 4 | PS_ND \<Rightarrow> 4 | PS_UDP \<Rightarrow> 2 | PS_PROTO \<Rightarrow> 2 | PS_CONNECTTCP \<Rightarrow> 1 | _ \<Rightarrow> 0)"

definition pingprobe_is_better :: "probespec \<Rightarrow> nat \<Rightarrow> probespec \<Rightarrow> nat \<Rightarrow> bool" where
  "pingprobe_is_better new new_state old old_state \<longleftrightarrow> pingprobe_score new new_state > pingprobe_score old old_state"

definition pspec_port :: "scan_cfg \<Rightarrow> probespec \<Rightarrow> (nat \<times> nat) option" where
  "pspec_port c p =
     (if prot_scan c then Some (ps_proto p, IPPROTO_IP)
      else case ps_type p of
        PS_TCP \<Rightarrow> Some (pd_dport (ps_pd p), IPPROTO_TCP) | PS_CONNECTTCP \<Rightarrow> Some (pd_dport (ps_pd p), IPPROTO_TCP)
      | PS_UDP \<Rightarrow> Some (pd_dport (ps_pd p), IPPROTO_UDP) | PS_SCTP \<Rightarrow> Some (pd_dport (ps_pd p), IPPROTO_SCTP) | _ \<Rightarrow> None)"

text \<open>Whether the new state replaces the old one.\<close>

definition state_override :: "bool \<Rightarrow> nat \<Rightarrow> nat \<Rightarrow> bool option" where
  "state_override noresp_open old new =
     (if old = PORT_TESTING then Some True
      else if old = PORT_OPEN then Some (new \<noteq> PORT_OPEN \<and> noresp_open)
      else if old = PORT_CLOSED then Some (new \<noteq> PORT_CLOSED \<and> \<not> noresp_open \<and> new \<noteq> PORT_FILTERED)
      else if old = PORT_FILTERED then Some (new \<noteq> PORT_FILTERED \<and> (\<not> noresp_open \<or> new \<noteq> PORT_OPEN))
      else if old = PORT_UNFILTERED then Some (new = PORT_OPEN \<or> new = PORT_CLOSED)
      else if old = PORT_OPENFILTERED then Some (new \<noteq> PORT_OPENFILTERED)
      else None)"

definition ultrascan_port_pspec_update :: "scan_cfg \<Rightarrow> probespec \<Rightarrow> nat \<Rightarrow> hss \<Rightarrow> hss option" where
  "ultrascan_port_pspec_update c p newstate h = do {
     (no, pr) \<leftarrow> pspec_port c p;
     d \<leftarrow> portIsDefault (statics c) (tports (target h)) no pr;
     (old, h1) \<leftarrow> (if d then Some (PORT_TESTING, h\<lparr>ports_finished := ports_finished h + 1\<rparr>)
        else map_option (\<lambda>s. (s, h)) (getPortState (statics c) (tports (target h)) no pr));
     b \<leftarrow> state_override (noresp_open_scan c) old newstate;
     if b then do { pl \<leftarrow> setPortState (statics c) no pr newstate (tports (target h1)); Some (h1\<lparr>target := (target h1)\<lparr>tports := pl\<rparr>\<rparr>) }
     else Some h1 }"

text \<open>A probe with a positive answer may become the ping probe of the host.\<close>

definition consider_pingprobe :: "bool \<Rightarrow> probespec \<Rightarrow> nat \<Rightarrow> hss \<Rightarrow> hss" where
  "consider_pingprobe b p state h =
     (if b \<and> pingprobe_is_better p state (pingprobe (target h)) (pingprobe_state (target h))
      then h\<lparr>target := (target h)\<lparr>pingprobe := p, pingprobe_state := state\<rparr>\<rparr> else h)"

definition ultrascan_ping_update :: "scan_cfg \<Rightarrow> tval \<Rightarrow> nat \<Rightarrow> tval option \<Rightarrow> bool \<Rightarrow> hg \<Rightarrow> hg option" where
  "ultrascan_ping_update c now k rcvd adjust hg =
     (if \<not> k < length (probes_outstanding (fst hg)) then None
      else let p = probes_outstanding (fst hg) ! k in do {
        hg1 \<leftarrow> ultrascan_adjust_timeouts c p rcvd hg;
        hg2 \<leftarrow> (if adjust then ultrascan_adjust_timing c now p rcvd hg1 else Some hg1);
        destroyOutstandingProbe k hg2 })"

definition ultrascan_host_probe_update :: "scan_cfg \<Rightarrow> tval \<Rightarrow> nat \<Rightarrow> nat \<Rightarrow> tval option \<Rightarrow> bool \<Rightarrow> hg \<Rightarrow> hg option" where
  "ultrascan_host_probe_update c now k newstate rcvd hint hg =
     (if \<not> k < length (probes_outstanding (fst hg)) then None
      else let p = probes_outstanding (fst hg) ! k;
               err = (rcvd \<noteq> None \<and> newstate = HOST_DOWN);
               adjust_timing = (hint \<and> \<not> (err \<and> tryno p > 0)); adjust_ping = (hint \<and> \<not> err) in do {
        h1 \<leftarrow> ultrascan_host_pspec_update newstate (fst hg);
        hg2 \<leftarrow> ultrascan_adjust_timeouts c p rcvd (h1, snd hg);
        (h3, g3) \<leftarrow> (if adjust_timing then ultrascan_adjust_timing c now p rcvd hg2 else Some hg2);
        destroyOutstandingProbe k (consider_pingprobe (rcvd \<noteq> None \<and> adjust_ping) (mypspec p) PORT_UNKNOWN h3, g3) })"

definition note_success :: "scan_cfg \<Rightarrow> tval \<Rightarrow> ultraprobe \<Rightarrow> tval option \<Rightarrow> hss \<Rightarrow> hss" where
  "note_success c now p rcvd h =
     (if rcvd \<noteq> None \<and> tryno p > max_successful_tryno h
      then let h1 = h\<lparr>max_successful_tryno := tryno p\<rparr> in
        (if tryno p > (if timing_level (tops c) \<ge> 4 then 4 else 3) then boostScanDelay c now h1 else h1)
      else h)"

definition ultrascan_port_probe_update :: "scan_cfg \<Rightarrow> tval \<Rightarrow> nat \<Rightarrow> nat \<Rightarrow> tval option \<Rightarrow> bool \<Rightarrow> hg \<Rightarrow> hg option" where
  "ultrascan_port_probe_update c now k newstate rcvd hint hg =
     (if \<not> k < length (probes_outstanding (fst hg)) then None
      else let p = probes_outstanding (fst hg) ! k;
               err = (rcvd \<noteq> None \<and>
                 ((newstate = PORT_FILTERED \<and> \<not> noresp_open_scan c) \<or>
                  (defeat_rst_ratelimit c \<and> newstate = PORT_CLOSED \<and> \<not> noresp_open_scan c) \<or>
                  (defeat_icmp_ratelimit c \<and> (newstate = PORT_CLOSED \<or> newstate = PORT_FILTERED) \<and> udp_scan c)));
               adjust_timing = (hint \<and> \<not> (err \<and> tryno p > 0)); adjust_ping = (hint \<and> \<not> err) in do {
        h1 \<leftarrow> ultrascan_port_pspec_update c (mypspec p) newstate (fst hg);
        hg2 \<leftarrow> ultrascan_adjust_timeouts c p rcvd (h1, snd hg);
        (h3, g3) \<leftarrow> (if adjust_timing then map_option (\<lambda>(h, g). (note_success c now p rcvd h, g)) (ultrascan_adjust_timing c now p rcvd hg2) else Some hg2);
        destroyOutstandingProbe k (consider_pingprobe (rcvd \<noteq> None \<and> adjust_ping) (mypspec p) newstate h3, g3) })"


section \<open>Sending\<close>

text \<open>\<open>GroupScanStats::probeSent\<close> and \<open>HostScanStats::probeSent\<close>.\<close>

definition group_probeSent :: "scan_cfg \<Rightarrow> tval \<Rightarrow> nat \<Rightarrow> gss \<Rightarrow> gss option" where
  "group_probeSent c now nbytes g = do {
     m \<leftarrow> PacketRateMeter_update nbytes now (send_rate_meter g);
     let g1 = g\<lparr>send_rate_meter := m\<rparr>;
     let g2 = (if max_packet_send_rate c \<noteq> 0
        then g1\<lparr>send_no_earlier_than := TIMEVAL_ADD (send_no_earlier_than g1) (trunc_rat (1000000 / max_packet_send_rate c))\<rparr> else g1);
     Some (if min_packet_send_rate c \<noteq> 0
        then let t = (if TIMEVAL_SUBTRACT (send_no_later_than g2) now > 0 then now else send_no_later_than g2) in
          g2\<lparr>send_no_later_than := TIMEVAL_ADD t (trunc_rat (1000000 / min_packet_send_rate c))\<rparr>
        else g2) }"

definition probeSent :: "scan_cfg \<Rightarrow> tval \<Rightarrow> nat \<Rightarrow> hg \<Rightarrow> hg option" where
  "probeSent c now nbytes = (\<lambda>(h, g). do { g1 \<leftarrow> group_probeSent c now nbytes g; Some (h\<lparr>lastprobe_sent := now\<rparr>, g1) })"

fun probesSent :: "scan_cfg \<Rightarrow> tval \<Rightarrow> nat list \<Rightarrow> hg \<Rightarrow> hg option" where
  "probesSent c now [] hg = Some hg"
| "probesSent c now (n # ns) hg = do { hg1 \<leftarrow> probeSent c now n hg; probesSent c now ns hg1 }"

definition push_probe :: "ultraprobe \<Rightarrow> hg \<Rightarrow> hg" where
  "push_probe p = (\<lambda>(h, g). (h\<lparr>probes_outstanding := probes_outstanding h @ [p], num_probes_active := num_probes_active h + 1\<rparr>, g\<lparr>g_active := g_active g + 1\<rparr>))"

definition new_probe :: "uptype \<Rightarrow> probespec \<Rightarrow> nat \<Rightarrow> nat \<Rightarrow> tval \<Rightarrow> wire \<Rightarrow> ultraprobe" where
  "new_probe ty ps try seq now w = \<lparr>up_type = ty, mypspec = ps, tryno = try mod 256, pingseq = seq mod 256, timedout = False, retransmitted = False,
     sent = now, prevSent = tv_zero, sd = -1, up_wire = w\<rparr>"

text \<open>The random numbers drawn for a packet.\<close>

record randoms =
  rnd_ipid :: nat
  rnd_icmp_ident :: nat
  rnd_seq :: u32
  rnd_vtag :: u32

text \<open>The numbers in the packet that \<open>sendIPScanProbe\<close> builds, as \<open>setIP\<close> reads them.  Over IPv6 the identification is the flow label.\<close>

abbreviation (input) "SCTP_INIT \<equiv> 1 :: nat"
abbreviation (input) "SCTP_COOKIE_ECHO \<equiv> 10 :: nat"

definition raw_wire :: "scan_cfg \<Rightarrow> bool \<Rightarrow> probespec \<Rightarrow> nat \<Rightarrow> nat \<Rightarrow> randoms \<Rightarrow> wire option" where
  "raw_wire c v6 ps try seq rnd = do {
     sport \<leftarrow> (case magic_port c of Some p \<Rightarrow> Some p | None \<Rightarrow> sport_encode c try seq);
     let enc = seq32_encode (seqmask c) try seq;
     if ps_type ps = PS_TCP \<and> scantype c = CONNECT_SCAN then None
     else if ps_type ps = PS_SCTP \<and> pd_chunktype (ps_pd ps) \<noteq> SCTP_INIT \<and> pd_chunktype (ps_pd ps) \<noteq> SCTP_COOKIE_ECHO then None
     else Some \<lparr>
       w_ipid = (if v6 \<and> ps_type ps \<noteq> PS_PROTO then 0 else rnd_ipid rnd),
       w_sport = sport,
       w_seq = (if ps_type ps = PS_TCP then (if (word_of_nat (pd_flags (ps_pd ps)) :: u8) AND 0x10 \<noteq> 0 then 0 else enc) else rnd_seq rnd),
       w_icmpid = rnd_icmp_ident rnd,
       w_vtag = (if ps_type ps = PS_SCTP \<and> pd_chunktype (ps_pd ps) = SCTP_COOKIE_ECHO then rnd_vtag rnd else 0)\<rparr> }"

text \<open>\<open>sendIPScanProbe\<close> sends one packet for every decoy, of the lengths given; \<open>sendArpScanProbe\<close> and \<open>sendNDScanProbe\<close> send one.\<close>

definition sendRawProbe :: "scan_cfg \<Rightarrow> tval \<Rightarrow> uptype \<Rightarrow> probespec \<Rightarrow> nat \<Rightarrow> nat \<Rightarrow> nat list \<Rightarrow> wire \<Rightarrow> hg \<Rightarrow> hg option" where
  "sendRawProbe c now ty ps try seq lens w hg = do {
     hg1 \<leftarrow> probesSent c now lens hg;
     Some (push_probe (new_probe ty ps try seq now w) hg1) }"

definition no_wire :: wire where
  "no_wire = \<lparr>w_ipid = 0, w_sport = 0, w_seq = 0, w_icmpid = 0, w_vtag = 0\<rparr>"

definition sendIPScanProbe :: "scan_cfg \<Rightarrow> tval \<Rightarrow> probespec \<Rightarrow> nat \<Rightarrow> nat \<Rightarrow> nat list \<Rightarrow> randoms \<Rightarrow> hg \<Rightarrow> hg option" where
  "sendIPScanProbe c now ps try seq lens rnd hg = do {
     w \<leftarrow> raw_wire c (af_inet6 (target (fst hg))) ps (try mod 256) (seq mod 256) rnd;
     sendRawProbe c now UP_IP ps try seq lens w hg }"

text \<open>The frame of an ARP request has 42 bytes; it is sent at the time \<open>t\<close>, when the code reads the clock again.\<close>

definition sendArpScanProbe :: "scan_cfg \<Rightarrow> tval \<Rightarrow> probespec \<Rightarrow> nat \<Rightarrow> nat \<Rightarrow> hg \<Rightarrow> hg option" where
  "sendArpScanProbe c t ps try seq hg = sendRawProbe c t UP_ARP ps try seq [42] no_wire hg"

definition sendNDScanProbe :: "scan_cfg \<Rightarrow> tval \<Rightarrow> probespec \<Rightarrow> nat \<Rightarrow> nat \<Rightarrow> nat \<Rightarrow> hg \<Rightarrow> hg option" where
  "sendNDScanProbe c now ps try seq len hg = sendRawProbe c now UP_ND ps try seq [len] no_wire hg"

datatype connect_errno = E_OK | E_ACCES | E_CONNREFUSED | E_AGAIN | E_NOPROTOOPT | E_HOSTUNREACH | E_TIMEDOUT | E_HOSTDOWN | E_NETUNREACH
  | E_NONET | E_NETDOWN | E_NETRESET | E_CONNABORTED | E_INPROGRESS | E_OTHER

abbreviation (input) "ER_CONREFUSED \<equiv> 1 :: nat"
abbreviation (input) "ER_CONACCEPT \<equiv> 2 :: nat"
abbreviation (input) "ER_NETUNREACH \<equiv> 8 :: nat"
abbreviation (input) "ER_HOSTUNREACH \<equiv> 9 :: nat"
abbreviation (input) "ER_PROTOUNREACH \<equiv> 10 :: nat"
abbreviation (input) "ER_DESTUNREACH \<equiv> 13 :: nat"
abbreviation (input) "ER_ADMINPROHIBITED \<equiv> 17 :: nat"

text \<open>The states of the host and of the port that a result of \<open>connect\<close> stands for, and the reason.\<close>

definition connect_states :: "scan_cfg \<Rightarrow> connect_errno \<Rightarrow> (nat \<times> nat \<times> nat) option" where
  "connect_states c e = (case e of
       E_OK \<Rightarrow> Some (HOST_UP, PORT_OPEN, ER_CONACCEPT)
     | E_ACCES \<Rightarrow> Some (HOST_DOWN, PORT_FILTERED, ER_ADMINPROHIBITED)
     | E_CONNREFUSED \<Rightarrow> Some (if \<not> discovery_ignore_rst c then HOST_UP else HOST_UNKNOWN, PORT_CLOSED, ER_CONREFUSED)
     | E_AGAIN \<Rightarrow> Some (HOST_UP, PORT_UNKNOWN, ER_CONACCEPT)
     | E_NOPROTOOPT \<Rightarrow> Some (HOST_DOWN, PORT_FILTERED, ER_PROTOUNREACH)
     | E_HOSTUNREACH \<Rightarrow> Some (HOST_DOWN, PORT_FILTERED, ER_HOSTUNREACH)
     | E_TIMEDOUT \<Rightarrow> Some (HOST_DOWN, PORT_FILTERED, ER_NORESPONSE)
     | E_HOSTDOWN \<Rightarrow> Some (HOST_DOWN, PORT_FILTERED, ER_NORESPONSE)
     | E_NETUNREACH \<Rightarrow> Some (HOST_DOWN, PORT_FILTERED, ER_NETUNREACH)
     | E_NONET \<Rightarrow> Some (HOST_DOWN, PORT_FILTERED, ER_DESTUNREACH)
     | E_NETDOWN \<Rightarrow> None | E_NETRESET \<Rightarrow> None | E_CONNABORTED \<Rightarrow> None
     | _ \<Rightarrow> Some (HOST_UNKNOWN, PORT_UNKNOWN, ER_NORESPONSE))"

text \<open>A result for a port, with its reason.\<close>

definition set_reason :: "scan_cfg \<Rightarrow> nat \<Rightarrow> nat \<Rightarrow> nat \<Rightarrow> nat \<Rightarrow> hg \<Rightarrow> hg option" where
  "set_reason c no pr reason ttl = (\<lambda>(h, g). do {
     pl \<leftarrow> setStateReason (statics c) no pr reason ttl (tports (target h));
     Some (h\<lparr>target := (target h)\<lparr>tports := pl\<rparr>\<rparr>, g) })"

definition connect_port_result :: "scan_cfg \<Rightarrow> tval \<Rightarrow> nat \<Rightarrow> nat \<Rightarrow> nat \<Rightarrow> hg \<Rightarrow> hg option" where
  "connect_port_result c now k newport reason hg =
     (if \<not> k < length (probes_outstanding (fst hg)) then None
      else let ps = mypspec (probes_outstanding (fst hg) ! k) in do {
        hg1 \<leftarrow> ultrascan_port_probe_update c now k newport (Some now) True hg;
        set_reason c (pd_dport (ps_pd ps)) (ps_proto ps) reason 0 hg1 })"

text \<open>The result of \<open>getsockname\<close> is None if it fails, and else whether the socket is connected to itself.\<close>

definition handleConnectResult :: "scan_cfg \<Rightarrow> tval \<Rightarrow> nat \<Rightarrow> connect_errno \<Rightarrow> bool option \<Rightarrow> bool \<Rightarrow> hg \<Rightarrow> hg option" where
  "handleConnectResult c now k e self destroy_probe hg =
     (if \<not> k < length (probes_outstanding (fst hg)) then None
      else let p = probes_outstanding (fst hg) ! k in do {
        (newhost, newport, reason) \<leftarrow> connect_states c e;
        if isPing p \<and> newhost \<noteq> HOST_UNKNOWN then ultrascan_ping_update c now k (Some now) True hg
        else if ping_scan c \<and> newhost \<noteq> HOST_UNKNOWN then do {
          hg1 \<leftarrow> ultrascan_host_probe_update c now k newhost (Some now) True hg;
          let hg2 = ((fst hg1)\<lparr>target := (target (fst hg1))\<lparr>t_reason := reason\<rparr>\<rparr>, snd hg1);
          if newhost = HOST_UP then destroyAllOutstandingProbes hg2 else Some hg2 }
        else if \<not> ping_scan c \<and> newport \<noteq> PORT_UNKNOWN then
          (if newport = PORT_OPEN then
             (case self of None \<Rightarrow> Some hg
              | Some True \<Rightarrow> markProbeTimedout c now k hg
              | Some False \<Rightarrow> connect_port_result c now k newport reason hg)
           else connect_port_result c now k newport reason hg)
        else if destroy_probe then destroyOutstandingProbe k hg
        else Some hg })"

text \<open>The connection is made at the time \<open>now\<close>; \<open>after\<close> is the time at which \<open>connect\<close> returns.\<close>

record connection =
  con_sd :: int
  con_errno :: connect_errno
  con_self :: "bool option"
  con_after :: tval
  con_alias :: wire

definition connect_spec :: "nat \<Rightarrow> probespec" where
  "connect_spec port = tcp_spec PS_CONNECTTCP port TH_SYN"

definition sendConnectScanProbe :: "scan_cfg \<Rightarrow> tval \<Rightarrow> nat \<Rightarrow> nat \<Rightarrow> nat \<Rightarrow> connection \<Rightarrow> hg \<Rightarrow> hg option" where
  "sendConnectScanProbe c now port try seq con hg = do {
     hg1 \<leftarrow> probeSent c now 0 hg;
     let k = length (probes_outstanding (fst hg1));
     let hg2 = push_probe ((new_probe UP_CONNECT (connect_spec port) try seq now (con_alias con))\<lparr>sd := con_sd con\<rparr>) hg1;
     if con_errno con = E_INPROGRESS \<or> con_errno con = E_AGAIN
     then do { (r, i) \<leftarrow> watchSD (con_sd con) (csi (snd hg2)); Some (fst hg2, (snd hg2)\<lparr>csi := i\<rparr>) }
     else handleConnectResult c (con_after con) k (con_errno con) (con_self con) True hg2 }"

text \<open>The outcome of sending a probe: the lengths of the packets and the random numbers in them, the time of an ARP request, the length of
  a neighbor solicitation, or the result of the connection.\<close>

datatype send_result = Raw "nat list" randoms | Arp tval | Nd nat | Conn connection

definition sendProbe :: "scan_cfg \<Rightarrow> tval \<Rightarrow> probespec \<Rightarrow> nat \<Rightarrow> nat \<Rightarrow> send_result \<Rightarrow> hg \<Rightarrow> hg option" where
  "sendProbe c now ps try seq r hg =
     (if ps_type ps = PS_ARP then (case r of Arp t \<Rightarrow> sendArpScanProbe c t ps try seq hg | _ \<Rightarrow> None)
      else if ps_type ps = PS_ND then (case r of Nd len \<Rightarrow> sendNDScanProbe c now ps try seq len hg | _ \<Rightarrow> None)
      else if ps_type ps = PS_CONNECTTCP then (case r of Conn con \<Rightarrow> sendConnectScanProbe c now (pd_dport (ps_pd ps)) try seq con hg | _ \<Rightarrow> None)
      else if ps_type ps \<in> {PS_TCP, PS_UDP, PS_SCTP, PS_PROTO, PS_ICMP, PS_ICMPV6}
        then (case r of Raw lens rnd \<Rightarrow> sendIPScanProbe c now ps try seq lens rnd hg | _ \<Rightarrow> None)
      else None)"

definition count_sent :: "bool \<Rightarrow> hg \<Rightarrow> hg" where
  "count_sent port = (\<lambda>(h, g). (if port then h\<lparr>numprobes_sent := numprobes_sent h + 1\<rparr> else h, g\<lparr>probes_sent := probes_sent g + 1\<rparr>))"

definition sendNextScanProbe :: "scan_cfg \<Rightarrow> tval \<Rightarrow> send_result \<Rightarrow> hg \<Rightarrow> hg option" where
  "sendNextScanProbe c now r = (\<lambda>(h, g). do {
     q \<leftarrow> get_next_target_probe c (af_inet6 (target h)) (cur h);
     case q of None \<Rightarrow> None
     | Some (ps, cur') \<Rightarrow> sendProbe c now ps 0 0 r (count_sent True (h\<lparr>cur := cur'\<rparr>, g)) })"

definition sendNextRetryStackProbe :: "scan_cfg \<Rightarrow> tval \<Rightarrow> send_result \<Rightarrow> hg \<Rightarrow> hg option" where
  "sendNextRetryStackProbe c now r = (\<lambda>(h, g).
     if retry_stack h = [] \<or> retry_stack_tries h = [] then None
     else let ps = last (retry_stack h); try = last (retry_stack_tries h);
              hg1 = count_sent True (h\<lparr>retry_stack := butlast (retry_stack h), retry_stack_tries := butlast (retry_stack_tries h)\<rparr>, g) in
       if ps_type ps = PS_ARP \<or> ps_type ps = PS_ND then None
       else sendProbe c now ps (try + 1) 0 r hg1)"

definition nextPingSeq :: "hss \<Rightarrow> nat \<times> hss" where
  "nextPingSeq h = (nxtpseq h, h\<lparr>nxtpseq := (if (nxtpseq h + 1) mod 256 = 0 then 1 else (nxtpseq h + 1) mod 256)\<rparr>)"

definition sendPingProbe :: "scan_cfg \<Rightarrow> tval \<Rightarrow> send_result \<Rightarrow> hg \<Rightarrow> hg option" where
  "sendPingProbe c now r = (\<lambda>(h, g).
     let ps = pingprobe (target h); (seq, h1) = nextPingSeq h in
     if ps_type ps = PS_NONE \<or> ps_type ps = PS_ICMPV6 then None
     else map_option (count_sent False) (sendProbe c now ps 0 seq r (h1, g)))"

text \<open>A probe of the wrong kind fails an assertion.  The new probe records when the previous one was sent.  If the outstanding probe was
  destroyed in the meantime, the code writes to a deleted object.\<close>

definition retransmit_kind_ok :: "scan_cfg \<Rightarrow> ultraprobe \<Rightarrow> bool" where
  "retransmit_kind_ok c p = (case up_type p of
       UP_IP \<Rightarrow> prot_scan c \<or> rawprotoscan c \<or> ps_proto (mypspec p) \<in> {IPPROTO_TCP, IPPROTO_UDP, IPPROTO_SCTP, IPPROTO_ICMP, IPPROTO_ICMPV6}
     | UP_UNSET \<Rightarrow> False | _ \<Rightarrow> True)"

definition returns_probe :: "send_result \<Rightarrow> bool" where
  "returns_probe r = (case r of Conn con \<Rightarrow> con_errno con = E_INPROGRESS \<or> con_errno con = E_AGAIN | _ \<Rightarrow> True)"

definition retransmitProbe :: "scan_cfg \<Rightarrow> tval \<Rightarrow> nat \<Rightarrow> send_result \<Rightarrow> hg \<Rightarrow> hg option" where
  "retransmitProbe c now k r hg =
     (if \<not> k < length (probes_outstanding (fst hg)) then None
      else let p = probes_outstanding (fst hg) ! k; n = length (probes_outstanding (fst hg)) in
        if \<not> retransmit_kind_ok c p then None
        else do {
          (h1, g1) \<leftarrow> sendProbe c now (mypspec p) (tryno p + 1) 0 r hg;
          if \<not> k < length (probes_outstanding h1) then None
          else
            let h2 = (if returns_probe r then set_probe n ((probes_outstanding h1 ! n)\<lparr>prevSent := sent p\<rparr>) h1 else h1);
                h3 = set_probe k ((probes_outstanding h2 ! k)\<lparr>retransmitted := True\<rparr>) h2 in
            map_option (count_sent True) (dec_waiting (h3, g1)) })"

text \<open>One host of \<open>doAnyOutstandingRetransmits\<close>.  The iterator of the cache is kept as an index, None for the end of the list.  The list is
  searched backwards, and at most one probe is retransmitted; the first probe of a new try number makes the host pause instead.  The
  result says whether a probe was retransmitted, and gives the new iterator.\<close>

primrec find_waiting :: "nat \<Rightarrow> ultraprobe list \<Rightarrow> nat \<Rightarrow> nat option" where
  "find_waiting maxtries ps 0 = None"
| "find_waiting maxtries ps (Suc k) =
     (if timedout (ps ! k) \<and> \<not> retransmitted (ps ! k) \<and> maxtries > tryno (ps ! k) \<and> \<not> isPing (ps ! k) then Some k
      else find_waiting maxtries ps k)"

definition wrap_around :: "nat \<Rightarrow> nat option" where
  "wrap_around k = (if k = 0 then None else Some k)"

definition host_retransmit :: "scan_cfg \<Rightarrow> tval \<Rightarrow> (probespec \<Rightarrow> send_result) \<Rightarrow> nat option \<Rightarrow> hg \<Rightarrow> (bool \<times> nat option \<times> hg) option" where
  "host_retransmit c now r cache = (\<lambda>(h0, g).
     if probes_outstanding h0 = [] \<or> cache = Some 0 then None
     else do {
       (maxtries, _, _, h) \<leftarrow> allowedTryno c h0;
       let ps = probes_outstanding h;
       case find_waiting maxtries ps (case cache of None \<Rightarrow> length ps | Some i \<Rightarrow> i) of
         None \<Rightarrow> Some (False, None, h, g)
       | Some k \<Rightarrow>
           if tryno (ps ! k) + 1 > max_tryno_sent (rld h) \<and> (numprobes g > 1 \<or> ping_scan_arp c \<or> ping_scan_nd c)
           then Some (False, wrap_around k,
             h\<lparr>rld := \<lparr>max_tryno_sent = tryno (ps ! k) + 1, rld_waiting = True, rld_waittime = TIMEVAL_MSEC_ADD now 1000\<rparr>\<rparr>, g)
           else map_option (\<lambda>hg. (True, wrap_around k, hg))
             (retransmitProbe c now k (r (mypspec (ps ! k))) (h\<lparr>rld := (rld h)\<lparr>rld_waiting := False\<rparr>\<rparr>, g)) })"

section \<open>Expiry\<close>

abbreviation (input) "ER_UNKNOWN \<equiv> 31 :: nat"

definition note_noresponse :: "hg \<Rightarrow> hg" where
  "note_noresponse = (\<lambda>(h, g). (if t_reason (target h) = ER_UNKNOWN then h\<lparr>target := (target h)\<lparr>t_reason := ER_NORESPONSE\<rparr>\<rparr> else h, g))"

text \<open>One probe of the loop of \<open>processData\<close>.  The result says whether the probe is still in the list.\<close>

definition process_probe :: "scan_cfg \<Rightarrow> tval \<Rightarrow> nat \<Rightarrow> bool \<Rightarrow> bool \<Rightarrow> nat \<Rightarrow> hg \<Rightarrow> (bool \<times> hg) option" where
  "process_probe c now maxtries capped mayinc k hg =
     (if \<not> k < length (probes_outstanding (fst hg)) then None
      else let p = probes_outstanding (fst hg) ! k; age = TIMEVAL_SUBTRACT now (sent p); expire = probeExpireTime p hg in
        if \<not> timedout p \<and> age > probeTimeout hg then map_option (Pair True) (markProbeTimedout c now k hg)
        else if \<not> isPing p \<and> timedout p \<and> \<not> retransmitted p \<and> \<not> mayinc \<and> tryno p \<ge> maxtries then
          (let hg1 = (if capped then ((fst hg)\<lparr>retry_capped_warned := True\<rparr>, snd hg) else hg) in
           map_option (Pair False) (if ping_scan c then map_option note_noresponse (ultrascan_host_probe_update c now k HOST_DOWN None True hg1)
             else destroyOutstandingProbe k hg1))
        else if \<not> isPing p \<and> timedout p \<and> \<not> retransmitted p \<and> tryno p \<ge> maxtries \<and> age > expire then
          (if tryno p \<noteq> maxtries then None else map_option (Pair False) (moveProbeToBench k hg))
        else if (isPing p \<or> (timedout p \<and> retransmitted p)) \<and> age > expire then map_option (Pair False) (destroyOutstandingProbe k hg)
        else Some (True, hg))"

text \<open>The loop visits every probe that was in the list once: \<open>n\<close> probes are left, the next one is at index \<open>k\<close>.\<close>

primrec process_probes :: "scan_cfg \<Rightarrow> tval \<Rightarrow> nat \<Rightarrow> bool \<Rightarrow> bool \<Rightarrow> nat \<Rightarrow> nat \<Rightarrow> hg \<Rightarrow> hg option" where
  "process_probes c now maxtries capped mayinc 0 k hg = Some hg"
| "process_probes c now maxtries capped mayinc (Suc n) k hg = do {
     (kept, hg1) \<leftarrow> process_probe c now maxtries capped mayinc k hg;
     process_probes c now maxtries capped mayinc n (if kept then Suc k else k) hg1 }"

definition process_bench :: "scan_cfg \<Rightarrow> nat \<Rightarrow> bool \<Rightarrow> hss \<Rightarrow> hss option" where
  "process_bench c maxtries mayinc h =
     (if probe_bench h \<noteq> [] then
        (if maxtries = bench_tryno h \<and> \<not> mayinc then dismissBench c h
         else if maxtries > bench_tryno h then retransmitBench h else Some h)
      else Some h)"

definition process_host :: "scan_cfg \<Rightarrow> tval \<Rightarrow> hg \<Rightarrow> hg option" where
  "process_host c now = (\<lambda>(h, g). do {
     (maxtries, capped, mayinc, h1) \<leftarrow> allowedTryno c h;
     h2 \<leftarrow> process_bench c maxtries mayinc h1;
     process_probes c now maxtries capped mayinc (length (probes_outstanding h2)) 0 (h2, g) })"

section \<open>Decisions to send\<close>

text \<open>\<open>GroupScanStats::sendOK\<close>: the answer and the time of \<open>when\<close>.  \<open>few\<close> says that there are less than two incomplete hosts.\<close>

definition group_sendOK :: "scan_cfg \<Rightarrow> tval \<Rightarrow> bool \<Rightarrow> gss \<Rightarrow> bool \<times> tval" where
  "group_sendOK c now few g =
     (let when0 = TIMEVAL_MSEC_ADD now 1000; con = (scantype c = CONNECT_SCAN \<or> connecttcpscan c);
          recentsends = probes_sent g - probes_sent_at_last_wait g;
          to_ms = \<lfloor>max (of_int (srtt (g_to g)) * (3 / 4) / 1000) (50 :: rat)\<rfloor> in
      if con \<and> numSDs (csi g) \<ge> maxSocketsAllowed (csi g) then (False, when0)
      else if recentsends > 0 \<and> (con \<or> \<not> pcap_recv_timeval_valid c) \<and> TIMEVAL_MSEC_SUBTRACT now (last_wait g) > to_ms then (False, when0)
      else if max_packet_send_rate c \<noteq> 0 \<and> TIMEVAL_SUBTRACT (send_no_earlier_than g) now > 0 then (False, send_no_earlier_than g)
      else
        let when1 = (if max_packet_send_rate c \<noteq> 0 then now else when0) in
        if min_packet_send_rate c \<noteq> 0 \<and> \<not> TIMEVAL_SUBTRACT (send_no_later_than g) now > 0 then (True, now)
        else
          let when2 = (if min_packet_send_rate c \<noteq> 0 then send_no_later_than g else when1) in
          if recentsends \<ge> 50 then (False, when2)
          else if nogcc c then (True, now)
          else if few then (True, now)
          else if cwnd (g_timing g) \<ge> of_int (g_active g) + 1 / 2 then (True, now)
          else (False, when2))"

definition earliest_timeout :: "tval \<Rightarrow> ultraprobe list \<Rightarrow> int \<Rightarrow> tval" where
  "earliest_timeout start ps to = foldl (\<lambda>e p. if \<not> timedout p then
       (let t = TIMEVAL_MSEC_ADD (sent p) (to div 1000) in if TIMEVAL_SUBTRACT t e < 0 then t else e) else e) start ps"

definition TIMEVAL_BEFORE :: "tval \<Rightarrow> tval \<Rightarrow> bool" where
  "TIMEVAL_BEFORE a b \<longleftrightarrow> tsec a < tsec b \<or> (tsec a = tsec b \<and> tusec a < tusec b)"

definition host_sendOK :: "scan_cfg \<Rightarrow> tval \<Rightarrow> hg \<Rightarrow> (bool \<times> tval) option" where
  "host_sendOK c now = (\<lambda>(h, g). do {
     done \<leftarrow> (if Target_timedOut c now (target h) then Some True else completed c h);
     fresh \<leftarrow> freshPortsLeft c (cur h);
     let delay = TIMEVAL_MSEC_ADD (lastprobe_sent h) (int (delayms (sdn h)));
     let room = of_int (num_probes_active h) + 1 / 2;
     let w = cwnd (getTiming c (h, g));
     Some (
       if done then (False, now)
       else if min_packet_send_rate c \<noteq> 0 \<and> TIMEVAL_SUBTRACT (send_no_later_than g) now \<le> 0 then (True, now)
       else if rld_waiting (rld h) then (if TIMEVAL_AFTER (rld_waittime (rld h)) now then (False, rld_waittime (rld h)) else (True, now))
       else if delayms (sdn h) \<noteq> 0 \<and> TIMEVAL_MSEC_SUBTRACT now (lastprobe_sent h) < int (delayms (sdn h)) then (False, delay)
       else if w \<ge> room \<and> (fresh \<noteq> 0 \<or> num_probes_waiting_retransmit h \<noteq> 0 \<or> retry_stack h \<noteq> []) then (True, now)
       else
         let e = earliest_timeout (TIMEVAL_MSEC_ADD now 10000) (probes_outstanding h) (probeTimeout (h, g)) in
         if delayms (sdn h) \<noteq> 0 then
           let sendTime = (if TIMEVAL_BEFORE delay now then now else delay); tdiff = TIMEVAL_MSEC_SUBTRACT e sendTime in
           (False, if tdiff < 0 then sendTime else if tdiff > 0 \<and> w > room then sendTime else e)
         else (False, e)) })"

definition nextTimeout :: "tval \<Rightarrow> hg \<Rightarrow> tval option" where
  "nextTimeout now = (\<lambda>(h, g). foldl (\<lambda>e p. if \<not> timedout p then
       (let t = TIMEVAL_ADD (sent p) (probeTimeout (h, g)) in
        case e of None \<Rightarrow> Some t | Some u \<Rightarrow> (if TIMEVAL_SUBTRACT t u < 0 then Some t else Some u)) else e) None (probes_outstanding h))"

end
