(* ===== verification/Scan_Inv.thy ===== *)
theory Scan_Inv
  imports Scan_Host
begin

text \<open>
  The invariant of a host of \<open>ultra_scan\<close> and of the statistics of the group, and that every operation of \<open>Scan_Host\<close> keeps
  it without a failed assertion.
\<close>

section \<open>The invariant\<close>

definition n_active :: "ultraprobe list \<Rightarrow> nat" where
  "n_active ps = length (filter (\<lambda>p. \<not> timedout p) ps)"

definition n_waiting :: "ultraprobe list \<Rightarrow> nat" where
  "n_waiting ps = length (filter (\<lambda>p. timedout p \<and> \<not> retransmitted p \<and> \<not> isPing p) ps)"

definition kind_of :: "probespec \<Rightarrow> uptype" where
  "kind_of ps = (case ps_type ps of PS_ARP \<Rightarrow> UP_ARP | PS_ND \<Rightarrow> UP_ND | PS_CONNECTTCP \<Rightarrow> UP_CONNECT | PS_NONE \<Rightarrow> UP_UNSET | _ \<Rightarrow> UP_IP)"

text \<open>A scan that sends no probes but those of \<open>connect\<close>.\<close>

definition only_connect :: "scan_cfg \<Rightarrow> bool" where
  "only_connect c \<longleftrightarrow> scantype c = CONNECT_SCAN \<or> (scantype c = PING_SCAN \<and> \<not> rawicmpscan c \<and> \<not> rawudpscan c \<and> \<not> rawsctpscan c \<and>
     \<not> rawtcpscan c \<and> \<not> rawprotoscan c)"

text \<open>The probe can be sent in this scan.\<close>

definition buildable :: "scan_cfg \<Rightarrow> probespec \<Rightarrow> bool" where
  "buildable c ps \<longleftrightarrow> (ps_type ps = PS_TCP \<longrightarrow> scantype c \<noteq> CONNECT_SCAN) \<and>
     (ps_type ps = PS_SCTP \<longrightarrow> pd_chunktype (ps_pd ps) = SCTP_INIT \<or> pd_chunktype (ps_pd ps) = SCTP_COOKIE_ECHO) \<and>
     (only_connect c \<longrightarrow> ps_type ps = PS_NONE \<or> ps_type ps = PS_CONNECTTCP) \<and>
     (ps_type ps \<in> {PS_CONNECTTCP, PS_ARP, PS_ND} \<longrightarrow> scantype c = CONNECT_SCAN \<or> ping_scan c)"

text \<open>A probe of the scan itself: its port is one of the scanned ports, and it can be sent again.\<close>

definition pspec_ok :: "scan_cfg \<Rightarrow> probespec \<Rightarrow> bool" where
  "pspec_ok c ps \<longleftrightarrow> ps_type ps \<noteq> PS_NONE \<and> buildable c ps \<and> (ps_type ps = PS_CONNECTTCP \<longrightarrow> ps_proto ps = IPPROTO_TCP \<and> \<not> prot_scan c) \<and>
     (kind_of ps = UP_IP \<longrightarrow> prot_scan c \<or> rawprotoscan c \<or> ps_proto ps \<in> {6, 17, 132, 1, 58}) \<and>
     (\<not> ping_scan c \<longrightarrow> ps_type ps \<noteq> PS_ARP \<and> ps_type ps \<noteq> PS_ND \<and> (\<exists>no pr. pspec_port c ps = Some (no, pr) \<and> scanned (statics c) pr no)) \<and>
     (\<not> ping_scan c \<and> \<not> prot_scan c \<longrightarrow> pspec_port c ps = Some (spec_dport ps, ps_proto ps))"

text \<open>A packet carries the numbers of its probe in its source port, unless that port is fixed.\<close>

definition numbered :: "scan_cfg \<Rightarrow> ultraprobe \<Rightarrow> bool" where
  "numbered c p \<longleftrightarrow> tryno p < 256 \<and> pingseq p < 256 \<and> (up_type p = UP_IP \<longrightarrow>
     (case magic_port c of Some s \<Rightarrow> w_sport (up_wire p) = s | None \<Rightarrow> sport_encode c (tryno p) (pingseq p) = Some (w_sport (up_wire p))))"

lemma numbered_update [simp]: "numbered c (p\<lparr>timedout := b\<rparr>) = numbered c p" "numbered c (p\<lparr>retransmitted := b\<rparr>) = numbered c p"
    "numbered c (p\<lparr>prevSent := t\<rparr>) = numbered c p" "numbered c (p\<lparr>sd := i\<rparr>) = numbered c p" "numbered c (p\<lparr>sent := t\<rparr>) = numbered c p"
  by (cases "magic_port c"; simp add: numbered_def)+

definition probe_ok :: "scan_cfg \<Rightarrow> nat \<Rightarrow> ultraprobe \<Rightarrow> bool" where
  "probe_ok c m p \<longleftrightarrow> (retransmitted p \<longrightarrow> timedout p) \<and> tryno p \<le> m \<and> up_type p = kind_of (mypspec p) \<and>
     ps_type (mypspec p) \<noteq> PS_NONE \<and> buildable c (mypspec p) \<and> (\<not> isPing p \<longrightarrow> pspec_ok c (mypspec p)) \<and> (up_type p = UP_CONNECT \<and> timedout p \<longrightarrow> sd p < 0) \<and>
     numbered c p"

definition probes_inv :: "scan_cfg \<Rightarrow> nat \<Rightarrow> ultraprobe list \<Rightarrow> bool" where
  "probes_inv c m ps \<longleftrightarrow> list_all (probe_ok c m) ps"

definition queue_inv :: "scan_cfg \<Rightarrow> hss \<Rightarrow> bool" where
  "queue_inv c h \<longleftrightarrow> length (retry_stack h) = length (retry_stack_tries h) \<and> (\<forall>t \<in> set (retry_stack_tries h). t < max_tryno c h) \<and>
     list_all (pspec_ok c) (retry_stack h) \<and> list_all (pspec_ok c) (probe_bench h) \<and>
     (probe_bench h \<noteq> [] \<longrightarrow> bench_tryno h \<le> max_tryno c h) \<and>
     (ping_scan c \<longrightarrow> max_successful_tryno h = 0 \<and> retry_stack h = [] \<and> (probe_bench h \<noteq> [] \<longrightarrow> bench_tryno h = max_tryno c h))"

definition known_states :: "portlist \<Rightarrow> bool" where
  "known_states pl \<longleftrightarrow> (\<forall>p q. Some q \<in> set (slots pl p) \<longrightarrow> pstate q \<in> {1, 2, 3, 6, 7})"

definition target_inv :: "scan_cfg \<Rightarrow> target \<Rightarrow> bool" where
  "target_inv c t \<longleftrightarrow> pl_ok (statics c) (tports t) \<and> known_states (tports t) \<and> ps_type (pingprobe t) \<noteq> PS_ICMPV6 \<and> buildable c (pingprobe t)"

definition host_inv :: "scan_cfg \<Rightarrow> hss \<Rightarrow> bool" where
  "host_inv c h \<longleftrightarrow> num_probes_active h = int (n_active (probes_outstanding h)) \<and>
     num_probes_waiting_retransmit h = int (n_waiting (probes_outstanding h)) \<and> probes_inv c (max_tryno c h) (probes_outstanding h) \<and>
     queue_inv c h \<and> cc_ok (perf c) (timing h) \<and> target_inv c (target h) \<and> 0 < nxtpseq h \<and> nxtpseq h < 256"

definition csi_inv :: "connect_scan_info \<Rightarrow> bool" where
  "csi_inv i \<longleftrightarrow> distinct (fds i) \<and> numSDs i = int (length (fds i)) \<and> (\<forall>s \<in> set (fds i). 0 \<le> s \<and> s \<le> maxValidSD i)"

text \<open>With a maximum rate, the next probe is not sent before the time that all probes up to now take at that rate.\<close>

definition send_interval :: "scan_cfg \<Rightarrow> int" where
  "send_interval c = trunc_rat (1000000 / max_packet_send_rate c)"

definition rate_paced :: "scan_cfg \<Rightarrow> tval \<Rightarrow> rate_meter \<Rightarrow> bool" where
  "rate_paced c next_send m \<longleftrightarrow> max_packet_send_rate c \<noteq> 0 \<longrightarrow>
     tval_ok next_send \<and> of_int (usecs next_send) = of_int (usecs (start_tv m)) + total m * of_int (send_interval c)"

definition group_inv :: "scan_cfg \<Rightarrow> gss \<Rightarrow> bool" where
  "group_inv c g \<longleftrightarrow> cc_ok (perf c) (g_timing g) \<and> csi_inv (csi g) \<and> meter_ok (packet_meter (send_rate_meter g)) \<and> meter_ok (byte_meter (send_rate_meter g)) \<and>
     0 \<le> max_packet_send_rate c \<and> rate_paced c (send_no_earlier_than g) (packet_meter (send_rate_meter g))"

text \<open>The group counts the active probes of this host and \<open>k\<close> others.\<close>

definition hg_inv :: "scan_cfg \<Rightarrow> int \<Rightarrow> hg \<Rightarrow> bool" where
  "hg_inv c k hg \<longleftrightarrow> host_inv c (fst hg) \<and> group_inv c (snd hg) \<and> g_active (snd hg) = num_probes_active (fst hg) + k \<and> 0 \<le> k"

definition cfg_ok :: "scan_cfg \<Rightarrow> bool" where
  "cfg_ok c \<longleftrightarrow> ultra_scantype c \<and> perf_ok (perf c) \<and> min_rtt_timeout (tops c) \<le> max_rtt_timeout (tops c) \<and> statics_ok (statics c) \<and>
     (\<not> ping_scan c \<longrightarrow> (\<forall>no \<in> set (scan_ports c). scanned (statics c) (if tcp_scan c then 6 else if udp_scan c then 17 else if sctp_scan c then 132 else 0) no))"

text \<open>The queues of the host: no operation but the ones that move probes between them changes them.\<close>

definition queues_same :: "hss \<Rightarrow> hss \<Rightarrow> bool" where
  "queues_same h h' \<longleftrightarrow> probe_bench h' = probe_bench h \<and> bench_tryno h' = bench_tryno h \<and>
     retry_stack h' = retry_stack h \<and> retry_stack_tries h' = retry_stack_tries h \<and> cur h' = cur h"

lemma queues_same_refl [simp]: "queues_same h h"
  by (simp add: queues_same_def)

lemma queues_same_trans: "queues_same h h' \<Longrightarrow> queues_same h' h'' \<Longrightarrow> queues_same h h''"
  by (simp add: queues_same_def)

text \<open>What most operations leave as it is.\<close>

definition frame :: "hss \<Rightarrow> hss \<Rightarrow> bool" where
  "frame h h' \<longleftrightarrow> max_successful_tryno h' = max_successful_tryno h \<and> queues_same h h'"

lemma frame_refl [simp]: "frame h h"
  by (simp add: frame_def)

lemma frame_queues: "frame h h' \<Longrightarrow> queues_same h h'"
  by (simp add: frame_def)

lemma frame_trans: "frame h h' \<Longrightarrow> frame h' h'' \<Longrightarrow> frame h h''"
  by (simp add: frame_def queues_same_def)

lemma frame_max_tryno: "frame h h' \<Longrightarrow> max_tryno c h' = max_tryno c h"
  by (simp add: frame_def queues_same_def max_tryno_def)

lemma frame_queue_inv: "frame h h' \<Longrightarrow> queue_inv c h' = queue_inv c h"
  by (simp add: queue_inv_def frame_max_tryno) (simp add: frame_def queues_same_def)

lemma max_tryno_update [simp]:
  "max_tryno c (h\<lparr>target := x0\<rparr>) = max_tryno c h"
  "max_tryno c (h\<lparr>cur := x1\<rparr>) = max_tryno c h"
  "max_tryno c (h\<lparr>retry_capped_warned := x2\<rparr>) = max_tryno c h"
  "max_tryno c (h\<lparr>probes_outstanding := x3\<rparr>) = max_tryno c h"
  "max_tryno c (h\<lparr>num_probes_active := x4\<rparr>) = max_tryno c h"
  "max_tryno c (h\<lparr>num_probes_waiting_retransmit := x5\<rparr>) = max_tryno c h"
  "max_tryno c (h\<lparr>timing := x6\<rparr>) = max_tryno c h"
  "max_tryno c (h\<lparr>lastrcvd := x7\<rparr>) = max_tryno c h"
  "max_tryno c (h\<lparr>lastprobe_sent := x8\<rparr>) = max_tryno c h"
  "max_tryno c (h\<lparr>tryno_mayincrease := x9\<rparr>) = max_tryno c h"
  "max_tryno c (h\<lparr>ports_finished := x10\<rparr>) = max_tryno c h"
  "max_tryno c (h\<lparr>numprobes_sent := x11\<rparr>) = max_tryno c h"
  "max_tryno c (h\<lparr>sdn := x12\<rparr>) = max_tryno c h"
  "max_tryno c (h\<lparr>rld := x13\<rparr>) = max_tryno c h"
  "max_tryno c (h\<lparr>nxtpseq := x14\<rparr>) = max_tryno c h"
  by (simp_all add: max_tryno_def)

lemma queue_inv_update [simp]:
  "queue_inv c (h\<lparr>target := x0\<rparr>) = queue_inv c h"
  "queue_inv c (h\<lparr>cur := x1\<rparr>) = queue_inv c h"
  "queue_inv c (h\<lparr>retry_capped_warned := x2\<rparr>) = queue_inv c h"
  "queue_inv c (h\<lparr>probes_outstanding := x3\<rparr>) = queue_inv c h"
  "queue_inv c (h\<lparr>num_probes_active := x4\<rparr>) = queue_inv c h"
  "queue_inv c (h\<lparr>num_probes_waiting_retransmit := x5\<rparr>) = queue_inv c h"
  "queue_inv c (h\<lparr>timing := x6\<rparr>) = queue_inv c h"
  "queue_inv c (h\<lparr>lastrcvd := x7\<rparr>) = queue_inv c h"
  "queue_inv c (h\<lparr>lastprobe_sent := x8\<rparr>) = queue_inv c h"
  "queue_inv c (h\<lparr>tryno_mayincrease := x9\<rparr>) = queue_inv c h"
  "queue_inv c (h\<lparr>ports_finished := x10\<rparr>) = queue_inv c h"
  "queue_inv c (h\<lparr>numprobes_sent := x11\<rparr>) = queue_inv c h"
  "queue_inv c (h\<lparr>sdn := x12\<rparr>) = queue_inv c h"
  "queue_inv c (h\<lparr>rld := x13\<rparr>) = queue_inv c h"
  "queue_inv c (h\<lparr>nxtpseq := x14\<rparr>) = queue_inv c h"
  by (simp_all add: queue_inv_def)

lemma map_option_bind: "map_option f (Option.bind m k) = Option.bind m (\<lambda>x. map_option f (k x))"
  by (cases m) simp_all

section \<open>Counters\<close>

lemma length_filter_remove_nth:
  assumes "k < length xs"
  shows "length (filter P xs) = length (filter P (remove_nth k xs)) + (if P (xs ! k) then 1 else 0)"
proof -
  have "xs = take k xs @ xs ! k # drop (Suc k) xs" using id_take_nth_drop[OF assms] .
  then have "length (filter P xs) = length (filter P (take k xs @ xs ! k # drop (Suc k) xs))" by metis
  then show ?thesis by (simp add: remove_nth_def)
qed

lemma set_remove_nth: "set (remove_nth k xs) \<subseteq> set xs"
  by (auto simp: remove_nth_def dest: in_set_takeD in_set_dropD)

lemma length_remove_nth: "k < length xs \<Longrightarrow> length (remove_nth k xs) = length xs - 1"
  by (simp add: remove_nth_def)

lemma length_filter_pos: "k < length xs \<Longrightarrow> P (xs ! k) \<Longrightarrow> 0 < length (filter P xs)"
  by (metis filter_empty_conv length_greater_0_conv nth_mem)

lemma length_filter_list_update:
  assumes "k < length xs"
  shows "int (length (filter P (xs[k := y]))) = int (length (filter P xs)) - (if P (xs ! k) then 1 else 0) + (if P y then 1 else 0)"
  by (rule length_filter_update[OF assms])

lemma n_active_pos: "k < length ps \<Longrightarrow> \<not> timedout (ps ! k) \<Longrightarrow> 0 < n_active ps"
  unfolding n_active_def by (rule length_filter_pos)

lemma n_waiting_pos: "k < length ps \<Longrightarrow> timedout (ps ! k) \<Longrightarrow> \<not> retransmitted (ps ! k) \<Longrightarrow> \<not> isPing (ps ! k) \<Longrightarrow> 0 < n_waiting ps"
  unfolding n_waiting_def by (rule length_filter_pos) simp_all

lemma probes_inv_remove: "probes_inv c m ps \<Longrightarrow> probes_inv c m (remove_nth k ps)"
  using set_remove_nth[of k ps] by (auto simp: probes_inv_def list_all_iff)

lemma probes_inv_nth: "probes_inv c m ps \<Longrightarrow> k < length ps \<Longrightarrow> probe_ok c m (ps ! k)"
  by (simp add: probes_inv_def list_all_length)

lemma probes_inv_update: "probes_inv c m ps \<Longrightarrow> probe_ok c m p \<Longrightarrow> probes_inv c m (ps[k := p])"
  using set_update_subset_insert[of ps k p] by (auto simp: probes_inv_def list_all_iff)

lemma probes_inv_mono: "probes_inv c m ps \<Longrightarrow> m \<le> m' \<Longrightarrow> probes_inv c m' ps"
  by (auto simp: probes_inv_def probe_ok_def list_all_iff)

section \<open>Timing\<close>

lemma adjust_timeouts2_total:
  assumes "min_rtt_timeout ops \<le> max_rtt_timeout ops"
  shows "\<exists>to'. adjust_timeouts2 ops s r to = Some to'"
proof -
  have "\<exists>to'. finish_timeouts ops x = Some to'" for x using assms by (simp add: finish_timeouts_def box_def Let_def)
  then show ?thesis by (auto simp: adjust_timeouts2_def Let_def)
qed

text \<open>An operation that changes nothing but statistics keeps the invariant.\<close>

definition same_probes :: "hss \<Rightarrow> hss \<Rightarrow> bool" where
  "same_probes h h' \<longleftrightarrow> frame h h' \<and> probes_outstanding h' = probes_outstanding h \<and> num_probes_active h' = num_probes_active h \<and>
     num_probes_waiting_retransmit h' = num_probes_waiting_retransmit h \<and> nxtpseq h' = nxtpseq h"

lemma same_probes_refl [simp]: "same_probes h h"
  by (simp add: same_probes_def)

lemma same_probes_trans: "same_probes h h' \<Longrightarrow> same_probes h' h'' \<Longrightarrow> same_probes h h''"
  by (auto simp: same_probes_def intro: frame_trans)

lemma same_probes_inv:
  assumes "hg_inv c k (h, g)" "same_probes h h'" "cc_ok (perf c) (timing h')" "target_inv c (target h')"
    "group_inv c g'" "g_active g' = g_active g"
  shows "hg_inv c k (h', g')"
  using assms by (auto simp: hg_inv_def host_inv_def same_probes_def frame_max_tryno frame_queue_inv)

lemma ultrascan_adjust_timeouts_ok:
  assumes "cfg_ok c" "hg_inv c k (h, g)"
  shows "\<exists>h' g'. ultrascan_adjust_timeouts c p rcvd (h, g) = Some (h', g') \<and> hg_inv c k (h', g') \<and> same_probes h h'"
proof (cases rcvd)
  case (Some t)
  obtain a b where "adjust_timeouts2 (tops c) (sent p) t (t_to (target h)) = Some a" "adjust_timeouts2 (tops c) (sent p) t (g_to g) = Some b"
    using adjust_timeouts2_total assms(1) unfolding cfg_ok_def by meson
  then have "ultrascan_adjust_timeouts c p rcvd (h, g) = Some (h\<lparr>target := (target h)\<lparr>t_to := a\<rparr>, lastrcvd := t\<rparr>, g\<lparr>g_to := b, g_lastrcvd := t\<rparr>)"
    by (simp add: ultrascan_adjust_timeouts_def Some)
  moreover have "same_probes h (h\<lparr>target := (target h)\<lparr>t_to := a\<rparr>, lastrcvd := t\<rparr>)" by (simp add: same_probes_def frame_def queues_same_def)
  moreover from assms(2) this have "hg_inv c k (h\<lparr>target := (target h)\<lparr>t_to := a\<rparr>, lastrcvd := t\<rparr>, g\<lparr>g_to := b, g_lastrcvd := t\<rparr>)"
    by (rule same_probes_inv) (use assms(2) in \<open>auto simp: hg_inv_def host_inv_def target_inv_def group_inv_def\<close>)
  ultimately show ?thesis by blast
qed (use assms in \<open>simp add: ultrascan_adjust_timeouts_def\<close>)

lemma boostScanDelay_fields [simp]:
  "timing (boostScanDelay c now h) = timing h" "target (boostScanDelay c now h) = target h" "same_probes h (boostScanDelay c now h)"
  by (simp_all add: boostScanDelay_def same_probes_def frame_def queues_same_def Let_def)

text \<open>The delay between two probes never exceeds the maximum once it has been raised, and it is raised at most twofold.\<close>

lemma boostScanDelay_bounds:
  "delayms (sdn (boostScanDelay c now h)) \<le> (if tcp_scan c then max_tcp_scan_delay c else if udp_scan c then max_udp_scan_delay c else max_sctp_scan_delay c)"
  "0 < delayms (sdn h) \<Longrightarrow> delayms (sdn (boostScanDelay c now h)) \<le> 2 * delayms (sdn h)"
  by (auto simp: boostScanDelay_def Let_def)

text \<open>One host or group: a reply is expected, perhaps a drop is noticed, perhaps a reply is acknowledged.\<close>

lemma timing_update_ok:
  assumes "perf_ok p" "cc_ok p t" "0 \<le> scale" "t1 = note_expected t \<or> t1 = drop_host n p now (note_expected t) \<or> t1 = drop_group n p now (note_expected t)"
  shows "\<exists>t2. (if b then ack p scale t1 else Some t1) = Some t2 \<and> cc_ok p t2"
proof -
  have e: "cc_ok p (note_expected t)" "num_replies_received (note_expected t) < num_replies_expected (note_expected t)"
    using assms(2) expected_ok[of p t] by (simp_all add: note_expected_def cc_ok_def)
  then have t1: "cc_ok p t1" "num_replies_received t1 < num_replies_expected t1"
    using assms(1,4) drop_host_ok drop_group_ok by (auto simp: drop_host_def drop_group_def)
  show ?thesis using ack_ok[OF assms(1) t1 assms(3)] t1(1) by (cases b) auto
qed

lemma ultrascan_adjust_timing_ok:
  assumes "cfg_ok c" "hg_inv c k (h, g)"
  shows "\<exists>h' g'. ultrascan_adjust_timing c now p rcvd (h, g) = Some (h', g') \<and> hg_inv c k (h', g') \<and> same_probes h h' \<and> target h' = target h"
proof -
  let ?m = "if isPing p then ping_magnifier else 1"
  let ?d = "(tryno p > 0 \<and> rcvd \<noteq> None) \<or> (isPing p \<and> rcvd = None)"
  let ?ht1 = "if ?d \<and> TIMEVAL_AFTER (sent p) (last_drop (note_expected (timing h))) then drop_host (nat (num_probes_active h)) (perf c) now (note_expected (timing h)) else note_expected (timing h)"
  let ?gt1 = "if ?d \<and> TIMEVAL_AFTER (sent p) (last_drop (note_expected (g_timing g))) then drop_group (nat (g_active g)) (perf c) now (note_expected (g_timing g)) else note_expected (g_timing g)"
  have pf: "perf_ok (perf c)" "cc_ok (perf c) (timing h)" "cc_ok (perf c) (g_timing g)" "0 \<le> ?m"
    using assms by (simp_all add: cfg_ok_def hg_inv_def host_inv_def group_inv_def ping_magnifier_def)
  have gd: "?gt1 = note_expected (g_timing g) \<or> ?gt1 = drop_host n (perf c) now (note_expected (g_timing g)) \<or>
      ?gt1 = drop_group (nat (g_active g)) (perf c) now (note_expected (g_timing g))" for n by auto
  have hd: "?ht1 = note_expected (timing h) \<or> ?ht1 = drop_host (nat (num_probes_active h)) (perf c) now (note_expected (timing h)) \<or>
      ?ht1 = drop_group n (perf c) now (note_expected (timing h))" for n by auto
  obtain gt2 where gt: "(if rcvd \<noteq> None then ack (perf c) ?m ?gt1 else Some ?gt1) = Some gt2" "cc_ok (perf c) gt2"
    using timing_update_ok[OF pf(1,3,4) gd, of "rcvd \<noteq> None"] by blast
  obtain ht2 where ht: "(if rcvd \<noteq> None then ack (perf c) ?m ?ht1 else Some ?ht1) = Some ht2" "cc_ok (perf c) ht2"
    using timing_update_ok[OF pf(1,2,4) hd, of "rcvd \<noteq> None"] by blast
  define s where "s = note_response p rcvd (sdn h)"
  define h1 where "h1 = h\<lparr>timing := ht2, sdn := s\<rparr>"
  obtain h' where h': "ultrascan_adjust_timing c now p rcvd (h, g) = Some (h', g\<lparr>g_timing := gt2\<rparr>)" "h' = h1 \<or> h' = boostScanDelay c now h1"
    using gt(1) ht(1) unfolding ultrascan_adjust_timing_def Let_def h1_def s_def by auto
  have h1: "same_probes h h1" "timing h1 = ht2" "target h1 = target h" by (simp_all add: h1_def same_probes_def frame_def queues_same_def)
  have "same_probes h h'" "timing h' = ht2" "target h' = target h"
    using h'(2) h1 same_probes_trans[OF h1(1) boostScanDelay_fields(3)[of h1 c now]] by auto
  moreover have "hg_inv c k (h', g\<lparr>g_timing := gt2\<rparr>)"
    by (rule same_probes_inv[OF assms(2)]) (use calculation ht gt assms(2) in \<open>auto simp: hg_inv_def host_inv_def group_inv_def\<close>)
  ultimately show ?thesis using h'(1) by blast
qed


section \<open>Sockets\<close>

lemma clearSD_ok:
  assumes "csi_inv i" "0 \<le> s"
  shows "\<exists>r i'. clearSD s i = Some (r, i') \<and> csi_inv i' \<and> s \<notin> set (fds i')"
proof (cases "s \<in> set (fds i)")
  case True
  let ?m = "if s = maxValidSD i then maxValidSD i - 1 else maxValidSD i"
  let ?i = "i\<lparr>fds := remove1 s (fds i), numSDs := numSDs i - 1, maxValidSD := ?m\<rparr>"
  have d: "distinct (fds i)" "numSDs i = int (length (fds i))" "\<And>t. t \<in> set (fds i) \<Longrightarrow> 0 \<le> t \<and> t \<le> maxValidSD i" using assms(1) by (auto simp: csi_inv_def)
  have l: "int (length (remove1 s (fds i))) = int (length (fds i)) - 1" "0 < length (fds i)"
    using True length_pos_if_in_set[OF True] by (simp_all add: length_remove1 of_nat_diff Suc_leI)
  have r: "set (remove1 s (fds i)) = set (fds i) - {s}" using d(1) by (rule set_remove1_eq)
  have "0 \<le> t \<and> t \<le> ?m" if "t \<in> set (fds i) - {s}" for t using d(3)[of t] that by auto
  then have "csi_inv ?i" using d(1,2) l(1) r by (simp add: csi_inv_def)
  moreover have "clearSD s i = Some (True, ?i)" using True assms(2) d(2) l(2) by (simp add: clearSD_def)
  ultimately show ?thesis using r by auto
qed (use assms in \<open>auto simp: clearSD_def\<close>)

lemma watchSD_ok:
  assumes "csi_inv i" "0 \<le> s"
  shows "\<exists>r i'. watchSD s i = Some (r, i') \<and> csi_inv i' \<and> s \<in> set (fds i')"
proof (cases "s \<in> set (fds i)")
  case False
  then have "csi_inv (i\<lparr>fds := s # fds i, numSDs := numSDs i + 1, maxValidSD := (if s > maxValidSD i then s else maxValidSD i)\<rparr>)"
    using assms by (force simp: csi_inv_def)
  then show ?thesis using False assms(2) by (auto simp: watchSD_def)
qed (use assms in \<open>auto simp: watchSD_def\<close>)

lemma clear_csi_ok:
  assumes "hg_inv c k (h, g)" "0 \<le> s"
  shows "\<exists>i. clear_csi s (h, g) = Some (h, g\<lparr>csi := i\<rparr>) \<and> hg_inv c k (h, g\<lparr>csi := i\<rparr>)"
proof -
  obtain r i where i: "clearSD s (csi g) = Some (r, i)" "csi_inv i" using clearSD_ok[of "csi g" s] assms by (auto simp: hg_inv_def group_inv_def)
  then show ?thesis using assms(1) by (auto simp: clear_csi_def hg_inv_def group_inv_def)
qed

section \<open>Outstanding probes\<close>

lemma destroyOutstandingProbe_ok:
  assumes "hg_inv c k (h, g)" "j < length (probes_outstanding h)"
  shows "\<exists>h' g'. destroyOutstandingProbe j (h, g) = Some (h', g') \<and> hg_inv c k (h', g') \<and> frame h h' \<and> target h' = target h \<and>
    probes_outstanding h' = remove_nth j (probes_outstanding h)"
proof -
  let ?ps = "probes_outstanding h" let ?p = "?ps ! j"
  note inv = assms(1)[unfolded hg_inv_def host_inv_def, simplified]
  have rt: "retransmitted ?p \<Longrightarrow> timedout ?p" using inv probes_inv_nth[OF _ assms(2)] unfolding probe_ok_def by blast
  define a where "a = (if timedout ?p then 0 else 1 :: int)"
  define w where "w = (if \<not> isPing ?p \<and> timedout ?p \<and> \<not> retransmitted ?p then 1 else 0 :: int)"
  have na: "int (n_active ?ps) = int (n_active (remove_nth j ?ps)) + a"
    using length_filter_remove_nth[OF assms(2), of "\<lambda>p. \<not> timedout p"] by (simp add: n_active_def a_def)
  have nw: "int (n_waiting ?ps) = int (n_waiting (remove_nth j ?ps)) + w"
    using length_filter_remove_nth[OF assms(2), of "\<lambda>p. timedout p \<and> \<not> retransmitted p \<and> \<not> isPing p"] by (auto simp: n_waiting_def w_def)
  define h1 where "h1 = h\<lparr>num_probes_active := num_probes_active h - a, num_probes_waiting_retransmit := num_probes_waiting_retransmit h - w\<rparr>"
  define g1 where "g1 = g\<lparr>g_active := g_active g - a\<rparr>"
  have d1: "(if \<not> timedout ?p then dec_active (h, g) else Some (h, g)) = Some (h\<lparr>num_probes_active := num_probes_active h - a\<rparr>, g1)"
    using inv na by (auto simp: dec_active_def a_def g1_def)
  have d2: "(if \<not> isPing ?p \<and> timedout ?p \<and> \<not> retransmitted ?p then dec_waiting (h\<lparr>num_probes_active := num_probes_active h - a\<rparr>, g1)
      else Some (h\<lparr>num_probes_active := num_probes_active h - a\<rparr>, g1)) = Some (h1, g1)"
    using inv nw by (auto simp: dec_waiting_def w_def h1_def)
  define h2 where "h2 = h1\<lparr>probes_outstanding := remove_nth j ?ps\<rparr>"
  have fr: "frame h h2" by (simp add: h2_def h1_def frame_def queues_same_def)
  have inv2: "hg_inv c k (h2, g1)"
    using inv na nw probes_inv_remove[of c _ ?ps j] fr unfolding hg_inv_def host_inv_def
    by (simp add: frame_max_tryno[OF fr] frame_queue_inv[OF fr]) (simp add: h2_def h1_def g1_def group_inv_def)
  show ?thesis
  proof (cases "up_type ?p = UP_CONNECT \<and> sd ?p > 0")
    case True
    obtain r i where i: "clearSD (sd ?p) (csi g1) = Some (r, i)" "csi_inv i"
      using clearSD_ok[of "csi g1" "sd ?p"] inv2 True by (auto simp: hg_inv_def group_inv_def)
    have "destroyOutstandingProbe j (h, g) = Some (h2, g1\<lparr>csi := i\<rparr>)"
      using assms(2) True i unfolding destroyOutstandingProbe_def Let_def fst_conv d1 by (simp add: d2 clear_csi_def) (simp add: h2_def h1_def)
    moreover have "hg_inv c k (h2, g1\<lparr>csi := i\<rparr>)" using inv2 i(2) by (simp add: hg_inv_def group_inv_def)
    ultimately show ?thesis using fr by (auto simp: h2_def h1_def)
  next
    case False
    then have "destroyOutstandingProbe j (h, g) = Some (h2, g1)"
      using assms(2) unfolding destroyOutstandingProbe_def Let_def fst_conv d1 by (auto simp: d2) (simp_all add: h2_def h1_def)
    then show ?thesis using fr inv2 by (auto simp: h2_def h1_def)
  qed
qed

lemma destroy_first_ok:
  assumes "hg_inv c k (h, g)" "n = length (probes_outstanding h)"
  shows "\<exists>h' g'. destroy_first n (h, g) = Some (h', g') \<and> hg_inv c k (h', g') \<and> frame h h' \<and> target h' = target h \<and> probes_outstanding h' = []"
  using assms
proof (induction n arbitrary: h g)
  case (Suc n)
  obtain h1 g1 where 1: "destroyOutstandingProbe 0 (h, g) = Some (h1, g1)" "hg_inv c k (h1, g1)" "frame h h1" "target h1 = target h"
      "probes_outstanding h1 = remove_nth 0 (probes_outstanding h)"
    using destroyOutstandingProbe_ok[OF Suc.prems(1), of 0] Suc.prems(2) by (metis zero_less_Suc)
  have "n = length (probes_outstanding h1)" using 1(5) Suc.prems(2) by (metis diff_Suc_1 length_remove_nth zero_less_Suc)
  from Suc.IH[OF 1(2) this] show ?case using 1 frame_trans[OF 1(3)] by auto
qed simp

lemma destroyAllOutstandingProbes_ok:
  assumes "hg_inv c k (h, g)"
  shows "\<exists>h' g'. destroyAllOutstandingProbes (h, g) = Some (h', g') \<and> hg_inv c k (h', g') \<and> frame h h' \<and> target h' = target h \<and> probes_outstanding h' = []"
  using destroy_first_ok[OF assms refl] by (simp add: destroyAllOutstandingProbes_def)


lemma same_probes_fields:
  assumes "same_probes h h'"
  shows "probes_outstanding h' = probes_outstanding h" "num_probes_active h' = num_probes_active h" "num_probes_waiting_retransmit h' = num_probes_waiting_retransmit h"
    "frame h h'" "nxtpseq h' = nxtpseq h"
  using assms by (simp_all add: same_probes_def)

text \<open>The state in the middle of \<open>markProbeTimedout\<close> differs from one that satisfies the invariant by the count of waiting probes only.\<close>

lemma mark_middle:
  assumes "hg_inv c k (h, g)" "j < length (probes_outstanding h)" "\<not> timedout (probes_outstanding h ! j)"
  defines "p \<equiv> probes_outstanding h ! j"
  defines "q \<equiv> if up_type p = UP_CONNECT \<and> sd p \<ge> 0 then p\<lparr>timedout := True, sd := -1\<rparr> else p\<lparr>timedout := True\<rparr>"
  defines "w \<equiv> if isPing p then 0 else 1 :: int"
  shows "hg_inv c k (h\<lparr>probes_outstanding := (probes_outstanding h)[j := q], num_probes_active := num_probes_active h - 1,
      num_probes_waiting_retransmit := num_probes_waiting_retransmit h + w\<rparr>, g\<lparr>g_active := g_active g - 1\<rparr>)"
proof -
  let ?ps = "probes_outstanding h"
  let ?h = "h\<lparr>probes_outstanding := ?ps[j := q], num_probes_active := num_probes_active h - 1, num_probes_waiting_retransmit := num_probes_waiting_retransmit h + w\<rparr>"
  note inv = assms(1)[unfolded hg_inv_def host_inv_def, simplified]
  have nth: "probe_ok c (max_tryno c h) p" using inv probes_inv_nth[OF _ assms(2)] unfolding p_def by blast
  have q: "timedout q" "\<not> retransmitted q" "isPing q = isPing p" "tryno q = tryno p" "up_type q = up_type p" "mypspec q = mypspec p"
    using nth assms(3) by (auto simp: q_def p_def isPing_def probe_ok_def)
  have na: "int (n_active (?ps[j := q])) = int (n_active ?ps) - 1"
    using length_filter_list_update[OF assms(2), of "\<lambda>p. \<not> timedout p" q] q assms(3) by (simp add: n_active_def)
  have nw: "int (n_waiting (?ps[j := q])) = int (n_waiting ?ps) + w"
    using length_filter_list_update[OF assms(2), of "\<lambda>p. timedout p \<and> \<not> retransmitted p \<and> \<not> isPing p" q] q assms(3) by (auto simp: n_waiting_def w_def p_def)
  have "probe_ok c (max_tryno c h) q" using nth q by (auto simp: probe_ok_def q_def)
  then have "probes_inv c (max_tryno c h) (?ps[j := q])" using inv by (intro probes_inv_update) auto
  then show ?thesis using inv na nw by (simp add: hg_inv_def host_inv_def group_inv_def)
qed

text \<open>\<open>ultrascan_adjust_timing\<close> reads the counters of active probes and writes only statistics, so it commutes with changes of the list.\<close>

lemma adjust_timing_probes:
  "ultrascan_adjust_timing c now p rcvd (h\<lparr>probes_outstanding := ps, num_probes_waiting_retransmit := w\<rparr>, g) =
   map_option (\<lambda>(h', g'). (h'\<lparr>probes_outstanding := ps, num_probes_waiting_retransmit := w\<rparr>, g')) (ultrascan_adjust_timing c now p rcvd (h, g))"
proof -
  have b: "boostScanDelay c now (h\<lparr>probes_outstanding := ps, num_probes_waiting_retransmit := w, timing := t, sdn := s\<rparr>) =
      (boostScanDelay c now (h\<lparr>timing := t, sdn := s\<rparr>))\<lparr>probes_outstanding := ps, num_probes_waiting_retransmit := w\<rparr>" for t s
    by (simp add: boostScanDelay_def Let_def)
  have r: "h\<lparr>timing := t, sdn := s, probes_outstanding := ps, num_probes_waiting_retransmit := w\<rparr> =
      h\<lparr>probes_outstanding := ps, num_probes_waiting_retransmit := w, timing := t, sdn := s\<rparr>" for t s by simp
  show ?thesis unfolding ultrascan_adjust_timing_def Let_def
    by (simp add: b map_option_bind split del: if_split cong: if_cong) (simp add: r if_distrib[of "probes_outstanding_update (\<lambda>_. ps)"] if_distrib[of "num_probes_waiting_retransmit_update (\<lambda>_. w)"] split del: if_split cong: if_cong)
qed

lemma markProbeTimedout_ok:
  assumes "cfg_ok c" "hg_inv c k (h, g)" "j < length (probes_outstanding h)" "\<not> timedout (probes_outstanding h ! j)"
  shows "\<exists>h' g'. markProbeTimedout c now j (h, g) = Some (h', g') \<and> hg_inv c k (h', g') \<and> frame h h' \<and>
    (\<exists>q. probes_outstanding h' = (probes_outstanding h)[j := q] \<and> tryno q = tryno (probes_outstanding h ! j))"
proof -
  define p where "p = probes_outstanding h ! j"
  define q where "q = (if up_type p = UP_CONNECT \<and> sd p \<ge> 0 then p\<lparr>timedout := True, sd := -1\<rparr> else p\<lparr>timedout := True\<rparr>)"
  define w where "w = (if isPing p then 0 else 1 :: int)"
  let ?ps = "probes_outstanding h"
  define h0 where "h0 = h\<lparr>probes_outstanding := ?ps[j := q], num_probes_active := num_probes_active h - 1, num_probes_waiting_retransmit := num_probes_waiting_retransmit h + w\<rparr>"
  define g0 where "g0 = g\<lparr>g_active := g_active g - 1\<rparr>"
  have inv0: "hg_inv c k (h0, g0)" unfolding h0_def g0_def p_def q_def w_def by (rule mark_middle[OF assms(2-4)])
  note inv = assms(2)[unfolded hg_inv_def host_inv_def, simplified]
  have nr: "\<not> retransmitted p" using inv probes_inv_nth[OF _ assms(3)] assms(4) unfolding p_def probe_ok_def by blast
  obtain h1 g1 where a: "ultrascan_adjust_timing c now (p\<lparr>timedout := True\<rparr>) None (h0, g0) = Some (h1, g1)" "hg_inv c k (h1, g1)" "same_probes h0 h1"
    using ultrascan_adjust_timing_ok[OF assms(1) inv0] by blast
  note f1 = same_probes_fields[OF a(3)]
  define hx where "hx = h\<lparr>probes_outstanding := ?ps[j := p\<lparr>timedout := True\<rparr>], num_probes_active := num_probes_active h - 1\<rparr>"
  have hx: "hx = h0\<lparr>probes_outstanding := ?ps[j := p\<lparr>timedout := True\<rparr>], num_probes_waiting_retransmit := num_probes_waiting_retransmit h\<rparr>"
    by (simp add: hx_def h0_def)
  have pos: "0 < num_probes_active h" "0 < g_active g" using inv n_active_pos[OF assms(3,4)] by auto
  have d: "dec_active (set_probe j (p\<lparr>timedout := True\<rparr>) h, g) = Some (hx, g0)" using pos by (simp add: dec_active_def set_probe_def hx_def g0_def)
  define h2 where "h2 = h1\<lparr>probes_outstanding := ?ps[j := p\<lparr>timedout := True\<rparr>], num_probes_waiting_retransmit := num_probes_waiting_retransmit h\<rparr>"
  have t: "ultrascan_adjust_timing c now (p\<lparr>timedout := True\<rparr>) None (hx, g0) = Some (h2, g1)"
    unfolding hx adjust_timing_probes a(1) by (simp add: h2_def)
  define h3 where "h3 = (if \<not> isPing p then h2\<lparr>num_probes_waiting_retransmit := num_probes_waiting_retransmit h2 + 1\<rparr> else h2)"
  have h3: "set_probe j q h3 = h1" "\<not> (up_type p = UP_CONNECT \<and> sd p \<ge> 0) \<Longrightarrow> h3 = h1"
    using f1(1,3) by (auto simp: h3_def h2_def set_probe_def h0_def w_def q_def intro!: hss.equality)
  have fr: "frame h h1" using f1(4) by (simp add: frame_def queues_same_def h0_def)
  have len: "probes_outstanding h1 = ?ps[j := q]" "tryno q = tryno (?ps ! j)" using f1(1) by (simp_all add: h0_def q_def p_def)
  show ?thesis
  proof (cases "up_type p = UP_CONNECT \<and> sd p \<ge> 0")
    case True
    obtain i where i: "clear_csi (sd p) (h1, g1) = Some (h1, g1\<lparr>csi := i\<rparr>)" "hg_inv c k (h1, g1\<lparr>csi := i\<rparr>)"
      using clear_csi_ok[OF a(2)] True by blast
    have c: "clear_csi (sd p) (h3, g1) = Some (h3, g1\<lparr>csi := i\<rparr>)" using i(1) by (auto simp: clear_csi_def split: bind_splits)
    have "markProbeTimedout c now j (h, g) = Some (set_probe j q h3, g1\<lparr>csi := i\<rparr>)"
      using assms(3,4) nr d t c True by (simp add: markProbeTimedout_def Let_def p_def[symmetric] h3_def[symmetric] q_def)
    then show ?thesis using i(2) fr len h3(1) by auto
  next
    case False
    then have "markProbeTimedout c now j (h, g) = Some (h3, g1)"
      using assms(3,4) nr d t by (auto simp: markProbeTimedout_def Let_def p_def[symmetric] h3_def[symmetric])
    then show ?thesis using a(2) fr len h3(2)[OF False] by auto
  qed
qed

end
