(* ===== verification/Scan_Step.thy ===== *)
theory Scan_Step
  imports Scan_Inv
begin

text \<open>
  Every operation on a host of \<open>ultra_scan\<close>, from the results of a probe to the expiry of all probes, returns in a state that
  satisfies the invariant of \<open>Scan_Inv\<close>: none of the assertions of the code fails.
\<close>

section \<open>Operations that deliver a result\<close>

definition delivers :: "'b option \<Rightarrow> ('b \<Rightarrow> bool) \<Rightarrow> bool" where
  "delivers m Q \<longleftrightarrow> (\<exists>x. m = Some x \<and> Q x)"

lemma delivers_Some [simp]: "delivers (Some x) Q \<longleftrightarrow> Q x"
  by (simp add: delivers_def)

lemma delivers_None [simp]: "\<not> delivers None Q"
  by (simp add: delivers_def)

lemma delivers_bind: "delivers m P \<Longrightarrow> (\<And>x. P x \<Longrightarrow> delivers (f x) Q) \<Longrightarrow> delivers (Option.bind m f) Q"
  by (auto simp: delivers_def)

lemma delivers_map: "delivers m (\<lambda>x. Q (f x)) \<Longrightarrow> delivers (map_option f m) Q"
  by (auto simp: delivers_def)

lemma delivers_mono: "delivers m P \<Longrightarrow> (\<And>x. P x \<Longrightarrow> Q x) \<Longrightarrow> delivers m Q"
  by (auto simp: delivers_def)

lemma delivers_if: "(b \<Longrightarrow> delivers m Q) \<Longrightarrow> (\<not> b \<Longrightarrow> delivers m' Q) \<Longrightarrow> delivers (if b then m else m') Q"
  by simp

text \<open>The operations of \<open>Scan_Inv\<close> in this form.\<close>

lemma adjust_timeouts_delivers:
  assumes "cfg_ok c" "hg_inv c k hg"
  shows "delivers (ultrascan_adjust_timeouts c p rcvd hg) (\<lambda>hg'. hg_inv c k hg' \<and> same_probes (fst hg) (fst hg'))"
  using ultrascan_adjust_timeouts_ok[of c k "fst hg" "snd hg" p rcvd] assms by (auto simp: delivers_def)

lemma adjust_timing_delivers:
  assumes "cfg_ok c" "hg_inv c k hg"
  shows "delivers (ultrascan_adjust_timing c now p rcvd hg) (\<lambda>hg'. hg_inv c k hg' \<and> same_probes (fst hg) (fst hg'))"
  using ultrascan_adjust_timing_ok[of c k "fst hg" "snd hg" now p rcvd] assms by (auto simp: delivers_def)

lemma destroy_delivers:
  assumes "hg_inv c k hg" "j < length (probes_outstanding (fst hg))"
  shows "delivers (destroyOutstandingProbe j hg) (\<lambda>hg'. hg_inv c k hg' \<and> frame (fst hg) (fst hg') \<and>
    probes_outstanding (fst hg') = remove_nth j (probes_outstanding (fst hg)))"
  using destroyOutstandingProbe_ok[of c k "fst hg" "snd hg" j] assms by (auto simp: delivers_def)

lemma destroyAll_delivers:
  assumes "hg_inv c k hg"
  shows "delivers (destroyAllOutstandingProbes hg) (\<lambda>hg'. hg_inv c k hg' \<and> frame (fst hg) (fst hg') \<and> probes_outstanding (fst hg') = [])"
  using destroyAllOutstandingProbes_ok[of c k "fst hg" "snd hg"] assms by (auto simp: delivers_def)

lemma markProbeTimedout_delivers:
  assumes "cfg_ok c" "hg_inv c k hg" "j < length (probes_outstanding (fst hg))" "\<not> timedout (probes_outstanding (fst hg) ! j)"
  shows "delivers (markProbeTimedout c now j hg) (\<lambda>hg'. hg_inv c k hg' \<and> frame (fst hg) (fst hg') \<and>
    (\<exists>q. probes_outstanding (fst hg') = (probes_outstanding (fst hg))[j := q] \<and> tryno q = tryno (probes_outstanding (fst hg) ! j)))"
  using markProbeTimedout_ok[of c k "fst hg" "snd hg" j now] assms by (auto simp: delivers_def)

section \<open>The bench\<close>

lemma hg_inv_unfold:
  "hg_inv c k (h, g) \<longleftrightarrow> num_probes_active h = int (n_active (probes_outstanding h)) \<and>
     num_probes_waiting_retransmit h = int (n_waiting (probes_outstanding h)) \<and> probes_inv c (max_tryno c h) (probes_outstanding h) \<and>
     queue_inv c h \<and> cc_ok (perf c) (timing h) \<and> target_inv c (target h) \<and> 0 < nxtpseq h \<and> nxtpseq h < 256 \<and>
     group_inv c g \<and> g_active g = num_probes_active h + k \<and> 0 \<le> k"
  by (auto simp: hg_inv_def host_inv_def)

lemma moveProbeToBench_delivers:
  assumes "hg_inv c k hg" "j < length (probes_outstanding (fst hg))"
    "timedout (probes_outstanding (fst hg) ! j)" "\<not> retransmitted (probes_outstanding (fst hg) ! j)" "\<not> isPing (probes_outstanding (fst hg) ! j)"
    "tryno (probes_outstanding (fst hg) ! j) = max_tryno c (fst hg)" "probe_bench (fst hg) \<noteq> [] \<longrightarrow> bench_tryno (fst hg) = max_tryno c (fst hg)"
  shows "delivers (moveProbeToBench j hg) (\<lambda>hg'. hg_inv c k hg' \<and> max_tryno c (fst hg') = max_tryno c (fst hg) \<and>
    bench_tryno (fst hg') = max_tryno c (fst hg) \<and> probes_outstanding (fst hg') = remove_nth j (probes_outstanding (fst hg)))"
proof -
  obtain h g where hg: "hg = (h, g)" by (cases hg)
  let ?ps = "probes_outstanding h" let ?p = "?ps ! j"
  define h' where "h' = h\<lparr>bench_tryno := tryno ?p, probe_bench := probe_bench h @ [mypspec ?p],
    probes_outstanding := remove_nth j ?ps, num_probes_waiting_retransmit := num_probes_waiting_retransmit h - 1\<rparr>"
  note a = assms[unfolded hg fst_conv]
  note inv = a(1)[unfolded hg_inv_unfold]
  have p: "probe_ok c (max_tryno c h) ?p" using inv probes_inv_nth a(2) by blast
  have na: "n_active ?ps = n_active (remove_nth j ?ps)"
    using length_filter_remove_nth[OF a(2), of "\<lambda>p. \<not> timedout p"] a(3) by (simp add: n_active_def)
  have nw: "int (n_waiting ?ps) = int (n_waiting (remove_nth j ?ps)) + 1"
    using length_filter_remove_nth[OF a(2), of "\<lambda>p. timedout p \<and> \<not> retransmitted p \<and> \<not> isPing p"] a(3-5) by (simp add: n_waiting_def)
  have m: "max_tryno c h' = max_tryno c h" by (simp add: h'_def max_tryno_def)
  have "queue_inv c h'" using inv p a(5,6,7) m unfolding queue_inv_def probe_ok_def by (simp add: h'_def)
  then have "hg_inv c k (h', g)" using inv na nw m probes_inv_remove unfolding hg_inv_unfold by (simp add: h'_def)
  moreover have "moveProbeToBench j hg = Some (h', g)" using a by (auto simp: hg moveProbeToBench_def h'_def Let_def)
  ultimately show ?thesis using m a(6) by (simp add: hg) (simp add: h'_def)
qed

lemma host_pspec_update_delivers:
  assumes "newstate = HOST_UP \<or> newstate = HOST_DOWN" "hg_inv c k (h, g)"
  shows "delivers (ultrascan_host_pspec_update newstate h) (\<lambda>h'. hg_inv c k (h', g) \<and> same_probes h h')"
proof -
  have "target_inv c (target h\<lparr>flags := newstate\<rparr>)" using assms(2) by (simp add: hg_inv_unfold target_inv_def)
  then show ?thesis using assms by (auto simp: ultrascan_host_pspec_update_def hg_inv_unfold same_probes_def frame_def queues_same_def)
qed

lemma hg_inv_butlast: "hg_inv c k (h, g) \<Longrightarrow> hg_inv c k (h\<lparr>probe_bench := butlast (probe_bench h)\<rparr>, g)"
proof -
  assume a: "hg_inv c k (h, g)"
  let ?h = "h\<lparr>probe_bench := butlast (probe_bench h)\<rparr>"
  have m: "max_tryno c ?h = max_tryno c h" by (simp add: max_tryno_def)
  have "queue_inv c ?h" using a unfolding hg_inv_unfold queue_inv_def m by (auto simp: list_all_iff dest: in_set_butlastD)
  then show ?thesis using a unfolding hg_inv_unfold m by simp
qed

lemma dismiss_n_delivers:
  assumes "hg_inv c k (h, g)" "n = length (probe_bench h)"
  shows "delivers (dismiss_n c n h) (\<lambda>h'. hg_inv c k (h', g) \<and> probe_bench h' = [] \<and> probes_outstanding h' = probes_outstanding h \<and>
    max_tryno c h' = max_tryno c h)"
  using assms
proof (induction n arbitrary: h)
  case (Suc n)
  have 1: "delivers (if ping_scan c then ultrascan_host_pspec_update HOST_DOWN h else Some h) (\<lambda>h'. hg_inv c k (h', g) \<and> same_probes h h')"
    using host_pspec_update_delivers[OF _ Suc.prems(1), of HOST_DOWN] Suc.prems(1) by simp
  show ?case unfolding dismiss_n.simps
  proof (rule delivers_bind[OF 1])
    fix h1 assume h1: "hg_inv c k (h1, g) \<and> same_probes h h1"
    let ?h = "h1\<lparr>probe_bench := butlast (probe_bench h1)\<rparr>"
    have f: "n = length (probe_bench ?h)" "probes_outstanding ?h = probes_outstanding h" "max_tryno c ?h = max_tryno c h"
      using h1 Suc.prems(2) by (auto simp: same_probes_def frame_def queues_same_def max_tryno_def)
    show "delivers (dismiss_n c n ?h) (\<lambda>h'. hg_inv c k (h', g) \<and> probe_bench h' = [] \<and> probes_outstanding h' = probes_outstanding h \<and>
        max_tryno c h' = max_tryno c h)"
      using Suc.IH[OF hg_inv_butlast[OF conjunct1[OF h1]] f(1)] f(2,3) by (simp add: delivers_def)
  qed
qed simp

lemma hg_inv_bench_tryno: "hg_inv c k (h, g) \<Longrightarrow> probe_bench h = [] \<Longrightarrow> hg_inv c k (h\<lparr>bench_tryno := n\<rparr>, g)"
  by (simp add: hg_inv_unfold queue_inv_def max_tryno_def)

lemma dismissBench_delivers:
  assumes "hg_inv c k (h, g)"
  shows "delivers (dismissBench c h) (\<lambda>h'. hg_inv c k (h', g) \<and> probe_bench h' = [] \<and> probes_outstanding h' = probes_outstanding h \<and>
    max_tryno c h' = max_tryno c h)"
  unfolding dismissBench_def
  by (rule delivers_if, use assms in simp, rule delivers_bind[OF dismiss_n_delivers[OF assms refl]])
    (auto simp: hg_inv_bench_tryno max_tryno_def)

lemma retransmitBench_delivers:
  assumes "hg_inv c k (h, g)" "bench_tryno h < max_tryno c h"
  shows "delivers (retransmitBench h) (\<lambda>h'. hg_inv c k (h', g) \<and> probe_bench h' = [] \<and> probes_outstanding h' = probes_outstanding h \<and>
    max_tryno c h' = max_tryno c h)"
proof (cases "probe_bench h = []")
  case False
  define h' where "h' = h\<lparr>retry_stack := retry_stack h @ probe_bench h,
    retry_stack_tries := retry_stack_tries h @ replicate (length (probe_bench h)) (bench_tryno h mod 256), probe_bench := [], bench_tryno := 0\<rparr>"
  note inv = assms(1)[unfolded hg_inv_unfold]
  have m: "max_tryno c h' = max_tryno c h" by (simp add: h'_def max_tryno_def)
  have "bench_tryno h mod 256 < max_tryno c h" using assms(2) by (meson le_less_trans mod_less_eq_dividend)
  moreover have "\<not> ping_scan c" using inv False assms(2) by (auto simp: queue_inv_def)
  ultimately have "queue_inv c h'" using inv unfolding queue_inv_def m by (auto simp: h'_def)
  then have "hg_inv c k (h', g)" using inv m unfolding hg_inv_unfold by (simp add: h'_def)
  moreover have "retransmitBench h = Some h'" using False inv by (simp add: retransmitBench_def h'_def queue_inv_def Let_def)
  ultimately show ?thesis using m by (simp add: h'_def)
qed (use assms in \<open>simp add: retransmitBench_def\<close>)

section \<open>The limit of the try numbers\<close>

lemma freshPortsLeft_total: "ultra_scantype c \<Longrightarrow> \<exists>n. freshPortsLeft c h = Some n"
  using fresh_port_scan[of c h] fresh_ping_scan[of c h] by (cases "ping_scan c") (auto simp: scan_kind_defs)

lemma all_finished_total: "n_active ps = 0 \<Longrightarrow> \<exists>b. all_finished m ps = Some b"
  by (induction ps) (auto simp: n_active_def split: if_splits)

lemma mayincrease_inv:
  "hg_inv c k (h1, g) \<Longrightarrow> hg_inv c k (h1\<lparr>tryno_mayincrease := b\<rparr>, g)"
  "same_probes h h1 \<Longrightarrow> same_probes h (h1\<lparr>tryno_mayincrease := b\<rparr>)"
  by (simp_all add: hg_inv_unfold same_probes_def frame_def queues_same_def)

lemma allowedTryno_delivers:
  assumes "cfg_ok c" "hg_inv c k (h, g)"
  shows "delivers (allowedTryno c h) (\<lambda>(m, capped, mayinc, h'). m = max_tryno c h \<and> hg_inv c k (h', g) \<and> same_probes h h')"
proof -
  define h1 where "h1 = (if tryno_capped c h then h\<lparr>tryno_mayincrease := False\<rparr> else h)"
  have h1: "hg_inv c k (h1, g)" "same_probes h h1" using assms(2) by (simp_all add: h1_def hg_inv_unfold same_probes_def frame_def queues_same_def)
  obtain n where n: "freshPortsLeft c (cur h1) = Some n" using freshPortsLeft_total assms(1) unfolding cfg_ok_def by blast
  have f: "delivers (if tryno_mayincrease h1 \<and> num_probes_active h1 = 0 \<and> n = 0
        then do { f \<leftarrow> all_finished (max_tryno c h) (probes_outstanding h1); Some (if f then h1\<lparr>tryno_mayincrease := False\<rparr> else h1) }
        else Some h1) (\<lambda>h'. hg_inv c k (h', g) \<and> same_probes h h')"
  proof (rule delivers_if)
    assume "tryno_mayincrease h1 \<and> num_probes_active h1 = 0 \<and> n = 0"
    then obtain b where "all_finished (max_tryno c h) (probes_outstanding h1) = Some b"
      using all_finished_total h1(1) by (metis hg_inv_unfold of_nat_eq_0_iff)
    then show "delivers (do { f \<leftarrow> all_finished (max_tryno c h) (probes_outstanding h1); Some (if f then h1\<lparr>tryno_mayincrease := False\<rparr> else h1) })
        (\<lambda>h'. hg_inv c k (h', g) \<and> same_probes h h')"
      using h1 mayincrease_inv by (simp add: delivers_def)
  qed (use h1 in simp)
  show ?thesis unfolding allowedTryno_def Let_def h1_def[symmetric] n bind.bind_lunit by (rule delivers_bind[OF f]) simp
qed

section \<open>Results\<close>

lemma consider_pingprobe_same:
  "same_probes h (consider_pingprobe b p s h)" "timing (consider_pingprobe b p s h) = timing h"
  by (simp_all add: consider_pingprobe_def same_probes_def frame_def queues_same_def)

lemma consider_pingprobe_inv:
  assumes "hg_inv c k (h, g)" "buildable c p"
  shows "hg_inv c k (consider_pingprobe b p s h, g)"
proof -
  have b: "pingprobe_is_better p s q t \<Longrightarrow> ps_type p \<noteq> PS_ICMPV6" for q t by (auto simp: pingprobe_is_better_def pingprobe_score_def)
  show ?thesis by (rule same_probes_inv[OF assms(1) consider_pingprobe_same(1)])
    (use assms b in \<open>auto simp: consider_pingprobe_def target_inv_def hg_inv_unfold\<close>)
qed

lemma probe_buildable:
  assumes "hg_inv c k (h, g)" "j < length (probes_outstanding h)"
  shows "buildable c (mypspec (probes_outstanding h ! j))"
  using assms probes_inv_nth[of c "max_tryno c h" "probes_outstanding h" j] by (simp add: hg_inv_unfold probe_ok_def)

text \<open>The end of every update: statistics are adjusted, then the probe is deleted.\<close>

lemma adjust_timing_same:
  assumes "cfg_ok c" "hg_inv c k hg" "same_probes h (fst hg)"
  shows "delivers (if b then ultrascan_adjust_timing c now p rcvd hg else Some hg) (\<lambda>hg'. hg_inv c k hg' \<and> same_probes h (fst hg'))"
  using assms by (auto intro!: delivers_if delivers_mono[OF adjust_timing_delivers[OF assms(1,2)]] intro: same_probes_trans)

lemma adjust_timeouts_same:
  assumes "cfg_ok c" "hg_inv c k hg" "same_probes h (fst hg)"
  shows "delivers (ultrascan_adjust_timeouts c p rcvd hg) (\<lambda>hg'. hg_inv c k hg' \<and> same_probes h (fst hg'))"
  using assms by (auto intro!: delivers_mono[OF adjust_timeouts_delivers[OF assms(1,2)]] intro: same_probes_trans)

lemma destroy_same:
  assumes "hg_inv c k hg" "same_probes h (fst hg)" "j < length (probes_outstanding h)"
  shows "delivers (destroyOutstandingProbe j hg) (\<lambda>hg'. hg_inv c k hg' \<and> frame h (fst hg') \<and> probes_outstanding (fst hg') = remove_nth j (probes_outstanding h))"
proof -
  note s = same_probes_fields[OF assms(2)]
  have "j < length (probes_outstanding (fst hg))" using s(1) assms(3) by simp
  from destroy_delivers[OF assms(1) this] show ?thesis by (rule delivers_mono) (use s in \<open>auto intro: frame_trans\<close>)
qed

lemma ping_update_delivers:
  assumes "cfg_ok c" "hg_inv c k hg" "j < length (probes_outstanding (fst hg))"
  shows "delivers (ultrascan_ping_update c now j rcvd adjust hg) (\<lambda>hg'. hg_inv c k hg' \<and> frame (fst hg) (fst hg') \<and>
    probes_outstanding (fst hg') = remove_nth j (probes_outstanding (fst hg)))"
  using assms(3) unfolding ultrascan_ping_update_def Let_def
  by (simp, intro delivers_bind[OF adjust_timeouts_same[OF assms(1,2) same_probes_refl]] delivers_bind[OF adjust_timing_same[OF assms(1)]])
    (auto intro: destroy_same)

lemma host_probe_update_delivers:
  assumes "cfg_ok c" "hg_inv c k hg" "j < length (probes_outstanding (fst hg))" "newstate = HOST_UP \<or> newstate = HOST_DOWN"
  shows "delivers (ultrascan_host_probe_update c now j newstate rcvd hint hg) (\<lambda>hg'. hg_inv c k hg' \<and> frame (fst hg) (fst hg') \<and>
    probes_outstanding (fst hg') = remove_nth j (probes_outstanding (fst hg)))"
proof -
  obtain h g where hg: "hg = (h, g)" by (cases hg)
  note a = assms(2,3)[unfolded hg fst_conv]
  have bd: "buildable c (mypspec (probes_outstanding h ! j))" using probe_buildable[OF a] .
  show ?thesis unfolding ultrascan_host_probe_update_def Let_def hg fst_conv snd_conv
  proof (simp only: a(2) not_True_eq_False if_False,
      intro delivers_bind[OF host_pspec_update_delivers[OF assms(4) a(1)]], elim conjE,
      intro delivers_bind[OF adjust_timeouts_same[OF assms(1)]], simp_all only: fst_conv, elim conjE,
      intro delivers_bind[OF adjust_timing_same[OF assms(1)]], simp_all only: fst_conv, elim conjE)
    fix hg3 :: hg
    assume "hg_inv c k hg3" "same_probes h (fst hg3)"
    then show "delivers (case hg3 of (h3, g3) \<Rightarrow> destroyOutstandingProbe j (consider_pingprobe b (mypspec (probes_outstanding h ! j)) s h3, g3))
       (\<lambda>hg'. hg_inv c k hg' \<and> frame h (fst hg') \<and> probes_outstanding (fst hg') = remove_nth j (probes_outstanding h))" for b s
      using a(2) bd by (cases hg3) (auto intro!: destroy_same consider_pingprobe_inv intro: same_probes_trans[OF _ consider_pingprobe_same(1)])
  qed
qed

section \<open>Ports\<close>

lemma state_override_total: "old \<in> {1, 2, 3, 4, 6, 7} \<Longrightarrow> \<exists>b. state_override n old new = Some b"
  by (auto simp: state_override_def)

lemma known_states_set:
  assumes "known_states pl" "pstate q \<in> {1, 2, 3, 6, 7}"
  shows "known_states (add_count p s n (set_slot p i (Some q) (add_count p s' n' pl)))"
  using assms set_update_subset_insert[of "slots pl p" i "Some q"] by (auto simp: known_states_def split: if_splits)

lemma port_pspec_update_delivers:
  assumes "hg_inv c k (h, g)" "\<not> ping_scan c" "pspec_ok c ps" "newstate \<in> {1, 2, 3, 6, 7}"
  shows "delivers (ultrascan_port_pspec_update c ps newstate h) (\<lambda>h'. hg_inv c k (h', g) \<and> same_probes h h')"
proof -
  obtain no pr where p: "pspec_port c ps = Some (no, pr)" "scanned (statics c) pr no" using assms(2,3) by (auto simp: pspec_ok_def)
  let ?t = "tports (target h)" let ?q = "INPROTO2PORTLISTPROTO pr"
  have ok: "pl_ok (statics c) ?t" "known_states ?t" using assms(1) by (simp_all add: hg_inv_unfold target_inv_def)
  obtain i where i: "mapPort (statics c) ?t no pr = Some (i, ?q)" "i < length (slots ?t ?q)" using mapPort_scanned[OF ok(1) p(2)] by auto
  define e where "e = slots ?t ?q ! i"
  have l: "lookupPort (statics c) ?t no pr = Some e" using i by (simp add: lookupPort_def e_def)
  have st: "e = Some x \<Longrightarrow> pstate x \<in> {1, 2, 3, 6, 7}" for x using ok(2) nth_mem[OF i(2)] unfolding known_states_def e_def by metis
  define h1 where "h1 = (if e = None then h\<lparr>ports_finished := ports_finished h + 1\<rparr> else h)"
  define old where "old = (case e of None \<Rightarrow> PORT_TESTING | Some x \<Rightarrow> pstate x)"
  obtain b where b: "state_override (noresp_open_scan c) old newstate = Some b"
    using state_override_total[of old] st by (fastforce simp: old_def split: option.splits)
  have h1: "hg_inv c k (h1, g)" "same_probes h h1" "target h1 = target h" using assms(1) by (simp_all add: h1_def hg_inv_unfold same_probes_def frame_def queues_same_def)
  have "newstate \<in> {1, 2, 3, 6, 7, 8}" using assms(4) by auto
  then obtain pl where pl: "setPortState (statics c) no pr newstate ?t = Some pl" "pl_ok (statics c) pl" "known_states pl"
    using setPortState_scanned[OF ok(1) p(2) _ refl, of newstate] setPortState_ok[OF ok(1) p(2), of newstate] known_states_set[OF ok(2)] assms(4)
    by (metis option.inject)
  have "hg_inv c k (h1\<lparr>target := (target h1)\<lparr>tports := pl\<rparr>\<rparr>, g)"
    using h1(1,3) pl(2,3) by (simp add: hg_inv_unfold target_inv_def)
  moreover have "same_probes h (h1\<lparr>target := (target h1)\<lparr>tports := pl\<rparr>\<rparr>)" using h1(2) by (simp add: same_probes_def frame_def queues_same_def)
  moreover have "ultrascan_port_pspec_update c ps newstate h = Some (if b then h1\<lparr>target := (target h1)\<lparr>tports := pl\<rparr>\<rparr> else h1)"
    using b pl(1) by (cases e) (simp_all add: ultrascan_port_pspec_update_def p portIsDefault_def getPortState_def l h1_def old_def)
  ultimately show ?thesis using h1 by simp
qed

text \<open>A success at a higher try number raises the limit of the try numbers.\<close>

definition grows :: "scan_cfg \<Rightarrow> hss \<Rightarrow> hss \<Rightarrow> bool" where
  "grows c h h' \<longleftrightarrow> max_tryno c h \<le> max_tryno c h' \<and> probes_outstanding h' = probes_outstanding h \<and> queues_same h h'"

lemma max_tryno_mono: "max_successful_tryno h \<le> max_successful_tryno h' \<Longrightarrow> max_tryno c h \<le> max_tryno c h'"
  by (auto simp: max_tryno_def Let_def)

lemma success_inv:
  assumes "hg_inv c k (h, g)" "\<not> ping_scan c" "max_successful_tryno h \<le> n"
  shows "hg_inv c k (h\<lparr>max_successful_tryno := n\<rparr>, g) \<and> grows c h (h\<lparr>max_successful_tryno := n\<rparr>)"
proof -
  let ?h = "h\<lparr>max_successful_tryno := n\<rparr>"
  have m: "max_tryno c h \<le> max_tryno c ?h" using assms(3) by (intro max_tryno_mono) simp
  note inv = assms(1)[unfolded hg_inv_unfold]
  have "queue_inv c ?h" using inv m assms(2) by (fastforce simp: queue_inv_def)
  then show ?thesis using inv m probes_inv_mono[OF _ m] by (simp add: hg_inv_unfold grows_def queues_same_def)
qed

lemma note_success_inv:
  assumes "hg_inv c k (h, g)" "\<not> ping_scan c"
  shows "hg_inv c k (note_success c now p rcvd h, g) \<and> grows c h (note_success c now p rcvd h)"
proof (cases "rcvd \<noteq> None \<and> tryno p > max_successful_tryno h")
  case True
  let ?h = "h\<lparr>max_successful_tryno := tryno p\<rparr>"
  have s: "hg_inv c k (?h, g)" "grows c h ?h" using success_inv[OF assms, of "tryno p"] True by simp_all
  have "hg_inv c k (boostScanDelay c now ?h, g)"
    by (rule same_probes_inv[OF s(1) boostScanDelay_fields(3)]) (use s(1) in \<open>simp_all add: hg_inv_unfold\<close>)
  moreover have "grows c h (boostScanDelay c now ?h)"
    using s(2) boostScanDelay_fields(3)[of ?h c now] by (auto simp: grows_def same_probes_def dest: frame_max_tryno[of _ _ c] frame_queues intro: queues_same_trans)
  ultimately show ?thesis using True s by (simp add: note_success_def Let_def)
next
  case False
  then have "note_success c now p rcvd h = h" by (auto simp: note_success_def)
  then show ?thesis using assms by (simp add: grows_def)
qed

lemma same_grows: "same_probes h h' \<Longrightarrow> grows c h h'"
  by (auto simp: same_probes_def grows_def dest: frame_max_tryno[of _ _ c] frame_queues)

lemma host_grows_trans: "grows c h h' \<Longrightarrow> grows c h' h'' \<Longrightarrow> grows c h h''"
  by (auto simp: grows_def intro: queues_same_trans)

lemma destroy_grows:
  assumes "hg_inv c k hg" "grows c h (fst hg)" "j < length (probes_outstanding h)"
  shows "delivers (destroyOutstandingProbe j hg) (\<lambda>hg'. hg_inv c k hg' \<and> max_tryno c h \<le> max_tryno c (fst hg') \<and> queues_same h (fst hg') \<and>
    probes_outstanding (fst hg') = remove_nth j (probes_outstanding h))"
proof -
  have "j < length (probes_outstanding (fst hg))" using assms(2,3) by (simp add: grows_def)
  from destroy_delivers[OF assms(1) this] show ?thesis
    by (rule delivers_mono) (use assms(2) in \<open>auto simp: grows_def dest: frame_max_tryno[of _ _ c] frame_queues intro: queues_same_trans\<close>)
qed

lemma adjust_success:
  assumes "cfg_ok c" "\<not> ping_scan c" "hg_inv c k hg" "same_probes h (fst hg)"
  shows "delivers (if b then map_option (\<lambda>(h, g). (note_success c now p rcvd h, g)) (ultrascan_adjust_timing c now p rcvd hg) else Some hg)
      (\<lambda>hg'. hg_inv c k hg' \<and> grows c h (fst hg'))"
proof (rule delivers_if)
  show "delivers (Some hg) (\<lambda>hg'. hg_inv c k hg' \<and> grows c h (fst hg'))" using assms(3,4) same_grows by simp
  have "hg_inv c k (case hg' of (h, g) \<Rightarrow> (note_success c now p rcvd h, g)) \<and> grows c h (fst (case hg' of (h, g) \<Rightarrow> (note_success c now p rcvd h, g)))"
    if "hg_inv c k hg' \<and> same_probes (fst hg) (fst hg')" for hg'
  proof -
    obtain h1 g1 where hg': "hg' = (h1, g1)" by (cases hg')
    have "grows c h h1" using that assms(4) same_grows host_grows_trans unfolding hg' by fastforce
    then show ?thesis using note_success_inv[of c k h1 g1 now p rcvd] that assms(2) host_grows_trans unfolding hg' by fastforce
  qed
  then show "delivers (map_option (\<lambda>(h, g). (note_success c now p rcvd h, g)) (ultrascan_adjust_timing c now p rcvd hg)) (\<lambda>hg'. hg_inv c k hg' \<and> grows c h (fst hg'))"
    by (intro delivers_map delivers_mono[OF adjust_timing_delivers[OF assms(1,3)]])
qed

lemma port_probe_update_delivers:
  assumes "cfg_ok c" "hg_inv c k hg" "j < length (probes_outstanding (fst hg))" "\<not> ping_scan c" "newstate \<in> {1, 2, 3, 6, 7}"
    "pspec_ok c (mypspec (probes_outstanding (fst hg) ! j))"
  shows "delivers (ultrascan_port_probe_update c now j newstate rcvd hint hg) (\<lambda>hg'. hg_inv c k hg' \<and>
    max_tryno c (fst hg) \<le> max_tryno c (fst hg') \<and> queues_same (fst hg) (fst hg') \<and> probes_outstanding (fst hg') = remove_nth j (probes_outstanding (fst hg)))"
proof -
  obtain h g where hg: "hg = (h, g)" by (cases hg)
  note a = assms(2,3,6)[unfolded hg fst_conv]
  have bd: "buildable c (mypspec (probes_outstanding h ! j))" using probe_buildable[OF a(1,2)] .
  show ?thesis unfolding ultrascan_port_probe_update_def Let_def hg fst_conv snd_conv
  proof (simp only: a(2) not_True_eq_False if_False,
      intro delivers_bind[OF port_pspec_update_delivers[OF a(1) assms(4) a(3) assms(5)]], elim conjE,
      intro delivers_bind[OF adjust_timeouts_same[OF assms(1)]], simp_all only: fst_conv, elim conjE,
      intro delivers_bind[OF adjust_success[OF assms(1,4)]], simp_all only: fst_conv, elim conjE)
    fix hg3 :: hg
    assume "hg_inv c k hg3" "grows c h (fst hg3)"
    then show "delivers (case hg3 of (h3, g3) \<Rightarrow> destroyOutstandingProbe j (consider_pingprobe b (mypspec (probes_outstanding h ! j)) s h3, g3))
       (\<lambda>hg'. hg_inv c k hg' \<and> max_tryno c h \<le> max_tryno c (fst hg') \<and> queues_same h (fst hg') \<and> probes_outstanding (fst hg') = remove_nth j (probes_outstanding h))" for b s
      using a(2) bd by (cases hg3) (auto intro!: destroy_grows consider_pingprobe_inv intro: host_grows_trans[OF _ same_grows[OF consider_pingprobe_same(1)]])
  qed
qed

section \<open>Sending\<close>

lemma group_probeSent_ok:
  assumes "group_inv c g" "tval_ok now"
  shows "delivers (group_probeSent c now n g) (\<lambda>g'. group_inv c g' \<and> g_active g' = g_active g)"
proof -
  have m: "meter_ok (packet_meter (send_rate_meter g))" "meter_ok (byte_meter (send_rate_meter g))" using assms(1) by (simp_all add: group_inv_def)
  obtain p where p: "RateMeter_update 1 now (packet_meter (send_rate_meter g)) = Some p" "meter_ok p"
    using RateMeter_update_ok[OF m(1) _ assms(2), of 1] by auto
  have rate: "0 \<le> max_packet_send_rate c" "rate_paced c (send_no_earlier_than g) (packet_meter (send_rate_meter g))"
    using assms(1) by (simp_all add: group_inv_def)
  have "0 \<le> send_interval c" using rate(1) by (simp add: send_interval_def trunc_rat_def)
  then have r: "rate_paced c (if max_packet_send_rate c \<noteq> 0 then TIMEVAL_ADD (send_no_earlier_than g) (trunc_rat (1000000 / max_packet_send_rate c))
      else send_no_earlier_than g) p"
    using rate(2) TIMEVAL_ADD_usecs[of "send_no_earlier_than g" "send_interval c"] RateMeter_update_start[OF p(1)]
    by (auto simp: rate_paced_def algebra_simps simp flip: send_interval_def)
  obtain b where b: "RateMeter_update (of_nat n) now (byte_meter (send_rate_meter g)) = Some b" "meter_ok b"
    using RateMeter_update_ok[OF m(2) _ assms(2), of "of_nat n"] by auto
  show ?thesis using assms(1) p b r by (auto simp: group_probeSent_def PacketRateMeter_update_def Let_def group_inv_def split: if_splits)
qed

lemma probeSent_delivers:
  assumes "hg_inv c k hg" "tval_ok now"
  shows "delivers (probeSent c now n hg) (\<lambda>hg'. hg_inv c k hg' \<and> same_probes (fst hg) (fst hg'))"
proof -
  obtain h g where hg: "hg = (h, g)" by (cases hg)
  have "group_inv c g" using assms(1) by (simp add: hg hg_inv_unfold)
  from group_probeSent_ok[OF this assms(2)] show ?thesis unfolding probeSent_def hg prod.case
    by (rule delivers_bind) (use assms(1) in \<open>simp add: hg hg_inv_unfold same_probes_def frame_def queues_same_def\<close>)
qed

lemma probesSent_delivers:
  assumes "hg_inv c k hg" "tval_ok now"
  shows "delivers (probesSent c now lens hg) (\<lambda>hg'. hg_inv c k hg' \<and> same_probes (fst hg) (fst hg'))"
  using assms(1)
proof (induction lens arbitrary: hg)
  case (Cons n ns)
  show ?case unfolding probesSent.simps
    by (rule delivers_bind[OF probeSent_delivers[OF Cons.prems assms(2)]], rule delivers_mono[OF Cons.IH]) (auto intro: same_probes_trans)
qed simp

text \<open>A new probe is active and is at the end of the list.\<close>

definition spec_sendable :: "scan_cfg \<Rightarrow> nat \<Rightarrow> probespec \<Rightarrow> bool" where
  "spec_sendable c seq ps \<longleftrightarrow> ps_type ps \<noteq> PS_NONE \<and> buildable c ps \<and> (seq mod 256 = 0 \<longrightarrow> pspec_ok c ps)"

lemma new_probe_ok:
  assumes "spec_sendable c seq ps" "try \<le> m" "ty = kind_of ps" "numbered c (new_probe ty ps try seq now w)"
  shows "probe_ok c m (new_probe ty ps try seq now w)"
proof -
  have "try mod 256 \<le> m" using assms(2) by (meson le_trans mod_less_eq_dividend)
  then show ?thesis using assms by (simp add: probe_ok_def new_probe_def spec_sendable_def isPing_def)
qed

lemma new_probe_numbered:
  "ty \<noteq> UP_IP \<Longrightarrow> numbered c (new_probe ty ps try seq now w)"
  "raw_wire c v6 ps (try mod 256) (seq mod 256) rnd = Some w \<Longrightarrow> numbered c (new_probe ty ps try seq now w)"
  by (auto simp: numbered_def new_probe_def raw_wire_def Let_def split: option.splits if_splits bind_splits)

lemma push_probe_inv:
  assumes "hg_inv c k hg" "probe_ok c (max_tryno c (fst hg)) p" "\<not> timedout p"
  shows "hg_inv c k (push_probe p hg)" "probes_outstanding (fst (push_probe p hg)) = probes_outstanding (fst hg) @ [p]"
    "frame (fst hg) (fst (push_probe p hg))"
proof -
  obtain h g where hg: "hg = (h, g)" by (cases hg)
  note inv = assms(1)[unfolded hg hg_inv_unfold]
  have "n_active (probes_outstanding h @ [p]) = n_active (probes_outstanding h) + 1" "n_waiting (probes_outstanding h @ [p]) = n_waiting (probes_outstanding h)"
    using assms(3) by (simp_all add: n_active_def n_waiting_def)
  moreover have "probes_inv c (max_tryno c h) (probes_outstanding h @ [p])" using inv assms(2) by (simp add: probes_inv_def hg)
  ultimately show "hg_inv c k (push_probe p hg)" using inv by (simp add: hg push_probe_def hg_inv_unfold group_inv_def)
qed (cases hg; simp add: push_probe_def frame_def queues_same_def)+

text \<open>In a ping scan, a connection that is made or refused at once finds the host up.\<close>

definition up_result :: "scan_cfg \<Rightarrow> connect_errno \<Rightarrow> bool" where
  "up_result c e \<longleftrightarrow> (case connect_states c e of Some (newhost, _, _) \<Rightarrow> newhost = HOST_UP | None \<Rightarrow> False)"

definition finds_host_up :: "scan_cfg \<Rightarrow> send_result \<Rightarrow> bool" where
  "finds_host_up c r \<longleftrightarrow> ping_scan c \<and>
     (case r of Conn con \<Rightarrow> con_errno con \<noteq> E_INPROGRESS \<and> con_errno con \<noteq> E_AGAIN \<and> up_result c (con_errno con) | _ \<Rightarrow> False)"

definition sent_ok :: "scan_cfg \<Rightarrow> send_result \<Rightarrow> nat \<Rightarrow> hss \<Rightarrow> hss \<Rightarrow> bool" where
  "sent_ok c r tn h h' \<longleftrightarrow> max_tryno c h \<le> max_tryno c h' \<and> queues_same h h' \<and>
     (returns_probe r \<longrightarrow> length (probes_outstanding h') = Suc (length (probes_outstanding h))) \<and>
     (\<not> finds_host_up c r \<longrightarrow> probes_outstanding h' = probes_outstanding h \<or>
        (\<exists>x. probes_outstanding h' = probes_outstanding h @ [x] \<and> tryno x = tn mod 256))"

lemma sendRawProbe_delivers:
  assumes "hg_inv c k hg" "tval_ok now" "spec_sendable c seq ps" "tn \<le> max_tryno c (fst hg)" "ty = kind_of ps"
    "returns_probe r" "numbered c (new_probe ty ps tn seq now w)"
  shows "delivers (sendRawProbe c now ty ps tn seq lens w hg) (\<lambda>hg'. hg_inv c k hg' \<and> sent_ok c r tn (fst hg) (fst hg'))"
  unfolding sendRawProbe_def
proof (rule delivers_bind[OF probesSent_delivers[OF assms(1,2)]], elim conjE)
  fix hg1 :: hg
  let ?p = "new_probe ty ps tn seq now w"
  assume h: "hg_inv c k hg1" "same_probes (fst hg) (fst hg1)"
  note s = same_probes_fields[OF h(2)]
  have "probe_ok c (max_tryno c (fst hg1)) ?p" using new_probe_ok[OF assms(3) _ assms(5,7)] assms(4) frame_max_tryno[OF s(4)] by simp
  note q = push_probe_inv[OF h(1) this]
  have "\<not> timedout ?p" by (simp add: new_probe_def)
  from q[OF this] s show "delivers (Some (push_probe ?p hg1)) (\<lambda>hg'. hg_inv c k hg' \<and> sent_ok c r tn (fst hg) (fst hg'))"
    using assms(6) by (auto simp: sent_ok_def frame_max_tryno[of _ _ c] s(1) new_probe_def intro: queues_same_trans frame_queues)
qed

subsection \<open>The reason of a state\<close>

text \<open>After a result the port is in the table of the host, so the reason can be noted without creating it.\<close>

definition has_port :: "scan_cfg \<Rightarrow> hss \<Rightarrow> nat \<Rightarrow> nat \<Rightarrow> bool" where
  "has_port c h no pr \<longleftrightarrow> (\<exists>q. lookupPort (statics c) (tports (target h)) no pr = Some (Some q))"

lemma adjust_keeps_ports:
  "ultrascan_adjust_timeouts c p rcvd hg = Some hg' \<Longrightarrow> tports (target (fst hg')) = tports (target (fst hg))"
  "ultrascan_adjust_timing c now p rcvd hg = Some hg' \<Longrightarrow> tports (target (fst hg')) = tports (target (fst hg))"
   apply (cases hg; cases rcvd; auto simp: ultrascan_adjust_timeouts_def Option.bind_eq_Some_conv)
  apply (cases hg; clarsimp simp: ultrascan_adjust_timing_def Let_def Option.bind_eq_Some_conv split del: if_split)
  apply (simp split: if_split)
  done

lemma counters_keep_ports:
  "dec_active hg = Some hg' \<Longrightarrow> tports (target (fst hg')) = tports (target (fst hg))"
  "dec_waiting hg = Some hg' \<Longrightarrow> tports (target (fst hg')) = tports (target (fst hg))"
  "clear_csi s hg = Some hg' \<Longrightarrow> tports (target (fst hg')) = tports (target (fst hg))"
  by (cases hg; auto simp: dec_active_def dec_waiting_def clear_csi_def Option.bind_eq_Some_conv split: if_splits)+

lemma destroy_keeps_ports:
  "destroyOutstandingProbe j hg = Some hg' \<Longrightarrow> tports (target (fst hg')) = tports (target (fst hg))"
  by (simp add: destroyOutstandingProbe_def Let_def Option.bind_eq_Some_conv split: if_split_asm; fastforce dest: counters_keep_ports)

lemma port_probe_update_ports:
  assumes "ultrascan_port_probe_update c now j s rcvd hint (h, g) = Some (h', g')"
  shows "\<exists>h1. ultrascan_port_pspec_update c (mypspec (probes_outstanding h ! j)) s h = Some h1 \<and> tports (target h') = tports (target h1)"
proof -
  have n: "tports (target (note_success c now p r x)) = tports (target x)" for p r x by (simp add: note_success_def Let_def)
  have q: "tports (target (consider_pingprobe b ps st x)) = tports (target x)" for b ps st x by (simp add: consider_pingprobe_def)
  show ?thesis using assms unfolding ultrascan_port_probe_update_def Let_def
    by (auto simp: n q Option.bind_eq_Some_conv dest!: destroy_keeps_ports adjust_keeps_ports split: if_splits)
qed

lemma port_pspec_update_has_port:
  assumes "ultrascan_port_pspec_update c ps s h = Some h1" "pspec_port c ps = Some (no, pr)" "pl_ok (statics c) (tports (target h))"
    "scanned (statics c) pr no" "s \<in> {1, 2, 3, 6, 7}"
  shows "has_port c h1 no pr"
proof -
  let ?t = "tports (target h)" let ?q = "INPROTO2PORTLISTPROTO pr"
  have "s \<in> {1, 2, 3, 6, 7, 8}" using assms(5) by auto
  then obtain i q where q: "setPortState (statics c) no pr s ?t = Some (add_count ?q s 1 (set_slot ?q i (Some q) (add_count ?q (effective ?t ?q (slots ?t ?q ! i)) (-1) ?t)))"
    "mapPort (statics c) ?t no pr = Some (i, ?q)" "i < length (slots ?t ?q)"
    using setPortState_scanned[OF assms(3,4) _ refl] by blast
  have sh: "shape_ok (statics c) ?t" using assms(3) by (simp add: pl_ok_def)
  show ?thesis using assms(1,2) q sh
    by (cases "slots ?t ?q ! i") (auto simp: ultrascan_port_pspec_update_def portIsDefault_def getPortState_def lookupPort_def has_port_def state_override_def
        mapPort_set_slot split: if_splits)
qed

lemma set_reason_delivers:
  assumes "hg_inv c k hg" "scanned (statics c) pr no" "has_port c (fst hg) no pr"
  shows "delivers (set_reason c no pr r ttl hg) (\<lambda>hg'. hg_inv c k hg' \<and> same_probes (fst hg) (fst hg'))"
proof -
  obtain h g where hg: "hg = (h, g)" by (cases hg)
  let ?t = "tports (target h)" let ?p = "INPROTO2PORTLISTPROTO pr"
  have ok: "pl_ok (statics c) ?t" "known_states ?t" using assms(1) by (simp_all add: hg hg_inv_unfold target_inv_def)
  obtain i where i: "mapPort (statics c) ?t no pr = Some (i, ?p)" "i < length (slots ?t ?p)" "the (port_map_rev (statics c) ?p) ! i = no"
    using mapPort_scanned[OF ok(1) assms(2)] by auto
  obtain pl where pl: "setStateReason (statics c) no pr r ttl ?t = Some pl" "pl_ok (statics c) pl"
    using setStateReason_ok[OF ok(1) assms(2)] by blast
  obtain q where q: "pl = set_slot ?p i (Some q) ?t" "pstate q = effective ?t ?p (slots ?t ?p ! i)"
    using setStateReason_scanned[OF ok(1) i(1,2) refl i(3), of r ttl] pl(1) by auto
  obtain x where x: "slots ?t ?p ! i = Some x" using assms(3) i(1) by (auto simp: has_port_def lookupPort_def hg)
  then have "Some x \<in> set (slots ?t ?p)" using nth_mem[OF i(2)] by simp
  then have "pstate q \<in> {1, 2, 3, 6, 7}" using ok(2) x q(2) by (simp add: known_states_def effective_def)
  then have "known_states pl" using ok(2) set_update_subset_insert[of "slots ?t ?p" i "Some q"] unfolding q(1) by (auto simp: known_states_def split: if_splits)
  then show ?thesis using assms(1) pl by (simp add: set_reason_def hg hg_inv_unfold target_inv_def same_probes_def frame_def queues_same_def)
qed

text \<open>A result for a port with its reason.\<close>

lemma port_result_delivers:
  assumes "cfg_ok c" "hg_inv c k hg" "j < length (probes_outstanding (fst hg))" "\<not> ping_scan c" "newstate \<in> {1, 2, 3, 6, 7}"
    "pspec_ok c (mypspec (probes_outstanding (fst hg) ! j))" "pspec_port c (mypspec (probes_outstanding (fst hg) ! j)) = Some (no, pr)"
  shows "delivers (do { hg1 \<leftarrow> ultrascan_port_probe_update c now j newstate rcvd hint hg; set_reason c no pr r ttl hg1 }) (\<lambda>hg'. hg_inv c k hg' \<and>
    max_tryno c (fst hg) \<le> max_tryno c (fst hg') \<and> queues_same (fst hg) (fst hg') \<and> probes_outstanding (fst hg') = remove_nth j (probes_outstanding (fst hg)))"
proof -
  obtain h g where hg: "hg = (h, g)" by (cases hg)
  have sc: "scanned (statics c) pr no" using assms(4,6,7) by (simp add: pspec_ok_def)
  obtain hg1 where u: "ultrascan_port_probe_update c now j newstate rcvd hint hg = Some hg1" "hg_inv c k hg1"
      "max_tryno c h \<le> max_tryno c (fst hg1)" "queues_same h (fst hg1)" "probes_outstanding (fst hg1) = remove_nth j (probes_outstanding h)"
    using port_probe_update_delivers[OF assms(1-6), of now rcvd hint] unfolding delivers_def hg fst_conv by blast
  obtain h1 where h1: "ultrascan_port_pspec_update c (mypspec (probes_outstanding h ! j)) newstate h = Some h1" "tports (target (fst hg1)) = tports (target h1)"
    using port_probe_update_ports[of c now j newstate rcvd hint h g "fst hg1" "snd hg1"] u(1) by (auto simp: hg)
  have "pl_ok (statics c) (tports (target h))" using assms(2) by (simp add: hg hg_inv_unfold target_inv_def)
  from port_pspec_update_has_port[OF h1(1) assms(7)[unfolded hg fst_conv] this sc assms(5)] have "has_port c (fst hg1) no pr" by (simp add: has_port_def h1(2))
  from set_reason_delivers[OF u(2) sc this] show ?thesis unfolding u(1) bind.bind_lunit
    by (rule delivers_mono) (use u in \<open>auto simp: hg same_probes_def frame_max_tryno dest: frame_queues intro: queues_same_trans\<close>)
qed

subsection \<open>Results of connections\<close>

lemma connect_states_cases:
  assumes "connect_states c e = Some (nh, np, r)"
  shows "nh \<in> {0, 1, 2}" "np \<in> {0, 1, 2, 3}"
  using assms by (auto simp: connect_states_def split: connect_errno.splits)

text \<open>The result is one that the code knows, and that of a ping probe in a port scan tells the state of the host.\<close>

definition result_known :: "scan_cfg \<Rightarrow> bool \<Rightarrow> connect_errno \<Rightarrow> bool" where
  "result_known c ping e \<longleftrightarrow> connect_states c e \<noteq> None \<and> \<not> (ping \<and> \<not> ping_scan c \<and> e = E_CONNREFUSED \<and> discovery_ignore_rst c)"

definition handled_ok :: "scan_cfg \<Rightarrow> connect_errno \<Rightarrow> nat \<Rightarrow> hss \<Rightarrow> hss \<Rightarrow> bool" where
  "handled_ok c e j h h' \<longleftrightarrow> max_tryno c h \<le> max_tryno c h' \<and> queues_same h h' \<and>
     (probes_outstanding h' = remove_nth j (probes_outstanding h) \<or> (ping_scan c \<and> up_result c e \<and> probes_outstanding h' = []) \<or>
      (\<exists>q. probes_outstanding h' = (probes_outstanding h)[j := q] \<and> tryno q = tryno (probes_outstanding h ! j)))"

lemma handled_frame: "frame h h' \<Longrightarrow> probes_outstanding h' = remove_nth j (probes_outstanding h) \<Longrightarrow> handled_ok c e j h h'"
  by (simp add: handled_ok_def frame_queues frame_max_tryno)

lemma reason_inv: "hg_inv c k (h, g) \<Longrightarrow> hg_inv c k (h\<lparr>target := (target h)\<lparr>t_reason := r\<rparr>\<rparr>, g)"
  by (simp add: hg_inv_unfold target_inv_def)

lemma reason_frame: "frame h (h'\<lparr>target := x\<rparr>) = frame h h'"
  by (simp add: frame_def queues_same_def)

lemma handleConnectResult_delivers:
  assumes "cfg_ok c" "hg_inv c k hg" "j < length (probes_outstanding (fst hg))" "up_type (probes_outstanding (fst hg) ! j) = UP_CONNECT"
    "\<not> timedout (probes_outstanding (fst hg) ! j)" "result_known c (isPing (probes_outstanding (fst hg) ! j)) e"
  shows "delivers (handleConnectResult c now j e self d hg) (\<lambda>hg'. hg_inv c k hg' \<and> handled_ok c e j (fst hg) (fst hg'))"
    (is "delivers _ ?Q")
proof -
  let ?p = "probes_outstanding (fst hg) ! j"
  obtain nh np r where s: "connect_states c e = Some (nh, np, r)" using assms(6) by (auto simp: result_known_def)
  note st = connect_states_cases[OF s]
  have p: "probe_ok c (max_tryno c (fst hg)) ?p" using assms(2,3) probes_inv_nth by (auto simp: hg_inv_def host_inv_def)
  have ping: "delivers (ultrascan_ping_update c now j (Some now) True hg) ?Q"
    by (rule delivers_mono[OF ping_update_delivers[OF assms(1-3)]]) (auto intro: handled_frame)
  have host: "delivers (do { hg1 \<leftarrow> ultrascan_host_probe_update c now j nh (Some now) True hg;
      let hg2 = ((fst hg1)\<lparr>target := (target (fst hg1))\<lparr>t_reason := r\<rparr>\<rparr>, snd hg1);
      if nh = HOST_UP then destroyAllOutstandingProbes hg2 else Some hg2 }) ?Q" if pn: "ping_scan c" "nh \<noteq> 0"
    unfolding Let_def
  proof (rule delivers_bind[OF host_probe_update_delivers[OF assms(1-3)]], use st pn in simp, elim conjE, rule delivers_if)
    fix hg1 :: hg assume h: "hg_inv c k hg1" "frame (fst hg) (fst hg1)" "probes_outstanding (fst hg1) = remove_nth j (probes_outstanding (fst hg))"
    let ?hg2 = "((fst hg1)\<lparr>target := (target (fst hg1))\<lparr>t_reason := r\<rparr>\<rparr>, snd hg1)"
    have h2: "hg_inv c k ?hg2" using reason_inv[of c k "fst hg1" "snd hg1"] h(1) by simp
    show "delivers (destroyAllOutstandingProbes ?hg2) ?Q" if up: "nh = HOST_UP"
      by (rule delivers_mono[OF destroyAll_delivers[OF h2]])
        (use pn s up in \<open>auto simp: handled_ok_def up_result_def dest!: frame_trans[OF h(2)] frame_trans[OF iffD2[OF reason_frame h(2)]] dest: frame_max_tryno[of _ _ c] frame_queues\<close>)
    show "delivers (Some ?hg2) ?Q" using h h2 by (auto intro!: handled_frame simp: reason_frame)
  qed
  have port: "delivers (connect_port_result c now j np r hg) ?Q" if "\<not> ping_scan c" "np \<noteq> 0" "\<not> isPing ?p"
  proof -
    have ps: "pspec_ok c (mypspec ?p)" "ps_type (mypspec ?p) = PS_CONNECTTCP"
      using p that assms(4) by (auto simp: probe_ok_def kind_of_def split: pspectype.splits)
    then have "pspec_port c (mypspec ?p) = Some (pd_dport (ps_pd (mypspec ?p)), ps_proto (mypspec ?p))" by (simp add: pspec_port_def pspec_ok_def)
    from port_result_delivers[OF assms(1-3) that(1) _ ps(1) this, of np] have "delivers (do { hg1 \<leftarrow> ultrascan_port_probe_update c now j np (Some now) True hg;
        set_reason c (pd_dport (ps_pd (mypspec ?p))) (ps_proto (mypspec ?p)) r 0 hg1 }) ?Q"
      by (rule delivers_mono) (use that st in \<open>auto simp: handled_ok_def\<close>)
    then show ?thesis using assms(3) by (simp add: connect_port_result_def Let_def)
  qed
  have mark: "delivers (markProbeTimedout c now j hg) ?Q"
    by (rule delivers_mono[OF markProbeTimedout_delivers[OF assms(1-3,5)]]) (auto simp: handled_ok_def dest: frame_max_tryno[of _ _ c] frame_queues)
  have destroy: "delivers (destroyOutstandingProbe j hg) ?Q"
    by (rule delivers_mono[OF destroy_delivers[OF assms(2,3)]]) (auto intro: handled_frame)
  have same: "handled_ok c e j (fst hg) (fst hg)" by (auto simp: handled_ok_def intro: exI[of _ ?p])
  have np: "np \<noteq> 0 \<Longrightarrow> nh = 0 \<Longrightarrow> e = E_CONNREFUSED \<and> discovery_ignore_rst c" using s by (auto simp: connect_states_def split: connect_errno.splits if_splits)
  have nping: "\<not> (isPing ?p \<and> nh \<noteq> 0) \<Longrightarrow> \<not> ping_scan c \<Longrightarrow> np \<noteq> 0 \<Longrightarrow> \<not> isPing ?p" using np assms(6) by (auto simp: result_known_def)
  have self: "delivers (case self of None \<Rightarrow> Some hg | Some True \<Rightarrow> markProbeTimedout c now j hg
      | Some False \<Rightarrow> connect_port_result c now j np r hg) ?Q"
    if "delivers (connect_port_result c now j np r hg) ?Q"
    using that mark assms(2) same by (auto split: option.split bool.split)
  show ?thesis unfolding handleConnectResult_def Let_def[of "probes_outstanding (fst hg) ! j"] s
    by (simp only: assms(3) not_True_eq_False if_False bind.bind_lunit prod.case)
      (intro delivers_if ping host self port destroy nping; auto simp: assms(2) same)
qed

subsection \<open>Every kind of probe\<close>

definition connection_ok :: "scan_cfg \<Rightarrow> nat \<Rightarrow> connection \<Rightarrow> bool" where
  "connection_ok c seq con \<longleftrightarrow> 0 \<le> con_sd con \<and> (con_errno con \<noteq> E_INPROGRESS \<and> con_errno con \<noteq> E_AGAIN \<longrightarrow> result_known c (0 < seq mod 256) (con_errno con))"

lemma sendConnectScanProbe_delivers:
  assumes "cfg_ok c" "hg_inv c k hg" "tval_ok now" "spec_sendable c seq (connect_spec port)" "tn \<le> max_tryno c (fst hg)" "connection_ok c seq con"
  shows "delivers (sendConnectScanProbe c now port tn seq con hg) (\<lambda>hg'. hg_inv c k hg' \<and> sent_ok c (Conn con) tn (fst hg) (fst hg'))"
    (is "delivers _ ?Q")
  unfolding sendConnectScanProbe_def Let_def
proof (rule delivers_bind[OF probeSent_delivers[OF assms(2,3)]], elim conjE)
  fix hg1 :: hg
  let ?p = "(new_probe UP_CONNECT (connect_spec port) tn seq now (con_alias con))\<lparr>sd := con_sd con\<rparr>"
  let ?n = "length (probes_outstanding (fst hg1))"
  let ?hg2 = "push_probe ?p hg1"
  assume h: "hg_inv c k hg1" "same_probes (fst hg) (fst hg1)"
  note s = same_probes_fields[OF h(2)]
  have "probe_ok c (max_tryno c (fst hg1)) (new_probe UP_CONNECT (connect_spec port) tn seq now (con_alias con))"
    using new_probe_ok[OF assms(4)] assms(5) frame_max_tryno[OF s(4)] new_probe_numbered(1) by (simp add: kind_of_def connect_spec_def tcp_spec_def)
  then have "probe_ok c (max_tryno c (fst hg1)) ?p" by (simp add: probe_ok_def isPing_def) (simp add: new_probe_def)
  note q = push_probe_inv[OF h(1) this]
  have t: "\<not> timedout ?p" by (simp add: new_probe_def)
  note q = q[OF t]
  have pl: "probes_outstanding (fst ?hg2) = probes_outstanding (fst hg) @ [?p]" "?n = length (probes_outstanding (fst hg))" using q(2) s(1) by simp_all
  have m: "max_tryno c (fst ?hg2) = max_tryno c (fst hg)" using q(3) s(4) frame_max_tryno by metis
  have qs: "queues_same (fst hg) (fst ?hg2)" using q(3) s(4) frame_queues queues_same_trans by metis
  have conn: "delivers (handleConnectResult c (con_after con) ?n (con_errno con) (con_self con) True ?hg2) ?Q"
    if "\<not> (con_errno con = E_INPROGRESS \<or> con_errno con = E_AGAIN)"
  proof -
    have k: "?n < length (probes_outstanding (fst ?hg2))" "probes_outstanding (fst ?hg2) ! ?n = ?p" unfolding pl by simp_all
    have "result_known c (isPing ?p) (con_errno con)" using assms(6) that by (simp add: connection_ok_def isPing_def new_probe_def)
    have u: "up_type ?p = UP_CONNECT" by (simp add: new_probe_def)
    have rm: "remove_nth (length xs) (xs @ [?p]) = xs" "(xs @ [?p])[length xs := y] = xs @ [y]" for xs y by (simp_all add: remove_nth_def)
    from handleConnectResult_delivers[OF assms(1) q(1) k(1), unfolded k(2), OF u t \<open>result_known c (isPing ?p) (con_errno con)\<close>]
    show ?thesis
      by (rule delivers_mono) (use that m pl rm qs in \<open>auto simp: sent_ok_def handled_ok_def returns_probe_def finds_host_up_def new_probe_def intro: queues_same_trans\<close>)
  qed
  have watch: "delivers (do { (r, i) \<leftarrow> watchSD (con_sd con) (csi (snd ?hg2)); Some (fst ?hg2, (snd ?hg2)\<lparr>csi := i\<rparr>) }) ?Q"
  proof -
    have "csi_inv (csi (snd ?hg2))" using q(1) by (simp add: hg_inv_def group_inv_def)
    then obtain r i where i: "watchSD (con_sd con) (csi (snd ?hg2)) = Some (r, i)" "csi_inv i"
      using watchSD_ok assms(6) unfolding connection_ok_def by blast
    then have "hg_inv c k (fst ?hg2, (snd ?hg2)\<lparr>csi := i\<rparr>)" using q(1) by (simp add: hg_inv_def group_inv_def)
    then show ?thesis using i m pl qs by (auto simp: sent_ok_def new_probe_def)
  qed
  show "delivers (if con_errno con = E_INPROGRESS \<or> con_errno con = E_AGAIN
      then do { (r, i) \<leftarrow> watchSD (con_sd con) (csi (snd ?hg2)); Some (fst ?hg2, (snd ?hg2)\<lparr>csi := i\<rparr>) }
      else handleConnectResult c (con_after con) ?n (con_errno con) (con_self con) True ?hg2) ?Q"
    by (rule delivers_if[OF watch conn])
qed

text \<open>The outcome fits the kind of the probe.\<close>

definition result_fits :: "scan_cfg \<Rightarrow> nat \<Rightarrow> probespec \<Rightarrow> send_result \<Rightarrow> bool" where
  "result_fits c seq ps r \<longleftrightarrow> (case r of Raw _ _ \<Rightarrow> ps_type ps \<notin> {PS_ARP, PS_ND, PS_CONNECTTCP} | Arp t \<Rightarrow> ps_type ps = PS_ARP \<and> tval_ok t
     | Nd _ \<Rightarrow> ps_type ps = PS_ND | Conn con \<Rightarrow> ps_type ps = PS_CONNECTTCP \<and> connection_ok c seq con)"

lemma connect_spec_sendable:
  assumes "cfg_ok c" "spec_sendable c seq ps" "ps_type ps = PS_CONNECTTCP"
  shows "spec_sendable c seq (connect_spec (pd_dport (ps_pd ps)))"
  using assms by (auto simp: spec_sendable_def pspec_ok_def connect_spec_def tcp_spec_def kind_of_def pspec_port_def buildable_def spec_dport_def)

lemma raw_wire_some:
  assumes "buildable c ps" "try = 0 \<or> seq = 0"
  shows "\<exists>w. raw_wire c v6 ps try seq rnd = Some w"
proof -
  have "\<exists>p. (case magic_port c of Some p \<Rightarrow> Some p | None \<Rightarrow> sport_encode c try seq) = Some p"
    using assms(2) by (cases "magic_port c") (auto simp: sport_encode_def)
  then show ?thesis using assms(1) by (elim exE) (auto simp: raw_wire_def buildable_def Let_def)
qed

lemma sendProbe_delivers:
  assumes "cfg_ok c" "hg_inv c k hg" "tval_ok now" "spec_sendable c seq ps" "tn \<le> max_tryno c (fst hg)" "result_fits c seq ps r"
    "tn = 0 \<or> seq = 0"
  shows "delivers (sendProbe c now ps tn seq r hg) (\<lambda>hg'. hg_inv c k hg' \<and> sent_ok c r tn (fst hg) (fst hg'))"
proof (cases r)
  case (Raw lens rnd)
  then have t: "ps_type ps \<in> {PS_TCP, PS_UDP, PS_SCTP, PS_PROTO, PS_ICMP, PS_ICMPV6}" "ps_type ps \<notin> {PS_ARP, PS_ND, PS_CONNECTTCP}" "kind_of ps = UP_IP"
    using assms(4,6) by (cases "ps_type ps"; simp add: result_fits_def spec_sendable_def kind_of_def)+
  obtain w where w: "raw_wire c (af_inet6 (target (fst hg))) ps (tn mod 256) (seq mod 256) rnd = Some w"
    using raw_wire_some[of c ps "tn mod 256" "seq mod 256" "af_inet6 (target (fst hg))" rnd] assms(4,7) by (auto simp: spec_sendable_def)
  then have "sendProbe c now ps tn seq r hg = sendRawProbe c now UP_IP ps tn seq lens w hg"
    using t by (simp add: sendProbe_def Raw sendIPScanProbe_def)
  then show ?thesis using sendRawProbe_delivers[OF assms(2-5) t(3)[symmetric], of r w lens] new_probe_numbered(2)[OF w] by (simp add: Raw returns_probe_def)
next
  case (Arp t)
  then have "kind_of ps = UP_ARP" "ps_type ps = PS_ARP" "tval_ok t" using assms(6) by (simp_all add: result_fits_def kind_of_def)
  then show ?thesis using sendRawProbe_delivers[OF assms(2) _ assms(4,5), of t UP_ARP r no_wire "[42]"] new_probe_numbered(1)[of UP_ARP]
    by (simp add: sendProbe_def Arp sendArpScanProbe_def returns_probe_def)
next
  case (Nd len)
  then have "kind_of ps = UP_ND" "ps_type ps = PS_ND" using assms(6) by (simp_all add: result_fits_def kind_of_def)
  then show ?thesis using sendRawProbe_delivers[OF assms(2-5), of UP_ND r no_wire "[len]"] new_probe_numbered(1)[of UP_ND]
    by (simp add: sendProbe_def Nd sendNDScanProbe_def returns_probe_def)
next
  case (Conn con)
  then have "ps_type ps = PS_CONNECTTCP" "connection_ok c seq con" using assms(6) by (simp_all add: result_fits_def)
  then show ?thesis using sendConnectScanProbe_delivers[OF assms(1-3) connect_spec_sendable[OF assms(1,4)] assms(5)]
    by (simp add: sendProbe_def Conn)
qed

section \<open>The next probe\<close>

lemma next_ping_pspec_ok:
  assumes "next_ping_probe c af h = Some (ps, h')" "ping_scan c"
  shows "pspec_ok c ps"
  using assms(1) unfolding next_ping_probe_def Let_def
  by (elim if_SomeE) (use assms(2) in \<open>simp_all add: pspec_ok_def buildable_def kind_of_def icmp_spec_def tcp_spec_def udp_spec_def sctp_spec_def proto_spec_def\<close>,
      auto simp: scan_kind_defs only_connect_def)

lemma get_next_pspec_ok:
  assumes "cfg_ok c" "get_next_target_probe c af h = Some (Some (ps, h'))"
  shows "pspec_ok c ps"
proof (cases "ping_scan c")
  case True
  then have n: "\<not> tcp_scan c" "\<not> udp_scan c" "\<not> sctp_scan c" "\<not> prot_scan c" by (auto simp: scan_kind_defs)
  show ?thesis
  proof (cases "ping_scan_arp c \<or> ping_scan_nd c")
    case True
    then show ?thesis using assms(2) n \<open>ping_scan c\<close> by (auto simp: get_next_target_probe_def Let_def pspec_ok_def buildable_def only_connect_def scan_kind_defs kind_of_def split: if_splits)
  next
    case False
    then have "next_ping_probe c af h = Some (ps, h')" using assms(2) n True by (auto simp: get_next_target_probe_def Let_def)
    from next_ping_pspec_ok[OF this True] show ?thesis .
  qed
next
  case False
  have cfg: "ultra_scantype c" "\<And>no. no \<in> set (scan_ports c) \<Longrightarrow>
      scanned (statics c) (if tcp_scan c then 6 else if udp_scan c then 17 else if sctp_scan c then 132 else 0) no"
    using assms(1) False by (simp_all add: cfg_ok_def)
  have mem: "i < length (scan_ports c) \<Longrightarrow> scan_ports c ! i \<in> set (scan_ports c)" for i by simp
  note defs = get_next_target_probe_def Let_def scan_ports_def pspec_ok_def buildable_def spec_dport_def kind_of_def pspec_port_def tcp_spec_def udp_spec_def sctp_spec_def proto_spec_def
  have k: "tcp_scan c \<Longrightarrow> \<not> prot_scan c" "udp_scan c \<Longrightarrow> \<not> prot_scan c \<and> \<not> tcp_scan c" "sctp_scan c \<Longrightarrow> \<not> prot_scan c \<and> \<not> tcp_scan c \<and> \<not> udp_scan c"
    "\<not> ping_scan_arp c" "\<not> ping_scan_nd c" "only_connect c \<Longrightarrow> scantype c = CONNECT_SCAN"
    using False by (auto simp: scan_kind_defs only_connect_def)
  from cfg(1) show ?thesis
    by (cases rule: scan_kinds) (use False k cfg(2)[OF mem] assms(2) in \<open>auto simp: defs not_le scan_kind_defs split: if_splits option.splits\<close>)
qed

lemma send_next_delivers:
  assumes "cfg_ok c" "hg_inv c k (h, g)" "tval_ok now" "pspec_ok c ps" "tn \<le> max_tryno c h" "result_fits c 0 ps r"
  shows "delivers (sendProbe c now ps tn 0 r (count_sent True (h, g))) (\<lambda>hg'. hg_inv c k hg' \<and> sent_ok c r tn h (fst hg'))"
proof -
  have i: "hg_inv c k (count_sent True (h, g))" using assms(2) by (simp add: count_sent_def hg_inv_unfold group_inv_def)
  have "spec_sendable c 0 ps" using assms(4) by (simp add: spec_sendable_def pspec_ok_def)
  from sendProbe_delivers[OF assms(1) i assms(3) this _ assms(6), of tn] show ?thesis using assms(5) by (simp add: count_sent_def sent_ok_def queues_same_def)
qed

definition next_fits :: "scan_cfg \<Rightarrow> hss \<Rightarrow> send_result \<Rightarrow> bool" where
  "next_fits c h r \<longleftrightarrow> (case get_next_target_probe c (af_inet6 (target h)) (cur h) of Some (Some (ps, _)) \<Rightarrow> result_fits c 0 ps r | _ \<Rightarrow> False)"

lemma sendNextScanProbe_delivers:
  assumes "cfg_ok c" "hg_inv c k (h, g)" "tval_ok now" "next_fits c h r"
  shows "delivers (sendNextScanProbe c now r (h, g)) (\<lambda>hg'. hg_inv c k hg' \<and>
    (\<exists>ps cur'. get_next_target_probe c (af_inet6 (target h)) (cur h) = Some (Some (ps, cur')) \<and> sent_ok c r 0 (h\<lparr>cur := cur'\<rparr>) (fst hg')))"
proof -
  obtain ps cur' where q: "get_next_target_probe c (af_inet6 (target h)) (cur h) = Some (Some (ps, cur'))" "result_fits c 0 ps r"
    using assms(4) by (auto simp: next_fits_def split: option.splits)
  have "hg_inv c k (h\<lparr>cur := cur'\<rparr>, g)" using assms(2) by (simp add: hg_inv_unfold)
  from send_next_delivers[OF assms(1) this assms(3) get_next_pspec_ok[OF assms(1) q(1)] _ q(2), of 0] show ?thesis
    by (simp add: sendNextScanProbe_def q(1))
qed

text \<open>While there are fresh ports the generator has a next probe.\<close>

lemma fresh_next:
  assumes "cfg_ok c" "freshPortsLeft c (cur h) = Some n" "0 < n"
  shows "\<exists>ps cur'. get_next_target_probe c (af_inet6 (target h)) (cur h) = Some (Some (ps, cur'))"
  using get_next_target_probe_fresh[of c "cur h" "n - 1"] assms by (auto simp: cfg_ok_def) blast

lemma sendNextRetryStackProbe_delivers:
  assumes "cfg_ok c" "hg_inv c k (h, g)" "tval_ok now" "retry_stack h \<noteq> []" "result_fits c 0 (last (retry_stack h)) r"
  shows "delivers (sendNextRetryStackProbe c now r (h, g)) (\<lambda>hg'. hg_inv c k hg' \<and> sent_ok c r (last (retry_stack_tries h) + 1)
    (h\<lparr>retry_stack := butlast (retry_stack h), retry_stack_tries := butlast (retry_stack_tries h)\<rparr>) (fst hg'))"
proof -
  note inv = assms(2)[unfolded hg_inv_unfold]
  have q: "length (retry_stack h) = length (retry_stack_tries h)" "\<not> ping_scan c" "pspec_ok c (last (retry_stack h))"
    using inv assms(4) by (auto simp: queue_inv_def list_all_iff)
  have ne: "retry_stack_tries h \<noteq> []" using q(1) assms(4) by auto
  then have tn: "last (retry_stack_tries h) < max_tryno c h" using inv by (simp add: queue_inv_def)
  let ?h = "h\<lparr>retry_stack := butlast (retry_stack h), retry_stack_tries := butlast (retry_stack_tries h)\<rparr>"
  have m: "max_tryno c ?h = max_tryno c h" by (simp add: max_tryno_def)
  have "queue_inv c ?h" using inv unfolding queue_inv_def m by (auto simp: list_all_iff dest: in_set_butlastD)
  then have "hg_inv c k (?h, g)" using inv m by (simp add: hg_inv_unfold)
  from send_next_delivers[OF assms(1) this assms(3) q(3) _ assms(5), of "last (retry_stack_tries h) + 1"] m tn
  have "delivers (sendProbe c now (last (retry_stack h)) (last (retry_stack_tries h) + 1) 0 r (count_sent True (?h, g))) (\<lambda>hg'. hg_inv c k hg' \<and> sent_ok c r (last (retry_stack_tries h) + 1) ?h (fst hg'))"
    by simp
  moreover have "ps_type (last (retry_stack h)) \<noteq> PS_ARP \<and> ps_type (last (retry_stack h)) \<noteq> PS_ND" using q(2,3) by (simp add: pspec_ok_def)
  ultimately show ?thesis using assms(4) ne by (simp add: sendNextRetryStackProbe_def Let_def)
qed

lemma sendPingProbe_delivers:
  assumes "cfg_ok c" "hg_inv c k (h, g)" "tval_ok now" "ps_type (pingprobe (target h)) \<noteq> PS_NONE" "result_fits c (nxtpseq h) (pingprobe (target h)) r"
  shows "delivers (sendPingProbe c now r (h, g)) (\<lambda>hg'. hg_inv c k hg' \<and> sent_ok c r 0 h (fst hg'))"
proof -
  note inv = assms(2)[unfolded hg_inv_unfold]
  define h1 where "h1 = snd (nextPingSeq h)"
  have n: "nextPingSeq h = (nxtpseq h, h1)" by (simp add: h1_def nextPingSeq_def)
  have "0 < nxtpseq h1 \<and> nxtpseq h1 < 256" by (simp add: h1_def nextPingSeq_def)
  then have h1: "hg_inv c k (h1, g)" using inv by (simp add: hg_inv_unfold h1_def nextPingSeq_def)
  have "spec_sendable c (nxtpseq h) (pingprobe (target h))" using inv assms(4) by (simp add: spec_sendable_def target_inv_def)
  from sendProbe_delivers[OF assms(1) h1 assms(3) this le0 assms(5)]
  have "delivers (sendProbe c now (pingprobe (target h)) 0 (nxtpseq h) r (h1, g)) (\<lambda>hg'. hg_inv c k (count_sent False hg') \<and> sent_ok c r 0 h (fst (count_sent False hg')))"
    by (rule delivers_mono) (auto simp: count_sent_def hg_inv_unfold group_inv_def sent_ok_def h1_def nextPingSeq_def queues_same_def)
  moreover have "ps_type (pingprobe (target h)) \<noteq> PS_ICMPV6" using inv by (simp add: target_inv_def)
  ultimately show ?thesis using assms(4) by (simp add: sendPingProbe_def Let_def n delivers_map)
qed

section \<open>Retransmission\<close>

lemma set_probe_inv:
  assumes "hg_inv c k (h, g)" "j < length (probes_outstanding h)" "probe_ok c (max_tryno c h) p"
    "timedout p = timedout (probes_outstanding h ! j)" "retransmitted p = retransmitted (probes_outstanding h ! j)" "isPing p = isPing (probes_outstanding h ! j)"
  shows "hg_inv c k (set_probe j p h, g)"
proof -
  have "int (n_active ((probes_outstanding h)[j := p])) = int (n_active (probes_outstanding h))"
    using length_filter_list_update[OF assms(2), of "\<lambda>p. \<not> timedout p" p] assms(4) by (simp add: n_active_def)
  moreover have "int (n_waiting ((probes_outstanding h)[j := p])) = int (n_waiting (probes_outstanding h))"
    using length_filter_list_update[OF assms(2), of "\<lambda>p. timedout p \<and> \<not> retransmitted p \<and> \<not> isPing p" p] assms(4-6) by (simp add: n_waiting_def)
  ultimately show ?thesis using assms(1,3) probes_inv_update by (simp add: hg_inv_unfold set_probe_def)
qed

lemma retransmitted_delivers:
  assumes "hg_inv c k (h, g)" "j < length (probes_outstanding h)"
    "timedout (probes_outstanding h ! j)" "\<not> retransmitted (probes_outstanding h ! j)" "\<not> isPing (probes_outstanding h ! j)"
  shows "delivers (dec_waiting (set_probe j ((probes_outstanding h ! j)\<lparr>retransmitted := True\<rparr>) h, g)) (\<lambda>hg'. hg_inv c k hg' \<and>
    frame h (fst hg') \<and> probes_outstanding (fst hg') = (probes_outstanding h)[j := (probes_outstanding h ! j)\<lparr>retransmitted := True\<rparr>])"
proof -
  let ?ps = "probes_outstanding h" let ?p = "(?ps ! j)\<lparr>retransmitted := True\<rparr>"
  note inv = assms(1)[unfolded hg_inv_unfold]
  have "probe_ok c (max_tryno c h) (?ps ! j)" using inv assms(2) probes_inv_nth by blast
  then have "probe_ok c (max_tryno c h) ?p" using assms(3) by (simp add: probe_ok_def isPing_def)
  moreover have "int (n_active (?ps[j := ?p])) = int (n_active ?ps)"
    using length_filter_list_update[OF assms(2), of "\<lambda>p. \<not> timedout p" ?p] by (simp add: n_active_def)
  moreover have "int (n_waiting (?ps[j := ?p])) = int (n_waiting ?ps) - 1"
    using length_filter_list_update[OF assms(2), of "\<lambda>p. timedout p \<and> \<not> retransmitted p \<and> \<not> isPing p" ?p] assms(3-5) by (simp add: n_waiting_def)
  moreover have "0 < n_waiting ?ps" using n_waiting_pos[OF assms(2-5)] .
  ultimately show ?thesis using inv probes_inv_update by (simp add: dec_waiting_def set_probe_def hg_inv_unfold frame_def queues_same_def)
qed

text \<open>The old probe is marked, and at most one new probe with the next try number is outstanding.\<close>

definition resent_ok :: "scan_cfg \<Rightarrow> nat \<Rightarrow> hss \<Rightarrow> hss \<Rightarrow> bool" where
  "resent_ok c j h h' \<longleftrightarrow> max_tryno c h \<le> max_tryno c h' \<and> queues_same h h' \<and>
     (let p = probes_outstanding h ! j; ps = (probes_outstanding h)[j := p\<lparr>retransmitted := True\<rparr>] in
      probes_outstanding h' = ps \<or> (\<exists>x. probes_outstanding h' = ps @ [x] \<and> tryno x = (tryno p + 1) mod 256))"

lemma retransmitProbe_delivers:
  assumes "cfg_ok c" "hg_inv c k (h, g)" "tval_ok now" "j < length (probes_outstanding h)" "p = probes_outstanding h ! j"
    "timedout p" "\<not> retransmitted p" "\<not> isPing p" "tryno p < max_tryno c h" "result_fits c 0 (mypspec p) r" "\<not> finds_host_up c r"
  shows "delivers (retransmitProbe c now j r (h, g)) (\<lambda>hg'. hg_inv c k hg' \<and> resent_ok c j h (fst hg'))"
proof -
  let ?n = "length (probes_outstanding h)" let ?tn = "tryno p + 1"
  note inv = assms(2)[unfolded hg_inv_unfold]
  have p: "probe_ok c (max_tryno c h) p" using inv assms(4,5) probes_inv_nth by blast
  then have ps: "pspec_ok c (mypspec p)" "up_type p = kind_of (mypspec p)" using assms(8) by (simp_all add: probe_ok_def)
  have kind: "retransmit_kind_ok c p" using ps by (auto simp: retransmit_kind_ok_def pspec_ok_def kind_of_def split: pspectype.splits)
  have "spec_sendable c 0 (mypspec p)" using ps(1) by (simp add: spec_sendable_def pspec_ok_def)
  from sendProbe_delivers[OF assms(1,2,3) this _ assms(10), of ?tn] assms(9)
  have send: "delivers (sendProbe c now (mypspec p) ?tn 0 r (h, g)) (\<lambda>hg'. hg_inv c k hg' \<and> sent_ok c r ?tn h (fst hg'))" by simp
  have rest: "delivers (if \<not> j < length (probes_outstanding h1) then None
      else let h2 = (if returns_probe r then set_probe ?n ((probes_outstanding h1 ! ?n)\<lparr>prevSent := sent p\<rparr>) h1 else h1);
               h3 = set_probe j ((probes_outstanding h2 ! j)\<lparr>retransmitted := True\<rparr>) h2 in
        map_option (count_sent True) (dec_waiting (h3, g1))) (\<lambda>hg'. hg_inv c k hg' \<and> resent_ok c j h (fst hg'))"
    if h1: "hg_inv c k (h1, g1)" "sent_ok c r ?tn h h1" for h1 g1
  proof -
    define h2 where "h2 = (if returns_probe r then set_probe ?n ((probes_outstanding h1 ! ?n)\<lparr>prevSent := sent p\<rparr>) h1 else h1)"
    have t: "probes_outstanding h1 = probes_outstanding h \<or> (\<exists>x. probes_outstanding h1 = probes_outstanding h @ [x] \<and> tryno x = ?tn mod 256)"
      "max_tryno c h \<le> max_tryno c h1" "queues_same h h1" "returns_probe r \<Longrightarrow> ?n < length (probes_outstanding h1)"
      using h1(2) assms(11) by (auto simp: sent_ok_def)
    have l: "j < length (probes_outstanding h1)" "probes_outstanding h1 ! j = p" using t(1) assms(4,5) by (auto simp: nth_append)
    have t2: "probes_outstanding h2 = probes_outstanding h \<or> (\<exists>x. probes_outstanding h2 = probes_outstanding h @ [x] \<and> tryno x = ?tn mod 256)"
      using t(1,4) by (auto simp: h2_def set_probe_def)
    have h2: "hg_inv c k (h2, g1)" "max_tryno c h2 = max_tryno c h1" "probes_outstanding h2 ! j = p" "j < length (probes_outstanding h2)" "queues_same h h2"
    proof -
      have "hg_inv c k (set_probe ?n ((probes_outstanding h1 ! ?n)\<lparr>prevSent := sent p\<rparr>) h1, g1)" if r: "returns_probe r"
      proof -
        have "probe_ok c (max_tryno c h1) (probes_outstanding h1 ! ?n)" using h1(1) t(4)[OF r] probes_inv_nth by (simp add: hg_inv_unfold)
        then have "probe_ok c (max_tryno c h1) ((probes_outstanding h1 ! ?n)\<lparr>prevSent := sent p\<rparr>)" by (simp add: probe_ok_def isPing_def)
        from set_probe_inv[OF h1(1) t(4)[OF r] this] show ?thesis by (simp add: isPing_def)
      qed
      then show "hg_inv c k (h2, g1)" using h1(1) by (simp add: h2_def)
      show "max_tryno c h2 = max_tryno c h1" "probes_outstanding h2 ! j = p" "j < length (probes_outstanding h2)" "queues_same h h2"
        using l t(3) assms(4) by (simp_all add: h2_def set_probe_def queues_same_def)
    qed
    from retransmitted_delivers[OF h2(1,4)] assms(6-8)
    have "delivers (dec_waiting (set_probe j ((probes_outstanding h2 ! j)\<lparr>retransmitted := True\<rparr>) h2, g1)) (\<lambda>hg'. hg_inv c k hg' \<and>
        frame h2 (fst hg') \<and> probes_outstanding (fst hg') = (probes_outstanding h2)[j := p\<lparr>retransmitted := True\<rparr>])"
      by (simp add: h2(3))
    then have "delivers (map_option (count_sent True) (dec_waiting (set_probe j ((probes_outstanding h2 ! j)\<lparr>retransmitted := True\<rparr>) h2, g1)))
        (\<lambda>hg'. hg_inv c k hg' \<and> resent_ok c j h (fst hg'))"
    proof (intro delivers_map, elim delivers_mono, elim conjE)
      fix hg' assume h': "hg_inv c k hg'" "frame h2 (fst hg')" "probes_outstanding (fst hg') = (probes_outstanding h2)[j := p\<lparr>retransmitted := True\<rparr>]"
      have "hg_inv c k (count_sent True hg')" using h'(1) by (cases hg') (simp add: count_sent_def hg_inv_unfold group_inv_def)
      moreover have "resent_ok c j h (fst hg')" using h'(2,3) t(2) t2 h2(2,5) assms(4,5)
        by (auto simp: resent_ok_def Let_def frame_max_tryno list_update_append dest: frame_queues intro: queues_same_trans)
      moreover have "resent_ok c j h (fst (count_sent True hg')) = resent_ok c j h (fst hg')" by (cases hg') (simp add: count_sent_def resent_ok_def queues_same_def)
      ultimately show "hg_inv c k (count_sent True hg') \<and> resent_ok c j h (fst (count_sent True hg'))" by simp
    qed
    then show ?thesis using l unfolding Let_def h2_def[symmetric] by simp
  qed
  show ?thesis unfolding retransmitProbe_def Let_def fst_conv assms(5)[symmetric]
    using assms(4) kind by (simp only: not_True_eq_False if_False, intro delivers_bind[OF send]) (use rest[unfolded Let_def] in \<open>clarsimp split del: if_split cong: if_cong\<close>)
qed

text \<open>The search of \<open>doAnyOutstandingRetransmits\<close> for one host.\<close>

lemma rld_inv: "hg_inv c k (h, g) \<Longrightarrow> hg_inv c k (h\<lparr>rld := x\<rparr>, g)"
  by (simp add: hg_inv_unfold)

definition may_resend :: "nat \<Rightarrow> ultraprobe \<Rightarrow> bool" where
  "may_resend m p \<longleftrightarrow> timedout p \<and> \<not> retransmitted p \<and> m > tryno p \<and> \<not> isPing p"

lemma find_waiting_Some: "find_waiting m ps i = Some k \<Longrightarrow> k < i \<and> may_resend m (ps ! k)"
  by (induction i) (auto simp: may_resend_def split: if_splits)

definition cache_ok :: "nat option \<Rightarrow> ultraprobe list \<Rightarrow> bool" where
  "cache_ok cache ps \<longleftrightarrow> (case cache of None \<Rightarrow> True | Some i \<Rightarrow> 0 < i \<and> i < length ps)"

lemma cache_ok_wrap: "k < length ps \<Longrightarrow> cache_ok (wrap_around k) ps"
  by (simp add: cache_ok_def wrap_around_def)

lemma resent_ok_length: "resent_ok c j h h' \<Longrightarrow> length (probes_outstanding h) \<le> length (probes_outstanding h')"
  by (auto simp: resent_ok_def Let_def)

text \<open>Either nothing is sent and the probes stay as they are, or one probe that may be sent again is.\<close>

definition host_resent_ok :: "scan_cfg \<Rightarrow> hss \<Rightarrow> bool \<times> nat option \<times> hg \<Rightarrow> bool" where
  "host_resent_ok c h = (\<lambda>(b, cache, h', g'). cache_ok cache (probes_outstanding h') \<and> max_tryno c h \<le> max_tryno c h' \<and> queues_same h h' \<and>
     (if b then \<exists>j < length (probes_outstanding h). may_resend (max_tryno c h) (probes_outstanding h ! j) \<and> resent_ok c j h h'
      else probes_outstanding h' = probes_outstanding h))"

lemma host_retransmit_delivers:
  assumes "cfg_ok c" "hg_inv c k (h, g)" "tval_ok now" "probes_outstanding h \<noteq> []" "cache_ok cache (probes_outstanding h)"
    "\<And>ps. pspec_ok c ps \<Longrightarrow> result_fits c 0 ps (r ps) \<and> \<not> finds_host_up c (r ps)"
  shows "delivers (host_retransmit c now r cache (h, g)) (\<lambda>x. hg_inv c k (snd (snd x)) \<and> host_resent_ok c h x)"
proof -
  let ?Q = "\<lambda>x. hg_inv c k (snd (snd x)) \<and> host_resent_ok c h x"
  obtain capped mayinc h1 where a: "allowedTryno c h = Some (max_tryno c h, capped, mayinc, h1)" "hg_inv c k (h1, g)" "same_probes h h1"
    using allowedTryno_delivers[OF assms(1,2)] by (auto simp: delivers_def)
  have s: "probes_outstanding h1 = probes_outstanding h" "max_tryno c h1 = max_tryno c h" "queues_same h h1"
    using a(3) by (auto simp: same_probes_def frame_max_tryno frame_queues)
  let ?i = "case cache of None \<Rightarrow> length (probes_outstanding h) | Some i \<Rightarrow> i"
  have i: "?i \<le> length (probes_outstanding h)" "cache \<noteq> Some 0" using assms(5) by (auto simp: cache_ok_def split: option.splits)
  have main: "delivers (case find_waiting (max_tryno c h) (probes_outstanding h) ?i of
         None \<Rightarrow> Some (False, None, h1, g)
       | Some k \<Rightarrow>
           if tryno (probes_outstanding h ! k) + 1 > max_tryno_sent (rld h1) \<and> (numprobes g > 1 \<or> ping_scan_arp c \<or> ping_scan_nd c)
           then Some (False, wrap_around k,
             h1\<lparr>rld := \<lparr>max_tryno_sent = tryno (probes_outstanding h ! k) + 1, rld_waiting = True, rld_waittime = TIMEVAL_MSEC_ADD now 1000\<rparr>\<rparr>, g)
           else map_option (\<lambda>hg. (True, wrap_around k, hg))
             (retransmitProbe c now k (r (mypspec (probes_outstanding h ! k))) (h1\<lparr>rld := (rld h1)\<lparr>rld_waiting := False\<rparr>\<rparr>, g))) ?Q"
  proof (cases "find_waiting (max_tryno c h) (probes_outstanding h) ?i")
    case None
    then show ?thesis using a s by (simp add: host_resent_ok_def cache_ok_def)
  next
    case (Some j)
    let ?p = "probes_outstanding h ! j"
    have j: "j < length (probes_outstanding h)" "may_resend (max_tryno c h) ?p" using find_waiting_Some[OF Some] i(1) by auto
    let ?h = "h1\<lparr>rld := (rld h1)\<lparr>rld_waiting := False\<rparr>\<rparr>"
    have "probe_ok c (max_tryno c h) ?p" using assms(2) j(1) probes_inv_nth by (auto simp: hg_inv_def host_inv_def)
    then have "pspec_ok c (mypspec ?p)" using j(2) by (simp add: probe_ok_def may_resend_def)
    note rf = assms(6)[OF this]
    have pause: "delivers (Some (False, wrap_around j, h1\<lparr>rld := y\<rparr>, g)) ?Q" for y
      using j s rld_inv[OF a(2)] by (simp add: host_resent_ok_def cache_ok_wrap queues_same_def)
    have "delivers (retransmitProbe c now j (r (mypspec ?p)) (?h, g)) (\<lambda>hg'. hg_inv c k hg' \<and> resent_ok c j ?h (fst hg'))"
      using retransmitProbe_delivers[OF assms(1) rld_inv[OF a(2)] assms(3), where j = j and p = ?p and r = "r (mypspec ?p)"] j s rf by (simp add: may_resend_def)
    moreover have "resent_ok c j h h'" if "resent_ok c j ?h h'" for h'
      using that s by (auto simp: resent_ok_def Let_def queues_same_def)
    ultimately have "delivers (map_option (\<lambda>hg. (True, wrap_around j, hg)) (retransmitProbe c now j (r (mypspec ?p)) (?h, g))) ?Q"
    proof (intro delivers_map, elim delivers_mono, elim conjE)
      fix hg' assume h': "hg_inv c k hg'" "resent_ok c j ?h (fst hg')" and imp: "\<And>h'. resent_ok c j ?h h' \<Longrightarrow> resent_ok c j h h'"
      have r: "resent_ok c j h (fst hg')" using imp[OF h'(2)] .
      have "j < length (probes_outstanding (fst hg'))" using resent_ok_length[OF r] j(1) by simp
      moreover have "max_tryno c h \<le> max_tryno c (fst hg') \<and> queues_same h (fst hg')" using r by (simp add: resent_ok_def)
      ultimately show "?Q (True, wrap_around j, hg')" using h'(1) r j by (cases hg') (auto simp: host_resent_ok_def cache_ok_wrap)
    qed
    then show ?thesis using pause by (simp add: Some)
  qed
  have "host_retransmit c now r cache (h, g) = (case find_waiting (max_tryno c h) (probes_outstanding h1) (case cache of None \<Rightarrow> length (probes_outstanding h1) | Some i \<Rightarrow> i) of
         None \<Rightarrow> Some (False, None, h1, g)
       | Some k \<Rightarrow>
           if tryno (probes_outstanding h1 ! k) + 1 > max_tryno_sent (rld h1) \<and> (numprobes g > 1 \<or> ping_scan_arp c \<or> ping_scan_nd c)
           then Some (False, wrap_around k,
             h1\<lparr>rld := \<lparr>max_tryno_sent = tryno (probes_outstanding h1 ! k) + 1, rld_waiting = True, rld_waittime = TIMEVAL_MSEC_ADD now 1000\<rparr>\<rparr>, g)
           else map_option (\<lambda>hg. (True, wrap_around k, hg))
             (retransmitProbe c now k (r (mypspec (probes_outstanding h1 ! k))) (h1\<lparr>rld := (rld h1)\<lparr>rld_waiting := False\<rparr>\<rparr>, g)))"
    using assms(4) i(2) by (simp add: host_retransmit_def a(1) Let_def)
  with main show ?thesis unfolding s(1) by simp
qed

section \<open>Expiry\<close>

text \<open>While the loop of \<open>processData\<close> runs, the probes of the bench have the try number of the limit.\<close>

definition bench_full :: "scan_cfg \<Rightarrow> hss \<Rightarrow> bool" where
  "bench_full c h \<longleftrightarrow> (probe_bench h \<noteq> [] \<longrightarrow> bench_tryno h = max_tryno c h)"

lemma frame_bench_full: "frame h h' \<Longrightarrow> bench_full c h' = bench_full c h"
  unfolding bench_full_def by (simp add: frame_max_tryno) (simp add: frame_def queues_same_def)

definition expired_ok :: "scan_cfg \<Rightarrow> int \<Rightarrow> hss \<Rightarrow> bool \<times> hg \<Rightarrow> bool" where
  "expired_ok c k h r \<longleftrightarrow> hg_inv c k (snd r) \<and> max_tryno c (fst (snd r)) = max_tryno c h \<and> bench_full c (fst (snd r)) \<and>
     length (probes_outstanding h) = length (probes_outstanding (fst (snd r))) + (if fst r then 0 else 1)"

lemma process_probe_delivers:
  assumes "cfg_ok c" "hg_inv c k hg" "bench_full c (fst hg)" "j < length (probes_outstanding (fst hg))" "m = max_tryno c (fst hg)"
  shows "delivers (process_probe c now m capped mayinc j hg) (expired_ok c k (fst hg))"
proof -
  define p where "p = probes_outstanding (fst hg) ! j"
  have po: "probe_ok c m p" using assms(2,4,5) probes_inv_nth by (auto simp: hg_inv_def host_inv_def p_def)
  have len: "length (remove_nth j (probes_outstanding (fst hg))) + 1 = length (probes_outstanding (fst hg))"
    using assms(4) by (simp add: length_remove_nth)
  have removed: "expired_ok c k (fst hg) (False, hg')" if "hg_inv c k hg'" "frame (fst hg) (fst hg')" "probes_outstanding (fst hg') = remove_nth j (probes_outstanding (fst hg))" for hg'
    using that len assms(3) by (simp add: expired_ok_def frame_bench_full frame_max_tryno)
  have mark: "delivers (map_option (Pair True) (markProbeTimedout c now j hg)) (expired_ok c k (fst hg))" if "\<not> timedout p"
    by (intro delivers_map delivers_mono[OF markProbeTimedout_delivers[OF assms(1,2,4)]])
      (use that assms(3) in \<open>auto simp: p_def expired_ok_def frame_bench_full frame_max_tryno\<close>)
  let ?hg1 = "if capped then ((fst hg)\<lparr>retry_capped_warned := True\<rparr>, snd hg) else hg"
  have hg1: "hg_inv c k ?hg1" "probes_outstanding (fst ?hg1) = probes_outstanding (fst hg)" "frame (fst hg) (fst ?hg1)"
    using assms(2) by (cases hg; simp add: hg_inv_unfold frame_def queues_same_def)+
  have j1: "j < length (probes_outstanding (fst ?hg1))" using hg1(2) assms(4) by simp
  have nn: "hg_inv c k (note_noresponse x) \<and> frame (fst x) (fst (note_noresponse x)) \<and> probes_outstanding (fst (note_noresponse x)) = probes_outstanding (fst x)"
    if "hg_inv c k x" for x using that by (cases x) (auto simp: note_noresponse_def reason_inv frame_def queues_same_def)
  have host: "delivers (map_option note_noresponse (ultrascan_host_probe_update c now j HOST_DOWN None True ?hg1)) (\<lambda>x. expired_ok c k (fst hg) (False, x))"
  proof (intro delivers_map delivers_mono[OF host_probe_update_delivers[OF assms(1) hg1(1) j1]], simp, elim conjE)
    fix x :: hg assume x: "hg_inv c k x" "frame (fst ?hg1) (fst x)" "probes_outstanding (fst x) = remove_nth j (probes_outstanding (fst ?hg1))"
    show "expired_ok c k (fst hg) (False, note_noresponse x)"
      by (rule removed) (use nn[OF x(1)] x(2,3) hg1(2,3) in \<open>metis frame_trans\<close>)+
  qed
  have destroy1: "delivers (destroyOutstandingProbe j ?hg1) (\<lambda>x. expired_ok c k (fst hg) (False, x))"
    by (rule delivers_mono[OF destroy_delivers[OF hg1(1) j1]]) (use hg1 in \<open>auto intro!: removed intro: frame_trans\<close>)
  have last: "delivers (map_option (Pair False) (if ping_scan c then map_option note_noresponse (ultrascan_host_probe_update c now j HOST_DOWN None True ?hg1)
      else destroyOutstandingProbe j ?hg1)) (expired_ok c k (fst hg))"
    by (intro delivers_map delivers_if host destroy1)
  have bench: "delivers (if tryno p \<noteq> m then None else map_option (Pair False) (moveProbeToBench j hg)) (expired_ok c k (fst hg))"
    if "\<not> isPing p \<and> timedout p \<and> \<not> retransmitted p \<and> tryno p \<ge> m \<and> b" for b
  proof -
    have "tryno p = m" using po that by (simp add: probe_ok_def)
    moreover have "delivers (map_option (Pair False) (moveProbeToBench j hg)) (expired_ok c k (fst hg))"
      by (intro delivers_map delivers_mono[OF moveProbeToBench_delivers[OF assms(2,4)]])
        (use that calculation assms(3,5) len in \<open>auto simp: p_def expired_ok_def bench_full_def\<close>)
    ultimately show ?thesis by simp
  qed
  have destroy: "delivers (map_option (Pair False) (destroyOutstandingProbe j hg)) (expired_ok c k (fst hg))"
    by (intro delivers_map delivers_mono[OF destroy_delivers[OF assms(2,4)]]) (auto intro: removed)
  have same: "delivers (Some (True, hg)) (expired_ok c k (fst hg))" using assms(2,3) by (simp add: expired_ok_def)
  show ?thesis unfolding process_probe_def Let_def p_def[symmetric]
    by (simp only: assms(4) not_True_eq_False if_False) (intro delivers_if mark last bench destroy same; blast)
qed

lemma process_probes_delivers:
  assumes "cfg_ok c" "hg_inv c k hg" "bench_full c (fst hg)" "j + n = length (probes_outstanding (fst hg))" "m = max_tryno c (fst hg)"
  shows "delivers (process_probes c now m capped mayinc n j hg) (\<lambda>hg'. hg_inv c k hg' \<and> max_tryno c (fst hg') = m)"
  using assms(2-5)
proof (induction n arbitrary: j hg)
  case (Suc n)
  have j: "j < length (probes_outstanding (fst hg))" using Suc.prems(3) by simp
  show ?case unfolding process_probes.simps
  proof (rule delivers_bind[OF process_probe_delivers[OF assms(1) Suc.prems(1,2) j Suc.prems(4)]])
    fix r assume r: "expired_ok c k (fst hg) r"
    have "(if fst r then Suc j else j) + n = length (probes_outstanding (fst (snd r)))" using r Suc.prems(3) by (auto simp: expired_ok_def split: if_splits)
    from Suc.IH[OF _ _ this] r Suc.prems(4)
    show "delivers (case r of (kept, hg1) \<Rightarrow> process_probes c now m capped mayinc n (if kept then Suc j else j) hg1) (\<lambda>hg'. hg_inv c k hg' \<and> max_tryno c (fst hg') = m)"
      by (simp add: expired_ok_def split_beta)
  qed
qed simp

lemma process_bench_delivers:
  assumes "hg_inv c k (h, g)" "m = max_tryno c h"
  shows "delivers (process_bench c m mayinc h) (\<lambda>h'. hg_inv c k (h', g) \<and> bench_full c h' \<and> max_tryno c h' = m)"
proof -
  have d: "delivers (dismissBench c h) (\<lambda>h'. hg_inv c k (h', g) \<and> bench_full c h' \<and> max_tryno c h' = m)"
    by (rule delivers_mono[OF dismissBench_delivers[OF assms(1)]]) (use assms(2) in \<open>simp add: bench_full_def\<close>)
  have r: "delivers (retransmitBench h) (\<lambda>h'. hg_inv c k (h', g) \<and> bench_full c h' \<and> max_tryno c h' = m)" if "m > bench_tryno h"
    by (rule delivers_mono[OF retransmitBench_delivers[OF assms(1)]]) (use assms(2) that in \<open>simp_all add: bench_full_def\<close>)
  have "bench_tryno h \<le> m" if "probe_bench h \<noteq> []" using assms that by (simp add: hg_inv_unfold queue_inv_def)
  then show ?thesis unfolding process_bench_def by (intro delivers_if d r) (use assms in \<open>auto simp: bench_full_def\<close>)
qed

lemma process_host_delivers:
  assumes "cfg_ok c" "hg_inv c k (h, g)"
  shows "delivers (process_host c now (h, g)) (\<lambda>hg'. hg_inv c k hg' \<and> max_tryno c (fst hg') = max_tryno c h)"
  unfolding process_host_def prod.case
proof (rule delivers_bind[OF allowedTryno_delivers[OF assms]])
  fix x :: "nat \<times> bool \<times> bool \<times> hss" assume x: "case x of (m, capped, mayinc, h') \<Rightarrow> m = max_tryno c h \<and> hg_inv c k (h', g) \<and> same_probes h h'"
  obtain m capped mayinc h1 where xe: "x = (m, capped, mayinc, h1)" by (cases x)
  have h1: "m = max_tryno c h1" "m = max_tryno c h" "hg_inv c k (h1, g)" using x by (auto simp: xe same_probes_def frame_max_tryno)
  show "delivers (case x of (maxtries, capped, mayinc, h1) \<Rightarrow> Option.bind (process_bench c maxtries mayinc h1)
     (\<lambda>h2. process_probes c now maxtries capped mayinc (length (probes_outstanding h2)) 0 (h2, g))) (\<lambda>hg'. hg_inv c k hg' \<and> max_tryno c (fst hg') = max_tryno c h)"
    unfolding xe prod.case h1(2)[symmetric]
    by (rule delivers_bind[OF process_bench_delivers[OF h1(3,1)]]) (auto intro!: process_probes_delivers[OF assms(1)])
qed

end
