(* ===== verification/Scan_Engine.thy ===== *)
theory Scan_Engine
  imports Scan_Step
begin

text \<open>
  The scan of a group of hosts: \<open>UltraScanInfo\<close> and the main loop of \<open>ultra_scan\<close>, \<open>scan_engine.cc\<close>.  A host is named by its position
  in the list of all hosts, which is sorted by address, so the multisets of incomplete and completed hosts are lists of positions.  The
  environment gives the time at every reading of the clock, the outcome of every probe that is sent, and the replies that arrive during
  every wait; the readings are counted in \<open>ticks\<close>.
\<close>

section \<open>State\<close>

record usi =
  hosts :: "hss list"
  incompleteHosts :: "nat list"
  completedHosts :: "nat list"
  nextI :: nat
  gstats :: gss
  pinghost :: "nat option"
  lastCompletedHostRemoval :: tval
  unow :: tval
  ticks :: nat

text \<open>What a wait can receive: the answer to a ping probe, to a host discovery probe or to a port scan probe, each matched to the outstanding
  probe of a host at a position; an ARP or neighbor discovery reply of a host; or the result of \<open>select\<close> with what it reports of a socket.\<close>

datatype reply =
    Ping_reply nat nat tval bool
  | Host_reply nat nat nat tval nat
  | Arp_reply nat tval
  | Port_reply nat nat nat tval bool nat nat
  | Selected nat "int \<Rightarrow> (connect_errno \<times> bool option) option"

text \<open>Whether progress is printed in a round, because it is time or because a key was pressed, is decided by \<open>e_print\<close> and \<open>e_key\<close>.\<close>

record env =
  e_clock :: "nat \<Rightarrow> tval"
  e_send :: "nat \<Rightarrow> bool \<Rightarrow> probespec \<Rightarrow> send_result"
  e_replies :: "nat \<Rightarrow> reply list"
  e_print :: "nat \<Rightarrow> bool"
  e_key :: "nat \<Rightarrow> bool"

definition read_clock :: "env \<Rightarrow> usi \<Rightarrow> usi" where
  "read_clock e u = u\<lparr>unow := e_clock e (ticks u), ticks := Suc (ticks u)\<rparr>"

text \<open>An operation on one host and the statistics of the group.\<close>

definition on_host :: "nat \<Rightarrow> (hg \<Rightarrow> hg option) \<Rightarrow> usi \<Rightarrow> usi option" where
  "on_host i f u =
     (if \<not> i < length (hosts u) then None
      else do { (h, g) \<leftarrow> f (hosts u ! i, gstats u); Some (u\<lparr>hosts := (hosts u)[i := h], gstats := g\<rparr>) })"

definition set_gstats :: "(gss \<Rightarrow> gss) \<Rightarrow> usi \<Rightarrow> usi" where
  "set_gstats f u = u\<lparr>gstats := f (gstats u)\<rparr>"

section \<open>Starting a scan\<close>

definition set_default_port_state :: "scan_cfg \<Rightarrow> target \<Rightarrow> target option" where
  "set_default_port_state c t =
     (let set_state = (\<lambda>pr s. Some (t\<lparr>tports := setDefaultPortState pr s (tports t)\<rparr>)) in
      if scantype c \<in> {SYN_SCAN, ACK_SCAN, WINDOW_SCAN, CONNECT_SCAN} then set_state IPPROTO_TCP PORT_FILTERED
      else if scantype c = SCTP_INIT_SCAN then set_state IPPROTO_SCTP PORT_FILTERED
      else if scantype c \<in> {NULL_SCAN, FIN_SCAN, MAIMON_SCAN, XMAS_SCAN} then set_state IPPROTO_TCP PORT_OPENFILTERED
      else if scantype c = UDP_SCAN then set_state IPPROTO_UDP (if defeat_icmp_ratelimit c then PORT_CLOSEDFILTERED else PORT_OPENFILTERED)
      else if scantype c = IPPROT_SCAN then set_state IPPROTO_IP PORT_OPENFILTERED
      else if scantype c = SCTP_COOKIE_ECHO_SCAN then set_state IPPROTO_SCTP PORT_OPENFILTERED
      else if scantype c \<in> {PING_SCAN, PING_SCAN_ARP, PING_SCAN_ND} then Some t
      else None)"

text \<open>The limit of descriptors is that of the system; \<open>FD_SETSIZE\<close> is 1024.\<close>

definition ConnectScanInfo_new :: "scan_cfg \<Rightarrow> int \<Rightarrow> connect_scan_info" where
  "ConnectScanInfo_new c max_sd =
     (let n = (if max_parallelism (tops c) > 0 then max_parallelism (tops c) else if max_sd - 10 < 5 then 5 else max_sd - 10) in
      \<lparr>fds = [], numSDs = 0, maxValidSD = -1, maxSocketsAllowed = min n (1024 - 10)\<rparr>)"

definition GroupScanStats_new :: "scan_cfg \<Rightarrow> tval \<Rightarrow> tval \<Rightarrow> int \<Rightarrow> packet_rate_meter \<Rightarrow> nat \<Rightarrow> gss option" where
  "GroupScanStats_new c now lw max_sd meter n = do {
     np \<leftarrow> numProbesPerHost c;
     let to0 = initialize_timeout_info (tops c);
     Some \<lparr>g_active = 0, g_timing = init_ultra_timing_vals TIMING_GROUP (perf c) now,
       g_to = (if ping_scan_arp c then to0\<lparr>timeout := max (min_rtt_timeout (tops c)) (min (initial_rtt_timeout (tops c)) 200) * 1000\<rparr> else to0),
       numtargets = int n, numprobes = int np, probes_sent = 0, g_lastrcvd = now, g_lastping_sent = now, g_lastping_sent_numprobes = 0,
       send_no_earlier_than = now, send_no_later_than = now, last_wait = lw, probes_sent_at_last_wait = 0, num_hosts_timedout = 0,
       csi = ConnectScanInfo_new c max_sd, send_rate_meter = meter\<rparr> }"

text \<open>The meter keeps a history of \<open>h\<close> seconds.  Hosts that have timed out before are not scanned.\<close>

definition UltraScanInfo_Init :: "scan_cfg \<Rightarrow> env \<Rightarrow> int \<Rightarrow> rat \<Rightarrow> target list \<Rightarrow> usi option" where
  "UltraScanInfo_Init c e max_sd h targets = do {
     let now = e_clock e 0;
     meter \<leftarrow> PacketRateMeter_start now (PacketRateMeter_new h);
     ts \<leftarrow> those (map (set_default_port_state c) targets);
     let live = filter (\<lambda>t. \<not> Target_timedOut c now t) ts;
     g \<leftarrow> GroupScanStats_new c now (e_clock e 1) max_sd meter (length live);
     Some \<lparr>hosts = map (hss_new c now) live, incompleteHosts = [0..<length live], completedHosts = [], nextI = 0,
       gstats = g\<lparr>num_hosts_timedout := int (length ts - length live)\<rparr>,
       pinghost = None, lastCompletedHostRemoval = tv_zero, unow = now, ticks = 2\<rparr> }"

section \<open>The lists of hosts\<close>

text \<open>The element after \<open>i\<close> in the circular list.\<close>

definition ring_next :: "nat list \<Rightarrow> nat \<Rightarrow> nat" where
  "ring_next l i = (case dropWhile (\<lambda>x. x \<noteq> i) l of _ # j # _ \<Rightarrow> j | _ \<Rightarrow> hd l)"

definition nextIncompleteHost :: "usi \<Rightarrow> (nat option \<times> usi) option" where
  "nextIncompleteHost u =
     (if incompleteHosts u = [] then Some (None, u)
      else if nextI u \<notin> set (incompleteHosts u) then None
      else Some (Some (nextI u), u\<lparr>nextI := ring_next (incompleteHosts u) (nextI u)\<rparr>))"

definition numIncompleteHosts :: "usi \<Rightarrow> nat" where
  "numIncompleteHosts u = length (incompleteHosts u)"

definition numIncompleteHostsLessThan :: "nat \<Rightarrow> usi \<Rightarrow> bool" where
  "numIncompleteHostsLessThan n u \<longleftrightarrow> length (take n (incompleteHosts u)) < n"

text \<open>The position of the host with the address that has rank \<open>a\<close>.\<close>

definition findHost :: "usi \<Rightarrow> nat \<Rightarrow> nat option" where
  "findHost u a = (if a \<in> set (incompleteHosts u) then Some a else if a \<in> set (completedHosts u) then Some a else None)"

definition usi_sendOK :: "scan_cfg \<Rightarrow> usi \<Rightarrow> bool \<times> tval" where
  "usi_sendOK c u = group_sendOK c (unow u) (numIncompleteHostsLessThan 2 u) (gstats u)"

definition hss_sendOK :: "scan_cfg \<Rightarrow> nat \<Rightarrow> usi \<Rightarrow> (bool \<times> tval) option" where
  "hss_sendOK c i u = (if \<not> i < length (hosts u) then None else host_sendOK c (unow u) (hosts u ! i, gstats u))"

text \<open>\<open>UltraScanInfo::sendOK\<close>: the time of the first host that may send, else the least time of a host.\<close>

fun first_time :: "scan_cfg \<Rightarrow> usi \<Rightarrow> nat list \<Rightarrow> tval option \<Rightarrow> tval option option" where
  "first_time c u [] low = Some low"
| "first_time c u (i # js) low = do {
     (good, t) \<leftarrow> hss_sendOK c i u;
     if good then Some (Some t)
     else first_time c u js (case low of None \<Rightarrow> Some t | Some l \<Rightarrow> if TIMEVAL_SUBTRACT l t > 0 then Some t else Some l) }"

definition earlier_timeout :: "usi \<Rightarrow> tval \<Rightarrow> nat \<Rightarrow> tval" where
  "earlier_timeout u low i = (case nextTimeout (unow u) (hosts u ! i, gstats u) of None \<Rightarrow> low
     | Some t \<Rightarrow> if TIMEVAL_SUBTRACT t low < 0 then t else low)"

definition UltraScanInfo_sendOK :: "scan_cfg \<Rightarrow> usi \<Rightarrow> (bool \<times> tval) option" where
  "UltraScanInfo_sendOK c u = do {
     let (ggood, when) = usi_sendOK c u;
     low0 \<leftarrow> (if \<not> ggood then Some (foldl (earlier_timeout u) when (incompleteHosts u))
       else do { t \<leftarrow> first_time c u (incompleteHosts u) None; t });
     let low1 = (if min_packet_send_rate c \<noteq> 0 \<and> TIMEVAL_MSEC_SUBTRACT (send_no_later_than (gstats u)) low0 < 0
       then send_no_later_than (gstats u) else low0);
     let low2 = (if TIMEVAL_MSEC_SUBTRACT low1 (unow u) < 0 then unow u else low1);
     Some (TIMEVAL_MSEC_SUBTRACT low2 (unow u) = 0, low2) }"

text \<open>\<open>getCompletionFraction\<close>; \<open>allowedTryno\<close> may change a host.\<close>

fun host_fractions :: "scan_cfg \<Rightarrow> nat list \<Rightarrow> usi \<Rightarrow> (rat \<times> usi) option" where
  "host_fractions c [] u = Some (0, u)"
| "host_fractions c (i # js) u =
     (if \<not> i < length (hosts u) then None
      else do {
        (m, _, _, h) \<leftarrow> allowedTryno c (hosts u ! i);
        let maxtries = int m + 1;
        let d = (of_int (ports_finished h * (maxtries - 1) + numprobes_sent h) / of_int (maxtries * numprobes (gstats u)) :: rat);
        (r, u1) \<leftarrow> host_fractions c js (u\<lparr>hosts := (hosts u)[i := h]\<rparr>);
        Some ((if d \<ge> 9999 / 10000 then 9999 / 10000 else d) + r, u1) })"

definition getCompletionFraction :: "scan_cfg \<Rightarrow> usi \<Rightarrow> (rat \<times> usi) option" where
  "getCompletionFraction c u = do {
     (r, u1) \<leftarrow> host_fractions c (incompleteHosts u) u;
     Some ((of_int (numtargets (gstats u) - int (numIncompleteHosts u)) + r) / of_int (numtargets (gstats u)), u1) }"

section \<open>Sending\<close>

definition ultrascan_host_timeout_init :: "scan_cfg \<Rightarrow> tval \<Rightarrow> hg \<Rightarrow> hg option" where
  "ultrascan_host_timeout_init c now = (\<lambda>(h, g).
     if \<not> toclock_running (target h) \<and> \<not> Target_timedOut c now (target h)
     then map_option (\<lambda>t. (h\<lparr>target := t\<rparr>, g)) (startTimeOutClock now (target h))
     else Some (h, g))"

text \<open>The probe that the host sends next.\<close>

definition next_spec :: "scan_cfg \<Rightarrow> hss \<Rightarrow> probespec" where
  "next_spec c h = (case get_next_target_probe c (af_inet6 (target h)) (cur h) of Some (Some (ps, _)) \<Rightarrow> ps | _ \<Rightarrow> ps_none)"

text \<open>Every function that sends a probe reads the clock at its end.\<close>

definition new_probe_step :: "scan_cfg \<Rightarrow> env \<Rightarrow> nat \<Rightarrow> usi \<Rightarrow> usi option" where
  "new_probe_step c e i u = do {
     u1 \<leftarrow> on_host i (ultrascan_host_timeout_init c (unow u)) u;
     u2 \<leftarrow> on_host i (sendNextScanProbe c (unow u1) (e_send e (ticks u1) False (next_spec c (hosts u1 ! i)))) u1;
     Some (read_clock e u2) }"

definition retry_stack_step :: "scan_cfg \<Rightarrow> env \<Rightarrow> nat \<Rightarrow> usi \<Rightarrow> usi option" where
  "retry_stack_step c e i u = do {
     u1 \<leftarrow> on_host i (sendNextRetryStackProbe c (unow u) (e_send e (ticks u) False (last (retry_stack (hosts u ! i))))) u;
     Some (read_clock e u1) }"

text \<open>The loop of \<open>doAnyNewProbes\<close> and \<open>doAnyRetryStackRetransmits\<close> goes round the incomplete hosts until all have been visited without a
  probe being sent; \<open>unable\<close> is the first host that could not send.\<close>

partial_function (option) round_robin ::
  "(nat \<Rightarrow> usi \<Rightarrow> bool option) \<Rightarrow> (nat \<Rightarrow> usi \<Rightarrow> usi option) \<Rightarrow> scan_cfg \<Rightarrow> nat option \<Rightarrow> nat option \<Rightarrow> usi \<Rightarrow> usi option" where
  "round_robin ready act c unable host u =
     (case host of None \<Rightarrow> Some u
      | Some i \<Rightarrow>
          if unable = Some i \<or> \<not> fst (usi_sendOK c u) then Some u
          else do {
            b \<leftarrow> ready i u;
            u1 \<leftarrow> (if b then act i u else Some u);
            (j, u2) \<leftarrow> nextIncompleteHost u1;
            round_robin ready act c (if b then None else if unable = None then Some i else unable) j u2 })"

declare round_robin.simps [code]

definition new_probe_ready :: "scan_cfg \<Rightarrow> nat \<Rightarrow> usi \<Rightarrow> bool option" where
  "new_probe_ready c i u =
     (if \<not> i < length (hosts u) then None
      else do { n \<leftarrow> freshPortsLeft c (cur (hosts u ! i)); if n \<noteq> 0 then map_option fst (hss_sendOK c i u) else Some False })"

definition retry_stack_ready :: "scan_cfg \<Rightarrow> nat \<Rightarrow> usi \<Rightarrow> bool option" where
  "retry_stack_ready c i u =
     (if \<not> i < length (hosts u) then None
      else if retry_stack (hosts u ! i) \<noteq> [] then map_option fst (hss_sendOK c i u) else Some False)"

definition doAnyNewProbes :: "scan_cfg \<Rightarrow> env \<Rightarrow> usi \<Rightarrow> usi option" where
  "doAnyNewProbes c e u = do {
     (host, u1) \<leftarrow> nextIncompleteHost (read_clock e u);
     round_robin (new_probe_ready c) (new_probe_step c e) c None host u1 }"

definition doAnyRetryStackRetransmits :: "scan_cfg \<Rightarrow> env \<Rightarrow> usi \<Rightarrow> usi option" where
  "doAnyRetryStackRetransmits c e u = do {
     (host, u1) \<leftarrow> nextIncompleteHost (read_clock e u);
     round_robin (retry_stack_ready c) (retry_stack_step c e) c None host u1 }"

section \<open>Pings\<close>

definition usi_sendPingProbe :: "scan_cfg \<Rightarrow> env \<Rightarrow> nat \<Rightarrow> usi \<Rightarrow> usi option" where
  "usi_sendPingProbe c e i u = do {
     u1 \<leftarrow> on_host i (sendPingProbe c (unow u) (e_send e (ticks u) False (pingprobe (target (hosts u ! i))))) u;
     Some (read_clock e u1) }"

definition ping_due :: "scan_cfg \<Rightarrow> tval \<Rightarrow> hss \<Rightarrow> bool" where
  "ping_due c now h \<longleftrightarrow> ps_type (pingprobe (target h)) \<noteq> PS_NONE \<and> rld_waiting (rld h) = False \<and>
     numprobes_sent h \<ge> lastping_sent_numprobes h + 10 \<and> TIMEVAL_SUBTRACT now (lastrcvd h) > scan_pingtime c \<and>
     TIMEVAL_SUBTRACT now (lastping_sent h) > scan_pingtime c"

definition note_ping :: "tval \<Rightarrow> hg \<Rightarrow> hg option" where
  "note_ping now = (\<lambda>(h, g). Some (h\<lparr>lastping_sent := now, lastping_sent_numprobes := numprobes_sent h\<rparr>, g))"

fun host_pings :: "scan_cfg \<Rightarrow> env \<Rightarrow> nat list \<Rightarrow> usi \<Rightarrow> usi option" where
  "host_pings c e [] u = Some u"
| "host_pings c e (i # js) u =
     (if \<not> i < length (hosts u) then None
      else do {
        ok \<leftarrow> (if ping_due c (unow u) (hosts u ! i) \<and> fst (usi_sendOK c u) then map_option fst (hss_sendOK c i u) else Some False);
        u1 \<leftarrow> (if ok then do { v \<leftarrow> usi_sendPingProbe c e i u; on_host i (note_ping (unow v)) v } else Some u);
        host_pings c e js u1 })"

definition sendGlobalPingProbe :: "scan_cfg \<Rightarrow> env \<Rightarrow> usi \<Rightarrow> usi option" where
  "sendGlobalPingProbe c e u = (case pinghost u of None \<Rightarrow> None | Some i \<Rightarrow> usi_sendPingProbe c e i u)"

definition global_ping_due :: "scan_cfg \<Rightarrow> usi \<Rightarrow> bool" where
  "global_ping_due c u \<longleftrightarrow> (case pinghost u of None \<Rightarrow> False
     | Some i \<Rightarrow> ps_type (pingprobe (target (hosts u ! i))) \<noteq> PS_NONE \<and> num_probes_active (hosts u ! i) = 0 \<and>
         probes_sent (gstats u) \<ge> g_lastping_sent_numprobes (gstats u) + 20 \<and>
         TIMEVAL_SUBTRACT (unow u) (g_lastrcvd (gstats u)) > scan_pingtime c \<and>
         TIMEVAL_SUBTRACT (unow u) (g_lastping_sent (gstats u)) > scan_pingtime c \<and> fst (usi_sendOK c u))"

definition doAnyPings :: "scan_cfg \<Rightarrow> env \<Rightarrow> usi \<Rightarrow> usi option" where
  "doAnyPings c e u = do {
     u1 \<leftarrow> host_pings c e (incompleteHosts u) (read_clock e u);
     if global_ping_due c u1 then do {
       u2 \<leftarrow> sendGlobalPingProbe c e u1;
       Some (set_gstats (\<lambda>g. g\<lparr>g_lastping_sent := unow u2, g_lastping_sent_numprobes := probes_sent g\<rparr>) u2) }
     else Some u1 }"

section \<open>Retransmissions\<close>

text \<open>The cache maps a host to its iterator, None being the end of the list, which is also where a host that is not in the cache begins.\<close>

definition retransmit_host :: "scan_cfg \<Rightarrow> env \<Rightarrow> nat \<Rightarrow> (nat \<Rightarrow> nat option) \<Rightarrow> nat \<Rightarrow> usi \<Rightarrow> ((nat \<Rightarrow> nat option) \<times> nat \<times> usi) option" where
  "retransmit_host c e i cache retrans u =
     (if \<not> i < length (hosts u) then None
      else if num_probes_active (hosts u ! i) = 0 \<and> num_probes_waiting_retransmit (hosts u ! i) = 0 then Some (cache, retrans, u)
      else do {
        (good, _) \<leftarrow> hss_sendOK c i u;
        if \<not> good then Some (cache, retrans, u)
        else do {
          (sent, it, h, g) \<leftarrow> host_retransmit c (unow u) (e_send e (ticks u) True) (cache i) (hosts u ! i, gstats u);
          let u1 = u\<lparr>hosts := (hosts u)[i := h], gstats := g\<rparr>;
          Some (cache(i := it), if sent then retrans + 1 else retrans, if sent then read_clock e u1 else u1) } })"

fun retransmit_pass :: "scan_cfg \<Rightarrow> env \<Rightarrow> nat list \<Rightarrow> (nat \<Rightarrow> nat option) \<Rightarrow> nat \<Rightarrow> usi \<Rightarrow> ((nat \<Rightarrow> nat option) \<times> nat \<times> usi) option" where
  "retransmit_pass c e [] cache retrans u = Some (cache, retrans, u)"
| "retransmit_pass c e (i # js) cache retrans u =
     (if \<not> fst (usi_sendOK c u) then Some (cache, retrans, u)
      else do { (cache1, retrans1, u1) \<leftarrow> retransmit_host c e i cache retrans u; retransmit_pass c e js cache1 retrans1 u1 })"

partial_function (option) retransmit_loop :: "scan_cfg \<Rightarrow> env \<Rightarrow> (nat \<Rightarrow> nat option) \<Rightarrow> usi \<Rightarrow> usi option" where
  "retransmit_loop c e cache u = do {
     (cache1, retrans, u1) \<leftarrow> retransmit_pass c e (incompleteHosts u) cache 0 u;
     if fst (usi_sendOK c u1) \<and> retrans \<noteq> 0 then retransmit_loop c e cache1 u1 else Some u1 }"

declare retransmit_loop.simps [code]

definition doAnyOutstandingRetransmits :: "scan_cfg \<Rightarrow> env \<Rightarrow> usi \<Rightarrow> usi option" where
  "doAnyOutstandingRetransmits c e u = map_option (read_clock e) (retransmit_loop c e (\<lambda>_. None) (read_clock e u))"

section \<open>Replies\<close>

definition outstanding :: "usi \<Rightarrow> nat \<Rightarrow> nat \<Rightarrow> ultraprobe option" where
  "outstanding u i k = (case findHost u i of None \<Rightarrow> None
     | Some a \<Rightarrow> if a < length (hosts u) \<and> k < length (probes_outstanding (hosts u ! a)) then Some (probes_outstanding (hosts u ! a) ! k) else None)"

definition host_up_reply :: "scan_cfg \<Rightarrow> tval \<Rightarrow> nat \<Rightarrow> nat \<Rightarrow> tval \<Rightarrow> nat \<Rightarrow> hg \<Rightarrow> hg option" where
  "host_up_reply c now k newstate rcvd reason hg = do {
     hg1 \<leftarrow> ultrascan_host_probe_update c now k newstate (Some rcvd) True hg;
     (h, g) \<leftarrow> (if newstate = HOST_UP then destroyAllOutstandingProbes hg1 else Some hg1);
     Some (h\<lparr>target := (target h)\<lparr>t_reason := reason\<rparr>\<rparr>, g) }"

text \<open>The last probe that was sent at least 25 milliseconds before the reply, or the first probe.\<close>

primrec arp_search :: "tval \<Rightarrow> ultraprobe list \<Rightarrow> nat \<Rightarrow> nat" where
  "arp_search rcvd ps 0 = 0"
| "arp_search rcvd ps (Suc k) =
     (if TIMEVAL_AFTER (TIMEVAL_MSEC_ADD (sent (ps ! k)) (200 div 8)) rcvd \<and> k \<noteq> 0 then arp_search rcvd ps k else k)"

abbreviation (input) "ER_ARPRESPONSE \<equiv> 23 :: nat"
abbreviation (input) "ER_NDRESPONSE \<equiv> 24 :: nat"

definition arp_reply :: "scan_cfg \<Rightarrow> tval \<Rightarrow> tval \<Rightarrow> hg \<Rightarrow> (bool \<times> hg) option" where
  "arp_reply c now rcvd = (\<lambda>(h, g).
     let h1 = h\<lparr>target := (target h)\<lparr>t_reason := (if ping_scan_nd c then ER_NDRESPONSE else ER_ARPRESPONSE)\<rparr>\<rparr> in
     if probes_outstanding h1 = [] then Some (False, h1\<lparr>target := (target h1)\<lparr>flags := HOST_UP\<rparr>\<rparr>, g)
     else do {
       hg1 \<leftarrow> ultrascan_host_probe_update c now (arp_search rcvd (probes_outstanding h1) (length (probes_outstanding h1))) HOST_UP (Some rcvd) True (h1, g);
       hg2 \<leftarrow> destroyAllOutstandingProbes hg1;
       Some (True, hg2) })"

definition port_reply :: "scan_cfg \<Rightarrow> tval \<Rightarrow> nat \<Rightarrow> nat \<Rightarrow> tval \<Rightarrow> bool \<Rightarrow> nat \<Rightarrow> nat \<Rightarrow> hg \<Rightarrow> hg option" where
  "port_reply c now k newstate rcvd adjust reason ttl hg =
     (if \<not> k < length (probes_outstanding (fst hg)) then None
      else let ps = mypspec (probes_outstanding (fst hg) ! k) in do {
        hg1 \<leftarrow> ultrascan_port_probe_update c now k newstate (Some rcvd) adjust hg;
        if prot_scan c then set_reason c (ps_proto ps) IPPROTO_IP reason ttl hg1
        else set_reason c (spec_dport ps) (ps_proto ps) reason ttl hg1 })"

text \<open>The probes of one host in \<open>do_one_select_round\<close>: \<open>n\<close> probes are left, the next one is at index \<open>k\<close>; \<open>res\<close> is the result of
  \<open>select\<close> and \<open>good\<close> the number of sockets found so far.\<close>

primrec select_probes :: "scan_cfg \<Rightarrow> tval \<Rightarrow> nat \<Rightarrow> (int \<Rightarrow> (connect_errno \<times> bool option) option) \<Rightarrow> nat \<Rightarrow> nat \<Rightarrow> nat \<Rightarrow> hg \<Rightarrow> (nat \<times> hg) option" where
  "select_probes c now res ready 0 k good hg = Some (good, hg)"
| "select_probes c now res ready (Suc n) k good hg =
     (if \<not> k < length (probes_outstanding (fst hg)) \<or> \<not> good < res then Some (good, hg)
      else let p = probes_outstanding (fst hg) ! k; len = length (probes_outstanding (fst hg)) in
        if up_type p \<noteq> UP_CONNECT then None
        else case (if sd p \<ge> 0 then ready (sd p) else None) of
          None \<Rightarrow> select_probes c now res ready n (Suc k) good hg
        | Some (err, self) \<Rightarrow> do {
            hg1 \<leftarrow> handleConnectResult c now k err self False hg;
            select_probes c now res ready n (if length (probes_outstanding (fst hg1)) = len then Suc k else k) (good + 1) hg1 })"

fun select_hosts :: "scan_cfg \<Rightarrow> nat \<Rightarrow> (int \<Rightarrow> (connect_errno \<times> bool option) option) \<Rightarrow> nat list \<Rightarrow> nat \<Rightarrow> usi \<Rightarrow> (nat \<times> usi) option" where
  "select_hosts c res ready [] good u = Some (good, u)"
| "select_hosts c res ready (i # js) good u =
     (if \<not> good < res then Some (good, u)
      else if \<not> i < length (hosts u) then None
      else if num_probes_active (hosts u ! i) = 0 then select_hosts c res ready js good u
      else do {
        (good1, h, g) \<leftarrow> select_probes c (unow u) res ready (length (probes_outstanding (hosts u ! i))) 0 good (hosts u ! i, gstats u);
        select_hosts c res ready js good1 (u\<lparr>hosts := (hosts u)[i := h], gstats := g\<rparr>) })"

definition do_one_select_round :: "scan_cfg \<Rightarrow> nat \<Rightarrow> (int \<Rightarrow> (connect_errno \<times> bool option) option) \<Rightarrow> usi \<Rightarrow> (bool \<times> usi) option" where
  "do_one_select_round c res ready u =
     map_option (\<lambda>(good, u1). (good \<noteq> 0, u1)) (select_hosts c res ready (incompleteHosts u @ completedHosts u) 0 u)"

text \<open>A reply that matches no outstanding probe is dropped.  The result says whether the reply counts.\<close>

definition receive :: "scan_cfg \<Rightarrow> reply \<Rightarrow> usi \<Rightarrow> (bool \<times> usi) option" where
  "receive c r u = (case r of
       Ping_reply i k rcvd adjust \<Rightarrow> (case outstanding u i k of None \<Rightarrow> Some (False, u)
         | Some p \<Rightarrow> if isPing p then map_option (Pair True) (on_host i (ultrascan_ping_update c (unow u) k (Some rcvd) adjust) u) else Some (False, u))
     | Host_reply i k newstate rcvd reason \<Rightarrow> (case outstanding u i k of None \<Rightarrow> Some (False, u)
         | Some p \<Rightarrow> if \<not> isPing p then map_option (Pair True) (on_host i (host_up_reply c (unow u) k newstate rcvd reason) u) else Some (False, u))
     | Arp_reply i rcvd \<Rightarrow> (case findHost u i of None \<Rightarrow> Some (False, u)
         | Some a \<Rightarrow> if \<not> a < length (hosts u) then None
             else map_option (\<lambda>(b, h, g). (b, u\<lparr>hosts := (hosts u)[a := h], gstats := g\<rparr>)) (arp_reply c (unow u) rcvd (hosts u ! a, gstats u)))
     | Port_reply i k newstate rcvd adjust reason ttl \<Rightarrow> (case outstanding u i k of None \<Rightarrow> Some (False, u)
         | Some p \<Rightarrow> if \<not> isPing p then map_option (Pair True) (on_host i (port_reply c (unow u) k newstate rcvd adjust reason ttl) u) else Some (False, u))
     | Selected res ready \<Rightarrow> do_one_select_round c res ready u)"

text \<open>The replies of one wait; the clock is read before each.  The time of the next probe is computed before every reply that counts.\<close>

fun wait_loop :: "scan_cfg \<Rightarrow> env \<Rightarrow> reply list \<Rightarrow> usi \<Rightarrow> usi option" where
  "wait_loop c e [] u = Some (read_clock e u)"
| "wait_loop c e (r # rs) u = do {
     (good, u1) \<leftarrow> receive c r (read_clock e u);
     if good then
       (if g_active (gstats u1) > 0 then do { _ \<leftarrow> UltraScanInfo_sendOK c u1; wait_loop c e rs u1 } else Some u1)
     else wait_loop c e rs u1 }"

definition waitForResponses :: "scan_cfg \<Rightarrow> env \<Rightarrow> usi \<Rightarrow> usi option" where
  "waitForResponses c e u = do {
     let u1 = read_clock e u;
     let u2 = set_gstats (\<lambda>g. g\<lparr>last_wait := unow u1, probes_sent_at_last_wait := probes_sent g\<rparr>) u1;
     _ \<leftarrow> UltraScanInfo_sendOK c u2;
     u3 \<leftarrow> wait_loop c e (e_replies e (ticks u2)) u2;
     let u4 = read_clock e u3;
     Some (set_gstats (\<lambda>g. g\<lparr>last_wait := unow u4\<rparr>) u4) }"

section \<open>Expiry\<close>

definition purge_completed :: "usi \<Rightarrow> usi" where
  "purge_completed u =
     (if TIMEVAL_AFTER (unow u) (TIMEVAL_MSEC_ADD (lastCompletedHostRemoval u) (120000 div 2)) then
        u\<lparr>completedHosts := filter (\<lambda>i. pinghost u = Some i \<or>
            \<not> TIMEVAL_AFTER (unow u) (TIMEVAL_MSEC_ADD (completiontime (hosts u ! i)) 120000)) (completedHosts u),
          lastCompletedHostRemoval := unow u\<rparr>
      else u)"

definition take_pinghost :: "usi \<Rightarrow> hss \<Rightarrow> bool" where
  "take_pinghost u h \<longleftrightarrow> (case pinghost u of
       None \<Rightarrow> ps_type (pingprobe (target h)) \<noteq> PS_NONE
     | Some p \<Rightarrow> let ph = hosts u ! p in num_probes_active ph = 0 \<and>
         \<not> pingprobe_is_better (pingprobe (target ph)) (pingprobe_state (target ph)) (pingprobe (target h)) (pingprobe_state (target h)))"

definition complete_host :: "nat \<Rightarrow> bool \<Rightarrow> usi \<Rightarrow> usi option" where
  "complete_host i timed u = do {
     let next = (if nextI u = i \<and> length (incompleteHosts u) > 1 then ring_next (incompleteHosts u) i else nextI u);
     let h = (hosts u ! i)\<lparr>completiontime := unow u\<rparr>;
     let ph = (if take_pinghost u h then Some i else pinghost u);
     t \<leftarrow> (if toclock_running (target h) then stopTimeOutClock (unow u) (target h) else Some (target h));
     Some (u\<lparr>nextI := next, hosts := (hosts u)[i := h\<lparr>target := t\<rparr>], completedHosts := insort i (completedHosts u),
       incompleteHosts := remove1 i (incompleteHosts u), pinghost := ph,
       gstats := (if timed then (gstats u)\<lparr>num_hosts_timedout := num_hosts_timedout (gstats u) + 1\<rparr> else gstats u)\<rparr>) }"

fun remove_hosts :: "scan_cfg \<Rightarrow> nat list \<Rightarrow> usi \<Rightarrow> usi option" where
  "remove_hosts c [] u = Some u"
| "remove_hosts c (i # js) u =
     (if \<not> i < length (hosts u) then None
      else do {
        let timed = Target_timedOut c (unow u) (target (hosts u ! i));
        done \<leftarrow> completed c (hosts u ! i);
        u1 \<leftarrow> (if done \<or> timed then complete_host i timed u else Some u);
        remove_hosts c js u1 })"

definition removeCompletedHosts :: "scan_cfg \<Rightarrow> usi \<Rightarrow> usi option" where
  "removeCompletedHosts c u = remove_hosts c (incompleteHosts u) (purge_completed u)"

fun process_hosts :: "scan_cfg \<Rightarrow> nat list \<Rightarrow> usi \<Rightarrow> usi option" where
  "process_hosts c [] u = Some u"
| "process_hosts c (i # js) u = do { u1 \<leftarrow> on_host i (process_host c (unow u)) u; process_hosts c js u1 }"

text \<open>The expired pings of the global ping host: \<open>n\<close> probes are left, the next one is at index \<open>k\<close>.\<close>

primrec expire_pings :: "scan_cfg \<Rightarrow> tval \<Rightarrow> nat \<Rightarrow> nat \<Rightarrow> hg \<Rightarrow> hg option" where
  "expire_pings c now 0 k hg = Some hg"
| "expire_pings c now (Suc n) k hg =
     (if \<not> k < length (probes_outstanding (fst hg)) then None
      else let p = probes_outstanding (fst hg) ! k in
        if isPing p \<and> TIMEVAL_SUBTRACT now (sent p) > probeTimeout hg
        then do { hg1 \<leftarrow> ultrascan_ping_update c now k None True hg; expire_pings c now n k hg1 }
        else expire_pings c now n (Suc k) hg)"

definition processData :: "scan_cfg \<Rightarrow> env \<Rightarrow> usi \<Rightarrow> usi option" where
  "processData c e u = do {
     u1 \<leftarrow> removeCompletedHosts c (read_clock e u);
     if incompleteHosts u1 = [] then Some u1
     else do {
       u2 \<leftarrow> process_hosts c (incompleteHosts u1) u1;
       u3 \<leftarrow> removeCompletedHosts c u2;
       u4 \<leftarrow> (case pinghost u3 of None \<Rightarrow> Some u3
         | Some p \<Rightarrow> if \<not> p < length (hosts u3) then None
             else on_host p (expire_pings c (unow u3) (length (probes_outstanding (hosts u3 ! p))) 0) u3);
       Some (read_clock e u4) } }"

section \<open>The main loop\<close>

definition print_progress :: "scan_cfg \<Rightarrow> bool \<Rightarrow> usi \<Rightarrow> usi option" where
  "print_progress c b u = (if b then map_option snd (getCompletionFraction c u) else Some u)"

definition scan_round :: "scan_cfg \<Rightarrow> env \<Rightarrow> usi \<Rightarrow> usi option" where
  "scan_round c e u = do {
     u1 \<leftarrow> doAnyPings c e u;
     u2 \<leftarrow> doAnyOutstandingRetransmits c e u1;
     u3 \<leftarrow> doAnyRetryStackRetransmits c e u2;
     u4 \<leftarrow> doAnyNewProbes c e u3;
     let u5 = read_clock e u4;
     u6 \<leftarrow> print_progress c (e_print e (ticks u5)) u5;
     u7 \<leftarrow> waitForResponses c e u6;
     u8 \<leftarrow> processData c e (read_clock e u7);
     print_progress c (e_key e (ticks u8)) u8 }"

text \<open>At most \<open>n\<close> rounds of the loop of \<open>ultra_scan\<close>.\<close>

primrec scan_rounds :: "scan_cfg \<Rightarrow> env \<Rightarrow> nat \<Rightarrow> usi \<Rightarrow> usi option" where
  "scan_rounds c e 0 u = Some u"
| "scan_rounds c e (Suc n) u =
     (if incompleteHosts u = [] then Some u else do { u1 \<leftarrow> scan_round c e u; scan_rounds c e n u1 })"

text \<open>\<open>ultra_scan\<close> with at most \<open>n\<close> rounds: the state at the end, None when nothing was to be done, and the timeouts that the caller shares
  across scans.  The rate meter is stopped at the end.  The base port in \<open>c\<close> is that after \<open>increment_base_port\<close>.\<close>

definition end_scan :: "usi \<Rightarrow> usi option" where
  "end_scan u = do {
     m \<leftarrow> PacketRateMeter_stop (unow u) (send_rate_meter (gstats u));
     Some (set_gstats (\<lambda>g. g\<lparr>send_rate_meter := m\<rparr>) u) }"

definition ultra_scan :: "scan_cfg \<Rightarrow> env \<Rightarrow> int \<Rightarrow> rat \<Rightarrow> target list \<Rightarrow> timeout_info option \<Rightarrow> nat \<Rightarrow> (usi option \<times> timeout_info option) option" where
  "ultra_scan c e max_sd h targets shared n =
     (if targets = [] then Some (None, shared)
      else do {
        u \<leftarrow> UltraScanInfo_Init c e max_sd h targets;
        if numprobes (gstats u) \<le> 0 then Some (None, shared)
        else do {
          u1 \<leftarrow> scan_rounds c e n (case shared of None \<Rightarrow> u | Some t \<Rightarrow> set_gstats (\<lambda>g. g\<lparr>g_to := t\<rparr>) u);
          u2 \<leftarrow> (if incompleteHosts u1 = [] then end_scan u1 else Some u1);
          Some (Some u2, map_option (\<lambda>_. g_to (gstats u2)) shared) } })"

end
