(* ===== verification/Scan_Match.thy ===== *)
theory Scan_Match
  imports Scan_Engine
begin

text \<open>
  The packets that a raw scan receives, \<open>scan_engine_raw.cc\<close>: how a packet is matched to the probe that provoked it, what it says of the
  host or port, and the loops that read packets until one counts.  A packet comes decoded as by \<open>readip_pcap\<close> and \<open>ip_get_data\<close>;
  addresses are compared only for equality and are numbers.  \<^const>\<open>None\<close> is a failed assertion, \<open>fatal\<close> or a null pointer.
\<close>

unbundle bit_operations_syntax

section \<open>Packets\<close>

type_synonym address = nat

record ip_hdr =
  ip_src :: address
  ip_dst :: address
  ip_id :: nat
  ip_ttl :: nat

record tcp_hdr =
  th_sport :: nat
  th_dport :: nat
  th_seq :: u32
  th_ack :: u32
  th_flags :: u8
  th_win :: nat

text \<open>The packet in an ICMP error: its addresses, protocol and length behind the IP header, and its first eight bytes, which are the ports and
  the sequence number or verification tag.\<close>

record inner =
  in_src :: address
  in_dst :: address
  in_proto :: nat
  in_len :: nat
  in_sport :: nat
  in_dport :: nat
  in_word :: u32

record icmp_msg =
  ic_type :: nat
  ic_code :: nat
  ic_id :: nat
  ic_len :: nat
  ic_inner :: "inner option"

text \<open>SCTP has the type of the first chunk; of another protocol there are the number and the first two bytes.\<close>

datatype payload = P_tcp tcp_hdr | P_udp nat nat | P_sctp nat nat u32 nat | P_icmp icmp_msg | P_icmp6 icmp_msg | P_other nat nat nat

record packet =
  p_ip :: ip_hdr
  p_load :: payload

fun load_proto :: "payload \<Rightarrow> nat" where
  "load_proto (P_tcp _) = IPPROTO_TCP"
| "load_proto (P_udp _ _) = IPPROTO_UDP"
| "load_proto (P_sctp _ _ _ _) = IPPROTO_SCTP"
| "load_proto (P_icmp _) = IPPROTO_ICMP"
| "load_proto (P_icmp6 _) = IPPROTO_ICMPV6"
| "load_proto (P_other p _ _) = p"

text \<open>The first two bytes.\<close>

fun load_bytes :: "payload \<Rightarrow> nat \<times> nat" where
  "load_bytes (P_tcp t) = (th_sport t div 256, th_sport t mod 256)"
| "load_bytes (P_udp s _) = (s div 256, s mod 256)"
| "load_bytes (P_sctp s _ _ _) = (s div 256, s mod 256)"
| "load_bytes (P_icmp m) = (ic_type m, ic_code m)"
| "load_bytes (P_icmp6 m) = (ic_type m, ic_code m)"
| "load_bytes (P_other _ a b) = (a, b)"

text \<open>The addresses of the hosts, and those that probes to a host are sent from.\<close>

record net =
  host_addr :: "nat \<Rightarrow> address"
  source_addr :: "nat \<Rightarrow> address"
  af_inet :: bool

definition find_host :: "net \<Rightarrow> usi \<Rightarrow> address \<Rightarrow> nat option" where
  "find_host net u a = (case find (\<lambda>i. host_addr net i = a) (incompleteHosts u) of Some i \<Rightarrow> Some i
     | None \<Rightarrow> find (\<lambda>i. host_addr net i = a) (completedHosts u))"

section \<open>Reasons\<close>

abbreviation (input) "ER_RESETPEER \<equiv> 0 :: nat"
abbreviation (input) "ER_SYNACK \<equiv> 3 :: nat"
abbreviation (input) "ER_SYN \<equiv> 4 :: nat"
abbreviation (input) "ER_UDPRESPONSE \<equiv> 5 :: nat"
abbreviation (input) "ER_PROTORESPONSE \<equiv> 6 :: nat"
abbreviation (input) "ER_ECHOREPLY \<equiv> 12 :: nat"
abbreviation (input) "ER_INITACK \<equiv> 27 :: nat"
abbreviation (input) "ER_ABORT \<equiv> 28 :: nat"

definition icmpv4_to_reason :: "nat \<Rightarrow> nat \<Rightarrow> nat" where
  "icmpv4_to_reason ty code =
     (if ty = 0 then ER_ECHOREPLY
      else if ty = 3 then
        (if code = 0 then ER_NETUNREACH else if code = 1 then ER_HOSTUNREACH else if code = 2 then ER_PROTOUNREACH else if code = 3 then 11
         else if code = 9 then 15 else if code = 10 then 16 else if code = 13 then ER_ADMINPROHIBITED else ER_DESTUNREACH)
      else if ty = 4 then 14 else if ty = 11 then 18 else if ty = 14 then 19 else if ty = 18 then 20 else ER_UNKNOWN)"

definition icmpv6_to_reason :: "nat \<Rightarrow> nat \<Rightarrow> nat" where
  "icmpv6_to_reason ty code =
     (if ty = 129 then ER_ECHOREPLY
      else if ty = 1 then
        (if code = 0 then 33 else if code = 1 then ER_ADMINPROHIBITED else if code = 2 then 34 else if code = 3 then ER_HOSTUNREACH
         else if code = 4 then 11 else if code = 5 then ER_ADMINPROHIBITED else if code = 6 then 35 else ER_DESTUNREACH)
      else if ty = 4 then 36 else if ty = 3 then 18 else ER_UNKNOWN)"

definition icmp_to_reason :: "nat \<Rightarrow> nat \<Rightarrow> nat \<Rightarrow> nat" where
  "icmp_to_reason proto ty code = (if proto = IPPROTO_ICMP then icmpv4_to_reason ty code
     else if proto = IPPROTO_ICMPV6 then icmpv6_to_reason ty code else ER_UNKNOWN)"

section \<open>Matching a packet to a probe\<close>

definition probe_sport :: "ultraprobe \<Rightarrow> nat" where
  "probe_sport p = (if ps_proto (mypspec p) \<in> {IPPROTO_TCP, IPPROTO_UDP, IPPROTO_SCTP} then w_sport (up_wire p) else 0)"

definition probe_dport :: "ultraprobe \<Rightarrow> nat" where
  "probe_dport p = spec_dport (mypspec p)"

definition check_tryno_pingseq :: "ultraprobe \<Rightarrow> nat \<times> nat \<Rightarrow> bool" where
  "check_tryno_pingseq p = (\<lambda>(tn, seq). (seq = 0 \<and> tn = tryno p) \<or> (seq > 0 \<and> seq = pingseq p))"

text \<open>The packet is the probe itself, seen on the loopback interface.\<close>

definition own_packet :: "ip_hdr \<Rightarrow> ultraprobe \<Rightarrow> bool" where
  "own_packet ip p \<longleftrightarrow> probe_dport p = probe_sport p \<and> ip_src ip = ip_dst ip \<and> w_ipid (up_wire p) = ip_id ip"

definition icmp_probe_match :: "net \<Rightarrow> nat \<Rightarrow> ip_hdr \<Rightarrow> bool \<Rightarrow> icmp_msg \<Rightarrow> ultraprobe \<Rightarrow> bool" where
  "icmp_probe_match net i ip v6 m p \<longleftrightarrow>
     ps_proto (mypspec p) \<in> {IPPROTO_ICMPV6, IPPROTO_ICMP} \<and> source_addr net i = ip_dst ip \<and>
     \<not> (\<not> v6 \<and> ((ic_type m = 0 \<and> pd_type (ps_pd (mypspec p)) \<noteq> 8) \<or> (ic_type m = 14 \<and> pd_type (ps_pd (mypspec p)) \<noteq> 13) \<or>
        (ic_type m = 18 \<and> pd_type (ps_pd (mypspec p)) \<noteq> 17))) \<and>
     \<not> (v6 \<and> ic_type m = 129 \<and> pd_type (ps_pd (mypspec p)) \<noteq> 128) \<and>
     \<not> own_packet ip p \<and> ic_id m = w_icmpid (up_wire p)"

text \<open>The numbers that a TCP reply reflects; a source port that cannot be decoded counts as that of the first try.\<close>

definition tcp_numbers :: "scan_cfg \<Rightarrow> tcp_hdr \<Rightarrow> (nat \<times> nat) option" where
  "tcp_numbers c t =
     (if magic_port c \<noteq> None then
        (case seq32_decode (seqmask c) (th_ack t - 1) of Some x \<Rightarrow> Some x
         | None \<Rightarrow> (case seq32_decode (seqmask c) (th_ack t) of Some x \<Rightarrow> Some x | None \<Rightarrow> seq32_decode (seqmask c) (th_seq t)))
      else Some (case sport_decode c (th_dport t) of Some x \<Rightarrow> x | None \<Rightarrow> (0, 0)))"

definition has_flag :: "tcp_hdr \<Rightarrow> nat \<Rightarrow> bool" where
  "has_flag t f \<longleftrightarrow> th_flags t AND word_of_nat f \<noteq> 0"

definition syn_ack :: "tcp_hdr \<Rightarrow> bool" where
  "syn_ack t \<longleftrightarrow> has_flag t TH_SYN \<and> has_flag t TH_ACK"

definition tcp_probe_match :: "scan_cfg \<Rightarrow> net \<Rightarrow> nat \<Rightarrow> ip_hdr \<Rightarrow> tcp_hdr \<Rightarrow> ultraprobe \<Rightarrow> bool" where
  "tcp_probe_match c net i ip t p \<longleftrightarrow>
     ps_proto (mypspec p) = IPPROTO_TCP \<and> probe_dport p = th_sport t \<and> probe_sport p = th_dport t \<and> source_addr net i = ip_dst ip \<and>
     (case tcp_numbers c t of None \<Rightarrow> False | Some x \<Rightarrow> check_tryno_pingseq p x) \<and>
     \<not> (syn_ack t \<and> (word_of_nat (pd_flags (ps_pd (mypspec p))) :: u8) AND 2 = 0) \<and> \<not> own_packet ip p"

text \<open>A UDP or SCTP reply.\<close>

definition ports_match :: "net \<Rightarrow> nat \<Rightarrow> ip_hdr \<Rightarrow> nat \<Rightarrow> nat \<Rightarrow> nat \<Rightarrow> ultraprobe \<Rightarrow> bool" where
  "ports_match net i ip proto sp dp p \<longleftrightarrow> ps_proto (mypspec p) = proto \<and> probe_dport p = sp \<and> probe_sport p = dp \<and>
     source_addr net i = ip_dst ip \<and> \<not> own_packet ip p"

text \<open>The packet in an ICMP error is the probe.\<close>

definition inner_ports_match :: "inner \<Rightarrow> ultraprobe \<Rightarrow> bool" where
  "inner_ports_match n p \<longleftrightarrow> in_sport n = probe_sport p \<and> in_dport n = probe_dport p \<and>
     (in_proto n = IPPROTO_TCP \<longrightarrow> in_word n = w_seq (up_wire p)) \<and> (in_proto n = IPPROTO_SCTP \<longrightarrow> in_word n = w_vtag (up_wire p))"

section \<open>The search for the probe\<close>

text \<open>What a packet means for one probe: nothing, the end of the search, a failed assertion, or the state and the reason.\<close>

datatype verdict = Skip | Stop | Crash | Hit nat nat

text \<open>The search goes from the last probe to the first; \<open>n\<close> probes are left.  The result is the index of the probe, the state and the reason.\<close>

primrec search :: "(ultraprobe \<Rightarrow> verdict) \<Rightarrow> ultraprobe list \<Rightarrow> nat \<Rightarrow> (nat \<times> nat \<times> nat) option option" where
  "search f ps 0 = Some None"
| "search f ps (Suc k) = (case f (ps ! k) of Skip \<Rightarrow> search f ps k | Stop \<Rightarrow> Some None | Crash \<Rightarrow> None | Hit s r \<Rightarrow> Some (Some (k, s, r)))"

definition search_host :: "(ultraprobe \<Rightarrow> verdict) \<Rightarrow> usi \<Rightarrow> nat \<Rightarrow> (nat \<times> nat \<times> nat) option option" where
  "search_host f u i = (if \<not> i < length (hosts u) then None
     else search f (probes_outstanding (hosts u ! i)) (length (probes_outstanding (hosts u ! i))))"

section \<open>Port scans\<close>

text \<open>The state of the port that a TCP or SCTP reply to a probe stands for, and the reason.\<close>

definition tcp_port_state :: "scan_cfg \<Rightarrow> tcp_hdr \<Rightarrow> (nat \<times> nat) option" where
  "tcp_port_state c t =
     (if scantype c = SYN_SCAN \<and> syn_ack t then Some (PORT_OPEN, ER_SYNACK)
      else if has_flag t 4 then
        Some (if scantype c = WINDOW_SCAN then (if th_win t \<noteq> 0 then PORT_OPEN else PORT_CLOSED)
              else if scantype c = ACK_SCAN then PORT_UNFILTERED else PORT_CLOSED, ER_RESETPEER)
      else if scantype c = SYN_SCAN \<and> has_flag t TH_SYN then Some (PORT_OPEN, ER_SYN)
      else None)"

definition sctp_port_state :: "scan_cfg \<Rightarrow> nat \<Rightarrow> (nat \<times> nat) option" where
  "sctp_port_state c chunk =
     (if scantype c = SCTP_INIT_SCAN \<and> chunk = 2 then Some (PORT_OPEN, ER_INITACK)
      else if chunk = 6 then Some (PORT_CLOSED, ER_ABORT) else None)"

text \<open>The state that an ICMP error stands for; \<open>from_target\<close> says that the target sent it, and \<open>old\<close> is the variable \<open>newstate\<close>, which an
  unexpected code leaves as it is.\<close>

definition icmp_port_state :: "scan_cfg \<Rightarrow> bool \<Rightarrow> nat \<Rightarrow> nat \<Rightarrow> nat \<Rightarrow> nat" where
  "icmp_port_state c from_target ty code old =
     (if ty = 11 then PORT_FILTERED
      else if code \<in> {0, 1, 9, 10, 13} then PORT_FILTERED
      else if code = 2 then (if scantype c = IPPROT_SCAN \<and> from_target then PORT_CLOSED else PORT_FILTERED)
      else if code = 3 then (if scantype c = UDP_SCAN \<and> from_target then PORT_CLOSED
        else if scantype c = IPPROT_SCAN \<and> from_target then PORT_OPEN else PORT_FILTERED)
      else old)"

definition icmp6_port_state :: "scan_cfg \<Rightarrow> bool \<Rightarrow> nat \<Rightarrow> nat \<Rightarrow> nat \<Rightarrow> nat" where
  "icmp6_port_state c from_target ty code old =
     (if ty = 1 then
        (if code \<in> {0, 1, 2, 3, 5, 6} then PORT_FILTERED
         else if code = 4 then (if scantype c = UDP_SCAN \<and> from_target then PORT_CLOSED
           else if scantype c = IPPROT_SCAN \<and> from_target then PORT_OPEN else PORT_FILTERED)
         else old)
      else if code = 0 then PORT_OPEN
      else if code = 1 then (if scantype c = IPPROT_SCAN \<and> from_target then PORT_CLOSED else PORT_FILTERED)
      else old)"

definition tcp_verdict :: "scan_cfg \<Rightarrow> net \<Rightarrow> nat \<Rightarrow> ip_hdr \<Rightarrow> tcp_hdr \<Rightarrow> ultraprobe \<Rightarrow> verdict" where
  "tcp_verdict c net i ip t p =
     (if \<not> tcp_probe_match c net i ip t p then Skip
      else if isPing p then Hit PORT_UNKNOWN ER_NORESPONSE
      else case tcp_port_state c t of None \<Rightarrow> Stop | Some (s, r) \<Rightarrow> Hit s r)"

text \<open>An SCTP scan of another type than these two does not exist.\<close>

definition sctp_verdict :: "scan_cfg \<Rightarrow> net \<Rightarrow> nat \<Rightarrow> ip_hdr \<Rightarrow> nat \<Rightarrow> nat \<Rightarrow> nat \<Rightarrow> ultraprobe \<Rightarrow> verdict" where
  "sctp_verdict c net i ip sp dp chunk p =
     (if \<not> ports_match net i ip IPPROTO_SCTP sp dp p then Skip
      else if isPing p then Hit PORT_UNKNOWN ER_NORESPONSE
      else case sctp_port_state c chunk of None \<Rightarrow> Stop | Some (s, r) \<Rightarrow> Hit s r)"

definition udp_verdict :: "net \<Rightarrow> nat \<Rightarrow> ip_hdr \<Rightarrow> nat \<Rightarrow> nat \<Rightarrow> ultraprobe \<Rightarrow> verdict" where
  "udp_verdict net i ip sp dp p = (if ports_match net i ip IPPROTO_UDP sp dp p then Hit PORT_OPEN ER_UDPRESPONSE else Skip)"

definition error_verdict :: "scan_cfg \<Rightarrow> net \<Rightarrow> nat \<Rightarrow> inner \<Rightarrow> nat \<Rightarrow> nat \<Rightarrow> ultraprobe \<Rightarrow> verdict" where
  "error_verdict c net i n s r p =
     (if ps_proto (mypspec p) \<noteq> in_proto n \<or> source_addr net i \<noteq> in_src n \<or> host_addr net i \<noteq> in_dst n then Skip
      else if \<not> prot_scan c \<and> in_proto n \<in> {IPPROTO_TCP, IPPROTO_SCTP, IPPROTO_UDP} \<and> \<not> inner_ports_match n p then Skip
      else if \<not> prot_scan c \<and> in_proto n \<notin> {IPPROTO_TCP, IPPROTO_SCTP, IPPROTO_UDP} then Crash
      else if s = PORT_UNKNOWN then Stop else Hit s r)"

text \<open>A packet of the protocol that was looked for, unless it is the probe itself.\<close>

definition proto_verdict :: "nat \<Rightarrow> ip_hdr \<Rightarrow> ultraprobe \<Rightarrow> verdict" where
  "proto_verdict proto ip p =
     (if ps_proto (mypspec p) \<noteq> proto then Skip
      else if ip_src ip = ip_dst ip \<and> w_ipid (up_wire p) = ip_id ip then Stop else Hit PORT_OPEN ER_PROTORESPONSE)"

text \<open>The variables of \<open>get_pcap_result\<close> that outlive a packet.\<close>

record pcap_state =
  pc_good :: bool
  pc_hss :: "nat option"
  pc_probe :: nat
  pc_new :: nat
  pc_reason :: nat
  pc_hack :: "address option"

definition found :: "nat \<Rightarrow> (nat \<times> nat \<times> nat) option \<Rightarrow> pcap_state \<Rightarrow> pcap_state" where
  "found i r st = (case r of None \<Rightarrow> st\<lparr>pc_hss := Some i, pc_good := False\<rparr>
     | Some (k, s, reason) \<Rightarrow> st\<lparr>pc_hss := Some i, pc_good := True, pc_probe := k, pc_new := s, pc_reason := reason\<rparr>)"

text \<open>The search among the probes of the host with an address; without one, the loop goes on with the pointer to the host null.\<close>

definition search_at :: "net \<Rightarrow> usi \<Rightarrow> address \<Rightarrow> (nat \<Rightarrow> ultraprobe \<Rightarrow> verdict) \<Rightarrow> pcap_state \<Rightarrow> pcap_state option" where
  "search_at net u a f st = (case find_host net u a of None \<Rightarrow> Some (st\<lparr>pc_hss := None\<rparr>)
     | Some i \<Rightarrow> map_option (\<lambda>r. found i r st) (search_host (f i) u i))"

definition proto_packet :: "net \<Rightarrow> usi \<Rightarrow> packet \<Rightarrow> pcap_state \<Rightarrow> pcap_state option" where
  "proto_packet net u pkt st =
     (case p_load pkt of
       P_icmp _ \<Rightarrow> (case find_host net u (ip_src (p_ip pkt)) of None \<Rightarrow> Some (st\<lparr>pc_hss := None\<rparr>)
         | Some i \<Rightarrow> Some (st\<lparr>pc_hss := Some i, pc_hack := Some (ip_src (p_ip pkt))\<rparr>))
     | l \<Rightarrow> search_at net u (ip_src (p_ip pkt)) (\<lambda>_. proto_verdict (load_proto l) (p_ip pkt)) st)"

text \<open>The protocol of the packet in an ICMP error fits the scan, and there is enough of it.\<close>

definition inner_usable :: "scan_cfg \<Rightarrow> inner \<Rightarrow> bool" where
  "inner_usable c n \<longleftrightarrow> \<not> ((tcp_scan c \<or> udp_scan c \<or> sctp_scan c) \<and> in_len n < 8) \<and> (tcp_scan c \<longrightarrow> in_proto n = IPPROTO_TCP) \<and>
     (udp_scan c \<longrightarrow> in_proto n = IPPROTO_UDP) \<and> (sctp_scan c \<longrightarrow> in_proto n = IPPROTO_SCTP)"

definition error_packet :: "scan_cfg \<Rightarrow> net \<Rightarrow> usi \<Rightarrow> nat \<Rightarrow> address \<Rightarrow> icmp_msg \<Rightarrow> pcap_state \<Rightarrow> pcap_state option" where
  "error_packet c net u proto src m st =
     (if ic_len m < 8 \<or> ic_type m \<notin> (if proto = IPPROTO_ICMP then {3, 11} else {1, 4}) then Some st
      else case ic_inner m of None \<Rightarrow> Some st
      | Some n \<Rightarrow>
          if \<not> inner_usable c n then Some st
          else search_at net u (in_dst n) (\<lambda>i. error_verdict c net i n
            (if proto = IPPROTO_ICMP then icmp_port_state c (host_addr net i = src) (ic_type m) (ic_code m) (pc_new st)
             else icmp6_port_state c (host_addr net i = src) (ic_type m) (ic_code m) (pc_new st))
            (icmp_to_reason proto (ic_type m) (ic_code m))) st)"

text \<open>The state is reset for a UDP packet; outside a protocol scan it is unknown before every packet anyway.\<close>

definition pcap_packet :: "scan_cfg \<Rightarrow> net \<Rightarrow> usi \<Rightarrow> packet \<Rightarrow> pcap_state \<Rightarrow> pcap_state option" where
  "pcap_packet c net u pkt st0 = do {
     st \<leftarrow> (if prot_scan c then proto_packet net u pkt st0 else Some st0);
     let ip = p_ip pkt;
     (case p_load pkt of
        P_tcp t \<Rightarrow> if prot_scan c then Some st else search_at net u (ip_src ip) (\<lambda>i. tcp_verdict c net i ip t) st
      | P_sctp sp dp _ chunk \<Rightarrow> if prot_scan c then Some st else search_at net u (ip_src ip) (\<lambda>i. sctp_verdict c net i ip sp dp chunk) st
      | P_icmp m \<Rightarrow> error_packet c net u IPPROTO_ICMP (ip_src ip) m st
      | P_icmp6 m \<Rightarrow> error_packet c net u IPPROTO_ICMPV6 (ip_src ip) m st
      | P_udp sp dp \<Rightarrow> if prot_scan c then Some st
          else search_at net u (ip_src ip) (\<lambda>i. udp_verdict net i ip sp dp) (st\<lparr>pc_new := PORT_UNKNOWN\<rparr>)
      | P_other _ _ _ \<Rightarrow> Some st) }"

text \<open>What reading from the device can give, with the time after it: nothing in time, nothing yet, or a packet, the time it was received, and
  whether it is so late that no other is waited for.  A packet without data is one that \<open>ip_get_data\<close> refuses.\<close>

datatype capture = Timeout tval | Quiet tval | Packet tval tval bool "packet option"

text \<open>The loop; the result has the last packet and when it was received.\<close>

fun pcap_loop :: "scan_cfg \<Rightarrow> net \<Rightarrow> capture list \<Rightarrow> tval \<times> packet option \<Rightarrow> pcap_state \<Rightarrow> usi \<Rightarrow> (pcap_state \<times> (tval \<times> packet option) \<times> usi) option" where
  "pcap_loop c net [] l st u = Some (st, l, u)"
| "pcap_loop c net (Timeout now # es) l st u = Some (st, l, u\<lparr>unow := now\<rparr>)"
| "pcap_loop c net (Quiet now # es) l st u = pcap_loop c net es l st (u\<lparr>unow := now\<rparr>)"
| "pcap_loop c net (Packet now rcvd late d # es) l st u = do {
     let u1 = u\<lparr>unow := now\<rparr>;
     st1 \<leftarrow> (case d of None \<Rightarrow> Some st | Some pkt \<Rightarrow> pcap_packet c net u1 pkt st);
     if pc_good st1 \<or> late then Some (st1, (rcvd, d), u1) else pcap_loop c net es (rcvd, d) st1 u1 }"

text \<open>The answer to an ICMP probe of a protocol scan, which is handled after the packet; its reason is read from the last packet.\<close>

definition icmp_hack :: "scan_cfg \<Rightarrow> net \<Rightarrow> tval \<times> packet option \<Rightarrow> address \<Rightarrow> bool \<Rightarrow> usi \<Rightarrow> (bool \<times> usi) option" where
  "icmp_hack c net l a good u = (case find_host net u a of None \<Rightarrow> Some (good, u)
     | Some i \<Rightarrow> do {
         r \<leftarrow> search_host (\<lambda>p. if ps_proto (mypspec p) = IPPROTO_ICMP then Hit 0 0 else Skip) u i;
         (case r of None \<Rightarrow> Some (good, u)
          | Some (k, _, _) \<Rightarrow>
              if isPing (probes_outstanding (hosts u ! i) ! k)
              then map_option (Pair True) (on_host i (ultrascan_ping_update c (unow u) k (Some (fst l)) True) u)
              else (case snd l of None \<Rightarrow> None
                | Some pkt \<Rightarrow> let (ty, code) = load_bytes (p_load pkt);
                    reason = (if code = 0 \<and> ty = 0 then ER_ECHOREPLY else icmp_to_reason (load_proto (p_load pkt)) ty code) in
                    map_option (Pair True) (on_host i (port_reply c (unow u) k PORT_OPEN (fst l) True reason (ip_ttl (p_ip pkt))) u))) })"

definition pcap_start :: pcap_state where
  "pcap_start = \<lparr>pc_good = False, pc_hss = None, pc_probe = 0, pc_new = PORT_UNKNOWN, pc_reason = ER_NORESPONSE, pc_hack = None\<rparr>"

definition get_pcap_result :: "scan_cfg \<Rightarrow> net \<Rightarrow> capture list \<Rightarrow> usi \<Rightarrow> (bool \<times> usi) option" where
  "get_pcap_result c net es u = do {
     (st, l, u1) \<leftarrow> pcap_loop c net es (tv_zero, None) pcap_start u;
     u2 \<leftarrow> (if \<not> pc_good st then Some u1
       else case (pc_hss st, snd l) of
         (Some i, Some pkt) \<Rightarrow>
           if \<not> i < length (hosts u1) \<or> \<not> pc_probe st < length (probes_outstanding (hosts u1 ! i)) then None
           else if isPing (probes_outstanding (hosts u1 ! i) ! pc_probe st)
           then on_host i (ultrascan_ping_update c (unow u1) (pc_probe st) (Some (fst l)) True) u1
           else on_host i (port_reply c (unow u1) (pc_probe st) (pc_new st) (fst l) True (pc_reason st) (ip_ttl (p_ip pkt))) u1
       | _ \<Rightarrow> None);
     (case pc_hack st of None \<Rightarrow> Some (pc_good st, u2) | Some a \<Rightarrow> icmp_hack c net l a (pc_good st) u2) }"

section \<open>Host discovery\<close>

text \<open>An answer to an ICMP probe.\<close>

definition echo_verdict :: "net \<Rightarrow> nat \<Rightarrow> ip_hdr \<Rightarrow> bool \<Rightarrow> icmp_msg \<Rightarrow> nat \<Rightarrow> ultraprobe \<Rightarrow> verdict" where
  "echo_verdict net i ip v6 m reason p = (if icmp_probe_match net i ip v6 m p then Hit HOST_UP reason else Skip)"

text \<open>The bits of the options: whether this protocol is probed.\<close>

definition probed :: "scan_cfg \<Rightarrow> nat \<Rightarrow> bool" where
  "probed c proto \<longleftrightarrow> (proto \<in> {IPPROTO_ICMP, IPPROTO_ICMPV6} \<and> rawicmpscan c) \<or> (proto = IPPROTO_TCP \<and> rawtcpscan c) \<or>
     (proto = IPPROTO_UDP \<and> rawudpscan c) \<or> (proto = IPPROTO_SCTP \<and> rawsctpscan c)"

text \<open>The probe that an ICMP error is about.  The number of an ICMP probe is compared with the field of the error itself.\<close>

definition ping_error_verdict :: "scan_cfg \<Rightarrow> net \<Rightarrow> nat \<Rightarrow> ip_hdr \<Rightarrow> icmp_msg \<Rightarrow> inner \<Rightarrow> ultraprobe \<Rightarrow> verdict" where
  "ping_error_verdict c net i ip m n p =
     (if ps_proto (mypspec p) \<noteq> in_proto n \<or> source_addr net i \<noteq> ip_dst ip \<or> source_addr net i \<noteq> in_src n \<or> host_addr net i \<noteq> in_dst n \<or>
        (ps_proto (mypspec p) \<in> {IPPROTO_ICMP, IPPROTO_ICMPV6} \<and> ic_id m \<noteq> w_icmpid (up_wire p)) then Skip
      else if in_proto n \<in> {IPPROTO_ICMP, IPPROTO_ICMPV6} \<and> rawicmpscan c then Hit 0 0
      else if probed c (in_proto n) then (if inner_ports_match n p then Hit 0 0 else Skip)
      else if rawprotoscan c then Hit 0 0 else Crash)"

text \<open>The reason of a TCP answer; \<open>old\<close> is the variable, which is kept when no case applies.\<close>

definition tcp_ping_reason :: "scan_cfg \<Rightarrow> tcp_hdr \<Rightarrow> nat \<Rightarrow> nat" where
  "tcp_ping_reason c t old =
     (if PINGTYPE_TCP_USE_SYN (pingtype c) then (if has_flag t 4 then ER_RESETPEER else if syn_ack t then ER_SYNACK else old)
      else if PINGTYPE_TCP_USE_ACK (pingtype c) \<and> has_flag t 4 then ER_RESETPEER else old)"

definition tcp_ping_verdict :: "scan_cfg \<Rightarrow> net \<Rightarrow> nat \<Rightarrow> ip_hdr \<Rightarrow> tcp_hdr \<Rightarrow> nat \<Rightarrow> ultraprobe \<Rightarrow> verdict" where
  "tcp_ping_verdict c net i ip t old p = (if tcp_probe_match c net i ip t p then Hit HOST_UP (tcp_ping_reason c t old) else Skip)"

definition port_ping_verdict :: "net \<Rightarrow> nat \<Rightarrow> ip_hdr \<Rightarrow> nat \<Rightarrow> nat \<Rightarrow> nat \<Rightarrow> nat \<Rightarrow> ultraprobe \<Rightarrow> verdict" where
  "port_ping_verdict net i ip proto sp dp reason p = (if af_inet net \<and> ports_match net i ip proto sp dp p then Hit HOST_UP reason else Skip)"

definition proto_ping_verdict :: "nat \<Rightarrow> ip_hdr \<Rightarrow> ultraprobe \<Rightarrow> verdict" where
  "proto_ping_verdict proto ip p =
     (if ps_proto (mypspec p) \<noteq> proto then Skip
      else if ip_src ip = ip_dst ip \<and> w_ipid (up_wire p) = ip_id ip then Stop else Hit HOST_UP ER_PROTORESPONSE)"

text \<open>Each branch says whether the loop goes on with the next packet at once (\<open>continue\<close>), before the check for an answer of a protocol.\<close>

definition search_ping :: "net \<Rightarrow> usi \<Rightarrow> address \<Rightarrow> (nat \<Rightarrow> ultraprobe \<Rightarrow> verdict) \<Rightarrow> pcap_state \<Rightarrow> (bool \<times> pcap_state) option" where
  "search_ping net u a f st = (case find_host net u a of None \<Rightarrow> Some (True, st\<lparr>pc_hss := None\<rparr>)
     | Some i \<Rightarrow> map_option (\<lambda>r. (False, found i r st)) (search_host (f i) u i))"

text \<open>An error counts only when it says that the destination is unreachable.\<close>

definition ping_error :: "scan_cfg \<Rightarrow> net \<Rightarrow> usi \<Rightarrow> nat \<Rightarrow> ip_hdr \<Rightarrow> icmp_msg \<Rightarrow> pcap_state \<Rightarrow> (bool \<times> pcap_state) option" where
  "ping_error c net u proto ip m st =
     (if ic_len m < 8 then Some (True, st)
      else case ic_inner m of None \<Rightarrow> Some (True, st)
      | Some n \<Rightarrow>
          if \<not> rawprotoscan c \<and> in_proto n \<in> {IPPROTO_ICMP, IPPROTO_ICMPV6, IPPROTO_TCP, IPPROTO_UDP, IPPROTO_SCTP} \<and> \<not> probed c (in_proto n)
          then Some (True, st)
          else case find_host net u (in_dst n) of None \<Rightarrow> Some (True, st\<lparr>pc_hss := None\<rparr>)
          | Some i \<Rightarrow> do {
              r \<leftarrow> search_host (ping_error_verdict c net i ip m n) u i;
              (case r of None \<Rightarrow> Some (True, st\<lparr>pc_hss := Some i\<rparr>)
               | Some (k, _, _) \<Rightarrow>
                   if (proto = IPPROTO_ICMP \<and> ic_type m = 3) \<or> (proto = IPPROTO_ICMPV6 \<and> ic_type m = 1)
                   then Some (False, st\<lparr>pc_hss := Some i, pc_probe := k, pc_good := True, pc_new := (if host_addr net i = ip_src ip then HOST_UP else HOST_DOWN)\<rparr>)
                   else Some (False, st\<lparr>pc_hss := Some i, pc_probe := k\<rparr>)) })"

definition ping_icmp :: "scan_cfg \<Rightarrow> net \<Rightarrow> usi \<Rightarrow> bool \<Rightarrow> ip_hdr \<Rightarrow> icmp_msg \<Rightarrow> pcap_state \<Rightarrow> (bool \<times> pcap_state) option" where
  "ping_icmp c net u v6 ip m st0 =
     (let proto = (if v6 then IPPROTO_ICMPV6 else IPPROTO_ICMP); reason = icmp_to_reason proto (ic_type m) (ic_code m); st = st0\<lparr>pc_reason := reason\<rparr> in
      if rawicmpscan c \<and> ic_type m \<in> (if v6 then {129} else {0, 14, 18}) then search_ping net u (ip_src ip) (\<lambda>i. echo_verdict net i ip v6 m reason) st
      else if ic_type m \<in> (if v6 then {1, 2, 3, 4} else {3, 4, 11}) then ping_error c net u proto ip m st
      else Some (False, st))"

definition sctp_ping_reason :: "nat \<Rightarrow> nat" where
  "sctp_ping_reason chunk = (if chunk = 2 then ER_INITACK else if chunk = 6 then ER_ABORT else ER_UNKNOWN)"

definition ping_packet :: "scan_cfg \<Rightarrow> net \<Rightarrow> usi \<Rightarrow> packet \<Rightarrow> pcap_state \<Rightarrow> pcap_state option" where
  "ping_packet c net u pkt st0 = do {
     let ip = p_ip pkt;
     (cont, st) \<leftarrow> (case p_load pkt of
        P_icmp m \<Rightarrow> ping_icmp c net u False ip m st0
      | P_icmp6 m \<Rightarrow> ping_icmp c net u True ip m st0
      | P_tcp t \<Rightarrow>
          if \<not> rawtcpscan c then Some (False, st0)
          else if (discovery_ignore_rst c \<and> has_flag t 4) \<or> (\<not> has_flag t 4 \<and> \<not> syn_ack t) then Some (True, st0)
          else search_ping net u (ip_src ip) (\<lambda>i. tcp_ping_verdict c net i ip t (pc_reason st0)) st0
      | P_udp sp dp \<Rightarrow> if \<not> rawudpscan c then Some (False, st0)
          else search_ping net u (ip_src ip) (\<lambda>i. port_ping_verdict net i ip IPPROTO_UDP sp dp ER_UDPRESPONSE) st0
      | P_sctp sp dp _ chunk \<Rightarrow> if \<not> rawsctpscan c then Some (False, st0)
          else search_ping net u (ip_src ip) (\<lambda>i. port_ping_verdict net i ip IPPROTO_SCTP sp dp (sctp_ping_reason chunk)) st0
      | P_other _ _ _ \<Rightarrow> Some (False, st0));
     if \<not> cont \<and> \<not> pc_good st \<and> rawprotoscan c
     then map_option snd (search_ping net u (ip_src ip) (\<lambda>_. proto_ping_verdict (load_proto (p_load pkt)) ip) st)
     else Some st }"

fun ping_loop :: "scan_cfg \<Rightarrow> net \<Rightarrow> capture list \<Rightarrow> pcap_state \<Rightarrow> usi \<Rightarrow> (pcap_state \<times> tval \<times> usi) option" where
  "ping_loop c net [] st u = Some (st, tv_zero, u)"
| "ping_loop c net (Timeout now # es) st u = Some (st, tv_zero, u\<lparr>unow := now\<rparr>)"
| "ping_loop c net (Quiet now # es) st u = ping_loop c net es st (u\<lparr>unow := now\<rparr>)"
| "ping_loop c net (Packet now rcvd late d # es) st u = do {
     let u1 = u\<lparr>unow := now\<rparr>;
     st1 \<leftarrow> (case d of None \<Rightarrow> Some st | Some pkt \<Rightarrow> ping_packet c net u1 pkt st);
     if pc_good st1 \<or> late then Some (st1, rcvd, u1) else ping_loop c net es st1 u1 }"

definition get_ping_pcap_result :: "scan_cfg \<Rightarrow> net \<Rightarrow> capture list \<Rightarrow> usi \<Rightarrow> (bool \<times> usi) option" where
  "get_ping_pcap_result c net es u = do {
     (st, rcvd, u1) \<leftarrow> ping_loop c net es (pcap_start\<lparr>pc_new := HOST_UNKNOWN\<rparr>) u;
     if \<not> (pc_good st \<and> pc_new st \<noteq> HOST_UNKNOWN) then Some (pc_good st, u1)
     else case pc_hss st of None \<Rightarrow> None
     | Some i \<Rightarrow>
         if \<not> i < length (hosts u1) \<or> \<not> pc_probe st < length (probes_outstanding (hosts u1 ! i)) then None
         else map_option (Pair True) (on_host i
           (if isPing (probes_outstanding (hosts u1 ! i) ! pc_probe st) then ultrascan_ping_update c (unow u1) (pc_probe st) (Some (unow u1)) True
            else host_up_reply c (unow u1) (pc_probe st) (pc_new st) rcvd (pc_reason st)) u1) }"

section \<open>ARP and neighbor discovery\<close>

text \<open>A reply comes with the time after it, when it was received, whether it is the last one waited for, and its sender.\<close>

datatype arp_capture = Arp_timeout tval | Arp_quiet tval | Arp_packet tval tval bool address

fun get_arp_result :: "scan_cfg \<Rightarrow> net \<Rightarrow> arp_capture list \<Rightarrow> usi \<Rightarrow> (bool \<times> usi) option" where
  "get_arp_result c net [] u = Some (False, u)"
| "get_arp_result c net (Arp_timeout now # es) u = Some (False, u\<lparr>unow := now\<rparr>)"
| "get_arp_result c net (Arp_quiet now # es) u = get_arp_result c net es (u\<lparr>unow := now\<rparr>)"
| "get_arp_result c net (Arp_packet now rcvd late a # es) u = do {
     let u1 = u\<lparr>unow := now\<rparr>;
     (good, u2) \<leftarrow> (case find_host net u1 a of None \<Rightarrow> Some (False, u1)
       | Some i \<Rightarrow> if \<not> i < length (hosts u1) then None
           else map_option (\<lambda>(b, h, g). (b, u1\<lparr>hosts := (hosts u1)[i := h], gstats := g\<rparr>)) (arp_reply c now rcvd (hosts u1 ! i, gstats u1)));
     if good \<or> late then Some (good, u2) else get_arp_result c net es u2 }"

end
