(* ===== verification/Engine_Inv.thy ===== *)
theory Engine_Inv
  imports Scan_Engine
begin

text \<open>
  The invariant of a scan of a group of hosts, and that every operation on one host keeps it.  The counter of active probes of the group
  is the sum of those of all hosts, the lists of hosts are disjoint, and the iterator of the circular list points into it.
\<close>

section \<open>The invariant\<close>

definition total_active :: "hss list \<Rightarrow> int" where
  "total_active hs = sum_list (map num_probes_active hs)"

definition lists_ok :: "usi \<Rightarrow> bool" where
  "lists_ok u \<longleftrightarrow> distinct (incompleteHosts u @ completedHosts u) \<and> (\<forall>i \<in> set (incompleteHosts u @ completedHosts u). i < length (hosts u)) \<and>
     (incompleteHosts u \<noteq> [] \<longrightarrow> nextI u \<in> set (incompleteHosts u)) \<and> (\<forall>p. pinghost u = Some p \<longrightarrow> p < length (hosts u))"

definition usi_inv :: "scan_cfg \<Rightarrow> usi \<Rightarrow> bool" where
  "usi_inv c u \<longleftrightarrow> (\<forall>h \<in> set (hosts u). host_inv c h) \<and> group_inv c (gstats u) \<and> g_active (gstats u) = total_active (hosts u) \<and>
     lists_ok u \<and> tval_ok (unow u)"

text \<open>What the environment may do: times are well formed; the outcome of sending a probe fits the kind of the probe; a connect probe that is
  sent again in a ping scan does not find the host up at once (the assertion at \<open>scan_engine.cc:2358\<close> fails there, lemma
  \<open>retransmitted_connect_fails\<close>); replies fit the kind of the scan.\<close>

definition reply_fits :: "scan_cfg \<Rightarrow> reply \<Rightarrow> bool" where
  "reply_fits c r \<longleftrightarrow> (case r of
       Host_reply _ _ newstate _ _ \<Rightarrow> newstate = HOST_UP \<or> newstate = HOST_DOWN
     | Port_reply _ _ newstate _ _ _ _ \<Rightarrow> \<not> ping_scan c \<and> newstate \<in> {PORT_CLOSED, PORT_OPEN, PORT_FILTERED, PORT_UNFILTERED, PORT_OPENFILTERED}
     | Selected _ ready \<Rightarrow> only_connect c \<and> (\<forall>s err self. ready s = Some (err, self) \<longrightarrow> result_known c True err \<and> result_known c False err)
     | _ \<Rightarrow> True)"

definition env_ok :: "scan_cfg \<Rightarrow> env \<Rightarrow> bool" where
  "env_ok c e \<longleftrightarrow> (\<forall>n. tval_ok (e_clock e n)) \<and> (\<forall>n b seq ps. ps_type ps \<noteq> PS_NONE \<longrightarrow> result_fits c seq ps (e_send e n b ps)) \<and>
     (\<forall>n ps. \<not> finds_host_up c (e_send e n True ps)) \<and> (\<forall>n. \<forall>r \<in> set (e_replies e n). reply_fits c r)"

text \<open>An operation that changes only hosts, the group and the clock.\<close>

definition same_lists :: "usi \<Rightarrow> usi \<Rightarrow> bool" where
  "same_lists u u' \<longleftrightarrow> incompleteHosts u' = incompleteHosts u \<and> completedHosts u' = completedHosts u \<and> nextI u' = nextI u \<and>
     pinghost u' = pinghost u \<and> length (hosts u') = length (hosts u)"

lemma same_lists_refl [simp]: "same_lists u u"
  by (simp add: same_lists_def)

lemma same_lists_trans: "same_lists u v \<Longrightarrow> same_lists v w \<Longrightarrow> same_lists u w"
  by (simp add: same_lists_def)

lemma same_lists_ok: "same_lists u u' \<Longrightarrow> lists_ok u \<Longrightarrow> lists_ok u'"
  by (simp add: same_lists_def lists_ok_def)

lemma usi_inv_host: "usi_inv c u \<Longrightarrow> i < length (hosts u) \<Longrightarrow> host_inv c (hosts u ! i)"
  by (simp add: usi_inv_def)

lemma total_active_update:
  "i < length hs \<Longrightarrow> total_active (hs[i := h]) = total_active hs + num_probes_active h - num_probes_active (hs ! i)"
  by (induction hs arbitrary: i) (auto simp: total_active_def split: nat.split)

lemma others_active:
  assumes "\<forall>h \<in> set hs. host_inv c h" "i < length hs"
  shows "num_probes_active (hs ! i) \<le> total_active hs"
proof -
  have nn: "\<forall>h \<in> set hs. 0 \<le> num_probes_active h" using assms(1) by (auto simp: host_inv_def)
  then have "0 \<le> total_active hs" by (auto simp: total_active_def intro!: sum_list_nonneg)
  then show ?thesis using nn assms(2)
  proof (induction hs arbitrary: i)
    case (Cons a hs)
    have "0 \<le> total_active hs" using Cons.prems(2) by (auto simp: total_active_def intro!: sum_list_nonneg)
    then show ?case using Cons by (cases i) (auto simp: total_active_def intro: add_increasing)
  qed simp
qed

text \<open>The active probes of the other hosts.\<close>

definition rest_active :: "usi \<Rightarrow> nat \<Rightarrow> int" where
  "rest_active u i = total_active (hosts u) - num_probes_active (hosts u ! i)"

lemma usi_hg_inv:
  assumes "usi_inv c u" "i < length (hosts u)"
  shows "hg_inv c (rest_active u i) (hosts u ! i, gstats u)"
  using assms others_active[of "hosts u" c i] by (auto simp: usi_inv_def hg_inv_def rest_active_def)

lemma put_inv:
  assumes "usi_inv c u" "i < length (hosts u)" "hg_inv c (rest_active u i) (h, g)"
  shows "usi_inv c (u\<lparr>hosts := (hosts u)[i := h], gstats := g\<rparr>)" "same_lists u (u\<lparr>hosts := (hosts u)[i := h], gstats := g\<rparr>)"
proof -
  show s: "same_lists u (u\<lparr>hosts := (hosts u)[i := h], gstats := g\<rparr>)" by (simp add: same_lists_def)
  have "\<forall>x \<in> set ((hosts u)[i := h]). host_inv c x"
    using assms set_update_subset_insert[of "hosts u" i h] by (auto simp: usi_inv_def hg_inv_def)
  then show "usi_inv c (u\<lparr>hosts := (hosts u)[i := h], gstats := g\<rparr>)"
    using assms same_lists_ok[OF s] by (simp add: usi_inv_def hg_inv_def rest_active_def total_active_update)
qed

lemma on_host_delivers:
  assumes "usi_inv c u" "i < length (hosts u)"
    "hg_inv c (rest_active u i) (hosts u ! i, gstats u) \<Longrightarrow> delivers (f (hosts u ! i, gstats u)) (\<lambda>hg. hg_inv c (rest_active u i) hg \<and> P hg)"
  shows "delivers (on_host i f u) (\<lambda>u'. usi_inv c u' \<and> (\<exists>h g. u' = u\<lparr>hosts := (hosts u)[i := h], gstats := g\<rparr> \<and> P (h, g)))"
proof -
  obtain h g where f: "f (hosts u ! i, gstats u) = Some (h, g)" "hg_inv c (rest_active u i) (h, g)" "P (h, g)"
    using assms(3)[OF usi_hg_inv[OF assms(1,2)]] by (auto simp: delivers_def)
  then show ?thesis using put_inv(1)[OF assms(1,2) f(2)] assms(2) by (auto simp: on_host_def)
qed

lemma read_clock_inv: "usi_inv c u \<Longrightarrow> env_ok c e \<Longrightarrow> usi_inv c (read_clock e u)"
  by (simp add: usi_inv_def read_clock_def env_ok_def lists_ok_def)

lemma read_clock_fields [simp]:
  "hosts (read_clock e u) = hosts u" "gstats (read_clock e u) = gstats u" "same_lists u (read_clock e u)"
  "incompleteHosts (read_clock e u) = incompleteHosts u" "completedHosts (read_clock e u) = completedHosts u"
  "nextI (read_clock e u) = nextI u" "pinghost (read_clock e u) = pinghost u"
  by (simp_all add: read_clock_def same_lists_def)

lemma incomplete_bound: "usi_inv c u \<Longrightarrow> i \<in> set (incompleteHosts u) \<Longrightarrow> i < length (hosts u)"
  by (auto simp: usi_inv_def lists_ok_def)

lemma usi_inv_now: "usi_inv c u \<Longrightarrow> tval_ok (unow u)"
  by (simp add: usi_inv_def)

section \<open>Decisions to send\<close>

lemma completed_total: "cfg_ok c \<Longrightarrow> \<exists>b. completed c h = Some b"
  using freshPortsLeft_total[of c "cur h"] by (auto simp: completed_def cfg_ok_def)

lemma host_sendOK_total: "cfg_ok c \<Longrightarrow> \<exists>b t. host_sendOK c now (h, g) = Some (b, t)"
proof -
  assume c: "cfg_ok c"
  obtain n where "freshPortsLeft c (cur h) = Some n" using freshPortsLeft_total[of c "cur h"] c by (auto simp: cfg_ok_def)
  moreover obtain b where "completed c h = Some b" using completed_total[OF c] by blast
  ultimately have "host_sendOK c now (h, g) \<noteq> None" by (auto simp: host_sendOK_def Let_def)
  then show ?thesis by auto
qed

lemma hss_sendOK_total: "cfg_ok c \<Longrightarrow> i < length (hosts u) \<Longrightarrow> \<exists>b t. hss_sendOK c i u = Some (b, t)"
  using host_sendOK_total by (auto simp: hss_sendOK_def)

end
