(* ===== verification/Engine_Send.thy ===== *)
theory Engine_Send
  imports Engine_Inv
begin

text \<open>
  The functions of the main loop that send probes.  Each of their loops ends: going round the hosts ends because every probe that is sent
  uses up work, and without one the loop stops after one round.
\<close>

section \<open>The circular list\<close>

definition pos_in :: "nat list \<Rightarrow> nat \<Rightarrow> nat" where
  "pos_in l i = length (takeWhile (\<lambda>x. x \<noteq> i) l)"

lemma pos_in_less: "i \<in> set l \<Longrightarrow> pos_in l i < length l \<and> l ! pos_in l i = i"
  by (induction l) (auto simp: pos_in_def)

lemma pos_in_nth: "distinct l \<Longrightarrow> k < length l \<Longrightarrow> pos_in l (l ! k) = k"
  using pos_in_less[of "l ! k" l] by (metis nth_eq_iff_index_eq nth_mem)

lemma ring_next_nth:
  assumes "distinct l" "i \<in> set l"
  shows "ring_next l i = l ! ((pos_in l i + 1) mod length l)"
proof -
  define k where "k = pos_in l i"
  have k: "k < length l" "l ! k = i" using pos_in_less[OF assms(2)] by (simp_all add: k_def)
  have d: "dropWhile (\<lambda>x. x \<noteq> i) l = drop k l" by (simp add: k_def pos_in_def dropWhile_eq_drop)
  show ?thesis
  proof (cases "Suc k < length l")
    case True
    have "drop k l = i # l ! Suc k # drop (Suc (Suc k)) l" using k True by (metis Cons_nth_drop_Suc Suc_lessD)
    then show ?thesis using True by (simp add: ring_next_def d flip: k_def)
  next
    case False
    then have n: "Suc k = length l" using k(1) by simp
    have "drop k l = l ! k # drop (Suc k) l" using k(1) by (rule Cons_nth_drop_Suc[symmetric])
    then have "drop k l = [i]" using k(2) n by simp
    moreover have "hd l = l ! 0" using k(1) by (intro hd_conv_nth) auto
    ultimately show ?thesis using n by (simp add: ring_next_def d flip: k_def)
  qed
qed

lemma ring_next_in: "distinct l \<Longrightarrow> i \<in> set l \<Longrightarrow> ring_next l i \<in> set l"
  by (metis ring_next_nth length_pos_if_in_set mod_less_divisor nth_mem)

text \<open>The number of steps from \<open>i\<close> to \<open>j\<close> in the circular list.\<close>

definition ring_dist :: "nat list \<Rightarrow> nat \<Rightarrow> nat \<Rightarrow> nat" where
  "ring_dist l i j = (pos_in l j + length l - pos_in l i) mod length l"

lemma pos_ring_next:
  assumes "distinct l" "i \<in> set l"
  shows "pos_in l (ring_next l i) = (pos_in l i + 1) mod length l"
  using ring_next_nth[OF assms] pos_in_nth[OF assms(1)] assms(2) by (metis length_pos_if_in_set mod_less_divisor)

lemma ring_dist_next:
  assumes "distinct l" "i \<in> set l" "j \<in> set l" "i \<noteq> j"
  shows "ring_dist l (ring_next l i) j < ring_dist l i j"
proof -
  let ?n = "length l" let ?a = "pos_in l i" let ?b = "pos_in l j"
  have b: "?a < ?n" "?b < ?n" "?a \<noteq> ?b" using pos_in_less assms by metis+
  have "(?b + ?n - (?a + 1) mod ?n) mod ?n < (?b + ?n - ?a) mod ?n"
  proof (cases "?a + 1 = ?n")
    case True
    then have "(?b + ?n - ?a) mod ?n = ?b + 1" using b by simp
    then show ?thesis using b True by simp
  next
    case False
    then have n1: "(?a + 1) mod ?n = ?a + 1" using b(1) by simp
    show ?thesis
    proof (cases "?a < ?b")
      case True
      then have e: "?b + ?n - ?a = (?b - ?a) + ?n" "?b + ?n - (?a + 1) = (?b - (?a + 1)) + ?n" using b by linarith+
      show ?thesis unfolding n1 e mod_add_self2 using b True by (simp add: less_imp_diff_less)
    next
      case ge: False
      then have "?b + ?n - ?a < ?n" using b by linarith
      then have "(?b + ?n - ?a) mod ?n = ?b + ?n - ?a" "(?b + ?n - (?a + 1)) mod ?n = ?b + ?n - (?a + 1)" by simp_all
      then show ?thesis using b ge n1 by simp
    qed
  qed
  then show ?thesis by (simp add: ring_dist_def pos_ring_next[OF assms(1,2)])
qed

lemma ring_dist_self_next:
  assumes "distinct l" "i \<in> set l"
  shows "ring_dist l (ring_next l i) i < length l"
  using assms by (metis length_pos_if_in_set mod_less_divisor ring_dist_def)

section \<open>Going round the hosts\<close>

definition at_host :: "nat option \<Rightarrow> usi \<Rightarrow> bool" where
  "at_host host u \<longleftrightarrow> (case host of None \<Rightarrow> incompleteHosts u = [] | Some i \<Rightarrow> i \<in> set (incompleteHosts u) \<and> nextI u = ring_next (incompleteHosts u) i)"

definition steps_left :: "nat option \<Rightarrow> nat \<Rightarrow> usi \<Rightarrow> nat" where
  "steps_left unable i u = (case unable of None \<Rightarrow> length (incompleteHosts u) | Some j \<Rightarrow> ring_dist (incompleteHosts u) i j)"

text \<open>An operation on hosts that uses up work each time; \<open>inv\<close> is an invariant that implies that of the lists of hosts.\<close>

locale sending_loop =
  fixes inv :: "usi \<Rightarrow> bool" and work :: "usi \<Rightarrow> nat"
    and ready :: "nat \<Rightarrow> usi \<Rightarrow> bool option" and act :: "nat \<Rightarrow> usi \<Rightarrow> usi option"
  assumes inv_lists: "inv u \<Longrightarrow> lists_ok u"
    and inv_next: "inv u \<Longrightarrow> j \<in> set (incompleteHosts u) \<Longrightarrow> inv (u\<lparr>nextI := j\<rparr>)"
    and work_next: "work (u\<lparr>nextI := j\<rparr>) = work u"
    and ready_total: "inv u \<Longrightarrow> i \<in> set (incompleteHosts u) \<Longrightarrow> \<exists>b. ready i u = Some b"
    and act_delivers: "inv u \<Longrightarrow> i \<in> set (incompleteHosts u) \<Longrightarrow> ready i u = Some True \<Longrightarrow>
      delivers (act i u) (\<lambda>u'. inv u' \<and> same_lists u u' \<and> work u' < work u)"
begin

lemma nextIncompleteHost_delivers:
  assumes "inv u"
  shows "delivers (nextIncompleteHost u) (\<lambda>(host, u'). inv u' \<and> at_host host u' \<and> incompleteHosts u' = incompleteHosts u \<and> work u' = work u \<and>
    host = (if incompleteHosts u = [] then None else Some (nextI u)))"
proof (cases "incompleteHosts u = []")
  case False
  then have "nextI u \<in> set (incompleteHosts u)" "distinct (incompleteHosts u)" using inv_lists[OF assms] by (simp_all add: lists_ok_def)
  then show ?thesis using False ring_next_in inv_next[OF assms] work_next by (simp add: nextIncompleteHost_def at_host_def)
qed (use assms in \<open>simp add: nextIncompleteHost_def at_host_def\<close>)

lemma round_robin_delivers:
  assumes "inv u" "at_host host u" "unable = None \<or> the unable \<in> set (incompleteHosts u)"
  shows "delivers (round_robin ready act c unable host u) (\<lambda>u'. inv u' \<and> incompleteHosts u' = incompleteHosts u \<and> work u' \<le> work u)"
  using assms
proof (induction "(work u, case host of None \<Rightarrow> 0 | Some i \<Rightarrow> steps_left unable i u)" arbitrary: unable host u
    rule: wf_induct_rule[OF wf_lex_prod[OF wf_less_than wf_less_than]])
  case (1 unable host u)
  show ?case
  proof (cases host)
    case None
    then show ?thesis using "1.prems" by (subst round_robin.simps) simp
  next
    case (Some i)
    have i: "i \<in> set (incompleteHosts u)" "nextI u = ring_next (incompleteHosts u) i" using "1.prems"(2) Some by (simp_all add: at_host_def)
    have d: "distinct (incompleteHosts u)" using inv_lists[OF "1.prems"(1)] by (simp add: lists_ok_def)
    obtain b where b: "ready i u = Some b" using ready_total[OF "1.prems"(1) i(1)] by blast
    define unable' where "unable' = (if b then None else if unable = None then Some i else unable)"
    show ?thesis
    proof (cases "unable = Some i \<or> \<not> fst (usi_sendOK c u)")
      case True
      then show ?thesis using "1.prems" Some by (subst round_robin.simps) simp
    next
      case False
      have act: "delivers (if b then act i u else Some u) (\<lambda>u1. inv u1 \<and> same_lists u u1 \<and> (if b then work u1 < work u else u1 = u))"
        using act_delivers[OF "1.prems"(1) i(1)] "1.prems"(1) b by (cases b) simp_all
      have rest: "delivers (do { (j, u2) \<leftarrow> nextIncompleteHost u1; round_robin ready act c unable' j u2 })
          (\<lambda>u'. inv u' \<and> incompleteHosts u' = incompleteHosts u \<and> work u' \<le> work u)"
        if u1: "inv u1" "same_lists u u1" "if b then work u1 < work u else u1 = u" for u1
      proof (rule delivers_bind[OF nextIncompleteHost_delivers[OF u1(1)]], clarify)
        fix j u2
        assume u2: "inv u2" "at_host (if incompleteHosts u1 = [] then None else Some (nextI u1)) u2" "incompleteHosts u2 = incompleteHosts u1" "work u2 = work u1"
        let ?j = "if incompleteHosts u1 = [] then None else Some (nextI u1)"
        have l: "incompleteHosts u1 = incompleteHosts u" "nextI u1 = nextI u" using u1(2) by (simp_all add: same_lists_def)
        have j: "?j = Some (ring_next (incompleteHosts u) i)" using i l by auto
        have "((work u2, case ?j of None \<Rightarrow> 0 | Some k \<Rightarrow> steps_left unable' k u2), work u, case host of None \<Rightarrow> 0 | Some k \<Rightarrow> steps_left unable k u)
            \<in> less_than <*lex*> less_than"
        proof (cases b)
          case True
          then show ?thesis using u1(3) u2(4) by simp
        next
          case nb: False
          have "steps_left unable' (ring_next (incompleteHosts u) i) u2 < steps_left unable i u"
          proof (cases unable)
            case None
            then show ?thesis using nb ring_dist_self_next[OF d i(1)] u2(3) l by (simp add: steps_left_def unable'_def)
          next
            case (Some k)
            then have "k \<noteq> i" "k \<in> set (incompleteHosts u)" using False "1.prems"(3) by auto
            then show ?thesis using Some nb ring_dist_next[OF d i(1)] u2(3) l by (auto simp: steps_left_def unable'_def)
          qed
          then show ?thesis unfolding j using nb u1(3) u2(4) Some by simp
        qed
        moreover have "unable' = None \<or> the unable' \<in> set (incompleteHosts u2)" using "1.prems"(3) i(1) u2(3) l by (auto simp: unable'_def)
        ultimately have "delivers (round_robin ready act c unable' ?j u2) (\<lambda>u'. inv u' \<and> incompleteHosts u' = incompleteHosts u2 \<and> work u' \<le> work u2)"
          using "1.hyps"[OF _ u2(1,2)] by blast
        then show "delivers (round_robin ready act c unable' ?j u2) (\<lambda>u'. inv u' \<and> incompleteHosts u' = incompleteHosts u \<and> work u' \<le> work u)"
          by (rule delivers_mono) (use u1(3) u2(3,4) l in \<open>auto split: if_splits\<close>)
      qed
      have "round_robin ready act c unable host u = do { u1 \<leftarrow> (if b then act i u else Some u); (j, u2) \<leftarrow> nextIncompleteHost u1; round_robin ready act c unable' j u2 }"
        using False Some b by (subst round_robin.simps) (simp add: unable'_def)
      also have "delivers \<dots> (\<lambda>u'. inv u' \<and> incompleteHosts u' = incompleteHosts u \<and> work u' \<le> work u)"
        by (rule delivers_bind[OF act]) (use rest in blast)
      finally show ?thesis .
    qed
  qed
qed

text \<open>The whole function, begun at the iterator.\<close>

lemma loop_delivers:
  assumes "inv u"
  shows "delivers (do { (host, u1) \<leftarrow> nextIncompleteHost u; round_robin ready act c None host u1 })
    (\<lambda>u'. inv u' \<and> incompleteHosts u' = incompleteHosts u \<and> work u' \<le> work u)"
proof (rule delivers_bind[OF nextIncompleteHost_delivers[OF assms]], clarify)
  fix host u1
  let ?h = "if incompleteHosts u = [] then None else Some (nextI u)"
  assume u1: "inv u1" "at_host ?h u1" "incompleteHosts u1 = incompleteHosts u" "work u1 = work u"
  show "delivers (round_robin ready act c None ?h u1) (\<lambda>u'. inv u' \<and> incompleteHosts u' = incompleteHosts u \<and> work u' \<le> work u)"
    using round_robin_delivers[OF u1(1,2)] u1(3,4) by simp
qed

end

section \<open>Work\<close>

definition total_of :: "(hss \<Rightarrow> nat) \<Rightarrow> usi \<Rightarrow> nat" where
  "total_of f u = sum_list (map f (hosts u))"

lemma total_update:
  "i < length (hosts u) \<Longrightarrow> total_of f (u\<lparr>hosts := (hosts u)[i := h], gstats := g\<rparr>) + f (hosts u ! i) = total_of f u + f h"
proof -
  have "i < length hs \<Longrightarrow> sum_list (map f (hs[i := h])) + f (hs ! i) = sum_list (map f hs) + f h" for hs
    by (induction hs arbitrary: i) (auto split: nat.split)
  then show "i < length (hosts u) \<Longrightarrow> ?thesis" by (simp add: total_of_def)
qed

lemma total_decreases:
  "i < length (hosts u) \<Longrightarrow> f h < f (hosts u ! i) \<Longrightarrow> total_of f (u\<lparr>hosts := (hosts u)[i := h], gstats := g\<rparr>) < total_of f u"
  using total_update[where i = i and u = u and f = f and h = h and g = g] by linarith

lemma total_read_clock [simp]: "total_of f (read_clock e u) = total_of f u"
  by (simp add: total_of_def)

lemma usi_inv_nextI: "usi_inv c u \<Longrightarrow> j \<in> set (incompleteHosts u) \<Longrightarrow> usi_inv c (u\<lparr>nextI := j\<rparr>)"
  by (auto simp: usi_inv_def lists_ok_def)

lemma total_nextI: "total_of f (u\<lparr>nextI := j\<rparr>) = total_of f u"
  by (simp add: total_of_def)

section \<open>New probes\<close>

definition fresh_of :: "scan_cfg \<Rightarrow> hss \<Rightarrow> nat" where
  "fresh_of c h = (case freshPortsLeft c (cur h) of None \<Rightarrow> 0 | Some n \<Rightarrow> n)"

lemma timeout_init_delivers:
  assumes "hg_inv c k (h, g)"
  shows "delivers (ultrascan_host_timeout_init c now (h, g)) (\<lambda>hg. hg_inv c k hg \<and> cur (fst hg) = cur h \<and> af_inet6 (target (fst hg)) = af_inet6 (target h))"
proof -
  have "hg_inv c k (h\<lparr>target := (target h)\<lparr>toclock_running := True, toclock_start := now\<rparr>\<rparr>, g)" using assms by (simp add: hg_inv_unfold target_inv_def)
  then show ?thesis using assms by (auto simp: ultrascan_host_timeout_init_def startTimeOutClock_def)
qed

lemma next_probe_decreases:
  assumes "cfg_ok c" "fresh_of c h = Suc n" "get_next_target_probe c af (cur h) = Some (Some (ps, cur'))" "cur h' = cur'"
  shows "fresh_of c h' < fresh_of c h"
proof -
  have "freshPortsLeft c (cur h) = Some (Suc n)" using assms(2) by (auto simp: fresh_of_def split: option.splits)
  from get_next_target_probe_fresh[OF _ this, of af] show ?thesis using assms by (auto simp: fresh_of_def cfg_ok_def split: option.splits)
qed

lemma sent_ok_cur: "sent_ok c r tn h h' \<Longrightarrow> cur h' = cur h"
  by (simp add: sent_ok_def queues_same_def)

text \<open>One step of a function: an operation on a host, then the clock is read.\<close>

lemma step_delivers:
  assumes "env_ok c e" "usi_inv c u" "i < length (hosts u)"
    "hg_inv c (rest_active u i) (hosts u ! i, gstats u) \<Longrightarrow> delivers (f (hosts u ! i, gstats u)) (\<lambda>hg. hg_inv c (rest_active u i) hg \<and> m (fst hg) < m (hosts u ! i))"
  shows "delivers (do { v \<leftarrow> on_host i f u; Some (read_clock e v) }) (\<lambda>u'. usi_inv c u' \<and> same_lists u u' \<and> total_of m u' < total_of m u)"
proof (rule delivers_bind[OF on_host_delivers[OF assms(2,3), where f = f, OF assms(4)]], assumption, clarify)
  fix h g
  let ?v = "u\<lparr>hosts := (hosts u)[i := h], gstats := g\<rparr>"
  assume v: "usi_inv c ?v" "m (fst (h, g)) < m (hosts u ! i)"
  then have "total_of m ?v < total_of m u" by (intro total_decreases[OF assms(3)]) simp
  then show "delivers (Some (read_clock e ?v)) (\<lambda>u'. usi_inv c u' \<and> same_lists u u' \<and> total_of m u' < total_of m u)"
    using read_clock_inv[OF v(1) assms(1)] by (simp add: same_lists_def)
qed

lemma new_probe_step_delivers:
  assumes "cfg_ok c" "env_ok c e" "usi_inv c u" "i < length (hosts u)" "0 < fresh_of c (hosts u ! i)"
  shows "delivers (new_probe_step c e i u) (\<lambda>u'. usi_inv c u' \<and> same_lists u u' \<and> total_of (fresh_of c) u' < total_of (fresh_of c) u)"
  unfolding new_probe_step_def
proof (rule delivers_bind[OF on_host_delivers[where f = "ultrascan_host_timeout_init c (unow u)", OF assms(3,4) timeout_init_delivers]], assumption, elim conjE exE)
  fix u1 h g
  assume u1: "usi_inv c u1" "u1 = u\<lparr>hosts := (hosts u)[i := h], gstats := g\<rparr>"
    and h: "cur (fst (h, g)) = cur (hosts u ! i)" "af_inet6 (target (fst (h, g))) = af_inet6 (target (hosts u ! i))"
  have i: "i < length (hosts u1)" "hosts u1 ! i = h" "gstats u1 = g" "same_lists u u1" using assms(4) u1(2) by (simp_all add: same_lists_def)
  have t: "total_of (fresh_of c) u1 = total_of (fresh_of c) u"
    using total_update[OF assms(4), of "fresh_of c" g h] h(1) unfolding u1(2) by (simp add: fresh_of_def)
  obtain n where n: "fresh_of c h = Suc n" using assms(5) h(1) by (cases "fresh_of c (hosts u ! i)") (simp_all add: fresh_of_def)
  then have f: "freshPortsLeft c (cur h) = Some (Suc n)" by (auto simp: fresh_of_def split: option.splits)
  obtain ps cur' where q: "get_next_target_probe c (af_inet6 (target h)) (cur h) = Some (Some (ps, cur'))" using fresh_next[OF assms(1) f] by auto
  define r where "r = e_send e (ticks u1) False (next_spec c (hosts u1 ! i))"
  have "pspec_ok c ps" using get_next_pspec_ok[OF assms(1) q] .
  then have fits: "next_fits c h r" using assms(2) i q by (auto simp: next_fits_def next_spec_def env_ok_def pspec_ok_def r_def)
  have "delivers (sendNextScanProbe c (unow u1) r (hosts u1 ! i, gstats u1)) (\<lambda>hg. hg_inv c (rest_active u1 i) hg \<and> fresh_of c (fst hg) < fresh_of c (hosts u1 ! i))"
    if "hg_inv c (rest_active u1 i) (hosts u1 ! i, gstats u1)"
  proof (rule delivers_mono[OF sendNextScanProbe_delivers[OF assms(1) that usi_inv_now[OF u1(1)]]])
    show "next_fits c (hosts u1 ! i) r" using fits i by simp
    fix hg
    assume a: "hg_inv c (rest_active u1 i) hg \<and> (\<exists>ps cur'. get_next_target_probe c (af_inet6 (target (hosts u1 ! i))) (cur (hosts u1 ! i)) = Some (Some (ps, cur')) \<and>
      sent_ok c r 0 ((hosts u1 ! i)\<lparr>cur := cur'\<rparr>) (fst hg))"
    then have "cur (fst hg) = cur'" using q i by (auto dest: sent_ok_cur)
    then show "hg_inv c (rest_active u1 i) hg \<and> fresh_of c (fst hg) < fresh_of c (hosts u1 ! i)"
      using a next_probe_decreases[OF assms(1) n q] i by simp
  qed
  from step_delivers[OF assms(2) u1(1) i(1), of "sendNextScanProbe c (unow u1) r" "fresh_of c", OF this]
  show "delivers (do { u2 \<leftarrow> on_host i (sendNextScanProbe c (unow u1) (e_send e (ticks u1) False (next_spec c (hosts u1 ! i)))) u1; Some (read_clock e u2) })
     (\<lambda>u'. usi_inv c u' \<and> same_lists u u' \<and> total_of (fresh_of c) u' < total_of (fresh_of c) u)"
    unfolding r_def[symmetric] by (rule delivers_mono) (use t i(4) same_lists_trans in auto)
qed

text \<open>The contract of \<open>doAnyNewProbes\<close>; the invariant includes what is assumed of the configuration and the environment.\<close>

definition scanning :: "scan_cfg \<Rightarrow> env \<Rightarrow> usi \<Rightarrow> bool" where
  "scanning c e u \<longleftrightarrow> cfg_ok c \<and> env_ok c e \<and> usi_inv c u"

interpretation new_probes: sending_loop "scanning c e" "total_of (fresh_of c)" "new_probe_ready c" "new_probe_step c e" for c e
proof
  fix u :: usi and i j :: nat
  show "scanning c e u \<Longrightarrow> lists_ok u" by (simp add: scanning_def usi_inv_def)
  show "scanning c e u \<Longrightarrow> j \<in> set (incompleteHosts u) \<Longrightarrow> scanning c e (u\<lparr>nextI := j\<rparr>)" by (simp add: scanning_def usi_inv_nextI)
  show "total_of (fresh_of c) (u\<lparr>nextI := j\<rparr>) = total_of (fresh_of c) u" by (rule total_nextI)
  assume u: "scanning c e u" "i \<in> set (incompleteHosts u)"
  then have v: "cfg_ok c" "env_ok c e" "usi_inv c u" by (simp_all add: scanning_def)
  note b = incomplete_bound[OF v(3) u(2)]
  obtain n where n: "freshPortsLeft c (cur (hosts u ! i)) = Some n" using freshPortsLeft_total[of c "cur (hosts u ! i)"] v(1) by (auto simp: cfg_ok_def)
  show "\<exists>b. new_probe_ready c i u = Some b" using n hss_sendOK_total[OF v(1) b] by (auto simp: new_probe_ready_def b)
  assume "new_probe_ready c i u = Some True"
  then have "0 < fresh_of c (hosts u ! i)" using n b by (auto simp: new_probe_ready_def fresh_of_def split: if_splits)
  from new_probe_step_delivers[OF v b this]
  show "delivers (new_probe_step c e i u) (\<lambda>u'. scanning c e u' \<and> same_lists u u' \<and> total_of (fresh_of c) u' < total_of (fresh_of c) u)"
    by (simp add: scanning_def v)
qed

lemma doAnyNewProbes_delivers:
  assumes "cfg_ok c" "env_ok c e" "usi_inv c u"
  shows "delivers (doAnyNewProbes c e u) (\<lambda>u'. usi_inv c u' \<and> incompleteHosts u' = incompleteHosts u)"
  unfolding doAnyNewProbes_def
  by (rule delivers_mono[OF new_probes.loop_delivers[of c e]]) (use assms read_clock_inv in \<open>simp_all add: scanning_def\<close>)

section \<open>The retry stack\<close>

lemma retry_stack_step_delivers:
  assumes "cfg_ok c" "env_ok c e" "usi_inv c u" "i < length (hosts u)" "retry_stack (hosts u ! i) \<noteq> []"
  shows "delivers (retry_stack_step c e i u) (\<lambda>u'. usi_inv c u' \<and> same_lists u u' \<and>
    total_of (\<lambda>h. length (retry_stack h)) u' < total_of (\<lambda>h. length (retry_stack h)) u)"
  unfolding retry_stack_step_def
proof (rule step_delivers[OF assms(2-4), where m = "\<lambda>h. length (retry_stack h)"])
  let ?ps = "last (retry_stack (hosts u ! i))"
  assume inv: "hg_inv c (rest_active u i) (hosts u ! i, gstats u)"
  then have "pspec_ok c ?ps" using assms(5) by (simp add: hg_inv_unfold queue_inv_def list_all_iff)
  then have "result_fits c 0 ?ps (e_send e (ticks u) False ?ps)" using assms(2) by (simp add: env_ok_def pspec_ok_def)
  from sendNextRetryStackProbe_delivers[OF assms(1) inv usi_inv_now[OF assms(3)] assms(5) this]
  show "delivers (sendNextRetryStackProbe c (unow u) (e_send e (ticks u) False ?ps) (hosts u ! i, gstats u))
    (\<lambda>hg. hg_inv c (rest_active u i) hg \<and> length (retry_stack (fst hg)) < length (retry_stack (hosts u ! i)))"
    by (rule delivers_mono) (use assms(5) in \<open>auto simp: sent_ok_def queues_same_def\<close>)
qed

interpretation retry_stacks: sending_loop "scanning c e" "total_of (\<lambda>h. length (retry_stack h))" "retry_stack_ready c" "retry_stack_step c e" for c e
proof
  fix u :: usi and i j :: nat
  show "scanning c e u \<Longrightarrow> lists_ok u" by (simp add: scanning_def usi_inv_def)
  show "scanning c e u \<Longrightarrow> j \<in> set (incompleteHosts u) \<Longrightarrow> scanning c e (u\<lparr>nextI := j\<rparr>)" by (simp add: scanning_def usi_inv_nextI)
  show "total_of (\<lambda>h. length (retry_stack h)) (u\<lparr>nextI := j\<rparr>) = total_of (\<lambda>h. length (retry_stack h)) u" by (rule total_nextI)
  assume u: "scanning c e u" "i \<in> set (incompleteHosts u)"
  then have v: "cfg_ok c" "env_ok c e" "usi_inv c u" by (simp_all add: scanning_def)
  note b = incomplete_bound[OF v(3) u(2)]
  show "\<exists>b. retry_stack_ready c i u = Some b" using hss_sendOK_total[OF v(1) b] by (auto simp: retry_stack_ready_def b)
  assume "retry_stack_ready c i u = Some True"
  then have "retry_stack (hosts u ! i) \<noteq> []" using b by (auto simp: retry_stack_ready_def split: if_splits)
  from retry_stack_step_delivers[OF v b this]
  show "delivers (retry_stack_step c e i u) (\<lambda>u'. scanning c e u' \<and> same_lists u u' \<and>
    total_of (\<lambda>h. length (retry_stack h)) u' < total_of (\<lambda>h. length (retry_stack h)) u)" by (simp add: scanning_def v)
qed

lemma doAnyRetryStackRetransmits_delivers:
  assumes "cfg_ok c" "env_ok c e" "usi_inv c u"
  shows "delivers (doAnyRetryStackRetransmits c e u) (\<lambda>u'. usi_inv c u' \<and> incompleteHosts u' = incompleteHosts u)"
  unfolding doAnyRetryStackRetransmits_def
  by (rule delivers_mono[OF retry_stacks.loop_delivers[of c e]]) (use assms read_clock_inv in \<open>simp_all add: scanning_def\<close>)

section \<open>Pings\<close>

lemma usi_sendPingProbe_delivers:
  assumes "cfg_ok c" "env_ok c e" "usi_inv c u" "i < length (hosts u)" "ps_type (pingprobe (target (hosts u ! i))) \<noteq> PS_NONE"
  shows "delivers (usi_sendPingProbe c e i u) (\<lambda>u'. usi_inv c u' \<and> same_lists u u')"
proof -
  let ?ps = "pingprobe (target (hosts u ! i))" let ?f = "sendPingProbe c (unow u) (e_send e (ticks u) False ?ps)"
  have s: "delivers (?f (hosts u ! i, gstats u)) (\<lambda>hg. hg_inv c (rest_active u i) hg \<and> True)"
    if "hg_inv c (rest_active u i) (hosts u ! i, gstats u)"
    by (rule delivers_mono[OF sendPingProbe_delivers[OF assms(1) that usi_inv_now[OF assms(3)] assms(5)]])
      (use assms(2,5) in \<open>auto simp: env_ok_def\<close>)
  show ?thesis unfolding usi_sendPingProbe_def
    by (rule delivers_bind[OF on_host_delivers[OF assms(3,4), where f = ?f and P = "\<lambda>_. True", OF s]])
      (use read_clock_inv[OF _ assms(2)] in \<open>auto simp: same_lists_def\<close>)
qed

lemma note_ping_delivers:
  assumes "usi_inv c u" "i < length (hosts u)"
  shows "delivers (on_host i (note_ping t) u) (\<lambda>u'. usi_inv c u' \<and> same_lists u u')"
proof -
  have "max_tryno c (h\<lparr>lastping_sent := a, lastping_sent_numprobes := b\<rparr>) = max_tryno c h" for h :: hss and a b by (simp add: max_tryno_def)
  then have "hg_inv c k (h, g) \<Longrightarrow> hg_inv c k (h\<lparr>lastping_sent := a, lastping_sent_numprobes := b\<rparr>, g)" for k and h :: hss and g a b
    by (simp add: hg_inv_unfold queue_inv_def)
  then have "hg_inv c k (h, g) \<Longrightarrow> delivers (note_ping t (h, g)) (\<lambda>hg. hg_inv c k hg \<and> True)" for k and h :: hss and g
    by (simp add: note_ping_def)
  from on_host_delivers[OF assms, where f = "note_ping t" and P = "\<lambda>_. True", OF this] show ?thesis
    by (rule delivers_mono) (auto simp: same_lists_def)
qed

lemma host_pings_delivers:
  assumes "cfg_ok c" "env_ok c e"
  shows "usi_inv c u \<Longrightarrow> set l \<subseteq> {..<length (hosts u)} \<Longrightarrow> delivers (host_pings c e l u) (\<lambda>u'. usi_inv c u' \<and> same_lists u u')"
proof (induction l arbitrary: u)
  case (Cons i l)
  have i: "i < length (hosts u)" using Cons.prems(2) by simp
  define ok where "ok = (if ping_due c (unow u) (hosts u ! i) \<and> fst (usi_sendOK c u) then map_option fst (hss_sendOK c i u) else Some False)"
  have "\<exists>b. ok = Some b \<and> (b \<longrightarrow> ping_due c (unow u) (hosts u ! i))" using hss_sendOK_total[OF assms(1) i] by (auto simp: ok_def)
  then obtain b where b: "ok = Some b" "b \<Longrightarrow> ping_due c (unow u) (hosts u ! i)" by blast
  have ping: "delivers (if b then do { v \<leftarrow> usi_sendPingProbe c e i u; on_host i (note_ping (unow v)) v } else Some u) (\<lambda>u'. usi_inv c u' \<and> same_lists u u')"
  proof (cases b)
    case True
    then have "ps_type (pingprobe (target (hosts u ! i))) \<noteq> PS_NONE" using b(2) by (simp add: ping_due_def)
    note p = usi_sendPingProbe_delivers[OF assms Cons.prems(1) i this]
    have "delivers (do { v \<leftarrow> usi_sendPingProbe c e i u; on_host i (note_ping (unow v)) v }) (\<lambda>u'. usi_inv c u' \<and> same_lists u u')"
      by (rule delivers_bind[OF p], elim conjE, rule delivers_mono[OF note_ping_delivers])
        (use i in \<open>auto simp: same_lists_def\<close>)
    then show ?thesis using True by simp
  qed (use Cons.prems in simp)
  have "delivers (do { u1 \<leftarrow> (if b then do { v \<leftarrow> usi_sendPingProbe c e i u; on_host i (note_ping (unow v)) v } else Some u); host_pings c e l u1 })
      (\<lambda>u'. usi_inv c u' \<and> same_lists u u')"
  proof (rule delivers_bind[OF ping], elim conjE)
    fix u1 assume u1: "usi_inv c u1" "same_lists u u1"
    then have "set l \<subseteq> {..<length (hosts u1)}" using Cons.prems(2) by (simp add: same_lists_def)
    from Cons.IH[OF u1(1) this] show "delivers (host_pings c e l u1) (\<lambda>u'. usi_inv c u' \<and> same_lists u u')"
      by (rule delivers_mono) (use u1(2) same_lists_trans in auto)
  qed
  then show ?case using i b(1) by (simp flip: ok_def)
qed simp

lemma set_gstats_inv:
  assumes "usi_inv c u" "group_inv c (f (gstats u))" "g_active (f (gstats u)) = g_active (gstats u)"
  shows "usi_inv c (set_gstats f u)" "same_lists u (set_gstats f u)"
  using assms by (simp_all add: usi_inv_def set_gstats_def lists_ok_def same_lists_def)

lemma doAnyPings_delivers:
  assumes "cfg_ok c" "env_ok c e" "usi_inv c u"
  shows "delivers (doAnyPings c e u) (\<lambda>u'. usi_inv c u' \<and> same_lists u u')"
  unfolding doAnyPings_def
proof (rule delivers_bind[OF host_pings_delivers[OF assms(1,2) read_clock_inv[OF assms(3,2)]]], simp_all only: read_clock_fields)
  show "set (incompleteHosts u) \<subseteq> {..<length (hosts u)}" using incomplete_bound[OF assms(3)] by auto
  fix u1 assume u1: "usi_inv c u1 \<and> same_lists (read_clock e u) u1"
  then have s: "same_lists u u1" by (simp add: same_lists_def)
  have g: "delivers (do { u2 \<leftarrow> sendGlobalPingProbe c e u1;
      Some (set_gstats (\<lambda>g. g\<lparr>g_lastping_sent := unow u2, g_lastping_sent_numprobes := probes_sent g\<rparr>) u2) }) (\<lambda>u'. usi_inv c u' \<and> same_lists u u')"
    if due: "global_ping_due c u1"
  proof -
    obtain p where p: "pinghost u1 = Some p" "ps_type (pingprobe (target (hosts u1 ! p))) \<noteq> PS_NONE" using due by (auto simp: global_ping_due_def split: option.splits)
    have "p < length (hosts u1)" using u1 p(1) by (auto simp: usi_inv_def lists_ok_def)
    from usi_sendPingProbe_delivers[OF assms(1,2) _ this p(2)] have send: "delivers (sendGlobalPingProbe c e u1) (\<lambda>u'. usi_inv c u' \<and> same_lists u1 u')"
      using u1 p(1) by (simp add: sendGlobalPingProbe_def)
    show ?thesis
    proof (rule delivers_bind[OF send], elim conjE)
      fix u2 assume u2: "usi_inv c u2" "same_lists u1 u2"
      let ?f = "\<lambda>g. g\<lparr>g_lastping_sent := unow u2, g_lastping_sent_numprobes := probes_sent g\<rparr>"
      have "group_inv c (?f (gstats u2))" using u2(1) by (simp add: usi_inv_def group_inv_def)
      from set_gstats_inv[OF u2(1), of ?f, OF this] have "usi_inv c (set_gstats ?f u2)" "same_lists u2 (set_gstats ?f u2)" by simp_all
      moreover have "same_lists u (set_gstats ?f u2)" by (rule same_lists_trans[OF s same_lists_trans[OF u2(2) calculation(2)]])
      ultimately show "delivers (Some (set_gstats ?f u2)) (\<lambda>u'. usi_inv c u' \<and> same_lists u u')" by simp
    qed
  qed
  show "delivers (if global_ping_due c u1 then do { u2 \<leftarrow> sendGlobalPingProbe c e u1;
      Some (set_gstats (\<lambda>g. g\<lparr>g_lastping_sent := unow u2, g_lastping_sent_numprobes := probes_sent g\<rparr>) u2) } else Some u1) (\<lambda>u'. usi_inv c u' \<and> same_lists u u')"
    using g u1 s by simp
qed

section \<open>Retransmissions\<close>

text \<open>What a probe can still cause: its try number and those of the probes that replace it stay below the limit.\<close>

definition pot :: "scan_cfg \<Rightarrow> ultraprobe \<Rightarrow> nat" where
  "pot c p = (if retransmitted p \<or> isPing p then 0 else max_retransmissions c - tryno p)"

definition potential :: "scan_cfg \<Rightarrow> hss \<Rightarrow> nat" where
  "potential c h = sum_list (map (pot c) (probes_outstanding h))"

lemma sum_list_map_update:
  fixes f :: "'a \<Rightarrow> nat"
  shows "j < length xs \<Longrightarrow> sum_list (map f (xs[j := x])) + f (xs ! j) = sum_list (map f xs) + f x"
  by (induction xs arbitrary: j) (auto split: nat.split)

lemma resent_potential:
  assumes "resent_ok c j h h'" "j < length (probes_outstanding h)" "may_resend (max_tryno c h) (probes_outstanding h ! j)" "max_retransmissions c < 256"
  shows "potential c h' < potential c h"
proof -
  let ?p = "probes_outstanding h ! j" let ?q = "?p\<lparr>retransmitted := True\<rparr>"
  have "max_tryno c h \<le> max_retransmissions c" by (simp add: max_tryno_def)
  then have t: "tryno ?p < max_retransmissions c" "\<not> retransmitted ?p" "\<not> isPing ?p" using assms(3) by (simp_all add: may_resend_def)
  have p: "pot c ?p = max_retransmissions c - tryno ?p" "pot c ?q = 0" using t by (simp_all add: pot_def)
  note u = sum_list_map_update[OF assms(2), of "pot c" ?q]
  show ?thesis
  proof (cases "probes_outstanding h' = (probes_outstanding h)[j := ?q]")
    case True
    then show ?thesis using u p t by (simp add: potential_def)
  next
    case False
    then obtain x where x: "probes_outstanding h' = (probes_outstanding h)[j := ?q] @ [x]" "tryno x = (tryno ?p + 1) mod 256"
      using assms(1) by (auto simp: resent_ok_def Let_def)
    have "pot c x \<le> max_retransmissions c - (tryno ?p + 1)" using x(2) t(1) assms(4) by (simp add: pot_def)
    then show ?thesis using u p t x(1) by (simp add: potential_def)
  qed
qed

definition caches_ok :: "(nat \<Rightarrow> nat option) \<Rightarrow> usi \<Rightarrow> bool" where
  "caches_ok cache u \<longleftrightarrow> (\<forall>i < length (hosts u). cache_ok (cache i) (probes_outstanding (hosts u ! i)))"

definition retransmitted_ok :: "scan_cfg \<Rightarrow> nat \<Rightarrow> usi \<Rightarrow> (nat \<Rightarrow> nat option) \<times> nat \<times> usi \<Rightarrow> bool" where
  "retransmitted_ok c n u = (\<lambda>(cache, n', u'). usi_inv c u' \<and> same_lists u u' \<and> caches_ok cache u' \<and>
     n \<le> n' \<and> total_of (potential c) u' + n' \<le> total_of (potential c) u + n)"

lemma retransmit_host_delivers:
  assumes "cfg_ok c" "max_retransmissions c < 256" "env_ok c e" "usi_inv c u" "i < length (hosts u)" "caches_ok cache u"
  shows "delivers (retransmit_host c e i cache n u) (retransmitted_ok c n u)"
proof -
  let ?h = "hosts u ! i"
  have same: "retransmitted_ok c n u (cache, n, u)" using assms(4,6) by (simp add: retransmitted_ok_def)
  obtain good t where g: "hss_sendOK c i u = Some (good, t)" using hss_sendOK_total[OF assms(1,5)] by blast
  show ?thesis
  proof (cases "(num_probes_active ?h = 0 \<and> num_probes_waiting_retransmit ?h = 0) \<or> \<not> good")
    case True
    then show ?thesis using same assms(5) g by (auto simp: retransmit_host_def)
  next
    case False
    have inv: "hg_inv c (rest_active u i) (?h, gstats u)" using usi_hg_inv[OF assms(4,5)] .
    then have ne: "probes_outstanding ?h \<noteq> []" using False by (auto simp: hg_inv_unfold n_active_def n_waiting_def)
    let ?r = "e_send e (ticks u) True"
    have fits: "result_fits c 0 ps (?r ps) \<and> \<not> finds_host_up c (?r ps)" if "pspec_ok c ps" for ps
      using assms(3) that by (simp add: env_ok_def pspec_ok_def)
    have cache: "cache_ok (cache i) (probes_outstanding ?h)" using assms(5,6) by (simp add: caches_ok_def)
    have "delivers (do { (sent, it, h, g) \<leftarrow> host_retransmit c (unow u) ?r (cache i) (?h, gstats u);
        let u1 = u\<lparr>hosts := (hosts u)[i := h], gstats := g\<rparr>;
        Some (cache(i := it), if sent then n + 1 else n, if sent then read_clock e u1 else u1) }) (retransmitted_ok c n u)"
    proof (rule delivers_bind[OF host_retransmit_delivers[OF assms(1) inv usi_inv_now[OF assms(4)] ne cache fits]], assumption, clarify)
      fix b it h g
      assume a: "hg_inv c (rest_active u i) (snd (snd (b, it, h, g)))" "host_resent_ok c ?h (b, it, h, g)"
      let ?u1 = "u\<lparr>hosts := (hosts u)[i := h], gstats := g\<rparr>"
      have h: "hg_inv c (rest_active u i) (h, g)" using a(1) by simp
      have v: "usi_inv c ?u1" "same_lists u ?u1" using put_inv[OF assms(4,5) h] by simp_all
      have p: "potential c h + (if b then 1 else 0) \<le> potential c ?h"
        using a(2) resent_potential[OF _ _ _ assms(2), of _ ?h h] by (auto simp: host_resent_ok_def potential_def Suc_le_eq)
      have c: "caches_ok (cache(i := it)) ?u1" using assms(6) a(2) by (auto simp: caches_ok_def host_resent_ok_def nth_list_update)
      have "total_of (potential c) ?u1 + (if b then 1 else 0) \<le> total_of (potential c) u"
        using total_update[OF assms(5), of "potential c" g h] p by simp
      then have "retransmitted_ok c n u (cache(i := it), if b then n + 1 else n, if b then read_clock e ?u1 else ?u1)"
        using v c read_clock_inv[OF v(1) assms(3)] by (auto simp: retransmitted_ok_def caches_ok_def same_lists_def)
      then show "delivers (let u1 = ?u1 in Some (cache(i := it), if b then n + 1 else n, if b then read_clock e u1 else u1)) (retransmitted_ok c n u)"
        by (simp add: Let_def)
    qed
    then show ?thesis using False assms(5) g same by (simp add: retransmit_host_def)
  qed
qed

lemma retransmitted_ok_trans: "retransmitted_ok c n u (cache, n1, u1) \<Longrightarrow> retransmitted_ok c n1 u1 x \<Longrightarrow> retransmitted_ok c n u x"
  by (auto simp: retransmitted_ok_def intro: same_lists_trans)

lemma retransmit_pass_delivers:
  assumes "cfg_ok c" "max_retransmissions c < 256" "env_ok c e"
  shows "usi_inv c u \<Longrightarrow> set l \<subseteq> {..<length (hosts u)} \<Longrightarrow> caches_ok cache u \<Longrightarrow> delivers (retransmit_pass c e l cache n u) (retransmitted_ok c n u)"
proof (induction l arbitrary: cache n u)
  case (Cons i l)
  have i: "i < length (hosts u)" using Cons.prems(2) by simp
  have "delivers (do { (cache1, n1, u1) \<leftarrow> retransmit_host c e i cache n u; retransmit_pass c e l cache1 n1 u1 }) (retransmitted_ok c n u)"
  proof (rule delivers_bind[OF retransmit_host_delivers[OF assms Cons.prems(1) i Cons.prems(3)]], clarify)
    fix cache1 n1 u1 assume r: "retransmitted_ok c n u (cache1, n1, u1)"
    then have "delivers (retransmit_pass c e l cache1 n1 u1) (retransmitted_ok c n1 u1)"
      using Cons.prems(2) by (intro Cons.IH) (auto simp: retransmitted_ok_def same_lists_def)
    then show "delivers (retransmit_pass c e l cache1 n1 u1) (retransmitted_ok c n u)"
      by (rule delivers_mono) (rule retransmitted_ok_trans[OF r])
  qed
  then show ?case using Cons.prems by (simp add: retransmitted_ok_def)
qed (simp add: retransmitted_ok_def)

lemma retransmit_loop_delivers:
  assumes "cfg_ok c" "max_retransmissions c < 256" "env_ok c e"
  shows "usi_inv c u \<Longrightarrow> caches_ok cache u \<Longrightarrow> delivers (retransmit_loop c e cache u) (\<lambda>u'. usi_inv c u' \<and> same_lists u u')"
proof (induction "total_of (potential c) u" arbitrary: cache u rule: less_induct)
  case less
  have l: "set (incompleteHosts u) \<subseteq> {..<length (hosts u)}" using incomplete_bound[OF less.prems(1)] by auto
  show ?case
  proof (subst retransmit_loop.simps, rule delivers_bind[OF retransmit_pass_delivers[OF assms less.prems(1) l less.prems(2)]], clarify)
    fix cache1 n u1 assume r: "retransmitted_ok c 0 u (cache1, n, u1)"
    have "delivers (retransmit_loop c e cache1 u1) (\<lambda>u'. usi_inv c u' \<and> same_lists u u')" if "n \<noteq> 0"
    proof -
      have "total_of (potential c) u1 < total_of (potential c) u" using r that by (simp add: retransmitted_ok_def)
      from less.hyps[OF this, of cache1] have "delivers (retransmit_loop c e cache1 u1) (\<lambda>u'. usi_inv c u' \<and> same_lists u1 u')"
        using r by (simp add: retransmitted_ok_def)
      then show ?thesis by (rule delivers_mono) (use r same_lists_trans in \<open>auto simp: retransmitted_ok_def\<close>)
    qed
    then show "delivers (if fst (usi_sendOK c u1) \<and> n \<noteq> 0 then retransmit_loop c e cache1 u1 else Some u1) (\<lambda>u'. usi_inv c u' \<and> same_lists u u')"
      using r by (simp add: retransmitted_ok_def)
  qed
qed

lemma doAnyOutstandingRetransmits_delivers:
  assumes "cfg_ok c" "max_retransmissions c < 256" "env_ok c e" "usi_inv c u"
  shows "delivers (doAnyOutstandingRetransmits c e u) (\<lambda>u'. usi_inv c u' \<and> same_lists u u')"
proof -
  have "caches_ok (\<lambda>_. None) (read_clock e u)" by (simp add: caches_ok_def cache_ok_def)
  from retransmit_loop_delivers[OF assms(1-3) read_clock_inv[OF assms(4,3)] this]
  have "delivers (retransmit_loop c e (\<lambda>_. None) (read_clock e u)) (\<lambda>u'. usi_inv c (read_clock e u') \<and> same_lists u (read_clock e u'))"
    by (rule delivers_mono) (use read_clock_inv[OF _ assms(3)] in \<open>auto simp: same_lists_def\<close>)
  then show ?thesis unfolding doAnyOutstandingRetransmits_def by (rule delivers_map)
qed

end
