(* ===== verification/Engine_Recv.thy ===== *)
theory Engine_Recv
  imports Engine_Send
begin

text \<open>
  The replies that arrive during a round: for every reply that fits the scan, what is done with it fails no assertion and keeps the
  invariant of the group.
\<close>

section \<open>Operations on one host\<close>

lemma on_host_same:
  assumes "usi_inv c u" "i < length (hosts u)"
    "hg_inv c (rest_active u i) (hosts u ! i, gstats u) \<Longrightarrow> delivers (f (hosts u ! i, gstats u)) (hg_inv c (rest_active u i))"
  shows "delivers (on_host i f u) (\<lambda>u'. usi_inv c u' \<and> same_lists u u')"
proof -
  have "delivers (f (hosts u ! i, gstats u)) (\<lambda>hg. hg_inv c (rest_active u i) hg \<and> True)" if "hg_inv c (rest_active u i) (hosts u ! i, gstats u)"
    using assms(3)[OF that] by simp
  from on_host_delivers[OF assms(1,2), where f = f and P = "\<lambda>_. True", OF this] show ?thesis
    by (rule delivers_mono) (auto simp: same_lists_def)
qed

lemma host_up_reply_delivers:
  assumes "cfg_ok c" "hg_inv c k hg" "j < length (probes_outstanding (fst hg))" "newstate = HOST_UP \<or> newstate = HOST_DOWN"
  shows "delivers (host_up_reply c now j newstate rcvd reason hg) (hg_inv c k)"
  unfolding host_up_reply_def
proof (rule delivers_bind[OF host_probe_update_delivers[OF assms]], elim conjE)
  fix hg1 :: hg assume h1: "hg_inv c k hg1"
  have "delivers (if newstate = HOST_UP then destroyAllOutstandingProbes hg1 else Some hg1) (hg_inv c k)"
    using h1 by (auto intro: delivers_mono[OF destroyAll_delivers[OF h1]])
  then show "delivers (do { (h, g) \<leftarrow> (if newstate = HOST_UP then destroyAllOutstandingProbes hg1 else Some hg1);
      Some (h\<lparr>target := (target h)\<lparr>t_reason := reason\<rparr>\<rparr>, g) }) (hg_inv c k)"
    by (rule delivers_bind) (auto intro: reason_inv)
qed

lemma arp_search_less: "0 < n \<Longrightarrow> arp_search rcvd ps n < n"
  by (induction n) (auto simp: less_Suc_eq)

lemma flags_inv: "hg_inv c k (h, g) \<Longrightarrow> hg_inv c k (h\<lparr>target := (target h)\<lparr>flags := x\<rparr>\<rparr>, g)"
  by (simp add: hg_inv_unfold target_inv_def)

lemma arp_reply_delivers:
  assumes "cfg_ok c" "hg_inv c k (h, g)"
  shows "delivers (arp_reply c now rcvd (h, g)) (\<lambda>(b, hg). hg_inv c k hg)"
proof -
  define h1 where "h1 = h\<lparr>target := (target h)\<lparr>t_reason := (if ping_scan_nd c then ER_NDRESPONSE else ER_ARPRESPONSE)\<rparr>\<rparr>"
  have h1: "hg_inv c k (h1, g)" unfolding h1_def by (rule reason_inv[OF assms(2)])
  have up: "delivers (do { hg1 \<leftarrow> ultrascan_host_probe_update c now (arp_search rcvd (probes_outstanding h1) (length (probes_outstanding h1))) HOST_UP (Some rcvd) True (h1, g);
       hg2 \<leftarrow> destroyAllOutstandingProbes hg1; Some (True, hg2) }) (\<lambda>(b, hg). hg_inv c k hg)" if "probes_outstanding h1 \<noteq> []"
  proof (rule delivers_bind[OF host_probe_update_delivers[OF assms(1) h1]], use that arp_search_less in simp_all, elim conjE)
    fix hg1 :: hg assume "hg_inv c k hg1"
    from destroyAll_delivers[OF this] show "delivers (do { hg2 \<leftarrow> destroyAllOutstandingProbes hg1; Some (True, hg2) }) (\<lambda>(b, hg). hg_inv c k hg)"
      by (rule delivers_bind) simp
  qed
  show ?thesis unfolding arp_reply_def prod.case Let_def h1_def[symmetric]
    by (rule delivers_if) (use flags_inv[OF h1] up in simp_all)
qed

lemma port_reply_delivers:
  assumes "cfg_ok c" "hg_inv c k hg" "j < length (probes_outstanding (fst hg))" "\<not> isPing (probes_outstanding (fst hg) ! j)"
    "\<not> ping_scan c" "newstate \<in> {1, 2, 3, 6, 7}"
  shows "delivers (port_reply c now j newstate rcvd adjust reason ttl hg) (hg_inv c k)"
proof -
  let ?ps = "mypspec (probes_outstanding (fst hg) ! j)"
  obtain h g where hg: "hg = (h, g)" by (cases hg)
  have "probe_ok c (max_tryno c h) (probes_outstanding h ! j)" using assms(2,3) probes_inv_nth by (auto simp: hg hg_inv_unfold)
  then have ps: "pspec_ok c ?ps" using assms(4) by (simp add: hg probe_ok_def)
  then have port: "pspec_port c ?ps = Some (if prot_scan c then (ps_proto ?ps, IPPROTO_IP) else (spec_dport ?ps, ps_proto ?ps))"
    using assms(5) by (auto simp: pspec_ok_def pspec_port_def)
  from port_result_delivers[OF assms(1-3,5,6) ps, of "fst (the (pspec_port c ?ps))" "snd (the (pspec_port c ?ps))" now "Some rcvd" adjust reason ttl]
  have "delivers (do { hg1 \<leftarrow> ultrascan_port_probe_update c now j newstate (Some rcvd) adjust hg;
      if prot_scan c then set_reason c (ps_proto ?ps) IPPROTO_IP reason ttl hg1 else set_reason c (spec_dport ?ps) (ps_proto ?ps) reason ttl hg1 }) (hg_inv c k)"
    unfolding port by (cases "prot_scan c") (auto elim: delivers_mono)
  then show ?thesis using assms(3) by (simp add: port_reply_def Let_def)
qed

section \<open>Sockets\<close>

lemma select_probes_delivers:
  assumes "cfg_ok c" "only_connect c" "\<And>s err self. ready s = Some (err, self) \<Longrightarrow> result_known c True err \<and> result_known c False err"
  shows "hg_inv c k hg \<Longrightarrow> delivers (select_probes c now res ready n j good hg) (\<lambda>(good', hg'). hg_inv c k hg')"
proof (induction n arbitrary: j good hg)
  case (Suc n)
  let ?ps = "probes_outstanding (fst hg)"
  show ?case
  proof (cases "\<not> j < length ?ps \<or> \<not> good < res")
    case False
    let ?p = "?ps ! j"
    have p: "probe_ok c (max_tryno c (fst hg)) ?p" using Suc.prems False probes_inv_nth by (auto simp: hg_inv_def host_inv_def)
    then have u: "up_type ?p = UP_CONNECT" using assms(2) by (auto simp: probe_ok_def buildable_def kind_of_def)
    show ?thesis
    proof (cases "if sd ?p \<ge> 0 then ready (sd ?p) else None")
      case None
      then show ?thesis using False u Suc.IH[OF Suc.prems] by (simp add: Let_def)
    next
      case (Some es)
      obtain err self where es: "es = (err, self)" by (cases es)
      have r: "sd ?p \<ge> 0" "ready (sd ?p) = Some (err, self)" using Some es by (auto split: if_splits)
      then have "\<not> timedout ?p" using p u by (auto simp: probe_ok_def)
      moreover have "result_known c (isPing ?p) err" using assms(3)[OF r(2)] by (cases "isPing ?p") simp_all
      ultimately have h: "delivers (handleConnectResult c now j err self False hg) (\<lambda>hg'. hg_inv c k hg' \<and> handled_ok c err j (fst hg) (fst hg'))"
        using handleConnectResult_delivers[OF assms(1) Suc.prems _ u] False by simp
      have "delivers (do { hg1 \<leftarrow> handleConnectResult c now j err self False hg;
          select_probes c now res ready n (if length (probes_outstanding (fst hg1)) = length ?ps then Suc j else j) (good + 1) hg1 }) (\<lambda>(good', hg'). hg_inv c k hg')"
        by (rule delivers_bind[OF h]) (use Suc.IH in simp)
      then show ?thesis using False u r by (simp add: Let_def)
    qed
  qed (use Suc.prems in simp)
qed simp

lemma select_hosts_delivers:
  assumes "cfg_ok c" "only_connect c" "\<And>s err self. ready s = Some (err, self) \<Longrightarrow> result_known c True err \<and> result_known c False err"
  shows "usi_inv c u \<Longrightarrow> set l \<subseteq> {..<length (hosts u)} \<Longrightarrow> delivers (select_hosts c res ready l good u) (\<lambda>(good', u'). usi_inv c u' \<and> same_lists u u')"
proof (induction l arbitrary: good u)
  case (Cons i l)
  have i: "i < length (hosts u)" using Cons.prems(2) by simp
  have "delivers (do { (good1, h, g) \<leftarrow> select_probes c (unow u) res ready (length (probes_outstanding (hosts u ! i))) 0 good (hosts u ! i, gstats u);
      select_hosts c res ready l good1 (u\<lparr>hosts := (hosts u)[i := h], gstats := g\<rparr>) }) (\<lambda>(good', u'). usi_inv c u' \<and> same_lists u u')"
  proof (rule delivers_bind[OF select_probes_delivers[OF assms usi_hg_inv[OF Cons.prems(1) i]]], assumption, clarify)
    fix good1 h g assume h: "hg_inv c (rest_active u i) (h, g)"
    note p = put_inv[OF Cons.prems(1) i h]
    have "set l \<subseteq> {..<length (hosts (u\<lparr>hosts := (hosts u)[i := h], gstats := g\<rparr>))}" using Cons.prems(2) by simp
    from Cons.IH[OF p(1) this] show "delivers (select_hosts c res ready l good1 (u\<lparr>hosts := (hosts u)[i := h], gstats := g\<rparr>))
      (\<lambda>(good', u'). usi_inv c u' \<and> same_lists u u')"
      by (rule delivers_mono) (use p(2) same_lists_trans in auto)
  qed
  then show ?case using Cons i by simp
qed simp

section \<open>Replies\<close>

lemma outstanding_Some:
  assumes "usi_inv c u" "outstanding u i k = Some p"
  shows "i < length (hosts u)" "k < length (probes_outstanding (hosts u ! i))" "p = probes_outstanding (hosts u ! i) ! k"
  using assms by (auto simp: outstanding_def findHost_def split: if_splits)

lemma receive_on_host:
  assumes "usi_inv c u" "case outstanding u i k of None \<Rightarrow> True | Some p \<Rightarrow> b p \<longrightarrow>
      (\<forall>m. hg_inv c m (hosts u ! i, gstats u) \<longrightarrow> delivers (f (hosts u ! i, gstats u)) (hg_inv c m))"
  shows "delivers (case outstanding u i k of None \<Rightarrow> Some (False, u)
         | Some p \<Rightarrow> if b p then map_option (Pair True) (on_host i f u) else Some (False, u)) (\<lambda>(b, u'). usi_inv c u' \<and> same_lists u u')"
proof (cases "outstanding u i k")
  case (Some p)
  have "delivers (on_host i f u) (\<lambda>u'. usi_inv c u' \<and> same_lists u u')" if "b p"
    by (rule on_host_same[OF assms(1) outstanding_Some(1)[OF assms(1) Some]]) (use assms(2) Some that in simp)
  then show ?thesis using Some assms(1) by (auto intro!: delivers_map)
qed (use assms in simp)

lemma receive_delivers:
  assumes "cfg_ok c" "usi_inv c u" "reply_fits c r"
  shows "delivers (receive c r u) (\<lambda>(b, u'). usi_inv c u' \<and> same_lists u u')"
proof (cases r)
  case (Ping_reply i k rcvd adjust)
  have "delivers (ultrascan_ping_update c (unow u) k (Some rcvd) adjust (hosts u ! i, gstats u)) (hg_inv c m)"
    if "outstanding u i k = Some p" "hg_inv c m (hosts u ! i, gstats u)" for p m
    by (rule delivers_mono[OF ping_update_delivers[OF assms(1) that(2)]]) (use outstanding_Some[OF assms(2) that(1)] in simp_all)
  then show ?thesis unfolding receive_def Ping_reply reply.case by (intro receive_on_host[OF assms(2)]) (auto split: option.split)
next
  case (Host_reply i k newstate rcvd reason)
  have "delivers (host_up_reply c (unow u) k newstate rcvd reason (hosts u ! i, gstats u)) (hg_inv c m)"
    if "outstanding u i k = Some p" "hg_inv c m (hosts u ! i, gstats u)" for p m
    by (rule host_up_reply_delivers[OF assms(1) that(2)]) (use outstanding_Some[OF assms(2) that(1)] assms(3) Host_reply in \<open>simp_all add: reply_fits_def\<close>)
  then show ?thesis unfolding receive_def Host_reply reply.case by (intro receive_on_host[OF assms(2)]) (auto split: option.split)
next
  case (Arp_reply i rcvd)
  show ?thesis
  proof (cases "findHost u i")
    case (Some a)
    have a: "a < length (hosts u)" using Some assms(2) by (auto simp: findHost_def usi_inv_def lists_ok_def split: if_splits)
    have "delivers (map_option (\<lambda>(b, h, g). (b, u\<lparr>hosts := (hosts u)[a := h], gstats := g\<rparr>)) (arp_reply c (unow u) rcvd (hosts u ! a, gstats u)))
      (\<lambda>(b, u'). usi_inv c u' \<and> same_lists u u')"
      by (rule delivers_map, rule delivers_mono[OF arp_reply_delivers[OF assms(1) usi_hg_inv[OF assms(2) a]]])
        (use put_inv[OF assms(2) a] in auto)
    then show ?thesis using Some a by (simp add: receive_def Arp_reply)
  qed (use assms(2) in \<open>simp add: receive_def Arp_reply\<close>)
next
  case (Port_reply i k newstate rcvd adjust reason ttl)
  have "delivers (port_reply c (unow u) k newstate rcvd adjust reason ttl (hosts u ! i, gstats u)) (hg_inv c m)"
    if "outstanding u i k = Some p" "\<not> isPing p" "hg_inv c m (hosts u ! i, gstats u)" for p m
    by (rule port_reply_delivers[OF assms(1) that(3)]) (use outstanding_Some[OF assms(2) that(1)] that(2) assms(3) Port_reply in \<open>simp_all add: reply_fits_def\<close>)
  then show ?thesis unfolding receive_def Port_reply reply.case by (intro receive_on_host[OF assms(2)]) (auto split: option.split)
next
  case (Selected res ready)
  have f: "only_connect c" "\<And>s err self. ready s = Some (err, self) \<Longrightarrow> result_known c True err \<and> result_known c False err"
    using assms(3) by (auto simp: Selected reply_fits_def)
  have l: "set (incompleteHosts u @ completedHosts u) \<subseteq> {..<length (hosts u)}" using assms(2) by (auto simp: usi_inv_def lists_ok_def)
  show ?thesis unfolding receive_def Selected reply.case do_one_select_round_def
    by (rule delivers_map, rule delivers_mono[OF select_hosts_delivers[OF assms(1) f assms(2) l]]) auto
qed

end
