(* ===== verification/Engine_Loop.thy ===== *)
theory Engine_Loop
  imports Engine_Recv
begin

text \<open>
  The functions of the main loop that wait for replies, remove completed hosts and expire probes, and the main loop: for every environment
  that fits the scan no assertion fails in any number of rounds, and the invariant of the scan holds after each.
\<close>

section \<open>Waiting\<close>

lemma first_time_total:
  assumes "cfg_ok c" "set l \<subseteq> {..<length (hosts u)}" "l \<noteq> [] \<or> low \<noteq> None"
  shows "\<exists>t. first_time c u l low = Some (Some t)"
  using assms(2,3)
proof (induction l arbitrary: low)
  case (Cons i l)
  obtain b t where s: "hss_sendOK c i u = Some (b, t)" using hss_sendOK_total[OF assms(1), of i u] Cons.prems(1) by auto
  show ?case using s Cons by (cases b; cases low) auto
qed auto

lemma UltraScanInfo_sendOK_total:
  assumes "cfg_ok c" "usi_inv c u" "incompleteHosts u \<noteq> []"
  shows "\<exists>b t. UltraScanInfo_sendOK c u = Some (b, t)"
proof -
  have "set (incompleteHosts u) \<subseteq> {..<length (hosts u)}" using incomplete_bound[OF assms(2)] by auto
  from first_time_total[OF assms(1) this, of None] obtain t where "first_time c u (incompleteHosts u) None = Some (Some t)" using assms(3) by blast
  then show ?thesis by (simp add: UltraScanInfo_sendOK_def Let_def split_beta)
qed

lemma host_fractions_delivers:
  assumes "cfg_ok c"
  shows "usi_inv c u \<Longrightarrow> set l \<subseteq> {..<length (hosts u)} \<Longrightarrow> delivers (host_fractions c l u) (\<lambda>(r, u'). usi_inv c u' \<and> same_lists u u')"
proof (induction l arbitrary: u)
  case (Cons i l)
  have i: "i < length (hosts u)" using Cons.prems(2) by simp
  obtain m b1 b2 h where a: "allowedTryno c (hosts u ! i) = Some (m, b1, b2, h)" "hg_inv c (rest_active u i) (h, gstats u)"
    using allowedTryno_delivers[OF assms usi_hg_inv[OF Cons.prems(1) i]] by (auto simp: delivers_def)
  let ?u = "u\<lparr>hosts := (hosts u)[i := h]\<rparr>"
  have u: "usi_inv c ?u" "same_lists u ?u" using put_inv[OF Cons.prems(1) i a(2)] by simp_all
  have "set l \<subseteq> {..<length (hosts ?u)}" using Cons.prems(2) by simp
  from Cons.IH[OF u(1) this] have "delivers (host_fractions c l ?u) (\<lambda>(r, u'). usi_inv c u' \<and> same_lists u u')"
    by (rule delivers_mono) (use u(2) same_lists_trans in auto)
  then show ?case using i a(1) by (auto simp: delivers_def Let_def)
qed simp

lemma getCompletionFraction_delivers:
  assumes "cfg_ok c" "usi_inv c u"
  shows "delivers (getCompletionFraction c u) (\<lambda>(r, u'). usi_inv c u' \<and> same_lists u u')"
  unfolding getCompletionFraction_def
  by (rule delivers_bind[OF host_fractions_delivers[OF assms]]) (use incomplete_bound[OF assms(2)] in auto)

lemma print_progress_delivers:
  assumes "cfg_ok c" "usi_inv c u"
  shows "delivers (print_progress c b u) (\<lambda>u'. usi_inv c u' \<and> same_lists u u')"
  unfolding print_progress_def
  by (intro delivers_if delivers_map delivers_mono[OF getCompletionFraction_delivers[OF assms]]) (use assms(2) in auto)

lemma wait_loop_delivers:
  assumes "cfg_ok c" "env_ok c e"
  shows "usi_inv c u \<Longrightarrow> incompleteHosts u \<noteq> [] \<Longrightarrow> \<forall>r \<in> set rs. reply_fits c r \<Longrightarrow>
    delivers (wait_loop c e rs u) (\<lambda>u'. usi_inv c u' \<and> same_lists u u')"
proof (induction rs arbitrary: u)
  case (Cons r rs)
  have "reply_fits c r" using Cons.prems(3) by simp
  show ?case unfolding wait_loop.simps
  proof (rule delivers_bind[OF receive_delivers[OF assms(1) read_clock_inv[OF Cons.prems(1) assms(2)] \<open>reply_fits c r\<close>]], clarify)
    fix good u1 assume u1: "usi_inv c u1" "same_lists (read_clock e u) u1"
    then have s: "same_lists u u1" using same_lists_trans[OF read_clock_fields(3)] by blast
    then have n: "incompleteHosts u1 \<noteq> []" using Cons.prems(2) by (simp add: same_lists_def)
    obtain b t where ok: "UltraScanInfo_sendOK c u1 = Some (b, t)" using UltraScanInfo_sendOK_total[OF assms(1) u1(1) n] by blast
    have "delivers (wait_loop c e rs u1) (\<lambda>u'. usi_inv c u' \<and> same_lists u1 u')" using Cons.IH[OF u1(1) n] Cons.prems(3) by simp
    then have "delivers (wait_loop c e rs u1) (\<lambda>u'. usi_inv c u' \<and> same_lists u u')"
      by (rule delivers_mono) (use s same_lists_trans in auto)
    then show "delivers (if good then (if g_active (gstats u1) > 0 then do { _ \<leftarrow> UltraScanInfo_sendOK c u1; wait_loop c e rs u1 } else Some u1)
        else wait_loop c e rs u1) (\<lambda>u'. usi_inv c u' \<and> same_lists u u')"
      using u1(1) s ok by simp
  qed
qed (use read_clock_inv[OF _ assms(2)] in simp)

lemma last_wait_inv: "usi_inv c u \<Longrightarrow> usi_inv c (set_gstats (\<lambda>g. g\<lparr>last_wait := a, probes_sent_at_last_wait := b g\<rparr>) u)"
  "usi_inv c u \<Longrightarrow> usi_inv c (set_gstats (\<lambda>g. g\<lparr>last_wait := a\<rparr>) u)"
  by (rule set_gstats_inv(1); simp add: usi_inv_def group_inv_def)+

lemma waitForResponses_delivers:
  assumes "cfg_ok c" "env_ok c e" "usi_inv c u" "incompleteHosts u \<noteq> []"
  shows "delivers (waitForResponses c e u) (\<lambda>u'. usi_inv c u' \<and> same_lists u u')"
proof -
  define u1 where "u1 = read_clock e u"
  define u2 where "u2 = set_gstats (\<lambda>g. g\<lparr>last_wait := unow u1, probes_sent_at_last_wait := probes_sent g\<rparr>) u1"
  have u2: "usi_inv c u2" "same_lists u u2"
    using last_wait_inv(1)[OF read_clock_inv[OF assms(3,2)]] by (simp_all add: u2_def u1_def set_gstats_def same_lists_def)
  then have n: "incompleteHosts u2 \<noteq> []" using assms(4) by (simp add: same_lists_def)
  obtain b t where ok: "UltraScanInfo_sendOK c u2 = Some (b, t)" using UltraScanInfo_sendOK_total[OF assms(1) u2(1) n] by blast
  have r: "\<forall>r \<in> set (e_replies e (ticks u2)). reply_fits c r" using assms(2) by (simp add: env_ok_def)
  have "delivers (do { u3 \<leftarrow> wait_loop c e (e_replies e (ticks u2)) u2; let u4 = read_clock e u3; Some (set_gstats (\<lambda>g. g\<lparr>last_wait := unow u4\<rparr>) u4) })
    (\<lambda>u'. usi_inv c u' \<and> same_lists u u')"
  proof (rule delivers_bind[OF wait_loop_delivers[OF assms(1,2) u2(1) n r]], elim conjE)
    fix u3 assume u3: "usi_inv c u3" "same_lists u2 u3"
    show "delivers (let u4 = read_clock e u3 in Some (set_gstats (\<lambda>g. g\<lparr>last_wait := unow u4\<rparr>) u4)) (\<lambda>u'. usi_inv c u' \<and> same_lists u u')"
      using last_wait_inv(2)[OF read_clock_inv[OF u3(1) assms(2)]] u2(2) u3(2) by (simp add: Let_def set_gstats_def same_lists_def)
  qed
  then show ?thesis by (simp add: waitForResponses_def Let_def ok flip: u1_def u2_def[unfolded Let_def])
qed

section \<open>Removing completed hosts\<close>

text \<open>What removing hosts keeps: no host is added, removed from or moved back to the incomplete ones.\<close>

definition removed_ok :: "usi \<Rightarrow> usi \<Rightarrow> bool" where
  "removed_ok u u' \<longleftrightarrow> length (hosts u') = length (hosts u) \<and> set (incompleteHosts u') \<subseteq> set (incompleteHosts u) \<and> unow u' = unow u"

lemma purge_completed_inv: "usi_inv c u \<Longrightarrow> usi_inv c (purge_completed u) \<and> removed_ok u (purge_completed u) \<and> incompleteHosts (purge_completed u) = incompleteHosts u"
  by (auto simp: purge_completed_def usi_inv_def lists_ok_def removed_ok_def)

lemma ring_next_other:
  assumes "distinct l" "i \<in> set l" "length l > 1"
  shows "ring_next l i \<in> set l" "ring_next l i \<noteq> i"
proof -
  show "ring_next l i \<in> set l" by (rule ring_next_in[OF assms(1,2)])
  have "(pos_in l i + 1) mod length l \<noteq> pos_in l i" using pos_in_less[OF assms(2)] assms(3)
    by (cases "pos_in l i + 1 = length l") simp_all
  then show "ring_next l i \<noteq> i" using pos_ring_next[OF assms(1,2)] by metis
qed

lemma complete_host_delivers:
  assumes "usi_inv c u" "i \<in> set (incompleteHosts u)"
  shows "delivers (complete_host i timed u) (\<lambda>u'. usi_inv c u' \<and> removed_ok u u' \<and> incompleteHosts u' = remove1 i (incompleteHosts u))"
proof -
  define h where "h = (hosts u ! i)\<lparr>completiontime := unow u\<rparr>"
  define next_i where "next_i = (if nextI u = i \<and> length (incompleteHosts u) > 1 then ring_next (incompleteHosts u) i else nextI u)"
  have i: "i < length (hosts u)" "i \<notin> set (completedHosts u)" using incomplete_bound[OF assms] assms by (auto simp: usi_inv_def lists_ok_def)
  have d: "distinct (incompleteHosts u)" "distinct (incompleteHosts u @ completedHosts u)" "nextI u \<in> set (incompleteHosts u)"
    using assms by (auto simp: usi_inv_def lists_ok_def)
  have n: "next_i \<in> set (remove1 i (incompleteHosts u))" if "remove1 i (incompleteHosts u) \<noteq> []"
  proof -
    have "length (incompleteHosts u) > 1" using that assms(2) by (simp add: length_remove1 flip: length_greater_0_conv)
    then show ?thesis using ring_next_other[OF d(1) assms(2)] d(1,3) by (auto simp: next_i_def)
  qed
  obtain t where t: "(if toclock_running (target h) then stopTimeOutClock (unow u) (target h) else Some (target h)) = Some t"
    "tports t = tports (target (hosts u ! i))" "pingprobe t = pingprobe (target (hosts u ! i))"
    by (cases "toclock_running (target h)") (simp_all add: stopTimeOutClock_def h_def)
  have "hg_inv c (rest_active u i) (h\<lparr>target := t\<rparr>, gstats u)"
    using usi_hg_inv[OF assms(1) i(1)] t(2,3) by (simp add: hg_inv_unfold target_inv_def h_def max_tryno_def queue_inv_def)
  from put_inv(1)[OF assms(1) i(1) this]
  have v: "usi_inv c (u\<lparr>hosts := (hosts u)[i := h\<lparr>target := t\<rparr>]\<rparr>)" by simp
  have g: "group_inv c (if timed then (gstats u)\<lparr>num_hosts_timedout := x\<rparr> else gstats u)" for x using assms(1) by (simp add: usi_inv_def group_inv_def)
  show ?thesis unfolding complete_host_def Let_def h_def[symmetric] t(1) bind.bind_lunit delivers_Some next_i_def[symmetric]
    using v g d n i by (auto simp: usi_inv_def lists_ok_def removed_ok_def set_insort_key distinct_insort dest: notin_set_remove1)
qed

lemma remove_hosts_delivers:
  assumes "cfg_ok c"
  shows "usi_inv c u \<Longrightarrow> distinct l \<Longrightarrow> set l \<subseteq> set (incompleteHosts u) \<Longrightarrow> delivers (remove_hosts c l u) (\<lambda>u'. usi_inv c u' \<and> removed_ok u u')"
proof (induction l arbitrary: u)
  case (Cons i l)
  have i: "i \<in> set (incompleteHosts u)" "i < length (hosts u)" "i \<notin> set l" using Cons.prems incomplete_bound by auto
  define timed where "timed = Target_timedOut c (unow u) (target (hosts u ! i))"
  obtain b where b: "completed c (hosts u ! i) = Some b" using completed_total[OF assms] by blast
  have in_remove1: "x \<in> set (remove1 i (incompleteHosts u))" if "x \<in> set l" for x 
    using that Cons.prems(3) i(3) by (metis in_set_remove1 list.set_intros(2) subsetD)
  have step: "delivers (if b \<or> timed then complete_host i timed u else Some u) (\<lambda>u'. usi_inv c u' \<and> removed_ok u u' \<and> set l \<subseteq> set (incompleteHosts u'))"
  proof (rule delivers_if)
    show "delivers (complete_host i timed u) (\<lambda>u'. usi_inv c u' \<and> removed_ok u u' \<and> set l \<subseteq> set (incompleteHosts u'))"
      by (rule delivers_mono[OF complete_host_delivers[OF Cons.prems(1) i(1)]]) (use Cons.prems i(3) in \<open>auto simp: in_remove1\<close>)
  qed (use Cons.prems in \<open>simp add: removed_ok_def\<close>)
  have "delivers (do { u1 \<leftarrow> (if b \<or> timed then complete_host i timed u else Some u); remove_hosts c l u1 }) (\<lambda>u'. usi_inv c u' \<and> removed_ok u u')"
  proof (rule delivers_bind[OF step], elim conjE)
    fix u1 assume u1: "usi_inv c u1" "removed_ok u u1" "set l \<subseteq> set (incompleteHosts u1)"
    from Cons.IH[OF u1(1) _ u1(3)] Cons.prems(2) have "delivers (remove_hosts c l u1) (\<lambda>u'. usi_inv c u' \<and> removed_ok u1 u')" by simp
    then show "delivers (remove_hosts c l u1) (\<lambda>u'. usi_inv c u' \<and> removed_ok u u')"
      by (rule delivers_mono) (use u1(2) in \<open>auto simp: removed_ok_def\<close>)
  qed
  then show ?case using i(2) by (simp add: b Let_def flip: timed_def)
qed (simp add: removed_ok_def)

lemma removeCompletedHosts_delivers:
  assumes "cfg_ok c" "usi_inv c u"
  shows "delivers (removeCompletedHosts c u) (\<lambda>u'. usi_inv c u' \<and> removed_ok u u')"
proof -
  note p = purge_completed_inv[OF assms(2)]
  have "distinct (incompleteHosts u)" using assms(2) by (simp add: usi_inv_def lists_ok_def)
  then have "delivers (removeCompletedHosts c u) (\<lambda>u'. usi_inv c u' \<and> removed_ok (purge_completed u) u')"
    unfolding removeCompletedHosts_def using p by (intro remove_hosts_delivers[OF assms(1)]) auto
  then show ?thesis by (rule delivers_mono) (use p in \<open>auto simp: removed_ok_def\<close>)
qed

section \<open>Expiring probes\<close>

lemma process_hosts_delivers:
  assumes "cfg_ok c"
  shows "usi_inv c u \<Longrightarrow> set l \<subseteq> {..<length (hosts u)} \<Longrightarrow> delivers (process_hosts c l u) (\<lambda>u'. usi_inv c u' \<and> same_lists u u')"
proof (induction l arbitrary: u)
  case (Cons i l)
  have i: "i < length (hosts u)" using Cons.prems(2) by simp
  have s: "delivers (on_host i (process_host c (unow u)) u) (\<lambda>u'. usi_inv c u' \<and> same_lists u u')"
    by (rule on_host_same[OF Cons.prems(1) i]) (auto intro: delivers_mono[OF process_host_delivers[OF assms]])
  show ?case unfolding process_hosts.simps
  proof (rule delivers_bind[OF s], elim conjE)
    fix u1 assume u1: "usi_inv c u1" "same_lists u u1"
    then have "set l \<subseteq> {..<length (hosts u1)}" using Cons.prems(2) by (simp add: same_lists_def)
    from Cons.IH[OF u1(1) this] show "delivers (process_hosts c l u1) (\<lambda>u'. usi_inv c u' \<and> same_lists u u')"
      by (rule delivers_mono) (use u1(2) same_lists_trans in auto)
  qed
qed simp

lemma expire_pings_delivers:
  assumes "cfg_ok c"
  shows "hg_inv c k hg \<Longrightarrow> j + n = length (probes_outstanding (fst hg)) \<Longrightarrow> delivers (expire_pings c now n j hg) (hg_inv c k)"
proof (induction n arbitrary: j hg)
  case (Suc n)
  have j: "j < length (probes_outstanding (fst hg))" using Suc.prems(2) by simp
  have ping: "delivers (do { hg1 \<leftarrow> ultrascan_ping_update c now j None True hg; expire_pings c now n j hg1 }) (hg_inv c k)"
    by (rule delivers_bind[OF ping_update_delivers[OF assms Suc.prems(1) j]]) (use Suc.prems(2) length_remove_nth[OF j] in \<open>auto intro!: Suc.IH\<close>)
  have "delivers (expire_pings c now n (Suc j) hg) (hg_inv c k)" using Suc by simp
  then show ?case using ping j by (simp add: Let_def)
qed simp

lemma processData_delivers:
  assumes "cfg_ok c" "env_ok c e" "usi_inv c u"
  shows "delivers (processData c e u) (\<lambda>u'. usi_inv c u' \<and> length (hosts u') = length (hosts u) \<and> set (incompleteHosts u') \<subseteq> set (incompleteHosts u))"
    (is "delivers _ ?Q")
  unfolding processData_def
proof (rule delivers_bind[OF removeCompletedHosts_delivers[OF assms(1) read_clock_inv[OF assms(3,2)]]], elim conjE)
  fix u1 assume u1: "usi_inv c u1" "removed_ok (read_clock e u) u1"
  then have q1: "length (hosts u1) = length (hosts u)" "set (incompleteHosts u1) \<subseteq> set (incompleteHosts u)" by (simp_all add: removed_ok_def)
  have l: "set (incompleteHosts u1) \<subseteq> {..<length (hosts u1)}" using incomplete_bound[OF u1(1)] by auto
  have "delivers (do { u2 \<leftarrow> process_hosts c (incompleteHosts u1) u1; u3 \<leftarrow> removeCompletedHosts c u2;
       u4 \<leftarrow> (case pinghost u3 of None \<Rightarrow> Some u3 | Some p \<Rightarrow> if \<not> p < length (hosts u3) then None
             else on_host p (expire_pings c (unow u3) (length (probes_outstanding (hosts u3 ! p))) 0) u3);
       Some (read_clock e u4) }) ?Q"
  proof (rule delivers_bind[OF process_hosts_delivers[OF assms(1) u1(1) l]], elim conjE)
    fix u2 assume u2: "usi_inv c u2" "same_lists u1 u2"
    show "delivers (do { u3 \<leftarrow> removeCompletedHosts c u2;
       u4 \<leftarrow> (case pinghost u3 of None \<Rightarrow> Some u3 | Some p \<Rightarrow> if \<not> p < length (hosts u3) then None
             else on_host p (expire_pings c (unow u3) (length (probes_outstanding (hosts u3 ! p))) 0) u3);
       Some (read_clock e u4) }) ?Q"
    proof (rule delivers_bind[OF removeCompletedHosts_delivers[OF assms(1) u2(1)]], elim conjE)
      fix u3 assume u3: "usi_inv c u3" "removed_ok u2 u3"
      have p: "p < length (hosts u3)" if "pinghost u3 = Some p" for p using u3(1) that by (simp add: usi_inv_def lists_ok_def)
      have on: "delivers (on_host p (expire_pings c (unow u3) (length (probes_outstanding (hosts u3 ! p))) 0) u3) (\<lambda>u'. usi_inv c u' \<and> same_lists u3 u')"
        if "pinghost u3 = Some p" for p
        by (rule on_host_same[OF u3(1) p[OF that]], rule expire_pings_delivers[OF assms(1)]) simp_all
      have "delivers (case pinghost u3 of None \<Rightarrow> Some u3 | Some p \<Rightarrow> if \<not> p < length (hosts u3) then None
             else on_host p (expire_pings c (unow u3) (length (probes_outstanding (hosts u3 ! p))) 0) u3) (\<lambda>u'. usi_inv c u' \<and> same_lists u3 u')"
        using on p u3(1) by (auto split: option.split)
      then show "delivers (do { u4 \<leftarrow> (case pinghost u3 of None \<Rightarrow> Some u3 | Some p \<Rightarrow> if \<not> p < length (hosts u3) then None
             else on_host p (expire_pings c (unow u3) (length (probes_outstanding (hosts u3 ! p))) 0) u3);
         Some (read_clock e u4) }) ?Q"
        by (rule delivers_bind) (use q1 u2(2) u3(2) read_clock_inv[OF _ assms(2)] in \<open>auto simp: same_lists_def removed_ok_def\<close>)
    qed
  qed
  then show "delivers (if incompleteHosts u1 = [] then Some u1 else do { u2 \<leftarrow> process_hosts c (incompleteHosts u1) u1; u3 \<leftarrow> removeCompletedHosts c u2;
       u4 \<leftarrow> (case pinghost u3 of None \<Rightarrow> Some u3 | Some p \<Rightarrow> if \<not> p < length (hosts u3) then None
             else on_host p (expire_pings c (unow u3) (length (probes_outstanding (hosts u3 ! p))) 0) u3);
       Some (read_clock e u4) }) ?Q"
    using u1(1) q1 by simp
qed

section \<open>The main loop\<close>

lemma scan_round_delivers:
  assumes "cfg_ok c" "max_retransmissions c < 256" "env_ok c e" "usi_inv c u" "incompleteHosts u \<noteq> []"
  shows "delivers (scan_round c e u) (usi_inv c)"
  unfolding scan_round_def Let_def
proof (rule delivers_bind[OF doAnyPings_delivers[OF assms(1,3,4)]], elim conjE)
  fix u1 assume u1: "usi_inv c u1" "same_lists u u1"
  note r1 = doAnyOutstandingRetransmits_delivers[OF assms(1-3) u1(1)]
  show "delivers (do { u2 \<leftarrow> doAnyOutstandingRetransmits c e u1; u3 \<leftarrow> doAnyRetryStackRetransmits c e u2; u4 \<leftarrow> doAnyNewProbes c e u3;
      u6 \<leftarrow> print_progress c (e_print e (ticks (read_clock e u4))) (read_clock e u4); u7 \<leftarrow> waitForResponses c e u6;
      u8 \<leftarrow> processData c e (read_clock e u7); print_progress c (e_key e (ticks u8)) u8 }) (usi_inv c)"
  proof (rule delivers_bind[OF r1], elim conjE)
    fix u2 assume u2: "usi_inv c u2" "same_lists u1 u2"
    show "delivers (do { u3 \<leftarrow> doAnyRetryStackRetransmits c e u2; u4 \<leftarrow> doAnyNewProbes c e u3;
      u6 \<leftarrow> print_progress c (e_print e (ticks (read_clock e u4))) (read_clock e u4); u7 \<leftarrow> waitForResponses c e u6;
      u8 \<leftarrow> processData c e (read_clock e u7); print_progress c (e_key e (ticks u8)) u8 }) (usi_inv c)"
    proof (rule delivers_bind[OF doAnyRetryStackRetransmits_delivers[OF assms(1,3) u2(1)]], elim conjE,
        rule delivers_bind[OF doAnyNewProbes_delivers[OF assms(1,3)]], assumption, elim conjE)
      fix u3 u4 assume u3: "incompleteHosts u3 = incompleteHosts u2" and u4: "usi_inv c u4" "incompleteHosts u4 = incompleteHosts u3"
      have n: "incompleteHosts (read_clock e u4) \<noteq> []" using u1(2) u2(2) u3 u4(2) assms(5) by (simp add: same_lists_def)
      show "delivers (do { u6 \<leftarrow> print_progress c (e_print e (ticks (read_clock e u4))) (read_clock e u4); u7 \<leftarrow> waitForResponses c e u6;
        u8 \<leftarrow> processData c e (read_clock e u7); print_progress c (e_key e (ticks u8)) u8 }) (usi_inv c)"
      proof (rule delivers_bind[OF print_progress_delivers[OF assms(1) read_clock_inv[OF u4(1) assms(3)]]], elim conjE,
          rule delivers_bind[OF waitForResponses_delivers[OF assms(1,3)]], assumption)
        fix u6 assume "same_lists (read_clock e u4) u6"
        then show "incompleteHosts u6 \<noteq> []" using n by (simp add: same_lists_def)
      next
        fix u7 u6 assume "usi_inv c u7 \<and> same_lists u6 u7"
        then have "usi_inv c (read_clock e u7)" using read_clock_inv[OF _ assms(3)] by simp
        from processData_delivers[OF assms(1,3) this]
        show "delivers (do { u8 \<leftarrow> processData c e (read_clock e u7); print_progress c (e_key e (ticks u8)) u8 }) (usi_inv c)"
          by (rule delivers_bind) (auto intro: delivers_mono[OF print_progress_delivers[OF assms(1)]])
      qed
    qed
  qed
qed

lemma scan_rounds_delivers:
  assumes "cfg_ok c" "max_retransmissions c < 256" "env_ok c e"
  shows "usi_inv c u \<Longrightarrow> delivers (scan_rounds c e n u) (usi_inv c)"
proof (induction n arbitrary: u)
  case (Suc n)
  show ?case
  proof (cases "incompleteHosts u = []")
    case False
    then have "delivers (do { u1 \<leftarrow> scan_round c e u; scan_rounds c e n u1 }) (usi_inv c)"
      by (intro delivers_bind[OF scan_round_delivers[OF assms Suc.prems]] Suc.IH)
    then show ?thesis using False by simp
  qed (use Suc.prems in simp)
qed simp

end
