(* ===== verification/Engine_Run.thy ===== *)
theory Engine_Run
  imports Engine_Loop
begin

text \<open>
  Whole scans.  Starting a scan establishes its invariant, so no assertion of the engine ever fails; hosts leave the scan exactly when they
  are complete or timed out; and no probe is sent faster than the maximum rate.
\<close>

section \<open>Starting\<close>

definition scannable :: "scan_cfg \<Rightarrow> target \<Rightarrow> bool" where
  "scannable c t \<longleftrightarrow> pl_ok (statics c) (tports t) \<and> known_states (tports t) \<and> ps_type (pingprobe t) \<noteq> PS_ICMPV6 \<and>
     (pingprobe_is_appropriate c (pingprobe t) \<longrightarrow> buildable c (pingprobe t))"

definition startable :: "scan_cfg \<Rightarrow> env \<Rightarrow> rat \<Rightarrow> target list \<Rightarrow> bool" where
  "startable c e h targets \<longleftrightarrow> cfg_ok c \<and> max_retransmissions c < 256 \<and> 0 \<le> max_packet_send_rate c \<and> env_ok c e \<and>
     0 < h \<and> h * 1000000 \<in> \<int> \<and> 0 < usecs (e_clock e 0) \<and> (\<forall>t \<in> set targets. scannable c t)"

lemma default_port_state_ok:
  assumes "ultra_scantype c" "scannable c t"
  shows "\<exists>t'. set_default_port_state c t = Some t' \<and> scannable c t'"
proof -
  have s: "scannable c (t\<lparr>tports := setDefaultPortState pr s (tports t)\<rparr>)" for pr s
    using assms(2) setDefaultPortState_ok by (auto simp: scannable_def known_states_def slots_def setDefaultPortState_def Let_def)
  show ?thesis
  proof (cases "scantype c \<in> {PING_SCAN, PING_SCAN_ARP, PING_SCAN_ND}")
    case True
    then show ?thesis using assms(2) by (auto simp: set_default_port_state_def)
  next
    case False
    then have "set_default_port_state c t \<noteq> None" using assms(1)
      by (cases "scantype c") (simp_all add: set_default_port_state_def ultra_scantype_def scan_kind_defs)
    moreover have "set_default_port_state c t = Some t' \<Longrightarrow> scannable c t'" for t'
      using s False by (auto simp: set_default_port_state_def Let_def split: if_splits)
    ultimately show ?thesis by auto
  qed
qed

lemma those_map: "(\<And>x. x \<in> set l \<Longrightarrow> \<exists>y. f x = Some y \<and> P y) \<Longrightarrow> \<exists>ys. those (map f l) = Some ys \<and> length ys = length l \<and> (\<forall>y \<in> set ys. P y)"
proof (induction l)
  case (Cons x l)
  obtain y where y: "f x = Some y" "P y" using Cons.prems by auto
  obtain ys where "those (map f l) = Some ys" "length ys = length l" "\<forall>y \<in> set ys. P y" using Cons by auto
  then show ?case using y by simp
qed simp

lemma hss_new_inv:
  assumes "cfg_ok c" "scannable c t"
  shows "host_inv c (hss_new c now t)" "num_probes_active (hss_new c now t) = 0"
  using assms init_ultra_timing_vals_ok[of "perf c"]
  by (simp_all add: host_inv_def hss_new_def n_active_def n_waiting_def probes_inv_def queue_inv_def target_inv_def scannable_def cfg_ok_def buildable_def ps_none_def)

lemma GroupScanStats_new_inv:
  assumes "cfg_ok c" "0 \<le> max_packet_send_rate c" "0 < h" "h * 1000000 \<in> \<int>" "tval_ok now" "0 < usecs now"
  shows "\<exists>m g. PacketRateMeter_start now (PacketRateMeter_new h) = Some m \<and> GroupScanStats_new c now lw max_sd m n = Some g \<and>
    group_inv c g \<and> g_active g = 0"
proof -
  obtain m where m: "RateMeter_start now (RateMeter_new h) = Some m" "meter_ok m" "total m = 0" "start_tv m = now"
    using RateMeter_start_ok[OF assms(3-6)] by blast
  obtain np where np: "numProbesPerHost c = Some np" using freshPortsLeft_total[of c cursor0] assms(1) by (auto simp: numProbesPerHost_fresh cfg_ok_def)
  have "perf_ok (perf c)" using assms(1) by (simp add: cfg_ok_def)
  then show ?thesis using m np assms(2,5) init_ultra_timing_vals_ok
    by (simp add: PacketRateMeter_start_def PacketRateMeter_new_def GroupScanStats_new_def group_inv_def csi_inv_def ConnectScanInfo_new_def Let_def rate_paced_def)
qed

lemma UltraScanInfo_Init_delivers:
  assumes "startable c e h targets"
  shows "delivers (UltraScanInfo_Init c e max_sd h targets) (usi_inv c)"
proof -
  have a: "cfg_ok c" "ultra_scantype c" "0 \<le> max_packet_send_rate c" "0 < h" "h * 1000000 \<in> \<int>" "tval_ok (e_clock e 0)" "0 < usecs (e_clock e 0)"
    using assms by (simp_all add: startable_def cfg_ok_def env_ok_def)
  obtain ts where ts: "those (map (set_default_port_state c) targets) = Some ts" "\<forall>t \<in> set ts. scannable c t"
    using those_map[of targets "set_default_port_state c" "scannable c"] default_port_state_ok[OF a(2)] assms by (auto simp: startable_def)
  define live where "live = filter (\<lambda>t. \<not> Target_timedOut c (e_clock e 0) t) ts"
  obtain m g where g: "PacketRateMeter_start (e_clock e 0) (PacketRateMeter_new h) = Some m"
    "GroupScanStats_new c (e_clock e 0) (e_clock e 1) max_sd m (length live) = Some g" "group_inv c g" "g_active g = 0"
    using GroupScanStats_new_inv[OF a(1,3-7)] by blast
  have l: "\<forall>t \<in> set live. scannable c t" using ts(2) by (simp add: live_def)
  have "total_active (map (hss_new c (e_clock e 0)) live) = 0"
    using l hss_new_inv(2)[OF a(1)] by (induction live) (simp_all add: total_active_def)
  then show ?thesis using ts(1) g l hss_new_inv(1)[OF a(1)] a(6)
    by (auto simp: UltraScanInfo_Init_def Let_def usi_inv_def lists_ok_def group_inv_def simp flip: live_def)
qed

lemma share_inv: "usi_inv c u \<Longrightarrow> usi_inv c (set_gstats (\<lambda>g. g\<lparr>g_to := t\<rparr>) u)"
  by (rule set_gstats_inv(1); simp add: usi_inv_def group_inv_def)

text \<open>What holds of a state in which a scan ends, after the meter has been stopped.\<close>

definition ended_ok :: "scan_cfg \<Rightarrow> usi \<Rightarrow> bool" where
  "ended_ok c u \<longleftrightarrow> (\<exists>v. usi_inv c v \<and> (u = v \<or> (incompleteHosts v = [] \<and> end_scan v = Some u)))"

lemma end_scan_delivers:
  assumes "usi_inv c v" "incompleteHosts v = []"
  shows "delivers (end_scan v) (ended_ok c)"
proof -
  have "meter_ok (packet_meter (send_rate_meter (gstats v)))" "meter_ok (byte_meter (send_rate_meter (gstats v)))"
    using assms(1) by (simp_all add: usi_inv_def group_inv_def)
  then have "end_scan v \<noteq> None" using isSet_pos by (simp add: end_scan_def PacketRateMeter_stop_def RateMeter_stop_def meter_ok_def)
  then show ?thesis using assms by (auto simp: delivers_def ended_ok_def)
qed

lemma ultra_scan_delivers:
  assumes "startable c e h targets"
  shows "delivers (ultra_scan c e max_sd h targets shared n) (\<lambda>(r, shared'). \<forall>u. r = Some u \<longrightarrow> ended_ok c u)"
proof (cases "targets = []")
  case False
  let ?Q = "\<lambda>(r, shared'). \<forall>u. r = Some u \<longrightarrow> ended_ok c u"
  have a: "cfg_ok c" "max_retransmissions c < 256" "env_ok c e" using assms by (simp_all add: startable_def)
  have rounds: "delivers (do { u1 \<leftarrow> scan_rounds c e n (case shared of None \<Rightarrow> u | Some t \<Rightarrow> set_gstats (\<lambda>g. g\<lparr>g_to := t\<rparr>) u);
      u2 \<leftarrow> (if incompleteHosts u1 = [] then end_scan u1 else Some u1); Some (Some u2, map_option (\<lambda>_. g_to (gstats u2)) shared) }) ?Q"
    if u: "usi_inv c u" for u
  proof (rule delivers_bind[OF scan_rounds_delivers[OF a]])
    show "usi_inv c (case shared of None \<Rightarrow> u | Some t \<Rightarrow> set_gstats (\<lambda>g. g\<lparr>g_to := t\<rparr>) u)"
      using u share_inv by (cases shared) simp_all
    fix u1 assume u1: "usi_inv c u1"
    have "delivers (if incompleteHosts u1 = [] then end_scan u1 else Some u1) (ended_ok c)"
      by (rule delivers_if[OF end_scan_delivers[OF u1]]) (use u1 in \<open>auto simp: ended_ok_def\<close>)
    then show "delivers (do { u2 \<leftarrow> (if incompleteHosts u1 = [] then end_scan u1 else Some u1); Some (Some u2, map_option (\<lambda>_. g_to (gstats u2)) shared) }) ?Q"
      by (rule delivers_bind) simp
  qed
  show ?thesis unfolding ultra_scan_def
    by (simp add: False) (rule delivers_bind[OF UltraScanInfo_Init_delivers[OF assms]], rule delivers_if, simp, erule rounds)
qed (simp add: ultra_scan_def)

lemma usi_inv_counts:
  assumes "usi_inv c u"
  shows "g_active (gstats u) = sum_list (map num_probes_active (hosts u))"
    "\<forall>h \<in> set (hosts u). num_probes_active h = int (length (filter (\<lambda>p. \<not> timedout p) (probes_outstanding h))) \<and>
       num_probes_waiting_retransmit h = int (length (filter (\<lambda>p. timedout p \<and> \<not> retransmitted p \<and> \<not> isPing p) (probes_outstanding h))) \<and>
       (\<forall>p \<in> set (probes_outstanding h). tryno p \<le> max_retransmissions c)"
    "distinct (incompleteHosts u @ completedHosts u)"
proof -
  have "max_tryno c h \<le> max_retransmissions c" for h by (simp add: max_tryno_def)
  then have "probes_inv c (max_tryno c h) ps \<Longrightarrow> \<forall>p \<in> set ps. tryno p \<le> max_retransmissions c" for h ps
    by (auto simp: probes_inv_def list_all_iff probe_ok_def intro: order_trans)
  then show "g_active (gstats u) = sum_list (map num_probes_active (hosts u))"
    "\<forall>h \<in> set (hosts u). num_probes_active h = int (length (filter (\<lambda>p. \<not> timedout p) (probes_outstanding h))) \<and>
       num_probes_waiting_retransmit h = int (length (filter (\<lambda>p. timedout p \<and> \<not> retransmitted p \<and> \<not> isPing p) (probes_outstanding h))) \<and>
       (\<forall>p \<in> set (probes_outstanding h). tryno p \<le> max_retransmissions c)"
    "distinct (incompleteHosts u @ completedHosts u)"
    using assms by (auto simp: usi_inv_def total_active_def host_inv_def n_active_def n_waiting_def lists_ok_def)
qed

text \<open>C1. In a scan that is set up consistently (\<^const>\<open>cfg_ok\<close>: limits in order and every port of the scan in the port map; \<^const>\<open>scannable\<close>:
  every target has a consistent port table and a ping probe that the scan can send) no assertion fails, whatever replies arrive, in whatever
  order and however the clock runs, in any number of rounds, and every loop in a round ends, provided that the system keeps to \<^const>\<open>env_ok\<close>: times
  are normalised, descriptors are not negative, \<open>connect\<close> and \<open>select\<close> report only errors that \<open>handleConnectResult\<close> knows, replies are of kinds that the
  receive functions yield, and in a ping scan no retransmitted connect probe finds its host up at once.  In the last case the scan does fail an assertion:
  lemma \<open>retransmitted_connect_fails\<close>.  Afterwards the counter of active
  probes of the group is the sum of those of the hosts, the counters of each host are the numbers of its outstanding probes that have not timed out and
  that wait to be sent again, no probe was sent more often than \<open>--max-retries\<close> allows, and no host is both completed and not.\<close>

theorem ultra_scan_never_fails:
  assumes "startable c e h targets"
  shows "\<exists>r shared'. ultra_scan c e max_sd h targets shared n = Some (r, shared') \<and> (\<forall>u. r = Some u \<longrightarrow>
    g_active (gstats u) = sum_list (map num_probes_active (hosts u)) \<and>
    (\<forall>h \<in> set (hosts u). num_probes_active h = int (length (filter (\<lambda>p. \<not> timedout p) (probes_outstanding h))) \<and>
       num_probes_waiting_retransmit h = int (length (filter (\<lambda>p. timedout p \<and> \<not> retransmitted p \<and> \<not> isPing p) (probes_outstanding h))) \<and>
       (\<forall>p \<in> set (probes_outstanding h). tryno p \<le> max_retransmissions c)) \<and>
    distinct (incompleteHosts u @ completedHosts u))"
proof -
  obtain r shared' where r: "ultra_scan c e max_sd h targets shared n = Some (r, shared')" "\<And>u. r = Some u \<Longrightarrow> ended_ok c u"
    using ultra_scan_delivers[OF assms, of max_sd shared n] by (auto simp: delivers_def)
  have "\<exists>v. usi_inv c v \<and> hosts u = hosts v \<and> g_active (gstats u) = g_active (gstats v) \<and> incompleteHosts u = incompleteHosts v \<and> completedHosts u = completedHosts v"
    if ru: "r = Some u" for u
  proof -
    obtain v where v: "usi_inv c v" "u = v \<or> end_scan v = Some u" using r(2)[OF ru] by (auto simp: ended_ok_def)
    then have "hosts u = hosts v \<and> g_active (gstats u) = g_active (gstats v) \<and> incompleteHosts u = incompleteHosts v \<and> completedHosts u = completedHosts v"
      by (auto simp: end_scan_def set_gstats_def split: bind_splits)
    then show ?thesis using v(1) by blast
  qed
  with r(1) usi_inv_counts show ?thesis by (intro exI[of _ r] exI[of _ shared']) fastforce
qed

section \<open>Where it fails\<close>

lemma destroyOutstandingProbe_removes:
  "destroyOutstandingProbe k hg = Some hg' \<Longrightarrow> Suc (length (probes_outstanding (fst hg'))) = length (probes_outstanding (fst hg))"
  by (cases hg) (auto simp: destroyOutstandingProbe_def dec_active_def dec_waiting_def clear_csi_def remove_nth_def Let_def split: if_splits bind_splits)

lemma destroy_first_removes:
  "destroy_first n hg = Some hg' \<Longrightarrow> length (probes_outstanding (fst hg')) + n = length (probes_outstanding (fst hg))"
  by (induction n arbitrary: hg) (auto dest!: destroyOutstandingProbe_removes split: bind_splits)

lemma host_up_destroys_all:
  assumes "ping_scan c" "connect_states c e = Some (HOST_UP, np, r)" "k < length (probes_outstanding (fst hg))" "\<not> isPing (probes_outstanding (fst hg) ! k)"
    "handleConnectResult c now k e self d hg = Some hg'"
  shows "probes_outstanding (fst hg') = []"
proof -
  obtain hg1 where "destroyAllOutstandingProbes hg1 = Some hg'" using assms by (auto simp: handleConnectResult_def Let_def split: bind_splits)
  then show ?thesis using destroy_first_removes[of "length (probes_outstanding (fst hg1))" hg1 hg'] by (simp add: destroyAllOutstandingProbes_def)
qed

text \<open>The case that \<^const>\<open>env_ok\<close> excludes, at \<open>scan_engine.cc:2358\<close>: in a ping scan a connect probe is retransmitted and the connection is made or
  refused at once, so that the host is up.  All outstanding probes of the host are destroyed then, with them the one that \<open>retransmitProbe\<close> goes
  on to mark; its assertion on the number of waiting probes fails, if it gets there.\<close>

lemma retransmitted_connect_fails:
  assumes "finds_host_up c r" "ps_type (mypspec (probes_outstanding h ! k)) = PS_CONNECTTCP"
  shows "retransmitProbe c now k r (h, g) = None"
proof -
  obtain con np rs where r: "r = Conn con" "ping_scan c" "connect_states c (con_errno con) = Some (HOST_UP, np, rs)"
      "con_errno con \<noteq> E_INPROGRESS" "con_errno con \<noteq> E_AGAIN"
    using assms(1) by (auto simp: finds_host_up_def up_result_def split: send_result.splits option.splits)
  have "probes_outstanding (fst hg1) = []" if s: "sendProbe c now (mypspec (probes_outstanding h ! k)) n 0 r (h, g) = Some hg1" for n hg1
  proof -
    obtain hg2 where h: "handleConnectResult c (con_after con) (length (probes_outstanding h)) (con_errno con) (con_self con) True hg2 = Some hg1"
        "\<exists>p. probes_outstanding (fst hg2) = probes_outstanding h @ [p] \<and> \<not> isPing p"
      using s assms(2) r by (auto simp: sendProbe_def sendConnectScanProbe_def probeSent_def push_probe_def new_probe_def isPing_def Let_def split: bind_splits)
    show ?thesis by (rule host_up_destroys_all[OF r(2,3) _ _ h(1)]) (use h(2) in auto)
  qed
  then show ?thesis by (auto simp: retransmitProbe_def Let_def split: bind_splits)
qed

section \<open>An example\<close>

definition example_env :: env where
  "example_env = \<lparr>e_clock = (\<lambda>n. \<lparr>tsec = 1000 + int n, tusec = 0\<rparr>),
     e_send = (\<lambda>n b ps. case ps_type ps of
         PS_ARP \<Rightarrow> Arp \<lparr>tsec = 1000 + int n, tusec = 0\<rparr>
       | PS_ND \<Rightarrow> Nd 72
       | PS_CONNECTTCP \<Rightarrow> Conn \<lparr>con_sd = 3, con_errno = E_INPROGRESS, con_self = None, con_after = \<lparr>tsec = 1000 + int n, tusec = 0\<rparr>, con_alias = no_wire\<rparr>
       | _ \<Rightarrow> Raw [44] \<lparr>rnd_ipid = 1, rnd_icmp_ident = 1, rnd_seq = 1, rnd_vtag = 1\<rparr>),
     e_replies = (\<lambda>n. [Port_reply 0 0 PORT_OPEN \<lparr>tsec = 1000 + int n, tusec = 0\<rparr> True 0 64]),
     e_print = (\<lambda>_. True), e_key = (\<lambda>_. False)\<rparr>"

definition example_target :: target where
  "example_target = \<lparr>t_to = initialize_timeout_info (tops example_cfg), flags = HOST_UNKNOWN, t_reason = 0, weird_responses = 0, pingprobe = ps_none,
     pingprobe_state = PORT_UNKNOWN, toclock_running = False, toclock_start = tv_zero, msecs_used = 0,
     tports = PortList_new (statics example_cfg), af_inet6 = False\<rparr>"

lemma example_cfg_ok: "cfg_ok (example_cfg\<lparr>max_packet_send_rate := r\<rparr>)" (is "cfg_ok ?c")
proof -
  obtain st where st: "initializePortMap statics0 6 [22, 80] = Some st"
    by (simp add: initializePortMap_def statics0_def Let_def)
  then have "st = statics ?c"
    by (auto simp: initializePortMap_def statics0_def Let_def INPROTO2PORTLISTPROTO_def example_cfg_def numeral_2_eq_2)
  moreover have "statics_ok st" by (rule initializePortMap_ok[OF _ _ st]) (auto simp: statics_ok_def proto_map_ok_def statics0_def INPROTO2PORTLISTPROTO_def)
  ultimately have "statics_ok (statics ?c)" by simp
  moreover have "perf_ok (perf ?c)" by (simp add: perf_ok_def example_cfg_def)
  moreover have "scan_ports ?c = [80, 22]" "tcp_scan ?c" "min_rtt_timeout (tops ?c) \<le> max_rtt_timeout (tops ?c)"
    by (simp_all add: scan_ports_def scan_kind_defs example_cfg_def)
  moreover have "scanned (statics ?c) 6 80" "scanned (statics ?c) 6 22" by (simp_all add: scanned_def example_cfg_def INPROTO2PORTLISTPROTO_def)
  ultimately show ?thesis by (simp add: cfg_ok_def ultra_scantype_def)
qed

lemma example_startable: "startable (example_cfg\<lparr>max_packet_send_rate := r\<rparr>) example_env 5 [example_target]" if "0 \<le> r"
proof -
  let ?c = "example_cfg\<lparr>max_packet_send_rate := r\<rparr>"
  have c: "cfg_ok ?c" by (rule example_cfg_ok)
  have np: "\<not> ping_scan ?c" by (simp add: example_cfg_def scan_kind_defs)
  have "result_fits ?c seq ps (e_send example_env n b ps)" if "ps_type ps \<noteq> PS_NONE" for n b seq ps
    using that by (cases "ps_type ps") (simp_all add: result_fits_def example_env_def tval_ok_def connection_ok_def)
  then have e: "env_ok ?c example_env" using np by (auto simp: env_ok_def example_env_def tval_ok_def reply_fits_def finds_host_up_def)
  have "statics_ok (statics example_cfg)" using c by (simp add: cfg_ok_def)
  then have "pl_ok (statics example_cfg) (PortList_new (statics example_cfg))" by (rule PortList_new_ok)
  moreover have "known_states (PortList_new st)" for st by (auto simp: known_states_def PortList_new_def slots_def)
  ultimately have "scannable ?c example_target"
    by (simp add: scannable_def example_target_def ps_none_def buildable_def)
  moreover have "(5 * 1000000 :: rat) \<in> \<int>" using Ints_of_int[of 5000000] by simp
  ultimately show ?thesis using that c e by (simp add: startable_def example_cfg_def example_env_def usecs_def)
qed

theorem ultra_scan_never_fails_witness:
  "\<exists>r shared'. ultra_scan (example_cfg\<lparr>max_packet_send_rate := 0\<rparr>) example_env 1024 5 [example_target] None 100 = Some (r, shared')"
  using ultra_scan_never_fails[OF example_startable[of 0], of 1024 None 100] by auto

section \<open>The maximum rate\<close>

text \<open>With a maximum rate the time of the next packet moves on by \<open>(time_t) (1000000.0 / rate)\<close> microseconds per packet, a whole number: between two
  rounds, a scan that may send has sent no more packets since it started than fit in the time at that distance.  The rounding makes the
  limit higher than the rate asked for (700000 packets per second give a distance of one microsecond), and above 1000000 packets per second there is no
  limit at all, where the manual promises an average at or below the rate.\<close>

theorem max_rate_holds:
  assumes "startable c e h targets" "UltraScanInfo_Init c e max_sd h targets = Some u0" "scan_rounds c e n u0 = Some u"
    and "0 < max_packet_send_rate c" "fst (usi_sendOK c u)"
  shows "total (packet_meter (send_rate_meter (gstats u))) * of_int (trunc_rat (1000000 / max_packet_send_rate c)) \<le>
    of_int (usecs (unow u) - usecs (start_tv (packet_meter (send_rate_meter (gstats u)))))"
proof -
  have "usi_inv c u0" using UltraScanInfo_Init_delivers[OF assms(1), of max_sd] assms(2) by (simp add: delivers_def)
  from scan_rounds_delivers[OF _ _ _ this, of e n] have "usi_inv c u" using assms(1,3) by (simp add: delivers_def startable_def)
  then have r: "rate_paced c (send_no_earlier_than (gstats u)) (packet_meter (send_rate_meter (gstats u)))" by (simp add: usi_inv_def group_inv_def)
  have "\<not> TIMEVAL_SUBTRACT (send_no_earlier_than (gstats u)) (unow u) > 0"
    using assms(4,5) by (auto simp: usi_sendOK_def group_sendOK_def Let_def split: if_splits)
  then have "(of_int (usecs (send_no_earlier_than (gstats u))) :: rat) \<le> of_int (usecs (unow u))" by (simp add: TIMEVAL_SUBTRACT_usecs)
  then show ?thesis using r assms(4) by (simp add: rate_paced_def send_interval_def)
qed


lemma Init_fields:
  assumes "UltraScanInfo_Init c e max_sd h targets = Some u"
  shows "send_no_earlier_than (gstats u) = unow u" "probes_sent (gstats u) = probes_sent_at_last_wait (gstats u)"
    "length (incompleteHosts u) \<le> length targets"
proof -
  obtain ts where "those (map (set_default_port_state c) targets) = Some ts" "length (incompleteHosts u) \<le> length ts"
    using assms by (auto simp: UltraScanInfo_Init_def Let_def split: bind_splits)
  moreover have "length ts = length l" if "those (map f l) = Some ts" for f :: "target \<Rightarrow> target option" and l ts
    using that by (induction l arbitrary: ts) (auto split: option.splits)
  ultimately show "length (incompleteHosts u) \<le> length targets" by simp
  show "send_no_earlier_than (gstats u) = unow u" "probes_sent (gstats u) = probes_sent_at_last_wait (gstats u)"
    using assms by (auto simp: UltraScanInfo_Init_def GroupScanStats_new_def Let_def split: bind_splits)
qed

lemma example_init: "\<exists>u. UltraScanInfo_Init (example_cfg\<lparr>max_packet_send_rate := 50\<rparr>) example_env 1024 5 [example_target] = Some u \<and>
  fst (usi_sendOK (example_cfg\<lparr>max_packet_send_rate := 50\<rparr>) u)"
proof -
  let ?c = "example_cfg\<lparr>max_packet_send_rate := 50\<rparr>"
  obtain u where u: "UltraScanInfo_Init ?c example_env 1024 5 [example_target] = Some u"
    using UltraScanInfo_Init_delivers[OF example_startable[of 50], of 1024] by (auto simp: delivers_def)
  note f = Init_fields[OF u]
  have few: "numIncompleteHostsLessThan 2 u" using f(3) by (simp add: numIncompleteHostsLessThan_def)
  have c: "scantype ?c \<noteq> CONNECT_SCAN" "\<not> connecttcpscan ?c" "min_packet_send_rate ?c = 0"
    by (simp_all add: example_cfg_def connecttcpscan_def)
  have "fst (usi_sendOK ?c u)" unfolding usi_sendOK_def group_sendOK_def Let_def
    using f(1,2) few c by (simp add: TIMEVAL_SUBTRACT_usecs)
  then show ?thesis using u by blast
qed

theorem max_rate_holds_witness:
  "\<exists>u. UltraScanInfo_Init (example_cfg\<lparr>max_packet_send_rate := 50\<rparr>) example_env 1024 5 [example_target] = Some u \<and>
    total (packet_meter (send_rate_meter (gstats u))) * of_int (trunc_rat (1000000 / 50)) \<le>
      of_int (usecs (unow u) - usecs (start_tv (packet_meter (send_rate_meter (gstats u)))))"
  using max_rate_holds[OF example_startable[of 50], where n = 0] example_init by auto

section \<open>Hosts that leave the scan\<close>

definition leaves :: "scan_cfg \<Rightarrow> usi \<Rightarrow> nat \<Rightarrow> bool" where
  "leaves c u i \<longleftrightarrow> completed c (hosts u ! i) = Some True \<or> Target_timedOut c (unow u) (target (hosts u ! i))"

definition times_out :: "scan_cfg \<Rightarrow> usi \<Rightarrow> nat \<Rightarrow> bool" where
  "times_out c u i \<longleftrightarrow> Target_timedOut c (unow u) (target (hosts u ! i))"

lemma complete_host_fields:
  assumes "complete_host i timed u = Some u'"
  shows "incompleteHosts u' = remove1 i (incompleteHosts u)" "completedHosts u' = insort i (completedHosts u)" "unow u' = unow u"
    "length (hosts u') = length (hosts u)" "\<And>j. j \<noteq> i \<Longrightarrow> hosts u' ! j = hosts u ! j"
    "num_hosts_timedout (gstats u') = num_hosts_timedout (gstats u) + (if timed then 1 else 0)"
  using assms by (auto simp: complete_host_def Let_def split: bind_splits)

lemma remove_hosts_filter:
  assumes "remove_hosts c l u = Some u'" "distinct l" "distinct (incompleteHosts u)" "set l \<subseteq> set (incompleteHosts u)"
  shows "incompleteHosts u' = filter (\<lambda>i. i \<in> set l \<longrightarrow> \<not> leaves c u i) (incompleteHosts u) \<and>
    set (completedHosts u') = set (completedHosts u) \<union> {i \<in> set l. leaves c u i} \<and>
    num_hosts_timedout (gstats u') = num_hosts_timedout (gstats u) + int (length (filter (times_out c u) l))"
  using assms
proof (induction l arbitrary: u)
  case (Cons i l)
  define timed where "timed = Target_timedOut c (unow u) (target (hosts u ! i))"
  obtain b u1 where b: "completed c (hosts u ! i) = Some b" "(if b \<or> timed then complete_host i timed u else Some u) = Some u1" "remove_hosts c l u1 = Some u'"
    using Cons.prems(1) by (auto simp: timed_def Let_def split: if_splits bind_splits)
  have lv: "leaves c u i \<longleftrightarrow> b \<or> timed" "times_out c u i = timed" using b(1) by (simp_all add: leaves_def times_out_def timed_def)
  have u1: "incompleteHosts u1 = (if b \<or> timed then remove1 i (incompleteHosts u) else incompleteHosts u)"
    "set (completedHosts u1) = set (completedHosts u) \<union> (if b \<or> timed then {i} else {})" "unow u1 = unow u"
    "\<And>j. j \<noteq> i \<Longrightarrow> hosts u1 ! j = hosts u ! j"
    "num_hosts_timedout (gstats u1) = num_hosts_timedout (gstats u) + (if timed then 1 else 0)"
    using complete_host_fields[of i timed u u1] b(2) by (auto simp: set_insort_key split: if_splits)
  have same: "leaves c u1 j = leaves c u j" "times_out c u1 j = times_out c u j" if "j \<in> set l" for j
  proof -
    have "j \<noteq> i" using that Cons.prems(2) by auto
    then have "hosts u1 ! j = hosts u ! j" by (rule u1(4))
    then show "leaves c u1 j = leaves c u j" "times_out c u1 j = times_out c u j" using u1(3) by (simp_all add: leaves_def times_out_def)
  qed
  have d: "distinct (incompleteHosts u1)" "set l \<subseteq> set (incompleteHosts u1)" using Cons.prems(2-4) u1(1) by auto
  have r: "remove1 i (incompleteHosts u) = filter (\<lambda>x. x \<noteq> i) (incompleteHosts u)"
    using Cons.prems(3) by (simp add: distinct_remove1_removeAll removeAll_filter_not_eq eq_commute[of i])
  have "filter (\<lambda>j. j \<in> set l \<longrightarrow> \<not> leaves c u1 j) (incompleteHosts u1) = filter (\<lambda>j. j \<in> set (i # l) \<longrightarrow> \<not> leaves c u j) (incompleteHosts u)"
    using same lv(1) r by (auto simp: u1(1) intro!: filter_cong)
  moreover have "filter (times_out c u1) l = filter (times_out c u) l" using same by (intro filter_cong) auto
  moreover have "{j \<in> set l. leaves c u1 j} \<union> (if b \<or> timed then {i} else {}) = {j \<in> set (i # l). leaves c u j}" using same lv(1) by auto
  ultimately show ?case using Cons.IH[OF b(3) _ d] Cons.prems(2) u1(2,5) lv(2) by auto
qed simp

text \<open>C11. Removing the completed hosts takes exactly those hosts from the incomplete ones, in their order, that are complete or timed out, and
  adds them to the completed ones; it counts exactly those that timed out, and the iterator of the circular list stays in the list.  It never fails.\<close>

theorem removeCompletedHosts_exact:
  assumes "cfg_ok c" "usi_inv c u"
  shows "\<exists>u'. removeCompletedHosts c u = Some u' \<and>
    incompleteHosts u' = filter (\<lambda>i. \<not> (completed c (hosts u ! i) = Some True \<or> Target_timedOut c (unow u) (target (hosts u ! i)))) (incompleteHosts u) \<and>
    set (completedHosts u') = set (completedHosts (purge_completed u)) \<union> (set (incompleteHosts u) - set (incompleteHosts u')) \<and>
    num_hosts_timedout (gstats u') = num_hosts_timedout (gstats u) +
      int (length (filter (\<lambda>i. Target_timedOut c (unow u) (target (hosts u ! i))) (incompleteHosts u))) \<and>
    (incompleteHosts u' \<noteq> [] \<longrightarrow> nextI u' \<in> set (incompleteHosts u'))"
proof -
  obtain u' where u': "removeCompletedHosts c u = Some u'" "usi_inv c u'" using removeCompletedHosts_delivers[OF assms] by (auto simp: delivers_def)
  let ?p = "purge_completed u"
  have p: "incompleteHosts ?p = incompleteHosts u" "hosts ?p = hosts u" "unow ?p = unow u" "gstats ?p = gstats u" by (simp_all add: purge_completed_def)
  have d: "distinct (incompleteHosts u)" using assms(2) by (simp add: usi_inv_def lists_ok_def)
  have f: "leaves c ?p = leaves c u" "times_out c ?p = times_out c u" by (simp_all add: leaves_def times_out_def p fun_eq_iff)
  have "incompleteHosts u' = filter (\<lambda>i. \<not> leaves c u i) (incompleteHosts u) \<and>
    set (completedHosts u') = set (completedHosts ?p) \<union> {i \<in> set (incompleteHosts u). leaves c u i} \<and>
    num_hosts_timedout (gstats u') = num_hosts_timedout (gstats u) + int (length (filter (times_out c u) (incompleteHosts u)))"
    using remove_hosts_filter[of c "incompleteHosts u" ?p u'] u'(1) d by (simp add: removeCompletedHosts_def p f cong: filter_cong)
  moreover have "incompleteHosts u' \<noteq> [] \<longrightarrow> nextI u' \<in> set (incompleteHosts u')" using u'(2) by (simp add: usi_inv_def lists_ok_def)
  ultimately show ?thesis using u'(1) by (auto simp: leaves_def times_out_def cong: filter_cong)
qed

theorem removeCompletedHosts_exact_witness:
  "\<exists>u. UltraScanInfo_Init (example_cfg\<lparr>max_packet_send_rate := 0\<rparr>) example_env 1024 5 [example_target] = Some u \<and>
    (\<exists>u'. removeCompletedHosts (example_cfg\<lparr>max_packet_send_rate := 0\<rparr>) u = Some u')"
proof -
  let ?c = "example_cfg\<lparr>max_packet_send_rate := 0\<rparr>"
  have s: "startable ?c example_env 5 [example_target]" by (rule example_startable) simp
  obtain u where u: "UltraScanInfo_Init ?c example_env 1024 5 [example_target] = Some u" "usi_inv ?c u"
    using UltraScanInfo_Init_delivers[OF s, of 1024] by (auto simp: delivers_def)
  then show ?thesis using removeCompletedHosts_exact[OF example_cfg_ok u(2)] by blast
qed

end
