(* ===== verification/Match_Inv.thy ===== *)
theory Match_Inv
  imports Scan_Match Engine_Run
begin

text \<open>
  The loops that read packets, against the replies that the main loop is proved for: whatever packets arrive in a port scan or a ping scan,
  no assertion fails, and what happens is one reply that fits the scan, or nothing.
\<close>

unbundle bit_operations_syntax

section \<open>The search\<close>

lemma find_in: "find P l = Some i \<Longrightarrow> i \<in> set l \<and> P i"
  by (induction l) (auto split: if_splits)

lemma find_host_Some: "find_host net u a = Some i \<Longrightarrow> i \<in> set (incompleteHosts u @ completedHosts u) \<and> host_addr net i = a"
  using find_in by (fastforce simp: find_host_def split: option.splits)

lemma find_host_bound: "usi_inv c u \<Longrightarrow> find_host net u a = Some i \<Longrightarrow> i < length (hosts u)"
  using find_host_Some by (fastforce simp: usi_inv_def lists_ok_def)

lemma search_Some:
  "search f ps n = Some (Some (k, s, r)) \<Longrightarrow> k < n \<and> f (ps ! k) = Hit s r \<and> (\<forall>j. k < j \<and> j < n \<longrightarrow> f (ps ! j) = Skip)"
proof (induction n)
  case (Suc n)
  show ?case
  proof (cases "f (ps ! n)")
    case Skip
    then show ?thesis using Suc by (auto simp: less_Suc_eq)
  next
    case Stop
    then show ?thesis using Suc by simp
  next
    case Crash
    then show ?thesis using Suc by simp
  next
    case (Hit s' r')
    then show ?thesis using Suc.prems by auto
  qed
qed simp

lemma search_total: "(\<And>k. k < n \<Longrightarrow> f (ps ! k) \<noteq> Crash) \<Longrightarrow> \<exists>r. search f ps n = Some r"
  by (induction n) (auto split: verdict.split)

lemma search_last:
  assumes "k < n" "f (ps ! k) = Hit s r" "\<And>j. k < j \<Longrightarrow> j < n \<Longrightarrow> f (ps ! j) = Skip \<or> (\<exists>s' r'. f (ps ! j) = Hit s' r')"
  shows "\<exists>k' s' r'. k \<le> k' \<and> k' < n \<and> f (ps ! k') = Hit s' r' \<and> search f ps n = Some (Some (k', s', r'))"
  using assms
proof (induction n)
  case (Suc n)
  show ?case
  proof (cases "k = n")
    case False
    then have kn: "k < n" using Suc.prems(1) by simp
    then have "f (ps ! n) = Skip \<or> (\<exists>s' r'. f (ps ! n) = Hit s' r')" using Suc.prems(3) by blast
    then show ?thesis
    proof (elim disjE exE)
      assume "f (ps ! n) = Skip"
      then show ?thesis using Suc.IH[OF kn Suc.prems(2)] Suc.prems(3) by fastforce
    qed (use kn in auto)
  qed (use Suc.prems in auto)
qed simp

lemma search_host_Some:
  assumes "search_host f u i = Some (Some (k, s, r))"
  shows "i < length (hosts u)" "k < length (probes_outstanding (hosts u ! i))" "f (probes_outstanding (hosts u ! i) ! k) = Hit s r"
  using assms search_Some by (fastforce simp: search_host_def split: if_splits)+

section \<open>One packet of a port scan\<close>

abbreviation (input) "reply_states \<equiv> {PORT_CLOSED, PORT_OPEN, PORT_FILTERED, PORT_UNFILTERED}"

definition probe_at :: "usi \<Rightarrow> nat \<Rightarrow> nat \<Rightarrow> ultraprobe" where
  "probe_at u i k = probes_outstanding (hosts u ! i) ! k"

text \<open>What a packet leaves: a probe that is there and a state for its port, or a state of before.\<close>

definition found_ok :: "usi \<Rightarrow> pcap_state \<Rightarrow> bool" where
  "found_ok u st \<longleftrightarrow>
     (if pc_good st then \<exists>i. pc_hss st = Some i \<and> i \<in> set (incompleteHosts u @ completedHosts u) \<and> i < length (hosts u) \<and>
        pc_probe st < length (probes_outstanding (hosts u ! i)) \<and> (\<not> isPing (probe_at u i (pc_probe st)) \<longrightarrow> pc_new st \<in> reply_states)
      else pc_new st \<in> insert PORT_UNKNOWN reply_states)"

text \<open>The verdict names a state of a port for every probe but a ping.\<close>

definition verdict_ok :: "verdict \<Rightarrow> ultraprobe \<Rightarrow> bool" where
  "verdict_ok v p \<longleftrightarrow> v \<noteq> Crash \<and> (\<forall>s r. v = Hit s r \<longrightarrow> \<not> isPing p \<longrightarrow> s \<in> reply_states)"

lemma search_at_delivers:
  assumes "usi_inv c u" "\<not> pc_good st" "pc_new st \<in> insert PORT_UNKNOWN reply_states" "\<And>i p. verdict_ok (f i p) p"
  shows "delivers (search_at net u a f st) (\<lambda>st'. found_ok u st' \<and> pc_hack st' = pc_hack st)"
proof (cases "find_host net u a")
  case None
  then show ?thesis using assms(2,3) by (simp add: search_at_def found_ok_def)
next
  case (Some i)
  note i = find_host_bound[OF assms(1) Some] find_host_Some[OF Some]
  let ?ps = "probes_outstanding (hosts u ! i)"
  have nc: "f i (?ps ! k) \<noteq> Crash" for k using assms(4)[of i "?ps ! k"] by (simp add: verdict_ok_def)
  then obtain r where r: "search (f i) ?ps (length ?ps) = Some r" using search_total by blast
  have "found_ok u (found i r st)"
  proof (cases r)
    case None
    then show ?thesis using assms(3) by (simp add: found_def found_ok_def)
  next
    case (Some x)
    obtain k s q where x: "r = Some (k, s, q)" using Some by (cases x) auto
    from search_Some[OF r[unfolded x]] assms(4)[of i "?ps ! k"]
    show ?thesis using i by (auto simp: x found_def found_ok_def verdict_ok_def probe_at_def)
  qed
  moreover have "pc_hack (found i r st) = pc_hack st" by (simp add: found_def split: option.split prod.split)
  ultimately show ?thesis using Some i(1) r by (simp add: search_at_def search_host_def)
qed

lemma tcp_port_state_ok: "tcp_port_state c t = Some (s, r) \<Longrightarrow> s \<in> reply_states"
  by (auto simp: tcp_port_state_def split: if_splits)

lemma sctp_port_state_ok: "sctp_port_state c n = Some (s, r) \<Longrightarrow> s \<in> reply_states"
  by (auto simp: sctp_port_state_def split: if_splits)

lemma icmp_states_ok:
  "old \<in> insert PORT_UNKNOWN reply_states \<Longrightarrow> icmp_port_state c b ty code old \<in> insert PORT_UNKNOWN reply_states"
  "old \<in> insert PORT_UNKNOWN reply_states \<Longrightarrow> icmp6_port_state c b ty code old \<in> insert PORT_UNKNOWN reply_states"
  by (auto simp: icmp_port_state_def icmp6_port_state_def)

lemma verdicts_ok:
  "verdict_ok (tcp_verdict c net i ip t p) p" "verdict_ok (sctp_verdict c net i ip sp dp chunk p) p" "verdict_ok (udp_verdict net i ip sp dp p) p"
  "verdict_ok (proto_verdict proto ip p) p"
  using tcp_port_state_ok sctp_port_state_ok
  by (auto simp: verdict_ok_def tcp_verdict_def sctp_verdict_def udp_verdict_def proto_verdict_def split: option.splits if_splits)

lemma error_verdict_ok:
  assumes "ultra_scantype c" "\<not> ping_scan c" "inner_usable c n" "s \<in> insert PORT_UNKNOWN reply_states"
  shows "verdict_ok (error_verdict c net i n s r p) p"
  using assms by (auto simp: verdict_ok_def error_verdict_def inner_usable_def ultra_scantype_def)

lemma error_packet_delivers:
  assumes "ultra_scantype c" "\<not> ping_scan c" "usi_inv c u" "\<not> pc_good st" "pc_new st \<in> insert PORT_UNKNOWN reply_states"
  shows "delivers (error_packet c net u proto src m st) (\<lambda>st'. found_ok u st' \<and> pc_hack st' = pc_hack st)"
proof -
  have same: "found_ok u st" using assms(4,5) by (simp add: found_ok_def)
  have v: "verdict_ok (error_verdict c net i n
        (if proto = IPPROTO_ICMP then icmp_port_state c (host_addr net i = src) (ic_type m) (ic_code m) (pc_new st)
         else icmp6_port_state c (host_addr net i = src) (ic_type m) (ic_code m) (pc_new st)) r p) p" if "inner_usable c n" for i n r p
    by (rule error_verdict_ok[OF assms(1,2) that]) (simp only: icmp_states_ok[OF assms(5)] split: if_split, simp)
  have se: "delivers (search_at net u (in_dst n) (\<lambda>i. error_verdict c net i n
        (if proto = IPPROTO_ICMP then icmp_port_state c (host_addr net i = src) (ic_type m) (ic_code m) (pc_new st)
         else icmp6_port_state c (host_addr net i = src) (ic_type m) (ic_code m) (pc_new st)) (icmp_to_reason proto (ic_type m) (ic_code m))) st)
      (\<lambda>st'. found_ok u st' \<and> pc_hack st' = pc_hack st)" if "inner_usable c n" for n
    by (rule search_at_delivers[OF assms(3-5)]) (rule v[OF that])
  show ?thesis
  proof (cases "ic_len m < 8 \<or> ic_type m \<notin> (if proto = IPPROTO_ICMP then {3, 11} else {1, 4})")
    case True
    then show ?thesis using same unfolding error_packet_def by simp
  next
    case False
    then show ?thesis using same se unfolding error_packet_def if_not_P[OF False]
      by (cases "ic_inner m") simp_all
  qed
qed

text \<open>The packets that a protocol scan can handle: the others may be looked at twice.\<close>

fun looked_at_once :: "scan_cfg \<Rightarrow> packet option \<Rightarrow> bool" where
  "looked_at_once c None = (\<not> prot_scan c)"
| "looked_at_once c (Some pkt) = (\<not> prot_scan c \<or> (case p_load pkt of P_icmp6 _ \<Rightarrow> False | _ \<Rightarrow> True))"

lemma pcap_packet_delivers:
  assumes "ultra_scantype c" "\<not> ping_scan c" "usi_inv c u" "\<not> pc_good st" "pc_new st \<in> insert PORT_UNKNOWN reply_states" "looked_at_once c (Some pkt)"
  shows "delivers (pcap_packet c net u pkt st) (\<lambda>st'. found_ok u st' \<and> (\<not> prot_scan c \<longrightarrow> pc_hack st' = pc_hack st))"
proof -
  let ?Q = "\<lambda>st'. found_ok u st' \<and> (\<not> prot_scan c \<longrightarrow> pc_hack st' = pc_hack st)"
  have w: "delivers m (\<lambda>st'. found_ok u st' \<and> pc_hack st' = pc_hack st) \<Longrightarrow> delivers m ?Q" for m by (erule delivers_mono) simp
  have same: "found_ok u st" using assms(4,5) by (simp add: found_ok_def)
  have e: "delivers (error_packet c net u proto src m st) ?Q" for proto src m by (rule w[OF error_packet_delivers[OF assms(1-5)]])
  have s: "delivers (search_at net u a f st) ?Q" if "\<And>i p. verdict_ok (f i p) p" for a f by (rule w[OF search_at_delivers[OF assms(3-5) that]])
  have s0: "delivers (search_at net u a f (st\<lparr>pc_new := PORT_UNKNOWN\<rparr>)) ?Q" if "\<And>i p. verdict_ok (f i p) p" for a f
    using search_at_delivers[OF assms(3), of "st\<lparr>pc_new := PORT_UNKNOWN\<rparr>" f net a] that assms(4) by (auto elim: delivers_mono)
  show ?thesis
  proof (cases "prot_scan c")
    case False
    then show ?thesis using e s s0 verdicts_ok same
      by (cases "p_load pkt") (simp_all add: pcap_packet_def Let_def)
  next
    case True
    have p: "delivers (search_at net u (ip_src (p_ip pkt)) (\<lambda>_. proto_verdict n (p_ip pkt)) st) (found_ok u)" for n
      using search_at_delivers[OF assms(3-5), of "\<lambda>_. proto_verdict n (p_ip pkt)"] verdicts_ok(4) by (blast intro: delivers_mono)
    have icmp: "delivers (do { st1 \<leftarrow> proto_packet net u pkt st; error_packet c net u IPPROTO_ICMP (ip_src (p_ip pkt)) m st1 }) (found_ok u)"
      if "p_load pkt = P_icmp m" for m
    proof -
      have "delivers (proto_packet net u pkt st) (\<lambda>st1. \<not> pc_good st1 \<and> pc_new st1 \<in> insert PORT_UNKNOWN reply_states)"
        using that assms(4,5) by (auto simp: proto_packet_def split: option.split)
      then show ?thesis by (rule delivers_bind) (elim conjE, rule delivers_mono[OF error_packet_delivers[OF assms(1-3)]], simp_all)
    qed
    show ?thesis using True assms(6) p icmp by (cases "p_load pkt") (simp_all add: pcap_packet_def proto_packet_def Let_def)
  qed
qed

section \<open>A port scan\<close>

fun capture_ok :: "scan_cfg \<Rightarrow> capture \<Rightarrow> bool" where
  "capture_ok c (Timeout now) = tval_ok now"
| "capture_ok c (Quiet now) = tval_ok now"
| "capture_ok c (Packet now rcvd late d) = (tval_ok now \<and> looked_at_once c d)"

lemma unow_inv: "usi_inv c u \<Longrightarrow> tval_ok now \<Longrightarrow> usi_inv c (u\<lparr>unow := now\<rparr>)"
  by (simp add: usi_inv_def lists_ok_def)

text \<open>What the loop leaves: the scan at a later time, and the packet that a result rests on.\<close>

definition loop_ok :: "scan_cfg \<Rightarrow> usi \<Rightarrow> pcap_state \<times> (tval \<times> packet option) \<times> usi \<Rightarrow> bool" where
  "loop_ok c u = (\<lambda>(st, l, u'). (\<exists>now. tval_ok now \<and> u' = u\<lparr>unow := now\<rparr>) \<and> found_ok u' st \<and> (pc_good st \<longrightarrow> snd l \<noteq> None) \<and>
     (pc_hack st \<noteq> None \<longrightarrow> prot_scan c \<and> snd l \<noteq> None))"

lemma found_ok_now: "found_ok (u\<lparr>unow := t\<rparr>) st = found_ok u st"
  by (simp add: found_ok_def probe_at_def)

lemma pcap_loop_delivers:
  assumes "ultra_scantype c" "\<not> ping_scan c"
  shows "usi_inv c u \<Longrightarrow> \<not> pc_good st \<Longrightarrow> pc_new st \<in> insert PORT_UNKNOWN reply_states \<Longrightarrow>
     (pc_hack st \<noteq> None \<longrightarrow> prot_scan c \<and> snd l \<noteq> None) \<Longrightarrow> \<forall>e \<in> set es. capture_ok c e \<Longrightarrow> delivers (pcap_loop c net es l st u) (loop_ok c u)"
proof (induction es arbitrary: l st u)
  case Nil
  have "u = u\<lparr>unow := unow u\<rparr>" by simp
  then have "\<exists>now. tval_ok now \<and> u = u\<lparr>unow := now\<rparr>" using usi_inv_now[OF Nil.prems(1)] by blast
  then show ?case using Nil by (simp add: loop_ok_def found_ok_def)
next
  case (Cons e es)
  have es: "\<forall>e \<in> set es. capture_ok c e" using Cons.prems(5) by simp
  have later: "delivers m (loop_ok c (u\<lparr>unow := now\<rparr>)) \<Longrightarrow> delivers m (loop_ok c u)" for m now
    by (erule delivers_mono) (auto simp: loop_ok_def)
  show ?case
  proof (cases e)
    case (Timeout now)
    then show ?thesis using Cons.prems by (auto simp: loop_ok_def found_ok_def)
  next
    case (Quiet now)
    have "delivers (pcap_loop c net es l st (u\<lparr>unow := now\<rparr>)) (loop_ok c (u\<lparr>unow := now\<rparr>))"
      by (rule Cons.IH[OF unow_inv[OF Cons.prems(1)] Cons.prems(2-4) es]) (use Cons.prems(5) Quiet in simp)
    then show ?thesis using later by (simp add: Quiet)
  next
    case (Packet now rcvd late d)
    let ?u = "u\<lparr>unow := now\<rparr>"
    have d: "tval_ok now" "looked_at_once c d" using Cons.prems(5) Packet by simp_all
    have u: "usi_inv c ?u" by (rule unow_inv[OF Cons.prems(1) d(1)])
    have step: "delivers (case d of None \<Rightarrow> Some st | Some pkt \<Rightarrow> pcap_packet c net ?u pkt st)
       (\<lambda>st'. found_ok ?u st' \<and> (pc_good st' \<longrightarrow> d \<noteq> None) \<and> (pc_hack st' \<noteq> None \<longrightarrow> prot_scan c \<and> d \<noteq> None))"
    proof (cases d)
      case None
      then show ?thesis using Cons.prems(2-4) d(2) by (auto simp: found_ok_def)
    next
      case (Some pkt)
      show ?thesis unfolding Some option.case
        by (rule delivers_mono[OF pcap_packet_delivers[OF assms u Cons.prems(2,3)]]) (use d(2) Some Cons.prems(4) in auto)
    qed
    have "delivers (do { st1 \<leftarrow> (case d of None \<Rightarrow> Some st | Some pkt \<Rightarrow> pcap_packet c net ?u pkt st);
       if pc_good st1 \<or> late then Some (st1, (rcvd, d), ?u) else pcap_loop c net es (rcvd, d) st1 ?u }) (loop_ok c u)"
    proof (rule delivers_bind[OF step], elim conjE, rule delivers_if)
      fix st1 assume st1: "found_ok ?u st1" "pc_good st1 \<longrightarrow> d \<noteq> None" "pc_hack st1 \<noteq> None \<longrightarrow> prot_scan c \<and> d \<noteq> None"
      show "delivers (Some (st1, (rcvd, d), ?u)) (loop_ok c u)" using st1 d(1) by (auto simp: loop_ok_def)
      assume n: "\<not> (pc_good st1 \<or> late)"
      have "pc_new st1 \<in> insert PORT_UNKNOWN reply_states" using st1(1) n by (simp add: found_ok_def)
      from Cons.IH[OF u _ this, of "(rcvd, d)"] n st1(3) es have "delivers (pcap_loop c net es (rcvd, d) st1 ?u) (loop_ok c ?u)" by simp
      then show "delivers (pcap_loop c net es (rcvd, d) st1 ?u) (loop_ok c u)" by (rule later)
    qed
    then show ?thesis by (simp add: Packet Let_def)
  qed
qed

text \<open>The result of a packet, as a reply of the main loop.\<close>

definition pcap_reply :: "usi \<Rightarrow> nat \<Rightarrow> pcap_state \<Rightarrow> tval \<Rightarrow> packet \<Rightarrow> reply" where
  "pcap_reply u i st rcvd pkt =
     (if isPing (probe_at u i (pc_probe st)) then Ping_reply i (pc_probe st) rcvd True
      else Port_reply i (pc_probe st) (pc_new st) rcvd True (pc_reason st) (ip_ttl (p_ip pkt)))"

lemma outstanding_at:
  assumes "usi_inv c u" "i \<in> set (incompleteHosts u @ completedHosts u)" "k < length (probes_outstanding (hosts u ! i))"
  shows "outstanding u i k = Some (probe_at u i k)"
  using assms by (auto simp: outstanding_def findHost_def probe_at_def usi_inv_def lists_ok_def)

lemma pcap_reply_receive:
  assumes "cfg_ok c" "\<not> ping_scan c" "usi_inv c u" "found_ok u st" "pc_good st" "pc_hss st = Some i"
  shows "reply_fits c (pcap_reply u i st rcvd pkt)"
    "receive c (pcap_reply u i st rcvd pkt) u = map_option (Pair True)
       (if isPing (probes_outstanding (hosts u ! i) ! pc_probe st) then on_host i (ultrascan_ping_update c (unow u) (pc_probe st) (Some rcvd) True) u
        else on_host i (port_reply c (unow u) (pc_probe st) (pc_new st) rcvd True (pc_reason st) (ip_ttl (p_ip pkt))) u)"
proof -
  have f: "i \<in> set (incompleteHosts u @ completedHosts u)" "pc_probe st < length (probes_outstanding (hosts u ! i))"
    "\<not> isPing (probe_at u i (pc_probe st)) \<longrightarrow> pc_new st \<in> reply_states" using assms(4-6) by (auto simp: found_ok_def)
  show "reply_fits c (pcap_reply u i st rcvd pkt)" using f(3) assms(2) by (auto simp: pcap_reply_def reply_fits_def)
  show "receive c (pcap_reply u i st rcvd pkt) u = map_option (Pair True)
       (if isPing (probes_outstanding (hosts u ! i) ! pc_probe st) then on_host i (ultrascan_ping_update c (unow u) (pc_probe st) (Some rcvd) True) u
        else on_host i (port_reply c (unow u) (pc_probe st) (pc_new st) rcvd True (pc_reason st) (ip_ttl (p_ip pkt))) u)"
    using outstanding_at[OF assms(3) f(1,2)] by (simp add: pcap_reply_def receive_def probe_at_def)
qed

text \<open>C12. In a TCP, UDP or SCTP port scan, reading packets until one counts never fails an assertion, whatever packets arrive; the scan then is as
  before, but for the time, or as after one reply that fits the scan and that the main loop is proved for, according to the result.\<close>

theorem get_pcap_result_refines:
  assumes "cfg_ok c" "\<not> ping_scan c" "\<not> prot_scan c" "usi_inv c u" "\<forall>e \<in> set es. capture_ok c e"
  shows "\<exists>good u' now. get_pcap_result c net es u = Some (good, u') \<and> usi_inv c u' \<and>
    (if good then \<exists>r. reply_fits c r \<and> receive c r (u\<lparr>unow := now\<rparr>) = Some (True, u') else u' = u\<lparr>unow := now\<rparr>)"
proof -
  have us: "ultra_scantype c" using assms(1) by (simp add: cfg_ok_def)
  obtain st rcvd d u1 where l: "pcap_loop c net es (tv_zero, None) pcap_start u = Some (st, (rcvd, d), u1)" "loop_ok c u (st, (rcvd, d), u1)"
    using pcap_loop_delivers[OF us assms(2,4) _ _ _ assms(5), of pcap_start "(tv_zero, None)" net] by (auto simp: delivers_def pcap_start_def)
  obtain now where u1: "tval_ok now" "u1 = u\<lparr>unow := now\<rparr>" using l(2) by (auto simp: loop_ok_def)
  have v: "usi_inv c u1" unfolding u1(2) by (rule unow_inv[OF assms(4) u1(1)])
  have h: "pc_hack st = None" using l(2) assms(3) by (auto simp: loop_ok_def)
  show ?thesis
  proof (cases "pc_good st")
    case False
    then show ?thesis using l(1) h v u1 by (auto simp: get_pcap_result_def)
  next
    case True
    obtain i pkt where i: "pc_hss st = Some i" "d = Some pkt" "i < length (hosts u1)" "pc_probe st < length (probes_outstanding (hosts u1 ! i))" "found_ok u1 st"
      using l(2) True by (auto simp: loop_ok_def found_ok_def)
    note r = pcap_reply_receive[OF assms(1,2) v i(5) True i(1), of rcvd pkt]
    obtain b u' where u': "receive c (pcap_reply u1 i st rcvd pkt) u1 = Some (b, u')" "usi_inv c u'"
      using receive_delivers[OF assms(1) v r(1)] by (auto simp: delivers_def)
    have "get_pcap_result c net es u = Some (True, u') \<and> b"
      using l(1) h True i u'(1) unfolding r(2) by (auto simp: get_pcap_result_def split: if_splits)
    then show ?thesis using u' r(1) u1(2) by (intro exI[of _ True] exI[of _ u'] exI[of _ now]) auto
  qed
qed

text \<open>A protocol scan, with packets that are looked at once.\<close>

lemma icmp_hack_delivers:
  assumes "cfg_ok c" "\<not> ping_scan c" "usi_inv c u" "snd l \<noteq> None"
  shows "delivers (icmp_hack c net l a good u) (\<lambda>(b, u'). usi_inv c u' \<and> same_lists u u')"
proof (cases "find_host net u a")
  case (Some i)
  note i = find_host_bound[OF assms(3) Some]
  let ?f = "\<lambda>p. if ps_proto (mypspec p) = IPPROTO_ICMP then Hit 0 0 else Skip"
  let ?ps = "probes_outstanding (hosts u ! i)"
  have "?f (?ps ! k) \<noteq> Crash" for k by simp
  then have "\<exists>r. search ?f ?ps (length ?ps) = Some r" by (intro search_total)
  then obtain r where r: "search_host ?f u i = Some r" using i unfolding search_host_def by auto
  show ?thesis
  proof (cases r)
    case None
    then show ?thesis using Some r assms(3) by (simp add: icmp_hack_def)
  next
    case (Some x)
    obtain k s q where x: "r = Some (k, s, q)" using Some by (cases x) auto
    have k: "k < length ?ps" using search_host_Some(2) r x by blast
    obtain pkt where pkt: "snd l = Some pkt" using assms(4) by blast
    have ping: "delivers (on_host i (ultrascan_ping_update c (unow u) k (Some (fst l)) True) u) (\<lambda>u'. usi_inv c u' \<and> same_lists u u')"
      by (rule on_host_same[OF assms(3) i], rule delivers_mono[OF ping_update_delivers[OF assms(1)]]) (use k in auto)
    have port: "delivers (on_host i (port_reply c (unow u) k PORT_OPEN (fst l) True reason ttl) u) (\<lambda>u'. usi_inv c u' \<and> same_lists u u')"
      if "\<not> isPing (?ps ! k)" for reason ttl
      by (rule on_host_same[OF assms(3) i], rule port_reply_delivers[OF assms(1)]) (use k that assms(2) in simp_all)
    show ?thesis unfolding icmp_hack_def \<open>find_host net u a = Some i\<close> option.case r[unfolded x] bind.bind_lunit prod.case pkt Let_def
      by (rule delivers_if) (auto intro!: delivers_map ping port split: prod.split)
  qed
qed (use assms(3) in \<open>simp add: icmp_hack_def\<close>)

lemma get_pcap_result_delivers:
  assumes "cfg_ok c" "\<not> ping_scan c" "usi_inv c u" "\<forall>e \<in> set es. capture_ok c e"
  shows "delivers (get_pcap_result c net es u) (\<lambda>(b, u'). usi_inv c u' \<and> same_lists u u')"
proof -
  have us: "ultra_scantype c" using assms(1) by (simp add: cfg_ok_def)
  obtain st l u1 where l: "pcap_loop c net es (tv_zero, None) pcap_start u = Some (st, l, u1)" "loop_ok c u (st, l, u1)"
    using pcap_loop_delivers[OF us assms(2,3) _ _ _ assms(4), of pcap_start "(tv_zero, None)" net] by (auto simp: delivers_def pcap_start_def)
  obtain now where u1: "tval_ok now" "u1 = u\<lparr>unow := now\<rparr>" using l(2) by (auto simp: loop_ok_def)
  have v: "usi_inv c u1" unfolding u1(2) by (rule unow_inv[OF assms(3) u1(1)])
  have s1: "same_lists u u1" by (simp add: u1(2) same_lists_def)
  let ?m = "if \<not> pc_good st then Some u1 else case pc_hss st of None \<Rightarrow> None | Some i \<Rightarrow> (case snd l of None \<Rightarrow> None | Some pkt \<Rightarrow>
           if \<not> i < length (hosts u1) \<or> \<not> pc_probe st < length (probes_outstanding (hosts u1 ! i)) then None
           else if isPing (probes_outstanding (hosts u1 ! i) ! pc_probe st)
           then on_host i (ultrascan_ping_update c (unow u1) (pc_probe st) (Some (fst l)) True) u1
           else on_host i (port_reply c (unow u1) (pc_probe st) (pc_new st) (fst l) True (pc_reason st) (ip_ttl (p_ip pkt))) u1)"
  have m: "delivers ?m (\<lambda>u2. usi_inv c u2 \<and> same_lists u1 u2)"
  proof (cases "pc_good st")
    case True
    obtain i pkt where i: "pc_hss st = Some i" "snd l = Some pkt" "i < length (hosts u1)" "pc_probe st < length (probes_outstanding (hosts u1 ! i))" "found_ok u1 st"
      using l(2) True by (auto simp: loop_ok_def found_ok_def)
    note r = pcap_reply_receive[OF assms(1,2) v i(5) True i(1), of "fst l" pkt]
    show ?thesis using receive_delivers[OF assms(1) v r(1)] i True unfolding r(2) by (auto simp: delivers_def split: if_splits)
  qed (use v in simp)
  show ?thesis unfolding get_pcap_result_def l(1) bind.bind_lunit prod.case
  proof (rule delivers_bind[OF m], elim conjE)
    fix u2 assume u2: "usi_inv c u2" "same_lists u1 u2"
    have s: "same_lists u u2" by (rule same_lists_trans[OF s1 u2(2)])
    show "delivers (case pc_hack st of None \<Rightarrow> Some (pc_good st, u2) | Some a \<Rightarrow> icmp_hack c net l a (pc_good st) u2)
      (\<lambda>(b, u'). usi_inv c u' \<and> same_lists u u')"
    proof (cases "pc_hack st")
      case (Some a)
      then have "snd l \<noteq> None" using l(2) by (simp add: loop_ok_def split_beta)
      from icmp_hack_delivers[OF assms(1,2) u2(1) this] show ?thesis unfolding Some option.case
        by (rule delivers_mono) (use s same_lists_trans in auto)
    qed (use u2 s in simp)
  qed
qed

section \<open>Host discovery\<close>

text \<open>The probes carry ICMP, TCP, UDP or SCTP, unless protocols are probed.\<close>

definition ping_protos :: "scan_cfg \<Rightarrow> usi \<Rightarrow> bool" where
  "ping_protos c u \<longleftrightarrow> rawprotoscan c \<or> (\<forall>h \<in> set (hosts u). \<forall>p \<in> set (probes_outstanding h).
     ps_proto (mypspec p) \<in> {IPPROTO_ICMP, IPPROTO_ICMPV6, IPPROTO_TCP, IPPROTO_UDP, IPPROTO_SCTP})"

definition ping_found :: "usi \<Rightarrow> pcap_state \<Rightarrow> bool" where
  "ping_found u st \<longleftrightarrow> (pc_good st \<longrightarrow> (\<exists>i. pc_hss st = Some i \<and> i \<in> set (incompleteHosts u @ completedHosts u) \<and> i < length (hosts u) \<and>
     pc_probe st < length (probes_outstanding (hosts u ! i)) \<and> pc_new st \<in> {HOST_UP, HOST_DOWN}))"

lemma search_ping_delivers:
  assumes "usi_inv c u" "\<not> pc_good st" "\<And>i p. f i p \<noteq> Crash \<and> (\<forall>s r. f i p = Hit s r \<longrightarrow> s = HOST_UP)"
  shows "delivers (search_ping net u a f st) (\<lambda>(b, st'). ping_found u st')"
proof (cases "find_host net u a")
  case None
  then show ?thesis using assms(2) by (simp add: search_ping_def ping_found_def)
next
  case (Some i)
  note i = find_host_bound[OF assms(1) Some] find_host_Some[OF Some]
  let ?ps = "probes_outstanding (hosts u ! i)"
  obtain r where r: "search (f i) ?ps (length ?ps) = Some r" using search_total[of "length ?ps" "f i" ?ps] assms(3) by blast
  have "ping_found u (found i r st)"
  proof (cases r)
    case None
    then show ?thesis by (simp add: found_def ping_found_def)
  next
    case (Some x)
    obtain k s q where x: "r = Some (k, s, q)" using Some by (cases x) auto
    from search_Some[OF r[unfolded x]] assms(3)[of i "?ps ! k"] show ?thesis using i by (auto simp: x found_def ping_found_def)
  qed
  then show ?thesis using Some i(1) r by (simp add: search_ping_def search_host_def)
qed

lemma ping_error_delivers:
  assumes "usi_inv c u" "ping_protos c u" "\<not> pc_good st"
  shows "delivers (ping_error c net u proto ip m st) (\<lambda>(b, st'). ping_found u st')"
proof -
  have same: "ping_found u st" using assms(3) by (simp add: ping_found_def)
  show ?thesis
  proof (cases "ic_inner m")
    case None
    then show ?thesis using same by (simp add: ping_error_def)
  next
    case (Some n)
    let ?five = "{IPPROTO_ICMP, IPPROTO_ICMPV6, IPPROTO_TCP, IPPROTO_UDP, IPPROTO_SCTP}"
    let ?bail = "\<not> rawprotoscan c \<and> in_proto n \<in> ?five \<and> \<not> probed c (in_proto n)"
    have hit: "delivers (do { r \<leftarrow> search_host (ping_error_verdict c net i ip m n) u i;
        (case r of None \<Rightarrow> Some (True, st\<lparr>pc_hss := Some i\<rparr>)
         | Some (k, _, _) \<Rightarrow>
             if (proto = IPPROTO_ICMP \<and> ic_type m = 3) \<or> (proto = IPPROTO_ICMPV6 \<and> ic_type m = 1)
             then Some (False, st\<lparr>pc_hss := Some i, pc_probe := k, pc_good := True, pc_new := (if host_addr net i = ip_src ip then HOST_UP else HOST_DOWN)\<rparr>)
             else Some (False, st\<lparr>pc_hss := Some i, pc_probe := k\<rparr>)) }) (\<lambda>(b, st'). ping_found u st')"
      if nb: "\<not> ?bail" and f: "find_host net u (in_dst n) = Some i" for i
    proof -
      note i = find_host_bound[OF assms(1) f] find_host_Some[OF f]
      let ?ps = "probes_outstanding (hosts u ! i)"
      have nc: "ping_error_verdict c net i ip m n (?ps ! k) \<noteq> Crash" if "k < length ?ps" for k
      proof -
        have "rawprotoscan c \<or> ps_proto (mypspec (?ps ! k)) \<in> ?five"
          using assms(2) i(1) that unfolding ping_protos_def by (meson nth_mem)
        then show ?thesis using nb by (auto simp: ping_error_verdict_def probed_def)
      qed
      obtain r where r: "search (ping_error_verdict c net i ip m n) ?ps (length ?ps) = Some r" using search_total nc by blast
      show ?thesis
      proof (cases r)
        case None
        then show ?thesis using r i(1) assms(3) by (simp add: search_host_def ping_found_def)
      next
        case (Some x)
        obtain k s q where x: "r = Some (k, s, q)" using Some by (cases x) auto
        show ?thesis using search_Some[OF r[unfolded x]] r x i assms(3) by (auto simp: search_host_def ping_found_def)
      qed
    qed
    show ?thesis unfolding ping_error_def Some option.case
    proof (intro delivers_if)
      assume nb: "\<not> ?bail"
      show "delivers (case find_host net u (in_dst n) of None \<Rightarrow> Some (True, st\<lparr>pc_hss := None\<rparr>)
          | Some i \<Rightarrow> do { r \<leftarrow> search_host (ping_error_verdict c net i ip m n) u i;
        (case r of None \<Rightarrow> Some (True, st\<lparr>pc_hss := Some i\<rparr>)
         | Some (k, _, _) \<Rightarrow>
             if (proto = IPPROTO_ICMP \<and> ic_type m = 3) \<or> (proto = IPPROTO_ICMPV6 \<and> ic_type m = 1)
             then Some (False, st\<lparr>pc_hss := Some i, pc_probe := k, pc_good := True, pc_new := (if host_addr net i = ip_src ip then HOST_UP else HOST_DOWN)\<rparr>)
             else Some (False, st\<lparr>pc_hss := Some i, pc_probe := k\<rparr>)) }) (\<lambda>(b, st'). ping_found u st')"
        using hit[OF nb] assms(3) by (cases "find_host net u (in_dst n)") (simp_all add: ping_found_def)
    qed (use same in simp_all)
  qed
qed

lemma ping_icmp_delivers:
  assumes "usi_inv c u" "ping_protos c u" "\<not> pc_good st"
  shows "delivers (ping_icmp c net u v6 ip m st) (\<lambda>(b, st'). ping_found u st')"
proof -
  have e: "delivers (search_ping net u (ip_src ip) (\<lambda>i. echo_verdict net i ip v6 m r) (st\<lparr>pc_reason := r\<rparr>)) (\<lambda>(b, st'). ping_found u st')" for r
    by (rule search_ping_delivers[OF assms(1)]) (use assms(3) in \<open>simp_all add: echo_verdict_def\<close>)
  have p: "delivers (ping_error c net u proto ip m (st\<lparr>pc_reason := r\<rparr>)) (\<lambda>(b, st'). ping_found u st')" for proto r
    by (rule ping_error_delivers[OF assms(1,2)]) (use assms(3) in simp)
  show ?thesis unfolding ping_icmp_def Let_def
    by (intro delivers_if e p) (use assms(3) in \<open>simp add: ping_found_def\<close>)
qed

lemma ping_packet_delivers:
  assumes "usi_inv c u" "ping_protos c u" "\<not> pc_good st"
  shows "delivers (ping_packet c net u pkt st) (ping_found u)"
proof -
  have same: "ping_found u st" using assms(3) by (simp add: ping_found_def)
  let ?v = "\<lambda>f. \<forall>i p. f i p \<noteq> Crash \<and> (\<forall>s r. f i p = Hit s r \<longrightarrow> s = HOST_UP)"
  have s: "delivers (search_ping net u a f st') (\<lambda>(b, st'). ping_found u st')" if "?v f" "\<not> pc_good st'" for a f st'
    using that by (intro search_ping_delivers[OF assms(1)]) blast+
  have v: "?v (\<lambda>i. tcp_ping_verdict c net i ip t r)" "?v (\<lambda>i. port_ping_verdict net i ip proto sp dp r)" "?v (\<lambda>_. proto_ping_verdict proto ip)" for ip t r proto sp dp
    by (auto simp: tcp_ping_verdict_def port_ping_verdict_def proto_ping_verdict_def)
  note i = ping_icmp_delivers[OF assms]
  show ?thesis unfolding ping_packet_def Let_def
  proof (rule delivers_bind[where P = "\<lambda>(b, st'). ping_found u st'"])
    show "delivers (case p_load pkt of
        P_icmp m \<Rightarrow> ping_icmp c net u False (p_ip pkt) m st
      | P_icmp6 m \<Rightarrow> ping_icmp c net u True (p_ip pkt) m st
      | P_tcp t \<Rightarrow>
          if \<not> rawtcpscan c then Some (False, st)
          else if (discovery_ignore_rst c \<and> has_flag t 4) \<or> (\<not> has_flag t 4 \<and> \<not> syn_ack t) then Some (True, st)
          else search_ping net u (ip_src (p_ip pkt)) (\<lambda>i. tcp_ping_verdict c net i (p_ip pkt) t (pc_reason st)) st
      | P_udp sp dp \<Rightarrow> if \<not> rawudpscan c then Some (False, st)
          else search_ping net u (ip_src (p_ip pkt)) (\<lambda>i. port_ping_verdict net i (p_ip pkt) IPPROTO_UDP sp dp ER_UDPRESPONSE) st
      | P_sctp sp dp _ chunk \<Rightarrow> if \<not> rawsctpscan c then Some (False, st)
          else search_ping net u (ip_src (p_ip pkt)) (\<lambda>i. port_ping_verdict net i (p_ip pkt) IPPROTO_SCTP sp dp (sctp_ping_reason chunk)) st
      | P_other _ _ _ \<Rightarrow> Some (False, st)) (\<lambda>(b, st'). ping_found u st')"
      using same i by (cases "p_load pkt") (auto intro!: delivers_if s v assms(3) split del: if_split)
    show "delivers (case x of (cont, st) \<Rightarrow> if \<not> cont \<and> \<not> pc_good st \<and> rawprotoscan c
       then map_option snd (search_ping net u (ip_src (p_ip pkt)) (\<lambda>_. proto_ping_verdict (load_proto (p_load pkt)) (p_ip pkt)) st) else Some st) (ping_found u)"
      if x: "case x of (b, st') \<Rightarrow> ping_found u st'" for x
    proof -
      obtain b st1 where x1: "x = (b, st1)" by (cases x)
      have "delivers (map_option snd (search_ping net u (ip_src (p_ip pkt)) (\<lambda>_. proto_ping_verdict (load_proto (p_load pkt)) (p_ip pkt)) st1)) (ping_found u)"
        if "\<not> pc_good st1"
        by (rule delivers_map, rule delivers_mono[OF s[OF v(3) that]]) auto
      then show ?thesis using x by (auto simp: x1)
    qed
  qed
qed

fun time_ok :: "capture \<Rightarrow> bool" where
  "time_ok (Timeout now) = tval_ok now"
| "time_ok (Quiet now) = tval_ok now"
| "time_ok (Packet now rcvd late d) = tval_ok now"

definition ping_loop_ok :: "usi \<Rightarrow> pcap_state \<times> tval \<times> usi \<Rightarrow> bool" where
  "ping_loop_ok u = (\<lambda>(st, rcvd, u'). (\<exists>now. tval_ok now \<and> u' = u\<lparr>unow := now\<rparr>) \<and> ping_found u' st)"

lemma ping_loop_delivers:
  "usi_inv c u \<Longrightarrow> ping_protos c u \<Longrightarrow> \<not> pc_good st \<Longrightarrow> \<forall>e \<in> set es. time_ok e \<Longrightarrow> delivers (ping_loop c net es st u) (ping_loop_ok u)"
proof (induction es arbitrary: st u)
  case Nil
  have "u = u\<lparr>unow := unow u\<rparr>" by simp
  then have "\<exists>now. tval_ok now \<and> u = u\<lparr>unow := now\<rparr>" using usi_inv_now[OF Nil.prems(1)] by blast
  then show ?case using Nil by (simp add: ping_loop_ok_def ping_found_def)
next
  case (Cons e es)
  have es: "\<forall>e \<in> set es. time_ok e" using Cons.prems(4) by simp
  have later: "delivers m (ping_loop_ok (u\<lparr>unow := now\<rparr>)) \<Longrightarrow> delivers m (ping_loop_ok u)" for m now
    by (erule delivers_mono) (auto simp: ping_loop_ok_def)
  have protos: "ping_protos c (u\<lparr>unow := now\<rparr>)" for now using Cons.prems(2) by (simp add: ping_protos_def)
  show ?case
  proof (cases e)
    case (Timeout now)
    then show ?thesis using Cons.prems by (auto simp: ping_loop_ok_def ping_found_def)
  next
    case (Quiet now)
    have "delivers (ping_loop c net es st (u\<lparr>unow := now\<rparr>)) (ping_loop_ok (u\<lparr>unow := now\<rparr>))"
      by (rule Cons.IH[OF unow_inv[OF Cons.prems(1)] protos Cons.prems(3) es]) (use Cons.prems(4) Quiet in simp)
    then show ?thesis using later by (simp add: Quiet)
  next
    case (Packet now rcvd late d)
    let ?u = "u\<lparr>unow := now\<rparr>"
    have t: "tval_ok now" using Cons.prems(4) Packet by simp
    have u: "usi_inv c ?u" by (rule unow_inv[OF Cons.prems(1) t])
    have step: "delivers (case d of None \<Rightarrow> Some st | Some pkt \<Rightarrow> ping_packet c net ?u pkt st) (ping_found ?u)"
      using ping_packet_delivers[OF u protos Cons.prems(3)] Cons.prems(3) by (cases d) (simp_all add: ping_found_def)
    have "delivers (do { st1 \<leftarrow> (case d of None \<Rightarrow> Some st | Some pkt \<Rightarrow> ping_packet c net ?u pkt st);
       if pc_good st1 \<or> late then Some (st1, rcvd, ?u) else ping_loop c net es st1 ?u }) (ping_loop_ok u)"
    proof (rule delivers_bind[OF step], rule delivers_if)
      fix st1 assume st1: "ping_found ?u st1"
      show "delivers (Some (st1, rcvd, ?u)) (ping_loop_ok u)" using st1 t by (auto simp: ping_loop_ok_def)
      assume n: "\<not> (pc_good st1 \<or> late)"
      from Cons.IH[OF u protos _ es, of st1] n show "delivers (ping_loop c net es st1 ?u) (ping_loop_ok u)" by (intro later[of _ now]) simp
    qed
    then show ?thesis by (simp add: Packet Let_def)
  qed
qed

text \<open>C33. In host discovery with raw packets, reading packets until one counts never fails an assertion, whatever packets arrive; the scan then
  is as before, but for the time, or as after one reply that fits the scan, according to the result.\<close>

theorem get_ping_pcap_result_refines:
  assumes "cfg_ok c" "usi_inv c u" "ping_protos c u" "\<forall>e \<in> set es. time_ok e"
  shows "\<exists>good u' now. get_ping_pcap_result c net es u = Some (good, u') \<and> usi_inv c u' \<and>
    (if good then \<exists>r. reply_fits c r \<and> receive c r (u\<lparr>unow := now\<rparr>) = Some (True, u') else u' = u\<lparr>unow := now\<rparr>)"
proof -
  obtain st rcvd u1 where l: "ping_loop c net es (pcap_start\<lparr>pc_new := HOST_UNKNOWN\<rparr>) u = Some (st, rcvd, u1)" "ping_loop_ok u (st, rcvd, u1)"
    using ping_loop_delivers[OF assms(2,3) _ assms(4), of "pcap_start\<lparr>pc_new := HOST_UNKNOWN\<rparr>" net] by (auto simp: delivers_def pcap_start_def)
  obtain now where u1: "tval_ok now" "u1 = u\<lparr>unow := now\<rparr>" using l(2) by (auto simp: ping_loop_ok_def)
  have v: "usi_inv c u1" unfolding u1(2) by (rule unow_inv[OF assms(2) u1(1)])
  show ?thesis
  proof (cases "pc_good st")
    case False
    then show ?thesis using l(1) v u1 by (auto simp: get_ping_pcap_result_def)
  next
    case True
    obtain i where i: "pc_hss st = Some i" "i \<in> set (incompleteHosts u1 @ completedHosts u1)" "i < length (hosts u1)"
      "pc_probe st < length (probes_outstanding (hosts u1 ! i))" "pc_new st \<in> {HOST_UP, HOST_DOWN}"
      using l(2) True by (auto simp: ping_loop_ok_def ping_found_def)
    let ?p = "probe_at u1 i (pc_probe st)"
    define rep where "rep = (if isPing ?p then Ping_reply i (pc_probe st) (unow u1) True else Host_reply i (pc_probe st) (pc_new st) rcvd (pc_reason st))"
    have fits: "reply_fits c rep" using i(5) by (auto simp: rep_def reply_fits_def)
    obtain b u' where u': "receive c rep u1 = Some (b, u')" "usi_inv c u'"
      using receive_delivers[OF assms(1) v fits] by (auto simp: delivers_def)
    have "get_ping_pcap_result c net es u = receive c rep u1"
      using l(1) True i outstanding_at[OF v i(2,4)] by (auto simp: get_ping_pcap_result_def rep_def receive_def probe_at_def)
    moreover have "b" using u'(1) outstanding_at[OF v i(2,4)] by (auto simp: rep_def receive_def split: if_splits)
    ultimately show ?thesis using u' fits u1(2) by (intro exI[of _ True] exI[of _ u'] exI[of _ now]) auto
  qed
qed

lemma get_arp_result_delivers:
  assumes "cfg_ok c"
  shows "usi_inv c u \<Longrightarrow> \<forall>e \<in> set es. (case e of Arp_timeout t \<Rightarrow> tval_ok t | Arp_quiet t \<Rightarrow> tval_ok t | Arp_packet t _ _ _ \<Rightarrow> tval_ok t) \<Longrightarrow>
    delivers (get_arp_result c net es u) (\<lambda>(b, u'). usi_inv c u' \<and> same_lists u u')"
proof (induction es arbitrary: u)
  case (Cons e es)
  have es: "\<forall>e \<in> set es. (case e of Arp_timeout t \<Rightarrow> tval_ok t | Arp_quiet t \<Rightarrow> tval_ok t | Arp_packet t _ _ _ \<Rightarrow> tval_ok t)" using Cons.prems(2) by simp
  have s: "same_lists u (u\<lparr>unow := t\<rparr>)" for t by (simp add: same_lists_def)
  have go_on: "delivers (get_arp_result c net es u2) (\<lambda>(b, u'). usi_inv c u' \<and> same_lists u u')" if "usi_inv c u2" "same_lists u u2" for u2
    by (rule delivers_mono[OF Cons.IH[OF that(1) es]]) (use that(2) same_lists_trans in auto)
  show ?case
  proof (cases e)
    case (Arp_timeout t)
    then show ?thesis using unow_inv[OF Cons.prems(1)] Cons.prems(2) s by simp
  next
    case (Arp_quiet t)
    then show ?thesis using go_on[OF unow_inv[OF Cons.prems(1)] s] Cons.prems(2) by simp
  next
    case (Arp_packet now rcvd late a)
    let ?u = "u\<lparr>unow := now\<rparr>"
    have u: "usi_inv c ?u" using unow_inv[OF Cons.prems(1)] Cons.prems(2) Arp_packet by simp
    have step: "delivers (case find_host net ?u a of None \<Rightarrow> Some (False, ?u)
       | Some i \<Rightarrow> if \<not> i < length (hosts ?u) then None
           else map_option (\<lambda>(b, h, g). (b, ?u\<lparr>hosts := (hosts ?u)[i := h], gstats := g\<rparr>)) (arp_reply c now rcvd (hosts ?u ! i, gstats ?u)))
      (\<lambda>(b, u'). usi_inv c u' \<and> same_lists u u')"
    proof (cases "find_host net ?u a")
      case (Some i)
      note i = find_host_bound[OF u Some]
      have "delivers (map_option (\<lambda>(b, h, g). (b, ?u\<lparr>hosts := (hosts ?u)[i := h], gstats := g\<rparr>)) (arp_reply c now rcvd (hosts ?u ! i, gstats ?u)))
        (\<lambda>(b, u'). usi_inv c u' \<and> same_lists u u')"
        by (rule delivers_map, rule delivers_mono[OF arp_reply_delivers[OF assms usi_hg_inv[OF u i]]])
          (use put_inv(1)[OF u i] in \<open>auto simp: same_lists_def\<close>)
      then show ?thesis using Some i by simp
    qed (use u s in simp)
    have "delivers (do { (good, u2) \<leftarrow> (case find_host net ?u a of None \<Rightarrow> Some (False, ?u)
       | Some i \<Rightarrow> if \<not> i < length (hosts ?u) then None
           else map_option (\<lambda>(b, h, g). (b, ?u\<lparr>hosts := (hosts ?u)[i := h], gstats := g\<rparr>)) (arp_reply c now rcvd (hosts ?u ! i, gstats ?u)));
       if good \<or> late then Some (good, u2) else get_arp_result c net es u2 }) (\<lambda>(b, u'). usi_inv c u' \<and> same_lists u u')"
      by (rule delivers_bind[OF step]) (use go_on in \<open>auto intro!: delivers_if\<close>)
    then show ?thesis by (simp add: Arp_packet Let_def)
  qed
qed simp

section \<open>An example\<close>

text \<open>One host with the address 100, probed from the address 1.\<close>

definition example_net :: net where
  "example_net = \<lparr>host_addr = (\<lambda>i. 100 + i), source_addr = (\<lambda>_. 1), af_inet = True\<rparr>"

definition example_probe :: "nat \<Rightarrow> nat \<Rightarrow> nat \<Rightarrow> ultraprobe" where
  "example_probe port sport seq = new_probe UP_IP (tcp_spec PS_TCP port TH_SYN) 0 seq \<lparr>tsec = 1000, tusec = 0\<rparr>
     \<lparr>w_ipid = 7, w_sport = sport, w_seq = seq32_encode 0 0 seq, w_icmpid = 0, w_vtag = 0\<rparr>"

definition example_answer :: "nat \<Rightarrow> nat \<Rightarrow> tcp_hdr" where
  "example_answer port sport = \<lparr>th_sport = port, th_dport = sport, th_seq = 0, th_ack = seq32_encode 0 0 0 + 1, th_flags = 0x12, th_win = 1024\<rparr>"

definition example_ip :: ip_hdr where
  "example_ip = \<lparr>ip_src = 100, ip_dst = 1, ip_id = 9, ip_ttl = 64\<rparr>"

definition with_probes :: "ultraprobe list \<Rightarrow> usi \<Rightarrow> usi" where
  "with_probes ps u = u\<lparr>hosts := [(hosts u ! 0)\<lparr>probes_outstanding := ps\<rparr>]\<rparr>"

abbreviation (input) "example_start \<equiv> UltraScanInfo_Init (example_cfg\<lparr>max_packet_send_rate := 0\<rparr>) example_env 1024 5 [example_target]"

lemma Init_lists:
  "UltraScanInfo_Init c e max_sd h targets = Some u \<Longrightarrow> incompleteHosts u = [0..<length (hosts u)] \<and> completedHosts u = [] \<and> (host_timeout c = 0 \<longrightarrow> length (hosts u) = length targets)"
proof -
  assume u: "UltraScanInfo_Init c e max_sd h targets = Some u"
  have l: "length ts = length l" if "those (map f l) = Some ts" for f :: "target \<Rightarrow> target option" and l ts
    using that by (induction l arbitrary: ts) (auto split: option.splits)
  have "filter (\<lambda>t. \<not> Target_timedOut c now t) ts = ts" if "host_timeout c = 0" for now ts using that by (simp add: Target_timedOut_def)
  then show ?thesis using u l by (auto simp: UltraScanInfo_Init_def Let_def split: bind_splits)
qed

lemma example_scan:
  "\<exists>u. example_start = Some u \<and> usi_inv (example_cfg\<lparr>max_packet_send_rate := 0\<rparr>) u \<and>
    (\<forall>ps. probes_outstanding (hosts (with_probes ps u) ! 0) = ps \<and> 0 < length (hosts (with_probes ps u)) \<and> hosts (with_probes ps u) \<noteq> [] \<and>
      find_host example_net (with_probes ps u) 100 = Some 0 \<and> (\<forall>a. a < 100 \<longrightarrow> find_host example_net (with_probes ps u) a = None))"
proof -
  obtain u where u: "example_start = Some u" "usi_inv (example_cfg\<lparr>max_packet_send_rate := 0\<rparr>) u"
    using UltraScanInfo_Init_delivers[OF example_startable[of 0], of 1024] by (auto simp: delivers_def)
  have "incompleteHosts u = [0]" "completedHosts u = []" using Init_lists[OF u(1)] by (simp_all add: example_cfg_def)
  then show ?thesis using u by (auto simp: with_probes_def find_host_def example_net_def)
qed

lemma example_host:
  "example_start = Some u \<Longrightarrow> hosts u \<noteq> [] \<and> length (hosts u) = 1 \<and> probes_outstanding (hosts u ! 0) = [] \<and> incompleteHosts u = [0] \<and> completedHosts u = []"
proof -
  assume u: "example_start = Some u"
  have l: "length (hosts u) = 1" "incompleteHosts u = [0..<length (hosts u)]" "completedHosts u = []" using Init_lists[OF u] by (simp_all add: example_cfg_def)
  moreover have "probes_outstanding h = []" if "h \<in> set (hosts u)" for h
    using u that by (auto simp: UltraScanInfo_Init_def hss_new_def Let_def split: bind_splits)
  ultimately show ?thesis using nth_mem[of 0 "hosts u"] by auto
qed

theorem get_pcap_result_refines_witness:
  "\<exists>u good u'. example_start = Some u \<and>
    get_pcap_result (example_cfg\<lparr>max_packet_send_rate := 0\<rparr>) example_net
      [Packet \<lparr>tsec = 1005, tusec = 0\<rparr> \<lparr>tsec = 1005, tusec = 0\<rparr> False (Some \<lparr>p_ip = example_ip, p_load = P_tcp (example_answer 80 33000)\<rparr>),
       Timeout \<lparr>tsec = 1006, tusec = 0\<rparr>] u = Some (good, u')"
proof -
  let ?c = "example_cfg\<lparr>max_packet_send_rate := 0\<rparr>"
  obtain u where u: "example_start = Some u" "usi_inv ?c u" using example_scan by blast
  have "\<not> ping_scan ?c" "\<not> prot_scan ?c" by (simp_all add: scan_kind_defs example_cfg_def)
  from get_pcap_result_refines[OF example_cfg_ok this u(2), of "[Packet \<lparr>tsec = 1005, tusec = 0\<rparr> \<lparr>tsec = 1005, tusec = 0\<rparr> False
      (Some \<lparr>p_ip = example_ip, p_load = P_tcp (example_answer 80 33000)\<rparr>), Timeout \<lparr>tsec = 1006, tusec = 0\<rparr>]" example_net]
  show ?thesis using u(1) \<open>\<not> prot_scan ?c\<close> by (auto simp: tval_ok_def)
qed

theorem get_ping_pcap_result_refines_witness:
  "\<exists>u good u'. example_start = Some u \<and> get_ping_pcap_result (example_cfg\<lparr>max_packet_send_rate := 0\<rparr>) example_net
      [Packet \<lparr>tsec = 1005, tusec = 0\<rparr> \<lparr>tsec = 1005, tusec = 0\<rparr> False (Some \<lparr>p_ip = example_ip, p_load = P_other 47 0 0\<rparr>),
       Timeout \<lparr>tsec = 1006, tusec = 0\<rparr>] u = Some (good, u')"
proof -
  let ?c = "example_cfg\<lparr>max_packet_send_rate := 0\<rparr>"
  obtain u where u: "example_start = Some u" "usi_inv ?c u" using example_scan by blast
  have "probes_outstanding h = []" if "h \<in> set (hosts u)" for h
    using u(1) that by (auto simp: UltraScanInfo_Init_def hss_new_def Let_def split: bind_splits)
  then have "ping_protos ?c u" by (simp add: ping_protos_def)
  from get_ping_pcap_result_refines[OF example_cfg_ok u(2) this, of "[Packet \<lparr>tsec = 1005, tusec = 0\<rparr> \<lparr>tsec = 1005, tusec = 0\<rparr> False
      (Some \<lparr>p_ip = example_ip, p_load = P_other 47 0 0\<rparr>), Timeout \<lparr>tsec = 1006, tusec = 0\<rparr>]" example_net]
  show ?thesis using u(1) by (auto simp: tval_ok_def)
qed

end
