(* ===== verification/Match_Results.thy ===== *)
theory Match_Results
  imports Match_Inv
begin

text \<open>
  What the results of a port scan mean: a TCP packet changes only the port that it came from, as its flags say; the answer to a probe
  finds that probe; and the cases in which this fails.
\<close>

unbundle bit_operations_syntax

section \<open>A TCP reply\<close>

text \<open>C14. A TCP packet that counts comes from the host and the port of the probe and goes to the address and the port that the probe was sent
  from.  In a SYN scan the port is open exactly when the packet has SYN and ACK, or SYN without RST, and closed exactly when it has RST
  without both; in an ACK scan it is unfiltered, after a RST; in any other scan but a window scan it is closed, after a RST.\<close>

theorem tcp_result_sound:
  assumes "pcap_packet c net u pkt st = Some st'" "p_load pkt = P_tcp t" "\<not> prot_scan c" "\<not> pc_good st" "pc_good st'"
  shows "\<exists>i p. pc_hss st' = Some i \<and> i < length (hosts u) \<and> pc_probe st' < length (probes_outstanding (hosts u ! i)) \<and>
    p = probes_outstanding (hosts u ! i) ! pc_probe st' \<and> host_addr net i = ip_src (p_ip pkt) \<and> source_addr net i = ip_dst (p_ip pkt) \<and>
    ps_proto (mypspec p) = IPPROTO_TCP \<and> probe_dport p = th_sport t \<and> probe_sport p = th_dport t \<and>
    (\<not> isPing p \<longrightarrow>
      (scantype c = SYN_SCAN \<longrightarrow> pc_new st' \<in> {PORT_OPEN, PORT_CLOSED} \<and> (pc_new st' = PORT_OPEN \<longleftrightarrow> syn_ack t \<or> (has_flag t TH_SYN \<and> \<not> has_flag t 4))) \<and>
      (scantype c \<noteq> SYN_SCAN \<longrightarrow> has_flag t 4) \<and> (scantype c = ACK_SCAN \<longrightarrow> pc_new st' = PORT_UNFILTERED) \<and>
      (scantype c \<notin> {SYN_SCAN, ACK_SCAN, WINDOW_SCAN} \<longrightarrow> pc_new st' = PORT_CLOSED))"
proof -
  let ?ip = "p_ip pkt"
  have s: "search_at net u (ip_src ?ip) (\<lambda>i. tcp_verdict c net i ?ip t) st = Some st'" using assms(1-3) by (simp add: pcap_packet_def Let_def)
  obtain i r where i: "find_host net u (ip_src ?ip) = Some i" "search_host (tcp_verdict c net i ?ip t) u i = Some r" "st' = found i r st"
    using s assms(4,5) by (auto simp: search_at_def split: option.splits)
  obtain k ns q where k: "r = Some (k, ns, q)" using i(3) assms(5) by (cases r) (auto simp: found_def)
  note h = search_host_Some[OF i(2)[unfolded k]]
  let ?p = "probes_outstanding (hosts u ! i) ! k"
  have st': "pc_hss st' = Some i" "pc_probe st' = k" "pc_new st' = ns" using i(3) by (simp_all add: k found_def)
  have m: "tcp_probe_match c net i ?ip t ?p" using h(3) by (auto simp: tcp_verdict_def split: if_splits)
  have v: "\<not> isPing ?p \<longrightarrow> tcp_port_state c t = Some (ns, q)" using h(3) m by (auto simp: tcp_verdict_def split: option.splits if_splits)
  have "host_addr net i = ip_src ?ip" using find_host_Some[OF i(1)] by simp
  moreover have "\<not> isPing ?p \<longrightarrow>
      (scantype c = SYN_SCAN \<longrightarrow> ns \<in> {PORT_OPEN, PORT_CLOSED} \<and> (ns = PORT_OPEN \<longleftrightarrow> syn_ack t \<or> (has_flag t TH_SYN \<and> \<not> has_flag t 4))) \<and>
      (scantype c \<noteq> SYN_SCAN \<longrightarrow> has_flag t 4) \<and> (scantype c = ACK_SCAN \<longrightarrow> ns = PORT_UNFILTERED) \<and>
      (scantype c \<notin> {SYN_SCAN, ACK_SCAN, WINDOW_SCAN} \<longrightarrow> ns = PORT_CLOSED)"
    using v by (auto simp: tcp_port_state_def split: if_splits)
  ultimately show ?thesis using h(1,2) m st' by (auto simp: tcp_probe_match_def)
qed

text \<open>The facts about the example that evaluate its packets.\<close>

lemmas example_simps = example_net_def example_probe_def example_answer_def example_ip_def new_probe_def tcp_spec_def probe_sport_def probe_dport_def
  spec_dport_def isPing_def has_flag_def syn_ack_def

lemma example_scantype: "\<not> prot_scan example_cfg" "scantype example_cfg = SYN_SCAN" "magic_port example_cfg = None" "max_retransmissions example_cfg = 10"
  "base_port example_cfg = 33000" "seqmask example_cfg = 0"
  by (simp_all add: example_cfg_def scan_kind_defs)

lemma example_encoded: "sport_encode example_cfg 0 0 = Some 33000" "sport_decode example_cfg 33000 = Some (0, 0)"
  by (simp_all add: sport_encode_def sport_decode_def example_scantype Let_def)

theorem tcp_result_sound_witness:
  "\<exists>u st'. example_start = Some u \<and>
    pcap_packet example_cfg example_net (with_probes [example_probe 80 33000 0] u) \<lparr>p_ip = example_ip, p_load = P_tcp (example_answer 80 33000)\<rparr> pcap_start = Some st' \<and>
    pc_new st' = PORT_OPEN"
proof -
  obtain u where u: "example_start = Some u" "\<And>ps. probes_outstanding (hosts (with_probes ps u) ! 0) = ps" "\<And>ps. hosts (with_probes ps u) \<noteq> []"
    "\<And>ps. find_host example_net (with_probes ps u) 100 = Some 0" using example_scan by blast
  let ?u = "with_probes [example_probe 80 33000 0] u" let ?pkt = "\<lparr>p_ip = example_ip, p_load = P_tcp (example_answer 80 33000)\<rparr>"
  have m: "tcp_verdict example_cfg example_net 0 example_ip (example_answer 80 33000) (example_probe 80 33000 0) = Hit PORT_OPEN ER_SYNACK"
    by (simp add: tcp_verdict_def tcp_probe_match_def tcp_numbers_def example_scantype example_encoded check_tryno_pingseq_def own_packet_def
        tcp_port_state_def example_simps)
  have s: "ip_src example_ip = 100" by (simp add: example_ip_def)
  have p: "\<exists>st'. pcap_packet example_cfg example_net ?u ?pkt pcap_start = Some st' \<and> pc_good st'"
    using u m s by (simp add: pcap_packet_def Let_def search_at_def search_host_def found_def example_scantype)
  then obtain st' where st': "pcap_packet example_cfg example_net ?u ?pkt pcap_start = Some st'" "pc_good st'" by blast
  from tcp_result_sound[OF st'(1) _ example_scantype(1) _ st'(2), of "example_answer 80 33000"]
  obtain i k where "k < length (probes_outstanding (hosts ?u ! i))" "i < length (hosts ?u)"
    "\<not> isPing (probes_outstanding (hosts ?u ! i) ! k) \<longrightarrow> (pc_new st' = PORT_OPEN \<longleftrightarrow> syn_ack (example_answer 80 33000) \<or>
       (has_flag (example_answer 80 33000) TH_SYN \<and> \<not> has_flag (example_answer 80 33000) 4))"
    by (auto simp: pcap_start_def example_scantype)
  moreover have "length (hosts ?u) = 1" by (simp add: with_probes_def)
  ultimately have "pc_new st' = PORT_OPEN" using u(2) by (simp add: example_simps)
  then show ?thesis using u(1) st'(1) by blast
qed

section \<open>The answer to a probe\<close>

lemma mod_add_inj:
  assumes "(b + x) mod m = (b + y) mod m" "x < m" "y < m"
  shows "x = (y :: nat)"
proof -
  have s: "(b + z) mod m = (if b mod m + z < m then b mod m + z else b mod m + z - m)" if "z < m" for z
  proof -
    have bm: "b mod m < m" using that by simp
    have "(b + z) mod m = (b mod m + z) mod m" by (simp only: mod_add_left_eq)
    also have "\<dots> = (if b mod m + z < m then b mod m + z else b mod m + z - m)"
    proof (cases "b mod m + z < m")
      case False
      then have "(b mod m + z) mod m = (b mod m + z - m) mod m" by (intro le_mod_geq) simp
      moreover have "b mod m + z - m < m" using bm that by linarith
      ultimately show ?thesis using False by simp
    qed (simp only: mod_less if_True)
    finally show ?thesis .
  qed
  have "b mod m < m" using assms(2) by simp
  then show ?thesis using assms s[of x] s[of y] by (auto split: if_splits)
qed

lemma sport_encode_inj:
  assumes "sport_encode c tn seq = Some x" "sport_encode c tn' 0 = Some x" "tn < 256" "seq < 256" "tn' \<le> max_retransmissions c" "max_retransmissions c < 256"
  shows "seq = 0 \<and> tn = tn'"
proof -
  define a where "a = (if seq > 0 then max_retransmissions c + seq else tn)"
  have a: "(base_port c + a) mod 65536 = x" "a < 512" using assms(1,3,4,6) by (auto simp: sport_encode_def a_def add.assoc split: if_splits)
  have b: "(base_port c + tn') mod 65536 = x" "tn' < 256" using assms(2,5,6) by (auto simp: sport_encode_def)
  have "a = tn'" using mod_add_inj[of "base_port c" a 65536 tn'] a b by simp
  then show ?thesis using assms(1,5) by (auto simp: a_def sport_encode_def split: if_splits)
qed

text \<open>In a SYN scan every outstanding probe is a packet whose source port carries its numbers.\<close>

lemma syn_probe_numbered:
  assumes "usi_inv c u" "scantype c = SYN_SCAN" "magic_port c = None" "i < length (hosts u)" "p \<in> set (probes_outstanding (hosts u ! i))"
  shows "sport_encode c (tryno p) (pingseq p) = Some (w_sport (up_wire p))" "tryno p \<le> max_retransmissions c" "tryno p < 256" "pingseq p < 256"
proof -
  have ok: "probe_ok c (max_tryno c (hosts u ! i)) p"
    using usi_inv_host[OF assms(1,4)] assms(5) by (simp add: host_inv_def probes_inv_def list_all_iff)
  have np: "\<not> ping_scan c" using assms(2) by (simp add: scan_kind_defs)
  have "up_type p = UP_IP" using ok np assms(2) by (cases "ps_type (mypspec p)") (simp_all add: probe_ok_def buildable_def kind_of_def)
  then show "sport_encode c (tryno p) (pingseq p) = Some (w_sport (up_wire p))" "tryno p < 256" "pingseq p < 256"
    using ok assms(3) by (simp_all add: probe_ok_def numbered_def)
  have "max_tryno c (hosts u ! i) \<le> max_retransmissions c" by (simp add: max_tryno_def)
  then show "tryno p \<le> max_retransmissions c" using ok by (simp add: probe_ok_def)
qed

text \<open>C13. In a SYN scan without a fixed source port, the SYN/ACK with which a port of another machine than the scanner answers a probe counts, marks a
  probe to that port with the same try number that is not a ping, and so reports the port open.  This holds in every state of the scan, that
  is, whatever other probes to the host are outstanding: \<^const>\<open>usi_inv\<close>, which the start of the scan establishes and every operation of a round keeps,
  says that the source port of each of them carries its numbers.\<close>

theorem syn_answer_opens_port:
  assumes "usi_inv c u" "scantype c = SYN_SCAN" "magic_port c = None" "max_retransmissions c < 256" "base_port c + max_retransmissions c < 65536"
    and "find_host net u (ip_src ip) = Some i" "i < length (hosts u)"
    and "k < length (probes_outstanding (hosts u ! i))" "p = probes_outstanding (hosts u ! i) ! k" "pingseq p = 0"
    and "ps_proto (mypspec p) = IPPROTO_TCP" "(word_of_nat (pd_flags (ps_pd (mypspec p))) :: u8) AND 2 \<noteq> 0"
    and "th_sport t = probe_dport p" "th_dport t = w_sport (up_wire p)" "syn_ack t" "source_addr net i = ip_dst ip" "ip_src ip \<noteq> ip_dst ip"
  shows "\<exists>st' q. pcap_packet c net u \<lparr>p_ip = ip, p_load = P_tcp t\<rparr> st = Some st' \<and> pc_good st' \<and> pc_hss st' = Some i \<and>
    pc_probe st' < length (probes_outstanding (hosts u ! i)) \<and> q = probes_outstanding (hosts u ! i) ! pc_probe st' \<and>
    \<not> isPing q \<and> tryno q = tryno p \<and> probe_dport q = probe_dport p \<and> pc_new st' = PORT_OPEN"
proof -
  let ?ps = "probes_outstanding (hosts u ! i)" let ?f = "tcp_verdict c net i ip t"
  note num = syn_probe_numbered[OF assms(1-3,7)]
  have np: "\<not> prot_scan c" using assms(2) by (simp add: prot_scan_def)
  have pin: "p \<in> set ?ps" using assms(8,9) by simp
  have enc: "sport_encode c (tryno p) 0 = Some (th_dport t)" using num(1)[OF pin] assms(10,14) by simp
  have dec: "sport_decode c (th_dport t) = Some (tryno p, 0)"
  proof -
    have "base_port c < 65536" using assms(5) by simp
    from sport_decode_encode[OF this num(2)[OF pin] assms(4), of 0] show ?thesis using enc assms(5) num(2)[OF pin] by auto
  qed
  have own: "\<not> own_packet ip q" for q using assms(17) by (simp add: own_packet_def)
  have m: "tcp_probe_match c net i ip t p"
    using assms(3,10-16) own dec by (simp add: tcp_probe_match_def tcp_numbers_def check_tryno_pingseq_def probe_sport_def)
  have st: "tcp_port_state c t = Some (PORT_OPEN, ER_SYNACK)" using assms(2,15) by (simp add: tcp_port_state_def)
  have hit: "?f p = Hit PORT_OPEN ER_SYNACK" using m assms(10) st by (simp add: tcp_verdict_def isPing_def)
  have any: "?f (?ps ! j) = Skip \<or> (\<exists>s r. ?f (?ps ! j) = Hit s r)" for j using st by (auto simp: tcp_verdict_def)
  obtain k' s r where k': "k' < length ?ps" "?f (?ps ! k') = Hit s r" "search ?f ?ps (length ?ps) = Some (Some (k', s, r))"
    using search_last[where f = ?f and ps = ?ps and s = PORT_OPEN and r = ER_SYNACK, OF assms(8)] hit any assms(9) by blast
  let ?q = "?ps ! k'"
  have mq: "tcp_probe_match c net i ip t ?q" using k'(2) by (auto simp: tcp_verdict_def split: if_splits)
  then have q: "ps_proto (mypspec ?q) = IPPROTO_TCP" "probe_dport ?q = th_sport t" "w_sport (up_wire ?q) = th_dport t"
    by (auto simp: tcp_probe_match_def probe_sport_def)
  have qin: "?q \<in> set ?ps" using k'(1) by simp
  have "sport_encode c (tryno ?q) (pingseq ?q) = Some (th_dport t)" using num(1)[OF qin] q(3) by simp
  from sport_encode_inj[OF this enc num(3,4)[OF qin] num(2)[OF pin] assms(4)] have same: "pingseq ?q = 0" "tryno ?q = tryno p" by auto
  have "s = PORT_OPEN" using k'(2) same(1) st mq by (simp add: tcp_verdict_def isPing_def)
  then have "pcap_packet c net u \<lparr>p_ip = ip, p_load = P_tcp t\<rparr> st = Some (found i (Some (k', PORT_OPEN, r)) st)"
    using np assms(6,7) k'(3) by (simp add: pcap_packet_def Let_def search_at_def search_host_def)
  then show ?thesis using k'(1) same q(2) assms(13) by (simp add: found_def isPing_def)
qed

text \<open>A probe is sent to the host of the example.\<close>

definition with_sent :: "ultraprobe \<Rightarrow> usi \<Rightarrow> usi" where
  "with_sent p u = (let (h, g) = push_probe p (hosts u ! 0, gstats u) in u\<lparr>hosts := [h], gstats := g\<rparr>)"

lemma with_sent_inv:
  assumes "usi_inv c u" "length (hosts u) = 1" "probe_ok c (max_tryno c (hosts u ! 0)) p" "\<not> timedout p"
  shows "usi_inv c (with_sent p u) \<and> length (hosts (with_sent p u)) = 1 \<and> max_tryno c (hosts (with_sent p u) ! 0) = max_tryno c (hosts u ! 0) \<and>
    probes_outstanding (hosts (with_sent p u) ! 0) = probes_outstanding (hosts u ! 0) @ [p] \<and>
    incompleteHosts (with_sent p u) = incompleteHosts u \<and> completedHosts (with_sent p u) = completedHosts u"
proof -
  obtain h where h: "hosts u = [h]" using assms(2) by (cases "hosts u") auto
  have "hg_inv c 0 (h, gstats u)" using assms(1) by (simp add: usi_inv_def hg_inv_def total_active_def h)
  from push_probe_inv(1)[OF this] have p: "hg_inv c 0 (push_probe p (h, gstats u))" using assms(3,4) by (simp add: h)
  moreover have "lists_ok (with_sent p u)" using assms(1) by (simp add: usi_inv_def lists_ok_def with_sent_def h push_probe_def)
  ultimately show ?thesis using assms(1)
    by (simp add: usi_inv_def with_sent_def push_probe_def h hg_inv_def group_inv_def total_active_def max_tryno_def)
qed

lemma example_probe_ok:
  assumes "c = example_cfg\<lparr>max_packet_send_rate := 0\<rparr>"
  shows "probe_ok c m (example_probe 80 33000 0)" "probe_ok c m (example_probe 80 33015 5)"
proof -
  have "scanned (statics c) 6 80" by (simp add: assms scanned_def example_cfg_def INPROTO2PORTLISTPROTO_def)
  then show "probe_ok c m (example_probe 80 33000 0)" "probe_ok c m (example_probe 80 33015 5)"
    by (simp_all add: assms probe_ok_def numbered_def example_simps kind_of_def buildable_def pspec_ok_def pspec_port_def only_connect_def
        sport_encode_def example_cfg_def scan_kind_defs)
qed

theorem syn_answer_opens_port_witness:
  "\<exists>u st'. usi_inv (example_cfg\<lparr>max_packet_send_rate := 0\<rparr>) u \<and> probes_outstanding (hosts u ! 0) = [example_probe 80 33000 0, example_probe 80 33015 5] \<and>
    pcap_packet (example_cfg\<lparr>max_packet_send_rate := 0\<rparr>) example_net u
      \<lparr>p_ip = example_ip, p_load = P_tcp (example_answer 80 33000)\<rparr> pcap_start = Some st' \<and> pc_new st' = PORT_OPEN"
proof -
  let ?c = "example_cfg\<lparr>max_packet_send_rate := 0\<rparr>" let ?p = "example_probe 80 33000 0" let ?q = "example_probe 80 33015 5"
  obtain u where u: "example_start = Some u" "usi_inv ?c u" using example_scan by blast
  have e: "hosts u \<noteq> []" "length (hosts u) = 1" "probes_outstanding (hosts u ! 0) = []" "incompleteHosts u = [0]" "completedHosts u = []"
    using example_host[OF u(1)] by simp_all
  have nt: "\<not> timedout ?p" "\<not> timedout ?q" by (simp_all add: example_probe_def new_probe_def)
  define v where "v = with_sent ?q (with_sent ?p u)"
  from with_sent_inv[OF u(2) e(2) example_probe_ok(1)[OF refl] nt(1)]
    with_sent_inv[of ?c "with_sent ?p u" ?q] example_probe_ok(2)[OF refl, of "max_tryno ?c (hosts (with_sent ?p u) ! 0)"] nt(2) e
  have v: "usi_inv ?c v" "length (hosts v) = 1" "probes_outstanding (hosts v ! 0) = [?p, ?q]" "incompleteHosts v = [0]" "completedHosts v = []"
    unfolding v_def by auto
  have f: "find_host example_net v (ip_src example_ip) = Some 0" using v(4,5) by (simp add: find_host_def example_net_def example_ip_def)
  have "\<exists>st' q. pcap_packet ?c example_net v \<lparr>p_ip = example_ip, p_load = P_tcp (example_answer 80 33000)\<rparr> pcap_start = Some st' \<and>
      pc_good st' \<and> pc_hss st' = Some 0 \<and> pc_probe st' < length (probes_outstanding (hosts v ! 0)) \<and>
      q = probes_outstanding (hosts v ! 0) ! pc_probe st' \<and> \<not> isPing q \<and> tryno q = tryno ?p \<and> probe_dport q = probe_dport ?p \<and> pc_new st' = PORT_OPEN"
    by (rule syn_answer_opens_port[OF v(1) _ _ _ _ f, where k = 0])
      (simp_all add: v(2,3) example_cfg_def, simp_all add: example_simps)
  then show ?thesis using v(1,3) by blast
qed

section \<open>Where it fails\<close>

text \<open>C34. With a fixed source port, the answer to the first probe of a port is taken for that of a later ping probe to the same port, so the port
  stays unanswered: a ping has try number 0, and its own number is compared only when the packet carries one.\<close>

theorem fixed_port_answer_taken_by_ping:
  assumes "scantype c = SYN_SCAN" "magic_port c = Some (th_dport t)"
    and "find_host net u (ip_src ip) = Some i" "i < length (hosts u)" "probes_outstanding (hosts u ! i) = ps @ [p, q]"
    and "w_seq (up_wire p) = seq32_encode (seqmask c) 0 0" "th_ack t = w_seq (up_wire p) + 1" "syn_ack t" "th_sport t = probe_dport p"
    and "isPing q" "tryno q = 0" "mypspec q = mypspec p" "w_sport (up_wire q) = th_dport t"
    and "ps_proto (mypspec p) = IPPROTO_TCP" "(word_of_nat (pd_flags (ps_pd (mypspec p))) :: u8) AND 2 \<noteq> 0"
    and "source_addr net i = ip_dst ip" "ip_src ip \<noteq> ip_dst ip"
  shows "\<exists>st'. pcap_packet c net u \<lparr>p_ip = ip, p_load = P_tcp t\<rparr> st = Some st' \<and> pc_good st' \<and> pc_hss st' = Some i \<and>
    probes_outstanding (hosts u ! i) ! pc_probe st' = q"
proof -
  let ?l = "probes_outstanding (hosts u ! i)" let ?f = "tcp_verdict c net i ip t"
  have np: "\<not> prot_scan c" using assms(1) by (simp add: prot_scan_def)
  have "seq32_decode (seqmask c) (th_ack t - 1) = Some (0, 0)" using seq32_decode_encode[of 0 0 "seqmask c"] assms(6,7) by simp
  then have "tcp_probe_match c net i ip t q"
    using assms(2,8,9,11-17) by (simp add: tcp_probe_match_def tcp_numbers_def check_tryno_pingseq_def probe_sport_def probe_dport_def own_packet_def)
  then have "?f q = Hit PORT_UNKNOWN ER_NORESPONSE" using assms(10) by (simp add: tcp_verdict_def)
  moreover have "length ?l = Suc (Suc (length ps))" "?l ! Suc (length ps) = q" using assms(5) by (simp_all add: nth_append)
  ultimately have "search_host ?f u i = Some (Some (Suc (length ps), PORT_UNKNOWN, ER_NORESPONSE))" using assms(4) by (simp add: search_host_def)
  then show ?thesis using np assms(3) \<open>?l ! Suc (length ps) = q\<close> by (simp add: pcap_packet_def Let_def search_at_def found_def)
qed

theorem fixed_port_answer_taken_by_ping_witness:
  "\<exists>u st'. example_start = Some u \<and>
    pcap_packet (example_cfg\<lparr>magic_port := Some 53\<rparr>) example_net (with_probes [example_probe 80 53 0, example_probe 80 53 5] u)
      \<lparr>p_ip = example_ip, p_load = P_tcp (example_answer 80 53)\<rparr> pcap_start = Some st' \<and> pc_good st'"
proof -
  obtain u where u: "example_start = Some u" "\<And>ps. probes_outstanding (hosts (with_probes ps u) ! 0) = ps" "\<And>ps. 0 < length (hosts (with_probes ps u))"
    "\<And>ps. find_host example_net (with_probes ps u) 100 = Some 0" using example_scan by blast
  let ?ps = "[] @ [example_probe 80 53 0, example_probe 80 53 5]"
  have f: "find_host example_net (with_probes ?ps u) (ip_src example_ip) = Some 0" by (simp add: u(4) example_ip_def)
  have "\<exists>st'. pcap_packet (example_cfg\<lparr>magic_port := Some 53\<rparr>) example_net (with_probes ?ps u)
      \<lparr>p_ip = example_ip, p_load = P_tcp (example_answer 80 53)\<rparr> pcap_start = Some st' \<and> pc_good st' \<and> pc_hss st' = Some 0 \<and>
      probes_outstanding (hosts (with_probes ?ps u) ! 0) ! pc_probe st' = example_probe 80 53 5"
    by (rule fixed_port_answer_taken_by_ping[OF _ _ f u(3) u(2)])
      (simp_all add: example_scantype, simp_all add: example_simps)
  then show ?thesis using u(1) by auto
qed

text \<open>C35. In a protocol scan over IPv6, an ICMPv6 error from a host whose ICMPv6 probe is outstanding, about a packet to an address that is not
  scanned, makes the scan follow a null pointer.\<close>

theorem proto_scan_null_host:
  assumes "prot_scan c" "find_host net u (ip_src ip) = Some i" "i < length (hosts u)" "probes_outstanding (hosts u ! i) = ps @ [q]"
    and "ps_proto (mypspec q) = IPPROTO_ICMPV6" "ip_src ip \<noteq> ip_dst ip"
    and "ic_type m = 1" "8 \<le> ic_len m" "ic_inner m = Some n" "find_host net u (in_dst n) = None"
  shows "get_pcap_result c net [Packet now rcvd late (Some \<lparr>p_ip = ip, p_load = P_icmp6 m\<rparr>)] u = None"
proof -
  let ?u = "u\<lparr>unow := now\<rparr>"
  have f: "find_host net ?u a = find_host net u a" for a by (simp add: find_host_def split: option.split)
  have k: "\<not> tcp_scan c" "\<not> udp_scan c" "\<not> sctp_scan c" using assms(1) by (simp_all add: scan_kind_defs)
  have "proto_verdict IPPROTO_ICMPV6 ip q = Hit PORT_OPEN ER_PROTORESPONSE" using assms(5,6) by (simp add: proto_verdict_def)
  then have s: "search_host (proto_verdict IPPROTO_ICMPV6 ip) ?u i = Some (Some (length ps, PORT_OPEN, ER_PROTORESPONSE))"
    using assms(3,4) by (simp add: search_host_def nth_append)
  have "pcap_packet c net ?u \<lparr>p_ip = ip, p_load = P_icmp6 m\<rparr> pcap_start =
    Some ((found i (Some (length ps, PORT_OPEN, ER_PROTORESPONSE)) pcap_start)\<lparr>pc_hss := None\<rparr>)"
    using assms(1,2,7-10) s f k by (simp add: pcap_packet_def proto_packet_def search_at_def error_packet_def inner_usable_def Let_def)
  then show ?thesis by (simp add: get_pcap_result_def Let_def found_def)
qed

theorem proto_scan_null_host_witness:
  "\<exists>u. example_start = Some u \<and>
    get_pcap_result (example_cfg\<lparr>scantype := IPPROT_SCAN\<rparr>) example_net
      [Packet \<lparr>tsec = 1005, tusec = 0\<rparr> \<lparr>tsec = 1005, tusec = 0\<rparr> False (Some \<lparr>p_ip = example_ip,
         p_load = P_icmp6 \<lparr>ic_type = 1, ic_code = 4, ic_id = 0, ic_len = 48,
           ic_inner = Some \<lparr>in_src = 1, in_dst = 2, in_proto = 17, in_len = 8, in_sport = 1, in_dport = 2, in_word = 0\<rparr>\<rparr>\<rparr>)]
      (with_probes [(example_probe 80 33000 0)\<lparr>mypspec := proto_spec IPPROTO_ICMPV6\<rparr>] u) = None"
proof -
  obtain u where u: "example_start = Some u" "\<And>ps. probes_outstanding (hosts (with_probes ps u) ! 0) = ps" "\<And>ps. 0 < length (hosts (with_probes ps u))"
    "\<And>ps. find_host example_net (with_probes ps u) 100 = Some 0" "\<And>ps a. a < 100 \<Longrightarrow> find_host example_net (with_probes ps u) a = None"
    using example_scan by blast
  let ?ps = "[] @ [(example_probe 80 33000 0)\<lparr>mypspec := proto_spec IPPROTO_ICMPV6\<rparr>]"
    and ?n = "\<lparr>in_src = 1, in_dst = 2, in_proto = 17, in_len = 8, in_sport = 1, in_dport = 2, in_word = 0\<rparr>"
  have f: "find_host example_net (with_probes ?ps u) (ip_src example_ip) = Some 0" by (simp add: u(4) example_ip_def)
  have g: "find_host example_net (with_probes ?ps u) (in_dst ?n) = None" by (simp add: u(5))
  have "get_pcap_result (example_cfg\<lparr>scantype := IPPROT_SCAN\<rparr>) example_net
      [Packet \<lparr>tsec = 1005, tusec = 0\<rparr> \<lparr>tsec = 1005, tusec = 0\<rparr> False (Some \<lparr>p_ip = example_ip,
         p_load = P_icmp6 \<lparr>ic_type = 1, ic_code = 4, ic_id = 0, ic_len = 48,
           ic_inner = Some \<lparr>in_src = 1, in_dst = 2, in_proto = 17, in_len = 8, in_sport = 1, in_dport = 2, in_word = 0\<rparr>\<rparr>\<rparr>)]
      (with_probes ([] @ [(example_probe 80 33000 0)\<lparr>mypspec := proto_spec IPPROTO_ICMPV6\<rparr>]) u) = None"
    by (rule proto_scan_null_host[OF _ f u(3) u(2) _ _ _ _ _ g]) (simp_all add: example_ip_def scan_kind_defs proto_spec_def)
  then show ?thesis using u(1) by auto
qed

end
