(* ===== verification/Services.thy ===== *)
theory Services
  imports Decimal Complex_Main
begin

text \<open>
  The table of services and the table of protocols, \<open>services.cc\<close> and \<open>protocols.cc\<close>, and the wildcards with which their names are
  searched, \<open>wildtest\<close> of \<open>utils.cc\<close>.  The lines of the data files come split into fields, as by \<open>sscanf\<close>; comments and lines that
  do not have the fields are left out.  Proved: \<open>wildtest\<close> decides the usual meaning of wildcards, and what the tables look like.
\<close>

unbundle bit_operations_syntax

section \<open>Wildcards\<close>

function wildtest :: "string \<Rightarrow> string \<Rightarrow> bool" where
  "wildtest wild test =
     (if wild = [] \<and> test = [] then True
      else if deref wild = CHR ''*'' then
        (let w = dropWhile (\<lambda>c. c = CHR ''*'') wild in
         if w = [] then True
         else \<exists>i \<in> set [0..<length test]. (tolower (hd w) = tolower (test ! i) \<or> hd w = CHR ''?'') \<and> wildtest w (drop i test))
      else if deref wild = CHR ''?'' \<and> test = [] then False
      else if deref wild \<noteq> CHR ''?'' \<and> tolower (deref wild) \<noteq> tolower (deref test) then False
      else wildtest (tl wild) (tl test))"
  by pat_completeness auto

lemma dropWhile_star_less: "deref wild = CHR ''*'' \<Longrightarrow> length (dropWhile (\<lambda>c. c = CHR ''*'') wild) < length wild"
  by (cases wild) (auto simp: NUL_def le_imp_less_Suc length_dropWhile_le)

termination wildtest
proof (relation "measure (\<lambda>(w, t). length w + length t)")
  fix wild test w i
  assume "\<not> (wild = [] \<and> test = [])" "deref wild = CHR ''*''" "w = dropWhile (\<lambda>c. c = CHR ''*'') wild" "w \<noteq> []" "i \<in> set [0..<length test]"
  then show "((w, drop i test), wild, test) \<in> measure (\<lambda>(w, t). length w + length t)"
    using dropWhile_star_less[of wild] by (auto simp: add_less_le_mono)
qed (auto simp: neq_Nil_conv)

declare wildtest.simps [simp del]

text \<open>What a mask means: a star stands for any characters, a question mark for one, and case does not matter.\<close>

fun glob :: "string \<Rightarrow> string \<Rightarrow> bool" where
  "glob [] t = (t = [])"
| "glob (c # w) t =
     (if c = CHR ''*'' then \<exists>k \<in> set [0..<Suc (length t)]. glob w (drop k t)
      else case t of [] \<Rightarrow> False | d # u \<Rightarrow> (c = CHR ''?'' \<or> tolower c = tolower d) \<and> glob w u)"

lemma glob_star: "glob (CHR ''*'' # w) t \<longleftrightarrow> (\<exists>k \<le> length t. glob w (drop k t))"
  by (auto simp: less_Suc_eq_le simp del: upt_Suc)

declare glob.simps(2) [simp del]

lemma glob_char: "c \<noteq> CHR ''*'' \<Longrightarrow> glob (c # w) t \<longleftrightarrow> (case t of [] \<Rightarrow> False | d # u \<Rightarrow> (c = CHR ''?'' \<or> tolower c = tolower d) \<and> glob w u)"
  by (simp add: glob.simps(2))

lemma glob_star_star: "glob (CHR ''*'' # CHR ''*'' # w) t = glob (CHR ''*'' # w) t"
proof
  assume "glob (CHR ''*'' # CHR ''*'' # w) t"
  then obtain k j where k: "k \<le> length t" "j \<le> length (drop k t)" "glob w (drop j (drop k t))" unfolding glob_star by blast
  then have "j + k \<le> length t" "glob w (drop (j + k) t)" by simp_all
  then show "glob (CHR ''*'' # w) t" unfolding glob_star by blast
next
  assume "glob (CHR ''*'' # w) t"
  then have "glob (CHR ''*'' # w) (drop 0 t)" by simp
  then show "glob (CHR ''*'' # CHR ''*'' # w) t" unfolding glob_star[of "CHR ''*'' # w"] by blast
qed

lemma glob_stars: "deref w = CHR ''*'' \<Longrightarrow> glob w t = glob (CHR ''*'' # dropWhile (\<lambda>c. c = CHR ''*'') w) t"
proof (induction w)
  case (Cons c w)
  then have c: "c = CHR ''*''" by simp
  show ?case
  proof (cases "deref w = CHR ''*''")
    case True
    then obtain v where "w = CHR ''*'' # v" by (cases w) (auto simp: NUL_def)
    then show ?thesis using Cons.IH True c glob_star_star[of v t] by simp
  next
    case False
    then show ?thesis using c by (cases w) auto
  qed
qed (simp add: NUL_def)

lemma glob_star_tail: "glob [CHR ''*''] t"
  unfolding glob_star by (rule exI[of _ "length t"]) simp

lemma glob_head: "w \<noteq> [] \<Longrightarrow> hd w \<noteq> CHR ''*'' \<Longrightarrow> glob w t \<Longrightarrow> t \<noteq> [] \<and> (tolower (hd w) = tolower (hd t) \<or> hd w = CHR ''?'')"
  by (cases w; cases t) (auto simp: glob_char)

lemma tolower_as_NUL: "tolower c = tolower NUL \<longleftrightarrow> c = NUL"
proof -
  have "tolower NUL = NUL" by simp
  then show ?thesis by (metis tolower_NUL)
qed

text \<open>C38. The test of a mask against a name decides whether the mask, read as a pattern of the shell without regard to case, matches.\<close>

theorem wildtest_glob:
  assumes "cstr wild" "cstr test"
  shows "wildtest wild test = glob wild test"
  using assms
proof (induction wild test rule: wildtest.induct)
  case (1 wild test)
  let ?w = "dropWhile (\<lambda>c. c = CHR ''*'') wild"
  consider "wild = [] \<and> test = []" | "deref wild = CHR ''*''" | "wild = []" "test \<noteq> []" | "deref wild \<noteq> CHR ''*''" "wild \<noteq> []" by blast
  then show ?case
  proof cases
    case 1
    then show ?thesis by (simp add: wildtest.simps)
  next
    case 2
    show ?thesis
    proof (cases "?w = []")
      case True
      have "wildtest wild test" using 2 True by (subst wildtest.simps) (auto simp: NUL_def)
      then show ?thesis using glob_stars[OF 2, of test] True glob_star_tail by simp
    next
      case False
      have hd: "hd ?w \<noteq> CHR ''*''" using hd_dropWhile[OF False] by simp
      have ne: "\<not> (wild = [] \<and> test = [])" using 2 by (auto simp: NUL_def)
      have ih: "wildtest ?w (drop i test) = glob ?w (drop i test)" if "i < length test" for i
        using "1.IH"(1)[OF ne 2 refl False, of i] that "1.prems" by simp
      have h: "tolower (hd ?w) = tolower (test ! i) \<or> hd ?w = CHR ''?''" if "i < length test" "glob ?w (drop i test)" for i
        using glob_head[OF False hd that(2)] that(1) by (simp add: hd_drop_conv_nth)
      have e: "\<not> glob ?w []" using glob_head[OF False hd, of "[]"] by blast
      have "wildtest wild test = (\<exists>i < length test. glob ?w (drop i test))"
        using 2 False ih h by (subst wildtest.simps) (auto simp: Let_def NUL_def)
      also have "\<dots> = glob (CHR ''*'' # ?w) test" unfolding glob_star using e by (metis drop_all le_eq_less_or_eq)
      finally show ?thesis using glob_stars[OF 2, of test] by simp
    qed
  next
    case 3
    then obtain d u where u: "test = d # u" "d \<noteq> NUL" using "1.prems"(2) by (cases test) auto
    have n: "NUL \<noteq> CHR ''*''" "NUL \<noteq> CHR ''?''" by (simp_all add: NUL_def)
    have "tolower NUL \<noteq> tolower d" using u(2) by (metis tolower_as_NUL)
    then show ?thesis using 3(1) n u(1) by (subst wildtest.simps) simp
  next
    case 4
    obtain c w where w: "wild = c # w" using 4(2) by (cases wild) auto
    then have c: "c \<noteq> CHR ''*''" using 4(1) by simp
    show ?thesis
    proof (cases test)
      case Nil
      then show ?thesis using w c "1.prems" by (subst wildtest.simps) (auto simp: glob_char tolower_as_NUL)
    next
      case (Cons d u)
      show ?thesis
      proof (cases "c = CHR ''?'' \<or> tolower c = tolower d")
        case True
        have "wildtest w u = glob w u" using "1.IH"(2) "1.prems" w Cons c True by auto
        then show ?thesis using w c Cons True by (subst wildtest.simps) (auto simp: glob_char)
      next
        case False
        then show ?thesis using w c Cons by (subst wildtest.simps) (auto simp: glob_char)
      qed
    qed
  qed
qed

theorem wildtest_glob_witness: "wildtest ''h?tp*'' ''HTTPS'' = glob ''h?tp*'' ''HTTPS''"
  by (rule wildtest_glob) (simp_all add: NUL_def)


section \<open>Services\<close>

record service =
  s_name :: string
  s_port :: nat
  s_proto :: string
  s_ratio :: rat

text \<open>The fourth field of a line of \<open>nmap-services\<close>: two numbers around a slash, a slash without them, a number that begins with "0.", or
  something else.\<close>

datatype ratio_text = Fraction int int | Bad_fraction | Decimal_ratio rat | Other_ratio

record service_line =
  l_name :: string
  l_port :: nat
  l_proto :: string
  l_ratio :: "ratio_text option"

text \<open>The table in the order of the lines; \<open>std::map\<close> would sort it by port and protocol, which no result depends on.\<close>

record services =
  service_table :: "service list"
  services_by_ratio :: "service list"
  numtcpports :: nat
  numudpports :: nat
  numsctpports :: nat
  ratio_format :: bool

definition read_ratio :: "ratio_text option \<Rightarrow> bool \<Rightarrow> (rat \<times> bool) option" where
  "read_ratio t fmt =
     (case t of None \<Rightarrow> Some (0, fmt)
      | Some (Fraction n d) \<Rightarrow> if n < 0 \<or> d < 0 \<or> n > d \<or> d = 0 then None else Some (of_int n / of_int d, True)
      | Some Bad_fraction \<Rightarrow> None
      | Some (Decimal_ratio r) \<Rightarrow> Some (r, True)
      | Some Other_ratio \<Rightarrow> Some (0, fmt))"

text \<open>\<open>strncasecmp\<close> of the name of the protocol with a name in lower case.\<close>

definition proto_begins :: "string \<Rightarrow> string \<Rightarrow> bool" where
  "proto_begins proto s \<longleftrightarrow> map tolower (take (length s) proto) = s"

definition nmap_getservbyport :: "services \<Rightarrow> nat \<Rightarrow> string \<Rightarrow> service option" where
  "nmap_getservbyport sv port proto = find (\<lambda>s. s_port s = port \<and> s_proto s = proto) (service_table sv)"

definition add_service_line :: "service_line \<Rightarrow> services \<Rightarrow> services option" where
  "add_service_line l sv = do {
     (r :: rat, fmt) \<leftarrow> read_ratio (l_ratio l) (ratio_format sv);
     let sv = sv\<lparr>ratio_format := fmt\<rparr>;
     if nmap_getservbyport sv (l_port l) (l_proto l) \<noteq> None then Some sv
     else do {
       sv1 \<leftarrow> Some (if proto_begins (l_proto l) ''tcp'' then Some (sv\<lparr>numtcpports := numtcpports sv + 1\<rparr>)
         else if proto_begins (l_proto l) ''udp'' then Some (sv\<lparr>numudpports := numudpports sv + 1\<rparr>)
         else if proto_begins (l_proto l) ''sctp'' then Some (sv\<lparr>numsctpports := numsctpports sv + 1\<rparr>)
         else if proto_begins (l_proto l) ''ddp'' \<or> proto_begins (l_proto l) ''divert'' \<or> proto_begins (l_proto l) ''#'' then Some sv else None);
       (case sv1 of None \<Rightarrow> Some sv
        | Some sv2 \<Rightarrow> let s = \<lparr>s_name = l_name l, s_port = l_port l, s_proto = l_proto l, s_ratio = r\<rparr> in
            Some (sv2\<lparr>service_table := service_table sv2 @ [s], services_by_ratio := services_by_ratio sv2 @ [s]\<rparr>)) } }"

fun add_service_lines :: "service_line list \<Rightarrow> services \<Rightarrow> services option" where
  "add_service_lines [] sv = Some sv"
| "add_service_lines (l # ls) sv = do { sv1 \<leftarrow> add_service_line l sv; add_service_lines ls sv1 }"

definition no_services :: services where
  "no_services = \<lparr>service_table = [], services_by_ratio = [], numtcpports = 0, numudpports = 0, numsctpports = 0, ratio_format = False\<rparr>"

text \<open>\<open>std::list::sort\<close> is stable, and larger ratios come first.\<close>

definition nmap_services_init :: "service_line list \<Rightarrow> services option" where
  "nmap_services_init ls = do {
     sv \<leftarrow> add_service_lines ls no_services;
     Some (sv\<lparr>services_by_ratio := sort_key (\<lambda>s. - s_ratio s) (services_by_ratio sv)\<rparr>) }"

section \<open>Tables of ports\<close>

text \<open>A byte of flags for each port number.\<close>

type_synonym port_table = "nat \<Rightarrow> u8"

abbreviation (input) "SCAN_TCP_PORT \<equiv> 1 :: u8"
abbreviation (input) "SCAN_UDP_PORT \<equiv> 2 :: u8"
abbreviation (input) "SCAN_SCTP_PORT \<equiv> 4 :: u8"
abbreviation (input) "SCAN_PROTOCOLS \<equiv> 8 :: u8"

definition has :: "u8 \<Rightarrow> u8 \<Rightarrow> bool" where
  "has x f \<longleftrightarrow> x AND f \<noteq> 0"

definition mark :: "nat \<Rightarrow> u8 \<Rightarrow> port_table \<Rightarrow> port_table" where
  "mark p f tbl = tbl(p := tbl p OR f)"

definition mark_service :: "string \<Rightarrow> u8 \<Rightarrow> service \<Rightarrow> port_table \<times> nat \<Rightarrow> port_table \<times> nat" where
  "mark_service wild rt s tn =
     (if \<not> wildtest wild (s_name s) then tn
      else if has rt SCAN_TCP_PORT \<and> s_proto s = ''tcp'' then (mark (s_port s) SCAN_TCP_PORT (fst tn), snd tn + 1)
      else if has rt SCAN_UDP_PORT \<and> s_proto s = ''udp'' then (mark (s_port s) SCAN_UDP_PORT (fst tn), snd tn + 1)
      else if has rt SCAN_SCTP_PORT \<and> s_proto s = ''sctp'' then (mark (s_port s) SCAN_SCTP_PORT (fst tn), snd tn + 1)
      else tn)"

definition addportsfromservmask :: "services \<Rightarrow> string \<Rightarrow> port_table \<Rightarrow> u8 \<Rightarrow> port_table \<times> nat" where
  "addportsfromservmask sv wild tbl rt = fold (mark_service wild rt) (service_table sv) (tbl, 0)"

section \<open>Protocols\<close>

text \<open>The hash table with its chains; an entry is the number and the name.\<close>

definition PROTOCOL_TABLE_SIZE :: nat where
  "PROTOCOL_TABLE_SIZE = 256"

type_synonym protocols = "nat \<Rightarrow> (nat \<times> string) list"

definition add_protocol :: "nat \<times> string \<Rightarrow> protocols \<Rightarrow> protocols" where
  "add_protocol e pt =
     (let b = fst e mod PROTOCOL_TABLE_SIZE in
      if \<exists>x \<in> set (pt b). fst x = fst e then pt else pt(b := pt b @ [e]))"

definition nmap_protocols_init :: "(nat \<times> string) list \<Rightarrow> protocols" where
  "nmap_protocols_init ls = fold add_protocol ls (\<lambda>_. [])"

definition nmap_getprotbynum :: "protocols \<Rightarrow> nat \<Rightarrow> (nat \<times> string) option" where
  "nmap_getprotbynum pt n = find (\<lambda>x. fst x = n) (pt (n mod PROTOCOL_TABLE_SIZE))"

text \<open>\<open>ntohs\<close> on a machine that stores the low byte first.\<close>

definition ntohs :: "nat \<Rightarrow> nat" where
  "ntohs n = (n mod 256) * 256 + n div 256 mod 256"

definition addprotocolsfromservmask :: "protocols \<Rightarrow> string \<Rightarrow> port_table \<Rightarrow> port_table \<times> nat" where
  "addprotocolsfromservmask pt wild tbl =
     fold (\<lambda>e (tbl, t). if wildtest wild (snd e) then (mark (ntohs (fst e)) SCAN_PROTOCOLS tbl, t + 1) else (tbl, t))
       (concat (map pt [0..<PROTOCOL_TABLE_SIZE])) (tbl, 0)"

end
