(* ===== verification/Port_Spec.thy ===== *)
theory Port_Spec
  imports Services Scan_Probe
begin

text \<open>
  Port specifications, \<open>scan_lists.cc\<close>: the parser \<open>getpts_aux\<close> of the argument of \<open>-p\<close>, which marks ports in a table, and the
  functions that make port lists of it and exclude ports.  A result \<^const>\<open>None\<close> is a \<open>fatal\<close> error message.  At the end of the text the parser
  looks for a colon one byte behind the terminator; whatever is there, the text is then refused, so this byte is not modelled.
  The warning about duplicate ports is left out.
\<close>

unbundle bit_operations_syntax

section \<open>The parser\<close>

definition skip_spaces :: "string \<Rightarrow> string" where
  "skip_spaces s = dropWhile isspace s"

definition skip_comma :: "string \<Rightarrow> string" where
  "skip_comma s = (if deref s = CHR '','' then tl s else s)"

text \<open>The specifier before a colon.\<close>

definition range_specifier :: "char \<Rightarrow> u8 option" where
  "range_specifier c =
     (if c = CHR ''T'' then Some SCAN_TCP_PORT else if c = CHR ''U'' then Some SCAN_UDP_PORT
      else if c = CHR ''S'' then Some SCAN_SCTP_PORT else if c = CHR ''P'' then Some SCAN_PROTOCOLS else None)"

text \<open>A number, which is the number of a protocol or of a port.\<close>

definition range_number :: "u8 \<Rightarrow> string \<Rightarrow> (nat \<times> string) option" where
  "range_number rt s = (let (v, r, _) = strtol10 s in
     if v < 0 \<or> v > (if has rt SCAN_PROTOCOLS then 255 else 65535) then None else Some (nat v, r))"

definition at_item_end :: "string \<Rightarrow> bool" where
  "at_item_end s \<longleftrightarrow> s = [] \<or> deref s = CHR '','' \<or> deref s = CHR '']''"

text \<open>The start of a range: a hyphen, which stays there, or a number.\<close>

definition range_start :: "u8 \<Rightarrow> string \<Rightarrow> (nat \<times> string) option" where
  "range_start rt s =
     (if deref s = CHR ''-'' then Some (if has rt SCAN_PROTOCOLS then 0 else 1, s)
      else if isdigit (deref s) then map_option (\<lambda>(v, r). (v, skip_spaces r)) (range_number rt s)
      else None)"

definition range_end :: "u8 \<Rightarrow> nat \<Rightarrow> string \<Rightarrow> (nat \<times> string) option" where
  "range_end rt a s =
     (if at_item_end s then Some (a, s)
      else if deref s = CHR ''-'' then do {
        let r = tl s;
        (b, r1) \<leftarrow> (if at_item_end r then Some (if has rt SCAN_PROTOCOLS then 255 else 65535, r)
          else if isdigit (deref r) then range_number rt r else None);
        if b < a then None else Some (b, r1) }
      else None)"

definition parse_port_range :: "u8 \<Rightarrow> string \<Rightarrow> (nat \<times> nat \<times> string) option" where
  "parse_port_range rt s = do { (a, r) \<leftarrow> range_start rt s; (b, r1) \<leftarrow> range_end rt a r; Some (a, b, r1) }"

text \<open>The name of a service.  The buffer holds 127 characters; a length of 127 is refused already.\<close>

definition mask_char :: "char \<Rightarrow> bool" where
  "mask_char c \<longleftrightarrow> \<not> isspace c \<and> c \<noteq> CHR '','' \<and> c \<noteq> CHR '']''"

definition mask_start :: "char \<Rightarrow> bool" where
  "mask_start c \<longleftrightarrow> islower c \<or> c = CHR ''*'' \<or> c = CHR ''?''"

definition parse_mask :: "string \<Rightarrow> (string \<times> string) option" where
  "parse_mask s = (let m = takeWhile mask_char s; r = dropWhile mask_char s in
     if length m \<ge> 127 then None else Some (m, if r \<noteq> [] \<and> deref r \<noteq> CHR '']'' then tl r else r))"

definition add_mask :: "services \<Rightarrow> protocols \<Rightarrow> u8 \<Rightarrow> string \<Rightarrow> port_table \<Rightarrow> port_table option" where
  "add_mask sv pt rt m tbl =
     (let (tbl1, i) = addportsfromservmask sv m tbl rt;
          (tbl2, j) = (if has rt SCAN_PROTOCOLS then addprotocolsfromservmask pt m tbl1 else (tbl1, 0)) in
      if i + j = 0 then None else Some tbl2)"

text \<open>One port of a range.  Inside brackets it counts only for the protocols for which the data files know it.\<close>

definition add_port :: "services \<Rightarrow> protocols \<Rightarrow> bool \<Rightarrow> u8 \<Rightarrow> nat \<Rightarrow> port_table \<Rightarrow> port_table" where
  "add_port sv pt nested rt p tbl =
     (if has (tbl p) rt then tbl
      else if nested then
        mark p ((if has rt SCAN_TCP_PORT \<and> nmap_getservbyport sv p ''tcp'' \<noteq> None then SCAN_TCP_PORT else 0) OR
          (if has rt SCAN_UDP_PORT \<and> nmap_getservbyport sv p ''udp'' \<noteq> None then SCAN_UDP_PORT else 0) OR
          (if has rt SCAN_SCTP_PORT \<and> nmap_getservbyport sv p ''sctp'' \<noteq> None then SCAN_SCTP_PORT else 0) OR
          (if has rt SCAN_PROTOCOLS \<and> nmap_getprotbynum pt p \<noteq> None then SCAN_PROTOCOLS else 0)) tbl
      else mark p rt tbl)"

definition add_range :: "services \<Rightarrow> protocols \<Rightarrow> bool \<Rightarrow> u8 \<Rightarrow> nat \<Rightarrow> nat \<Rightarrow> port_table \<Rightarrow> port_table" where
  "add_range sv pt nested rt a b tbl = fold (add_port sv pt nested rt) [a..<Suc b] tbl"

text \<open>The loop: an item, and then the rest unless the text is at its end.\<close>

function getpts_aux :: "services \<Rightarrow> protocols \<Rightarrow> bool \<Rightarrow> bool \<Rightarrow> u8 \<Rightarrow> string \<Rightarrow> port_table \<Rightarrow> port_table option" where
  "getpts_aux sv pt nested change rt s0 tbl =
     (let s = skip_spaces s0 in
      if s = [] then None
      else if change \<and> deref (tl s) = CHR '':'' then
        (case range_specifier (hd s) of None \<Rightarrow> None
         | Some rt1 \<Rightarrow> let r = drop 2 s in if r = [] then Some tbl else getpts_aux sv pt nested change rt1 r tbl)
      else if hd s = CHR ''['' then
        (if nested then None
         else case getpts_aux sv pt True True rt (tl s) tbl of None \<Rightarrow> None
           | Some tbl1 \<Rightarrow>
               let r = dropWhile (\<lambda>c. c \<noteq> CHR '']'') (tl s); r1 = skip_comma (tl r) in
               if r1 = [] then Some tbl1 else getpts_aux sv pt nested change rt r1 tbl1)
      else if hd s = CHR '']'' then (if nested then Some tbl else None)
      else if mask_start (hd s) then
        (case parse_mask s of None \<Rightarrow> None
         | Some (m, r) \<Rightarrow> (case add_mask sv pt rt m tbl of None \<Rightarrow> None
           | Some tbl1 \<Rightarrow> if r = [] then Some tbl1 else getpts_aux sv pt nested change rt r tbl1))
      else
        (case parse_port_range rt s of None \<Rightarrow> None
         | Some (a, b, r0) \<Rightarrow>
             let tbl1 = add_range sv pt nested rt a b tbl; r = skip_spaces r0 in
             if deref r = CHR '']'' then (if nested then Some tbl1 else None)
             else if r \<noteq> [] \<and> deref r \<noteq> CHR '','' then None
             else let r1 = skip_comma r in if r1 = [] then Some tbl1 else getpts_aux sv pt nested change rt r1 tbl1))"
  by pat_completeness auto

lemma skip_spaces_le: "length (skip_spaces s) \<le> length s"
  by (simp add: skip_spaces_def length_dropWhile_le)

lemma skip_comma_le: "length (skip_comma s) \<le> length s"
  by (simp add: skip_comma_def)

lemma mask_start_char: "mask_start c \<Longrightarrow> mask_char c"
  by (auto simp: mask_start_def mask_char_def islower_def isspace_def ordc_def)

lemma parse_mask_progress: "parse_mask s = Some (m, r) \<Longrightarrow> s \<noteq> [] \<Longrightarrow> mask_start (hd s) \<Longrightarrow> length r < length s"
proof -
  assume p: "parse_mask s = Some (m, r)" and s: "s \<noteq> []" "mask_start (hd s)"
  have "length (dropWhile mask_char s) < length s"
    using s mask_start_char by (cases s) (auto simp: le_imp_less_Suc length_dropWhile_le)
  then show ?thesis using p by (auto simp: parse_mask_def Let_def split: if_splits)
qed

lemma range_number_progress: "range_number rt s = Some (v, r) \<Longrightarrow> isdigit (deref s) \<Longrightarrow> length r < length s"
  using length_dropWhile_digit[of s] by (auto simp: range_number_def strtol10_def Let_def split: if_splits)

lemma range_end_le:
  assumes "range_end rt a s = Some (b, r)"
  shows "length r \<le> length s" "deref s = CHR ''-'' \<Longrightarrow> length r < length s"
proof -
  have p: "length x < length (tl s)" if "range_number rt (tl s) = Some (y, x)" "isdigit (deref (tl s))" for x y
    using range_number_progress[OF that] .
  have e: "deref s = CHR ''-'' \<Longrightarrow> \<not> at_item_end s \<and> length (tl s) < length s" by (cases s) (auto simp: at_item_end_def NUL_def)
  show "length r \<le> length s"
    using assms e by (auto simp: range_end_def Let_def dest!: p split: if_splits bind_splits)
  show "deref s = CHR ''-'' \<Longrightarrow> length r < length s"
    using assms e by (auto simp: range_end_def Let_def dest!: p split: if_splits bind_splits)
qed

lemma parse_port_range_progress:
  assumes "parse_port_range rt s = Some (a, b, r)"
  shows "length r < length s"
proof -
  obtain q where q: "range_start rt s = Some (a, q)" "range_end rt a q = Some (b, r)" using assms by (auto simp: parse_port_range_def split: bind_splits)
  show ?thesis
  proof (cases "deref s = CHR ''-''")
    case True
    then show ?thesis using q range_end_le(2)[of rt a s b r] by (auto simp: range_start_def)
  next
    case False
    then obtain x where x: "isdigit (deref s)" "range_number rt s = Some (a, x)" "q = skip_spaces x" using q(1) by (auto simp: range_start_def split: if_splits)
    then show ?thesis using range_number_progress[OF x(2,1)] range_end_le(1)[OF q(2)] skip_spaces_le[of x] by simp
  qed
qed

termination getpts_aux
proof (relation "measure (\<lambda>(sv, pt, nested, change, rt, s, tbl). length s)", goal_cases)
  case 1
  show ?case by simp
next
  case (2 sv pt nested change rt s0 tbl s rt1 r)
  have "length r < length s" using 2 by (cases s) auto
  then show ?case using skip_spaces_le[of s0] 2(1) by simp
next
  case (3 sv pt nested change rt s0 tbl s)
  then have "length (tl s) < length s" by (cases s) auto
  then show ?case using skip_spaces_le[of s0] 3(1) by simp
next
  case (4 sv pt nested change rt s0 tbl s tbl1 r r1)
  have "length r \<le> length s - 1" using 4(7) length_dropWhile_le[of "\<lambda>c. c \<noteq> CHR '']''" "tl s"] by simp
  moreover have "0 < length s" using 4(2) by simp
  moreover have "length r1 \<le> length r" "length s \<le> length s0"
    using skip_comma_le[of "tl r"] 4(1,8) skip_spaces_le[of s0] by (auto intro: order_trans[of _ "length r - 1"])
  ultimately have "length r1 < length s0" by linarith
  then show ?case by simp
next
  case (5 sv pt nested change rt s0 tbl s x m r tbl1)
  then show ?case using skip_spaces_le[of s0] parse_mask_progress[of s m r] by simp
next
  case (6 sv pt nested change rt s0 tbl s x a y b r0 tbl1 r r1)
  then show ?case using skip_spaces_le[of s0] parse_port_range_progress[of rt s a b r0] skip_spaces_le[of r0] skip_comma_le[of r] by simp
qed

declare getpts_aux.simps [simp del]

end
