(* ===== verification/Port_Grammar.thy ===== *)
theory Port_Grammar
  imports Port_Spec
begin

text \<open>
  The language of port specifications and its meaning, against which the parser is checked: items are names and ranges with open ends, an
  item may have a specifier of its protocol, and brackets may stand around a list of items.
\<close>

unbundle bit_operations_syntax

section \<open>Syntax\<close>

datatype port_item = Single nat | Upto nat | From nat | Between nat nat | Whole | Name string

type_synonym port_entry = "char option \<times> port_item"

datatype port_elem = Plain port_entry | Group "port_entry list"

fun show_item :: "port_item \<Rightarrow> string" where
  "show_item (Single n) = dec n"
| "show_item (Upto n) = CHR ''-'' # dec n"
| "show_item (From n) = dec n @ ''-''"
| "show_item (Between a b) = dec a @ ''-'' @ dec b"
| "show_item Whole = ''-''"
| "show_item (Name m) = m"

definition show_entry :: "port_entry \<Rightarrow> string" where
  "show_entry e = (case fst e of None \<Rightarrow> [] | Some c \<Rightarrow> [c, CHR '':'']) @ show_item (snd e)"

fun commas :: "string list \<Rightarrow> string" where
  "commas [] = []"
| "commas [s] = s"
| "commas (s # t # ss) = s @ CHR '','' # commas (t # ss)"

fun show_elem :: "port_elem \<Rightarrow> string" where
  "show_elem (Plain e) = show_entry e"
| "show_elem (Group es) = CHR ''['' # commas (map show_entry es) @ '']''"

definition show_ports :: "port_elem list \<Rightarrow> string" where
  "show_ports es = commas (map show_elem es)"

text \<open>Names begin with a small letter or a wildcard and end before a space, a comma or a bracket.\<close>

definition entry_ok :: "port_entry \<Rightarrow> bool" where
  "entry_ok e \<longleftrightarrow> (\<forall>c. fst e = Some c \<longrightarrow> range_specifier c \<noteq> None) \<and>
     (\<forall>m. snd e = Name m \<longrightarrow> m \<noteq> [] \<and> mask_start (hd m) \<and> (\<forall>c \<in> set m. mask_char c \<and> c \<noteq> CHR '':''))"

fun elem_ok :: "port_elem \<Rightarrow> bool" where
  "elem_ok (Plain e) \<longleftrightarrow> entry_ok e"
| "elem_ok (Group es) \<longleftrightarrow> es \<noteq> [] \<and> (\<forall>e \<in> set es. entry_ok e)"

section \<open>Meaning\<close>

definition last_number :: "u8 \<Rightarrow> nat" where
  "last_number rt = (if has rt SCAN_PROTOCOLS then 255 else 65535)"

definition first_number :: "u8 \<Rightarrow> nat" where
  "first_number rt = (if has rt SCAN_PROTOCOLS then 0 else 1)"

fun item_range :: "u8 \<Rightarrow> port_item \<Rightarrow> nat \<times> nat" where
  "item_range rt (Single n) = (n, n)"
| "item_range rt (Upto n) = (first_number rt, n)"
| "item_range rt (From n) = (n, last_number rt)"
| "item_range rt (Between a b) = (a, b)"
| "item_range rt Whole = (first_number rt, last_number rt)"
| "item_range rt (Name m) = (1, 0)"

definition range_valid :: "u8 \<Rightarrow> nat \<times> nat \<Rightarrow> bool" where
  "range_valid rt ab \<longleftrightarrow> fst ab \<le> snd ab \<and> snd ab \<le> last_number rt"

definition run_item :: "services \<Rightarrow> protocols \<Rightarrow> bool \<Rightarrow> u8 \<Rightarrow> port_item \<Rightarrow> port_table \<Rightarrow> port_table option" where
  "run_item sv pt nested rt it tbl = (case it of
       Name m \<Rightarrow> if length m \<ge> 127 then None else add_mask sv pt rt m tbl
     | _ \<Rightarrow> if range_valid rt (item_range rt it) then Some (add_range sv pt nested rt (fst (item_range rt it)) (snd (item_range rt it)) tbl) else None)"

definition specified :: "char option \<Rightarrow> u8 \<Rightarrow> u8" where
  "specified d rt = (case d of None \<Rightarrow> rt | Some c \<Rightarrow> (case range_specifier c of None \<Rightarrow> rt | Some r \<Rightarrow> r))"

text \<open>A specifier holds for the items after it as well, up to the closing bracket.\<close>

fun run_entries :: "services \<Rightarrow> protocols \<Rightarrow> bool \<Rightarrow> u8 \<Rightarrow> port_entry list \<Rightarrow> port_table \<Rightarrow> port_table option" where
  "run_entries sv pt nested rt [] tbl = Some tbl"
| "run_entries sv pt nested rt (e # es) tbl =
     (case run_item sv pt nested (specified (fst e) rt) (snd e) tbl of None \<Rightarrow> None
      | Some tbl1 \<Rightarrow> run_entries sv pt nested (specified (fst e) rt) es tbl1)"

fun run_ports :: "services \<Rightarrow> protocols \<Rightarrow> u8 \<Rightarrow> port_elem list \<Rightarrow> port_table \<Rightarrow> port_table option" where
  "run_ports sv pt rt [] tbl = Some tbl"
| "run_ports sv pt rt (Plain e # es) tbl =
     (case run_item sv pt False (specified (fst e) rt) (snd e) tbl of None \<Rightarrow> None
      | Some tbl1 \<Rightarrow> run_ports sv pt (specified (fst e) rt) es tbl1)"
| "run_ports sv pt rt (Group g # es) tbl =
     (case run_entries sv pt True rt g tbl of None \<Rightarrow> None | Some tbl1 \<Rightarrow> run_ports sv pt rt es tbl1)"

section \<open>Characters\<close>

lemma digit_not: "isdigit c \<Longrightarrow> \<not> isspace c \<and> c \<noteq> CHR '':'' \<and> c \<noteq> CHR ''['' \<and> c \<noteq> CHR '']'' \<and> c \<noteq> CHR ''-'' \<and> c \<noteq> CHR '','' \<and> \<not> mask_start c"
  by (auto simp: ctype_simps mask_start_def)

lemma hyphen_not: "\<not> isspace CHR ''-'' \<and> \<not> mask_start CHR ''-'' \<and> \<not> isdigit CHR ''-''"
  by (auto simp: ctype_simps mask_start_def)

lemma at_item_end_not: "at_item_end s \<Longrightarrow> \<not> isdigit (deref s) \<and> \<not> isspace (deref s) \<and> deref s \<noteq> CHR ''-'' \<and> skip_spaces s = s"
  by (cases s) (auto simp: at_item_end_def skip_spaces_def ctype_simps NUL_def)

lemma hd_dec_digit: "isdigit (hd (dec n))"
  using dec_digits[of "hd (dec n)" n] by simp

lemma skip_spaces_id: "\<not> isspace (deref s) \<Longrightarrow> skip_spaces s = s"
  by (cases s) (auto simp: skip_spaces_def)

section \<open>Ranges\<close>

lemma range_number_dec:
  assumes "\<not> isdigit (deref r)"
  shows "range_number rt (dec n @ r) = (if n \<le> last_number rt then Some (n, r) else None)"
proof -
  have "strtol10 (dec n @ r) = (if int n > LONG_MAX then (LONG_MAX, r, True) else (int n, r, False))"
    using assms by (simp add: strtol10_def dec_append Let_def)
  then show ?thesis by (auto simp: range_number_def last_number_def LONG_MAX_def)
qed

lemma range_start_dec:
  assumes "\<not> isdigit (deref r)" "\<not> isspace (deref r)"
  shows "range_start rt (dec n @ r) = (if n \<le> last_number rt then Some (n, r) else None)"
proof -
  have "deref (dec n @ r) \<noteq> CHR ''-''" using isdigit_hd_dec[of n r] digit_not by blast
  then show ?thesis using isdigit_hd_dec[of n r] assms by (simp add: range_start_def range_number_dec skip_spaces_id)
qed

lemma range_end_dec:
  assumes "at_item_end r"
  shows "range_end rt a (CHR ''-'' # dec n @ r) = (if a \<le> n \<and> n \<le> last_number rt then Some (n, r) else None)"
proof -
  have d: "isdigit (deref (dec n @ r))" by (rule isdigit_hd_dec)
  then have "\<not> at_item_end (dec n @ r)" using at_item_end_not by blast
  then show ?thesis using d at_item_end_not[OF assms] by (simp add: range_end_def at_item_end_def range_number_dec)
qed

lemma range_end_open:
  assumes "at_item_end r"
  shows "range_end rt a (CHR ''-'' # r) = (if a \<le> last_number rt then Some (last_number rt, r) else None)"
  using assms by (simp add: range_end_def at_item_end_def last_number_def)

lemma range_end_none: "at_item_end r \<Longrightarrow> range_end rt a r = Some (a, r)"
  by (simp add: range_end_def)

lemma first_le_last: "first_number rt \<le> last_number rt"
  by (simp add: first_number_def last_number_def)

lemma range_start_hyphen: "range_start rt (CHR ''-'' # r) = Some (first_number rt, CHR ''-'' # r)"
  by (simp add: range_start_def first_number_def)

lemma parse_port_range_item:
  assumes "at_item_end r" "\<forall>m. it \<noteq> Name m"
  shows "parse_port_range rt (show_item it @ r) =
    (if range_valid rt (item_range rt it) then Some (fst (item_range rt it), snd (item_range rt it), r) else None)"
proof -
  note e = at_item_end_not[OF assms(1)]
  have h: "\<not> isdigit CHR ''-''" "\<not> isspace CHR ''-''" using hyphen_not by simp_all
  show ?thesis
    using assms e h first_le_last[of rt]
    by (cases it) (auto simp: parse_port_range_def range_valid_def range_start_dec range_start_hyphen range_end_dec range_end_open range_end_none)
qed

section \<open>One entry\<close>

lemma show_item_head:
  assumes "\<forall>m. it \<noteq> Name m" "at_item_end r"
  shows "show_item it @ r \<noteq> []" "\<not> isspace (hd (show_item it @ r))" "\<not> mask_start (hd (show_item it @ r))"
    "hd (show_item it @ r) \<notin> {CHR ''['', CHR '']''}" "deref (tl (show_item it @ r)) \<noteq> CHR '':''"
proof -
  have d: "isdigit (hd (dec n))" for n by (rule hd_dec_digit)
  have t: "deref (tl (dec n @ q)) \<noteq> CHR '':''" if "deref q \<noteq> CHR '':''" for n q
  proof (cases "tl (dec n)")
    case Nil
    then show ?thesis using that by (cases "dec n") auto
  next
    case (Cons c cs)
    then have "c \<in> set (dec n)" using list.set_sel(2)[of "dec n" c] by simp
    then have "c \<noteq> CHR '':''" using dec_digits digit_not by blast
    then show ?thesis using Cons by simp
  qed
  have u: "deref (dec n @ q) \<noteq> CHR '':''" for n q using isdigit_hd_dec[of n q] digit_not by blast
  have e: "deref r \<noteq> CHR '':''" using assms(2) by (cases r) (auto simp: at_item_end_def NUL_def)
  show "show_item it @ r \<noteq> []" using assms(1) by (cases it) auto
  show "\<not> isspace (hd (show_item it @ r))" using assms(1) d digit_not hyphen_not by (cases it) auto
  show "\<not> mask_start (hd (show_item it @ r))" using assms(1) d digit_not hyphen_not by (cases it) auto
  show "hd (show_item it @ r) \<notin> {CHR ''['', CHR '']''}" using assms(1) d digit_not by (cases it) force+
  show "deref (tl (show_item it @ r)) \<noteq> CHR '':''" using assms(1) t u e by (cases it) auto
qed

text \<open>What may follow an item.\<close>

definition rest_ok :: "bool \<Rightarrow> string \<Rightarrow> bool" where
  "rest_ok nested r \<longleftrightarrow> r = [] \<or> (\<exists>q. r = CHR '','' # q \<and> q \<noteq> []) \<or> (nested \<and> (\<exists>q. r = CHR '']'' # q \<and> deref q \<noteq> CHR '':''))"

definition parse_rest :: "services \<Rightarrow> protocols \<Rightarrow> bool \<Rightarrow> bool \<Rightarrow> u8 \<Rightarrow> string \<Rightarrow> port_table \<Rightarrow> port_table option" where
  "parse_rest sv pt nested change rt r tbl = (if deref r = CHR '','' then getpts_aux sv pt nested change rt (tl r) tbl else Some tbl)"

lemma skip_Nil [simp]: "skip_spaces [] = []" "skip_comma [] = []"
  by (simp_all add: skip_spaces_def skip_comma_def)

lemma rest_at_end: "rest_ok nested r \<Longrightarrow> at_item_end r"
  by (auto simp: rest_ok_def at_item_end_def)

lemma aux_range:
  assumes "s \<noteq> []" "\<not> isspace (hd s)" "\<not> mask_start (hd s)" "hd s \<notin> {CHR ''['', CHR '']''}" "deref (tl s) \<noteq> CHR '':''"
    and "parse_port_range rt s = Some (a, b, r)" "rest_ok nested r"
  shows "getpts_aux sv pt nested change rt s tbl = parse_rest sv pt nested change rt r (add_range sv pt nested rt a b tbl)"
proof -
  have sk: "skip_spaces s = s" using assms(1,2) by (cases s) (auto simp: skip_spaces_def)
  have skr: "skip_spaces r = r" using at_item_end_not[OF rest_at_end[OF assms(7)]] by simp
  let ?tbl = "add_range sv pt nested rt a b tbl"
  have "getpts_aux sv pt nested change rt s tbl =
    (if deref r = CHR '']'' then (if nested then Some ?tbl else None)
     else if r \<noteq> [] \<and> deref r \<noteq> CHR '','' then None
     else if skip_comma r = [] then Some ?tbl else getpts_aux sv pt nested change rt (skip_comma r) ?tbl)"
    using assms(1,3-6) unfolding getpts_aux.simps[of sv pt nested change rt s tbl] by (simp add: Let_def sk skr)
  then show ?thesis using assms(7) by (auto simp: rest_ok_def parse_rest_def skip_comma_def NUL_def)
qed

lemma aux_range_None:
  assumes "s \<noteq> []" "\<not> isspace (hd s)" "\<not> mask_start (hd s)" "hd s \<notin> {CHR ''['', CHR '']''}" "deref (tl s) \<noteq> CHR '':''"
    and "parse_port_range rt s = None"
  shows "getpts_aux sv pt nested change rt s tbl = None"
proof -
  have sk: "skip_spaces s = s" using assms(1,2) by (cases s) (auto simp: skip_spaces_def)
  show ?thesis using assms unfolding getpts_aux.simps[of sv pt nested change rt s tbl] by (simp add: sk Let_def)
qed

lemma aux_bracket:
  assumes "nested" "deref q \<noteq> CHR '':''"
  shows "getpts_aux sv pt nested change rt (CHR '']'' # q) tbl = Some tbl"
proof -
  have "skip_spaces (CHR '']'' # q) = CHR '']'' # q" by (simp add: skip_spaces_def isspace_def ordc_def)
  then show ?thesis using assms unfolding getpts_aux.simps[of sv pt nested change rt "CHR '']'' # q" tbl] by (simp add: Let_def)
qed

lemma mask_head:
  assumes "mask_start c"
  shows "\<not> isspace c" "c \<noteq> CHR ''[''" "c \<noteq> CHR '']''"
  using assms by (auto simp: mask_start_def ctype_simps)

lemma aux_name:
  assumes "m \<noteq> []" "mask_start (hd m)" "\<forall>c \<in> set m. mask_char c \<and> c \<noteq> CHR '':''" "rest_ok nested r"
  shows "getpts_aux sv pt nested change rt (m @ r) tbl =
    (case run_item sv pt nested rt (Name m) tbl of None \<Rightarrow> None | Some tbl1 \<Rightarrow> parse_rest sv pt nested change rt r tbl1)"
proof -
  note h = mask_head[OF assms(2)]
  have sk: "skip_spaces (m @ r) = m @ r" using assms(1) h by (cases m) (auto simp: skip_spaces_def)
  have m: "\<forall>c \<in> set m. mask_char c" using assms(3) by simp
  have q: "takeWhile mask_char r = []" "dropWhile mask_char r = r" using assms(4) by (cases r; force simp: rest_ok_def mask_char_def)+
  have t: "takeWhile mask_char (m @ r) = m" "dropWhile mask_char (m @ r) = r"
    using m q by (simp_all add: takeWhile_append2 dropWhile_append2)
  have "deref (tl (m @ r)) \<noteq> CHR '':''"
  proof (cases "tl m")
    case Nil
    then have "tl (m @ r) = r" using assms(1) by (cases m) auto
    then show ?thesis using assms(4) by (auto simp: rest_ok_def NUL_def)
  next
    case (Cons c cs)
    then have "c \<in> set m" using list.set_sel(2)[OF assms(1), of c] by simp
    then show ?thesis using assms(1,3) Cons by simp
  qed
  moreover have "hd (m @ r) = hd m" using assms(1) by simp
  moreover have "parse_mask (m @ r) = (if length m \<ge> 127 then None else Some (m, if r \<noteq> [] \<and> deref r \<noteq> CHR '']'' then tl r else r))"
    using t by (simp add: parse_mask_def)
  ultimately have u: "getpts_aux sv pt nested change rt (m @ r) tbl =
    (if length m \<ge> 127 then None else case add_mask sv pt rt m tbl of None \<Rightarrow> None
      | Some tbl1 \<Rightarrow> let q = (if r \<noteq> [] \<and> deref r \<noteq> CHR '']'' then tl r else r) in if q = [] then Some tbl1 else getpts_aux sv pt nested change rt q tbl1)"
    using assms(1,2) h unfolding getpts_aux.simps[of sv pt nested change rt "m @ r" tbl]
    by (cases "add_mask sv pt rt m tbl") (simp_all add: sk Let_def)
  have k: "(let q = (if r \<noteq> [] \<and> deref r \<noteq> CHR '']'' then tl r else r) in if q = [] then Some tbl1 else getpts_aux sv pt nested change rt q tbl1) =
      parse_rest sv pt nested change rt r tbl1" for tbl1
    using assms(4) aux_bracket by (auto simp: rest_ok_def parse_rest_def NUL_def)
  show ?thesis unfolding u k by (simp add: run_item_def)
qed

lemma aux_item:
  assumes "entry_ok (None, it)" "rest_ok nested r"
  shows "getpts_aux sv pt nested change rt (show_item it @ r) tbl =
    (case run_item sv pt nested rt it tbl of None \<Rightarrow> None | Some tbl1 \<Rightarrow> parse_rest sv pt nested change rt r tbl1)"
proof (cases "\<exists>m. it = Name m")
  case True
  then show ?thesis using aux_name[OF _ _ _ assms(2)] assms(1) by (auto simp: entry_ok_def)
next
  case False
  then have n: "\<forall>m. it \<noteq> Name m" by simp
  note e = rest_at_end[OF assms(2)]
  note h = show_item_head[OF n e] and p = parse_port_range_item[OF e n]
  have r: "run_item sv pt nested rt it tbl = (if range_valid rt (item_range rt it)
      then Some (add_range sv pt nested rt (fst (item_range rt it)) (snd (item_range rt it)) tbl) else None)"
    using n by (cases it) (simp_all add: run_item_def)
  show ?thesis
    using aux_range[OF h _ assms(2)] aux_range_None[OF h] p r by (cases "range_valid rt (item_range rt it)") auto
qed

lemma specifier_not: "range_specifier c = Some x \<Longrightarrow> \<not> isspace c \<and> c \<noteq> CHR '']'' \<and> c \<noteq> CHR '':''"
  by (auto simp: range_specifier_def ctype_simps split: if_splits)

lemma show_item_not_Nil: "entry_ok (None, it) \<Longrightarrow> show_item it \<noteq> []"
  by (cases it) (auto simp: entry_ok_def)

lemma aux_entry:
  assumes "entry_ok e" "rest_ok nested r"
  shows "getpts_aux sv pt nested True rt (show_entry e @ r) tbl =
    (case run_item sv pt nested (specified (fst e) rt) (snd e) tbl of None \<Rightarrow> None
     | Some tbl1 \<Rightarrow> parse_rest sv pt nested True (specified (fst e) rt) r tbl1)"
proof -
  have i: "entry_ok (None, snd e)" using assms(1) by (simp add: entry_ok_def)
  show ?thesis
  proof (cases "fst e")
    case None
    then have "specified (fst e) rt = rt" "show_entry e = show_item (snd e)" by (simp_all add: show_entry_def specified_def)
    then show ?thesis using aux_item[OF i assms(2)] by (simp only:)
  next
    case (Some c)
    then obtain x where x: "range_specifier c = Some x" using assms(1) by (auto simp: entry_ok_def)
    have "skip_spaces (c # CHR '':'' # show_item (snd e) @ r) = c # CHR '':'' # show_item (snd e) @ r"
      using specifier_not[OF x] by (simp add: skip_spaces_def)
    then have "getpts_aux sv pt nested True rt (c # CHR '':'' # show_item (snd e) @ r) tbl = getpts_aux sv pt nested True x (show_item (snd e) @ r) tbl"
      using x show_item_not_Nil[OF i] unfolding getpts_aux.simps[of sv pt nested True rt "c # CHR '':'' # show_item (snd e) @ r" tbl] by (simp add: Let_def)
    moreover have "specified (fst e) rt = x" "show_entry e = c # CHR '':'' # show_item (snd e)" using x Some by (simp_all add: show_entry_def specified_def)
    ultimately show ?thesis using aux_item[OF i assms(2)] by (simp only: append_Cons)
  qed
qed

section \<open>Lists of entries\<close>

lemma aux_entries:
  assumes "es \<noteq> []" "\<forall>e \<in> set es. entry_ok e" "r = [] \<or> (\<exists>q. r = CHR '']'' # q \<and> deref q \<noteq> CHR '':'')"
  shows "getpts_aux sv pt True True rt (commas (map show_entry es) @ r) tbl = run_entries sv pt True rt es tbl"
  using assms
proof (induction es arbitrary: rt tbl)
  case (Cons e es)
  show ?case
  proof (cases es)
    case Nil
    have "rest_ok True r" using Cons.prems(3) by (auto simp: rest_ok_def)
    then show ?thesis using Nil aux_entry[of e True r sv pt rt tbl] Cons.prems(2,3) by (auto simp: parse_rest_def NUL_def split: option.splits)
  next
    case (Cons f fs)
    let ?q = "commas (map show_entry es) @ r"
    have i: "entry_ok (None, snd f)" using Cons.prems(2) Cons by (simp add: entry_ok_def)
    have "show_entry f \<noteq> []" using show_item_not_Nil[OF i] by (simp add: show_entry_def)
    then have "?q \<noteq> []" using Cons by (cases fs) auto
    then have "rest_ok True (CHR '','' # ?q)" by (simp add: rest_ok_def)
    from aux_entry[OF _ this, of e sv pt rt tbl] Cons Cons.IH Cons.prems(2,3) show ?thesis
      by (auto simp: parse_rest_def split: option.splits)
  qed
qed simp

lemma show_entry_chars:
  assumes "entry_ok e"
  shows "CHR '']'' \<notin> set (show_entry e)" "show_entry e \<noteq> []" "hd (show_entry e) \<noteq> CHR '':''"
proof -
  have i: "entry_ok (None, snd e)" using assms by (simp add: entry_ok_def)
  have d: "CHR '']'' \<notin> set (dec n)" "CHR '':'' \<notin> set (dec n)" for n using dec_digits[of _ n] digit_not by blast+
  have m: "CHR '']'' \<notin> set (show_item (snd e)) \<and> CHR '':'' \<notin> set (show_item (snd e))"
    using i d by (cases "snd e") (auto simp: entry_ok_def mask_char_def)
  have s: "c \<noteq> CHR '']'' \<and> c \<noteq> CHR '':''" if "fst e = Some c" for c
    using assms that specifier_not by (auto simp: entry_ok_def)
  show "CHR '']'' \<notin> set (show_entry e)" using m s by (cases "fst e") (auto simp: show_entry_def)
  show "show_entry e \<noteq> []" using show_item_not_Nil[OF i] by (simp add: show_entry_def)
  show "hd (show_entry e) \<noteq> CHR '':''"
    using m s show_item_not_Nil[OF i] by (cases "fst e") (auto simp: show_entry_def dest: hd_in_set)
qed

lemma commas_chars: "c \<in> set (commas ss) \<Longrightarrow> c = CHR '','' \<or> (\<exists>s \<in> set ss. c \<in> set s)"
  by (induction ss rule: commas.induct) auto

lemma commas_hd: "ss \<noteq> [] \<Longrightarrow> hd ss \<noteq> [] \<Longrightarrow> commas ss \<noteq> [] \<and> hd (commas ss) = hd (hd ss)"
  by (induction ss rule: commas.induct) auto

lemma aux_group:
  assumes "es \<noteq> []" "\<forall>e \<in> set es. entry_ok e" "rest_ok False r"
  shows "getpts_aux sv pt False True rt (show_elem (Group es) @ r) tbl =
    (case run_entries sv pt True rt es tbl of None \<Rightarrow> None | Some tbl1 \<Rightarrow> parse_rest sv pt False True rt r tbl1)"
proof -
  let ?i = "commas (map show_entry es)" let ?s = "CHR ''['' # ?i @ CHR '']'' # r"
  have h: "?i \<noteq> []" "hd ?i \<noteq> CHR '':''"
    using commas_hd[of "map show_entry es"] show_entry_chars[of "hd es"] assms(1,2) by (simp_all add: hd_map)
  have n: "CHR '']'' \<notin> set ?i" using commas_chars[of _ "map show_entry es"] show_entry_chars(1) assms(2) by fastforce
  have d: "dropWhile (\<lambda>c. c \<noteq> CHR '']'') (?i @ CHR '']'' # r) = CHR '']'' # r" using n by (subst dropWhile_append2) auto
  have q: "deref r \<noteq> CHR '':''" using assms(3) by (auto simp: rest_ok_def NUL_def)
  have g: "getpts_aux sv pt True True rt (?i @ CHR '']'' # r) tbl = run_entries sv pt True rt es tbl"
    using aux_entries[OF assms(1,2)] q by blast
  have sk: "skip_spaces ?s = ?s" by (simp add: skip_spaces_def isspace_def ordc_def)
  have c: "deref (?i @ CHR '']'' # r) \<noteq> CHR '':''" using h by (cases ?i) auto
  have u: "getpts_aux sv pt False True rt ?s tbl = (case run_entries sv pt True rt es tbl of None \<Rightarrow> None
      | Some tbl1 \<Rightarrow> if skip_comma r = [] then Some tbl1 else getpts_aux sv pt False True rt (skip_comma r) tbl1)"
    using c unfolding getpts_aux.simps[of sv pt False True rt ?s tbl]
    by (cases "run_entries sv pt True rt es tbl") (simp_all add: sk g d Let_def)
  have k: "(if skip_comma r = [] then Some tbl1 else getpts_aux sv pt False True rt (skip_comma r) tbl1) = parse_rest sv pt False True rt r tbl1" for tbl1
    using assms(3) by (auto simp: rest_ok_def parse_rest_def skip_comma_def NUL_def)
  show ?thesis using u unfolding k by simp
qed

lemma show_elem_not_Nil: "elem_ok x \<Longrightarrow> show_elem x \<noteq> []"
  by (cases x) (auto simp: show_entry_chars(2))

lemma getpts_aux_run:
  assumes "es \<noteq> []" "\<forall>x \<in> set es. elem_ok x"
  shows "getpts_aux sv pt False True rt (show_ports es) tbl = run_ports sv pt rt es tbl"
  using assms unfolding show_ports_def
proof (induction es arbitrary: rt tbl)
  case (Cons x es)
  let ?r = "if es = [] then [] else CHR '','' # commas (map show_elem es)"
  have s: "commas (map show_elem (x # es)) = show_elem x @ ?r" by (cases es) auto
  have "es \<noteq> [] \<Longrightarrow> commas (map show_elem es) \<noteq> []"
    using commas_hd[of "map show_elem es"] show_elem_not_Nil[of "hd es"] Cons.prems(2) by (simp add: hd_map)
  then have r: "rest_ok False ?r" by (auto simp: rest_ok_def)
  have p: "parse_rest sv pt False True rt1 ?r tbl1 = run_ports sv pt rt1 es tbl1" for rt1 tbl1
    using Cons.IH Cons.prems(2) by (auto simp: parse_rest_def NUL_def)
  show ?case
  proof (cases x)
    case (Plain e)
    then show ?thesis using aux_entry[OF _ r, of e sv pt rt tbl] Cons.prems(2) s p by (auto split: option.splits)
  next
    case (Group g)
    then show ?thesis using aux_group[OF _ _ r, of g sv pt rt tbl] Cons.prems(2) s p by (auto split: option.splits)
  qed
qed simp

end
