(* ===== verification/Port_Lists.thy ===== *)
theory Port_Lists
  imports Port_Grammar "HOL-Library.Multiset"
begin

text \<open>
  The lists of ports of a scan: \<open>getpts\<close>, \<open>getpts_simple\<close> and \<open>removepts\<close> of \<open>scan_lists.cc\<close>, the most common ports of \<open>gettoppts\<close> in
  \<open>services.cc\<close>, the order in which ports are scanned (\<open>shortfry\<close> of \<open>utils.cc\<close>, then \<open>random_port_cheat\<close>), and the part of
  \<open>nmap_main\<close> that puts these together before a scan.
\<close>

unbundle bit_operations_syntax

section \<open>Options\<close>

record port_opts =
  TCPScan :: bool
  UDPScan :: bool
  SCTPScan :: bool
  ipprotscan :: bool
  noportscan :: bool
  fastscan :: bool
  randomize_ports :: bool
  topportlevel :: rat
  portlist :: "string option"
  exclude_portlist :: "string option"

definition flag :: "bool \<Rightarrow> u8 \<Rightarrow> u8" where
  "flag b f = (if b then f else 0)"

definition default_range_type :: "port_opts \<Rightarrow> u8" where
  "default_range_type po =
     (let ex = noportscan po \<and> exclude_portlist po \<noteq> None in
      flag (TCPScan po \<or> ex) SCAN_TCP_PORT OR flag (UDPScan po \<or> ex) SCAN_UDP_PORT OR flag (SCTPScan po \<or> ex) SCAN_SCTP_PORT OR
      flag (ipprotscan po) SCAN_PROTOCOLS)"

section \<open>From the table to lists\<close>

definition ports_with :: "u8 \<Rightarrow> nat \<Rightarrow> port_table \<Rightarrow> nat list" where
  "ports_with f n tbl = filter (\<lambda>p. has (tbl p) f) [0..<n]"

definition no_ports :: port_table where
  "no_ports = (\<lambda>_. 0)"

definition getpts :: "services \<Rightarrow> protocols \<Rightarrow> port_opts \<Rightarrow> string \<Rightarrow> scan_lists \<Rightarrow> scan_lists option" where
  "getpts sv pt po expr ports = do {
     let rt = default_range_type po;
     tbl \<leftarrow> getpts_aux sv pt False True rt expr no_ports;
     let t = ports_with SCAN_TCP_PORT 65536 tbl;
     let u = ports_with SCAN_UDP_PORT 65536 tbl;
     let s = ports_with SCAN_SCTP_PORT 65536 tbl;
     let p = ports_with SCAN_PROTOCOLS 256 tbl;
     if rt \<noteq> 0 \<and> t = [] \<and> u = [] \<and> s = [] \<and> p = [] then None
     else Some (ports\<lparr>tcp_ports := t, udp_ports := u, sctp_ports := s, prots := p\<rparr>) }"

definition getpts_simple :: "services \<Rightarrow> protocols \<Rightarrow> u8 \<Rightarrow> string \<Rightarrow> nat list option" where
  "getpts_simple sv pt rt expr = do {
     assert_that (rt AND (rt - 1) = 0);
     tbl \<leftarrow> getpts_aux sv pt False False rt expr no_ports;
     Some (ports_with rt 65536 tbl) }"

section \<open>Excluded ports\<close>

definition remaining_ports :: "nat list \<Rightarrow> nat list \<Rightarrow> nat list" where
  "remaining_ports ports excl =
     (if ports = [] \<or> excl = [] then ports
      else let has_been_excluded = fold (\<lambda>p m. m(p := True)) excl (\<lambda>_. False) in filter (\<lambda>p. \<not> has_been_excluded p) ports)"

definition no_lists :: scan_lists where
  "no_lists = \<lparr>tcp_ports = [], udp_ports = [], sctp_ports = [], prots = [], syn_ping_ports = [], ack_ping_ports = [], udp_ping_ports = [],
     sctp_ping_ports = [], proto_ping_ports = []\<rparr>"

definition subtract_ports :: "scan_lists \<Rightarrow> scan_lists \<Rightarrow> scan_lists" where
  "subtract_ports ex ports = \<lparr>
     tcp_ports = remaining_ports (tcp_ports ports) (tcp_ports ex),
     udp_ports = remaining_ports (udp_ports ports) (udp_ports ex),
     sctp_ports = remaining_ports (sctp_ports ports) (sctp_ports ex),
     prots = remaining_ports (prots ports) (prots ex),
     syn_ping_ports = remaining_ports (syn_ping_ports ports) (tcp_ports ex),
     ack_ping_ports = remaining_ports (ack_ping_ports ports) (tcp_ports ex),
     udp_ping_ports = remaining_ports (udp_ping_ports ports) (udp_ports ex),
     sctp_ping_ports = remaining_ports (sctp_ping_ports ports) (sctp_ports ex),
     proto_ping_ports = remaining_ports (proto_ping_ports ports) (prots ex)\<rparr>"

definition removepts :: "services \<Rightarrow> protocols \<Rightarrow> port_opts \<Rightarrow> string option \<Rightarrow> scan_lists \<Rightarrow> scan_lists option" where
  "removepts sv pt po expr ports = (case expr of None \<Rightarrow> Some ports
     | Some e \<Rightarrow> do { ex \<leftarrow> getpts sv pt po e no_lists; Some (subtract_ports ex ports) })"

section \<open>The most common ports\<close>

definition is_port_member :: "scan_lists \<Rightarrow> service \<Rightarrow> bool" where
  "is_port_member d s =
     (if s_proto s = ''tcp'' then s_port s \<in> set (tcp_ports d)
      else if s_proto s = ''udp'' then s_port s \<in> set (udp_ports d)
      else if s_proto s = ''sctp'' then s_port s \<in> set (sctp_ports d) else False)"

text \<open>The lists for TCP, UDP and SCTP; a port is added only as long as there is room.\<close>

type_synonym top_lists = "nat list \<times> nat list \<times> nat list"

definition add_top :: "port_opts \<Rightarrow> nat \<times> nat \<times> nat \<Rightarrow> service \<Rightarrow> top_lists \<Rightarrow> top_lists" where
  "add_top po n s = (\<lambda>(t, u, c).
     if TCPScan po \<and> s_proto s = ''tcp'' \<and> length t < fst n then (t @ [s_port s], u, c)
     else if UDPScan po \<and> s_proto s = ''udp'' \<and> length u < fst (snd n) then (t, u @ [s_port s], c)
     else if SCTPScan po \<and> s_proto s = ''sctp'' \<and> length c < snd (snd n) then (t, u, c @ [s_port s])
     else (t, u, c))"

definition admitted :: "scan_lists option \<Rightarrow> service \<Rightarrow> bool" where
  "admitted d s = (case d of None \<Rightarrow> True | Some d \<Rightarrow> is_port_member d s)"

definition top_ports :: "port_opts \<Rightarrow> scan_lists option \<Rightarrow> nat \<times> nat \<times> nat \<Rightarrow> service list \<Rightarrow> top_lists" where
  "top_ports po d n ss = fold (\<lambda>s l. if \<not> admitted d s then l else add_top po n s l) ss ([], [], [])"

text \<open>With a ratio as the level, the services are in the order of their ratios and the first below it ends the loop; there is always room,
  since the ports were counted first.\<close>

fun ratio_ports :: "port_opts \<Rightarrow> scan_lists option \<Rightarrow> rat \<Rightarrow> service list \<Rightarrow> top_lists \<Rightarrow> top_lists" where
  "ratio_ports po d level [] l = l"
| "ratio_ports po d level (s # ss) l =
     (if \<not> admitted d s then ratio_ports po d level ss l
      else if s_ratio s \<ge> level then ratio_ports po d level ss
        (add_top po (Suc (length (fst l)), Suc (length (fst (snd l))), Suc (length (snd (snd l)))) s l)
      else l)"

definition level_ports :: "services \<Rightarrow> port_opts \<Rightarrow> scan_lists option \<Rightarrow> rat \<Rightarrow> top_lists option" where
  "level_ports sv po d level =
     (if level < 1 then Some (ratio_ports po d level (services_by_ratio sv) ([], [], []))
      else if level > 65536 then None
      else let k = nat \<lfloor>level\<rfloor> in
        Some (top_ports po d (min k (numtcpports sv), min k (numudpports sv), min k (numsctpports sv)) (services_by_ratio sv)))"

text \<open>\<open>ports\<close> has no ports yet.\<close>

definition gettoppts :: "services \<Rightarrow> protocols \<Rightarrow> port_opts \<Rightarrow> rat \<Rightarrow> string option \<Rightarrow> scan_lists \<Rightarrow> string option \<Rightarrow> scan_lists option" where
  "gettoppts sv pt po level0 plist ports excl =
     (if \<not> ratio_format sv \<and> level0 \<noteq> -1 then None
      else if \<not> ratio_format sv then
        getpts sv pt po (case plist of Some p \<Rightarrow> p | None \<Rightarrow> if fastscan po then ''[-]'' else ''1-1024,[1025-]'') ports
      else if level0 = -1 \<and> plist \<noteq> None then getpts sv pt po (the plist) ports
      else do {
        let level = (if level0 = -1 then (if fastscan po then 100 else 1000) else level0);
        d0 \<leftarrow> (case plist of Some p \<Rightarrow> map_option Some (getpts sv pt po p no_lists)
          | None \<Rightarrow> if excl \<noteq> None then map_option Some (getpts sv pt po ''-'' no_lists) else Some None);
        d \<leftarrow> (case d0 of None \<Rightarrow> Some None | Some x \<Rightarrow> map_option Some (removepts sv pt po excl x));
        l \<leftarrow> level_ports sv po d level;
        Some (ports\<lparr>tcp_ports := sort (fst l), udp_ports := sort (fst (snd l)), sctp_ports := sort (snd (snd l)), prots := []\<rparr>) })"

section \<open>The order of the ports\<close>

definition swap :: "nat \<Rightarrow> nat \<Rightarrow> nat list \<Rightarrow> nat list" where
  "swap i j a = (a[i := a ! j])[j := a ! i]"

text \<open>\<open>rnd i\<close> is the random number that is drawn when the loop is at \<open>i\<close>.\<close>

definition shortfry :: "(nat \<Rightarrow> nat) \<Rightarrow> nat list \<Rightarrow> nat list" where
  "shortfry rnd a = fold (\<lambda>i a. let num = rnd i mod (i + 1) in if i = num then a else swap i num a) (rev [1..<length a]) a"

section \<open>Before the scan\<close>

definition choose_ports :: "services \<Rightarrow> protocols \<Rightarrow> port_opts \<Rightarrow> scan_lists \<Rightarrow> scan_lists option" where
  "choose_ports sv pt po ports = do {
     ports1 \<leftarrow> (if ipprotscan po then
         getpts sv pt po (case portlist po of Some p \<Rightarrow> p | None \<Rightarrow> if fastscan po then ''[P:0-]'' else ''0-'') ports
       else if \<not> noportscan po then gettoppts sv pt po (topportlevel po) (portlist po) ports (exclude_portlist po)
       else Some ports);
     removepts sv pt po (exclude_portlist po) ports1 }"

definition init_port_maps :: "port_opts \<Rightarrow> scan_lists \<Rightarrow> port_statics option" where
  "init_port_maps po ports = do {
     st1 \<leftarrow> (if ipprotscan po then initializePortMap statics0 IPPROTO_IP (prots ports) else Some statics0);
     st2 \<leftarrow> (if TCPScan po then initializePortMap st1 IPPROTO_TCP (tcp_ports ports) else Some st1);
     st3 \<leftarrow> (if UDPScan po then initializePortMap st2 IPPROTO_UDP (udp_ports ports) else Some st2);
     (if SCTPScan po then initializePortMap st3 IPPROTO_SCTP (sctp_ports ports) else Some st3) }"

definition randomize :: "port_opts \<Rightarrow> (nat \<Rightarrow> nat \<Rightarrow> nat) \<Rightarrow> scan_lists \<Rightarrow> scan_lists" where
  "randomize po rnd ports =
     (if \<not> randomize_ports po then ports
      else ports\<lparr>tcp_ports := random_port_cheat (shortfry (rnd 0) (tcp_ports ports)), udp_ports := shortfry (rnd 1) (udp_ports ports),
        sctp_ports := shortfry (rnd 2) (sctp_ports ports), prots := shortfry (rnd 3) (prots ports)\<rparr>)"

definition setup_ports :: "services \<Rightarrow> protocols \<Rightarrow> port_opts \<Rightarrow> (nat \<Rightarrow> nat \<Rightarrow> nat) \<Rightarrow> scan_lists \<Rightarrow> (scan_lists \<times> port_statics) option" where
  "setup_ports sv pt po rnd ports = do {
     ports1 \<leftarrow> choose_ports sv pt po ports;
     st \<leftarrow> init_port_maps po ports1;
     Some (randomize po rnd ports1, st) }"

end
