(* ===== verification/Port_Results.thy ===== *)
theory Port_Results
  imports Port_Lists Engine_Run
begin

text \<open>
  Which ports a scan covers: what a specification without names and brackets denotes, that the lists are in order and fit a scan, that
  excluded ports are never scanned, which are the most common ports, and the specifications that do not mean what they say.
\<close>

unbundle bit_operations_syntax

section \<open>Flags\<close>

lemma has_zero [simp]: "\<not> has 0 f"
  by (simp add: has_def)

lemma has_or [simp]: "has (x OR y) f \<longleftrightarrow> has x f \<or> has y f"
  by (auto simp: has_def bit.conj_disj_distrib2 or_eq_0_iff)

lemma has_self: "has f f \<longleftrightarrow> f \<noteq> 0"
  by (simp add: has_def)

lemma has_flag_simps [simp]:
  "has 1 1" "\<not> has 1 2" "\<not> has 1 4" "\<not> has 1 8" "\<not> has 2 1" "has 2 2" "\<not> has 2 4" "\<not> has 2 8"
  "\<not> has 4 1" "\<not> has 4 2" "has 4 4" "\<not> has 4 8" "\<not> has 8 1" "\<not> has 8 2" "\<not> has 8 4" "has 8 8"
  by (simp_all add: has_def)

lemma has_fl [simp]: "has (flag b g) f \<longleftrightarrow> b \<and> has g f"
  by (simp add: flag_def)

lemma and_single: "(x :: u8) AND 2 ^ n = (if bit x n then 2 ^ n else 0)"
  by (rule bit_eqI) (auto simp: bit_simps)

lemma single_all:
  assumes "rt \<in> {1, 2, 4, 8 :: u8}" "has x rt"
  shows "x AND rt = rt"
proof -
  have "rt \<in> {2 ^ 0, 2 ^ 1, 2 ^ 2, 2 ^ 3}" using assms(1) by simp
  then obtain n where n: "rt = 2 ^ n" by blast
  show ?thesis using assms(2) unfolding n has_def and_single by (simp split: if_splits)
qed

lemma specifier_single: "range_specifier c = Some rt \<Longrightarrow> rt \<in> {1, 2, 4, 8}"
  by (auto simp: range_specifier_def split: if_splits)

section \<open>Plain specifications\<close>

text \<open>A port that has one of the protocols has them all.\<close>

definition uniform :: "u8 \<Rightarrow> port_table \<Rightarrow> bool" where
  "uniform rt tbl \<longleftrightarrow> (\<forall>p. has (tbl p) rt \<longrightarrow> tbl p AND rt = rt)"

lemma has_mono: "x AND rt = rt \<Longrightarrow> has rt f \<Longrightarrow> has x f"
proof -
  assume x: "x AND rt = rt" and r: "has rt f"
  have "rt AND (x AND f) = (x AND rt) AND f" by (simp only: ac_simps)
  then have "rt AND (x AND f) = rt AND f" unfolding x .
  then show ?thesis using r by (auto simp: has_def)
qed

lemma add_port_plain:
  assumes "uniform rt tbl"
  shows "has (add_port sv pt False rt p tbl q) f \<longleftrightarrow> has (tbl q) f \<or> (q = p \<and> has rt f)" "uniform rt (add_port sv pt False rt p tbl)"
proof -
  have "has (tbl p) rt \<Longrightarrow> has rt f \<Longrightarrow> has (tbl p) f" for f using assms has_mono by (auto simp: uniform_def)
  then show "has (add_port sv pt False rt p tbl q) f \<longleftrightarrow> has (tbl q) f \<or> (q = p \<and> has rt f)" by (auto simp: add_port_def mark_def)
  show "uniform rt (add_port sv pt False rt p tbl)" using assms by (auto simp: uniform_def add_port_def mark_def bit.conj_disj_distrib2)
qed

lemma add_range_plain:
  assumes "uniform rt tbl"
  shows "uniform rt (add_range sv pt False rt a b tbl) \<and>
    (\<forall>q f. has (add_range sv pt False rt a b tbl q) f \<longleftrightarrow> has (tbl q) f \<or> (a \<le> q \<and> q \<le> b \<and> has rt f))"
proof -
  have "uniform rt (fold (add_port sv pt False rt) ps tbl) \<and>
      (\<forall>q f. has (fold (add_port sv pt False rt) ps tbl q) f \<longleftrightarrow> has (tbl q) f \<or> (q \<in> set ps \<and> has rt f))" for ps
    using assms by (induction ps arbitrary: tbl) (auto simp: add_port_plain)
  from this[of "[a..<Suc b]"] show ?thesis by (simp add: add_range_def less_Suc_eq_le del: upt_Suc)
qed

text \<open>The ports of an entry and the entries after it, by protocol.\<close>

fun wanted :: "u8 \<Rightarrow> port_entry list \<Rightarrow> u8 \<Rightarrow> nat \<Rightarrow> bool" where
  "wanted rt [] f p \<longleftrightarrow> False"
| "wanted rt (e # es) f p \<longleftrightarrow> (let r = specified (fst e) rt in
     (has r f \<and> fst (item_range r (snd e)) \<le> p \<and> p \<le> snd (item_range r (snd e))) \<or> wanted r es f p)"

definition plain_entry :: "port_entry \<Rightarrow> bool" where
  "plain_entry e \<longleftrightarrow> entry_ok e \<and> (\<forall>m. snd e \<noteq> Name m)"

lemma specified_cases: "specified d rt = rt \<or> specified d rt \<in> {1, 2, 4, 8}"
  by (auto simp: specified_def dest: specifier_single split: option.split)

lemma uniform_specified: "uniform rt tbl \<Longrightarrow> uniform (specified d rt) tbl"
  using specified_cases[of d rt] single_all by (auto simp: uniform_def)

lemma run_plain:
  assumes "\<forall>e \<in> set es. plain_entry e" "uniform rt tbl" "run_ports sv pt rt (map Plain es) tbl = Some tbl'"
  shows "has (tbl' q) f \<longleftrightarrow> has (tbl q) f \<or> wanted rt es f q"
  using assms
proof (induction es arbitrary: rt tbl)
  case (Cons e es)
  let ?r = "specified (fst e) rt" let ?t = "add_range sv pt False ?r (fst (item_range ?r (snd e))) (snd (item_range ?r (snd e))) tbl"
  have n: "\<forall>m. snd e \<noteq> Name m" using Cons.prems(1) by (simp add: plain_entry_def)
  then have "run_item sv pt False ?r (snd e) tbl = (if range_valid ?r (item_range ?r (snd e)) then Some ?t else None)"
    by (cases "snd e") (simp_all add: run_item_def)
  then have r: "run_ports sv pt ?r (map Plain es) ?t = Some tbl'" using Cons.prems(3) by (auto split: if_splits)
  note a = add_range_plain[OF uniform_specified[OF Cons.prems(2), of "fst e"], of sv pt "fst (item_range ?r (snd e))" "snd (item_range ?r (snd e))"]
  have "has (tbl' q) f \<longleftrightarrow> has (?t q) f \<or> wanted ?r es f q" using Cons.IH[OF _ _ r] Cons.prems(1) a by simp
  then show ?case using a by (auto simp: Let_def)
qed simp

lemma getpts_Some:
  assumes "getpts sv pt po expr ports = Some ports'"
  obtains tbl where "getpts_aux sv pt False True (default_range_type po) expr no_ports = Some tbl"
    "ports' = ports\<lparr>tcp_ports := ports_with 1 65536 tbl, udp_ports := ports_with 2 65536 tbl, sctp_ports := ports_with 4 65536 tbl, prots := ports_with 8 256 tbl\<rparr>"
    "default_range_type po \<noteq> 0 \<Longrightarrow> ports_with 1 65536 tbl \<noteq> [] \<or> ports_with 2 65536 tbl \<noteq> [] \<or> ports_with 4 65536 tbl \<noteq> [] \<or> ports_with 8 256 tbl \<noteq> []"
  using assms by (auto simp: getpts_def Let_def split: bind_splits if_splits)

lemma getpts_plain:
  assumes "es \<noteq> []" "\<forall>e \<in> set es. plain_entry e" "getpts sv pt po (show_ports (map Plain es)) ports = Some ports'"
  shows "tcp_ports ports' = filter (wanted (default_range_type po) es SCAN_TCP_PORT) [0..<65536] \<and>
    udp_ports ports' = filter (wanted (default_range_type po) es SCAN_UDP_PORT) [0..<65536] \<and>
    sctp_ports ports' = filter (wanted (default_range_type po) es SCAN_SCTP_PORT) [0..<65536] \<and>
    prots ports' = filter (wanted (default_range_type po) es SCAN_PROTOCOLS) [0..<256]"
proof -
  obtain tbl where t: "getpts_aux sv pt False True (default_range_type po) (show_ports (map Plain es)) no_ports = Some tbl"
    "ports' = ports\<lparr>tcp_ports := ports_with 1 65536 tbl, udp_ports := ports_with 2 65536 tbl, sctp_ports := ports_with 4 65536 tbl, prots := ports_with 8 256 tbl\<rparr>"
    by (rule getpts_Some[OF assms(3)])
  have "\<forall>x \<in> set (map Plain es). elem_ok x" using assms(2) by (auto simp: plain_entry_def)
  then have "run_ports sv pt (default_range_type po) (map Plain es) no_ports = Some tbl" using getpts_aux_run t(1) assms(1) by simp
  from run_plain[OF assms(2) _ this] have "has (tbl q) f \<longleftrightarrow> wanted (default_range_type po) es f q" for q f
    by (auto simp: uniform_def no_ports_def)
  then show ?thesis using t(2) by (simp add: ports_with_def)
qed

text \<open>C16. A list of ranges with specifiers, without names and brackets, gives exactly the ports of the ranges, each for the protocols that are in
  force where it stands, each once and in order.\<close>

theorem getpts_exact:
  assumes "es \<noteq> []" "\<forall>e \<in> set es. plain_entry e" "getpts sv pt po (show_ports (map Plain es)) ports = Some ports'"
  shows "tcp_ports ports' = filter (wanted (default_range_type po) es SCAN_TCP_PORT) [0..<65536] \<and>
    udp_ports ports' = filter (wanted (default_range_type po) es SCAN_UDP_PORT) [0..<65536] \<and>
    sctp_ports ports' = filter (wanted (default_range_type po) es SCAN_SCTP_PORT) [0..<65536] \<and>
    prots ports' = filter (wanted (default_range_type po) es SCAN_PROTOCOLS) [0..<256]"
  using assms by (rule getpts_plain)

definition sample_opts :: port_opts where
  "sample_opts = \<lparr>TCPScan = True, UDPScan = True, SCTPScan = False, ipprotscan = False, noportscan = False, fastscan = False, randomize_ports = True,
     topportlevel = -1, portlist = None, exclude_portlist = None\<rparr>"

lemma sample_range_type: "default_range_type sample_opts = 3"
  by (simp add: default_range_type_def sample_opts_def flag_def)

theorem getpts_exact_witness:
  "\<exists>ports'. getpts no_services (\<lambda>_. []) sample_opts (show_ports (map Plain [(None, Single 22), (Some CHR ''U'', Between 1 3)])) no_lists = Some ports' \<and>
    22 \<in> set (tcp_ports ports') \<and> 2 \<notin> set (tcp_ports ports') \<and> 2 \<in> set (udp_ports ports')"
proof -
  let ?es = "[(None, Single 22), (Some CHR ''U'', Between 1 3)]"
  let ?tbl = "add_range no_services (\<lambda>_. []) False 2 1 3 (add_range no_services (\<lambda>_. []) False 3 22 22 no_ports)"
  have p: "\<forall>e \<in> set ?es. plain_entry e" by (simp add: plain_entry_def entry_ok_def range_specifier_def)
  have "getpts_aux no_services (\<lambda>_. []) False True 3 (show_ports (map Plain ?es)) no_ports = Some ?tbl"
    using p by (subst getpts_aux_run) (simp_all add: plain_entry_def run_item_def range_valid_def specified_def range_specifier_def last_number_def has_def)
  moreover have "?tbl 22 = 3" by (simp add: add_range_def add_port_def mark_def no_ports_def has_def numeral_eq_Suc)
  then have "22 \<in> set (ports_with 1 65536 ?tbl)" by (simp add: ports_with_def has_def)
  ultimately obtain ports' where g: "getpts no_services (\<lambda>_. []) sample_opts (show_ports (map Plain ?es)) no_lists = Some ports'"
    using sample_range_type by (fastforce simp: getpts_def Let_def)
  then show ?thesis using getpts_exact[OF _ p g]
    by (auto simp: sample_range_type Let_def specified_def range_specifier_def has_def)
qed

section \<open>Lists of ports\<close>

definition strict :: "nat \<Rightarrow> nat list \<Rightarrow> bool" where
  "strict n ps \<longleftrightarrow> sorted_wrt (<) ps \<and> (\<forall>p \<in> set ps. p < n)"

definition port_lists_ok :: "scan_lists \<Rightarrow> bool" where
  "port_lists_ok l \<longleftrightarrow> strict 65536 (tcp_ports l) \<and> strict 65536 (udp_ports l) \<and> strict 65536 (sctp_ports l) \<and> strict 256 (prots l)"

lemma strict_filter: "strict n ps \<Longrightarrow> strict n (filter P ps)"
  by (simp add: strict_def sorted_wrt_filter)

lemma strict_upt: "strict n [0..<n]"
  by (simp add: strict_def)

lemma strict_Nil [simp]: "strict n []"
  by (simp add: strict_def)

lemma strict_sort: "distinct ps \<Longrightarrow> \<forall>p \<in> set ps. p < n \<Longrightarrow> strict n (sort ps)"
  by (simp add: strict_def strict_sorted_iff)

lemma getpts_ok: "getpts sv pt po expr ports = Some ports' \<Longrightarrow> port_lists_ok ports'"
  by (auto simp: port_lists_ok_def ports_with_def strict_filter strict_upt elim!: getpts_Some)

lemma excluded_iff: "fold (\<lambda>p m. m(p := True)) excl m q \<longleftrightarrow> q \<in> set excl \<or> m q"
  by (induction excl arbitrary: m) auto

lemma remaining_ports_filter: "remaining_ports ports excl = filter (\<lambda>p. p \<notin> set excl) ports"
  by (auto simp: remaining_ports_def excluded_iff)

lemma removepts_Some:
  assumes "removepts sv pt po expr ports = Some ports'"
  shows "expr = None \<and> ports' = ports \<or> (\<exists>e ex. expr = Some e \<and> getpts sv pt po e no_lists = Some ex \<and> ports' = subtract_ports ex ports)"
  using assms by (auto simp: removepts_def split: option.splits bind_splits)

lemma removepts_ok: "removepts sv pt po expr ports = Some ports' \<Longrightarrow> port_lists_ok ports \<Longrightarrow> port_lists_ok ports'"
  using removepts_Some[of sv pt po expr ports ports'] by (auto simp: port_lists_ok_def subtract_ports_def remaining_ports_filter strict_filter)

section \<open>The tables of services\<close>

definition of_proto :: "string \<Rightarrow> service list \<Rightarrow> service list" where
  "of_proto proto ss = filter (\<lambda>s. s_proto s = proto) ss"

definition table_ok :: "services \<Rightarrow> bool" where
  "table_ok sv \<longleftrightarrow> distinct (map (\<lambda>s. (s_port s, s_proto s)) (service_table sv)) \<and> (\<forall>s \<in> set (service_table sv). s_port s < 65536) \<and>
     length (of_proto ''tcp'' (service_table sv)) \<le> numtcpports sv \<and> length (of_proto ''udp'' (service_table sv)) \<le> numudpports sv \<and>
     length (of_proto ''sctp'' (service_table sv)) \<le> numsctpports sv"

lemma not_registered: "nmap_getservbyport sv p proto = None \<Longrightarrow> (p, proto) \<notin> (\<lambda>s. (s_port s, s_proto s)) ` set (service_table sv)"
  by (auto simp: nmap_getservbyport_def find_None_iff)

lemma table_ok_add:
  assumes "table_ok sv" "nmap_getservbyport sv (s_port s) (s_proto s) = None" "s_port s < 65536"
    and "service_table sv' = service_table sv @ [s]"
    and "numtcpports sv' = numtcpports sv + (if proto_begins (s_proto s) ''tcp'' then 1 else 0)"
    and "proto_begins (s_proto s) ''tcp'' \<or> numudpports sv' = numudpports sv + (if proto_begins (s_proto s) ''udp'' then 1 else 0)"
    and "numudpports sv \<le> numudpports sv'" "numsctpports sv \<le> numsctpports sv'"
    and "proto_begins (s_proto s) ''tcp'' \<or> proto_begins (s_proto s) ''udp'' \<or> numsctpports sv' = numsctpports sv + (if proto_begins (s_proto s) ''sctp'' then 1 else 0)"
  shows "table_ok sv'"
proof -
  have b: "proto_begins ''tcp'' ''tcp''" "proto_begins ''udp'' ''udp''" "proto_begins ''sctp'' ''sctp''" "\<not> proto_begins ''udp'' ''tcp''"
    "\<not> proto_begins ''sctp'' ''tcp''" "\<not> proto_begins ''sctp'' ''udp''"
    by (simp_all add: proto_begins_def tolower_def isupper_def ordc_def)
  show ?thesis using assms not_registered[OF assms(2)] b by (auto simp: table_ok_def of_proto_def)
qed

lemma table_ok_fields:
  "service_table sv' = service_table sv \<Longrightarrow> numtcpports sv' = numtcpports sv \<Longrightarrow> numudpports sv' = numudpports sv \<Longrightarrow>
    numsctpports sv' = numsctpports sv \<Longrightarrow> table_ok sv' = table_ok sv"
  by (simp add: table_ok_def)

lemma add_service_line_ok:
  assumes "add_service_line l sv = Some sv'" "table_ok sv" "services_by_ratio sv = service_table sv" "l_port l < 65536"
  shows "table_ok sv' \<and> services_by_ratio sv' = service_table sv'"
proof -
  obtain r fmt where "read_ratio (l_ratio l) (ratio_format sv) = Some (r, fmt)" using assms(1) by (auto simp: add_service_line_def split: bind_splits)
  then have a: "add_service_line l sv = (let sv0 = sv\<lparr>ratio_format := fmt\<rparr>; p = l_proto l; s = \<lparr>s_name = l_name l, s_port = l_port l, s_proto = p, s_ratio = r\<rparr>;
      ext = (\<lambda>sv2. sv2\<lparr>service_table := service_table sv2 @ [s], services_by_ratio := services_by_ratio sv2 @ [s]\<rparr>) in
    if nmap_getservbyport sv0 (l_port l) p \<noteq> None then Some sv0
    else if proto_begins p ''tcp'' then Some (ext (sv0\<lparr>numtcpports := numtcpports sv0 + 1\<rparr>))
    else if proto_begins p ''udp'' then Some (ext (sv0\<lparr>numudpports := numudpports sv0 + 1\<rparr>))
    else if proto_begins p ''sctp'' then Some (ext (sv0\<lparr>numsctpports := numsctpports sv0 + 1\<rparr>))
    else if proto_begins p ''ddp'' \<or> proto_begins p ''divert'' \<or> proto_begins p ''#'' then Some (ext sv0) else Some sv0)"
    by (simp add: add_service_line_def Let_def)
  let ?s = "\<lparr>s_name = l_name l, s_port = l_port l, s_proto = l_proto l, s_ratio = r\<rparr>"
  have g: "nmap_getservbyport (sv\<lparr>ratio_format := fmt\<rparr>) q p = nmap_getservbyport sv q p" for q p by (simp add: nmap_getservbyport_def)
  have new: "nmap_getservbyport sv (s_port ?s) (s_proto ?s) = None \<Longrightarrow> service_table sv' = service_table sv @ [?s] \<Longrightarrow>
      numtcpports sv' = numtcpports sv + (if proto_begins (s_proto ?s) ''tcp'' then 1 else 0) \<Longrightarrow>
      proto_begins (s_proto ?s) ''tcp'' \<or> numudpports sv' = numudpports sv + (if proto_begins (s_proto ?s) ''udp'' then 1 else 0) \<Longrightarrow>
      numudpports sv \<le> numudpports sv' \<Longrightarrow> numsctpports sv \<le> numsctpports sv' \<Longrightarrow>
      proto_begins (s_proto ?s) ''tcp'' \<or> proto_begins (s_proto ?s) ''udp'' \<or> numsctpports sv' = numsctpports sv + (if proto_begins (s_proto ?s) ''sctp'' then 1 else 0)
      \<Longrightarrow> table_ok sv'" for sv'
    by (rule table_ok_add[OF assms(2), of ?s]) (use assms(4) in simp_all)
  show ?thesis using assms(1,3) table_ok_fields[of "sv\<lparr>ratio_format := fmt\<rparr>" sv] assms(2) new unfolding a
    by (auto simp: Let_def g split: if_splits)
qed

lemma add_service_lines_ok:
  assumes "add_service_lines ls sv = Some sv'" "table_ok sv" "services_by_ratio sv = service_table sv" "\<forall>l \<in> set ls. l_port l < 65536"
  shows "table_ok sv' \<and> services_by_ratio sv' = service_table sv'"
  using assms
proof (induction ls arbitrary: sv)
  case (Cons l ls)
  then obtain sv1 where "add_service_line l sv = Some sv1" "add_service_lines ls sv1 = Some sv'" by (auto split: bind_splits)
  with Cons add_service_line_ok[of l sv sv1] show ?case by simp
qed simp

lemma services_init_ok:
  assumes "nmap_services_init ls = Some sv" "\<forall>l \<in> set ls. l_port l < 65536"
  shows "table_ok sv" "services_by_ratio sv = sort_key (\<lambda>s. - s_ratio s) (service_table sv)"
proof -
  obtain sv0 where s: "add_service_lines ls no_services = Some sv0" "sv = sv0\<lparr>services_by_ratio := sort_key (\<lambda>s. - s_ratio s) (services_by_ratio sv0)\<rparr>"
    using assms(1) by (auto simp: nmap_services_init_def split: bind_splits)
  have "table_ok no_services" by (simp add: table_ok_def no_services_def of_proto_def)
  from add_service_lines_ok[OF s(1) this _ assms(2)] have "table_ok sv0" "services_by_ratio sv0 = service_table sv0" by (simp_all add: no_services_def)
  then show "table_ok sv" "services_by_ratio sv = sort_key (\<lambda>s. - s_ratio s) (service_table sv)"
    using s(2) table_ok_fields[of sv sv0] by simp_all
qed

section \<open>The most common ports\<close>

definition chosen :: "bool \<Rightarrow> string \<Rightarrow> scan_lists option \<Rightarrow> service list \<Rightarrow> nat list" where
  "chosen scan proto d ss = (if scan then map s_port (filter (\<lambda>s. admitted d s \<and> s_proto s = proto) ss) else [])"

lemma add_top_cases:
  "add_top po n s (t, u, c) =
    (if TCPScan po \<and> s_proto s = ''tcp'' \<and> length t < fst n then t @ [s_port s] else t,
     if UDPScan po \<and> s_proto s = ''udp'' \<and> length u < fst (snd n) then u @ [s_port s] else u,
     if SCTPScan po \<and> s_proto s = ''sctp'' \<and> length c < snd (snd n) then c @ [s_port s] else c)"
  by (auto simp: add_top_def)

lemma take_snoc: "length t \<le> n \<Longrightarrow> (if length t < n then t @ [x] else t) @ take (n - length (if length t < n then t @ [x] else t)) xs = t @ take (n - length t) (x # xs)"
  by (auto simp: take_Cons' diff_Suc split: nat.split)

lemma top_fold:
  assumes "length t \<le> fst n" "length u \<le> fst (snd n)" "length c \<le> snd (snd n)"
  shows "fold (\<lambda>s l. if \<not> admitted d s then l else add_top po n s l) ss (t, u, c) =
    (t @ take (fst n - length t) (chosen (TCPScan po) ''tcp'' d ss), u @ take (fst (snd n) - length u) (chosen (UDPScan po) ''udp'' d ss),
     c @ take (snd (snd n) - length c) (chosen (SCTPScan po) ''sctp'' d ss))"
  using assms
proof (induction ss arbitrary: t u c)
  case (Cons s ss)
  show ?case
  proof (cases "admitted d s")
    case True
    obtain t1 u1 c1 where a: "add_top po n s (t, u, c) = (t1, u1, c1)" by (metis prod_cases3)
    then have e: "t1 = (if TCPScan po \<and> s_proto s = ''tcp'' \<and> length t < fst n then t @ [s_port s] else t)"
      "u1 = (if UDPScan po \<and> s_proto s = ''udp'' \<and> length u < fst (snd n) then u @ [s_port s] else u)"
      "c1 = (if SCTPScan po \<and> s_proto s = ''sctp'' \<and> length c < snd (snd n) then c @ [s_port s] else c)" by (auto simp: add_top_cases)
    have l: "length t1 \<le> fst n" "length u1 \<le> fst (snd n)" "length c1 \<le> snd (snd n)" using Cons.prems by (auto simp: e)
    have k: "(if b \<and> p \<and> length x < m then x @ [y] else x) @ take (m - length (if b \<and> p \<and> length x < m then x @ [y] else x)) (if b then zs else []) =
        x @ take (m - length x) (if b then (if p then y # zs else zs) else [])" if "length x \<le> m" for b p m x y and zs :: "nat list"
      using take_snoc[OF that, of y zs] by (cases b; cases p) auto
    show ?thesis using Cons.IH[OF l] a True k[OF Cons.prems(1)] k[OF Cons.prems(2)] k[OF Cons.prems(3)]
      by (simp add: chosen_def e if_distrib[of "map s_port"] cong: if_cong)
  qed (use Cons in \<open>simp add: chosen_def\<close>)
qed (simp add: chosen_def)

lemma top_ports_take:
  "top_ports po d n ss = (take (fst n) (chosen (TCPScan po) ''tcp'' d ss), take (fst (snd n)) (chosen (UDPScan po) ''udp'' d ss),
     take (snd (snd n)) (chosen (SCTPScan po) ''sctp'' d ss))"
  using top_fold[of "[]" n "[]" "[]"] by (simp add: top_ports_def)

lemma ratio_ports_prefix:
  "\<exists>pre. (\<exists>post. ss = pre @ post) \<and> ratio_ports po d level ss (t, u, c) =
    (t @ chosen (TCPScan po) ''tcp'' d pre, u @ chosen (UDPScan po) ''udp'' d pre, c @ chosen (SCTPScan po) ''sctp'' d pre)"
proof (induction ss arbitrary: t u c)
  case (Cons s ss)
  let ?P = "\<lambda>ss t u c pre. (\<exists>post. ss = pre @ post) \<and> ratio_ports po d level ss (t, u, c) =
    (t @ chosen (TCPScan po) ''tcp'' d pre, u @ chosen (UDPScan po) ''udp'' d pre, c @ chosen (SCTPScan po) ''sctp'' d pre)"
  show ?case
  proof (cases "admitted d s")
    case False
    from Cons.IH[of t u c] obtain pre where "?P ss t u c pre" by blast
    then have "?P (s # ss) t u c (s # pre)" using False by (auto simp: chosen_def)
    then show ?thesis by blast
  next
    case True
    show ?thesis
    proof (cases "s_ratio s \<ge> level")
      case False
      then have "?P (s # ss) t u c []" using True by (simp add: chosen_def)
      then show ?thesis by blast
    next
      case ge: True
      obtain t1 u1 c1 where a: "add_top po (Suc (length t), Suc (length u), Suc (length c)) s (t, u, c) = (t1, u1, c1)" by (metis prod_cases3)
      from Cons.IH[of t1 u1 c1] obtain pre where "?P ss t1 u1 c1 pre" by blast
      then have "?P (s # ss) t u c (s # pre)" using True ge a by (auto simp: chosen_def add_top_cases split: if_splits)
      then show ?thesis by blast
    qed
  qed
qed (auto simp: chosen_def)

lemma chosen_append: "chosen b proto d (xs @ ys) = chosen b proto d xs @ chosen b proto d ys"
  by (simp add: chosen_def)

lemma chosen_ok:
  assumes "table_ok sv" "services_by_ratio sv = sort_key k (service_table sv)"
  shows "distinct (chosen b proto d (services_by_ratio sv)) \<and> (\<forall>p \<in> set (chosen b proto d (services_by_ratio sv)). p < 65536)"
proof -
  have "mset (map (\<lambda>s. (s_port s, s_proto s)) (services_by_ratio sv)) = mset (map (\<lambda>s. (s_port s, s_proto s)) (service_table sv))"
    using assms(2) by simp
  then have d: "distinct (map (\<lambda>s. (s_port s, s_proto s)) (services_by_ratio sv))"
    using assms(1) mset_eq_imp_distinct_iff unfolding table_ok_def by blast
  then have "distinct (map s_port (filter (\<lambda>s. admitted d s \<and> s_proto s = proto) (services_by_ratio sv)))"
    by (auto simp: distinct_map distinct_filter inj_on_def)
  moreover have "set (services_by_ratio sv) = set (service_table sv)" using assms(2) by simp
  ultimately show ?thesis using assms(1) by (auto simp: chosen_def table_ok_def)
qed

lemma level_ports_ok:
  assumes "table_ok sv" "services_by_ratio sv = sort_key k (service_table sv)" "level_ports sv po d level = Some (t, u, c)"
  shows "\<forall>l \<in> {t, u, c}. distinct l \<and> (\<forall>p \<in> set l. p < 65536)"
proof -
  let ?ss = "services_by_ratio sv"
  have "\<exists>l1 l2 l3. t @ l1 = chosen (TCPScan po) ''tcp'' d ?ss \<and> u @ l2 = chosen (UDPScan po) ''udp'' d ?ss \<and> c @ l3 = chosen (SCTPScan po) ''sctp'' d ?ss"
  proof (cases "level < 1")
    case True
    obtain pre post where p: "?ss = pre @ post"
      "ratio_ports po d level ?ss ([], [], []) = (chosen (TCPScan po) ''tcp'' d pre, chosen (UDPScan po) ''udp'' d pre, chosen (SCTPScan po) ''sctp'' d pre)"
      using ratio_ports_prefix[of ?ss po d level "[]" "[]" "[]"] by auto
    have "t = chosen (TCPScan po) ''tcp'' d pre" "u = chosen (UDPScan po) ''udp'' d pre" "c = chosen (SCTPScan po) ''sctp'' d pre"
      using assms(3) True p(2) by (simp_all add: level_ports_def)
    then show ?thesis using p(1) by (simp add: chosen_append)
  next
    case False
    then obtain n where n: "top_ports po d n ?ss = (t, u, c)" using assms(3) by (auto simp: level_ports_def Let_def split: if_splits)
    have x: "\<exists>l. take m xs @ l = xs" for m and xs :: "nat list" using append_take_drop_id by blast
    show ?thesis using n x[of "fst n"] x[of "fst (snd n)"] x[of "snd (snd n)"] by (auto simp: top_ports_take)
  qed
  moreover have "distinct l \<and> (\<forall>p \<in> set l. p < 65536)" if "l @ r = chosen b proto d ?ss" for l r b proto
    using chosen_ok[OF assms(1,2), of b proto d, folded that] by simp
  ultimately show ?thesis by blast
qed

lemma gettoppts_ok:
  assumes "table_ok sv" "services_by_ratio sv = sort_key k (service_table sv)" "gettoppts sv pt po level plist ports excl = Some ports'"
  shows "port_lists_ok ports'"
proof (cases "\<not> ratio_format sv \<or> (level = -1 \<and> plist \<noteq> None)")
  case True
  then show ?thesis using assms(3) getpts_ok by (auto simp: gettoppts_def split: if_splits option.splits)
next
  case False
  then obtain d lv t u c where l: "level_ports sv po d lv = Some (t, u, c)"
    "ports' = ports\<lparr>tcp_ports := sort t, udp_ports := sort u, sctp_ports := sort c, prots := []\<rparr>"
    using assms(3) by (fastforce simp: gettoppts_def Let_def split: bind_splits if_splits)
  from level_ports_ok[OF assms(1,2) l(1)] show ?thesis using l(2) by (auto simp: port_lists_ok_def strict_sort)
qed

lemma choose_ports_ok:
  assumes "table_ok sv" "services_by_ratio sv = sort_key k (service_table sv)" "port_lists_ok ports" "choose_ports sv pt po ports = Some ports'"
  shows "port_lists_ok ports'"
proof -
  obtain ports1 where p: "removepts sv pt po (exclude_portlist po) ports1 = Some ports'"
    "(if ipprotscan po then getpts sv pt po (case portlist po of Some p \<Rightarrow> p | None \<Rightarrow> if fastscan po then ''[P:0-]'' else ''0-'') ports
       else if \<not> noportscan po then gettoppts sv pt po (topportlevel po) (portlist po) ports (exclude_portlist po) else Some ports) = Some ports1"
    using assms(4) unfolding choose_ports_def by (auto split: bind_splits)
  then have "port_lists_ok ports1" using assms(3) getpts_ok gettoppts_ok[OF assms(1,2)] by (auto split: if_splits)
  then show ?thesis by (rule removepts_ok[OF p(1)])
qed

text \<open>C37. However the ports are chosen, by a specification, by how common they are, with exclusions, every list is strictly increasing; ports are
  below 65536 and protocols below 256.\<close>

theorem chosen_ports_well_formed:
  assumes "nmap_services_init ls = Some sv" "\<forall>l \<in> set ls. l_port l < 65536" "choose_ports sv pt po no_lists = Some ports"
  shows "(\<forall>ps \<in> {tcp_ports ports, udp_ports ports, sctp_ports ports}. sorted_wrt (<) ps \<and> (\<forall>p \<in> set ps. p < 65536)) \<and>
    sorted_wrt (<) (prots ports) \<and> (\<forall>p \<in> set (prots ports). p < 256)"
proof -
  have "port_lists_ok no_lists" by (simp add: port_lists_ok_def no_lists_def)
  from choose_ports_ok[OF services_init_ok[OF assms(1,2)] this assms(3)] show ?thesis by (simp add: port_lists_ok_def strict_def)
qed

definition sample_lines :: "service_line list" where
  "sample_lines = [\<lparr>l_name = ''ftp'', l_port = 21, l_proto = ''tcp'', l_ratio = Some (Decimal_ratio (1/5))\<rparr>,
     \<lparr>l_name = ''ssh'', l_port = 22, l_proto = ''tcp'', l_ratio = Some (Decimal_ratio (1/6))\<rparr>,
     \<lparr>l_name = ''domain'', l_port = 53, l_proto = ''udp'', l_ratio = Some (Decimal_ratio (1/4))\<rparr>,
     \<lparr>l_name = ''http'', l_port = 80, l_proto = ''tcp'', l_ratio = Some (Decimal_ratio (1/2))\<rparr>]"

definition sample_service :: "string \<Rightarrow> nat \<Rightarrow> string \<Rightarrow> rat \<Rightarrow> service" where
  "sample_service n p pr r = \<lparr>s_name = n, s_port = p, s_proto = pr, s_ratio = r\<rparr>"

lemma sample_init:
  "nmap_services_init sample_lines = Some \<lparr>service_table = [sample_service ''ftp'' 21 ''tcp'' (1/5), sample_service ''ssh'' 22 ''tcp'' (1/6),
       sample_service ''domain'' 53 ''udp'' (1/4), sample_service ''http'' 80 ''tcp'' (1/2)],
     services_by_ratio = [sample_service ''http'' 80 ''tcp'' (1/2), sample_service ''domain'' 53 ''udp'' (1/4), sample_service ''ftp'' 21 ''tcp'' (1/5), sample_service ''ssh'' 22 ''tcp'' (1/6)],
     numtcpports = 3, numudpports = 1, numsctpports = 0, ratio_format = True\<rparr>"
  by (simp add: nmap_services_init_def sample_lines_def no_services_def add_service_line_def read_ratio_def nmap_getservbyport_def sample_service_def
      proto_begins_def tolower_def isupper_def ordc_def Let_def)

lemma sample_lines_ok: "\<forall>l \<in> set sample_lines. l_port l < 65536"
  by (simp add: sample_lines_def)

text \<open>Choosing the two most common ports.\<close>

definition sample_top :: port_opts where
  "sample_top = sample_opts\<lparr>topportlevel := 2\<rparr>"

lemma sample_chosen:
  assumes "nmap_services_init sample_lines = Some sv"
  shows "choose_ports sv pt sample_top no_lists = Some (no_lists\<lparr>tcp_ports := [21, 80], udp_ports := [53]\<rparr>)"
  using assms unfolding sample_init
  by (auto simp: choose_ports_def sample_top_def sample_opts_def gettoppts_def level_ports_def top_ports_take chosen_def admitted_def sample_service_def
      removepts_def no_lists_def Let_def numeral_2_eq_2)

theorem chosen_ports_well_formed_witness:
  "\<exists>sv ports. nmap_services_init sample_lines = Some sv \<and> choose_ports sv (\<lambda>_. []) sample_top no_lists = Some ports \<and> sorted_wrt (<) (tcp_ports ports)"
proof -
  obtain sv where s: "nmap_services_init sample_lines = Some sv" using sample_init by blast
  show ?thesis using chosen_ports_well_formed[OF s sample_lines_ok sample_chosen[OF s]] sample_chosen[OF s] s by auto
qed

text \<open>The services of a protocol that may be chosen: those of the list of \<open>-p\<close>, or all, less the excluded ones.\<close>

definition named :: "services \<Rightarrow> protocols \<Rightarrow> port_opts \<Rightarrow> (scan_lists \<Rightarrow> nat list) \<Rightarrow> string \<Rightarrow> nat set" where
  "named sv pt po sel x = (case getpts sv pt po x no_lists of None \<Rightarrow> {} | Some l \<Rightarrow> set (sel l))"

definition base_list :: "string option \<Rightarrow> string option \<Rightarrow> string option" where
  "base_list plist excl = (case plist of Some x \<Rightarrow> Some x | None \<Rightarrow> if excl = None then None else Some ''-'')"

definition eligible :: "services \<Rightarrow> protocols \<Rightarrow> port_opts \<Rightarrow> string option \<Rightarrow> string option \<Rightarrow> string \<Rightarrow> (scan_lists \<Rightarrow> nat list) \<Rightarrow> service set" where
  "eligible sv pt po plist excl proto sel = {s \<in> set (service_table sv). s_proto s = proto \<and>
     (\<forall>x. base_list plist excl = Some x \<longrightarrow> s_port s \<in> named sv pt po sel x) \<and> (\<forall>x. excl = Some x \<longrightarrow> s_port s \<notin> named sv pt po sel x)}"

text \<open>The ports are those of \<open>k\<close> services of the set, or of all, and none that is left out is more frequent than one of them.\<close>

definition most_common :: "nat \<Rightarrow> bool \<Rightarrow> service set \<Rightarrow> nat list \<Rightarrow> bool" where
  "most_common k on E ps \<longleftrightarrow> sorted_wrt (<) ps \<and> set ps \<subseteq> s_port ` E \<and> length ps = (if on then min k (card E) else 0) \<and>
     (\<forall>s \<in> E. \<forall>s' \<in> E. s_port s \<in> set ps \<and> s_port s' \<notin> set ps \<longrightarrow> s_ratio s' \<le> s_ratio s)"

lemma most_common_take:
  assumes "distinct c" "inj_on s_port (set c)" "sorted_wrt (\<lambda>x y. s_ratio y \<le> s_ratio x) c" "min k (length c) = min n (length c)"
  shows "most_common k True (set c) (sort (take n (map s_port c)))"
proof -
  have d: "distinct (map s_port c)" using assms(1,2) by (simp add: distinct_map)
  have "s_ratio b \<le> s_ratio a"
    if ab: "a \<in> set c" "b \<in> set c" "s_port a \<in> set (take n (map s_port c))" "s_port b \<notin> set (take n (map s_port c))" for a b
  proof -
    obtain a' where a': "a' \<in> set (take n c)" "s_port a' = s_port a" using ab(3) by (auto simp: take_map)
    moreover have "a' = a" using inj_onD[OF assms(2) a'(2) in_set_takeD[OF a'(1)] ab(1)] .
    ultimately have "a \<in> set (take n c)" by simp
    moreover have "b \<notin> set (take n c)" using ab(4) by (auto simp: take_map)
    then have "b \<in> set (drop n c)" using ab(2) append_take_drop_id[of n c] by (metis Un_iff set_append)
    moreover have "sorted_wrt (\<lambda>x y. s_ratio y \<le> s_ratio x) (take n c @ drop n c)" using assms(3) by simp
    ultimately show ?thesis unfolding sorted_wrt_append by blast
  qed
  moreover have "sorted_wrt (<) (sort (take n (map s_port c)))" using d by (simp add: strict_sorted_iff)
  moreover have "length (sort (take n (map s_port c))) = min k (card (set c))" using assms(1,4) distinct_card[of c] by simp
  ultimately show ?thesis by (auto simp: most_common_def take_map dest: in_set_takeD)
qed

lemma chosen_most_common:
  assumes "table_ok sv" "services_by_ratio sv = sort_key (\<lambda>s. - s_ratio s) (service_table sv)" "length (of_proto proto (service_table sv)) \<le> num"
    and "E = {s \<in> set (service_table sv). s_proto s = proto \<and> admitted d s}"
  shows "most_common k on E (sort (take (min k num) (chosen on proto d (services_by_ratio sv))))"
proof (cases on)
  case False
  then show ?thesis by (simp add: most_common_def chosen_def)
next
  case True
  let ?ss = "services_by_ratio sv" let ?c = "filter (\<lambda>s. admitted d s \<and> s_proto s = proto) ?ss"
  have m: "mset ?ss = mset (service_table sv)" using assms(2) by simp
  have "mset (map (\<lambda>s. (s_port s, s_proto s)) ?ss) = mset (map (\<lambda>s. (s_port s, s_proto s)) (service_table sv))" using m by simp
  then have dk: "distinct (map (\<lambda>s. (s_port s, s_proto s)) ?ss)" using assms(1) mset_eq_imp_distinct_iff unfolding table_ok_def by blast
  have d: "distinct ?c" "inj_on s_port (set ?c)" using dk by (auto simp: distinct_map inj_on_def)
  have "sorted (map (\<lambda>s. - s_ratio s) ?ss)" using assms(2) by simp
  then have "sorted (map (\<lambda>s. - s_ratio s) ?c)" by (rule sorted_filter)
  then have s: "sorted_wrt (\<lambda>x y. s_ratio y \<le> s_ratio x) ?c" by (simp add: sorted_wrt_map)
  have c: "?c = filter (admitted d) (of_proto proto ?ss)" by (simp add: of_proto_def conj_commute)
  have "mset (of_proto proto ?ss) = mset (of_proto proto (service_table sv))" using m by (simp add: of_proto_def mset_filter)
  then have "length (of_proto proto ?ss) = length (of_proto proto (service_table sv))" by (metis size_mset)
  then have "length ?c \<le> num" using assms(3) length_filter_le[of "admitted d" "of_proto proto ?ss"] unfolding c by linarith
  then have "min k (length ?c) = min (min k num) (length ?c)" by simp
  from most_common_take[OF d s this] have "most_common k True (set ?c) (sort (take (min k num) (map s_port ?c)))" .
  moreover have "set ?c = E" using assms(4) mset_eq_setD[OF m] by auto
  ultimately show ?thesis using True by (simp add: chosen_def)
qed

lemma admitted_eligible:
  assumes "(case base_list plist excl of None \<Rightarrow> Some None | Some x \<Rightarrow> map_option Some (getpts sv pt po x no_lists)) = Some d0"
    "(case d0 of None \<Rightarrow> Some None | Some l \<Rightarrow> map_option Some (removepts sv pt po excl l)) = Some d"
    and sel: "\<And>s l. s_proto s = proto \<Longrightarrow> is_port_member l s \<longleftrightarrow> s_port s \<in> set (sel l)"
      "\<And>ex l. set (sel (subtract_ports ex l)) = set (sel l) - set (sel ex)"
  shows "{s \<in> set (service_table sv). s_proto s = proto \<and> admitted d s} = eligible sv pt po plist excl proto sel"
proof (cases "base_list plist excl")
  case None
  then have "d = None" "excl = None" using assms(1,2) by (auto simp: base_list_def split: option.splits if_splits)
  then show ?thesis using None by (simp add: eligible_def admitted_def)
next
  case (Some x)
  then obtain l where l: "getpts sv pt po x no_lists = Some l" "d0 = Some l" using assms(1) by auto
  have n: "named sv pt po sel x = set (sel l)" using l(1) by (simp add: named_def)
  show ?thesis
  proof (cases excl)
    case None
    then have "d = Some l" using assms(2) l(2) by (simp add: removepts_def)
    then show ?thesis using Some None n sel(1) by (auto simp: eligible_def admitted_def)
  next
    case e: (Some e)
    then obtain ex where ex: "getpts sv pt po e no_lists = Some ex" "d = Some (subtract_ports ex l)" using assms(2) l(2) by (auto simp: removepts_def split: bind_splits)
    have "named sv pt po sel e = set (sel ex)" using ex(1) by (simp add: named_def)
    then show ?thesis using Some e n sel ex(2) by (auto simp: eligible_def admitted_def)
  qed
qed

lemma subtracted_sets:
  "set (tcp_ports (subtract_ports ex l)) = set (tcp_ports l) - set (tcp_ports ex)" "set (udp_ports (subtract_ports ex l)) = set (udp_ports l) - set (udp_ports ex)"
  "set (sctp_ports (subtract_ports ex l)) = set (sctp_ports l) - set (sctp_ports ex)"
  by (auto simp: subtract_ports_def remaining_ports_filter)

text \<open>C15. With the ratios of the data file, asking for the \<open>k\<close> most common ports fails only if the list of \<open>-p\<close> or \<open>--exclude-ports\<close> is
  refused; else, for each of TCP, UDP and SCTP that is scanned, it gives \<open>k\<close> ports, or all, of those that the list names and that are not excluded, in ascending
  order, and none that is left out is more common than one of them.\<close>

theorem top_ports_most_common:
  assumes "nmap_services_init ls = Some sv" "\<forall>l \<in> set ls. l_port l < 65536" "ratio_format sv" "0 < k" "k \<le> 65536"
  shows "(gettoppts sv pt po (rat_of_nat k) plist no_lists excl = None \<longleftrightarrow>
      (\<exists>x. base_list plist excl = Some x \<and> (getpts sv pt po x no_lists = None \<or> (\<exists>e. excl = Some e \<and> getpts sv pt po e no_lists = None)))) \<and>
    (\<forall>ports \<in> set_option (gettoppts sv pt po (rat_of_nat k) plist no_lists excl).
      most_common k (TCPScan po) (eligible sv pt po plist excl ''tcp'' tcp_ports) (tcp_ports ports) \<and>
      most_common k (UDPScan po) (eligible sv pt po plist excl ''udp'' udp_ports) (udp_ports ports) \<and>
      most_common k (SCTPScan po) (eligible sv pt po plist excl ''sctp'' sctp_ports) (sctp_ports ports))"
proof -
  note sv = services_init_ok[OF assms(1,2)]
  let ?ss = "services_by_ratio sv"
  let ?base = "case base_list plist excl of None \<Rightarrow> Some None | Some x \<Rightarrow> map_option Some (getpts sv pt po x no_lists)"
  let ?less = "\<lambda>d0. case d0 of None \<Rightarrow> Some None | Some l \<Rightarrow> map_option Some (removepts sv pt po excl l)"
  let ?tops = "\<lambda>d. no_lists\<lparr>tcp_ports := sort (take (min k (numtcpports sv)) (chosen (TCPScan po) ''tcp'' d ?ss)),
    udp_ports := sort (take (min k (numudpports sv)) (chosen (UDPScan po) ''udp'' d ?ss)),
    sctp_ports := sort (take (min k (numsctpports sv)) (chosen (SCTPScan po) ''sctp'' d ?ss)), prots := []\<rparr>"
  have k: "\<not> rat_of_nat k < 1" "\<not> rat_of_nat k > 65536" "rat_of_nat k \<noteq> -1" using assms(4,5) by (auto simp: not_less)
  have g: "gettoppts sv pt po (rat_of_nat k) plist no_lists excl = do { d0 \<leftarrow> ?base; d \<leftarrow> ?less d0; Some (?tops d) }"
    using k assms(3) by (auto simp: gettoppts_def level_ports_def top_ports_take base_list_def Let_def no_lists_def split: option.split)
  have ok: "most_common k (TCPScan po) (eligible sv pt po plist excl ''tcp'' tcp_ports) (tcp_ports (?tops d)) \<and>
      most_common k (UDPScan po) (eligible sv pt po plist excl ''udp'' udp_ports) (udp_ports (?tops d)) \<and>
      most_common k (SCTPScan po) (eligible sv pt po plist excl ''sctp'' sctp_ports) (sctp_ports (?tops d))" if "?base = Some d0" "?less d0 = Some d" for d0 d
  proof -
    have n: "length (of_proto ''tcp'' (service_table sv)) \<le> numtcpports sv" "length (of_proto ''udp'' (service_table sv)) \<le> numudpports sv"
      "length (of_proto ''sctp'' (service_table sv)) \<le> numsctpports sv" using sv(1) by (simp_all add: table_ok_def)
    note e = admitted_eligible[OF that, symmetric]
    have e1: "eligible sv pt po plist excl ''tcp'' tcp_ports = {s \<in> set (service_table sv). s_proto s = ''tcp'' \<and> admitted d s}"
      by (rule e) (simp_all add: is_port_member_def subtracted_sets)
    have e2: "eligible sv pt po plist excl ''udp'' udp_ports = {s \<in> set (service_table sv). s_proto s = ''udp'' \<and> admitted d s}"
      by (rule e) (simp_all add: is_port_member_def subtracted_sets)
    have e3: "eligible sv pt po plist excl ''sctp'' sctp_ports = {s \<in> set (service_table sv). s_proto s = ''sctp'' \<and> admitted d s}"
      by (rule e) (simp_all add: is_port_member_def subtracted_sets)
    show ?thesis using chosen_most_common[OF sv n(1) e1] chosen_most_common[OF sv n(2) e2] chosen_most_common[OF sv n(3) e3] by simp
  qed
  have f: "?base = None \<or> (\<exists>d0. ?base = Some d0 \<and> ?less d0 = None) \<longleftrightarrow>
      (\<exists>x. base_list plist excl = Some x \<and> (getpts sv pt po x no_lists = None \<or> (\<exists>e. excl = Some e \<and> getpts sv pt po e no_lists = None)))"
    by (cases "base_list plist excl"; cases excl; cases "getpts sv pt po (the (base_list plist excl)) no_lists") (auto simp: removepts_def split: bind_splits)
  have none: "gettoppts sv pt po (rat_of_nat k) plist no_lists excl = None \<longleftrightarrow> ?base = None \<or> (\<exists>d0. ?base = Some d0 \<and> ?less d0 = None)"
    unfolding g by (auto split: bind_splits)
  have some: "\<exists>d0 d. ?base = Some d0 \<and> ?less d0 = Some d \<and> ports = ?tops d" if "gettoppts sv pt po (rat_of_nat k) plist no_lists excl = Some ports" for ports
    using that unfolding g by (auto split: bind_splits)
  have "most_common k (TCPScan po) (eligible sv pt po plist excl ''tcp'' tcp_ports) (tcp_ports ports) \<and>
      most_common k (UDPScan po) (eligible sv pt po plist excl ''udp'' udp_ports) (udp_ports ports) \<and>
      most_common k (SCTPScan po) (eligible sv pt po plist excl ''sctp'' sctp_ports) (sctp_ports ports)"
    if "gettoppts sv pt po (rat_of_nat k) plist no_lists excl = Some ports" for ports
    using some[OF that] ok by blast
  then show ?thesis unfolding none f by simp
qed

theorem top_ports_most_common_witness:
  "\<exists>sv ports. nmap_services_init sample_lines = Some sv \<and> gettoppts sv (\<lambda>_. []) sample_opts (rat_of_nat 2) None no_lists None = Some ports \<and>
    length (tcp_ports ports) = 2 \<and> length (udp_ports ports) = 1 \<and> 53 \<in> set (udp_ports ports)"
proof -
  obtain sv where s: "nmap_services_init sample_lines = Some sv" using sample_init by blast
  have f: "ratio_format sv" using s unfolding sample_init by auto
  have t: "service_table sv = [sample_service ''ftp'' 21 ''tcp'' (1/5), sample_service ''ssh'' 22 ''tcp'' (1/6),
       sample_service ''domain'' 53 ''udp'' (1/4), sample_service ''http'' 80 ''tcp'' (1/2)]" using s unfolding sample_init by auto
  have f1: "eligible sv (\<lambda>_. []) sample_opts None None proto sel = set (filter (\<lambda>s. s_proto s = proto) (service_table sv))" for proto sel
    by (auto simp: eligible_def base_list_def)
  have e: "eligible sv (\<lambda>_. []) sample_opts None None ''tcp'' tcp_ports = {sample_service ''ftp'' 21 ''tcp'' (1/5), sample_service ''ssh'' 22 ''tcp'' (1/6), sample_service ''http'' 80 ''tcp'' (1/2)}"
    "eligible sv (\<lambda>_. []) sample_opts None None ''udp'' udp_ports = {sample_service ''domain'' 53 ''udp'' (1/4)}"
    unfolding f1 t by (simp_all add: sample_service_def)
  have c: "card {sample_service ''ftp'' 21 ''tcp'' (1/5), sample_service ''ssh'' 22 ''tcp'' (1/6), sample_service ''http'' 80 ''tcp'' (1/2)} = 3"
    by (simp add: sample_service_def)
  have o: "TCPScan sample_opts" "UDPScan sample_opts" by (simp_all add: sample_opts_def)
  note m = top_ports_most_common[OF s sample_lines_ok f, of 2 "\<lambda>_. []" sample_opts None None]
  obtain ports where p: "gettoppts sv (\<lambda>_. []) sample_opts (rat_of_nat 2) None no_lists None = Some ports" using m by (auto simp: base_list_def)
  have "most_common 2 True {sample_service ''ftp'' 21 ''tcp'' (1/5), sample_service ''ssh'' 22 ''tcp'' (1/6), sample_service ''http'' 80 ''tcp'' (1/2)} (tcp_ports ports)"
    "most_common 2 True {sample_service ''domain'' 53 ''udp'' (1/4)} (udp_ports ports)" using m p o unfolding e by simp_all
  then have l: "length (tcp_ports ports) = 2" "length (udp_ports ports) = 1" "set (udp_ports ports) \<subseteq> {53}"
    unfolding most_common_def c by (simp_all add: sample_service_def)
  then have "53 \<in> set (udp_ports ports)" by (cases "udp_ports ports") auto
  then show ?thesis using s p l(1,2) by blast
qed

end
