(* ===== verification/Port_Meaning.thy ===== *)
theory Port_Meaning
  imports Port_Grammar
begin

text \<open>
  What a port specification means, said without the code: for each port the set of protocols for which it is selected.  The parser fills its
  table of flags accordingly.  Two things that one would not expect belong to the meaning, since the code does them: a number that is already
  selected for one of the protocols in force is passed over for all of them, and the number of a protocol that is given by its name has its bytes swapped.
\<close>

unbundle bit_operations_syntax

section \<open>Meaning\<close>

datatype port_kind = Tcp_kind | Udp_kind | Sctp_kind | Ip_kind

type_synonym port_marks = "nat \<Rightarrow> port_kind set"

fun letter_kind :: "char \<Rightarrow> port_kind option" where
  "letter_kind c = (if c = CHR ''T'' then Some Tcp_kind else if c = CHR ''U'' then Some Udp_kind
     else if c = CHR ''S'' then Some Sctp_kind else if c = CHR ''P'' then Some Ip_kind else None)"

fun kind_text :: "port_kind \<Rightarrow> string option" where
  "kind_text Tcp_kind = Some ''tcp''"
| "kind_text Udp_kind = Some ''udp''"
| "kind_text Sctp_kind = Some ''sctp''"
| "kind_text Ip_kind = None"

text \<open>The data files know the number for the protocol.\<close>

definition listed :: "services \<Rightarrow> protocols \<Rightarrow> port_kind \<Rightarrow> nat \<Rightarrow> bool" where
  "listed sv pt k p \<longleftrightarrow> (case kind_text k of Some proto \<Rightarrow> \<exists>s \<in> set (service_table sv). s_port s = p \<and> s_proto s = proto
     | None \<Rightarrow> \<exists>e \<in> set (pt (p mod 256)). fst e = p)"

definition range_marks :: "services \<Rightarrow> protocols \<Rightarrow> bool \<Rightarrow> port_kind set \<Rightarrow> nat \<Rightarrow> nat \<Rightarrow> port_marks \<Rightarrow> port_marks" where
  "range_marks sv pt nested K a b t =
     (\<lambda>p. if a \<le> p \<and> p \<le> b \<and> t p \<inter> K = {} then t p \<union> {k \<in> K. nested \<longrightarrow> listed sv pt k p} else t p)"

definition name_hits :: "services \<Rightarrow> protocols \<Rightarrow> port_kind set \<Rightarrow> string \<Rightarrow> (nat \<times> port_kind) set" where
  "name_hits sv pt K m =
     {(s_port s, k) |s k. s \<in> set (service_table sv) \<and> k \<in> K \<and> kind_text k = Some (s_proto s) \<and> glob m (s_name s)} \<union>
     {((fst e mod 256) * 256 + fst e div 256 mod 256, Ip_kind) |e b. Ip_kind \<in> K \<and> b < 256 \<and> e \<in> set (pt b) \<and> glob m (snd e)}"

definition lowest :: "port_kind set \<Rightarrow> nat" where
  "lowest K = (if Ip_kind \<in> K then 0 else 1)"

definition highest :: "port_kind set \<Rightarrow> nat" where
  "highest K = (if Ip_kind \<in> K then 255 else 65535)"

fun bounds :: "port_kind set \<Rightarrow> port_item \<Rightarrow> nat \<times> nat" where
  "bounds K (Single n) = (n, n)"
| "bounds K (Upto n) = (lowest K, n)"
| "bounds K (From n) = (n, highest K)"
| "bounds K (Between a b) = (a, b)"
| "bounds K Whole = (lowest K, highest K)"
| "bounds K (Name m) = (1, 0)"

definition item_marks :: "services \<Rightarrow> protocols \<Rightarrow> bool \<Rightarrow> port_kind set \<Rightarrow> port_item \<Rightarrow> port_marks \<Rightarrow> port_marks option" where
  "item_marks sv pt nested K it t = (case it of
       Name m \<Rightarrow> if length m < 127 \<and> name_hits sv pt K m \<noteq> {} then Some (\<lambda>p. t p \<union> {k. (p, k) \<in> name_hits sv pt K m}) else None
     | _ \<Rightarrow> (let (a, b) = bounds K it in if a \<le> b \<and> b \<le> highest K then Some (range_marks sv pt nested K a b t) else None))"

definition in_force :: "char option \<Rightarrow> port_kind set \<Rightarrow> port_kind set" where
  "in_force d K = (case d of None \<Rightarrow> K | Some c \<Rightarrow> set_option (letter_kind c))"

text \<open>A letter holds for the items after it as well, up to the closing bracket.\<close>

fun entries_marks :: "services \<Rightarrow> protocols \<Rightarrow> port_kind set \<Rightarrow> port_entry list \<Rightarrow> port_marks \<Rightarrow> port_marks option" where
  "entries_marks sv pt K [] t = Some t"
| "entries_marks sv pt K ((d, it) # es) t = Option.bind (item_marks sv pt True (in_force d K) it t) (entries_marks sv pt (in_force d K) es)"

fun ports_marks :: "services \<Rightarrow> protocols \<Rightarrow> port_kind set \<Rightarrow> port_elem list \<Rightarrow> port_marks \<Rightarrow> port_marks option" where
  "ports_marks sv pt K [] t = Some t"
| "ports_marks sv pt K (Plain (d, it) # es) t = Option.bind (item_marks sv pt False (in_force d K) it t) (ports_marks sv pt (in_force d K) es)"
| "ports_marks sv pt K (Group g # es) t = Option.bind (entries_marks sv pt K g t) (ports_marks sv pt K es)"

text \<open>Texts of the language: letters are those of the protocols; names begin with a small letter or a wildcard.\<close>

definition entry_text :: "port_entry \<Rightarrow> bool" where
  "entry_text e \<longleftrightarrow> (\<forall>c. fst e = Some c \<longrightarrow> c \<in> set ''TUSP'') \<and>
     (\<forall>m. snd e = Name m \<longrightarrow> m \<noteq> [] \<and> (islower (hd m) \<or> hd m \<in> set ''*?'') \<and> (\<forall>c \<in> set m. \<not> isspace c \<and> c \<notin> set '',]:'' \<and> c \<noteq> NUL))"

fun elem_text :: "port_elem \<Rightarrow> bool" where
  "elem_text (Plain e) \<longleftrightarrow> entry_text e"
| "elem_text (Group es) \<longleftrightarrow> es \<noteq> [] \<and> (\<forall>e \<in> set es. entry_text e)"

section \<open>Flags as sets\<close>

fun kind_bit :: "port_kind \<Rightarrow> nat" where
  "kind_bit Tcp_kind = 0"
| "kind_bit Udp_kind = 1"
| "kind_bit Sctp_kind = 2"
| "kind_bit Ip_kind = 3"

definition kinds :: "u8 \<Rightarrow> port_kind set" where
  "kinds w = {k. bit w (kind_bit k)}"

definition table_kinds :: "port_table \<Rightarrow> port_marks" where
  "table_kinds tbl = (\<lambda>p. kinds (tbl p))"

lemma kinds_or [simp]: "kinds (v OR w) = kinds v \<union> kinds w"
  by (auto simp: kinds_def bit_simps)

lemma kinds_flags [simp]: "kinds 0 = {}" "kinds 1 = {Tcp_kind}" "kinds 2 = {Udp_kind}" "kinds 4 = {Sctp_kind}" "kinds 8 = {Ip_kind}"
proof -
  have b: "bit (1 :: u8) n \<longleftrightarrow> n = 0" "bit (2 :: u8) n \<longleftrightarrow> n = 1" "bit (4 :: u8) n \<longleftrightarrow> n = 2" "bit (8 :: u8) n \<longleftrightarrow> n = 3" if "n < 8" for n
    using that by (auto simp: less_Suc_eq numeral_eq_Suc)
  have l: "kind_bit k < 8" for k by (cases k) simp_all
  have e: "kind_bit k = 0 \<longleftrightarrow> k = Tcp_kind" "kind_bit k = 1 \<longleftrightarrow> k = Udp_kind" "kind_bit k = 2 \<longleftrightarrow> k = Sctp_kind" "kind_bit k = 3 \<longleftrightarrow> k = Ip_kind" for k
    by (cases k; simp)+
  show "kinds 0 = {}" "kinds 1 = {Tcp_kind}" "kinds 2 = {Udp_kind}" "kinds 4 = {Sctp_kind}" "kinds 8 = {Ip_kind}"
    using b l e by (auto simp: kinds_def)
qed

lemma kinds_if: "kinds (if b then w else 0) = (if b then kinds w else {})"
  by simp

lemma has_kinds:
  assumes "rt < 16"
  shows "has w rt \<longleftrightarrow> kinds w \<inter> kinds rt \<noteq> {}"
proof -
  have "rt = take_bit 4 rt" using assms by (intro word_unat_eq_iff[THEN iffD2]) (simp add: unsigned_take_bit_eq take_bit_eq_mod word_less_nat_alt unat_mod)
  then have n: "bit rt n \<Longrightarrow> n < 4" for n by (metis bit_take_bit_iff)
  have k: "\<exists>k. kind_bit k = n" if "n < 4" for n
  proof -
    have "n = kind_bit Tcp_kind \<or> n = kind_bit Udp_kind \<or> n = kind_bit Sctp_kind \<or> n = kind_bit Ip_kind" using that by auto
    then show ?thesis by metis
  qed
  have "has w rt \<longleftrightarrow> (\<exists>n. bit w n \<and> bit rt n)" using n by (force simp: has_def bit_eq_iff bit_simps)
  also have "\<dots> \<longleftrightarrow> (\<exists>k. bit w (kind_bit k) \<and> bit rt (kind_bit k))" using n k by metis
  finally show ?thesis by (auto simp: kinds_def)
qed

lemma has_kind_flag: "has w 1 \<longleftrightarrow> Tcp_kind \<in> kinds w" "has w 2 \<longleftrightarrow> Udp_kind \<in> kinds w" "has w 4 \<longleftrightarrow> Sctp_kind \<in> kinds w" "has w 8 \<longleftrightarrow> Ip_kind \<in> kinds w"
  by (subst has_kinds; simp)+

lemma table_kinds_mark: "table_kinds (mark p f tbl) = (table_kinds tbl)(p := table_kinds tbl p \<union> kinds f)"
  by (auto simp: table_kinds_def mark_def fun_eq_iff)

section \<open>Ranges\<close>

lemma known_service: "nmap_getservbyport sv p proto \<noteq> None \<longleftrightarrow> (\<exists>s \<in> set (service_table sv). s_port s = p \<and> s_proto s = proto)"
  by (auto simp: nmap_getservbyport_def find_None_iff)

lemma known_protocol: "nmap_getprotbynum pt p \<noteq> None \<longleftrightarrow> (\<exists>e \<in> set (pt (p mod 256)). fst e = p)"
  by (force simp: nmap_getprotbynum_def find_None_iff PROTOCOL_TABLE_SIZE_def)

lemma table_kinds_add_port:
  assumes "rt < 16"
  shows "table_kinds (add_port sv pt nested rt p tbl) = range_marks sv pt nested (kinds rt) p p (table_kinds tbl)"
proof -
  let ?f = "(if has rt SCAN_TCP_PORT \<and> nmap_getservbyport sv p ''tcp'' \<noteq> None then SCAN_TCP_PORT else 0) OR
      (if has rt SCAN_UDP_PORT \<and> nmap_getservbyport sv p ''udp'' \<noteq> None then SCAN_UDP_PORT else 0) OR
      (if has rt SCAN_SCTP_PORT \<and> nmap_getservbyport sv p ''sctp'' \<noteq> None then SCAN_SCTP_PORT else 0) OR
      (if has rt SCAN_PROTOCOLS \<and> nmap_getprotbynum pt p \<noteq> None then SCAN_PROTOCOLS else 0)"
  have "k \<in> kinds ?f \<longleftrightarrow> k \<in> kinds rt \<and> listed sv pt k p" for k
    by (cases k) (simp_all only: kinds_or kinds_if kinds_flags has_kind_flag known_service known_protocol listed_def kind_text.simps option.case, auto)
  then have f: "kinds ?f = {k \<in> kinds rt. listed sv pt k p}" by blast
  have a: "table_kinds (add_port sv pt nested rt p tbl) =
      (if has (tbl p) rt then table_kinds tbl else (table_kinds tbl)(p := table_kinds tbl p \<union> {k \<in> kinds rt. nested \<longrightarrow> listed sv pt k p}))"
    by (simp only: add_port_def table_kinds_mark f split: if_split) simp
  show ?thesis unfolding a has_kinds[OF assms] by (auto simp: range_marks_def table_kinds_def fun_eq_iff)
qed

lemma fold_ports:
  assumes "rt < 16" "distinct ps"
  shows "table_kinds (fold (add_port sv pt nested rt) ps tbl) =
    (\<lambda>p. if p \<in> set ps then range_marks sv pt nested (kinds rt) p p (table_kinds tbl) p else table_kinds tbl p)"
  using assms(2)
proof (induction ps arbitrary: tbl)
  case (Cons q ps)
  then show ?case by (auto simp: table_kinds_add_port[OF assms(1)] range_marks_def fun_eq_iff)
qed simp

lemma table_kinds_add_range:
  "rt < 16 \<Longrightarrow> table_kinds (add_range sv pt nested rt a b tbl) = range_marks sv pt nested (kinds rt) a b (table_kinds tbl)"
  by (auto simp: add_range_def fold_ports range_marks_def fun_eq_iff less_Suc_eq_le simp del: upt_Suc)

section \<open>Names\<close>

definition hits_of :: "port_kind set \<Rightarrow> string \<Rightarrow> service list \<Rightarrow> (nat \<times> port_kind) set" where
  "hits_of K m ss = {(s_port s, k) |s k. s \<in> set ss \<and> k \<in> K \<and> kind_text k = Some (s_proto s) \<and> glob m (s_name s)}"

lemma hits_of_Cons: "hits_of K m (s # ss) = {(s_port s, k) |k. k \<in> K \<and> kind_text k = Some (s_proto s) \<and> glob m (s_name s)} \<union> hits_of K m ss"
  by (auto simp: hits_of_def)

lemma kind_text_iff: "kind_text k = Some proto \<longleftrightarrow>
    (k = Tcp_kind \<and> proto = ''tcp'') \<or> (k = Udp_kind \<and> proto = ''udp'') \<or> (k = Sctp_kind \<and> proto = ''sctp'')"
  by (cases k) auto

lemma mark_service_kinds:
  fixes rt :: u8
  assumes "cstr m" "cstr (s_name s)"
  defines "H \<equiv> {(s_port s, k) |k. k \<in> kinds rt \<and> kind_text k = Some (s_proto s) \<and> glob m (s_name s)}"
  shows "table_kinds (fst (mark_service m rt s (tbl, n))) = (\<lambda>p. table_kinds tbl p \<union> {k. (p, k) \<in> H})"
    "snd (mark_service m rt s (tbl, n)) = (if H = {} then n else n + 1)"
  unfolding H_def
  by (auto simp: mark_service_def wildtest_glob[OF assms(1,2)] has_kind_flag table_kinds_mark kind_text_iff fun_eq_iff)

lemma addports_kinds:
  assumes "cstr m" "\<forall>s \<in> set ss. cstr (s_name s)"
  shows "table_kinds (fst (fold (mark_service m rt) ss (tbl, n))) = (\<lambda>p. table_kinds tbl p \<union> {k. (p, k) \<in> hits_of (kinds rt) m ss}) \<and>
    n \<le> snd (fold (mark_service m rt) ss (tbl, n)) \<and> (snd (fold (mark_service m rt) ss (tbl, n)) = n \<longleftrightarrow> hits_of (kinds rt) m ss = {})"
  using assms(2)
proof (induction ss arbitrary: tbl n)
  case Nil
  then show ?case by (simp add: hits_of_def)
next
  case (Cons s ss)
  obtain tbl1 n1 where m: "mark_service m rt s (tbl, n) = (tbl1, n1)" by (metis surj_pair)
  have c: "cstr (s_name s)" using Cons.prems by simp
  note k = mark_service_kinds[OF assms(1) c, of rt tbl n, unfolded m fst_conv snd_conv]
  show ?case using Cons.IH[of tbl1 n1] Cons.prems k by (auto simp: m hits_of_Cons fun_eq_iff split: if_splits)
qed

lemma addprotocols_kinds:
  assumes "cstr m" "\<forall>e \<in> set es. cstr (snd e)"
  defines "F \<equiv> \<lambda>e (tbl, t). if wildtest m (snd e) then (mark (ntohs (fst e)) SCAN_PROTOCOLS tbl, t + 1) else (tbl, t :: nat)"
  shows "table_kinds (fst (fold F es (tbl, n))) = (\<lambda>p. table_kinds tbl p \<union> {k. k = Ip_kind \<and> (\<exists>e \<in> set es. p = ntohs (fst e) \<and> glob m (snd e))}) \<and>
    n \<le> snd (fold F es (tbl, n)) \<and> (snd (fold F es (tbl, n)) = n \<longleftrightarrow> (\<forall>e \<in> set es. \<not> glob m (snd e)))"
  using assms(2)
proof (induction es arbitrary: tbl n)
  case (Cons e es)
  have c: "wildtest m (snd e) = glob m (snd e)" using wildtest_glob[OF assms(1)] Cons.prems by simp
  let ?t = "if glob m (snd e) then mark (ntohs (fst e)) SCAN_PROTOCOLS tbl else tbl" and ?n = "if glob m (snd e) then n + 1 else n"
  have f: "F e (tbl, n) = (?t, ?n)" by (simp add: F_def c)
  show ?case using Cons.IH[of ?t ?n] Cons.prems by (auto simp: f table_kinds_mark fun_eq_iff split: if_splits)
qed simp

definition names_ok :: "services \<Rightarrow> protocols \<Rightarrow> bool" where
  "names_ok sv pt \<longleftrightarrow> (\<forall>s \<in> set (service_table sv). cstr (s_name s)) \<and> (\<forall>b < 256. \<forall>e \<in> set (pt b). cstr (snd e))"

lemma add_mask_kinds:
  assumes "names_ok sv pt" "cstr m"
  shows "map_option table_kinds (add_mask sv pt rt m tbl) =
    (if name_hits sv pt (kinds rt) m = {} then None else Some (\<lambda>p. table_kinds tbl p \<union> {k. (p, k) \<in> name_hits sv pt (kinds rt) m}))"
proof -
  let ?es = "concat (map pt [0..<256])"
  obtain tbl1 i where a: "addportsfromservmask sv m tbl rt = (tbl1, i)" by (metis surj_pair)
  have s: "table_kinds tbl1 = (\<lambda>p. table_kinds tbl p \<union> {k. (p, k) \<in> hits_of (kinds rt) m (service_table sv)})" "i = 0 \<longleftrightarrow> hits_of (kinds rt) m (service_table sv) = {}"
    using addports_kinds[OF assms(2), of "service_table sv" rt tbl 0] assms(1) a by (simp_all add: names_ok_def addportsfromservmask_def)
  obtain tbl2 j where b: "(if has rt SCAN_PROTOCOLS then addprotocolsfromservmask pt m tbl1 else (tbl1, 0)) = (tbl2, j)" by (metis surj_pair)
  have e: "e \<in> set ?es \<longleftrightarrow> (\<exists>b < 256. e \<in> set (pt b))" for e by auto
  have "cstr (snd x)" if "x \<in> set ?es" for x using that assms(1) unfolding e names_ok_def by blast
  then have c: "\<forall>e \<in> set ?es. cstr (snd e)" by blast
  have p: "table_kinds tbl2 = (\<lambda>p. table_kinds tbl1 p \<union> {k. k = Ip_kind \<and> Ip_kind \<in> kinds rt \<and> (\<exists>e \<in> set ?es. p = ntohs (fst e) \<and> glob m (snd e))})"
    "j = 0 \<longleftrightarrow> \<not> (Ip_kind \<in> kinds rt \<and> (\<exists>e \<in> set ?es. glob m (snd e)))"
    using addprotocols_kinds[OF assms(2) c, of tbl1 0] b
    by (simp_all only: addprotocolsfromservmask_def PROTOCOL_TABLE_SIZE_def has_kind_flag split: if_splits) auto
  have h: "name_hits sv pt (kinds rt) m = hits_of (kinds rt) m (service_table sv) \<union>
      {(ntohs (fst e), Ip_kind) |e. Ip_kind \<in> kinds rt \<and> e \<in> set ?es \<and> glob m (snd e)}"
    unfolding e name_hits_def hits_of_def ntohs_def by blast
  have "add_mask sv pt rt m tbl = (if i + j = 0 then None else Some tbl2)" using b by (simp add: add_mask_def a Let_def)
  moreover have "j = 0 \<longleftrightarrow> {(ntohs (fst e), Ip_kind) |e. Ip_kind \<in> kinds rt \<and> e \<in> set ?es \<and> glob m (snd e)} = {}" using p(2) by blast
  then have "i + j = 0 \<longleftrightarrow> name_hits sv pt (kinds rt) m = {}" using s(2) unfolding h by simp
  moreover have "table_kinds tbl2 = (\<lambda>p. table_kinds tbl p \<union> {k. (p, k) \<in> name_hits sv pt (kinds rt) m})" unfolding h p(1) s(1) by (rule ext) blast
  ultimately show ?thesis by simp
qed

section \<open>Specifications\<close>

lemma item_range_bounds: "rt < 16 \<Longrightarrow> item_range rt it = bounds (kinds rt) it"
  by (cases it) (auto simp: first_number_def last_number_def lowest_def highest_def has_kind_flag)

lemma range_valid_bounds: "range_valid rt ab \<longleftrightarrow> fst ab \<le> snd ab \<and> snd ab \<le> highest (kinds rt)"
  by (simp add: range_valid_def last_number_def highest_def has_kind_flag)

definition item_text :: "port_item \<Rightarrow> bool" where
  "item_text it \<longleftrightarrow> (\<forall>m. it = Name m \<longrightarrow> cstr m)"

lemma run_item_marks:
  assumes "names_ok sv pt" "rt < 16" "item_text it"
  shows "map_option table_kinds (run_item sv pt nested rt it tbl) = item_marks sv pt nested (kinds rt) it (table_kinds tbl)"
proof (cases "\<exists>m. it = Name m")
  case True
  then obtain m where m: "it = Name m" "cstr m" using assms(3) by (auto simp: item_text_def)
  show ?thesis using add_mask_kinds[OF assms(1) m(2), of rt tbl] by (cases "length m < 127") (simp_all add: run_item_def item_marks_def m(1))
next
  case False
  obtain a b where ab: "bounds (kinds rt) it = (a, b)" by (metis surj_pair)
  have "run_item sv pt nested rt it tbl = (if range_valid rt (item_range rt it)
      then Some (add_range sv pt nested rt (fst (item_range rt it)) (snd (item_range rt it)) tbl) else None)"
    using False by (cases it) (simp_all add: run_item_def)
  then have "run_item sv pt nested rt it tbl = (if a \<le> b \<and> b \<le> highest (kinds rt) then Some (add_range sv pt nested rt a b tbl) else None)"
    unfolding item_range_bounds[OF assms(2)] ab by (simp add: range_valid_bounds)
  moreover have "item_marks sv pt nested (kinds rt) it (table_kinds tbl) = (let (a, b) = bounds (kinds rt) it in
      if a \<le> b \<and> b \<le> highest (kinds rt) then Some (range_marks sv pt nested (kinds rt) a b (table_kinds tbl)) else None)"
    using False by (cases it) (simp_all only: item_marks_def port_item.case, simp)
  then have "item_marks sv pt nested (kinds rt) it (table_kinds tbl) =
      (if a \<le> b \<and> b \<le> highest (kinds rt) then Some (range_marks sv pt nested (kinds rt) a b (table_kinds tbl)) else None)"
    unfolding ab by simp
  ultimately show ?thesis by (simp add: table_kinds_add_range[OF assms(2)])
qed

lemma letter_flag: "(case range_specifier c of None \<Rightarrow> letter_kind c = None | Some f \<Rightarrow> f < 16 \<and> kinds f = set_option (letter_kind c))"
  by (simp add: range_specifier_def)

lemma specified_in_force:
  assumes "\<forall>c. d = Some c \<longrightarrow> c \<in> set ''TUSP''" "rt < 16"
  shows "specified d rt < 16" "kinds (specified d rt) = in_force d (kinds rt)"
  using assms letter_flag[of "the d"] by (auto simp: specified_def in_force_def range_specifier_def split: option.splits)

lemma entry_text_ok:
  assumes "entry_text e"
  shows "entry_ok e" "item_text (snd e)" "\<forall>c. fst e = Some c \<longrightarrow> c \<in> set ''TUSP''"
proof -
  show "\<forall>c. fst e = Some c \<longrightarrow> c \<in> set ''TUSP''" using assms by (simp add: entry_text_def)
  then show "entry_ok e" using assms by (auto simp: entry_text_def entry_ok_def range_specifier_def mask_start_def mask_char_def)
  show "item_text (snd e)" using assms by (auto simp: entry_text_def item_text_def cstr_def)
qed

lemma elem_text_ok: "elem_text x \<Longrightarrow> elem_ok x"
  using entry_text_ok(1) by (cases x) auto

lemma run_entries_marks:
  assumes "names_ok sv pt" "rt < 16" "\<forall>e \<in> set es. entry_text e"
  shows "map_option table_kinds (run_entries sv pt True rt es tbl) = entries_marks sv pt (kinds rt) es (table_kinds tbl)"
  using assms(2,3)
proof (induction es arbitrary: rt tbl)
  case (Cons e es)
  obtain d it where e: "e = (d, it)" by (cases e)
  note t = entry_text_ok[of e, unfolded e fst_conv snd_conv]
  have et: "entry_text (d, it)" using Cons.prems(2) e by simp
  note f = specified_in_force[OF t(3)[OF et] Cons.prems(1)]
  note i = run_item_marks[OF assms(1) f(1) t(2)[OF et], of True tbl, unfolded f(2)]
  show ?case
  proof (cases "run_item sv pt True (specified d rt) it tbl")
    case None
    then show ?thesis using i e by simp
  next
    case (Some tbl1)
    then have "item_marks sv pt True (in_force d (kinds rt)) it (table_kinds tbl) = Some (table_kinds tbl1)" using i by simp
    then show ?thesis using Cons.IH[OF f(1), of tbl1] Cons.prems(2) f(2) Some e by simp
  qed
qed simp

lemma run_ports_marks:
  assumes "names_ok sv pt" "rt < 16" "\<forall>x \<in> set es. elem_text x"
  shows "map_option table_kinds (run_ports sv pt rt es tbl) = ports_marks sv pt (kinds rt) es (table_kinds tbl)"
  using assms(2,3)
proof (induction es arbitrary: rt tbl)
  case (Cons x es)
  show ?case
  proof (cases x)
    case (Group g)
    note i = run_entries_marks[OF assms(1) Cons.prems(1), of g tbl]
    show ?thesis
    proof (cases "run_entries sv pt True rt g tbl")
      case None
      then show ?thesis using i Cons.prems(2) Group by simp
    next
      case (Some tbl1)
      then have "entries_marks sv pt (kinds rt) g (table_kinds tbl) = Some (table_kinds tbl1)" using i Cons.prems(2) Group by simp
      then show ?thesis using Cons.IH[OF Cons.prems(1), of tbl1] Cons.prems(2) Some Group by simp
    qed
  next
    case (Plain e)
    obtain d it where e: "e = (d, it)" by (cases e)
    note t = entry_text_ok[of e, unfolded e fst_conv snd_conv]
    have et: "entry_text (d, it)" using Cons.prems(2) Plain e by simp
    note f = specified_in_force[OF t(3)[OF et] Cons.prems(1)]
    note i = run_item_marks[OF assms(1) f(1) t(2)[OF et], of False tbl, unfolded f(2)]
    show ?thesis
    proof (cases "run_item sv pt False (specified d rt) it tbl")
      case None
      then show ?thesis using i Plain e by simp
    next
      case (Some tbl1)
      then have "item_marks sv pt False (in_force d (kinds rt)) it (table_kinds tbl) = Some (table_kinds tbl1)" using i by simp
      then show ?thesis using Cons.IH[OF f(1), of tbl1] Cons.prems(2) f(2) Some Plain e by simp
    qed
  qed
qed simp

text \<open>C5. The parser of port specifications accepts exactly those texts of the grammar whose meaning is defined, and its table then selects, for
  every number, exactly the protocols of the meaning: ranges with their open ends and limits, names with wildcards, letters that hold up to the end
  of the brackets around them, and brackets that keep only what the data files know.\<close>

theorem getpts_aux_denotes:
  assumes "es \<noteq> []" "\<forall>x \<in> set es. elem_text x" "names_ok sv pt" "rt < 16"
  shows "map_option table_kinds (getpts_aux sv pt False True rt (show_ports es) tbl) = ports_marks sv pt (kinds rt) es (table_kinds tbl)"
proof -
  have "\<forall>x \<in> set es. elem_ok x" using assms(2) elem_text_ok by blast
  then show ?thesis using getpts_aux_run[OF assms(1)] run_ports_marks[OF assms(3,4,2)] by simp
qed

definition one_service :: services where
  "one_service = no_services\<lparr>service_table := [\<lparr>s_name = ''game'', s_port = 60001, s_proto = ''udp'', s_ratio = 0\<rparr>]\<rparr>"

theorem getpts_aux_denotes_witness:
  "map_option table_kinds (getpts_aux one_service (\<lambda>_. []) False True 3
      (show_ports [Plain (None, Single 22), Group [(Some CHR ''U'', From 60000)], Plain (Some CHR ''T'', Upto 9)]) (\<lambda>_. 0)) =
    Some (\<lambda>p. if p = 22 then {Tcp_kind, Udp_kind} else if p = 60001 then {Udp_kind} else if 1 \<le> p \<and> p \<le> 9 then {Tcp_kind} else {})"
proof -
  let ?es = "[Plain (None, Single 22), Group [(Some CHR ''U'', From 60000)], Plain (Some CHR ''T'', Upto 9)]"
  have k: "kinds 3 = {Tcp_kind, Udp_kind}" using kinds_or[of 1 2] by auto
  have l: "listed one_service (\<lambda>_. []) Udp_kind p \<longleftrightarrow> p = 60001" for p by (auto simp: listed_def one_service_def)
  have "map_option table_kinds (getpts_aux one_service (\<lambda>_. []) False True 3 (show_ports ?es) (\<lambda>_. 0)) =
      ports_marks one_service (\<lambda>_. []) (kinds 3) ?es (table_kinds (\<lambda>_. 0))"
    by (rule getpts_aux_denotes) (simp_all add: entry_text_def names_ok_def one_service_def no_services_def NUL_def)
  also have "\<dots> = Some (\<lambda>p. if p = 22 then {Tcp_kind, Udp_kind} else if p = 60001 then {Udp_kind} else if 1 \<le> p \<and> p \<le> 9 then {Tcp_kind} else {})"
    by (auto simp: k item_marks_def in_force_def range_marks_def lowest_def highest_def table_kinds_def l fun_eq_iff)
  finally show ?thesis .
qed

end
