(* ===== verification/Port_Setup.thy ===== *)
theory Port_Setup
  imports Port_Results Port_Meaning
begin

text \<open>
  The ports just before a scan: shuffling them loses none and puts the popular ones first, excluded ports are gone, and the maps and
  lists satisfy what the scan engine is proved for.  Then the specifications that do not mean what they say.
\<close>

unbundle bit_operations_syntax

section \<open>Shuffling\<close>

lemma mset_swap_at: "i < length a \<Longrightarrow> j < length a \<Longrightarrow> mset (swap i j a) = mset a"
  by (simp add: swap_def mset_swap)

lemma length_swap [simp]: "length (swap i j a) = length a"
  by (simp add: swap_def)

lemma mset_fold:
  assumes "\<And>i a. i < length a \<Longrightarrow> mset (f i a) = mset a"
  shows "\<forall>i \<in> set is. i < length a \<Longrightarrow> mset (fold f is a) = mset a"
proof (induction "is" arbitrary: a)
  case (Cons i js)
  then have "mset (f i a) = mset a" using assms by simp
  moreover have "length (f i a) = length a" using mset_eq_length[OF calculation] .
  ultimately show ?case using Cons by simp
qed simp

lemma mset_shortfry: "mset (shortfry rnd a) = mset a"
  unfolding shortfry_def
proof (rule mset_fold)
  fix i and a :: "nat list"
  assume i: "i < length a"
  have "rnd i mod (i + 1) \<le> i" using mod_less_divisor[of "i + 1" "rnd i"] by linarith
  then have "rnd i mod (i + 1) < length a" using i by (rule le_less_trans)
  then show "mset (let num = rnd i mod (i + 1) in if i = num then a else swap i num a) = mset a" using mset_swap_at[OF i] by (simp add: Let_def)
qed simp

lemma mset_random_port_cheat: "mset (random_port_cheat a) = mset a"
  using random_port_cheat_perm by blast

section \<open>The maps\<close>

lemma init_step:
  assumes "statics_ok st" "port_map_rev st (INPROTO2PORTLISTPROTO proto) = None" "distinct ports"
    and "INPROTO2PORTLISTPROTO proto = PORTLIST_PROTO_IP \<Longrightarrow> \<forall>q \<in> set ports. q < 256"
  shows "\<exists>st'. initializePortMap st proto ports = Some st' \<and> statics_ok st' \<and> port_map_rev st' = (port_map_rev st)(INPROTO2PORTLISTPROTO proto := Some ports)"
proof -
  let ?p = "INPROTO2PORTLISTPROTO proto"
  have "proto_map_ok ?p (port_map st ?p) None (port_list_count st ?p)" using assms(1,2) unfolding statics_ok_def by metis
  then have "port_map st ?p = None" "port_list_count st ?p = 0" by (auto simp: proto_map_ok_def split: option.splits)
  then obtain st' where i: "initializePortMap st proto ports = Some st'" "port_map_rev st' = (port_map_rev st)(?p := Some ports)"
    using assms(2) by (simp add: initializePortMap_def Let_def)
  then show ?thesis using initializePortMap_ok[OF assms(1,3) i(1) assms(4)] by blast
qed

lemma protos [simp]: "INPROTO2PORTLISTPROTO 0 = PORTLIST_PROTO_IP" "INPROTO2PORTLISTPROTO 6 = PORTLIST_PROTO_TCP" "INPROTO2PORTLISTPROTO 17 = PORTLIST_PROTO_UDP"
  "INPROTO2PORTLISTPROTO 132 = PORTLIST_PROTO_SCTP"
  by (simp_all add: INPROTO2PORTLISTPROTO_def)

lemma init_if:
  assumes "statics_ok st" "b \<Longrightarrow> port_map_rev st (INPROTO2PORTLISTPROTO proto) = None" "strict n ports" "INPROTO2PORTLISTPROTO proto = PORTLIST_PROTO_IP \<Longrightarrow> n = 256"
  shows "\<exists>st'. (if b then initializePortMap st proto ports else Some st) = Some st' \<and> statics_ok st' \<and>
    port_map_rev st' = (if b then (port_map_rev st)(INPROTO2PORTLISTPROTO proto := Some ports) else port_map_rev st)"
  using init_step[of st proto ports] assms by (cases b) (auto simp: strict_def strict_sorted_iff)

lemma init_port_maps_ok:
  assumes "port_lists_ok ports"
  shows "\<exists>st. init_port_maps po ports = Some st \<and> statics_ok st \<and>
    (ipprotscan po \<longrightarrow> port_map_rev st PORTLIST_PROTO_IP = Some (prots ports)) \<and> (TCPScan po \<longrightarrow> port_map_rev st PORTLIST_PROTO_TCP = Some (tcp_ports ports)) \<and>
    (UDPScan po \<longrightarrow> port_map_rev st PORTLIST_PROTO_UDP = Some (udp_ports ports)) \<and> (SCTPScan po \<longrightarrow> port_map_rev st PORTLIST_PROTO_SCTP = Some (sctp_ports ports))"
proof -
  have s0: "statics_ok statics0" by (simp add: statics_ok_def proto_map_ok_def statics0_def)
  have r0: "port_map_rev statics0 = (\<lambda>_. None)" by (simp add: statics0_def)
  have p: "strict 65536 (tcp_ports ports)" "strict 65536 (udp_ports ports)" "strict 65536 (sctp_ports ports)" "strict 256 (prots ports)"
    using assms by (simp_all add: port_lists_ok_def)
  obtain st1 where 1: "(if ipprotscan po then initializePortMap statics0 0 (prots ports) else Some statics0) = Some st1" "statics_ok st1"
    "port_map_rev st1 = (if ipprotscan po then (\<lambda>_. None)(PORTLIST_PROTO_IP := Some (prots ports)) else (\<lambda>_. None))"
    using init_if[OF s0 _ p(4), of "ipprotscan po" 0] unfolding r0 protos by blast
  have n1: "port_map_rev st1 PORTLIST_PROTO_TCP = None" by (simp add: 1(3))
  obtain st2 where 2: "(if TCPScan po then initializePortMap st1 6 (tcp_ports ports) else Some st1) = Some st2" "statics_ok st2"
    "port_map_rev st2 = (if TCPScan po then (port_map_rev st1)(PORTLIST_PROTO_TCP := Some (tcp_ports ports)) else port_map_rev st1)"
    using init_if[OF 1(2) _ p(1), of "TCPScan po" 6] n1 unfolding protos by blast
  have n2: "port_map_rev st2 PORTLIST_PROTO_UDP = None" by (simp add: 1(3) 2(3))
  obtain st3 where 3: "(if UDPScan po then initializePortMap st2 17 (udp_ports ports) else Some st2) = Some st3" "statics_ok st3"
    "port_map_rev st3 = (if UDPScan po then (port_map_rev st2)(PORTLIST_PROTO_UDP := Some (udp_ports ports)) else port_map_rev st2)"
    using init_if[OF 2(2) _ p(2), of "UDPScan po" 17] n2 unfolding protos by blast
  have n3: "port_map_rev st3 PORTLIST_PROTO_SCTP = None" by (simp add: 1(3) 2(3) 3(3))
  obtain st4 where 4: "(if SCTPScan po then initializePortMap st3 132 (sctp_ports ports) else Some st3) = Some st4" "statics_ok st4"
    "port_map_rev st4 = (if SCTPScan po then (port_map_rev st3)(PORTLIST_PROTO_SCTP := Some (sctp_ports ports)) else port_map_rev st3)"
    using init_if[OF 3(2) _ p(3), of "SCTPScan po" 132] n3 unfolding protos by blast
  have "init_port_maps po ports = Some st4" unfolding init_port_maps_def 1(1) using 2(1) 3(1) 4(1) by simp
  moreover have "ipprotscan po \<longrightarrow> port_map_rev st4 PORTLIST_PROTO_IP = Some (prots ports)" "TCPScan po \<longrightarrow> port_map_rev st4 PORTLIST_PROTO_TCP = Some (tcp_ports ports)"
    "UDPScan po \<longrightarrow> port_map_rev st4 PORTLIST_PROTO_UDP = Some (udp_ports ports)" "SCTPScan po \<longrightarrow> port_map_rev st4 PORTLIST_PROTO_SCTP = Some (sctp_ports ports)"
    by (simp_all add: 1(3) 2(3) 3(3) 4(3))
  ultimately show ?thesis using 4(2) by blast
qed

lemma randomize_sets:
  "set (tcp_ports (randomize po rnd l)) = set (tcp_ports l)" "set (udp_ports (randomize po rnd l)) = set (udp_ports l)"
  "set (sctp_ports (randomize po rnd l)) = set (sctp_ports l)" "set (prots (randomize po rnd l)) = set (prots l)"
proof -
  have f: "set (shortfry r ps) = set ps" for r ps by (rule mset_eq_setD[OF mset_shortfry])
  have c: "set (random_port_cheat ps) = set ps" for ps by (rule mset_eq_setD[OF mset_random_port_cheat])
  show "set (tcp_ports (randomize po rnd l)) = set (tcp_ports l)" "set (udp_ports (randomize po rnd l)) = set (udp_ports l)"
    "set (sctp_ports (randomize po rnd l)) = set (sctp_ports l)" "set (prots (randomize po rnd l)) = set (prots l)"
    by (simp_all add: randomize_def f c)
qed

section \<open>Ready to scan\<close>

text \<open>C4. Once ports have been chosen, the maps can be set up, and every scan of a type that the options ask for, over these ports, satisfies
  what the scan engine requires of its configuration.\<close>

theorem setup_fits_scan:
  assumes "nmap_services_init ls = Some sv" "\<forall>l \<in> set ls. l_port l < 65536" "choose_ports sv pt po no_lists \<noteq> None"
  shows "\<exists>ports st. setup_ports sv pt po rnd no_lists = Some (ports, st) \<and>
    (\<forall>c. plists c = ports \<and> statics c = st \<and> ultra_scantype c \<and> perf_ok (perf c) \<and> min_rtt_timeout (tops c) \<le> max_rtt_timeout (tops c) \<and>
      (tcp_scan c \<longrightarrow> TCPScan po) \<and> (udp_scan c \<longrightarrow> UDPScan po) \<and> (sctp_scan c \<longrightarrow> SCTPScan po) \<and> (prot_scan c \<longrightarrow> ipprotscan po) \<longrightarrow> cfg_ok c)"
proof -
  obtain ports0 where p: "choose_ports sv pt po no_lists = Some ports0" using assms(3) by blast
  have "port_lists_ok no_lists" by (simp add: port_lists_ok_def no_lists_def)
  from choose_ports_ok[OF services_init_ok[OF assms(1,2)] this p] have ok: "port_lists_ok ports0" .
  obtain st where st: "init_port_maps po ports0 = Some st" "statics_ok st"
    "ipprotscan po \<longrightarrow> port_map_rev st PORTLIST_PROTO_IP = Some (prots ports0)" "TCPScan po \<longrightarrow> port_map_rev st PORTLIST_PROTO_TCP = Some (tcp_ports ports0)"
    "UDPScan po \<longrightarrow> port_map_rev st PORTLIST_PROTO_UDP = Some (udp_ports ports0)" "SCTPScan po \<longrightarrow> port_map_rev st PORTLIST_PROTO_SCTP = Some (sctp_ports ports0)"
    using init_port_maps_ok[OF ok] by blast
  let ?ports = "randomize po rnd ports0"
  have "cfg_ok c" if c: "plists c = ?ports" "statics c = st" "ultra_scantype c" "perf_ok (perf c)" "min_rtt_timeout (tops c) \<le> max_rtt_timeout (tops c)"
    "tcp_scan c \<longrightarrow> TCPScan po" "udp_scan c \<longrightarrow> UDPScan po" "sctp_scan c \<longrightarrow> SCTPScan po" "prot_scan c \<longrightarrow> ipprotscan po" for c
  proof -
    have "\<forall>no \<in> set (scan_ports c). scanned st (if tcp_scan c then 6 else if udp_scan c then 17 else if sctp_scan c then 132 else 0) no" if "\<not> ping_scan c"
      using c(3)
    proof (cases rule: scan_kinds)
    qed (use that c(1,6-9) st(3-6) in \<open>auto simp: scanned_def scan_ports_def randomize_sets Let_def\<close>)
    then show ?thesis using c(2-5) st(2) by (simp add: cfg_ok_def)
  qed
  moreover have "setup_ports sv pt po rnd no_lists = Some (?ports, st)" using p st(1) by (simp add: setup_ports_def)
  ultimately show ?thesis by blast
qed

theorem setup_fits_scan_witness:
  "\<exists>sv ports st. nmap_services_init sample_lines = Some sv \<and> setup_ports sv (\<lambda>_. []) sample_top (\<lambda>_ i. i div 2) no_lists = Some (ports, st) \<and>
    cfg_ok (example_cfg\<lparr>plists := ports, statics := st\<rparr>)"
proof -
  obtain sv where s: "nmap_services_init sample_lines = Some sv" using sample_init by blast
  have n: "choose_ports sv (\<lambda>_. []) sample_top no_lists \<noteq> None" using sample_chosen[OF s] by simp
  obtain ports st where p: "setup_ports sv (\<lambda>_. []) sample_top (\<lambda>_ i. i div 2) no_lists = Some (ports, st)"
    "\<forall>c. plists c = ports \<and> statics c = st \<and> ultra_scantype c \<and> perf_ok (perf c) \<and> min_rtt_timeout (tops c) \<le> max_rtt_timeout (tops c) \<and>
      (tcp_scan c \<longrightarrow> TCPScan sample_top) \<and> (udp_scan c \<longrightarrow> UDPScan sample_top) \<and> (sctp_scan c \<longrightarrow> SCTPScan sample_top) \<and>
      (prot_scan c \<longrightarrow> ipprotscan sample_top) \<longrightarrow> cfg_ok c"
    using setup_fits_scan[OF s sample_lines_ok n] by blast
  let ?c = "example_cfg\<lparr>plists := ports, statics := st\<rparr>"
  have "ultra_scantype ?c" "perf_ok (perf ?c)" "min_rtt_timeout (tops ?c) \<le> max_rtt_timeout (tops ?c)" "\<not> sctp_scan ?c" "\<not> prot_scan ?c" "\<not> udp_scan ?c"
    by (simp_all add: ultra_scantype_def perf_ok_def example_cfg_def scan_kind_defs)
  moreover have "TCPScan sample_top" by (simp add: sample_top_def sample_opts_def)
  ultimately have "cfg_ok ?c" using p(2) by simp
  then show ?thesis using s p(1) by blast
qed

section \<open>Excluded ports\<close>

text \<open>The protocols for which the text of \<open>--exclude-ports\<close> is read: those of the scan, and without a scan TCP, UDP and SCTP.\<close>

definition exclusion_kinds :: "port_opts \<Rightarrow> port_kind set" where
  "exclusion_kinds po = {k. case k of Tcp_kind \<Rightarrow> TCPScan po \<or> noportscan po | Udp_kind \<Rightarrow> UDPScan po \<or> noportscan po
     | Sctp_kind \<Rightarrow> SCTPScan po \<or> noportscan po | Ip_kind \<Rightarrow> ipprotscan po}"

lemma range_type_kinds:
  assumes "exclude_portlist po \<noteq> None"
  shows "default_range_type po < 16" "kinds (default_range_type po) = exclusion_kinds po"
proof -
  have f: "kinds (flag b w) = (if b then kinds w else {})" for b w by (simp add: flag_def)
  show "kinds (default_range_type po) = exclusion_kinds po"
    using assms unfolding default_range_type_def Let_def kinds_or f kinds_flags exclusion_kinds_def by (auto split: port_kind.splits)
  have "default_range_type po = flag (TCPScan po \<or> noportscan po) 1 OR flag (UDPScan po \<or> noportscan po) 2 OR
      flag (SCTPScan po \<or> noportscan po) 4 OR flag (ipprotscan po) 8" using assms by (simp add: default_range_type_def Let_def)
  then show "default_range_type po < 16"
    by (cases "TCPScan po \<or> noportscan po"; cases "UDPScan po \<or> noportscan po"; cases "SCTPScan po \<or> noportscan po"; cases "ipprotscan po") (simp_all only: flag_def if_True if_False, simp_all)
qed

lemma ports_with_kinds:
  "set (ports_with 1 n tbl) = {p. p < n \<and> Tcp_kind \<in> table_kinds tbl p}" "set (ports_with 2 n tbl) = {p. p < n \<and> Udp_kind \<in> table_kinds tbl p}"
  "set (ports_with 4 n tbl) = {p. p < n \<and> Sctp_kind \<in> table_kinds tbl p}" "set (ports_with 8 n tbl) = {p. p < n \<and> Ip_kind \<in> table_kinds tbl p}"
  by (auto simp: ports_with_def has_kind_flag table_kinds_def)

lemma getpts_marks:
  assumes "getpts sv pt po (show_ports es) no_lists = Some ex" "exclude_portlist po \<noteq> None" "es \<noteq> []" "\<forall>x \<in> set es. elem_text x" "names_ok sv pt"
  shows "\<exists>M. ports_marks sv pt (exclusion_kinds po) es (\<lambda>_. {}) = Some M \<and> set (tcp_ports ex) = {p. p < 65536 \<and> Tcp_kind \<in> M p} \<and>
    set (udp_ports ex) = {p. p < 65536 \<and> Udp_kind \<in> M p} \<and> set (sctp_ports ex) = {p. p < 65536 \<and> Sctp_kind \<in> M p} \<and>
    set (prots ex) = {p. p < 256 \<and> Ip_kind \<in> M p}"
proof -
  obtain tbl where t: "getpts_aux sv pt False True (default_range_type po) (show_ports es) no_ports = Some tbl"
    "tcp_ports ex = ports_with 1 65536 tbl" "udp_ports ex = ports_with 2 65536 tbl" "sctp_ports ex = ports_with 4 65536 tbl" "prots ex = ports_with 8 256 tbl"
    using assms(1) by (auto simp: getpts_def Let_def split: bind_splits if_splits)
  have "\<forall>x \<in> set es. elem_ok x" using assms(4) elem_text_ok by blast
  then have r: "run_ports sv pt (default_range_type po) es no_ports = Some tbl" using getpts_aux_run[OF assms(3)] t(1) by simp
  have "table_kinds no_ports = (\<lambda>_. {})" by (simp add: table_kinds_def no_ports_def)
  then have "ports_marks sv pt (exclusion_kinds po) es (\<lambda>_. {}) = Some (table_kinds tbl)"
    using run_ports_marks[OF assms(5) range_type_kinds(1)[OF assms(2)] assms(4), of no_ports] r by (simp add: range_type_kinds(2)[OF assms(2)])
  then show ?thesis using t(2-5) by (simp add: ports_with_kinds)
qed

lemma chosen_ping_ports:
  assumes "choose_ports sv pt po ports0 = Some ports1" "exclude_portlist po = Some e"
  shows "\<exists>ex ports2. getpts sv pt po e no_lists = Some ex \<and> ports1 = subtract_ports ex ports2 \<and> syn_ping_ports ports2 = syn_ping_ports ports0 \<and>
    ack_ping_ports ports2 = ack_ping_ports ports0 \<and> udp_ping_ports ports2 = udp_ping_ports ports0 \<and> sctp_ping_ports ports2 = sctp_ping_ports ports0 \<and>
    proto_ping_ports ports2 = proto_ping_ports ports0"
proof -
  let ?same = "\<lambda>l. syn_ping_ports l = syn_ping_ports ports0 \<and> ack_ping_ports l = ack_ping_ports ports0 \<and> udp_ping_ports l = udp_ping_ports ports0 \<and>
    sctp_ping_ports l = sctp_ping_ports ports0 \<and> proto_ping_ports l = proto_ping_ports ports0"
  obtain ports2 where p: "removepts sv pt po (Some e) ports2 = Some ports1"
    "(if ipprotscan po then getpts sv pt po (case portlist po of Some p \<Rightarrow> p | None \<Rightarrow> if fastscan po then ''[P:0-]'' else ''0-'') ports0
       else if \<not> noportscan po then gettoppts sv pt po (topportlevel po) (portlist po) ports0 (exclude_portlist po) else Some ports0) = Some ports2"
    using assms unfolding choose_ports_def by (auto split: bind_splits)
  have g: "?same l" if "getpts sv pt po x ports0 = Some l" for x l using that by (auto simp: getpts_def Let_def split: bind_splits if_splits)
  have t: "?same l" if "gettoppts sv pt po lv pl ports0 xl = Some l" for lv pl xl l
  proof (cases "\<not> ratio_format sv \<or> (lv = -1 \<and> pl \<noteq> None)")
    case True
    then show ?thesis using that g by (auto simp: gettoppts_def split: if_splits)
  next
    case False
    then show ?thesis using that by (fastforce simp: gettoppts_def Let_def split: bind_splits if_splits)
  qed
  have "?same ports2" using p(2) g t by (auto split: if_splits)
  moreover obtain ex where "getpts sv pt po e no_lists = Some ex" "ports1 = subtract_ports ex ports2" using p(1) by (auto simp: removepts_def split: bind_splits)
  ultimately show ?thesis by blast
qed

lemma excluded_pings:
  assumes "setup_ports sv pt po rnd ports0 = Some (ports, st)" "exclude_portlist po = Some (show_ports es)" "es \<noteq> []" "\<forall>x \<in> set es. elem_text x" "names_ok sv pt"
  shows "\<exists>M. ports_marks sv pt (exclusion_kinds po) es (\<lambda>_. {}) = Some M \<and>
    (\<forall>p \<in> set (tcp_ports ports). p < 65536 \<longrightarrow> Tcp_kind \<notin> M p) \<and> (\<forall>p \<in> set (udp_ports ports). p < 65536 \<longrightarrow> Udp_kind \<notin> M p) \<and>
    (\<forall>p \<in> set (sctp_ports ports). p < 65536 \<longrightarrow> Sctp_kind \<notin> M p) \<and> (\<forall>p \<in> set (prots ports). p < 256 \<longrightarrow> Ip_kind \<notin> M p) \<and>
    syn_ping_ports ports = filter (\<lambda>p. \<not> (p < 65536 \<and> Tcp_kind \<in> M p)) (syn_ping_ports ports0) \<and>
    ack_ping_ports ports = filter (\<lambda>p. \<not> (p < 65536 \<and> Tcp_kind \<in> M p)) (ack_ping_ports ports0) \<and>
    udp_ping_ports ports = filter (\<lambda>p. \<not> (p < 65536 \<and> Udp_kind \<in> M p)) (udp_ping_ports ports0) \<and>
    sctp_ping_ports ports = filter (\<lambda>p. \<not> (p < 65536 \<and> Sctp_kind \<in> M p)) (sctp_ping_ports ports0) \<and>
    proto_ping_ports ports = filter (\<lambda>p. \<not> (p < 256 \<and> Ip_kind \<in> M p)) (proto_ping_ports ports0)"
proof -
  obtain ports1 where p: "choose_ports sv pt po ports0 = Some ports1" "ports = randomize po rnd ports1"
    using assms(1) by (auto simp: setup_ports_def split: bind_splits)
  obtain ex ports2 where e: "getpts sv pt po (show_ports es) no_lists = Some ex" "ports1 = subtract_ports ex ports2" "syn_ping_ports ports2 = syn_ping_ports ports0"
    "ack_ping_ports ports2 = ack_ping_ports ports0" "udp_ping_ports ports2 = udp_ping_ports ports0" "sctp_ping_ports ports2 = sctp_ping_ports ports0"
    "proto_ping_ports ports2 = proto_ping_ports ports0" using chosen_ping_ports[OF p(1) assms(2)] by blast
  obtain M where M: "ports_marks sv pt (exclusion_kinds po) es (\<lambda>_. {}) = Some M" "set (tcp_ports ex) = {p. p < 65536 \<and> Tcp_kind \<in> M p}"
    "set (udp_ports ex) = {p. p < 65536 \<and> Udp_kind \<in> M p}" "set (sctp_ports ex) = {p. p < 65536 \<and> Sctp_kind \<in> M p}" "set (prots ex) = {p. p < 256 \<and> Ip_kind \<in> M p}"
    using getpts_marks[OF e(1) _ assms(3-5)] assms(2) by auto
  have pings: "syn_ping_ports ports = syn_ping_ports ports1" "ack_ping_ports ports = ack_ping_ports ports1" "udp_ping_ports ports = udp_ping_ports ports1"
    "sctp_ping_ports ports = sctp_ping_ports ports1" "proto_ping_ports ports = proto_ping_ports ports1" by (simp_all add: p(2) randomize_def)
  have sets: "set (tcp_ports ports) = set (tcp_ports ports2) - set (tcp_ports ex)" "set (udp_ports ports) = set (udp_ports ports2) - set (udp_ports ex)"
    "set (sctp_ports ports) = set (sctp_ports ports2) - set (sctp_ports ex)" "set (prots ports) = set (prots ports2) - set (prots ex)"
    unfolding p(2) randomize_sets e(2) by (auto simp: subtract_ports_def remaining_ports_filter)
  have f: "(\<lambda>p. p \<notin> {p. p < n \<and> k \<in> M p}) = (\<lambda>p. \<not> (p < n \<and> k \<in> M p))" for n k by auto
  have sub: "syn_ping_ports ports = filter (\<lambda>p. p \<notin> set (tcp_ports ex)) (syn_ping_ports ports0)" "ack_ping_ports ports = filter (\<lambda>p. p \<notin> set (tcp_ports ex)) (ack_ping_ports ports0)"
    "udp_ping_ports ports = filter (\<lambda>p. p \<notin> set (udp_ports ex)) (udp_ping_ports ports0)" "sctp_ping_ports ports = filter (\<lambda>p. p \<notin> set (sctp_ports ex)) (sctp_ping_ports ports0)"
    "proto_ping_ports ports = filter (\<lambda>p. p \<notin> set (prots ex)) (proto_ping_ports ports0)"
    unfolding pings e(2) by (simp_all add: subtract_ports_def remaining_ports_filter e(3-7))
  show ?thesis
  proof (intro exI[of _ M] conjI)
    show "ports_marks sv pt (exclusion_kinds po) es (\<lambda>_. {}) = Some M" by (rule M(1))
  qed (use sets sub[unfolded M(2-5) f] in \<open>simp_all add: M(2-5)\<close>)
qed

text \<open>The argument of \<open>--exclude-ports\<close> is read like a port specification for the protocols of the scan (\<^const>\<open>exclusion_kinds\<close>: those of the
  port scan, and TCP, UDP and SCTP if there is none).  Whatever it selects for a protocol, in that meaning, is neither scanned for that protocol nor used by the
  host discovery probes of that protocol, however the ports were chosen and shuffled; and discovery keeps, in order, all other ports that it was
  given, which includes every port of a protocol that the meaning says nothing of: without a UDP scan the plain text \<open>C36. 53\<close> does not keep discovery from UDP port
  53 (lemma \<open>exclusion_misses_udp_pings\<close>).\<close>

theorem excluded_ports_not_scanned:
  assumes "setup_ports sv pt po rnd ports0 = Some (ports, st)" "exclude_portlist po = Some (show_ports es)" "es \<noteq> []" "\<forall>x \<in> set es. elem_text x" "names_ok sv pt"
  shows "\<exists>M. ports_marks sv pt (exclusion_kinds po) es (\<lambda>_. {}) = Some M \<and>
    (\<forall>p \<in> set (tcp_ports ports). p < 65536 \<longrightarrow> Tcp_kind \<notin> M p) \<and> (\<forall>p \<in> set (udp_ports ports). p < 65536 \<longrightarrow> Udp_kind \<notin> M p) \<and>
    (\<forall>p \<in> set (sctp_ports ports). p < 65536 \<longrightarrow> Sctp_kind \<notin> M p) \<and> (\<forall>p \<in> set (prots ports). p < 256 \<longrightarrow> Ip_kind \<notin> M p) \<and>
    syn_ping_ports ports = filter (\<lambda>p. \<not> (p < 65536 \<and> Tcp_kind \<in> M p)) (syn_ping_ports ports0) \<and>
    ack_ping_ports ports = filter (\<lambda>p. \<not> (p < 65536 \<and> Tcp_kind \<in> M p)) (ack_ping_ports ports0) \<and>
    udp_ping_ports ports = filter (\<lambda>p. \<not> (p < 65536 \<and> Udp_kind \<in> M p)) (udp_ping_ports ports0) \<and>
    sctp_ping_ports ports = filter (\<lambda>p. \<not> (p < 65536 \<and> Sctp_kind \<in> M p)) (sctp_ping_ports ports0) \<and>
    proto_ping_ports ports = filter (\<lambda>p. \<not> (p < 256 \<and> Ip_kind \<in> M p)) (proto_ping_ports ports0)"
  using assms by (rule excluded_pings)

lemma getpts_single:
  assumes "has (default_range_type po) 1" "\<not> has (default_range_type po) 8" "p \<le> 65535"
  shows "\<exists>l'. getpts no_services pt po (dec p) l = Some l'"
proof -
  let ?rt = "default_range_type po" let ?tbl = "add_port no_services pt False ?rt p no_ports"
  have e: "dec p = show_ports (map Plain [(None, Single p)])" by (simp add: show_ports_def show_entry_def)
  have aux: "getpts_aux no_services pt False True ?rt (dec p) no_ports = Some ?tbl"
    unfolding e by (subst getpts_aux_run) (use assms in \<open>simp_all add: entry_ok_def run_item_def range_valid_def specified_def last_number_def add_range_def\<close>)
  have "?tbl p = ?rt" by (simp add: add_port_def mark_def no_ports_def has_def)
  then have "p \<in> set (ports_with 1 65536 ?tbl)" using assms(1,3) by (simp add: ports_with_def)
  then have "ports_with 1 65536 ?tbl \<noteq> []" by auto
  then show ?thesis using aux by (simp add: getpts_def Let_def)
qed

theorem excluded_ports_not_scanned_witness:
  "\<exists>ports st. setup_ports no_services (\<lambda>_. []) (sample_opts\<lparr>UDPScan := False, portlist := Some (dec 80), exclude_portlist := Some (dec 53)\<rparr>) (\<lambda>_ i. i)
      (no_lists\<lparr>syn_ping_ports := [53, 80], udp_ping_ports := [53]\<rparr>) = Some (ports, st) \<and>
    53 \<notin> set (tcp_ports ports) \<and> syn_ping_ports ports = [80] \<and> udp_ping_ports ports = [53]"
proof -
  let ?po = "sample_opts\<lparr>UDPScan := False, portlist := Some (dec 80), exclude_portlist := Some (dec 53)\<rparr>"
  let ?l = "no_lists\<lparr>syn_ping_ports := [53, 80], udp_ping_ports := [53]\<rparr>" let ?es = "[Plain (None, Single 53)]"
  have rt: "default_range_type ?po = 1" by (simp add: default_range_type_def sample_opts_def flag_def)
  have h: "has (default_range_type ?po) 1" "\<not> has (default_range_type ?po) 8" unfolding rt by (simp_all add: has_def)
  obtain l1 where l1: "getpts no_services (\<lambda>_. []) ?po (dec 80) ?l = Some l1" using getpts_single[OF h, of 80] by auto
  obtain ex where ex: "getpts no_services (\<lambda>_. []) ?po (dec 53) no_lists = Some ex" using getpts_single[OF h, of 53] by auto
  have c: "choose_ports no_services (\<lambda>_. []) ?po ?l = Some (subtract_ports ex l1)"
    using l1 ex by (simp add: choose_ports_def gettoppts_def removepts_def no_services_def sample_opts_def)
  have "port_lists_ok (subtract_ports ex l1)" using getpts_ok[OF l1] by (simp add: port_lists_ok_def subtract_ports_def remaining_ports_filter strict_filter)
  then obtain st where "init_port_maps ?po (subtract_ports ex l1) = Some st" using init_port_maps_ok by blast
  then obtain ports where s: "setup_ports no_services (\<lambda>_. []) ?po (\<lambda>_ i. i) ?l = Some (ports, st)" using c by (simp add: setup_ports_def)
  have "x \<in> exclusion_kinds ?po \<longleftrightarrow> x = Tcp_kind" for x by (cases x) (simp_all add: exclusion_kinds_def sample_opts_def)
  then have k: "exclusion_kinds ?po = {Tcp_kind}" by auto
  have "show_ports ?es = dec 53" by (simp add: show_ports_def show_entry_def)
  then have e: "exclude_portlist ?po = Some (show_ports ?es)" by simp
  have n: "names_ok no_services (\<lambda>_. [])" by (simp add: names_ok_def no_services_def)
  have x: "\<forall>x \<in> set ?es. elem_text x" by (simp add: entry_text_def)
  have M: "ports_marks no_services (\<lambda>_. []) {Tcp_kind} ?es (\<lambda>_. {}) = Some (\<lambda>p. if p = 53 then {Tcp_kind} else {})"
    by (auto simp: item_marks_def in_force_def range_marks_def lowest_def highest_def fun_eq_iff)
  note r = excluded_ports_not_scanned[OF s e list.distinct(2) x n, unfolded k M]
  then have "53 \<notin> set (tcp_ports ports)" "syn_ping_ports ports = [80]" "udp_ping_ports ports = [53]" by (auto simp: no_lists_def)
  then show ?thesis using s by blast
qed

text \<open>Without the letter of a protocol that is not in force, the meaning has nothing for it.\<close>

fun elem_entries :: "port_elem \<Rightarrow> port_entry list" where
  "elem_entries (Plain e) = [e]"
| "elem_entries (Group g) = g"

lemma item_marks_kind:
  assumes "item_marks sv pt nested K it t = Some t'" "k \<notin> K" "\<forall>p. k \<notin> t p"
  shows "\<forall>p. k \<notin> t' p"
proof -
  have "(p, k) \<notin> name_hits sv pt K m" for p m using assms(2) by (auto simp: name_hits_def)
  then show ?thesis using assms by (cases it) (auto simp: item_marks_def range_marks_def split: if_splits)
qed

lemma in_force_kind: "k \<notin> K \<Longrightarrow> \<forall>c. d = Some c \<longrightarrow> letter_kind c \<noteq> Some k \<Longrightarrow> k \<notin> in_force d K"
  by (auto simp: in_force_def split: option.splits)

lemma entries_marks_kind:
  assumes "entries_marks sv pt K es t = Some t'" "k \<notin> K" "\<forall>e \<in> set es. \<forall>c. fst e = Some c \<longrightarrow> letter_kind c \<noteq> Some k" "\<forall>p. k \<notin> t p"
  shows "\<forall>p. k \<notin> t' p"
  using assms
proof (induction es arbitrary: K t)
  case (Cons e es)
  obtain d it where e: "e = (d, it)" by (cases e)
  obtain t1 where t1: "item_marks sv pt True (in_force d K) it t = Some t1" "entries_marks sv pt (in_force d K) es t1 = Some t'"
    using Cons.prems(1) e by (auto split: bind_splits)
  have k: "k \<notin> in_force d K" using in_force_kind[OF Cons.prems(2)] Cons.prems(3) e by simp
  show ?case using Cons.IH[OF t1(2) k _ item_marks_kind[OF t1(1) k Cons.prems(4)]] Cons.prems(3) by simp
qed simp

lemma ports_marks_kind:
  assumes "ports_marks sv pt K es t = Some t'" "k \<notin> K" "\<forall>x \<in> set es. \<forall>e \<in> set (elem_entries x). \<forall>c. fst e = Some c \<longrightarrow> letter_kind c \<noteq> Some k" "\<forall>p. k \<notin> t p"
  shows "\<forall>p. k \<notin> t' p"
  using assms
proof (induction es arbitrary: K t)
  case (Cons x es)
  show ?case
  proof (cases x)
    case (Group g)
    then obtain t1 where t1: "entries_marks sv pt K g t = Some t1" "ports_marks sv pt K es t1 = Some t'" using Cons.prems(1) by (auto split: bind_splits)
    have "\<forall>p. k \<notin> t1 p" using entries_marks_kind[OF t1(1) Cons.prems(2) _ Cons.prems(4)] Cons.prems(3) Group by simp
    then show ?thesis using Cons.IH[OF t1(2) Cons.prems(2)] Cons.prems(3) by simp
  next
    case (Plain e)
    obtain d it where e: "e = (d, it)" by (cases e)
    obtain t1 where t1: "item_marks sv pt False (in_force d K) it t = Some t1" "ports_marks sv pt (in_force d K) es t1 = Some t'"
      using Cons.prems(1) e Plain by (auto split: bind_splits)
    have k: "k \<notin> in_force d K" using in_force_kind[OF Cons.prems(2)] Cons.prems(3) e Plain by simp
    show ?thesis using Cons.IH[OF t1(2) k _ item_marks_kind[OF t1(1) k Cons.prems(4)]] Cons.prems(3) by simp
  qed
qed simp

text \<open>The manual says that excluded ports are not used in any case, not even by host discovery.  But in a scan without UDP the text excludes nothing
  for UDP unless it names it: host discovery sends to all the UDP ports that it was given, excluded or not.\<close>

lemma exclusion_misses_udp_pings:
  assumes "setup_ports sv pt po rnd ports0 = Some (ports, st)" "exclude_portlist po = Some (show_ports es)" "es \<noteq> []" "\<forall>x \<in> set es. elem_text x" "names_ok sv pt"
    and "\<not> UDPScan po" "\<not> noportscan po" "\<forall>x \<in> set es. \<forall>e \<in> set (elem_entries x). fst e \<noteq> Some CHR ''U''"
  shows "udp_ping_ports ports = udp_ping_ports ports0"
proof -
  have "letter_kind c = Some Udp_kind \<Longrightarrow> c = CHR ''U''" for c by (auto split: if_splits)
  then have l: "\<forall>x \<in> set es. \<forall>e \<in> set (elem_entries x). \<forall>c. fst e = Some c \<longrightarrow> letter_kind c \<noteq> Some Udp_kind" using assms(8) by metis
  have "Udp_kind \<notin> exclusion_kinds po" using assms(6,7) by (simp add: exclusion_kinds_def)
  then show ?thesis using excluded_pings[OF assms(1-5)] ports_marks_kind[OF _ _ l] by force
qed

section \<open>Specifications that are misunderstood\<close>

text \<open>C39. A port that a bracket has selected for TCP alone is taken for a duplicate when it is named again for TCP and UDP, and stays
  without UDP.\<close>

theorem bracket_hides_udp:
  assumes "TCPScan po" "UDPScan po" "\<not> ipprotscan po" "p \<le> 65535" "nmap_getservbyport sv p ''tcp'' \<noteq> None"
  shows "\<exists>l'. getpts sv pt po (''[T:'' @ dec p @ ''],'' @ dec p) l = Some l' \<and> p \<in> set (tcp_ports l') \<and> p \<notin> set (udp_ports l')"
proof -
  let ?rt = "default_range_type po" let ?es = "[Group [(Some CHR ''T'', Single p)], Plain (None, Single p)]"
  define tbl where "tbl = add_port sv pt False ?rt p (add_port sv pt True 1 p no_ports)"
  have rt: "has ?rt 1" "\<not> has ?rt 8" using assms(1,3) by (simp_all add: default_range_type_def Let_def)
  have s: "''[T:'' @ dec p @ ''],'' @ dec p = show_ports ?es" by (simp add: show_ports_def show_entry_def)
  have "getpts_aux sv pt False True ?rt (show_ports ?es) no_ports = run_ports sv pt ?rt ?es no_ports"
    by (rule getpts_aux_run) (simp_all add: entry_ok_def range_specifier_def)
  also have "\<dots> = Some tbl"
    using rt(2) assms(4) by (simp add: specified_def range_specifier_def run_item_def range_valid_def last_number_def add_range_def tbl_def)
  finally have g: "getpts_aux sv pt False True ?rt (show_ports ?es) no_ports = Some tbl" .
  have "add_port sv pt True 1 p no_ports p = 1" using assms(5) by (simp add: add_port_def mark_def no_ports_def)
  then have "tbl p = 1" using rt(1) by (simp add: tbl_def add_port_def has_def and.commute)
  then have "p \<in> set (ports_with 1 65536 tbl)" "p \<notin> set (ports_with 2 65536 tbl)" using assms(4) by (simp_all add: ports_with_def)
  then show ?thesis using g unfolding s by (auto simp: getpts_def Let_def)
qed

theorem bracket_hides_udp_witness:
  "\<exists>sv l'. nmap_services_init sample_lines = Some sv \<and> getpts sv (\<lambda>_. []) sample_opts (''[T:'' @ dec 22 @ ''],'' @ dec 22) no_lists = Some l' \<and>
    22 \<in> set (tcp_ports l') \<and> 22 \<notin> set (udp_ports l')"
proof -
  obtain sv where s: "nmap_services_init sample_lines = Some sv" using sample_init by blast
  have "nmap_getservbyport sv 22 ''tcp'' \<noteq> None" using s unfolding sample_init by (auto simp: nmap_getservbyport_def sample_service_def)
  from bracket_hides_udp[OF _ _ _ _ this, of sample_opts "\<lambda>_. []" no_lists] show ?thesis using s by (auto simp: sample_opts_def)
qed

lemma protocol_marks:
  assumes "\<forall>e \<in> set es. wildtest m (snd e) \<longrightarrow> 0 < fst e \<and> fst e < 256" "q < 256"
  shows "fst (fold (\<lambda>e (tbl, t). if wildtest m (snd e) then (mark (ntohs (fst e)) 8 tbl, t + 1) else (tbl, t)) es (tbl, t)) q = tbl q"
  using assms(1)
proof (induction es arbitrary: tbl t)
  case (Cons e es)
  have "wildtest m (snd e) \<Longrightarrow> q \<noteq> ntohs (fst e)" using Cons.prems assms(2) by (auto simp: ntohs_def)
  then show ?case using Cons by (simp add: mark_def)
qed simp

text \<open>C40. In a protocol scan, a name or mask that stands for any protocols but number 0 ends the program: the number of each protocol is converted
  from network order though it is stored in that of the machine, and its bytes are swapped.\<close>

theorem protocol_names_rejected:
  assumes "ipprotscan po" "\<not> TCPScan po" "\<not> UDPScan po" "\<not> SCTPScan po" "\<not> noportscan po"
    and "m \<noteq> []" "mask_start (hd m)" "\<forall>c \<in> set m. mask_char c \<and> c \<noteq> CHR '':''"
    and "\<forall>b < 256. \<forall>e \<in> set (pt b). wildtest m (snd e) \<longrightarrow> 0 < fst e \<and> fst e < 256"
  shows "getpts sv pt po m l = None"
proof (rule ccontr)
  assume "getpts sv pt po m l \<noteq> None"
  then obtain l' where l': "getpts sv pt po m l = Some l'" by blast
  have rt: "default_range_type po = 8" using assms(1-5) by (simp add: default_range_type_def flag_def)
  obtain tbl where t: "getpts_aux sv pt False True 8 m no_ports = Some tbl"
    "ports_with 1 65536 tbl \<noteq> [] \<or> ports_with 2 65536 tbl \<noteq> [] \<or> ports_with 4 65536 tbl \<noteq> [] \<or> ports_with 8 256 tbl \<noteq> []"
  proof (rule getpts_Some[OF l'])
    fix tbl
    assume "\<And>tbl. getpts_aux sv pt False True 8 m no_ports = Some tbl \<Longrightarrow> ports_with 1 65536 tbl \<noteq> [] \<or> ports_with 2 65536 tbl \<noteq> [] \<or>
        ports_with 4 65536 tbl \<noteq> [] \<or> ports_with 8 256 tbl \<noteq> [] \<Longrightarrow> thesis"
      and "getpts_aux sv pt False True (default_range_type po) m no_ports = Some tbl"
      and "default_range_type po \<noteq> 0 \<Longrightarrow> ports_with 1 65536 tbl \<noteq> [] \<or> ports_with 2 65536 tbl \<noteq> [] \<or> ports_with 4 65536 tbl \<noteq> [] \<or> ports_with 8 256 tbl \<noteq> []"
    then show thesis unfolding rt by simp
  qed
  have "getpts_aux sv pt False True 8 (show_ports [Plain (None, Name m)]) no_ports = run_ports sv pt 8 [Plain (None, Name m)] no_ports"
    by (rule getpts_aux_run) (use assms(6-8) in \<open>simp_all add: entry_ok_def\<close>)
  then have a: "add_mask sv pt 8 m no_ports = Some tbl" using t(1) by (auto simp: show_ports_def show_entry_def run_item_def specified_def split: if_splits option.splits)
  have "fold (mark_service m 8) ss tn = tn" for ss tn by (induction ss) (simp_all add: mark_service_def)
  then have s: "addportsfromservmask sv m no_ports 8 = (no_ports, 0)" by (simp add: addportsfromservmask_def)
  have tbl: "tbl = fst (addprotocolsfromservmask pt m no_ports)" using a s by (auto simp: add_mask_def Let_def split: prod.splits if_splits)
  let ?es = "concat (map pt [0..<PROTOCOL_TABLE_SIZE])"
  have "\<forall>e \<in> set ?es. wildtest m (snd e) \<longrightarrow> 0 < fst e \<and> fst e < 256" using assms(9) by (auto simp: PROTOCOL_TABLE_SIZE_def)
  from protocol_marks[OF this] have "tbl q = 0" if "q < 256" for q using that by (simp add: tbl addprotocolsfromservmask_def no_ports_def)
  then have "ports_with 8 256 tbl = []" by (simp add: ports_with_def)
  moreover have o: "x OR 8 = 8" if "x = 0 \<or> x = 8" for x :: u8 using that by auto
  moreover have only: "x = 0 \<or> x = 8" if "x = fst (fold (\<lambda>e (tbl, t). if wildtest m (snd e) then (mark (ntohs (fst e)) 8 tbl, t + 1) else (tbl, t)) es (tb, t)) q"
    "\<forall>q. tb q = 0 \<or> tb q = 8" for x es tb t q
    using that
  proof (induction es arbitrary: tb t)
    case (Cons e es)
    have "\<forall>q. (if wildtest m (snd e) then mark (ntohs (fst e)) 8 tb else tb) q = 0 \<or> (if wildtest m (snd e) then mark (ntohs (fst e)) 8 tb else tb) q = 8"
      using Cons.prems(2) o[of "tb (ntohs (fst e))"] by (simp add: mark_def)
    from Cons.IH[OF _ this] Cons.prems(1) show ?case by (auto split: if_splits)
  qed simp
  have "tbl q = 0 \<or> tbl q = 8" for q using only[OF refl, of no_ports ?es 0 q] by (simp add: tbl addprotocolsfromservmask_def no_ports_def)
  then have "\<not> has (tbl q) 1" "\<not> has (tbl q) 2" "\<not> has (tbl q) 4" for q by (metis has_zero has_flag_simps)+
  then have "ports_with 1 65536 tbl = []" "ports_with 2 65536 tbl = []" "ports_with 4 65536 tbl = []" by (simp_all add: ports_with_def)
  ultimately show False using t(2) by blast
qed

theorem protocol_names_rejected_witness:
  "getpts no_services (nmap_protocols_init [(1, ''icmp''), (6, ''tcp'')]) (sample_opts\<lparr>TCPScan := False, UDPScan := False, ipprotscan := True\<rparr>) ''icmp'' no_lists = None"
proof (rule protocol_names_rejected)
  show "\<forall>b<256. \<forall>e \<in> set (nmap_protocols_init [(1, ''icmp''), (6, ''tcp'')] b). wildtest ''icmp'' (snd e) \<longrightarrow> 0 < fst e \<and> fst e < 256"
    by (simp add: nmap_protocols_init_def add_protocol_def PROTOCOL_TABLE_SIZE_def)
qed (simp_all add: sample_opts_def mask_start_def mask_char_def ctype_defs)

text \<open>A specifier inside brackets is accepted where it is not allowed, and the ports are lost without a message.\<close>

lemma simple_bracket_specifier:
  "getpts_simple sv pt 1 (''[U:'' @ dec 53 @ '']'') = Some []"
proof -
  let ?es = "[(Some CHR ''U'', Single 53)]"
  have "getpts_aux sv pt True True 1 (commas (map show_entry ?es) @ '']'') no_ports = run_entries sv pt True 1 ?es no_ports"
    by (rule aux_entries) (simp_all add: entry_ok_def range_specifier_def NUL_def)
  then have n: "getpts_aux sv pt True True 1 (''U:'' @ dec 53 @ '']'') no_ports = Some (add_port sv pt True 2 53 no_ports)"
    by (simp add: show_entry_def specified_def range_specifier_def run_item_def range_valid_def last_number_def add_range_def)
  have d: "dropWhile (\<lambda>c. c \<noteq> CHR '']'') (''U:'' @ dec 53 @ '']'') = '']''"
    using dec_digits[of "CHR '']''" 53] digit_not[of "CHR '']''"] by (subst append_assoc[symmetric], subst dropWhile_append2) auto
  have k: "skip_spaces (CHR ''['' # x) = CHR ''['' # x" for x by (simp add: skip_spaces_def isspace_def ordc_def)
  have "getpts_aux sv pt False False 1 (CHR ''['' # x) no_ports = Some tbl"
    if "getpts_aux sv pt True True 1 x no_ports = Some tbl" "dropWhile (\<lambda>c. c \<noteq> CHR '']'') x = '']''" for x tbl
    unfolding getpts_aux.simps[of sv pt False False 1 "CHR ''['' # x" no_ports] using that by (simp add: k Let_def)
  from this[OF n d] have "getpts_aux sv pt False False 1 (''[U:'' @ dec 53 @ '']'') no_ports = Some (add_port sv pt True 2 53 no_ports)" by simp
  then show ?thesis by (simp add: getpts_simple_def ports_with_def add_port_def mark_def no_ports_def)
qed

end
