(* ===== verification/Target_Group.thy ===== *)
theory Target_Group
  imports Addrset
begin

text \<open>
  Target expressions, \<open>TargetGroup.cc\<close>: what the user writes for the hosts to scan, \<open>192.168.0.0/16\<close>, \<open>10.1.0-5.1-254\<close>,
  \<open>fe80::202:e3ff:fe14:1102/112\<close> or a name, and the addresses that it yields one by one.  The ranges of octets, their parser and the
  netmask are the text of \<open>nbase_addrset.c\<close> once more, so \<open>Addrset_Range\<close> is used for them.  An address comes with its scope; it is 0
  in IPv4.  The resolver is an argument.  A result \<^const>\<open>None\<close> of an operation that returns an option of a state is a failed assertion.
\<close>

unbundle bit_operations_syntax

section \<open>Addresses\<close>

type_synonym sockaddr_storage = "sockaddr \<times> nat"

text \<open>\<open>getaddrinfo\<close>: the name, whether it must be numeric, and the family; the error code and the addresses.\<close>

type_synonym name_resolver = "string \<Rightarrow> bool \<Rightarrow> nat \<Rightarrow> int \<times> sockaddr_storage list"

abbreviation (input) "AF_INET \<equiv> 2 :: nat"
abbreviation (input) "AF_INET6 \<equiv> 10 :: nat"

fun ss_family :: "sockaddr \<Rightarrow> nat" where
  "ss_family (Sockaddr_in _) = AF_INET"
| "ss_family (Sockaddr_in6 _) = AF_INET6"
| "ss_family (Sockaddr_other n) = n"

definition resolve_numeric :: "name_resolver \<Rightarrow> string \<Rightarrow> nat \<Rightarrow> sockaddr_storage option" where
  "resolve_numeric gai ip af = (let (rc, result) = gai ip True af in if rc \<noteq> 0 \<or> result = [] then None else Some (hd result))"

definition resolve_all :: "name_resolver \<Rightarrow> string \<Rightarrow> nat \<Rightarrow> sockaddr_storage list" where
  "resolve_all gai name pf = (let (rc, result) = gai name False pf in if rc \<noteq> 0 then [] else result)"

record target_opts =
  o_af :: nat
  o_resolve_all :: bool
  o_device :: "string option"

text \<open>The index of the interface by its name.\<close>

definition get_scope_id :: "(string \<Rightarrow> nat option) \<Rightarrow> string option \<Rightarrow> nat" where
  "get_scope_id ifindex devname = (case devname of None \<Rightarrow> 0 | Some d \<Rightarrow> if d = [] then 0 else (case ifindex d of Some i \<Rightarrow> i | None \<Rightarrow> 0))"

section \<open>Blocks of addresses\<close>

record ipv6_block =
  exhausted :: bool
  v6_addr :: sockaddr_storage
  v6_start :: "u8 list"
  v6_cur :: "u8 list"
  v6_end :: "u8 list"

datatype block_kind =
    IPv4Ranges (octets: addrset_elem) (counter: "nat list")
  | IPv6Netmask ipv6_block
  | Hostname (host_af: nat) (host_bits: int)

record netblock =
  nb_hostname :: string
  resolvedaddrs :: "sockaddr_storage list"
  unscanned_addrs :: "sockaddr_storage list"
  current_addr :: nat
  nb_kind :: block_kind

definition new_block :: "string \<Rightarrow> block_kind \<Rightarrow> netblock" where
  "new_block name k = \<lparr>nb_hostname = name, resolvedaddrs = [], unscanned_addrs = [], current_addr = 0, nb_kind = k\<rparr>"

definition ipv4_set_addr :: "sockaddr_storage \<Rightarrow> block_kind option" where
  "ipv4_set_addr ss =
     (case fst ss of
        Sockaddr_in ia \<Rightarrow>
          let ip = ntohl ia; z = replicate 4 0 in
          Some (IPv4Ranges \<lparr>elem_bits = [BIT_SET z (unat (drop_bit 24 (ip AND 0xFF000000))), BIT_SET z (unat (drop_bit 16 (ip AND 0x00FF0000))),
            BIT_SET z (unat (drop_bit 8 (ip AND 0x0000FF00))), BIT_SET z (unat (ip AND 0x000000FF))]\<rparr> (replicate 4 0))
      | _ \<Rightarrow> None)"

definition ipv6_set_addr :: "sockaddr_storage \<Rightarrow> block_kind option" where
  "ipv6_set_addr ss =
     (case fst ss of
        Sockaddr_in6 ia \<Rightarrow> Some (IPv6Netmask \<lparr>exhausted = False, v6_addr = ss, v6_start = ia, v6_cur = ia, v6_end = ia\<rparr>)
      | _ \<Rightarrow> None)"

section \<open>Netmasks\<close>

function fill_netmask :: "nat \<Rightarrow> nat \<Rightarrow> u8 list \<Rightarrow> u8 list" where
  "fill_netmask i bits msk = (if bits > 8 then fill_netmask (i + 1) (bits - 8) (msk[i := 0xFF]) else msk[i := push_bit (8 - bits) 0xFF])"
  by pat_completeness auto
termination by (relation "measure (\<lambda>(i, bits, msk). bits)") auto

declare fill_netmask.simps [simp del]

definition make_ipv6_netmask :: "int \<Rightarrow> u8 list" where
  "make_ipv6_netmask bits0 =
     (let bits = (if bits0 < 0 then 0 else if bits0 > 128 then 128 else bits0); z = replicate 16 0 in
      if bits = 0 then z else fill_netmask 0 (nat bits) z)"

definition ipv6_or_mask :: "u8 list \<Rightarrow> u8 list \<Rightarrow> u8 list \<Rightarrow> u8 list" where
  "ipv6_or_mask a msk b = map2 (\<lambda>(x, m) y. (x AND m) OR (y AND NOT m)) (zip a msk) b"

definition ipv6_apply_netmask :: "ipv6_block \<Rightarrow> int \<Rightarrow> ipv6_block" where
  "ipv6_apply_netmask b bits0 =
     (if bits0 > 128 then b
      else let msk = make_ipv6_netmask (if bits0 < 0 then 128 else bits0); s = ipv6_or_mask (v6_start b) msk (replicate 16 0) in
        b\<lparr>exhausted := False, v6_start := s, v6_end := ipv6_or_mask (v6_end b) msk (replicate 16 0xff), v6_cur := s\<rparr>)"

definition apply_netmask :: "netblock \<Rightarrow> int \<Rightarrow> netblock" where
  "apply_netmask nb bits = nb\<lparr>nb_kind := (case nb_kind nb of
       IPv4Ranges e c \<Rightarrow> IPv4Ranges (apply_ipv4_netmask_bits e bits) c
     | IPv6Netmask b \<Rightarrow> IPv6Netmask (ipv6_apply_netmask b bits)
     | Hostname af _ \<Rightarrow> Hostname af bits)\<rparr>"

section \<open>Parsing\<close>

definition split_netmask :: "string \<Rightarrow> (string \<times> int) option" where
  "split_netmask expr =
     (if CHR ''/'' \<notin> set expr then Some (expr, -1)
      else let r = rev expr; s = rev (takeWhile (\<lambda>c. c \<noteq> CHR ''/'') r); (l, tail, _) = parse_long s in
        if tail = s \<or> deref tail \<noteq> NUL \<or> l < 0 \<or> l > 2147483647 then None
        else Some (rev (tl (dropWhile (\<lambda>c. c \<noteq> CHR ''/'') r)), l))"

definition parse_expr_without_netmask :: "name_resolver \<Rightarrow> string \<Rightarrow> nat \<Rightarrow> netblock option option" where
  "parse_expr_without_netmask gai hostexp af =
     (case (if af = AF_INET then parse_ipv4_ranges empty_elem hostexp else None) of
        Some e \<Rightarrow> Some (Some (new_block [] (IPv4Ranges e (replicate 4 0))))
      | None \<Rightarrow> (case resolve_numeric gai hostexp AF_INET6 of
          Some ss \<Rightarrow> if af \<noteq> AF_INET6 then Some None else map_option (\<lambda>k. Some (new_block [] k)) (ipv6_set_addr ss)
        | None \<Rightarrow> Some (Some (new_block hostexp (Hostname af (-1))))))"

text \<open>The inner option is the null pointer of an expression that is refused.\<close>

definition parse_expr :: "name_resolver \<Rightarrow> string \<Rightarrow> nat \<Rightarrow> netblock option option" where
  "parse_expr gai target_expr af =
     (case split_netmask target_expr of None \<Rightarrow> Some None
      | Some (hostexp, bits0) \<Rightarrow>
        let bits = (if af = AF_INET \<and> bits0 > 32 then -1 else bits0) in
        map_option (map_option (\<lambda>nb. apply_netmask nb bits)) (parse_expr_without_netmask gai hostexp af))"

section \<open>The next address\<close>

text \<open>With \<open>--resolve-all\<close>, the next address of the name.\<close>

definition next_resolved :: "target_opts \<Rightarrow> netblock \<Rightarrow> netblock \<times> sockaddr_storage option" where
  "next_resolved po nb =
     (if o_resolve_all po \<and> resolvedaddrs nb \<noteq> [] \<and> current_addr nb \<noteq> length (resolvedaddrs nb) then
        let c = current_addr nb + 1 in
        (nb\<lparr>current_addr := c\<rparr>, if c \<noteq> length (resolvedaddrs nb) then Some (resolvedaddrs nb ! c) else None)
      else (nb, None))"

function find_set :: "u64 list \<Rightarrow> nat \<Rightarrow> nat" where
  "find_set v k = (if k < 256 \<and> \<not> BIT_IS_SET v k then find_set v (k + 1) else k)"
  by pat_completeness auto
termination by (relation "measure (\<lambda>(v, k). 256 - k)") auto

declare find_set.simps [simp del]

fun settle :: "u64 list list \<Rightarrow> nat list \<Rightarrow> bool \<times> nat list" where
  "settle (v # vs) (k # ks) =
     (let k' = find_set v k in if k' \<ge> 256 then (False, k' # ks) else let (ok, ks') = settle vs ks in (ok, k' # ks'))"
| "settle vs ks = (True, [])"

text \<open>The inner loop goes on until it finds a set bit; it would not end without one.\<close>

partial_function (option) bump_octet :: "u64 list \<Rightarrow> nat \<Rightarrow> bool \<Rightarrow> (nat \<times> bool) option" where
  "bump_octet v k carry =
     (let k' = (k + 1) mod 256; carry' = (carry \<or> k' = 0) in if BIT_IS_SET v k' then Some (k', carry') else bump_octet v k' carry')"

text \<open>From the last octet on as long as there is a carry; the flag says that all octets were carried.\<close>

fun bump :: "(u64 list \<times> nat) list \<Rightarrow> (nat list \<times> bool) option" where
  "bump [] = Some ([], True)"
| "bump ((v, k) # r) = do {
     (ks, cycled) \<leftarrow> bump r;
     if \<not> cycled then Some (k # ks, False)
     else do { (k', carry) \<leftarrow> bump_octet v k False; Some (k' # ks, carry) } }"

definition counter_addr :: "nat list \<Rightarrow> sockaddr_storage" where
  "counter_addr c = (Sockaddr_in (htonl (push_bit 24 (word_of_nat (c ! 0)) OR push_bit 16 (word_of_nat (c ! 1)) OR
     push_bit 8 (word_of_nat (c ! 2)) OR word_of_nat (c ! 3))), 0)"

definition ipv4_next :: "target_opts \<Rightarrow> netblock \<Rightarrow> addrset_elem \<Rightarrow> nat list \<Rightarrow> (sockaddr_storage option \<times> netblock) option" where
  "ipv4_next po nb e c =
     (let (ok, c1) = settle (elem_bits e) c in
      if \<not> ok then Some (None, nb\<lparr>nb_kind := IPv4Ranges e c1\<rparr>)
      else do {
        (c2, cycled) \<leftarrow> bump (zip (elem_bits e) c1);
        let ss = Some (counter_addr c1);
        if \<not> cycled then Some (ss, nb\<lparr>nb_kind := IPv4Ranges e c2\<rparr>)
        else case next_resolved po nb of
            (nb1, Some a) \<Rightarrow> do { k \<leftarrow> ipv4_set_addr a; Some (ss, nb1\<lparr>nb_kind := k\<rparr>) }
          | (nb1, None) \<Rightarrow> Some (ss, nb1\<lparr>nb_kind := IPv4Ranges e (replicate 4 256)\<rparr>) })"

text \<open>The address as a number, from its last byte on.\<close>

fun increment :: "u8 list \<Rightarrow> u8 list" where
  "increment [] = []"
| "increment (x # xs) = (if x + 1 > 0 then (x + 1) # xs else (x + 1) # increment xs)"

definition ipv6_take :: "(string \<Rightarrow> nat option) \<Rightarrow> target_opts \<Rightarrow> ipv6_block \<Rightarrow> sockaddr_storage \<times> ipv6_block" where
  "ipv6_take ifindex po b =
     ((Sockaddr_in6 (v6_cur b), if snd (v6_addr b) \<noteq> 0 then snd (v6_addr b) else get_scope_id ifindex (o_device po)),
      b\<lparr>exhausted := (exhausted b \<or> v6_cur b = v6_end b), v6_cur := rev (increment (rev (v6_cur b)))\<rparr>)"

definition ipv6_next :: "(string \<Rightarrow> nat option) \<Rightarrow> target_opts \<Rightarrow> netblock \<Rightarrow> ipv6_block \<Rightarrow> (sockaddr_storage option \<times> netblock) option" where
  "ipv6_next ifindex po nb b =
     (if exhausted b then
        (case next_resolved po nb of
            (nb1, Some a) \<Rightarrow> (case ipv6_set_addr a of
                Some (IPv6Netmask b1) \<Rightarrow> (let (ss, b2) = ipv6_take ifindex po b1 in Some (Some ss, nb1\<lparr>nb_kind := IPv6Netmask b2\<rparr>))
              | _ \<Rightarrow> None)
          | (nb1, None) \<Rightarrow> Some (None, nb1))
      else let (ss, b1) = ipv6_take ifindex po b in Some (Some ss, nb\<lparr>nb_kind := IPv6Netmask b1\<rparr>))"

definition next_addr :: "(string \<Rightarrow> nat option) \<Rightarrow> target_opts \<Rightarrow> netblock \<Rightarrow> (sockaddr_storage option \<times> netblock) option" where
  "next_addr ifindex po nb =
     (case nb_kind nb of IPv4Ranges e c \<Rightarrow> ipv4_next po nb e c | IPv6Netmask b \<Rightarrow> ipv6_next ifindex po nb b | Hostname _ _ \<Rightarrow> None)"

section \<open>Names\<close>

fun sort_addrs :: "target_opts \<Rightarrow> nat \<Rightarrow> sockaddr_storage list \<Rightarrow> sockaddr_storage list \<times> sockaddr_storage list \<Rightarrow> sockaddr_storage list \<times> sockaddr_storage list" where
  "sort_addrs po af [] l = l"
| "sort_addrs po af (a # as) l =
     sort_addrs po af as (if (o_resolve_all po \<or> fst l = []) \<and> ss_family (fst a) = af then (fst l @ [a], snd l) else (fst l, snd l @ [a]))"

text \<open>The result is a null pointer when the name has no address of the family.\<close>

definition resolve_name_block :: "name_resolver \<Rightarrow> target_opts \<Rightarrow> netblock \<Rightarrow> nat \<Rightarrow> int \<Rightarrow> netblock option option" where
  "resolve_name_block gai po nb af bits =
     (let (resolved, unscanned) = sort_addrs po af (resolve_all gai (nb_hostname nb) AF_UNSPEC) ([], []) in
      if resolved = [] then Some None
      else let ss = hd resolved; family = ss_family (fst ss) in
        if family \<noteq> AF_INET \<and> family \<noteq> AF_INET6 then Some None
        else do {
          k \<leftarrow> (if family = AF_INET then ipv4_set_addr ss else ipv6_set_addr ss);
          Some (Some (apply_netmask \<lparr>nb_hostname = nb_hostname nb, resolvedaddrs = resolved, unscanned_addrs = unscanned, current_addr = 0, nb_kind = k\<rparr> bits)) })"

definition resolve_block :: "name_resolver \<Rightarrow> target_opts \<Rightarrow> netblock \<Rightarrow> netblock option option" where
  "resolve_block gai po nb = (case nb_kind nb of Hostname af bits \<Rightarrow> resolve_name_block gai po nb af bits | _ \<Rightarrow> Some (Some nb))"

text \<open>\<open>TargetGroup::get_next_host\<close>: the group has no block before the first expression.\<close>

definition get_next_host :: "name_resolver \<Rightarrow> (string \<Rightarrow> nat option) \<Rightarrow> target_opts \<Rightarrow> netblock option \<Rightarrow> (sockaddr_storage option \<times> netblock option) option" where
  "get_next_host gai ifindex po g =
     (case g of None \<Rightarrow> Some (None, None)
      | Some nb \<Rightarrow> do {
          r \<leftarrow> resolve_block gai po nb;
          (case r of None \<Rightarrow> Some (None, Some nb)
           | Some nb1 \<Rightarrow> map_option (\<lambda>(ss, nb2). (ss, Some nb2)) (next_addr ifindex po nb1)) })"

fun sockaddr_eq :: "sockaddr_storage \<Rightarrow> sockaddr_storage \<Rightarrow> bool option" where
  "sockaddr_eq (a, _) (b, _) =
     (if ss_family a \<noteq> ss_family b then Some False
      else case (a, b) of (Sockaddr_in x, Sockaddr_in y) \<Rightarrow> Some (x = y) | (Sockaddr_in6 x, Sockaddr_in6 y) \<Rightarrow> Some (x = y) | _ \<Rightarrow> None)"

end
