(* ===== verification/Host_Groups.thy ===== *)
theory Host_Groups
  imports Target_Group Timing
begin

text \<open>
  Host groups: \<open>targets.cc\<close>, the file of expressions of \<open>netutil.cc\<close>, and the loop of \<open>nmap_main\<close> that forms the groups for the scan
  engine.  Addresses come from target expressions one by one; excluded ones are dropped; the others wait in a batch for host discovery,
  where hosts that do not fit together are deferred; those that are up go into a group.  The routing table, the tests of an address and what host
  discovery finds are arguments.
\<close>

unbundle bit_operations_syntax

section \<open>Hosts\<close>

datatype devtype = Devt_ethernet | Devt_loopback | Devt_p2p | Devt_other

record route_nfo =
  rn_direct :: bool
  rn_nexthop :: sockaddr_storage
  rn_src :: sockaddr_storage
  rn_devname :: string
  rn_devtype :: devtype
  rn_mac :: "u8 list"
  rn_mtu :: nat

text \<open>What host groups use of a \<open>Target\<close>.\<close>

record host_nfo =
  h_addr :: sockaddr_storage
  h_name :: "string option"
  h_unscanned :: "sockaddr_storage list"
  h_direct :: "bool option"
  h_nexthop :: "sockaddr_storage option"
  h_iftype :: devtype
  h_srcmac :: "u8 list option"
  h_source :: "sockaddr_storage option"
  h_device :: string
  h_mtu :: nat
  h_flags :: nat
  h_user_reason :: bool

datatype ping_kind = Arp_ping | Nd_ping | Mass_ping

record host_env =
  gai :: name_resolver
  ifindex :: "string \<Rightarrow> nat option"
  topts :: target_opts
  route :: "sockaddr_storage \<Rightarrow> route_nfo option"
  exclude_group :: "addrset option"
  raw_scan :: bool
  is_root :: bool
  spoof_mac :: "u8 list option"
  spoof_source :: "sockaddr_storage option"
  random_ips :: "(nat \<Rightarrow> string) option"
  scripts :: bool
  max_ips :: nat
  implicit_arp :: bool
  eth_pref :: bool
  no_ping :: bool
  discovery_only :: bool
  is_local :: "sockaddr_storage \<Rightarrow> bool"
  ping_flags :: "ping_kind \<Rightarrow> host_nfo \<Rightarrow> nat"
  has_next_hop :: "host_nfo \<Rightarrow> bool"
  timed_out :: "host_nfo \<Rightarrow> bool"
  shuffle :: "nat \<Rightarrow> nat"

section \<open>Expressions\<close>

definition is_host_separator :: "char \<Rightarrow> bool" where
  "is_host_separator c \<longleftrightarrow> c = CHR '' '' \<or> c = CHR 0x0D \<or> c = CHR 0x0A \<or> c = CHR 0x09 \<or> c = NUL"

function skip_to_host :: "string \<Rightarrow> string" where
  "skip_to_host s =
     (if s = [] then []
      else if hd s = CHR ''#'' then skip_to_host (dropWhile (\<lambda>c. c \<noteq> CHR 0x0A) (tl s))
      else if is_host_separator (hd s) then skip_to_host (tl s) else s)"
  by pat_completeness auto
termination by (relation "measure length") (auto simp: neq_Nil_conv le_imp_less_Suc length_dropWhile_le)

declare skip_to_host.simps [simp del]

text \<open>The specification and the rest of the file.\<close>

definition read_host_from_file :: "string \<Rightarrow> string \<times> string" where
  "read_host_from_file fp = (let s = skip_to_host fp; stop = (\<lambda>c. is_host_separator c \<or> c = CHR ''#'') in
     (takeWhile (\<lambda>c. \<not> stop c) s, dropWhile (\<lambda>c. \<not> stop c) s))"

text \<open>Where expressions and addresses come from.\<close>

record source =
  args :: "string list"
  input :: "string option"
  drawn :: nat
  new_targets :: "string list"
  block :: "netblock option"
  resume_ip :: "sockaddr_storage option"
  numhosts_scanned :: nat
  decoy :: "sockaddr_storage option"

definition grab_next_host_spec :: "host_env \<Rightarrow> source \<Rightarrow> (string option \<times> source) option" where
  "grab_next_host_spec e s =
     (case random_ips e of
        Some ip \<Rightarrow> Some (Some (ip (drawn s)), s\<lparr>drawn := drawn s + 1\<rparr>)
      | None \<Rightarrow> (case input s of
            None \<Rightarrow> (case args s of [] \<Rightarrow> Some (None, s) | a # as \<Rightarrow> Some (Some a, s\<lparr>args := as\<rparr>))
          | Some fp \<Rightarrow> (let (w, r) = read_host_from_file fp; s1 = s\<lparr>input := Some r\<rparr> in
              if w = [] then Some (None, s1) else if length w \<ge> 1024 then None else Some (Some w, s1))))"

text \<open>A target that a script has found is cut to the buffer.\<close>

definition next_expression :: "host_env \<Rightarrow> nat \<Rightarrow> source \<Rightarrow> (string option \<times> source) option" where
  "next_expression e batch_sz s0 = do {
     (x, s) \<leftarrow> (if max_ips e = 0 \<or> numhosts_scanned s0 + batch_sz < max_ips e then grab_next_host_spec e s0 else Some (None, s0));
     (case x of Some a \<Rightarrow> Some (Some a, s)
      | None \<Rightarrow> if scripts e \<and> new_targets s \<noteq> [] then
            (let t = hd (new_targets s); s1 = s\<lparr>new_targets := tl (new_targets s)\<rparr> in
             Some (if t \<noteq> [] then Some (take 1023 t) else None, s1))
          else Some (None, s)) }"

section \<open>Excluded addresses\<close>

text \<open>The resolver without scopes, as \<open>Addrset\<close> has it.\<close>

definition plain_gai :: "name_resolver \<Rightarrow> resolver" where
  "plain_gai g = (\<lambda>name numeric af. let (rc, as) = g name numeric af in (rc, map fst as))"

definition hostInExclude :: "addrset option \<Rightarrow> sockaddr_storage \<Rightarrow> bool" where
  "hostInExclude ex ss = (case ex of None \<Rightarrow> False | Some x \<Rightarrow> addrset_contains x (fst ss))"

function load_exclude_file :: "name_resolver \<Rightarrow> nat \<Rightarrow> addrset \<Rightarrow> string \<Rightarrow> addrset option" where
  "load_exclude_file g af x fp =
     (let (w, r) = read_host_from_file fp in
      if w = [] then Some x
      else if length w \<ge> 1024 then None
      else case addrset_add_spec (plain_gai g) x w af True of
          Some (True, x1) \<Rightarrow> load_exclude_file g af x1 r
        | _ \<Rightarrow> None)"
  by pat_completeness auto

function load_exclude_string :: "name_resolver \<Rightarrow> nat \<Rightarrow> addrset \<Rightarrow> string \<Rightarrow> addrset option" where
  "load_exclude_string g af x p =
     (if p = [] then Some x
      else let a = takeWhile (\<lambda>c. c \<noteq> CHR '','') p; r = dropWhile (\<lambda>c. c \<noteq> CHR '','') p in
        case addrset_add_spec (plain_gai g) x a af True of
          Some (True, x1) \<Rightarrow> if r = [] then Some x1 else load_exclude_string g af x1 (tl r)
        | _ \<Rightarrow> None)"
  by pat_completeness auto

lemma skip_to_host_le: "length (skip_to_host s) \<le> length s"
proof (induction s rule: skip_to_host.induct)
  case (1 s)
  have "length (dropWhile (\<lambda>c. c \<noteq> CHR 0x0A) (tl s)) \<le> length s" using length_dropWhile_le[of _ "tl s"] by (metis diff_le_self length_tl order_trans)
  then show ?case using 1 by (subst skip_to_host.simps) (auto intro: order_trans)
qed

lemma read_host_progress: "read_host_from_file fp = (w, r) \<Longrightarrow> w \<noteq> [] \<Longrightarrow> length r < length fp"
proof -
  assume a: "read_host_from_file fp = (w, r)" "w \<noteq> []"
  then have "skip_to_host fp = w @ r" by (auto simp: read_host_from_file_def Let_def)
  then show ?thesis using a(2) skip_to_host_le[of fp] by (cases w) auto
qed

termination load_exclude_file
  by (relation "measure (\<lambda>(g, af, x, fp). length fp)") (auto dest: read_host_progress[OF sym])

termination load_exclude_string
proof (relation "measure (\<lambda>(g, af, x, p). length p)", goal_cases)
  case (2 g af x p a r y b c)
  then have "length r \<le> length p" "r \<noteq> []" by (simp_all add: length_dropWhile_le)
  then show ?case by (cases r) auto
qed simp

declare load_exclude_file.simps [simp del] load_exclude_string.simps [simp del]

section \<open>The next target\<close>

fun is_resolved_address :: "sockaddr_storage list \<Rightarrow> sockaddr_storage \<Rightarrow> bool option" where
  "is_resolved_address [] ss = Some False"
| "is_resolved_address (a # as) ss = do { eq \<leftarrow> sockaddr_eq a ss; if eq then Some True else is_resolved_address as ss }"

definition new_host :: "sockaddr_storage \<Rightarrow> host_nfo" where
  "new_host ss = \<lparr>h_addr = ss, h_name = None, h_unscanned = [], h_direct = None, h_nexthop = None, h_iftype = Devt_other, h_srcmac = None,
     h_source = None, h_device = [], h_mtu = 0, h_flags = 0, h_user_reason = False\<rparr>"

definition routed :: "host_env \<Rightarrow> route_nfo \<Rightarrow> host_nfo \<Rightarrow> host_nfo" where
  "routed e rn t = t\<lparr>h_direct := Some (rn_direct rn), h_nexthop := (if rn_direct rn then None else Some (rn_nexthop rn)), h_iftype := rn_devtype rn,
     h_srcmac := (if rn_devtype rn = Devt_ethernet then Some (case spoof_mac e of Some m \<Rightarrow> m | None \<Rightarrow> rn_mac rn) else None),
     h_source := Some (rn_src rn), h_device := rn_devname rn, h_mtu := rn_mtu rn\<rparr>"

definition setup_target :: "host_env \<Rightarrow> nat \<Rightarrow> source \<Rightarrow> sockaddr_storage \<Rightarrow> (host_nfo option \<times> source) option" where
  "setup_target e batch_sz s ss =
     (case block s of None \<Rightarrow> None
      | Some nb \<Rightarrow> do {
          res \<leftarrow> is_resolved_address (resolvedaddrs nb) ss;
          let t = (if res then (new_host ss)\<lparr>h_name := (if nb_hostname nb = [] then None else Some (nb_hostname nb)), h_unscanned := unscanned_addrs nb\<rparr>
            else new_host ss);
          (if \<not> raw_scan e then Some (Some t, s)
           else case route e ss of None \<Rightarrow> Some (None, s)
             | Some rn \<Rightarrow> let t1 = routed e rn t in Some (Some t1, if batch_sz = 0 then s\<lparr>decoy := h_source t1\<rparr> else s)) })"

text \<open>Take another expression until one is accepted; the flag says that there was one.\<close>

partial_function (option) pop_expression :: "host_env \<Rightarrow> nat \<Rightarrow> source \<Rightarrow> (bool \<times> source) option" where
  "pop_expression e batch_sz s0 = do {
     (x, s) \<leftarrow> next_expression e batch_sz s0;
     (case x of None \<Rightarrow> Some (False, s)
      | Some expr \<Rightarrow> do {
          nb \<leftarrow> parse_expr (gai e) expr (o_af (topts e));
          let s1 = s\<lparr>block := nb\<rparr>;
          if nb \<noteq> None then Some (True, s1) else pop_expression e batch_sz s1 }) }"

text \<open>What is done with an address: \<^const>\<open>None\<close> goes on to the next one.\<close>

definition take_address :: "host_env \<Rightarrow> nat \<Rightarrow> source \<Rightarrow> sockaddr_storage \<Rightarrow> (host_nfo option \<times> source) option" where
  "take_address e batch_sz s ss = do {
     assert_that (ss_family (fst ss) = o_af (topts e));
     (case resume_ip s of
        Some r \<Rightarrow> do { eq \<leftarrow> sockaddr_eq r ss; Some (None, if eq then s\<lparr>resume_ip := None\<rparr> else s) }
      | None \<Rightarrow> if hostInExclude (exclude_group e) ss then Some (None, s) else setup_target e batch_sz s ss) }"

partial_function (option) next_fresh :: "host_env \<Rightarrow> nat \<Rightarrow> source \<Rightarrow> (host_nfo option \<times> source) option" where
  "next_fresh e batch_sz s = do {
     (r, g) \<leftarrow> get_next_host (gai e) (ifindex e) (topts e) (block s);
     let s1 = s\<lparr>block := g\<rparr>;
     (case r of
        None \<Rightarrow> do { (found, s2) \<leftarrow> pop_expression e batch_sz s1; if \<not> found then Some (None, s2) else next_fresh e batch_sz s2 }
      | Some ss \<Rightarrow> do { (t, s2) \<leftarrow> take_address e batch_sz s1 ss; if t \<noteq> None then Some (t, s2) else next_fresh e batch_sz s2 }) }"

definition next_target :: "host_env \<Rightarrow> nat \<Rightarrow> source \<Rightarrow> host_nfo list \<Rightarrow> (host_nfo option \<times> source \<times> host_nfo list) option" where
  "next_target e batch_sz s undeferred =
     (case undeferred of t # ts \<Rightarrow> Some (Some t, s, ts)
      | [] \<Rightarrow> do { (t, s1) \<leftarrow> next_fresh e batch_sz s; Some (t, s1, []) })"

section \<open>Batches\<close>

fun source_eq :: "sockaddr_storage option \<Rightarrow> sockaddr_storage option \<Rightarrow> bool option" where
  "source_eq (Some a) (Some b) = sockaddr_eq a b"
| "source_eq a b = (if a = b then None else Some False)"

fun same_address :: "host_nfo list \<Rightarrow> host_nfo \<Rightarrow> bool option" where
  "same_address [] t = Some False"
| "same_address (h # hs) t = do { eq \<leftarrow> sockaddr_eq (h_addr h) (h_addr t); if eq then Some True else same_address hs t }"

definition target_needs_new_hostgroup :: "host_env \<Rightarrow> host_nfo list \<Rightarrow> host_nfo \<Rightarrow> bool option" where
  "target_needs_new_hostgroup e ts t =
     (case ts of [] \<Rightarrow> Some False
      | h # _ \<Rightarrow>
        if \<not> (is_root e \<and> h_device t \<noteq> []) then Some False
        else if ss_family (fst (h_addr h)) \<noteq> ss_family (fst (h_addr t)) then Some True
        else if h_device h \<noteq> [] \<and> h_device h \<noteq> h_device t then Some True
        else do {
          eq \<leftarrow> source_eq (h_source h) (h_source t);
          if \<not> eq then Some True
          else do {
            a \<leftarrow> h_direct h; b \<leftarrow> h_direct t;
            if a \<noteq> b then Some True else same_address ts t } })"

definition DEFER_LIMIT :: nat where
  "DEFER_LIMIT = 64"

function fill_batch :: "host_env \<Rightarrow> nat \<Rightarrow> source \<Rightarrow> host_nfo list \<Rightarrow> host_nfo list \<Rightarrow> host_nfo list \<Rightarrow> (source \<times> host_nfo list \<times> host_nfo list \<times> host_nfo list) option" where
  "fill_batch e max_sz s und dfr batch =
     (if \<not> length batch < max_sz then Some (s, und, dfr, batch)
      else case next_target e (length batch) s und of None \<Rightarrow> None
        | Some (None, s1, und1) \<Rightarrow> Some (s1, und1, dfr, batch)
        | Some (Some t, s1, und1) \<Rightarrow>
          (case target_needs_new_hostgroup e batch t of None \<Rightarrow> None
           | Some True \<Rightarrow> let d = dfr @ [t] in if length d < DEFER_LIMIT then fill_batch e max_sz s1 und1 d batch else Some (s1, und1, d, batch)
           | Some False \<Rightarrow> fill_batch e max_sz (s1\<lparr>decoy := h_source t\<rparr>) und1 dfr (batch @ [t])))"
  by pat_completeness auto
termination
  by (relation "measure (\<lambda>(e, max_sz, s, und, dfr, batch). (max_sz - length batch) + (DEFER_LIMIT - length dfr))") (auto simp: DEFER_LIMIT_def)

declare fill_batch.simps [simp del]

definition swap_at :: "nat \<Rightarrow> nat \<Rightarrow> 'a list \<Rightarrow> 'a list" where
  "swap_at i j a = (a[i := a ! j])[j := a ! i]"

definition genfry :: "(nat \<Rightarrow> nat) \<Rightarrow> 'a list \<Rightarrow> 'a list" where
  "genfry rnd a = fold (\<lambda>i a. let pos = rnd i mod (i + 1) in if i \<noteq> pos then swap_at i pos a else a) (rev [1..<length a]) a"

text \<open>Host discovery.\<close>

abbreviation (input) "UP \<equiv> 1 :: nat"
abbreviation (input) "DOWN \<equiv> 2 :: nat"

definition flagged_up :: "host_nfo \<Rightarrow> bool" where
  "flagged_up t \<longleftrightarrow> h_flags t AND UP \<noteq> 0"

definition flagged_down :: "host_nfo \<Rightarrow> bool" where
  "flagged_down t \<longleftrightarrow> h_flags t AND DOWN \<noteq> 0"

definition arpping :: "host_env \<Rightarrow> host_nfo list \<Rightarrow> host_nfo list" where
  "arpping e batch =
     (let kind = (case filter (\<lambda>t. h_srcmac t \<noteq> None) batch of [] \<Rightarrow> Arp_ping
        | t # _ \<Rightarrow> if ss_family (fst (h_addr t)) = AF_INET then Arp_ping else Nd_ping) in
      map (\<lambda>t. t\<lparr>h_flags := (if h_srcmac t = None then (if is_local e (h_addr t) then UP else DOWN) else ping_flags e kind t)\<rparr>) batch)"

definition massping :: "host_env \<Rightarrow> host_nfo list \<Rightarrow> host_nfo list" where
  "massping e batch = map (\<lambda>t. if flagged_down t then t else t\<lparr>h_flags := ping_flags e Mass_ping t\<rparr>) batch"

definition assume_up :: "host_env \<Rightarrow> bool \<Rightarrow> host_nfo list \<Rightarrow> host_nfo list" where
  "assume_up e user batch = map (\<lambda>t. if flagged_down t \<or> timed_out e t then t else t\<lparr>h_flags := h_flags t OR UP, h_user_reason := user\<rparr>) batch"

definition discover :: "host_env \<Rightarrow> host_nfo list \<Rightarrow> host_nfo list option" where
  "discover e batch =
     (case batch of [] \<Rightarrow> None
      | h # _ \<Rightarrow> do {
          let ethernet = (h_iftype h = Devt_ethernet);
          direct \<leftarrow> (if ethernet \<and> (ss_family (fst (h_addr h)) = AF_INET \<or> ss_family (fst (h_addr h)) = AF_INET6) then h_direct h else Some False);
          let arp = (direct \<and> implicit_arp e);
          let b1 = (if arp then arpping e batch else batch);
          let b2 = (if eth_pref e \<and> ethernet then map (\<lambda>t. if \<not> flagged_down t \<and> \<not> timed_out e t \<and> \<not> has_next_hop e t then t\<lparr>h_flags := DOWN\<rparr> else t) b1 else b1);
          Some (if (no_ping e \<and> \<not> arp) \<or> h_iftype h = Devt_loopback then assume_up e (no_ping e \<and> \<not> arp) b2
            else if \<not> arp then massping e b2 else b2) })"

record group_state =
  src :: source
  undeferred :: "host_nfo list"
  defer_buffer :: "host_nfo list"
  hostbatch :: "host_nfo list"
  next_batch_no :: nat
  max_batch_sz :: nat
  randomize_batch :: bool

definition HostGroupState_new :: "nat \<Rightarrow> bool \<Rightarrow> source \<Rightarrow> group_state option" where
  "HostGroupState_new lookahead rnd s =
     (if \<not> lookahead > 0 then None
      else Some \<lparr>src = s, undeferred = [], defer_buffer = [], hostbatch = [], next_batch_no = 0, max_batch_sz = lookahead, randomize_batch = rnd\<rparr>)"

definition refresh_hostbatch :: "host_env \<Rightarrow> group_state \<Rightarrow> group_state option" where
  "refresh_hostbatch e gs = do {
     (s, und, dfr, batch) \<leftarrow> fill_batch e (max_batch_sz gs) (src gs) (undeferred gs @ defer_buffer gs) [] [];
     let gs1 = gs\<lparr>src := s, undeferred := und, defer_buffer := dfr, hostbatch := batch, next_batch_no := 0\<rparr>;
     if batch = [] then Some gs1
     else do {
       b \<leftarrow> discover e (if randomize_batch gs then genfry (shuffle e) batch else batch);
       Some (gs1\<lparr>hostbatch := b\<rparr>) } }"

definition nexthost :: "host_env \<Rightarrow> group_state \<Rightarrow> (host_nfo option \<times> group_state) option" where
  "nexthost e gs = do {
     gs1 \<leftarrow> (if next_batch_no gs \<ge> length (hostbatch gs) then refresh_hostbatch e gs else Some gs);
     if next_batch_no gs1 \<ge> length (hostbatch gs1) then Some (None, gs1)
     else Some (Some (hostbatch gs1 ! next_batch_no gs1), gs1\<lparr>next_batch_no := next_batch_no gs1 + 1\<rparr>) }"

definition returnhost :: "group_state \<Rightarrow> group_state option" where
  "returnhost gs = (if \<not> next_batch_no gs > 0 then None else Some (gs\<lparr>next_batch_no := next_batch_no gs - 1\<rparr>))"

section \<open>Groups for the scan\<close>

definition count_scanned :: "nat \<Rightarrow> group_state \<Rightarrow> group_state" where
  "count_scanned n gs = gs\<lparr>src := (src gs)\<lparr>numhosts_scanned := numhosts_scanned (src gs) + n\<rparr>\<rparr>"

partial_function (option) collect_group :: "host_env \<Rightarrow> nat \<Rightarrow> host_nfo list \<Rightarrow> group_state \<Rightarrow> (host_nfo list \<times> group_state) option" where
  "collect_group e ideal ts gs =
     (if \<not> length ts < ideal then Some (ts, gs)
      else do {
        (x, gs1) \<leftarrow> nexthost e gs;
        (case x of None \<Rightarrow> Some (ts, gs1)
         | Some t0 \<Rightarrow>
           let t = (case spoof_source e of None \<Rightarrow> t0 | Some a \<Rightarrow> t0\<lparr>h_source := Some a\<rparr>) in
           if discovery_only e \<or> \<not> flagged_up t0 then
             (let gs2 = count_scanned 1 gs1 in
              if max_ips e = 0 \<or> max_ips e > numhosts_scanned (src gs2) + length ts then collect_group e ideal ts gs2 else Some (ts, gs2))
           else if \<not> raw_scan e then collect_group e ideal (ts @ [t]) gs1
           else if h_source t = None \<or> h_device t = [] then None
           else do {
             new \<leftarrow> target_needs_new_hostgroup e ts t;
             if new then do { gs2 \<leftarrow> returnhost gs1; Some (ts, gs2) }
             else collect_group e ideal (ts @ [t]) (gs1\<lparr>src := (src gs1)\<lparr>decoy := h_source t\<rparr>\<rparr>) }) })"

record size_opts =
  so_udp :: bool
  so_sctp :: bool
  so_tcp :: bool
  so_tcp_count :: nat
  so_timing :: nat
  so_min :: nat
  so_max :: nat

definition determineScanGroupSize :: "size_opts \<Rightarrow> nat \<Rightarrow> nat \<Rightarrow> nat option" where
  "determineScanGroupSize so limit hosts_so_far = do {
     let big = max (1024 div (if so_tcp_count so \<noteq> 0 then int (so_tcp_count so) else 1)) 64;
     let quick = (if so_timing so = 4 then 8 else 4);
     let g = (if so_udp so then 128 else if so_sctp so then 128
       else if so_tcp so then
         (if so_tcp_count so > 1000 \<and> so_timing so \<le> 4 then
            (if hosts_so_far = 0 then quick else if int hosts_so_far = quick \<and> big > quick * 2 then big - quick else big)
          else big)
       else 16);
     g1 \<leftarrow> box (int (so_min so)) (int (so_max so)) g;
     let left = (word_of_nat limit - word_of_nat hosts_so_far :: u32);
     Some (if limit \<noteq> 0 \<and> unat left < unat (word_of_int g1 :: u32) then nat (sint left) else nat g1) }"

text \<open>The groups of the first \<open>n\<close> rounds; the scan of a group is the work of the scan engine.\<close>

fun scan_groups :: "host_env \<Rightarrow> size_opts \<Rightarrow> nat \<Rightarrow> group_state \<Rightarrow> (host_nfo list list \<times> group_state) option" where
  "scan_groups e so 0 gs = Some ([], gs)"
| "scan_groups e so (Suc n) gs = do {
     ideal \<leftarrow> determineScanGroupSize so (max_ips e) (numhosts_scanned (src gs));
     (ts, gs1) \<leftarrow> collect_group e ideal [] gs;
     if ts = [] then Some ([], gs1)
     else do {
       let gs2 = count_scanned (length ts) gs1;
       if max_ips e = 0 \<or> max_ips e > numhosts_scanned (src gs2) then do { (gps, gs3) \<leftarrow> scan_groups e so n gs2; Some (ts # gps, gs3) }
       else Some ([ts], gs2) } }"

end
