(* ===== verification/Target_Enum.thy ===== *)
theory Target_Enum
  imports Target_Group
begin

text \<open>
  The addresses that a target expression yields.  Repeated calls of \<open>next\<close> on the ranges of octets give every combination once, in
  ascending order, and on an IPv6 address with a netmask every address of the network; then there are none left.
\<close>

unbundle bit_operations_syntax

section \<open>The values of an octet\<close>

definition "values" :: "u64 list \<Rightarrow> nat list" where
  "values v = filter (BIT_IS_SET v) [0..<256]"

lemma values_octets: "set (values v) = octets_of v"
  by (auto simp: values_def octets_of_def)

lemma values_sorted: "sorted_wrt (<) (values v)"
  by (simp add: values_def sorted_wrt_filter)

lemma values_iff: "k \<in> set (values v) \<longleftrightarrow> k < 256 \<and> BIT_IS_SET v k"
  by (auto simp: values_def)

lemma find_set_spec:
  "k \<le> 256 \<Longrightarrow> k \<le> find_set v k \<and> find_set v k \<le> 256 \<and> (\<forall>j. k \<le> j \<longrightarrow> j < find_set v k \<longrightarrow> \<not> BIT_IS_SET v j) \<and>
    (find_set v k < 256 \<longrightarrow> BIT_IS_SET v (find_set v k))"
proof (induction v k rule: find_set.induct)
  case (1 v k)
  show ?case
  proof (cases "k < 256 \<and> \<not> BIT_IS_SET v k")
    case True
    then have "find_set v k = find_set v (k + 1)" by (simp add: find_set.simps[of v k])
    moreover have "\<not> BIT_IS_SET v j" if "k \<le> j" "\<forall>j. k + 1 \<le> j \<longrightarrow> j < m \<longrightarrow> \<not> BIT_IS_SET v j" "j < m" for j m
      using that True by (cases "j = k") auto
    ultimately show ?thesis using "1.IH"[OF True] True by auto
  next
    case False
    then have "find_set v k = k" by (subst find_set.simps) auto
    then show ?thesis using False 1(2) by auto
  qed
qed

lemma find_set_id: "k \<in> set (values v) \<Longrightarrow> find_set v k = k"
  by (simp add: find_set.simps values_iff)

lemma sorted_hd_least: "sorted_wrt (<) l \<Longrightarrow> x \<in> set l \<Longrightarrow> (\<And>y. y \<in> set l \<Longrightarrow> x \<le> y) \<Longrightarrow> hd l = (x :: nat)"
  by (cases l) force+

lemma find_set_first: "find_set v 0 = (if values v = [] then 256 else hd (values v))"
proof (cases "find_set v 0 < 256")
  case True
  then have x: "find_set v 0 \<in> set (values v)" using find_set_spec[of 0 v] by (simp add: values_iff)
  moreover have "find_set v 0 \<le> y" if "y \<in> set (values v)" for y
    using find_set_spec[of 0 v] that by (metis le0 not_le values_iff)
  ultimately have "hd (values v) = find_set v 0" using sorted_hd_least[OF values_sorted] by blast
  then show ?thesis using x by auto
next
  case False
  then have "values v = []" using find_set_spec[of 0 v] by (auto simp: values_def filter_empty_conv)
  then show ?thesis using False find_set_spec[of 0 v] by simp
qed

lemma filter_ConsD: "filter P l = x # t \<Longrightarrow> x \<in> set l \<and> P x"
  by (metis (mono_tags, lifting) list.set_intros(1) mem_Collect_eq set_filter)

lemma filter_above: "sorted_wrt (<) l \<Longrightarrow> filter (\<lambda>n. k < n) l = x # t \<Longrightarrow> filter (\<lambda>n. x < n) l = (t :: nat list)"
proof -
  assume s: "sorted_wrt (<) l" and f: "filter (\<lambda>n. k < n) l = x # t"
  have x: "k < x" using filter_ConsD[OF f] by blast
  have "filter (\<lambda>n. x < n) l = filter (\<lambda>n. x < n) (filter (\<lambda>n. k < n) l)"
    unfolding filter_filter by (rule filter_cong) (use x in auto)
  also have "\<dots> = t" using sorted_wrt_filter[OF s, of "\<lambda>n. k < n"] unfolding f by (auto intro!: filter_True)
  finally show ?thesis .
qed

section \<open>Counting\<close>

lemma bump_octet_step: "k < 255 \<Longrightarrow> \<not> BIT_IS_SET v (k + 1) \<Longrightarrow> bump_octet v k c = bump_octet v (k + 1) c"
  by (subst bump_octet.simps) (simp add: Let_def)

lemma bump_octet_found: "k < 255 \<Longrightarrow> BIT_IS_SET v (k + 1) \<Longrightarrow> bump_octet v k c = Some (k + 1, c)"
  by (subst bump_octet.simps) (simp add: Let_def)

lemma bump_octet_up:
  assumes "k < m" "m < 256" "BIT_IS_SET v m" "\<And>j. k < j \<Longrightarrow> j < m \<Longrightarrow> \<not> BIT_IS_SET v j"
  shows "bump_octet v k c = Some (m, c)"
  using assms
proof (induction "m - k" arbitrary: k)
  case (Suc n)
  show ?case
  proof (cases "m = k + 1")
    case True
    then show ?thesis using bump_octet_found[of k v c] Suc.prems by simp
  next
    case False
    then have "bump_octet v k c = bump_octet v (k + 1) c" using bump_octet_step[of k v c] Suc.prems by simp
    also have "\<dots> = Some (m, c)" by (rule Suc.hyps(1)) (use Suc.prems Suc.hyps(2) False in auto)
    finally show ?thesis .
  qed
qed simp

lemma bump_octet_end:
  assumes "k < 256" "\<And>j. k < j \<Longrightarrow> j < 256 \<Longrightarrow> \<not> BIT_IS_SET v j"
  shows "bump_octet v k c = bump_octet v 255 c"
  using assms
proof (induction "255 - k" arbitrary: k)
  case 0
  then have "k = 255" by simp
  then show ?case by simp
next
  case (Suc n)
  have "bump_octet v k c = bump_octet v (k + 1) c" using bump_octet_step[of k v c] Suc by simp
  also have "\<dots> = bump_octet v 255 c" by (rule Suc.hyps(1)) (use Suc in auto)
  finally show ?case .
qed

lemma bump_octet_values:
  assumes "k \<in> set (values v)"
  shows "bump_octet v k False = Some (case filter (\<lambda>n. k < n) (values v) of [] \<Rightarrow> (hd (values v), True) | x # _ \<Rightarrow> (x, False))"
proof (cases "filter (\<lambda>n. k < n) (values v)")
  case (Cons x t)
  have s: "sorted_wrt (<) (x # t)" using sorted_wrt_filter[OF values_sorted, of "\<lambda>n. k < n" v] Cons by simp
  have x: "x \<in> set (values v)" "k < x" using filter_ConsD[OF Cons] by blast+
  have "\<not> BIT_IS_SET v j" if "k < j" "j < x" for j
  proof
    assume b: "BIT_IS_SET v j"
    then have "j \<in> set (filter (\<lambda>n. k < n) (values v))" using that x by (simp add: values_iff)
    then show False using s that(2) unfolding Cons by auto
  qed
  then show ?thesis using bump_octet_up[of k x v False] x Cons by (simp add: values_iff)
next
  case Nil
  have k: "k < 256" using assms by (simp add: values_iff)
  have "\<not> BIT_IS_SET v j" if "k < j" "j < 256" for j
    using Nil that by (auto simp: filter_empty_conv values_iff)
  then have e: "bump_octet v k False = bump_octet v 255 False" using bump_octet_end[OF k] by blast
  have ne: "values v \<noteq> []" using assms by auto
  have h: "hd (values v) \<in> set (values v)" using ne by simp
  have l: "\<not> BIT_IS_SET v j" if "j < hd (values v)" for j
  proof
    assume "BIT_IS_SET v j"
    then have "j \<in> set (values v)" using that h by (auto simp: values_iff)
    then show False using that values_sorted[of v] by (cases "values v") auto
  qed
  have "bump_octet v 255 False = Some (hd (values v), True)"
  proof (cases "BIT_IS_SET v 0")
    case True
    then have "hd (values v) = 0" using l by (metis gr0I)
    then show ?thesis using True by (subst bump_octet.simps) (simp add: Let_def)
  next
    case False
    then have "0 < hd (values v)" using h by (metis gr0I values_iff)
    then have "bump_octet v 0 True = Some (hd (values v), True)"
      using bump_octet_up[of 0 "hd (values v)" v True] h l by (simp add: values_iff)
    then show ?thesis using False by (subst bump_octet.simps) (simp add: Let_def)
  qed
  then show ?thesis using e Nil by simp
qed

text \<open>The counters from the current ones on, in order.\<close>

fun rest_of :: "(u64 list \<times> nat) list \<Rightarrow> nat list list" where
  "rest_of [] = [[]]"
| "rest_of ((v, k) # r) = map (Cons k) (rest_of r) @
     concat (map (\<lambda>a. map (Cons a) (product_lists (map (\<lambda>x. values (fst x)) r))) (filter (\<lambda>n. k < n) (values v)))"

definition settled :: "(u64 list \<times> nat) list \<Rightarrow> bool" where
  "settled xs \<longleftrightarrow> (\<forall>(v, k) \<in> set xs. k \<in> set (values v))"

lemma settled_simps [simp]: "settled []" "settled ((v, k) # r) \<longleftrightarrow> k \<in> set (values v) \<and> settled r"
  by (auto simp: settled_def)

lemma settle_settled: "length vs = length ks \<Longrightarrow> settled (zip vs ks) \<Longrightarrow> settle vs ks = (True, ks)"
  by (induction vs ks rule: list_induct2) (auto simp: find_set_id values_iff Let_def)

lemma settle_first: "\<forall>v \<in> set vs. values v \<noteq> [] \<Longrightarrow> settle vs (replicate (length vs) 0) = (True, map (\<lambda>v. hd (values v)) vs)"
proof (induction vs)
  case (Cons v vs)
  have "hd (values v) \<in> set (values v)" using Cons.prems by simp
  then have "hd (values v) < 256" by (simp add: values_iff)
  then show ?case using Cons by (simp add: find_set_first Let_def)
qed simp

lemma settled_first: "\<forall>v \<in> set vs. values v \<noteq> [] \<Longrightarrow> settled (zip vs (map (\<lambda>v. hd (values v)) vs))"
  by (induction vs) auto

lemma rest_first: "\<forall>v \<in> set vs. values v \<noteq> [] \<Longrightarrow> rest_of (zip vs (map (\<lambda>v. hd (values v)) vs)) = product_lists (map values vs)"
proof (induction vs)
  case (Cons v vs)
  have m: "map (\<lambda>x. values (fst x)) (zip vs (map (\<lambda>v. hd (values v)) vs)) = map values vs"
    by (rule nth_equalityI) simp_all
  obtain x t where v: "values v = x # t" using Cons.prems by (cases "values v") auto
  have "filter (\<lambda>n. x < n) (x # t) = t" using values_sorted[of v] v by (auto intro!: filter_True)
  then show ?case using Cons v m by simp
qed simp

lemma bump_spec:
  "settled xs \<Longrightarrow> \<exists>ks c. bump xs = Some (ks, c) \<and> length ks = length xs \<and> settled (zip (map fst xs) ks) \<and>
    (if c then rest_of xs = [map snd xs] \<and> ks = map (\<lambda>x. hd (values (fst x))) xs
     else rest_of xs = map snd xs # rest_of (zip (map fst xs) ks))"
proof (induction xs)
  case (Cons x r)
  obtain v k where x: "x = (v, k)" by (cases x)
  have k: "k \<in> set (values v)" and "settled r" using Cons.prems x by simp_all
  then obtain ks c where IH: "bump r = Some (ks, c)" "length ks = length r" "settled (zip (map fst r) ks)"
    "if c then rest_of r = [map snd r] \<and> ks = map (\<lambda>x. hd (values (fst x))) r else rest_of r = map snd r # rest_of (zip (map fst r) ks)"
    using Cons.IH by blast
  have m: "map (\<lambda>x. values (fst x)) (zip (map fst r) ks) = map (\<lambda>x. values (fst x)) r"
    by (rule nth_equalityI) (simp_all add: IH(2))
  show ?case
  proof (cases c)
    case False
    then show ?thesis using IH x k m by auto
  next
    case True
    have ks: "ks = map (\<lambda>x. hd (values (fst x))) r" using IH(4) True by simp
    have ne: "\<forall>w \<in> set (map fst r). values w \<noteq> []" using \<open>settled r\<close> by (auto simp: settled_def)
    have z: "zip (map fst r) ks = zip (map fst r) (map (\<lambda>v. hd (values v)) (map fst r))" by (simp add: ks comp_def)
    have f: "rest_of (zip (map fst r) ks) = product_lists (map (\<lambda>x. values (fst x)) r)"
      using rest_first[OF ne] unfolding z by (simp add: comp_def)
    show ?thesis
    proof (cases "filter (\<lambda>n. k < n) (values v)")
      case Nil
      have "hd (values v) \<in> set (values v)" using k by (cases "values v") auto
      then show ?thesis using True IH x k Nil bump_octet_values[OF k] ks by (intro exI[of _ "hd (values v) # ks"] exI[of _ True]) simp
    next
      case (Cons y t)
      have y: "y \<in> set (values v)" using filter_ConsD[OF Cons] by blast
      have t: "filter (\<lambda>n. y < n) (values v) = t" using filter_above[OF values_sorted Cons] .
      have "bump (x # r) = Some (y # ks, False)" using True IH(1) x bump_octet_values[OF k] Cons by simp
      moreover have "rest_of (x # r) = map snd (x # r) # rest_of (zip (map fst (x # r)) (y # ks))"
        using IH(4) True x Cons f m t by simp
      ultimately show ?thesis using IH(2,3) x y by (intro exI[of _ "y # ks"] exI[of _ False]) simp
    qed
  qed
qed auto

section \<open>All addresses of a block of ranges\<close>

fun take_addrs :: "(string \<Rightarrow> nat option) \<Rightarrow> target_opts \<Rightarrow> nat \<Rightarrow> netblock \<Rightarrow> (sockaddr_storage list \<times> netblock) option" where
  "take_addrs ifindex po 0 nb = Some ([], nb)"
| "take_addrs ifindex po (Suc n) nb = do {
     (r, nb1) \<leftarrow> next_addr ifindex po nb;
     (case r of None \<Rightarrow> Some ([], nb1) | Some a \<Rightarrow> do { (l, nb2) \<leftarrow> take_addrs ifindex po n nb1; Some (a # l, nb2) }) }"

definition spent :: "addrset_elem \<Rightarrow> block_kind" where
  "spent e = IPv4Ranges e (replicate 4 256)"

lemma next_spent: "length (elem_bits e) = 4 \<Longrightarrow> nb_kind nb = spent e \<Longrightarrow> next_addr ifindex po nb = Some (None, nb)"
proof -
  assume l: "length (elem_bits e) = 4" and k: "nb_kind nb = spent e"
  obtain v vs where v: "elem_bits e = v # vs" using l by (cases "elem_bits e") auto
  have "find_set v 256 = 256" by (subst find_set.simps) simp
  then have "settle (elem_bits e) (replicate 4 256) = (False, replicate 4 256)" by (simp add: v numeral_eq_Suc)
  moreover have "nb\<lparr>nb_kind := nb_kind nb\<rparr> = nb" by simp
  ultimately show ?thesis using k by (simp add: next_addr_def ipv4_next_def spent_def)
qed

lemma take_settled:
  assumes "length (elem_bits e) = 4" "length c = 4" "settled (zip (elem_bits e) c)" "nb_kind nb = IPv4Ranges e c"
    "\<And>k. next_resolved po (nb\<lparr>nb_kind := k\<rparr>) = (nb\<lparr>nb_kind := k\<rparr>, None)" "length (rest_of (zip (elem_bits e) c)) < n"
  shows "take_addrs ifindex po n nb = Some (map counter_addr (rest_of (zip (elem_bits e) c)), nb\<lparr>nb_kind := spent e\<rparr>)"
  using assms(2-6)
proof (induction n arbitrary: nb c)
  case (Suc n)
  let ?z = "zip (elem_bits e) c"
  have z: "map fst ?z = elem_bits e" "map snd ?z = c" using Suc.prems(1) assms(1) by simp_all
  have st: "settle (elem_bits e) c = (True, c)" using settle_settled[of "elem_bits e" c] Suc.prems(1,2) assms(1) by simp
  obtain ks cy where b: "bump ?z = Some (ks, cy)" "length ks = length ?z" "settled (zip (elem_bits e) ks)"
    "if cy then rest_of ?z = [c] \<and> ks = map (\<lambda>x. hd (values (fst x))) ?z else rest_of ?z = c # rest_of (zip (elem_bits e) ks)"
    using bump_spec[OF Suc.prems(2)] unfolding z by blast
  have nr: "next_resolved po nb = (nb, None)" using Suc.prems(4)[of "nb_kind nb"] by simp
  show ?case
  proof (cases cy)
    case True
    then have r: "rest_of ?z = [c]" using b(4) by simp
    have nx: "next_addr ifindex po nb = Some (Some (counter_addr c), nb\<lparr>nb_kind := spent e\<rparr>)"
      using Suc.prems(3) st b(1) True nr by (simp add: next_addr_def ipv4_next_def spent_def)
    obtain m where m: "n = Suc m" using Suc.prems(5) r by (cases n) auto
    have "next_addr ifindex po (nb\<lparr>nb_kind := spent e\<rparr>) = Some (None, nb\<lparr>nb_kind := spent e\<rparr>)" by (rule next_spent[OF assms(1)]) simp
    then show ?thesis using nx r m by simp
  next
    case False
    then have r: "rest_of ?z = c # rest_of (zip (elem_bits e) ks)" using b(4) by simp
    let ?nb = "nb\<lparr>nb_kind := IPv4Ranges e ks\<rparr>"
    have nx: "next_addr ifindex po nb = Some (Some (counter_addr c), ?nb)"
      using Suc.prems(3) st b(1) False by (simp add: next_addr_def ipv4_next_def)
    have "take_addrs ifindex po n ?nb = Some (map counter_addr (rest_of (zip (elem_bits e) ks)), ?nb\<lparr>nb_kind := spent e\<rparr>)"
    proof (rule Suc.IH)
      show "length ks = 4" using b(2) assms(1) Suc.prems(1) by simp
      show "next_resolved po (?nb\<lparr>nb_kind := k\<rparr>) = (?nb\<lparr>nb_kind := k\<rparr>, None)" for k using Suc.prems(4)[of k] by simp
    qed (use b(3) r Suc.prems(5) in simp_all)
    then show ?thesis using nx r by simp
  qed
qed simp

lemma take_ranges:
  assumes "length (elem_bits e) = 4" "\<forall>v \<in> set (elem_bits e). values v \<noteq> []" "nb_kind nb = IPv4Ranges e (replicate 4 0)"
    "\<And>k. next_resolved po (nb\<lparr>nb_kind := k\<rparr>) = (nb\<lparr>nb_kind := k\<rparr>, None)" "length (product_lists (map values (elem_bits e))) < n"
  shows "take_addrs ifindex po n nb = Some (map counter_addr (product_lists (map values (elem_bits e))), nb\<lparr>nb_kind := spent e\<rparr>)"
proof -
  let ?c = "map (\<lambda>v. hd (values v)) (elem_bits e)"
  have s: "settle (elem_bits e) (replicate 4 0) = (True, ?c)" using settle_first[OF assms(2)] assms(1) by simp
  have st: "settled (zip (elem_bits e) ?c)" using settled_first[OF assms(2)] .
  have s2: "settle (elem_bits e) ?c = (True, ?c)" using settle_settled[OF _ st] by simp
  have r: "rest_of (zip (elem_bits e) ?c) = product_lists (map values (elem_bits e))" by (rule rest_first[OF assms(2)])
  obtain m where m: "n = Suc m" using assms(5) by (cases n) auto
  have nr: "next_resolved po nb = (nb, None)" using assms(4)[of "nb_kind nb"] by simp
  have "next_addr ifindex po nb = next_addr ifindex po (nb\<lparr>nb_kind := IPv4Ranges e ?c\<rparr>)"
    using s s2 assms(3) nr assms(4)[of "IPv4Ranges e ?c"]
    by (cases "bump (zip (elem_bits e) ?c)") (simp_all add: next_addr_def ipv4_next_def Let_def split: prod.split)
  then have "take_addrs ifindex po n nb = take_addrs ifindex po n (nb\<lparr>nb_kind := IPv4Ranges e ?c\<rparr>)" using m by simp
  also have "\<dots> = Some (map counter_addr (rest_of (zip (elem_bits e) ?c)), (nb\<lparr>nb_kind := IPv4Ranges e ?c\<rparr>)\<lparr>nb_kind := spent e\<rparr>)"
    by (rule take_settled) (use assms(1,4,5) st r in simp_all)
  finally show ?thesis using r by simp
qed

section \<open>Addresses as numbers\<close>

text \<open>Least significant byte first, and the number of an address.\<close>

fun bytes_num :: "u8 list \<Rightarrow> nat" where
  "bytes_num [] = 0"
| "bytes_num (x # xs) = unat x + 256 * bytes_num xs"

definition addr_num :: "u8 list \<Rightarrow> nat" where
  "addr_num a = bytes_num (rev a)"

fun storage_num :: "sockaddr_storage \<Rightarrow> nat" where
  "storage_num (Sockaddr_in a, _) = addr_num a"
| "storage_num (Sockaddr_in6 a, _) = addr_num a"
| "storage_num (Sockaddr_other _, _) = 0"

lemma bytes_num_bound: "bytes_num xs < 256 ^ length xs"
proof (induction xs)
  case (Cons x xs)
  have "unat x < 256" using unsigned_less[of x, where ?'a = nat] by simp
  then show ?case using Cons by simp
qed simp

lemma bytes_num_append: "bytes_num (xs @ ys) = bytes_num xs + 256 ^ length xs * bytes_num ys"
  by (induction xs) (simp_all add: algebra_simps)

lemma addr_num_Cons: "addr_num (x # xs) = unat x * 256 ^ length xs + addr_num xs"
  by (simp add: addr_num_def bytes_num_append)

lemma addr_num_bound: "addr_num xs < 256 ^ length xs"
  using bytes_num_bound[of "rev xs"] by (simp add: addr_num_def)

lemma bytes_num_inj: "length xs = length ys \<Longrightarrow> bytes_num xs = bytes_num ys \<Longrightarrow> xs = ys"
proof (induction xs ys rule: list_induct2)
  case (Cons x xs y ys)
  have "unat x < 256" "unat y < 256" using unsigned_less[of x, where ?'a = nat] unsigned_less[of y, where ?'a = nat] by simp_all
  then have "unat x = bytes_num (x # xs) mod 256" "unat y = bytes_num (y # ys) mod 256" "bytes_num xs = bytes_num (x # xs) div 256"
    "bytes_num ys = bytes_num (y # ys) div 256" by simp_all
  then have "unat x = unat y" "bytes_num xs = bytes_num ys" using Cons.prems by metis+
  then show ?case using Cons.IH by (simp add: word_unat_eq_iff)
qed simp

lemma addr_num_inj: "length xs = length ys \<Longrightarrow> addr_num xs = addr_num ys \<Longrightarrow> xs = ys"
  unfolding addr_num_def using bytes_num_inj[of "rev xs" "rev ys"] by simp

lemma counter_addr_bytes:
  assumes "length c = 4" "\<forall>k \<in> set c. k < 256"
  shows "counter_addr c = (Sockaddr_in (map word_of_nat c), 0)"
proof -
  let ?w = "push_bit 24 (word_of_nat (c ! 0)) OR push_bit 16 (word_of_nat (c ! 1)) OR push_bit 8 (word_of_nat (c ! 2)) OR word_of_nat (c ! 3) :: u32"
  have lt: "\<not> bit (c ! t) i" if "t < 4" "8 \<le> i" for t i
    using assms that less_256_bits[of "c ! t"] by fastforce
  have "htonl ?w ! t = map word_of_nat c ! t" if t: "t < 4" for t
  proof (rule bit_word_eqI)
    fix i assume "i < LENGTH(8)"
    then have i: "i < 8" by simp
    have "bit ?w (24 - 8 * t + i) = bit (c ! t) i"
    proof -
      consider "t = 0" | "t = 1" | "t = 2" | "t = 3" using t by linarith
      then show ?thesis using i by cases (simp_all add: bit_simps lt)
    qed
    then show "bit (htonl ?w ! t) i = bit (map word_of_nat c ! t :: u8) i"
      using bit_htonl[OF t i] t i assms(1) by (simp add: bit_simps)
  qed
  then have "htonl ?w = map word_of_nat c" using assms(1) by (intro list4_eqI) (simp_all add: htonl_def)
  then show ?thesis by (simp add: counter_addr_def)
qed

section \<open>Order\<close>

lemma product_lists_length: "c \<in> set (product_lists xss) \<Longrightarrow> length c = length xss"
  by (auto simp: product_lists_set dest: list_all2_lengthD)

lemma product_lists_small:
  "\<forall>xs \<in> set xss. \<forall>k \<in> set xs. k < n \<Longrightarrow> c \<in> set (product_lists xss) \<Longrightarrow> \<forall>k \<in> set c. k < (n :: nat)"
  by (fastforce simp: product_lists_set list_all2_conv_all_nth in_set_conv_nth)

definition counter_num :: "nat list \<Rightarrow> nat" where
  "counter_num c = addr_num (map word_of_nat c)"

lemma counter_num_Cons: "k < 256 \<Longrightarrow> counter_num (k # c) = k * 256 ^ length c + counter_num c"
  by (simp add: counter_num_def addr_num_Cons unat_of_nat take_bit_nat_eq_self)

lemma counter_num_bound: "counter_num c < 256 ^ length c"
  using addr_num_bound[of "map word_of_nat c"] by (simp add: counter_num_def)

lemma counter_num_less:
  assumes "x < y" "x < 256" "y < 256" "length a = length b"
  shows "counter_num (x # a) < counter_num (y # b)"
proof -
  have "counter_num (x # a) < Suc x * 256 ^ length a" using counter_num_Cons[OF assms(2)] counter_num_bound[of a] by simp
  also have "\<dots> \<le> y * 256 ^ length b" using assms(1,4) by (metis Suc_leI mult_le_mono1)
  also have "\<dots> \<le> counter_num (y # b)" using counter_num_Cons[OF assms(3)] by simp
  finally show ?thesis .
qed

lemma product_lists_ascending:
  assumes "\<forall>xs \<in> set xss. sorted_wrt (<) xs \<and> (\<forall>k \<in> set xs. k < 256)"
  shows "sorted_wrt (<) (map counter_num (product_lists xss))"
  using assms
proof (induction xss)
  case (Cons xs xss)
  let ?P = "product_lists xss"
  have P: "sorted_wrt (<) (map counter_num ?P)" using Cons by simp
  have "sorted_wrt (<) (map counter_num (concat (map (\<lambda>x. map (Cons x) ?P) ys)))"
    if "sorted_wrt (<) ys" "\<forall>k \<in> set ys. k < 256" for ys
    using that
  proof (induction ys)
    case (Cons y ys)
    have "map counter_num (map (Cons y) ?P) = map (\<lambda>c. y * 256 ^ length xss + counter_num c) ?P"
      using Cons.prems counter_num_Cons[of y] by (auto dest!: product_lists_length)
    then have "sorted_wrt (<) (map counter_num (map (Cons y) ?P))"
      using P by (simp only: sorted_wrt_map add_less_cancel_left)
    moreover have "counter_num (y # a) < counter_num (z # b)" if "a \<in> set ?P" "b \<in> set ?P" "z \<in> set ys" for a b z
      using counter_num_less[of y z a b] that Cons.prems by (auto dest!: product_lists_length)
    ultimately show ?case using Cons by (auto simp: sorted_wrt_append)
  qed simp
  then show ?case using Cons.prems by simp
qed simp

lemma range_addresses:
  assumes "elem_wf e" "\<forall>t < 4. octets_of (elem_bits e ! t) \<noteq> {}" "resolvedaddrs nb = []" "nb_kind nb = IPv4Ranges e (replicate 4 0)"
  shows "\<exists>hs nb'. (\<forall>n > length hs. take_addrs ifindex po n nb = Some (hs, nb')) \<and> next_addr ifindex po nb' = Some (None, nb') \<and>
    sorted_wrt (<) (map storage_num hs) \<and> set hs = {(Sockaddr_in ia, 0) |ia. length ia = 4 \<and> addrset_elem_match e (Sockaddr_in ia)}"
proof -
  let ?P = "product_lists (map values (elem_bits e))" and ?nb = "nb\<lparr>nb_kind := spent e\<rparr>"
  have l: "length (elem_bits e) = 4" using assms(1) by (simp add: elem_wf_def)
  have ne: "\<forall>v \<in> set (elem_bits e). values v \<noteq> []" using assms(2) l by (auto simp: in_set_conv_nth simp flip: values_octets)
  have nr: "next_resolved po (nb\<lparr>nb_kind := k\<rparr>) = (nb\<lparr>nb_kind := k\<rparr>, None)" for k using assms(3) by (simp add: next_resolved_def)
  have t: "take_addrs ifindex po n nb = Some (map counter_addr ?P, ?nb)" if "length (map counter_addr ?P) < n" for n
    by (rule take_ranges[OF l ne assms(4) nr]) (use that in simp)
  have cs: "counter_addr c = (Sockaddr_in (map word_of_nat c), 0)" "length c = 4" "\<forall>k \<in> set c. k < 256" if "c \<in> set ?P" for c
  proof -
    show "length c = 4" using product_lists_length[OF that] l by simp
    moreover show "\<forall>k \<in> set c. k < 256" by (rule product_lists_small[OF _ that]) (auto simp: values_iff)
    ultimately show "counter_addr c = (Sockaddr_in (map word_of_nat c), 0)" by (rule counter_addr_bytes)
  qed
  have "sorted_wrt (<) (map counter_num ?P)" by (rule product_lists_ascending) (auto simp: values_sorted values_iff)
  moreover have "map storage_num (map counter_addr ?P) = map counter_num ?P" using cs(1) by (simp add: counter_num_def)
  ultimately have "sorted_wrt (<) (map storage_num (map counter_addr ?P))" by (simp only:)
  moreover have "set (map counter_addr ?P) = {(Sockaddr_in ia, 0) |ia. length ia = 4 \<and> addrset_elem_match e (Sockaddr_in ia)}" (is "?A = ?B")
  proof
    show "?A \<subseteq> ?B"
    proof
      fix s assume "s \<in> ?A"
      then obtain c where c: "c \<in> set ?P" "s = counter_addr c" by auto
      have "unat (map word_of_nat c ! t :: u8) \<in> octets_of (elem_bits e ! t)" if "t < 4" for t
      proof -
        have "c ! t \<in> set (values (elem_bits e ! t))" using c(1) that l by (auto simp: product_lists_set list_all2_conv_all_nth)
        then show ?thesis using cs(2,3)[OF c(1)] that by (simp add: values_octets unat_of_nat take_bit_nat_eq_self)
      qed
      then show "s \<in> ?B" using c cs(1,2)[OF c(1)] addrset_elem_match_octets[of "map word_of_nat c" e] by simp
    qed
    show "?B \<subseteq> ?A"
    proof
      fix s assume "s \<in> ?B"
      then obtain ia where ia: "s = (Sockaddr_in ia, 0)" "length ia = 4" "addrset_elem_match e (Sockaddr_in ia)" by blast
      then have "map unat ia \<in> set ?P" using l by (simp add: product_lists_set list_all2_conv_all_nth addrset_elem_match_octets values_octets)
      moreover have "counter_addr (map unat ia) = s" using cs(1)[OF calculation] ia(1) by (simp add: comp_def)
      ultimately show "s \<in> ?A" by force
    qed
  qed
  moreover have "next_addr ifindex po ?nb = Some (None, ?nb)" by (rule next_spent[OF l]) simp
  ultimately show ?thesis using t by (intro exI[of _ "map counter_addr ?P"] exI[of _ ?nb]) blast
qed

end
