(* ===== verification/Target_Results.thy ===== *)
theory Target_Results
  imports Target_Enum
begin

text \<open>
  Target expressions from the text to the addresses: ranges with a netmask, IPv6 addresses with a netmask, and names.
\<close>

unbundle bit_operations_syntax

section \<open>The parser\<close>

definition mask_text :: "nat option \<Rightarrow> string" where
  "mask_text net = (case net of None \<Rightarrow> [] | Some b \<Rightarrow> CHR ''/'' # dec b)"

lemma dec_no_slash: "CHR ''/'' \<notin> set (dec n)"
  using dec_digits[of "CHR ''/''" n] by (auto simp: ctype_simps)

lemma split_netmask_text:
  assumes "CHR ''/'' \<notin> set s" "net = None \<or> (\<exists>b. net = Some b \<and> b \<le> 2147483647)"
  shows "split_netmask (s @ mask_text net) = Some (s, case net of None \<Rightarrow> -1 | Some b \<Rightarrow> int b)"
proof (cases net)
  case None
  then show ?thesis using assms(1) by (simp add: mask_text_def split_netmask_def)
next
  case (Some b)
  have "\<not> isdigit (deref [])" by simp
  from parse_long_dec[OF this, of b] have d: "parse_long (dec b) = (int b, [], False)" using assms(2) Some by (simp add: LONG_MAX_def)
  have n: "\<forall>x \<in> set (rev (dec b)). x \<noteq> CHR ''/''" using dec_no_slash[of b] by auto
  have t: "takeWhile (\<lambda>c. c \<noteq> CHR ''/'') (rev (s @ CHR ''/'' # dec b)) = rev (dec b)"
    "dropWhile (\<lambda>c. c \<noteq> CHR ''/'') (rev (s @ CHR ''/'' # dec b)) = CHR ''/'' # rev s"
    using takeWhile_append2[of "rev (dec b)" "\<lambda>c. c \<noteq> CHR ''/''" "CHR ''/'' # rev s"]
      dropWhile_append2[of "rev (dec b)" "\<lambda>c. c \<noteq> CHR ''/''" "CHR ''/'' # rev s"] n by simp_all
  have "[] \<noteq> dec b" using dec_not_Nil[of b] by metis
  then show ?thesis using t d Some assms(2) by (simp add: mask_text_def split_netmask_def Let_def)
qed

lemma show_range_no_slash: "CHR ''/'' \<notin> set (show_range r)"
  by (cases r) (auto simp: show_bound_def dec_no_slash split: option.splits)

lemma show_ranges_no_slash: "CHR ''/'' \<notin> set (show_ranges rs)"
  by (induction rs rule: show_ranges.induct) (auto simp: show_range_no_slash)

lemma show_octets_no_slash: "CHR ''/'' \<notin> set (show_octets bs)"
proof -
  have o: "CHR ''/'' \<notin> set (show_octet b)" for b by (cases b) (simp_all add: show_ranges_no_slash)
  show ?thesis by (induction bs rule: show_octets.induct) (auto simp: o)
qed

lemma octet_denotes_nonempty: "octet_ok b \<Longrightarrow> octet_denotes b \<noteq> {}"
  by (cases b) (auto simp: range_ok_def neq_Nil_conv)

text \<open>C8. An expression of ranges, with or without a netmask, yields exactly the addresses that share the leading bits of the netmask
  with an address of the ranges: each once, in ascending order, and then none.\<close>

theorem range_expr_addresses:
  assumes "length bs = 4" "\<forall>b \<in> set bs. octet_ok b" "net = None \<or> (\<exists>b. net = Some b \<and> b \<le> 32)"
  shows "\<exists>nb hs nb'. parse_expr gai (show_octets bs @ mask_text net) AF_INET = Some (Some nb) \<and>
    (\<forall>n > length hs. take_addrs ifindex po n nb = Some (hs, nb')) \<and> next_addr ifindex po nb' = Some (None, nb') \<and>
    sorted_wrt (<) (map storage_num hs) \<and>
    set hs = {(Sockaddr_in ia, 0) |ia. length ia = 4 \<and> (\<exists>ib. length ib = 4 \<and> (\<forall>t < 4. unat (ib ! t) \<in> octet_denotes (bs ! t)) \<and>
      shares_prefix (case net of None \<Rightarrow> 32 | Some b \<Rightarrow> b) ib ia)}"
proof -
  let ?bits = "case net of None \<Rightarrow> -1 | Some b \<Rightarrow> int b" and ?b = "case net of None \<Rightarrow> 32 | Some b \<Rightarrow> b"
  obtain e where e: "parse_ipv4_ranges empty_elem (show_octets bs) = Some e" "elem_wf e" "\<forall>t < 4. octets_of (elem_bits e ! t) = octet_denotes (bs ! t)"
    using parse_ipv4_ranges_wf_show[OF assms(1,2)] by blast
  let ?e = "apply_ipv4_netmask_bits e ?bits" and ?nb = "new_block [] (IPv4Ranges (apply_ipv4_netmask_bits e ?bits) (replicate 4 0))"
  have "net = None \<or> (\<exists>b. net = Some b \<and> b \<le> 2147483647)" using assms(3) by auto
  from split_netmask_text[OF show_octets_no_slash this] have p: "parse_expr gai (show_octets bs @ mask_text net) AF_INET = Some (Some ?nb)"
    using e(1) assms(3) by (auto simp: parse_expr_def parse_expr_without_netmask_def apply_netmask_def new_block_def Let_def)
  have eq: "?e = apply_ipv4_netmask_bits e (int ?b)" by (cases net) (simp_all add: apply_ipv4_netmask_bits_def)
  have b: "0 \<le> int ?b" "int ?b \<le> 32" using assms(3) by (auto split: option.split)
  have wf: "elem_wf ?e" by (rule apply_netmask_bits_wf[OF e(2)])
  have "octets_of (elem_bits ?e ! t) \<noteq> {}" if "t < 4" for t
  proof -
    have "octet_ok (bs ! t)" using assms(1,2) that by (metis nth_mem)
    then have "octets_of (elem_bits e ! t) \<noteq> {}" using octet_denotes_nonempty e(3) that by metis
    then obtain k where k: "k \<in> octets_of (elem_bits e ! t)" by blast
    then have "k < 256" by (simp add: octets_of_def)
    then show ?thesis unfolding eq netmask_octets[OF e(2) b that] using k by blast
  qed
  from range_addresses[OF wf, of ?nb ifindex po] this obtain hs nb' where h: "\<forall>n > length hs. take_addrs ifindex po n ?nb = Some (hs, nb')"
    "next_addr ifindex po nb' = Some (None, nb')" "sorted_wrt (<) (map storage_num hs)"
    "set hs = {(Sockaddr_in ia, 0) |ia. length ia = 4 \<and> addrset_elem_match ?e (Sockaddr_in ia)}"
    by (auto simp: new_block_def)
  have "addrset_elem_match ?e (Sockaddr_in ia) \<longleftrightarrow> (\<exists>ib. length ib = 4 \<and> (\<forall>t < 4. unat (ib ! t) \<in> octet_denotes (bs ! t)) \<and> shares_prefix ?b ib ia)"
    if "length ia = 4" for ia
    unfolding eq netmask_bits_match[OF e(2) b that] using addrset_elem_match_octets e(3) by auto
  then have "set hs = {(Sockaddr_in ia, 0) |ia. length ia = 4 \<and> (\<exists>ib. length ib = 4 \<and> (\<forall>t < 4. unat (ib ! t) \<in> octet_denotes (bs ! t)) \<and> shares_prefix ?b ib ia)}"
    unfolding h(4) by blast
  then show ?thesis using p h(1-3) by blast
qed

theorem range_expr_addresses_witness:
  "\<exists>nb hs nb'. parse_expr (\<lambda>name numeric af. (-2, [])) (show_octets [Ranges [Single 10], Ranges [Single 0], Any, Ranges [Span (Some 1) (Some 2), Single 9]]
      @ mask_text (Some 31)) AF_INET = Some (Some nb) \<and>
    (\<forall>n > length hs. take_addrs (\<lambda>d. None) \<lparr>o_af = AF_INET, o_resolve_all = False, o_device = None\<rparr> n nb = Some (hs, nb')) \<and>
    next_addr (\<lambda>d. None) \<lparr>o_af = AF_INET, o_resolve_all = False, o_device = None\<rparr> nb' = Some (None, nb') \<and> sorted_wrt (<) (map storage_num hs) \<and>
    set hs = {(Sockaddr_in ia, 0) |ia. length ia = 4 \<and> (\<exists>ib. length ib = 4 \<and>
      (\<forall>t < 4. unat (ib ! t) \<in> octet_denotes ([Ranges [Single 10], Ranges [Single 0], Any, Ranges [Span (Some 1) (Some 2), Single 9]] ! t)) \<and>
      shares_prefix (case Some 31 of None \<Rightarrow> 32 | Some b \<Rightarrow> b) ib ia)}"
  by (rule range_expr_addresses) (simp_all add: range_ok_def)

end
