(* ===== verification/Target_IPv6.thy ===== *)
theory Target_IPv6
  imports Target_Results
begin

text \<open>
  An IPv6 address with a netmask: the addresses are counted from the first to the last of the network.
\<close>

unbundle bit_operations_syntax

section \<open>Counting\<close>

lemma length_increment [simp]: "length (increment xs) = length xs"
  by (induction xs) auto

lemma bytes_num_increment: "bytes_num (increment xs) = (bytes_num xs + 1) mod 256 ^ length xs"
proof (induction xs)
  case (Cons x xs)
  show ?case
  proof (cases "x + 1 > 0")
    case True
    then have u: "unat (x + 1) = unat x + 1" by (metis Suc_eq_plus1 add.commute unatSuc word_gt_0)
    have "bytes_num ((x + 1) # xs) < 256 ^ length ((x + 1) # xs)" by (rule bytes_num_bound)
    then have "unat x + 1 + 256 * bytes_num xs < 256 ^ Suc (length xs)" using u by simp
    then show ?thesis using True u by simp
  next
    case False
    then have x: "x + 1 = 0" by (simp add: word_gt_0)
    then have "x = - 1" by (metis add_eq_0_iff add.commute)
    moreover have "(- 1 :: u8) = 255" by simp
    ultimately have u: "unat x = 255" by simp
    have "bytes_num (increment (x # xs)) = 256 * ((bytes_num xs + 1) mod 256 ^ length xs)" using False x Cons by simp
    also have "\<dots> = (256 * (bytes_num xs + 1)) mod (256 * 256 ^ length xs)" by (rule mult_mod_right)
    finally show ?thesis using u by (simp add: algebra_simps)
  qed
qed simp

lemma addr_num_increment: "addr_num (rev (increment (rev a))) = (addr_num a + 1) mod 256 ^ length a"
  using bytes_num_increment[of "rev a"] by (simp add: addr_num_def)

definition scope_of :: "(string \<Rightarrow> nat option) \<Rightarrow> target_opts \<Rightarrow> sockaddr_storage \<Rightarrow> nat" where
  "scope_of ifindex po ss = (if snd ss \<noteq> 0 then snd ss else get_scope_id ifindex (o_device po))"

text \<open>The network of the block, whatever comes after it.\<close>

lemma take_network:
  assumes "nb_kind nb = IPv6Netmask b" "\<not> exhausted b" "length (v6_cur b) = 16" "length (v6_end b) = 16" "addr_num (v6_cur b) + d = addr_num (v6_end b)"
  shows "\<exists>hs b'. exhausted b' \<and> map storage_num hs = [addr_num (v6_cur b)..<Suc (addr_num (v6_end b))] \<and>
    (\<forall>s \<in> set hs. \<exists>a. s = (Sockaddr_in6 a, scope_of ifindex po (v6_addr b)) \<and> length a = 16) \<and>
    (\<forall>m. take_addrs ifindex po (Suc d + m) nb = do { (l, nb') \<leftarrow> take_addrs ifindex po m (nb\<lparr>nb_kind := IPv6Netmask b'\<rparr>); Some (hs @ l, nb') })"
  using assms
proof (induction d arbitrary: nb b)
  case 0
  have e: "v6_cur b = v6_end b" by (rule addr_num_inj) (use "0.prems" in simp_all)
  define b1 where "b1 = snd (ipv6_take ifindex po b)"
  let ?a = "(Sockaddr_in6 (v6_cur b), scope_of ifindex po (v6_addr b))"
  have t: "ipv6_take ifindex po b = (?a, b1)" by (simp add: b1_def ipv6_take_def scope_of_def)
  have "exhausted b1" using e by (simp add: b1_def ipv6_take_def)
  moreover have "next_addr ifindex po nb = Some (Some ?a, nb\<lparr>nb_kind := IPv6Netmask b1\<rparr>)"
    using "0.prems"(1,2) t by (simp add: next_addr_def ipv6_next_def)
  ultimately show ?case using "0.prems"(3) e by (intro exI[of _ "[?a]"] exI[of _ b1]) simp
next
  case (Suc d)
  define b1 where "b1 = snd (ipv6_take ifindex po b)"
  let ?nb = "nb\<lparr>nb_kind := IPv6Netmask b1\<rparr>" and ?a = "(Sockaddr_in6 (v6_cur b), scope_of ifindex po (v6_addr b))"
  have t: "ipv6_take ifindex po b = (?a, b1)" by (simp add: b1_def ipv6_take_def scope_of_def)
  have nx: "next_addr ifindex po nb = Some (Some ?a, ?nb)" using Suc.prems(1,2) t by (simp add: next_addr_def ipv6_next_def)
  have ne: "v6_cur b \<noteq> v6_end b" using Suc.prems(5) by auto
  have "addr_num (v6_end b) < 256 ^ 16" using addr_num_bound[of "v6_end b"] Suc.prems(4) by simp
  then have c: "addr_num (v6_cur b1) = addr_num (v6_cur b) + 1"
    using addr_num_increment[of "v6_cur b"] Suc.prems(3,5) by (simp add: b1_def ipv6_take_def)
  have "\<exists>hs b'. exhausted b' \<and> map storage_num hs = [addr_num (v6_cur b1)..<Suc (addr_num (v6_end b1))] \<and>
    (\<forall>s \<in> set hs. \<exists>a. s = (Sockaddr_in6 a, scope_of ifindex po (v6_addr b1)) \<and> length a = 16) \<and>
    (\<forall>m. take_addrs ifindex po (Suc d + m) ?nb = do { (l, nb') \<leftarrow> take_addrs ifindex po m (?nb\<lparr>nb_kind := IPv6Netmask b'\<rparr>); Some (hs @ l, nb') })"
    by (rule Suc.IH) (use Suc.prems ne c in \<open>simp_all add: b1_def ipv6_take_def\<close>)
  then obtain hs b' where h: "exhausted b'" "map storage_num hs = [addr_num (v6_cur b) + 1..<Suc (addr_num (v6_end b))]"
    "\<forall>s \<in> set hs. \<exists>a. s = (Sockaddr_in6 a, scope_of ifindex po (v6_addr b)) \<and> length a = 16"
    "\<And>m. take_addrs ifindex po (Suc d + m) ?nb = do { (l, nb') \<leftarrow> take_addrs ifindex po m (nb\<lparr>nb_kind := IPv6Netmask b'\<rparr>); Some (hs @ l, nb') }"
    unfolding c by (auto simp: b1_def ipv6_take_def)
  have tk: "take_addrs ifindex po (Suc (Suc d + m)) nb = do { (l, nb2) \<leftarrow> take_addrs ifindex po (Suc d + m) ?nb; Some (?a # l, nb2) }" for m
    using nx by (simp only: take_addrs.simps(2)[of ifindex po "Suc d + m" nb]) simp
  have "[addr_num (v6_cur b)..<Suc (addr_num (v6_end b))] = addr_num (v6_cur b) # [addr_num (v6_cur b) + 1..<Suc (addr_num (v6_end b))]"
    using Suc.prems(5) by (simp add: upt_rec del: upt_Suc)
  moreover have "take_addrs ifindex po (Suc (Suc d) + m) nb = do { (l, nb') \<leftarrow> take_addrs ifindex po m (nb\<lparr>nb_kind := IPv6Netmask b'\<rparr>); Some ((?a # hs) @ l, nb') }" for m
    unfolding add_Suc[of "Suc d" m] tk h(4) by (cases "take_addrs ifindex po m (nb\<lparr>nb_kind := IPv6Netmask b'\<rparr>)") auto
  ultimately show ?case using h(1-3) Suc.prems(3) by (intro exI[of _ "?a # hs"] exI[of _ b']) auto
qed

text \<open>The addresses of a name that are left with \<open>--resolve-all\<close>.\<close>

lemma take_resolved:
  assumes "nb_kind nb = IPv6Netmask b" "exhausted b" "o_resolve_all po" "drop (Suc (current_addr nb)) (resolvedaddrs nb) = as"
    "\<forall>a \<in> set as. \<exists>x. fst a = Sockaddr_in6 x" "current_addr nb \<le> length (resolvedaddrs nb)"
  shows "\<exists>nb'. next_addr ifindex po nb' = Some (None, nb') \<and>
    (\<forall>n > length as. take_addrs ifindex po n nb = Some (map (\<lambda>a. (fst a, scope_of ifindex po a)) as, nb'))"
  using assms(1,2,4-)
proof (induction as arbitrary: nb b)
  case Nil
  obtain nb1 where r: "next_resolved po nb = (nb1, None)" "next_resolved po nb1 = (nb1, None)" "nb_kind nb1 = IPv6Netmask b"
  proof (cases "o_resolve_all po \<and> resolvedaddrs nb \<noteq> [] \<and> current_addr nb \<noteq> length (resolvedaddrs nb)")
    case True
    then have c: "current_addr nb + 1 = length (resolvedaddrs nb)" using Nil.prems(3,5) by simp
    show thesis by (rule that[of "nb\<lparr>current_addr := current_addr nb + 1\<rparr>"]) (use True c Nil.prems(1) in \<open>simp_all add: next_resolved_def\<close>)
  next
    case False
    show thesis by (rule that[of nb]) (use False Nil.prems(1) in \<open>auto simp: next_resolved_def\<close>)
  qed
  then have "next_addr ifindex po nb1 = Some (None, nb1)" "next_addr ifindex po nb = Some (None, nb1)"
    using Nil.prems(1,2) by (simp_all add: next_addr_def ipv6_next_def)
  then show ?case by (intro exI[of _ nb1]) (auto simp: gr0_conv_Suc)
next
  case (Cons a as)
  have c: "Suc (current_addr nb) < length (resolvedaddrs nb)" using Cons.prems(3) by (metis drop_eq_Nil list.distinct(1) not_le)
  have a: "resolvedaddrs nb ! Suc (current_addr nb) = a" "drop (Suc (Suc (current_addr nb))) (resolvedaddrs nb) = as"
    using Cons.prems(3) c by (metis Cons_nth_drop_Suc list.inject)+
  let ?nb = "nb\<lparr>current_addr := Suc (current_addr nb)\<rparr>"
  have r: "next_resolved po nb = (?nb, Some a)" using c a(1) assms(3) by (auto simp: next_resolved_def Let_def)
  obtain x s where x: "a = (Sockaddr_in6 x, s)" using Cons.prems(4) by (cases a) auto
  let ?b1 = "\<lparr>exhausted = False, v6_addr = a, v6_start = x, v6_cur = x, v6_end = x\<rparr>"
  define b2 where "b2 = snd (ipv6_take ifindex po ?b1)"
  let ?h = "(fst a, scope_of ifindex po a)"
  have t: "ipv6_take ifindex po ?b1 = (?h, b2)" "exhausted b2" by (simp_all add: b2_def ipv6_take_def scope_of_def x)
  have nx: "next_addr ifindex po nb = Some (Some ?h, ?nb\<lparr>nb_kind := IPv6Netmask b2\<rparr>)"
    unfolding next_addr_def ipv6_next_def Cons.prems(1) block_kind.case using Cons.prems(2) r t(1) by (simp add: ipv6_set_addr_def x Let_def)
  obtain nb' where "next_addr ifindex po nb' = Some (None, nb')"
    "\<forall>n > length as. take_addrs ifindex po n (?nb\<lparr>nb_kind := IPv6Netmask b2\<rparr>) = Some (map (\<lambda>a. (fst a, scope_of ifindex po a)) as, nb')"
    using Cons.IH[of "?nb\<lparr>nb_kind := IPv6Netmask b2\<rparr>" b2] t(2) a(2) Cons.prems(4) c by auto
  then show ?case using nx by (intro exI[of _ nb']) (auto simp: less_Suc_eq_0_disj gr0_conv_Suc Suc_less_eq2)
qed

section \<open>Masks\<close>

lemma bit_bytes_num: "bit (bytes_num xs) n \<longleftrightarrow> n div 8 < length xs \<and> bit (xs ! (n div 8)) (n mod 8)"
proof (induction xs arbitrary: n)
  case (Cons x xs)
  have "unat x < 256" using unsigned_less[of x, where ?'a = nat] by simp
  then have x: "bit (unat x) i \<Longrightarrow> i < 8" for i using less_256_bits by blast
  have "bytes_num (x # xs) = unat x + push_bit 8 (bytes_num xs)" by (simp add: push_bit_eq_mult)
  also have "\<dots> = unat x OR push_bit 8 (bytes_num xs)"
    by (rule disjunctive_add_eq_or, rule bit_eqI) (auto simp: bit_and_iff bit_push_bit_iff dest: x)
  finally have "bytes_num (x # xs) = unat x OR push_bit 8 (bytes_num xs)" .
  then have "bit (bytes_num (x # xs)) n \<longleftrightarrow> bit (unat x) n \<or> (8 \<le> n \<and> bit (bytes_num xs) (n - 8))"
    by (simp add: bit_or_iff bit_push_bit_iff)
  also have "\<dots> \<longleftrightarrow> n div 8 < length (x # xs) \<and> bit ((x # xs) ! (n div 8)) (n mod 8)"
  proof (cases "n < 8")
    case True
    then show ?thesis using x[of n] by (auto simp: bit_unsigned_iff)
  next
    case False
    then have "n div 8 = Suc ((n - 8) div 8)" "n mod 8 = (n - 8) mod 8" by (simp_all add: le_div_geq le_mod_geq)
    then show ?thesis using False x[of n] Cons.IH[of "n - 8"] by auto
  qed
  finally show ?case .
qed simp

lemma bit_addr_num: "length a = 16 \<Longrightarrow> bit (addr_num a) n \<longleftrightarrow> n < 128 \<and> bit (a ! (15 - n div 8)) (n mod 8)"
  unfolding addr_num_def bit_bytes_num by (auto simp: rev_nth less_mult_imp_div_less)

lemma fill_netmask_nth:
  assumes "0 < bits" "i + (bits - 1) div 8 < length msk" "t < length msk"
  shows "length (fill_netmask i bits msk) = length msk \<and> fill_netmask i bits msk ! t =
    (if t < i then msk ! t else if 8 * (t - i) + 8 \<le> bits then 0xFF else if 8 * (t - i) < bits then push_bit (8 - (bits - 8 * (t - i))) 0xFF else msk ! t)"
  using assms
proof (induction i bits msk rule: fill_netmask.induct)
  case (1 i bits msk)
  show ?case
  proof (cases "bits > 8")
    case True
    have "(bits - 1) div 8 = Suc ((bits - 8 - 1) div 8)" using True by (simp add: le_div_geq)
    then have IH: "length (fill_netmask (i + 1) (bits - 8) (msk[i := 0xFF])) = length msk"
      "fill_netmask (i + 1) (bits - 8) (msk[i := 0xFF]) ! t =
        (if t < i + 1 then msk[i := 0xFF] ! t else if 8 * (t - (i + 1)) + 8 \<le> bits - 8 then 0xFF
         else if 8 * (t - (i + 1)) < bits - 8 then push_bit (8 - (bits - 8 - 8 * (t - (i + 1)))) 0xFF else msk[i := 0xFF] ! t)"
      using "1.IH"[OF True] True "1.prems" by simp_all
    have f: "fill_netmask i bits msk = fill_netmask (i + 1) (bits - 8) (msk[i := 0xFF])" using True by (simp add: fill_netmask.simps[of i bits])
    consider "t < i" | "t = i" | "i < t" by linarith
    then show ?thesis
    proof cases
      case 3
      then have "8 * (t - i) = 8 * (t - (i + 1)) + 8" by simp
      then show ?thesis using IH f 3 by (auto simp: nth_list_update)
    qed (use IH f "1.prems" True in \<open>simp_all\<close>)
  next
    case False
    then have f: "fill_netmask i bits msk = msk[i := push_bit (8 - bits) 0xFF]" by (subst fill_netmask.simps) simp
    consider "t < i" | "t = i" | "i < t" by linarith
    then show ?thesis
    proof cases
      case 2
      then show ?thesis using f "1.prems" False by (cases "bits = 8") auto
    next
      case 3
      then show ?thesis using f False by auto
    qed (use f in simp)
  qed
qed

lemma make_ipv6_netmask_spec:
  assumes "0 \<le> bits" "bits \<le> 128"
  shows "length (make_ipv6_netmask bits) = 16" "t < 16 \<Longrightarrow> i < 8 \<Longrightarrow> bit (make_ipv6_netmask bits ! t) i \<longleftrightarrow> 8 * t + (7 - i) < nat bits"
proof -
  have f: "length (fill_netmask 0 (nat bits) (replicate 16 0)) = 16 \<and> fill_netmask 0 (nat bits) (replicate 16 0) ! t =
      (if 8 * t + 8 \<le> nat bits then 0xFF else if 8 * t < nat bits then push_bit (8 - (nat bits - 8 * t)) 0xFF else 0)"
    if "t < 16" "bits \<noteq> 0" for t
    using fill_netmask_nth[of "nat bits" 0 "replicate 16 0" t] that assms by auto
  show "length (make_ipv6_netmask bits) = 16" using assms f[of 0] by (auto simp: make_ipv6_netmask_def Let_def)
  show "bit (make_ipv6_netmask bits ! t) i \<longleftrightarrow> 8 * t + (7 - i) < nat bits" if "t < 16" "i < 8"
  proof (cases "bits = 0")
    case True
    then show ?thesis using that by (simp add: make_ipv6_netmask_def Let_def del: replicate.simps)
  next
    case False
    have ff: "(0xFF :: u8) = - 1" by simp
    have "make_ipv6_netmask bits = fill_netmask 0 (nat bits) (replicate 16 0)" using assms False by (simp add: make_ipv6_netmask_def Let_def)
    then show ?thesis using f[OF that(1) False] that unfolding ff by (auto simp: bit_simps)
  qed
qed

text \<open>More calls change nothing when no address is left.\<close>

lemma or_mask_nth:
  assumes "length a = 16" "length m = 16" "length b = 16"
  shows "length (ipv6_or_mask a m b) = 16" "t < 16 \<Longrightarrow> ipv6_or_mask a m b ! t = (a ! t AND m ! t) OR (b ! t AND NOT (m ! t))"
  using assms by (simp_all add: ipv6_or_mask_def)

lemma network_bounds:
  fixes bits :: int
  defines "k \<equiv> 128 - nat bits"
  assumes "length a = 16" "0 \<le> bits" "bits \<le> 128"
  shows "addr_num (ipv6_or_mask a (make_ipv6_netmask bits) (replicate 16 0)) = addr_num a div 2 ^ k * 2 ^ k"
    "addr_num (ipv6_or_mask a (make_ipv6_netmask bits) (replicate 16 0xff)) + 1 = addr_num a div 2 ^ k * 2 ^ k + 2 ^ k"
proof -
  let ?m = "make_ipv6_netmask bits"
  have l: "length ?m = 16" using make_ipv6_netmask_spec(1)[OF assms(3,4)] .
  have m: "bit (?m ! (15 - n div 8)) (n mod 8) \<longleftrightarrow> k \<le> n" if "n < 128" for n
  proof -
    have d: "n div 8 \<le> 15" using that by simp
    have "8 * (15 - n div 8) + (7 - n mod 8) + n = 127" using d div_mult_mod_eq[of n 8] mod_less_divisor[of 8 n] by linarith
    then have "8 * (15 - n div 8) + (7 - n mod 8) < nat bits \<longleftrightarrow> 127 < nat bits + n" by linarith
    then show ?thesis using make_ipv6_netmask_spec(2)[OF assms(3,4), of "15 - n div 8" "n mod 8"] assms(4) by (auto simp: k_def)
  qed
  have s: "addr_num (ipv6_or_mask a ?m (replicate 16 0)) = push_bit k (drop_bit k (addr_num a))"
  proof (rule bit_eqI)
    fix n
    have "bit (addr_num (ipv6_or_mask a ?m (replicate 16 0))) n \<longleftrightarrow> n < 128 \<and> bit (a ! (15 - n div 8)) (n mod 8) \<and> k \<le> n"
      using bit_addr_num[OF or_mask_nth(1)[OF assms(2) l]] or_mask_nth(2)[OF assms(2) l, of "replicate 16 0" "15 - n div 8"] m[of n]
      by (auto simp: bit_or_iff bit_and_iff simp del: replicate.simps)
    then show "bit (addr_num (ipv6_or_mask a ?m (replicate 16 0))) n \<longleftrightarrow> bit (push_bit k (drop_bit k (addr_num a))) n"
      using bit_addr_num[OF assms(2), of n] by (auto simp: bit_push_bit_iff bit_drop_bit_eq)
  qed
  then show "addr_num (ipv6_or_mask a ?m (replicate 16 0)) = addr_num a div 2 ^ k * 2 ^ k" by (simp add: push_bit_eq_mult drop_bit_eq_div)
  have "addr_num (ipv6_or_mask a ?m (replicate 16 0xff)) = push_bit k (drop_bit k (addr_num a)) OR mask k"
  proof (rule bit_eqI)
    fix n
    have ff: "(0xff :: u8) = - 1" by simp
    have "bit (addr_num (ipv6_or_mask a ?m (replicate 16 0xff))) n \<longleftrightarrow> n < 128 \<and> (bit (a ! (15 - n div 8)) (n mod 8) \<or> n < k)"
      unfolding ff using bit_addr_num[OF or_mask_nth(1)[OF assms(2) l]] or_mask_nth(2)[OF assms(2) l, of "replicate 16 (- 1)" "15 - n div 8"] m[of n]
      by (auto simp: bit_simps simp del: replicate.simps)
    moreover have "k \<le> 128" by (simp add: k_def)
    ultimately show "bit (addr_num (ipv6_or_mask a ?m (replicate 16 0xff))) n \<longleftrightarrow> bit (push_bit k (drop_bit k (addr_num a)) OR mask k) n"
      using bit_addr_num[OF assms(2), of n] by (auto simp: bit_simps)
  qed
  also have "\<dots> = push_bit k (drop_bit k (addr_num a)) + mask k"
    by (rule disjunctive_add_eq_or[symmetric], rule bit_eqI) (auto simp: bit_simps)
  finally have "addr_num (ipv6_or_mask a ?m (replicate 16 0xff)) + 1 = push_bit k (drop_bit k (addr_num a)) + (mask k + 1)" by simp
  moreover have "mask k + 1 = (2 :: nat) ^ k" by (simp add: mask_eq_exp_minus_1)
  ultimately show "addr_num (ipv6_or_mask a ?m (replicate 16 0xff)) + 1 = addr_num a div 2 ^ k * 2 ^ k + 2 ^ k"
    by (simp add: push_bit_eq_mult drop_bit_eq_div)
qed

lemma sort_addrs_spec:
  "fst (sort_addrs po af as l) =
     fst l @ (if o_resolve_all po then filter (\<lambda>a. ss_family (fst a) = af) as
        else if fst l = [] then take 1 (filter (\<lambda>a. ss_family (fst a) = af) as) else [])"
  by (induction as arbitrary: l) auto

text \<open>The block of an address with a netmask.\<close>

definition network_size :: "nat option \<Rightarrow> nat" where
  "network_size net = 2 ^ (case net of None \<Rightarrow> 0 | Some b \<Rightarrow> 128 - b)"

definition network_first :: "u8 list \<Rightarrow> nat option \<Rightarrow> nat" where
  "network_first ia net = addr_num ia div network_size net * network_size net"

lemma network_block:
  assumes "length ia = 16" "net = None \<or> (\<exists>b. net = Some b \<and> b \<le> 128)"
  obtains b where "ipv6_apply_netmask \<lparr>exhausted = False, v6_addr = ss, v6_start = ia, v6_cur = ia, v6_end = ia\<rparr>
      (case net of None \<Rightarrow> -1 | Some b \<Rightarrow> int b) = b" "\<not> exhausted b" "v6_addr b = ss" "length (v6_cur b) = 16" "length (v6_end b) = 16"
    "addr_num (v6_cur b) = network_first ia net" "Suc (addr_num (v6_end b)) = network_first ia net + network_size net"
proof -
  let ?bits = "case net of None \<Rightarrow> -1 | Some b \<Rightarrow> int b" and ?b = "case net of None \<Rightarrow> 128 | Some b \<Rightarrow> int b"
  let ?m = "make_ipv6_netmask ?b"
  let ?s = "ipv6_or_mask ia ?m (replicate 16 0)" and ?e = "ipv6_or_mask ia ?m (replicate 16 0xff)"
  define blk where "blk = \<lparr>exhausted = False, v6_addr = ss, v6_start = ?s, v6_cur = ?s, v6_end = ?e\<rparr>"
  have b: "0 \<le> ?b" "?b \<le> 128" using assms(2) by (auto split: option.split)
  have k: "network_size net = 2 ^ (128 - nat ?b)" by (auto simp: network_size_def split: option.split)
  have l: "length ?m = 16" using make_ipv6_netmask_spec(1)[OF b] .
  have ls: "length ?s = 16" "length ?e = 16" using or_mask_nth(1)[OF assms(1) l] by (simp_all del: replicate.simps)
  have "ipv6_apply_netmask \<lparr>exhausted = False, v6_addr = ss, v6_start = ia, v6_cur = ia, v6_end = ia\<rparr> ?bits = blk"
    using assms(2) by (cases net) (auto simp: ipv6_apply_netmask_def blk_def Let_def)
  then show thesis by (rule that) (use network_bounds[OF assms(1) b, folded k] ls in \<open>simp_all add: blk_def network_first_def\<close>)
qed

lemma network_taken:
  assumes "length ia = 16" "net = None \<or> (\<exists>b. net = Some b \<and> b \<le> 128)"
    "nb_kind nb = IPv6Netmask (ipv6_apply_netmask \<lparr>exhausted = False, v6_addr = ss, v6_start = ia, v6_cur = ia, v6_end = ia\<rparr>
      (case net of None \<Rightarrow> -1 | Some b \<Rightarrow> int b))"
  obtains hs b' where "exhausted b'" "map storage_num hs = [network_first ia net..<network_first ia net + network_size net]"
    "\<forall>s \<in> set hs. \<exists>a. s = (Sockaddr_in6 a, scope_of ifindex po ss) \<and> length a = 16"
    "\<And>m. take_addrs ifindex po (length hs + m) nb =
      do { (l, nb') \<leftarrow> take_addrs ifindex po m (nb\<lparr>nb_kind := IPv6Netmask b'\<rparr>); Some (hs @ l, nb') }"
proof -
  obtain b where b: "nb_kind nb = IPv6Netmask b" "\<not> exhausted b" "v6_addr b = ss" "length (v6_cur b) = 16" "length (v6_end b) = 16"
    "addr_num (v6_cur b) = network_first ia net" "Suc (addr_num (v6_end b)) = network_first ia net + network_size net"
    using network_block[OF assms(1,2), of ss] assms(3) by metis
  define d where "d = addr_num (v6_end b) - addr_num (v6_cur b)"
  have "0 < network_size net" by (simp add: network_size_def)
  then have d: "addr_num (v6_cur b) + d = addr_num (v6_end b)" using b(6,7) by (simp add: d_def)
  obtain hs b' where h: "exhausted b'" "map storage_num hs = [addr_num (v6_cur b)..<Suc (addr_num (v6_end b))]"
    "\<forall>s \<in> set hs. \<exists>a. s = (Sockaddr_in6 a, scope_of ifindex po (v6_addr b)) \<and> length a = 16"
    "\<And>m. take_addrs ifindex po (Suc d + m) nb = do { (l, nb') \<leftarrow> take_addrs ifindex po m (nb\<lparr>nb_kind := IPv6Netmask b'\<rparr>); Some (hs @ l, nb') }"
    using take_network[OF b(1,2,4,5) d, of ifindex po] by blast
  have "length hs = Suc d" using arg_cong[OF h(2), of length] d by simp
  then show thesis by (intro that[of b' hs]) (use h b(3,6,7) in simp_all)
qed

text \<open>An IPv6 address with a netmask yields every address of its network once, from the first to the last, all with the scope of the
  address or else that of the device, and then none.\<close>

theorem ipv6_expr_addresses:
  assumes "CHR ''/'' \<notin> set host" "gai host True AF_INET6 = (0, (Sockaddr_in6 ia, scope) # others)" "length ia = 16"
    "net = None \<or> (\<exists>b. net = Some b \<and> b \<le> 128)"
  shows "\<exists>nb hs nb'. parse_expr gai (host @ mask_text net) AF_INET6 = Some (Some nb) \<and>
    (\<forall>n > length hs. take_addrs ifindex po n nb = Some (hs, nb')) \<and> next_addr ifindex po nb' = Some (None, nb') \<and>
    map storage_num hs = [network_first ia net..<network_first ia net + network_size net] \<and>
    (\<forall>s \<in> set hs. \<exists>a. s = (Sockaddr_in6 a, scope_of ifindex po (Sockaddr_in6 ia, scope)) \<and> length a = 16)"
proof -
  let ?bits = "case net of None \<Rightarrow> -1 | Some b \<Rightarrow> int b"
  define nb where "nb = new_block [] (IPv6Netmask (ipv6_apply_netmask
    \<lparr>exhausted = False, v6_addr = (Sockaddr_in6 ia, scope), v6_start = ia, v6_cur = ia, v6_end = ia\<rparr> ?bits))"
  have "net = None \<or> (\<exists>b. net = Some b \<and> b \<le> 2147483647)" using assms(4) by auto
  from split_netmask_text[OF assms(1) this] have p: "parse_expr gai (host @ mask_text net) AF_INET6 = Some (Some nb)"
    using assms(2) by (simp add: parse_expr_def parse_expr_without_netmask_def resolve_numeric_def ipv6_set_addr_def apply_netmask_def new_block_def nb_def)
  have k: "nb_kind nb = IPv6Netmask (ipv6_apply_netmask
    \<lparr>exhausted = False, v6_addr = (Sockaddr_in6 ia, scope), v6_start = ia, v6_cur = ia, v6_end = ia\<rparr> ?bits)" by (simp add: nb_def new_block_def)
  obtain hs b' where h: "exhausted b'" "map storage_num hs = [network_first ia net..<network_first ia net + network_size net]"
    "\<forall>s \<in> set hs. \<exists>a. s = (Sockaddr_in6 a, scope_of ifindex po (Sockaddr_in6 ia, scope)) \<and> length a = 16"
    "\<And>m. take_addrs ifindex po (length hs + m) nb = do { (l, nb') \<leftarrow> take_addrs ifindex po m (nb\<lparr>nb_kind := IPv6Netmask b'\<rparr>); Some (hs @ l, nb') }"
    by (rule network_taken[OF assms(3,4) k, of ifindex po]) (erule (2) that, simp)
  let ?nb' = "nb\<lparr>nb_kind := IPv6Netmask b'\<rparr>"
  have e: "next_addr ifindex po ?nb' = Some (None, ?nb')" using h(1) by (simp add: next_addr_def ipv6_next_def next_resolved_def nb_def new_block_def)
  have "take_addrs ifindex po n nb = Some (hs, ?nb')" if n: "length hs < n" for n
  proof -
    obtain m where "n = length hs + Suc m" using n by (metis add_Suc_right less_imp_Suc_add)
    then show ?thesis using h(4)[of "Suc m"] e by simp
  qed
  then show ?thesis using p e h(2,3) by blast
qed

text \<open>Under \<open>--resolve-all\<close> a name with a netmask yields the network of its first IPv6 address and then, of the others, just the
  addresses: the netmask is lost.\<close>

theorem resolve_all_netmask_lost:
  assumes "CHR ''/'' \<notin> set host" "fst (gai host True AF_INET6) \<noteq> 0" "gai host False AF_UNSPEC = (0, addrs)"
    "filter (\<lambda>a. ss_family (fst a) = AF_INET6) addrs = (Sockaddr_in6 ia, scope) # others" "length ia = 16" "o_resolve_all po"
    "\<forall>a \<in> set others. \<exists>x. fst a = Sockaddr_in6 x" "net = None \<or> (\<exists>b. net = Some b \<and> b \<le> 128)"
  shows "\<exists>nb nb1 hs nb'. parse_expr gai (host @ mask_text net) AF_INET6 = Some (Some nb) \<and> resolve_block gai po nb = Some (Some nb1) \<and>
    (\<forall>n > length hs + length others.
      take_addrs ifindex po n nb1 = Some (hs @ map (\<lambda>a. (fst a, scope_of ifindex po a)) others, nb')) \<and> next_addr ifindex po nb' = Some (None, nb') \<and>
    map storage_num hs = [network_first ia net..<network_first ia net + network_size net]"
proof -
  let ?bits = "case net of None \<Rightarrow> -1 | Some b \<Rightarrow> int b"
  have nr: "resolve_numeric gai host AF_INET6 = None" using assms(2) by (cases "gai host True AF_INET6") (simp add: resolve_numeric_def)
  have "net = None \<or> (\<exists>b. net = Some b \<and> b \<le> 2147483647)" using assms(8) by auto
  from split_netmask_text[OF assms(1) this] have p: "parse_expr gai (host @ mask_text net) AF_INET6 = Some (Some (new_block host (Hostname AF_INET6 ?bits)))"
    using nr by (simp add: parse_expr_def parse_expr_without_netmask_def apply_netmask_def new_block_def)
  obtain un where so: "sort_addrs po AF_INET6 (resolve_all gai host AF_UNSPEC) ([], []) = ((Sockaddr_in6 ia, scope) # others, un)"
    using sort_addrs_spec[of po AF_INET6 addrs "([], [])"] assms(3,4,6) by (cases "sort_addrs po AF_INET6 addrs ([], [])") (simp add: resolve_all_def)
  define nb1 where "nb1 = \<lparr>nb_hostname = host, resolvedaddrs = (Sockaddr_in6 ia, scope) # others, unscanned_addrs = un, current_addr = 0,
    nb_kind = IPv6Netmask (ipv6_apply_netmask \<lparr>exhausted = False, v6_addr = (Sockaddr_in6 ia, scope), v6_start = ia, v6_cur = ia, v6_end = ia\<rparr> ?bits)\<rparr>"
  have r: "resolve_block gai po (new_block host (Hostname AF_INET6 ?bits)) = Some (Some nb1)"
    using so by (simp add: resolve_block_def resolve_name_block_def new_block_def ipv6_set_addr_def apply_netmask_def nb1_def Let_def)
  have k: "nb_kind nb1 = IPv6Netmask (ipv6_apply_netmask
    \<lparr>exhausted = False, v6_addr = (Sockaddr_in6 ia, scope), v6_start = ia, v6_cur = ia, v6_end = ia\<rparr> ?bits)" by (simp add: nb1_def)
  obtain hs b' where h: "exhausted b'" "map storage_num hs = [network_first ia net..<network_first ia net + network_size net]"
    "\<forall>s \<in> set hs. \<exists>a. s = (Sockaddr_in6 a, scope_of ifindex po (Sockaddr_in6 ia, scope)) \<and> length a = 16"
    "\<And>m. take_addrs ifindex po (length hs + m) nb1 = do { (l, nb') \<leftarrow> take_addrs ifindex po m (nb1\<lparr>nb_kind := IPv6Netmask b'\<rparr>); Some (hs @ l, nb') }"
    by (rule network_taken[OF assms(5,8) k, of ifindex po]) (erule (2) that, simp)
  obtain nb' where n: "next_addr ifindex po nb' = Some (None, nb')"
    "\<And>n. length others < n \<Longrightarrow> take_addrs ifindex po n (nb1\<lparr>nb_kind := IPv6Netmask b'\<rparr>) = Some (map (\<lambda>a. (fst a, scope_of ifindex po a)) others, nb')"
    using take_resolved[of "nb1\<lparr>nb_kind := IPv6Netmask b'\<rparr>" b' po others ifindex] h(1) assms(6,7) by (auto simp: nb1_def)
  have "take_addrs ifindex po n nb1 = Some (hs @ map (\<lambda>a. (fst a, scope_of ifindex po a)) others, nb')" if l: "length hs + length others < n" for n
  proof -
    have "n = length hs + (n - length hs)" "length others < n - length hs" using l by simp_all
    then show ?thesis using h(4)[of "n - length hs"] n(2)[of "n - length hs"] by simp
  qed
  then show ?thesis using p r n(1) h(2) by blast
qed

definition name_opts :: "bool \<Rightarrow> target_opts" where
  "name_opts all = \<lparr>o_af = AF_INET6, o_resolve_all = all, o_device = Some ''eth0''\<rparr>"

definition sample_addr :: "u8 \<Rightarrow> u8 list" where
  "sample_addr x = [0xfe, 0x80, 0, 0, 0, 0, 0, 0, 0, 0, 0, 0, 0, 0, 0, x]"

definition sample_resolver :: name_resolver where
  "sample_resolver = (\<lambda>name numeric af. if name = ''fe80::5'' \<and> af = AF_INET6 then (0, [(Sockaddr_in6 (sample_addr 5), 0)])
     else if name = ''host'' \<and> \<not> numeric \<and> af = AF_UNSPEC then (0, [(Sockaddr_in6 (sample_addr 5), 0), (Sockaddr_in [10, 0, 0, 1], 0), (Sockaddr_in6 (sample_addr 9), 0)])
     else (-2, []))"

theorem ipv6_expr_addresses_witness:
  "\<exists>nb hs nb'. parse_expr sample_resolver (''fe80::5'' @ mask_text (Some 126)) AF_INET6 = Some (Some nb) \<and>
    (\<forall>n > length hs. take_addrs (\<lambda>d. Some 2) (name_opts False) n nb = Some (hs, nb')) \<and> next_addr (\<lambda>d. Some 2) (name_opts False) nb' = Some (None, nb') \<and>
    map storage_num hs = [network_first (sample_addr 5) (Some 126)..<network_first (sample_addr 5) (Some 126) + network_size (Some 126)] \<and>
    (\<forall>s \<in> set hs. \<exists>a. s = (Sockaddr_in6 a, scope_of (\<lambda>d. Some 2) (name_opts False) (Sockaddr_in6 (sample_addr 5), 0)) \<and> length a = 16)"
  by (rule ipv6_expr_addresses[where others = "[]"]) (simp_all add: sample_resolver_def sample_addr_def)

theorem resolve_all_netmask_lost_witness:
  "\<exists>nb nb1 hs nb'. parse_expr sample_resolver (''host'' @ mask_text (Some 126)) AF_INET6 = Some (Some nb) \<and>
    resolve_block sample_resolver (name_opts True) nb = Some (Some nb1) \<and>
    (\<forall>n > length hs + length [(Sockaddr_in6 (sample_addr 9), 0 :: nat)]. take_addrs (\<lambda>d. Some 2) (name_opts True) n nb1 =
      Some (hs @ map (\<lambda>a. (fst a, scope_of (\<lambda>d. Some 2) (name_opts True) a)) [(Sockaddr_in6 (sample_addr 9), 0)], nb')) \<and>
    next_addr (\<lambda>d. Some 2) (name_opts True) nb' = Some (None, nb') \<and>
    map storage_num hs = [network_first (sample_addr 5) (Some 126)..<network_first (sample_addr 5) (Some 126) + network_size (Some 126)]"
  by (rule resolve_all_netmask_lost[where addrs = "snd (sample_resolver ''host'' False AF_UNSPEC)" and scope = 0])
    (simp_all add: sample_resolver_def sample_addr_def name_opts_def)

end
