(* ===== verification/Target_Inv.thy ===== *)
theory Target_Inv
  imports Target_IPv6
begin

text \<open>
  Asking for the next address always returns: a block stays well formed, no assertion about the family of an address fails, the search for
  a set bit ends, and a rank decreases with every address, so that a block has finitely many.
\<close>

unbundle bit_operations_syntax

section \<open>Sources\<close>

text \<open>What is asked for one item after another: the items up to the first answer that there is none.\<close>

inductive drained :: "('s \<Rightarrow> ('a option \<times> 's) option) \<Rightarrow> 's \<Rightarrow> 'a list \<Rightarrow> 's \<Rightarrow> bool" for nx where
  last: "nx s = Some (None, s1) \<Longrightarrow> drained nx s [] s1"
| more: "nx s = Some (Some a, s1) \<Longrightarrow> drained nx s1 as s2 \<Longrightarrow> drained nx s (a # as) s2"

text \<open>A source answers, and every item makes it smaller.  Blocks of addresses, the expressions and the batches of hosts are such sources.\<close>

locale shrinking_source =
  fixes nx :: "'s \<Rightarrow> ('a option \<times> 's) option"
    and ok :: "'s \<Rightarrow> bool"
    and smaller :: "'s \<Rightarrow> 's \<Rightarrow> bool"
  assumes wf: "wfp smaller"
    and answers: "ok s \<Longrightarrow> \<exists>r s1. nx s = Some (r, s1) \<and> ok s1 \<and> (r \<noteq> None \<longrightarrow> smaller s1 s)"
begin

lemma drains: "ok s \<Longrightarrow> \<exists>as s1. drained nx s as s1 \<and> ok s1"
proof (induction s rule: wfp_induct_rule[OF wf])
  case (1 s)
  obtain r s1 where r: "nx s = Some (r, s1)" "ok s1" "r \<noteq> None \<longrightarrow> smaller s1 s" using answers[OF "1.prems"] by blast
  show ?case
  proof (cases r)
    case None
    then show ?thesis using r drained.last by metis
  next
    case (Some a)
    then obtain as s2 where "drained nx s1 as s2" "ok s2" using "1.IH" r by blast
    then show ?thesis using r(1) Some drained.more by metis
  qed
qed

lemma drained_all:
  assumes "drained nx s as s1" "ok s" "\<And>s a s1. ok s \<Longrightarrow> nx s = Some (Some a, s1) \<Longrightarrow> P a"
  shows "\<forall>a \<in> set as. P a"
  using assms(1,2)
proof induction
  case (more s a s1 as s2)
  then have "ok s1" using answers[OF more.prems] by auto
  then show ?case using more assms(3) by simp
qed simp

end

section \<open>The invariant\<close>

fun addr_wf :: "sockaddr \<Rightarrow> bool" where
  "addr_wf (Sockaddr_in a) \<longleftrightarrow> length a = 4"
| "addr_wf (Sockaddr_in6 a) \<longleftrightarrow> length a = 16"
| "addr_wf (Sockaddr_other n) \<longleftrightarrow> n \<noteq> AF_INET \<and> n \<noteq> AF_INET6"

text \<open>What \<open>getaddrinfo\<close> documents: addresses have the size of their family, and a request for one family is answered in it.\<close>

definition gai_ok :: "name_resolver \<Rightarrow> bool" where
  "gai_ok gai \<longleftrightarrow> (\<forall>name numeric af. \<forall>a \<in> set (snd (gai name numeric af)). addr_wf (fst a) \<and> (af \<noteq> AF_UNSPEC \<longrightarrow> ss_family (fst a) = af))"

definition family_ok :: "nat \<Rightarrow> sockaddr_storage \<Rightarrow> bool" where
  "family_ok af a \<longleftrightarrow> addr_wf (fst a) \<and> ss_family (fst a) = af"

definition kind_ok :: "nat \<Rightarrow> block_kind \<Rightarrow> bool" where
  "kind_ok af k = (case k of
     IPv4Ranges e c \<Rightarrow> af = AF_INET \<and> elem_wf e \<and> length c = 4
   | IPv6Netmask b \<Rightarrow> af = AF_INET6 \<and> length (v6_start b) = 16 \<and> length (v6_cur b) = 16 \<and> length (v6_end b) = 16 \<and>
       (\<not> exhausted b \<longrightarrow> addr_num (v6_cur b) \<le> addr_num (v6_end b))
   | Hostname a bits \<Rightarrow> a = af)"

definition block_ok :: "nat \<Rightarrow> netblock \<Rightarrow> bool" where
  "block_ok af nb \<longleftrightarrow> kind_ok af (nb_kind nb) \<and> (\<forall>a \<in> set (resolvedaddrs nb). family_ok af a) \<and> current_addr nb \<le> length (resolvedaddrs nb)"

lemma family_cases:
  assumes "family_ok af a" "af = AF_INET \<or> af = AF_INET6"
  obtains x s where "a = (Sockaddr_in x, s)" "length x = 4" "af = AF_INET" | x s where "a = (Sockaddr_in6 x, s)" "length x = 16" "af = AF_INET6"
  using assms by (cases a; cases "fst a") (auto simp: family_ok_def)

lemma sockaddr_eq_same:
  assumes "family_ok af a" "family_ok af b" "af = AF_INET \<or> af = AF_INET6"
  shows "sockaddr_eq a b = Some (fst a = fst b)"
  using assms(3) by (rule family_cases[OF assms(1)]; rule family_cases[OF assms(2)]) auto

lemma ipv4_set_addr_ok: "length x = 4 \<Longrightarrow> \<exists>e. ipv4_set_addr (Sockaddr_in x, s) = Some (IPv4Ranges e (replicate 4 0)) \<and> elem_wf e"
  by (simp add: ipv4_set_addr_def Let_def elem_wf_def del: replicate.simps)

lemma set_addr_ok:
  assumes "family_ok af a" "af = AF_INET \<or> af = AF_INET6"
  shows "\<exists>k. (if af = AF_INET then ipv4_set_addr a else ipv6_set_addr a) = Some k \<and> kind_ok af k"
  using assms(2)
proof (rule family_cases[OF assms(1)])
  fix x s
  assume "a = (Sockaddr_in x, s)" "length x = 4" "af = AF_INET"
  then show ?thesis using ipv4_set_addr_ok[of x s] by (auto simp: kind_ok_def)
next
  fix x s
  assume "a = (Sockaddr_in6 x, s)" "length x = 16" "af = AF_INET6"
  then show ?thesis by (simp add: ipv6_set_addr_def kind_ok_def)
qed

section \<open>Ranks\<close>

definition kind_rank :: "block_kind \<Rightarrow> nat" where
  "kind_rank k = (case k of
     IPv4Ranges e c \<Rightarrow> (if fst (settle (elem_bits e) c) then length (rest_of (zip (elem_bits e) (snd (settle (elem_bits e) c)))) else 0)
   | IPv6Netmask b \<Rightarrow> (if exhausted b then 0 else Suc (addr_num (v6_end b) - addr_num (v6_cur b)))
   | Hostname _ _ \<Rightarrow> 0)"

text \<open>A name, then the addresses of the name that are left, then what is left of the block.\<close>

definition block_rank :: "netblock \<Rightarrow> nat \<times> nat \<times> nat" where
  "block_rank nb = ((case nb_kind nb of Hostname _ _ \<Rightarrow> 1 | _ \<Rightarrow> 0), length (resolvedaddrs nb) - current_addr nb, kind_rank (nb_kind nb))"

definition lex3 :: "((nat \<times> nat \<times> nat) \<times> (nat \<times> nat \<times> nat)) set" where
  "lex3 = less_than <*lex*> less_than <*lex*> less_than"

lemma wf_lex3: "wf lex3"
  by (simp add: lex3_def wf_lex_prod)

lemma lex3_iff: "((a, b, c), (a', b', c')) \<in> lex3 \<longleftrightarrow> a < a' \<or> a = a' \<and> (b < b' \<or> b = b' \<and> c < c')"
  by (simp add: lex3_def)

definition rank_drop :: "sockaddr_storage option \<Rightarrow> netblock \<Rightarrow> netblock \<Rightarrow> bool" where
  "rank_drop r nb1 nb \<longleftrightarrow> (block_rank nb1, block_rank nb) \<in> lex3 \<or> r = None \<and> block_rank nb1 = block_rank nb"

lemma rank_dropI: "(block_rank nb1, block_rank nb) \<in> lex3 \<Longrightarrow> rank_drop r nb1 nb"
  by (simp add: rank_drop_def)

definition is_name :: "netblock \<Rightarrow> bool" where
  "is_name nb \<longleftrightarrow> (case nb_kind nb of Hostname _ _ \<Rightarrow> True | _ \<Rightarrow> False)"

lemma find_set_hit: "find_set v k < 256 \<Longrightarrow> find_set v k \<in> set (values v)"
proof (cases "k \<le> 256")
  case True
  then show "find_set v k < 256 \<Longrightarrow> find_set v k \<in> set (values v)" using find_set_spec[OF True] by (simp add: values_iff)
next
  case False
  then have "find_set v k = k" by (subst find_set.simps) auto
  then show "find_set v k < 256 \<Longrightarrow> find_set v k \<in> set (values v)" using False by simp
qed

lemma settle_ok: "length vs = length ks \<Longrightarrow> settle vs ks = (ok, ks') \<Longrightarrow> length ks' = length ks \<and> (ok \<longrightarrow> settled (zip vs ks'))"
proof (induction vs ks arbitrary: ks' rule: list_induct2)
  case (Cons v vs k ks)
  obtain ok1 ks1 where s: "settle vs ks = (ok1, ks1)" by (cases "settle vs ks")
  show ?case
  proof (cases "find_set v k \<ge> 256")
    case True
    then show ?thesis using Cons.prems by auto
  next
    case False
    then have "ks' = find_set v k # ks1" "ok = ok1" using Cons.prems s by (auto simp: Let_def)
    then show ?thesis using Cons.IH[OF _] s False find_set_hit[of v k] by auto
  qed
qed auto

lemma settle_fails: "settle vs ks = (False, ks') \<Longrightarrow> fst (settle vs ks') = False"
proof (induction vs ks arbitrary: ks' rule: settle.induct)
  case (1 v vs k ks)
  show ?case
  proof (cases "find_set v k \<ge> 256")
    case True
    then have "ks' = find_set v k # ks" using "1.prems" by (simp add: Let_def)
    moreover have "find_set v (find_set v k) = find_set v k" by (subst find_set.simps) (use True in auto)
    ultimately show ?thesis using True by simp
  next
    case False
    obtain ok1 ks1 where s: "settle vs ks = (ok1, ks1)" by (cases "settle vs ks")
    then have k: "ks' = find_set v k # ks1" "ok1 = False" using "1.prems" False by (simp_all add: Let_def)
    have "fst (settle vs ks1) = False" using "1.IH"[OF refl False] s k(2) by simp
    then show ?thesis using k(1) by (cases "settle vs ks1") (simp add: Let_def)
  qed
qed auto

lemma next_resolved_cases:
  assumes "block_ok af nb"
  obtains (none) nb1 where "next_resolved po nb = (nb1, None)" "block_ok af nb1" "nb_kind nb1 = nb_kind nb" "resolvedaddrs nb1 = resolvedaddrs nb"
      "length (resolvedaddrs nb1) - current_addr nb1 \<le> length (resolvedaddrs nb) - current_addr nb"
  | (some) nb1 a where "next_resolved po nb = (nb1, Some a)" "block_ok af nb1" "nb_kind nb1 = nb_kind nb" "family_ok af a"
      "length (resolvedaddrs nb1) - current_addr nb1 < length (resolvedaddrs nb) - current_addr nb"
proof (cases "o_resolve_all po \<and> resolvedaddrs nb \<noteq> [] \<and> current_addr nb \<noteq> length (resolvedaddrs nb)")
  case True
  let ?nb = "nb\<lparr>current_addr := current_addr nb + 1\<rparr>"
  have c: "current_addr nb < length (resolvedaddrs nb)" using True assms by (simp add: block_ok_def)
  then have ok: "block_ok af ?nb" using assms by (simp add: block_ok_def)
  show thesis
  proof (cases "current_addr nb + 1 = length (resolvedaddrs nb)")
    case True1: True
    then show thesis using none[of ?nb] True ok by (simp add: next_resolved_def)
  next
    case False
    then have "resolvedaddrs nb ! (current_addr nb + 1) \<in> set (resolvedaddrs nb)" using c by (intro nth_mem) simp
    then have "family_ok af (resolvedaddrs nb ! (current_addr nb + 1))" using assms by (simp add: block_ok_def)
    then show thesis using some[of ?nb] True False ok c by (simp add: next_resolved_def)
  qed
next
  case False
  then have "next_resolved po nb = (nb, None)" by (simp only: next_resolved_def if_False)
  then show thesis using none[of nb] assms by simp
qed

lemma kind_rank_settled:
  assumes "length (elem_bits e) = length c" "settled (zip (elem_bits e) c)"
  shows "kind_rank (IPv4Ranges e c) = length (rest_of (zip (elem_bits e) c))"
  using settle_settled[OF assms] by (simp add: kind_rank_def)

lemma rest_of_not_Nil: "rest_of xs \<noteq> []"
  by (induction xs rule: rest_of.induct) auto

lemma ipv4_next_ok:
  assumes "block_ok af nb" "nb_kind nb = IPv4Ranges e c"
  shows "\<exists>r nb1. ipv4_next po nb e c = Some (r, nb1) \<and> block_ok af nb1 \<and> \<not> is_name nb1 \<and> (\<forall>a \<in> set_option r. family_ok af a) \<and>
    rank_drop r nb1 nb"
proof -
  have k: "af = AF_INET" "elem_wf e" "length c = 4" using assms by (auto simp: block_ok_def kind_ok_def)
  then have l: "length (elem_bits e) = length c" by (simp add: elem_wf_def)
  obtain ok c1 where s: "settle (elem_bits e) c = (ok, c1)" by (cases "settle (elem_bits e) c")
  note c1 = settle_ok[OF l s]
  show ?thesis
  proof (cases ok)
    case False
    have "fst (settle (elem_bits e) c1) = False" using settle_fails s False by simp
    then have "block_rank (nb\<lparr>nb_kind := IPv4Ranges e c1\<rparr>) = block_rank nb" using s False assms(2) by (simp add: block_rank_def kind_rank_def)
    then show ?thesis using False assms k c1 s by (simp add: ipv4_next_def block_ok_def kind_ok_def is_name_def rank_drop_def)
  next
    case True
    let ?z = "zip (elem_bits e) c1"
    have st: "settled ?z" and l1: "length (elem_bits e) = length c1" using c1 True l by simp_all
    then have z: "map fst ?z = elem_bits e" "map snd ?z = c1" by simp_all
    obtain c2 cy where b: "bump ?z = Some (c2, cy)" "length c2 = length ?z" "settled (zip (elem_bits e) c2)"
      "if cy then rest_of ?z = [c1] \<and> c2 = map (\<lambda>x. hd (values (fst x))) ?z else rest_of ?z = c1 # rest_of (zip (elem_bits e) c2)"
      using bump_spec[OF st] unfolding z by blast
    have ss: "family_ok af (counter_addr c1)" using k(1) by (simp add: counter_addr_def family_ok_def htonl_def)
    have r: "kind_rank (nb_kind nb) = length (rest_of ?z)" using s True assms(2) by (simp add: kind_rank_def)
    show ?thesis
    proof (cases cy)
      case False
      let ?nb = "nb\<lparr>nb_kind := IPv4Ranges e c2\<rparr>"
      have n: "ipv4_next po nb e c = Some (Some (counter_addr c1), ?nb)" using s True b(1) False by (simp add: ipv4_next_def)
      have "length (elem_bits e) = length c2" using b(2) l1 by simp
      then have "kind_rank (IPv4Ranges e c2) < kind_rank (nb_kind nb)" using kind_rank_settled[OF _ b(3)] b(4) False unfolding r by simp
      then have "(block_rank ?nb, block_rank nb) \<in> lex3" using assms(2) by (simp add: block_rank_def lex3_iff)
      moreover have "block_ok af ?nb" using assms k l1 b(2) by (simp add: block_ok_def kind_ok_def elem_wf_def)
      ultimately show ?thesis using n ss by (simp add: is_name_def rank_drop_def)
    next
      case True1: True
      show ?thesis
      proof (rule next_resolved_cases[OF assms(1), of po])
        fix nb1 assume n: "next_resolved po nb = (nb1, None)" "block_ok af nb1" "nb_kind nb1 = nb_kind nb" "resolvedaddrs nb1 = resolvedaddrs nb"
          "length (resolvedaddrs nb1) - current_addr nb1 \<le> length (resolvedaddrs nb) - current_addr nb"
        let ?nb = "nb1\<lparr>nb_kind := spent e\<rparr>"
        have x: "ipv4_next po nb e c = Some (Some (counter_addr c1), ?nb)" using s True True1 b(1) n(1) by (simp add: ipv4_next_def spent_def)
        have "find_set v 256 = 256" for v by (subst find_set.simps) simp
        then have "kind_rank (spent e) = 0" using l k(3) by (cases "elem_bits e") (auto simp: spent_def kind_rank_def Let_def numeral_eq_Suc)
        then have "kind_rank (spent e) < kind_rank (nb_kind nb)" using rest_of_not_Nil[of ?z] unfolding r by simp
        then have "(block_rank ?nb, block_rank nb) \<in> lex3" using n(5) assms(2) by (auto simp: block_rank_def lex3_iff spent_def)
        moreover have "block_ok af ?nb" using n(2) k by (simp add: block_ok_def kind_ok_def spent_def)
        ultimately show ?thesis using x ss by (simp add: is_name_def spent_def rank_drop_def)
      next
        fix nb1 a assume n: "next_resolved po nb = (nb1, Some a)" "block_ok af nb1" "nb_kind nb1 = nb_kind nb" "family_ok af a"
          "length (resolvedaddrs nb1) - current_addr nb1 < length (resolvedaddrs nb) - current_addr nb"
        obtain k2 where k2: "ipv4_set_addr a = Some k2" "kind_ok af k2" using set_addr_ok[OF n(4)] k(1) by auto
        then have nn: "case k2 of Hostname _ _ \<Rightarrow> False | _ \<Rightarrow> True" by (auto simp: ipv4_set_addr_def Let_def split: sockaddr.splits)
        let ?nb = "nb1\<lparr>nb_kind := k2\<rparr>"
        have "ipv4_next po nb e c = Some (Some (counter_addr c1), ?nb)" using s True True1 b(1) n(1) k2(1) by (simp add: ipv4_next_def)
        moreover have "(block_rank ?nb, block_rank nb) \<in> lex3" using n(5) nn by (auto simp: block_rank_def lex3_iff split: block_kind.splits)
        moreover have "block_ok af ?nb" using n(2) k2(2) by (simp add: block_ok_def)
        ultimately show ?thesis using ss nn by (auto simp: is_name_def rank_drop_def split: block_kind.splits)
      qed
    qed
  qed
qed

lemma ipv6_take_ok:
  assumes "kind_ok AF_INET6 (IPv6Netmask b)" "\<not> exhausted b" "ipv6_take ifindex po b = (ss, b1)"
  shows "family_ok AF_INET6 ss" "kind_ok AF_INET6 (IPv6Netmask b1)" "kind_rank (IPv6Netmask b1) < kind_rank (IPv6Netmask b)"
proof -
  have l: "length (v6_cur b) = 16" "length (v6_end b) = 16" "length (v6_start b) = 16" "addr_num (v6_cur b) \<le> addr_num (v6_end b)"
    using assms(1,2) by (simp_all add: kind_ok_def)
  show "family_ok AF_INET6 ss" using assms(3) l by (auto simp: ipv6_take_def family_ok_def)
  have c: "addr_num (v6_cur b1) = addr_num (v6_cur b) + 1 \<and> addr_num (v6_cur b) < addr_num (v6_end b)" if "\<not> exhausted b1"
  proof -
    have "v6_cur b \<noteq> v6_end b" using that assms(3) by (auto simp: ipv6_take_def)
    then have "addr_num (v6_cur b) \<noteq> addr_num (v6_end b)" using addr_num_inj[of "v6_cur b" "v6_end b"] l by auto
    then have "addr_num (v6_cur b) < addr_num (v6_end b)" using l by simp
    moreover have "addr_num (v6_end b) < 256 ^ 16" using addr_num_bound[of "v6_end b"] l by simp
    ultimately show ?thesis using addr_num_increment[of "v6_cur b"] l assms(3) by (auto simp: ipv6_take_def)
  qed
  have e: "v6_end b1 = v6_end b" "v6_start b1 = v6_start b" "length (v6_cur b1) = 16" using assms(3) l by (auto simp: ipv6_take_def)
  show "kind_ok AF_INET6 (IPv6Netmask b1)" using c e l by (auto simp: kind_ok_def)
  show "kind_rank (IPv6Netmask b1) < kind_rank (IPv6Netmask b)" using c e assms(2) by (auto simp: kind_rank_def)
qed

lemma ipv6_next_ok:
  assumes "block_ok af nb" "nb_kind nb = IPv6Netmask b"
  shows "\<exists>r nb1. ipv6_next ifindex po nb b = Some (r, nb1) \<and> block_ok af nb1 \<and> \<not> is_name nb1 \<and> (\<forall>a \<in> set_option r. family_ok af a) \<and>
    rank_drop r nb1 nb"
proof -
  have k: "af = AF_INET6" "kind_ok AF_INET6 (IPv6Netmask b)" using assms by (auto simp: block_ok_def kind_ok_def)
  show ?thesis
  proof (cases "exhausted b")
    case False
    obtain ss b1 where t: "ipv6_take ifindex po b = (ss, b1)" by (cases "ipv6_take ifindex po b")
    note ok = ipv6_take_ok[OF k(2) False t]
    then show ?thesis using False t assms k(1) by (simp add: ipv6_next_def block_ok_def is_name_def rank_drop_def block_rank_def lex3_iff)
  next
    case True
    show ?thesis
    proof (rule next_resolved_cases[OF assms(1), of po])
      fix nb1 assume n: "next_resolved po nb = (nb1, None)" "block_ok af nb1" "nb_kind nb1 = nb_kind nb"
        "length (resolvedaddrs nb1) - current_addr nb1 \<le> length (resolvedaddrs nb) - current_addr nb"
      then have "rank_drop None nb1 nb" by (auto simp: rank_drop_def block_rank_def lex3_iff)
      then show ?thesis using n True assms(2) by (simp add: ipv6_next_def is_name_def)
    next
      fix nb1 a assume n: "next_resolved po nb = (nb1, Some a)" "block_ok af nb1" "nb_kind nb1 = nb_kind nb" "family_ok af a"
        "length (resolvedaddrs nb1) - current_addr nb1 < length (resolvedaddrs nb) - current_addr nb"
      obtain k2 where k2: "ipv6_set_addr a = Some k2" "kind_ok AF_INET6 k2" using set_addr_ok[OF n(4)] k(1) by auto
      then obtain b0 where b0: "k2 = IPv6Netmask b0" "\<not> exhausted b0" by (auto simp: ipv6_set_addr_def split: sockaddr.splits)
      obtain ss b1 where t: "ipv6_take ifindex po b0 = (ss, b1)" by (cases "ipv6_take ifindex po b0")
      note ok = ipv6_take_ok[OF k2(2)[unfolded b0(1)] b0(2) t]
      have "ipv6_next ifindex po nb b = Some (Some ss, nb1\<lparr>nb_kind := IPv6Netmask b1\<rparr>)" using True n(1) k2(1) b0(1) t by (simp add: ipv6_next_def)
      then show ?thesis using ok n(2,5) k(1) assms(2) by (simp add: block_ok_def is_name_def rank_drop_def block_rank_def lex3_iff)
    qed
  qed
qed

lemma next_addr_ok:
  assumes "block_ok af nb" "\<not> is_name nb"
  shows "\<exists>r nb1. next_addr ifindex po nb = Some (r, nb1) \<and> block_ok af nb1 \<and> \<not> is_name nb1 \<and> (\<forall>a \<in> set_option r. family_ok af a) \<and>
    rank_drop r nb1 nb"
proof (cases "nb_kind nb")
  case (IPv4Ranges e c)
  then show ?thesis using ipv4_next_ok[OF assms(1) IPv4Ranges] by (simp add: next_addr_def)
next
  case (IPv6Netmask b)
  then show ?thesis using ipv6_next_ok[OF assms(1) IPv6Netmask] by (simp add: next_addr_def)
next
  case (Hostname a bits)
  then show ?thesis using assms(2) by (simp add: is_name_def)
qed

section \<open>Names and expressions\<close>

text \<open>A netmask is applied to a block that has just been set up.\<close>

definition just_set :: "nat \<Rightarrow> block_kind \<Rightarrow> bool" where
  "just_set af k \<longleftrightarrow> kind_ok af k \<and> (case k of IPv6Netmask b \<Rightarrow> v6_start b = v6_end b | _ \<Rightarrow> True)"

lemma just_set_addr:
  assumes "family_ok af a" "af = AF_INET \<or> af = AF_INET6"
  shows "\<exists>k. (if af = AF_INET then ipv4_set_addr a else ipv6_set_addr a) = Some k \<and> just_set af k \<and> (case k of Hostname _ _ \<Rightarrow> False | _ \<Rightarrow> True)"
  using assms(2)
proof (rule family_cases[OF assms(1)])
  fix x s
  assume "a = (Sockaddr_in x, s)" "length x = 4" "af = AF_INET"
  then show ?thesis using ipv4_set_addr_ok[of x s] by (auto simp: just_set_def kind_ok_def)
next
  fix x s
  assume "a = (Sockaddr_in6 x, s)" "length x = 16" "af = AF_INET6"
  then show ?thesis by (simp add: ipv6_set_addr_def just_set_def kind_ok_def)
qed

lemma ipv6_apply_netmask_ok:
  assumes "just_set AF_INET6 (IPv6Netmask b)"
  shows "kind_ok AF_INET6 (IPv6Netmask (ipv6_apply_netmask b bits))"
proof (cases "bits > 128")
  case True
  then show ?thesis using assms by (simp add: ipv6_apply_netmask_def just_set_def)
next
  case False
  let ?b = "if bits < 0 then 128 else bits"
  have b: "0 \<le> ?b" "?b \<le> 128" using False by simp_all
  have l: "length (v6_start b) = 16" "v6_end b = v6_start b" using assms by (simp_all add: just_set_def kind_ok_def)
  note m = make_ipv6_netmask_spec(1)[OF b]
  have "length (ipv6_or_mask (v6_start b) (make_ipv6_netmask ?b) z) = 16" if "length z = 16" for z by (rule or_mask_nth(1)[OF l(1) m that])
  moreover have "addr_num (ipv6_or_mask (v6_start b) (make_ipv6_netmask ?b) (replicate 16 0)) \<le>
      addr_num (ipv6_or_mask (v6_start b) (make_ipv6_netmask ?b) (replicate 16 0xff))"
    using network_bounds[OF l(1) b] by (metis add_le_cancel_right le_add1 one_le_numeral add_left_mono one_le_power)
  ultimately show ?thesis using False l by (simp add: ipv6_apply_netmask_def kind_ok_def Let_def del: replicate.simps)
qed

lemma apply_netmask_ok:
  assumes "block_ok af nb" "just_set af (nb_kind nb)"
  shows "block_ok af (apply_netmask nb bits) \<and> (is_name (apply_netmask nb bits) \<longleftrightarrow> is_name nb)"
proof (cases "nb_kind nb")
  case (IPv6Netmask b)
  then have "af = AF_INET6" using assms(1) by (simp add: block_ok_def kind_ok_def)
  then show ?thesis using assms IPv6Netmask ipv6_apply_netmask_ok[of b bits] by (simp add: apply_netmask_def block_ok_def is_name_def)
qed (use assms in \<open>auto simp: apply_netmask_def block_ok_def kind_ok_def is_name_def apply_netmask_bits_wf\<close>)

lemma sort_addrs_family:
  assumes "\<forall>a \<in> set as. addr_wf (fst a)" "a \<in> set (fst (sort_addrs po af as ([], [])))"
  shows "family_ok af a"
proof -
  have "a \<in> set (filter (\<lambda>a. ss_family (fst a) = af) as)"
    using assms(2) by (auto simp: sort_addrs_spec dest: in_set_takeD split: if_splits)
  then show ?thesis using assms(1) by (auto simp: family_ok_def)
qed

lemma resolve_block_ok:
  assumes "block_ok af nb" "gai_ok gai" "af = AF_INET \<or> af = AF_INET6"
  shows "\<exists>r. resolve_block gai po nb = Some r \<and> (\<forall>nb1 \<in> set_option r. block_ok af nb1 \<and> \<not> is_name nb1 \<and> (is_name nb \<or> nb1 = nb))"
proof (cases "is_name nb")
  case False
  then show ?thesis using assms(1) by (auto simp: resolve_block_def is_name_def split: block_kind.splits)
next
  case True
  then obtain bits where k: "nb_kind nb = Hostname af bits" using assms(1) by (auto simp: is_name_def block_ok_def kind_ok_def split: block_kind.splits)
  obtain resolved unscanned where so: "sort_addrs po af (resolve_all gai (nb_hostname nb) AF_UNSPEC) ([], []) = (resolved, unscanned)" by (metis surj_pair)
  have "\<forall>a \<in> set (resolve_all gai (nb_hostname nb) AF_UNSPEC). addr_wf (fst a)"
  proof -
    obtain rc as where g: "gai (nb_hostname nb) False AF_UNSPEC = (rc, as)" by (metis surj_pair)
    then have "\<forall>a \<in> set as. addr_wf (fst a)" using assms(2) unfolding gai_ok_def by (metis snd_conv)
    then show ?thesis using g by (simp add: resolve_all_def)
  qed
  then have f: "\<forall>a \<in> set resolved. family_ok af a" using sort_addrs_family so by (metis fst_conv)
  show ?thesis
  proof (cases resolved)
    case Nil
    then show ?thesis using k so by (simp add: resolve_block_def resolve_name_block_def)
  next
    case (Cons a as)
    then have fa: "family_ok af a" using f by simp
    obtain k2 where k2: "(if af = AF_INET then ipv4_set_addr a else ipv6_set_addr a) = Some k2" "just_set af k2" "case k2 of Hostname _ _ \<Rightarrow> False | _ \<Rightarrow> True"
      using just_set_addr[OF fa assms(3)] by blast
    let ?nb = "\<lparr>nb_hostname = nb_hostname nb, resolvedaddrs = resolved, unscanned_addrs = unscanned, current_addr = 0, nb_kind = k2\<rparr>"
    have "resolve_block gai po nb = Some (Some (apply_netmask ?nb bits))"
      using k so Cons k2(1) fa assms(3) by (auto simp: resolve_block_def resolve_name_block_def family_ok_def split: if_splits)
    moreover have "block_ok af ?nb" using f k2(2) by (simp add: block_ok_def just_set_def)
    moreover have "\<not> is_name ?nb" using k2(3) by (simp add: is_name_def split: block_kind.splits)
    ultimately show ?thesis using apply_netmask_ok[of af ?nb bits] k2(2) True by simp
  qed
qed

lemma get_next_host_ok:
  assumes "\<forall>nb \<in> set_option g. block_ok af nb" "gai_ok gai" "af = AF_INET \<or> af = AF_INET6"
  shows "\<exists>r g1. get_next_host gai ifindex po g = Some (r, g1) \<and> (\<forall>nb \<in> set_option g1. block_ok af nb) \<and> (\<forall>a \<in> set_option r. family_ok af a) \<and>
    (if g = None then r = None \<and> g1 = None else \<exists>nb nb1. g = Some nb \<and> g1 = Some nb1 \<and> rank_drop r nb1 nb)"
proof (cases g)
  case None
  then show ?thesis by (simp add: get_next_host_def)
next
  case (Some nb)
  then have ok: "block_ok af nb" using assms(1) by simp
  obtain r where r: "resolve_block gai po nb = Some r" "\<forall>nb1 \<in> set_option r. block_ok af nb1 \<and> \<not> is_name nb1 \<and> (is_name nb \<or> nb1 = nb)"
    using resolve_block_ok[OF ok assms(2,3)] by blast
  show ?thesis
  proof (cases r)
    case None
    then show ?thesis using Some ok r by (simp add: get_next_host_def rank_drop_def)
  next
    case r1: (Some nb1)
    then have n: "block_ok af nb1" "\<not> is_name nb1" "is_name nb \<or> nb1 = nb" using r(2) by simp_all
    obtain x nb2 where x: "next_addr ifindex po nb1 = Some (x, nb2)" "block_ok af nb2" "\<not> is_name nb2" "\<forall>a \<in> set_option x. family_ok af a"
      "rank_drop x nb2 nb1"
      using next_addr_ok[OF n(1,2)] by blast
    have "rank_drop x nb2 nb"
      using n(3)
    proof
      assume "is_name nb"
      then show ?thesis using x(3) by (intro rank_dropI) (auto simp: block_rank_def lex3_iff is_name_def split: block_kind.splits)
    qed (use x(5) in simp)
    then show ?thesis using Some r(1) r1 x by (simp add: get_next_host_def)
  qed
qed

text \<open>The block of an expression is a source.\<close>

definition group_smaller :: "netblock option \<Rightarrow> netblock option \<Rightarrow> bool" where
  "group_smaller g1 g \<longleftrightarrow> (\<exists>nb nb1. g = Some nb \<and> g1 = Some nb1 \<and> (block_rank nb1, block_rank nb) \<in> lex3)"

definition group_addrs_ok :: "name_resolver \<Rightarrow> nat \<Rightarrow> netblock option \<Rightarrow> bool" where
  "group_addrs_ok gai af g \<longleftrightarrow> gai_ok gai \<and> (af = AF_INET \<or> af = AF_INET6) \<and> (\<forall>nb \<in> set_option g. block_ok af nb)"

lemma wf_group_smaller: "wfp group_smaller"
proof -
  let ?r = "\<lambda>g. case g of None \<Rightarrow> (0, 0, 0) | Some nb \<Rightarrow> block_rank nb"
  have "{(x, y). group_smaller x y} \<subseteq> inv_image lex3 ?r" by (auto simp: group_smaller_def)
  then show ?thesis unfolding wfp_def using wf_subset[OF wf_inv_image[OF wf_lex3]] by blast
qed

interpretation block_source: shrinking_source "get_next_host gai ifindex po" "group_addrs_ok gai af" group_smaller for gai ifindex po af
proof
  fix g assume "group_addrs_ok gai af g"
  then obtain r g1 where "get_next_host gai ifindex po g = Some (r, g1)" "group_addrs_ok gai af g1"
    "if g = None then r = None \<and> g1 = None else \<exists>nb nb1. g = Some nb \<and> g1 = Some nb1 \<and> rank_drop r nb1 nb"
    using get_next_host_ok[of g af gai ifindex po] unfolding group_addrs_ok_def by blast
  then show "\<exists>r g1. get_next_host gai ifindex po g = Some (r, g1) \<and> group_addrs_ok gai af g1 \<and> (r \<noteq> None \<longrightarrow> group_smaller g1 g)"
    by (intro exI[of _ r] exI[of _ g1]) (auto simp: group_smaller_def rank_drop_def split: if_splits)
qed (rule wf_group_smaller)

lemma parse_octets_wf: "parse_ipv4_ranges empty_elem s = Some e \<Longrightarrow> elem_wf e"
  using parse_ipv4_ranges_wf empty_elem_wf by blast

lemma parse_expr_ok:
  assumes "gai_ok gai" "af = AF_INET \<or> af = AF_INET6"
  shows "\<exists>r. parse_expr gai expr af = Some r \<and> (\<forall>nb \<in> set_option r. block_ok af nb)"
proof (cases "split_netmask expr")
  case None
  then show ?thesis by (simp add: parse_expr_def)
next
  case (Some hb)
  obtain h b where hb: "hb = (h, b)" by (cases hb)
  have new: "block_ok af (apply_netmask (new_block n k) bits)" if "just_set af k" for n k bits
    using apply_netmask_ok[of af "new_block n k" bits] that by (simp add: new_block_def block_ok_def just_set_def)
  have "\<exists>r. parse_expr_without_netmask gai h af = Some r \<and> (\<forall>nb \<in> set_option r. \<exists>n k. nb = new_block n k \<and> just_set af k)"
  proof (cases "if af = AF_INET then parse_ipv4_ranges empty_elem h else None")
    case (Some e)
    then have "af = AF_INET" "elem_wf e" using parse_octets_wf by (auto split: if_splits)
    then have "just_set af (IPv4Ranges e (replicate 4 0))" by (simp add: just_set_def kind_ok_def)
    then show ?thesis using Some by (auto simp: parse_expr_without_netmask_def)
  next
    case None
    show ?thesis
    proof (cases "resolve_numeric gai h AF_INET6")
      case (Some ss)
      then have "ss \<in> set (snd (gai h True AF_INET6))" by (auto simp: resolve_numeric_def split: prod.splits if_splits)
      then have f: "family_ok AF_INET6 ss" using assms(1) by (auto simp: gai_ok_def family_ok_def AF_UNSPEC_def)
      then obtain k where "ipv6_set_addr ss = Some k" "just_set AF_INET6 k" using just_set_addr[OF f] by auto
      then show ?thesis using None Some by (auto simp: parse_expr_without_netmask_def)
    next
      case n: None
      have "just_set af (Hostname af (-1))" by (simp add: just_set_def kind_ok_def)
      then show ?thesis using None n by (auto simp: parse_expr_without_netmask_def)
    qed
  qed
  then show ?thesis using Some hb new by (force simp: parse_expr_def Let_def)
qed

text \<open>Whatever the text of an expression and whatever the resolver answers: if the expression is accepted, then asking for
  addresses returns every time, gives finitely many, all of the requested family, and ends with the answer that there is none.\<close>

theorem expression_has_end:
  assumes "gai_ok gai" "af = AF_INET \<or> af = AF_INET6" "parse_expr gai expr af = Some (Some nb)"
  shows "\<exists>as g. drained (get_next_host gai ifindex po) (Some nb) as g \<and> (\<forall>a \<in> set as. addr_wf (fst a) \<and> ss_family (fst a) = af)"
proof -
  have ok: "group_addrs_ok gai af (Some nb)" using parse_expr_ok[OF assms(1,2), of expr] assms by (auto simp: group_addrs_ok_def)
  obtain as g where d: "drained (get_next_host gai ifindex po) (Some nb) as g" using block_source.drains[OF ok] by blast
  have "\<forall>a \<in> set as. family_ok af a"
  proof (rule block_source.drained_all[OF d ok])
    fix s a s1 assume "group_addrs_ok gai af s" "get_next_host gai ifindex po s = Some (Some a, s1)"
    then show "family_ok af a" using get_next_host_ok[of s af gai ifindex po] by (auto simp: group_addrs_ok_def)
  qed
  then show ?thesis using d by (auto simp: family_ok_def)
qed

lemma sample_resolver_ok: "gai_ok sample_resolver"
  by (auto simp: gai_ok_def sample_resolver_def sample_addr_def)

lemma sample_expr: "parse_expr sample_resolver ''host/120'' AF_INET6 = Some (Some (new_block ''host'' (Hostname AF_INET6 120)))"
proof -
  have "split_netmask ''host/120'' = Some (''host'', 120)" by code_simp
  then show ?thesis by (simp add: parse_expr_def parse_expr_without_netmask_def resolve_numeric_def sample_resolver_def apply_netmask_def new_block_def)
qed

theorem expression_has_end_witness:
  "\<exists>as g. drained (get_next_host sample_resolver (\<lambda>d. None) (name_opts True)) (Some (new_block ''host'' (Hostname AF_INET6 120))) as g \<and>
    (\<forall>a \<in> set as. addr_wf (fst a) \<and> ss_family (fst a) = AF_INET6)"
  by (rule expression_has_end[OF sample_resolver_ok _ sample_expr]) simp

end
