(* ===== verification/Group_Inv.thy ===== *)
theory Group_Inv
  imports Host_Groups Target_Inv
begin

text \<open>
  The source of targets and the batches: asking for a target returns and fails no assertion, what it gives fits the options, and a batch holds hosts that fit
  together.
\<close>

unbundle bit_operations_syntax

section \<open>Assumptions\<close>

definition inet :: "sockaddr_storage \<Rightarrow> bool" where
  "inet a \<longleftrightarrow> family_ok AF_INET a \<or> family_ok AF_INET6 a"

text \<open>The words of a file of expressions fit the buffer; the program ends with a message if one does not.\<close>

definition words_ok :: "string \<Rightarrow> bool" where
  "words_ok fp \<longleftrightarrow> (\<forall>p q. fp = p @ q \<longrightarrow> length (fst (read_host_from_file q)) < 1024)"

text \<open>The routing table names a device and a source address for each route.\<close>

definition scan_env_ok :: "host_env \<Rightarrow> bool" where
  "scan_env_ok e \<longleftrightarrow> gai_ok (gai e) \<and> (o_af (topts e) = AF_INET \<or> o_af (topts e) = AF_INET6) \<and> random_ips e = None \<and>
     (\<forall>a rn. route e a = Some rn \<longrightarrow> inet (rn_src rn) \<and> rn_devname rn \<noteq> []) \<and> (\<forall>a \<in> set_option (spoof_source e). inet a)"

definition source_ok :: "host_env \<Rightarrow> source \<Rightarrow> bool" where
  "source_ok e s \<longleftrightarrow> (\<forall>nb \<in> set_option (block s). block_ok (o_af (topts e)) nb) \<and> (\<forall>r \<in> set_option (resume_ip s). inet r) \<and>
     (\<forall>fp \<in> set_option (input s). words_ok fp)"

definition host_fits :: "host_env \<Rightarrow> host_nfo \<Rightarrow> bool" where
  "host_fits e h \<longleftrightarrow> family_ok (o_af (topts e)) (h_addr h) \<and> \<not> hostInExclude (exclude_group e) (h_addr h) \<and>
     (if raw_scan e then \<exists>rn. route e (h_addr h) = Some rn \<and> h_device h = rn_devname rn \<and> h_source h = Some (rn_src rn) \<and> h_direct h = Some (rn_direct rn)
      else h_device h = [] \<and> h_iftype h = Devt_other)"

lemma sockaddr_eq_inet: "inet a \<Longrightarrow> inet b \<Longrightarrow> sockaddr_eq a b = Some (fst a = fst b)"
  unfolding inet_def by (cases a; cases b; cases "fst a"; cases "fst b") (auto simp: family_ok_def)

lemma inet_family: "family_ok af a \<Longrightarrow> af = AF_INET \<or> af = AF_INET6 \<Longrightarrow> inet a"
  by (auto simp: inet_def)

section \<open>Ranks\<close>

definition exprs_left :: "source \<Rightarrow> nat" where
  "exprs_left s = length (args s) + length (case input s of None \<Rightarrow> [] | Some fp \<Rightarrow> fp) + length (new_targets s)"

definition source_rank :: "source \<Rightarrow> nat \<times> nat \<times> nat \<times> nat" where
  "source_rank s = (exprs_left s, case block s of None \<Rightarrow> (0, 0, 0) | Some nb \<Rightarrow> block_rank nb)"

definition lex4 :: "((nat \<times> nat \<times> nat \<times> nat) \<times> (nat \<times> nat \<times> nat \<times> nat)) set" where
  "lex4 = less_than <*lex*> lex3"

lemma wf_lex4: "wf lex4"
  by (simp add: lex4_def wf_lex_prod wf_lex3)

lemma trans_lex4: "trans lex4"
  by (simp add: lex4_def lex3_def trans_lex_prod trans_less_than)

definition below :: "source \<Rightarrow> source \<Rightarrow> bool" where
  "below s1 s \<longleftrightarrow> (source_rank s1, source_rank s) \<in> lex4"

definition at_most :: "source \<Rightarrow> source \<Rightarrow> bool" where
  "at_most s1 s \<longleftrightarrow> source_rank s1 = source_rank s \<or> below s1 s"

lemma below_at_most: "below s1 s \<Longrightarrow> at_most s2 s1 \<Longrightarrow> below s2 s"
  unfolding at_most_def below_def using trans_lex4 by (metis transE)

lemma at_most_below: "at_most s1 s \<Longrightarrow> below s2 s1 \<Longrightarrow> below s2 s"
  unfolding at_most_def below_def using trans_lex4 by (metis transE)

lemma at_most_trans: "at_most s1 s \<Longrightarrow> at_most s2 s1 \<Longrightarrow> at_most s2 s"
  using below_at_most at_most_below by (metis at_most_def)

lemma at_most_refl [simp]: "at_most s s"
  by (simp add: at_most_def)

lemma below_exprs: "exprs_left s1 < exprs_left s \<Longrightarrow> below s1 s"
  by (simp add: below_def source_rank_def lex4_def)

section \<open>Expressions\<close>

lemma words_ok_suffix: "words_ok (p @ q) \<Longrightarrow> words_ok q"
  unfolding words_ok_def by (metis append.assoc)

lemma skip_to_host_suffix: "\<exists>p. s = p @ skip_to_host s"
proof (induction s rule: skip_to_host.induct)
  case (1 s)
  show ?case
  proof (cases "s = [] \<or> (hd s \<noteq> CHR ''#'' \<and> \<not> is_host_separator (hd s))")
    case True
    then have "skip_to_host s = s" by (subst skip_to_host.simps) auto
    then show ?thesis by simp
  next
    case False
    then obtain c t where s: "s = c # t" by (cases s) auto
    show ?thesis
    proof (cases "c = CHR ''#''")
      case True
      then have e: "skip_to_host s = skip_to_host (dropWhile (\<lambda>c. c \<noteq> CHR 0x0A) t)" using s by (subst skip_to_host.simps) simp
      obtain p where "dropWhile (\<lambda>c. c \<noteq> CHR 0x0A) t = p @ skip_to_host s" using 1(1) True s e by auto
      then have "s = (c # takeWhile (\<lambda>c. c \<noteq> CHR 0x0A) t @ p) @ skip_to_host s" using s by (metis append.assoc append_Cons takeWhile_dropWhile_id)
      then show ?thesis by blast
    next
      case c: False
      then have e: "skip_to_host s = skip_to_host t" using s False by (subst skip_to_host.simps) simp
      obtain p where "t = p @ skip_to_host s" using 1(2) c s False e by auto
      then have "s = (c # p) @ skip_to_host s" using s by simp
      then show ?thesis by blast
    qed
  qed
qed

lemma read_host_rest:
  assumes "read_host_from_file fp = (w, r)"
  shows "\<exists>p. fp = p @ r" "length r \<le> length fp"
proof -
  have "skip_to_host fp = w @ r" using assms by (auto simp: read_host_from_file_def Let_def)
  then show "\<exists>p. fp = p @ r" using skip_to_host_suffix[of fp] by (metis append.assoc)
  then show "length r \<le> length fp" by auto
qed

lemma grab_ok:
  assumes "scan_env_ok e" "source_ok e s"
  shows "\<exists>x s1. grab_next_host_spec e s = Some (x, s1) \<and> source_ok e s1 \<and> block s1 = block s \<and> exprs_left s1 \<le> exprs_left s \<and>
    (x \<noteq> None \<longrightarrow> exprs_left s1 < exprs_left s)"
proof -
  have r: "random_ips e = None" using assms(1) by (simp add: scan_env_ok_def)
  show ?thesis
  proof (cases "input s")
    case None
    then show ?thesis using r assms(2) by (cases "args s") (auto simp: grab_next_host_spec_def source_ok_def exprs_left_def)
  next
    case (Some fp)
    obtain w q where w: "read_host_from_file fp = (w, q)" by (cases "read_host_from_file fp")
    have ok: "words_ok fp" using assms(2) Some by (simp add: source_ok_def)
    have wq: "words_ok q" using read_host_rest(1)[OF w] words_ok_suffix ok by metis
    have "length (fst (read_host_from_file fp)) < 1024" using ok unfolding words_ok_def by (metis append_Nil)
    then have l: "length w < 1024" using w by simp
    have s1: "source_ok e (s\<lparr>input := Some q\<rparr>)" using assms(2) wq by (simp add: source_ok_def)
    show ?thesis
    proof (cases "w = []")
      case True
      then show ?thesis using r Some w s1 read_host_rest(2)[OF w] by (simp add: grab_next_host_spec_def exprs_left_def)
    next
      case False
      then show ?thesis using r Some w s1 l read_host_progress[OF w False] by (simp add: grab_next_host_spec_def exprs_left_def)
    qed
  qed
qed

lemma next_expression_ok:
  assumes "scan_env_ok e" "source_ok e s"
  shows "\<exists>x s1. next_expression e n s = Some (x, s1) \<and> source_ok e s1 \<and> at_most s1 s \<and> (x \<noteq> None \<longrightarrow> exprs_left s1 < exprs_left s)"
proof -
  obtain x s1 where g: "(if max_ips e = 0 \<or> numhosts_scanned s + n < max_ips e then grab_next_host_spec e s else Some (None, s)) = Some (x, s1)"
    "source_ok e s1" "block s1 = block s" "exprs_left s1 \<le> exprs_left s" "x \<noteq> None \<longrightarrow> exprs_left s1 < exprs_left s"
    using grab_ok[OF assms] assms(2) by (cases "max_ips e = 0 \<or> numhosts_scanned s + n < max_ips e") auto
  have u: "at_most s1 s" using g(3,4) below_exprs[of s1 s] by (cases "exprs_left s1 = exprs_left s") (auto simp: at_most_def source_rank_def)
  show ?thesis
  proof (cases "x = None \<and> scripts e \<and> new_targets s1 \<noteq> []")
    case False
    then show ?thesis using g u by (cases x) (auto simp: next_expression_def)
  next
    case True
    let ?s2 = "s1\<lparr>new_targets := tl (new_targets s1)\<rparr>"
    have "exprs_left ?s2 < exprs_left s1" using True by (cases "new_targets s1") (auto simp: exprs_left_def)
    moreover have "source_ok e ?s2" using g(2) by (simp add: source_ok_def)
    moreover have "next_expression e n s = Some (if hd (new_targets s1) \<noteq> [] then Some (take 1023 (hd (new_targets s1))) else None, ?s2)"
      using g(1) True by (simp add: next_expression_def Let_def)
    ultimately show ?thesis using below_exprs[of ?s2 s1] at_most_below[OF u] g(4) by (auto simp: at_most_def)
  qed
qed

lemma pop_expression_ok:
  assumes "scan_env_ok e" "source_ok e s"
  shows "\<exists>f s1. pop_expression e n s = Some (f, s1) \<and> source_ok e s1 \<and> at_most s1 s \<and> (f \<longrightarrow> below s1 s)"
  using assms(2)
proof (induction "exprs_left s" arbitrary: s rule: less_induct)
  case less
  obtain x s1 where x: "next_expression e n s = Some (x, s1)" "source_ok e s1" "at_most s1 s" "x \<noteq> None \<longrightarrow> exprs_left s1 < exprs_left s"
    using next_expression_ok[OF assms(1) less.prems] by blast
  show ?case
  proof (cases x)
    case None
    then show ?thesis using x by (intro exI[of _ False] exI[of _ s1]) (subst pop_expression.simps, simp)
  next
    case (Some expr)
    obtain nb where nb: "parse_expr (gai e) expr (o_af (topts e)) = Some nb" "\<forall>b \<in> set_option nb. block_ok (o_af (topts e)) b"
      using parse_expr_ok assms(1) unfolding scan_env_ok_def by blast
    let ?s2 = "s1\<lparr>block := nb\<rparr>"
    have s2: "source_ok e ?s2" "exprs_left ?s2 < exprs_left s" using x(2,4) nb(2) Some by (simp_all add: source_ok_def exprs_left_def)
    have b: "below ?s2 s" using below_exprs[OF s2(2)] .
    show ?thesis
    proof (cases "nb = None")
      case False
      then show ?thesis using x(1) Some nb(1) s2(1) b by (intro exI[of _ True] exI[of _ ?s2]) (subst pop_expression.simps, auto simp: at_most_def)
    next
      case True
      obtain f s3 where r: "pop_expression e n ?s2 = Some (f, s3)" "source_ok e s3" "at_most s3 ?s2" using less.hyps[OF s2(2,1)] by blast
      have "pop_expression e n s = Some (f, s3)" using x(1) Some nb(1) True r(1) by (subst pop_expression.simps) simp
      moreover have "below s3 s" using below_at_most[OF b r(3)] .
      ultimately show ?thesis using r(2) by (simp add: at_most_def)
    qed
  qed
qed

section \<open>The next target\<close>

lemma is_resolved_ok:
  "\<forall>a \<in> set as. family_ok af a \<Longrightarrow> family_ok af ss \<Longrightarrow> af = AF_INET \<or> af = AF_INET6 \<Longrightarrow> \<exists>b. is_resolved_address as ss = Some b"
  by (induction as) (auto simp: sockaddr_eq_same)

lemma take_address_ok:
  assumes "scan_env_ok e" "source_ok e s" "block s \<noteq> None" "family_ok (o_af (topts e)) ss"
  shows "\<exists>t s1. take_address e n s ss = Some (t, s1) \<and> source_ok e s1 \<and> source_rank s1 = source_rank s \<and> (\<forall>h \<in> set_option t. host_fits e h)"
proof -
  have af: "o_af (topts e) = AF_INET \<or> o_af (topts e) = AF_INET6" using assms(1) by (simp add: scan_env_ok_def)
  have f: "ss_family (fst ss) = o_af (topts e)" using assms(4) by (simp add: family_ok_def)
  show ?thesis
  proof (cases "resume_ip s")
    case (Some r)
    then have "inet r" using assms(2) by (simp add: source_ok_def)
    then have "sockaddr_eq r ss = Some (fst r = fst ss)" using inet_family[OF assms(4) af] by (rule sockaddr_eq_inet)
    then show ?thesis using Some f assms(2) by (simp add: take_address_def source_ok_def source_rank_def exprs_left_def)
  next
    case None
    obtain nb where nb: "block s = Some nb" using assms(3) by blast
    then have "block_ok (o_af (topts e)) nb" using assms(2) by (simp add: source_ok_def)
    then obtain b where b: "is_resolved_address (resolvedaddrs nb) ss = Some b" using is_resolved_ok[OF _ assms(4) af] by (auto simp: block_ok_def)
    define t where "t = (if b then (new_host ss)\<lparr>h_name := (if nb_hostname nb = [] then None else Some (nb_hostname nb)), h_unscanned := unscanned_addrs nb\<rparr>
      else new_host ss)"
    have t: "h_addr t = ss" "h_device t = []" "h_iftype t = Devt_other" by (simp_all add: t_def new_host_def)
    have st: "setup_target e n s ss = (if \<not> raw_scan e then Some (Some t, s) else case route e ss of None \<Rightarrow> Some (None, s)
        | Some rn \<Rightarrow> Some (Some (routed e rn t), if n = 0 then s\<lparr>decoy := h_source (routed e rn t)\<rparr> else s))"
      by (simp only: setup_target_def nb b option.case bind.bind_lunit Let_def t_def)
    show ?thesis
    proof (cases "hostInExclude (exclude_group e) ss")
      case True
      then show ?thesis using None f assms(2) by (simp add: take_address_def)
    next
      case False
      have ta: "take_address e n s ss = setup_target e n s ss" using None f False by (simp add: take_address_def)
      show ?thesis
      proof (cases "raw_scan e")
        case True
        then show ?thesis using ta st assms(2,4) t False
          by (cases "route e ss") (auto simp: source_ok_def source_rank_def exprs_left_def host_fits_def routed_def)
      next
        case r: False
        then show ?thesis using ta st assms(2,4) t False by (simp add: host_fits_def)
      qed
    qed
  qed
qed

lemma next_fresh_ok:
  assumes "scan_env_ok e" "source_ok e s"
  shows "\<exists>t s1. next_fresh e n s = Some (t, s1) \<and> source_ok e s1 \<and> at_most s1 s \<and> (t \<noteq> None \<longrightarrow> below s1 s) \<and> (\<forall>h \<in> set_option t. host_fits e h)"
  using assms(2)
proof (induction s rule: wf_induct_rule[OF wf_inv_image[OF wf_lex4, of source_rank]])
  case (1 s)
  have IH: "\<exists>t s1. next_fresh e n s2 = Some (t, s1) \<and> source_ok e s1 \<and> at_most s1 s2 \<and> (t \<noteq> None \<longrightarrow> below s1 s2) \<and> (\<forall>h \<in> set_option t. host_fits e h)"
    if "below s2 s" "source_ok e s2" for s2 using "1.IH"[of s2] that by (simp add: below_def)
  have lift: ?case if "below s2 s" "source_ok e s2" "next_fresh e n s = next_fresh e n s2" for s2
    using IH[OF that(1,2)] that(1,3) below_at_most[of s2 s] by (auto simp: at_most_def)
  have af: "o_af (topts e) = AF_INET \<or> o_af (topts e) = AF_INET6" and g: "gai_ok (gai e)" using assms(1) by (simp_all add: scan_env_ok_def)
  have b: "\<forall>nb \<in> set_option (block s). block_ok (o_af (topts e)) nb" using "1.prems" by (simp add: source_ok_def)
  obtain r g1 where r: "get_next_host (gai e) (ifindex e) (topts e) (block s) = Some (r, g1)" "\<forall>nb \<in> set_option g1. block_ok (o_af (topts e)) nb"
    "\<forall>a \<in> set_option r. family_ok (o_af (topts e)) a"
    "if block s = None then r = None \<and> g1 = None else \<exists>nb nb1. block s = Some nb \<and> g1 = Some nb1 \<and> rank_drop r nb1 nb"
    using get_next_host_ok[OF b g af] by blast
  let ?s1 = "s\<lparr>block := g1\<rparr>"
  have s1: "source_ok e ?s1" using "1.prems" r(2) by (simp add: source_ok_def)
  show ?case
  proof (cases r)
    case (Some ss)
    then obtain nb nb1 where nb: "block s = Some nb" "g1 = Some nb1" "(block_rank nb1, block_rank nb) \<in> lex3" using r(4) by (auto simp: rank_drop_def split: if_splits)
    have b1: "below ?s1 s" using nb by (simp add: below_def source_rank_def lex4_def exprs_left_def)
    obtain t s2 where t: "take_address e n ?s1 ss = Some (t, s2)" "source_ok e s2" "source_rank s2 = source_rank ?s1" "\<forall>h \<in> set_option t. host_fits e h"
      using take_address_ok[OF assms(1) s1, of ss n] nb(2) r(3) Some by auto
    have b2: "below s2 s" using b1 t(3) by (simp add: below_def)
    show ?thesis
    proof (cases t)
      case None
      then show ?thesis using lift[OF b2 t(2)] r(1) Some t(1) by (simp add: next_fresh.simps[of e n s])
    next
      case h: (Some h)
      then have "next_fresh e n s = Some (Some h, s2)" using r(1) Some t(1) by (simp add: next_fresh.simps[of e n s])
      then show ?thesis using t(2,4) b2 h by (simp add: at_most_def)
    qed
  next
    case None
    have a1: "at_most ?s1 s"
      using r(4) by (auto simp: at_most_def below_def source_rank_def exprs_left_def lex4_def rank_drop_def split: if_splits)
    obtain f s2 where p: "pop_expression e n ?s1 = Some (f, s2)" "source_ok e s2" "at_most s2 ?s1" "f \<longrightarrow> below s2 ?s1"
      using pop_expression_ok[OF assms(1) s1] by blast
    show ?thesis
    proof (cases f)
      case True
      then have b2: "below s2 s" using at_most_below[OF a1] p(4) by blast
      show ?thesis using lift[OF b2 p(2)] r(1) None p(1) True by (simp add: next_fresh.simps[of e n s])
    next
      case False
      then have "next_fresh e n s = Some (None, s2)" using r(1) None p(1) by (simp add: next_fresh.simps[of e n s])
      then show ?thesis using p(2) at_most_trans[OF a1 p(3)] by (intro exI[of _ None] exI[of _ s2]) simp
    qed
  qed
qed

text \<open>The expressions are a source.\<close>

definition source_step_ok :: "host_env \<Rightarrow> source \<Rightarrow> bool" where
  "source_step_ok e s \<longleftrightarrow> scan_env_ok e \<and> source_ok e s"

lemma wf_below: "wfp below"
proof -
  have "{(x, y). below x y} = inv_image lex4 source_rank" by (auto simp: below_def)
  then show ?thesis unfolding wfp_def using wf_inv_image[OF wf_lex4] by metis
qed

interpretation target_source: shrinking_source "next_fresh e n" "source_step_ok e" below for e n
proof
  fix s assume "source_step_ok e s"
  then show "\<exists>r s1. next_fresh e n s = Some (r, s1) \<and> source_step_ok e s1 \<and> (r \<noteq> None \<longrightarrow> below s1 s)"
    using next_fresh_ok[of e s n] unfolding source_step_ok_def by blast
qed (rule wf_below)

section \<open>Batches\<close>

text \<open>Hosts that fit together: when root sends raw packets, they have one device, source address and kind of connection, and no address twice.\<close>

definition source_of :: "host_nfo \<Rightarrow> sockaddr option" where
  "source_of h = map_option fst (h_source h)"

definition together :: "host_env \<Rightarrow> host_nfo list \<Rightarrow> bool" where
  "together e ts \<longleftrightarrow> (raw_scan e \<and> is_root e \<longrightarrow> distinct (map (\<lambda>h. fst (h_addr h)) ts) \<and>
     (\<forall>h \<in> set ts. \<forall>h' \<in> set ts. h_device h = h_device h' \<and> source_of h = source_of h' \<and> h_direct h = h_direct h'))"

text \<open>The source address may have been replaced by \<open>-S\<close>.\<close>

definition host_ready :: "host_env \<Rightarrow> host_nfo \<Rightarrow> bool" where
  "host_ready e h \<longleftrightarrow> family_ok (o_af (topts e)) (h_addr h) \<and>
     (if raw_scan e then h_device h \<noteq> [] \<and> (\<exists>a. h_source h = Some a \<and> inet a) \<and> h_direct h \<noteq> None else h_device h = [])"

lemma host_fits_ready:
  assumes "scan_env_ok e" "host_fits e h"
  shows "host_ready e h"
proof (cases "raw_scan e")
  case True
  then obtain rn where rn: "route e (h_addr h) = Some rn" "h_device h = rn_devname rn" "h_source h = Some (rn_src rn)" "h_direct h = Some (rn_direct rn)"
    "family_ok (o_af (topts e)) (h_addr h)" using assms(2) by (auto simp: host_fits_def)
  have "inet (rn_src rn) \<and> rn_devname rn \<noteq> []" using assms(1) rn(1) unfolding scan_env_ok_def by blast
  then show ?thesis using True rn by (simp add: host_ready_def)
next
  case False
  then show ?thesis using assms(2) by (simp add: host_fits_def host_ready_def)
qed

lemma same_address_ok:
  assumes "scan_env_ok e" "\<forall>h \<in> set ts. host_ready e h" "host_ready e t"
  shows "same_address ts t = Some (\<exists>h \<in> set ts. fst (h_addr h) = fst (h_addr t))"
  using assms(2)
proof (induction ts)
  case (Cons h ts)
  have af: "o_af (topts e) = AF_INET \<or> o_af (topts e) = AF_INET6" using assms(1) by (simp add: scan_env_ok_def)
  have "sockaddr_eq (h_addr h) (h_addr t) = Some (fst (h_addr h) = fst (h_addr t))"
    by (rule sockaddr_eq_same[OF _ _ af]) (use Cons.prems assms(3) in \<open>simp_all add: host_ready_def\<close>)
  then show ?case using Cons by simp
qed simp

lemma target_needs_new_hostgroup_ok:
  assumes "scan_env_ok e" "\<forall>h \<in> set ts. host_ready e h" "host_ready e t" "together e ts"
  shows "\<exists>b. target_needs_new_hostgroup e ts t = Some b \<and> (\<not> b \<longrightarrow> together e (ts @ [t]))"
proof (cases ts)
  case Nil
  then show ?thesis by (intro exI[of _ False]) (simp add: target_needs_new_hostgroup_def together_def)
next
  case (Cons h hs)
  show ?thesis
  proof (cases "raw_scan e \<and> is_root e")
    case False
    then have "\<not> (is_root e \<and> h_device t \<noteq> [])" using assms(3) by (auto simp: host_ready_def split: if_splits)
    then have "target_needs_new_hostgroup e ts t = Some False" using Cons by (simp add: target_needs_new_hostgroup_def)
    then show ?thesis using False by (auto simp: together_def)
  next
    case True
    have h: "host_ready e h" using assms(2) Cons by simp
    obtain a b where ab: "h_source h = Some a" "inet a" "h_source t = Some b" "inet b" using h assms(3) True by (auto simp: host_ready_def)
    obtain x y where xy: "h_direct h = Some x" "h_direct t = Some y" using h assms(3) True by (auto simp: host_ready_def)
    have d: "h_device h \<noteq> []" "h_device t \<noteq> []" using h assms(3) True by (simp_all add: host_ready_def)
    have f: "ss_family (fst (h_addr h)) = ss_family (fst (h_addr t))" using h assms(3) by (simp add: host_ready_def family_ok_def)
    let ?dup = "\<exists>h \<in> set ts. fst (h_addr h) = fst (h_addr t)"
    have e: "target_needs_new_hostgroup e ts t =
      Some (h_device h \<noteq> h_device t \<or> fst a \<noteq> fst b \<or> x \<noteq> y \<or> ?dup)"
      using Cons True ab xy d f sockaddr_eq_inet[OF ab(2,4)] same_address_ok[OF assms(1-3)] by (auto simp: target_needs_new_hostgroup_def)
    have "together e (ts @ [t])" if "h_device h = h_device t" "fst a = fst b" "x = y" "\<not> ?dup"
    proof -
      have ts: "distinct (map (\<lambda>h. fst (h_addr h)) ts)" "\<And>h'. h' \<in> set ts \<Longrightarrow> h_device h' = h_device t \<and> source_of h' = Some (fst b) \<and> h_direct h' = Some y"
        using assms(4) True Cons that(1-3) ab xy by (auto simp: together_def source_of_def)
      moreover have "source_of t = Some (fst b)" using ab by (simp add: source_of_def)
      ultimately show ?thesis using that(4) xy by (auto simp: together_def image_iff)
    qed
    then show ?thesis using e by blast
  qed
qed

text \<open>The targets that come from the source, one call after another.\<close>

inductive fresh_targets :: "host_env \<Rightarrow> source \<Rightarrow> host_nfo list \<Rightarrow> source \<Rightarrow> bool" for e where
  none: "fresh_targets e s [] s"
| target: "next_fresh e n s = Some (Some t, s1) \<Longrightarrow> fresh_targets e (s1\<lparr>decoy := d\<rparr>) ts s2 \<Longrightarrow> fresh_targets e s (t # ts) s2"
| stop: "next_fresh e n s = Some (None, s1) \<Longrightarrow> fresh_targets e s1 ts s2 \<Longrightarrow> fresh_targets e s ts s2"
| other: "fresh_targets e (s\<lparr>decoy := d\<rparr>) ts s2 \<Longrightarrow> fresh_targets e s ts s2"

lemma fresh_targets_append: "fresh_targets e s ts s1 \<Longrightarrow> fresh_targets e s1 ts' s2 \<Longrightarrow> fresh_targets e s (ts @ ts') s2"
  by (induction rule: fresh_targets.induct) (auto intro: fresh_targets.intros)

definition all_fit :: "host_env \<Rightarrow> host_nfo list \<Rightarrow> bool" where
  "all_fit e ts \<longleftrightarrow> (\<forall>h \<in> set ts. host_fits e h)"

lemma source_ok_decoy [simp]: "source_ok e (s\<lparr>decoy := d\<rparr>) = source_ok e s"
  by (simp add: source_ok_def)

lemma source_rank_decoy [simp]: "source_rank (s\<lparr>decoy := d\<rparr>) = source_rank s"
  by (simp add: source_rank_def exprs_left_def)

lemma next_target_ok:
  assumes "scan_env_ok e" "source_ok e s" "all_fit e und"
  shows "\<exists>t s1 und1. next_target e n s und = Some (t, s1, und1) \<and> source_ok e s1 \<and> all_fit e und1 \<and> (\<forall>h \<in> set_option t. host_fits e h) \<and>
    (if und = [] then und1 = [] \<and> next_fresh e n s = Some (t, s1) \<and> at_most s1 s \<and> (t \<noteq> None \<longrightarrow> below s1 s) else t = Some (hd und) \<and> und1 = tl und \<and> s1 = s)"
proof (cases und)
  case Nil
  then show ?thesis using next_fresh_ok[OF assms(1,2), of n] by (auto simp: next_target_def all_fit_def)
next
  case (Cons h hs)
  then show ?thesis using assms(2,3) by (simp add: next_target_def all_fit_def)
qed

text \<open>What filling a batch does: every target is in the batch or deferred, and all that come from the source are counted.\<close>

definition filled :: "host_env \<Rightarrow> source \<times> host_nfo list \<times> host_nfo list \<times> host_nfo list \<Rightarrow> source \<times> host_nfo list \<times> host_nfo list \<times> host_nfo list \<Rightarrow> bool" where
  "filled e = (\<lambda>(s, und, dfr, batch) (s1, und1, dfr1, batch1). source_ok e s1 \<and> all_fit e (und1 @ dfr1 @ batch1) \<and> together e batch1 \<and>
     (\<exists>ts. fresh_targets e s ts s1 \<and> mset (und1 @ dfr1 @ batch1) = mset (und @ dfr @ batch @ ts) \<and> (if ts = [] then at_most s1 s else below s1 s)) \<and>
     length batch \<le> length batch1)"

lemma filled_refl: "source_ok e s \<Longrightarrow> all_fit e (und @ dfr @ batch) \<Longrightarrow> together e batch \<Longrightarrow> filled e (s, und, dfr, batch) (s, und, dfr, batch)"
  by (auto simp: filled_def intro: exI[of _ "[]"] fresh_targets.none)

text \<open>One target, then the rest.\<close>

lemma filled_step:
  assumes "filled e (s1\<lparr>decoy := d\<rparr>, und1, dfr1, batch1) r" "mset (dfr1 @ batch1) = add_mset t (mset (dfr @ batch))" "length batch \<le> length batch1"
    "if und = [] then und1 = [] \<and> next_fresh e n s = Some (Some t, s1) \<and> below s1 s else t = hd und \<and> und1 = tl und \<and> s1 = s"
  shows "filled e (s, und, dfr, batch) r"
proof -
  obtain s2 und2 dfr2 batch2 where r: "r = (s2, und2, dfr2, batch2)" by (cases r)
  obtain ts where ts: "fresh_targets e (s1\<lparr>decoy := d\<rparr>) ts s2" "mset (und2 @ dfr2 @ batch2) = mset (und1 @ dfr1 @ batch1 @ ts)"
    "if ts = [] then at_most s2 (s1\<lparr>decoy := d\<rparr>) else below s2 (s1\<lparr>decoy := d\<rparr>)"
    using assms(1) unfolding r filled_def by auto
  have le: "at_most s2 s1" using ts(3) by (auto simp: at_most_def below_def split: if_splits)
  show ?thesis
  proof (cases "und = []")
    case True
    then have "fresh_targets e s (t # ts) s2" "below s2 s" using assms(4) ts(1) le below_at_most[of s1 s s2] by (auto intro: fresh_targets.target)
    then show ?thesis using assms(1-4) ts(2) True unfolding r filled_def by (auto intro!: exI[of _ "t # ts"])
  next
    case False
    then obtain us where us: "und = t # us" "und1 = us" "s1 = s" using assms(4) by (cases und) auto
    then have "fresh_targets e s ts s2" using ts(1) by (auto intro: fresh_targets.other)
    moreover have "if ts = [] then at_most s2 s else below s2 s" using ts(3) us(3) by (auto simp: at_most_def below_def split: if_splits)
    moreover have "mset (und2 @ dfr2 @ batch2) = mset (und @ dfr @ batch @ ts)" using ts(2) us assms(2) by simp
    ultimately show ?thesis using assms(1,3) unfolding r filled_def by (auto intro!: exI[of _ ts])
  qed
qed

lemma fill_batch_ok:
  assumes "scan_env_ok e" "source_ok e s" "all_fit e (und @ dfr @ batch)" "together e batch"
  shows "\<exists>r. fill_batch e m s und dfr batch = Some r \<and> filled e (s, und, dfr, batch) r \<and>
    (batch = [] \<and> 0 < m \<and> (case r of (s1, und1, dfr1, batch1) \<Rightarrow> batch1 = []) \<longrightarrow>
      und = [] \<and> (case r of (s1, und1, dfr1, batch1) \<Rightarrow> und1 = [] \<and> dfr1 = dfr \<and> next_fresh e 0 s = Some (None, s1)))"
  using assms
proof (induction e m s und dfr batch rule: fill_batch.induct)
  case (1 e m s und dfr batch)
  show ?case
  proof (cases "length batch < m")
    case False
    have "fill_batch e m s und dfr batch = Some (s, und, dfr, batch)" by (subst fill_batch.simps) (simp add: False)
    then show ?thesis using filled_refl[OF "1.prems"(2-4)] False by (intro exI[of _ "(s, und, dfr, batch)"]) auto
  next
    case True
    have u: "all_fit e und" "\<forall>h \<in> set batch. host_ready e h" using "1.prems"(1,3) host_fits_ready by (auto simp: all_fit_def)
    obtain t s1 und1 where t: "next_target e (length batch) s und = Some (t, s1, und1)" "source_ok e s1" "all_fit e und1" "\<forall>h \<in> set_option t. host_fits e h"
      "if und = [] then und1 = [] \<and> next_fresh e (length batch) s = Some (t, s1) \<and> at_most s1 s \<and> (t \<noteq> None \<longrightarrow> below s1 s)
       else t = Some (hd und) \<and> und1 = tl und \<and> s1 = s"
      using next_target_ok[OF "1.prems"(1,2) u(1)] by blast
    show ?thesis
    proof (cases t)
      case None
      then have n: "und = []" "und1 = []" "next_fresh e (length batch) s = Some (None, s1)" "at_most s1 s" using t(5) by (auto split: if_splits)
      then have "fresh_targets e s [] s1" by (auto intro: fresh_targets.stop fresh_targets.none)
      then have "filled e (s, und, dfr, batch) (s1, und1, dfr, batch)" using t(2) "1.prems"(3,4) n by (auto simp: filled_def intro!: exI[of _ "[]"])
      moreover have "fill_batch e m s und dfr batch = Some (s1, und1, dfr, batch)" by (subst fill_batch.simps) (use True t(1) None in simp)
      ultimately show ?thesis using n(1-3) by auto
    next
      case (Some h)
      then have h: "host_fits e h" "host_ready e h" using t(4) host_fits_ready[OF "1.prems"(1)] by simp_all
      have src: "if und = [] then und1 = [] \<and> next_fresh e (length batch) s = Some (Some h, s1) \<and> below s1 s else h = hd und \<and> und1 = tl und \<and> s1 = s"
        using t(5) Some by (auto split: if_splits)
      obtain b where b: "target_needs_new_hostgroup e batch h = Some b" "\<not> b \<longrightarrow> together e (batch @ [h])"
        using target_needs_new_hostgroup_ok[OF "1.prems"(1) u(2) h(2) "1.prems"(4)] by blast
      have fit: "all_fit e (und1 @ dfr @ batch @ [h])" using "1.prems"(3) t(3) h(1) by (auto simp: all_fit_def)
      show ?thesis
      proof (cases b)
        case False
        let ?s2 = "s1\<lparr>decoy := h_source h\<rparr>"
        have "all_fit e (und1 @ dfr @ (batch @ [h]))" "together e (batch @ [h])" "source_ok e ?s2" using fit b(2) False t(2) by simp_all
        moreover have "target_needs_new_hostgroup e batch h = Some False" "\<not> \<not> length batch < m" using b(1) False True by simp_all
        ultimately obtain r where r: "fill_batch e m ?s2 und1 dfr (batch @ [h]) = Some r" "filled e (?s2, und1, dfr, batch @ [h]) r"
          using "1.IH"(2)[OF _ t(1) refl Some refl _ refl "1.prems"(1)] by blast
        have "fill_batch e m s und dfr batch = Some r" using True t(1) Some b(1) False r(1) by (subst fill_batch.simps) simp
        moreover have "filled e (s, und, dfr, batch) r" by (rule filled_step[OF r(2) _ _ src]) simp_all
        moreover have "batch1 \<noteq> []" if "r = (s', und', dfr', batch1)" for s' und' dfr' batch1 using r(2) that by (auto simp: filled_def)
        ultimately show ?thesis by (cases r) auto
      next
        case b1: True
        let ?d = "dfr @ [h]"
        have ne: "batch \<noteq> []" using b(1) b1 by (auto simp: target_needs_new_hostgroup_def)
        have fit1: "all_fit e (und1 @ ?d @ batch)" using fit by (auto simp: all_fit_def)
        show ?thesis
        proof (cases "length ?d < DEFER_LIMIT")
          case lim: True
          obtain r where r: "fill_batch e m s1 und1 ?d batch = Some r" "filled e (s1, und1, ?d, batch) r"
            using "1.IH"(1) True t(1) Some b(1) b1 lim "1.prems"(1,4) t(2) fit1 by fastforce
          have "fill_batch e m s und dfr batch = Some r" using True t(1) Some b(1) b1 lim r(1) by (subst fill_batch.simps) (simp add: Let_def)
          moreover have "filled e (s1\<lparr>decoy := decoy s1\<rparr>, und1, ?d, batch) r" using r(2) by simp
          then have "filled e (s, und, dfr, batch) r" by (rule filled_step[OF _ _ _ src]) simp_all
          ultimately show ?thesis using ne by auto
        next
          case lim: False
          let ?r = "(s1, und1, ?d, batch)"
          have "fill_batch e m s und dfr batch = Some ?r" using True t(1) Some b(1) b1 lim by (subst fill_batch.simps) (simp add: Let_def)
          moreover have "filled e (s1\<lparr>decoy := decoy s1\<rparr>, und1, ?d, batch) ?r" using filled_refl[OF t(2) fit1 "1.prems"(4)] by simp
          then have "filled e (s, und, dfr, batch) ?r" by (rule filled_step[OF _ _ _ src]) simp_all
          ultimately show ?thesis using ne by auto
        qed
      qed
    qed
  qed
qed

end
