(* ===== verification/Group_Results.thy ===== *)
theory Group_Results
  imports Group_Inv
begin

text \<open>
  Host groups, from the batches to the groups for the scan: discovery keeps the hosts, no target is lost between batches, and the groups of
  \<open>nmap_main\<close> hold hosts that are up, wanted and fit together.
\<close>

unbundle bit_operations_syntax

section \<open>Discovery\<close>

lemma genfry_mset: "mset (genfry rnd a) = mset a"
proof -
  have *: "mset (fold (\<lambda>i a. let pos = rnd i mod (i + 1) in if i \<noteq> pos then swap_at i pos a else a) is b) = mset b" if "\<forall>i \<in> set is. i < length b" for "is" b
    using that
  proof (induction "is" arbitrary: b)
    case (Cons i "is")
    let ?b = "let pos = rnd i mod (i + 1) in if i \<noteq> pos then swap_at i pos b else b"
    have i: "i < length b" using Cons.prems by simp
    have "rnd i mod (i + 1) < length b" using i mod_less_divisor[of "i + 1" "rnd i"] by linarith
    then have "mset ?b = mset b" using i by (simp add: Let_def swap_at_def mset_swap)
    moreover have "length ?b = length b" by (simp add: Let_def swap_at_def)
    ultimately show ?case using Cons.IH[of ?b] Cons.prems by simp
  qed simp
  show ?thesis unfolding genfry_def by (rule *) simp
qed

text \<open>Equal but for the result of discovery.\<close>

definition same_host :: "host_nfo \<Rightarrow> host_nfo \<Rightarrow> bool" where
  "same_host h h' \<longleftrightarrow> (\<exists>f u. h' = h\<lparr>h_flags := f, h_user_reason := u\<rparr>)"

lemma same_host_refl [simp]: "same_host h h"
  unfolding same_host_def by (rule exI[of _ "h_flags h"], rule exI[of _ "h_user_reason h"]) simp

lemma same_host_flags: "same_host h h' \<Longrightarrow> same_host h (h'\<lparr>h_flags := f\<rparr>)"
proof -
  assume "same_host h h'"
  then obtain f0 u where "h' = h\<lparr>h_flags := f0, h_user_reason := u\<rparr>" by (auto simp: same_host_def)
  then have "h'\<lparr>h_flags := f\<rparr> = h\<lparr>h_flags := f, h_user_reason := u\<rparr>" by (cases h) simp
  then show ?thesis unfolding same_host_def by blast
qed

lemma same_host_reason: "same_host h h' \<Longrightarrow> same_host h (h'\<lparr>h_flags := f, h_user_reason := u\<rparr>)"
  unfolding same_host_def by (elim exE, rule exI[of _ f], rule exI[of _ u]) simp

lemma same_host_fields:
  assumes "same_host h h'"
  shows "h_addr h' = h_addr h" "h_device h' = h_device h" "h_iftype h' = h_iftype h" "h_source h' = h_source h" "h_direct h' = h_direct h"
  using assms by (auto simp: same_host_def)

lemma same_host_fits: "same_host h h' \<Longrightarrow> host_fits e h' = host_fits e h"
  by (simp add: host_fits_def same_host_fields)

lemma same_hosts_map:
  assumes "list_all2 same_host hs hs'" "\<And>h h'. same_host h h' \<Longrightarrow> same_host h (f h')"
  shows "list_all2 same_host hs (map f hs')"
  using assms by (simp add: list_all2_conv_all_nth)

lemma discover_keeps:
  assumes "all_fit e batch" "batch \<noteq> []"
  shows "\<exists>b. discover e batch = Some b \<and> list_all2 same_host batch b"
proof -
  obtain h hs where b: "batch = h # hs" using assms(2) by (cases batch) auto
  have h: "host_fits e h" using assms(1) b by (simp add: all_fit_def)
  let ?eth = "h_iftype h = Devt_ethernet"
  obtain d where d: "(if ?eth \<and> (ss_family (fst (h_addr h)) = AF_INET \<or> ss_family (fst (h_addr h)) = AF_INET6) then h_direct h else Some False) = Some d"
    using h by (cases "raw_scan e"; cases "?eth \<and> (ss_family (fst (h_addr h)) = AF_INET \<or> ss_family (fst (h_addr h)) = AF_INET6)")
      (auto simp only: host_fits_def if_True if_False devtype.distinct simp_thms)
  let ?arp = "d \<and> implicit_arp e"
  have r: "list_all2 same_host batch batch" by (simp add: list_all2_conv_all_nth)
  have b1: "list_all2 same_host batch (if ?arp then arpping e batch else batch)" (is "list_all2 _ _ ?b1")
    using r by (auto simp: arpping_def Let_def intro!: same_hosts_map same_host_flags)
  have b2: "list_all2 same_host batch (if eth_pref e \<and> ?eth then map (\<lambda>t. if \<not> flagged_down t \<and> \<not> timed_out e t \<and> \<not> has_next_hop e t
      then t\<lparr>h_flags := DOWN\<rparr> else t) ?b1 else ?b1)" (is "list_all2 _ _ ?b2")
    using b1 by (auto intro!: same_hosts_map same_host_flags)
  let ?b3 = "if (no_ping e \<and> \<not> ?arp) \<or> h_iftype h = Devt_loopback then assume_up e (no_ping e \<and> \<not> ?arp) ?b2 else if \<not> ?arp then massping e ?b2 else ?b2"
  have "list_all2 same_host batch (assume_up e u ?b2)" "list_all2 same_host batch (massping e ?b2)" for u
    unfolding assume_up_def massping_def by (rule same_hosts_map[OF b2]; auto intro: same_host_flags same_host_reason)+
  then have "list_all2 same_host batch ?b3" using b2 by (cases "(no_ping e \<and> \<not> ?arp) \<or> h_iftype h = Devt_loopback"; cases ?arp) (simp_all only: if_True if_False simp_thms)
  moreover have "discover e batch = Some ?b3" unfolding discover_def b list.case Let_def using d[unfolded b] by (simp only: bind.bind_lunit)
  ultimately show ?thesis by blast
qed

lemma same_hosts:
  assumes "list_all2 same_host hs hs'"
  shows "map h_addr hs' = map h_addr hs" "all_fit e hs' = all_fit e hs" "length hs' = length hs"
proof -
  show "length hs' = length hs" using assms by (simp add: list_all2_lengthD)
  then show "map h_addr hs' = map h_addr hs" using assms by (auto simp: list_all2_conv_all_nth same_host_fields intro!: nth_equalityI)
  show "all_fit e hs' = all_fit e hs" using assms by (induction rule: list_all2_induct) (auto simp: all_fit_def same_host_fits)
qed

section \<open>Batches\<close>

definition batches_ok :: "host_env \<Rightarrow> group_state \<Rightarrow> bool" where
  "batches_ok e gs \<longleftrightarrow> source_ok e (src gs) \<and> all_fit e (undeferred gs @ defer_buffer gs @ hostbatch gs) \<and> 0 < max_batch_sz gs \<and>
     next_batch_no gs \<le> length (hostbatch gs)"

text \<open>The targets that are held.\<close>

definition held :: "group_state \<Rightarrow> host_nfo list" where
  "held gs = undeferred gs @ defer_buffer gs @ drop (next_batch_no gs) (hostbatch gs)"

definition drawn_rank :: "group_state \<Rightarrow> (nat \<times> nat \<times> nat \<times> nat) \<times> nat" where
  "drawn_rank gs = (source_rank (src gs), length (held gs))"

definition drawn_less :: "group_state \<Rightarrow> group_state \<Rightarrow> bool" where
  "drawn_less gs1 gs \<longleftrightarrow> below (src gs1) (src gs) \<or> source_rank (src gs1) = source_rank (src gs) \<and> length (held gs1) < length (held gs)"

lemma wf_drawn_less: "wfP drawn_less"
proof -
  have "wf (inv_image (lex4 <*lex*> less_than) drawn_rank)" by (intro wf_inv_image wf_lex_prod wf_lex4 wf_less_than)
  moreover have "{(x, y). drawn_less x y} \<subseteq> inv_image (lex4 <*lex*> less_than) drawn_rank" by (auto simp: drawn_less_def drawn_rank_def below_def)
  ultimately show ?thesis unfolding wfp_def by (rule wf_subset)
qed

lemma refresh_ok:
  assumes "scan_env_ok e" "batches_ok e gs"
  shows "\<exists>gs1 ts. refresh_hostbatch e gs = Some gs1 \<and> batches_ok e gs1 \<and> next_batch_no gs1 = 0 \<and> fresh_targets e (src gs) ts (src gs1) \<and>
    mset (map h_addr (held gs1)) = mset (map h_addr (undeferred gs @ defer_buffer gs @ ts)) \<and> (if ts = [] then at_most (src gs1) (src gs) else below (src gs1) (src gs)) \<and>
    (hostbatch gs1 = [] \<longrightarrow> undeferred gs = [] \<and> defer_buffer gs = [] \<and> undeferred gs1 = [] \<and> defer_buffer gs1 = [] \<and> next_fresh e 0 (src gs) = Some (None, src gs1))"
proof -
  have "all_fit e ((undeferred gs @ defer_buffer gs) @ [] @ [])" "source_ok e (src gs)" "together e []" and m: "0 < max_batch_sz gs"
    using assms(2) by (auto simp: batches_ok_def all_fit_def together_def)
  from fill_batch_ok[OF assms(1) this(2,1,3), of "max_batch_sz gs"] obtain s und dfr batch where
    f: "fill_batch e (max_batch_sz gs) (src gs) (undeferred gs @ defer_buffer gs) [] [] = Some (s, und, dfr, batch)"
      "filled e (src gs, undeferred gs @ defer_buffer gs, [], []) (s, und, dfr, batch)"
      "batch = [] \<longrightarrow> undeferred gs = [] \<and> defer_buffer gs = [] \<and> und = [] \<and> dfr = [] \<and> next_fresh e 0 (src gs) = Some (None, s)"
    using m by auto
  obtain ts where ts: "fresh_targets e (src gs) ts s" "mset (und @ dfr @ batch) = mset (undeferred gs @ defer_buffer gs @ ts)"
    "if ts = [] then at_most s (src gs) else below s (src gs)" "source_ok e s" "all_fit e (und @ dfr @ batch)"
    using f(2) by (auto simp: filled_def)
  let ?gs1 = "gs\<lparr>src := s, undeferred := und, defer_buffer := dfr, hostbatch := batch, next_batch_no := 0\<rparr>"
  have addrs: "mset (map h_addr (und @ dfr @ batch)) = mset (map h_addr (undeferred gs @ defer_buffer gs @ ts))" using ts(2) by (metis mset_map)
  show ?thesis
  proof (cases "batch = []")
    case True
    then have "refresh_hostbatch e gs = Some ?gs1" using f(1) by (simp add: refresh_hostbatch_def Let_def)
    moreover have "batches_ok e ?gs1" using ts(4,5) m by (simp add: batches_ok_def True)
    ultimately show ?thesis using ts(1,3) f(3) addrs True by (intro exI[of _ ?gs1] exI[of _ ts]) (simp add: held_def)
  next
    case False
    let ?b = "if randomize_batch gs then genfry (shuffle e) batch else batch"
    have p: "mset ?b = mset batch" by (simp add: genfry_mset)
    have fit: "all_fit e batch" using ts(5) by (simp add: all_fit_def)
    have sb: "set ?b = set batch" using p by (rule mset_eq_setD)
    have ne: "?b \<noteq> []" "all_fit e ?b" using False sb fit unfolding all_fit_def by fastforce+
    obtain b where b: "discover e ?b = Some b" "list_all2 same_host ?b b" using discover_keeps[OF ne(2,1)] by blast
    let ?gs2 = "?gs1\<lparr>hostbatch := b\<rparr>"
    have "refresh_hostbatch e gs = Some ?gs2" using f(1) False b(1) by (simp add: refresh_hostbatch_def Let_def)
    moreover have "batches_ok e ?gs2" using ts(4,5) m ne(2) same_hosts(2)[OF b(2), of e] by (auto simp: batches_ok_def all_fit_def)
    moreover have "mset (map h_addr b) = mset (map h_addr batch)" using same_hosts(1)[OF b(2)] p by (metis mset_map)
    then have "mset (map h_addr (held ?gs2)) = mset (map h_addr (undeferred gs @ defer_buffer gs @ ts))" using addrs by (simp add: held_def)
    moreover have "b \<noteq> []" using b(2) ne(1) by auto
    ultimately show ?thesis using ts(1,3) by (intro exI[of _ ?gs2] exI[of _ ts]) simp
  qed
qed

lemma held_step: "next_batch_no gs < length (hostbatch gs) \<Longrightarrow>
  held gs = undeferred gs @ defer_buffer gs @ hostbatch gs ! next_batch_no gs # drop (Suc (next_batch_no gs)) (hostbatch gs)"
  by (simp add: held_def Cons_nth_drop_Suc)

lemma nexthost_ok:
  assumes "scan_env_ok e" "batches_ok e gs"
  shows "\<exists>r gs1 ts. nexthost e gs = Some (r, gs1) \<and> batches_ok e gs1 \<and> (\<forall>h \<in> set_option r. host_fits e h \<and> drawn_less gs1 gs \<and> 0 < next_batch_no gs1) \<and>
    fresh_targets e (src gs) ts (src gs1) \<and> mset (map h_addr (held gs @ ts)) = mset (map h_addr (held gs1)) + mset (case r of None \<Rightarrow> [] | Some h \<Rightarrow> [h_addr h]) \<and>
    (r = None \<longrightarrow> held gs = [] \<and> held gs1 = [] \<and> ts = [] \<and> next_fresh e 0 (src gs) = Some (None, src gs1))"
proof -
  have step: ?thesis if g: "(if next_batch_no gs \<ge> length (hostbatch gs) then refresh_hostbatch e gs else Some gs) = Some gs1" and
    gs1: "batches_ok e gs1" "next_batch_no gs1 < length (hostbatch gs1)" "below (src gs1) (src gs) \<or> source_rank (src gs1) = source_rank (src gs) \<and> length (held gs1) \<le> length (held gs)"
      "fresh_targets e (src gs) ts (src gs1)" "mset (map h_addr (held gs @ ts)) = mset (map h_addr (held gs1))"
    for gs1 ts
  proof -
    let ?h = "hostbatch gs1 ! next_batch_no gs1" and ?gs2 = "gs1\<lparr>next_batch_no := next_batch_no gs1 + 1\<rparr>"
    have n: "nexthost e gs = Some (Some ?h, ?gs2)" unfolding nexthost_def g using gs1(2) by simp
    have "length (held ?gs2) < length (held gs1)" using held_step[OF gs1(2)] by (simp add: held_def)
    then have "drawn_less ?gs2 gs" using gs1(3) by (auto simp: drawn_less_def)
    moreover have "host_fits e ?h" "batches_ok e ?gs2" using gs1(1,2) by (auto simp: batches_ok_def all_fit_def)
    moreover have "mset (map h_addr (held gs1)) = mset (map h_addr (held ?gs2)) + mset [h_addr ?h]" using held_step[OF gs1(2)] by (simp add: held_def)
    ultimately show ?thesis using n gs1(4,5) by (intro exI[of _ "Some ?h"] exI[of _ ?gs2] exI[of _ ts]) simp
  qed
  show ?thesis
  proof (cases "next_batch_no gs \<ge> length (hostbatch gs)")
    case False
    then show ?thesis using step[of gs "[]"] assms(2) fresh_targets.none by simp
  next
    case True
    obtain gs1 ts where r: "refresh_hostbatch e gs = Some gs1" "batches_ok e gs1" "next_batch_no gs1 = 0" "fresh_targets e (src gs) ts (src gs1)"
      "mset (map h_addr (held gs1)) = mset (map h_addr (undeferred gs @ defer_buffer gs @ ts))" "if ts = [] then at_most (src gs1) (src gs) else below (src gs1) (src gs)"
      "hostbatch gs1 = [] \<longrightarrow> undeferred gs = [] \<and> defer_buffer gs = [] \<and> undeferred gs1 = [] \<and> defer_buffer gs1 = [] \<and> next_fresh e 0 (src gs) = Some (None, src gs1)"
      using refresh_ok[OF assms] by blast
    have h: "held gs = undeferred gs @ defer_buffer gs" using True by (simp add: held_def)
    show ?thesis
    proof (cases "hostbatch gs1 = []")
      case e: True
      then have "nexthost e gs = Some (None, gs1)" using True r(1,3) by (simp add: nexthost_def)
      moreover have "held gs1 = []" "held gs = []" using e r(7) h by (simp_all add: held_def)
      moreover have "ts = []" using r(5) \<open>held gs1 = []\<close> by simp
      ultimately show ?thesis using r(2,4,7) e by (intro exI[of _ None] exI[of _ gs1] exI[of _ ts]) simp
    next
      case False
      have "length (held gs1) = length (held gs @ ts)" using r(5) h by (metis append.assoc length_map size_mset)
      then show ?thesis using step[of gs1 ts] True r(1-6) False h by (auto simp: at_most_def split: if_splits)
    qed
  qed
qed

text \<open>The batches are a source.\<close>

definition batch_step_ok :: "host_env \<Rightarrow> group_state \<Rightarrow> bool" where
  "batch_step_ok e gs \<longleftrightarrow> scan_env_ok e \<and> batches_ok e gs"

interpretation host_source: shrinking_source "nexthost e" "batch_step_ok e" drawn_less for e
proof
  fix gs assume "batch_step_ok e gs"
  then obtain r gs1 where "nexthost e gs = Some (r, gs1)" "batches_ok e gs1" "scan_env_ok e" "\<forall>h \<in> set_option r. drawn_less gs1 gs"
    using nexthost_ok[of e gs] unfolding batch_step_ok_def by blast
  then show "\<exists>r gs1. nexthost e gs = Some (r, gs1) \<and> batch_step_ok e gs1 \<and> (r \<noteq> None \<longrightarrow> drawn_less gs1 gs)"
    by (intro exI[of _ r] exI[of _ gs1]) (auto simp: batch_step_ok_def)
qed (rule wf_drawn_less)

lemma drained_hosts:
  assumes "drained (nexthost e) gs hs gs1" "scan_env_ok e" "batches_ok e gs"
  shows "\<exists>ts. fresh_targets e (src gs) ts (src gs1) \<and> mset (map h_addr (held gs @ ts)) = mset (map h_addr hs) \<and> held gs1 = [] \<and>
    (\<exists>s. next_fresh e 0 s = Some (None, src gs1)) \<and> (\<forall>h \<in> set hs. host_fits e h)"
  using assms(1,3)
proof (induction rule: drained.induct)
  case (last gs gs1)
  then show ?case using nexthost_ok[OF assms(2) last.prems] by (intro exI[of _ "[]"]) auto
next
  case (more gs h gs1 hs gs2)
  obtain ts where t: "batches_ok e gs1" "host_fits e h" "fresh_targets e (src gs) ts (src gs1)"
    "mset (map h_addr (held gs @ ts)) = mset (map h_addr (held gs1)) + {#h_addr h#}"
    using nexthost_ok[OF assms(2) more.prems] more.hyps(1) by auto
  obtain us where u: "fresh_targets e (src gs1) us (src gs2)" "mset (map h_addr (held gs1 @ us)) = mset (map h_addr hs)" "held gs2 = []"
    "\<exists>s. next_fresh e 0 s = Some (None, src gs2)" "\<forall>h \<in> set hs. host_fits e h" using more.IH[OF t(1)] by blast
  have "mset (map h_addr (held gs @ ts @ us)) = mset (map h_addr (h # hs))" using t(4) u(2)[symmetric] by simp
  then show ?case using fresh_targets_append[OF t(3) u(1)] t(2) u(3-5) by (intro exI[of _ "ts @ us"]) simp
qed

section \<open>Groups\<close>

definition group_host :: "host_env \<Rightarrow> host_nfo \<Rightarrow> bool" where
  "group_host e h \<longleftrightarrow> flagged_up h \<and> ss_family (fst (h_addr h)) = o_af (topts e) \<and> \<not> hostInExclude (exclude_group e) (h_addr h) \<and>
     (raw_scan e \<longrightarrow> (\<exists>rn. route e (h_addr h) = Some rn \<and> h_device h = rn_devname rn \<and> h_direct h = Some (rn_direct rn) \<and>
        h_source h = Some (case spoof_source e of None \<Rightarrow> rn_src rn | Some a \<Rightarrow> a)))"

definition group_ok :: "host_env \<Rightarrow> host_nfo list \<Rightarrow> bool" where
  "group_ok e ts \<longleftrightarrow> (\<forall>h \<in> set ts. group_host e h) \<and> together e ts"

lemma batches_ok_count [simp]: "batches_ok e (count_scanned n gs) = batches_ok e gs" "drawn_less (count_scanned n gs) gs0 = drawn_less gs gs0"
  by (simp_all add: batches_ok_def count_scanned_def source_ok_def drawn_less_def held_def below_def source_rank_def exprs_left_def)

lemma batches_ok_decoy [simp]: "batches_ok e (gs\<lparr>src := (src gs)\<lparr>decoy := d\<rparr>\<rparr>) = batches_ok e gs"
  "drawn_less (gs\<lparr>src := (src gs)\<lparr>decoy := d\<rparr>\<rparr>) gs0 = drawn_less gs gs0"
  by (simp_all add: batches_ok_def drawn_less_def held_def below_def)

lemma group_host_ready:
  assumes "scan_env_ok e" "host_fits e t0" "flagged_up t0" "t = (case spoof_source e of None \<Rightarrow> t0 | Some a \<Rightarrow> t0\<lparr>h_source := Some a\<rparr>)"
  shows "group_host e t \<and> host_ready e t"
proof -
  have r: "host_ready e t0" using assms(1,2) by (rule host_fits_ready)
  have f: "h_addr t = h_addr t0" "h_device t = h_device t0" "h_direct t = h_direct t0" "flagged_up t"
    using assms(3,4) by (auto simp: flagged_up_def split: option.splits)
  have src: "h_source t = (case spoof_source e of None \<Rightarrow> h_source t0 | Some a \<Rightarrow> Some a)" using assms(4) by (auto split: option.splits)
  have "\<forall>a \<in> set_option (spoof_source e). inet a" using assms(1) by (simp add: scan_env_ok_def)
  then have "host_ready e t" using r f src by (cases "spoof_source e") (auto simp: host_ready_def)
  moreover have "group_host e t" using assms(2) f src by (cases "spoof_source e"; cases "raw_scan e") (auto simp: group_host_def host_fits_def family_ok_def)
  ultimately show ?thesis by simp
qed

lemma collect_group_ok:
  assumes "scan_env_ok e" "batches_ok e gs" "group_ok e ts" "\<forall>h \<in> set ts. host_ready e h" "length ts \<le> ideal"
  shows "\<exists>ts1 gs1. collect_group e ideal ts gs = Some (ts1, gs1) \<and> batches_ok e gs1 \<and> group_ok e ts1 \<and> length ts1 \<le> ideal"
  using assms(2-5)
proof (induction gs arbitrary: ts rule: wfp_induct_rule[OF wf_drawn_less])
  case (1 gs)
  show ?case
  proof (cases "length ts < ideal")
    case False
    then have "collect_group e ideal ts gs = Some (ts, gs)" by (simp add: collect_group.simps[of e ideal ts gs])
    then show ?thesis using "1.prems" by simp
  next
    case True
    obtain r gs1 where n: "nexthost e gs = Some (r, gs1)" "batches_ok e gs1" "\<forall>h \<in> set_option r. host_fits e h \<and> drawn_less gs1 gs \<and> 0 < next_batch_no gs1"
      using nexthost_ok[OF assms(1) "1.prems"(1)] by blast
    show ?thesis
    proof (cases r)
      case None
      then have "collect_group e ideal ts gs = Some (ts, gs1)" using True n(1) by (simp add: collect_group.simps[of e ideal ts gs])
      then show ?thesis using n(2) "1.prems" by simp
    next
      case (Some t0)
      define t where "t = (case spoof_source e of None \<Rightarrow> t0 | Some a \<Rightarrow> t0\<lparr>h_source := Some a\<rparr>)"
      have f: "host_fits e t0" "drawn_less gs1 gs" "0 < next_batch_no gs1" using n(3) Some by simp_all
      have rest: ?thesis if "collect_group e ideal ts gs = collect_group e ideal ts2 gs2" "drawn_less gs2 gs" "batches_ok e gs2" "group_ok e ts2"
        "\<forall>h \<in> set ts2. host_ready e h" "length ts2 \<le> ideal" for ts2 gs2
        using "1.IH"[OF that(2-6)] that(1) by simp
      have ideal: "length (ts @ [t]) \<le> ideal" using True by simp
      show ?thesis
      proof (cases "discovery_only e \<or> \<not> flagged_up t0")
        case down: True
        let ?gs2 = "count_scanned 1 gs1"
        have c: "collect_group e ideal ts gs = (if max_ips e = 0 \<or> max_ips e > numhosts_scanned (src ?gs2) + length ts
          then collect_group e ideal ts ?gs2 else Some (ts, ?gs2))"
          using True n(1) Some down by (subst collect_group.simps) (simp add: Let_def)
        show ?thesis
        proof (cases "max_ips e = 0 \<or> max_ips e > numhosts_scanned (src ?gs2) + length ts")
          case True
          then show ?thesis using rest[of ts ?gs2] c f(2) n(2) "1.prems" by simp
        next
          case False
          then show ?thesis using c n(2) "1.prems" by auto
        qed
      next
        case up: False
        have gt: "group_host e t" "host_ready e t" using group_host_ready[OF assms(1) f(1) _ t_def] up by simp_all
        have ready: "\<forall>h \<in> set (ts @ [t]). host_ready e h" using "1.prems"(3) gt(2) by simp
        show ?thesis
        proof (cases "raw_scan e")
          case raw: False
          then have c: "collect_group e ideal ts gs = collect_group e ideal (ts @ [t]) gs1"
            using True n(1) Some up by (subst collect_group.simps) (simp add: Let_def t_def)
          have "group_ok e (ts @ [t])" using "1.prems"(2) gt(1) raw by (auto simp: group_ok_def together_def)
          then show ?thesis using rest[OF c f(2) n(2)] ready ideal by simp
        next
          case raw: True
          obtain sa where a: "h_source t = Some sa" "h_device t \<noteq> []" using gt(2) raw by (auto simp: host_ready_def)
          obtain b where b: "target_needs_new_hostgroup e ts t = Some b" "\<not> b \<longrightarrow> together e (ts @ [t])"
            using target_needs_new_hostgroup_ok[OF assms(1) "1.prems"(3) gt(2)] "1.prems"(2) by (auto simp: group_ok_def)
          have c: "collect_group e ideal ts gs = (if b then do { gs2 \<leftarrow> returnhost gs1; Some (ts, gs2) }
            else collect_group e ideal (ts @ [t]) (gs1\<lparr>src := (src gs1)\<lparr>decoy := h_source t\<rparr>\<rparr>))"
            using True n(1) Some up raw a b(1) by (subst collect_group.simps) (simp add: Let_def t_def[symmetric])
          show ?thesis
          proof (cases b)
            case True
            have "batches_ok e (gs1\<lparr>next_batch_no := next_batch_no gs1 - 1\<rparr>)" using n(2) by (auto simp: batches_ok_def)
            then show ?thesis using c True f(3) "1.prems" by (simp add: returnhost_def)
          next
            case False
            then have "group_ok e (ts @ [t])" using "1.prems"(2) gt(1) b(2) by (simp add: group_ok_def)
            then show ?thesis using rest[of "ts @ [t]" "gs1\<lparr>src := (src gs1)\<lparr>decoy := h_source t\<rparr>\<rparr>"] c f(2) n(2) ready ideal False by simp
          qed
        qed
      qed
    qed
  qed
qed

section \<open>Results\<close>

text \<open>C7. Every target gets its turn: asking for hosts until there is none returns every time and ends, and the hosts are, each as often as it was given, those that
  were held at the start and those that the expressions give, until they are exhausted and nothing is held back, also when batches are
  shuffled and hosts deferred.\<close>

theorem every_target_handed_out:
  assumes "scan_env_ok e" "batches_ok e gs"
  shows "\<exists>hs gs1 ts. drained (nexthost e) gs hs gs1 \<and> fresh_targets e (src gs) ts (src gs1) \<and>
    mset (map h_addr hs) = mset (map h_addr (held gs @ ts)) \<and> held gs1 = [] \<and> (\<exists>s. next_fresh e 0 s = Some (None, src gs1))"
proof -
  have "batch_step_ok e gs" using assms by (simp add: batch_step_ok_def)
  then obtain hs gs1 where d: "drained (nexthost e) gs hs gs1" using host_source.drains by blast
  show ?thesis using d drained_hosts[OF d assms] by metis
qed

lemma determineScanGroupSize_some: "so_min so \<le> so_max so \<Longrightarrow> \<exists>n. determineScanGroupSize so limit k = Some n"
proof -
  assume "so_min so \<le> so_max so"
  then have "\<forall>g. \<exists>y. box (int (so_min so)) (int (so_max so)) g = Some y"
    using box_in[of "int (so_min so)" "int (so_max so)"] by auto
  then obtain f where "\<And>g. box (int (so_min so)) (int (so_max so)) g = Some (f g)" by metis
  then show ?thesis by (simp add: determineScanGroupSize_def Let_def)
qed

lemma scan_groups_ok:
  assumes "scan_env_ok e" "so_min so \<le> so_max so" "batches_ok e gs"
  shows "\<exists>gps gs1. scan_groups e so n gs = Some (gps, gs1) \<and> batches_ok e gs1 \<and> length gps \<le> n \<and> (\<forall>ts \<in> set gps. ts \<noteq> [] \<and> group_ok e ts)"
  using assms(3)
proof (induction n arbitrary: gs)
  case (Suc n)
  obtain ideal where ideal: "determineScanGroupSize so (max_ips e) (numhosts_scanned (src gs)) = Some ideal"
    using determineScanGroupSize_some[OF assms(2)] by blast
  obtain ts gs1 where c: "collect_group e ideal [] gs = Some (ts, gs1)" "batches_ok e gs1" "group_ok e ts"
    using collect_group_ok[OF assms(1) Suc.prems, of "[]" ideal] by (auto simp: group_ok_def together_def)
  let ?gs2 = "count_scanned (length ts) gs1"
  obtain gps gs3 where r: "scan_groups e so n ?gs2 = Some (gps, gs3)" "batches_ok e gs3" "length gps \<le> n" "\<forall>ts \<in> set gps. ts \<noteq> [] \<and> group_ok e ts"
    using Suc.IH[of ?gs2] c(2) by auto
  show ?case
  proof (cases "ts = []")
    case True
    then have "scan_groups e so (Suc n) gs = Some ([], gs1)" using ideal c(1) by simp
    then show ?thesis using c(2) by simp
  next
    case False
    show ?thesis
    proof (cases "max_ips e = 0 \<or> max_ips e > numhosts_scanned (src ?gs2)")
      case True
      then have "scan_groups e so (Suc n) gs = Some (ts # gps, gs3)" using ideal c(1) r(1) False by (simp add: Let_def)
      then show ?thesis using r(2-4) c(3) False by simp
    next
      case stop: False
      then have "scan_groups e so (Suc n) gs = Some ([ts], ?gs2)" using ideal c(1) False by (simp add: Let_def)
      then show ?thesis using c(2,3) False by simp
    qed
  qed
qed simp

text \<open>C6. Forming groups always returns, and every group that goes to the scan engine is right: it is not empty; its hosts are up, of the
  requested family, not excluded and routed; and when root sends raw packets they share the device, the source address and the kind of connection, and
  no address comes twice.\<close>

theorem scan_groups_safe:
  assumes "scan_env_ok e" "so_min so \<le> so_max so" "source_ok e s" "HostGroupState_new lookahead rnd s = Some gs"
  shows "\<exists>gps gs1. scan_groups e so n gs = Some (gps, gs1) \<and> length gps \<le> n \<and> (\<forall>ts \<in> set gps. ts \<noteq> [] \<and>
    (\<forall>h \<in> set ts. group_host e h) \<and>
    (raw_scan e \<and> is_root e \<longrightarrow> distinct (map (\<lambda>h. fst (h_addr h)) ts) \<and>
      (\<forall>h \<in> set ts. \<forall>h' \<in> set ts. h_device h = h_device h' \<and> source_of h = source_of h' \<and> h_direct h = h_direct h')))"
proof -
  have "batches_ok e gs" using assms(3,4) by (auto simp: HostGroupState_new_def batches_ok_def all_fit_def split: if_splits)
  from scan_groups_ok[OF assms(1,2) this, of n] show ?thesis unfolding group_ok_def together_def by blast
qed

section \<open>A concrete network\<close>

text \<open>A resolver that knows no name, and one device for everything.\<close>

definition lan_route :: route_nfo where
  "lan_route = \<lparr>rn_direct = True, rn_nexthop = (Sockaddr_in [10, 0, 0, 1], 0), rn_src = (Sockaddr_in [10, 0, 0, 9], 0), rn_devname = ''eth0'',
     rn_devtype = Devt_ethernet, rn_mac = [2, 0, 0, 0, 0, 9], rn_mtu = 1500\<rparr>"

definition lan_env :: host_env where
  "lan_env = \<lparr>gai = (\<lambda>name numeric af. (-2, [])), ifindex = (\<lambda>d. None), topts = \<lparr>o_af = AF_INET, o_resolve_all = False, o_device = None\<rparr>,
     route = (\<lambda>a. Some lan_route), exclude_group = None, raw_scan = True, is_root = True, spoof_mac = None, spoof_source = None, random_ips = None,
     scripts = False, max_ips = 0, implicit_arp = True, eth_pref = False, no_ping = False, discovery_only = False, is_local = (\<lambda>a. False),
     ping_flags = (\<lambda>k h. UP), has_next_hop = (\<lambda>h. True), timed_out = (\<lambda>h. False), shuffle = (\<lambda>i. i)\<rparr>"

definition lan_source :: source where
  "lan_source = \<lparr>args = [''10.0.0.1-3'', ''10.0.0.2''], input = None, drawn = 0, new_targets = [], block = None, resume_ip = None, numhosts_scanned = 0,
     decoy = None\<rparr>"

definition lan_size :: size_opts where
  "lan_size = \<lparr>so_udp = False, so_sctp = False, so_tcp = True, so_tcp_count = 1000, so_timing = 3, so_min = 1, so_max = 100000\<rparr>"

definition lan_state :: group_state where
  "lan_state = \<lparr>src = lan_source, undeferred = [], defer_buffer = [], hostbatch = [], next_batch_no = 0, max_batch_sz = 4096, randomize_batch = False\<rparr>"

lemma lan_ok: "scan_env_ok lan_env" "source_ok lan_env lan_source" "batches_ok lan_env lan_state" "HostGroupState_new 4096 False lan_source = Some lan_state"
  by (simp_all add: scan_env_ok_def lan_env_def gai_ok_def lan_route_def inet_def family_ok_def source_ok_def lan_source_def batches_ok_def lan_state_def
    all_fit_def HostGroupState_new_def)

theorem scan_groups_safe_witness:
  "\<exists>gps gs1. scan_groups lan_env lan_size 5 lan_state = Some (gps, gs1) \<and> length gps \<le> 5 \<and> (\<forall>ts \<in> set gps. ts \<noteq> [] \<and>
    (\<forall>h \<in> set ts. group_host lan_env h) \<and>
    (raw_scan lan_env \<and> is_root lan_env \<longrightarrow> distinct (map (\<lambda>h. fst (h_addr h)) ts) \<and>
      (\<forall>h \<in> set ts. \<forall>h' \<in> set ts. h_device h = h_device h' \<and> source_of h = source_of h' \<and> h_direct h = h_direct h')))"
  by (rule scan_groups_safe[OF lan_ok(1) _ lan_ok(2,4)]) (simp add: lan_size_def)

theorem every_target_handed_out_witness:
  "\<exists>hs gs1 ts. drained (nexthost lan_env) lan_state hs gs1 \<and> fresh_targets lan_env (src lan_state) ts (src gs1) \<and>
    mset (map h_addr hs) = mset (map h_addr (held lan_state @ ts)) \<and> held gs1 = [] \<and> (\<exists>s. next_fresh lan_env 0 s = Some (None, src gs1))"
  by (rule every_target_handed_out[OF lan_ok(1,3)])

end
