(* ===== verification/Spec2Isabelle.thy ===== *)
theory Spec2Isabelle
  imports Gh_Heap Addrset Ncat_Proxy Match_Results Port_Setup Group_Results
begin

text \<open>
  A verification library for Nmap.  It follows the C and C++ sources of six parts of the program: the scan engine of \<open>nmap\<close>, its port specifications, its targets and host groups, the
  access lists of \<open>nbase\<close>, the HTTP code of \<open>ncat\<close> and the heap of events of \<open>nsock\<close>.  Every definition is a translation of
  code and can be evaluated; the theorems say that the code keeps its data structures consistent, terminates, computes what its
  interface promises, and where it does not.

  \<^bold>\<open>Conventions\<close> (\<open>Nmap_Prelude\<close>).  A result of type \<open>'a option\<close> is \<open>None\<close> where the program ends abnormally: a failed
  \<open>assert\<close>, \<open>fatal\<close>, a null or dangling pointer, an access outside an array.  An error that the code handles is a value.  Unsigned integers
  that wrap around are words; the remaining ones are naturals or integers, and the places where C would overflow are named in the text.
  Floating point numbers are rationals; a logarithm or root that the code takes is a parameter with its bounds as hypotheses.  A
  loop that may not end is a \<open>partial_function\<close>, so that a result \<open>Some\<close> also says that the code returns.  Whatever comes from
  outside, the clock, the results of system calls, received packets, resolved names and random bytes, is an argument.  Debugging output is left out.

  \<^bold>\<open>The scan engine\<close>, \<open>scan_engine.cc\<close>, \<open>scan_engine_connect.cc\<close>, \<open>scan_engine_raw.cc\<close>, \<open>timing.cc\<close>, \<open>portlist.cc\<close> and
  \<open>portreasons.cc\<close>.  A call of \<open>ultra_scan\<close> scans a group of hosts.  Each host has a list of outstanding probes, a bench of probes that
  failed before, counters of them and an estimate of the round-trip time; the group has the congestion window and the meters.
  \<^item> \<open>Timing\<close>: \<open>adjust_timeouts2\<close>, the estimate of round-trip times and the time-out of a probe, with its limits and the options that set them.
  \<^item> \<open>Congestion\<close>: the congestion windows \<open>ultra_timing_vals\<close>, \<open>RateMeter\<close>, \<open>PacketRateMeter\<close>, \<open>ScanProgressMeter\<close> and \<open>scan_performance_vars\<close>.
  \<^item> \<open>Portlist\<close>: the table of the ports of a target: states, counts, iteration, ignored states, reasons and service results.
  \<^item> \<open>Scan_Probe\<close>: the types of scan, the configuration of \<open>UltraScanInfo\<close>, and \<open>get_next_target_probe\<close>, which yields the fresh probes of a host.
  \<^item> \<open>Probe_Code\<close>: the numbers that a probe carries in its source port or sequence number.
  \<^item> \<open>Scan_Host\<close>: \<open>HostScanStats\<close> and everything that happens to one host: a probe is sent, is answered, times out, waits for
    retransmission, is benched, comes back from the bench; the host becomes up or down and its ports get their states.
  \<^item> \<open>Scan_Inv\<close>, \<open>Scan_Step\<close>: the invariant of one host together with the group, and that each operation returns and keeps it.  The
    counters are the numbers of the probes that they stand for, which is what the assertions of the code are about.
  \<^item> \<open>Scan_Engine\<close>: \<open>UltraScanInfo\<close>, the circular list of incomplete hosts, the functions \<open>doAny...\<close> that send, \<open>waitForResponses\<close>,
    \<open>processData\<close>, \<open>removeCompletedHosts\<close> and the main loop of \<open>ultra_scan\<close>.
  \<^item> \<open>Engine_Inv\<close>, \<open>Engine_Send\<close>, \<open>Engine_Recv\<close>, \<open>Engine_Loop\<close>, \<open>Engine_Run\<close>: the invariant of the group and each
    function of the main loop.  The locale \<open>sending_loop\<close> is the contract of a function that sends at most one probe; its
    interpretations are the fresh probes and the probes of the bench, and give that going round the hosts ends.
  \<^item> \<open>Scan_Match\<close>: packets, how they are matched to probes and what they mean, and the loops that read them, \<open>get_pcap_result\<close>,
    \<open>get_ping_pcap_result\<close> and \<open>get_arp_result\<close>.  \<open>Match_Inv\<close> shows that each is, for any packets, one step of the kind that
    \<open>Engine_Recv\<close> takes, so that the results on whole scans hold with packets in the place of replies.  \<open>Match_Results\<close> says what the results mean.

  The replies that arrive during a round are a list; the main loop is the function \<open>scan_rounds\<close>, whose number is the number of rounds
  that are looked at.  It is not a bound on the scan: the theorems hold for every number, since a scan ends only when the
  hosts answer or time out.  Within a round every loop is shown to end.

  What a whole scan is proved for is named in its theorem, \<open>ultra_scan_never_fails\<close>: the conditions \<open>cfg_ok\<close> and \<open>scannable\<close> on the configuration and the
  targets, and \<open>env_ok\<close> on the environment.  The latter leaves out one thing that can happen: in a ping scan a retransmitted connect probe
  whose connection is made or refused at once.  There the code fails an assertion (\<open>scan_engine.cc:2358\<close>), and so does the model, as
  \<open>retransmitted_connect_fails\<close> shows.  The invariant also says that each outstanding packet carries its numbers in its source port, which is what
  the matching of answers relies on.  The limit that \<open>max_rate_holds\<close> proves for \<open>--max-rate\<close> is that of the code, the distance of packets
  truncated to whole microseconds, and can be well above the rate that was asked for.

  \<^bold>\<open>Port specifications\<close>, \<open>scan_lists.cc\<close>, \<open>services.cc\<close>, \<open>protocols.cc\<close>, and parts of \<open>utils.cc\<close> and \<open>nmap.cc\<close>.  What runs before a
  scan: the ports are chosen, less the excluded ones, the maps of the port lists are set up and the ports are shuffled.
  \<^item> \<open>Services\<close>: the tables of services and protocols and the wildcards \<open>wildtest\<close>, against the usual meaning of a pattern.
  \<^item> \<open>Port_Spec\<close>, \<open>Port_Grammar\<close>: the parser \<open>getpts_aux\<close>, a grammar, and what the parser does for each piece of it.
  \<^item> \<open>Port_Meaning\<close>: what a specification means, as a set of protocols for each number, without the functions of the parser; the parser implements it.
  \<^item> \<open>Port_Lists\<close>, \<open>Port_Results\<close>: \<open>getpts\<close>, \<open>removepts\<close>, \<open>gettoppts\<close> and \<open>shortfry\<close>; which ports they give.
  \<^item> \<open>Port_Setup\<close>: the ports that are set up satisfy the hypothesis of the scan engine, \<open>cfg_ok\<close>, so that the results on whole scans
    hold from the command-line text on; what \<open>--exclude-ports\<close> excludes, and that it misses discovery probes of protocols that are not scanned; and
    specifications that do not mean what they say.

  \<^bold>\<open>Targets and host groups\<close>, \<open>TargetGroup.cc\<close>, \<open>targets.cc\<close> and parts of \<open>nmap.cc\<close>, \<open>utils.cc\<close> and \<open>netutil.cc\<close>.  Target expressions yield
  addresses one by one; targets are collected in batches for host discovery, and groups of hosts are handed to the scan engine.
  \<^item> \<open>Target_Group\<close>: the parser of expressions and the blocks of addresses, IPv4 ranges, IPv6 networks and names, with \<open>next\<close>.
  \<^item> \<open>Target_Enum\<close>, \<open>Target_Results\<close>: the odometer of IPv4 ranges, and that an expression yields exactly the addresses of its meaning, in order.
  \<^item> \<open>Target_IPv6\<close>: the same for networks of IPv6 addresses, and the netmask that \<open>--resolve-all\<close> loses.
  \<^item> \<open>Target_Inv\<close>: the locale \<open>shrinking_source\<close>, something that answers and gets smaller with every item, so that it ends; it is interpreted
    on the blocks here, and on the expressions and the batches of hosts below.
  \<^item> \<open>Host_Groups\<close>: \<open>HostGroupState\<close>, the sources of targets, exclusion, deferral, batches, \<open>nexthost\<close> and the loop that forms groups.  The routing table,
    the results of host discovery and random numbers are arguments.
  \<^item> \<open>Group_Inv\<close>, \<open>Group_Results\<close>: their invariants; every target is handed out, and each group fits the scan engine.  Random targets
    (\<open>-iR\<close>) are modelled but left out of these results, since their source does not run dry by itself.

  \<^bold>\<open>Access lists\<close>, \<open>nbase/nbase_addrset.c\<close>.  \<open>Addrset_Trie\<close> has the radix tree of prefixes, \<open>Addrset_Range\<close> the
  specifications of IPv4 ranges and their bit vectors, \<open>Addrset\<close> the address set and the check of \<open>ncat\<close> that a client may connect.
  The abstract view of a tree is the set of addresses that it matches.

  \<^bold>\<open>HTTP\<close>, \<open>ncat/http.c\<close>, \<open>http_digest.c\<close>, \<open>base64.c\<close> and \<open>ncat_proxy.c\<close>.  \<open>Decimal\<close> and \<open>Http_Lex\<close> have numbers and tokens,
  \<open>Http_Uri\<close>, \<open>Http_Header\<close>, \<open>Http_Socket\<close> and \<open>Http_Message\<close> the parsers, printers and the buffered reader,
  \<open>Http_Auth\<close>, \<open>Base64\<close> and \<open>Http_Digest\<close> the authentication, and \<open>Ncat_Proxy\<close> the handler of a connection to
  the proxy from the first byte to the last.  MD5 is a parameter.

  \<^bold>\<open>Events\<close>, \<open>nsock/src/gh_heap.c\<close>.  \<open>Gh_Heap\<close> has the intrusive heap whose nodes know their position; the abstract view is the
  set of its nodes with their keys.

  \<^bold>\<open>Not modelled\<close>.  Building and sending packets, sockets, TLS, threads, processes and the terminal; the decoding of
  captured packets, which arrive decoded; the options; the guess of a source address and host names in forming groups; service and operating system detection,
  traceroute, the idle scan and the FTP bounce scan; output; the Lua engine; the event loop of \<open>nsock\<close>; \<open>nping\<close>; the vendored libraries
  (\<open>libpcap\<close>, \<open>libpcre\<close>, \<open>libssh2\<close>, \<open>liblua\<close>, \<open>libdnet\<close>, \<open>zlib\<close>).  The statistics that only printing uses are left out.
\<close>

end
